(* ===== verification/Jani_Prelude.thy ===== *)
theory Jani_Prelude
  imports Main "HOL-Library.Word" "HOL-Library.Sublist"
begin

text \<open>
  Shared vocabulary of the development: the machine types of the C sources, the lemmas on
  lists, options and words that several components use, the sweep that computes a closure, and
  the collection \<open>frame_simps\<close> of what an operation leaves unchanged.
\<close>

unbundle bit_operations_syntax

type_synonym u8 = "8 word"
type_synonym u16 = "16 word"
type_synonym u32 = "32 word"
type_synonym u64 = "64 word"
type_synonym bytes = "u8 list"

named_theorems frame_simps "what an operation leaves unchanged"

abbreviation UINT32_MAX :: u32 where "UINT32_MAX \<equiv> 0xFFFFFFFF"
abbreviation UINT64_MAX :: u64 where "UINT64_MAX \<equiv> 0xFFFFFFFFFFFFFFFF"

section \<open>Lists as C arrays\<close>

lemma take_update_beyond: "n \<le> i \<Longrightarrow> take n (xs[i := x]) = take n xs"
  by (simp add: take_update_swap list_update_beyond)

lemma nth_list_update': "(xs[i := x]) ! j = (if i = j \<and> i < length xs then x else xs ! j)"
  by (cases "i < length xs") (auto simp: nth_list_update list_update_beyond)

lemma set_take_nth: "n \<le> length xs \<Longrightarrow> set (take n xs) = (\<lambda>i. xs ! i) ` {..<n}"
  by (force simp: set_conv_nth image_iff)

lemma sorted_wrt_take: "sorted_wrt R xs \<Longrightarrow> sorted_wrt R (take n xs)"
  by (metis append_take_drop_id sorted_wrt_append)

lemma find_upt_Some:
  assumes "List.find P [0..<n] = Some i"
  shows "i < n" "P i" "\<And>j. j < i \<Longrightarrow> \<not> P j"
proof -
  from assms obtain k where k: "k < length [0..<n]" "P ([0..<n] ! k)" "i = [0..<n] ! k"
    "\<forall>j<k. \<not> P ([0..<n] ! j)"
    by (auto simp: find_Some_iff)
  then show "i < n" "P i" "\<And>j. j < i \<Longrightarrow> \<not> P j" by auto
qed

lemma find_upt_None: "List.find P [0..<n] = None \<longleftrightarrow> (\<forall>i<n. \<not> P i)"
  by (auto simp: find_None_iff)

lemma find_uptI:
  assumes "i < n" "P i" "\<And>j. j < i \<Longrightarrow> \<not> P j"
  shows "List.find P [0..<n] = Some i"
  using assms by (auto simp: find_Some_iff intro!: exI [of _ i])

lemma list_update_same_length_take:
  "i < n \<Longrightarrow> n \<le> length xs \<Longrightarrow> take n (xs[i := x]) = (take n xs)[i := x]"
  by (simp add: take_update_swap)

lemma map_of_map_Some_iff:
  assumes "distinct (map f xs)"
  shows "map_of (map (\<lambda>x. (f x, x)) xs) k = Some y \<longleftrightarrow> y \<in> set xs \<and> f y = k"
proof -
  have "distinct (map fst (map (\<lambda>x. (f x, x)) xs))"
    using assms by (simp add: comp_def)
  then show ?thesis by (auto simp: map_of_eq_Some_iff)
qed

lemma map_of_map_None_iff:
  "map_of (map (\<lambda>x. (f x, x)) xs) k = None \<longleftrightarrow> k \<notin> f ` set xs"
  by (auto simp: map_of_eq_None_iff image_iff)

text \<open>A C loop that returns 0 at the first element it rejects.\<close>

fun fold_opt :: "('s \<Rightarrow> 'a \<Rightarrow> 's option) \<Rightarrow> 's \<Rightarrow> 'a list \<Rightarrow> 's option" where
  "fold_opt f s [] = Some s"
| "fold_opt f s (x # xs) = (case f s x of None \<Rightarrow> None | Some s' \<Rightarrow> fold_opt f s' xs)"

lemma fold_opt_append:
  "fold_opt f s (xs @ ys) =
     (case fold_opt f s xs of None \<Rightarrow> None | Some s' \<Rightarrow> fold_opt f s' ys)"
  by (induction xs arbitrary: s) (auto split: option.splits)

lemma fold_opt_invariant:
  assumes "fold_opt f s xs = Some s'" "P s"
    and "\<And>s x s'. P s \<Longrightarrow> x \<in> set xs \<Longrightarrow> f s x = Some s' \<Longrightarrow> P s'"
  shows "P s'"
  using assms
proof (induction xs arbitrary: s)
  case (Cons x xs)
  from Cons.prems(1) obtain u where u: "f s x = Some u" "fold_opt f u xs = Some s'"
    by (auto split: option.splits)
  have "P u" using Cons.prems(2,3) u(1) by (meson list.set_intros(1))
  then show ?case using Cons.IH [OF u(2)] Cons.prems(3) by (meson list.set_intros(2))
qed simp

section \<open>Marking until nothing changes\<close>

text \<open>
  Two revocations of the kernel compute a transitive closure in the same way: sweep over an
  array, mark what an already marked element leads to, and repeat while a sweep changed
  something. \<open>sweep\<close> returns the new marks and the \<open>changed\<close> flag. The locale
  states what one sweep does; the loop then ends with exactly the closure of what was marked
  at the start.
\<close>

locale closure_sweep =
  fixes sweep :: "'s \<Rightarrow> 's \<times> bool"
    and loop :: "'s \<Rightarrow> 's"
    and marked :: "'s \<Rightarrow> 'a set"
    and edge :: "'a \<Rightarrow> 'a \<Rightarrow> bool"
    and good :: "'s \<Rightarrow> bool"
    and universe :: "'a set"
  assumes loop_unfold: "loop s = (case sweep s of (s', changed) \<Rightarrow> if changed then loop s' else s')"
    and finite_universe: "finite universe"
    and good_sweep: "good s \<Longrightarrow> good (fst (sweep s))"
    and good_universe: "good s \<Longrightarrow> marked s \<subseteq> universe"
    and sweep_sound: "good s \<Longrightarrow> y \<in> marked (fst (sweep s)) \<Longrightarrow> \<exists>x\<in>marked s. edge\<^sup>*\<^sup>* x y"
    and sweep_changed: "good s \<Longrightarrow> snd (sweep s) \<Longrightarrow> marked s \<subset> marked (fst (sweep s))"
    and sweep_closed: "good s \<Longrightarrow> \<not> snd (sweep s) \<Longrightarrow>
      fst (sweep s) = s \<and> (\<forall>x\<in>marked s. \<forall>y. edge x y \<longrightarrow> y \<in> marked s)"
begin

lemma loop_result:
  "good s \<Longrightarrow> good (loop s) \<and> marked (loop s) = {y. \<exists>x\<in>marked s. edge\<^sup>*\<^sup>* x y}"
proof (induction "card (universe - marked s)" arbitrary: s rule: less_induct)
  case less
  obtain s' ch where sw: "sweep s = (s', ch)" by force
  show ?case
  proof (cases ch)
    case True
    have ss: "marked s \<subset> marked s'" using sweep_changed [OF less.prems] sw True by simp
    have g: "good s'" using good_sweep [OF less.prems] sw by simp
    have "universe - marked s' \<subset> universe - marked s" using ss good_universe [OF g] by blast
    then have "card (universe - marked s') < card (universe - marked s)"
      using finite_universe by (simp add: psubset_card_mono)
    from less.hyps [OF this g] have IH: "good (loop s')"
      "marked (loop s') = {y. \<exists>x\<in>marked s'. edge\<^sup>*\<^sup>* x y}" by auto
    have "{y. \<exists>x\<in>marked s'. edge\<^sup>*\<^sup>* x y} = {y. \<exists>x\<in>marked s. edge\<^sup>*\<^sup>* x y}"
      using ss sweep_sound [OF less.prems, unfolded sw fst_conv]
      by (blast intro: rtranclp_trans)
    with IH show ?thesis by (simp add: loop_unfold [of s] sw True)
  next
    case False
    then have *: "s' = s" "\<And>x y. x \<in> marked s \<Longrightarrow> edge x y \<Longrightarrow> y \<in> marked s"
      using sweep_closed [OF less.prems] sw by auto
    have "edge\<^sup>*\<^sup>* x y \<Longrightarrow> x \<in> marked s \<Longrightarrow> y \<in> marked s" for x y
      by (induction rule: rtranclp_induct) (auto intro: *(2))
    with False show ?thesis using less.prems by (auto simp: loop_unfold [of s] sw *(1))
  qed
qed

end

section \<open>Words\<close>

lemma word_lt_unat: "(x :: 'a::len word) < y \<longleftrightarrow> unat x < unat y"
  by (rule word_less_nat_alt)

lemma word_le_unat: "(x :: 'a::len word) \<le> y \<longleftrightarrow> unat x \<le> unat y"
  by (rule word_le_nat_alt)

lemmas word_order_unat = word_lt_unat word_le_unat

lemma unat_add_no_wrap:
  "unat (x :: 'a::len word) + unat y < 2 ^ LENGTH('a) \<Longrightarrow> unat (x + y) = unat x + unat y"
  by (simp add: unat_word_ariths)

lemma unat_inc:
  "(x :: 'a::len word) \<noteq> - 1 \<Longrightarrow> unat (x + 1) = unat x + 1"
  by (metis add.commute add.right_inverse unatSuc Suc_eq_plus1 add_eq_0_iff2)

lemma uint_max_minus_one: "UINT32_MAX = - 1" "UINT64_MAX = - 1"
  by simp_all

lemma unat_inc32: "x \<noteq> UINT32_MAX \<Longrightarrow> unat (x + 1) = unat x + 1"
  unfolding uint_max_minus_one by (rule unat_inc)

lemma unat_inc64: "x \<noteq> UINT64_MAX \<Longrightarrow> unat (x + 1) = unat x + 1"
  unfolding uint_max_minus_one by (rule unat_inc)

lemma word_and_subset_trans:
  assumes "(a AND b) = (a :: 'a::len word)" "(b AND c) = b"
  shows "a AND c = a"
proof -
  have "a AND c = (a AND b) AND c" using assms by simp
  also have "\<dots> = a AND (b AND c)" by (simp add: and.assoc)
  finally show ?thesis using assms by simp
qed

lemma xor_cancel_right: "(a XOR c) = (b XOR c) \<longleftrightarrow> a = (b :: 'a::len word)"
proof
  assume "a XOR c = b XOR c"
  then have "(a XOR c) XOR c = (b XOR c) XOR c" by simp
  then show "a = b" by (simp add: xor.assoc)
qed simp

lemma xor_cancel_left: "(c XOR a) = (c XOR b) \<longleftrightarrow> a = (b :: 'a::len word)"
  using xor_cancel_right [of a c b] by (simp add: xor.commute)

lemma unat64_less: "unat (x :: u64) < 2 ^ 64"
  using unsigned_less [of x] by simp

lemma unat_of_nat64: "k < 2 ^ 64 \<Longrightarrow> unat (of_nat k :: u64) = k"
  by (simp add: unat_of_nat)

text \<open>Rounding down to a multiple of a power of two with a mask.\<close>

lemma unat_round_down:
  assumes "k < 64"
  shows "unat (x AND NOT (mask k) :: u64) = unat x div 2 ^ k * 2 ^ k"
proof -
  have "x AND NOT (mask k) = push_bit k (drop_bit k x)"
    by (rule bit_eqI) (auto simp: bit_and_iff bit_not_iff bit_push_bit_iff bit_drop_bit_eq bit_mask_iff)
  also have "\<dots> = x div 2 ^ k * 2 ^ k" by (simp add: push_bit_eq_mult drop_bit_eq_div)
  finally have eq: "x AND NOT (mask k) = x div 2 ^ k * 2 ^ k" .
  have "(2::nat) ^ k < 2 ^ 64" using assms by (intro power_strict_increasing) auto
  then have "unat (of_nat (2 ^ k) :: u64) = 2 ^ k" by (rule unat_of_nat64)
  then have p: "unat (2 ^ k :: u64) = 2 ^ k" by simp
  have "unat x div 2 ^ k * 2 ^ k \<le> unat x" by simp
  moreover have "unat x < 2 ^ 64" by (rule unat64_less)
  ultimately have "unat x div 2 ^ k * 2 ^ k < 2 ^ 64" by (rule le_less_trans)
  moreover have "unat x div 2 ^ k < 2 ^ 64" using unat64_less [of x] by (meson div_le_dividend le_less_trans)
  ultimately show ?thesis unfolding eq using p by (simp add: unat_word_ariths unat_div)
qed

section \<open>Bitmaps\<close>

text \<open>The single-bit masks with which the kernel addresses bit \<open>t mod 8\<close> of byte \<open>t div 8\<close>.\<close>

lemma mod_8_less [simp]: "unat (t mod 8 :: u64) < 8"
  by (simp add: unat_mod)

lemma bit_byte_mask: "bit (2 ^ unat (t mod 8 :: u64) :: u8) k \<longleftrightarrow> k = unat (t mod 8)"
  by (auto simp: bit_exp_iff)

lemma and_byte_mask:
  fixes w :: u8
  shows "(w AND 2 ^ unat (t mod 8 :: u64) \<noteq> 0) \<longleftrightarrow> bit w (unat (t mod 8))"
proof
  assume "w AND 2 ^ unat (t mod 8 :: u64) \<noteq> 0"
  then obtain k where "bit (w AND 2 ^ unat (t mod 8 :: u64)) k" by (auto simp: bit_eq_iff)
  then show "bit w (unat (t mod 8))" by (auto simp: bit_and_iff bit_byte_mask)
next
  assume "bit w (unat (t mod 8))"
  then have "bit (w AND 2 ^ unat (t mod 8 :: u64)) (unat (t mod 8))" by (simp add: bit_and_iff bit_byte_mask)
  then show "w AND 2 ^ unat (t mod 8 :: u64) \<noteq> 0" by force
qed

lemma byte_and_bit_inj:
  "unat (t div 8) = unat (u div 8) \<Longrightarrow> unat (t mod 8) = unat (u mod 8) \<Longrightarrow> t = (u :: u64)"
  by (metis div_mult_mod_eq word_unat_eq_iff)

end
