(* ===== verification/Object_Id.thy ===== *)
theory Object_Id
  imports Jani_Prelude
begin

text \<open>
  \<^verbatim>\<open>kernel/obj/object_id.{h,c}\<close>: the 128-bit object identifier and its order. The
  comparison of the code is the strict part of a linear order, so the library's lemmas on
  sorted lists apply to the object table.
\<close>

datatype object_id = Object_Id (high: u64) (low: u64)

definition object_id_is_zero :: "object_id \<Rightarrow> bool" where
  "object_id_is_zero i \<longleftrightarrow> high i = 0 \<and> low i = 0"

definition object_id_equal :: "object_id \<Rightarrow> object_id \<Rightarrow> bool" where
  "object_id_equal l r \<longleftrightarrow> high l = high r \<and> low l = low r"

definition object_id_compare :: "object_id \<Rightarrow> object_id \<Rightarrow> int" where
  "object_id_compare l r =
     (if high l < high r then -1
      else if high l > high r then 1
      else if low l < low r then -1
      else if low l > low r then 1
      else 0)"

abbreviation zero_id :: object_id where
  "zero_id \<equiv> Object_Id 0 0"

instantiation object_id :: linorder
begin

definition less_eq_object_id :: "object_id \<Rightarrow> object_id \<Rightarrow> bool" where
  "less_eq_object_id a b \<longleftrightarrow> high a < high b \<or> (high a = high b \<and> low a \<le> low b)"

definition less_object_id :: "object_id \<Rightarrow> object_id \<Rightarrow> bool" where
  "less_object_id a b \<longleftrightarrow> high a < high b \<or> (high a = high b \<and> low a < low b)"

instance
  by standard (auto simp: less_eq_object_id_def less_object_id_def object_id.expand)

end

lemma object_id_equal_eq [simp]: "object_id_equal a b \<longleftrightarrow> a = b"
  by (auto simp: object_id_equal_def object_id.expand)

lemma object_id_is_zero_eq: "object_id_is_zero a \<longleftrightarrow> a = zero_id"
  by (cases a) (simp add: object_id_is_zero_def)

lemma object_id_is_zero_zero [simp]: "object_id_is_zero zero_id"
  by (simp add: object_id_is_zero_def)

lemma object_id_compare_less [simp]: "object_id_compare a b < 0 \<longleftrightarrow> a < b"
  by (auto simp: object_id_compare_def less_object_id_def)

lemma object_id_compare_greater [simp]: "0 < object_id_compare a b \<longleftrightarrow> b < a"
  by (auto simp: object_id_compare_def less_object_id_def)

lemma object_id_compare_ge [simp]: "object_id_compare a b \<ge> 0 \<longleftrightarrow> b \<le> a"
  using object_id_compare_less [of a b] by (simp only: linorder_not_less [symmetric])

end
