(* ===== verification/Object_Table.thy ===== *)
theory Object_Table
  imports Object_Id
begin

text \<open>
  \<^verbatim>\<open>kernel/obj/object_table.{h,c}\<close>: the sorted array that maps an object id to its
  version and its extent on disk. \<open>entries\<close> is the caller's storage array (its length is
  the capacity), of which the first \<open>count\<close> elements are in use; a \<open>size_t\<close> index
  into it is a \<open>nat\<close>, since no index passes the length of the array. An array that is
  \<open>NULL\<close> is the empty array with capacity 0, which is how \<open>object_table_init\<close>
  stores it. A function that returns 0 or \<open>NULL\<close> returns \<open>None\<close>; it then leaves
  the table as it was.
\<close>

section \<open>The array and its operations\<close>

record object_table_entry =
  e_id :: object_id
  e_version :: u64
  e_first_sector :: u64
  e_sector_count :: u64

record object_table =
  entries :: "object_table_entry list"
  t_count :: nat
  t_capacity :: nat

definition zero_entry :: object_table_entry where
  "zero_entry = \<lparr>e_id = zero_id, e_version = 0, e_first_sector = 0, e_sector_count = 0\<rparr>"

definition object_table_init :: "object_table_entry list option \<Rightarrow> nat \<Rightarrow> object_table" where
  "object_table_init storage capacity =
     (case storage of
        None \<Rightarrow> \<lparr>entries = [], t_count = 0, t_capacity = 0\<rparr>
      | Some es \<Rightarrow> \<lparr>entries = es, t_count = 0, t_capacity = capacity\<rparr>)"

text \<open>The search loop of \<open>object_table_find\<close>: the index of the entry, if it is there.\<close>

function find_loop :: "object_table_entry list \<Rightarrow> object_id \<Rightarrow> nat \<Rightarrow> nat \<Rightarrow> nat option" where
  "find_loop es i left right =
     (if left < right then
        let middle = left + (right - left) div 2;
            comparison = object_id_compare (e_id (es ! middle)) i
        in if comparison < 0 then find_loop es i (middle + 1) right
           else if comparison > 0 then find_loop es i left middle
           else Some middle
      else None)"
  by pat_completeness auto
termination
  by (relation "measure (\<lambda>(es, i, left, right). right - left)") auto

text \<open>The search loop of \<open>object_table_upsert\<close> and \<open>object_table_remove\<close>.\<close>

function position_loop :: "object_table_entry list \<Rightarrow> object_id \<Rightarrow> nat \<Rightarrow> nat \<Rightarrow> nat" where
  "position_loop es i left right =
     (if left < right then
        let middle = left + (right - left) div 2;
            comparison = object_id_compare (e_id (es ! middle)) i
        in if comparison < 0 then position_loop es i (middle + 1) right
           else position_loop es i left middle
      else left)"
  by pat_completeness auto
termination
  by (relation "measure (\<lambda>(es, i, left, right). right - left)") auto

declare find_loop.simps [simp del] position_loop.simps [simp del]

definition object_table_find :: "object_table \<Rightarrow> object_id \<Rightarrow> object_table_entry option" where
  "object_table_find t i =
     (if t_count t > t_capacity t \<or> object_id_is_zero i then None
      else map_option (\<lambda>k. entries t ! k) (find_loop (entries t) i 0 (t_count t)))"

text \<open>\<open>while (index > position) entries[index] = entries[index - 1], index--\<close>\<close>

fun shift_up :: "object_table_entry list \<Rightarrow> nat \<Rightarrow> nat \<Rightarrow> object_table_entry list" where
  "shift_up es position index =
     (if index > position then shift_up (es[index := es ! (index - 1)]) position (index - 1)
      else es)"

text \<open>\<open>while (position + 1 < count) entries[position] = entries[position + 1], position++\<close>\<close>

function shift_down :: "object_table_entry list \<Rightarrow> nat \<Rightarrow> nat \<Rightarrow> object_table_entry list" where
  "shift_down es position n =
     (if position + 1 < n then shift_down (es[position := es ! (position + 1)]) (position + 1) n
      else es)"
  by pat_completeness auto
termination
  by (relation "measure (\<lambda>(es, position, n). n - position)") auto

declare shift_up.simps [simp del] shift_down.simps [simp del]

definition object_table_upsert :: "object_table \<Rightarrow> object_table_entry \<Rightarrow> object_table option" where
  "object_table_upsert t e =
     (if t_count t > t_capacity t \<or> object_id_is_zero (e_id e) \<or> e_version e = 0 \<or>
         e_first_sector e = 0 \<or> e_sector_count e = 0 then None
      else let position = position_loop (entries t) (e_id e) 0 (t_count t) in
        if position < t_count t \<and> object_id_equal (e_id (entries t ! position)) (e_id e) then
          (if e_version e \<le> e_version (entries t ! position) then None
           else Some (t\<lparr>entries := (entries t)[position := e]\<rparr>))
        else if t_count t = t_capacity t then None
        else Some (t\<lparr>entries := (shift_up (entries t) position (t_count t))[position := e],
                     t_count := t_count t + 1\<rparr>))"

definition object_table_remove :: "object_table \<Rightarrow> object_id \<Rightarrow> object_table option" where
  "object_table_remove t i =
     (if t_count t > t_capacity t \<or> object_id_is_zero i then None
      else let position = position_loop (entries t) i 0 (t_count t) in
        if position = t_count t \<or> \<not> object_id_equal (e_id (entries t ! position)) i then None
        else Some (t\<lparr>entries :=
                       (shift_down (entries t) position (t_count t))[t_count t - 1 := zero_entry],
                     t_count := t_count t - 1\<rparr>))"

section \<open>The array holds a finite map\<close>

definition live :: "object_table \<Rightarrow> object_table_entry list" where
  "live t = take (t_count t) (entries t)"

definition entry_ok :: "object_table_entry \<Rightarrow> bool" where
  "entry_ok e \<longleftrightarrow> \<not> object_id_is_zero (e_id e) \<and> e_version e \<noteq> 0 \<and>
     e_first_sector e \<noteq> 0 \<and> e_sector_count e \<noteq> 0"

definition ids_sorted :: "object_table_entry list \<Rightarrow> bool" where
  "ids_sorted es \<longleftrightarrow> sorted_wrt (<) (map e_id es)"

definition table_inv :: "object_table \<Rightarrow> bool" where
  "table_inv t \<longleftrightarrow> t_count t \<le> t_capacity t \<and> length (entries t) = t_capacity t \<and>
     ids_sorted (live t) \<and> list_all entry_ok (live t)"

definition entry_map :: "object_table_entry list \<Rightarrow> object_id \<rightharpoonup> object_table_entry" where
  "entry_map es = map_of (map (\<lambda>e. (e_id e, e)) es)"

definition table_map :: "object_table \<Rightarrow> object_id \<rightharpoonup> object_table_entry" where
  "table_map t = entry_map (live t)"

subsection \<open>Binary search\<close>

lemma ids_sorted_nth_less:
  "ids_sorted es \<Longrightarrow> j < k \<Longrightarrow> k < length es \<Longrightarrow> e_id (es ! j) < e_id (es ! k)"
  by (force simp: ids_sorted_def sorted_wrt_iff_nth_less)

lemma ids_sorted_nth_le:
  "ids_sorted es \<Longrightarrow> j \<le> k \<Longrightarrow> k < length es \<Longrightarrow> e_id (es ! j) \<le> e_id (es ! k)"
  using ids_sorted_nth_less [of es j k] by (cases "j = k") auto

lemma position_loop_spec:
  assumes "ids_sorted (take n es)" "right \<le> n" "n \<le> length es" "left \<le> right"
    and "\<forall>k<left. e_id (es ! k) < i" "\<forall>k. right \<le> k \<and> k < n \<longrightarrow> i \<le> e_id (es ! k)"
  shows "position_loop es i left right \<le> n"
    and "\<forall>k<position_loop es i left right. e_id (es ! k) < i"
    and "\<forall>k. position_loop es i left right \<le> k \<and> k < n \<longrightarrow> i \<le> e_id (es ! k)"
proof (atomize (full), use assms in \<open>induction es i left right rule: position_loop.induct\<close>)
  case (1 es i left right)
  show ?case
  proof (cases "left < right")
    case False
    then have "position_loop es i left right = left" by (subst position_loop.simps) simp
    with False "1.prems" show ?thesis by simp
  next
    case True
    define middle where "middle = left + (right - left) div 2"
    have mid: "left \<le> middle" "middle < right" using True by (auto simp: middle_def)
    have le: "e_id (es ! j) \<le> e_id (es ! k)" if "j \<le> k" "k < n" for j k
      using ids_sorted_nth_le [OF "1.prems"(1), of j k] that "1.prems"(3) by simp
    show ?thesis
    proof (cases "e_id (es ! middle) < i")
      case less: True
      have "\<forall>k<middle + 1. e_id (es ! k) < i"
        using le_less_trans [OF le [of _ middle] less] mid "1.prems"(2) by simp
      then show ?thesis
        using "1.IH"(1) [OF True middle_def refl] "1.prems" less mid True
        by (simp add: position_loop.simps [of es i left right] Let_def middle_def)
    next
      case False
      have "\<forall>k. middle \<le> k \<and> k < n \<longrightarrow> i \<le> e_id (es ! k)"
        using le [of middle] False by (auto simp: not_less intro: order_trans)
      then show ?thesis
        using "1.IH"(2) [OF True middle_def refl] "1.prems" False mid True
        by (simp add: position_loop.simps [of es i left right] Let_def middle_def)
    qed
  qed
qed

lemma find_loop_Some:
  "find_loop es i left right = Some k \<Longrightarrow> left \<le> k \<and> k < right \<and> e_id (es ! k) = i"
proof (induction es i left right rule: find_loop.induct)
  case (1 es i left right)
  then show ?case
    by (subst (asm) (3) find_loop.simps)
      (force simp: Let_def not_less [symmetric] split: if_splits)
qed

lemma find_loop_None:
  assumes "ids_sorted (take n es)" "right \<le> n" "n \<le> length es" "find_loop es i left right = None"
    "left \<le> k" "k < right"
  shows "e_id (es ! k) \<noteq> i"
  using assms
proof (induction es i left right rule: find_loop.induct)
  case (1 es i left right)
  define middle where "middle = left + (right - left) div 2"
  have lr: "left < right" using "1.prems" by simp
  have mid: "left \<le> middle" "middle < right" using lr by (auto simp: middle_def)
  have lt: "e_id (es ! j) < e_id (es ! k)" if "j < k" "k < n" for j k
    using ids_sorted_nth_less [OF "1.prems"(1), of j k] that "1.prems"(3) by simp
  consider "e_id (es ! middle) < i" | "i < e_id (es ! middle)" | "e_id (es ! middle) = i"
    by (meson linorder_cases)
  then show ?case
  proof cases
    case 1
    show ?thesis
    proof (cases "middle < k")
      case True
      with "1.IH"(1) [OF lr middle_def refl] 1 "1.prems" lr show ?thesis
        by (simp add: find_loop.simps [of es i left right] Let_def middle_def)
    next
      case False
      then show ?thesis using lt [of k middle] 1 mid "1.prems" by (cases "k = middle") force+
    qed
  next
    case 2
    show ?thesis
    proof (cases "k < middle")
      case True
      with "1.IH"(2) [OF lr middle_def refl] 2 less_not_sym [OF 2] "1.prems" lr mid show ?thesis
        by (simp add: find_loop.simps [of es i left right] Let_def middle_def)
    next
      case False
      then show ?thesis using lt [of middle k] 2 mid "1.prems" by (cases "k = middle") force+
    qed
  next
    case 3
    then have "find_loop es i left right = Some middle"
      using lr by (simp add: find_loop.simps [of es i left right] Let_def middle_def
        object_id_compare_def)
    with "1.prems" show ?thesis by simp
  qed
qed

subsection \<open>The loops that move entries\<close>

lemma length_shift_up [simp]: "length (shift_up es p n) = length es"
  by (induction es p n rule: shift_up.induct) (subst shift_up.simps, simp)

lemma shift_up_nth:
  "p \<le> n \<Longrightarrow> n < length es \<Longrightarrow> k < length es \<Longrightarrow>
     shift_up es p n ! k = (if p < k \<and> k \<le> n then es ! (k - 1) else es ! k)"
proof (induction es p n rule: shift_up.induct)
  case (1 es p n)
  show ?case
  proof (cases "n > p")
    case True
    then have "shift_up es p n = shift_up (es[n := es ! (n - 1)]) p (n - 1)"
      by (subst shift_up.simps) simp
    with "1.IH" [OF True] True "1.prems" show ?thesis by (auto simp: nth_list_update)
  next
    case False
    then have "shift_up es p n = es" by (subst shift_up.simps) simp
    with False "1.prems" show ?thesis by auto
  qed
qed

lemma length_shift_down [simp]: "length (shift_down es p n) = length es"
  by (induction es p n rule: shift_down.induct) (subst shift_down.simps, simp)

lemma shift_down_nth:
  "p < n \<Longrightarrow> n \<le> length es \<Longrightarrow> k < length es \<Longrightarrow>
     shift_down es p n ! k = (if p \<le> k \<and> k + 1 < n then es ! (k + 1) else es ! k)"
proof (induction es p n rule: shift_down.induct)
  case (1 es p n)
  show ?case
  proof (cases "p + 1 < n")
    case True
    then have "shift_down es p n = shift_down (es[p := es ! (p + 1)]) (p + 1) n"
      by (subst shift_down.simps) simp
    with "1.IH" [OF True] True "1.prems" show ?thesis by (auto simp: nth_list_update)
  next
    case False
    then have "shift_down es p n = es" by (subst shift_down.simps) simp
    with False "1.prems" show ?thesis by auto
  qed
qed

text \<open>Both loops are list surgery on the part of the array in use.\<close>

lemma take_shift_up:
  assumes "p \<le> n" "n < length es"
  shows "take (n + 1) ((shift_up es p n)[p := e]) = take p es @ e # drop p (take n es)"
  using assms
  by (intro nth_equalityI) (auto simp: nth_append nth_list_update shift_up_nth nth_Cons')

lemma take_shift_down:
  assumes "p < n" "n \<le> length es"
  shows "take (n - 1) ((shift_down es p n)[n - 1 := e]) = take p es @ drop (p + 1) (take n es)"
  using assms
  by (intro nth_equalityI) (auto simp: nth_append nth_list_update shift_down_nth)

subsection \<open>Sorted splits\<close>

lemma ids_sorted_distinct: "ids_sorted es \<Longrightarrow> distinct (map e_id es)"
  by (simp add: ids_sorted_def strict_sorted_iff)

lemma ids_sorted_append:
  "ids_sorted (xs @ ys) \<longleftrightarrow> ids_sorted xs \<and> ids_sorted ys \<and>
     (\<forall>x\<in>set xs. \<forall>y\<in>set ys. e_id x < e_id y)"
  by (auto simp: ids_sorted_def sorted_wrt_append)

lemma ids_sorted_Cons:
  "ids_sorted (x # ys) \<longleftrightarrow> ids_sorted ys \<and> (\<forall>y\<in>set ys. e_id x < e_id y)"
  by (auto simp: ids_sorted_def)

lemma entry_map_Some_iff:
  "ids_sorted es \<Longrightarrow> entry_map es i = Some e \<longleftrightarrow> e \<in> set es \<and> e_id e = i"
  by (simp add: entry_map_def map_of_map_Some_iff ids_sorted_distinct)

lemma entry_map_None_iff: "entry_map es i = None \<longleftrightarrow> i \<notin> e_id ` set es"
  by (simp add: entry_map_def map_of_map_None_iff)

lemma entry_map_append [simp]: "entry_map (xs @ ys) = entry_map ys ++ entry_map xs"
  by (simp add: entry_map_def)

lemma entry_map_Cons [simp]: "entry_map (x # xs) = (entry_map xs)(e_id x \<mapsto> x)"
  by (simp add: entry_map_def)

text \<open>
  What the position loop finds in a table that satisfies the invariant: the live entries
  split into those below the id and those at or above it.
\<close>

lemma table_split:
  assumes "table_inv t" and p: "p = position_loop (entries t) i 0 (t_count t)"
  obtains xs ys where "live t = xs @ ys" "length xs = p" "p \<le> t_count t"
    "\<forall>x\<in>set xs. e_id x < i" "\<forall>y\<in>set ys. i \<le> e_id y"
proof -
  let ?n = "t_count t" and ?es = "entries t"
  have inv: "ids_sorted (take ?n ?es)" "?n \<le> length ?es"
    using assms(1) by (auto simp: table_inv_def live_def)
  have spec: "p \<le> ?n" "\<forall>k<p. e_id (?es ! k) < i" "\<forall>k. p \<le> k \<and> k < ?n \<longrightarrow> i \<le> e_id (?es ! k)"
    unfolding p by (rule position_loop_spec [OF inv(1) order_refl inv(2)]; force)+
  show thesis
  proof (rule that [of "take p (live t)" "drop p (live t)"])
    show "length (take p (live t)) = p" using spec(1) inv(2) by (simp add: live_def)
    show "\<forall>x\<in>set (take p (live t)). e_id x < i"
      using spec inv(2) by (auto simp: live_def in_set_conv_nth)
    show "\<forall>y\<in>set (drop p (live t)). i \<le> e_id y"
      using spec inv(2) by (auto simp: live_def in_set_conv_nth)
  qed (use spec(1) in simp_all)
qed

section \<open>Functional correctness of the operations\<close>

lemma find_eq_map: "table_inv t \<Longrightarrow> object_table_find t i = table_map t i"
proof -
  assume inv: "table_inv t"
  let ?n = "t_count t" and ?es = "entries t"
  have srt: "ids_sorted (take ?n ?es)" "?n \<le> length ?es" "ids_sorted (live t)"
    using inv by (auto simp: table_inv_def live_def)
  show ?thesis
  proof (cases "object_id_is_zero i")
    case True
    with inv have "i \<notin> e_id ` set (live t)"
      by (auto simp: table_inv_def list_all_iff entry_ok_def)
    then have "table_map t i = None" by (simp add: table_map_def entry_map_None_iff)
    with True show ?thesis by (simp add: object_table_find_def)
  next
    case nz: False
    show ?thesis
    proof (cases "find_loop ?es i 0 ?n")
      case None
      then have "i \<notin> e_id ` set (live t)"
        using find_loop_None [OF srt(1) order_refl srt(2) None]
        by (force simp: live_def in_set_conv_nth)
      then have "table_map t i = None" by (simp add: table_map_def entry_map_None_iff)
      with None show ?thesis by (simp add: object_table_find_def)
    next
      case (Some k)
      from find_loop_Some [OF this] have k: "k < ?n" "e_id (?es ! k) = i" by auto
      then have "entry_map (live t) i = Some (?es ! k)"
        using srt by (auto simp: entry_map_Some_iff live_def in_set_conv_nth intro!: exI [of _ k])
      with Some nz inv show ?thesis
        by (simp add: object_table_find_def table_map_def table_inv_def)
    qed
  qed
qed

lemma table_map_split:
  assumes "live t = xs @ ys" "table_inv t" "\<forall>x\<in>set xs. e_id x < i" "\<forall>y\<in>set ys. i \<le> e_id y"
  shows "table_map t i = (case ys of [] \<Rightarrow> None | y # _ \<Rightarrow> if e_id y = i then Some y else None)"
proof -
  have srt: "ids_sorted (xs @ ys)" using assms by (simp add: table_inv_def)
  have xs: "entry_map xs i = None" using assms(3) by (auto simp: entry_map_None_iff)
  show ?thesis
  proof (cases ys)
    case Nil
    with xs assms(1) show ?thesis by (simp add: table_map_def entry_map_def)
  next
    case (Cons y zs)
    with srt have "entry_map zs i = None \<or> e_id y \<noteq> i"
      by (auto simp: entry_map_None_iff ids_sorted_append ids_sorted_Cons)
    moreover have "e_id y \<noteq> i \<Longrightarrow> entry_map zs i = None"
      using Cons srt assms(4)
      by (force simp: entry_map_None_iff ids_sorted_append ids_sorted_Cons)
    ultimately show ?thesis
      using xs Cons assms(1) by (auto simp: table_map_def map_add_def split: option.splits)
  qed
qed

text \<open>
  \<open>object_table_upsert\<close> either replaces the entry of the id or inserts it at the place
  that keeps the array sorted; it fails exactly on a malformed entry, on a version that is
  not newer and on a full table.
\<close>

lemma upsert_result:
  assumes inv: "table_inv t" and up: "object_table_upsert t e = Some t'"
  shows "table_inv t'" "table_map t' = (table_map t)(e_id e \<mapsto> e)" "t_capacity t' = t_capacity t"
    "t_count t' = (if table_map t (e_id e) = None then t_count t + 1 else t_count t)"
    "length (entries t') = length (entries t)"
proof -
  define p where "p = position_loop (entries t) (e_id e) 0 (t_count t)"
  obtain xs ys where s: "live t = xs @ ys" "length xs = p" "p \<le> t_count t"
    "\<forall>x\<in>set xs. e_id x < e_id e" "\<forall>y\<in>set ys. e_id e \<le> e_id y"
    using table_split [OF inv p_def] by blast
  note m = table_map_split [OF s(1) inv s(4,5)]
  have len: "t_count t \<le> length (entries t)" using inv by (simp add: table_inv_def)
  have ok: "entry_ok e"
    using up by (auto simp: object_table_upsert_def entry_ok_def split: if_splits)
  have xs_e: "entry_map xs (e_id e) = None" using s(4) by (auto simp: entry_map_None_iff)
  have "table_inv t' \<and> table_map t' = (table_map t)(e_id e \<mapsto> e) \<and> t_capacity t' = t_capacity t \<and>
    t_count t' = (if table_map t (e_id e) = None then t_count t + 1 else t_count t) \<and>
    length (entries t') = length (entries t)"
  proof (cases "p < t_count t \<and> e_id (entries t ! p) = e_id e")
    case True
    have t': "t' = t\<lparr>entries := (entries t)[p := e]\<rparr>"
      using up True by (auto simp: object_table_upsert_def p_def Let_def split: if_splits)
    have "length (live t) = t_count t" using len by (simp add: live_def)
    with True s obtain y zs where ys: "ys = y # zs" by (cases ys) auto
    have y: "y = entries t ! p"
      using s(1,2) ys True by (metis live_def nth_append_length nth_take)
    have "live t' = (live t)[p := e]"
      using t' True len by (simp add: live_def list_update_same_length_take)
    then have live': "live t' = xs @ e # zs" using s ys by (simp add: list_update_append)
    have "ids_sorted (live t')"
      using inv s(1) ys y True
      by (simp add: live' table_inv_def ids_sorted_append ids_sorted_Cons)
    then have "table_inv t'"
      using inv ok s(1) ys unfolding table_inv_def live' by (simp add: t' list_all_iff)
    moreover have "table_map t' = (table_map t)(e_id e \<mapsto> e)"
      using s(1) ys y True xs_e
      by (auto simp: table_map_def live' map_add_def fun_eq_iff split: option.splits)
    ultimately show ?thesis using t' m ys y True by simp
  next
    case False
    have t': "t' = t\<lparr>entries := (shift_up (entries t) p (t_count t))[p := e],
                     t_count := t_count t + 1\<rparr>" and room: "t_count t < t_capacity t"
      using up False inv
      by (auto simp: object_table_upsert_def p_def Let_def table_inv_def split: if_splits)
    have live': "live t' = xs @ e # ys"
      using t' room inv s take_shift_up [OF s(3), of "entries t" e]
      by (simp add: live_def table_inv_def) (metis append_eq_conv_conj min.absorb1 take_take)
    have ys_e: "\<forall>y\<in>set ys. e_id e < e_id y"
    proof (cases ys)
      case (Cons y zs)
      have "length (live t) = t_count t" using len by (simp add: live_def)
      with Cons s have "p < t_count t" by simp
      moreover have "y = entries t ! p"
        using s(1,2) Cons calculation by (metis live_def nth_append_length nth_take)
      ultimately have "e_id y \<noteq> e_id e" using False by simp
      with s(5) inv s(1) Cons show ?thesis
        by (auto simp: table_inv_def ids_sorted_append ids_sorted_Cons dest: le_neq_trans)
    qed simp
    have "table_inv t'"
      using inv ok s(1,4) ys_e room unfolding table_inv_def live'
      by (auto simp: t' ids_sorted_append ids_sorted_Cons list_all_iff)
    moreover have none: "table_map t (e_id e) = None"
      using m ys_e by (auto split: list.splits)
    moreover have "table_map t' = (table_map t)(e_id e \<mapsto> e)"
      using s(1) xs_e by (auto simp: table_map_def live' map_add_def fun_eq_iff split: option.splits)
    ultimately show ?thesis using t' by simp
  qed
  then show "table_inv t'" "table_map t' = (table_map t)(e_id e \<mapsto> e)"
    "t_capacity t' = t_capacity t" "t_count t' = (if table_map t (e_id e) = None then t_count t + 1 else t_count t)"
    "length (entries t') = length (entries t)"
    by auto
qed

lemma upsert_defined:
  assumes inv: "table_inv t"
  shows "object_table_upsert t e \<noteq> None \<longleftrightarrow> entry_ok e \<and>
    (case table_map t (e_id e) of
       Some old \<Rightarrow> e_version old < e_version e | None \<Rightarrow> t_count t < t_capacity t)"
proof -
  define p where "p = position_loop (entries t) (e_id e) 0 (t_count t)"
  obtain xs ys where s: "live t = xs @ ys" "length xs = p" "p \<le> t_count t"
    "\<forall>x\<in>set xs. e_id x < e_id e" "\<forall>y\<in>set ys. e_id e \<le> e_id y"
    using table_split [OF inv p_def] by blast
  note m = table_map_split [OF s(1) inv s(4,5)]
  have "length (live t) = t_count t" using inv by (simp add: live_def table_inv_def)
  then have "ys = [] \<longleftrightarrow> p = t_count t" using s by auto
  moreover have "ys = y # zs \<Longrightarrow> entries t ! p = y" for y zs
    using s(1,2) calculation s(3)
    by (metis le_neq_implies_less list.distinct(1) live_def nth_append_length nth_take)
  moreover have "t_count t \<le> t_capacity t" using inv by (simp add: table_inv_def)
  ultimately show ?thesis
    using m s(3)
    by (cases ys) (auto simp: object_table_upsert_def entry_ok_def Let_def p_def [symmetric] not_le)
qed

lemma remove_result:
  assumes inv: "table_inv t" and rm: "object_table_remove t i = Some t'"
  shows "table_inv t'" "table_map t' = (table_map t)(i := None)" "t_capacity t' = t_capacity t"
    "t_count t' = t_count t - 1" "length (entries t') = length (entries t)"
proof -
  define p where "p = position_loop (entries t) i 0 (t_count t)"
  obtain xs ys where s: "live t = xs @ ys" "length xs = p" "p \<le> t_count t"
    "\<forall>x\<in>set xs. e_id x < i" "\<forall>y\<in>set ys. i \<le> e_id y"
    using table_split [OF inv p_def] by blast
  have len: "t_count t \<le> length (entries t)" using inv by (simp add: table_inv_def)
  have t': "t' = t\<lparr>entries := (shift_down (entries t) p (t_count t))[t_count t - 1 := zero_entry],
                   t_count := t_count t - 1\<rparr>" and p: "p < t_count t" "e_id (entries t ! p) = i"
    using rm s(3) by (auto simp: object_table_remove_def p_def [symmetric] Let_def split: if_splits)
  have "length (live t) = t_count t" using len by (simp add: live_def)
  with p s obtain y zs where ys: "ys = y # zs" by (cases ys) auto
  have y: "e_id y = i" using s(1,2) ys p by (metis live_def nth_append_length nth_take)
  have "live t' = take p (live t) @ drop (p + 1) (live t)"
    using take_shift_down [OF p(1) len] t' p(1) by (simp add: live_def min_absorb1)
  then have live': "live t' = xs @ zs" using s ys by simp
  show "table_inv t'"
    using inv s(1) ys unfolding table_inv_def live'
    by (auto simp: t' ids_sorted_append ids_sorted_Cons)
  have "i \<notin> e_id ` set zs" using inv s(1) ys y
    by (auto simp: table_inv_def ids_sorted_append ids_sorted_Cons)
  then have "entry_map zs i = None" by (simp add: entry_map_None_iff)
  moreover have "entry_map xs i = None" using s(4) by (auto simp: entry_map_None_iff)
  ultimately show "table_map t' = (table_map t)(i := None)"
    using s(1) ys y by (auto simp: table_map_def live' map_add_def fun_eq_iff split: option.splits)
  show "t_capacity t' = t_capacity t" "t_count t' = t_count t - 1"
    "length (entries t') = length (entries t)" by (simp_all add: t')
qed

lemma remove_defined:
  assumes inv: "table_inv t"
  shows "object_table_remove t i \<noteq> None \<longleftrightarrow> table_map t i \<noteq> None"
proof -
  define p where "p = position_loop (entries t) i 0 (t_count t)"
  obtain xs ys where s: "live t = xs @ ys" "length xs = p" "p \<le> t_count t"
    "\<forall>x\<in>set xs. e_id x < i" "\<forall>y\<in>set ys. i \<le> e_id y"
    using table_split [OF inv p_def] by blast
  note m = table_map_split [OF s(1) inv s(4,5)]
  have "length (live t) = t_count t" using inv by (simp add: live_def table_inv_def)
  then have ys: "ys = [] \<longleftrightarrow> p = t_count t" using s by auto
  have y: "ys = y # zs \<Longrightarrow> entries t ! p = y" for y zs
    using s(1,2) ys s(3)
    by (metis le_neq_implies_less list.distinct(1) live_def nth_append_length nth_take)
  have nz: "y \<in> set ys \<Longrightarrow> \<not> object_id_is_zero (e_id y)" for y
    using inv s(1) by (auto simp: table_inv_def list_all_iff entry_ok_def)
  have "t_count t \<le> t_capacity t" using inv by (simp add: table_inv_def)
  then show ?thesis
    using m s(3) ys y nz
    by (cases ys) (auto simp: object_table_remove_def Let_def p_def [symmetric])
qed

lemma init_inv:
  "length es = n \<Longrightarrow> table_inv (object_table_init (Some es) n)"
  "table_map (object_table_init (Some es) n) = Map.empty"
  by (auto simp: object_table_init_def table_inv_def live_def ids_sorted_def table_map_def entry_map_def)

section \<open>The interface the object store relies on\<close>

text \<open>
  A versioned map: what a lookup returns after an update or a removal, when each is refused,
  and that both keep the invariant. The store stages a batch of updates on a copy of its
  table (\<open>fold_opt upsert\<close>); the facts about a whole batch are proved once, here.
\<close>

locale versioned_map =
  fixes find :: "'t \<Rightarrow> object_id \<Rightarrow> object_table_entry option"
    and upsert :: "'t \<Rightarrow> object_table_entry \<Rightarrow> 't option"
    and remove :: "'t \<Rightarrow> object_id \<Rightarrow> 't option"
    and inv :: "'t \<Rightarrow> bool"
    and full :: "'t \<Rightarrow> bool"
  assumes find_upsert: "inv t \<Longrightarrow> upsert t e = Some t' \<Longrightarrow> find t' = (find t)(e_id e \<mapsto> e)"
    and upsert_iff: "inv t \<Longrightarrow> upsert t e \<noteq> None \<longleftrightarrow> entry_ok e \<and>
      (case find t (e_id e) of Some old \<Rightarrow> e_version old < e_version e | None \<Rightarrow> \<not> full t)"
    and inv_upsert: "inv t \<Longrightarrow> upsert t e = Some t' \<Longrightarrow> inv t'"
    and find_remove: "inv t \<Longrightarrow> remove t i = Some t' \<Longrightarrow> find t' = (find t)(i := None)"
    and remove_iff: "inv t \<Longrightarrow> remove t i \<noteq> None \<longleftrightarrow> find t i \<noteq> None"
    and inv_remove: "inv t \<Longrightarrow> remove t i = Some t' \<Longrightarrow> inv t'"
begin

lemma inv_batch: "inv t \<Longrightarrow> fold_opt upsert t es = Some t' \<Longrightarrow> inv t'"
  by (rule fold_opt_invariant [where P = inv]) (auto intro: inv_upsert)

lemma find_batch_other:
  "inv t \<Longrightarrow> fold_opt upsert t es = Some t' \<Longrightarrow> i \<notin> e_id ` set es \<Longrightarrow> find t' i = find t i"
proof (induction es arbitrary: t)
  case (Cons x xs)
  from Cons.prems(2) obtain u where u: "upsert t x = Some u" "fold_opt upsert u xs = Some t'"
    by (auto split: option.splits)
  from Cons.IH [OF inv_upsert [OF Cons.prems(1) u(1)] u(2)] Cons.prems(3)
  show ?case by (simp add: find_upsert [OF Cons.prems(1) u(1)])
qed simp

lemma find_batch:
  "inv t \<Longrightarrow> fold_opt upsert t es = Some t' \<Longrightarrow> distinct (map e_id es) \<Longrightarrow> e \<in> set es \<Longrightarrow>
     find t' (e_id e) = Some e"
proof (induction es arbitrary: t)
  case (Cons x xs)
  from Cons.prems(2) obtain u where u: "upsert t x = Some u" "fold_opt upsert u xs = Some t'"
    by (auto split: option.splits)
  have "inv u" using inv_upsert [OF Cons.prems(1) u(1)] .
  then show ?case
    using Cons.IH [OF _ u(2)] Cons.prems(3,4) find_batch_other [OF _ u(2), of "e_id x"]
      find_upsert [OF Cons.prems(1) u(1)] by auto
qed simp

lemma versions_grow:
  "inv t \<Longrightarrow> fold_opt upsert t es = Some t' \<Longrightarrow> find t i = Some a \<Longrightarrow>
     \<exists>b. find t' i = Some b \<and> e_version a \<le> e_version b"
proof (induction es arbitrary: t a)
  case (Cons x xs)
  from Cons.prems(2) obtain u where u: "upsert t x = Some u" "fold_opt upsert u xs = Some t'"
    by (auto split: option.splits)
  from inv_upsert [OF Cons.prems(1) u(1)] have iu: "inv u" .
  have "\<exists>b. find u i = Some b \<and> e_version a \<le> e_version b"
    using find_upsert [OF Cons.prems(1) u(1)] upsert_iff [OF Cons.prems(1), of x] u(1) Cons.prems(3)
    by (cases "i = e_id x") auto
  with Cons.IH [OF iu u(2)] show ?case by (meson order_trans)
qed simp

end

lemma find_after_upsert:
  assumes "table_inv t" "object_table_upsert t e = Some t'"
  shows "object_table_find t' = (object_table_find t)(e_id e \<mapsto> e)"
  using upsert_result(1,2) [OF assms] find_eq_map [OF assms(1)] by (simp add: fun_eq_iff find_eq_map)

lemma find_after_remove:
  assumes "table_inv t" "object_table_remove t i = Some t'"
  shows "object_table_find t' = (object_table_find t)(i := None)"
  using remove_result(1,2) [OF assms] find_eq_map [OF assms(1)] by (simp add: fun_eq_iff find_eq_map)

lemma upsert_defined_find:
  assumes "table_inv t"
  shows "object_table_upsert t e \<noteq> None \<longleftrightarrow> entry_ok e \<and>
      (case object_table_find t (e_id e) of
         Some old \<Rightarrow> e_version old < e_version e | None \<Rightarrow> t_count t \<noteq> t_capacity t)"
  using upsert_defined [OF assms, of e] assms
  by (auto simp: find_eq_map table_inv_def split: option.splits)

lemma remove_defined_find:
  "table_inv t \<Longrightarrow> object_table_remove t i \<noteq> None \<longleftrightarrow> object_table_find t i \<noteq> None"
  by (simp only: find_eq_map remove_defined)

interpretation otab: versioned_map object_table_find object_table_upsert object_table_remove
  table_inv "\<lambda>t. t_count t = t_capacity t"
  by unfold_locales (rule find_after_upsert find_after_remove upsert_defined_find upsert_result(1)
      remove_defined_find remove_result(1); assumption)+

section \<open>Properties\<close>

text \<open>The abstract machine of the table: a finite map with a bound on its size.\<close>

datatype table_op = Upsert object_table_entry | Remove object_id

definition table_exec :: "object_table \<Rightarrow> table_op \<Rightarrow> bool \<times> object_table" where
  "table_exec t q =
     (case (case q of Upsert e \<Rightarrow> object_table_upsert t e | Remove i \<Rightarrow> object_table_remove t i) of
        None \<Rightarrow> (False, t) | Some t' \<Rightarrow> (True, t'))"

fun map_exec :: "nat \<Rightarrow> (object_id \<rightharpoonup> object_table_entry) \<Rightarrow> table_op \<Rightarrow>
    bool \<times> (object_id \<rightharpoonup> object_table_entry)" where
  "map_exec cap m (Upsert e) =
     (if entry_ok e \<and> (case m (e_id e) of Some old \<Rightarrow> e_version old < e_version e
                                       | None \<Rightarrow> card (dom m) < cap)
      then (True, m(e_id e \<mapsto> e)) else (False, m))"
| "map_exec cap m (Remove i) = (if m i \<noteq> None then (True, m(i := None)) else (False, m))"

fun run_exec :: "('s \<Rightarrow> 'o \<Rightarrow> bool \<times> 's) \<Rightarrow> 's \<Rightarrow> 'o list \<Rightarrow> bool list \<times> 's" where
  "run_exec f s [] = ([], s)"
| "run_exec f s (q # qs) =
     (let (r, s') = f s q; (rs, s'') = run_exec f s' qs in (r # rs, s''))"

lemma card_dom_table_map: "table_inv t \<Longrightarrow> card (dom (table_map t)) = t_count t"
proof -
  assume inv: "table_inv t"
  then have d: "distinct (map e_id (live t))" by (simp add: table_inv_def ids_sorted_distinct)
  have "dom (table_map t) = e_id ` set (live t)"
    by (auto simp: table_map_def dom_def) (metis entry_map_None_iff option.distinct(1) option.exhaust image_eqI)+
  also have "card \<dots> = length (live t)" using d by (metis distinct_card length_map list.set_map)
  finally show ?thesis using inv by (simp add: live_def table_inv_def)
qed

lemma table_exec_refines:
  assumes inv: "table_inv t"
  shows "table_inv (snd (table_exec t q)) \<and> t_capacity (snd (table_exec t q)) = t_capacity t \<and>
    map_exec (t_capacity t) (table_map t) q =
       (fst (table_exec t q), table_map (snd (table_exec t q)))"
proof (cases q)
  case (Upsert e)
  show ?thesis
  proof (cases "object_table_upsert t e")
    case None
    with upsert_defined [OF inv, of e] show ?thesis
      using inv by (auto simp: table_exec_def Upsert card_dom_table_map [OF inv] split: option.splits)
  next
    case (Some t')
    with upsert_defined [OF inv, of e] upsert_result [OF inv Some] show ?thesis
      by (auto simp: table_exec_def Upsert card_dom_table_map [OF inv] split: option.splits)
  qed
next
  case (Remove i)
  show ?thesis
  proof (cases "object_table_remove t i")
    case None
    with remove_defined [OF inv, of i] show ?thesis using inv by (simp add: table_exec_def Remove)
  next
    case (Some t')
    with remove_defined [OF inv, of i] remove_result [OF inv Some] show ?thesis
      by (simp add: table_exec_def Remove)
  qed
qed

lemma run_exec_refines:
  assumes "table_inv t"
  shows "run_exec (map_exec (t_capacity t)) (table_map t) qs =
      map_prod id table_map (run_exec table_exec t qs) \<and> table_inv (snd (run_exec table_exec t qs))"
  using assms
proof (induction qs arbitrary: t)
  case (Cons q qs)
  note step = table_exec_refines [OF Cons.prems, of q]
  with Cons.IH [of "snd (table_exec t q)"] show ?case
    by (auto simp: Let_def split: prod.splits)
qed simp

text \<open>
  C1: the sorted array implements a bounded finite map. Started on any storage array of the
  announced capacity, every sequence of updates and removals succeeds and fails exactly where
  the finite map with that bound does (an update is refused for a malformed entry, for a
  version that is not newer, and for a new id in a full table), and afterwards a binary search
  for any id returns what the map holds.
\<close>

theorem object_table_refines_finite_map:
  assumes "length storage = capacity"
  shows "fst (run_exec table_exec (object_table_init (Some storage) capacity) qs) =
           fst (run_exec (map_exec capacity) Map.empty qs) \<and>
         object_table_find (snd (run_exec table_exec (object_table_init (Some storage) capacity) qs)) i =
           snd (run_exec (map_exec capacity) Map.empty qs) i"
proof -
  let ?t = "object_table_init (Some storage) capacity"
  have inv: "table_inv ?t" by (rule init_inv(1) [OF assms])
  have cap: "t_capacity ?t = capacity" by (simp add: object_table_init_def)
  from run_exec_refines [OF inv, of qs, unfolded cap init_inv(2)]
  show ?thesis by (simp add: find_eq_map)
qed

definition sample_entry :: "u64 \<Rightarrow> u64 \<Rightarrow> object_table_entry" where
  "sample_entry i v = \<lparr>e_id = Object_Id 1 i, e_version = v, e_first_sector = 3, e_sector_count = 1\<rparr>"

theorem object_table_refines_finite_map_witness:
  "length [zero_entry, zero_entry] = 2 \<and>
   fst (run_exec table_exec (object_table_init (Some [zero_entry, zero_entry]) 2)
      [Upsert (sample_entry 7 1), Upsert (sample_entry 5 1), Upsert (sample_entry 6 1),
       Upsert (sample_entry 7 1), Remove (Object_Id 1 5)]) = [True, True, False, False, True]"
  using object_table_refines_finite_map [of "[zero_entry, zero_entry]" 2
      "[Upsert (sample_entry 7 1), Upsert (sample_entry 5 1), Upsert (sample_entry 6 1),
       Upsert (sample_entry 7 1), Remove (Object_Id 1 5)]"]
  by (simp add: sample_entry_def entry_ok_def object_id_is_zero_def)

end
