(* ===== verification/Disk_Format.thy ===== *)
theory Disk_Format
  imports Object_Table
begin

text \<open>
  The on-disk formats of the object store: the structures that
  \<^verbatim>\<open>kernel/obj/object_store.c\<close>, \<^verbatim>\<open>wal.h\<close> and
  \<^verbatim>\<open>object_header.h\<close> overlay on sectors, and the checks of
  \<^verbatim>\<open>object_header_validate.zig\<close> and \<^verbatim>\<open>wal_validate.zig\<close>. A sector is
  a list of 512 bytes. The C code casts a structure to its bytes; the encoders here write out
  that layout (little-endian fields at the offsets the compiler gives them, no implicit
  padding, as the static assertions on the sizes require) and the decoders read it.
\<close>

section \<open>Little-endian words\<close>

primrec le_bytes :: "nat \<Rightarrow> 'a::len word \<Rightarrow> bytes" where
  "le_bytes 0 x = []"
| "le_bytes (Suc n) x = ucast x # le_bytes n (drop_bit 8 x)"

primrec le_word :: "bytes \<Rightarrow> 'a::len word" where
  "le_word [] = 0"
| "le_word (b # bs) = ucast b OR push_bit 8 (le_word bs)"

definition read_u32_le :: "bytes \<Rightarrow> nat \<Rightarrow> u32" where
  "read_u32_le bs offset =
     ucast (bs ! offset) OR push_bit 8 (ucast (bs ! (offset + 1))) OR
     push_bit 16 (ucast (bs ! (offset + 2))) OR push_bit 24 (ucast (bs ! (offset + 3)))"

definition read_u64_le :: "bytes \<Rightarrow> nat \<Rightarrow> u64" where
  "read_u64_le bs offset =
     ucast (bs ! offset) OR push_bit 8 (ucast (bs ! (offset + 1))) OR
     push_bit 16 (ucast (bs ! (offset + 2))) OR push_bit 24 (ucast (bs ! (offset + 3))) OR
     push_bit 32 (ucast (bs ! (offset + 4))) OR push_bit 40 (ucast (bs ! (offset + 5))) OR
     push_bit 48 (ucast (bs ! (offset + 6))) OR push_bit 56 (ucast (bs ! (offset + 7)))"

section \<open>The checksum\<close>

definition crc_shift :: "u32 \<Rightarrow> u32" where
  "crc_shift crc =
     (if crc AND 1 \<noteq> 0 then drop_bit 1 crc XOR 0x82F63B78 else drop_bit 1 crc)"

definition crc_byte :: "u32 \<Rightarrow> u8 \<Rightarrow> u32" where
  "crc_byte crc b = (crc_shift ^^ 8) (crc XOR ucast b)"

definition crc32c :: "bytes \<Rightarrow> u32" where
  "crc32c bs = NOT (foldl crc_byte 0xFFFFFFFF bs)"

definition object_crc32c :: "bytes option \<Rightarrow> nat \<Rightarrow> u32" where
  "object_crc32c bs byte_count =
     (case bs of None \<Rightarrow> 0 | Some raw \<Rightarrow> crc32c (take byte_count raw))"

section \<open>Structures\<close>

record disk_snapshot =
  ds_id :: u64
  ds_table_sector :: u64
  ds_table_count :: u64

record disk_superblock =
  sb_magic :: u64
  sb_format_version :: u32
  sb_sector_size :: u32
  sb_sequence :: u64
  sb_table_capacity :: u64
  sb_next_sector :: u64
  sb_current_table_sector :: u64
  sb_current_table_count :: u64
  sb_current_generation :: u64
  sb_snapshots :: "disk_snapshot list"
  sb_checksum :: u32
  sb_reserved :: u32
  sb_padding :: bytes

record disk_table_entry =
  te_magic :: u64
  te_entry :: object_table_entry
  te_checksum :: u32
  te_reserved :: u32
  te_padding :: bytes

record object_wal_record =
  wr_magic :: u64
  wr_format_version :: u32
  wr_flags :: u32
  wr_table_sector :: u64
  wr_table_count :: u64
  wr_generation :: u64
  wr_checksum :: u32
  wr_reserved :: u32
  wr_padding :: bytes

record object_header =
  h_magic :: u64
  h_format_version :: u32
  h_reference_count :: u32
  h_id :: object_id
  h_type_id :: object_id
  h_version :: u64
  h_payload_size :: u64
  h_payload_crc32c :: u32
  h_flags :: u32
  h_creator_id :: object_id
  h_modifier_id :: object_id
  h_logical_timestamp :: u64
  h_padding :: u64
  h_reserved :: u64

abbreviation OBJECT_STORE_SECTOR_SIZE :: nat where "OBJECT_STORE_SECTOR_SIZE \<equiv> 512"
abbreviation OBJECT_STORE_SNAPSHOT_LIMIT :: nat where "OBJECT_STORE_SNAPSHOT_LIMIT \<equiv> 8"
abbreviation OBJECT_HEADER_SIZE :: nat where "OBJECT_HEADER_SIZE \<equiv> 128"

definition OBJECT_STORE_SUPERBLOCK_MAGIC :: u64 where
  "OBJECT_STORE_SUPERBLOCK_MAGIC = 0x4A414E4953544F31"
definition OBJECT_STORE_TABLE_ENTRY_MAGIC :: u64 where
  "OBJECT_STORE_TABLE_ENTRY_MAGIC = 0x4A414E4954424C31"
definition OBJECT_WAL_MAGIC :: u64 where "OBJECT_WAL_MAGIC = 0x4A414E4957414C31"
definition OBJECT_HEADER_MAGIC :: u64 where "OBJECT_HEADER_MAGIC = 0x4A414E495F4F424A"

section \<open>Layout\<close>

text \<open>\<open>bslice o n bs\<close> is the field of \<open>n\<close> bytes at offset \<open>o\<close>.\<close>

definition bslice :: "nat \<Rightarrow> nat \<Rightarrow> bytes \<Rightarrow> bytes" where
  "bslice offset n bs = take n (drop offset bs)"

definition encode_id :: "object_id \<Rightarrow> bytes" where
  "encode_id i = le_bytes 8 (high i) @ le_bytes 8 (low i)"

definition decode_id :: "bytes \<Rightarrow> object_id" where
  "decode_id bs = Object_Id (le_word (bslice 0 8 bs)) (le_word (bslice 8 8 bs))"

definition encode_entry :: "object_table_entry \<Rightarrow> bytes" where
  "encode_entry e = encode_id (e_id e) @ le_bytes 8 (e_version e) @
     le_bytes 8 (e_first_sector e) @ le_bytes 8 (e_sector_count e)"

definition decode_entry :: "bytes \<Rightarrow> object_table_entry" where
  "decode_entry bs =
     \<lparr>e_id = decode_id (bslice 0 16 bs), e_version = le_word (bslice 16 8 bs),
      e_first_sector = le_word (bslice 24 8 bs), e_sector_count = le_word (bslice 32 8 bs)\<rparr>"

definition encode_snapshot :: "disk_snapshot \<Rightarrow> bytes" where
  "encode_snapshot s =
     le_bytes 8 (ds_id s) @ le_bytes 8 (ds_table_sector s) @ le_bytes 8 (ds_table_count s)"

definition decode_snapshot :: "bytes \<Rightarrow> disk_snapshot" where
  "decode_snapshot bs =
     \<lparr>ds_id = le_word (bslice 0 8 bs), ds_table_sector = le_word (bslice 8 8 bs),
      ds_table_count = le_word (bslice 16 8 bs)\<rparr>"

text \<open>An array of \<open>n\<close> structures of a fixed width.\<close>

definition encode_array :: "('a \<Rightarrow> bytes) \<Rightarrow> 'a list \<Rightarrow> bytes" where
  "encode_array enc xs = concat (map enc xs)"

primrec decode_array :: "(bytes \<Rightarrow> 'a) \<Rightarrow> nat \<Rightarrow> nat \<Rightarrow> bytes \<Rightarrow> 'a list" where
  "decode_array dec width 0 bs = []"
| "decode_array dec width (Suc n) bs = dec (take width bs) # decode_array dec width n (drop width bs)"

definition encode_superblock :: "disk_superblock \<Rightarrow> bytes" where
  "encode_superblock s =
     le_bytes 8 (sb_magic s) @ le_bytes 4 (sb_format_version s) @ le_bytes 4 (sb_sector_size s) @
     le_bytes 8 (sb_sequence s) @ le_bytes 8 (sb_table_capacity s) @ le_bytes 8 (sb_next_sector s) @
     le_bytes 8 (sb_current_table_sector s) @ le_bytes 8 (sb_current_table_count s) @
     le_bytes 8 (sb_current_generation s) @ encode_array encode_snapshot (sb_snapshots s) @
     le_bytes 4 (sb_checksum s) @ le_bytes 4 (sb_reserved s) @ sb_padding s"

definition decode_superblock :: "bytes \<Rightarrow> disk_superblock" where
  "decode_superblock bs =
     \<lparr>sb_magic = le_word (bslice 0 8 bs), sb_format_version = le_word (bslice 8 4 bs),
      sb_sector_size = le_word (bslice 12 4 bs), sb_sequence = le_word (bslice 16 8 bs),
      sb_table_capacity = le_word (bslice 24 8 bs), sb_next_sector = le_word (bslice 32 8 bs),
      sb_current_table_sector = le_word (bslice 40 8 bs),
      sb_current_table_count = le_word (bslice 48 8 bs),
      sb_current_generation = le_word (bslice 56 8 bs),
      sb_snapshots = decode_array decode_snapshot 24 OBJECT_STORE_SNAPSHOT_LIMIT (bslice 64 192 bs),
      sb_checksum = le_word (bslice 256 4 bs), sb_reserved = le_word (bslice 260 4 bs),
      sb_padding = bslice 264 248 bs\<rparr>"

definition encode_table_entry :: "disk_table_entry \<Rightarrow> bytes" where
  "encode_table_entry r =
     le_bytes 8 (te_magic r) @ encode_entry (te_entry r) @ le_bytes 4 (te_checksum r) @
     le_bytes 4 (te_reserved r) @ te_padding r"

definition decode_table_entry :: "bytes \<Rightarrow> disk_table_entry" where
  "decode_table_entry bs =
     \<lparr>te_magic = le_word (bslice 0 8 bs), te_entry = decode_entry (bslice 8 40 bs),
      te_checksum = le_word (bslice 48 4 bs), te_reserved = le_word (bslice 52 4 bs),
      te_padding = bslice 56 456 bs\<rparr>"

definition encode_wal :: "object_wal_record \<Rightarrow> bytes" where
  "encode_wal r =
     le_bytes 8 (wr_magic r) @ le_bytes 4 (wr_format_version r) @ le_bytes 4 (wr_flags r) @
     le_bytes 8 (wr_table_sector r) @ le_bytes 8 (wr_table_count r) @ le_bytes 8 (wr_generation r) @
     le_bytes 4 (wr_checksum r) @ le_bytes 4 (wr_reserved r) @ wr_padding r"

definition decode_wal :: "bytes \<Rightarrow> object_wal_record" where
  "decode_wal bs =
     \<lparr>wr_magic = le_word (bslice 0 8 bs), wr_format_version = le_word (bslice 8 4 bs),
      wr_flags = le_word (bslice 12 4 bs), wr_table_sector = le_word (bslice 16 8 bs),
      wr_table_count = le_word (bslice 24 8 bs), wr_generation = le_word (bslice 32 8 bs),
      wr_checksum = le_word (bslice 40 4 bs), wr_reserved = le_word (bslice 44 4 bs),
      wr_padding = bslice 48 464 bs\<rparr>"

definition encode_header :: "object_header \<Rightarrow> bytes" where
  "encode_header h =
     le_bytes 8 (h_magic h) @ le_bytes 4 (h_format_version h) @ le_bytes 4 (h_reference_count h) @
     encode_id (h_id h) @ encode_id (h_type_id h) @ le_bytes 8 (h_version h) @
     le_bytes 8 (h_payload_size h) @ le_bytes 4 (h_payload_crc32c h) @ le_bytes 4 (h_flags h) @
     encode_id (h_creator_id h) @ encode_id (h_modifier_id h) @ le_bytes 8 (h_logical_timestamp h) @
     le_bytes 8 (h_padding h) @ le_bytes 8 (h_reserved h)"

definition decode_header :: "bytes \<Rightarrow> object_header" where
  "decode_header bs =
     \<lparr>h_magic = le_word (bslice 0 8 bs), h_format_version = le_word (bslice 8 4 bs),
      h_reference_count = le_word (bslice 12 4 bs), h_id = decode_id (bslice 16 16 bs),
      h_type_id = decode_id (bslice 32 16 bs), h_version = le_word (bslice 48 8 bs),
      h_payload_size = le_word (bslice 56 8 bs), h_payload_crc32c = le_word (bslice 64 4 bs),
      h_flags = le_word (bslice 68 4 bs), h_creator_id = decode_id (bslice 72 16 bs),
      h_modifier_id = decode_id (bslice 88 16 bs), h_logical_timestamp = le_word (bslice 104 8 bs),
      h_padding = le_word (bslice 112 8 bs), h_reserved = le_word (bslice 120 8 bs)\<rparr>"

section \<open>The validators written in Zig\<close>

definition object_header_validate :: "bytes option \<Rightarrow> nat \<Rightarrow> bool" where
  "object_header_validate bs byte_count =
     (case bs of None \<Rightarrow> False
      | Some raw \<Rightarrow>
         if byte_count < OBJECT_HEADER_SIZE then False
         else let header = take OBJECT_HEADER_SIZE raw in
           if read_u64_le header 0 \<noteq> OBJECT_HEADER_MAGIC then False
           else if read_u32_le header 8 \<noteq> 1 then False
           else if read_u64_le header 16 = 0 \<and> read_u64_le header 24 = 0 then False
           else if read_u64_le header 32 = 0 \<and> read_u64_le header 40 = 0 then False
           else if read_u64_le header 48 = 0 then False
           else let payload_size = read_u64_le header 56 in
             if unat payload_size > byte_count - OBJECT_HEADER_SIZE then False
             else if crc32c (take (unat payload_size) (drop OBJECT_HEADER_SIZE (take byte_count raw))) \<noteq>
                read_u32_le header 64 then False
             else if read_u32_le header 68 \<noteq> 0 then False
             else if read_u64_le header 112 \<noteq> 0 then False
             else if read_u64_le header 120 \<noteq> 0 then False
             else True)"

text \<open>The checksum of \<^verbatim>\<open>wal_validate.zig\<close>, which reads its own field as zero.\<close>

definition wal_checksum :: "bytes \<Rightarrow> u32" where
  "wal_checksum bs =
     NOT (foldl (\<lambda>crc i. crc_byte crc (if i \<ge> 40 \<and> i < 44 then 0 else bs ! i)) 0xFFFFFFFF [0..<length bs])"

definition object_wal_validate :: "bytes option \<Rightarrow> nat \<Rightarrow> bool" where
  "object_wal_validate bs byte_count =
     (case bs of None \<Rightarrow> False
      | Some raw \<Rightarrow>
         if byte_count \<noteq> OBJECT_STORE_SECTOR_SIZE then False
         else let record = take OBJECT_STORE_SECTOR_SIZE raw in
           if read_u64_le record 0 \<noteq> OBJECT_WAL_MAGIC then False
           else if read_u32_le record 8 \<noteq> 1 then False
           else if read_u32_le record 12 \<noteq> 0 \<or> read_u32_le record 44 \<noteq> 0 then False
           else let table_sector = read_u64_le record 16; table_count = read_u64_le record 24 in
             if table_count = 0 \<and> table_sector \<noteq> 0 \<or> table_count \<noteq> 0 \<and> table_sector = 0 \<or>
                read_u64_le record 32 = 0 then False
             else if wal_checksum record \<noteq> read_u32_le record 40 then False
             else True)"

section \<open>Checksums and validity of superblocks and table records\<close>

text \<open>
  The C functions set the checksum field of the structure they are given and return it; the
  pair is the structure afterwards and the result.
\<close>

definition superblock_checksum :: "disk_superblock \<Rightarrow> disk_superblock \<times> u32" where
  "superblock_checksum s =
     (let s0 = s\<lparr>sb_checksum := 0\<rparr>;
          checksum = object_crc32c (Some (encode_superblock s0)) OBJECT_STORE_SECTOR_SIZE
      in (s0\<lparr>sb_checksum := checksum\<rparr>, checksum))"

definition superblock_is_valid :: "disk_superblock \<Rightarrow> u64 \<Rightarrow> nat \<Rightarrow> bool" where
  "superblock_is_valid s sector_count expected_capacity =
     (if sb_magic s \<noteq> OBJECT_STORE_SUPERBLOCK_MAGIC \<or> sb_format_version s \<noteq> 1 \<or>
         sb_sector_size s \<noteq> 512 \<or> unat (sb_table_capacity s) \<noteq> expected_capacity \<or>
         sb_reserved s \<noteq> 0 \<or> sb_next_sector s < 3 \<or> sb_next_sector s > sector_count then False
      else if sb_current_table_sector s = 0 \<and> sb_current_table_count s \<noteq> 0 \<or>
         unat (sb_current_table_count s) > expected_capacity then False
      else if sb_current_table_sector s \<noteq> 0 \<and>
         (sb_current_table_sector s < 3 \<or> sb_current_table_sector s > sb_next_sector s \<or>
          sb_current_table_count s > sb_next_sector s - sb_current_table_sector s) then False
      else let recorded_checksum = sb_checksum s;
               calculated_checksum = snd (superblock_checksum s)
        in recorded_checksum = calculated_checksum)"

definition table_entry_checksum :: "disk_table_entry \<Rightarrow> disk_table_entry \<times> u32" where
  "table_entry_checksum r =
     (let r0 = r\<lparr>te_checksum := 0\<rparr>;
          checksum = object_crc32c (Some (encode_table_entry r0)) OBJECT_STORE_SECTOR_SIZE
      in (r0\<lparr>te_checksum := checksum\<rparr>, checksum))"

definition table_entry_is_valid :: "disk_table_entry \<Rightarrow> bool" where
  "table_entry_is_valid r =
     (if te_magic r \<noteq> OBJECT_STORE_TABLE_ENTRY_MAGIC \<or> te_reserved r \<noteq> 0 \<or>
         object_id_is_zero (e_id (te_entry r)) \<or> e_version (te_entry r) = 0 \<or>
         e_first_sector (te_entry r) = 0 \<or> e_sector_count (te_entry r) = 0 then False
      else let recorded_checksum = te_checksum r;
               calculated_checksum = snd (table_entry_checksum r)
        in recorded_checksum = calculated_checksum)"

section \<open>Little-endian words round trip\<close>

lemma length_le_bytes [simp]: "length (le_bytes n x) = n"
  by (induction n arbitrary: x) auto

lemma bit_le_word:
  "bit (le_word bs :: 'a::len word) n \<longleftrightarrow>
     n < LENGTH('a) \<and> n div 8 < length bs \<and> bit (bs ! (n div 8)) (n mod 8)"
proof (induction bs arbitrary: n)
  case (Cons b bs)
  show ?case
  proof (cases "n < 8")
    case True
    then show ?thesis by (auto simp: bit_or_iff bit_push_bit_iff bit_unsigned_iff)
  next
    case False
    then have "n div 8 = Suc ((n - 8) div 8)" "n mod 8 = (n - 8) mod 8"
      by (simp_all add: le_div_geq le_mod_geq)
    then show ?thesis
      using False Cons.IH [of "n - 8"]
      by (auto simp: bit_or_iff bit_push_bit_iff bit_unsigned_iff dest: bit_imp_le_length)
  qed
qed simp

lemma nth_le_bytes: "i < n \<Longrightarrow> le_bytes n x ! i = ucast (drop_bit (8 * i) x)"
proof (induction n arbitrary: x i)
  case (Suc n)
  then show ?case by (cases i) (simp_all add: drop_bit_drop_bit add.commute)
qed simp

lemma le_word_le_bytes [simp]: "LENGTH('a) \<le> 8 * n \<Longrightarrow> le_word (le_bytes n x) = (x :: 'a::len word)"
proof (rule bit_word_eqI)
  fix k assume a: "LENGTH('a) \<le> 8 * n" and k: "k < LENGTH('a)"
  have "k div 8 < n" using a k by (simp add: less_mult_imp_div_less mult.commute)
  moreover have "8 * (k div 8) + k mod 8 = k" by simp
  ultimately show "bit (le_word (le_bytes n x) :: 'a word) k = bit x k"
    using k by (simp add: bit_le_word nth_le_bytes bit_unsigned_iff bit_drop_bit_eq)
qed

lemma le_bytes_le_word:
  "8 * length bs \<le> LENGTH('a) \<Longrightarrow> le_bytes (length bs) (le_word bs :: 'a::len word) = bs"
proof (rule nth_equalityI)
  fix i assume a: "8 * length bs \<le> LENGTH('a)" and "i < length (le_bytes (length bs) (le_word bs :: 'a word))"
  then have i: "i < length bs" by simp
  show "le_bytes (length bs) (le_word bs :: 'a word) ! i = bs ! i"
  proof (rule bit_word_eqI)
    fix k assume "k < LENGTH(8)"
    then have "(8 * i + k) div 8 = i" "(8 * i + k) mod 8 = k" "8 * i + k < LENGTH('a)" "k < 8"
      using a i by auto
    then show "bit (le_bytes (length bs) (le_word bs :: 'a word) ! i) k = bit (bs ! i) k"
      using i by (simp add: nth_le_bytes bit_unsigned_iff bit_drop_bit_eq bit_le_word)
  qed
qed simp

lemma le_bytes_le_word' [simp]:
  "length bs = n \<Longrightarrow> 8 * n \<le> LENGTH('a) \<Longrightarrow> le_bytes n (le_word bs :: 'a::len word) = bs"
  using le_bytes_le_word by blast

lemma le_word_Cons_or: "le_word (b # bs) = ucast b OR push_bit 8 (le_word bs)"
  by simp

lemma take_four: "offset + 4 \<le> length bs \<Longrightarrow>
  take 4 (drop offset bs) = [bs ! offset, bs ! (offset + 1), bs ! (offset + 2), bs ! (offset + 3)]"
  by (rule nth_equalityI) (auto simp: nth_Cons' less_Suc_eq_0_disj numeral_eq_Suc)

lemma take_eight: "offset + 8 \<le> length bs \<Longrightarrow> take 8 (drop offset bs) =
  [bs ! offset, bs ! (offset + 1), bs ! (offset + 2), bs ! (offset + 3),
   bs ! (offset + 4), bs ! (offset + 5), bs ! (offset + 6), bs ! (offset + 7)]"
  by (rule nth_equalityI) (auto simp: nth_Cons' less_Suc_eq_0_disj numeral_eq_Suc)

lemma read_u32_le_eq: "offset + 4 \<le> length bs \<Longrightarrow> read_u32_le bs offset = le_word (bslice offset 4 bs)"
  by (simp add: read_u32_le_def bslice_def take_four push_bit_or or.assoc)

lemma read_u64_le_eq: "offset + 8 \<le> length bs \<Longrightarrow> read_u64_le bs offset = le_word (bslice offset 8 bs)"
  by (simp add: read_u64_le_def bslice_def take_eight push_bit_or or.assoc)

section \<open>Codecs\<close>

text \<open>
  What the overlay of a structure on its bytes has to satisfy: encoding gives exactly
  \<open>width\<close> bytes and the two directions are inverse to each other. \<open>wf\<close> says that
  the arrays inside the structure have their declared lengths.
\<close>

locale codec =
  fixes enc :: "'a \<Rightarrow> bytes" and dec :: "bytes \<Rightarrow> 'a" and width :: nat and wf :: "'a \<Rightarrow> bool"
  assumes enc_length: "wf x \<Longrightarrow> length (enc x) = width"
    and dec_enc: "wf x \<Longrightarrow> dec (enc x) = x"
    and enc_dec: "length bs = width \<Longrightarrow> enc (dec bs) = bs"
    and wf_dec: "length bs = width \<Longrightarrow> wf (dec bs)"
begin

lemma enc_inj: "wf x \<Longrightarrow> wf y \<Longrightarrow> enc x = enc y \<Longrightarrow> x = y"
  using dec_enc by metis

lemma array_length: "list_all wf xs \<Longrightarrow> length (encode_array enc xs) = width * length xs"
  by (induction xs) (auto simp: encode_array_def enc_length)

lemma array_dec_enc: "list_all wf xs \<Longrightarrow> decode_array dec width (length xs) (encode_array enc xs) = xs"
  by (induction xs) (auto simp: encode_array_def enc_length dec_enc)

lemma array_enc_dec:
  "length bs = width * n \<Longrightarrow>
   encode_array enc (decode_array dec width n bs) = bs \<and> length (decode_array dec width n bs) = n \<and>
   list_all wf (decode_array dec width n bs)"
proof (induction n arbitrary: bs)
  case (Suc n)
  have "length (drop width bs) = width * n" using Suc.prems by simp
  from Suc.IH [OF this] show ?case
    using Suc.prems enc_dec [of "take width bs"] wf_dec [of "take width bs"]
    by (auto simp: encode_array_def)
qed (simp add: encode_array_def)

end

lemma bslice_append [simp]:
  "length xs \<le> offset \<Longrightarrow> bslice offset n (xs @ ys) = bslice (offset - length xs) n ys"
  "length xs = n \<Longrightarrow> bslice 0 n (xs @ ys) = xs"
  "length xs = n \<Longrightarrow> bslice 0 n xs = xs"
  by (simp_all add: bslice_def)

lemma length_bslice [simp]: "offset + n \<le> length bs \<Longrightarrow> length (bslice offset n bs) = n"
  by (simp add: bslice_def)

lemma bslice_slice: "b + m \<le> n \<Longrightarrow> bslice b m (bslice a n bs) = bslice (a + b) m bs"
  by (simp add: bslice_def drop_take take_take min_def drop_drop add.commute)

lemma bslice_join: "bslice a m bs @ bslice (a + m) n bs = bslice a (m + n) bs"
  by (simp add: bslice_def take_add add.commute drop_drop)

lemma bslice_join' [simp]: "a + m = b \<Longrightarrow> bslice a m bs @ bslice b n bs = bslice a (m + n) bs"
  "a + m = b \<Longrightarrow> bslice a m bs @ bslice b n bs @ rest = bslice a (m + n) bs @ rest"
  using bslice_join [of a m bs n] by (simp_all flip: append_assoc)

lemma bslice_all [simp]: "length bs = n \<Longrightarrow> bslice 0 n bs = bs"
  by (simp add: bslice_def)

lemmas layout_defs =
  encode_id_def decode_id_def encode_entry_def decode_entry_def encode_snapshot_def
  decode_snapshot_def encode_superblock_def decode_superblock_def encode_table_entry_def
  decode_table_entry_def encode_wal_def decode_wal_def encode_header_def decode_header_def

interpretation id_codec: codec encode_id decode_id 16 "\<lambda>_. True"
  by unfold_locales (auto simp: layout_defs)

interpretation entry_codec: codec encode_entry decode_entry 40 "\<lambda>_. True"
  by unfold_locales
    (auto simp: encode_entry_def decode_entry_def id_codec.enc_length id_codec.dec_enc id_codec.enc_dec)

interpretation snapshot_codec: codec encode_snapshot decode_snapshot 24 "\<lambda>_. True"
  by unfold_locales (auto simp: encode_snapshot_def decode_snapshot_def)

definition superblock_wf :: "disk_superblock \<Rightarrow> bool" where
  "superblock_wf s \<longleftrightarrow> length (sb_snapshots s) = OBJECT_STORE_SNAPSHOT_LIMIT \<and> length (sb_padding s) = 248"

definition table_entry_wf :: "disk_table_entry \<Rightarrow> bool" where
  "table_entry_wf r \<longleftrightarrow> length (te_padding r) = 456"

definition wal_wf :: "object_wal_record \<Rightarrow> bool" where
  "wal_wf r \<longleftrightarrow> length (wr_padding r) = 464"

lemma length_encode_id [simp]: "length (encode_id i) = 16"
  and length_encode_entry [simp]: "length (encode_entry e) = 40"
  and decode_encode_id [simp]: "decode_id (encode_id i) = i"
  and decode_encode_entry [simp]: "decode_entry (encode_entry e) = e"
  and encode_decode_id [simp]: "length bs = 16 \<Longrightarrow> encode_id (decode_id bs) = bs"
  and encode_decode_entry [simp]: "length bs = 40 \<Longrightarrow> encode_entry (decode_entry bs) = bs"
  by (simp_all add: id_codec.enc_length entry_codec.enc_length id_codec.dec_enc entry_codec.dec_enc
      id_codec.enc_dec entry_codec.enc_dec)

lemma snapshot_array [simp]:
  "length (encode_array encode_snapshot ss) = 24 * length ss"
  "length ss = 8 \<Longrightarrow> decode_array decode_snapshot 24 8 (encode_array encode_snapshot ss) = ss"
  "length bs = 192 \<Longrightarrow> encode_array encode_snapshot (decode_array decode_snapshot 24 8 bs) = bs"
  "length bs = 192 \<Longrightarrow> length (decode_array decode_snapshot 24 8 bs) = 8"
  using snapshot_codec.array_dec_enc [of ss] snapshot_codec.array_length [of ss]
    snapshot_codec.array_enc_dec [of bs 8]
  by (simp_all add: list_all_iff)

interpretation superblock_codec: codec encode_superblock decode_superblock OBJECT_STORE_SECTOR_SIZE superblock_wf
  by unfold_locales (simp_all add: encode_superblock_def decode_superblock_def superblock_wf_def)

interpretation table_entry_codec: codec encode_table_entry decode_table_entry OBJECT_STORE_SECTOR_SIZE table_entry_wf
  by unfold_locales (simp_all add: encode_table_entry_def decode_table_entry_def table_entry_wf_def)

interpretation wal_codec: codec encode_wal decode_wal OBJECT_STORE_SECTOR_SIZE wal_wf
  by unfold_locales (simp_all add: encode_wal_def decode_wal_def wal_wf_def)

interpretation header_codec: codec encode_header decode_header OBJECT_HEADER_SIZE "\<lambda>_. True"
  by unfold_locales (simp_all add: encode_header_def decode_header_def)

section \<open>The validators in terms of the structures\<close>

lemma object_header_validate_iff:
  assumes "length raw \<ge> n" "n \<ge> OBJECT_HEADER_SIZE"
  shows "object_header_validate (Some raw) n \<longleftrightarrow>
    (let h = decode_header (take OBJECT_HEADER_SIZE raw) in
     h_magic h = OBJECT_HEADER_MAGIC \<and> h_format_version h = 1 \<and>
     \<not> object_id_is_zero (h_id h) \<and> \<not> object_id_is_zero (h_type_id h) \<and> h_version h \<noteq> 0 \<and>
     unat (h_payload_size h) \<le> n - OBJECT_HEADER_SIZE \<and>
     crc32c (take (unat (h_payload_size h)) (drop OBJECT_HEADER_SIZE raw)) = h_payload_crc32c h \<and>
     h_flags h = 0 \<and> h_padding h = 0 \<and> h_reserved h = 0)"
proof -
  have "length (take OBJECT_HEADER_SIZE raw) = 128" using assms by simp
  moreover have "drop OBJECT_HEADER_SIZE (take n raw) = take (n - OBJECT_HEADER_SIZE) (drop OBJECT_HEADER_SIZE raw)"
    by (simp add: drop_take)
  ultimately show ?thesis
    using assms
    by (auto simp: object_header_validate_def Let_def read_u64_le_eq read_u32_le_eq decode_header_def
        decode_id_def bslice_slice object_id_is_zero_def not_less min_def)
qed

lemma zero_field:
  assumes "length a = 40" "length m = 4"
  shows "map (\<lambda>i. if i \<ge> 40 \<and> i < 44 then 0 else (a @ m @ c) ! i) [0..<length (a @ m @ c)] =
    a @ replicate 4 (0 :: u8) @ c"
  by (rule nth_equalityI) (use assms in \<open>auto simp: nth_append\<close>)

lemma wal_checksum_encode:
  assumes "wal_wf r"
  shows "wal_checksum (encode_wal r) = crc32c (encode_wal (r\<lparr>wr_checksum := 0\<rparr>))"
proof -
  define a where "a = le_bytes 8 (wr_magic r) @ le_bytes 4 (wr_format_version r) @ le_bytes 4 (wr_flags r) @
     le_bytes 8 (wr_table_sector r) @ le_bytes 8 (wr_table_count r) @ le_bytes 8 (wr_generation r)"
  define c where "c = le_bytes 4 (wr_reserved r) @ wr_padding r"
  have e: "encode_wal r = a @ le_bytes 4 (wr_checksum r) @ c"
    "encode_wal (r\<lparr>wr_checksum := 0\<rparr>) = a @ replicate 4 0 @ c"
    by (simp_all add: encode_wal_def a_def c_def numeral_eq_Suc)
  have "wal_checksum bs =
      NOT (foldl crc_byte 0xFFFFFFFF (map (\<lambda>i. if i \<ge> 40 \<and> i < 44 then 0 else bs ! i) [0..<length bs]))" for bs
    by (simp add: wal_checksum_def foldl_map)
  moreover have "length a = 40" "length (le_bytes 4 (wr_checksum r)) = 4" by (simp_all add: a_def)
  ultimately show ?thesis by (simp only: e crc32c_def zero_field)
qed

lemma object_wal_validate_iff:
  assumes "length raw = OBJECT_STORE_SECTOR_SIZE"
  shows "object_wal_validate (Some raw) OBJECT_STORE_SECTOR_SIZE \<longleftrightarrow>
    (let r = decode_wal raw in
     wr_magic r = OBJECT_WAL_MAGIC \<and> wr_format_version r = 1 \<and> wr_flags r = 0 \<and> wr_reserved r = 0 \<and>
     (wr_table_count r = 0 \<longleftrightarrow> wr_table_sector r = 0) \<and> wr_generation r \<noteq> 0 \<and>
     crc32c (encode_wal (r\<lparr>wr_checksum := 0\<rparr>)) = wr_checksum r)"
proof -
  have "wal_checksum raw = crc32c (encode_wal ((decode_wal raw)\<lparr>wr_checksum := 0\<rparr>))"
    using wal_checksum_encode [OF wal_codec.wf_dec [OF assms]] wal_codec.enc_dec [OF assms] by simp
  then show ?thesis
    using assms
    by (auto simp: object_wal_validate_def Let_def read_u64_le_eq read_u32_le_eq decode_wal_def)
qed

section \<open>A corrupted byte is detected\<close>

lemma crc_shift_top: "bit (crc_shift x) 31 \<longleftrightarrow> bit x 0"
proof -
  have "\<not> bit (drop_bit 1 x) 31" using bit_imp_le_length [of x 32] by (auto simp: bit_drop_bit_eq)
  moreover have "bit (0x82F63B78 :: u32) 31" by simp
  ultimately show ?thesis by (auto simp: crc_shift_def bit_xor_iff and_one_eq odd_iff_mod_2_eq_one bit_0)
qed

lemma crc_shift_inj: "crc_shift x = crc_shift y \<longleftrightarrow> x = y"
proof
  assume eq: "crc_shift x = crc_shift y"
  then have b: "bit x 0 \<longleftrightarrow> bit y 0" using crc_shift_top by metis
  then have "(x AND 1 \<noteq> 0) = (y AND 1 \<noteq> 0)" by (simp add: and_one_eq odd_iff_mod_2_eq_one bit_0)
  then have "drop_bit 1 x = drop_bit 1 y"
    using eq by (auto simp: crc_shift_def xor_cancel_right split: if_splits)
  then have "bit x (Suc n) = bit y (Suc n)" for n
    by (metis bit_drop_bit_eq comp_apply plus_1_eq_Suc)
  with b show "x = y" by (metis bit_eqI not0_implies_Suc)
qed simp

lemma crc_shifts_inj: "(crc_shift ^^ n) x = (crc_shift ^^ n) y \<longleftrightarrow> x = y"
  by (induction n) (auto simp: crc_shift_inj)

lemma crc_byte_inj_state: "crc_byte c b = crc_byte d b \<longleftrightarrow> c = d"
  by (simp add: crc_byte_def crc_shifts_inj xor_cancel_right)

lemma crc_byte_inj_byte: "crc_byte c a = crc_byte c b \<longleftrightarrow> a = b"
proof -
  have "(ucast a :: u32) = ucast b \<longleftrightarrow> a = b"
  proof
    assume "(ucast a :: u32) = ucast b"
    then have "bit (ucast a :: u32) n = bit (ucast b :: u32) n" for n by simp
    then have *: "n < 32 \<and> bit a n \<longleftrightarrow> n < 32 \<and> bit b n" for n by (simp only: bit_unsigned_iff) simp
    show "a = b"
    proof (rule bit_word_eqI)
      show "bit a n = bit b n" if "n < LENGTH(8)" for n using * [of n] that by simp
    qed
  qed simp
  then show ?thesis unfolding crc_byte_def crc_shifts_inj xor_cancel_left .
qed

lemma crc_fold_inj: "foldl crc_byte c bs = foldl crc_byte d bs \<longleftrightarrow> c = d"
  by (induction bs arbitrary: c d) (auto simp: crc_byte_inj_state)

lemma crc32c_update:
  assumes "i < length bs" "v \<noteq> bs ! i"
  shows "crc32c (bs[i := v]) \<noteq> crc32c bs"
proof -
  have split: "bs = take i bs @ bs ! i # drop (Suc i) bs" "bs[i := v] = take i bs @ v # drop (Suc i) bs"
    using assms by (simp_all add: id_take_nth_drop upd_conv_take_nth_drop)
  have "foldl crc_byte c (bs[i := v]) \<noteq> foldl crc_byte c bs" for c
    using assms(2) by (subst split(1), subst split(2)) (simp add: crc_fold_inj crc_byte_inj_byte)
  then show ?thesis unfolding crc32c_def by (metis bit.double_compl)
qed

text \<open>A sector carries at offset \<open>p\<close> the checksum of itself with that field read as zero.\<close>

definition sealed :: "nat \<Rightarrow> bytes \<Rightarrow> bool" where
  "sealed p bs \<longleftrightarrow> crc32c (take p bs @ replicate 4 0 @ drop (p + 4) bs) = le_word (bslice p 4 bs)"

lemma sealed_update:
  assumes "sealed p bs" "i < length bs" "v \<noteq> bs ! i" "p + 4 \<le> length bs"
  shows "\<not> sealed p (bs[i := v])"
proof (cases "p \<le> i \<and> i < p + 4")
  case True
  then have "take p (bs[i := v]) = take p bs" "drop (p + 4) (bs[i := v]) = drop (p + 4) bs" by auto
  moreover have "bslice p 4 (bs[i := v]) \<noteq> bslice p 4 bs"
  proof
    assume "bslice p 4 (bs[i := v]) = bslice p 4 bs"
    then have "bslice p 4 (bs[i := v]) ! (i - p) = bslice p 4 bs ! (i - p)" by simp
    then show False using True assms by (auto simp: bslice_def)
  qed
  moreover have "length (bslice p 4 (bs[i := v])) = 4" "length (bslice p 4 bs) = 4" using assms by auto
  then have "(le_word (bslice p 4 (bs[i := v])) :: u32) = le_word (bslice p 4 bs) \<Longrightarrow>
      bslice p 4 (bs[i := v]) = bslice p 4 bs"
    using le_bytes_le_word' [of "bslice p 4 bs" 4, where 'a = 32]
      le_bytes_le_word' [of "bslice p 4 (bs[i := v])" 4, where 'a = 32] by simp
  ultimately show ?thesis using assms(1) by (auto simp: sealed_def)
next
  case False
  let ?z = "\<lambda>bs :: bytes. take p bs @ replicate 4 (0 :: u8) @ drop (p + 4) bs"
  have "bslice p 4 (bs[i := v]) = bslice p 4 bs"
    using False by (auto simp: bslice_def drop_update_swap take_update_beyond)
  moreover have "?z (bs[i := v]) = (?z bs)[i := v]" "i < length (?z bs)" "?z bs ! i = bs ! i"
    using False assms by (auto simp: list_update_append nth_append drop_update_swap take_update_beyond take_update_swap [symmetric])
  ultimately show ?thesis using crc32c_update [of i "?z bs" v] assms by (simp add: sealed_def)
qed

lemma zero_checksum_superblock:
  "length bs = OBJECT_STORE_SECTOR_SIZE \<Longrightarrow>
   encode_superblock ((decode_superblock bs)\<lparr>sb_checksum := 0\<rparr>) = take 256 bs @ replicate 4 0 @ drop 260 bs"
  by (simp add: encode_superblock_def decode_superblock_def) (simp add: bslice_def numeral_eq_Suc)

lemma zero_checksum_table_entry:
  "length bs = OBJECT_STORE_SECTOR_SIZE \<Longrightarrow>
   encode_table_entry ((decode_table_entry bs)\<lparr>te_checksum := 0\<rparr>) = take 48 bs @ replicate 4 0 @ drop 52 bs"
  by (simp add: encode_table_entry_def decode_table_entry_def) (simp add: bslice_def numeral_eq_Suc)

lemma zero_checksum_wal:
  "length bs = OBJECT_STORE_SECTOR_SIZE \<Longrightarrow>
   encode_wal ((decode_wal bs)\<lparr>wr_checksum := 0\<rparr>) = take 40 bs @ replicate 4 0 @ drop 44 bs"
  by (simp add: encode_wal_def decode_wal_def) (simp add: bslice_def numeral_eq_Suc)

lemma valid_sealed:
  assumes "length bs = OBJECT_STORE_SECTOR_SIZE"
  shows "superblock_is_valid (decode_superblock bs) n cap \<Longrightarrow> sealed 256 bs"
    "table_entry_is_valid (decode_table_entry bs) \<Longrightarrow> sealed 48 bs"
    "object_wal_validate (Some bs) OBJECT_STORE_SECTOR_SIZE \<Longrightarrow> sealed 40 bs"
proof -
  show "sealed 256 bs" if "superblock_is_valid (decode_superblock bs) n cap"
  proof -
    have "sb_checksum (decode_superblock bs) = snd (superblock_checksum (decode_superblock bs))"
      using that by (simp add: superblock_is_valid_def Let_def split: if_splits)
    then show ?thesis
      using zero_checksum_superblock [OF assms] assms
      by (simp add: superblock_checksum_def object_crc32c_def Let_def sealed_def) (simp add: decode_superblock_def)
  qed
  show "sealed 48 bs" if "table_entry_is_valid (decode_table_entry bs)"
    using that zero_checksum_table_entry [OF assms] assms
    by (auto simp: table_entry_is_valid_def table_entry_checksum_def object_crc32c_def Let_def sealed_def
        split: if_splits) (simp add: decode_table_entry_def)
  show "sealed 40 bs" if "object_wal_validate (Some bs) OBJECT_STORE_SECTOR_SIZE"
    using that zero_checksum_wal [OF assms] object_wal_validate_iff [OF assms]
    by (simp add: Let_def sealed_def) (simp add: decode_wal_def)
qed

section \<open>What the store writes passes its own checks\<close>

lemma superblock_checksum_fields [simp]:
  "sb_magic (fst (superblock_checksum s)) = sb_magic s"
  "sb_format_version (fst (superblock_checksum s)) = sb_format_version s"
  "sb_sector_size (fst (superblock_checksum s)) = sb_sector_size s"
  "sb_sequence (fst (superblock_checksum s)) = sb_sequence s"
  "sb_table_capacity (fst (superblock_checksum s)) = sb_table_capacity s"
  "sb_next_sector (fst (superblock_checksum s)) = sb_next_sector s"
  "sb_current_table_sector (fst (superblock_checksum s)) = sb_current_table_sector s"
  "sb_current_table_count (fst (superblock_checksum s)) = sb_current_table_count s"
  "sb_current_generation (fst (superblock_checksum s)) = sb_current_generation s"
  "sb_snapshots (fst (superblock_checksum s)) = sb_snapshots s"
  "sb_reserved (fst (superblock_checksum s)) = sb_reserved s"
  "sb_padding (fst (superblock_checksum s)) = sb_padding s"
  by (simp_all add: superblock_checksum_def Let_def)

lemma superblock_checksum_seals:
  "snd (superblock_checksum (fst (superblock_checksum s))) = sb_checksum (fst (superblock_checksum s))"
  by (simp add: superblock_checksum_def Let_def)

lemma superblock_wf_checksum [simp]: "superblock_wf (fst (superblock_checksum s)) \<longleftrightarrow> superblock_wf s"
  by (simp add: superblock_wf_def)

lemma table_entry_checksum_fields [simp]:
  "te_magic (fst (table_entry_checksum r)) = te_magic r"
  "te_entry (fst (table_entry_checksum r)) = te_entry r"
  "te_reserved (fst (table_entry_checksum r)) = te_reserved r"
  "te_padding (fst (table_entry_checksum r)) = te_padding r"
  by (simp_all add: table_entry_checksum_def Let_def)

lemma table_entry_checksum_seals:
  "snd (table_entry_checksum (fst (table_entry_checksum r))) = te_checksum (fst (table_entry_checksum r))"
  by (simp add: table_entry_checksum_def Let_def)

definition sample_superblock :: disk_superblock where
  "sample_superblock = fst (superblock_checksum
     \<lparr>sb_magic = OBJECT_STORE_SUPERBLOCK_MAGIC, sb_format_version = 1, sb_sector_size = 512,
      sb_sequence = 1, sb_table_capacity = 4, sb_next_sector = 3, sb_current_table_sector = 0,
      sb_current_table_count = 0, sb_current_generation = 0,
      sb_snapshots = replicate 8 \<lparr>ds_id = 0, ds_table_sector = 0, ds_table_count = 0\<rparr>,
      sb_checksum = 0, sb_reserved = 0, sb_padding = replicate 248 0\<rparr>)"

lemma sample_superblock:
  "superblock_wf sample_superblock" "superblock_is_valid sample_superblock 16 4"
  by (simp_all add: sample_superblock_def superblock_wf_def superblock_is_valid_def Let_def
      superblock_checksum_seals)

section \<open>Properties\<close>

text \<open>
  C10: a superblock, a table record or a log record with one damaged byte is rejected. For a
  sector that the corresponding check accepts, changing any one of its 512 bytes, the bytes of
  the checksum field and of the padding included, makes the check fail, so a mount never uses
  such a sector.
\<close>

theorem corrupted_sector_rejected:
  assumes "length bs = OBJECT_STORE_SECTOR_SIZE" "i < OBJECT_STORE_SECTOR_SIZE" "v \<noteq> bs ! i"
  shows "(superblock_is_valid (decode_superblock bs) n cap \<longrightarrow>
      \<not> superblock_is_valid (decode_superblock (bs[i := v])) n cap) \<and>
    (table_entry_is_valid (decode_table_entry bs) \<longrightarrow>
      \<not> table_entry_is_valid (decode_table_entry (bs[i := v]))) \<and>
    (object_wal_validate (Some bs) OBJECT_STORE_SECTOR_SIZE \<longrightarrow>
      \<not> object_wal_validate (Some (bs[i := v])) OBJECT_STORE_SECTOR_SIZE)"
proof -
  have l: "length (bs[i := v]) = OBJECT_STORE_SECTOR_SIZE" using assms by simp
  have "\<not> sealed p (bs[i := v])" if "sealed p bs" "p + 4 \<le> 512" for p
    using sealed_update [OF that(1), of i v] assms that(2) by simp
  from this [of 256] this [of 48] this [of 40] show ?thesis
    using valid_sealed [OF assms(1)] valid_sealed [OF l] by auto
qed

theorem corrupted_sector_rejected_witness:
  "superblock_is_valid (decode_superblock (encode_superblock sample_superblock)) 16 4 \<and>
   \<not> superblock_is_valid
       (decode_superblock ((encode_superblock sample_superblock)[16 := encode_superblock sample_superblock ! 16 + 1])) 16 4"
proof -
  have v: "superblock_is_valid (decode_superblock (encode_superblock sample_superblock)) 16 4"
    using sample_superblock by (simp add: superblock_codec.dec_enc)
  have "length (encode_superblock sample_superblock) = OBJECT_STORE_SECTOR_SIZE"
    using sample_superblock by (simp add: superblock_codec.enc_length)
  from corrupted_sector_rejected [OF this, of 16 "encode_superblock sample_superblock ! 16 + 1" 16 4] v
  show ?thesis by simp
qed

end
