(* ===== verification/Block_Device.thy ===== *)
theory Block_Device
  imports Disk_Format
begin

text \<open>
  The block device below the object store: the callbacks of
  \<^verbatim>\<open>struct object_store_io\<close> (\<^verbatim>\<open>kernel/obj/object_store.h\<close>), the contract
  the store relies on, stated as a locale, and the device of
  \<^verbatim>\<open>tools/hosted/test_write_ordering.c\<close>, which loses unflushed sectors at a power
  cut, as a provider of that contract.

  A callback takes the context and returns it updated. A read returns the sector or
  \<open>None\<close>; a write and a flush return whether they succeeded.
\<close>

type_synonym 'd read_callback = "'d \<Rightarrow> u64 \<Rightarrow> 'd \<times> bytes option"
type_synonym 'd write_callback = "'d \<Rightarrow> u64 \<Rightarrow> bytes \<Rightarrow> 'd \<times> bool"
type_synonym 'd flush_callback = "'d \<Rightarrow> 'd \<times> bool"

record 'd object_store_io =
  io_context :: 'd
  io_sector_count :: u64
  io_read_sector :: "'d read_callback option"
  io_write_sector :: "'d write_callback option"
  io_flush :: "'d flush_callback option"

section \<open>The contract\<close>

text \<open>
  \<open>visible d s\<close> is what a read of sector \<open>s\<close> returns, \<open>survivors d s\<close> the set
  of contents the sector may have if power is lost now. A write adds the new contents to the
  survivors of its sector, whether it reports success or not, and touches no other sector; a
  successful flush leaves the visible contents as the only survivor of every sector; a failed
  write leaves the old or the new contents visible. Sectors are written whole. Nothing is said
  about when an operation fails.
\<close>

locale block_device =
  fixes read_s :: "'d read_callback" and write_s :: "'d write_callback" and flush_s :: "'d flush_callback"
    and ok :: "'d \<Rightarrow> bool"
    and visible :: "'d \<Rightarrow> u64 \<Rightarrow> bytes"
    and survivors :: "'d \<Rightarrow> u64 \<Rightarrow> bytes set"
  assumes read_law: "ok d \<Longrightarrow> read_s d s = (d', r) \<Longrightarrow>
      ok d' \<and> visible d' = visible d \<and> survivors d' = survivors d \<and> (r = None \<or> r = Some (visible d s))"
    and write_law: "ok d \<Longrightarrow> write_s d s b = (d', done) \<Longrightarrow>
      ok d' \<and> (\<forall>t. survivors d' t \<subseteq> (if t = s then insert b (survivors d s) else survivors d t)) \<and>
      (\<forall>t. t \<noteq> s \<longrightarrow> visible d' t = visible d t) \<and>
      (visible d' s = b \<or> \<not> done \<and> visible d' s = visible d s)"
    and flush_law: "ok d \<Longrightarrow> flush_s d = (d', done) \<Longrightarrow>
      ok d' \<and> visible d' = visible d \<and> (\<forall>t. survivors d' t \<subseteq> survivors d t) \<and>
      (done \<longrightarrow> (\<forall>t. survivors d' t = {visible d t}))"
    and visible_survives: "ok d \<Longrightarrow> visible d s \<in> survivors d s"
begin

lemma survivors_write:
  "ok d \<Longrightarrow> write_s d s b = (d', done) \<Longrightarrow> x \<in> survivors d' t \<Longrightarrow> x \<in> survivors d t \<or> t = s \<and> x = b"
  using write_law [of d s b d' "done"] by (auto split: if_splits)

lemma write_flush_durable:
  assumes "ok d" "write_s d s b = (d1, True)" "flush_s d1 = (d2, True)"
  shows "ok d2 \<and> survivors d2 s = {b} \<and> visible d2 s = b \<and> (\<forall>t. t \<noteq> s \<longrightarrow> survivors d2 t = {visible d t})"
proof -
  from write_law [OF assms(1,2)] have w: "ok d1" "visible d1 s = b" "\<forall>t. t \<noteq> s \<longrightarrow> visible d1 t = visible d t"
    by auto
  with flush_law [OF w(1) assms(3)] show ?thesis by auto
qed

lemma durable_visible: "ok d \<Longrightarrow> survivors d s = {b} \<Longrightarrow> visible d s = b"
  using visible_survives by fastforce

end

text \<open>
  A device that answers: every sector below \<open>n\<close> can be read, and the next
  \<open>budget d\<close> writes and flushes succeed.
\<close>

locale reliable_device = block_device read_s write_s flush_s ok visible survivors
  for read_s :: "'d read_callback" and write_s :: "'d write_callback" and flush_s :: "'d flush_callback"
    and ok :: "'d \<Rightarrow> bool" and visible :: "'d \<Rightarrow> u64 \<Rightarrow> bytes"
    and survivors :: "'d \<Rightarrow> u64 \<Rightarrow> bytes set" +
  fixes n :: u64 and budget :: "'d \<Rightarrow> nat"
  assumes read_answers: "ok d \<Longrightarrow> s < n \<Longrightarrow> read_s d s = (d', r) \<Longrightarrow> r \<noteq> None"
    and read_budget: "ok d \<Longrightarrow> read_s d s = (d', r) \<Longrightarrow> budget d' = budget d"
    and write_answers: "ok d \<Longrightarrow> s < n \<Longrightarrow> 0 < budget d \<Longrightarrow> write_s d s b = (d', done) \<Longrightarrow>
      done \<and> budget d \<le> Suc (budget d')"
    and flush_answers: "ok d \<Longrightarrow> 0 < budget d \<Longrightarrow> flush_s d = (d', done) \<Longrightarrow>
      done \<and> budget d \<le> Suc (budget d')"

text \<open>A device that answers and refuses to read past its end.\<close>

locale bounded_device = reliable_device read_s write_s flush_s ok visible survivors n budget
  for read_s :: "'d read_callback" and write_s :: "'d write_callback" and flush_s :: "'d flush_callback"
    and ok :: "'d \<Rightarrow> bool" and visible :: "'d \<Rightarrow> u64 \<Rightarrow> bytes"
    and survivors :: "'d \<Rightarrow> u64 \<Rightarrow> bytes set" and n :: u64 and budget :: "'d \<Rightarrow> nat" +
  assumes read_refused: "ok d \<Longrightarrow> n \<le> s \<Longrightarrow> read_s d s = (d', r) \<Longrightarrow> r = None"

section \<open>The device of the write-ordering test\<close>

abbreviation DISK_SECTORS :: nat where "DISK_SECTORS \<equiv> 128"

record barrier_disk =
  bd_durable :: "bytes list"
  bd_visible :: "bytes list"
  bd_unflushed :: "bool list"
  bd_writes_remaining :: nat
  bd_cut :: bool
  bd_flush_is_noop :: bool
  bd_ignore_flush_index :: nat
  bd_write_count :: nat
  bd_flush_count :: nat

definition barrier_read :: "barrier_disk read_callback" where
  "barrier_read d sector =
     (if unat sector \<ge> DISK_SECTORS then (d, None) else (d, Some (bd_visible d ! unat sector)))"

definition barrier_write :: "barrier_disk write_callback" where
  "barrier_write d sector buffer =
     (if unat sector \<ge> DISK_SECTORS then (d, False)
      else if bd_cut d then (d, False)
      else if bd_writes_remaining d = 0 then (d\<lparr>bd_cut := True\<rparr>, False)
      else let d1 = d\<lparr>bd_writes_remaining := bd_writes_remaining d - 1,
                      bd_visible := (bd_visible d)[unat sector := buffer],
                      bd_unflushed := (bd_unflushed d)[unat sector := True],
                      bd_write_count := bd_write_count d + 1\<rparr>
        in (if bd_writes_remaining d1 = 0 then d1\<lparr>bd_cut := True\<rparr> else d1, True))"

definition persist_sector :: "barrier_disk \<Rightarrow> nat \<Rightarrow> barrier_disk" where
  "persist_sector d sector =
     (if bd_unflushed d ! sector
      then d\<lparr>bd_durable := (bd_durable d)[sector := bd_visible d ! sector],
             bd_unflushed := (bd_unflushed d)[sector := False]\<rparr>
      else d)"

definition barrier_flush :: "barrier_disk flush_callback" where
  "barrier_flush d =
     (if bd_cut d then (d, False)
      else let d1 = d\<lparr>bd_flush_count := bd_flush_count d + 1\<rparr> in
        if bd_flush_is_noop d1 \<or> bd_flush_count d1 = bd_ignore_flush_index d1 then (d1, True)
        else (foldl persist_sector d1 [0..<DISK_SECTORS], True))"

definition power_cut_sector :: "nat \<Rightarrow> barrier_disk \<times> nat \<Rightarrow> nat \<Rightarrow> barrier_disk \<times> nat" where
  "power_cut_sector drop_index dn sector =
     (case dn of (d, ordinal) \<Rightarrow>
        if \<not> bd_unflushed d ! sector then (d, ordinal)
        else let ordinal = ordinal + 1;
                 d1 = (if drop_index = 0 \<or> ordinal = drop_index
                       then d\<lparr>bd_visible := (bd_visible d)[sector := bd_durable d ! sector]\<rparr>
                       else d\<lparr>bd_durable := (bd_durable d)[sector := bd_visible d ! sector]\<rparr>)
          in (d1\<lparr>bd_unflushed := (bd_unflushed d1)[sector := False]\<rparr>, ordinal))"

definition power_cut :: "barrier_disk \<Rightarrow> nat \<Rightarrow> barrier_disk" where
  "power_cut d drop_index =
     (fst (foldl (power_cut_sector drop_index) (d, 0) [0..<DISK_SECTORS]))
       \<lparr>bd_cut := False, bd_writes_remaining := 0xFFFFFFFF\<rparr>"

definition make_io :: "barrier_disk \<Rightarrow> barrier_disk object_store_io" where
  "make_io d = \<lparr>io_context = d, io_sector_count = 128, io_read_sector = Some barrier_read,
                io_write_sector = Some barrier_write, io_flush = Some barrier_flush\<rparr>"

section \<open>It keeps the contract\<close>

text \<open>The device with its two sabotage options off, and no flushed sector out of date.\<close>

definition barrier_ok :: "barrier_disk \<Rightarrow> bool" where
  "barrier_ok d \<longleftrightarrow> length (bd_durable d) = DISK_SECTORS \<and> length (bd_visible d) = DISK_SECTORS \<and>
     length (bd_unflushed d) = DISK_SECTORS \<and> \<not> bd_flush_is_noop d \<and> bd_ignore_flush_index d = 0 \<and>
     (\<forall>i<DISK_SECTORS. \<not> bd_unflushed d ! i \<longrightarrow> bd_durable d ! i = bd_visible d ! i)"

definition barrier_visible :: "barrier_disk \<Rightarrow> u64 \<Rightarrow> bytes" where
  "barrier_visible d s = (if unat s < DISK_SECTORS then bd_visible d ! unat s else [])"

definition barrier_survivors :: "barrier_disk \<Rightarrow> u64 \<Rightarrow> bytes set" where
  "barrier_survivors d s =
     (if unat s < DISK_SECTORS then {bd_durable d ! unat s, bd_visible d ! unat s} else {[]})"

definition barrier_budget :: "barrier_disk \<Rightarrow> nat" where
  "barrier_budget d = (if bd_cut d then 0 else bd_writes_remaining d - 1)"

lemma persist_all:
  assumes "length (bd_durable d) = N" "length (bd_visible d) = N" "length (bd_unflushed d) = N"
    and "\<forall>i<N. \<not> bd_unflushed d ! i \<longrightarrow> bd_durable d ! i = bd_visible d ! i" "k \<le> N"
  shows "\<exists>du uf. foldl persist_sector d [0..<k] = d\<lparr>bd_durable := du, bd_unflushed := uf\<rparr> \<and>
    length du = N \<and> length uf = N \<and> (\<forall>i<k. \<not> uf ! i) \<and>
    (\<forall>i<N. \<not> uf ! i \<longrightarrow> du ! i = bd_visible d ! i) \<and> (\<forall>i<N. du ! i \<in> {bd_durable d ! i, bd_visible d ! i})"
  using assms(5)
proof (induction k)
  case 0
  show ?case by (rule exI [of _ "bd_durable d"], rule exI [of _ "bd_unflushed d"]) (use assms in auto)
next
  case (Suc k)
  then obtain du uf where IH: "foldl persist_sector d [0..<k] = d\<lparr>bd_durable := du, bd_unflushed := uf\<rparr>"
    "length du = N" "length uf = N" "\<forall>i<k. \<not> uf ! i" "\<forall>i<N. \<not> uf ! i \<longrightarrow> du ! i = bd_visible d ! i"
    "\<forall>i<N. du ! i \<in> {bd_durable d ! i, bd_visible d ! i}" by auto
  let ?d = "d\<lparr>bd_durable := du, bd_unflushed := uf\<rparr>"
  have st: "foldl persist_sector d [0..<Suc k] = persist_sector ?d k" by (simp add: IH(1))
  show ?case
  proof (cases "uf ! k")
    case True
    show ?thesis unfolding st persist_sector_def [of ?d]
      by (rule exI [of _ "du[k := bd_visible d ! k]"], rule exI [of _ "uf[k := False]"])
        (use IH True Suc.prems assms in \<open>auto simp: nth_list_update less_Suc_eq\<close>)
  next
    case False
    show ?thesis unfolding st persist_sector_def [of ?d]
      by (rule exI [of _ du], rule exI [of _ uf])
        (use IH False Suc.prems in \<open>auto simp: less_Suc_eq\<close>)
  qed
qed

lemma barrier_flush_result:
  assumes "barrier_ok d" "barrier_flush d = (d', done)"
  shows "barrier_ok d' \<and> bd_visible d' = bd_visible d \<and> bd_cut d' = bd_cut d \<and>
    bd_writes_remaining d' = bd_writes_remaining d \<and> (done \<longleftrightarrow> \<not> bd_cut d) \<and>
    (\<forall>i<DISK_SECTORS. bd_durable d' ! i \<in> {bd_durable d ! i, bd_visible d ! i}) \<and>
    (done \<longrightarrow> (\<forall>i<DISK_SECTORS. bd_durable d' ! i = bd_visible d ! i))"
proof (cases "bd_cut d")
  case True
  then show ?thesis using assms by (auto simp: barrier_flush_def)
next
  case False
  let ?d1 = "d\<lparr>bd_flush_count := bd_flush_count d + 1\<rparr>"
  from assms(1) obtain du uf where
    f: "foldl persist_sector ?d1 [0..<DISK_SECTORS] = ?d1\<lparr>bd_durable := du, bd_unflushed := uf\<rparr>"
    "length du = DISK_SECTORS" "length uf = DISK_SECTORS" "\<forall>i<DISK_SECTORS. \<not> uf ! i"
    "\<forall>i<DISK_SECTORS. \<not> uf ! i \<longrightarrow> du ! i = bd_visible d ! i"
    using persist_all [of ?d1 DISK_SECTORS DISK_SECTORS] by (auto simp: barrier_ok_def)
  then have "d' = ?d1\<lparr>bd_durable := du, bd_unflushed := uf\<rparr>" "done"
    using False assms by (auto simp: barrier_flush_def barrier_ok_def Let_def)
  with f assms(1) False show ?thesis by (auto simp: barrier_ok_def)
qed

lemma barrier_write_result:
  assumes "barrier_ok d" "barrier_write d s b = (d', done)"
  shows "barrier_ok d' \<and> bd_durable d' = bd_durable d \<and>
    (done \<longrightarrow> unat s < DISK_SECTORS) \<and>
    bd_visible d' = (if done then (bd_visible d)[unat s := b] else bd_visible d) \<and>
    (unat s < DISK_SECTORS \<longrightarrow> 0 < barrier_budget d \<longrightarrow> done) \<and>
    barrier_budget d \<le> Suc (barrier_budget d')"
  using assms
  by (auto simp: barrier_write_def barrier_ok_def barrier_budget_def Let_def nth_list_update
      split: if_splits)

lemma unat_less_128: "unat (s :: u64) < 128 \<longleftrightarrow> s < 128"
  by (simp add: word_less_nat_alt)

interpretation barrier: reliable_device barrier_read barrier_write barrier_flush barrier_ok
  barrier_visible barrier_survivors 128 barrier_budget
proof unfold_locales
  fix d d' :: barrier_disk and s b r "done"
  assume ok: "barrier_ok d"
  show "barrier_read d s = (d', r) \<Longrightarrow> barrier_ok d' \<and> barrier_visible d' = barrier_visible d \<and>
      barrier_survivors d' = barrier_survivors d \<and> (r = None \<or> r = Some (barrier_visible d s))"
    using ok by (auto simp: barrier_read_def barrier_visible_def split: if_splits)
  show "barrier_visible d s \<in> barrier_survivors d s"
    by (simp add: barrier_visible_def barrier_survivors_def)
  show "s < 128 \<Longrightarrow> barrier_read d s = (d', r) \<Longrightarrow> r \<noteq> None"
    by (auto simp: barrier_read_def unat_less_128 simp flip: not_less split: if_splits)
  show "barrier_read d s = (d', r) \<Longrightarrow> barrier_budget d' = barrier_budget d"
    by (auto simp: barrier_read_def split: if_splits)
  show "s < 128 \<Longrightarrow> 0 < barrier_budget d \<Longrightarrow> barrier_write d s b = (d', done) \<Longrightarrow>
      done \<and> barrier_budget d \<le> Suc (barrier_budget d')"
    using barrier_write_result [OF ok, of s b d' "done"] by (simp add: unat_less_128)
  show "0 < barrier_budget d \<Longrightarrow> barrier_flush d = (d', done) \<Longrightarrow>
      done \<and> barrier_budget d \<le> Suc (barrier_budget d')"
    using barrier_flush_result [OF ok] by (auto simp: barrier_budget_def split: if_splits)
  show "barrier_flush d = (d', done) \<Longrightarrow>
      barrier_ok d' \<and> barrier_visible d' = barrier_visible d \<and>
      (\<forall>t. barrier_survivors d' t \<subseteq> barrier_survivors d t) \<and>
      (done \<longrightarrow> (\<forall>t. barrier_survivors d' t = {barrier_visible d t}))"
    using barrier_flush_result [OF ok] by (auto simp: barrier_visible_def barrier_survivors_def)
  show "barrier_write d s b = (d', done) \<Longrightarrow>
      barrier_ok d' \<and> (\<forall>t. barrier_survivors d' t \<subseteq>
        (if t = s then insert b (barrier_survivors d s) else barrier_survivors d t)) \<and>
      (\<forall>t. t \<noteq> s \<longrightarrow> barrier_visible d' t = barrier_visible d t) \<and>
      (barrier_visible d' s = b \<or> \<not> done \<and> barrier_visible d' s = barrier_visible d s)"
    using barrier_write_result [OF ok, of s b d' "done"] ok
    by (auto simp: barrier_visible_def barrier_survivors_def barrier_ok_def nth_list_update
        word_unat_eq_iff)
qed

interpretation barrier: bounded_device barrier_read barrier_write barrier_flush barrier_ok
  barrier_visible barrier_survivors 128 barrier_budget
  by unfold_locales (auto simp: barrier_read_def word_le_nat_alt split: if_splits)

section \<open>Power loss\<close>

text \<open>
  The image a device starts from after power was lost: every sector holds one of its
  survivors, and nothing is pending. \<open>power_cut\<close> produces such images.
\<close>

definition reboot_image :: "('d \<Rightarrow> u64 \<Rightarrow> bytes set) \<Rightarrow> ('d \<Rightarrow> u64 \<Rightarrow> bytes) \<Rightarrow> 'd \<Rightarrow> 'd \<Rightarrow> bool" where
  "reboot_image survivors visible d d' \<longleftrightarrow>
     (\<forall>s. visible d' s \<in> survivors d s \<and> survivors d' s = {visible d' s})"

lemma power_cut_prefix:
  assumes "barrier_ok d" "k \<le> DISK_SECTORS"
  shows "\<exists>du vi uf m. foldl (power_cut_sector drop_index) (d, 0) [0..<k] =
      (d\<lparr>bd_durable := du, bd_visible := vi, bd_unflushed := uf\<rparr>, m) \<and>
    length du = DISK_SECTORS \<and> length vi = DISK_SECTORS \<and> length uf = DISK_SECTORS \<and>
    (\<forall>i<k. \<not> uf ! i) \<and> (\<forall>i<DISK_SECTORS. \<not> uf ! i \<longrightarrow> du ! i = vi ! i) \<and>
    (\<forall>i<DISK_SECTORS. vi ! i \<in> {bd_durable d ! i, bd_visible d ! i}) \<and>
    (\<forall>i<DISK_SECTORS. du ! i \<in> {bd_durable d ! i, bd_visible d ! i})"
  using assms(2)
proof (induction k)
  case 0
  show ?case
    by (rule exI [of _ "bd_durable d"], rule exI [of _ "bd_visible d"], rule exI [of _ "bd_unflushed d"])
      (use assms(1) in \<open>auto simp: barrier_ok_def\<close>)
next
  case (Suc k)
  then obtain du vi uf m where IH: "foldl (power_cut_sector drop_index) (d, 0) [0..<k] =
      (d\<lparr>bd_durable := du, bd_visible := vi, bd_unflushed := uf\<rparr>, m)"
    and l: "length du = DISK_SECTORS" "length vi = DISK_SECTORS" "length uf = DISK_SECTORS"
    and p: "\<forall>i<k. \<not> uf ! i" "\<forall>i<DISK_SECTORS. \<not> uf ! i \<longrightarrow> du ! i = vi ! i"
      "\<forall>i<DISK_SECTORS. vi ! i \<in> {bd_durable d ! i, bd_visible d ! i}"
      "\<forall>i<DISK_SECTORS. du ! i \<in> {bd_durable d ! i, bd_visible d ! i}" by force
  let ?d = "d\<lparr>bd_durable := du, bd_visible := vi, bd_unflushed := uf\<rparr>"
  have st: "foldl (power_cut_sector drop_index) (d, 0) [0..<Suc k] = power_cut_sector drop_index (?d, m) k"
    by (simp add: IH)
  have k: "k < DISK_SECTORS" using Suc.prems by simp
  consider "\<not> uf ! k" | "uf ! k" "drop_index = 0 \<or> m + 1 = drop_index" | "uf ! k" "\<not> (drop_index = 0 \<or> m + 1 = drop_index)"
    by blast
  then show ?case
  proof cases
    case 1
    then show ?thesis unfolding st using l p
      by (intro exI [of _ du] exI [of _ vi] exI [of _ uf]) (auto simp: power_cut_sector_def less_Suc_eq)
  next
    case 2
    then show ?thesis unfolding st using l p k
      by (intro exI [of _ du] exI [of _ "vi[k := du ! k]"] exI [of _ "uf[k := False]"])
        (auto simp: power_cut_sector_def Let_def less_Suc_eq nth_list_update)
  next
    case 3
    then show ?thesis unfolding st using l p k
      by (intro exI [of _ "du[k := vi ! k]"] exI [of _ vi] exI [of _ "uf[k := False]"])
        (auto simp: power_cut_sector_def Let_def less_Suc_eq nth_list_update)
  qed
qed

lemma power_cut_reboot:
  assumes "barrier_ok d"
  shows "barrier_ok (power_cut d k)" "reboot_image barrier_survivors barrier_visible d (power_cut d k)"
    "barrier_budget (power_cut d k) = 0xFFFFFFFE"
proof -
  from power_cut_prefix [OF assms order_refl, of k] obtain du vi uf m where
    f: "foldl (power_cut_sector k) (d, 0) [0..<DISK_SECTORS] =
      (d\<lparr>bd_durable := du, bd_visible := vi, bd_unflushed := uf\<rparr>, m)"
    "length du = DISK_SECTORS" "length vi = DISK_SECTORS" "length uf = DISK_SECTORS"
    "\<forall>i<DISK_SECTORS. \<not> uf ! i" "\<forall>i<DISK_SECTORS. \<not> uf ! i \<longrightarrow> du ! i = vi ! i"
    "\<forall>i<DISK_SECTORS. vi ! i \<in> {bd_durable d ! i, bd_visible d ! i}" by force
  have c: "power_cut d k = d\<lparr>bd_durable := du, bd_visible := vi, bd_unflushed := uf,
      bd_cut := False, bd_writes_remaining := 0xFFFFFFFF\<rparr>"
    unfolding power_cut_def f(1) by simp
  show "barrier_ok (power_cut d k)" unfolding c using f assms by (auto simp: barrier_ok_def)
  show "reboot_image barrier_survivors barrier_visible d (power_cut d k)"
    unfolding c reboot_image_def using f by (auto simp: barrier_visible_def barrier_survivors_def)
  show "barrier_budget (power_cut d k) = 0xFFFFFFFE" unfolding c by (simp add: barrier_budget_def)
qed

end
