(* ===== verification/Store_Bitmap.thy ===== *)
theory Store_Bitmap
  imports Block_Device
begin

text \<open>
  \<^verbatim>\<open>struct object_store\<close> of \<^verbatim>\<open>kernel/obj/object_store.h\<close> and the sector
  bitmap of \<^verbatim>\<open>object_store.c\<close>. A buffer the caller lends to the store is part of its
  state; the contents of the scratch array are not followed, because every operation fills it
  before it reads it. Sector numbers, versions, generations and sequence numbers are 64-bit
  words; sizes and indices of type \<open>size_t\<close> are natural numbers.
\<close>

record object_cache_slot =
  cs_id :: object_id
  cs_version :: u64
  cs_offset :: nat
  cs_length :: nat
  cs_last_access :: u64

record object_store_snapshot =
  snap_id :: u64
  snap_table_sector :: u64
  snap_table_count :: u64

record 'd object_store =
  st_io :: "'d object_store_io"
  st_table :: object_table
  st_scratch_entries :: "object_table_entry list option"
  st_table_capacity :: nat
  st_cache_buffer :: bytes
  st_cache_capacity :: nat
  st_arena_buffer :: bytes
  st_arena_capacity :: nat
  st_arena_used :: nat
  st_cache_slots :: "object_cache_slot list"
  st_cache_slot_count :: nat
  st_cache_clock :: u64
  st_bitmap_buffer :: bytes
  st_bitmap_capacity :: nat
  st_next_sector :: u64
  st_current_table_sector :: u64
  st_current_generation :: u64
  st_superblock_sequence :: u64
  st_active_superblock_sector :: u64
  st_recovery_required :: u32
  st_snapshots :: "object_store_snapshot list"

abbreviation sector_count :: "'d object_store \<Rightarrow> u64" where
  "sector_count s \<equiv> io_sector_count (st_io s)"

section \<open>Operations\<close>

definition bitmap_bytes_for :: "u64 \<Rightarrow> u64" where
  "bitmap_bytes_for n = (n + 7) div 8"

definition sector_mask :: "u64 \<Rightarrow> u8" where
  "sector_mask sector = push_bit (unat (sector mod 8)) 1"

definition bitmap_test :: "'d object_store \<Rightarrow> u64 \<Rightarrow> bool" where
  "bitmap_test s sector =
     (if sector \<ge> sector_count s then True
      else (st_bitmap_buffer s ! unat (sector div 8)) AND sector_mask sector \<noteq> 0)"

definition bitmap_set :: "'d object_store \<Rightarrow> u64 \<Rightarrow> 'd object_store" where
  "bitmap_set s sector =
     (if sector \<ge> sector_count s then s
      else let k = unat (sector div 8) in
        s\<lparr>st_bitmap_buffer := (st_bitmap_buffer s)[k := (st_bitmap_buffer s ! k) OR sector_mask sector]\<rparr>)"

definition bitmap_clear :: "'d object_store \<Rightarrow> u64 \<Rightarrow> 'd object_store" where
  "bitmap_clear s sector =
     (if sector \<ge> sector_count s then s
      else let k = unat (sector div 8) in
        s\<lparr>st_bitmap_buffer := (st_bitmap_buffer s)[k := (st_bitmap_buffer s ! k) AND NOT (sector_mask sector)]\<rparr>)"

definition bitmap_set_range :: "'d object_store \<Rightarrow> u64 \<Rightarrow> u64 \<Rightarrow> 'd object_store" where
  "bitmap_set_range s first_sector count =
     foldl (\<lambda>s index. bitmap_set s (first_sector + of_nat index)) s [0..<unat count]"

definition bitmap_clear_range :: "'d object_store \<Rightarrow> u64 \<Rightarrow> u64 \<Rightarrow> 'd object_store" where
  "bitmap_clear_range s first_sector count =
     foldl (\<lambda>s index. bitmap_clear s (first_sector + of_nat index)) s [0..<unat count]"

lemma unat_succ_less: "(x :: 'a::len word) < y \<Longrightarrow> unat (x + 1) = Suc (unat x)"
  by (metis Suc_eq_plus1 word_le_less_eq leD max_word_max unat_inc)

text \<open>The search loop of \<open>bitmap_allocate\<close>: the first sector of the run it finds.\<close>

function allocate_loop :: "'d object_store \<Rightarrow> u64 \<Rightarrow> u64 \<Rightarrow> u64 \<Rightarrow> u64 option" where
  "allocate_loop s count run sector =
     (if sector < sector_count s then
        if bitmap_test s sector then allocate_loop s count 0 (sector + 1)
        else if run + 1 = count then Some ((sector - count) + 1)
        else allocate_loop s count (run + 1) (sector + 1)
      else None)"
  by pat_completeness auto
termination
  by (relation "measure (\<lambda>(s, count, run, sector). unat (sector_count s) - unat sector)")
    (auto simp: unat_succ_less word_less_nat_alt)

declare allocate_loop.simps [simp del]

definition bitmap_allocate :: "'d object_store \<Rightarrow> u64 \<Rightarrow> ('d object_store \<times> u64) option" where
  "bitmap_allocate s count =
     (if count = 0 \<or> count > sector_count s then None
      else case allocate_loop s count 0 3 of
        None \<Rightarrow> None
      | Some first_sector \<Rightarrow> Some (bitmap_set_range s first_sector count, first_sector))"

section \<open>The bitmap is a set of sectors\<close>

definition bitmap_ok :: "'d object_store \<Rightarrow> bool" where
  "bitmap_ok s \<longleftrightarrow> (unat (sector_count s) + 7) div 8 \<le> length (st_bitmap_buffer s)"

definition used_sectors :: "'d object_store \<Rightarrow> u64 set" where
  "used_sectors s = {t. bitmap_test s t}"

definition extent :: "u64 \<Rightarrow> u64 \<Rightarrow> u64 set" where
  "extent first_sector count = (\<lambda>i. first_sector + of_nat i) ` {..<unat count}"

lemma bit_sector_mask: "bit (sector_mask t) k \<longleftrightarrow> k = unat (t mod 8)"
  by (simp add: sector_mask_def bit_byte_mask)

lemma and_sector_mask: "(w AND sector_mask t \<noteq> 0) \<longleftrightarrow> bit w (unat (t mod 8))"
  by (simp add: sector_mask_def and_byte_mask)

lemma bitmap_index:
  "bitmap_ok s \<Longrightarrow> t < sector_count s \<Longrightarrow> unat (t div 8) < length (st_bitmap_buffer s)"
  by (auto simp: bitmap_ok_def word_less_nat_alt unat_div)

lemma bitmap_set_test:
  assumes "bitmap_ok s"
  shows "bitmap_test (bitmap_set s t) u \<longleftrightarrow> bitmap_test s u \<or> u = t"
  using bitmap_index [OF assms, of t] bitmap_index [OF assms, of u]
  by (auto simp: bitmap_test_def bitmap_set_def Let_def and_sector_mask nth_list_update bit_or_iff
      bit_sector_mask dest: byte_and_bit_inj)

lemma bitmap_clear_test:
  assumes "bitmap_ok s"
  shows "bitmap_test (bitmap_clear s t) u \<longleftrightarrow> bitmap_test s u \<and> (u \<noteq> t \<or> sector_count s \<le> t)"
  using bitmap_index [OF assms, of t] bitmap_index [OF assms, of u]
  by (auto simp: bitmap_test_def bitmap_clear_def Let_def and_sector_mask nth_list_update bit_and_iff
      bit_not_iff bit_sector_mask dest: byte_and_bit_inj)

text \<open>Everything but the bitmap is left alone.\<close>

definition bitmap_frame :: "'d object_store \<Rightarrow> 'd object_store \<Rightarrow> bool" where
  "bitmap_frame s s' \<longleftrightarrow> (\<exists>b. s' = s\<lparr>st_bitmap_buffer := b\<rparr> \<and> length b = length (st_bitmap_buffer s))"

lemma bitmap_frame_refl [intro, simp]: "bitmap_frame s s"
  unfolding bitmap_frame_def by (rule exI [of _ "st_bitmap_buffer s"]) simp

lemma bitmap_frame_trans [trans]: "bitmap_frame s t \<Longrightarrow> bitmap_frame t u \<Longrightarrow> bitmap_frame s u"
  by (auto simp: bitmap_frame_def)

lemma bitmap_frame_set: "bitmap_frame s (bitmap_set s t)" "bitmap_frame s (bitmap_clear s t)"
  unfolding bitmap_set_def bitmap_clear_def Let_def
  by (auto simp: bitmap_frame_def intro: exI [of _ "st_bitmap_buffer s"])

lemma bitmap_frame_ok: "bitmap_frame s s' \<Longrightarrow> bitmap_ok s' = bitmap_ok s"
  by (auto simp: bitmap_frame_def bitmap_ok_def)

lemma bitmap_frame_io: "bitmap_frame s s' \<Longrightarrow> st_io s' = st_io s"
  by (auto simp: bitmap_frame_def)

lemma bitmap_set_fold:
  assumes "bitmap_ok s"
  shows "bitmap_frame s (foldl (\<lambda>s i. bitmap_set s (f i)) s xs) \<and>
    (\<forall>u. bitmap_test (foldl (\<lambda>s i. bitmap_set s (f i)) s xs) u \<longleftrightarrow> bitmap_test s u \<or> u \<in> f ` set xs)"
  using assms
proof (induction xs arbitrary: s)
  case (Cons x xs)
  have ok: "bitmap_ok (bitmap_set s (f x))" using Cons.prems bitmap_frame_ok [OF bitmap_frame_set(1)] by blast
  then show ?case
    using Cons.IH [OF ok] bitmap_frame_trans [OF bitmap_frame_set(1)] bitmap_set_test [OF Cons.prems]
    by fastforce
qed simp

lemma bitmap_clear_fold:
  assumes "bitmap_ok s"
  shows "bitmap_frame s (foldl (\<lambda>s i. bitmap_clear s (f i)) s xs) \<and>
    (\<forall>u. bitmap_test (foldl (\<lambda>s i. bitmap_clear s (f i)) s xs) u \<longleftrightarrow>
       bitmap_test s u \<and> (u \<notin> f ` set xs \<or> sector_count s \<le> u))"
  using assms
proof (induction xs arbitrary: s)
  case (Cons x xs)
  have ok: "bitmap_ok (bitmap_clear s (f x))" using Cons.prems bitmap_frame_ok [OF bitmap_frame_set(2)] by blast
  then show ?case
    using Cons.IH [OF ok] bitmap_frame_trans [OF bitmap_frame_set(2)] bitmap_clear_test [OF Cons.prems]
      bitmap_frame_io [OF bitmap_frame_set(2), of s "f x"]
    by fastforce
qed simp

lemma bitmap_set_range_result:
  assumes "bitmap_ok s"
  shows "bitmap_frame s (bitmap_set_range s f c)" "bitmap_ok (bitmap_set_range s f c)"
    "used_sectors (bitmap_set_range s f c) = used_sectors s \<union> extent f c"
  using bitmap_set_fold [OF assms, of "\<lambda>i. f + of_nat i" "[0..<unat c]"] assms bitmap_frame_ok
  by (auto simp: bitmap_set_range_def used_sectors_def extent_def atLeast0LessThan)

lemma bitmap_clear_range_result:
  assumes "bitmap_ok s"
  shows "bitmap_frame s (bitmap_clear_range s f c)" "bitmap_ok (bitmap_clear_range s f c)"
    "used_sectors (bitmap_clear_range s f c) = used_sectors s - (extent f c \<inter> {t. t < sector_count s})"
  using bitmap_clear_fold [OF assms, of "\<lambda>i. f + of_nat i" "[0..<unat c]"] assms bitmap_frame_ok
  by (auto simp: bitmap_clear_range_def used_sectors_def extent_def atLeast0LessThan not_less)

section \<open>Allocation is first fit\<close>

text \<open>\<open>taken s g count\<close>: some sector of the run of \<open>count\<close> sectors from \<open>g\<close> is in use.\<close>

definition taken :: "'d object_store \<Rightarrow> nat \<Rightarrow> nat \<Rightarrow> bool" where
  "taken s g count \<longleftrightarrow> (\<exists>i. g \<le> i \<and> i < g + count \<and> bitmap_test s (of_nat i))"

lemma allocate_loop_result:
  assumes "unat run < unat count" "3 + unat run \<le> unat sector" "unat sector \<le> unat (sector_count s)"
    and "\<And>i. unat sector - unat run \<le> i \<Longrightarrow> i < unat sector \<Longrightarrow> \<not> bitmap_test s (of_nat i)"
    and "\<And>g. 3 \<le> g \<Longrightarrow> g < unat sector - unat run \<Longrightarrow> taken s g (unat count)"
  shows "case allocate_loop s count run sector of
      Some f \<Rightarrow> 3 \<le> unat f \<and> unat f + unat count \<le> unat (sector_count s) \<and> \<not> taken s (unat f) (unat count) \<and>
        (\<forall>g. 3 \<le> g \<longrightarrow> g < unat f \<longrightarrow> taken s g (unat count))
    | None \<Rightarrow> \<forall>g. 3 \<le> g \<longrightarrow> g + unat count \<le> unat (sector_count s) \<longrightarrow> taken s g (unat count)"
  using assms
proof (induction s count run sector rule: allocate_loop.induct)
  case (1 s count run sector)
  note simps = allocate_loop.simps [of s count run sector]
  show ?case
  proof (cases "sector < sector_count s")
    case False
    then have n: "unat sector = unat (sector_count s)" using "1.prems"(3) by (simp add: word_less_nat_alt)
    have "taken s g (unat count)" if "3 \<le> g" "g + unat count \<le> unat (sector_count s)" for g
      using "1.prems"(1,5) that n by auto
    then show ?thesis using False simps by simp
  next
    case True
    then have s1: "unat (sector + 1) = Suc (unat sector)" "unat sector < unat (sector_count s)"
      by (simp_all add: unat_succ_less word_less_nat_alt)
    show ?thesis
    proof (cases "bitmap_test s sector")
      case test: True
      have "taken s g (unat count)" if "3 \<le> g" "g < unat (sector + 1) - unat (0 :: u64)" for g
      proof (cases "g < unat sector - unat run")
        case False
        then have "g \<le> unat sector" "unat sector < g + unat count" using that s1 "1.prems"(1,2) by auto
        then show ?thesis using test unfolding taken_def by (intro exI [of _ "unat sector"]) simp
      qed (use "1.prems"(5) that in blast)
      then show ?thesis
        using "1.IH"(1) [OF True test] "1.prems"(1,2) s1 simps True test by simp
    next
      case free: False
      have r1: "unat (run + 1) = Suc (unat run)"
        using "1.prems"(1) by (simp add: unat_succ_less word_less_nat_alt)
      show ?thesis
      proof (cases "run + 1 = count")
        case True
        have c: "unat count = Suc (unat run)" using r1 True by simp
        have "(sector - count) + 1 = sector - run" unfolding True [symmetric] by (simp add: algebra_simps)
        moreover have "run \<le> sector" using "1.prems"(2) by (simp add: word_le_nat_alt)
        ultimately have "unat ((sector - count) + 1) = unat sector - unat run" by (simp only: unat_sub)
        then have f: "unat ((sector - count) + 1) = Suc (unat sector) - unat count" by (simp only: c diff_Suc_Suc)
        have "\<not> taken s (unat ((sector - count) + 1)) (unat count)"
          using f c "1.prems"(2,4) free unfolding taken_def by (auto simp: less_Suc_eq)
        moreover have "taken s g (unat count)" if "3 \<le> g" "g < unat ((sector - count) + 1)" for g
          using "1.prems"(5) [of g] that f c by simp
        moreover have "3 \<le> unat ((sector - count) + 1)"
          "unat ((sector - count) + 1) + unat count \<le> unat (sector_count s)"
          using f c "1.prems"(2) s1 by auto
        ultimately show ?thesis using simps \<open>sector < sector_count s\<close> free True by simp
      next
        case False
        have lt: "unat (run + 1) < unat count" using "1.prems"(1) r1 False by (metis Suc_lessI word_unat_eq_iff)
        have "\<not> bitmap_test s (of_nat i)" if "unat (sector + 1) - unat (run + 1) \<le> i" "i < unat (sector + 1)" for i
        proof (cases "i = unat sector")
          case False
          then show ?thesis using "1.prems"(4) [of i] that s1 r1 by simp
        qed (use free in simp)
        moreover have "taken s g (unat count)" if "3 \<le> g" "g < unat (sector + 1) - unat (run + 1)" for g
          using "1.prems"(5) [of g] that s1 r1 by simp
        ultimately show ?thesis
          using "1.IH"(2) [OF \<open>sector < sector_count s\<close> free False] lt "1.prems"(2) s1 r1 simps
            \<open>sector < sector_count s\<close> free False by simp
      qed
    qed
  qed
qed

lemma unat_extent:
  assumes "unat f + unat c \<le> unat (n :: u64)"
  shows "t \<in> extent f c \<longleftrightarrow> unat f \<le> unat t \<and> unat t < unat f + unat c"
proof
  assume "t \<in> extent f c"
  then obtain i where i: "i < unat c" "t = f + of_nat i" by (auto simp: extent_def)
  then have "unat f + i < 2 ^ 64" using assms unat64_less [of n] by simp
  then have "unat t = unat f + i" by (simp add: i unat_word_ariths unat_of_nat)
  then show "unat f \<le> unat t \<and> unat t < unat f + unat c" using i by simp
next
  assume a: "unat f \<le> unat t \<and> unat t < unat f + unat c"
  have "t = f + of_nat (unat t - unat f)" using a by (simp add: of_nat_diff)
  then show "t \<in> extent f c"
    using a unfolding extent_def by (intro image_eqI [of _ _ "unat t - unat f"]) auto
qed

lemma taken_extent:
  assumes "unat f + unat c \<le> unat (n :: u64)"
  shows "taken s (unat f) (unat c) \<longleftrightarrow> extent f c \<inter> used_sectors s \<noteq> {}"
proof -
  have "t \<in> extent f c \<Longrightarrow> bitmap_test s t \<Longrightarrow> taken s (unat f) (unat c)" for t
    using unat_extent [OF assms] unfolding taken_def by (intro exI [of _ "unat t"]) simp
  moreover have "of_nat i \<in> extent f c" if "unat f \<le> i" "i < unat f + unat c" for i
  proof -
    have "i < 2 ^ 64" using that assms unat64_less [of n] by simp
    then have "unat (of_nat i :: u64) = i" by (simp add: unat_of_nat)
    then show ?thesis using that unat_extent [OF assms] by simp
  qed
  ultimately show ?thesis unfolding taken_def used_sectors_def by blast
qed

lemma bitmap_allocate_Some:
  assumes "bitmap_allocate s c = Some (s', f)" "bitmap_ok s" "3 \<le> sector_count s"
  shows "bitmap_frame s s'" "bitmap_ok s'" "used_sectors s' = used_sectors s \<union> extent f c"
    "extent f c \<inter> used_sectors s = {}" "3 \<le> f" "unat f + unat c \<le> unat (sector_count s)" "c \<noteq> 0"
proof -
  from assms(1) have c: "c \<noteq> 0" "allocate_loop s c 0 3 = Some f" "s' = bitmap_set_range s f c"
    by (auto simp: bitmap_allocate_def split: if_splits option.splits)
  from allocate_loop_result [of 0 c 3 s] c assms(3)
  have r: "3 \<le> unat f" "unat f + unat c \<le> unat (sector_count s)" "\<not> taken s (unat f) (unat c)"
    by (auto simp: unat_gt_0 word_le_nat_alt)
  show "bitmap_frame s s'" "bitmap_ok s'" "used_sectors s' = used_sectors s \<union> extent f c"
    unfolding c using bitmap_set_range_result [OF assms(2)] by auto
  show "extent f c \<inter> used_sectors s = {}" using r taken_extent by blast
  show "3 \<le> f" "unat f + unat c \<le> unat (sector_count s)" "c \<noteq> 0"
    using r c by (auto simp: word_le_nat_alt)
qed

section \<open>Property\<close>

text \<open>
  C12: the sector allocator is first fit and complete. On a bitmap that covers the device,
  \<open>bitmap_allocate\<close> fails exactly when there is no run of \<open>count\<close> free sectors from
  sector 3 on; otherwise it returns the lowest such run, which lies inside the device, marks
  exactly its sectors as used and changes nothing else of the store.
\<close>

theorem bitmap_allocate_first_fit:
  assumes "bitmap_ok s" "3 \<le> sector_count s" "c \<noteq> 0"
  shows "case bitmap_allocate s c of
      None \<Rightarrow> \<forall>g. 3 \<le> g \<and> unat g + unat c \<le> unat (sector_count s) \<longrightarrow> extent g c \<inter> used_sectors s \<noteq> {}
    | Some (s', f) \<Rightarrow> 3 \<le> f \<and> unat f + unat c \<le> unat (sector_count s) \<and>
        extent f c \<inter> used_sectors s = {} \<and> used_sectors s' = used_sectors s \<union> extent f c \<and>
        (\<forall>g. 3 \<le> g \<and> g < f \<longrightarrow> extent g c \<inter> used_sectors s \<noteq> {}) \<and>
        (\<exists>b. s' = s\<lparr>st_bitmap_buffer := b\<rparr>)"
proof -
  have loop: "case allocate_loop s c 0 3 of
      Some f \<Rightarrow> 3 \<le> unat f \<and> unat f + unat c \<le> unat (sector_count s) \<and> \<not> taken s (unat f) (unat c) \<and>
        (\<forall>g. 3 \<le> g \<longrightarrow> g < unat f \<longrightarrow> taken s g (unat c))
    | None \<Rightarrow> \<forall>g. 3 \<le> g \<longrightarrow> g + unat c \<le> unat (sector_count s) \<longrightarrow> taken s g (unat c)"
    using allocate_loop_result [of 0 c 3 s] assms(2,3) by (auto simp: unat_gt_0 word_le_nat_alt)
  show ?thesis
  proof (cases "bitmap_allocate s c")
    case None
    have "extent g c \<inter> used_sectors s \<noteq> {}" if g: "3 \<le> g" "unat g + unat c \<le> unat (sector_count s)" for g
    proof (cases "c > sector_count s")
      case False
      then have "allocate_loop s c 0 3 = None"
        using None assms(3) by (auto simp: bitmap_allocate_def split: option.splits)
      then show ?thesis using loop g taken_extent [OF g(2)] by (auto simp: word_le_nat_alt)
    qed (use g in \<open>simp add: word_less_nat_alt\<close>)
    then show ?thesis using None by simp
  next
    case (Some sf)
    obtain s' f where sf: "sf = (s', f)" by force
    note al = bitmap_allocate_Some [OF Some [unfolded sf] assms(1,2)]
    have f: "allocate_loop s c 0 3 = Some f"
      using Some sf by (auto simp: bitmap_allocate_def split: if_splits option.splits)
    have "extent g c \<inter> used_sectors s \<noteq> {}" if "3 \<le> g" "g < f" for g
    proof -
      have "unat g + unat c \<le> unat (sector_count s)" using that(2) al(6) by (simp add: word_less_nat_alt)
      then show ?thesis using taken_extent [of g c "sector_count s" s] loop f that
        by (auto simp: word_le_nat_alt word_less_nat_alt)
    qed
    then show ?thesis using Some sf al by (auto simp: bitmap_frame_def)
  qed
qed

definition sample_bitmap_store :: "unit object_store" where
  "sample_bitmap_store =
     \<lparr>st_io = \<lparr>io_context = (), io_sector_count = 16, io_read_sector = None, io_write_sector = None,
                io_flush = None\<rparr>,
      st_table = object_table_init None 0, st_scratch_entries = None, st_table_capacity = 0,
      st_cache_buffer = [], st_cache_capacity = 0, st_arena_buffer = [], st_arena_capacity = 0,
      st_arena_used = 0, st_cache_slots = [], st_cache_slot_count = 0, st_cache_clock = 0,
      st_bitmap_buffer = [0x17, 0], st_bitmap_capacity = 2, st_next_sector = 3,
      st_current_table_sector = 0, st_current_generation = 0, st_superblock_sequence = 0,
      st_active_superblock_sector = 0, st_recovery_required = 0, st_snapshots = []\<rparr>"

lemma sample_allocation: "allocate_loop sample_bitmap_store 2 0 3 = Some 5"
  by code_simp

theorem bitmap_allocate_first_fit_witness:
  "bitmap_ok sample_bitmap_store \<and> 3 \<le> sector_count sample_bitmap_store \<and>
   (\<exists>s'. bitmap_allocate sample_bitmap_store 2 = Some (s', 5) \<and>
      used_sectors s' = used_sectors sample_bitmap_store \<union> extent 5 2 \<and>
      extent 3 2 \<inter> used_sectors sample_bitmap_store \<noteq> {})"
proof -
  have h: "bitmap_ok sample_bitmap_store" "3 \<le> sector_count sample_bitmap_store"
    by (simp_all add: bitmap_ok_def sample_bitmap_store_def)
  have "\<exists>s'. bitmap_allocate sample_bitmap_store 2 = Some (s', 5)"
    by (simp add: bitmap_allocate_def sample_allocation) (simp add: sample_bitmap_store_def)
  with bitmap_allocate_first_fit [OF h, of 2] h show ?thesis by auto
qed

end
