(* ===== verification/Store_Cache.thy ===== *)
theory Store_Cache
  imports Store_Bitmap
begin

text \<open>
  The object cache of \<^verbatim>\<open>kernel/obj/object_store.c\<close>: up to sixteen objects, packed
  without gaps into the arena buffer, the least recently used one evicted first. The pointer
  that \<open>cache_insert\<close> returns is the offset into the arena.
\<close>

abbreviation OBJECT_STORE_CACHE_SLOTS :: nat where "OBJECT_STORE_CACHE_SLOTS \<equiv> 16"

section \<open>Operations\<close>

definition memcpy_at :: "bytes \<Rightarrow> nat \<Rightarrow> bytes \<Rightarrow> bytes" where
  "memcpy_at dest offset src = take offset dest @ src @ drop (offset + length src) dest"

definition memmove_within :: "bytes \<Rightarrow> nat \<Rightarrow> nat \<Rightarrow> nat \<Rightarrow> bytes" where
  "memmove_within buffer dest src n = memcpy_at buffer dest (take n (drop src buffer))"

definition close_hole :: "nat \<Rightarrow> nat \<Rightarrow> object_cache_slot \<Rightarrow> object_cache_slot" where
  "close_hole hole_offset hole_length c =
     (if cs_offset c > hole_offset then c\<lparr>cs_offset := cs_offset c - hole_length\<rparr> else c)"

definition cache_remove_slot :: "'d object_store \<Rightarrow> nat \<Rightarrow> 'd object_store" where
  "cache_remove_slot s index =
     (let hole_offset = cs_offset (st_cache_slots s ! index);
          hole_length = cs_length (st_cache_slots s ! index);
          count = st_cache_slot_count s;
          slots = map (close_hole hole_offset hole_length) (take count (st_cache_slots s)) @
                  drop count (st_cache_slots s)
      in s\<lparr>st_arena_buffer := memmove_within (st_arena_buffer s) hole_offset (hole_offset + hole_length)
                               (st_arena_used s - (hole_offset + hole_length)),
           st_arena_used := st_arena_used s - hole_length,
           st_cache_slots := slots[index := slots ! (count - 1)],
           st_cache_slot_count := count - 1\<rparr>)"

definition lru_victim :: "'d object_store \<Rightarrow> nat" where
  "lru_victim s =
     foldl (\<lambda>victim i. if cs_last_access (st_cache_slots s ! i) < cs_last_access (st_cache_slots s ! victim)
                       then i else victim) 0 [1..< st_cache_slot_count s]"

definition cache_evict_lru :: "'d object_store \<Rightarrow> 'd object_store" where
  "cache_evict_lru s =
     (if st_cache_slot_count s = 0 then s else cache_remove_slot s (lru_victim s))"

definition cache_find :: "'d object_store \<Rightarrow> object_id \<Rightarrow> u64 \<Rightarrow> nat option" where
  "cache_find s i version =
     List.find (\<lambda>k. cs_version (st_cache_slots s ! k) = version \<and>
                    object_id_equal (cs_id (st_cache_slots s ! k)) i) [0..< st_cache_slot_count s]"

text \<open>
  The slot of an object, whatever its version: the loop that \<open>cache_insert\<close> and
  \<open>object_store_delete\<close> both start with.
\<close>

definition cache_remove_id :: "'d object_store \<Rightarrow> object_id \<Rightarrow> 'd object_store" where
  "cache_remove_id s i =
     (case List.find (\<lambda>k. object_id_equal (cs_id (st_cache_slots s ! k)) i) [0..< st_cache_slot_count s] of
        None \<Rightarrow> s | Some k \<Rightarrow> cache_remove_slot s k)"

text \<open>
  The two eviction loops. The second runs until there is room; \<open>None\<close> is a loop that
  never ends, which would happen if the arena were full and no slot in use.
\<close>

function evict_slots :: "'d object_store \<Rightarrow> 'd object_store" where
  "evict_slots s =
     (if st_cache_slot_count s \<ge> OBJECT_STORE_CACHE_SLOTS then evict_slots (cache_evict_lru s) else s)"
  by pat_completeness auto
termination
  by (relation "measure st_cache_slot_count")
    (auto simp: cache_evict_lru_def cache_remove_slot_def Let_def)

declare evict_slots.simps [simp del]

partial_function (option) evict_room :: "nat \<Rightarrow> 'd object_store \<Rightarrow> 'd object_store option" where
  "evict_room span s =
     (if st_arena_used s + span > st_arena_capacity s then evict_room span (cache_evict_lru s) else Some s)"

definition cache_span :: "nat \<Rightarrow> nat" where
  "cache_span len = unat ((of_nat len + (8 - 1)) AND NOT (8 - 1) :: u64)"

definition cache_insert ::
    "'d object_store \<Rightarrow> object_id \<Rightarrow> u64 \<Rightarrow> bytes \<Rightarrow> nat \<Rightarrow> ('d object_store \<times> nat option) option" where
  "cache_insert s i version bytes len =
     (let span = cache_span len in
      if len = 0 \<or> span > st_arena_capacity s then Some (s, None)
      else case evict_room span (evict_slots (cache_remove_id s i)) of
        None \<Rightarrow> None
      | Some s1 \<Rightarrow>
          let result = st_arena_used s1;
              slot = \<lparr>cs_id = i, cs_version = version, cs_offset = st_arena_used s1, cs_length = span,
                      cs_last_access = st_cache_clock s1 + 1\<rparr>
          in Some (s1\<lparr>st_arena_buffer := memcpy_at (st_arena_buffer s1) result (take len bytes),
                      st_cache_slots := (st_cache_slots s1)[st_cache_slot_count s1 := slot],
                      st_cache_clock := st_cache_clock s1 + 1,
                      st_arena_used := st_arena_used s1 + span,
                      st_cache_slot_count := st_cache_slot_count s1 + 1\<rparr>, Some result))"

section \<open>The slots tile the arena\<close>

definition slot_at :: "'d object_store \<Rightarrow> nat \<Rightarrow> object_cache_slot" where
  "slot_at s k = st_cache_slots s ! k"

definition slots_apart :: "object_cache_slot \<Rightarrow> object_cache_slot \<Rightarrow> bool" where
  "slots_apart a b \<longleftrightarrow> cs_offset a + cs_length a \<le> cs_offset b \<or> cs_offset b + cs_length b \<le> cs_offset a"

definition cache_ok :: "'d object_store \<Rightarrow> bool" where
  "cache_ok s \<longleftrightarrow> length (st_cache_slots s) = OBJECT_STORE_CACHE_SLOTS \<and>
     st_cache_slot_count s \<le> OBJECT_STORE_CACHE_SLOTS \<and>
     st_arena_used s \<le> st_arena_capacity s \<and> st_arena_capacity s \<le> length (st_arena_buffer s) \<and>
     (\<Sum>k< st_cache_slot_count s. cs_length (slot_at s k)) = st_arena_used s \<and>
     (\<forall>k< st_cache_slot_count s. 0 < cs_length (slot_at s k) \<and>
        cs_offset (slot_at s k) + cs_length (slot_at s k) \<le> st_arena_used s) \<and>
     (\<forall>j< st_cache_slot_count s. \<forall>k< st_cache_slot_count s. j \<noteq> k \<longrightarrow>
        slots_apart (slot_at s j) (slot_at s k) \<and> cs_id (slot_at s j) \<noteq> cs_id (slot_at s k))"

text \<open>What the cache holds: for an object id, the version and the bytes of its slot.\<close>

definition slot_bytes :: "'d object_store \<Rightarrow> nat \<Rightarrow> bytes" where
  "slot_bytes s k = take (cs_length (slot_at s k)) (drop (cs_offset (slot_at s k)) (st_arena_buffer s))"

definition cached :: "'d object_store \<Rightarrow> object_id \<Rightarrow> u64 \<Rightarrow> bytes \<Rightarrow> bool" where
  "cached s i v b \<longleftrightarrow> (\<exists>k< st_cache_slot_count s. cs_id (slot_at s k) = i \<and> cs_version (slot_at s k) = v \<and>
     slot_bytes s k = b)"

text \<open>Two stores that agree outside the fields of the cache.\<close>

definition without_cache :: "'d object_store \<Rightarrow> 'd object_store" where
  "without_cache s = s\<lparr>st_arena_buffer := [], st_arena_used := 0, st_cache_slots := [],
     st_cache_slot_count := 0, st_cache_clock := 0\<rparr>"

lemma without_cache_fields:
  assumes "without_cache s = without_cache s'"
  shows "st_io s = st_io s'" "st_table s = st_table s'" "st_scratch_entries s = st_scratch_entries s'"
    "st_table_capacity s = st_table_capacity s'" "st_cache_buffer s = st_cache_buffer s'"
    "st_cache_capacity s = st_cache_capacity s'" "st_arena_capacity s = st_arena_capacity s'"
    "st_bitmap_buffer s = st_bitmap_buffer s'" "st_bitmap_capacity s = st_bitmap_capacity s'"
    "st_next_sector s = st_next_sector s'" "st_current_table_sector s = st_current_table_sector s'"
    "st_current_generation s = st_current_generation s'"
    "st_superblock_sequence s = st_superblock_sequence s'"
    "st_active_superblock_sector s = st_active_superblock_sector s'"
    "st_recovery_required s = st_recovery_required s'" "st_snapshots s = st_snapshots s'"
  using assms by (cases s, cases s', simp add: without_cache_def)+

lemma without_cache_remove [simp]: "without_cache (cache_remove_slot s k) = without_cache s"
  by (simp add: without_cache_def cache_remove_slot_def Let_def)

lemma without_cache_evict [simp]: "without_cache (cache_evict_lru s) = without_cache s"
  by (simp add: cache_evict_lru_def)

section \<open>Removing a slot closes the hole\<close>

lemma memmove_down:
  assumes "o' + l \<le> u" "u \<le> length ar"
  shows "length (memmove_within ar o' (o' + l) (u - (o' + l))) = length ar"
    "x < o' \<Longrightarrow> memmove_within ar o' (o' + l) (u - (o' + l)) ! x = ar ! x"
    "o' \<le> x \<Longrightarrow> x + l < u \<Longrightarrow> memmove_within ar o' (o' + l) (u - (o' + l)) ! x = ar ! (x + l)"
  using assms by (auto simp: memmove_within_def memcpy_at_def nth_append add.commute add.left_commute)

lemma slot_apart_cases:
  assumes "cache_ok s" "k < st_cache_slot_count s" "j < st_cache_slot_count s" "j \<noteq> k"
  shows "(cs_offset (slot_at s j) + cs_length (slot_at s j) \<le> cs_offset (slot_at s k) \<and>
      close_hole (cs_offset (slot_at s k)) (cs_length (slot_at s k)) (slot_at s j) = slot_at s j) \<or>
    (cs_offset (slot_at s k) + cs_length (slot_at s k) \<le> cs_offset (slot_at s j) \<and>
      close_hole (cs_offset (slot_at s k)) (cs_length (slot_at s k)) (slot_at s j) =
        (slot_at s j)\<lparr>cs_offset := cs_offset (slot_at s j) - cs_length (slot_at s k)\<rparr>)"
  using assms unfolding cache_ok_def slots_apart_def close_hole_def by fastforce

definition moved :: "nat \<Rightarrow> nat \<Rightarrow> nat \<Rightarrow> nat" where
  "moved n k j = (if j = k then n - 1 else j)"

lemma moved_bij: "k < n \<Longrightarrow> bij_betw (moved n k) {..<n - 1} ({..<n} - {k})"
proof -
  assume k: "k < n"
  have "x \<in> moved n k ` {..<n - 1}" if "x < n" "x \<noteq> k" for x
  proof (cases "x = n - 1")
    case True
    then have "x = moved n k k" "k \<in> {..<n - 1}" using that k by (auto simp: moved_def)
    then show ?thesis by blast
  next
    case False
    then have "x = moved n k x" "x \<in> {..<n - 1}" using that by (auto simp: moved_def)
    then show ?thesis by blast
  qed
  then show ?thesis using k by (auto simp: bij_betw_def inj_on_def moved_def split: if_splits)
qed

lemma slot_at_remove:
  assumes "cache_ok s" "k < st_cache_slot_count s" "j < st_cache_slot_count s - 1"
  shows "slot_at (cache_remove_slot s k) j =
    close_hole (cs_offset (slot_at s k)) (cs_length (slot_at s k)) (slot_at s (moved (st_cache_slot_count s) k j))"
  using assms
  by (auto simp: slot_at_def cache_remove_slot_def Let_def moved_def cache_ok_def nth_append nth_list_update min_def)

lemma slot_bytes_remove:
  assumes ok: "cache_ok s" and k: "k < st_cache_slot_count s" and j: "j < st_cache_slot_count s - 1"
  shows "slot_bytes (cache_remove_slot s k) j = slot_bytes s (moved (st_cache_slot_count s) k j)"
proof -
  let ?m = "moved (st_cache_slot_count s) k j" and ?o = "cs_offset (slot_at s k)" and ?l = "cs_length (slot_at s k)"
  have m: "?m < st_cache_slot_count s" "?m \<noteq> k"
    using moved_bij [OF k] j by (auto simp: bij_betw_def)
  have u: "?o + ?l \<le> st_arena_used s" "st_arena_used s \<le> length (st_arena_buffer s)"
    "cs_offset (slot_at s ?m) + cs_length (slot_at s ?m) \<le> st_arena_used s"
    using ok k m by (auto simp: cache_ok_def)
  have ar: "st_arena_buffer (cache_remove_slot s k) =
      memmove_within (st_arena_buffer s) ?o (?o + ?l) (st_arena_used s - (?o + ?l))"
    by (simp add: cache_remove_slot_def Let_def slot_at_def)
  note md = memmove_down [OF u(1,2)]
  from slot_apart_cases [OF ok k m] show ?thesis
  proof
    assume a: "cs_offset (slot_at s ?m) + cs_length (slot_at s ?m) \<le> ?o \<and> close_hole ?o ?l (slot_at s ?m) = slot_at s ?m"
    show ?thesis
      unfolding slot_bytes_def slot_at_remove [OF ok k j] ar
      by (rule nth_equalityI) (use a u md in auto)
  next
    assume a: "?o + ?l \<le> cs_offset (slot_at s ?m) \<and>
        close_hole ?o ?l (slot_at s ?m) = (slot_at s ?m)\<lparr>cs_offset := cs_offset (slot_at s ?m) - ?l\<rparr>"
    have sh: "memmove_within (st_arena_buffer s) ?o (?o + ?l) (st_arena_used s - (?o + ?l)) !
        (cs_offset (slot_at s ?m) - ?l + i) = st_arena_buffer s ! (cs_offset (slot_at s ?m) + i)"
      if "i < cs_length (slot_at s ?m)" for i
    proof -
      have "?o \<le> cs_offset (slot_at s ?m) - ?l + i" "cs_offset (slot_at s ?m) - ?l + i + ?l < st_arena_used s"
        using a u(3) that by linarith+
      from md(3) [OF this] show ?thesis using a by simp
    qed
    show ?thesis
      unfolding slot_bytes_def slot_at_remove [OF ok k j] ar
      by (rule nth_equalityI) (use a u md(1) sh in auto)
  qed
qed

lemma cache_ok_remove:
  assumes ok: "cache_ok s" and k: "k < st_cache_slot_count s"
  shows "cache_ok (cache_remove_slot s k)"
proof -
  let ?n = "st_cache_slot_count s" and ?o = "cs_offset (slot_at s k)" and ?l = "cs_length (slot_at s k)"
  let ?s = "cache_remove_slot s k"
  have m: "moved ?n k j < ?n \<and> moved ?n k j \<noteq> k" if "j < ?n - 1" for j
    using moved_bij [OF k] that by (auto simp: bij_betw_def)
  have len: "cs_length (close_hole ?o ?l x) = cs_length x" "cs_id (close_hole ?o ?l x) = cs_id x" for x
    by (simp_all add: close_hole_def)
  have "(\<Sum>j<?n - 1. cs_length (slot_at ?s j)) = (\<Sum>j<?n - 1. cs_length (slot_at s (moved ?n k j)))"
    by (rule sum.cong) (simp_all add: slot_at_remove [OF ok k] len)
  also have "\<dots> = (\<Sum>j\<in>{..<?n} - {k}. cs_length (slot_at s j))"
    by (rule sum.reindex_bij_betw [OF moved_bij [OF k]])
  also have "\<dots> = st_arena_used s - ?l"
    using ok k by (simp add: cache_ok_def sum_diff1_nat)
  finally have sum: "(\<Sum>j<?n - 1. cs_length (slot_at ?s j)) = st_arena_used s - ?l" .
  have each: "0 < cs_length (slot_at ?s j) \<and> cs_offset (slot_at ?s j) + cs_length (slot_at ?s j) \<le> st_arena_used s - ?l"
    if j: "j < ?n - 1" for j
    using slot_apart_cases [OF ok k, of "moved ?n k j"] m [OF j] ok k
    unfolding slot_at_remove [OF ok k j] cache_ok_def by fastforce
  have apart: "slots_apart (slot_at ?s i) (slot_at ?s j) \<and> cs_id (slot_at ?s i) \<noteq> cs_id (slot_at ?s j)"
    if i: "i < ?n - 1" and j: "j < ?n - 1" and ij: "i \<noteq> j" for i j
  proof -
    have ne: "moved ?n k i \<noteq> moved ?n k j"
      using moved_bij [OF k] i j ij by (auto simp: bij_betw_def inj_on_def)
    have "slots_apart (slot_at s (moved ?n k i)) (slot_at s (moved ?n k j)) \<and>
        cs_id (slot_at s (moved ?n k i)) \<noteq> cs_id (slot_at s (moved ?n k j))"
      using ok m [OF i] m [OF j] ne by (simp add: cache_ok_def)
    then show ?thesis
      using slot_apart_cases [OF ok k conjunct1 [OF m [OF i]] conjunct2 [OF m [OF i]]]
        slot_apart_cases [OF ok k conjunct1 [OF m [OF j]] conjunct2 [OF m [OF j]]]
      unfolding slot_at_remove [OF ok k i] slot_at_remove [OF ok k j] len
      by (elim disjE) (auto simp: slots_apart_def)
  qed
  have "?o + ?l \<le> st_arena_used s" using ok k by (simp add: cache_ok_def)
  then have fields: "st_cache_slot_count ?s = ?n - 1" "length (st_cache_slots ?s) = OBJECT_STORE_CACHE_SLOTS"
    "st_arena_used ?s = st_arena_used s - ?l" "st_arena_capacity ?s = st_arena_capacity s"
    "length (st_arena_buffer ?s) = length (st_arena_buffer s)"
    using ok memmove_down(1) [of ?o ?l "st_arena_used s" "st_arena_buffer s"]
    by (auto simp: cache_remove_slot_def Let_def cache_ok_def slot_at_def)
  show ?thesis unfolding cache_ok_def fields using sum each apart ok by (auto simp: cache_ok_def)
qed

lemma slot_count_remove [simp]: "st_cache_slot_count (cache_remove_slot s k) = st_cache_slot_count s - 1"
  by (simp add: cache_remove_slot_def Let_def)

lemma cached_remove:
  assumes ok: "cache_ok s" and k: "k < st_cache_slot_count s"
  shows "cached (cache_remove_slot s k) i v b \<longleftrightarrow> cached s i v b \<and> i \<noteq> cs_id (slot_at s k)"
proof -
  let ?n = "st_cache_slot_count s"
  have same: "cs_id (slot_at (cache_remove_slot s k) j) = cs_id (slot_at s (moved ?n k j)) \<and>
      cs_version (slot_at (cache_remove_slot s k) j) = cs_version (slot_at s (moved ?n k j)) \<and>
      slot_bytes (cache_remove_slot s k) j = slot_bytes s (moved ?n k j)" if "j < ?n - 1" for j
    using slot_at_remove [OF ok k that] slot_bytes_remove [OF ok k that] by (simp add: close_hole_def)
  have img: "moved ?n k ` {..<?n - 1} = {..<?n} - {k}" using moved_bij [OF k] by (simp add: bij_betw_def)
  have "cached (cache_remove_slot s k) i v b \<longleftrightarrow>
      (\<exists>j\<in>{..<?n - 1}. cs_id (slot_at s (moved ?n k j)) = i \<and> cs_version (slot_at s (moved ?n k j)) = v \<and>
         slot_bytes s (moved ?n k j) = b)"
    unfolding cached_def slot_count_remove using same by auto
  also have "\<dots> \<longleftrightarrow> (\<exists>j\<in>{..<?n} - {k}. cs_id (slot_at s j) = i \<and> cs_version (slot_at s j) = v \<and> slot_bytes s j = b)"
    unfolding img [symmetric] by blast
  also have "\<dots> \<longleftrightarrow> cached s i v b \<and> i \<noteq> cs_id (slot_at s k)"
    using ok k unfolding cached_def cache_ok_def by auto
  finally show ?thesis .
qed

section \<open>Eviction\<close>

lemma lru_victim_less:
  assumes "0 < st_cache_slot_count s"
  shows "lru_victim s < st_cache_slot_count s"
    "\<forall>k<(st_cache_slot_count s). cs_last_access (slot_at s (lru_victim s)) \<le> cs_last_access (slot_at s k)"
proof -
  define f where "f = (\<lambda>victim i. if cs_last_access (st_cache_slots s ! i) < cs_last_access (st_cache_slots s ! victim)
                       then i else victim)"
  have "foldl f 0 [1..<Suc m] < Suc m \<and> (\<forall>k<Suc m. cs_last_access (slot_at s (foldl f 0 [1..<Suc m])) \<le> cs_last_access (slot_at s k))" for m
  proof (induction m)
    case (Suc m)
    define v where "v = foldl f 0 [1..<Suc m]"
    have IH: "v < Suc m" "\<And>k. k < Suc m \<Longrightarrow> cs_last_access (slot_at s v) \<le> cs_last_access (slot_at s k)"
      using Suc by (auto simp: v_def)
    have st: "foldl f 0 [1..<Suc (Suc m)] = f v (Suc m)" by (simp add: v_def)
    show ?case
    proof (cases "cs_last_access (slot_at s (Suc m)) < cs_last_access (slot_at s v)")
      case True
      then have "f v (Suc m) = Suc m" by (simp add: f_def slot_at_def)
      moreover have "cs_last_access (slot_at s (Suc m)) \<le> cs_last_access (slot_at s k)" if "k < Suc (Suc m)" for k
        using IH(2) [of k] True that by (cases "k = Suc m") auto
      ultimately show ?thesis unfolding st by simp
    next
      case False
      then have "f v (Suc m) = v" by (simp add: f_def slot_at_def)
      moreover have "cs_last_access (slot_at s v) \<le> cs_last_access (slot_at s k)" if "k < Suc (Suc m)" for k
        using IH(2) [of k] False that by (cases "k = Suc m") auto
      ultimately show ?thesis unfolding st using IH(1) by simp
    qed
  qed simp
  from this [of "st_cache_slot_count s - 1"] assms
  show "lru_victim s < st_cache_slot_count s"
    "\<forall>k<(st_cache_slot_count s). cs_last_access (slot_at s (lru_victim s)) \<le> cs_last_access (slot_at s k)"
    by (simp_all add: lru_victim_def f_def)
qed

text \<open>The cache lost some objects and nothing else happened.\<close>

definition cache_shrinks :: "'d object_store \<Rightarrow> 'd object_store \<Rightarrow> bool" where
  "cache_shrinks s s' \<longleftrightarrow> cache_ok s' \<and> st_cache_slot_count s' \<le> st_cache_slot_count s \<and>
     (\<forall>i v b. cached s' i v b \<longrightarrow> cached s i v b) \<and> without_cache s' = without_cache s"

lemma cache_shrinks_refl: "cache_ok s \<Longrightarrow> cache_shrinks s s"
  by (simp add: cache_shrinks_def)

lemma cache_shrinks_trans [trans]: "cache_shrinks s t \<Longrightarrow> cache_shrinks t u \<Longrightarrow> cache_shrinks s u"
  by (auto simp: cache_shrinks_def)

lemma shrinks_remove: "cache_ok s \<Longrightarrow> k < st_cache_slot_count s \<Longrightarrow> cache_shrinks s (cache_remove_slot s k)"
  by (auto simp: cache_shrinks_def cache_ok_remove cached_remove)

lemma shrinks_evict:
  "cache_ok s \<Longrightarrow> cache_shrinks s (cache_evict_lru s)"
  "cache_ok s \<Longrightarrow> 0 < st_cache_slot_count s \<Longrightarrow> st_cache_slot_count (cache_evict_lru s) < st_cache_slot_count s"
  using shrinks_remove lru_victim_less [of s] by (auto simp: cache_evict_lru_def cache_shrinks_refl)

lemma shrinks_evict_slots:
  "cache_ok s \<Longrightarrow> cache_shrinks s (evict_slots s) \<and> st_cache_slot_count (evict_slots s) < OBJECT_STORE_CACHE_SLOTS"
proof (induction s rule: evict_slots.induct)
  case (1 s)
  show ?case
  proof (cases "st_cache_slot_count s \<ge> OBJECT_STORE_CACHE_SLOTS")
    case True
    have e: "cache_shrinks s (cache_evict_lru s)" using shrinks_evict(1) "1.prems" .
    then have "cache_ok (cache_evict_lru s)" by (simp add: cache_shrinks_def)
    from "1.IH" [OF True this] cache_shrinks_trans [OF e] show ?thesis
      by (subst (1 2) evict_slots.simps) (simp add: True)
  qed (use "1.prems" in \<open>simp add: evict_slots.simps [of s] cache_shrinks_refl\<close>)
qed

lemma evict_room_ends:
  assumes "cache_ok s" "span \<le> st_arena_capacity s"
  shows "\<exists>s'. evict_room span s = Some s' \<and> cache_shrinks s s' \<and> st_arena_used s' + span \<le> st_arena_capacity s"
  using assms
proof (induction "st_cache_slot_count s" arbitrary: s rule: less_induct)
  case less
  show ?case
  proof (cases "st_arena_used s + span > st_arena_capacity s")
    case True
    have "0 < st_cache_slot_count s"
    proof (rule ccontr)
      assume "\<not> ?thesis"
      then have "st_arena_used s = 0" using less.prems(1) by (auto simp: cache_ok_def)
      then show False using True less.prems(2) by simp
    qed
    note ev = shrinks_evict(1) [OF less.prems(1)] shrinks_evict(2) [OF less.prems(1) this]
    have cap: "st_arena_capacity (cache_evict_lru s) = st_arena_capacity s"
      by (rule without_cache_fields(7)) simp
    have "cache_ok (cache_evict_lru s)" using ev(1) by (simp add: cache_shrinks_def)
    from less.hyps [OF ev(2) this] cap less.prems(2) obtain s' where
      "evict_room span (cache_evict_lru s) = Some s'" "cache_shrinks (cache_evict_lru s) s'"
      "st_arena_used s' + span \<le> st_arena_capacity s" by auto
    then show ?thesis using cache_shrinks_trans [OF ev(1)] True by (simp add: evict_room.simps [of span s])
  next
    case False
    then show ?thesis using less.prems by (simp add: evict_room.simps [of span s] cache_shrinks_refl)
  qed
qed

lemma shrinks_remove_id:
  assumes "cache_ok s"
  shows "cache_shrinks s (cache_remove_id s i)" "\<not> cached (cache_remove_id s i) i v b"
    "cached (cache_remove_id s i) j v b \<longleftrightarrow> cached s j v b \<and> j \<noteq> i"
proof -
  have "cache_shrinks s (cache_remove_id s i) \<and>
      (\<forall>j v b. cached (cache_remove_id s i) j v b \<longleftrightarrow> cached s j v b \<and> j \<noteq> i)"
  proof (cases "List.find (\<lambda>k. object_id_equal (cs_id (st_cache_slots s ! k)) i) [0..< st_cache_slot_count s]")
    case None
    then have "\<not> cached s i v b" for v b
      unfolding find_upt_None cached_def by (auto simp: slot_at_def)
    then show ?thesis using None assms by (auto simp: cache_remove_id_def cache_shrinks_refl)
  next
    case (Some k)
    from find_upt_Some(1,2) [OF this] have k: "k < st_cache_slot_count s" "cs_id (slot_at s k) = i"
      by (simp_all add: slot_at_def)
    then show ?thesis
      using Some shrinks_remove [OF assms k(1)] cached_remove [OF assms k(1)] by (auto simp: cache_remove_id_def)
  qed
  then show "cache_shrinks s (cache_remove_id s i)" "\<not> cached (cache_remove_id s i) i v b"
    "cached (cache_remove_id s i) j v b \<longleftrightarrow> cached s j v b \<and> j \<noteq> i" by auto
qed

lemma cache_span_eq: "cache_span len = (unat (of_nat len + 7 :: u64) div 8) * 8"
  using unat_round_down [of 3 "of_nat len + 7"] by (simp add: cache_span_def mask_eq_exp_minus_1)

lemma cache_span_bounds:
  assumes "len + 7 < 2 ^ 64"
  shows "len \<le> cache_span len" "cache_span len < len + 8"
proof -
  have "unat (of_nat len + 7 :: u64) = len + 7" using assms by (simp add: unat_word_ariths unat_of_nat)
  then show "len \<le> cache_span len" "cache_span len < len + 8" unfolding cache_span_eq by linarith+
qed

section \<open>Eviction in the order of use\<close>

text \<open>
  An object in the cache: its id, version, the bytes of its slot and when it was used last. All
  objects in the cache are its items.
\<close>

type_synonym cache_entry = "object_id \<times> u64 \<times> bytes \<times> u64"

definition item_access :: "cache_entry \<Rightarrow> u64" where
  "item_access x = snd (snd (snd x))"

definition cache_item :: "'d object_store \<Rightarrow> nat \<Rightarrow> cache_entry" where
  "cache_item s k = (cs_id (slot_at s k), cs_version (slot_at s k), slot_bytes s k, cs_last_access (slot_at s k))"

definition cache_items :: "'d object_store \<Rightarrow> cache_entry set" where
  "cache_items s = cache_item s ` {..< st_cache_slot_count s}"

text \<open>There is room for one more object of \<open>span\<close> bytes next to the objects \<open>C\<close>.\<close>

definition has_room :: "nat \<Rightarrow> nat \<Rightarrow> cache_entry set \<Rightarrow> bool" where
  "has_room capacity span C \<longleftrightarrow> card C < OBJECT_STORE_CACHE_SLOTS \<and>
     (\<Sum>(i, v, b, a)\<in>C. length b) + span \<le> capacity"

text \<open>
  \<open>K\<close> is what is left of \<open>C\<close> if objects are given up in the order of their last
  use, the oldest first, and only while there is no room.
\<close>

definition lru_kept :: "(cache_entry set \<Rightarrow> bool) \<Rightarrow> cache_entry set \<Rightarrow> cache_entry set \<Rightarrow> bool" where
  "lru_kept room C K \<longleftrightarrow> K \<subseteq> C \<and> (\<forall>x\<in>C - K. \<forall>y\<in>K. item_access x \<le> item_access y) \<and>
     (K = C \<or> (\<exists>x\<in>C - K. (\<forall>z\<in>C - K. item_access z \<le> item_access x) \<and> \<not> room (insert x K)))"

lemma lru_kept_refl: "lru_kept room C C"
  by (simp add: lru_kept_def)

lemma lru_kept_step:
  assumes "lru_kept room C K" "\<not> room K" "x \<in> K" "\<forall>y\<in>K. item_access x \<le> item_access y"
  shows "lru_kept room C (K - {x})"
proof -
  have sub: "K \<subseteq> C" and ord: "\<forall>z\<in>C - K. \<forall>y\<in>K. item_access z \<le> item_access y"
    using assms(1) by (auto simp: lru_kept_def)
  have diff: "C - (K - {x}) = insert x (C - K)" using sub assms(3) by auto
  have "insert x (K - {x}) = K" using assms(3) by auto
  then show ?thesis
    unfolding lru_kept_def diff using sub ord assms(2-4) by auto
qed

lemma cached_items: "cached s i v b \<longleftrightarrow> (\<exists>a. (i, v, b, a) \<in> cache_items s)"
  by (auto simp: cached_def cache_items_def cache_item_def image_iff)

lemma cache_item_inj:
  assumes "cache_ok s"
  shows "inj_on (cache_item s) {..< st_cache_slot_count s}"
proof (rule inj_onI)
  fix j k assume "j \<in> {..< st_cache_slot_count s}" "k \<in> {..< st_cache_slot_count s}" "cache_item s j = cache_item s k"
  then show "j = k" using assms unfolding cache_ok_def cache_item_def by auto
qed

lemma cache_items_measure:
  assumes ok: "cache_ok s"
  shows "card (cache_items s) = st_cache_slot_count s" "(\<Sum>(i, v, b, a)\<in>cache_items s. length b) = st_arena_used s"
    "finite (cache_items s)"
proof -
  show "card (cache_items s) = st_cache_slot_count s"
    unfolding cache_items_def by (simp add: card_image [OF cache_item_inj [OF ok]])
  have len: "length (slot_bytes s k) = cs_length (slot_at s k)" if "k < st_cache_slot_count s" for k
  proof -
    have "cs_offset (slot_at s k) + cs_length (slot_at s k) \<le> length (st_arena_buffer s)"
      using ok that unfolding cache_ok_def by (meson order_trans)
    then show ?thesis by (simp add: slot_bytes_def)
  qed
  have "(\<Sum>(i, v, b, a)\<in>cache_items s. length b) = (\<Sum>k< st_cache_slot_count s. length (slot_bytes s k))"
    unfolding cache_items_def sum.reindex [OF cache_item_inj [OF ok]] by (simp add: cache_item_def)
  also have "\<dots> = (\<Sum>k< st_cache_slot_count s. cs_length (slot_at s k))" by (rule sum.cong) (simp_all add: len)
  finally show "(\<Sum>(i, v, b, a)\<in>cache_items s. length b) = st_arena_used s" using ok by (simp add: cache_ok_def)
  show "finite (cache_items s)" by (simp add: cache_items_def)
qed

lemma cache_items_remove:
  assumes ok: "cache_ok s" and k: "k < st_cache_slot_count s"
  shows "cache_items (cache_remove_slot s k) = cache_items s - {cache_item s k}"
proof -
  let ?n = "st_cache_slot_count s"
  have same: "cache_item (cache_remove_slot s k) j = cache_item s (moved ?n k j)" if "j < ?n - 1" for j
    using slot_at_remove [OF ok k that] slot_bytes_remove [OF ok k that] by (simp add: cache_item_def close_hole_def)
  have "cache_items (cache_remove_slot s k) = (\<lambda>j. cache_item s (moved ?n k j)) ` {..<?n - 1}"
    unfolding cache_items_def slot_count_remove by (rule image_cong) (simp_all add: same)
  also have "\<dots> = cache_item s ` ({..<?n} - {k})" using moved_bij [OF k] by (simp add: bij_betw_def flip: image_image)
  also have "\<dots> = cache_items s - {cache_item s k}"
    using inj_on_image_set_diff [OF cache_item_inj [OF ok], of "{..<?n}" "{k}"] k by (simp add: cache_items_def)
  finally show ?thesis .
qed

lemma cache_items_remove_id:
  assumes "cache_ok s"
  shows "cache_items (cache_remove_id s i) = {x \<in> cache_items s. fst x \<noteq> i}"
proof (cases "List.find (\<lambda>k. object_id_equal (cs_id (st_cache_slots s ! k)) i) [0..< st_cache_slot_count s]")
  case None
  then have "\<forall>k< st_cache_slot_count s. cs_id (slot_at s k) \<noteq> i"
    unfolding find_upt_None by (simp add: slot_at_def)
  then have "{x \<in> cache_items s. fst x \<noteq> i} = cache_items s" by (auto simp: cache_items_def cache_item_def)
  then show ?thesis using None by (simp add: cache_remove_id_def)
next
  case (Some k)
  from find_upt_Some(1,2) [OF this] have k: "k < st_cache_slot_count s" "cs_id (slot_at s k) = i"
    by (simp_all add: slot_at_def)
  have other: "j = k" if "j < st_cache_slot_count s" "cs_id (slot_at s j) = i" for j
    using assms that k unfolding cache_ok_def by blast
  have "x = cache_item s k" if "x \<in> cache_items s" "fst x = i" for x
    using that other by (auto simp: cache_items_def cache_item_def)
  moreover have "fst (cache_item s k) = i" using k(2) by (simp add: cache_item_def)
  ultimately have "cache_items s - {cache_item s k} = {x \<in> cache_items s. fst x \<noteq> i}" by blast
  then show ?thesis using Some cache_items_remove [OF assms k(1)] by (simp add: cache_remove_id_def)
qed

text \<open>One eviction is one step of the specification.\<close>

lemma evict_step:
  assumes ok: "cache_ok s" and l: "lru_kept (has_room cap span) C (cache_items s)"
    and full: "st_cache_slot_count s \<ge> OBJECT_STORE_CACHE_SLOTS \<or> st_arena_used s + span > cap"
  shows "lru_kept (has_room cap span) C (cache_items (cache_evict_lru s))"
proof (cases "st_cache_slot_count s = 0")
  case False
  then have v: "lru_victim s < st_cache_slot_count s"
    "\<forall>k< st_cache_slot_count s. cs_last_access (slot_at s (lru_victim s)) \<le> cs_last_access (slot_at s k)"
    using lru_victim_less [of s] by auto
  have "\<not> has_room cap span (cache_items s)"
    unfolding has_room_def cache_items_measure(1,2) [OF ok] using full by auto
  moreover have "cache_item s (lru_victim s) \<in> cache_items s" using v(1) by (simp add: cache_items_def)
  moreover have "\<forall>y\<in>cache_items s. item_access (cache_item s (lru_victim s)) \<le> item_access y"
    using v(2) by (auto simp: cache_items_def cache_item_def item_access_def)
  ultimately show ?thesis
    using lru_kept_step [OF l] cache_items_remove [OF ok v(1)] False by (simp add: cache_evict_lru_def)
qed (use l in \<open>simp add: cache_evict_lru_def\<close>)

lemma evict_slots_lru:
  "cache_ok s \<Longrightarrow> lru_kept (has_room cap span) C (cache_items s) \<Longrightarrow>
     lru_kept (has_room cap span) C (cache_items (evict_slots s))"
proof (induction s rule: evict_slots.induct)
  case (1 s)
  have "cache_ok (cache_evict_lru s)" using shrinks_evict(1) [OF "1.prems"(1)] by (simp add: cache_shrinks_def)
  then show ?case using "1.IH" evict_step [OF "1.prems"] "1.prems"(2) by (subst evict_slots.simps) simp
qed

lemma evict_room_lru:
  assumes "evict_room span s = Some s'" "cache_ok s" "st_arena_capacity s = cap"
    "lru_kept (has_room cap span) C (cache_items s)"
  shows "lru_kept (has_room cap span) C (cache_items s')"
proof -
  let ?P = "\<lambda>span (s :: 'a object_store) s'. cache_ok s \<longrightarrow> st_arena_capacity s = cap \<longrightarrow>
    lru_kept (has_room cap span) C (cache_items s) \<longrightarrow> lru_kept (has_room cap span) C (cache_items s')"
  have "?P span s s'"
  proof (rule evict_room.raw_induct [OF _ assms(1), where P = ?P], intro impI)
    fix evict span and s s' :: "'a object_store"
    assume IH: "\<And>span s s'. evict span s = Some s' \<Longrightarrow> ?P span s s'"
      and ev: "(if st_arena_used s + span > st_arena_capacity s then evict span (cache_evict_lru s) else Some s) = Some s'"
      and s: "cache_ok s" "st_arena_capacity s = cap" "lru_kept (has_room cap span) C (cache_items s)"
    show "lru_kept (has_room cap span) C (cache_items s')"
    proof (cases "st_arena_used s + span > cap")
      case True
      have "cache_ok (cache_evict_lru s)" using shrinks_evict(1) [OF s(1)] by (simp add: cache_shrinks_def)
      moreover have "st_arena_capacity (cache_evict_lru s) = cap"
        unfolding s(2) [symmetric] by (rule without_cache_fields(7)) simp
      moreover have "evict span (cache_evict_lru s) = Some s'" using ev True s(2) by simp
      ultimately show ?thesis using IH evict_step [OF s(1,3)] True by blast
    qed (use ev s in simp)
  qed
  then show ?thesis using assms(2-4) by blast
qed

lemma evict_clock:
  "st_cache_clock (cache_evict_lru s) = st_cache_clock s" "st_cache_clock (cache_remove_id s i) = st_cache_clock s"
  by (auto simp: cache_evict_lru_def cache_remove_id_def cache_remove_slot_def Let_def split: option.splits)

lemma evict_slots_clock: "st_cache_clock (evict_slots s) = st_cache_clock s"
  by (induction s rule: evict_slots.induct) (subst evict_slots.simps; simp add: evict_clock)+

lemma evict_room_clock: "evict_room span s = Some s' \<Longrightarrow> st_cache_clock s' = st_cache_clock s"
  by (erule evict_room.raw_induct [rotated]) (fastforce simp: evict_clock split: if_splits)

section \<open>Insertion\<close>

lemma memcpy_at_append:
  assumes "u + length src \<le> length ar"
  shows "length (memcpy_at ar u src) = length ar"
    "a + n \<le> u \<Longrightarrow> take n (drop a (memcpy_at ar u src)) = take n (drop a ar)"
    "take (length src) (drop u (memcpy_at ar u src)) = src"
proof -
  show "length (memcpy_at ar u src) = length ar" using assms by (simp add: memcpy_at_def)
  show "take (length src) (drop u (memcpy_at ar u src)) = src" using assms by (simp add: memcpy_at_def)
  show "take n (drop a (memcpy_at ar u src)) = take n (drop a ar)" if "a + n \<le> u"
    by (rule nth_equalityI) (use assms that in \<open>auto simp: memcpy_at_def nth_append\<close>)
qed

definition push_slot :: "'d object_store \<Rightarrow> object_cache_slot \<Rightarrow> bytes \<Rightarrow> 'd object_store" where
  "push_slot s c src =
     s\<lparr>st_arena_buffer := memcpy_at (st_arena_buffer s) (st_arena_used s) src,
       st_cache_slots := (st_cache_slots s)[st_cache_slot_count s := c],
       st_cache_clock := cs_last_access c,
       st_arena_used := st_arena_used s + cs_length c,
       st_cache_slot_count := st_cache_slot_count s + 1\<rparr>"

lemma push_slot_fields [simp]:
  "st_arena_buffer (push_slot s c src) = memcpy_at (st_arena_buffer s) (st_arena_used s) src"
  "st_arena_used (push_slot s c src) = st_arena_used s + cs_length c"
  "st_arena_capacity (push_slot s c src) = st_arena_capacity s"
  "st_cache_slot_count (push_slot s c src) = Suc (st_cache_slot_count s)"
  "length (st_cache_slots (push_slot s c src)) = length (st_cache_slots s)"
  by (simp_all add: push_slot_def)

lemma push_slot_ok:
  assumes ok: "cache_ok s" and n: "st_cache_slot_count s < OBJECT_STORE_CACHE_SLOTS"
    and c: "cs_offset c = st_arena_used s" "0 < cs_length c" "st_arena_used s + cs_length c \<le> st_arena_capacity s"
      "length src \<le> cs_length c"
    and new: "\<And>v b. \<not> cached s (cs_id c) v b"
  shows "cache_ok (push_slot s c src)"
    "cached (push_slot s c src) i v b \<longleftrightarrow> cached s i v b \<or>
       (i = cs_id c \<and> v = cs_version c \<and>
        b = take (cs_length c) (drop (st_arena_used s) (memcpy_at (st_arena_buffer s) (st_arena_used s) src)))"
    "cache_items (push_slot s c src) = insert (cs_id c, cs_version c,
       take (cs_length c) (drop (st_arena_used s) (memcpy_at (st_arena_buffer s) (st_arena_used s) src)),
       cs_last_access c) (cache_items s)"
proof -
  let ?n = "st_cache_slot_count s" and ?s = "push_slot s c src"
  have at: "slot_at ?s k = (if k = ?n then c else slot_at s k)" for k
    using ok n by (auto simp: slot_at_def push_slot_def cache_ok_def nth_list_update)
  have "st_arena_used s + length src \<le> length (st_arena_buffer s)" using ok c by (simp add: cache_ok_def)
  note mc = memcpy_at_append [OF this]
  have bytes: "slot_bytes ?s k = slot_bytes s k" if "k < ?n" for k
  proof -
    have "cs_offset (slot_at s k) + cs_length (slot_at s k) \<le> st_arena_used s" using ok that by (simp add: cache_ok_def)
    from mc(2) [OF this] show ?thesis using that at [of k] by (simp add: slot_bytes_def)
  qed
  have ids: "cs_id (slot_at s k) \<noteq> cs_id c" if "k < ?n" for k
    using new [of "cs_version (slot_at s k)" "slot_bytes s k"] that by (auto simp: cached_def)
  have sum: "(\<Sum>k<Suc ?n. cs_length (slot_at ?s k)) = st_arena_used s + cs_length c"
    using ok by (simp add: at cache_ok_def)
  show "cache_ok ?s"
    using ok n c sum mc(1) ids ids [symmetric]
    by (auto simp: cache_ok_def at slots_apart_def less_Suc_eq trans_le_add1)
  show items: "cache_items ?s = insert (cs_id c, cs_version c,
       take (cs_length c) (drop (st_arena_used s) (memcpy_at (st_arena_buffer s) (st_arena_used s) src)),
       cs_last_access c) (cache_items s)"
  proof -
    have "cache_item ?s ` {..<?n} = cache_items s"
      unfolding cache_items_def by (rule image_cong) (use bytes at in \<open>auto simp: cache_item_def\<close>)
    moreover have "cache_item ?s ?n = (cs_id c, cs_version c,
        take (cs_length c) (drop (st_arena_used s) (memcpy_at (st_arena_buffer s) (st_arena_used s) src)), cs_last_access c)"
      using at [of ?n] c(1) by (simp add: cache_item_def slot_bytes_def)
    ultimately show ?thesis by (simp add: cache_items_def lessThan_Suc)
  qed
  show "cached ?s i v b \<longleftrightarrow> cached s i v b \<or> (i = cs_id c \<and> v = cs_version c \<and>
        b = take (cs_length c) (drop (st_arena_used s) (memcpy_at (st_arena_buffer s) (st_arena_used s) src)))"
    unfolding cached_items items by auto
qed

lemma cache_insert_Some:
  assumes ok: "cache_ok s" and len: "0 < len" "len \<le> length bytes" "len + 7 < 2 ^ 64"
    and room: "cache_span len \<le> st_arena_capacity s"
  obtains s' off where "cache_insert s i v bytes len = Some (s', Some off)" "cache_ok s'"
    "without_cache s' = without_cache s" "take len (drop off (st_arena_buffer s')) = take len bytes"
    "\<And>j w b. cached s' j w b \<Longrightarrow> (j \<noteq> i \<and> cached s j w b) \<or> (j = i \<and> w = v \<and> take len b = take len bytes)"
    "\<exists>b. cached s' i v b"
    "\<exists>K b. lru_kept (has_room (st_arena_capacity s) (cache_span len)) {x \<in> cache_items s. fst x \<noteq> i} K \<and>
       has_room (st_arena_capacity s) (cache_span len) K \<and> take len b = take len bytes \<and>
       cache_items s' = insert (i, v, b, st_cache_clock s + 1) K"
proof -
  let ?s0 = "evict_slots (cache_remove_id s i)" and ?span = "cache_span len"
  note span = cache_span_bounds [OF len(3)]
  note rm = shrinks_remove_id [OF ok, of i]
  have ok1: "cache_ok (cache_remove_id s i)" using rm(1) by (simp add: cache_shrinks_def)
  note ev = shrinks_evict_slots [OF ok1]
  have sh0: "cache_shrinks (cache_remove_id s i) ?s0" using ev by simp
  have "st_arena_capacity ?s0 = st_arena_capacity s"
    using rm(1) ev by (intro without_cache_fields(7)) (auto simp: cache_shrinks_def)
  with evict_room_ends [of ?s0 ?span] sh0 room obtain s1 where
    s1: "evict_room ?span ?s0 = Some s1" "cache_shrinks ?s0 s1" "st_arena_used s1 + ?span \<le> st_arena_capacity s"
    by (auto simp: cache_shrinks_def)
  have sh: "cache_shrinks (cache_remove_id s i) s1" using cache_shrinks_trans [OF sh0 s1(2)] .
  have cap: "st_arena_capacity s1 = st_arena_capacity s"
    using rm(1) sh by (intro without_cache_fields(7)) (auto simp: cache_shrinks_def)
  define c where "c = \<lparr>cs_id = i, cs_version = v, cs_offset = st_arena_used s1, cs_length = ?span,
      cs_last_access = st_cache_clock s1 + 1\<rparr>"
  let ?s' = "push_slot s1 c (take len bytes)"
  have ins: "cache_insert s i v bytes len = Some (?s', Some (st_arena_used s1))"
    using len(1) room s1(1) by (simp add: cache_insert_def Let_def push_slot_def c_def)
  have n1: "st_cache_slot_count s1 < OBJECT_STORE_CACHE_SLOTS"
    using ev s1(2) by (simp add: cache_shrinks_def)
  have new: "\<not> cached s1 (cs_id c) w b" for w b
    using rm(2) [of w b] sh by (auto simp: c_def cache_shrinks_def)
  have c: "cs_offset c = st_arena_used s1" "0 < cs_length c" "st_arena_used s1 + cs_length c \<le> st_arena_capacity s1"
    "length (take len bytes) \<le> cs_length c"
    using s1(3) cap span len by (auto simp: c_def)
  have ok2: "cache_ok s1" using sh by (simp add: cache_shrinks_def)
  note push = push_slot_ok [OF ok2 n1 c new]
  let ?buf = "memcpy_at (st_arena_buffer s1) (st_arena_used s1) (take len bytes)"
  have "st_arena_used s1 + length (take len bytes) \<le> length (st_arena_buffer s1)"
    using ok2 c by (simp add: cache_ok_def)
  from memcpy_at_append(3) [OF this] have copy: "take len (drop (st_arena_used s1) ?buf) = take len bytes"
    using len by (simp add: min.absorb2)
  then have tk: "take len (take ?span (drop (st_arena_used s1) ?buf)) = take len bytes"
    using span by (simp add: min_def)
  show thesis
  proof (rule that [OF ins push(1)])
    show "without_cache ?s' = without_cache s"
      using sh rm(1) by (simp add: cache_shrinks_def push_slot_def without_cache_def)
    show "take len (drop (st_arena_used s1) (st_arena_buffer ?s')) = take len bytes"
      using copy by (simp add: push_slot_def)
    show "\<exists>b. cached ?s' i v b" using push(2) [of i v] by (auto simp: c_def)
    show "\<exists>K b. lru_kept (has_room (st_arena_capacity s) ?span) {x \<in> cache_items s. fst x \<noteq> i} K \<and>
       has_room (st_arena_capacity s) ?span K \<and> take len b = take len bytes \<and>
       cache_items ?s' = insert (i, v, b, st_cache_clock s + 1) K"
    proof (intro exI conjI)
      have "cache_ok ?s0" "st_arena_capacity ?s0 = st_arena_capacity s"
        using sh0 \<open>st_arena_capacity ?s0 = st_arena_capacity s\<close> by (auto simp: cache_shrinks_def)
      then show "lru_kept (has_room (st_arena_capacity s) ?span) {x \<in> cache_items s. fst x \<noteq> i} (cache_items s1)"
        by (rule evict_room_lru [OF s1(1)])
          (use evict_slots_lru [OF ok1] lru_kept_refl cache_items_remove_id [OF ok, of i] in simp)
      show "has_room (st_arena_capacity s) ?span (cache_items s1)"
        using s1(3) n1 by (simp add: has_room_def cache_items_measure [OF ok2])
      have "cs_last_access c = st_cache_clock s + 1"
        using evict_room_clock [OF s1(1)] by (simp add: c_def evict_slots_clock evict_clock)
      then show "cache_items ?s' = insert (i, v, take ?span (drop (st_arena_used s1) ?buf), st_cache_clock s + 1) (cache_items s1)"
        using push(3) by (simp add: c_def)
    qed (rule tk)
    show "(j \<noteq> i \<and> cached s j w b) \<or> (j = i \<and> w = v \<and> take len b = take len bytes)" if "cached ?s' j w b" for j w b
      using that push(2) [of j w b] sh rm(3) [of j w b] tk by (auto simp: c_def cache_shrinks_def)
  qed
qed

section \<open>Property\<close>

text \<open>
  C13: putting an object into the cache always returns, and evicts in the order of use and no
  more than needed. On a cache whose slots tile the arena, \<open>cache_insert\<close> of an object
  that fits ends although its eviction loop has no bound of its own. Afterwards the slots tile
  the arena again; the cache holds the object under its id and version with its bytes, as the
  most recently used one, and no other version of it; of the other objects it holds exactly
  those that are left if the least recently used are given up one after the other while there
  is no free slot or not enough room, each with the version, bytes and time of use it had
  before, although eviction moves them inside the arena; and the rest of the store is
  untouched. An object that is empty or too large for the arena leaves the cache as it was.
\<close>

theorem cache_insert_correct:
  assumes "cache_ok s" "len \<le> length bytes" "len + 7 < 2 ^ 64"
  shows "case cache_insert s i v bytes len of
      None \<Rightarrow> False
    | Some (s', None) \<Rightarrow> (len = 0 \<or> cache_span len > st_arena_capacity s) \<and> s' = s
    | Some (s', Some off) \<Rightarrow> cache_ok s' \<and> without_cache s' = without_cache s \<and>
        take len (drop off (st_arena_buffer s')) = take len bytes \<and>
        cache_find s' i v \<noteq> None \<and>
        (\<exists>K b. lru_kept (has_room (st_arena_capacity s) (cache_span len)) {x \<in> cache_items s. fst x \<noteq> i} K \<and>
           has_room (st_arena_capacity s) (cache_span len) K \<and> take len b = take len bytes \<and>
           cache_items s' = insert (i, v, b, st_cache_clock s + 1) K)"
proof (cases "len = 0 \<or> cache_span len > st_arena_capacity s")
  case True
  then show ?thesis by (auto simp: cache_insert_def Let_def)
next
  case False
  then have pre: "0 < len" "cache_span len \<le> st_arena_capacity s" by auto
  obtain s' off where
    "cache_insert s i v bytes len = Some (s', Some off)" "cache_ok s'" "without_cache s' = without_cache s"
    "take len (drop off (st_arena_buffer s')) = take len bytes"
    "\<exists>b. cached s' i v b"
    "\<exists>K b. lru_kept (has_room (st_arena_capacity s) (cache_span len)) {x \<in> cache_items s. fst x \<noteq> i} K \<and>
       has_room (st_arena_capacity s) (cache_span len) K \<and> take len b = take len bytes \<and>
       cache_items s' = insert (i, v, b, st_cache_clock s + 1) K"
    by (rule cache_insert_Some [OF assms(1) pre(1) assms(2,3) pre(2), of i v])
  moreover from this(5) have "cache_find s' i v \<noteq> None"
    unfolding cache_find_def cached_def by (auto simp: find_None_iff slot_at_def)
  ultimately show ?thesis by simp
qed

definition sample_cache_store :: "unit object_store" where
  "sample_cache_store = sample_bitmap_store\<lparr>st_arena_buffer := replicate 32 0, st_arena_capacity := 32,
     st_cache_slots := replicate OBJECT_STORE_CACHE_SLOTS
       \<lparr>cs_id = zero_id, cs_version = 0, cs_offset = 0, cs_length = 0, cs_last_access = 0\<rparr>\<rparr>"

theorem cache_insert_correct_witness:
  "cache_ok sample_cache_store \<and>
   (\<exists>s' off. cache_insert sample_cache_store (Object_Id 0 1) 1 [1, 2, 3] 3 = Some (s', Some off) \<and>
      take 3 (drop off (st_arena_buffer s')) = [1, 2, 3] \<and> cache_find s' (Object_Id 0 1) 1 \<noteq> None)"
proof -
  have ok: "cache_ok sample_cache_store"
    by (simp add: cache_ok_def sample_cache_store_def sample_bitmap_store_def)
  have "cache_span 3 = 8" by (simp add: cache_span_eq)
  then have "\<not> (3 = (0 :: nat) \<or> cache_span 3 > st_arena_capacity sample_cache_store)"
    by (simp add: sample_cache_store_def)
  with cache_insert_correct [OF ok, of 3 "[1, 2, 3]" "Object_Id 0 1" 1] ok show ?thesis
    by (auto split: option.splits prod.splits)
qed

end
