(* ===== verification/Object_Store.thy ===== *)
theory Object_Store
  imports Store_Cache
begin

text \<open>
  The operations of \<^verbatim>\<open>kernel/obj/object_store.c\<close>. A function that takes a
  \<open>struct object_store *\<close> takes the store and returns it with its result; pointers to a
  store, to requests and to results are not \<open>NULL\<close>. A function that inserts into the
  cache returns \<open>None\<close> if the eviction loop would never end.
\<close>

abbreviation OBJECT_STORE_PUT_BATCH_MAX :: nat where "OBJECT_STORE_PUT_BATCH_MAX \<equiv> 8"

definition OBJECT_STORE_SUPERBLOCK_A :: u64 where "OBJECT_STORE_SUPERBLOCK_A = 0"
definition OBJECT_STORE_SUPERBLOCK_B :: u64 where "OBJECT_STORE_SUPERBLOCK_B = 1"
definition OBJECT_STORE_WAL_SECTOR :: u64 where "OBJECT_STORE_WAL_SECTOR = 2"
definition OBJECT_STORE_FIRST_ALLOCATABLE_SECTOR :: u64 where "OBJECT_STORE_FIRST_ALLOCATABLE_SECTOR = 3"

record object_store_put_request =
  rq_id :: object_id
  rq_type_id :: object_id
  rq_creator_id :: object_id
  rq_modifier_id :: object_id
  rq_logical_timestamp :: u64
  rq_payload :: "bytes option"
  rq_payload_size :: nat

datatype object_store_batch_result =
  OBJECT_STORE_BATCH_REJECTED | OBJECT_STORE_BATCH_COMMITTED | OBJECT_STORE_BATCH_RECOVERY_REQUIRED

record object_store_staged_put =
  sp_request :: object_store_put_request
  sp_first_sector :: u64
  sp_sector_count :: u64
  sp_version :: u64
  sp_object_byte_count :: nat

section \<open>Device access\<close>

definition store_read :: "'d object_store \<Rightarrow> u64 \<Rightarrow> 'd object_store \<times> bytes option" where
  "store_read s sector =
     (case the (io_read_sector (st_io s)) (io_context (st_io s)) sector of
        (d, r) \<Rightarrow> (s\<lparr>st_io := (st_io s)\<lparr>io_context := d\<rparr>\<rparr>, r))"

definition store_write :: "'d object_store \<Rightarrow> u64 \<Rightarrow> bytes \<Rightarrow> 'd object_store \<times> bool" where
  "store_write s sector bytes =
     (case the (io_write_sector (st_io s)) (io_context (st_io s)) sector bytes of
        (d, r) \<Rightarrow> (s\<lparr>st_io := (st_io s)\<lparr>io_context := d\<rparr>\<rparr>, r))"

definition store_flush :: "'d object_store \<Rightarrow> 'd object_store \<times> bool" where
  "store_flush s =
     (case the (io_flush (st_io s)) (io_context (st_io s)) of
        (d, r) \<Rightarrow> (s\<lparr>st_io := (st_io s)\<lparr>io_context := d\<rparr>\<rparr>, r))"

definition write_and_flush :: "'d object_store \<Rightarrow> u64 \<Rightarrow> bytes \<Rightarrow> 'd object_store \<times> bool" where
  "write_and_flush s sector bytes =
     (case store_write s sector bytes of
        (s1, False) \<Rightarrow> (s1, False) | (s1, True) \<Rightarrow> store_flush s1)"

section \<open>Set-up\<close>

text \<open>
  The memory the caller lends to a store: the pointer arguments of \<open>setup_store\<close>, a
  \<open>NULL\<close> pointer being \<open>None\<close>. The cache and the arena buffers come with their
  addresses, because their alignment is checked.
\<close>

record object_store_memory =
  om_table_entries :: "object_table_entry list option"
  om_scratch_entries :: "object_table_entry list option"
  om_table_capacity :: nat
  om_cache_buffer :: "(u64 \<times> bytes) option"
  om_cache_capacity :: nat
  om_bitmap_buffer :: "bytes option"
  om_bitmap_capacity :: nat
  om_arena_buffer :: "(u64 \<times> bytes) option"
  om_arena_capacity :: nat

definition zero_slot :: object_cache_slot where
  "zero_slot = \<lparr>cs_id = zero_id, cs_version = 0, cs_offset = 0, cs_length = 0, cs_last_access = 0\<rparr>"

definition zero_snapshot :: object_store_snapshot where
  "zero_snapshot = \<lparr>snap_id = 0, snap_table_sector = 0, snap_table_count = 0\<rparr>"

definition setup_store :: "'d object_store_io \<Rightarrow> object_store_memory \<Rightarrow> 'd object_store option" where
  "setup_store io om =
     (if om_table_entries om = None \<or> om_scratch_entries om = None \<or> om_cache_buffer om = None \<or>
         om_bitmap_buffer om = None \<or> om_arena_buffer om = None \<or> om_table_capacity om = 0 \<or>
         om_cache_capacity om < OBJECT_HEADER_SIZE \<or>
         om_bitmap_capacity om < unat (bitmap_bytes_for (io_sector_count io)) \<or>
         fst (the (om_cache_buffer om)) mod 8 \<noteq> 0 \<or> fst (the (om_arena_buffer om)) mod 8 \<noteq> 0 \<or>
         io_sector_count io < OBJECT_STORE_FIRST_ALLOCATABLE_SECTOR \<or>
         io_read_sector io = None \<or> io_write_sector io = None \<or> io_flush io = None
      then None
      else Some \<lparr>st_io = io,
        st_table = object_table_init (om_table_entries om) (om_table_capacity om),
        st_scratch_entries = om_scratch_entries om, st_table_capacity = om_table_capacity om,
        st_cache_buffer = snd (the (om_cache_buffer om)), st_cache_capacity = om_cache_capacity om,
        st_arena_buffer = snd (the (om_arena_buffer om)), st_arena_capacity = om_arena_capacity om,
        st_arena_used = 0, st_cache_slots = replicate OBJECT_STORE_CACHE_SLOTS zero_slot,
        st_cache_slot_count = 0, st_cache_clock = 0,
        st_bitmap_buffer = the (om_bitmap_buffer om), st_bitmap_capacity = om_bitmap_capacity om,
        st_next_sector = 0, st_current_table_sector = 0, st_current_generation = 0,
        st_superblock_sequence = 0, st_active_superblock_sector = 0, st_recovery_required = 0,
        st_snapshots = replicate OBJECT_STORE_SNAPSHOT_LIMIT zero_snapshot\<rparr>)"

section \<open>Superblocks, tables, objects and the log\<close>

definition superblock_from_store :: "'d object_store \<Rightarrow> u64 \<Rightarrow> disk_superblock" where
  "superblock_from_store s sequence = fst (superblock_checksum
     \<lparr>sb_magic = OBJECT_STORE_SUPERBLOCK_MAGIC, sb_format_version = 1, sb_sector_size = 512,
      sb_sequence = sequence, sb_table_capacity = of_nat (st_table_capacity s),
      sb_next_sector = st_next_sector s, sb_current_table_sector = st_current_table_sector s,
      sb_current_table_count = of_nat (t_count (st_table s)),
      sb_current_generation = st_current_generation s,
      sb_snapshots = map (\<lambda>x. \<lparr>ds_id = snap_id x, ds_table_sector = snap_table_sector x,
                                ds_table_count = snap_table_count x\<rparr>) (st_snapshots s),
      sb_checksum = 0, sb_reserved = 0, sb_padding = replicate 248 0\<rparr>)"

definition superblock_target :: "'d object_store \<Rightarrow> u64" where
  "superblock_target s =
     (if st_active_superblock_sector s = OBJECT_STORE_SUPERBLOCK_A
      then OBJECT_STORE_SUPERBLOCK_B else OBJECT_STORE_SUPERBLOCK_A)"

definition write_superblock :: "'d object_store \<Rightarrow> 'd object_store \<times> bool" where
  "write_superblock s =
     (let next_sequence = st_superblock_sequence s + 1; target_sector = superblock_target s in
      case write_and_flush s target_sector (encode_superblock (superblock_from_store s next_sequence)) of
        (s1, False) \<Rightarrow> (s1, False)
      | (s1, True) \<Rightarrow> (s1\<lparr>st_superblock_sequence := next_sequence,
                        st_active_superblock_sector := target_sector\<rparr>, True))"

definition table_record :: "object_table_entry \<Rightarrow> disk_table_entry" where
  "table_record e = fst (table_entry_checksum
     \<lparr>te_magic = OBJECT_STORE_TABLE_ENTRY_MAGIC, te_entry = e, te_checksum = 0, te_reserved = 0,
      te_padding = replicate 456 0\<rparr>)"

text \<open>Writing consecutive sectors until one fails, as the two writing loops do.\<close>

fun write_sectors :: "'d object_store \<Rightarrow> u64 \<Rightarrow> bytes list \<Rightarrow> 'd object_store \<times> bool" where
  "write_sectors s sector [] = (s, True)"
| "write_sectors s sector (b # bs) =
     (case store_write s sector b of
        (s1, False) \<Rightarrow> (s1, False) | (s1, True) \<Rightarrow> write_sectors s1 (sector + 1) bs)"

definition write_table_generation ::
    "'d object_store \<Rightarrow> object_table \<Rightarrow> u64 \<Rightarrow> 'd object_store \<times> bool" where
  "write_table_generation s table first_sector =
     (if t_count table = 0 \<or> t_count table > t_capacity table \<or>
         first_sector < OBJECT_STORE_FIRST_ALLOCATABLE_SECTOR \<or>
         t_count table > unat (sector_count s - first_sector) then (s, False)
      else case write_sectors s first_sector
             (map (\<lambda>index. encode_table_entry (table_record (entries table ! index))) [0..<t_count table]) of
        (s1, False) \<Rightarrow> (s1, False) | (s1, True) \<Rightarrow> store_flush s1)"

text \<open>The bytes of an object cut into sectors, the last one filled up with zeros.\<close>

function sector_chunks :: "bytes \<Rightarrow> bytes list" where
  "sector_chunks bytes =
     (if bytes = [] then []
      else (let chunk = take OBJECT_STORE_SECTOR_SIZE bytes in
            chunk @ replicate (OBJECT_STORE_SECTOR_SIZE - length chunk) 0) #
           sector_chunks (drop OBJECT_STORE_SECTOR_SIZE bytes))"
  by pat_completeness auto
termination by (relation "measure length") auto

declare sector_chunks.simps [simp del]

definition write_object_bytes ::
    "'d object_store \<Rightarrow> u64 \<Rightarrow> bytes \<Rightarrow> nat \<Rightarrow> 'd object_store \<times> bool" where
  "write_object_bytes s first_sector bytes byte_count =
     (if byte_count = 0 then (s, False)
      else case write_sectors s first_sector (sector_chunks (take byte_count bytes)) of
        (s1, False) \<Rightarrow> (s1, False) | (s1, True) \<Rightarrow> store_flush s1)"

definition wal_root :: "u64 \<Rightarrow> u64 \<Rightarrow> u64 \<Rightarrow> object_wal_record" where
  "wal_root table_sector table_count generation =
     (let record = \<lparr>wr_magic = OBJECT_WAL_MAGIC, wr_format_version = 1, wr_flags = 0,
                    wr_table_sector = table_sector, wr_table_count = table_count,
                    wr_generation = generation, wr_checksum = 0, wr_reserved = 0,
                    wr_padding = replicate 464 0\<rparr>
      in record\<lparr>wr_checksum := object_crc32c (Some (encode_wal record)) OBJECT_STORE_SECTOR_SIZE\<rparr>)"

definition write_wal_root ::
    "'d object_store \<Rightarrow> u64 \<Rightarrow> u64 \<Rightarrow> u64 \<Rightarrow> 'd object_store \<times> bool" where
  "write_wal_root s table_sector table_count generation =
     (let record = encode_wal (wal_root table_sector table_count generation) in
      if \<not> object_wal_validate (Some record) OBJECT_STORE_SECTOR_SIZE then (s, False)
      else write_and_flush s OBJECT_STORE_WAL_SECTOR record)"

definition empty_sector :: bytes where
  "empty_sector = replicate OBJECT_STORE_SECTOR_SIZE 0"

definition clear_wal :: "'d object_store \<Rightarrow> 'd object_store \<times> bool" where
  "clear_wal s = write_and_flush s OBJECT_STORE_WAL_SECTOR empty_sector"

text \<open>
  The reading loop of \<open>read_table_generation\<close> from \<open>index\<close> on, with the number of
  records still to read.
\<close>

fun read_entries ::
    "'d object_store \<Rightarrow> object_table \<Rightarrow> u64 \<Rightarrow> nat \<Rightarrow> nat \<Rightarrow> 'd object_store \<times> object_table \<times> bool" where
  "read_entries s table first_sector index 0 = (s, table, True)"
| "read_entries s table first_sector index (Suc remaining) =
     (case store_read s (first_sector + of_nat index) of
        (s1, None) \<Rightarrow> (s1, table\<lparr>t_count := 0\<rparr>, False)
      | (s1, Some bytes) \<Rightarrow>
          let record = decode_table_entry bytes in
          if \<not> table_entry_is_valid record \<or>
             index \<noteq> 0 \<and> object_id_compare (e_id (entries table ! (index - 1))) (e_id (te_entry record)) \<ge> 0
          then (s1, table\<lparr>t_count := 0\<rparr>, False)
          else read_entries s1 (table\<lparr>entries := (entries table)[index := te_entry record],
                                     t_count := t_count table + 1\<rparr>)
                 first_sector (index + 1) remaining)"

definition read_table_generation ::
    "'d object_store \<Rightarrow> object_table \<Rightarrow> u64 \<Rightarrow> nat \<Rightarrow> 'd object_store \<times> object_table \<times> bool" where
  "read_table_generation s table first_sector count =
     (if count > t_capacity table \<or> count > st_table_capacity s \<or>
         count \<noteq> 0 \<and> (first_sector < OBJECT_STORE_FIRST_ALLOCATABLE_SECTOR \<or>
                      count > unat (sector_count s - first_sector))
      then (s, table, False)
      else read_entries s (table\<lparr>t_count := 0\<rparr>) first_sector 0 count)"

definition load_table_generation :: "'d object_store \<Rightarrow> u64 \<Rightarrow> nat \<Rightarrow> 'd object_store \<times> bool" where
  "load_table_generation s first_sector count =
     (case read_table_generation s (st_table s) first_sector count of
        (s1, table, r) \<Rightarrow> (s1\<lparr>st_table := table\<rparr>, r))"

definition sector_is_zero :: "bytes \<Rightarrow> bool" where
  "sector_is_zero sector = list_all (\<lambda>index. sector ! index = 0) [0..<OBJECT_STORE_SECTOR_SIZE]"

text \<open>\<open>None\<close> is the result 0; otherwise the flag \<open>*recovered\<close>.\<close>

definition recover_wal :: "'d object_store \<Rightarrow> 'd object_store \<times> bool option" where
  "recover_wal s =
     (case store_read s OBJECT_STORE_WAL_SECTOR of
        (s1, None) \<Rightarrow> (s1, None)
      | (s1, Some bytes) \<Rightarrow>
          let record = decode_wal bytes in
          if sector_is_zero bytes then (s1, Some False)
          else if \<not> object_wal_validate (Some bytes) OBJECT_STORE_SECTOR_SIZE \<or>
             unat (wr_table_count record) > st_table_capacity s1 \<or>
             wr_table_count record = 0 \<and> wr_table_sector record \<noteq> 0 \<or>
             wr_table_count record \<noteq> 0 \<and>
               (wr_table_sector record < OBJECT_STORE_FIRST_ALLOCATABLE_SECTOR \<or>
                wr_table_sector record > st_next_sector s1 \<or>
                wr_table_count record > st_next_sector s1 - wr_table_sector record)
          then (s1, None)
          else case load_table_generation s1 (wr_table_sector record) (unat (wr_table_count record)) of
            (s2, False) \<Rightarrow> (s2, None)
          | (s2, True) \<Rightarrow>
              (case write_superblock (s2\<lparr>st_current_table_sector := wr_table_sector record,
                                         st_current_generation := wr_generation record\<rparr>) of
                 (s3, False) \<Rightarrow> (s3, None)
               | (s3, True) \<Rightarrow> (case clear_wal s3 of (s4, done) \<Rightarrow> (s4, if done then Some True else None))))"

definition mark_generation :: "'d object_store \<Rightarrow> u64 \<Rightarrow> u64 \<Rightarrow> 'd object_store \<times> bool" where
  "mark_generation s table_sector table_count =
     (if table_count = 0 then (s, True)
      else case read_table_generation s (object_table_init (st_scratch_entries s) (st_table_capacity s))
                  table_sector (unat table_count) of
        (s1, generation, False) \<Rightarrow> (s1, False)
      | (s1, generation, True) \<Rightarrow>
          (foldl (\<lambda>s e. bitmap_set_range s (e_first_sector e) (e_sector_count e))
             (bitmap_set_range s1 table_sector table_count)
             (take (t_count generation) (entries generation)), True))"

text \<open>The loop of \<open>rebuild_bitmap\<close> over the snapshots.\<close>

fun mark_snapshots :: "'d object_store \<Rightarrow> object_store_snapshot list \<Rightarrow> 'd object_store \<times> bool" where
  "mark_snapshots s [] = (s, True)"
| "mark_snapshots s (x # xs) =
     (if snap_id x = 0 then mark_snapshots s xs
      else case mark_generation s (snap_table_sector x) (snap_table_count x) of
        (s1, False) \<Rightarrow> (s1, False) | (s1, True) \<Rightarrow> mark_snapshots s1 xs)"

definition clear_bitmap :: "'d object_store \<Rightarrow> 'd object_store" where
  "clear_bitmap s =
     (let needed = unat (bitmap_bytes_for (sector_count s)) in
      s\<lparr>st_bitmap_buffer := memcpy_at (st_bitmap_buffer s) 0 (replicate needed 0)\<rparr>)"

definition rebuild_bitmap :: "'d object_store \<Rightarrow> 'd object_store \<times> bool" where
  "rebuild_bitmap s =
     (if unat (bitmap_bytes_for (sector_count s)) > st_bitmap_capacity s then (s, False)
      else case mark_generation
             (bitmap_set_range (clear_bitmap s) 0 OBJECT_STORE_FIRST_ALLOCATABLE_SECTOR)
             (st_current_table_sector s) (of_nat (t_count (st_table s))) of
        (s1, False) \<Rightarrow> (s1, False)
      | (s1, True) \<Rightarrow> mark_snapshots s1 (st_snapshots s1))"

section \<open>Format and mount\<close>

text \<open>
  \<open>None\<close> is a refused set-up; otherwise the store after the call and the result, since
  a format or mount that fails later has already initialised the store.
\<close>

definition object_store_format ::
    "'d object_store_io \<Rightarrow> object_store_memory \<Rightarrow> ('d object_store \<times> bool) option" where
  "object_store_format io om =
     (case setup_store io om of
        None \<Rightarrow> None
      | Some s \<Rightarrow> Some (
          let s1 = bitmap_set_range
                (clear_bitmap (s\<lparr>st_next_sector := OBJECT_STORE_FIRST_ALLOCATABLE_SECTOR,
                                 st_active_superblock_sector := OBJECT_STORE_SUPERBLOCK_A\<rparr>))
                0 OBJECT_STORE_FIRST_ALLOCATABLE_SECTOR
          in case write_superblock s1 of
            (s2, False) \<Rightarrow> (s2, False)
          | (s2, True) \<Rightarrow>
              (case write_superblock s2 of
                 (s3, False) \<Rightarrow> (s3, False)
               | (s3, True) \<Rightarrow> write_and_flush s3 OBJECT_STORE_WAL_SECTOR empty_sector)))"

definition choose_superblock ::
    "disk_superblock \<Rightarrow> disk_superblock \<Rightarrow> u64 \<Rightarrow> nat \<Rightarrow> (disk_superblock \<times> u64) option" where
  "choose_superblock first second n table_capacity =
     (if superblock_is_valid first n table_capacity \<and>
         (\<not> superblock_is_valid second n table_capacity \<or> sb_sequence first \<ge> sb_sequence second)
      then Some (first, OBJECT_STORE_SUPERBLOCK_A)
      else if superblock_is_valid second n table_capacity then Some (second, OBJECT_STORE_SUPERBLOCK_B)
      else None)"

definition adopt_superblock :: "'d object_store \<Rightarrow> disk_superblock \<Rightarrow> u64 \<Rightarrow> 'd object_store" where
  "adopt_superblock s chosen active =
     s\<lparr>st_active_superblock_sector := active, st_superblock_sequence := sb_sequence chosen,
       st_next_sector := sb_next_sector chosen,
       st_current_table_sector := sb_current_table_sector chosen,
       st_current_generation := sb_current_generation chosen,
       st_snapshots := map (\<lambda>x. \<lparr>snap_id = ds_id x, snap_table_sector = ds_table_sector x,
                                 snap_table_count = ds_table_count x\<rparr>) (sb_snapshots chosen)\<rparr>"

text \<open>The part of \<open>object_store_mount\<close> after both superblocks were read.\<close>

definition mount_from :: "'d object_store \<Rightarrow> disk_superblock \<Rightarrow> disk_superblock \<Rightarrow> 'd object_store \<times> bool" where
  "mount_from s first second =
     (case choose_superblock first second (sector_count s) (st_table_capacity s) of
        None \<Rightarrow> (s, False)
      | Some (chosen, active) \<Rightarrow>
          (case recover_wal (adopt_superblock s chosen active) of
             (s1, None) \<Rightarrow> (s1, False)
           | (s1, Some recovered) \<Rightarrow>
               (case (if recovered then (s1, True)
                      else load_table_generation s1 (sb_current_table_sector chosen)
                             (unat (sb_current_table_count chosen))) of
                  (s2, False) \<Rightarrow> (s2, False)
                | (s2, True) \<Rightarrow> rebuild_bitmap s2)))"

definition object_store_mount ::
    "'d object_store_io \<Rightarrow> object_store_memory \<Rightarrow> ('d object_store \<times> bool) option" where
  "object_store_mount io om =
     (case setup_store io om of
        None \<Rightarrow> None
      | Some s \<Rightarrow> Some (
          case store_read s OBJECT_STORE_SUPERBLOCK_A of
            (s1, None) \<Rightarrow> (s1, False)
          | (s1, Some first) \<Rightarrow>
              (case store_read s1 OBJECT_STORE_SUPERBLOCK_B of
                 (s2, None) \<Rightarrow> (s2, False)
               | (s2, Some second) \<Rightarrow>
                   mount_from s2 (decode_superblock first) (decode_superblock second))))"

definition object_store_requires_recovery :: "'d object_store \<Rightarrow> bool" where
  "object_store_requires_recovery s \<longleftrightarrow> st_recovery_required s \<noteq> 0"

section \<open>Putting objects\<close>

abbreviation SIZE_MAX :: nat where "SIZE_MAX \<equiv> 2 ^ 64 - 1"

definition object_store_put_request_is_valid :: "'d object_store \<Rightarrow> object_store_put_request \<Rightarrow> bool" where
  "object_store_put_request_is_valid s request =
     (if object_id_is_zero (rq_id request) \<or> object_id_is_zero (rq_type_id request) \<or>
         st_cache_capacity s < OBJECT_HEADER_SIZE \<or>
         rq_payload request = None \<and> rq_payload_size request \<noteq> 0 \<or>
         rq_payload_size request > SIZE_MAX - OBJECT_HEADER_SIZE \<or>
         rq_payload_size request > st_cache_capacity s - OBJECT_HEADER_SIZE
      then False else True)"

definition put_header :: "object_store_staged_put \<Rightarrow> object_header" where
  "put_header p =
     \<lparr>h_magic = OBJECT_HEADER_MAGIC, h_format_version = 1, h_reference_count = 0,
      h_id = rq_id (sp_request p), h_type_id = rq_type_id (sp_request p), h_version = sp_version p,
      h_payload_size = of_nat (rq_payload_size (sp_request p)), h_payload_crc32c = 0, h_flags = 0,
      h_creator_id = rq_creator_id (sp_request p), h_modifier_id = rq_modifier_id (sp_request p),
      h_logical_timestamp = rq_logical_timestamp (sp_request p), h_padding = 0, h_reserved = 0\<rparr>"

definition object_store_prepare_put_bytes ::
    "'d object_store \<Rightarrow> object_store_staged_put \<Rightarrow> 'd object_store \<times> bool" where
  "object_store_prepare_put_bytes s p =
     (if sp_version p = 0 \<or> sp_object_byte_count p < OBJECT_HEADER_SIZE \<or>
         sp_object_byte_count p > st_cache_capacity s then (s, False)
      else
        let size = rq_payload_size (sp_request p);
            b1 = memcpy_at (st_cache_buffer s) 0 (replicate (sp_object_byte_count p) 0);
            b2 = memcpy_at b1 0 (encode_header (put_header p));
            b3 = (if size \<noteq> 0
                  then memcpy_at b2 OBJECT_HEADER_SIZE (take size (the (rq_payload (sp_request p))))
                  else b2);
            crc = object_crc32c (Some (drop OBJECT_HEADER_SIZE b3)) size;
            b4 = memcpy_at b3 0 (encode_header ((put_header p)\<lparr>h_payload_crc32c := crc\<rparr>))
        in (s\<lparr>st_cache_buffer := b4\<rparr>, object_header_validate (Some b4) (sp_object_byte_count p)))"

text \<open>
  The first loop of \<open>object_store_put_many\<close>, which checks each request against the
  \<open>earlier\<close> ones and enters it into the candidate table.
\<close>

definition stage_request :: "'d object_store \<Rightarrow> object_store_put_request \<Rightarrow> object_store_staged_put" where
  "stage_request s request =
     (let bytes = OBJECT_HEADER_SIZE + rq_payload_size request in
      \<lparr>sp_request = request, sp_first_sector = 0,
       sp_sector_count = (if bytes mod OBJECT_STORE_SECTOR_SIZE \<noteq> 0
         then of_nat (bytes div OBJECT_STORE_SECTOR_SIZE) + 1
         else of_nat (bytes div OBJECT_STORE_SECTOR_SIZE)),
       sp_version = (case object_table_find (st_table s) (rq_id request) of
         None \<Rightarrow> 1 | Some existing \<Rightarrow> e_version existing + 1),
       sp_object_byte_count = bytes\<rparr>)"

fun stage_requests ::
    "'d object_store \<Rightarrow> object_store_put_request list \<Rightarrow> object_store_put_request list \<Rightarrow> object_table \<Rightarrow>
     (object_store_staged_put list \<times> object_table) option" where
  "stage_requests s earlier [] candidate = Some ([], candidate)"
| "stage_requests s earlier (request # rest) candidate =
     (if \<not> object_store_put_request_is_valid s request then None
      else if list_ex (\<lambda>r. object_id_equal (rq_id r) (rq_id request)) earlier then None
      else let p = stage_request s request in
        if sp_sector_count p = 0 then None
        else if sp_version p = 0 then None
        else case object_table_upsert candidate
               \<lparr>e_id = rq_id request, e_version = sp_version p,
                e_first_sector = OBJECT_STORE_FIRST_ALLOCATABLE_SECTOR,
                e_sector_count = sp_sector_count p\<rparr> of
          None \<Rightarrow> None
        | Some candidate1 \<Rightarrow>
            (case stage_requests s (earlier @ [request]) rest candidate1 of
               None \<Rightarrow> None | Some (staged, candidate2) \<Rightarrow> Some (p # staged, candidate2)))"

definition candidate_table :: "'d object_store \<Rightarrow> object_table" where
  "candidate_table s =
     (let t = object_table_init (st_scratch_entries s) (st_table_capacity s);
          n = t_count (st_table s)
      in t\<lparr>entries := take n (entries (st_table s)) @ drop n (entries t), t_count := n\<rparr>)"

definition set_first_sector :: "object_table \<Rightarrow> nat \<Rightarrow> u64 \<Rightarrow> object_table" where
  "set_first_sector t index f =
     t\<lparr>entries := (entries t)[index := (entries t ! index)\<lparr>e_first_sector := f\<rparr>]\<rparr>"

text \<open>
  The allocation loop. It returns the store, the candidate, the requests whose extents were
  allocated so far (these are what \<open>reject_allocations\<close> releases) and whether it got
  through.
\<close>

fun allocate_requests ::
    "'d object_store \<Rightarrow> object_table \<Rightarrow> object_store_staged_put list \<Rightarrow>
     'd object_store \<times> object_table \<times> object_store_staged_put list \<times> bool" where
  "allocate_requests s candidate [] = (s, candidate, [], True)"
| "allocate_requests s candidate (p # ps) =
     (case bitmap_allocate s (sp_sector_count p) of
        None \<Rightarrow> (s, candidate, [], False)
      | Some (s1, f) \<Rightarrow>
          let p1 = p\<lparr>sp_first_sector := f\<rparr> in
          if f > UINT64_MAX - sp_sector_count p then (s1, candidate, [p1], False)
          else let end_sector = f + sp_sector_count p;
                   s2 = (if end_sector > st_next_sector s1 then s1\<lparr>st_next_sector := end_sector\<rparr> else s1)
            in case List.find (\<lambda>k. object_id_equal (e_id (entries candidate ! k)) (rq_id (sp_request p)))
                      [0..<t_count candidate] of
                 None \<Rightarrow> (s2, candidate, [p1], False)
               | Some k \<Rightarrow>
                   (case allocate_requests s2 (set_first_sector candidate k f) ps of
                      (s3, c3, ps3, r) \<Rightarrow> (s3, c3, p1 # ps3, r)))"

definition reject_allocations ::
    "'d object_store \<Rightarrow> object_store_staged_put list \<Rightarrow> (u64 \<times> nat) option \<Rightarrow> u64 \<Rightarrow> 'd object_store" where
  "reject_allocations s allocated table saved_next_sector =
     (let s1 = foldl (\<lambda>s p. bitmap_clear_range s (sp_first_sector p) (sp_sector_count p)) s allocated;
          s2 = (case table of None \<Rightarrow> s1
                | Some (table_sector, count) \<Rightarrow> bitmap_clear_range s1 table_sector (of_nat count))
      in s2\<lparr>st_next_sector := saved_next_sector\<rparr>)"

fun write_requests :: "'d object_store \<Rightarrow> object_store_staged_put list \<Rightarrow> 'd object_store \<times> bool" where
  "write_requests s [] = (s, True)"
| "write_requests s (p # ps) =
     (case object_store_prepare_put_bytes s p of
        (s1, False) \<Rightarrow> (s1, False)
      | (s1, True) \<Rightarrow>
          (case write_object_bytes s1 (sp_first_sector p) (st_cache_buffer s1) (sp_object_byte_count p) of
             (s2, False) \<Rightarrow> (s2, False) | (s2, True) \<Rightarrow> write_requests s2 ps))"

definition install_table :: "'d object_store \<Rightarrow> object_table \<Rightarrow> u64 \<Rightarrow> u64 \<Rightarrow> 'd object_store" where
  "install_table s candidate table_sector generation =
     s\<lparr>st_table := (st_table s)\<lparr>entries := take (t_count candidate) (entries candidate) @
                                      drop (t_count candidate) (entries (st_table s)),
                                t_count := t_count candidate\<rparr>,
       st_current_table_sector := table_sector, st_current_generation := generation\<rparr>"

text \<open>
  Publishing a table generation that is already on disk: the log record, the switch in memory,
  the superblock and the clearing of the log. The pair tells whether the log record was
  written and whether everything was. \<open>object_store_put_many\<close>,
  \<open>object_store_delete\<close> and \<open>object_store_snapshot_rollback\<close> all end with this
  sequence.
\<close>

definition publish_table ::
    "'d object_store \<Rightarrow> object_table \<Rightarrow> u64 \<Rightarrow> u64 \<Rightarrow> 'd object_store \<times> bool" where
  "publish_table s candidate table_sector table_count =
     (let generation = st_current_generation s + 1 in
      case write_wal_root s table_sector table_count generation of
        (s1, False) \<Rightarrow> (s1\<lparr>st_recovery_required := 1\<rparr>, False)
      | (s1, True) \<Rightarrow>
          (case write_superblock (install_table s1 candidate table_sector generation) of
             (s2, False) \<Rightarrow> (s2\<lparr>st_recovery_required := 1\<rparr>, False)
           | (s2, True) \<Rightarrow>
               (case clear_wal s2 of
                  (s3, False) \<Rightarrow> (s3\<lparr>st_recovery_required := 1\<rparr>, False)
                | (s3, True) \<Rightarrow> (s3, True))))"

definition raise_next_sector :: "'d object_store \<Rightarrow> u64 \<Rightarrow> 'd object_store" where
  "raise_next_sector s e = (if e > st_next_sector s then s\<lparr>st_next_sector := e\<rparr> else s)"

text \<open>The end of \<open>object_store_put_many\<close>: a single object goes into the cache.\<close>

definition cache_batch ::
    "'d object_store \<Rightarrow> object_store_staged_put list \<Rightarrow> ('d object_store \<times> object_store_batch_result) option" where
  "cache_batch s staged =
     (if length staged = 1 then
        case object_store_prepare_put_bytes s (staged ! 0) of
          (s1, False) \<Rightarrow> Some (s1, OBJECT_STORE_BATCH_COMMITTED)
        | (s1, True) \<Rightarrow>
            map_option (\<lambda>r. (fst r, OBJECT_STORE_BATCH_COMMITTED))
              (cache_insert s1 (rq_id (sp_request (staged ! 0))) (sp_version (staged ! 0)) (st_cache_buffer s1)
                 (sp_object_byte_count (staged ! 0)))
      else Some (s, OBJECT_STORE_BATCH_COMMITTED))"

text \<open>
  From the first superblock to the end. \<open>reject\<close> is what the code at the label
  \<open>reject_allocations\<close> does.
\<close>

definition put_many_write ::
    "('d object_store \<Rightarrow> 'd object_store) \<Rightarrow> 'd object_store \<Rightarrow> object_table \<Rightarrow> object_store_staged_put list \<Rightarrow> u64 \<Rightarrow>
     ('d object_store \<times> object_store_batch_result) option" where
  "put_many_write reject s candidate staged table_sector =
     (case write_superblock s of
        (s1, False) \<Rightarrow> Some (reject s1, OBJECT_STORE_BATCH_REJECTED)
      | (s1, True) \<Rightarrow>
          (case write_requests s1 staged of
             (s2, False) \<Rightarrow> Some (reject s2, OBJECT_STORE_BATCH_REJECTED)
           | (s2, True) \<Rightarrow>
               (case write_table_generation s2 candidate table_sector of
                  (s3, False) \<Rightarrow> Some (reject s3, OBJECT_STORE_BATCH_REJECTED)
                | (s3, True) \<Rightarrow>
                    (case publish_table s3 candidate table_sector (of_nat (t_count candidate)) of
                       (s4, False) \<Rightarrow> Some (s4, OBJECT_STORE_BATCH_RECOVERY_REQUIRED)
                     | (s4, True) \<Rightarrow> cache_batch s4 staged))))"

text \<open>From the allocation of the table to the end of \<open>object_store_put_many\<close>.\<close>

definition put_many_commit ::
    "'d object_store \<Rightarrow> object_table \<Rightarrow> object_store_staged_put list \<Rightarrow> u64 \<Rightarrow>
     ('d object_store \<times> object_store_batch_result) option" where
  "put_many_commit s candidate staged saved_next_sector =
     (case bitmap_allocate s (of_nat (t_count candidate)) of
        None \<Rightarrow> Some (reject_allocations s staged None saved_next_sector, OBJECT_STORE_BATCH_REJECTED)
      | Some (s1, table_sector) \<Rightarrow>
          let reject = (\<lambda>s. reject_allocations s staged (Some (table_sector, t_count candidate)) saved_next_sector) in
          if table_sector > UINT64_MAX - of_nat (t_count candidate)
          then Some (reject s1, OBJECT_STORE_BATCH_REJECTED)
          else put_many_write reject (raise_next_sector s1 (table_sector + of_nat (t_count candidate)))
                 candidate staged table_sector)"

definition object_store_put_many ::
    "'d object_store \<Rightarrow> object_store_put_request list \<Rightarrow> ('d object_store \<times> object_store_batch_result) option" where
  "object_store_put_many s requests =
     (if requests = [] \<or> length requests > OBJECT_STORE_PUT_BATCH_MAX \<or>
         st_recovery_required s \<noteq> 0 \<or> st_current_generation s = UINT64_MAX \<or>
         entries (st_table s) = [] \<or> st_scratch_entries s = None \<or>
         t_count (st_table s) > st_table_capacity s \<or> t_capacity (st_table s) \<noteq> st_table_capacity s
      then Some (s, OBJECT_STORE_BATCH_REJECTED)
      else case stage_requests s [] requests (candidate_table s) of
        None \<Rightarrow> Some (s, OBJECT_STORE_BATCH_REJECTED)
      | Some (staged, candidate) \<Rightarrow>
          (case allocate_requests s candidate staged of
             (s1, candidate1, allocated, False) \<Rightarrow>
               Some (reject_allocations s1 allocated None (st_next_sector s), OBJECT_STORE_BATCH_REJECTED)
           | (s1, candidate1, allocated, True) \<Rightarrow>
               put_many_commit s1 candidate1 allocated (st_next_sector s)))"

definition object_store_put ::
    "'d object_store \<Rightarrow> object_id \<Rightarrow> object_id \<Rightarrow> object_id \<Rightarrow> object_id \<Rightarrow> u64 \<Rightarrow> bytes option \<Rightarrow> nat \<Rightarrow>
     ('d object_store \<times> bool) option" where
  "object_store_put s i type_id creator_id modifier_id logical_timestamp payload payload_size =
     (let request = \<lparr>rq_id = i, rq_type_id = type_id, rq_creator_id = creator_id,
                     rq_modifier_id = modifier_id, rq_logical_timestamp = logical_timestamp,
                     rq_payload = payload, rq_payload_size = payload_size\<rparr>
      in map_option (\<lambda>r. (fst r, snd r = OBJECT_STORE_BATCH_COMMITTED)) (object_store_put_many s [request]))"

section \<open>Getting an object\<close>

text \<open>The reading loop of \<open>object_store_get\<close>, which fills the cache buffer.\<close>

fun read_object :: "'d object_store \<Rightarrow> u64 \<Rightarrow> nat \<Rightarrow> nat \<Rightarrow> 'd object_store \<times> bool" where
  "read_object s first_sector index 0 = (s, True)"
| "read_object s first_sector index (Suc remaining) =
     (case store_read s (first_sector + of_nat index) of
        (s1, None) \<Rightarrow> (s1, False)
      | (s1, Some bytes) \<Rightarrow>
          read_object (s1\<lparr>st_cache_buffer := memcpy_at (st_cache_buffer s1)
                            (index * OBJECT_STORE_SECTOR_SIZE) bytes\<rparr>)
            first_sector (index + 1) remaining)"

text \<open>
  The results are the header, the payload (the \<open>*payload_size_out\<close> bytes that
  \<open>*payload_out\<close> points to) and its size.
\<close>

definition object_result :: "bytes \<Rightarrow> object_header \<times> bytes \<times> nat" where
  "object_result object_bytes =
     (let header = decode_header (take OBJECT_HEADER_SIZE object_bytes);
          size = unat (h_payload_size header)
      in (header, take size (drop OBJECT_HEADER_SIZE object_bytes), size))"

definition object_store_get ::
    "'d object_store \<Rightarrow> object_id \<Rightarrow> ('d object_store \<times> (object_header \<times> bytes \<times> nat) option) option" where
  "object_store_get s i =
     (if object_store_requires_recovery s \<or> object_id_is_zero i then Some (s, None)
      else case object_table_find (st_table s) i of
        None \<Rightarrow> Some (s, None)
      | Some entry \<Rightarrow>
          (case cache_find s i (e_version entry) of
             Some k \<Rightarrow>
               Some (s\<lparr>st_cache_clock := st_cache_clock s + 1,
                       st_cache_slots := (st_cache_slots s)
                         [k := (st_cache_slots s ! k)\<lparr>cs_last_access := st_cache_clock s + 1\<rparr>]\<rparr>,
                     Some (object_result (drop (cs_offset (st_cache_slots s ! k)) (st_arena_buffer s))))
           | None \<Rightarrow>
               if e_sector_count entry = 0 \<or>
                  e_first_sector entry < OBJECT_STORE_FIRST_ALLOCATABLE_SECTOR \<or>
                  e_first_sector entry \<ge> sector_count s \<or>
                  e_sector_count entry > sector_count s - e_first_sector entry \<or>
                  unat (e_sector_count entry) > st_cache_capacity s div OBJECT_STORE_SECTOR_SIZE
               then Some (s, None)
               else
                 let object_byte_count = unat (e_sector_count entry) * OBJECT_STORE_SECTOR_SIZE in
                 case read_object s (e_first_sector entry) 0 (unat (e_sector_count entry)) of
                   (s1, False) \<Rightarrow> Some (s1, None)
                 | (s1, True) \<Rightarrow>
                     if \<not> object_header_validate (Some (st_cache_buffer s1)) object_byte_count then Some (s1, None)
                     else let header = decode_header (take OBJECT_HEADER_SIZE (st_cache_buffer s1)) in
                       if \<not> object_id_equal (h_id header) i \<or> h_version header \<noteq> e_version entry then Some (s1, None)
                       else case cache_insert s1 i (e_version entry) (st_cache_buffer s1) object_byte_count of
                         None \<Rightarrow> None
                       | Some (s2, None) \<Rightarrow> Some (s2, Some (object_result (st_cache_buffer s2)))
                       | Some (s2, Some offset) \<Rightarrow>
                           Some (s2, Some (object_result (drop offset (st_arena_buffer s2))))))"

section \<open>Deletion and snapshots\<close>

definition object_store_delete :: "'d object_store \<Rightarrow> object_id \<Rightarrow> 'd object_store \<times> bool" where
  "object_store_delete s i =
     (if object_store_requires_recovery s \<or> object_id_is_zero i \<or> st_current_generation s = UINT64_MAX
      then (s, False)
      else if object_table_find (st_table s) i = None then (s, False)
      else case object_table_remove (candidate_table s) i of
        None \<Rightarrow> (s, False)
      | Some candidate \<Rightarrow>
          let count = of_nat (t_count candidate) :: u64 in
          (case (if count \<noteq> 0 then bitmap_allocate s count else Some (s, 0)) of
             None \<Rightarrow> (s, False)
           | Some (s1, table_sector) \<Rightarrow>
               let s2 = (if count \<noteq> 0 then raise_next_sector s1 (table_sector + count) else s1);
                   release = (\<lambda>s. if count \<noteq> 0 then bitmap_clear_range s table_sector count else s)
               in case write_superblock s2 of
                 (s3, False) \<Rightarrow> (release s3, False)
               | (s3, True) \<Rightarrow>
                   (case (if count \<noteq> 0 then write_table_generation s3 candidate table_sector else (s3, True)) of
                      (s4, False) \<Rightarrow> (release s4, False)
                    | (s4, True) \<Rightarrow>
                        (case publish_table s4 candidate table_sector count of
                           (s5, False) \<Rightarrow> (s5, False)
                         | (s5, True) \<Rightarrow> (cache_remove_id s5 i, True)))))"

definition free_snapshot_slot :: "'d object_store \<Rightarrow> nat option" where
  "free_snapshot_slot s =
     List.find (\<lambda>k. snap_id (st_snapshots s ! k) = 0) [0..<length (st_snapshots s)]"

definition object_store_snapshot_create :: "'d object_store \<Rightarrow> 'd object_store \<times> u64 option" where
  "object_store_snapshot_create s =
     (if object_store_requires_recovery s \<or> st_current_generation s = UINT64_MAX \<or>
         st_current_table_sector s < OBJECT_STORE_FIRST_ALLOCATABLE_SECTOR \<or> t_count (st_table s) = 0
      then (s, None)
      else let snapshot_id = st_current_generation s + 1 in
        if list_ex (\<lambda>x. snap_id x = snapshot_id) (st_snapshots s) then (s, None)
        else case free_snapshot_slot s of
          None \<Rightarrow> (s, None)
        | Some k \<Rightarrow>
            let s1 = s\<lparr>st_snapshots := (st_snapshots s)
                         [k := \<lparr>snap_id = snapshot_id, snap_table_sector = st_current_table_sector s,
                                snap_table_count = of_nat (t_count (st_table s))\<rparr>],
                       st_current_generation := snapshot_id\<rparr>
            in case write_superblock s1 of
              (s2, False) \<Rightarrow> (s2\<lparr>st_snapshots := st_snapshots s,
                                 st_current_generation := st_current_generation s\<rparr>, None)
            | (s2, True) \<Rightarrow> (s2, Some snapshot_id))"

definition find_snapshot :: "'d object_store \<Rightarrow> u64 \<Rightarrow> nat option" where
  "find_snapshot s snapshot_id =
     List.find (\<lambda>k. snap_id (st_snapshots s ! k) = snapshot_id) [0..<length (st_snapshots s)]"

definition object_store_snapshot_rollback :: "'d object_store \<Rightarrow> u64 \<Rightarrow> 'd object_store \<times> bool" where
  "object_store_snapshot_rollback s snapshot_id =
     (if object_store_requires_recovery s \<or> snapshot_id = 0 \<or> st_current_generation s = UINT64_MAX
      then (s, False)
      else case find_snapshot s snapshot_id of
        None \<Rightarrow> (s, False)
      | Some k \<Rightarrow>
          let table_sector = snap_table_sector (st_snapshots s ! k);
              table_count = snap_table_count (st_snapshots s ! k)
          in if table_sector < OBJECT_STORE_FIRST_ALLOCATABLE_SECTOR \<or> table_count = 0 \<or>
                unat table_count > st_table_capacity s then (s, False)
             else case read_table_generation s (object_table_init (st_scratch_entries s) (st_table_capacity s))
                         table_sector (unat table_count) of
               (s1, candidate, False) \<Rightarrow> (s1, False)
             | (s1, candidate, True) \<Rightarrow> publish_table s1 candidate table_sector table_count)"

definition object_store_snapshot_discard :: "'d object_store \<Rightarrow> u64 \<Rightarrow> 'd object_store \<times> bool" where
  "object_store_snapshot_discard s snapshot_id =
     (if object_store_requires_recovery s \<or> snapshot_id = 0 then (s, False)
      else case find_snapshot s snapshot_id of
        None \<Rightarrow> (s, False)
      | Some k \<Rightarrow>
          (case write_superblock (s\<lparr>st_snapshots := (st_snapshots s)[k := zero_snapshot]\<rparr>) of
             (s1, False) \<Rightarrow>
               (s1\<lparr>st_snapshots := (st_snapshots s1)[k := st_snapshots s ! k]\<rparr>, False)
           | (s1, True) \<Rightarrow> (s1, True)))"

definition object_store_collect :: "'d object_store \<Rightarrow> 'd object_store \<times> bool" where
  "object_store_collect s =
     (if object_store_requires_recovery s then (s, False) else rebuild_bitmap s)"

text \<open>
  The scan of \<open>object_store_snapshot_prune\<close>: the number of snapshots in use and, if there
  is one, the oldest.
\<close>

definition scan_snapshots :: "'d object_store \<Rightarrow> nat \<times> u64" where
  "scan_snapshots s =
     foldl (\<lambda>(used, oldest_id) x.
              if snap_id x = 0 then (used, oldest_id)
              else (used + 1, if oldest_id = 0 \<or> snap_id x < oldest_id then snap_id x else oldest_id))
           (0, 0) (st_snapshots s)"

lemma write_superblock_snapshots [simp]: "st_snapshots (fst (write_superblock s)) = st_snapshots s"
  by (auto simp: write_superblock_def write_and_flush_def store_write_def store_flush_def Let_def
      split: prod.splits bool.splits)

lemma filter_update_less:
  "k < length xs \<Longrightarrow> P (xs ! k) \<Longrightarrow> \<not> P y \<Longrightarrow> length (filter P (xs[k := y])) < length (filter P xs)"
  by (induction xs arbitrary: k) (auto simp: nth_Cons split: nat.splits)

lemma discard_decreases:
  assumes "object_store_snapshot_discard s i = (s', True)"
  shows "length (filter (\<lambda>x. snap_id x \<noteq> 0) (st_snapshots s')) <
    length (filter (\<lambda>x. snap_id x \<noteq> 0) (st_snapshots s))"
proof -
  from assms obtain k where k: "find_snapshot s i = Some k" "i \<noteq> 0"
    "write_superblock (s\<lparr>st_snapshots := (st_snapshots s)[k := zero_snapshot]\<rparr>) = (s', True)"
    by (auto simp: object_store_snapshot_discard_def split: if_splits option.splits prod.splits bool.splits)
  from find_upt_Some(1,2) [OF k(1) [unfolded find_snapshot_def]] k(2)
  have *: "k < length (st_snapshots s)" "snap_id (st_snapshots s ! k) \<noteq> 0" by auto
  have "st_snapshots s' = (st_snapshots s)[k := zero_snapshot]"
    using write_superblock_snapshots [of "s\<lparr>st_snapshots := (st_snapshots s)[k := zero_snapshot]\<rparr>"] k(3) by simp
  then show ?thesis using filter_update_less [OF *(1), of "\<lambda>x. snap_id x \<noteq> 0" zero_snapshot] *(2)
    by (simp add: zero_snapshot_def)
qed

function prune_loop :: "'d object_store \<Rightarrow> nat \<Rightarrow> 'd object_store \<times> bool" where
  "prune_loop s keep =
     (case scan_snapshots s of
        (used, oldest_id) \<Rightarrow>
          if used \<le> keep \<or> oldest_id = 0 then (s, True)
          else case object_store_snapshot_discard s oldest_id of
            (s1, False) \<Rightarrow> (s1, False) | (s1, True) \<Rightarrow> prune_loop s1 keep)"
  by pat_completeness auto
termination
proof (relation "measure (\<lambda>(s, keep). length (filter (\<lambda>x. snap_id x \<noteq> 0) (st_snapshots s)))")
qed (auto dest: discard_decreases [OF sym] discard_decreases)

declare prune_loop.simps [simp del]

definition object_store_snapshot_prune :: "'d object_store \<Rightarrow> nat \<Rightarrow> 'd object_store \<times> bool" where
  "object_store_snapshot_prune s keep =
     (if object_store_requires_recovery s \<or> keep > OBJECT_STORE_SNAPSHOT_LIMIT then (s, False)
      else case prune_loop s keep of
        (s1, False) \<Rightarrow> (s1, False) | (s1, True) \<Rightarrow> object_store_collect s1)"

end
