(* ===== verification/Store_Image.thy ===== *)
theory Store_Image
  imports Object_Store
begin

text \<open>
  What a disk image means: the table a mount recovers from it and the bytes of the objects the
  table names, as functions of the contents of the sectors alone. Below them, the facts that
  what the store writes is read back: superblocks, table records, log records and objects.
\<close>

type_synonym image = "u64 \<Rightarrow> bytes"

section \<open>The table an image holds\<close>

definition image_entries :: "image \<Rightarrow> u64 \<Rightarrow> nat \<Rightarrow> object_table_entry list" where
  "image_entries img first_sector count =
     map (\<lambda>i. te_entry (decode_table_entry (img (first_sector + of_nat i)))) [0..<count]"

definition read_generation :: "image \<Rightarrow> u64 \<Rightarrow> nat \<Rightarrow> u64 \<Rightarrow> nat \<Rightarrow> object_table_entry list option" where
  "read_generation img n cap first_sector count =
     (if count > cap \<or> count \<noteq> 0 \<and> (first_sector < 3 \<or> unat first_sector + count > unat n) then None
      else if list_all (\<lambda>i. table_entry_is_valid (decode_table_entry (img (first_sector + of_nat i)))) [0..<count] \<and>
              ids_sorted (image_entries img first_sector count)
      then Some (image_entries img first_sector count) else None)"

definition image_root :: "image \<Rightarrow> nat \<Rightarrow> disk_superblock \<Rightarrow> (u64 \<times> u64) option" where
  "image_root img cap sb =
     (if sector_is_zero (img 2) then Some (sb_current_table_sector sb, sb_current_table_count sb)
      else let r = decode_wal (img 2) in
        if \<not> object_wal_validate (Some (img 2)) OBJECT_STORE_SECTOR_SIZE \<or>
           unat (wr_table_count r) > cap \<or> wr_table_count r = 0 \<and> wr_table_sector r \<noteq> 0 \<or>
           wr_table_count r \<noteq> 0 \<and>
             (wr_table_sector r < 3 \<or> wr_table_sector r > sb_next_sector sb \<or>
              wr_table_count r > sb_next_sector sb - wr_table_sector r)
        then None else Some (wr_table_sector r, wr_table_count r))"

definition snapshots_readable :: "image \<Rightarrow> u64 \<Rightarrow> nat \<Rightarrow> disk_superblock \<Rightarrow> bool" where
  "snapshots_readable img n cap sb \<longleftrightarrow>
     (\<forall>x\<in>set (sb_snapshots sb). ds_id x \<noteq> 0 \<longrightarrow>
        read_generation img n cap (ds_table_sector x) (unat (ds_table_count x)) \<noteq> None)"

definition recover_image :: "image \<Rightarrow> u64 \<Rightarrow> nat \<Rightarrow> object_table_entry list option" where
  "recover_image img n cap =
     (case choose_superblock (decode_superblock (img 0)) (decode_superblock (img 1)) n cap of
        None \<Rightarrow> None
      | Some (sb, _) \<Rightarrow>
          (case image_root img cap sb of
             None \<Rightarrow> None
           | Some (ts, tc) \<Rightarrow>
               if snapshots_readable img n cap sb then read_generation img n cap ts (unat tc) else None))"

text \<open>The bytes of an object, as its sectors in order.\<close>

definition image_object :: "image \<Rightarrow> object_table_entry \<Rightarrow> bytes" where
  "image_object img e =
     concat (map (\<lambda>i. img (e_first_sector e + of_nat i)) [0..<unat (e_sector_count e)])"

section \<open>Table records are read back\<close>

definition record_bytes :: "object_table_entry \<Rightarrow> bytes" where
  "record_bytes e = encode_table_entry (table_record e)"

lemma decode_record_bytes [simp]: "decode_table_entry (record_bytes e) = table_record e"
  unfolding record_bytes_def
  by (rule table_entry_codec.dec_enc) (simp add: table_record_def table_entry_wf_def)

lemma te_entry_table_record [simp]: "te_entry (table_record e) = e"
  by (simp add: table_record_def)

lemma table_record_valid [simp]: "table_entry_is_valid (table_record e) \<longleftrightarrow> entry_ok e"
  by (auto simp: table_entry_is_valid_def table_record_def entry_ok_def Let_def table_entry_checksum_seals)

lemma read_generation_written:
  assumes "length es \<le> cap" "ids_sorted es" "list_all entry_ok es"
    "es \<noteq> [] \<Longrightarrow> 3 \<le> ts \<and> unat ts + length es \<le> unat n"
    "\<And>i. i < length es \<Longrightarrow> img (ts + of_nat i) = record_bytes (es ! i)"
  shows "read_generation img n cap ts (length es) = Some es"
proof -
  have es: "image_entries img ts (length es) = es"
    by (rule nth_equalityI) (simp_all add: image_entries_def assms(5))
  have "list_all (\<lambda>i. table_entry_is_valid (decode_table_entry (img (ts + of_nat i)))) [0..<length es]"
    using assms(3,5) by (simp add: list_all_iff)
  then show ?thesis using assms(1,2,4) es by (auto simp: read_generation_def)
qed

section \<open>Superblocks are read back\<close>

lemma superblock_from_store_wf:
  "length (st_snapshots s) = OBJECT_STORE_SNAPSHOT_LIMIT \<Longrightarrow> superblock_wf (superblock_from_store s q)"
  by (simp add: superblock_from_store_def superblock_wf_def)

lemma superblock_from_store_fields [simp]:
  "sb_sequence (superblock_from_store s q) = q"
  "sb_next_sector (superblock_from_store s q) = st_next_sector s"
  "sb_current_table_sector (superblock_from_store s q) = st_current_table_sector s"
  "sb_current_table_count (superblock_from_store s q) = of_nat (t_count (st_table s))"
  "sb_current_generation (superblock_from_store s q) = st_current_generation s"
  "sb_snapshots (superblock_from_store s q) = map (\<lambda>x. \<lparr>ds_id = snap_id x, ds_table_sector = snap_table_sector x,
      ds_table_count = snap_table_count x\<rparr>) (st_snapshots s)"
  by (simp_all add: superblock_from_store_def)

lemma superblock_from_store_valid:
  assumes "st_table_capacity s = cap" "cap < 2 ^ 64" "t_count (st_table s) \<le> cap"
    "3 \<le> st_next_sector s" "st_next_sector s \<le> n"
    "st_current_table_sector s = 0 \<and> t_count (st_table s) = 0 \<or>
     3 \<le> st_current_table_sector s \<and> unat (st_current_table_sector s) + t_count (st_table s) \<le> unat (st_next_sector s)"
  shows "superblock_is_valid (superblock_from_store s q) n cap"
proof -
  have c: "unat (of_nat cap :: u64) = cap" "unat (of_nat (t_count (st_table s)) :: u64) = t_count (st_table s)"
    using assms(2,3) by (simp_all add: unat_of_nat64)
  have "st_current_table_sector s \<noteq> 0 \<Longrightarrow>
      \<not> (st_current_table_sector s < 3 \<or> st_current_table_sector s > st_next_sector s \<or>
         of_nat (t_count (st_table s)) > st_next_sector s - st_current_table_sector s)"
  proof -
    assume "st_current_table_sector s \<noteq> 0"
    with assms(6) have a: "3 \<le> st_current_table_sector s"
      "unat (st_current_table_sector s) + t_count (st_table s) \<le> unat (st_next_sector s)" by auto
    then have le: "st_current_table_sector s \<le> st_next_sector s" by (simp add: word_le_nat_alt)
    then have "unat (st_next_sector s - st_current_table_sector s) =
        unat (st_next_sector s) - unat (st_current_table_sector s)" by (simp add: unat_sub)
    then have "\<not> of_nat (t_count (st_table s)) > st_next_sector s - st_current_table_sector s"
      using a(2) c(2) by (simp add: word_less_nat_alt)
    then show ?thesis using a(1) le by (simp add: not_less)
  qed
  moreover have "snd (superblock_checksum (superblock_from_store s q)) = sb_checksum (superblock_from_store s q)"
    unfolding superblock_from_store_def by (rule superblock_checksum_seals)
  ultimately show ?thesis
    using assms c unfolding superblock_is_valid_def
    by (auto simp: superblock_from_store_def Let_def)
qed

section \<open>Log records are read back\<close>

lemma wal_root_wf: "wal_wf (wal_root ts tc g)"
  by (simp add: wal_root_def wal_wf_def Let_def)

lemma wal_root_fields [simp]:
  "wr_table_sector (wal_root ts tc g) = ts" "wr_table_count (wal_root ts tc g) = tc"
  "wr_generation (wal_root ts tc g) = g"
  by (simp_all add: wal_root_def Let_def)

lemma decode_wal_root [simp]: "decode_wal (encode_wal (wal_root ts tc g)) = wal_root ts tc g"
  by (rule wal_codec.dec_enc) (rule wal_root_wf)

lemma wal_root_validates:
  "object_wal_validate (Some (encode_wal (wal_root ts tc g))) OBJECT_STORE_SECTOR_SIZE \<longleftrightarrow>
     (tc = 0 \<longleftrightarrow> ts = 0) \<and> g \<noteq> 0"
proof -
  have l: "length (encode_wal (wal_root ts tc g)) = OBJECT_STORE_SECTOR_SIZE"
    by (rule wal_codec.enc_length) (rule wal_root_wf)
  have "wr_checksum (wal_root ts tc g) = crc32c (encode_wal ((wal_root ts tc g)\<lparr>wr_checksum := 0\<rparr>))"
  proof -
    have "length (encode_wal ((wal_root ts tc g)\<lparr>wr_checksum := 0\<rparr>)) = 512"
      by (rule wal_codec.enc_length) (simp add: wal_root_def wal_wf_def Let_def)
    moreover have "wr_checksum (wal_root ts tc g) =
        object_crc32c (Some (encode_wal ((wal_root ts tc g)\<lparr>wr_checksum := 0\<rparr>))) OBJECT_STORE_SECTOR_SIZE"
      by (simp add: wal_root_def Let_def)
    ultimately show ?thesis by (simp add: object_crc32c_def)
  qed
  then show ?thesis
    unfolding object_wal_validate_iff [OF l] decode_wal_root by (auto simp: Let_def) (auto simp: wal_root_def Let_def)
qed

lemma le_word_zeros: "le_word (replicate k 0) = 0"
  by (induction k) simp_all

lemma wal_root_not_zero: "\<not> sector_is_zero (encode_wal (wal_root ts tc g))"
proof
  assume z: "sector_is_zero (encode_wal (wal_root ts tc g))"
  have l: "length (encode_wal (wal_root ts tc g)) = OBJECT_STORE_SECTOR_SIZE"
    by (rule wal_codec.enc_length) (rule wal_root_wf)
  have "encode_wal (wal_root ts tc g) = replicate 512 0"
    using z l by (intro nth_equalityI) (auto simp: sector_is_zero_def list_all_iff)
  then have "bslice 0 8 (encode_wal (wal_root ts tc g)) = bslice 0 8 (replicate 512 0)" by simp
  then have "le_bytes 8 (wr_magic (wal_root ts tc g)) = replicate 8 (0 :: u8)"
    by (simp add: encode_wal_def) (simp add: bslice_def)
  then have "(le_word (le_bytes 8 (wr_magic (wal_root ts tc g))) :: u64) = le_word (replicate 8 0)"
    by (rule arg_cong)
  then have "wr_magic (wal_root ts tc g) = 0" by (simp add: le_word_zeros)
  then show False by (simp add: wal_root_def Let_def OBJECT_WAL_MAGIC_def)
qed

lemma empty_sector_zero [simp]: "sector_is_zero empty_sector"
  by (simp add: sector_is_zero_def empty_sector_def list_all_iff)

section \<open>Objects are read back\<close>

definition put_payload :: "object_store_put_request \<Rightarrow> bytes" where
  "put_payload r = (case rq_payload r of None \<Rightarrow> [] | Some b \<Rightarrow> take (rq_payload_size r) b)"

text \<open>The payload pointer of a request leads to at least as many bytes as it announces.\<close>

definition request_backed :: "object_store_put_request \<Rightarrow> bool" where
  "request_backed r \<longleftrightarrow> (case rq_payload r of None \<Rightarrow> True | Some b \<Rightarrow> rq_payload_size r \<le> length b)"

definition final_header :: "object_store_staged_put \<Rightarrow> object_header" where
  "final_header p = (put_header p)\<lparr>h_payload_crc32c := crc32c (put_payload (sp_request p))\<rparr>"

definition put_bytes :: "object_store_staged_put \<Rightarrow> bytes" where
  "put_bytes p = encode_header (final_header p) @ put_payload (sp_request p)"

definition staged_ok :: "'d object_store \<Rightarrow> object_store_staged_put \<Rightarrow> bool" where
  "staged_ok s p \<longleftrightarrow> object_store_put_request_is_valid s (sp_request p) \<and> request_backed (sp_request p) \<and>
     sp_version p \<noteq> 0 \<and> sp_object_byte_count p = OBJECT_HEADER_SIZE + rq_payload_size (sp_request p) \<and>
     sp_object_byte_count p \<le> unat (sp_sector_count p) * OBJECT_STORE_SECTOR_SIZE \<and>
     unat (sp_sector_count p) * OBJECT_STORE_SECTOR_SIZE < sp_object_byte_count p + OBJECT_STORE_SECTOR_SIZE \<and>
     sp_sector_count p \<noteq> 0"

lemma length_put_payload:
  "object_store_put_request_is_valid s r \<Longrightarrow> request_backed r \<Longrightarrow> length (put_payload r) = rq_payload_size r"
  by (auto simp: put_payload_def request_backed_def object_store_put_request_is_valid_def
      split: option.splits if_splits)

lemma length_encode_header [simp]: "length (encode_header h) = 128"
  by (rule header_codec.enc_length) simp

lemma decode_encode_header [simp]: "decode_header (encode_header h) = h"
  by (rule header_codec.dec_enc) simp

lemma length_put_bytes: "staged_ok s p \<Longrightarrow> length (put_bytes p) = sp_object_byte_count p"
  using length_put_payload [of s "sp_request p"] by (simp add: put_bytes_def staged_ok_def)

lemma memcpy_at_0: "memcpy_at dest 0 src = src @ drop (length src) dest"
  by (simp add: memcpy_at_def)

lemma prepare_result:
  assumes st: "staged_ok s p" and buf: "st_cache_capacity s \<le> length (st_cache_buffer s)"
  obtains rest where
    "object_store_prepare_put_bytes s p = (s\<lparr>st_cache_buffer := put_bytes p @ rest\<rparr>, True)"
    "length (put_bytes p @ rest) = length (st_cache_buffer s)"
proof -
  let ?r = "sp_request p" and ?obc = "sp_object_byte_count p"
  have v: "object_store_put_request_is_valid s ?r" "request_backed ?r" "?obc = 128 + rq_payload_size ?r" "sp_version p \<noteq> 0"
    using st by (auto simp: staged_ok_def)
  then have cap: "?obc \<le> st_cache_capacity s" "rq_payload_size ?r < 2 ^ 64"
    "\<not> object_id_is_zero (rq_id ?r)" "\<not> object_id_is_zero (rq_type_id ?r)"
    by (auto simp: object_store_put_request_is_valid_def split: if_splits)
  note lp = length_put_payload [OF v(1,2)]
  define rest where "rest = drop ?obc (st_cache_buffer s)"
  have l: "?obc \<le> length (st_cache_buffer s)" using cap buf by simp
  define b1 where "b1 = memcpy_at (st_cache_buffer s) 0 (replicate ?obc 0)"
  have b1: "b1 = replicate 128 0 @ replicate (rq_payload_size ?r) 0 @ rest"
    by (simp add: b1_def memcpy_at_0 rest_def v(3) replicate_add)
  have b2: "memcpy_at b1 0 (encode_header h) = encode_header h @ replicate (rq_payload_size ?r) 0 @ rest" for h
    by (simp add: b1 memcpy_at_0)
  have b3: "(if rq_payload_size ?r \<noteq> 0
      then memcpy_at (encode_header h @ replicate (rq_payload_size ?r) 0 @ rest) 128 (take (rq_payload_size ?r) (the (rq_payload ?r)))
      else encode_header h @ replicate (rq_payload_size ?r) 0 @ rest) = encode_header h @ put_payload ?r @ rest" for h
  proof (cases "rq_payload_size ?r = 0")
    case True
    then show ?thesis using lp by simp
  next
    case False
    then obtain b where b: "rq_payload ?r = Some b"
      using v(1) by (auto simp: object_store_put_request_is_valid_def split: if_splits)
    then have "take (rq_payload_size ?r) (the (rq_payload ?r)) = put_payload ?r" by (simp add: put_payload_def)
    then show ?thesis using False lp by (simp add: memcpy_at_def)
  qed
  have crc: "object_crc32c (Some (drop 128 (encode_header h @ put_payload ?r @ rest))) (rq_payload_size ?r) = crc32c (put_payload ?r)" for h
    using lp by (simp add: object_crc32c_def)
  have b4: "memcpy_at (encode_header h @ put_payload ?r @ rest) 0 (encode_header h') = encode_header h' @ put_payload ?r @ rest" for h h'
    by (simp add: memcpy_at_0)
  have len: "length (put_bytes p @ rest) = length (st_cache_buffer s)"
    using l length_put_bytes [OF st] by (simp add: rest_def)
  have valid: "object_header_validate (Some (put_bytes p @ rest)) ?obc"
  proof -
    have "take 128 (put_bytes p @ rest) = encode_header (final_header p)" by (simp add: put_bytes_def)
    then show ?thesis
      using len l v cap lp
      by (subst object_header_validate_iff)
        (simp_all add: Let_def final_header_def put_header_def unat_of_nat64, simp add: put_bytes_def)
  qed
  have "object_store_prepare_put_bytes s p = (s\<lparr>st_cache_buffer := put_bytes p @ rest\<rparr>, True)"
    unfolding object_store_prepare_put_bytes_def Let_def b1_def [symmetric] b2 b3 crc b4
    using v cap valid by (auto simp: put_bytes_def final_header_def)
  then show thesis using that len by blast
qed

lemma sector_chunks_props:
  "(\<forall>c\<in>set (sector_chunks bs). length c = OBJECT_STORE_SECTOR_SIZE) \<and>
   (\<exists>z. concat (sector_chunks bs) = bs @ replicate z 0 \<and> z < OBJECT_STORE_SECTOR_SIZE)"
proof (induction bs rule: sector_chunks.induct)
  case (1 bs)
  show ?case
  proof (cases "bs = []")
    case True
    then show ?thesis by (simp add: sector_chunks.simps)
  next
    case False
    let ?c = "take OBJECT_STORE_SECTOR_SIZE bs @ replicate (OBJECT_STORE_SECTOR_SIZE - length (take OBJECT_STORE_SECTOR_SIZE bs)) (0 :: u8)"
    have st: "sector_chunks bs = ?c # sector_chunks (drop OBJECT_STORE_SECTOR_SIZE bs)"
      using False by (simp add: sector_chunks.simps [of bs] Let_def)
    from "1.IH" [OF False] obtain z where IH: "\<forall>c\<in>set (sector_chunks (drop OBJECT_STORE_SECTOR_SIZE bs)). length c = OBJECT_STORE_SECTOR_SIZE"
      "concat (sector_chunks (drop OBJECT_STORE_SECTOR_SIZE bs)) = drop OBJECT_STORE_SECTOR_SIZE bs @ replicate z 0"
      "z < OBJECT_STORE_SECTOR_SIZE" by blast
    show ?thesis
    proof (cases "length bs < OBJECT_STORE_SECTOR_SIZE")
      case True
      then have "sector_chunks bs = [bs @ replicate (512 - length bs) 0]"
        unfolding st by (simp add: sector_chunks.simps [of "[]"])
      then show ?thesis using True False by (auto intro!: exI [of _ "512 - length bs"])
    next
      case False
      then have st': "sector_chunks bs = take OBJECT_STORE_SECTOR_SIZE bs # sector_chunks (drop OBJECT_STORE_SECTOR_SIZE bs)"
        unfolding st by simp
      have "length (take OBJECT_STORE_SECTOR_SIZE bs) = OBJECT_STORE_SECTOR_SIZE" using False by simp
      then have "\<forall>c\<in>set (sector_chunks bs). length c = OBJECT_STORE_SECTOR_SIZE"
        unfolding st' using IH(1) by (metis set_ConsD)
      moreover have "concat (sector_chunks bs) = bs @ replicate z 0" unfolding st' concat.simps(2) IH(2) by simp
      ultimately show ?thesis using IH(3) by blast
    qed
  qed
qed

lemma concat_fixed: "\<forall>c\<in>set cs. length c = w \<Longrightarrow> length (concat cs) = w * length cs"
  by (induction cs) auto

lemma put_chunks:
  assumes "staged_ok s p"
  shows "length (sector_chunks (put_bytes p)) = unat (sp_sector_count p)"
    "\<exists>z. concat (sector_chunks (put_bytes p)) = put_bytes p @ replicate z 0"
proof -
  obtain z where z: "\<forall>c\<in>set (sector_chunks (put_bytes p)). length c = OBJECT_STORE_SECTOR_SIZE"
    "concat (sector_chunks (put_bytes p)) = put_bytes p @ replicate z 0" "z < OBJECT_STORE_SECTOR_SIZE"
    using sector_chunks_props [of "put_bytes p"] by blast
  from concat_fixed [OF z(1)] z(2) length_put_bytes [OF assms]
  have "sp_object_byte_count p + z = 512 * length (sector_chunks (put_bytes p))" by simp
  then show "length (sector_chunks (put_bytes p)) = unat (sp_sector_count p)"
    using z(3) assms by (simp add: staged_ok_def)
  show "\<exists>z. concat (sector_chunks (put_bytes p)) = put_bytes p @ replicate z 0" using z(2) by blast
qed

definition staged_entry :: "object_store_staged_put \<Rightarrow> object_table_entry" where
  "staged_entry p = \<lparr>e_id = rq_id (sp_request p), e_version = sp_version p,
     e_first_sector = sp_first_sector p, e_sector_count = sp_sector_count p\<rparr>"

lemma image_object_written:
  assumes "staged_ok s p"
    and "\<And>i. i < unat (sp_sector_count p) \<Longrightarrow>
      img (sp_first_sector p + of_nat i) = sector_chunks (put_bytes p) ! i"
  shows "object_result (image_object img (staged_entry p)) =
    (final_header p, put_payload (sp_request p), rq_payload_size (sp_request p))"
    "\<exists>z. image_object img (staged_entry p) = put_bytes p @ replicate z 0"
proof -
  have "map (\<lambda>i. img (e_first_sector (staged_entry p) + of_nat i)) [0..<unat (e_sector_count (staged_entry p))] =
      sector_chunks (put_bytes p)"
    by (rule nth_equalityI) (use put_chunks(1) [OF assms(1)] assms(2) in \<open>simp_all add: staged_entry_def\<close>)
  with put_chunks(2) [OF assms(1)] show *: "\<exists>z. image_object img (staged_entry p) = put_bytes p @ replicate z 0"
    by (simp add: image_object_def)
  have "rq_payload_size (sp_request p) < 2 ^ 64"
    using assms(1) by (auto simp: staged_ok_def object_store_put_request_is_valid_def split: if_splits)
  moreover have "length (put_payload (sp_request p)) = rq_payload_size (sp_request p)"
    using assms(1) length_put_payload by (auto simp: staged_ok_def)
  ultimately show "object_result (image_object img (staged_entry p)) =
      (final_header p, put_payload (sp_request p), rq_payload_size (sp_request p))"
    using * by (auto simp: object_result_def Let_def put_bytes_def final_header_def put_header_def unat_of_nat64)
qed

end
