(* ===== verification/Store_Device.thy ===== *)
theory Store_Device
  imports Store_Image
begin

text \<open>
  The writing operations of the object store over any device that keeps the contract
  \<open>block_device\<close>: which sectors each of them may change, with which contents, and what is
  durable once it reported success.
\<close>

abbreviation device :: "'d object_store \<Rightarrow> 'd" where
  "device s \<equiv> io_context (st_io s)"

definition with_device :: "'d object_store \<Rightarrow> 'd \<Rightarrow> 'd object_store" where
  "with_device s d = s\<lparr>st_io := (st_io s)\<lparr>io_context := d\<rparr>\<rparr>"

definition wired :: "'d read_callback \<Rightarrow> 'd write_callback \<Rightarrow> 'd flush_callback \<Rightarrow> 'd object_store \<Rightarrow> bool" where
  "wired read_s write_s flush_s s \<longleftrightarrow> io_read_sector (st_io s) = Some read_s \<and>
     io_write_sector (st_io s) = Some write_s \<and> io_flush (st_io s) = Some flush_s"

lemma with_device_fields [simp]:
  "device (with_device s d) = d" "sector_count (with_device s d) = sector_count s"
  "st_table (with_device s d) = st_table s" "st_scratch_entries (with_device s d) = st_scratch_entries s"
  "st_table_capacity (with_device s d) = st_table_capacity s"
  "st_cache_buffer (with_device s d) = st_cache_buffer s" "st_cache_capacity (with_device s d) = st_cache_capacity s"
  "st_bitmap_buffer (with_device s d) = st_bitmap_buffer s" "st_bitmap_capacity (with_device s d) = st_bitmap_capacity s"
  "st_next_sector (with_device s d) = st_next_sector s"
  "st_current_table_sector (with_device s d) = st_current_table_sector s"
  "st_current_generation (with_device s d) = st_current_generation s"
  "st_superblock_sequence (with_device s d) = st_superblock_sequence s"
  "st_active_superblock_sector (with_device s d) = st_active_superblock_sector s"
  "st_recovery_required (with_device s d) = st_recovery_required s"
  "st_snapshots (with_device s d) = st_snapshots s"
  "with_device (with_device s d) d' = with_device s d'"
  "wired r w f (with_device s d) = wired r w f s"
  by (simp_all add: with_device_def wired_def)

lemma with_device_self [simp]: "with_device s (device s) = s"
  by (simp add: with_device_def)

text \<open>The sectors of a run of writes and the contents written there.\<close>

definition run_contents :: "u64 \<Rightarrow> bytes list \<Rightarrow> u64 \<Rightarrow> bytes set" where
  "run_contents f bs t = {b. \<exists>i<length bs. t = f + of_nat i \<and> b = bs ! i}"

lemma run_contents_Nil [simp]: "run_contents f [] t = {}"
  by (simp add: run_contents_def)

lemma run_contents_Cons: "run_contents f (b # bs) t = (if t = f then {b} else {}) \<union> run_contents (f + 1) bs t"
proof -
  have shift: "f + 1 + of_nat i = f + of_nat (Suc i)" for i by simp
  show ?thesis
    unfolding run_contents_def shift by (auto simp: less_Suc_eq_0_disj; force)
qed

lemma run_contents_extent:
  "length bs = unat c \<Longrightarrow> t \<notin> extent f c \<Longrightarrow> run_contents f bs t = {}"
  by (auto simp: run_contents_def extent_def)

context block_device
begin

text \<open>
  From \<open>d\<close> to \<open>d'\<close> nothing but contents in \<open>W t\<close> was written to sector
  \<open>t\<close>.
\<close>

definition evolves :: "'d \<Rightarrow> (u64 \<Rightarrow> bytes set) \<Rightarrow> 'd \<Rightarrow> bool" where
  "evolves d W d' \<longleftrightarrow> ok d' \<and> (\<forall>t. survivors d' t \<subseteq> survivors d t \<union> W t) \<and>
     (\<forall>t. visible d' t \<in> insert (visible d t) (W t))"

definition settled :: "'d \<Rightarrow> bool" where
  "settled d \<longleftrightarrow> (\<forall>t. survivors d t = {visible d t})"

lemma evolves_refl: "ok d \<Longrightarrow> evolves d W d"
  by (auto simp: evolves_def)

lemma evolves_survivors: "evolves d W e \<Longrightarrow> survivors e t \<subseteq> survivors d t \<union> W t"
  and evolves_visible_in: "evolves d W e \<Longrightarrow> visible e t \<in> insert (visible d t) (W t)"
  and evolves_ok: "evolves d W e \<Longrightarrow> ok e"
  by (simp_all add: evolves_def)

lemma evolvesI:
  "ok e \<Longrightarrow> (\<And>t. survivors e t \<subseteq> survivors d t \<union> W t) \<Longrightarrow>
   (\<And>t. visible e t \<in> insert (visible d t) (W t)) \<Longrightarrow> evolves d W e"
  by (simp add: evolves_def)

lemma evolves_trans:
  assumes "evolves d V e" "evolves e W f" and sub: "\<And>t. V t \<union> W t \<subseteq> X t"
  shows "evolves d X f"
proof (rule evolvesI)
  show "ok f" using evolves_ok [OF assms(2)] .
  show "survivors f t \<subseteq> survivors d t \<union> X t" for t
    using evolves_survivors [OF assms(1), of t] evolves_survivors [OF assms(2), of t] sub [of t] by blast
  show "visible f t \<in> insert (visible d t) (X t)" for t
    using evolves_visible_in [OF assms(1), of t] evolves_visible_in [OF assms(2), of t] sub [of t] by auto
qed

lemma evolves_mono:
  assumes "evolves d V e" and sub: "\<And>t. V t \<subseteq> W t"
  shows "evolves d W e"
proof (rule evolvesI)
  show "ok e" using evolves_ok [OF assms(1)] .
  show "survivors e t \<subseteq> survivors d t \<union> W t" for t
    using evolves_survivors [OF assms(1), of t] sub [of t] by blast
  show "visible e t \<in> insert (visible d t) (W t)" for t
    using evolves_visible_in [OF assms(1), of t] sub [of t] by blast
qed

lemma evolves_durable:
  assumes "evolves d W e" "W t = {}" "survivors d t = {b}"
  shows "survivors e t = {b}"
  using visible_survives [OF evolves_ok [OF assms(1)], of t] evolves_survivors [OF assms(1), of t] assms(2,3)
  by auto

lemma evolves_visible: "evolves d W e \<Longrightarrow> W t = {} \<Longrightarrow> visible e t = visible d t"
  by (auto simp: evolves_def)

lemma write_evolves:
  assumes "ok d" "write_s d x b = (d', r)"
  shows "evolves d (\<lambda>t. if t = x then {b} else {}) d'" "r \<Longrightarrow> visible d' x = b"
  using write_law [OF assms] by (auto simp: evolves_def split: if_splits; blast)+

lemma flush_evolves:
  assumes "ok d" "flush_s d = (d', r)"
  shows "evolves d (\<lambda>t. {}) d'" "visible d' = visible d" "r \<Longrightarrow> settled d'"
  using flush_law [OF assms] by (auto simp: evolves_def settled_def)

lemma store_write_evolves:
  assumes "wired read_s write_s flush_s s" "ok (device s)" "store_write s x b = (s', r)"
  obtains d where "s' = with_device s d" "evolves (device s) (\<lambda>t. if t = x then {b} else {}) d"
    "r \<longrightarrow> visible d x = b"
  using assms write_evolves [OF assms(2)]
  by (auto simp: store_write_def wired_def with_device_def split: prod.splits)

lemma store_flush_evolves:
  assumes "wired read_s write_s flush_s s" "ok (device s)" "store_flush s = (s', r)"
  obtains d where "s' = with_device s d" "evolves (device s) (\<lambda>t. {}) d" "visible d = visible (device s)"
    "r \<longrightarrow> settled d"
  using assms flush_evolves [OF assms(2)]
  by (auto simp: store_flush_def wired_def with_device_def split: prod.splits)

lemma write_sectors_evolves:
  assumes "wired read_s write_s flush_s s" "ok (device s)" "write_sectors s f bs = (s', r)"
    "unat f + length bs \<le> 2 ^ 64"
  shows "\<exists>d. s' = with_device s d \<and> evolves (device s) (run_contents f bs) d \<and>
    (r \<longrightarrow> (\<forall>i<length bs. visible d (f + of_nat i) = bs ! i))"
  using assms
proof (induction bs arbitrary: s f)
  case Nil
  then show ?case by (intro exI [of _ "device s"]) (simp add: evolves_refl)
next
  case (Cons b bs)
  obtain s1 r1 where w: "store_write s f b = (s1, r1)" by force
  from store_write_evolves [OF Cons.prems(1,2) w] obtain d1 where
    d1: "s1 = with_device s d1" "evolves (device s) (\<lambda>t. if t = f then {b} else {}) d1" "r1 \<longrightarrow> visible d1 f = b" .
  show ?case
  proof (cases r1)
    case False
    then have "s' = with_device s d1" "\<not> r" using Cons.prems(3) w d1(1) by auto
    moreover have "evolves (device s) (run_contents f (b # bs)) d1"
      by (rule evolves_mono [OF d1(2)]) (simp add: run_contents_Cons)
    ultimately show ?thesis by auto
  next
    case True
    have ok1: "ok (device s1)" "wired read_s write_s flush_s s1" using d1 Cons.prems(1) evolves_ok by auto
    have rec: "write_sectors s1 (f + 1) bs = (s', r)" using Cons.prems(3) w True by simp
    show ?thesis
    proof (cases bs)
      case Nil
      then have "s' = with_device s d1" using rec d1(1) by simp
      moreover have "evolves (device s) (run_contents f (b # bs)) d1"
        by (rule evolves_mono [OF d1(2)]) (simp add: run_contents_Cons)
      ultimately show ?thesis using d1(3) True Nil by auto
    next
      case (Cons c cs)
      then have "f \<noteq> - 1" using Cons.prems(4) by (auto simp: unsigned_minus_1_eq_mask mask_eq_exp_minus_1)
      then have f1: "unat (f + 1) = Suc (unat f)" using unat_inc [of f] by simp
      from Cons.IH [OF ok1(2,1) rec] f1 Cons.prems(4) obtain d where
        d: "s' = with_device s1 d" "evolves (device s1) (run_contents (f + 1) bs) d"
        "r \<longrightarrow> (\<forall>i<length bs. visible d (f + 1 + of_nat i) = bs ! i)" by auto
      have "evolves (device s) (run_contents f (b # bs)) d"
        by (rule evolves_trans [OF d1(2), of "run_contents (f + 1) bs"])
          (use d(2) d1(1) in \<open>auto simp: run_contents_Cons split: if_splits\<close>)
      moreover have "visible d (f + of_nat i) = (b # bs) ! i" if "r" "i < length (b # bs)" for i
      proof (cases i)
        case 0
        have "f \<noteq> f + 1 + of_nat j" if "j < length bs" for j
        proof
          assume "f = f + 1 + of_nat j"
          then have "(of_nat (Suc j) :: u64) = 0" by (simp add: algebra_simps)
          moreover have "Suc j < 2 ^ 64" using that Cons.prems(4) by simp
          ultimately show False using unat_of_nat64 [of "Suc j"] by (metis unat_0 nat.distinct(1))
        qed
        then have "run_contents (f + 1) bs f = {}" by (auto simp: run_contents_def)
        then have "visible d f = visible d1 f" using d(2) d1(1) evolves_visible by auto
        then show ?thesis using 0 d1(3) True by simp
      next
        case (Suc j)
        then have eq: "f + of_nat i = f + 1 + of_nat j" by simp
        show ?thesis unfolding eq using d(3) that Suc by simp
      qed
      ultimately show ?thesis using d(1) d1(1) by auto
    qed
  qed
qed

lemma write_run_flush:
  assumes s: "wired read_s write_s flush_s s" "ok (device s)" and b: "unat f + length bs \<le> 2 ^ 64"
    and run: "(case write_sectors s f bs of (s1, False) \<Rightarrow> (s1, False) | (s1, True) \<Rightarrow> store_flush s1) = (s', r)"
  obtains d where "s' = with_device s d" "evolves (device s) (run_contents f bs) d"
    "r \<longrightarrow> settled d \<and> (\<forall>i<length bs. visible d (f + of_nat i) = bs ! i)"
proof -
  obtain s1 r1 where w: "write_sectors s f bs = (s1, r1)" by force
  from write_sectors_evolves [OF s w b] obtain d1 where
    d1: "s1 = with_device s d1" "evolves (device s) (run_contents f bs) d1"
    "r1 \<longrightarrow> (\<forall>i<length bs. visible d1 (f + of_nat i) = bs ! i)" by blast
  show thesis
  proof (cases r1)
    case False
    then show thesis using that [of d1] d1 run w by simp
  next
    case True
    have ok1: "wired read_s write_s flush_s s1" "ok (device s1)" using d1 s evolves_ok by auto
    have "store_flush s1 = (s', r)" using run w True by simp
    from store_flush_evolves [OF ok1 this] obtain d where
      d: "s' = with_device s1 d" "evolves (device s1) (\<lambda>t. {}) d" "visible d = visible (device s1)" "r \<longrightarrow> settled d" .
    have "evolves (device s) (run_contents f bs) d"
      by (rule evolves_trans [OF d1(2), of "\<lambda>t. {}"]) (use d(2) d1(1) in auto)
    then show thesis using that [of d] d d1 True by simp
  qed
qed

lemma write_flush_evolves:
  assumes s: "wired read_s write_s flush_s s" "ok (device s)" and w: "write_and_flush s x b = (s', r)"
  obtains d where "s' = with_device s d" "evolves (device s) (\<lambda>t. if t = x then {b} else {}) d"
    "r \<longrightarrow> settled d \<and> visible d x = b"
proof -
  obtain s1 r1 where w1: "store_write s x b = (s1, r1)" by force
  from store_write_evolves [OF s w1] obtain d1 where
    d1: "s1 = with_device s d1" "evolves (device s) (\<lambda>t. if t = x then {b} else {}) d1" "r1 \<longrightarrow> visible d1 x = b" .
  show thesis
  proof (cases r1)
    case False
    then show thesis using that [of d1] d1 w w1 by (simp add: write_and_flush_def)
  next
    case True
    have ok1: "wired read_s write_s flush_s s1" "ok (device s1)" using d1 s evolves_ok by auto
    have "store_flush s1 = (s', r)" using w w1 True by (simp add: write_and_flush_def)
    from store_flush_evolves [OF ok1 this] obtain d where
      d: "s' = with_device s1 d" "evolves (device s1) (\<lambda>t. {}) d" "visible d = visible (device s1)" "r \<longrightarrow> settled d" .
    have "evolves (device s) (\<lambda>t. if t = x then {b} else {}) d"
      by (rule evolves_trans [OF d1(2), of "\<lambda>t. {}"]) (use d(2) d1(1) in auto)
    then show thesis using that [of d] d d1 True by simp
  qed
qed

definition next_superblock :: "'d object_store \<Rightarrow> bytes" where
  "next_superblock s = encode_superblock (superblock_from_store s (st_superblock_sequence s + 1))"

lemma write_superblock_evolves:
  assumes s: "wired read_s write_s flush_s s" "ok (device s)" and w: "write_superblock s = (s', r)"
  obtains d where "evolves (device s) (\<lambda>t. if t = superblock_target s then {next_superblock s} else {}) d"
    "s' = (if r then (with_device s d)\<lparr>st_superblock_sequence := st_superblock_sequence s + 1,
                       st_active_superblock_sector := superblock_target s\<rparr> else with_device s d)"
    "r \<longrightarrow> settled d \<and> visible d (superblock_target s) = next_superblock s"
proof -
  obtain s1 r1 where w1: "write_and_flush s (superblock_target s) (next_superblock s) = (s1, r1)" by force
  from write_flush_evolves [OF s w1] obtain d where
    d: "s1 = with_device s d" "evolves (device s) (\<lambda>t. if t = superblock_target s then {next_superblock s} else {}) d"
    "r1 \<longrightarrow> settled d \<and> visible d (superblock_target s) = next_superblock s" .
  have "r = r1" "s' = (if r1 then s1\<lparr>st_superblock_sequence := st_superblock_sequence s + 1,
      st_active_superblock_sector := superblock_target s\<rparr> else s1)"
    using w w1 by (auto simp: write_superblock_def next_superblock_def Let_def split: bool.splits)
  then show thesis using that [OF d(2)] d by simp
qed

end

end
