(* ===== verification/Store_Invariant.thy ===== *)
theory Store_Invariant
  imports Store_Device
begin

text \<open>
  The invariant of a store and its disk, over the sets \<open>S t\<close> of contents that sector
  \<open>t\<close> may have after a power loss, and what it gives: every image the disk may have after
  a power loss recovers to the table in memory.
\<close>

section \<open>Generations and superblocks\<close>

definition durable_image :: "(u64 \<Rightarrow> bytes set) \<Rightarrow> image" where
  "durable_image S t = the_elem (S t)"

definition object_stored :: "(u64 \<Rightarrow> bytes set) \<Rightarrow> object_table_entry \<Rightarrow> bool" where
  "object_stored S e \<longleftrightarrow> (\<forall>t\<in>extent (e_first_sector e) (e_sector_count e). \<exists>b. S t = {b}) \<and>
     (let obj = image_object (durable_image S) e in
      object_header_validate (Some obj) (length obj) \<and> length obj \<ge> OBJECT_HEADER_SIZE \<and>
      h_id (decode_header (take OBJECT_HEADER_SIZE obj)) = e_id e \<and>
      h_version (decode_header (take OBJECT_HEADER_SIZE obj)) = e_version e)"

definition entry_located :: "u64 \<Rightarrow> u64 set \<Rightarrow> object_table_entry \<Rightarrow> bool" where
  "entry_located n U e \<longleftrightarrow> 3 \<le> e_first_sector e \<and>
     unat (e_first_sector e) + unat (e_sector_count e) \<le> unat n \<and>
     extent (e_first_sector e) (e_sector_count e) \<subseteq> U"

text \<open>
  A table generation that is safely on disk: sorted records in sectors of the protected set
  \<open>U\<close>, with nothing pending on them, and so are the objects they name.
\<close>

definition gen_ok :: "(u64 \<Rightarrow> bytes set) \<Rightarrow> u64 set \<Rightarrow> u64 \<Rightarrow> nat \<Rightarrow> u64 \<Rightarrow> object_table_entry list \<Rightarrow> bool" where
  "gen_ok S U n cap ts es \<longleftrightarrow> length es \<le> cap \<and> ids_sorted es \<and> list_all entry_ok es \<and>
     (es \<noteq> [] \<longrightarrow> 3 \<le> ts \<and> unat ts + length es \<le> unat n) \<and>
     (\<forall>i<length es. ts + of_nat i \<in> U \<and> S (ts + of_nat i) = {record_bytes (es ! i)}) \<and>
     (\<forall>e\<in>set es. entry_located n U e \<and> object_stored S e)"

definition snapshots_ok ::
    "(u64 \<Rightarrow> bytes set) \<Rightarrow> u64 set \<Rightarrow> u64 \<Rightarrow> nat \<Rightarrow> (u64 \<times> u64 \<times> u64) list \<Rightarrow> bool" where
  "snapshots_ok S U n cap xs \<longleftrightarrow> (\<forall>(i, ts, tc)\<in>set xs. i \<noteq> 0 \<longrightarrow>
     (\<exists>es. gen_ok S U n cap ts es \<and> unat tc = length es))"

definition disk_triple :: "disk_snapshot \<Rightarrow> u64 \<times> u64 \<times> u64" where
  "disk_triple x = (ds_id x, ds_table_sector x, ds_table_count x)"

definition snap_triple :: "object_store_snapshot \<Rightarrow> u64 \<times> u64 \<times> u64" where
  "snap_triple x = (snap_id x, snap_table_sector x, snap_table_count x)"

text \<open>A superblock that leads to the generation \<open>ts\<close> of \<open>count\<close> entries.\<close>

definition leads_to ::
    "(u64 \<Rightarrow> bytes set) \<Rightarrow> u64 set \<Rightarrow> u64 \<Rightarrow> nat \<Rightarrow> u64 \<Rightarrow> nat \<Rightarrow> disk_superblock \<Rightarrow> bool" where
  "leads_to S U n cap ts count sb \<longleftrightarrow> superblock_is_valid sb n cap \<and>
     sb_current_table_sector sb = ts \<and> unat (sb_current_table_count sb) = count \<and>
     snapshots_ok S U n cap (map disk_triple (sb_snapshots sb))"

section \<open>The protected sectors stay as they are\<close>

lemma entry_located_range: "entry_located n U e \<Longrightarrow> t \<in> extent (e_first_sector e) (e_sector_count e) \<Longrightarrow> 3 \<le> t"
  using unat_extent [of "e_first_sector e" "e_sector_count e" n t]
  by (auto simp: entry_located_def word_le_nat_alt)

lemma unat_offset:
  assumes "unat (ts :: u64) + m \<le> unat (n :: u64)" "i < m"
  shows "unat (ts + of_nat i) = unat ts + i"
proof -
  have "unat ts + i < 2 ^ 64" using assms unat64_less [of n] by linarith
  then show ?thesis by (simp add: unat_word_ariths unat_of_nat)
qed

lemma gen_range: "gen_ok S U n cap ts es \<Longrightarrow> i < length es \<Longrightarrow> 3 \<le> ts + of_nat i"
  using unat_offset [of ts "length es" n i] by (auto simp: gen_ok_def word_le_nat_alt)

lemma image_object_cong:
  assumes "\<And>t. t \<in> extent (e_first_sector e) (e_sector_count e) \<Longrightarrow> f t = g t"
  shows "image_object f e = image_object g e"
  unfolding image_object_def
  by (rule arg_cong [where f = concat], rule map_cong) (use assms in \<open>auto simp: extent_def\<close>)

lemma object_stored_cong:
  assumes "object_stored S e" "\<And>t. t \<in> extent (e_first_sector e) (e_sector_count e) \<Longrightarrow> S' t = S t"
  shows "object_stored S' e"
proof -
  have "image_object (durable_image S') e = image_object (durable_image S) e"
    by (rule image_object_cong) (simp add: durable_image_def assms(2))
  then show ?thesis using assms by (simp add: object_stored_def)
qed

definition keeps :: "u64 set \<Rightarrow> (u64 \<Rightarrow> bytes set) \<Rightarrow> (u64 \<Rightarrow> bytes set) \<Rightarrow> bool" where
  "keeps U S S' \<longleftrightarrow> (\<forall>t\<in>U. 3 \<le> t \<longrightarrow> (\<forall>b. S t = {b} \<longrightarrow> S' t = {b}))"

lemma keepsD: "keeps U S S' \<Longrightarrow> t \<in> U \<Longrightarrow> 3 \<le> t \<Longrightarrow> S t = {b} \<Longrightarrow> S' t = {b}"
  by (simp add: keeps_def)

lemma keeps_refl [simp]: "keeps U S S"
  by (simp add: keeps_def)

lemma gen_ok_keep:
  assumes g: "gen_ok S U n cap ts es" and k: "keeps U S S'" and "U \<subseteq> U'"
  shows "gen_ok S' U' n cap ts es"
proof -
  have e: "entry_located n U' e \<and> object_stored S' e" if "e \<in> set es" for e
  proof -
    have l: "entry_located n U e" "object_stored S e" using g that by (auto simp: gen_ok_def)
    have "S' t = S t" if t: "t \<in> extent (e_first_sector e) (e_sector_count e)" for t
    proof -
      obtain b where "S t = {b}" using l(2) t by (auto simp: object_stored_def)
      then show ?thesis
        using keepsD [OF k, of t b] entry_located_range [OF l(1) t] l(1) t by (auto simp: entry_located_def)
    qed
    then show ?thesis using l object_stored_cong [OF l(2)] \<open>U \<subseteq> U'\<close> by (auto simp: entry_located_def)
  qed
  have r: "ts + of_nat i \<in> U' \<and> S' (ts + of_nat i) = {record_bytes (es ! i)}" if "i < length es" for i
  proof -
    have "ts + of_nat i \<in> U" "S (ts + of_nat i) = {record_bytes (es ! i)}" using g that by (auto simp: gen_ok_def)
    then show ?thesis using keepsD [OF k] gen_range [OF g that] \<open>U \<subseteq> U'\<close> by auto
  qed
  show ?thesis using g e r unfolding gen_ok_def by blast
qed

lemma snapshots_ok_keep:
  assumes "snapshots_ok S U n cap xs" "keeps U S S'" "U \<subseteq> U'"
  shows "snapshots_ok S' U' n cap xs"
  unfolding snapshots_ok_def
proof (intro ballI, clarify)
  fix i ts tc assume "(i, ts, tc) \<in> set xs" "i \<noteq> 0"
  then obtain es where "gen_ok S U n cap ts es" "unat tc = length es"
    using assms(1) by (auto simp: snapshots_ok_def)
  then show "\<exists>es. gen_ok S' U' n cap ts es \<and> unat tc = length es"
    using gen_ok_keep [OF _ assms(2,3)] by blast
qed

lemma leads_to_keep:
  assumes "leads_to S U n cap ts c sb" "keeps U S S'" "U \<subseteq> U'"
  shows "leads_to S' U' n cap ts c sb"
  using assms(1) snapshots_ok_keep [OF _ assms(2,3)] by (simp add: leads_to_def)

section \<open>Reading an image\<close>

definition image_of :: "image \<Rightarrow> (u64 \<Rightarrow> bytes set) \<Rightarrow> bool" where
  "image_of img S \<longleftrightarrow> (\<forall>t. img t \<in> S t)"

lemma gen_read:
  assumes "gen_ok S U n cap ts es" "image_of img S"
  shows "read_generation img n cap ts (length es) = Some es"
proof (rule read_generation_written)
  show "img (ts + of_nat i) = record_bytes (es ! i)" if "i < length es" for i
    using assms that unfolding gen_ok_def image_of_def by (metis singletonD)
qed (use assms(1) in \<open>auto simp: gen_ok_def\<close>)

lemma gen_object:
  assumes "gen_ok S U n cap ts es" "image_of img S" "e \<in> set es"
  shows "image_object img e = image_object (durable_image S) e"
proof (rule image_object_cong)
  fix t assume "t \<in> extent (e_first_sector e) (e_sector_count e)"
  moreover have "object_stored S e" using assms(1,3) by (simp add: gen_ok_def)
  ultimately obtain b where "S t = {b}" by (auto simp: object_stored_def)
  then show "img t = durable_image S t"
    using assms(2) by (auto simp: image_of_def durable_image_def)
qed

lemma snapshots_read:
  "snapshots_ok S U n cap (map disk_triple (sb_snapshots sb)) \<Longrightarrow> image_of img S \<Longrightarrow> snapshots_readable img n cap sb"
  unfolding snapshots_ok_def snapshots_readable_def disk_triple_def using gen_read by fastforce

lemma choose_one:
  assumes "superblock_is_valid x n cap" "P x"
    and "superblock_is_valid y n cap \<Longrightarrow> sb_sequence y < sb_sequence x \<or> P y"
  shows "\<exists>sb k. choose_superblock x y n cap = Some (sb, k) \<and> P sb \<and> superblock_is_valid sb n cap"
    "\<exists>sb k. choose_superblock y x n cap = Some (sb, k) \<and> P sb \<and> superblock_is_valid sb n cap"
  using assms by (auto simp: choose_superblock_def)

lemma recover_from_root:
  assumes "choose_superblock (decode_superblock (img 0)) (decode_superblock (img 1)) n cap = Some (sb, k)"
    and "image_root img cap sb = Some (ts, tc)" "unat tc = length es"
    and "gen_ok S U n cap ts es" "snapshots_ok S U n cap (map disk_triple (sb_snapshots sb))" "image_of img S"
  shows "recover_image img n cap = Some es"
  using assms gen_read [OF assms(4,6)] snapshots_read [OF assms(5,6)]
  by (simp add: recover_image_def)

section \<open>The invariant\<close>

definition memory_ok :: "'d object_store \<Rightarrow> bool" where
  "memory_ok s \<longleftrightarrow> bitmap_ok s \<and> 3 \<le> sector_count s \<and> 0 < st_table_capacity s \<and> st_table_capacity s < 2 ^ 64 \<and>
     table_inv (st_table s) \<and> t_capacity (st_table s) = st_table_capacity s \<and>
     (\<exists>es. st_scratch_entries s = Some es \<and> length es = st_table_capacity s) \<and>
     length (st_snapshots s) = OBJECT_STORE_SNAPSHOT_LIMIT \<and>
     st_cache_capacity s \<le> length (st_cache_buffer s) \<and>
     3 \<le> st_next_sector s \<and> st_next_sector s \<le> sector_count s \<and>
     (st_current_table_sector s = 0 \<and> t_count (st_table s) = 0 \<or>
      3 \<le> st_current_table_sector s \<and>
        unat (st_current_table_sector s) + t_count (st_table s) \<le> unat (st_next_sector s)) \<and>
     (st_active_superblock_sector s = 0 \<or> st_active_superblock_sector s = 1)"

definition roots_ok :: "(u64 \<Rightarrow> bytes set) \<Rightarrow> u64 set \<Rightarrow> 'd object_store \<Rightarrow> bool" where
  "roots_ok S U s \<longleftrightarrow>
     (let n = sector_count s; cap = st_table_capacity s;
          good = leads_to S U n cap (st_current_table_sector s) (t_count (st_table s)) in
      (\<exists>b. S (st_active_superblock_sector s) = {b} \<and> good (decode_superblock b) \<and>
           sb_sequence (decode_superblock b) = st_superblock_sequence s) \<and>
      (\<forall>b\<in>S (superblock_target s). superblock_is_valid (decode_superblock b) n cap \<longrightarrow>
           sb_sequence (decode_superblock b) < st_superblock_sequence s \<or> good (decode_superblock b)))"

definition store_ok :: "(u64 \<Rightarrow> bytes set) \<Rightarrow> u64 set \<Rightarrow> 'd object_store \<Rightarrow> bool" where
  "store_ok S U s \<longleftrightarrow> memory_ok s \<and> {0, 1, 2} \<subseteq> U \<and> U \<subseteq> used_sectors s \<and>
     gen_ok S U (sector_count s) (st_table_capacity s) (st_current_table_sector s) (live (st_table s)) \<and>
     snapshots_ok S U (sector_count s) (st_table_capacity s) (map snap_triple (st_snapshots s)) \<and>
     roots_ok S U s \<and> S 2 = {empty_sector}"

lemma live_length: "table_inv t \<Longrightarrow> length (live t) = t_count t"
  by (simp add: table_inv_def live_def)

lemma superblock_sectors:
  assumes "memory_ok s"
  shows "{st_active_superblock_sector s, superblock_target s} = {0, 1}"
    "st_active_superblock_sector s \<noteq> superblock_target s"
    "superblock_target s = 0 \<or> superblock_target s = 1"
  using assms by (auto simp: memory_ok_def superblock_target_def OBJECT_STORE_SUPERBLOCK_A_def OBJECT_STORE_SUPERBLOCK_B_def)

text \<open>Whatever superblock a mount chooses has a property that the possible ones have.\<close>

lemma chosen_superblock:
  assumes m: "memory_ok s" and img: "image_of img S"
    and act: "\<And>b. b \<in> S (st_active_superblock_sector s) \<Longrightarrow>
      superblock_is_valid (decode_superblock b) n cap \<and> sb_sequence (decode_superblock b) = q \<and> P (decode_superblock b)"
    and other: "\<And>b. b \<in> S (superblock_target s) \<Longrightarrow> superblock_is_valid (decode_superblock b) n cap \<Longrightarrow>
      sb_sequence (decode_superblock b) < q \<or> P (decode_superblock b)"
  shows "\<exists>sb k. choose_superblock (decode_superblock (img 0)) (decode_superblock (img 1)) n cap = Some (sb, k) \<and>
    P sb \<and> superblock_is_valid sb n cap"
proof -
  let ?a = "st_active_superblock_sector s" and ?t = "superblock_target s"
  have "img ?a \<in> S ?a" "img ?t \<in> S ?t" using img by (auto simp: image_of_def)
  note c = choose_one [of "decode_superblock (img ?a)" n cap P "decode_superblock (img ?t)"]
  have "(?a = 0 \<and> ?t = 1) \<or> (?a = 1 \<and> ?t = 0)" using superblock_sectors [OF m] by (auto simp: doubleton_eq_iff)
  then show ?thesis using c act [OF \<open>img ?a \<in> S ?a\<close>] other [OF \<open>img ?t \<in> S ?t\<close>] by auto
qed

lemma store_ok_recovers:
  assumes ok: "store_ok S U s" and img: "image_of img S"
  shows "recover_image img (sector_count s) (st_table_capacity s) = Some (live (st_table s))"
    "e \<in> set (live (st_table s)) \<Longrightarrow> image_object img e = image_object (durable_image S) e"
proof -
  let ?n = "sector_count s" and ?cap = "st_table_capacity s"
  let ?good = "leads_to S U ?n ?cap (st_current_table_sector s) (t_count (st_table s))"
  have m: "memory_ok s" and g: "gen_ok S U ?n ?cap (st_current_table_sector s) (live (st_table s))"
    and r: "roots_ok S U s" and w: "S 2 = {empty_sector}" using ok by (auto simp: store_ok_def)
  have "\<exists>sb k. choose_superblock (decode_superblock (img 0)) (decode_superblock (img 1)) ?n ?cap = Some (sb, k) \<and>
      ?good sb \<and> superblock_is_valid sb ?n ?cap"
    by (rule chosen_superblock [OF m img, where q = "st_superblock_sequence s"])
      (use r in \<open>auto simp: roots_ok_def leads_to_def Let_def\<close>)
  then obtain sb k where sb: "choose_superblock (decode_superblock (img 0)) (decode_superblock (img 1)) ?n ?cap = Some (sb, k)"
    "?good sb" by blast
  have "img 2 = empty_sector" using img w by (auto simp: image_of_def)
  then have "image_root img ?cap sb = Some (st_current_table_sector s, sb_current_table_count sb)"
    using sb(2) by (simp add: image_root_def leads_to_def)
  moreover have "unat (sb_current_table_count sb) = length (live (st_table s))"
    using sb(2) m by (simp add: leads_to_def memory_ok_def live_length)
  ultimately show "recover_image img ?n ?cap = Some (live (st_table s))"
    using recover_from_root [OF sb(1) _ _ g _ img] sb(2) by (simp add: leads_to_def)
  show "image_object img e = image_object (durable_image S) e" if "e \<in> set (live (st_table s))"
    using gen_object [OF g img that] .
qed

section \<open>The invariant and the cache\<close>

lemma bitmap_test_cong:
  "sector_count s' = sector_count s \<Longrightarrow> st_bitmap_buffer s' = st_bitmap_buffer s \<Longrightarrow> bitmap_test s' = bitmap_test s"
  by (simp add: fun_eq_iff bitmap_test_def)

lemma store_ok_fields:
  assumes "sector_count s' = sector_count s" "st_table s' = st_table s" "st_scratch_entries s' = st_scratch_entries s"
    "st_table_capacity s' = st_table_capacity s" "st_bitmap_buffer s' = st_bitmap_buffer s"
    "st_next_sector s' = st_next_sector s" "st_current_table_sector s' = st_current_table_sector s"
    "st_superblock_sequence s' = st_superblock_sequence s"
    "st_active_superblock_sector s' = st_active_superblock_sector s" "st_snapshots s' = st_snapshots s"
    "st_cache_capacity s' = st_cache_capacity s" "length (st_cache_buffer s') = length (st_cache_buffer s)"
  shows "store_ok S U s' \<longleftrightarrow> store_ok S U s"
  using assms bitmap_test_cong [OF assms(1,5)]
  by (simp add: store_ok_def memory_ok_def roots_ok_def superblock_target_def used_sectors_def bitmap_ok_def)

lemma store_ok_with_device [simp]: "store_ok S U (with_device s d) \<longleftrightarrow> store_ok S U s"
  by (rule store_ok_fields) simp_all

lemma store_ok_recovery [simp]: "store_ok S U (s\<lparr>st_recovery_required := x\<rparr>) \<longleftrightarrow> store_ok S U s"
  by (rule store_ok_fields) simp_all

lemma store_ok_cache_buffer:
  "length b = length (st_cache_buffer s) \<Longrightarrow> store_ok S U (s\<lparr>st_cache_buffer := b\<rparr>) \<longleftrightarrow> store_ok S U s"
  by (rule store_ok_fields) simp_all

lemma store_ok_without_cache:
  assumes "without_cache s' = without_cache s"
  shows "store_ok S U s' \<longleftrightarrow> store_ok S U s"
  using without_cache_fields [OF assms] by (intro store_ok_fields) simp_all

lemma superblock_target_fields [simp]:
  "superblock_target (with_device s d) = superblock_target s"
  by (simp add: superblock_target_def)

section \<open>The invariant and the device\<close>

text \<open>
  A store whose active superblock was written last: the other one is older, so every mount
  chooses the active one, whose allocation bound reaches at least to sector \<open>e\<close>.
\<close>

definition fresh_root :: "(u64 \<Rightarrow> bytes set) \<Rightarrow> nat \<Rightarrow> 'd object_store \<Rightarrow> bool" where
  "fresh_root S e s \<longleftrightarrow>
     (\<forall>b\<in>S (st_active_superblock_sector s). e \<le> unat (sb_next_sector (decode_superblock b))) \<and>
     (\<forall>b\<in>S (superblock_target s). superblock_is_valid (decode_superblock b) (sector_count s) (st_table_capacity s) \<longrightarrow>
        sb_sequence (decode_superblock b) < st_superblock_sequence s)"

lemma decode_next_superblock:
  "length (st_snapshots s) = OBJECT_STORE_SNAPSHOT_LIMIT \<Longrightarrow>
   decode_superblock (encode_superblock (superblock_from_store s q)) = superblock_from_store s q"
  by (rule superblock_codec.dec_enc) (rule superblock_from_store_wf)

lemma leads_to_next:
  assumes m: "memory_ok s" and sn: "snapshots_ok S U (sector_count s) (st_table_capacity s) (map snap_triple (st_snapshots s))"
  shows "leads_to S U (sector_count s) (st_table_capacity s) (st_current_table_sector s) (t_count (st_table s))
    (superblock_from_store s q)"
proof -
  have c: "t_count (st_table s) \<le> st_table_capacity s" "st_table_capacity s < 2 ^ 64"
    using m by (auto simp: memory_ok_def table_inv_def)
  have "superblock_is_valid (superblock_from_store s q) (sector_count s) (st_table_capacity s)"
    using m c by (intro superblock_from_store_valid) (auto simp: memory_ok_def)
  moreover have "map disk_triple (sb_snapshots (superblock_from_store s q)) = map snap_triple (st_snapshots s)"
    by (simp add: disk_triple_def snap_triple_def)
  ultimately show ?thesis using sn c unfolding leads_to_def by (simp add: unat_of_nat64 del: map_map)
qed

context block_device
begin

lemma evolves_keeps:
  assumes "evolves d W d'" "\<And>t. t \<in> U \<Longrightarrow> 3 \<le> t \<Longrightarrow> W t = {}"
  shows "keeps U (survivors d) (survivors d')"
  unfolding keeps_def using evolves_durable [OF assms(1)] assms(2) by blast

lemma store_ok_quiet:
  assumes ok: "store_ok (survivors d) U s" and ev: "evolves d W d'" and W: "\<And>t. t \<in> U \<Longrightarrow> W t = {}"
  shows "store_ok (survivors d') U s"
proof -
  have k: "keeps U (survivors d) (survivors d')" using evolves_keeps [OF ev] W by blast
  have m: "memory_ok s" and U: "{0, 1, 2} \<subseteq> U" using ok by (auto simp: store_ok_def)
  note sec = superblock_sectors [OF m]
  have sub: "survivors d' (superblock_target s) \<subseteq> survivors d (superblock_target s)"
    using evolves_survivors [OF ev, of "superblock_target s"] W [of "superblock_target s"] sec(3) U by auto
  have act: "W (st_active_superblock_sector s) = {}" using W U sec(1) by (auto simp: doubleton_eq_iff)
  let ?good = "\<lambda>S. leads_to S U (sector_count s) (st_table_capacity s) (st_current_table_sector s) (t_count (st_table s))"
  have good: "?good (survivors d) sb \<Longrightarrow> ?good (survivors d') sb" for sb by (rule leads_to_keep [OF _ k order_refl])
  obtain b where b: "survivors d (st_active_superblock_sector s) = {b}" "?good (survivors d) (decode_superblock b)"
    "sb_sequence (decode_superblock b) = st_superblock_sequence s"
    and other: "\<forall>b\<in>survivors d (superblock_target s).
      superblock_is_valid (decode_superblock b) (sector_count s) (st_table_capacity s) \<longrightarrow>
      sb_sequence (decode_superblock b) < st_superblock_sequence s \<or> ?good (survivors d) (decode_superblock b)"
    using ok by (auto simp: store_ok_def roots_ok_def Let_def)
  have "roots_ok (survivors d') U s"
    unfolding roots_ok_def Let_def using evolves_durable [OF ev act b(1)] b other good sub by auto
  moreover have "survivors d' 2 = {empty_sector}"
    using evolves_durable [OF ev, of 2] W [of 2] U ok by (auto simp: store_ok_def)
  ultimately show ?thesis
    using ok gen_ok_keep [OF _ k order_refl] snapshots_ok_keep [OF _ k order_refl]
    by (simp add: store_ok_def)
qed

lemma store_ok_superblock:
  assumes ok: "store_ok (survivors (device s)) U s" and wd: "wired read_s write_s flush_s s" "ok (device s)"
    and w: "write_superblock s = (s', r)" and seq: "unat (st_superblock_sequence s) + 1 < 2 ^ 64"
  shows "store_ok (survivors (device s')) U s'" "wired read_s write_s flush_s s'" "ok (device s')"
    "evolves (device s) (\<lambda>t. if t = superblock_target s then {next_superblock s} else {}) (device s')"
    "r \<Longrightarrow> settled (device s')" "r \<Longrightarrow> fresh_root (survivors (device s')) (unat (st_next_sector s)) s'"
    "\<exists>d q a. s' = (with_device s d)\<lparr>st_superblock_sequence := q, st_active_superblock_sector := a\<rparr>"
    "unat (st_superblock_sequence s') \<le> unat (st_superblock_sequence s) + 1"
proof -
  let ?n = "sector_count s" and ?cap = "st_table_capacity s" and ?t = "superblock_target s"
    and ?a = "st_active_superblock_sector s"
  let ?S = "survivors (device s)"
  from write_superblock_evolves [OF wd w] obtain d where
    ev: "evolves (device s) (\<lambda>t. if t = ?t then {next_superblock s} else {}) d"
    and s': "s' = (if r then (with_device s d)\<lparr>st_superblock_sequence := st_superblock_sequence s + 1,
                       st_active_superblock_sector := ?t\<rparr> else with_device s d)"
    and r: "r \<longrightarrow> settled d \<and> visible d ?t = next_superblock s" .
  have dev: "device s' = d" by (simp add: s')
  show "wired read_s write_s flush_s s'" "ok (device s')" "evolves (device s) (\<lambda>t. if t = ?t then {next_superblock s} else {}) (device s')"
    "r \<Longrightarrow> settled (device s')" using wd ev r evolves_ok by (auto simp: s' dev wired_def with_device_def)
  show "\<exists>d q a. s' = (with_device s d)\<lparr>st_superblock_sequence := q, st_active_superblock_sector := a\<rparr>"
    by (rule exI [of _ d], rule exI [of _ "st_superblock_sequence s'"], rule exI [of _ "st_active_superblock_sector s'"])
      (simp add: s' with_device_def)
  have q1: "unat (st_superblock_sequence s + 1) = unat (st_superblock_sequence s) + 1"
    using seq by (simp add: unat_word_ariths)
  then show "unat (st_superblock_sequence s') \<le> unat (st_superblock_sequence s) + 1" by (simp add: s')
  have m: "memory_ok s" and U: "{0, 1, 2} \<subseteq> U" "U \<subseteq> used_sectors s" using ok by (auto simp: store_ok_def)
  have sec: "?a \<noteq> ?t" "?t = 0 \<or> ?t = 1" using superblock_sectors [OF m] by auto
  have k: "keeps U ?S (survivors d)"
    by (rule evolves_keeps [OF ev]) (use sec(2) in \<open>auto simp: word_le_nat_alt\<close>)
  have sn: "snapshots_ok (survivors d) U ?n ?cap (map snap_triple (st_snapshots s))"
    using ok snapshots_ok_keep [OF _ k order_refl] by (auto simp: store_ok_def)
  have dec: "decode_superblock (next_superblock s) = superblock_from_store s (st_superblock_sequence s + 1)"
    unfolding next_superblock_def using m by (intro decode_next_superblock) (simp add: memory_ok_def)
  have good: "leads_to (survivors d) U ?n ?cap (st_current_table_sector s) (t_count (st_table s)) (decode_superblock (next_superblock s))"
    unfolding dec using leads_to_next [OF m sn] .
  obtain b where b: "?S ?a = {b}" "leads_to ?S U ?n ?cap (st_current_table_sector s) (t_count (st_table s)) (decode_superblock b)"
    "sb_sequence (decode_superblock b) = st_superblock_sequence s"
    using ok by (auto simp: store_ok_def roots_ok_def Let_def)
  have b': "survivors d ?a = {b}" by (rule evolves_durable [OF ev _ b(1)]) (use sec in auto)
  have e2: "survivors d 2 = {empty_sector}"
    by (rule evolves_durable [OF ev]) (use sec(2) ok in \<open>auto simp: store_ok_def\<close>)
  have roots: "roots_ok (survivors d) U s'"
  proof (cases r)
    case True
    then have t: "survivors d ?t = {next_superblock s}" using r by (simp add: settled_def)
    have lt: "st_superblock_sequence s < st_superblock_sequence s + 1" using q1 by (simp add: word_less_nat_alt)
    have tgt: "superblock_target s' = ?a"
      using m sec True by (auto simp: s' superblock_target_def memory_ok_def OBJECT_STORE_SUPERBLOCK_A_def
          OBJECT_STORE_SUPERBLOCK_B_def)
    show ?thesis
      unfolding roots_ok_def Let_def tgt using True t good b' b(3) lt dec by (simp add: s')
  next
    case False
    have sub: "survivors d ?t \<subseteq> ?S ?t \<union> {next_superblock s}" using evolves_survivors [OF ev, of ?t] by simp
    have "sb_sequence (decode_superblock c) < st_superblock_sequence s \<or>
        leads_to (survivors d) U ?n ?cap (st_current_table_sector s) (t_count (st_table s)) (decode_superblock c)"
      if c: "c \<in> survivors d ?t" "superblock_is_valid (decode_superblock c) ?n ?cap" for c
    proof (cases "c = next_superblock s")
      case False
      then have "c \<in> ?S ?t" using c sub by auto
      then have "sb_sequence (decode_superblock c) < st_superblock_sequence s \<or>
          leads_to ?S U ?n ?cap (st_current_table_sector s) (t_count (st_table s)) (decode_superblock c)"
        using ok c(2) by (auto simp: store_ok_def roots_ok_def Let_def)
      then show ?thesis using leads_to_keep [OF _ k order_refl] by metis
    qed (use good in simp)
    then show ?thesis
      unfolding roots_ok_def Let_def using False b' b(3) leads_to_keep [OF b(2) k order_refl] by (simp add: s')
  qed
  have mem: "memory_ok s'" using m sec by (auto simp: s' memory_ok_def bitmap_ok_def)
  have "used_sectors s' = used_sectors s"
    using bitmap_test_cong [of s' s] by (simp add: s' used_sectors_def)
  then show "store_ok (survivors (device s')) U s'"
    unfolding store_ok_def dev using mem U roots e2 sn ok gen_ok_keep [OF _ k order_refl]
    by (simp add: s' store_ok_def)
  show "fresh_root (survivors (device s')) (unat (st_next_sector s)) s'" if r
  proof -
    have t: "survivors d ?t = {next_superblock s}" using r that by (simp add: settled_def)
    have tgt: "superblock_target s' = ?a"
      using m sec that by (auto simp: s' superblock_target_def memory_ok_def OBJECT_STORE_SUPERBLOCK_A_def
          OBJECT_STORE_SUPERBLOCK_B_def)
    have "st_superblock_sequence s < st_superblock_sequence s + 1" using q1 by (simp add: word_less_nat_alt)
    then show ?thesis unfolding fresh_root_def tgt dev using that t b' b(3) dec by (simp add: s')
  qed
qed

end

end
