(* ===== verification/Store_Publish.thy ===== *)
theory Store_Publish
  imports Store_Invariant
begin

text \<open>
  The commit protocol shared by put, delete and rollback: log record, superblock, clearing of
  the log. Wherever it stops, the disk recovers to the table before or to the table after.
\<close>

section \<open>A log record as the root\<close>

lemma wal_image_root:
  assumes "img 2 = encode_wal (wal_root ts tc g)" "g \<noteq> 0" "tc = 0 \<longleftrightarrow> ts = 0" "unat tc \<le> cap"
    "tc \<noteq> 0 \<Longrightarrow> 3 \<le> ts \<and> unat ts + unat tc \<le> unat (sb_next_sector sb)"
  shows "image_root img cap sb = Some (ts, tc)"
proof -
  have "object_wal_validate (Some (img 2)) OBJECT_STORE_SECTOR_SIZE" "\<not> sector_is_zero (img 2)"
    using assms(1-3) wal_root_not_zero by (auto simp: wal_root_validates)
  moreover have "\<not> (ts < 3 \<or> ts > sb_next_sector sb \<or> tc > sb_next_sector sb - ts)" if "tc \<noteq> 0"
  proof -
    have a: "3 \<le> ts" "unat ts + unat tc \<le> unat (sb_next_sector sb)" using assms(5) [OF that] by auto
    then have le: "ts \<le> sb_next_sector sb" by (simp add: word_le_nat_alt)
    then have "unat (sb_next_sector sb - ts) = unat (sb_next_sector sb) - unat ts" by (simp add: unat_sub)
    then show ?thesis using a le by (auto simp: word_less_nat_alt word_le_nat_alt)
  qed
  ultimately show ?thesis
    using assms(1,3,4) by (auto simp: image_root_def Let_def)
qed

text \<open>What the protocol needs of the generation it publishes.\<close>

definition publishable ::
    "(u64 \<Rightarrow> bytes set) \<Rightarrow> u64 set \<Rightarrow> 'd object_store \<Rightarrow> object_table \<Rightarrow> u64 \<Rightarrow> u64 \<Rightarrow> nat \<Rightarrow> bool" where
  "publishable S U s candidate ts tc e \<longleftrightarrow>
     gen_ok S U (sector_count s) (st_table_capacity s) ts (live candidate) \<and>
     table_inv candidate \<and> t_capacity candidate = st_table_capacity s \<and>
     unat tc = t_count candidate \<and> (tc = 0 \<longleftrightarrow> ts = 0) \<and>
     (tc \<noteq> 0 \<longrightarrow> unat ts + unat tc \<le> e) \<and> e \<le> unat (st_next_sector s)"

lemma publishable_keep:
  "publishable S U s c ts tc e \<Longrightarrow> keeps U S S' \<Longrightarrow> publishable S' U s c ts tc e"
  using gen_ok_keep [of S U] by (auto simp: publishable_def)

lemma publishable_cong:
  "sector_count s' = sector_count s \<Longrightarrow> st_table_capacity s' = st_table_capacity s \<Longrightarrow>
   st_next_sector s' = st_next_sector s \<Longrightarrow> publishable S U s' c ts tc e = publishable S U s c ts tc e"
  by (simp add: publishable_def)

lemma install_table_fields [simp]:
  "st_io (install_table s c ts g) = st_io s" "st_current_table_sector (install_table s c ts g) = ts"
  "st_current_generation (install_table s c ts g) = g" "t_count (st_table (install_table s c ts g)) = t_count c"
  "t_capacity (st_table (install_table s c ts g)) = t_capacity (st_table s)"
  "st_table_capacity (install_table s c ts g) = st_table_capacity s"
  "st_scratch_entries (install_table s c ts g) = st_scratch_entries s"
  "st_snapshots (install_table s c ts g) = st_snapshots s" "st_next_sector (install_table s c ts g) = st_next_sector s"
  "st_superblock_sequence (install_table s c ts g) = st_superblock_sequence s"
  "st_active_superblock_sector (install_table s c ts g) = st_active_superblock_sector s"
  "st_bitmap_buffer (install_table s c ts g) = st_bitmap_buffer s"
  "st_cache_capacity (install_table s c ts g) = st_cache_capacity s"
  "st_cache_buffer (install_table s c ts g) = st_cache_buffer s"
  "st_recovery_required (install_table s c ts g) = st_recovery_required s"
  "superblock_target (install_table s c ts g) = superblock_target s"
  "wired r w f (install_table s c ts g) = wired r w f s"
  by (simp_all add: install_table_def superblock_target_def wired_def)

lemma install_table_live:
  assumes "table_inv c" "table_inv (st_table s)" "t_capacity c = t_capacity (st_table s)"
  shows "live (st_table (install_table s c ts g)) = live c" "table_inv (st_table (install_table s c ts g))"
proof -
  have "live (st_table (install_table s c ts g)) = live c"
    using assms by (simp add: live_def install_table_def table_inv_def)
  then show "live (st_table (install_table s c ts g)) = live c" "table_inv (st_table (install_table s c ts g))"
    using assms by (auto simp: table_inv_def) (auto simp: install_table_def)
qed

lemma memory_ok_install:
  assumes "memory_ok s" "publishable S U s c ts tc e"
  shows "memory_ok (install_table s c ts g)"
proof -
  have cap: "t_capacity (st_table s) = st_table_capacity s" "table_inv (st_table s)"
    using assms(1) by (auto simp: memory_ok_def)
  note il = install_table_live [of c s ts g]
  have "ts = 0 \<and> t_count c = 0 \<or> 3 \<le> ts \<and> unat ts + t_count c \<le> unat (st_next_sector s)"
  proof (cases "tc = 0")
    case False
    then have "live c \<noteq> []" using assms(2) by (auto simp: publishable_def live_length unat_eq_zero dest: arg_cong [where f = length])
    then show ?thesis using assms(2) False by (auto simp: publishable_def gen_ok_def)
  qed (use assms(2) in \<open>auto simp: publishable_def\<close>)
  then show ?thesis
    using assms cap il by (auto simp: memory_ok_def publishable_def bitmap_ok_def)
qed

lemma recover_logged:
  assumes ch: "choose_superblock (decode_superblock (img 0)) (decode_superblock (img 1)) (sector_count s) (st_table_capacity s) = Some (sb, k)"
    and sb: "snapshots_ok S U (sector_count s) (st_table_capacity s) (map disk_triple (sb_snapshots sb))"
      "e \<le> unat (sb_next_sector sb)"
    and p: "publishable S U s c ts tc e" and w: "img 2 = encode_wal (wal_root ts tc g)" "g \<noteq> 0" and img: "image_of img S"
  shows "recover_image img (sector_count s) (st_table_capacity s) = Some (live c)"
proof -
  have g: "gen_ok S U (sector_count s) (st_table_capacity s) ts (live c)" and l: "length (live c) = unat tc"
    using p by (auto simp: publishable_def live_length)
  have "3 \<le> ts \<and> unat ts + unat tc \<le> unat (sb_next_sector sb)" if "tc \<noteq> 0"
  proof -
    have "live c \<noteq> []" using l that by (auto simp: unat_eq_zero)
    then show ?thesis using g p sb(2) that by (auto simp: gen_ok_def publishable_def)
  qed
  moreover have "unat tc \<le> st_table_capacity s" "tc = 0 \<longleftrightarrow> ts = 0"
    using g l p by (auto simp: gen_ok_def publishable_def)
  ultimately have "image_root img (st_table_capacity s) sb = Some (ts, tc)" using wal_image_root [of img ts tc g] w by blast
  from recover_from_root [OF ch this _ g sb(1) img] l show ?thesis by simp
qed

lemma recover_unlogged:
  assumes ch: "choose_superblock (decode_superblock (img 0)) (decode_superblock (img 1)) n cap = Some (sb, k)"
    and sb: "leads_to S U n cap ts (length es) sb" and g: "gen_ok S U n cap ts es"
    and w: "img 2 = empty_sector" and img: "image_of img S"
  shows "recover_image img n cap = Some es"
proof -
  have "image_root img cap sb = Some (ts, sb_current_table_count sb)"
    using w sb by (simp add: image_root_def leads_to_def)
  from recover_from_root [OF ch this _ g _ img] sb show ?thesis by (simp add: leads_to_def)
qed

section \<open>The three steps\<close>

context block_device
begin

lemma publish_log_step:
  assumes ok: "store_ok (survivors (device s)) U s" and wd: "wired read_s write_s flush_s s" "ok (device s)"
    and fresh: "fresh_root (survivors (device s)) e s"
    and p: "publishable (survivors (device s)) U s c ts tc e" and g: "g \<noteq> 0"
    and w: "write_wal_root s ts tc g = (s', r)"
  obtains d where "s' = with_device s d" "ok d"
    "evolves (device s) (\<lambda>t. if t = 2 then {encode_wal (wal_root ts tc g)} else {}) d"
    "\<forall>img. image_of img (survivors d) \<longrightarrow>
      recover_image img (sector_count s) (st_table_capacity s) \<in> {Some (live (st_table s)), Some (live c)}"
    "r \<longrightarrow> settled d \<and> visible d 2 = encode_wal (wal_root ts tc g)"
proof -
  let ?rec = "encode_wal (wal_root ts tc g)" and ?n = "sector_count s" and ?cap = "st_table_capacity s"
  let ?S = "survivors (device s)"
  have "write_and_flush s 2 ?rec = (s', r)"
    using w p g by (simp add: write_wal_root_def Let_def wal_root_validates publishable_def OBJECT_STORE_WAL_SECTOR_def)
  from write_flush_evolves [OF wd this] obtain d where
    d: "s' = with_device s d" "evolves (device s) (\<lambda>t. if t = 2 then {?rec} else {}) d"
    "r \<longrightarrow> settled d \<and> visible d 2 = ?rec" .
  have k: "keeps U ?S (survivors d)"
    by (rule evolves_keeps [OF d(2)]) (auto simp: word_le_nat_alt)
  have m: "memory_ok s" and gn: "gen_ok ?S U ?n ?cap (st_current_table_sector s) (live (st_table s))"
    and roots: "roots_ok ?S U s" and e2: "?S 2 = {empty_sector}" using ok by (auto simp: store_ok_def)
  have tab: "t_count (st_table s) = length (live (st_table s))" using m by (simp add: memory_ok_def live_length)
  have sub: "survivors d t \<subseteq> ?S t" if "t \<noteq> 2" for t using evolves_survivors [OF d(2), of t] that by simp
  have sec: "st_active_superblock_sector s \<noteq> 2" "superblock_target s \<noteq> 2"
    using m superblock_sectors(3) [OF m] by (auto simp: memory_ok_def)
  have "recover_image img ?n ?cap \<in> {Some (live (st_table s)), Some (live c)}" if img: "image_of img (survivors d)" for img
  proof -
    have "\<exists>sb k. choose_superblock (decode_superblock (img 0)) (decode_superblock (img 1)) ?n ?cap = Some (sb, k) \<and>
        (leads_to ?S U ?n ?cap (st_current_table_sector s) (t_count (st_table s)) sb \<and> e \<le> unat (sb_next_sector sb)) \<and>
        superblock_is_valid sb ?n ?cap"
      by (rule chosen_superblock [OF m img, where q = "st_superblock_sequence s"])
        (use roots fresh sub [OF sec(1)] sub [OF sec(2)] in
          \<open>auto simp: roots_ok_def fresh_root_def leads_to_def Let_def\<close>)
    then obtain sb k' where sb: "choose_superblock (decode_superblock (img 0)) (decode_superblock (img 1)) ?n ?cap = Some (sb, k')"
      "leads_to ?S U ?n ?cap (st_current_table_sector s) (t_count (st_table s)) sb" "e \<le> unat (sb_next_sector sb)" by blast
    note lt = leads_to_keep [OF sb(2) k order_refl]
    have "img 2 \<in> {empty_sector, ?rec}"
      using img evolves_survivors [OF d(2), of 2] e2 by (auto simp: image_of_def)
    then show ?thesis
    proof
      assume "img 2 = empty_sector"
      from recover_unlogged [OF sb(1) lt [unfolded tab] gen_ok_keep [OF gn k order_refl] this img] show ?thesis by simp
    next
      assume "img 2 \<in> {?rec}"
      then have "img 2 = ?rec" by simp
      from recover_logged [OF sb(1) _ sb(3) publishable_keep [OF p k] this g img] lt show ?thesis
        by (simp add: leads_to_def)
    qed
  qed
  then show thesis using that [OF d(1) evolves_ok [OF d(2)] d(2)] d(3) by simp
qed

lemma publish_switch_step:
  assumes m: "memory_ok s" and wd: "wired read_s write_s flush_s s" "ok (device s)"
    and sn: "snapshots_ok (survivors (device s)) U (sector_count s) (st_table_capacity s) (map snap_triple (st_snapshots s))"
    and roots: "roots_ok (survivors (device s)) U s" and fresh: "fresh_root (survivors (device s)) e s"
    and p: "publishable (survivors (device s)) U s c ts tc e" and g: "g \<noteq> 0"
    and rec: "survivors (device s) 2 = {encode_wal (wal_root ts tc g)}"
    and seq: "unat (st_superblock_sequence s) + 1 < 2 ^ 64"
    and w: "write_superblock (install_table s c ts g) = (s', r)"
  obtains d where "evolves (device s) (\<lambda>t. if t = superblock_target s then {next_superblock (install_table s c ts g)} else {}) d"
    "s' = (if r then (with_device (install_table s c ts g) d)\<lparr>st_superblock_sequence := st_superblock_sequence s + 1,
             st_active_superblock_sector := superblock_target s\<rparr> else with_device (install_table s c ts g) d)"
    "\<forall>img. image_of img (survivors d) \<longrightarrow> recover_image img (sector_count s) (st_table_capacity s) = Some (live c)"
    "survivors d 2 = {encode_wal (wal_root ts tc g)}"
    "r \<longrightarrow> settled d \<and> roots_ok (survivors d) U s' \<and> fresh_root (survivors d) e s'"
proof -
  let ?i = "install_table s c ts g" and ?n = "sector_count s" and ?cap = "st_table_capacity s"
  let ?S = "survivors (device s)" and ?t = "superblock_target s" and ?a = "st_active_superblock_sector s"
  have wi: "wired read_s write_s flush_s ?i" "ok (device ?i)" using wd by simp_all
  obtain d where
    ev: "evolves (device s) (\<lambda>t. if t = ?t then {next_superblock ?i} else {}) d"
    and s': "s' = (if r then (with_device ?i d)\<lparr>st_superblock_sequence := st_superblock_sequence s + 1,
             st_active_superblock_sector := ?t\<rparr> else with_device ?i d)"
    and r: "r \<longrightarrow> settled d \<and> visible d ?t = next_superblock ?i"
    by (rule write_superblock_evolves [OF wi w, unfolded install_table_fields])
  have sec: "?t = 0 \<or> ?t = 1" "?a \<noteq> ?t" "?a \<noteq> 2" using superblock_sectors [OF m] m by (auto simp: memory_ok_def)
  have k: "keeps U ?S (survivors d)"
    by (rule evolves_keeps [OF ev]) (use sec(1) in \<open>auto simp: word_le_nat_alt\<close>)
  have mi: "memory_ok ?i" using memory_ok_install [OF m p] .
  have sn': "snapshots_ok (survivors d) U ?n ?cap (map snap_triple (st_snapshots ?i))"
    using snapshots_ok_keep [OF sn k order_refl] by simp
  have dec: "decode_superblock (next_superblock ?i) = superblock_from_store ?i (st_superblock_sequence s + 1)"
    unfolding next_superblock_def using m by (subst decode_next_superblock) (simp_all add: memory_ok_def)
  have new: "leads_to (survivors d) U ?n ?cap ts (t_count c) (decode_superblock (next_superblock ?i))"
    unfolding dec using leads_to_next [OF mi, of "survivors d" U "st_superblock_sequence s + 1"] sn' by simp
  have nx: "e \<le> unat (sb_next_sector (decode_superblock (next_superblock ?i)))"
    unfolding dec using p by (simp add: publishable_def)
  have p': "publishable (survivors d) U s c ts tc e" using publishable_keep [OF p k] .
  obtain b where b: "?S ?a = {b}" "superblock_is_valid (decode_superblock b) ?n ?cap"
    "snapshots_ok ?S U ?n ?cap (map disk_triple (sb_snapshots (decode_superblock b)))"
    "sb_sequence (decode_superblock b) = st_superblock_sequence s" "e \<le> unat (sb_next_sector (decode_superblock b))"
    using roots fresh by (auto simp: roots_ok_def leads_to_def fresh_root_def Let_def)
  have b': "survivors d ?a = {b}" by (rule evolves_durable [OF ev _ b(1)]) (use sec in auto)
  have r2: "survivors d 2 = {encode_wal (wal_root ts tc g)}"
    by (rule evolves_durable [OF ev _ rec]) (use sec in auto)
  have q1: "unat (st_superblock_sequence s + 1) = unat (st_superblock_sequence s) + 1"
    using seq by (simp add: unat_word_ariths)
  have other: "sb_sequence (decode_superblock x) < st_superblock_sequence s \<or> x = next_superblock ?i"
    if "x \<in> survivors d ?t" "superblock_is_valid (decode_superblock x) ?n ?cap" for x
    using that evolves_survivors [OF ev, of ?t] fresh by (auto simp: fresh_root_def)
  have images: "recover_image img ?n ?cap = Some (live c)" if img: "image_of img (survivors d)" for img
  proof -
    have "\<exists>sb k. choose_superblock (decode_superblock (img 0)) (decode_superblock (img 1)) ?n ?cap = Some (sb, k) \<and>
        (snapshots_ok (survivors d) U ?n ?cap (map disk_triple (sb_snapshots sb)) \<and> e \<le> unat (sb_next_sector sb)) \<and>
        superblock_is_valid sb ?n ?cap"
      by (rule chosen_superblock [OF m img, where q = "st_superblock_sequence s"])
        (use b b' snapshots_ok_keep [OF b(3) k order_refl] other new nx in \<open>auto simp: leads_to_def\<close>)
    then obtain sb k' where sb: "choose_superblock (decode_superblock (img 0)) (decode_superblock (img 1)) ?n ?cap = Some (sb, k')"
      "snapshots_ok (survivors d) U ?n ?cap (map disk_triple (sb_snapshots sb))" "e \<le> unat (sb_next_sector sb)" by blast
    have "img 2 = encode_wal (wal_root ts tc g)" using img r2 by (auto simp: image_of_def)
    from recover_logged [OF sb p' this g img] show ?thesis .
  qed
  have "roots_ok (survivors d) U s' \<and> fresh_root (survivors d) e s'" if r
  proof -
    have t: "survivors d ?t = {next_superblock ?i}" using r that by (simp add: settled_def)
    have tgt: "superblock_target s' = ?a"
      using m sec that by (auto simp: s' superblock_target_def memory_ok_def OBJECT_STORE_SUPERBLOCK_A_def
          OBJECT_STORE_SUPERBLOCK_B_def)
    have lt: "st_superblock_sequence s < st_superblock_sequence s + 1" using q1 by (simp add: word_less_nat_alt)
    show ?thesis
      unfolding roots_ok_def fresh_root_def Let_def tgt using that t b' b(4) new nx lt dec by (simp add: s')
  qed
  then show thesis using that [OF ev s' _ r2] images r by simp
qed

lemma publish_clear_step:
  assumes m: "memory_ok s" and U: "{0, 1, 2} \<subseteq> U" "U \<subseteq> used_sectors s"
    and wd: "wired read_s write_s flush_s s" "ok (device s)"
    and sn: "snapshots_ok (survivors (device s)) U (sector_count s) (st_table_capacity s) (map snap_triple (st_snapshots s))"
    and roots: "roots_ok (survivors (device s)) U s" and fresh: "fresh_root (survivors (device s)) e s"
    and p: "publishable (survivors (device s)) U s c (st_current_table_sector s) tc e" and g: "g \<noteq> 0"
    and tab: "live (st_table s) = live c"
    and rec: "survivors (device s) 2 = {encode_wal (wal_root (st_current_table_sector s) tc g)}"
    and w: "clear_wal s = (s', r)"
  obtains d where "s' = with_device s d" "evolves (device s) (\<lambda>t. if t = 2 then {empty_sector} else {}) d"
    "\<forall>img. image_of img (survivors d) \<longrightarrow> recover_image img (sector_count s) (st_table_capacity s) = Some (live c)"
    "r \<longrightarrow> settled d \<and> store_ok (survivors d) U s'"
proof -
  let ?n = "sector_count s" and ?cap = "st_table_capacity s" and ?ts = "st_current_table_sector s"
  let ?S = "survivors (device s)"
  have "write_and_flush s 2 empty_sector = (s', r)" using w by (simp add: clear_wal_def OBJECT_STORE_WAL_SECTOR_def)
  from write_flush_evolves [OF wd this] obtain d where
    d: "s' = with_device s d" "evolves (device s) (\<lambda>t. if t = 2 then {empty_sector} else {}) d"
    "r \<longrightarrow> settled d \<and> visible d 2 = empty_sector" .
  have k: "keeps U ?S (survivors d)"
    by (rule evolves_keeps [OF d(2)]) (auto simp: word_le_nat_alt)
  have p': "publishable (survivors d) U s c ?ts tc e" using publishable_keep [OF p k] .
  then have gn: "gen_ok (survivors d) U ?n ?cap ?ts (live c)" by (simp add: publishable_def)
  have cnt: "t_count (st_table s) = length (live c)" using m tab by (metis memory_ok_def live_length)
  have sec: "st_active_superblock_sector s \<noteq> 2" "superblock_target s \<noteq> 2"
    using m superblock_sectors(3) [OF m] by (auto simp: memory_ok_def)
  obtain b where b: "?S (st_active_superblock_sector s) = {b}"
    "leads_to ?S U ?n ?cap ?ts (t_count (st_table s)) (decode_superblock b)"
    "sb_sequence (decode_superblock b) = st_superblock_sequence s" "e \<le> unat (sb_next_sector (decode_superblock b))"
    using roots fresh by (auto simp: roots_ok_def fresh_root_def Let_def)
  have b': "survivors d (st_active_superblock_sector s) = {b}"
    by (rule evolves_durable [OF d(2) _ b(1)]) (use sec in auto)
  note bl = leads_to_keep [OF b(2) k order_refl]
  have other: "sb_sequence (decode_superblock x) < st_superblock_sequence s"
    if "x \<in> survivors d (superblock_target s)" "superblock_is_valid (decode_superblock x) ?n ?cap" for x
    using that evolves_survivors [OF d(2), of "superblock_target s"] fresh sec by (auto simp: fresh_root_def)
  have images: "recover_image img ?n ?cap = Some (live c)" if img: "image_of img (survivors d)" for img
  proof -
    have "\<exists>sb k. choose_superblock (decode_superblock (img 0)) (decode_superblock (img 1)) ?n ?cap = Some (sb, k) \<and>
        sb = decode_superblock b \<and> superblock_is_valid sb ?n ?cap"
      by (rule chosen_superblock [OF m img, where q = "st_superblock_sequence s"])
        (use b' b(3) bl other in \<open>auto simp: leads_to_def\<close>)
    then obtain k' where sb: "choose_superblock (decode_superblock (img 0)) (decode_superblock (img 1)) ?n ?cap = Some (decode_superblock b, k')"
      by blast
    have "img 2 = encode_wal (wal_root ?ts tc g) \<or> img 2 = empty_sector"
      using img evolves_survivors [OF d(2), of 2] rec by (auto simp: image_of_def)
    then show ?thesis
    proof
      assume "img 2 = encode_wal (wal_root ?ts tc g)"
      from recover_logged [OF sb _ b(4) p' this g img] bl show ?thesis by (simp add: leads_to_def)
    next
      assume "img 2 = empty_sector"
      from recover_unlogged [OF sb bl [unfolded cnt] gn this img] show ?thesis .
    qed
  qed
  have "store_ok (survivors d) U s'" if r
  proof -
    have "roots_ok (survivors d) U s"
      unfolding roots_ok_def Let_def using b' b(3) bl other by auto
    moreover have "survivors d 2 = {empty_sector}" using d(3) that by (simp add: settled_def)
    ultimately show ?thesis
      unfolding d(1) store_ok_with_device using m U gn tab snapshots_ok_keep [OF sn k order_refl]
      by (simp add: store_ok_def)
  qed
  then show thesis using that [OF d(1,2)] images d(3) by simp
qed

lemma keeps_trans: "keeps U S T \<Longrightarrow> keeps U T V \<Longrightarrow> keeps U S V"
  by (simp add: keeps_def)

lemma publish_result:
  assumes ok: "store_ok (survivors (device s)) U s" and wd: "wired read_s write_s flush_s s" "ok (device s)"
    and fresh: "fresh_root (survivors (device s)) e s"
    and p: "publishable (survivors (device s)) U s c ts tc e"
    and gen: "st_current_generation s \<noteq> UINT64_MAX" and seq: "unat (st_superblock_sequence s) + 1 < 2 ^ 64"
    and pub: "publish_table s c ts tc = (s', r)"
  shows "wired read_s write_s flush_s s'" "ok (device s')"
    "keeps V (survivors (device s)) (survivors (device s'))"
    "image_of img (survivors (device s')) \<Longrightarrow>
      recover_image img (sector_count s) (st_table_capacity s) \<in> {Some (live (st_table s)), Some (live c)}"
    "\<not> r \<Longrightarrow> st_recovery_required s' = 1"
    "r \<Longrightarrow> store_ok (survivors (device s')) U s' \<and> live (st_table s') = live c \<and>
       (\<exists>d a. s' = (with_device (install_table s c ts (st_current_generation s + 1)) d)
          \<lparr>st_superblock_sequence := st_superblock_sequence s + 1, st_active_superblock_sector := a\<rparr>)"
proof -
  let ?g = "st_current_generation s + 1" and ?n = "sector_count s" and ?cap = "st_table_capacity s"
  have g: "?g \<noteq> 0" using gen unat_inc64 [OF gen] by (metis add.commute add_is_0 unat_0 zero_neq_one)
  have m: "memory_ok s" and U: "{0, 1, 2} \<subseteq> U" "U \<subseteq> used_sectors s"
    and sn: "snapshots_ok (survivors (device s)) U ?n ?cap (map snap_triple (st_snapshots s))"
    and roots: "roots_ok (survivors (device s)) U s" using ok by (auto simp: store_ok_def)
  have sec: "superblock_target s = 0 \<or> superblock_target s = 1" using superblock_sectors [OF m] by auto
  obtain s1 r1 where w1: "write_wal_root s ts tc ?g = (s1, r1)" by force
  obtain d1 where
    d1: "s1 = with_device s d1" "ok d1" "evolves (device s) (\<lambda>t. if t = 2 then {encode_wal (wal_root ts tc ?g)} else {}) d1"
    and img1: "\<forall>img. image_of img (survivors d1) \<longrightarrow> recover_image img ?n ?cap \<in> {Some (live (st_table s)), Some (live c)}"
    and r1: "r1 \<longrightarrow> settled d1 \<and> visible d1 2 = encode_wal (wal_root ts tc ?g)" 
      by (rule publish_log_step [OF ok wd fresh p g w1])
  have k1: "keeps V (survivors (device s)) (survivors d1)" for V
    by (rule evolves_keeps [OF d1(3)]) (auto simp: word_le_nat_alt)
  let ?goal = "wired read_s write_s flush_s s' \<and> ok (device s') \<and> keeps V (survivors (device s)) (survivors (device s')) \<and>
    (image_of img (survivors (device s')) \<longrightarrow> recover_image img ?n ?cap \<in> {Some (live (st_table s)), Some (live c)}) \<and>
    (\<not> r \<longrightarrow> st_recovery_required s' = 1) \<and>
    (r \<longrightarrow> store_ok (survivors (device s')) U s' \<and> live (st_table s') = live c \<and>
       (\<exists>d a. s' = (with_device (install_table s c ts ?g) d)
          \<lparr>st_superblock_sequence := st_superblock_sequence s + 1, st_active_superblock_sector := a\<rparr>))"
  have ?goal
  proof (cases r1)
    case False
    then have "s' = s1\<lparr>st_recovery_required := 1\<rparr>" "\<not> r" using pub w1 by (auto simp: publish_table_def Let_def)
    then show ?thesis using d1 wd img1 k1 by (simp add: wired_def with_device_def)
  next
    case True
    have S2: "survivors d1 2 = {encode_wal (wal_root ts tc ?g)}" using r1 True by (simp add: settled_def)
    obtain s2 r2 where w2: "write_superblock (install_table s1 c ts ?g) = (s2, r2)" by force
    have m1: "memory_ok s1" using m by (simp add: d1(1) memory_ok_def bitmap_ok_def)
    have wd1: "wired read_s write_s flush_s s1" "ok (device s1)" using wd d1 by auto
    have sn1: "snapshots_ok (survivors (device s1)) U (sector_count s1) (st_table_capacity s1) (map snap_triple (st_snapshots s1))"
      using snapshots_ok_keep [OF sn k1 order_refl] by (simp add: d1(1))
    have sub: "survivors d1 t \<subseteq> survivors (device s) t" if "t \<noteq> 2" for t
      using evolves_survivors [OF d1(3), of t] that by simp
    have sec2: "st_active_superblock_sector s \<noteq> 2" "superblock_target s \<noteq> 2" using m sec by (auto simp: memory_ok_def)
    obtain b where b: "survivors (device s) (st_active_superblock_sector s) = {b}"
      "leads_to (survivors (device s)) U ?n ?cap (st_current_table_sector s) (t_count (st_table s)) (decode_superblock b)"
      "sb_sequence (decode_superblock b) = st_superblock_sequence s"
      using roots by (auto simp: roots_ok_def Let_def)
    have b1: "survivors d1 (st_active_superblock_sector s) = {b}"
      by (rule evolves_durable [OF d1(3) _ b(1)]) (use sec2 in auto)
    have fresh1: "fresh_root (survivors (device s1)) e s1"
      using fresh sub [OF sec2(1)] sub [OF sec2(2)] by (auto simp: fresh_root_def d1(1))
    have roots1: "roots_ok (survivors (device s1)) U s1"
      unfolding roots_ok_def Let_def using b1 b(3) leads_to_keep [OF b(2) k1 order_refl] fresh1
      by (auto simp: d1(1) fresh_root_def)
    have p1: "publishable (survivors (device s1)) U s1 c ts tc e"
      using publishable_keep [OF p k1] publishable_cong [of s1 s] by (simp add: d1(1))
    have S2': "survivors (device s1) 2 = {encode_wal (wal_root ts tc ?g)}" using S2 d1(1) by simp
    have seq1: "unat (st_superblock_sequence s1) + 1 < 2 ^ 64" using seq d1(1) by simp
    obtain d2 where
      d2: "evolves (device s1) (\<lambda>t. if t = superblock_target s1 then {next_superblock (install_table s1 c ts ?g)} else {}) d2"
      "s2 = (if r2 then (with_device (install_table s1 c ts ?g) d2)\<lparr>st_superblock_sequence := st_superblock_sequence s1 + 1,
             st_active_superblock_sector := superblock_target s1\<rparr> else with_device (install_table s1 c ts ?g) d2)"
      and img2: "\<forall>img. image_of img (survivors d2) \<longrightarrow> recover_image img (sector_count s1) (st_table_capacity s1) = Some (live c)"
      and S3: "survivors d2 2 = {encode_wal (wal_root ts tc ?g)}"
      and r2: "r2 \<longrightarrow> settled d2 \<and> roots_ok (survivors d2) U s2 \<and> fresh_root (survivors d2) e s2" 
      by (rule publish_switch_step [OF m1 wd1 sn1 roots1 fresh1 p1 g S2' seq1 w2])
    have k2: "keeps V (survivors d1) (survivors d2)" for V
      by (rule evolves_keeps [OF d2(1) [unfolded d1(1), simplified]]) (use sec in \<open>auto simp: word_le_nat_alt\<close>)
    have inst: "install_table (with_device s d1) c ts ?g = with_device (install_table s c ts ?g) d1"
      by (simp add: install_table_def with_device_def)
    have ok2: "ok d2" using evolves_ok [OF d2(1)] .
    show ?thesis
    proof (cases r2)
      case False
      then have "s' = s2\<lparr>st_recovery_required := 1\<rparr>" "\<not> r"
        using pub w1 w2 True by (auto simp: publish_table_def Let_def)
      then show ?thesis
        using d2(2) False d1(1) wd ok2 img2 keeps_trans [OF k1 k2] by (simp add: wired_def with_device_def)
    next
      case t2: True
      obtain s3 r3 where w3: "clear_wal s2 = (s3, r3)" by force
      have s2: "s2 = (with_device (install_table s c ts ?g) d2)\<lparr>st_superblock_sequence := st_superblock_sequence s + 1,
             st_active_superblock_sector := superblock_target s\<rparr>"
        using d2(2) t2 by (simp add: d1(1) inst)
      have p2: "publishable (survivors d2) U s c ts tc e" using publishable_keep [OF p keeps_trans [OF k1 k2]] .
      have m2: "memory_ok s2"
        using memory_ok_install [OF m p2, of ?g] sec by (auto simp: s2 memory_ok_def bitmap_ok_def)
      have us: "U \<subseteq> used_sectors s2" using U(2) bitmap_test_cong [of s2 s] by (simp add: s2 used_sectors_def)
      have wd2: "wired read_s write_s flush_s s2" "ok (device s2)" using wd ok2 by (auto simp: s2 wired_def with_device_def)
      have sn2: "snapshots_ok (survivors (device s2)) U (sector_count s2) (st_table_capacity s2) (map snap_triple (st_snapshots s2))"
        using snapshots_ok_keep [OF sn keeps_trans [OF k1 k2] order_refl] by (simp add: s2)
      have tab: "live (st_table s2) = live c"
        using install_table_live(1) [of c s ts ?g] m p by (simp add: s2 memory_ok_def publishable_def)
      have rf: "roots_ok (survivors (device s2)) U s2" "fresh_root (survivors (device s2)) e s2"
        using r2 t2 by (auto simp: s2)
      have pc: "publishable (survivors (device s2)) U s2 c (st_current_table_sector s2) tc e"
        using p2 publishable_cong [of s2 s] by (simp add: s2)
      have S4: "survivors (device s2) 2 = {encode_wal (wal_root (st_current_table_sector s2) tc ?g)}"
        using S3 by (simp add: s2)
      obtain d3 where
        d3: "s3 = with_device s2 d3" "evolves (device s2) (\<lambda>t. if t = 2 then {empty_sector} else {}) d3"
        and img3: "\<forall>img. image_of img (survivors d3) \<longrightarrow> recover_image img (sector_count s2) (st_table_capacity s2) = Some (live c)"
        and r3: "r3 \<longrightarrow> settled d3 \<and> store_ok (survivors d3) U s3" 
      by (rule publish_clear_step [OF m2 U(1) us wd2 sn2 rf pc g tab S4 w3])
      have k3: "keeps V (survivors d2) (survivors d3)"
        by (rule evolves_keeps [OF d3(2) [unfolded s2, simplified]]) (auto simp: word_le_nat_alt)
      have s': "s' = (if r3 then s3 else s3\<lparr>st_recovery_required := 1\<rparr>)" "r = r3"
        using pub w1 w2 w3 True t2 by (auto simp: publish_table_def Let_def split: bool.splits)
      have fin: "s3 = (with_device (install_table s c ts ?g) d3)\<lparr>st_superblock_sequence := st_superblock_sequence s + 1,
             st_active_superblock_sector := superblock_target s\<rparr>"
        by (simp add: d3(1) s2 with_device_def)
      have wd3: "wired read_s write_s flush_s s'" "device s' = d3" "ok d3"
        using s'(1) wd2(1) evolves_ok [OF d3(2)] by (auto simp: d3(1) wired_def with_device_def)
      have im: "image_of img (survivors d3) \<longrightarrow> recover_image img ?n ?cap = Some (live c)"
        using img3 by (simp add: s2)
      have res: "r \<longrightarrow> store_ok (survivors d3) U s' \<and> live (st_table s') = live c \<and> s' = s3"
        using s' r3 tab by (simp add: d3(1))
      have "\<not> r \<longrightarrow> st_recovery_required s' = 1" using s' by simp
      then show ?thesis
        unfolding wd3(2) using wd3 im res fin keeps_trans [OF keeps_trans [OF k1 k2] k3] by blast
    qed
  qed
  then show "wired read_s write_s flush_s s'" "ok (device s')"
    "keeps V (survivors (device s)) (survivors (device s'))"
    "image_of img (survivors (device s')) \<Longrightarrow>
      recover_image img (sector_count s) (st_table_capacity s) \<in> {Some (live (st_table s)), Some (live c)}"
    "\<not> r \<Longrightarrow> st_recovery_required s' = 1"
    "r \<Longrightarrow> store_ok (survivors (device s')) U s' \<and> live (st_table s') = live c \<and>
       (\<exists>d a. s' = (with_device (install_table s c ts ?g) d)
          \<lparr>st_superblock_sequence := st_superblock_sequence s + 1, st_active_superblock_sector := a\<rparr>)"
    by blast+
qed

end

end
