(* ===== verification/Store_Staging.thy ===== *)
theory Store_Staging
  imports Store_Publish
begin

text \<open>
  The first half of \<open>object_store_put_many\<close>, which works in memory only: staging the
  requests on a copy of the table, and allocating their extents.
\<close>

section \<open>The candidate table\<close>

lemma candidate_table_facts:
  assumes "memory_ok s"
  shows "table_inv (candidate_table s)" "live (candidate_table s) = live (st_table s)"
    "t_capacity (candidate_table s) = st_table_capacity s" "t_count (candidate_table s) = t_count (st_table s)"
proof -
  from assms obtain es where es: "st_scratch_entries s = Some es" "length es = st_table_capacity s"
    and t: "table_inv (st_table s)" "t_capacity (st_table s) = st_table_capacity s"
    by (auto simp: memory_ok_def)
  have c: "candidate_table s = \<lparr>entries = take (t_count (st_table s)) (entries (st_table s)) @ drop (t_count (st_table s)) es,
      t_count = t_count (st_table s), t_capacity = st_table_capacity s\<rparr>"
    by (simp add: candidate_table_def object_table_init_def es Let_def)
  show l: "live (candidate_table s) = live (st_table s)" using t by (simp add: c live_def table_inv_def)
  show "t_capacity (candidate_table s) = st_table_capacity s" "t_count (candidate_table s) = t_count (st_table s)"
    by (simp_all add: c)
  show "table_inv (candidate_table s)" using t es l by (simp add: table_inv_def) (simp add: c)
qed

section \<open>Staging\<close>

definition stub_entry :: "object_store_staged_put \<Rightarrow> object_table_entry" where
  "stub_entry p = \<lparr>e_id = rq_id (sp_request p), e_version = sp_version p, e_first_sector = 3,
     e_sector_count = sp_sector_count p\<rparr>"

definition staged_for :: "'d object_store \<Rightarrow> object_store_put_request \<Rightarrow> object_store_staged_put \<Rightarrow> bool" where
  "staged_for s r p \<longleftrightarrow> p = stage_request s r \<and> object_store_put_request_is_valid s r \<and>
     sp_version p \<noteq> 0 \<and> sp_sector_count p \<noteq> 0"

lemma stage_requests_Some:
  assumes "stage_requests s earlier rs cand = Some (staged, cand')" "distinct (map rq_id earlier)"
  shows "list_all2 (staged_for s) rs staged" "distinct (map rq_id (earlier @ rs))"
    "fold_opt object_table_upsert cand (map stub_entry staged) = Some cand'"
proof -
  have "list_all2 (staged_for s) rs staged \<and> distinct (map rq_id (earlier @ rs)) \<and>
      fold_opt object_table_upsert cand (map stub_entry staged) = Some cand'"
    using assms
  proof (induction rs arbitrary: earlier cand staged)
    case (Cons r rs)
    from Cons.prems(1) obtain c1 staged1 where
      v: "object_store_put_request_is_valid s r" "\<not> list_ex (\<lambda>q. object_id_equal (rq_id q) (rq_id r)) earlier"
      "sp_sector_count (stage_request s r) \<noteq> 0" "sp_version (stage_request s r) \<noteq> 0"
      and up: "object_table_upsert cand (stub_entry (stage_request s r)) = Some c1"
      and rec: "stage_requests s (earlier @ [r]) rs c1 = Some (staged1, cand')"
      and st: "staged = stage_request s r # staged1"
      by (auto simp: Let_def stub_entry_def stage_request_def OBJECT_STORE_FIRST_ALLOCATABLE_SECTOR_def
          split: if_splits option.splits prod.splits)
    have "distinct (map rq_id (earlier @ [r]))" using Cons.prems(2) v(2) by (auto simp: list_ex_iff)
    from Cons.IH [OF rec this] v up st show ?case
      by (auto simp: staged_for_def stage_request_def Let_def)
  qed simp
  then show "list_all2 (staged_for s) rs staged" "distinct (map rq_id (earlier @ rs))"
    "fold_opt object_table_upsert cand (map stub_entry staged) = Some cand'" by auto
qed

lemma stage_request_fields:
  "sp_request (stage_request s r) = r" "sp_object_byte_count (stage_request s r) = 128 + rq_payload_size r"
  "sp_sector_count (stage_request s r) = of_nat ((128 + rq_payload_size r) div 512) +
     (if (128 + rq_payload_size r) mod 512 \<noteq> 0 then 1 else 0)"
  by (simp_all add: stage_request_def Let_def)

lemma staged_for_id: "staged_for s r p \<Longrightarrow> sp_request p = r"
  by (simp add: staged_for_def stage_request_fields)

lemma staged_sectors:
  assumes "object_store_put_request_is_valid s r"
  shows "128 + rq_payload_size r \<le> unat (sp_sector_count (stage_request s r)) * 512"
    "unat (sp_sector_count (stage_request s r)) * 512 < 128 + rq_payload_size r + 512"
proof -
  let ?b = "128 + rq_payload_size r"
  have b: "?b < 2 ^ 64" using assms by (auto simp: object_store_put_request_is_valid_def split: if_splits)
  define q m where "q = ?b div 512" and "m = ?b mod 512"
  have qm: "?b = q * 512 + m" "m < 512" by (simp_all add: q_def m_def)
  have "q + 1 < 2 ^ 64" using b qm by simp
  then have "unat (of_nat (q + 1) :: u64) = q + 1" "unat (of_nat q :: u64) = q"
    using unat_of_nat64 [of "q + 1"] unat_of_nat64 [of q] by simp_all
  then have c: "unat (sp_sector_count (stage_request s r)) = (if m = 0 then q else q + 1)"
    unfolding stage_request_fields q_def [symmetric] m_def [symmetric] by (simp add: add.commute)
  show "?b \<le> unat (sp_sector_count (stage_request s r)) * 512"
    "unat (sp_sector_count (stage_request s r)) * 512 < ?b + 512"
    unfolding c using qm by (simp_all split: if_splits)
qed

lemma staged_for_ok:
  assumes "staged_for s r p" "request_backed r"
  shows "staged_ok s (p\<lparr>sp_first_sector := f\<rparr>)"
proof -
  have p: "p = stage_request s r" "object_store_put_request_is_valid s r" "sp_version p \<noteq> 0" "sp_sector_count p \<noteq> 0"
    using assms(1) by (auto simp: staged_for_def)
  then show ?thesis
    using staged_sectors [OF p(2)] assms(2) unfolding staged_ok_def by (simp add: stage_request_fields(1,2))
qed

section \<open>Allocation\<close>

definition staged_extent :: "object_store_staged_put \<Rightarrow> u64 set" where
  "staged_extent p = extent (sp_first_sector p) (sp_sector_count p)"

text \<open>Only the bitmap and the allocation bound of the store differ.\<close>

definition without_alloc :: "'d object_store \<Rightarrow> 'd object_store" where
  "without_alloc s = s\<lparr>st_bitmap_buffer := [], st_next_sector := 0\<rparr>"

definition alloc_frame :: "'d object_store \<Rightarrow> 'd object_store \<Rightarrow> bool" where
  "alloc_frame s s' \<longleftrightarrow> without_alloc s' = without_alloc s \<and>
     length (st_bitmap_buffer s') = length (st_bitmap_buffer s)"

lemma alloc_frame_refl [simp]: "alloc_frame s s"
  by (simp add: alloc_frame_def)

lemma alloc_frame_trans [trans]: "alloc_frame s t \<Longrightarrow> alloc_frame t u \<Longrightarrow> alloc_frame s u"
  by (simp add: alloc_frame_def)

lemma without_alloc_next [simp]: "without_alloc (s\<lparr>st_next_sector := x\<rparr>) = without_alloc s"
  by (simp add: without_alloc_def)

lemma alloc_frame_next [simp]: "alloc_frame s (t\<lparr>st_next_sector := x\<rparr>) = alloc_frame s t"
  by (simp add: alloc_frame_def)

lemma alloc_frame_bitmap: "bitmap_frame s t \<Longrightarrow> alloc_frame s t"
  by (auto simp: alloc_frame_def bitmap_frame_def without_alloc_def)

lemma alloc_frame_fields:
  assumes "alloc_frame s s'"
  shows "st_io s' = st_io s" "st_table s' = st_table s" "st_scratch_entries s' = st_scratch_entries s"
    "st_table_capacity s' = st_table_capacity s" "st_cache_buffer s' = st_cache_buffer s"
    "st_cache_capacity s' = st_cache_capacity s" "st_current_table_sector s' = st_current_table_sector s"
    "st_current_generation s' = st_current_generation s" "st_superblock_sequence s' = st_superblock_sequence s"
    "st_active_superblock_sector s' = st_active_superblock_sector s"
    "st_recovery_required s' = st_recovery_required s" "st_snapshots s' = st_snapshots s"
    "without_alloc s' = without_alloc s"
  using assms by (cases s; cases s'; simp add: alloc_frame_def without_alloc_def)+

lemma alloc_frame_derived:
  assumes "alloc_frame s s'"
  shows "bitmap_ok s' = bitmap_ok s" "superblock_target s' = superblock_target s"
    "wired r w f s' = wired r w f s" "cache_ok s' = cache_ok s"
  using assms by (cases s; cases s'; simp add: alloc_frame_def without_alloc_def bitmap_ok_def cache_ok_def slot_at_def
      superblock_target_def wired_def)+

lemma used_sectors_next [simp]: "used_sectors (s\<lparr>st_next_sector := x\<rparr>) = used_sectors s"
  by (simp add: used_sectors_def bitmap_test_def)

lemma bitmap_ok_next [simp]: "bitmap_ok (s\<lparr>st_next_sector := x\<rparr>) = bitmap_ok s"
  by (simp add: bitmap_ok_def)

lemma bitmap_ok_used_inside:
  "t \<in> extent f c \<Longrightarrow> unat f + unat c \<le> unat n \<Longrightarrow> t < n"
  using unat_extent [of f c n t] by (simp add: word_less_nat_alt)

text \<open>
  From \<open>s\<close> to \<open>s'\<close> the extents of \<open>ps\<close> were allocated: they were free, they lie
  inside the device and they do not overlap.
\<close>

definition allocated :: "'d object_store \<Rightarrow> 'd object_store \<Rightarrow> (u64 \<times> u64) list \<Rightarrow> bool" where
  "allocated s s' xs \<longleftrightarrow> alloc_frame s s' \<and>
     used_sectors s' = used_sectors s \<union> (\<Union>(f, c)\<in>set xs. extent f c) \<and>
     (\<forall>(f, c)\<in>set xs. extent f c \<inter> used_sectors s = {} \<and> 3 \<le> f \<and> unat f + unat c \<le> unat (sector_count s)) \<and>
     sorted_wrt (\<lambda>(f, c) (g, d). extent f c \<inter> extent g d = {}) xs \<and>
     st_next_sector s \<le> st_next_sector s' \<and>
     (st_next_sector s \<le> sector_count s \<longrightarrow> st_next_sector s' \<le> sector_count s)"

definition extent_of :: "object_store_staged_put \<Rightarrow> u64 \<times> u64" where
  "extent_of p = (sp_first_sector p, sp_sector_count p)"

lemma allocated_Nil: "allocated s s []"
  by (simp add: allocated_def)

lemma allocated_raise:
  assumes "allocated s s' xs" "x \<le> sector_count s"
  shows "allocated s (raise_next_sector s' x) xs" "x \<le> st_next_sector (raise_next_sector s' x)"
  using assms by (auto simp: allocated_def raise_next_sector_def)

lemma allocated_one:
  assumes "bitmap_allocate s c = Some (s1, f)" "bitmap_ok s" "3 \<le> sector_count s"
  shows "allocated s s1 [(f, c)]" "bitmap_ok s1" "st_next_sector s1 = st_next_sector s"
proof -
  note a = bitmap_allocate_Some [OF assms]
  show "bitmap_ok s1" by (rule a(2))
  show n: "st_next_sector s1 = st_next_sector s" using a(1) by (auto simp: bitmap_frame_def)
  show "allocated s s1 [(f, c)]"
    using a(3-6) alloc_frame_bitmap [OF a(1)] n by (simp add: allocated_def)
qed

lemma allocated_trans:
  assumes a: "allocated s t xs" and b: "allocated t u ys"
  shows "allocated s u (xs @ ys)"
proof -
  have fr: "alloc_frame s t" "alloc_frame t u" using a b by (auto simp: allocated_def)
  have n: "sector_count t = sector_count s" using alloc_frame_fields(1) [OF fr(1)] by simp
  have u: "used_sectors t = used_sectors s \<union> (\<Union>(f, c)\<in>set xs. extent f c)" using a by (simp add: allocated_def)
  have y: "extent f c \<inter> used_sectors s = {} \<and> (\<forall>(g, d)\<in>set xs. extent g d \<inter> extent f c = {})"
    if "(f, c) \<in> set ys" for f c
    using b that unfolding allocated_def u by blast
  show ?thesis
    unfolding allocated_def
  proof (intro conjI)
    show "alloc_frame s u" using alloc_frame_trans [OF fr] .
    show "used_sectors u = used_sectors s \<union> (\<Union>(f, c)\<in>set (xs @ ys). extent f c)"
      using b u by (auto simp: allocated_def)
    show "\<forall>(f, c)\<in>set (xs @ ys). extent f c \<inter> used_sectors s = {} \<and> 3 \<le> f \<and> unat f + unat c \<le> unat (sector_count s)"
      using a b y n by (auto simp: allocated_def)
    show "sorted_wrt (\<lambda>(f, c) (g, d). extent f c \<inter> extent g d = {}) (xs @ ys)"
      using a b y unfolding allocated_def sorted_wrt_append by fast
    show "st_next_sector s \<le> st_next_sector u" "st_next_sector s \<le> sector_count s \<longrightarrow> st_next_sector u \<le> sector_count s"
      using a b n by (auto simp: allocated_def)
  qed
qed

lemma set_first_sector_result:
  assumes "table_inv t" "k < t_count t" "f \<noteq> 0"
  shows "table_inv (set_first_sector t k f)" "t_count (set_first_sector t k f) = t_count t"
    "t_capacity (set_first_sector t k f) = t_capacity t"
    "table_map (set_first_sector t k f) = (table_map t)(e_id (entries t ! k) \<mapsto> (entries t ! k)\<lparr>e_first_sector := f\<rparr>)"
proof -
  let ?e = "(entries t ! k)\<lparr>e_first_sector := f\<rparr>"
  have len: "t_count t \<le> length (entries t)" using assms(1) by (simp add: table_inv_def)
  then have l: "live (set_first_sector t k f) = (live t)[k := ?e]"
    using assms(2) by (simp add: live_def set_first_sector_def take_update_swap)
  have k: "k < length (live t)" "live t ! k = entries t ! k" using assms(2) len by (simp_all add: live_def)
  have ids: "map e_id ((live t)[k := ?e]) = map e_id (live t)"
    using k by (simp add: map_update list_update_same_conv)
  then have srt: "ids_sorted ((live t)[k := ?e])" using assms(1) by (simp add: table_inv_def ids_sorted_def)
  have "entry_ok (entries t ! k)" using assms(1) k by (metis table_inv_def list_all_length)
  then have "list_all entry_ok ((live t)[k := ?e])"
    using assms(1,3) by (auto simp: table_inv_def list_all_iff entry_ok_def dest!: set_update_subset_insert [THEN subsetD])
  then show "table_inv (set_first_sector t k f)"
    using assms(1) srt by (simp add: table_inv_def l) (simp add: set_first_sector_def)
  show "t_count (set_first_sector t k f) = t_count t" "t_capacity (set_first_sector t k f) = t_capacity t"
    by (simp_all add: set_first_sector_def)
  have s0: "ids_sorted (live t)" using assms(1) by (simp add: table_inv_def)
  show "table_map (set_first_sector t k f) = (table_map t)(e_id (entries t ! k) \<mapsto> ?e)"
  proof
    fix i
    have "entry_map ((live t)[k := ?e]) i = Some x \<longleftrightarrow> ((table_map t)(e_id (entries t ! k) \<mapsto> ?e)) i = Some x" for x
    proof (cases "i = e_id (entries t ! k)")
      case True
      have "?e \<in> set ((live t)[k := ?e])" using k by (simp add: set_update_memI)
      then have "entry_map ((live t)[k := ?e]) i = Some ?e" using entry_map_Some_iff [OF srt] True by simp
      then show ?thesis using True by simp
    next
      case False
      have "x \<in> set ((live t)[k := ?e]) \<longleftrightarrow> x \<in> set (live t)" if "e_id x = i" for x
      proof -
        have "x \<noteq> ?e" "x \<noteq> live t ! k" using that False k by auto
        then show ?thesis using k by (auto simp: in_set_conv_nth nth_list_update)
      qed
      then show ?thesis using False by (auto simp: table_map_def entry_map_Some_iff [OF srt] entry_map_Some_iff [OF s0])
    qed
    then show "table_map (set_first_sector t k f) i = ((table_map t)(e_id (entries t ! k) \<mapsto> ?e)) i"
      unfolding table_map_def l by (metis not_Some_eq)
  qed
qed

lemma allocate_requests_Cons:
  assumes "allocate_requests s c (p # ps) = (s', c', ps', r)" "bitmap_allocate s (sp_sector_count p) = Some (s1, f)"
    "bitmap_ok s" "3 \<le> sector_count s"
  defines "p1 \<equiv> p\<lparr>sp_first_sector := f\<rparr>" and "s2 \<equiv> raise_next_sector s1 (f + sp_sector_count p)"
  shows "\<not> r \<and> ps' = [p1] \<and> s' \<in> {s1, s2} \<or>
    (\<exists>k ps3. k < t_count c \<and> e_id (entries c ! k) = rq_id (sp_request p) \<and> ps' = p1 # ps3 \<and>
       allocate_requests s2 (set_first_sector c k f) ps = (s', c', ps3, r))"
proof (cases "f > UINT64_MAX - sp_sector_count p")
  case True
  then show ?thesis using assms by (auto simp: Let_def)
next
  case False
  show ?thesis
  proof (cases "List.find (\<lambda>k. object_id_equal (e_id (entries c ! k)) (rq_id (sp_request p))) [0..<t_count c]")
    case None
    then show ?thesis using assms False by (auto simp: Let_def raise_next_sector_def)
  next
    case (Some k)
    obtain a b d e where rec: "allocate_requests s2 (set_first_sector c k f) ps = (a, b, d, e)" by (metis prod_cases4)
    then have "s' = a" "c' = b" "ps' = p1 # d" "r = e"
      using assms(1,2) False Some by (auto simp: Let_def raise_next_sector_def p1_def s2_def split: if_splits)
    then show ?thesis using find_upt_Some(1,2) [OF Some] rec by auto
  qed
qed

lemma extent_end:
  assumes "unat f + unat c \<le> unat (n :: u64)"
  shows "unat (f + c) = unat f + unat c" "f + c \<le> n"
  using assms unat64_less [of n] by (simp_all add: unat_word_ariths word_le_nat_alt)

lemma allocate_requests_allocated:
  assumes "allocate_requests s c ps = (s', c', ps', r)" "bitmap_ok s" "3 \<le> sector_count s"
  shows "allocated s s' (map extent_of ps') \<and> bitmap_ok s'"
  using assms
proof (induction ps arbitrary: s c ps')
  case Nil
  then show ?case by (simp add: allocated_Nil)
next
  case (Cons p ps)
  show ?case
  proof (cases "bitmap_allocate s (sp_sector_count p)")
    case None
    then show ?thesis using Cons.prems by (simp add: allocated_Nil)
  next
    case (Some a)
    obtain s1 f where a: "bitmap_allocate s (sp_sector_count p) = Some (s1, f)" using Some by (cases a) auto
    let ?p = "p\<lparr>sp_first_sector := f\<rparr>" and ?s = "raise_next_sector s1 (f + sp_sector_count p)"
    note one = allocated_one [OF a Cons.prems(2,3)]
    have le: "f + sp_sector_count p \<le> sector_count s"
      using extent_end [of f "sp_sector_count p"] bitmap_allocate_Some(6) [OF a Cons.prems(2,3)] by blast
    have ok: "bitmap_ok ?s" using one(2) by (simp add: raise_next_sector_def)
    have two: "allocated s ?s [extent_of ?p]" using allocated_raise [OF one(1) le] by (simp add: extent_of_def)
    have "alloc_frame s ?s" using two by (simp add: allocated_def)
    then have io: "sector_count ?s = sector_count s" by (simp add: alloc_frame_fields(1))
    from allocate_requests_Cons [OF Cons.prems(1) a Cons.prems(2,3)] show ?thesis
    proof (elim disjE conjE exE)
      assume "ps' = [?p]" "s' \<in> {s1, ?s}"
      then show ?thesis using one two ok by (auto simp: extent_of_def)
    next
      fix k ps3 assume "ps' = ?p # ps3" "allocate_requests ?s (set_first_sector c k f) ps = (s', c', ps3, r)"
      moreover from this have "allocated ?s s' (map extent_of ps3) \<and> bitmap_ok s'"
        using ok Cons.prems(3) io by (intro Cons.IH) simp_all
      ultimately show ?thesis using allocated_trans [OF two, of s' "map extent_of ps3"] by simp
    qed
  qed
qed

text \<open>The candidate knows a staged request up to its first sector.\<close>

definition staged_in :: "object_table \<Rightarrow> object_store_staged_put \<Rightarrow> bool" where
  "staged_in t p \<longleftrightarrow> (\<exists>e. table_map t (rq_id (sp_request p)) = Some e \<and>
     e_version e = sp_version p \<and> e_sector_count e = sp_sector_count p)"

abbreviation staged_id :: "object_store_staged_put \<Rightarrow> object_id" where
  "staged_id p \<equiv> rq_id (sp_request p)"

definition assigns :: "object_table \<Rightarrow> object_store_staged_put list \<Rightarrow> object_table \<Rightarrow> bool" where
  "assigns c ps c' \<longleftrightarrow> table_inv c' \<and> t_count c' = t_count c \<and> t_capacity c' = t_capacity c \<and>
     (\<forall>p\<in>set ps. table_map c' (staged_id p) = Some (staged_entry p)) \<and>
     (\<forall>i. i \<notin> staged_id ` set ps \<longrightarrow> table_map c' i = table_map c i)"

definition placed :: "object_store_staged_put \<Rightarrow> object_store_staged_put \<Rightarrow> bool" where
  "placed p p' \<longleftrightarrow> (\<exists>f. p' = p\<lparr>sp_first_sector := f\<rparr>)"

lemma placed_update [simp]: "placed p (p\<lparr>sp_first_sector := f\<rparr>)"
  by (auto simp: placed_def)

lemma assign_one:
  assumes "table_inv c" "k < t_count c" "e_id (entries c ! k) = staged_id p" "staged_in c p" "f \<noteq> 0"
  shows "assigns c [p\<lparr>sp_first_sector := f\<rparr>] (set_first_sector c k f)"
proof -
  note r = set_first_sector_result [OF assms(1,2,5)]
  have "entries c ! k \<in> set (live c)" using assms(1,2) by (auto simp: live_def table_inv_def in_set_conv_nth)
  then have "table_map c (staged_id p) = Some (entries c ! k)"
    using assms(1,3) by (simp add: table_map_def table_inv_def entry_map_Some_iff)
  then have "(entries c ! k)\<lparr>e_first_sector := f\<rparr> = staged_entry (p\<lparr>sp_first_sector := f\<rparr>)"
    using assms(3,4) by (simp add: staged_in_def staged_entry_def)
  then show ?thesis using r assms(3) by (simp add: assigns_def)
qed

lemma allocate_requests_assigns:
  assumes "allocate_requests s c ps = (s', c', ps', True)" "bitmap_ok s" "3 \<le> sector_count s"
    "table_inv c" "distinct (map staged_id ps)" "\<forall>p\<in>set ps. staged_in c p"
  shows "list_all2 placed ps ps' \<and> assigns c ps' c' \<and>
    (\<forall>p\<in>set ps'. unat (sp_first_sector p) + unat (sp_sector_count p) \<le> unat (st_next_sector s'))"
  using assms
proof (induction ps arbitrary: s c ps')
  case Nil
  then show ?case by (simp add: assigns_def)
next
  case (Cons p ps)
  obtain s1 f where a: "bitmap_allocate s (sp_sector_count p) = Some (s1, f)"
    using Cons.prems(1) by (auto split: option.splits)
  let ?p = "p\<lparr>sp_first_sector := f\<rparr>" and ?s = "raise_next_sector s1 (f + sp_sector_count p)"
  note one = allocated_one [OF a Cons.prems(2,3)] and al = bitmap_allocate_Some [OF a Cons.prems(2,3)]
  obtain k ps3 where k: "k < t_count c" "e_id (entries c ! k) = staged_id p" "ps' = ?p # ps3"
    and rec: "allocate_requests ?s (set_first_sector c k f) ps = (s', c', ps3, True)"
    using allocate_requests_Cons [OF Cons.prems(1) a Cons.prems(2,3)] by blast
  have f: "f \<noteq> 0" using al(5) by auto
  have as1: "assigns c [?p] (set_first_sector c k f)"
    by (rule assign_one [OF Cons.prems(4) k(1,2) _ f]) (use Cons.prems(6) in simp)
  have ok: "bitmap_ok ?s" "sector_count ?s = sector_count s"
    using one(2) bitmap_frame_io [OF al(1)] by (simp_all add: raise_next_sector_def)
  have st: "\<forall>q\<in>set ps. staged_in (set_first_sector c k f) q"
    using Cons.prems(5,6) as1 by (auto simp: staged_in_def assigns_def image_iff)
  have inv: "table_inv (set_first_sector c k f)" using as1 by (simp add: assigns_def)
  have IH: "list_all2 placed ps ps3"
    "assigns (set_first_sector c k f) ps3 c'"
    "\<forall>p\<in>set ps3. unat (sp_first_sector p) + unat (sp_sector_count p) \<le> unat (st_next_sector s')"
    using Cons.IH [OF rec ok(1) _ inv _ st] ok(2) Cons.prems(3,5) by auto
  have ids: "map staged_id ps3 = map staged_id ps"
    using IH(1) by (induction rule: list_all2_induct) (auto simp: placed_def)
  then have fresh: "staged_id p \<notin> staged_id ` set ps3"
    using Cons.prems(5) by (metis distinct.simps(2) list.set_map list.simps(9))
  have "st_next_sector ?s \<le> st_next_sector s'"
    using allocate_requests_allocated [OF rec ok(1)] ok(2) Cons.prems(3) by (simp add: allocated_def)
  moreover have "f + sp_sector_count p \<le> st_next_sector ?s" by (simp add: raise_next_sector_def not_less)
  ultimately have "f + sp_sector_count p \<le> st_next_sector s'" by order
  then have next_: "unat f + unat (sp_sector_count p) \<le> unat (st_next_sector s')"
    using extent_end(1) [OF al(6)] by (simp add: word_le_nat_alt)
  have "assigns c ps' c'" using as1 IH(2) fresh by (auto simp: assigns_def k(3))
  then show ?case using IH(1,3) next_ by (simp add: k(3))
qed

section \<open>Giving allocations back\<close>

lemma clear_ranges_result:
  fixes ps :: "object_store_staged_put list"
  assumes "bitmap_ok s"
  defines "s' \<equiv> foldl (\<lambda>s p. bitmap_clear_range s (sp_first_sector p) (sp_sector_count p)) s ps"
  shows "alloc_frame s s' \<and> bitmap_ok s' \<and>
    used_sectors s' = used_sectors s - (\<Union>(f, c)\<in>set (map extent_of ps). extent f c \<inter> {t. t < sector_count s})"
  using assms(1) unfolding s'_def
proof (induction ps arbitrary: s)
  case (Cons p ps)
  let ?s = "bitmap_clear_range s (sp_first_sector p) (sp_sector_count p)"
  note c = bitmap_clear_range_result [OF Cons.prems, of "sp_first_sector p" "sp_sector_count p"]
  have "sector_count ?s = sector_count s" using bitmap_frame_io [OF c(1)] by simp
  with Cons.IH [OF c(2)] alloc_frame_trans [OF alloc_frame_bitmap [OF c(1)]] c(3) show ?case
    by (auto simp: extent_of_def)
qed simp

lemma reject_result:
  fixes ps :: "object_store_staged_put list" and tab :: "(u64 \<times> nat) option" and x :: u64
  assumes "bitmap_ok s"
  defines "s' \<equiv> reject_allocations s ps tab x"
    and "xs \<equiv> map extent_of ps @ (case tab of None \<Rightarrow> [] | Some (ts, c) \<Rightarrow> [(ts, of_nat c)])"
  shows "alloc_frame s s'" "st_next_sector s' = x"
    "used_sectors s' = used_sectors s - (\<Union>(f, c)\<in>set xs. extent f c \<inter> {t. t < sector_count s})"
proof -
  define s1 where "s1 = foldl (\<lambda>s p. bitmap_clear_range s (sp_first_sector p) (sp_sector_count p)) s ps"
  have c: "alloc_frame s s1" "bitmap_ok s1"
    "used_sectors s1 = used_sectors s - (\<Union>(f, c)\<in>set (map extent_of ps). extent f c \<inter> {t. t < sector_count s})"
    using clear_ranges_result [OF assms(1), of ps] by (simp_all add: s1_def)
  have n: "sector_count s1 = sector_count s" using alloc_frame_fields(1) [OF c(1)] by simp
  show "st_next_sector s' = x" by (simp add: s'_def reject_allocations_def Let_def)
  define s2 where "s2 = (case tab of None \<Rightarrow> s1 | Some (ts, c) \<Rightarrow> bitmap_clear_range s1 ts (of_nat c))"
  have s': "s' = s2\<lparr>st_next_sector := x\<rparr>"
    by (simp add: s'_def reject_allocations_def Let_def s1_def s2_def split: option.splits)
  have "alloc_frame s s2 \<and>
    used_sectors s2 = used_sectors s - (\<Union>(f, c)\<in>set xs. extent f c \<inter> {t. t < sector_count s})"
  proof (cases tab)
    case None
    then show ?thesis using c by (simp add: s2_def xs_def)
  next
    case (Some a)
    obtain ts k where a: "a = (ts, k)" by force
    note r = bitmap_clear_range_result [OF c(2), of ts "of_nat k"]
    have "alloc_frame s s2" using alloc_frame_trans [OF c(1) alloc_frame_bitmap [OF r(1)]] Some a by (simp add: s2_def)
    moreover have "used_sectors s2 = used_sectors s1 - extent ts (of_nat k) \<inter> {t. t < sector_count s}"
      using r(3) Some a n by (simp add: s2_def)
    ultimately show ?thesis unfolding c(3) using Some a by (simp add: xs_def Diff_eq Int_assoc Int_commute Int_left_commute)
  qed
  then show "alloc_frame s s'"
    "used_sectors s' = used_sectors s - (\<Union>(f, c)\<in>set xs. extent f c \<inter> {t. t < sector_count s})"
    by (simp_all add: s')
qed

lemma released:
  assumes "allocated s t xs" "used_sectors u = used_sectors t" "sector_count u = sector_count s"
    "used_sectors v = used_sectors u - (\<Union>(f, c)\<in>set xs. extent f c \<inter> {t. t < sector_count u})"
  shows "used_sectors v = used_sectors s"
proof -
  define X where "X = (\<Union>(f, c)\<in>set xs. extent f c)"
  have in_dev: "extent f c \<inter> {t. t < sector_count u} = extent f c" if "(f, c) \<in> set xs" for f c
  proof -
    have "unat f + unat c \<le> unat (sector_count s)" using assms(1) that unfolding allocated_def by fast
    then show ?thesis using bitmap_ok_used_inside assms(3) by auto
  qed
  have "(\<Union>(f, c)\<in>set xs. extent f c \<inter> {t. t < sector_count u}) = X"
    unfolding X_def by (rule SUP_cong) (use in_dev in \<open>auto split: prod.split\<close>)
  moreover have "X \<inter> used_sectors s = {}" using assms(1) unfolding X_def allocated_def by blast
  moreover have "used_sectors u = used_sectors s \<union> X" using assms(1,2) by (simp add: allocated_def X_def)
  ultimately show ?thesis using assms(4) by (simp add: Un_Diff Diff_triv Int_commute)
qed

section \<open>The invariant and allocation\<close>

definition next_ok :: "'d object_store \<Rightarrow> u64 \<Rightarrow> bool" where
  "next_ok s x \<longleftrightarrow> 3 \<le> x \<and> x \<le> sector_count s \<and>
     (st_current_table_sector s = 0 \<and> t_count (st_table s) = 0 \<or>
      3 \<le> st_current_table_sector s \<and> unat (st_current_table_sector s) + t_count (st_table s) \<le> unat x)"

lemma next_ok_memory: "memory_ok s \<Longrightarrow> next_ok s (st_next_sector s)"
  by (simp add: memory_ok_def next_ok_def)

lemma next_ok_mono: "next_ok s x \<Longrightarrow> x \<le> y \<Longrightarrow> y \<le> sector_count s \<Longrightarrow> next_ok s y"
  by (auto simp: next_ok_def word_le_nat_alt)

lemma store_ok_alloc_frame:
  assumes "store_ok S U s" "alloc_frame s s'" "U \<subseteq> used_sectors s'" "next_ok s (st_next_sector s')"
  shows "store_ok S U s'"
  using assms(1,3,4) alloc_frame_fields [OF assms(2)] alloc_frame_derived [OF assms(2)]
  by (simp add: store_ok_def memory_ok_def roots_ok_def next_ok_def)

lemma store_ok_allocated:
  assumes "store_ok S U s" "allocated s s' xs"
  shows "store_ok S U s'" "next_ok s (st_next_sector s')"
proof -
  have m: "memory_ok s" "U \<subseteq> used_sectors s" using assms(1) by (auto simp: store_ok_def)
  have "st_next_sector s \<le> sector_count s" using m(1) by (simp add: memory_ok_def)
  then show n: "next_ok s (st_next_sector s')"
    using next_ok_mono [OF next_ok_memory [OF m(1)]] assms(2) by (simp add: allocated_def)
  show "store_ok S U s'"
    by (rule store_ok_alloc_frame [OF assms(1) _ _ n]) (use assms(2) m(2) in \<open>auto simp: allocated_def\<close>)
qed

end
