(* ===== verification/Store_Writing.thy ===== *)
theory Store_Writing
  imports Store_Staging
begin

text \<open>
  The second half of \<open>object_store_put_many\<close>: the objects and the new table generation are
  written into sectors that nothing on disk refers to yet.
\<close>

section \<open>The new generation\<close>

definition anywhere :: "u64 set \<Rightarrow> u64 \<Rightarrow> bytes set" where
  "anywhere X t = (if t \<in> X then UNIV else {})"

abbreviation staged_extents :: "object_store_staged_put list \<Rightarrow> u64 set" where
  "staged_extents ps \<equiv> (\<Union>p\<in>set ps. staged_extent p)"

lemma staged_ok_cong: "st_cache_capacity s' = st_cache_capacity s \<Longrightarrow> staged_ok s' p = staged_ok s p"
  by (simp add: staged_ok_def object_store_put_request_is_valid_def)

text \<open>What the sectors of a request hold once it is written.\<close>

definition written :: "(u64 \<Rightarrow> bytes) \<Rightarrow> object_store_staged_put \<Rightarrow> bool" where
  "written img p \<longleftrightarrow> (\<forall>i<unat (sp_sector_count p).
     img (sp_first_sector p + of_nat i) = sector_chunks (put_bytes p) ! i)"

lemma written_cong:
  assumes "written f p" "\<And>t. t \<in> staged_extent p \<Longrightarrow> g t = f t"
  shows "written g p"
  using assms unfolding written_def staged_extent_def extent_def by auto

lemma written_object_stored:
  assumes st: "staged_ok s p" and w: "written img p" and S: "\<And>t. t \<in> staged_extent p \<Longrightarrow> S t = {img t}"
  shows "object_stored S (staged_entry p)"
proof -
  let ?obj = "image_object (durable_image S) (staged_entry p)"
  have ex: "extent (e_first_sector (staged_entry p)) (e_sector_count (staged_entry p)) = staged_extent p"
    by (simp add: staged_entry_def staged_extent_def)
  have "image_object (durable_image S) (staged_entry p) = image_object img (staged_entry p)"
    by (rule image_object_cong) (simp add: ex durable_image_def S)
  then obtain z where obj: "?obj = put_bytes p @ replicate z 0"
    using image_object_written(2) [OF st] w by (auto simp: written_def)
  have v: "\<not> object_id_is_zero (rq_id (sp_request p))" "\<not> object_id_is_zero (rq_type_id (sp_request p))"
    "sp_version p \<noteq> 0" "rq_payload_size (sp_request p) < 2 ^ 64"
    using st by (auto simp: staged_ok_def object_store_put_request_is_valid_def split: if_splits)
  have lp: "length (put_payload (sp_request p)) = rq_payload_size (sp_request p)"
    using st length_put_payload by (auto simp: staged_ok_def)
  have h: "take 128 ?obj = encode_header (final_header p)" by (simp add: obj put_bytes_def)
  have "object_header_validate (Some ?obj) (length ?obj)"
    by (subst object_header_validate_iff)
      (use h v lp in \<open>simp_all add: Let_def final_header_def put_header_def unat_of_nat64\<close>,
        simp_all add: obj put_bytes_def lp)
  then show ?thesis
    unfolding object_stored_def ex Let_def
    using S h obj by (auto simp: put_bytes_def final_header_def put_header_def staged_entry_def)
qed

section \<open>Writing\<close>

context block_device
begin

lemma write_object_evolves:
  assumes s: "wired read_s write_s flush_s s" "ok (device s)" and st: "staged_ok s p"
    and buf: "st_cache_capacity s \<le> length (st_cache_buffer s)"
    and b: "unat (sp_first_sector p) + unat (sp_sector_count p) \<le> unat (n :: u64)"
    and run: "write_requests s [p] = (s', r)"
  obtains d b where "s' = (with_device s d)\<lparr>st_cache_buffer := b\<rparr>" "length b = length (st_cache_buffer s)"
    "evolves (device s) (anywhere (staged_extent p)) d" "r \<longrightarrow> settled d \<and> written (visible d) p"
proof -
  obtain rest where prep: "object_store_prepare_put_bytes s p = (s\<lparr>st_cache_buffer := put_bytes p @ rest\<rparr>, True)"
    and len: "length (put_bytes p @ rest) = length (st_cache_buffer s)"
    using prepare_result [OF st buf] .
  let ?s = "s\<lparr>st_cache_buffer := put_bytes p @ rest\<rparr>"
  have ch: "length (sector_chunks (put_bytes p)) = unat (sp_sector_count p)" by (rule put_chunks(1) [OF st])
  have obc: "sp_object_byte_count p \<noteq> 0" "length (put_bytes p) = sp_object_byte_count p"
    using st length_put_bytes [OF st] by (auto simp: staged_ok_def)
  have "write_object_bytes ?s (sp_first_sector p) (st_cache_buffer ?s) (sp_object_byte_count p) = (s', r)"
    using run prep by (auto split: prod.splits bool.splits)
  then have w: "(case write_sectors ?s (sp_first_sector p) (sector_chunks (put_bytes p)) of
      (s1, False) \<Rightarrow> (s1, False) | (s1, True) \<Rightarrow> store_flush s1) = (s', r)"
    using obc by (simp add: write_object_bytes_def)
  have ws: "wired read_s write_s flush_s ?s" "ok (device ?s)" using s by (simp_all add: wired_def)
  have bd: "unat (sp_first_sector p) + length (sector_chunks (put_bytes p)) \<le> 2 ^ 64"
    using b ch unat64_less [of n] by simp
  from write_run_flush [OF ws bd w] obtain d where
    d: "s' = with_device ?s d" "evolves (device ?s) (run_contents (sp_first_sector p) (sector_chunks (put_bytes p))) d"
    "r \<longrightarrow> settled d \<and> (\<forall>i<length (sector_chunks (put_bytes p)). visible d (sp_first_sector p + of_nat i) = sector_chunks (put_bytes p) ! i)" .
  have "evolves (device s) (anywhere (staged_extent p)) d"
    by (rule evolves_mono [of _ "run_contents (sp_first_sector p) (sector_chunks (put_bytes p))"])
      (use d(2) run_contents_extent [OF ch] in \<open>auto simp: anywhere_def staged_extent_def\<close>)
  moreover have "s' = (with_device s d)\<lparr>st_cache_buffer := put_bytes p @ rest\<rparr>" by (simp add: d(1) with_device_def)
  ultimately show thesis using that [of "put_bytes p @ rest" d] len d(3) ch by (simp add: written_def)
qed

lemma write_requests_step: "write_requests s (p # ps) =
   (case write_requests s [p] of (s1, False) \<Rightarrow> (s1, False) | (s1, True) \<Rightarrow> write_requests s1 ps)"
  by (auto split: prod.splits bool.splits)

lemma write_requests_evolves:
  assumes "wired read_s write_s flush_s s" "ok (device s)" "\<forall>p\<in>set ps. staged_ok s p"
    "st_cache_capacity s \<le> length (st_cache_buffer s)"
    "\<forall>p\<in>set ps. unat (sp_first_sector p) + unat (sp_sector_count p) \<le> unat (n :: u64)"
    "sorted_wrt (\<lambda>p q. staged_extent p \<inter> staged_extent q = {}) ps" "write_requests s ps = (s', r)"
  shows "\<exists>d b. s' = (with_device s d)\<lparr>st_cache_buffer := b\<rparr> \<and> length b = length (st_cache_buffer s) \<and>
    evolves (device s) (anywhere (staged_extents ps)) d \<and> (r \<longrightarrow> (\<forall>p\<in>set ps. written (visible d) p))"
  using assms
proof (induction ps arbitrary: s)
  case Nil
  then show ?case
    by (intro exI [of _ "device s"] exI [of _ "st_cache_buffer s"]) (simp add: evolves_refl)
next
  case (Cons p ps)
  obtain s1 r1 where w1: "write_requests s [p] = (s1, r1)" by (metis surj_pair)
  have hd: "staged_ok s p" "unat (sp_first_sector p) + unat (sp_sector_count p) \<le> unat (n :: u64)" using Cons.prems(3,5) by auto
  obtain d1 b1 where d1: "s1 = (with_device s d1)\<lparr>st_cache_buffer := b1\<rparr>" "length b1 = length (st_cache_buffer s)"
    "evolves (device s) (anywhere (staged_extent p)) d1" "r1 \<longrightarrow> settled d1 \<and> written (visible d1) p"
    by (rule write_object_evolves [OF Cons.prems(1,2) hd(1) Cons.prems(4) hd(2) w1])
  show ?case
  proof (cases r1)
    case False
    then have "s' = s1" "\<not> r" using Cons.prems(7) [unfolded write_requests_step [of s p ps] w1] by auto
    moreover have "evolves (device s) (anywhere (staged_extents (p # ps))) d1"
      by (rule evolves_mono [OF d1(3)]) (auto simp: anywhere_def)
    ultimately show ?thesis using d1(1,2) by blast
  next
    case True
    have rec: "write_requests s1 ps = (s', r)" using Cons.prems(7) [unfolded write_requests_step [of s p ps] w1] True by simp
    have inv: "wired read_s write_s flush_s s1" "ok (device s1)" "\<forall>p\<in>set ps. staged_ok s1 p"
      "st_cache_capacity s1 \<le> length (st_cache_buffer s1)"
      using Cons.prems(1,3,4) evolves_ok [OF d1(3)] d1(2) staged_ok_cong [of s1 s]
      by (auto simp: d1(1) wired_def with_device_def)
    from Cons.IH [OF inv _ _ rec] Cons.prems(5,6) obtain d b where
      d: "s' = (with_device s1 d)\<lparr>st_cache_buffer := b\<rparr>" "length b = length (st_cache_buffer s1)"
      "evolves (device s1) (anywhere (staged_extents ps)) d" "r \<longrightarrow> (\<forall>p\<in>set ps. written (visible d) p)"
      by auto
    have dev: "device s1 = d1" by (simp add: d1(1))
    have "evolves (device s) (anywhere (staged_extents (p # ps))) d"
      by (rule evolves_trans [OF d1(3) d(3) [unfolded dev]]) (auto simp: anywhere_def)
    moreover have "written (visible d) p"
    proof (rule written_cong)
      show "written (visible d1) p" using d1(4) True by simp
      fix t assume "t \<in> staged_extent p"
      then have "anywhere (staged_extents ps) t = {}" using Cons.prems(6) by (auto simp: anywhere_def)
      then show "visible d t = visible d1 t" using evolves_visible [OF d(3)] dev by simp
    qed
    moreover have "s' = (with_device s d)\<lparr>st_cache_buffer := b\<rparr>" by (simp add: d(1) d1(1) with_device_def)
    ultimately show ?thesis using d(2,4) d1(1,2) by auto
  qed
qed

lemma write_generation_evolves:
  assumes s: "wired read_s write_s flush_s s" "ok (device s)" and t: "table_inv c"
    and b: "unat ts + t_count c \<le> unat (sector_count s)"
    and w: "write_table_generation s c ts = (s', r)"
  obtains d where "s' = with_device s d" "evolves (device s) (anywhere (extent ts (of_nat (t_count c)))) d"
    "r \<longrightarrow> settled d \<and> (\<forall>i<t_count c. visible d (ts + of_nat i) = record_bytes (live c ! i))"
proof -
  let ?bs = "map (\<lambda>index. encode_table_entry (table_record (entries c ! index))) [0..<t_count c]"
  have cnt: "unat (of_nat (t_count c) :: u64) = t_count c" using b unat64_less [of "sector_count s"] by (simp add: unat_of_nat64)
  show thesis
  proof (cases "t_count c = 0 \<or> t_count c > t_capacity c \<or> ts < 3 \<or> t_count c > unat (sector_count s - ts)")
    case True
    then have "s' = with_device s (device s)" "\<not> r"
      using w by (auto simp: write_table_generation_def OBJECT_STORE_FIRST_ALLOCATABLE_SECTOR_def split: if_splits)
    then show thesis using that [of "device s"] evolves_refl [OF s(2)] by simp
  next
    case False
    then have "(case write_sectors s ts ?bs of (s1, False) \<Rightarrow> (s1, False) | (s1, True) \<Rightarrow> store_flush s1) = (s', r)"
      using w unfolding write_table_generation_def OBJECT_STORE_FIRST_ALLOCATABLE_SECTOR_def by (simp split: if_splits)
    moreover have "unat ts + length ?bs \<le> 2 ^ 64" using b unat64_less [of "sector_count s"] by simp
    ultimately obtain d where d: "s' = with_device s d" "evolves (device s) (run_contents ts ?bs) d"
      "r \<longrightarrow> settled d \<and> (\<forall>i<length ?bs. visible d (ts + of_nat i) = ?bs ! i)"
      using write_run_flush [OF s, of ts ?bs s' r] by blast
    have "evolves (device s) (anywhere (extent ts (of_nat (t_count c)))) d"
      by (rule evolves_mono [OF d(2)]) (use run_contents_extent [of ?bs "of_nat (t_count c)" _ ts] cnt in \<open>auto simp: anywhere_def\<close>)
    then show thesis using that [OF d(1)] d(3) t by (simp add: live_def record_bytes_def)
  qed
qed

end

end
