(* ===== verification/Store_Commit.thy ===== *)
theory Store_Commit
  imports Store_Writing
begin

text \<open>
  A batch of puts as a transaction: \<open>object_store_put_many\<close> always returns, and whatever it
  returns and wherever the device failed, every image a power loss may leave recovers to the
  table before the batch or to the table after it, with the bytes of every object.
\<close>

section \<open>The invariant over a wider protected set\<close>

lemma store_ok_widen:
  assumes ok: "store_ok S U s" and "U \<subseteq> V" "V \<subseteq> used_sectors s"
  shows "store_ok S V s"
proof -
  have lt: "leads_to S U n c t k sb \<Longrightarrow> leads_to S V n c t k sb" for n c t k sb
    by (rule leads_to_keep [OF _ keeps_refl \<open>U \<subseteq> V\<close>])
  have "roots_ok S V s" using ok unfolding store_ok_def roots_ok_def Let_def by (meson lt)
  then show ?thesis
    using ok assms(2,3) gen_ok_keep [OF _ keeps_refl \<open>U \<subseteq> V\<close>] snapshots_ok_keep [OF _ keeps_refl \<open>U \<subseteq> V\<close>]
    by (auto simp: store_ok_def)
qed

lemma cache_insert_total:
  assumes "cache_ok s" "0 < len" "len \<le> length bytes" "len + 7 < 2 ^ 64"
  obtains s' x where "cache_insert s i v bytes len = Some (s', x)" "cache_ok s'" "without_cache s' = without_cache s"
proof (cases "cache_span len \<le> st_arena_capacity s")
  case True
  then show thesis using cache_insert_Some [OF assms, of i v] that by metis
next
  case False
  then have "cache_insert s i v bytes len = Some (s, None)" by (simp add: cache_insert_def Let_def)
  then show thesis using that assms(1) by blast
qed

section \<open>Before and after\<close>

text \<open>The image holds the table and the objects that the store had.\<close>

definition holds_before :: "image \<Rightarrow> (u64 \<Rightarrow> bytes set) \<Rightarrow> 'd object_store \<Rightarrow> object_table_entry list \<Rightarrow> bool" where
  "holds_before img S s es \<longleftrightarrow> es = live (st_table s) \<and>
     (\<forall>e\<in>set es. image_object img e = image_object (durable_image S) e)"

text \<open>The image holds the requests, and of the other objects what the store had.\<close>

definition holds_after ::
    "image \<Rightarrow> (u64 \<Rightarrow> bytes set) \<Rightarrow> 'd object_store \<Rightarrow> object_store_put_request list \<Rightarrow> object_table_entry list \<Rightarrow> bool" where
  "holds_after img S s rs es \<longleftrightarrow> ids_sorted es \<and>
     (\<forall>r\<in>set rs. \<exists>e. entry_map es (rq_id r) = Some e \<and> e_version e = sp_version (stage_request s r) \<and>
        object_result (image_object img e) = (final_header (stage_request s r), put_payload r, rq_payload_size r)) \<and>
     (\<forall>i. i \<notin> rq_id ` set rs \<longrightarrow> entry_map es i = table_map (st_table s) i \<and>
        (\<forall>e. entry_map es i = Some e \<longrightarrow> image_object img e = image_object (durable_image S) e))"

section \<open>The new generation\<close>

text \<open>A batch whose extents are allocated and entered into the candidate table.\<close>

definition batch_ready ::
    "'d object_store \<Rightarrow> 'd object_store \<Rightarrow> object_store_put_request list \<Rightarrow> object_store_staged_put list \<Rightarrow> object_table \<Rightarrow> bool" where
  "batch_ready s s1 rs ps c \<longleftrightarrow> rs \<noteq> [] \<and> allocated s s1 (map extent_of ps) \<and> bitmap_ok s1 \<and>
     table_inv c \<and> t_capacity c = st_table_capacity s \<and>
     (\<forall>p\<in>set ps. staged_ok s p \<and> table_map c (staged_id p) = Some (staged_entry p)) \<and>
     (\<forall>i. i \<notin> rq_id ` set rs \<longrightarrow> table_map c i = table_map (st_table s) i) \<and>
     list_all2 (\<lambda>r p. \<exists>f. p = (stage_request s r)\<lparr>sp_first_sector := f\<rparr>) rs ps \<and>
     (\<forall>p\<in>set ps. unat (sp_first_sector p) + unat (sp_sector_count p) \<le> unat (st_next_sector s1))"

lemma batch_ready_requests:
  assumes "batch_ready s s1 rs ps c"
  shows "map sp_request ps = rs" "staged_id ` set ps = rq_id ` set rs"
    "p \<in> set ps \<Longrightarrow> sp_version p = sp_version (stage_request s (sp_request p))"
    "p \<in> set ps \<Longrightarrow> final_header p = final_header (stage_request s (sp_request p))"
proof -
  have l: "list_all2 (\<lambda>r p. \<exists>f. p = (stage_request s r)\<lparr>sp_first_sector := f\<rparr>) rs ps"
    using assms by (simp add: batch_ready_def)
  show m: "map sp_request ps = rs"
    using l by (induction rule: list_all2_induct) (auto simp: stage_request_fields)
  have "set rs = sp_request ` set ps" unfolding m [symmetric] by simp
  then show "staged_id ` set ps = rq_id ` set rs" by (simp add: image_image)
  assume "p \<in> set ps"
  then obtain r f where "p = (stage_request s r)\<lparr>sp_first_sector := f\<rparr>"
    using l by (auto simp: list_all2_conv_all_nth in_set_conv_nth)
  moreover from this have "sp_request p = r" by (simp add: stage_request_fields)
  ultimately show "sp_version p = sp_version (stage_request s (sp_request p))"
    "final_header p = final_header (stage_request s (sp_request p))"
    by (simp_all add: final_header_def put_header_def)
qed

lemma batch_candidate_entry:
  assumes "batch_ready s s1 rs ps c" "table_inv (st_table s)" "e \<in> set (live c)"
  shows "(\<exists>p\<in>set ps. e = staged_entry p) \<or> e \<in> set (live (st_table s))"
proof -
  have c: "table_inv c" using assms(1) by (simp add: batch_ready_def)
  then have m: "table_map c (e_id e) = Some e"
    using assms(3) by (simp add: table_map_def entry_map_Some_iff table_inv_def)
  show ?thesis
  proof (cases "e_id e \<in> rq_id ` set rs")
    case True
    then obtain p where "p \<in> set ps" "e_id e = staged_id p"
      using batch_ready_requests(2) [OF assms(1)] by (metis imageE)
    then show ?thesis using assms(1) m by (auto simp: batch_ready_def)
  next
    case False
    then have "table_map (st_table s) (e_id e) = Some e" using assms(1) m by (simp add: batch_ready_def)
    then show ?thesis using assms(2) by (simp add: table_map_def entry_map_Some_iff table_inv_def)
  qed
qed

lemma batch_count:
  assumes "batch_ready s s1 rs ps c"
  shows "t_count c \<noteq> 0"
proof -
  obtain r where "r \<in> set rs" using assms by (metis batch_ready_def list.set_intros(1) neq_Nil_conv)
  then have "rq_id r \<in> staged_id ` set ps" using batch_ready_requests(2) [OF assms] by blast
  then obtain p where "table_map c (staged_id p) = Some (staged_entry p)" using assms by (auto simp: batch_ready_def)
  then have "live c \<noteq> []" by (auto simp: table_map_def entry_map_def)
  then show ?thesis by (auto simp: live_def)
qed

lemma batch_image:
  assumes b: "batch_ready s s1 rs ps c" and t: "table_inv (st_table s)" and w: "\<forall>p\<in>set ps. written img p"
    and old: "\<forall>e\<in>set (live (st_table s)). image_object img e = image_object (durable_image S) e"
  shows "holds_after img S s rs (live c)"
  unfolding holds_after_def
proof (intro conjI ballI allI impI)
  show "ids_sorted (live c)" using b by (simp add: batch_ready_def table_inv_def)
next
  fix r assume "r \<in> set rs"
  then obtain p where p: "p \<in> set ps" "sp_request p = r" using batch_ready_requests(1) [OF b] by (metis imageE list.set_map)
  have st: "staged_ok s p" "table_map c (staged_id p) = Some (staged_entry p)" using b p(1) by (auto simp: batch_ready_def)
  have "object_result (image_object img (staged_entry p)) = (final_header p, put_payload r, rq_payload_size r)"
    using image_object_written(1) [OF st(1), of img] w p by (simp add: written_def)
  then show "\<exists>e. entry_map (live c) (rq_id r) = Some e \<and> e_version e = sp_version (stage_request s r) \<and>
      object_result (image_object img e) = (final_header (stage_request s r), put_payload r, rq_payload_size r)"
    using st(2) batch_ready_requests(3,4) [OF b p(1)] p(2)
    by (intro exI [of _ "staged_entry p"]) (simp add: table_map_def, simp add: staged_entry_def)
next
  fix i assume i: "i \<notin> rq_id ` set rs"
  then show *: "entry_map (live c) i = table_map (st_table s) i" using b by (simp add: batch_ready_def table_map_def)
  fix e assume "entry_map (live c) i = Some e"
  then have "e \<in> set (live (st_table s))" using * t by (simp add: table_map_def entry_map_Some_iff table_inv_def)
  then show "image_object img e = image_object (durable_image S) e" using old by blast
qed

lemma gen_ok_new:
  assumes b: "batch_ready s s1 rs ps c" and old: "gen_ok S U n cap ts0 (live (st_table s))" and t: "table_inv (st_table s)"
    and n: "n = sector_count s" "cap = st_table_capacity s" and U: "U \<subseteq> V" "staged_extents ps \<subseteq> V"
    and rec: "3 \<le> ts" "unat ts + t_count c \<le> unat n"
      "\<forall>i<t_count c. ts + of_nat i \<in> V \<and> S (ts + of_nat i) = {record_bytes (live c ! i)}"
    and w: "\<forall>p\<in>set ps. written img p" "\<forall>t\<in>staged_extents ps. S t = {img t}"
  shows "gen_ok S V n cap ts (live c)"
proof -
  have c: "table_inv c" "t_capacity c = cap" using b n by (auto simp: batch_ready_def)
  have len: "length (live c) = t_count c" using c(1) by (rule live_length)
  have "entry_located n V e \<and> object_stored S e" if "e \<in> set (live c)" for e
    using batch_candidate_entry [OF b t that]
  proof
    assume "\<exists>p\<in>set ps. e = staged_entry p"
    then obtain p where p: "p \<in> set ps" "e = staged_entry p" by blast
    have st: "staged_ok s p" using b p by (simp add: batch_ready_def)
    have "extent_of p \<in> set (map extent_of ps)" using p(1) by simp
    then have loc: "3 \<le> sp_first_sector p" "unat (sp_first_sector p) + unat (sp_sector_count p) \<le> unat n"
      using b n unfolding batch_ready_def allocated_def extent_of_def by blast+
    have "object_stored S e" unfolding p(2)
      by (rule written_object_stored [OF st, of img]) (use w p(1) in auto)
    moreover have "extent (sp_first_sector p) (sp_sector_count p) \<subseteq> V" using U(2) p(1) by (auto simp: staged_extent_def)
    ultimately show ?thesis using loc p(2) by (simp add: entry_located_def staged_entry_def)
  next
    assume "e \<in> set (live (st_table s))"
    then show ?thesis using old U(1) unfolding gen_ok_def entry_located_def by blast
  qed
  then show ?thesis using c rec len unfolding gen_ok_def by (auto simp: table_inv_def)
qed

lemma store_ok_reject:
  fixes ps :: "object_store_staged_put list" and tab :: "(u64 \<times> nat) option"
  defines "xs \<equiv> map extent_of ps @ (case tab of None \<Rightarrow> [] | Some (ts, c) \<Rightarrow> [(ts, of_nat c)])"
  assumes ok: "store_ok S0 U s0" and al: "allocated s0 s1 xs" and t: "store_ok S U t"
    and same: "used_sectors t = used_sectors s1" "sector_count t = sector_count s0" "st_table t = st_table s0"
      "st_current_table_sector t = st_current_table_sector s0"
  shows "store_ok S U (reject_allocations t ps tab (st_next_sector s0))"
    "used_sectors (reject_allocations t ps tab (st_next_sector s0)) = used_sectors s0"
    "device (reject_allocations t ps tab (st_next_sector s0)) = device t"
    "st_table (reject_allocations t ps tab (st_next_sector s0)) = st_table t"
    "cache_ok (reject_allocations t ps tab (st_next_sector s0)) = cache_ok t"
proof -
  let ?r = "reject_allocations t ps tab (st_next_sector s0)"
  have "bitmap_ok t" using t by (simp add: store_ok_def memory_ok_def)
  note r = reject_result [OF this, of ps tab "st_next_sector s0"]
  show used: "used_sectors ?r = used_sectors s0"
    by (rule released [OF al same(1) same(2)]) (use r(3) in \<open>simp add: xs_def\<close>)
  show "device ?r = device t" "st_table ?r = st_table t" using alloc_frame_fields(1,2) [OF r(1)] by simp_all
  show "cache_ok ?r = cache_ok t" using alloc_frame_derived(4) [OF r(1)] .
  have "next_ok s0 (st_next_sector s0)" using ok next_ok_memory by (auto simp: store_ok_def)
  then have nx: "next_ok t (st_next_sector ?r)" using same r(2) by (simp add: next_ok_def)
  show "store_ok S U ?r"
    by (rule store_ok_alloc_frame [OF t r(1) _ nx]) (use used ok in \<open>auto simp: store_ok_def\<close>)
qed

lemma objects_kept:
  assumes g: "gen_ok S U n cap ts es" and k: "keeps U S S'" and img: "image_of img S'" and e: "e \<in> set es"
  shows "image_object img e = image_object (durable_image S) e"
proof (rule image_object_cong)
  fix t assume t: "t \<in> extent (e_first_sector e) (e_sector_count e)"
  have l: "entry_located n U e" "object_stored S e" using g e by (auto simp: gen_ok_def)
  obtain b where b: "S t = {b}" using l(2) t by (auto simp: object_stored_def)
  moreover have "S' t = {b}" using keepsD [OF k _ _ b] entry_located_range [OF l(1) t] l(1) t by (auto simp: entry_located_def)
  ultimately show "img t = durable_image S t" using img by (auto simp: image_of_def durable_image_def dest: spec [of _ t])
qed

section \<open>The phases of a batch\<close>

context block_device
begin

text \<open>A store \<open>t\<close> on the way of a batch that started in \<open>s0\<close> and allocated up to \<open>s1\<close>.\<close>

definition phase_ok :: "u64 set \<Rightarrow> 'd object_store \<Rightarrow> 'd object_store \<Rightarrow> 'd object_store \<Rightarrow> bool" where
  "phase_ok U s0 s1 t \<longleftrightarrow> wired read_s write_s flush_s t \<and> ok (device t) \<and> store_ok (survivors (device t)) U t \<and>
     keeps U (survivors (device s0)) (survivors (device t)) \<and> used_sectors t = used_sectors s1 \<and>
     sector_count t = sector_count s0 \<and> st_table t = st_table s0 \<and>
     st_current_table_sector t = st_current_table_sector s0 \<and> st_table_capacity t = st_table_capacity s0 \<and>
     st_current_generation t = st_current_generation s0 \<and> st_next_sector t = st_next_sector s1 \<and>
     st_cache_capacity t = st_cache_capacity s0 \<and> length (st_cache_buffer t) = length (st_cache_buffer s0) \<and>
     cache_ok t = cache_ok s0"

lemma phase_start:
  assumes "store_ok (survivors (device s0)) U s0" "wired read_s write_s flush_s s0" "ok (device s0)" "allocated s0 s1 xs"
  shows "phase_ok U s0 s1 s1"
proof -
  have fr: "alloc_frame s0 s1" using assms(4) by (simp add: allocated_def)
  show ?thesis
    unfolding phase_ok_def using assms(2,3) store_ok_allocated(1) [OF assms(1,4)]
    by (simp add: alloc_frame_fields [OF fr] alloc_frame_derived [OF fr])
qed

lemma phase_superblock:
  assumes p: "phase_ok U s0 s1 t" and w: "write_superblock t = (t', r)" and seq: "unat (st_superblock_sequence t) + 1 < 2 ^ 64"
  shows "phase_ok U s0 s1 t'" "r \<Longrightarrow> fresh_root (survivors (device t')) (unat (st_next_sector t)) t'"
    "unat (st_superblock_sequence t') \<le> unat (st_superblock_sequence t) + 1"
proof -
  have t: "store_ok (survivors (device t)) U t" "wired read_s write_s flush_s t" "ok (device t)"
    "keeps U (survivors (device s0)) (survivors (device t))" using p by (auto simp: phase_ok_def)
  note s = store_ok_superblock [OF t(1-3) w seq]
  show "r \<Longrightarrow> fresh_root (survivors (device t')) (unat (st_next_sector t)) t'"
    "unat (st_superblock_sequence t') \<le> unat (st_superblock_sequence t) + 1" using s by auto
  have "memory_ok t" using t(1) by (simp add: store_ok_def)
  then have "keeps U (survivors (device t)) (survivors (device t'))"
    by (intro evolves_keeps [OF s(4)]) (auto dest: superblock_sectors(3) simp: word_le_nat_alt)
  note k = keeps_trans [OF t(4) this]
  obtain d q a where t': "t' = (with_device t d)\<lparr>st_superblock_sequence := q, st_active_superblock_sector := a\<rparr>"
    using s(7) by blast
  have "used_sectors t' = used_sectors t" "cache_ok t' = cache_ok t"
    using bitmap_test_cong [of t' t] by (simp_all add: t' used_sectors_def cache_ok_def slot_at_def with_device_def)
  then show "phase_ok U s0 s1 t'"
    using p s(1-3) k unfolding phase_ok_def by (simp add: t')
qed

lemma phase_write:
  assumes p: "phase_ok U s0 s1 t" and ev: "evolves (device t) (anywhere X) d" and X: "X \<inter> U = {}"
    and t': "t' = (with_device t d)\<lparr>st_cache_buffer := b\<rparr>" "length b = length (st_cache_buffer t)"
  shows "phase_ok U s0 s1 t'"
    "fresh_root (survivors (device t)) e t \<Longrightarrow> fresh_root (survivors (device t')) e t'"
proof -
  have t: "store_ok (survivors (device t)) U t" "keeps U (survivors (device s0)) (survivors (device t))"
    using p by (auto simp: phase_ok_def)
  have W: "anywhere X u = {}" if "u \<in> U" for u using X that by (auto simp: anywhere_def)
  have k: "keeps U (survivors (device t)) (survivors d)" by (rule evolves_keeps [OF ev]) (use W in auto)
  have ok: "store_ok (survivors d) U t" using store_ok_quiet [OF t(1) ev W] .
  have "used_sectors t' = used_sectors t" "cache_ok t' = cache_ok t"
    using bitmap_test_cong [of t' t] by (simp_all add: t' used_sectors_def cache_ok_def slot_at_def with_device_def)
  moreover have "store_ok (survivors d) U t'"
    using ok store_ok_cache_buffer [of b "with_device t d"] t'(2) by (simp add: t'(1))
  moreover have "wired read_s write_s flush_s t'" using p by (simp add: phase_ok_def t'(1) wired_def with_device_def)
  ultimately show "phase_ok U s0 s1 t'"
    using p evolves_ok [OF ev] keeps_trans [OF t(2) k] t'(2) unfolding phase_ok_def by (simp add: t'(1))
  have m: "memory_ok t" and U: "{0, 1, 2} \<subseteq> U" using t(1) by (auto simp: store_ok_def)
  have "survivors d u \<subseteq> survivors (device t) u" if "u = 0 \<or> u = 1" for u
    using evolves_survivors [OF ev, of u] W [of u] U that by auto
  then have "survivors d (superblock_target t) \<subseteq> survivors (device t) (superblock_target t)"
    "survivors d (st_active_superblock_sector t) \<subseteq> survivors (device t) (st_active_superblock_sector t)"
    using superblock_sectors(3) [OF m] m by (auto simp: memory_ok_def)
  moreover have "superblock_target t' = superblock_target t" by (simp add: t'(1) superblock_target_def)
  ultimately show "fresh_root (survivors (device t)) e t \<Longrightarrow> fresh_root (survivors (device t')) e t'"
    unfolding fresh_root_def by (auto simp: t'(1))
qed

end

section \<open>Publishing a batch\<close>

context block_device
begin

lemma batch_publish:
  assumes b: "batch_ready s0 sA rs ps c" and ok0: "store_ok (survivors (device s0)) U s0" and p: "phase_ok U s0 s1 t"
    and al: "allocated s0 s1 (map extent_of ps @ [(ts, of_nat (t_count c))])"
    and fresh: "fresh_root (survivors (device t)) (unat (st_next_sector t)) t" and st: "settled (device t)"
    and w: "\<forall>p\<in>set ps. written (visible (device t)) p"
    and rec: "\<forall>i<t_count c. visible (device t) (ts + of_nat i) = record_bytes (live c ! i)"
    and bd: "unat ts + t_count c \<le> unat (st_next_sector t)"
    and gen: "st_current_generation s0 \<noteq> UINT64_MAX" and seq: "unat (st_superblock_sequence t) + 1 < 2 ^ 64"
    and pub: "publish_table t c ts (of_nat (t_count c)) = (t', r)"
  defines "V \<equiv> U \<union> staged_extents ps \<union> extent ts (of_nat (t_count c))"
  shows "wired read_s write_s flush_s t'" "ok (device t')" "\<not> r \<Longrightarrow> st_recovery_required t' = 1"
    "image_of img (survivors (device t')) \<Longrightarrow>
      \<exists>es. recover_image img (sector_count s0) (st_table_capacity s0) = Some es \<and>
        (holds_before img (survivors (device s0)) s0 es \<or> holds_after img (survivors (device s0)) s0 rs es)"
    "r \<Longrightarrow> store_ok (survivors (device t')) V t' \<and> cache_ok t' = cache_ok s0 \<and>
       st_cache_capacity t' = st_cache_capacity s0 \<and> length (st_cache_buffer t') = length (st_cache_buffer s0) \<and>
       sector_count t' = sector_count s0 \<and> st_table_capacity t' = st_table_capacity s0"
    "r \<Longrightarrow> image_of img (survivors (device t')) \<Longrightarrow> holds_after img (survivors (device s0)) s0 rs (live (st_table t'))"
proof -
  let ?S = "survivors (device t)" and ?n = "sector_count s0" and ?cap = "st_table_capacity s0"
  have t: "store_ok ?S U t" "wired read_s write_s flush_s t" "ok (device t)" "st_table t = st_table s0"
    "sector_count t = ?n" "st_table_capacity t = ?cap" "keeps U (survivors (device s0)) ?S" "used_sectors t = used_sectors s1"
    using p by (auto simp: phase_ok_def)
  have ti: "table_inv (st_table s0)" using ok0 by (simp add: store_ok_def memory_ok_def)
  have old: "gen_ok ?S U ?n ?cap (st_current_table_sector t) (live (st_table s0))"
    using t(1) by (simp add: store_ok_def t)
  have nx: "unat (st_next_sector t) \<le> unat ?n" using t(1,5) by (simp add: store_ok_def memory_ok_def word_le_nat_alt)
  have cnt: "unat (of_nat (t_count c) :: u64) = t_count c" using bd unat64_less [of "st_next_sector t"] by (simp add: unat_of_nat64)
  have c: "t_count c \<noteq> 0" "table_inv c" "t_capacity c = ?cap" using batch_count [OF b] b by (auto simp: batch_ready_def)
  have ts: "3 \<le> ts" using al by (simp add: allocated_def)
  have ext: "(\<Union>(f, c)\<in>set (map extent_of ps). extent f c) = staged_extents ps"
    by (auto simp: extent_of_def staged_extent_def)
  have V: "U \<subseteq> V" "V \<subseteq> used_sectors t" "staged_extents ps \<subseteq> V"
    using al t(1,8) ext ok0 by (auto simp: V_def allocated_def store_ok_def)
  have sing: "?S u = {visible (device t) u}" for u using st by (simp add: settled_def)
  have recs: "\<forall>i<t_count c. ts + of_nat i \<in> V \<and> ?S (ts + of_nat i) = {record_bytes (live c ! i)}"
    using rec sing cnt by (auto simp: V_def extent_def)
  have g: "gen_ok ?S V ?n ?cap ts (live c)"
    by (rule gen_ok_new [OF b old ti refl refl V(1,3) ts _ recs w]) (use bd nx sing in auto)
  have "ts \<noteq> 0" "(of_nat (t_count c) :: u64) \<noteq> 0" using ts c(1) cnt by auto
  then have pb: "publishable ?S V t c ts (of_nat (t_count c)) (unat (st_next_sector t))"
    using g c cnt bd by (simp add: publishable_def t)
  have genT: "st_current_generation t \<noteq> UINT64_MAX" using gen p by (simp add: phase_ok_def)
  note r = publish_result [OF store_ok_widen [OF t(1) V(1,2)] t(2,3) fresh pb genT seq pub]
  show "wired read_s write_s flush_s t'" "ok (device t')" "\<not> r \<Longrightarrow> st_recovery_required t' = 1" using r(1,2,5) by auto
  have k: "keeps V ?S (survivors (device t'))" using r(3) .
  have img_w: "\<forall>p\<in>set ps. written img p" if img: "image_of img (survivors (device t'))" for img
  proof (intro ballI)
    fix p assume p: "p \<in> set ps"
    show "written img p"
    proof (rule written_cong)
      show "written (visible (device t)) p" using w p by blast
      fix u assume u: "u \<in> staged_extent p"
      have "extent_of p \<in> set (map extent_of ps)" using p by simp
      then have loc: "3 \<le> sp_first_sector p" "unat (sp_first_sector p) + unat (sp_sector_count p) \<le> unat ?n"
        using al unfolding allocated_def extent_of_def by fastforce+
      have "3 \<le> u" using unat_extent [OF loc(2)] u loc(1) by (auto simp: staged_extent_def word_le_nat_alt)
      then have "survivors (device t') u = {visible (device t) u}" using keepsD [OF k _ _ sing] V(3) u p by auto
      then show "img u = visible (device t) u" using img by (auto simp: image_of_def dest: spec [of _ u])
    qed
  qed
  have "keeps U ?S (survivors (device t'))" using k V(1) unfolding keeps_def by blast
  note k0 = keeps_trans [OF t(7) this]
  have g0: "gen_ok (survivors (device s0)) U ?n ?cap (st_current_table_sector s0) (live (st_table s0))"
    using ok0 by (simp add: store_ok_def)
  have objs: "\<forall>e\<in>set (live (st_table s0)). image_object img e = image_object (durable_image (survivors (device s0))) e"
    if img: "image_of img (survivors (device t'))" for img
    using objects_kept [OF g0 k0 img] by blast
  have aft: "holds_after img (survivors (device s0)) s0 rs (live c)" if img: "image_of img (survivors (device t'))" for img
    using batch_image [OF b ti img_w [OF img] objs [OF img]] .
  show "\<exists>es. recover_image img ?n ?cap = Some es \<and>
      (holds_before img (survivors (device s0)) s0 es \<or> holds_after img (survivors (device s0)) s0 rs es)"
    if img: "image_of img (survivors (device t'))"
    using r(4) [OF img] aft [OF img] objs [OF img] by (auto simp: t holds_before_def)
  show "store_ok (survivors (device t')) V t' \<and> cache_ok t' = cache_ok s0 \<and>
       st_cache_capacity t' = st_cache_capacity s0 \<and> length (st_cache_buffer t') = length (st_cache_buffer s0) \<and>
       sector_count t' = sector_count s0 \<and> st_table_capacity t' = st_table_capacity s0" if r
  proof -
    obtain d a where "t' = (with_device (install_table t c ts (st_current_generation t + 1)) d)
        \<lparr>st_superblock_sequence := st_superblock_sequence t + 1, st_active_superblock_sector := a\<rparr>"
      using r(6) \<open>r\<close> by blast
    moreover from this have "cache_ok t' = cache_ok t"
      by (simp add: cache_ok_def slot_at_def with_device_def install_table_def)
    ultimately show ?thesis using r(6) \<open>r\<close> p by (simp add: phase_ok_def)
  qed
  show "holds_after img (survivors (device s0)) s0 rs (live (st_table t'))" if r "image_of img (survivors (device t'))"
    using aft [OF that(2)] r(6) [OF that(1)] by simp
qed

end

section \<open>The outcome of a batch\<close>

context block_device
begin

definition put_outcome ::
    "u64 set \<Rightarrow> 'd object_store \<Rightarrow> object_store_put_request list \<Rightarrow> 'd object_store \<Rightarrow> object_store_batch_result \<Rightarrow> bool" where
  "put_outcome U s rs s' r \<longleftrightarrow> wired read_s write_s flush_s s' \<and> ok (device s') \<and>
     (case r of
        OBJECT_STORE_BATCH_REJECTED \<Rightarrow> store_ok (survivors (device s')) U s' \<and>
          keeps U (survivors (device s)) (survivors (device s')) \<and> st_table s' = st_table s \<and>
          used_sectors s' = used_sectors s \<and> cache_ok s' \<and>
          sector_count s' = sector_count s \<and> st_table_capacity s' = st_table_capacity s
      | OBJECT_STORE_BATCH_COMMITTED \<Rightarrow> (\<exists>V. U \<subseteq> V \<and> store_ok (survivors (device s')) V s') \<and> cache_ok s' \<and>
          sector_count s' = sector_count s \<and> st_table_capacity s' = st_table_capacity s \<and>
          (\<forall>img. image_of img (survivors (device s')) \<longrightarrow>
             holds_after img (survivors (device s)) s rs (live (st_table s')))
      | OBJECT_STORE_BATCH_RECOVERY_REQUIRED \<Rightarrow> st_recovery_required s' = 1 \<and>
          (\<forall>img. image_of img (survivors (device s')) \<longrightarrow>
             (\<exists>es. recover_image img (sector_count s) (st_table_capacity s) = Some es \<and>
               (holds_before img (survivors (device s)) s es \<or> holds_after img (survivors (device s)) s rs es))))"

lemma outcome_reject:
  fixes ps :: "object_store_staged_put list" and tab :: "(u64 \<times> nat) option"
  defines "xs \<equiv> map extent_of ps @ (case tab of None \<Rightarrow> [] | Some (ts, c) \<Rightarrow> [(ts, of_nat c)])"
  assumes ok: "store_ok (survivors (device s0)) U s0" and al: "allocated s0 s1 xs" and p: "phase_ok U s0 s1 t"
    and cache: "cache_ok s0"
  shows "put_outcome U s0 rs (reject_allocations t ps tab (st_next_sector s0)) OBJECT_STORE_BATCH_REJECTED"
proof -
  let ?r = "reject_allocations t ps tab (st_next_sector s0)"
  have t: "store_ok (survivors (device t)) U t" "used_sectors t = used_sectors s1" "sector_count t = sector_count s0"
    "st_table t = st_table s0" "st_current_table_sector t = st_current_table_sector s0"
    using p by (auto simp: phase_ok_def)
  note r = store_ok_reject [OF ok al [unfolded xs_def] t]
  have "bitmap_ok t" using t(1) by (simp add: store_ok_def memory_ok_def)
  note fr = reject_result(1) [OF this]
  have "wired read_s write_s flush_s ?r" using alloc_frame_derived(3) [OF fr] p by (simp add: phase_ok_def)
  then show ?thesis using r p cache alloc_frame_fields(1,4) [OF fr] by (simp add: put_outcome_def phase_ok_def)
qed

lemma outcome_cached:
  assumes out: "store_ok (survivors (device t)) V t" "cache_ok t" "U \<subseteq> V" "wired read_s write_s flush_s t" "ok (device t)"
    and aft: "\<forall>img. image_of img (survivors (device t)) \<longrightarrow> holds_after img (survivors (device s)) s rs (live (st_table t))"
    and dim: "sector_count t = sector_count s" "st_table_capacity t = st_table_capacity s"
    and st: "\<forall>p\<in>set ps. staged_ok t p" and cap: "st_cache_capacity t + 7 < 2 ^ 64"
  shows "\<exists>s'. cache_batch t ps = Some (s', OBJECT_STORE_BATCH_COMMITTED) \<and>
    put_outcome U s rs s' OBJECT_STORE_BATCH_COMMITTED"
proof (cases "length ps = 1")
  case False
  then show ?thesis using out aft dim by (auto simp: cache_batch_def put_outcome_def)
next
  case True
  then obtain p where ps: "ps = [p]" by (auto simp: length_Suc_conv)
  then have st: "staged_ok t p" using st by simp
  have buf: "st_cache_capacity t \<le> length (st_cache_buffer t)" using out(1) by (simp add: store_ok_def memory_ok_def)
  obtain rest where prep: "object_store_prepare_put_bytes t p = (t\<lparr>st_cache_buffer := put_bytes p @ rest\<rparr>, True)"
    and len: "length (put_bytes p @ rest) = length (st_cache_buffer t)" using prepare_result [OF st buf] .
  let ?t = "t\<lparr>st_cache_buffer := put_bytes p @ rest\<rparr>"
  have obc: "0 < sp_object_byte_count p" "sp_object_byte_count p \<le> st_cache_capacity t"
    using st by (auto simp: staged_ok_def object_store_put_request_is_valid_def split: if_splits)
  have co: "cache_ok ?t" using out(2) by (simp add: cache_ok_def slot_at_def)
  obtain s' x where s': "cache_insert ?t (rq_id (sp_request p)) (sp_version p) (st_cache_buffer ?t) (sp_object_byte_count p) = Some (s', x)"
    "cache_ok s'" "without_cache s' = without_cache ?t"
    by (rule cache_insert_total [OF co, of "sp_object_byte_count p" "put_bytes p @ rest"])
      (use obc buf len cap in auto)
  note f = without_cache_fields [OF s'(3)]
  have so: "store_ok (survivors (device t)) V s'"
    using out(1) store_ok_without_cache [OF s'(3)] store_ok_cache_buffer [OF len] by simp
  have "wired read_s write_s flush_s s'" using out(4) f(1) by (simp add: wired_def)
  then have "put_outcome U s rs s' OBJECT_STORE_BATCH_COMMITTED"
    using so s'(2) out(3,5) aft dim f(1,2,4) unfolding put_outcome_def by auto
  then show ?thesis using prep s'(1) by (simp add: cache_batch_def ps)
qed

lemma publish_outcome:
  assumes b: "batch_ready s0 sA rs ps c" and ok: "store_ok (survivors (device s0)) U s0" and p: "phase_ok U s0 s1 t"
    and al: "allocated s0 s1 (map extent_of ps @ [(ts, of_nat (t_count c))])"
    and fresh: "fresh_root (survivors (device t)) (unat (st_next_sector t)) t" and st: "settled (device t)"
    and w: "\<forall>p\<in>set ps. written (visible (device t)) p"
    and rec: "\<forall>i<t_count c. visible (device t) (ts + of_nat i) = record_bytes (live c ! i)"
    and bd: "unat ts + t_count c \<le> unat (st_next_sector t)"
    and gen: "st_current_generation s0 \<noteq> UINT64_MAX" and seq: "unat (st_superblock_sequence t) + 1 < 2 ^ 64"
    and cache: "cache_ok s0" "st_cache_capacity s0 + 7 < 2 ^ 64"
  shows "\<exists>s' r. (case publish_table t c ts (of_nat (t_count c)) of
       (s4, False) \<Rightarrow> Some (s4, OBJECT_STORE_BATCH_RECOVERY_REQUIRED) | (s4, True) \<Rightarrow> cache_batch s4 ps) = Some (s', r) \<and>
    put_outcome U s0 rs s' r"
proof -
  obtain t' r where pub: "publish_table t c ts (of_nat (t_count c)) = (t', r)" by force
  note pr = batch_publish [OF b ok p al fresh st w rec bd gen seq pub]
  show ?thesis
  proof (cases r)
    case False
    then show ?thesis using pub pr(1-4) by (simp add: put_outcome_def)
  next
    case True
    let ?V = "U \<union> staged_extents ps \<union> extent ts (of_nat (t_count c))"
    have res: "store_ok (survivors (device t')) ?V t'" "cache_ok t'" "U \<subseteq> ?V" "st_cache_capacity t' = st_cache_capacity s0"
      "sector_count t' = sector_count s0" "st_table_capacity t' = st_table_capacity s0"
      using pr(5) True cache(1) by auto
    have aft: "\<forall>img. image_of img (survivors (device t')) \<longrightarrow> holds_after img (survivors (device s0)) s0 rs (live (st_table t'))"
      using pr(6) True by blast
    have "\<forall>p\<in>set ps. staged_ok t' p" using b staged_ok_cong [OF res(4)] by (auto simp: batch_ready_def)
    from outcome_cached [OF res(1-3) pr(1,2) aft res(5,6) this] cache(2) res(4) show ?thesis using pub True by auto
  qed
qed

lemma write_outcome:
  assumes ok: "store_ok (survivors (device s0)) U s0" and p1: "phase_ok U s0 s1 s1" and b: "batch_ready s0 sA rs ps c"
    and al: "allocated s0 s1 (map extent_of ps @ [(ts, of_nat (t_count c))])"
    and bd: "unat ts + t_count c \<le> unat (st_next_sector s1)"
    and gen: "st_current_generation s0 \<noteq> UINT64_MAX" and seq: "unat (st_superblock_sequence s1) + 2 < 2 ^ 64"
    and cache: "cache_ok s0" "st_cache_capacity s0 + 7 < 2 ^ 64"
    and rej: "\<And>t. phase_ok U s0 s1 t \<Longrightarrow> put_outcome U s0 rs (reject t) OBJECT_STORE_BATCH_REJECTED"
  shows "\<exists>s' r. put_many_write reject s1 c ps ts = Some (s', r) \<and> put_outcome U s0 rs s' r"
proof -
  let ?cnt = "of_nat (t_count c) :: u64"
  have c: "table_inv c" using b by (simp add: batch_ready_def)
  have xs: "\<forall>p\<in>set ps. unat (sp_first_sector p) + unat (sp_sector_count p) \<le> unat (sector_count s0)"
    "sorted_wrt (\<lambda>p q. staged_extent p \<inter> staged_extent q = {}) ps" "\<forall>p\<in>set ps. staged_extent p \<inter> extent ts ?cnt = {}"
    using al by (auto simp: allocated_def sorted_wrt_append sorted_wrt_map extent_of_def staged_extent_def)
  have "(staged_extents ps \<union> extent ts ?cnt) \<inter> used_sectors s0 = {}"
    using al by (auto simp: allocated_def extent_of_def staged_extent_def)
  then have U: "staged_extents ps \<inter> U = {}" "extent ts ?cnt \<inter> U = {}" using ok by (auto simp: store_ok_def)
  obtain s2 r2 where w2: "write_superblock s1 = (s2, r2)" by force
  have "unat (st_superblock_sequence s1) + 1 < 2 ^ 64" using seq by simp
  note p2 = phase_superblock [OF p1 w2 this]
  obtain s3 r3 where w3: "write_requests s2 ps = (s3, r3)" by force
  have s2: "wired read_s write_s flush_s s2" "ok (device s2)" "st_cache_capacity s2 \<le> length (st_cache_buffer s2)"
    "\<forall>p\<in>set ps. staged_ok s2 p"
    using p2(1) b staged_ok_cong [of s2 s0] by (auto simp: phase_ok_def store_ok_def memory_ok_def batch_ready_def)
  from write_requests_evolves [OF s2(1,2,4,3) xs(1,2) w3] obtain d3 b3 where
    d3: "s3 = (with_device s2 d3)\<lparr>st_cache_buffer := b3\<rparr>" "length b3 = length (st_cache_buffer s2)"
    "evolves (device s2) (anywhere (staged_extents ps)) d3" "r3 \<longrightarrow> (\<forall>p\<in>set ps. written (visible d3) p)" by blast
  note p3 = phase_write [OF p2(1) d3(3) U(1) d3(1,2)]
  have s3: "wired read_s write_s flush_s s3" "ok (device s3)" "sector_count s3 = sector_count s0" "device s3 = d3"
    using p3(1) by (auto simp: phase_ok_def d3(1))
  obtain s4 r4 where w4: "write_table_generation s3 c ts = (s4, r4)" by force
  have "st_next_sector s1 \<le> sector_count s0" using p1 by (auto simp: phase_ok_def store_ok_def memory_ok_def)
  then have bd3: "unat ts + t_count c \<le> unat (sector_count s3)" using bd s3(3) by (simp add: word_le_nat_alt)
  obtain d4 where d4: "s4 = with_device s3 d4" "evolves (device s3) (anywhere (extent ts ?cnt)) d4"
    "r4 \<longrightarrow> settled d4 \<and> (\<forall>i<t_count c. visible d4 (ts + of_nat i) = record_bytes (live c ! i))"
    using write_generation_evolves [OF s3(1,2) c bd3 w4] .
  have d4': "s4 = (with_device s3 d4)\<lparr>st_cache_buffer := st_cache_buffer s3\<rparr>" by (simp add: d4(1) with_device_def)
  note p4 = phase_write [OF p3(1) d4(2) U(2) d4' refl]
  note un = put_many_write_def [of reject s1 c ps ts] w2 w3 w4
  show ?thesis
  proof (cases "r2 \<and> r3 \<and> r4")
    case False
    then show ?thesis using rej [OF p2(1)] rej [OF p3(1)] rej [OF p4(1)] by (cases r2; cases r3; cases r4; simp add: un)
  next
    case True
    have n4: "st_next_sector s4 = st_next_sector s1" using p4(1) by (simp add: phase_ok_def)
    have fr: "fresh_root (survivors (device s4)) (unat (st_next_sector s4)) s4"
      unfolding n4 using p4(2) p3(2) p2(2) True by auto
    have wr: "\<forall>p\<in>set ps. written (visible (device s4)) p"
    proof (intro ballI)
      fix p assume p: "p \<in> set ps"
      show "written (visible (device s4)) p"
      proof (rule written_cong)
        show "written (visible d3) p" using d3(4) True p by blast
        fix u assume "u \<in> staged_extent p"
        then have "anywhere (extent ts ?cnt) u = {}" using xs(3) p by (auto simp: anywhere_def)
        from evolves_visible [OF d4(2) this] show "visible (device s4) u = visible d3 u" using s3(4) by (simp add: d4(1))
      qed
    qed
    have q4: "unat (st_superblock_sequence s4) + 1 < 2 ^ 64" using p2(3) seq by (simp add: d4(1) d3(1))
    have s4: "settled (device s4)" "\<forall>i<t_count c. visible (device s4) (ts + of_nat i) = record_bytes (live c ! i)"
      using d4(1,3) True by auto
    have bd4: "unat ts + t_count c \<le> unat (st_next_sector s4)" using bd n4 by simp
    from publish_outcome [OF b ok p4(1) al fr s4(1) wr s4(2) bd4 gen q4 cache] True show ?thesis by (simp add: un)
  qed
qed

lemma commit_outcome:
  assumes ok: "store_ok (survivors (device s0)) U s0" and wd: "wired read_s write_s flush_s s0" "ok (device s0)"
    and b: "batch_ready s0 sA rs ps c" and cache: "cache_ok s0" "st_cache_capacity s0 + 7 < 2 ^ 64"
    and gen: "st_current_generation s0 \<noteq> UINT64_MAX" and seq: "unat (st_superblock_sequence s0) + 2 < 2 ^ 64"
  shows "\<exists>s' r. put_many_commit sA c ps (st_next_sector s0) = Some (s', r) \<and> put_outcome U s0 rs s' r"
proof -
  let ?cnt = "of_nat (t_count c) :: u64"
  have alA: "allocated s0 sA (map extent_of ps)" "bitmap_ok sA" "alloc_frame s0 sA"
    using b by (auto simp: batch_ready_def allocated_def)
  have io: "sector_count sA = sector_count s0" using alloc_frame_fields(1) [OF alA(3)] by simp
  have n3: "3 \<le> sector_count sA" using ok io by (simp add: store_ok_def memory_ok_def)
  have "t_count c < 2 ^ 64" using b ok by (auto simp: store_ok_def memory_ok_def table_inv_def batch_ready_def)
  then have cnt: "unat ?cnt = t_count c" by (rule unat_of_nat64)
  show ?thesis
  proof (cases "bitmap_allocate sA ?cnt")
    case None
    then show ?thesis
      using outcome_reject [OF ok, of sA ps None sA rs] alA(1) phase_start [OF ok wd alA(1)] cache(1)
      by (simp add: put_many_commit_def)
  next
    case (Some a)
    then obtain sB ts where a: "bitmap_allocate sA ?cnt = Some (sB, ts)" by (cases a) auto
    note one = allocated_one [OF a alA(2) n3] and al = bitmap_allocate_Some [OF a alA(2) n3]
    define s1 where "s1 = raise_next_sector sB (ts + ?cnt)"
    have endb: "unat (ts + ?cnt) = unat ts + t_count c" "ts + ?cnt \<le> sector_count s0"
      using extent_end [OF al(6)] cnt io by auto
    have al1: "allocated s0 s1 (map extent_of ps @ [(ts, ?cnt)])" "ts + ?cnt \<le> st_next_sector s1"
      using allocated_raise [OF allocated_trans [OF alA(1) one(1)] endb(2)] by (auto simp: s1_def)
    have "?cnt \<le> UINT64_MAX" unfolding uint_max_minus_one(2) by (rule word_order.extremum)
    then have "unat (UINT64_MAX - ?cnt) = unat UINT64_MAX - unat ?cnt" by (rule unat_sub)
    then have nowrap: "\<not> ts > UINT64_MAX - ?cnt"
      using endb(1) cnt unat64_less [of "ts + ?cnt"] by (simp add: word_less_nat_alt)
    have fr1: "alloc_frame s0 s1" using al1(1) by (simp add: allocated_def)
    have q1: "unat (st_superblock_sequence s1) + 2 < 2 ^ 64" using seq alloc_frame_fields(9) [OF fr1] by simp
    have bd: "unat ts + t_count c \<le> unat (st_next_sector s1)" using al1(2) endb(1) by (simp add: word_le_nat_alt)
    have rej: "put_outcome U s0 rs (reject_allocations t ps (Some (ts, t_count c)) (st_next_sector s0)) OBJECT_STORE_BATCH_REJECTED"
      if "phase_ok U s0 s1 t" for t
      by (rule outcome_reject [OF ok _ that cache(1)]) (use al1(1) in simp)
    from write_outcome [OF ok phase_start [OF ok wd al1(1)] b al1(1) bd gen q1 cache rej]
    show ?thesis using nowrap by (simp add: put_many_commit_def a s1_def [symmetric])
  qed
qed

end

section \<open>A whole batch\<close>

lemma staged_batch_ready:
  assumes m: "memory_ok s" and bk: "\<forall>r\<in>set rs. request_backed r" and ne: "rs \<noteq> []"
    and st: "stage_requests s [] rs (candidate_table s) = Some (staged, c0)"
    and al: "allocate_requests s c0 staged = (s1, c, ps, True)"
  shows "batch_ready s s1 rs ps c"
proof -
  note cand = candidate_table_facts [OF m]
  have staged: "list_all2 (staged_for s) rs staged" "distinct (map rq_id rs)"
    "fold_opt object_table_upsert (candidate_table s) (map stub_entry staged) = Some c0"
    using stage_requests_Some [OF st] by simp_all
  have req: "map sp_request staged = rs"
    using staged(1) by (induction rule: list_all2_induct) (auto simp: staged_for_id)
  have "rs = map sp_request staged" using req by simp
  then have ids: "map e_id (map stub_entry staged) = map rq_id rs" by (simp add: stub_entry_def)
  have inv0: "table_inv c0 \<and> t_capacity c0 = st_table_capacity s"
    by (rule fold_opt_invariant [OF staged(3), where P = "\<lambda>t. table_inv t \<and> t_capacity t = st_table_capacity s"])
      (use cand upsert_result(1,3) in auto)
  have in0: "\<forall>p\<in>set staged. staged_in c0 p"
  proof
    fix p assume p: "p \<in> set staged"
    have "distinct (map e_id (map stub_entry staged))" using ids staged(2) by simp
    from otab.find_batch [OF cand(1) staged(3) this, of "stub_entry p"] p
    have "object_table_find c0 (staged_id p) = Some (stub_entry p)" by (simp add: stub_entry_def)
    then show "staged_in c0 p" using inv0 by (simp add: staged_in_def find_eq_map stub_entry_def)
  qed
  have same0: "table_map c0 i = table_map (st_table s) i" if "i \<notin> rq_id ` set rs" for i
  proof -
    have "e_id ` set (map stub_entry staged) = rq_id ` set rs" using ids by (metis list.set_map)
    then have "object_table_find c0 i = object_table_find (candidate_table s) i"
      using otab.find_batch_other [OF cand(1) staged(3)] that by simp
    then show ?thesis using inv0 cand(1,2) by (simp add: find_eq_map) (simp add: table_map_def)
  qed
  have bm: "bitmap_ok s" "3 \<le> sector_count s" using m by (auto simp: memory_ok_def)
  have dist: "distinct (map staged_id staged)" using staged(2) unfolding req [symmetric] by (simp add: comp_def)
  have asg: "list_all2 placed staged ps" "assigns c0 ps c"
    "\<forall>p\<in>set ps. unat (sp_first_sector p) + unat (sp_sector_count p) \<le> unat (st_next_sector s1)"
    using allocate_requests_assigns [OF al bm _ dist in0] inv0 by auto
  have fin: "list_all2 (\<lambda>r p. (\<exists>f. p = (stage_request s r)\<lparr>sp_first_sector := f\<rparr>) \<and> staged_ok s p) rs ps"
    using staged(1) asg(1) bk
  proof (induction arbitrary: ps rule: list_all2_induct)
    case (Cons r rs q qs)
    from Cons.prems(1) obtain p ps' where ps: "ps = p # ps'" "placed q p" "list_all2 placed qs ps'"
      by (auto simp: list_all2_Cons1)
    have "\<exists>f. p = (stage_request s r)\<lparr>sp_first_sector := f\<rparr>" using ps(2) Cons.hyps by (auto simp: placed_def staged_for_def)
    moreover have "staged_ok s p" using staged_for_ok [OF Cons.hyps(1)] ps(2) Cons.prems(2) by (auto simp: placed_def)
    ultimately show ?case using Cons.IH [OF ps(3)] Cons.prems(2) ps(1) by simp
  qed simp
  have "map staged_id ps = map staged_id staged"
    using asg(1) by (induction rule: list_all2_induct) (auto simp: placed_def)
  then have "set (map staged_id ps) = set (map staged_id staged)" by simp
  then have idset: "staged_id ` set ps = rq_id ` set rs" unfolding req [symmetric] by (simp add: image_image)
  have "\<forall>p\<in>set ps. staged_ok s p" using fin by (auto simp: list_all2_conv_all_nth in_set_conv_nth)
  moreover have "list_all2 (\<lambda>r p. \<exists>f. p = (stage_request s r)\<lparr>sp_first_sector := f\<rparr>) rs ps"
    using fin by (rule list_all2_mono) simp
  ultimately show ?thesis
    using allocate_requests_allocated [OF al bm] asg(2,3) inv0 same0 idset ne
    unfolding batch_ready_def assigns_def by auto
qed

context block_device
begin

lemma put_many_outcome:
  assumes ok: "store_ok (survivors (device s)) U s" and wd: "wired read_s write_s flush_s s" "ok (device s)"
    and cache: "cache_ok s" "st_cache_capacity s + 7 < 2 ^ 64" and bk: "\<forall>r\<in>set rs. request_backed r"
    and seq: "unat (st_superblock_sequence s) + 2 < 2 ^ 64"
  shows "\<exists>s' r. object_store_put_many s rs = Some (s', r) \<and> put_outcome U s rs s' r"
proof -
  have m: "memory_ok s" using ok by (simp add: store_ok_def)
  have bm: "bitmap_ok s" "3 \<le> sector_count s" using m by (auto simp: memory_ok_def)
  have self: "put_outcome U s rs s OBJECT_STORE_BATCH_REJECTED" using ok wd cache by (simp add: put_outcome_def)
  show ?thesis
  proof (cases "rs = [] \<or> length rs > OBJECT_STORE_PUT_BATCH_MAX \<or> st_recovery_required s \<noteq> 0 \<or>
      st_current_generation s = UINT64_MAX \<or> entries (st_table s) = [] \<or> st_scratch_entries s = None \<or>
      t_count (st_table s) > st_table_capacity s \<or> t_capacity (st_table s) \<noteq> st_table_capacity s")
    case True
    then show ?thesis using self unfolding object_store_put_many_def by auto
  next
    case False
    note un = object_store_put_many_def [of s rs]
    show ?thesis
    proof (cases "stage_requests s [] rs (candidate_table s)")
      case None
      then show ?thesis using False self by (simp add: un)
    next
      case (Some a)
      obtain staged c0 where st: "stage_requests s [] rs (candidate_table s) = Some (staged, c0)" using Some by (cases a) auto
      obtain s1 c ps r1 where al: "allocate_requests s c0 staged = (s1, c, ps, r1)" by (metis prod_cases4)
      have alo: "allocated s s1 (map extent_of ps)" using allocate_requests_allocated [OF al bm] by simp
      show ?thesis
      proof (cases r1)
        case False
        then show ?thesis
          using outcome_reject [OF ok, of s1 ps None s1 rs] alo phase_start [OF ok wd alo] cache(1) self \<open>\<not> (_ \<or> _)\<close> st al
          by (simp add: un)
      next
        case True
        have "batch_ready s s1 rs ps c" using staged_batch_ready [OF m bk _ st] al True False by simp
        from commit_outcome [OF ok wd this cache _ seq] show ?thesis using False self st al True by (simp add: un)
      qed
    qed
  qed
qed

end

end
