(* ===== verification/Store_Format.thy ===== *)
theory Store_Format
  imports Store_Commit
begin

text \<open>
  Formatting a device establishes the invariant of the store, on any device that keeps the
  contract and with any memory of the announced sizes.
\<close>

section \<open>The memory lent to a store\<close>

definition memory_fits :: "'d object_store_io \<Rightarrow> object_store_memory \<Rightarrow> bool" where
  "memory_fits io om \<longleftrightarrow> unat (io_sector_count io) + 7 < 2 ^ 64 \<and> om_table_capacity om < 2 ^ 64 \<and>
     om_cache_capacity om + 7 < 2 ^ 64 \<and>
     (\<forall>es. om_table_entries om = Some es \<longrightarrow> length es = om_table_capacity om) \<and>
     (\<forall>es. om_scratch_entries om = Some es \<longrightarrow> length es = om_table_capacity om) \<and>
     (\<forall>a b. om_cache_buffer om = Some (a, b) \<longrightarrow> length b = om_cache_capacity om) \<and>
     (\<forall>b. om_bitmap_buffer om = Some b \<longrightarrow> length b = om_bitmap_capacity om) \<and>
     (\<forall>a b. om_arena_buffer om = Some (a, b) \<longrightarrow> length b = om_arena_capacity om)"

lemma bitmap_bytes_exact: "unat n + 7 < 2 ^ 64 \<Longrightarrow> unat (bitmap_bytes_for n) = (unat n + 7) div 8"
  by (simp add: bitmap_bytes_for_def unat_div unat_word_ariths)

lemma setup_store_facts:
  assumes "setup_store io om = Some s" "memory_fits io om"
  shows "st_io s = io" "live (st_table s) = []" "t_count (st_table s) = 0" "table_inv (st_table s)"
    "t_capacity (st_table s) = st_table_capacity s" "st_table_capacity s = om_table_capacity om"
    "0 < st_table_capacity s" "st_table_capacity s < 2 ^ 64"
    "\<exists>es. st_scratch_entries s = Some es \<and> length es = st_table_capacity s"
    "st_cache_capacity s = om_cache_capacity om" "length (st_cache_buffer s) = st_cache_capacity s"
    "st_snapshots s = replicate OBJECT_STORE_SNAPSHOT_LIMIT zero_snapshot" "bitmap_ok s" "3 \<le> sector_count s"
    "cache_ok s" "st_cache_slot_count s = 0" "st_recovery_required s = 0" "st_current_generation s = 0"
    "st_superblock_sequence s = 0" "st_current_table_sector s = 0"
    "st_bitmap_capacity s = length (st_bitmap_buffer s)" "unat (bitmap_bytes_for (sector_count s)) \<le> st_bitmap_capacity s"
proof -
  from assms(1) obtain tes ses ca cb bb aa ab where
    om: "om_table_entries om = Some tes" "om_scratch_entries om = Some ses" "om_cache_buffer om = Some (ca, cb)"
      "om_bitmap_buffer om = Some bb" "om_arena_buffer om = Some (aa, ab)" "om_table_capacity om \<noteq> 0"
      "unat (bitmap_bytes_for (io_sector_count io)) \<le> om_bitmap_capacity om" "3 \<le> io_sector_count io"
    by (auto simp: setup_store_def OBJECT_STORE_FIRST_ALLOCATABLE_SECTOR_def not_less split: if_splits)
  have len: "length tes = om_table_capacity om" "length ses = om_table_capacity om" "length cb = om_cache_capacity om"
    "length bb = om_bitmap_capacity om" "length ab = om_arena_capacity om"
    "unat (io_sector_count io) + 7 < 2 ^ 64" "om_table_capacity om < 2 ^ 64"
    using assms(2) om by (auto simp: memory_fits_def)
  have s: "s = \<lparr>st_io = io, st_table = object_table_init (Some tes) (om_table_capacity om),
        st_scratch_entries = Some ses, st_table_capacity = om_table_capacity om,
        st_cache_buffer = cb, st_cache_capacity = om_cache_capacity om,
        st_arena_buffer = ab, st_arena_capacity = om_arena_capacity om,
        st_arena_used = 0, st_cache_slots = replicate OBJECT_STORE_CACHE_SLOTS zero_slot,
        st_cache_slot_count = 0, st_cache_clock = 0,
        st_bitmap_buffer = bb, st_bitmap_capacity = om_bitmap_capacity om,
        st_next_sector = 0, st_current_table_sector = 0, st_current_generation = 0,
        st_superblock_sequence = 0, st_active_superblock_sector = 0, st_recovery_required = 0,
        st_snapshots = replicate OBJECT_STORE_SNAPSHOT_LIMIT zero_snapshot\<rparr>"
    using assms(1) om by (simp add: setup_store_def split: if_splits)
  show "st_io s = io" "live (st_table s) = []" "t_count (st_table s) = 0" "table_inv (st_table s)"
    "t_capacity (st_table s) = st_table_capacity s" "st_table_capacity s = om_table_capacity om"
    "0 < st_table_capacity s" "st_table_capacity s < 2 ^ 64"
    "\<exists>es. st_scratch_entries s = Some es \<and> length es = st_table_capacity s"
    "st_cache_capacity s = om_cache_capacity om" "length (st_cache_buffer s) = st_cache_capacity s"
    "st_snapshots s = replicate OBJECT_STORE_SNAPSHOT_LIMIT zero_snapshot" "3 \<le> sector_count s"
    "st_cache_slot_count s = 0" "st_recovery_required s = 0" "st_current_generation s = 0"
    "st_superblock_sequence s = 0" "st_current_table_sector s = 0"
    "st_bitmap_capacity s = length (st_bitmap_buffer s)" "unat (bitmap_bytes_for (sector_count s)) \<le> st_bitmap_capacity s"
    using om len init_inv(1) [OF len(1)] by (simp_all add: s object_table_init_def live_def)
  show "bitmap_ok s" using om(7) len bitmap_bytes_exact [OF len(6)] by (simp add: s bitmap_ok_def)
  show "cache_ok s" using len by (simp add: s cache_ok_def)
qed

lemma clear_bitmap_ok:
  assumes "bitmap_ok s" "unat (sector_count s) + 7 < 2 ^ 64"
  shows "bitmap_frame s (clear_bitmap s)" "bitmap_ok (clear_bitmap s)"
proof -
  have "(unat (sector_count s) + 7) div 8 \<le> length (st_bitmap_buffer s)" using assms(1) by (simp add: bitmap_ok_def)
  then show f: "bitmap_frame s (clear_bitmap s)"
    using bitmap_bytes_exact [OF assms(2)] by (auto simp: bitmap_frame_def clear_bitmap_def Let_def memcpy_at_0)
  show "bitmap_ok (clear_bitmap s)" using bitmap_frame_ok [OF f] assms(1) by simp
qed

section \<open>Format\<close>

text \<open>The store in memory before the first superblock is written.\<close>

definition blank_store :: "'d object_store \<Rightarrow> 'd object_store" where
  "blank_store s = bitmap_set_range
     (clear_bitmap (s\<lparr>st_next_sector := OBJECT_STORE_FIRST_ALLOCATABLE_SECTOR,
                      st_active_superblock_sector := OBJECT_STORE_SUPERBLOCK_A\<rparr>))
     0 OBJECT_STORE_FIRST_ALLOCATABLE_SECTOR"

lemma blank_store_facts:
  assumes "setup_store io om = Some s" "memory_fits io om"
  shows "memory_ok (blank_store s)" "{0, 1, 2} \<subseteq> used_sectors (blank_store s)"
    "\<exists>b. blank_store s = s\<lparr>st_next_sector := 3, st_active_superblock_sector := 0, st_bitmap_buffer := b\<rparr>"
proof -
  note f = setup_store_facts [OF assms]
  let ?s = "s\<lparr>st_next_sector := OBJECT_STORE_FIRST_ALLOCATABLE_SECTOR, st_active_superblock_sector := OBJECT_STORE_SUPERBLOCK_A\<rparr>"
  have b: "bitmap_ok ?s" "unat (sector_count ?s) + 7 < 2 ^ 64"
    using f(1,13) assms(2) by (simp_all add: bitmap_ok_def memory_fits_def)
  note c = clear_bitmap_ok [OF b]
  note r = bitmap_set_range_result [OF c(2), of 0 OBJECT_STORE_FIRST_ALLOCATABLE_SECTOR]
  have ext: "extent 0 OBJECT_STORE_FIRST_ALLOCATABLE_SECTOR = {0, 1, 2}"
    by (simp add: extent_def OBJECT_STORE_FIRST_ALLOCATABLE_SECTOR_def lessThan_nat_numeral lessThan_Suc insert_commute)
  show "{0, 1, 2} \<subseteq> used_sectors (blank_store s)" using r(3) ext by (auto simp: blank_store_def)
  have "bitmap_frame ?s (blank_store s)" unfolding blank_store_def using bitmap_frame_trans [OF c(1) r(1)] .
  then show ex: "\<exists>b. blank_store s = s\<lparr>st_next_sector := 3, st_active_superblock_sector := 0, st_bitmap_buffer := b\<rparr>"
    by (auto simp: bitmap_frame_def OBJECT_STORE_FIRST_ALLOCATABLE_SECTOR_def OBJECT_STORE_SUPERBLOCK_A_def)
  show "memory_ok (blank_store s)" unfolding memory_ok_def using f r(2) ex by (auto simp: blank_store_def)
qed

lemma empty_snapshots_ok: "snapshots_ok S U n cap (map snap_triple (replicate k zero_snapshot))"
  by (auto simp: snapshots_ok_def snap_triple_def zero_snapshot_def)

lemma empty_gen_ok: "gen_ok S U n cap 0 []"
  by (simp add: gen_ok_def ids_sorted_def)

context block_device
begin

lemma format_result:
  assumes fmt: "object_store_format io om = Some (s, True)" and fits: "memory_fits io om"
    and io: "io_read_sector io = Some read_s" "io_write_sector io = Some write_s" "io_flush io = Some flush_s"
      "ok (io_context io)"
  shows "wired read_s write_s flush_s s" "ok (device s)" "store_ok (survivors (device s)) {0, 1, 2} s" "cache_ok s"
    "live (st_table s) = []" "st_recovery_required s = 0" "st_current_generation s = 0" "st_superblock_sequence s = 2"
    "st_table_capacity s = om_table_capacity om" "st_cache_capacity s = om_cache_capacity om"
    "sector_count s = io_sector_count io"
proof -
  from fmt obtain s0 where set0: "setup_store io om = Some s0" by (auto simp: object_store_format_def split: option.splits)
  note f = setup_store_facts [OF set0 fits] and bl = blank_store_facts [OF set0 fits]
  define s1 where "s1 = blank_store s0"
  from fmt obtain s2 s3 where w: "write_superblock s1 = (s2, True)" "write_superblock s2 = (s3, True)"
    "write_and_flush s3 2 empty_sector = (s, True)"
    by (auto simp: object_store_format_def set0 Let_def s1_def blank_store_def OBJECT_STORE_WAL_SECTOR_def
        split: prod.splits bool.splits)
  obtain b where s1: "s1 = s0\<lparr>st_next_sector := 3, st_active_superblock_sector := 0, st_bitmap_buffer := b\<rparr>"
    using bl(3) by (auto simp: s1_def)
  have wd1: "wired read_s write_s flush_s s1" "ok (device s1)" using io f(1) by (simp_all add: wired_def s1)
  have t1: "superblock_target s1 = 1"
    by (simp add: superblock_target_def s1 OBJECT_STORE_SUPERBLOCK_A_def OBJECT_STORE_SUPERBLOCK_B_def)
  have q1: "st_superblock_sequence s1 = 0" by (simp add: s1 f(19))
  obtain d2 where
    ev2: "evolves (device s1) (\<lambda>t. if t = 1 then {next_superblock s1} else {}) d2" and
    s2: "s2 = (with_device s1 d2)\<lparr>st_superblock_sequence := 1, st_active_superblock_sector := 1\<rparr>" and
    set2: "settled d2" "visible d2 1 = next_superblock s1"
    by (rule write_superblock_evolves [OF wd1 w(1), unfolded t1 q1]) simp
  have d2: "ok d2" "survivors d2 1 = {next_superblock s1}" using evolves_ok [OF ev2] set2 by (simp_all add: settled_def)
  have wd2: "wired read_s write_s flush_s s2" "ok (device s2)" using wd1 d2 by (simp_all add: s2 wired_def with_device_def)
  have t2: "superblock_target s2 = 0"
    by (simp add: superblock_target_def s2 OBJECT_STORE_SUPERBLOCK_A_def OBJECT_STORE_SUPERBLOCK_B_def)
  have q2: "st_superblock_sequence s2 = 1" "device s2 = d2" by (simp_all add: s2)
  obtain d3 where
    ev3: "evolves d2 (\<lambda>t. if t = 0 then {next_superblock s2} else {}) d3" and
    s3: "s3 = (with_device s2 d3)\<lparr>st_superblock_sequence := 2, st_active_superblock_sector := 0\<rparr>" and
    set3: "settled d3" "visible d3 0 = next_superblock s2"
    by (rule write_superblock_evolves [OF wd2 w(2), unfolded t2 q2]) simp
  have d3: "survivors d3 0 = {next_superblock s2}" using set3 by (simp add: settled_def)
  have b3: "survivors d3 1 = {next_superblock s1}" by (rule evolves_durable [OF ev3 _ d2(2)]) simp
  have wd3: "wired read_s write_s flush_s s3" "ok (device s3)"
    using wd2 evolves_ok [OF ev3] by (simp_all add: s3 wired_def with_device_def)
  have q3: "device s3 = d3" by (simp add: s3)
  obtain d where
    s: "s = with_device s3 d" and ev: "evolves d3 (\<lambda>t. if t = 2 then {empty_sector} else {}) d" and
    setd: "settled d" "visible d 2 = empty_sector"
    by (rule write_flush_evolves [OF wd3 w(3), unfolded q3]) simp
  have d: "survivors d 2 = {empty_sector}" using setd by (simp add: settled_def)
  have sb: "survivors d 0 = {next_superblock s2}" "survivors d 1 = {next_superblock s1}"
    using evolves_durable [OF ev, of 0, OF _ d3] evolves_durable [OF ev, of 1, OF _ b3] by auto
  have m1: "memory_ok s1" "{0, 1, 2} \<subseteq> used_sectors s1" using bl by (auto simp: s1_def)
  have m2: "memory_ok s2" using m1(1) by (simp add: s2 memory_ok_def bitmap_ok_def)
  have dec: "decode_superblock (next_superblock s1) = superblock_from_store s1 1"
    "decode_superblock (next_superblock s2) = superblock_from_store s2 2"
    unfolding next_superblock_def using m1 m2 f(19)
    by (subst decode_next_superblock; simp add: memory_ok_def s1 s2)+
  let ?S = "survivors d" and ?U = "{0, 1, 2} :: u64 set"
  have sn: "snapshots_ok ?S ?U (sector_count s2) (st_table_capacity s2) (map snap_triple (st_snapshots s2))"
    using empty_snapshots_ok f(12) by (simp add: s2 s1)
  have good: "leads_to ?S ?U (sector_count s2) (st_table_capacity s2) 0 0 (superblock_from_store s2 2)"
    using leads_to_next [OF m2 sn] f(3,20) by (simp add: s2 s1)
  have us: "used_sectors s = used_sectors s1"
    using bitmap_test_cong [of s s1] by (simp add: s s3 s2 used_sectors_def)
  have ms: "memory_ok s" using m1(1) by (auto simp: s s3 s2 memory_ok_def bitmap_ok_def)
  have ts: "superblock_target s = 1"
    by (simp add: superblock_target_def s s3 OBJECT_STORE_SUPERBLOCK_A_def OBJECT_STORE_SUPERBLOCK_B_def)
  have roots: "roots_ok ?S ?U s"
    unfolding roots_ok_def Let_def ts using sb dec good f(3,20) by (simp add: s s3 s2 s1)
  have sn': "snapshots_ok ?S ?U (sector_count s) (st_table_capacity s) (map snap_triple (st_snapshots s))"
    using sn by (simp add: s s3 s2)
  have "gen_ok ?S ?U (sector_count s) (st_table_capacity s) (st_current_table_sector s) (live (st_table s))"
    using empty_gen_ok f(2,20) by (simp add: s s3 s2 s1)
  then show "store_ok (survivors (device s)) ?U s"
    unfolding store_ok_def using ms us m1(2) sn' roots d by (simp add: s)
  show "wired read_s write_s flush_s s" "ok (device s)" using wd3 evolves_ok [OF ev] by (simp_all add: s)
  show "cache_ok s" using f(15) by (simp add: s s3 s2 s1 cache_ok_def slot_at_def with_device_def)
  show "live (st_table s) = []" "st_recovery_required s = 0" "st_current_generation s = 0" "st_superblock_sequence s = 2"
    "st_table_capacity s = om_table_capacity om" "st_cache_capacity s = om_cache_capacity om"
    "sector_count s = io_sector_count io"
    using f by (simp_all add: s s3 s2 s1)
qed

end

section \<open>Formatting a device that answers\<close>

context block_device
begin

lemma write_superblock_wired:
  assumes "wired read_s write_s flush_s s" "ok (device s)" "write_superblock s = (s', r)"
  shows "wired read_s write_s flush_s s'" "ok (device s')"
proof -
  obtain d where ev: "evolves (device s) (\<lambda>t. if t = superblock_target s then {next_superblock s} else {}) d"
    and s': "s' = (if r then (with_device s d)\<lparr>st_superblock_sequence := st_superblock_sequence s + 1,
                       st_active_superblock_sector := superblock_target s\<rparr> else with_device s d)"
    by (rule write_superblock_evolves [OF assms])
  show "wired read_s write_s flush_s s'" "ok (device s')"
    using assms(1) evolves_ok [OF ev] by (simp_all add: s' wired_def with_device_def)
qed

end

context reliable_device
begin

lemma write_flush_answers:
  assumes "wired read_s write_s flush_s s" "ok (device s)" "x < n" "2 \<le> budget (device s)" "write_and_flush s x b = (s', r)"
  shows "r" "budget (device s) \<le> budget (device s') + 2"
proof -
  obtain d1 r1 where w: "write_s (device s) x b = (d1, r1)" by force
  have b1: "r1" "budget (device s) \<le> Suc (budget d1)" using write_answers [OF assms(2,3) _ w] assms(4) by auto
  have ok1: "ok d1" using write_law [OF assms(2) w] by simp
  obtain d2 r2 where f: "flush_s d1 = (d2, r2)" by force
  have b2: "r2" "budget d1 \<le> Suc (budget d2)" using flush_answers [OF ok1 _ f] assms(4) b1 by auto
  have "s' = with_device s d2" "r = r2"
    using assms(1,5) w f b1(1)
    by (auto simp: write_and_flush_def store_write_def store_flush_def wired_def with_device_def)
  then show r "budget (device s) \<le> budget (device s') + 2" using b1 b2 by auto
qed

lemma write_superblock_answers:
  assumes "wired read_s write_s flush_s s" "ok (device s)" "1 < n" "2 \<le> budget (device s)" "write_superblock s = (s', r)"
  shows "r" "budget (device s) \<le> budget (device s') + 2"
proof -
  obtain s1 r1 where w: "write_and_flush s (superblock_target s) (next_superblock s) = (s1, r1)" by force
  have "superblock_target s < n"
    using assms(3) by (auto simp: superblock_target_def OBJECT_STORE_SUPERBLOCK_A_def OBJECT_STORE_SUPERBLOCK_B_def intro: le_less_trans)
  from write_flush_answers [OF assms(1,2) this assms(4) w] show "r" "budget (device s) \<le> budget (device s') + 2"
    using assms(5) w by (auto simp: write_superblock_def next_superblock_def Let_def)
qed

lemma format_answers:
  assumes set0: "setup_store io om = Some s0" and fits: "memory_fits io om"
    and io: "io_read_sector io = Some read_s" "io_write_sector io = Some write_s" "io_flush io = Some flush_s"
      "ok (io_context io)" "io_sector_count io = n" "6 \<le> budget (io_context io)"
  shows "\<exists>s. object_store_format io om = Some (s, True)"
proof -
  note f = setup_store_facts [OF set0 fits] and bl = blank_store_facts [OF set0 fits]
  have n: "1 < n" "2 < n" using f(14) by (auto simp: f(1) io(5) word_less_nat_alt word_le_nat_alt)
  obtain b where s1: "blank_store s0 = s0\<lparr>st_next_sector := 3, st_active_superblock_sector := 0, st_bitmap_buffer := b\<rparr>"
    using bl(3) by auto
  have wd1: "wired read_s write_s flush_s (blank_store s0)" "ok (device (blank_store s0))" "6 \<le> budget (device (blank_store s0))"
    using io f(1) by (simp_all add: wired_def s1)
  obtain s2 r2 where w2: "write_superblock (blank_store s0) = (s2, r2)" by force
  have a2: r2 "4 \<le> budget (device s2)" using write_superblock_answers [OF wd1(1,2) n(1) _ w2] wd1(3) by auto
  note wd2 = write_superblock_wired [OF wd1(1,2) w2]
  obtain s3 r3 where w3: "write_superblock s2 = (s3, r3)" by force
  have a3: r3 "2 \<le> budget (device s3)" using write_superblock_answers [OF wd2 n(1) _ w3] a2(2) by auto
  note wd3 = write_superblock_wired [OF wd2 w3]
  obtain s r where w: "write_and_flush s3 2 empty_sector = (s, r)" by force
  have "r" using write_flush_answers [OF wd3 n(2) a3(2) w] by simp
  then show ?thesis
    using w2 w3 w a2(1) a3(1) by (simp add: object_store_format_def set0 Let_def blank_store_def OBJECT_STORE_WAL_SECTOR_def)
qed

end

text \<open>A freshly formatted store on the device of the write-ordering test.\<close>

definition blank_disk :: barrier_disk where
  "blank_disk = \<lparr>bd_durable = replicate 128 [], bd_visible = replicate 128 [], bd_unflushed = replicate 128 False,
     bd_writes_remaining = 1000, bd_cut = False, bd_flush_is_noop = False, bd_ignore_flush_index = 0,
     bd_write_count = 0, bd_flush_count = 0\<rparr>"

definition sample_memory :: object_store_memory where
  "sample_memory = \<lparr>om_table_entries = Some (replicate 4 zero_entry), om_scratch_entries = Some (replicate 4 zero_entry),
     om_table_capacity = 4, om_cache_buffer = Some (0, replicate 1024 0), om_cache_capacity = 1024,
     om_bitmap_buffer = Some (replicate 16 0), om_bitmap_capacity = 16,
     om_arena_buffer = Some (0, replicate 1024 0), om_arena_capacity = 1024\<rparr>"

definition sample_store :: "barrier_disk object_store" where
  "sample_store = fst (the (object_store_format (make_io blank_disk) sample_memory))"

lemma blank_disk_ok: "barrier_ok blank_disk" "barrier_budget blank_disk = 999"
  by (simp_all add: barrier_ok_def blank_disk_def barrier_budget_def)

lemma sample_memory_fits: "memory_fits (make_io d) sample_memory"
  by (simp add: memory_fits_def sample_memory_def make_io_def)

lemma sample_setup: "\<exists>s. setup_store (make_io d) sample_memory = Some s"
  by (simp add: setup_store_def sample_memory_def make_io_def bitmap_bytes_for_def OBJECT_STORE_FIRST_ALLOCATABLE_SECTOR_def)

lemma sample_format: "object_store_format (make_io blank_disk) sample_memory = Some (sample_store, True)"
proof -
  obtain s0 where s0: "setup_store (make_io blank_disk) sample_memory = Some s0" using sample_setup by blast
  from barrier.format_answers [OF s0 sample_memory_fits] obtain s where
    "object_store_format (make_io blank_disk) sample_memory = Some (s, True)"
    using blank_disk_ok by (auto simp: make_io_def)
  then show ?thesis by (simp add: sample_store_def)
qed

lemma sample_store_facts:
  "wired barrier_read barrier_write barrier_flush sample_store" "barrier_ok (device sample_store)"
  "store_ok (barrier_survivors (device sample_store)) {0, 1, 2} sample_store" "cache_ok sample_store"
  "live (st_table sample_store) = []" "st_recovery_required sample_store = 0" "st_current_generation sample_store = 0"
  "st_superblock_sequence sample_store = 2" "st_table_capacity sample_store = 4" "st_cache_capacity sample_store = 1024"
  "sector_count sample_store = 128"
  using barrier.format_result [OF sample_format sample_memory_fits] blank_disk_ok
  by (simp_all add: make_io_def sample_memory_def)

end
