(* ===== verification/Store_Crash.thy ===== *)
theory Store_Crash
  imports Store_Format
begin

text \<open>
  What a power loss can do to the object store: nothing but undo an unfinished operation.
\<close>

section \<open>A batch of puts\<close>

context block_device
begin

lemma outcome_images:
  assumes ok: "store_ok (survivors (device s)) U s" and out: "put_outcome U s rs s' r"
    and img: "image_of img (survivors (device s'))"
  shows "\<exists>es. recover_image img (sector_count s) (st_table_capacity s) = Some es \<and>
    (case r of OBJECT_STORE_BATCH_REJECTED \<Rightarrow> holds_before img (survivors (device s)) s es
     | OBJECT_STORE_BATCH_COMMITTED \<Rightarrow> holds_after img (survivors (device s)) s rs es
     | OBJECT_STORE_BATCH_RECOVERY_REQUIRED \<Rightarrow>
         holds_before img (survivors (device s)) s es \<or> holds_after img (survivors (device s)) s rs es)"
proof (cases r)
  case OBJECT_STORE_BATCH_REJECTED
  then have o: "store_ok (survivors (device s')) U s'" "keeps U (survivors (device s)) (survivors (device s'))"
    "st_table s' = st_table s" "sector_count s' = sector_count s" "st_table_capacity s' = st_table_capacity s"
    using out by (auto simp: put_outcome_def)
  have g: "gen_ok (survivors (device s)) U (sector_count s) (st_table_capacity s) (st_current_table_sector s) (live (st_table s))"
    using ok by (simp add: store_ok_def)
  show ?thesis
    using OBJECT_STORE_BATCH_REJECTED store_ok_recovers(1) [OF o(1) img] objects_kept [OF g o(2) img] o(3-5)
    by (simp add: holds_before_def)
next
  case OBJECT_STORE_BATCH_COMMITTED
  then obtain V where o: "store_ok (survivors (device s')) V s'" "sector_count s' = sector_count s"
    "st_table_capacity s' = st_table_capacity s"
    "holds_after img (survivors (device s)) s rs (live (st_table s'))"
    using out img by (auto simp: put_outcome_def)
  then show ?thesis using OBJECT_STORE_BATCH_COMMITTED store_ok_recovers(1) [OF o(1) img] by simp
next
  case OBJECT_STORE_BATCH_RECOVERY_REQUIRED
  then show ?thesis using out img by (simp add: put_outcome_def)
qed

end

text \<open>
  C14: \<open>object_store_put_many\<close> is atomic. On any device that keeps the block device
  contract - its writes and flushes may fail at any moment, and a sector written since the last
  flush may hold its old or its new contents after a power loss - and from any consistent store,
  the call returns, and every disk image that a power loss at that moment may leave is
  recovered by a mount. After \<open>REJECTED\<close> the recovered table and the bytes of its objects
  are those before the call, and the store in memory is unchanged and consistent, with the
  sectors it had allocated given back; after \<open>COMMITTED\<close> the recovered table holds every
  request of the batch, with its payload, next to the untouched other objects; after
  \<open>RECOVERY_REQUIRED\<close> it is one of the two and the store refuses further work. Since a
  device that stops answering is one whose operations fail from then on, this covers a power
  loss between any two of the writes of the call.
\<close>

theorem put_many_atomic:
  assumes "block_device read_s write_s flush_s ok visible survivors"
    and "wired read_s write_s flush_s s" "ok (device s)" "store_ok (survivors (device s)) U s"
    and "cache_ok s" "st_cache_capacity s + 7 < 2 ^ 64" "\<forall>r\<in>set rs. request_backed r"
    and "unat (st_superblock_sequence s) + 2 < 2 ^ 64"
  shows "\<exists>s' r. object_store_put_many s rs = Some (s', r) \<and>
    (\<forall>img. image_of img (survivors (device s')) \<longrightarrow>
       (\<exists>es. recover_image img (sector_count s) (st_table_capacity s) = Some es \<and>
         (case r of OBJECT_STORE_BATCH_REJECTED \<Rightarrow> holds_before img (survivors (device s)) s es
          | OBJECT_STORE_BATCH_COMMITTED \<Rightarrow> holds_after img (survivors (device s)) s rs es
          | OBJECT_STORE_BATCH_RECOVERY_REQUIRED \<Rightarrow>
              holds_before img (survivors (device s)) s es \<or> holds_after img (survivors (device s)) s rs es))) \<and>
    (case r of OBJECT_STORE_BATCH_REJECTED \<Rightarrow> store_ok (survivors (device s')) U s' \<and> st_table s' = st_table s \<and>
                 used_sectors s' = used_sectors s
     | OBJECT_STORE_BATCH_COMMITTED \<Rightarrow> \<exists>V. U \<subseteq> V \<and> store_ok (survivors (device s')) V s'
     | OBJECT_STORE_BATCH_RECOVERY_REQUIRED \<Rightarrow> st_recovery_required s' = 1)"
proof -
  from block_device.put_many_outcome [OF assms(1,4,2,3,5-8)] obtain s' r where
    r: "object_store_put_many s rs = Some (s', r)"
    "block_device.put_outcome read_s write_s flush_s ok survivors U s rs s' r" by blast
  show ?thesis
    using r(1) block_device.outcome_images [OF assms(1,4) r(2)] r(2)
    by (intro exI [of _ s'] exI [of _ r]) (auto simp: block_device.put_outcome_def [OF assms(1)] split: object_store_batch_result.splits)
qed

definition sample_request :: "object_id \<Rightarrow> bytes \<Rightarrow> object_store_put_request" where
  "sample_request i b = \<lparr>rq_id = i, rq_type_id = Object_Id 0 9, rq_creator_id = Object_Id 0 1,
     rq_modifier_id = Object_Id 0 1, rq_logical_timestamp = 5, rq_payload = Some b, rq_payload_size = length b\<rparr>"

theorem put_many_atomic_witness:
  "\<exists>s' r. object_store_put_many sample_store [sample_request (Object_Id 0 7) [1, 2, 3], sample_request (Object_Id 0 8) [4]] =
      Some (s', r) \<and>
    (\<forall>img. image_of img (barrier_survivors (device s')) \<longrightarrow> recover_image img 128 4 \<noteq> None)"
proof -
  let ?rs = "[sample_request (Object_Id 0 7) [1, 2, 3], sample_request (Object_Id 0 8) [4]]"
  have "\<forall>r\<in>set ?rs. request_backed r" by (simp add: request_backed_def sample_request_def)
  from put_many_atomic [OF barrier.block_device_axioms sample_store_facts(1-4) _ this] sample_store_facts
  show ?thesis by (simp; blast)
qed

end
