(* ===== verification/Store_Mount.thy ===== *)
theory Store_Mount
  imports Store_Crash
begin

text \<open>
  Mounting, \<open>object_store_mount\<close> of \<^verbatim>\<open>kernel/obj/object_store.c\<close>, against the meaning of
  a disk image: on a device that answers, a mount succeeds exactly on the images that hold a table,
  and then the table, the free sectors and the log are those of the image.
\<close>

section \<open>Reading sectors\<close>

lemma image_entries_Suc: "image_entries img ts (Suc m) = image_entries img ts m @ [te_entry (decode_table_entry (img (ts + of_nat m)))]"
  by (simp add: image_entries_def)

lemma image_entries_simps [simp]:
  "length (image_entries img ts m) = m" "image_entries img ts 0 = []"
  "i < m \<Longrightarrow> image_entries img ts m ! i = te_entry (decode_table_entry (img (ts + of_nat i)))"
  by (simp_all add: image_entries_def)

lemma ids_sorted_short [simp]: "ids_sorted []" "ids_sorted [e]"
  by (simp_all add: ids_sorted_def)

lemma ids_sorted_snoc: "ids_sorted (es @ [e]) \<longleftrightarrow> ids_sorted es \<and> (es \<noteq> [] \<longrightarrow> e_id (last es) < e_id e)"
  by (cases es rule: rev_cases) (auto simp: ids_sorted_def sorted_wrt_append)

lemma ids_sorted_shorter: "ids_sorted (image_entries img ts (m + k)) \<Longrightarrow> ids_sorted (image_entries img ts m)"
  by (induction k) (auto simp: image_entries_Suc ids_sorted_snoc)

lemma last_image_entries: "m \<noteq> 0 \<Longrightarrow> last (image_entries img ts m) = te_entry (decode_table_entry (img (ts + of_nat (m - 1))))"
  by (cases m) (simp_all add: image_entries_Suc)

text \<open>The table a generation is read into.\<close>

definition table_room :: "nat \<Rightarrow> object_table \<Rightarrow> bool" where
  "table_room cap table \<longleftrightarrow> length (entries table) = cap \<and> t_capacity table = cap"

context bounded_device
begin

definition same_view :: "'d \<Rightarrow> 'd \<Rightarrow> bool" where
  "same_view d d' \<longleftrightarrow> ok d' \<and> visible d' = visible d \<and> survivors d' = survivors d \<and> budget d' = budget d"

lemma same_view_trans: "same_view d e \<Longrightarrow> same_view e f \<Longrightarrow> same_view d f"
  by (simp add: same_view_def)

lemma same_viewD: "same_view d e \<Longrightarrow> ok e" "same_view d e \<Longrightarrow> visible e = visible d" "same_view d e \<Longrightarrow> budget e = budget d"
  by (simp_all add: same_view_def)

lemma same_view_refl: "ok d \<Longrightarrow> same_view d d"
  by (simp add: same_view_def)

lemma store_read_view:
  assumes "wired read_s write_s flush_s s" "ok (device s)"
  obtains d where "store_read s t = (with_device s d, if t < n then Some (visible (device s) t) else None)" "same_view (device s) d"
proof -
  obtain d r where rd: "read_s (device s) t = (d, r)" by force
  have "r = (if t < n then Some (visible (device s) t) else None)"
    using read_law [OF assms(2) rd] read_answers [OF assms(2) _ rd] read_refused [OF assms(2) _ rd] by (auto simp: not_less)
  moreover have "same_view (device s) d" using read_law [OF assms(2) rd] read_budget [OF assms(2) rd] by (simp add: same_view_def)
  moreover have "store_read s t = (with_device s d, r)" using assms(1) rd by (simp add: store_read_def wired_def with_device_def)
  ultimately show ?thesis using that by simp
qed

lemma read_entries_view:
  assumes "wired read_s write_s flush_s s" "ok (device s)" "visible (device s) = img" "unat ts + (index + remaining) \<le> unat n"
    "index + remaining \<le> cap" "table_room cap table" "t_count table = index" "take index (entries table) = image_entries img ts index"
    "ids_sorted (image_entries img ts index)"
  shows "\<exists>d table' r. read_entries s table ts index remaining = (with_device s d, table', r) \<and> same_view (device s) d \<and> table_room cap table' \<and>
    (r \<longleftrightarrow> list_all (\<lambda>i. table_entry_is_valid (decode_table_entry (img (ts + of_nat i)))) [index..<index + remaining] \<and>
       ids_sorted (image_entries img ts (index + remaining))) \<and>
    (r \<longrightarrow> t_count table' = index + remaining \<and> live table' = image_entries img ts (index + remaining))"
  using assms
proof (induction remaining arbitrary: s table index)
  case 0
  then show ?case
    by (intro exI [of _ "device s"] exI [of _ table] exI [of _ True]) (simp add: same_view_refl live_def)
next
  case (Suc remaining)
  let ?t = "ts + of_nat index" and ?e = "te_entry (decode_table_entry (img (ts + of_nat index)))"
  have "unat ?t = unat ts + index" using unat_offset [of ts "index + Suc remaining" n index] Suc.prems(4) by simp
  then have t: "?t < n" using Suc.prems(4) by (simp add: word_less_nat_alt)
  obtain d1 where r1: "store_read s ?t = (with_device s d1, Some (img ?t))" and d1: "same_view (device s) d1"
    using store_read_view [OF Suc.prems(1,2), of ?t] t Suc.prems(3) by auto
  have prev: "entries table ! (index - 1) = last (image_entries img ts index)" if "index \<noteq> 0"
  proof -
    have "entries table ! (index - 1) = take index (entries table) ! (index - 1)" using that by simp
    then show ?thesis using Suc.prems(8) last_image_entries [OF that] that by simp
  qed
  have sorted: "ids_sorted (image_entries img ts (Suc index)) \<longleftrightarrow>
      \<not> (index \<noteq> 0 \<and> object_id_compare (e_id (entries table ! (index - 1))) (e_id ?e) \<ge> 0)"
    using Suc.prems(9) prev by (cases "index = 0") (auto simp: image_entries_Suc ids_sorted_snoc not_le simp flip: length_0_conv)
  have u: "[index..<index + Suc remaining] = index # [Suc index..<Suc index + remaining]" by (simp add: upt_conv_Cons)
  show ?case
  proof (cases "table_entry_is_valid (decode_table_entry (img ?t)) \<and> ids_sorted (image_entries img ts (Suc index))")
    case False
    moreover have "\<not> (list_all (\<lambda>i. table_entry_is_valid (decode_table_entry (img (ts + of_nat i)))) [index..<index + Suc remaining] \<and>
        ids_sorted (image_entries img ts (index + Suc remaining)))"
      using False ids_sorted_shorter [of img ts "Suc index" remaining] unfolding u by auto
    ultimately show ?thesis
      using r1 d1 sorted Suc.prems(6)
      by (intro exI [of _ d1] exI [of _ "table\<lparr>t_count := 0\<rparr>"] exI [of _ False]) (auto simp: table_room_def Let_def)
  next
    case True
    let ?table = "table\<lparr>entries := (entries table)[index := ?e], t_count := t_count table + 1\<rparr>"
    have step: "read_entries s table ts index (Suc remaining) = read_entries (with_device s d1) ?table ts (Suc index) remaining"
      using r1 True sorted by (auto simp: Let_def)
    have take: "take (Suc index) (entries ?table) = image_entries img ts (Suc index)"
      using Suc.prems(5,6,8) by (simp add: table_room_def take_Suc_conv_app_nth image_entries_Suc)
    have "\<exists>d table' r. read_entries (with_device s d1) ?table ts (Suc index) remaining = (with_device (with_device s d1) d, table', r) \<and>
        same_view (device (with_device s d1)) d \<and> table_room cap table' \<and>
        (r \<longleftrightarrow> list_all (\<lambda>i. table_entry_is_valid (decode_table_entry (img (ts + of_nat i)))) [Suc index..<Suc index + remaining] \<and>
           ids_sorted (image_entries img ts (Suc index + remaining))) \<and>
        (r \<longrightarrow> t_count table' = Suc index + remaining \<and> live table' = image_entries img ts (Suc index + remaining))"
      using Suc.prems d1 take True
      by (intro Suc.IH) (auto simp: same_view_def table_room_def)
    then obtain d table' r where rec: "read_entries (with_device s d1) ?table ts (Suc index) remaining = (with_device s d, table', r)"
      "same_view d1 d" "table_room cap table'"
      "r \<longleftrightarrow> list_all (\<lambda>i. table_entry_is_valid (decode_table_entry (img (ts + of_nat i)))) [Suc index..<Suc index + remaining] \<and>
           ids_sorted (image_entries img ts (Suc index + remaining))"
      "r \<longrightarrow> t_count table' = Suc index + remaining \<and> live table' = image_entries img ts (Suc index + remaining)"
      by auto
    show ?thesis
      using rec True same_view_trans [OF d1 rec(2)] unfolding step u
      by (intro exI [of _ d] exI [of _ table'] exI [of _ r]) simp
  qed
qed

text \<open>Reading a generation of a table gives the generation of the image, or fails as it does.\<close>

lemma read_table_view:
  assumes s: "wired read_s write_s flush_s s" "ok (device s)" "sector_count s = n" "st_table_capacity s = cap" and room: "table_room cap table"
  shows "\<exists>d table' r. read_table_generation s table ts count = (with_device s d, table', r) \<and> same_view (device s) d \<and> table_room cap table' \<and>
    (r \<longleftrightarrow> read_generation (visible (device s)) n cap ts count \<noteq> None) \<and>
    (\<forall>es. read_generation (visible (device s)) n cap ts count = Some es \<longrightarrow> live table' = es \<and> t_count table' = count)"
proof -
  let ?img = "visible (device s)"
  let ?bad = "count > cap \<or> count \<noteq> 0 \<and> (ts < 3 \<or> count > unat (n - ts))"
  have cond: "(count > t_capacity table \<or> count > st_table_capacity s \<or>
      count \<noteq> 0 \<and> (ts < OBJECT_STORE_FIRST_ALLOCATABLE_SECTOR \<or> count > unat (sector_count s - ts))) \<longleftrightarrow> ?bad"
    using s(3,4) room by (auto simp: table_room_def OBJECT_STORE_FIRST_ALLOCATABLE_SECTOR_def)
  have room0: "table_room cap (table\<lparr>t_count := 0\<rparr>)" using room by (simp add: table_room_def)
  consider "?bad" | "\<not> ?bad" "count \<noteq> 0" "n < ts" | "\<not> ?bad" "count = 0 \<or> ts \<le> n" by (meson not_less)
  then show ?thesis
  proof cases
    case 1
    have "read_generation ?img n cap ts count = None"
      using 1 by (auto simp: read_generation_def unat_sub_if' word_le_nat_alt split: if_splits)
    then show ?thesis
      using 1 same_view_refl [OF s(2)] room unfolding read_table_generation_def cond
      by (intro exI [of _ "device s"] exI [of _ table] exI [of _ False]) simp
  next
    case 2
    then obtain m where m: "count = Suc m" by (cases count) auto
    have "\<not> ts < n" using 2(3) by simp
    then obtain d where "store_read s ts = (with_device s d, None)" "same_view (device s) d"
      using store_read_view [OF s(1,2), of ts] by auto
    moreover have "read_generation ?img n cap ts count = None"
      using 2 by (auto simp: read_generation_def word_less_nat_alt)
    ultimately show ?thesis
      using 2(1) room0 m unfolding read_table_generation_def cond
      by (intro exI [of _ d] exI [of _ "table\<lparr>t_count := 0\<rparr>"] exI [of _ False]) simp
  next
    case 3
    have fit: "count = 0 \<or> unat ts + count \<le> unat n" using 3 by (auto simp: unat_sub word_le_nat_alt)
    show ?thesis
    proof (cases "count = 0")
      case True
      then show ?thesis
        using same_view_refl [OF s(2)] room0 unfolding read_table_generation_def cond
        by (intro exI [of _ "device s"] exI [of _ "table\<lparr>t_count := 0\<rparr>"] exI [of _ True])
          (simp add: read_generation_def image_entries_def ids_sorted_def live_def)
    next
      case False
      then have f: "unat ts + count \<le> unat n" using fit by simp
      have g: "read_generation ?img n cap ts count =
          (if list_all (\<lambda>i. table_entry_is_valid (decode_table_entry (?img (ts + of_nat i)))) [0..<count] \<and>
              ids_sorted (image_entries ?img ts count) then Some (image_entries ?img ts count) else None)"
        using 3(1) f by (auto simp: read_generation_def)
      have "\<exists>d table' r. read_entries s (table\<lparr>t_count := 0\<rparr>) ts 0 count = (with_device s d, table', r) \<and> same_view (device s) d \<and> table_room cap table' \<and>
          (r \<longleftrightarrow> list_all (\<lambda>i. table_entry_is_valid (decode_table_entry (?img (ts + of_nat i)))) [0..<0 + count] \<and>
             ids_sorted (image_entries ?img ts (0 + count))) \<and>
          (r \<longrightarrow> t_count table' = 0 + count \<and> live table' = image_entries ?img ts (0 + count))"
        using s f room0 3(1) by (intro read_entries_view) (simp_all add: ids_sorted_def)
      then show ?thesis using 3(1) unfolding read_table_generation_def cond g by auto
    qed
  qed
qed

end

lemma read_generation_cong:
  assumes "\<And>t. 3 \<le> t \<Longrightarrow> img' t = img t"
  shows "read_generation img' n cap ts count = read_generation img n cap ts count"
proof (cases "count > cap \<or> count \<noteq> 0 \<and> (ts < 3 \<or> unat ts + count > unat n)")
  case True
  then show ?thesis by (simp add: read_generation_def)
next
  case False
  have same: "img' (ts + of_nat i) = img (ts + of_nat i)" if "i < count" for i
  proof -
    have "unat (ts + of_nat i) = unat ts + i" using False that by (intro unat_offset [of ts count n]) auto
    then show ?thesis using False that by (intro assms) (auto simp: word_le_nat_alt word_less_nat_alt)
  qed
  then have "image_entries img' ts count = image_entries img ts count" by (simp add: image_entries_def)
  then show ?thesis using same by (auto simp: read_generation_def list_all_iff)
qed

section \<open>The bitmap of an image\<close>

text \<open>The sectors of a generation: its records and the objects that they name.\<close>

definition generation_sectors :: "image \<Rightarrow> u64 \<Rightarrow> nat \<Rightarrow> u64 \<Rightarrow> u64 \<Rightarrow> u64 set" where
  "generation_sectors img n cap ts tc = extent ts tc \<union>
     (\<Union>e\<in>set (the (read_generation img n cap ts (unat tc))). extent (e_first_sector e) (e_sector_count e))"

definition snapshot_sectors :: "image \<Rightarrow> u64 \<Rightarrow> nat \<Rightarrow> u64 \<times> u64 \<times> u64 \<Rightarrow> u64 set" where
  "snapshot_sectors img n cap x = (case x of (i, ts, tc) \<Rightarrow> if i = 0 then {} else generation_sectors img n cap ts tc)"

lemma generation_sectors_cong:
  assumes "\<And>t. 3 \<le> t \<Longrightarrow> img' t = img t"
  shows "generation_sectors img' n cap ts tc = generation_sectors img n cap ts tc" "snapshot_sectors img' n cap x = snapshot_sectors img n cap x"
  by (simp_all add: generation_sectors_def snapshot_sectors_def read_generation_cong [of img' img, OF assms] split: prod.split)

lemma set_ranges:
  assumes "bitmap_ok s"
  shows "bitmap_frame s (foldl (\<lambda>s e. bitmap_set_range s (e_first_sector e) (e_sector_count e)) s es) \<and>
    used_sectors (foldl (\<lambda>s e. bitmap_set_range s (e_first_sector e) (e_sector_count e)) s es) =
      used_sectors s \<union> (\<Union>e\<in>set es. extent (e_first_sector e) (e_sector_count e))"
  using assms
proof (induction es arbitrary: s)
  case (Cons e es)
  note r = bitmap_set_range_result [OF Cons.prems, of "e_first_sector e" "e_sector_count e"]
  show ?case using Cons.IH [OF r(2)] bitmap_frame_trans [OF r(1)] r(3) by auto
qed simp

lemma bitmap_frame_fields:
  "bitmap_frame s s' \<Longrightarrow> st_table s' = st_table s \<and> st_scratch_entries s' = st_scratch_entries s \<and> st_table_capacity s' = st_table_capacity s \<and>
     st_snapshots s' = st_snapshots s \<and> st_recovery_required s' = st_recovery_required s \<and> st_io s' = st_io s \<and>
     st_current_table_sector s' = st_current_table_sector s"
  by (auto simp: bitmap_frame_def)

lemma clear_bitmap_used:
  assumes "bitmap_ok s" "unat (sector_count s) + 7 < 2 ^ 64"
  shows "used_sectors (clear_bitmap s) = {t. sector_count s \<le> t}"
proof -
  let ?m = "(unat (sector_count s) + 7) div 8"
  have "\<not> bitmap_test (clear_bitmap s) t" if "t < sector_count s" for t
  proof -
    have "unat (t div 8) < ?m" using that by (simp add: unat_div word_less_nat_alt)
    then have "st_bitmap_buffer (clear_bitmap s) ! unat (t div 8) = 0"
      using assms by (simp add: clear_bitmap_def Let_def bitmap_bytes_exact memcpy_at_0 nth_append bitmap_ok_def)
    then show ?thesis using that by (simp add: bitmap_test_def clear_bitmap_def Let_def)
  qed
  moreover have "bitmap_test (clear_bitmap s) t" if "sector_count s \<le> t" for t
    using that by (simp add: bitmap_test_def clear_bitmap_def Let_def)
  ultimately show ?thesis unfolding used_sectors_def using not_le by blast
qed

lemma bitmap_frame_used:
  "bitmap_frame s s' \<Longrightarrow> sector_count s' = sector_count s"
  by (auto simp: bitmap_frame_def)

lemma used_with_device [simp]: "used_sectors (with_device s d) = used_sectors s" "bitmap_ok (with_device s d) = bitmap_ok s"
  by (simp_all add: used_sectors_def bitmap_ok_def bitmap_test_cong [of "with_device s d" s])

lemma bitmap_frame_device:
  assumes "bitmap_frame (with_device s e) t"
  shows "bitmap_frame (with_device s d) (with_device t d)"
proof -
  obtain b where "t = (with_device s e)\<lparr>st_bitmap_buffer := b\<rparr>" "length b = length (st_bitmap_buffer s)"
    using assms by (auto simp: bitmap_frame_def)
  then show ?thesis unfolding bitmap_frame_def by (intro exI [of _ b]) (simp add: with_device_def)
qed

text \<open>A store that reads a generation into its scratch table.\<close>

definition scratch_room :: "nat \<Rightarrow> 'd object_store \<Rightarrow> bool" where
  "scratch_room cap s \<longleftrightarrow> st_table_capacity s = cap \<and> (\<exists>es. st_scratch_entries s = Some es \<and> length es = cap)"

context bounded_device
begin

lemma mark_generation_view:
  assumes s: "wired read_s write_s flush_s s" "ok (device s)" "sector_count s = n" and room: "scratch_room cap s" and b: "bitmap_ok s"
  shows "\<exists>d s' r. mark_generation s ts tc = (s', r) \<and> bitmap_frame (with_device s d) s' \<and> same_view (device s) d \<and>
    (r \<longleftrightarrow> read_generation (visible (device s)) n cap ts (unat tc) \<noteq> None) \<and>
    (r \<longrightarrow> used_sectors s' = used_sectors s \<union> generation_sectors (visible (device s)) n cap ts tc)"
proof (cases "tc = 0")
  case True
  then show ?thesis
    using same_view_refl [OF s(2)]
    by (intro exI [of _ "device s"] exI [of _ s] exI [of _ True])
      (simp add: mark_generation_def read_generation_def generation_sectors_def extent_def image_entries_def)
next
  case False
  let ?img = "visible (device s)" and ?table = "object_table_init (st_scratch_entries s) (st_table_capacity s)"
  have t: "table_room cap ?table" using room by (auto simp: scratch_room_def table_room_def object_table_init_def)
  have c: "st_table_capacity s = cap" using room by (simp add: scratch_room_def)
  obtain d table r where g: "read_table_generation s ?table ts (unat tc) = (with_device s d, table, r)" "same_view (device s) d"
      "r \<longleftrightarrow> read_generation ?img n cap ts (unat tc) \<noteq> None"
      "\<forall>es. read_generation ?img n cap ts (unat tc) = Some es \<longrightarrow> live table = es"
    using read_table_view [OF s c t, of ts "unat tc"] by blast
  show ?thesis
  proof (cases r)
    case False
    then show ?thesis
      using g \<open>tc \<noteq> 0\<close> by (intro exI [of _ d] exI [of _ "with_device s d"] exI [of _ False]) (simp add: mark_generation_def)
  next
    case True
    then obtain es where es: "read_generation ?img n cap ts (unat tc) = Some es" "live table = es" using g(3,4) by auto
    let ?s1 = "bitmap_set_range (with_device s d) ts tc"
    have "bitmap_ok (with_device s d)" using b by simp
    note r1 = bitmap_set_range_result [OF this, of ts tc]
    note r2 = set_ranges [OF r1(2), of es]
    let ?s2 = "foldl (\<lambda>s e. bitmap_set_range s (e_first_sector e) (e_sector_count e)) ?s1 es"
    have "mark_generation s ts tc = (?s2, True)"
      using True g(1) \<open>tc \<noteq> 0\<close> es(2) by (simp add: mark_generation_def live_def)
    moreover have "used_sectors ?s2 = used_sectors s \<union> generation_sectors ?img n cap ts tc"
      using r1(3) r2 es(1) by (auto simp: generation_sectors_def)
    ultimately show ?thesis
      using bitmap_frame_trans [OF r1(1)] r2 g(2) es(1) by (intro exI [of _ d] exI [of _ ?s2] exI [of _ True]) auto
  qed
qed

lemma mark_snapshots_view:
  assumes "wired read_s write_s flush_s s" "ok (device s)" "sector_count s = n" "scratch_room cap s" "bitmap_ok s" "visible (device s) = img"
  shows "\<exists>d s' r. mark_snapshots s xs = (s', r) \<and> bitmap_frame (with_device s d) s' \<and> same_view (device s) d \<and>
    (r \<longleftrightarrow> (\<forall>x\<in>set xs. snap_id x \<noteq> 0 \<longrightarrow> read_generation img n cap (snap_table_sector x) (unat (snap_table_count x)) \<noteq> None)) \<and>
    (r \<longrightarrow> used_sectors s' = used_sectors s \<union> (\<Union>x\<in>set xs. snapshot_sectors img n cap (snap_triple x)))"
  using assms
proof (induction xs arbitrary: s)
  case Nil
  then show ?case using same_view_refl by (intro exI [of _ "device s"] exI [of _ s] exI [of _ True]) simp
next
  case (Cons x xs)
  show ?case
  proof (cases "snap_id x = 0")
    case True
    then show ?thesis using Cons.IH [OF Cons.prems] by (auto simp: snapshot_sectors_def snap_triple_def)
  next
    case False
    obtain d1 s1 r1 where m: "mark_generation s (snap_table_sector x) (snap_table_count x) = (s1, r1)" "bitmap_frame (with_device s d1) s1"
        "same_view (device s) d1" "r1 \<longleftrightarrow> read_generation img n cap (snap_table_sector x) (unat (snap_table_count x)) \<noteq> None"
        "r1 \<longrightarrow> used_sectors s1 = used_sectors s \<union> generation_sectors img n cap (snap_table_sector x) (snap_table_count x)"
      using mark_generation_view [OF Cons.prems(1-5), of "snap_table_sector x" "snap_table_count x"] Cons.prems(6) by blast
    note f = bitmap_frame_fields [OF m(2)]
    show ?thesis
    proof (cases r1)
      case False
      then show ?thesis using m \<open>snap_id x \<noteq> 0\<close> by (intro exI [of _ d1] exI [of _ s1] exI [of _ False]) auto
    next
      case True
      have s1: "device s1 = d1" "sector_count s1 = n" "wired read_s write_s flush_s s1" "scratch_room cap s1"
        using f Cons.prems by (auto simp: wired_def scratch_room_def with_device_def)
      have b1: "bitmap_ok s1" using bitmap_frame_ok [OF m(2)] Cons.prems(5) by simp
      have "ok (device s1)" "visible (device s1) = img" using m(3) Cons.prems(6) s1(1) by (auto simp: same_view_def)
      from Cons.IH [OF s1(3) this(1) s1(2,4) b1 this(2)] obtain d s' r where
        i: "mark_snapshots s1 xs = (s', r)" "bitmap_frame (with_device s1 d) s'" "same_view d1 d"
          "r \<longleftrightarrow> (\<forall>x\<in>set xs. snap_id x \<noteq> 0 \<longrightarrow> read_generation img n cap (snap_table_sector x) (unat (snap_table_count x)) \<noteq> None)"
          "r \<longrightarrow> used_sectors s' = used_sectors s1 \<union> (\<Union>x\<in>set xs. snapshot_sectors img n cap (snap_triple x))"
        unfolding s1(1) by blast
      have "bitmap_frame (with_device s d) (with_device s1 d)"
        using bitmap_frame_device [OF m(2)] .
      then have "bitmap_frame (with_device s d) s'" using bitmap_frame_trans i(2) by blast
      moreover have "r \<longrightarrow> used_sectors s' = used_sectors s \<union> (\<Union>x\<in>set (x # xs). snapshot_sectors img n cap (snap_triple x))"
        using i(5) m(5) True False by (auto simp: snapshot_sectors_def snap_triple_def)
      ultimately show ?thesis
        using m(1,4) True False i(1,4) same_view_trans [OF m(3) i(3)]
        by (intro exI [of _ d] exI [of _ s'] exI [of _ r]) auto
    qed
  qed
qed

lemma rebuild_bitmap_view:
  assumes s: "wired read_s write_s flush_s s" "ok (device s)" "sector_count s = n" "scratch_room cap s" "bitmap_ok s"
      "unat n + 7 < 2 ^ 64" "unat (bitmap_bytes_for n) \<le> st_bitmap_capacity s"
    and img: "\<And>t. 3 \<le> t \<Longrightarrow> visible (device s) t = img t" and root: "st_current_table_sector s = ts" "of_nat (t_count (st_table s)) = tc"
      "read_generation img n cap ts (unat tc) \<noteq> None"
  shows "\<exists>d s' r. rebuild_bitmap s = (s', r) \<and> bitmap_frame (with_device s d) s' \<and> same_view (device s) d \<and>
    (r \<longleftrightarrow> (\<forall>x\<in>set (st_snapshots s). snap_id x \<noteq> 0 \<longrightarrow> read_generation img n cap (snap_table_sector x) (unat (snap_table_count x)) \<noteq> None)) \<and>
    (r \<longrightarrow> used_sectors s' = {t. n \<le> t} \<union> {0, 1, 2} \<union> generation_sectors img n cap ts tc \<union>
       (\<Union>x\<in>set (st_snapshots s). snapshot_sectors img n cap (snap_triple x)))"
proof -
  let ?vis = "visible (device s)"
  have rg: "read_generation ?vis n cap a c = read_generation img n cap a c" for a c by (rule read_generation_cong) (rule img)
  have gs: "generation_sectors ?vis n cap a c = generation_sectors img n cap a c" "snapshot_sectors ?vis n cap x = snapshot_sectors img n cap x"
    for a c x using img by (simp_all add: generation_sectors_cong [of ?vis img])
  let ?s1 = "bitmap_set_range (clear_bitmap s) 0 OBJECT_STORE_FIRST_ALLOCATABLE_SECTOR"
  have big: "unat (sector_count s) + 7 < 2 ^ 64" using s(3,6) by simp
  note c = clear_bitmap_ok [OF s(5) big] and cu = clear_bitmap_used [OF s(5) big]
  note r = bitmap_set_range_result [OF c(2), of 0 OBJECT_STORE_FIRST_ALLOCATABLE_SECTOR]
  have ext: "extent 0 OBJECT_STORE_FIRST_ALLOCATABLE_SECTOR = {0, 1, 2}"
    by (simp add: extent_def OBJECT_STORE_FIRST_ALLOCATABLE_SECTOR_def lessThan_nat_numeral lessThan_Suc insert_commute)
  have u1: "used_sectors ?s1 = {t. n \<le> t} \<union> {0, 1, 2}" using r(3) cu ext s(3) by simp
  have f: "bitmap_frame s ?s1" using bitmap_frame_trans [OF c(1) r(1)] .
  note ff = bitmap_frame_fields [OF f]
  have s1: "wired read_s write_s flush_s ?s1" "ok (device ?s1)" "sector_count ?s1 = n" "scratch_room cap ?s1" "bitmap_ok ?s1" "device ?s1 = device s"
    using ff s r(2) by (auto simp: wired_def scratch_room_def)
  obtain d1 s2 r1 where m: "mark_generation ?s1 ts tc = (s2, r1)" "bitmap_frame (with_device ?s1 d1) s2" "same_view (device s) d1"
      "r1 \<longleftrightarrow> read_generation img n cap ts (unat tc) \<noteq> None" "r1 \<longrightarrow> used_sectors s2 = used_sectors ?s1 \<union> generation_sectors img n cap ts tc"
    using mark_generation_view [OF s1(1-5), of ts tc] unfolding s1(6) rg gs by blast
  have r1: r1 using m(4) root(3) by simp
  note f2 = bitmap_frame_fields [OF m(2)]
  have s2: "wired read_s write_s flush_s s2" "ok (device s2)" "sector_count s2 = n" "scratch_room cap s2" "visible (device s2) = ?vis"
    "device s2 = d1" "st_snapshots s2 = st_snapshots s"
    using f2 s1 ff m(3) by (auto simp: wired_def scratch_room_def with_device_def same_view_def)
  have b2: "bitmap_ok s2" using bitmap_frame_ok [OF m(2)] s1(5) by simp
  obtain d s' r' where i: "mark_snapshots s2 (st_snapshots s2) = (s', r')" "bitmap_frame (with_device s2 d) s'" "same_view d1 d"
      "r' \<longleftrightarrow> (\<forall>x\<in>set (st_snapshots s). snap_id x \<noteq> 0 \<longrightarrow> read_generation img n cap (snap_table_sector x) (unat (snap_table_count x)) \<noteq> None)"
      "r' \<longrightarrow> used_sectors s' = used_sectors s2 \<union> (\<Union>x\<in>set (st_snapshots s). snapshot_sectors img n cap (snap_triple x))"
    using mark_snapshots_view [OF s2(1-4) b2 s2(5), of "st_snapshots s2"] unfolding s2(6,7) rg gs by blast
  have "bitmap_frame (with_device s d) (with_device ?s1 d)" "bitmap_frame (with_device ?s1 d) (with_device s2 d)"
    using bitmap_frame_device [of s "device s" ?s1 d] bitmap_frame_device [OF m(2)] f by simp_all
  then have fr: "bitmap_frame (with_device s d) s'" using bitmap_frame_trans i(2) by blast
  have "rebuild_bitmap s = (s', r')"
    using s(7) m(1) r1 i(1) root(1,2) by (simp add: rebuild_bitmap_def s(3) not_less)
  then show ?thesis
    using fr same_view_trans [OF m(3) i(3)] i(4,5) m(5) r1 u1
    by (intro exI [of _ d] exI [of _ s'] exI [of _ r']) auto
qed

end

section \<open>The root of an image\<close>

text \<open>The store after the table of the generation at \<open>ts\<close> was loaded, whether or not a log was replayed for it.\<close>

definition table_loaded :: "'d object_store \<Rightarrow> 'd \<Rightarrow> u64 \<Rightarrow> nat \<Rightarrow> object_table_entry list \<Rightarrow> 'd object_store \<Rightarrow> bool" where
  "table_loaded s d ts count es s' \<longleftrightarrow> live (st_table s') = es \<and> t_count (st_table s') = count \<and>
     (\<exists>table g q a. s' = (with_device s d)\<lparr>st_table := table, st_current_table_sector := ts, st_current_generation := g,
        st_superblock_sequence := q, st_active_superblock_sector := a\<rparr>)"

context bounded_device
begin

lemma load_table_view:
  assumes s: "wired read_s write_s flush_s s" "ok (device s)" "sector_count s = n" "st_table_capacity s = cap" and room: "table_room cap (st_table s)"
  shows "\<exists>d table r. load_table_generation s ts count = ((with_device s d)\<lparr>st_table := table\<rparr>, r) \<and> same_view (device s) d \<and> 
    (r \<longleftrightarrow> read_generation (visible (device s)) n cap ts count \<noteq> None) \<and>
    (\<forall>es. read_generation (visible (device s)) n cap ts count = Some es \<longrightarrow> live table = es \<and> t_count table = count)"
proof -
  obtain d table r where "read_table_generation s (st_table s) ts count = (with_device s d, table, r)" "same_view (device s) d"
    "r \<longleftrightarrow> read_generation (visible (device s)) n cap ts count \<noteq> None"
    "\<forall>es. read_generation (visible (device s)) n cap ts count = Some es \<longrightarrow> live table = es \<and> t_count table = count"
    using read_table_view [OF s room, of ts count] by blast
  then show ?thesis by (intro exI [of _ d] exI [of _ table] exI [of _ r]) (simp add: load_table_generation_def)
qed

text \<open>The two writes that make the table of the log the current one answer, and leave the other sectors alone.\<close>

lemma publish_root:
  assumes s: "wired read_s write_s flush_s s" "ok (device s)" and n: "3 \<le> n" and b: "4 \<le> budget (device s)"
  shows "\<exists>d q a. (case write_superblock s of (s3, False) \<Rightarrow> (s3, None) | (s3, True) \<Rightarrow> (case clear_wal s3 of (s4, done) \<Rightarrow> (s4, if done then Some True else None))) =
      ((with_device s d)\<lparr>st_superblock_sequence := q, st_active_superblock_sector := a\<rparr>, Some True) \<and>
    ok d \<and> (\<forall>t. 3 \<le> t \<longrightarrow> visible d t = visible (device s) t)"
proof -
  have n': "1 < n" "2 < n" using n by (auto simp: word_less_nat_alt word_le_nat_alt)
  obtain s3 r3 where w: "write_superblock s = (s3, r3)" by force
  have a: r3 "budget (device s) \<le> budget (device s3) + 2" using write_superblock_answers [OF s n'(1) _ w] b by auto
  obtain d3 where e3: "evolves (device s) (\<lambda>t. if t = superblock_target s then {next_superblock s} else {}) d3"
    and s3': "s3 = (if r3 then (with_device s d3)\<lparr>st_superblock_sequence := st_superblock_sequence s + 1, st_active_superblock_sector := superblock_target s\<rparr>
      else with_device s d3)"
    by (rule write_superblock_evolves [OF s w])
  have s3: "s3 = (with_device s d3)\<lparr>st_superblock_sequence := st_superblock_sequence s + 1, st_active_superblock_sector := superblock_target s\<rparr>"
    using s3' a(1) by simp
  have wd: "wired read_s write_s flush_s s3" "ok (device s3)" using write_superblock_wired [OF s w] .
  obtain s4 r4 where c: "clear_wal s3 = (s4, r4)" by force
  then have c': "write_and_flush s3 2 empty_sector = (s4, r4)" by (simp add: clear_wal_def OBJECT_STORE_WAL_SECTOR_def)
  have r4: r4 using write_flush_answers [OF wd n'(2) _ c'] a(2) b by auto
  obtain d4 where d4: "s4 = with_device s3 d4" "evolves (device s3) (\<lambda>t. if t = 2 then {empty_sector} else {}) d4"
    by (rule write_flush_evolves [OF wd c'])
  have "visible d4 t = visible (device s) t" if "3 \<le> t" for t
  proof -
    have t: "t \<noteq> 0" "t \<noteq> 1" "t \<noteq> 2" using that by (auto simp: word_le_nat_alt)
    then have "t \<noteq> superblock_target s" by (simp add: superblock_target_def OBJECT_STORE_SUPERBLOCK_A_def OBJECT_STORE_SUPERBLOCK_B_def)
    then show ?thesis using evolves_visible [OF d4(2), of t] evolves_visible [OF e3, of t] t(3) s3 by simp
  qed
  moreover have "s4 = (with_device s d4)\<lparr>st_superblock_sequence := st_superblock_sequence s + 1, st_active_superblock_sector := superblock_target s\<rparr>"
    by (simp add: d4(1) s3 with_device_def)
  ultimately show ?thesis
    using w a(1) c r4 evolves_ok [OF d4(2)] by (intro exI [of _ d4] exI) auto
qed

lemma load_and_publish:
  assumes s: "wired read_s write_s flush_s s" "sector_count s = n" "st_table_capacity s = cap" and room: "table_room cap (st_table s)"
    and n: "3 \<le> n" and d: "visible d = img" "ok d" "4 \<le> budget d"
  shows "\<exists>s' res. (case load_table_generation (with_device s d) ts count of
            (s2, False) \<Rightarrow> (s2, None)
          | (s2, True) \<Rightarrow>
              (case write_superblock (s2\<lparr>st_current_table_sector := ts, st_current_generation := g\<rparr>) of
                 (s3, False) \<Rightarrow> (s3, None)
               | (s3, True) \<Rightarrow> (case clear_wal s3 of (s4, done) \<Rightarrow> (s4, if done then Some True else None)))) = (s', res) \<and>
    (case read_generation img n cap ts count of
       None \<Rightarrow> res = None
     | Some es \<Rightarrow> res = Some True \<and> (\<exists>d. table_loaded s d ts count es s' \<and> ok d \<and> (\<forall>t. 3 \<le> t \<longrightarrow> visible d t = img t)))"
proof -
  let ?s = "with_device s d"
  have q: "wired read_s write_s flush_s ?s" "ok (device ?s)" "sector_count ?s = n" "st_table_capacity ?s = cap" "table_room cap (st_table ?s)"
    "visible (device ?s) = img" using s room d by simp_all
  obtain d2 table r2 where l: "load_table_generation ?s ts count = ((with_device s d2)\<lparr>st_table := table\<rparr>, r2)"
      "same_view d d2" "r2 \<longleftrightarrow> read_generation img n cap ts count \<noteq> None"
      "\<forall>es. read_generation img n cap ts count = Some es \<longrightarrow> live table = es \<and> t_count table = count"
    using load_table_view [OF q(1-5), of ts count] unfolding q(6) by auto
  show ?thesis
  proof (cases "read_generation img n cap ts count")
    case None
    then show ?thesis using l(1,3) by simp
  next
    case (Some es)
    let ?s2 = "(with_device s d2)\<lparr>st_table := table, st_current_table_sector := ts, st_current_generation := g\<rparr>"
    have s2: "wired read_s write_s flush_s ?s2" "ok (device ?s2)" "4 \<le> budget (device ?s2)" "visible (device ?s2) = img"
      using s(1) l(2) d by (auto simp: wired_def with_device_def same_view_def)
    obtain d4 q' a where p: "(case write_superblock ?s2 of (s3, False) \<Rightarrow> (s3, None) | (s3, True) \<Rightarrow> (case clear_wal s3 of (s4, done) \<Rightarrow> (s4, if done then Some True else None))) =
        ((with_device ?s2 d4)\<lparr>st_superblock_sequence := q', st_active_superblock_sector := a\<rparr>, Some True)"
      "ok d4" "\<forall>t. 3 \<le> t \<longrightarrow> visible d4 t = img t"
      using publish_root [OF s2(1,2) n s2(3)] unfolding s2(4) by blast
    let ?s4 = "(with_device ?s2 d4)\<lparr>st_superblock_sequence := q', st_active_superblock_sector := a\<rparr>"
    have "table_loaded s d4 ts count es ?s4"
      unfolding table_loaded_def using l(4) Some
      by (intro conjI exI [of _ table] exI [of _ g] exI [of _ q'] exI [of _ a]) (simp_all add: with_device_def)
    then show ?thesis using l(1,3) Some p by auto
  qed
qed

lemma recover_wal_view:
  assumes s: "wired read_s write_s flush_s s" "ok (device s)" "sector_count s = n" "st_table_capacity s = cap" and room: "table_room cap (st_table s)"
    and n: "3 \<le> n" and b: "4 \<le> budget (device s)" and sb: "st_next_sector s = sb_next_sector sb" and img: "visible (device s) = img"
  shows "\<exists>s' res. recover_wal s = (s', res) \<and>
    (if sector_is_zero (img 2) then res = Some False \<and> (\<exists>d. s' = with_device s d \<and> same_view (device s) d)
     else case image_root img cap sb of
       None \<Rightarrow> res = None
     | Some (ts, tc) \<Rightarrow>
         (case read_generation img n cap ts (unat tc) of
            None \<Rightarrow> res = None
          | Some es \<Rightarrow> res = Some True \<and> (\<exists>d. table_loaded s d ts (unat tc) es s' \<and> ok d \<and> (\<forall>t. 3 \<le> t \<longrightarrow> visible d t = img t))))"
proof -
  have "2 < n" using n by (auto simp: word_less_nat_alt word_le_nat_alt)
  then obtain d1 where r1: "store_read s OBJECT_STORE_WAL_SECTOR = (with_device s d1, Some (img 2))" and d1: "same_view (device s) d1"
    using store_read_view [OF s(1,2), of 2] img by (auto simp: OBJECT_STORE_WAL_SECTOR_def)
  let ?r = "decode_wal (img 2)"
  show ?thesis
  proof (cases "sector_is_zero (img 2)")
    case True
    then show ?thesis using r1 d1 by (auto simp: recover_wal_def Let_def)
  next
    case False
    note z = False
    let ?bad = "\<not> object_wal_validate (Some (img 2)) OBJECT_STORE_SECTOR_SIZE \<or> unat (wr_table_count ?r) > cap \<or>
        wr_table_count ?r = 0 \<and> wr_table_sector ?r \<noteq> 0 \<or>
        wr_table_count ?r \<noteq> 0 \<and> (wr_table_sector ?r < 3 \<or> wr_table_sector ?r > sb_next_sector sb \<or>
           wr_table_count ?r > sb_next_sector sb - wr_table_sector ?r)"
    have root: "image_root img cap sb = (if ?bad then None else Some (wr_table_sector ?r, wr_table_count ?r))"
      using z unfolding image_root_def Let_def by simp
    have run: "recover_wal s = (if ?bad then (with_device s d1, None)
        else case load_table_generation (with_device s d1) (wr_table_sector ?r) (unat (wr_table_count ?r)) of
            (s2, False) \<Rightarrow> (s2, None)
          | (s2, True) \<Rightarrow>
              (case write_superblock (s2\<lparr>st_current_table_sector := wr_table_sector ?r, st_current_generation := wr_generation ?r\<rparr>) of
                 (s3, False) \<Rightarrow> (s3, None)
               | (s3, True) \<Rightarrow> (case clear_wal s3 of (s4, done) \<Rightarrow> (s4, if done then Some True else None))))"
      using z s(4) sb unfolding recover_wal_def r1 prod.case option.case Let_def OBJECT_STORE_FIRST_ALLOCATABLE_SECTOR_def
      by (simp only: with_device_fields if_False)
    show ?thesis
    proof (cases "?bad")
      case True
      have "image_root img cap sb = None" using True root by (simp only: if_True)
      moreover have "recover_wal s = (with_device s d1, None)" using True run by (simp only: if_True)
      ultimately show ?thesis using z by simp
    next
      case False
      let ?ts = "wr_table_sector ?r" and ?tc = "wr_table_count ?r"
      have rt: "image_root img cap sb = Some (?ts, ?tc)" using False root by (simp only: if_False)
      have "visible d1 = img" "ok d1" "4 \<le> budget d1" using d1 img b by (auto simp: same_view_def)
      from load_and_publish [OF s(1,3,4) room n this, where ts = ?ts and count = "unat ?tc" and g = "wr_generation ?r"]
      have "\<exists>s' res. recover_wal s = (s', res) \<and>
          (case read_generation img n cap ?ts (unat ?tc) of
             None \<Rightarrow> res = None
           | Some es \<Rightarrow> res = Some True \<and> (\<exists>d. table_loaded s d ?ts (unat ?tc) es s' \<and> ok d \<and> (\<forall>t. 3 \<le> t \<longrightarrow> visible d t = img t)))"
        using run \<open>\<not> ?bad\<close> by (simp only: if_False)
      then show ?thesis using z rt by auto
    qed
  qed
qed

end

section \<open>Mounting an image\<close>

text \<open>The sectors that an image uses: those of the current generation and of the generations of its snapshots.\<close>

definition image_sectors :: "image \<Rightarrow> u64 \<Rightarrow> nat \<Rightarrow> u64 set" where
  "image_sectors img n cap =
     (case choose_superblock (decode_superblock (img 0)) (decode_superblock (img 1)) n cap of
        None \<Rightarrow> {}
      | Some (sb, _) \<Rightarrow>
          (case image_root img cap sb of
             None \<Rightarrow> {}
           | Some (ts, tc) \<Rightarrow> generation_sectors img n cap ts tc \<union> (\<Union>x\<in>set (sb_snapshots sb). snapshot_sectors img n cap (disk_triple x))))"

text \<open>What a mount makes of an image that holds the table \<open>es\<close>.\<close>

definition mounted :: "('d \<Rightarrow> u64 \<Rightarrow> bytes) \<Rightarrow> image \<Rightarrow> u64 \<Rightarrow> nat \<Rightarrow> object_table_entry list \<Rightarrow> 'd object_store \<Rightarrow> bool" where
  "mounted visible img n cap es s \<longleftrightarrow> live (st_table s) = es \<and> \<not> object_store_requires_recovery s \<and>
     (\<forall>t. 3 \<le> t \<longrightarrow> visible (device s) t = img t) \<and> used_sectors s = {0, 1, 2} \<union> image_sectors img n cap \<union> {t. n \<le> t}"

lemma adopted_snapshots:
  "st_snapshots (adopt_superblock s sb a) = map (\<lambda>x. \<lparr>snap_id = ds_id x, snap_table_sector = ds_table_sector x, snap_table_count = ds_table_count x\<rparr>) (sb_snapshots sb)"
  by (simp add: adopt_superblock_def)

context bounded_device
begin

text \<open>A store that is ready to be mounted.\<close>

definition mountable :: "nat \<Rightarrow> 'd object_store \<Rightarrow> bool" where
  "mountable cap s \<longleftrightarrow> wired read_s write_s flush_s s \<and> sector_count s = n \<and> scratch_room cap s \<and> bitmap_ok s \<and>
     unat (bitmap_bytes_for n) \<le> st_bitmap_capacity s \<and> unat n + 7 < 2 ^ 64 \<and> 3 \<le> n \<and> st_recovery_required s = 0"

lemma mountable_simps [simp]:
  "mountable cap (with_device s d) = mountable cap s" "mountable cap (adopt_superblock s sb a) = mountable cap s"
  "mountable cap (s\<lparr>st_table := table\<rparr>) = mountable cap s"
  by (simp_all add: mountable_def adopt_superblock_def wired_def scratch_room_def bitmap_ok_def with_device_def)

lemma table_loaded_mountable:
  assumes "table_loaded s d ts (unat tc) es s'"
  shows "mountable cap s' = mountable cap s" "device s' = d" "st_snapshots s' = st_snapshots s" "st_current_table_sector s' = ts"
    "live (st_table s') = es" "of_nat (t_count (st_table s')) = tc"
  using assms by (auto simp: table_loaded_def mountable_def wired_def scratch_room_def bitmap_ok_def with_device_def)

lemma rebuild_mounts:
  assumes m: "mountable cap s'" "ok (device s')" "\<And>t. 3 \<le> t \<Longrightarrow> visible (device s') t = img t" and l: "table_loaded s d ts (unat tc) es s'"
    and snaps: "st_snapshots s = st_snapshots (adopt_superblock s0 sb a)"
    and img: "choose_superblock (decode_superblock (img 0)) (decode_superblock (img 1)) n cap = Some (sb, a)" "image_root img cap sb = Some (ts, tc)"
      "read_generation img n cap ts (unat tc) = Some es"
  shows "\<exists>s2. rebuild_bitmap s' = (s2, recover_image img n cap \<noteq> None) \<and> (\<forall>es. recover_image img n cap = Some es \<longrightarrow> mounted visible img n cap es s2)"
proof -
  note f = table_loaded_mountable [OF l]
  have g: "read_generation img n cap ts (unat tc) \<noteq> None" using img(3) by simp
  have sn: "st_snapshots s' = map (\<lambda>x. \<lparr>snap_id = ds_id x, snap_table_sector = ds_table_sector x, snap_table_count = ds_table_count x\<rparr>) (sb_snapshots sb)"
    using f(3) snaps adopted_snapshots by metis
  have p: "wired read_s write_s flush_s s'" "sector_count s' = n" "scratch_room cap s'" "bitmap_ok s'" "unat n + 7 < 2 ^ 64"
    "unat (bitmap_bytes_for n) \<le> st_bitmap_capacity s'" "st_recovery_required s' = 0" using m(1) by (simp_all add: mountable_def)
  obtain d2 s2 r where r: "rebuild_bitmap s' = (s2, r)" "bitmap_frame (with_device s' d2) s2" "same_view (device s') d2"
      "r \<longleftrightarrow> (\<forall>x\<in>set (st_snapshots s'). snap_id x \<noteq> 0 \<longrightarrow> read_generation img n cap (snap_table_sector x) (unat (snap_table_count x)) \<noteq> None)"
      "r \<longrightarrow> used_sectors s2 = {t. n \<le> t} \<union> {0, 1, 2} \<union> generation_sectors img n cap ts tc \<union>
         (\<Union>x\<in>set (st_snapshots s'). snapshot_sectors img n cap (snap_triple x))"
    using rebuild_bitmap_view [OF p(1) m(2) p(2-6) m(3) f(4,6) g] by blast
  have rd: "r \<longleftrightarrow> snapshots_readable img n cap sb" using r(4) by (auto simp: sn snapshots_readable_def)
  have ri: "recover_image img n cap = (if r then Some es else None)" using img rd by (simp add: recover_image_def)
  have us: "(\<Union>x\<in>set (st_snapshots s'). snapshot_sectors img n cap (snap_triple x)) = (\<Union>x\<in>set (sb_snapshots sb). snapshot_sectors img n cap (disk_triple x))"
    by (simp add: sn snap_triple_def disk_triple_def)
  have "mounted visible img n cap es s2" if "r"
    unfolding mounted_def
  proof (intro conjI allI impI)
    note ff = bitmap_frame_fields [OF r(2)]
    show "live (st_table s2) = es" using ff f(5) by simp
    show "\<not> object_store_requires_recovery s2" using ff p(7) by (simp add: object_store_requires_recovery_def)
    have "device s2 = d2" using ff by (simp add: with_device_def)
    then show "visible (device s2) t = img t" if "3 \<le> t" for t using m(3) [OF that] r(3) by (simp add: same_view_def)
    show "used_sectors s2 = {0, 1, 2} \<union> image_sectors img n cap \<union> {t. n \<le> t}"
      using r(5) that us img by (simp add: image_sectors_def) blast
  qed
  then show ?thesis using r(1) ri by (intro exI [of _ s2]) (auto split: if_splits)
qed

lemma load_and_rebuild:
  assumes m: "mountable cap s" and room: "table_room cap (st_table s)" and v: "visible d = img" "ok d"
    and c: "choose_superblock (decode_superblock (img 0)) (decode_superblock (img 1)) n cap = Some (sb, a)" and z: "sector_is_zero (img 2)"
  shows "\<exists>s'. (case load_table_generation (with_device (adopt_superblock s sb a) d) (sb_current_table_sector sb) (unat (sb_current_table_count sb)) of
        (s3, False) \<Rightarrow> (s3, False) | (s3, True) \<Rightarrow> rebuild_bitmap s3) = (s', recover_image img n cap \<noteq> None) \<and>
    (\<forall>es. recover_image img n cap = Some es \<longrightarrow> mounted visible img n cap es s')"
proof -
  let ?ts = "sb_current_table_sector sb" and ?tc = "sb_current_table_count sb" and ?s = "adopt_superblock s sb a"
  let ?s2 = "with_device ?s d"
  have root: "image_root img cap sb = Some (?ts, ?tc)" using z by (simp add: image_root_def)
  have "mountable cap ?s2" using m by simp
  then have q: "wired read_s write_s flush_s ?s2" "ok (device ?s2)" "sector_count ?s2 = n" "st_table_capacity ?s2 = cap" "table_room cap (st_table ?s2)"
    "visible (device ?s2) = img"
    using room v by (simp_all add: mountable_def scratch_room_def adopt_superblock_def)
  obtain d3 table r where l: "load_table_generation ?s2 ?ts (unat ?tc) = ((with_device ?s2 d3)\<lparr>st_table := table\<rparr>, r)" "same_view d d3"
      "r \<longleftrightarrow> read_generation img n cap ?ts (unat ?tc) \<noteq> None"
      "\<forall>es. read_generation img n cap ?ts (unat ?tc) = Some es \<longrightarrow> live table = es \<and> t_count table = unat ?tc"
    using load_table_view [OF q(1-5), of ?ts "unat ?tc"] unfolding q(6) by auto
  show ?thesis
  proof (cases "read_generation img n cap ?ts (unat ?tc)")
    case None
    then have "recover_image img n cap = None" using c root by (simp add: recover_image_def)
    then show ?thesis using l(1,3) None by simp
  next
    case (Some es)
    let ?s3 = "(with_device ?s2 d3)\<lparr>st_table := table\<rparr>"
    have "table_loaded ?s d3 ?ts (unat ?tc) es ?s3"
      unfolding table_loaded_def using l(4) Some
      by (intro conjI exI [of _ table] exI [of _ "st_current_generation ?s"] exI [of _ "st_superblock_sequence ?s"] exI [of _ "st_active_superblock_sector ?s"])
        (simp_all add: with_device_def adopt_superblock_def)
    moreover have "mountable cap ?s3" "ok (device ?s3)" "\<And>t. 3 \<le> t \<Longrightarrow> visible (device ?s3) t = img t"
      using m l(2) v(1) by (simp_all add: same_view_def)
    ultimately have "\<exists>s2. rebuild_bitmap ?s3 = (s2, recover_image img n cap \<noteq> None) \<and> (\<forall>es. recover_image img n cap = Some es \<longrightarrow> mounted visible img n cap es s2)"
      using rebuild_mounts [OF _ _ _ _ refl c root Some] by blast
    then show ?thesis using l(1,3) Some by simp
  qed
qed

lemma mount_from_view:
  assumes m: "mountable cap s" "ok (device s)" "visible (device s) = img" "4 \<le> budget (device s)" and room: "table_room cap (st_table s)"
  shows "\<exists>s'. mount_from s (decode_superblock (img 0)) (decode_superblock (img 1)) = (s', recover_image img n cap \<noteq> None) \<and>
    (\<forall>es. recover_image img n cap = Some es \<longrightarrow> mounted visible img n cap es s')"
proof -
  have p: "sector_count s = n" "st_table_capacity s = cap" "3 \<le> n" using m(1) by (simp_all add: mountable_def scratch_room_def)
  show ?thesis
  proof (cases "choose_superblock (decode_superblock (img 0)) (decode_superblock (img 1)) n cap")
    case None
    then show ?thesis using p by (simp add: mount_from_def recover_image_def)
  next
    case (Some c)
    obtain sb a where c: "choose_superblock (decode_superblock (img 0)) (decode_superblock (img 1)) n cap = Some (sb, a)" using Some by (cases c) simp
    let ?s = "adopt_superblock s sb a"
    have s1: "mountable cap ?s" using m(1) by simp
    have d: "device ?s = device s" "st_table ?s = st_table s" "st_next_sector ?s = sb_next_sector sb" by (simp_all add: adopt_superblock_def)
    have q: "wired read_s write_s flush_s ?s" "ok (device ?s)" "sector_count ?s = n" "st_table_capacity ?s = cap" "table_room cap (st_table ?s)"
      using s1 m(2) room d by (simp_all add: mountable_def scratch_room_def)
    have b: "4 \<le> budget (device ?s)" "visible (device ?s) = img" using m(3,4) d by simp_all
    obtain s2 res where w: "recover_wal ?s = (s2, res)"
      and out: "if sector_is_zero (img 2) then res = Some False \<and> (\<exists>d. s2 = with_device ?s d \<and> same_view (device ?s) d)
         else case image_root img cap sb of None \<Rightarrow> res = None
           | Some (ts, tc) \<Rightarrow> (case read_generation img n cap ts (unat tc) of None \<Rightarrow> res = None
              | Some es \<Rightarrow> res = Some True \<and> (\<exists>d. table_loaded ?s d ts (unat tc) es s2 \<and> ok d \<and> (\<forall>t. 3 \<le> t \<longrightarrow> visible d t = img t)))"
      using recover_wal_view [OF q p(3) b(1) d(3) b(2)] by blast
    have run: "mount_from s (decode_superblock (img 0)) (decode_superblock (img 1)) =
        (case res of None \<Rightarrow> (s2, False)
         | Some recovered \<Rightarrow>
             (case (if recovered then (s2, True) else load_table_generation s2 (sb_current_table_sector sb) (unat (sb_current_table_count sb))) of
                (s3, False) \<Rightarrow> (s3, False) | (s3, True) \<Rightarrow> rebuild_bitmap s3))"
      using c w p by (simp add: mount_from_def)
    have none: "?thesis" if "res = None" "recover_image img n cap = None" using that run by simp
    show ?thesis
    proof (cases "sector_is_zero (img 2)")
      case True
      obtain d2 where s2: "res = Some False" "s2 = with_device ?s d2" "same_view (device ?s) d2" using out True by auto
      have "visible d2 = img" "ok d2" using s2 b(2) by (auto simp: same_view_def)
      from load_and_rebuild [OF m(1) room this c True] show ?thesis using run s2(1,2) by simp
    next
      case False
      show ?thesis
      proof (cases "image_root img cap sb")
        case None
        then show ?thesis using none out False c by (simp add: recover_image_def)
      next
        case (Some tt)
        obtain ts tc where root: "image_root img cap sb = Some (ts, tc)" using Some by (cases tt) simp
        show ?thesis
        proof (cases "read_generation img n cap ts (unat tc)")
          case None
          then show ?thesis using none out False c root by (simp add: recover_image_def)
        next
          case (Some es)
          then obtain d2 where l: "res = Some True" "table_loaded ?s d2 ts (unat tc) es s2" "ok d2" "\<forall>t. 3 \<le> t \<longrightarrow> visible d2 t = img t"
            using out False root by auto
          note f = table_loaded_mountable [OF l(2)]
          have "mountable cap s2" "ok (device s2)" "\<And>t. 3 \<le> t \<Longrightarrow> visible (device s2) t = img t" using f s1 l(3,4) by simp_all
          from rebuild_mounts [OF this l(2) refl c root Some] show ?thesis using run l(1) by simp
        qed
      qed
    qed
  qed
qed

lemma mount_view:
  assumes set0: "setup_store io om = Some s0" and fits: "memory_fits io om"
    and io: "io_read_sector io = Some read_s" "io_write_sector io = Some write_s" "io_flush io = Some flush_s"
      "ok (io_context io)" "io_sector_count io = n" "4 \<le> budget (io_context io)"
  defines "img \<equiv> visible (io_context io)"
  shows "\<exists>s. object_store_mount io om = Some (s, recover_image img n (om_table_capacity om) \<noteq> None) \<and>
    (\<forall>es. recover_image img n (om_table_capacity om) = Some es \<longrightarrow> mounted visible img n (om_table_capacity om) es s)"
proof -
  note f = setup_store_facts [OF set0 fits]
  let ?cap = "om_table_capacity om"
  have n: "3 \<le> n" using f(1,14) io(5) by simp
  then have n01: "0 < n" "1 < n" by (auto simp: word_less_nat_alt word_le_nat_alt)
  have w0: "wired read_s write_s flush_s s0" "ok (device s0)" "visible (device s0) = img" "budget (device s0) = budget (io_context io)"
    using io f(1) by (simp_all add: wired_def img_def)
  obtain d1 where r1: "store_read s0 0 = (with_device s0 d1, Some (img 0))" "same_view (device s0) d1"
    using store_read_view [OF w0(1,2), of 0] n01 w0(3) by auto
  have w1: "wired read_s write_s flush_s (with_device s0 d1)" "ok (device (with_device s0 d1))" using w0(1) r1(2) by (simp_all add: same_view_def)
  obtain d2 where r2: "store_read (with_device s0 d1) 1 = (with_device s0 d2, Some (img 1))" "same_view d1 d2"
    using store_read_view [OF w1, of 1] n01 w0(3) r1(2) by (auto simp: same_view_def)
  have "mountable ?cap s0"
    using w0(1) f io(5) n fits by (auto simp: mountable_def scratch_room_def memory_fits_def)
  moreover have "table_room ?cap (st_table s0)" using f(4,5,6) by (simp add: table_room_def table_inv_def)
  ultimately have "\<exists>s'. mount_from (with_device s0 d2) (decode_superblock (img 0)) (decode_superblock (img 1)) = (s', recover_image img n ?cap \<noteq> None) \<and>
      (\<forall>es. recover_image img n ?cap = Some es \<longrightarrow> mounted visible img n ?cap es s')"
    using r1(2) r2(2) w0(3,4) io(6) by (intro mount_from_view) (simp_all add: same_view_def)
  then show ?thesis
    using r1(1) r2(1) by (simp add: object_store_mount_def set0 OBJECT_STORE_SUPERBLOCK_A_def OBJECT_STORE_SUPERBLOCK_B_def)
qed

end

text \<open>
  C11: \<open>object_store_mount\<close> brings back exactly what the disk holds. On any device that
  answers, refuses to read past its end and has writes left for the recovery, with any memory of
  the announced sizes and whatever the sectors contain, the mount returns; it
  succeeds exactly when the image holds a table: one of the superblocks is valid, the newer one is
  chosen, the log is empty or a valid root, and the records of the current generation and of every
  snapshot are valid and sorted. Then the table in memory is that of the image - of the log when there
  is one -, no recovery is required, nothing but the superblocks and the log was written, and
  the bitmap marks exactly the reserved sectors, the sectors of the current table and of every
  snapshot, and those of the objects that they name.
\<close>

theorem object_store_mount_exact:
  assumes "bounded_device read_s write_s flush_s ok visible survivors n budget"
    and "io_read_sector io = Some read_s" "io_write_sector io = Some write_s" "io_flush io = Some flush_s"
    and "ok (io_context io)" "io_sector_count io = n" "4 \<le> budget (io_context io)"
    and "setup_store io om \<noteq> None" "memory_fits io om"
  shows "\<exists>s. object_store_mount io om = Some (s, recover_image (visible (io_context io)) n (om_table_capacity om) \<noteq> None) \<and>
    (\<forall>es. recover_image (visible (io_context io)) n (om_table_capacity om) = Some es \<longrightarrow>
       live (st_table s) = es \<and> \<not> object_store_requires_recovery s \<and>
       (\<forall>t. 3 \<le> t \<longrightarrow> visible (io_context (st_io s)) t = visible (io_context io) t) \<and>
       used_sectors s = {0, 1, 2} \<union> image_sectors (visible (io_context io)) n (om_table_capacity om) \<union> {t. n \<le> t})"
proof -
  obtain s0 where "setup_store io om = Some s0" using assms(8) by auto
  from bounded_device.mount_view [OF assms(1) this assms(9,2-7)] show ?thesis unfolding mounted_def .
qed

text \<open>
  A power loss at any moment of a batch, then a mount on the device that comes back: the mount succeeds and
  the table in memory is the one before the batch or the one after it.
\<close>

lemma batch_crash_mount:
  assumes dev: "bounded_device read_s write_s flush_s ok visible survivors (sector_count s) budget"
    and s: "wired read_s write_s flush_s s" "ok (device s)" "store_ok (survivors (device s)) U s"
      "cache_ok s" "st_cache_capacity s + 7 < 2 ^ 64" "\<forall>r\<in>set rs. request_backed r" "unat (st_superblock_sequence s) + 2 < 2 ^ 64"
    and put: "object_store_put_many s rs = Some (s', r)"
    and reboot: "reboot_image survivors visible (device s') d" "ok d" "4 \<le> budget d"
    and io: "io_read_sector io = Some read_s" "io_write_sector io = Some write_s" "io_flush io = Some flush_s" "io_context io = d"
      "io_sector_count io = sector_count s" "om_table_capacity om = st_table_capacity s" "setup_store io om \<noteq> None" "memory_fits io om"
  obtains s2 where "object_store_mount io om = Some (s2, True)"
    "holds_before (visible d) (survivors (device s)) s (live (st_table s2)) \<or> holds_after (visible d) (survivors (device s)) s rs (live (st_table s2))"
proof -
  have bd: "block_device read_s write_s flush_s ok visible survivors"
    using dev by (simp add: bounded_device_def reliable_device_def)
  obtain s1 r1 where "object_store_put_many s rs = Some (s1, r1)" "block_device.put_outcome read_s write_s flush_s ok survivors U s rs s1 r1"
    using block_device.put_many_outcome [OF bd s(3,1,2,4-7)] by blast
  then have out: "block_device.put_outcome read_s write_s flush_s ok survivors U s rs s' r" using put by simp
  have img: "image_of (visible d) (survivors (device s'))" using reboot(1) by (simp add: reboot_image_def image_of_def)
  obtain es where es: "recover_image (visible d) (sector_count s) (st_table_capacity s) = Some es"
      "holds_before (visible d) (survivors (device s)) s es \<or> holds_after (visible d) (survivors (device s)) s rs es"
    using block_device.outcome_images [OF bd s(3) out img] by (cases r) auto
  obtain s0 where s0: "setup_store io om = Some s0" using io(7) by auto
  have ctx: "ok (io_context io)" "4 \<le> budget (io_context io)" using reboot(2,3) io(4) by simp_all
  from bounded_device.mount_view [OF dev s0 io(8,1-3) ctx(1) io(5) ctx(2)] es show ?thesis
    using that by (auto simp: io(4,6) mounted_def)
qed

text \<open>A formatted disk, mounted again after a power loss, and a disk that was never formatted.\<close>

theorem object_store_mount_exact_witness:
  "(\<exists>s. object_store_mount (make_io (power_cut (device sample_store) 0)) sample_memory = Some (s, True) \<and> live (st_table s) = []) \<and>
   (\<exists>s. object_store_mount (make_io blank_disk) sample_memory = Some (s, False))"
proof -
  let ?d = "power_cut (device sample_store) 0"
  note p = power_cut_reboot [OF sample_store_facts(2), of 0]
  have mem: "om_table_capacity sample_memory = 4" by (simp add: sample_memory_def)
  have io: "io_read_sector (make_io d) = Some barrier_read" "io_write_sector (make_io d) = Some barrier_write" "io_flush (make_io d) = Some barrier_flush"
    "io_context (make_io d) = d" "io_sector_count (make_io d) = 128" "setup_store (make_io d) sample_memory \<noteq> None" for d
    using sample_setup [of d] by (simp_all add: make_io_def)
  have "image_of (barrier_visible ?d) (barrier_survivors (device sample_store))" using p(2) by (simp add: reboot_image_def image_of_def)
  from store_ok_recovers(1) [OF sample_store_facts(3) this]
  have r: "recover_image (barrier_visible ?d) 128 4 = Some []" by (simp add: sample_store_facts)
  have "sb_magic (decode_superblock []) = 0" by (simp add: decode_superblock_def bslice_def)
  then have "\<not> superblock_is_valid (decode_superblock []) 128 4" by (simp add: superblock_is_valid_def OBJECT_STORE_SUPERBLOCK_MAGIC_def)
  moreover have "barrier_visible blank_disk 0 = []" "barrier_visible blank_disk 1 = []" by (simp_all add: barrier_visible_def blank_disk_def)
  ultimately have blank: "recover_image (barrier_visible blank_disk) 128 4 = None" by (simp add: recover_image_def choose_superblock_def)
  have mount: "\<exists>s. object_store_mount (make_io d) sample_memory = Some (s, recover_image (barrier_visible d) 128 4 \<noteq> None) \<and>
      (\<forall>es. recover_image (barrier_visible d) 128 4 = Some es \<longrightarrow> live (st_table s) = es)" if "barrier_ok d" "4 \<le> barrier_budget d" for d
    using object_store_mount_exact [OF barrier.bounded_device_axioms io(1-3) _ io(5) _ io(6) sample_memory_fits, of d] that
    by (auto simp: io(4) mem)
  show ?thesis using mount [OF p(1)] p(3) r mount [OF blank_disk_ok(1)] blank_disk_ok(2) blank by simp
qed

end
