(* ===== verification/Frame_Allocator.thy ===== *)
theory Frame_Allocator
  imports Jani_Prelude
begin

text \<open>
  The physical frame allocator, \<^verbatim>\<open>kernel/mm/pmm.c\<close>, and the boot loader's memory map it is
  initialised from, \<^verbatim>\<open>kernel/mm/memory_map.c\<close>. The static variables of the C file are the
  fields of a record; an entry pointer of the memory map that may be \<open>NULL\<close> is an option.
\<close>

section \<open>The memory map\<close>

record memory_map_entry =
  mm_base :: u64
  mm_length :: u64
  mm_type :: u64

definition MEMORY_MAP_USABLE :: u64 where "MEMORY_MAP_USABLE = 0"

text \<open>The response of the boot loader, \<open>None\<close> if there is none.\<close>

type_synonym limine_memmap_response = "memory_map_entry option list option"

definition memory_map_entry_count :: "limine_memmap_response \<Rightarrow> nat" where
  "memory_map_entry_count response = (case response of None \<Rightarrow> 0 | Some es \<Rightarrow> length es)"

definition memory_map_get_entry :: "limine_memmap_response \<Rightarrow> nat \<Rightarrow> memory_map_entry option" where
  "memory_map_get_entry response index =
     (case response of None \<Rightarrow> None | Some es \<Rightarrow> if index \<ge> length es then None else es ! index)"

section \<open>The allocator\<close>

record pmm =
  frame_bitmap :: bytes
  free_frame_count :: u64
  next_search_frame :: u64

definition PMM_FRAME_SIZE :: u64 where "PMM_FRAME_SIZE = 4096"
definition PMM_MAX_PHYSICAL_MEMORY :: u64 where "PMM_MAX_PHYSICAL_MEMORY = 0x100000000"
definition PMM_MAX_FRAMES :: u64 where "PMM_MAX_FRAMES = PMM_MAX_PHYSICAL_MEMORY div PMM_FRAME_SIZE"

lemma PMM_MAX_FRAMES_eq [simp]: "PMM_MAX_FRAMES = 0x100000"
  by (simp add: PMM_MAX_FRAMES_def PMM_MAX_PHYSICAL_MEMORY_def PMM_FRAME_SIZE_def)

definition byte_for_frame :: "u64 \<Rightarrow> u64" where
  "byte_for_frame frame_number = frame_number div 8"

definition mask_for_frame :: "u64 \<Rightarrow> u8" where
  "mask_for_frame frame_number = push_bit (unat (frame_number mod 8)) 1"

definition pmm_frame_is_used :: "pmm \<Rightarrow> u64 \<Rightarrow> bool" where
  "pmm_frame_is_used p frame_number =
     (if frame_number \<ge> PMM_MAX_FRAMES then True
      else (frame_bitmap p ! unat (byte_for_frame frame_number)) AND mask_for_frame frame_number \<noteq> 0)"

definition pmm_bitmap_reset :: pmm where
  "pmm_bitmap_reset = \<lparr>frame_bitmap = replicate (unat PMM_MAX_FRAMES div 8) 0xFF, free_frame_count = 0,
     next_search_frame = 1\<rparr>"

definition pmm_mark_frame_used :: "pmm \<Rightarrow> u64 \<Rightarrow> pmm" where
  "pmm_mark_frame_used p frame_number =
     (if frame_number \<ge> PMM_MAX_FRAMES \<or> pmm_frame_is_used p frame_number then p
      else let k = unat (byte_for_frame frame_number) in
        p\<lparr>frame_bitmap := (frame_bitmap p)[k := (frame_bitmap p ! k) OR mask_for_frame frame_number],
          free_frame_count := free_frame_count p - 1\<rparr>)"

definition pmm_mark_frame_free :: "pmm \<Rightarrow> u64 \<Rightarrow> pmm" where
  "pmm_mark_frame_free p frame_number =
     (if frame_number \<ge> PMM_MAX_FRAMES \<or> \<not> pmm_frame_is_used p frame_number then p
      else let k = unat (byte_for_frame frame_number) in
        p\<lparr>frame_bitmap := (frame_bitmap p)[k := (frame_bitmap p ! k) AND NOT (mask_for_frame frame_number)],
          free_frame_count := free_frame_count p + 1\<rparr>)"

definition pmm_release_usable_region :: "pmm \<Rightarrow> memory_map_entry \<Rightarrow> pmm" where
  "pmm_release_usable_region p entry =
     (if mm_base entry \<ge> PMM_MAX_PHYSICAL_MEMORY then p
      else
        let region_end = (if mm_length entry > PMM_MAX_PHYSICAL_MEMORY - mm_base entry
                          then PMM_MAX_PHYSICAL_MEMORY else mm_base entry + mm_length entry);
            first_frame = (mm_base entry + PMM_FRAME_SIZE - 1) div PMM_FRAME_SIZE;
            end_frame = region_end div PMM_FRAME_SIZE
        in foldl (\<lambda>p frame. pmm_mark_frame_free p (of_nat frame)) p [unat first_frame..<unat end_frame])"

definition pmm_init :: "limine_memmap_response \<Rightarrow> pmm" where
  "pmm_init response =
     pmm_mark_frame_used
       (foldl (\<lambda>p index. case memory_map_get_entry response index of
                 None \<Rightarrow> p
               | Some entry \<Rightarrow> if mm_type entry = MEMORY_MAP_USABLE then pmm_release_usable_region p entry else p)
          pmm_bitmap_reset [0..<memory_map_entry_count response]) 0"

text \<open>The address of the allocated frame; 0 if there is none.\<close>

definition pmm_allocate_between :: "pmm \<Rightarrow> u64 \<Rightarrow> u64 \<Rightarrow> pmm \<times> u64" where
  "pmm_allocate_between p first_frame end_frame =
     (case List.find (\<lambda>frame. \<not> pmm_frame_is_used p (of_nat frame)) [unat first_frame..<unat end_frame] of
        None \<Rightarrow> (p, 0)
      | Some k \<Rightarrow>
          let frame = of_nat k;
              p1 = pmm_mark_frame_used p frame;
              p2 = p1\<lparr>next_search_frame := frame + 1\<rparr>;
              p3 = (if next_search_frame p2 \<ge> PMM_MAX_FRAMES then p2\<lparr>next_search_frame := 1\<rparr> else p2)
          in (p3, frame * PMM_FRAME_SIZE))"

definition pmm_alloc_frame :: "pmm \<Rightarrow> pmm \<times> u64" where
  "pmm_alloc_frame p =
     (case pmm_allocate_between p (next_search_frame p) PMM_MAX_FRAMES of
        (p1, physical_address) \<Rightarrow>
          if physical_address \<noteq> 0 then (p1, physical_address)
          else pmm_allocate_between p1 1 (next_search_frame p1))"

definition pmm_free_frame :: "pmm \<Rightarrow> u64 \<Rightarrow> pmm" where
  "pmm_free_frame p physical_address =
     (if physical_address = 0 \<or> physical_address mod PMM_FRAME_SIZE \<noteq> 0 then p
      else let frame = physical_address div PMM_FRAME_SIZE in
        if frame \<ge> PMM_MAX_FRAMES \<or> \<not> pmm_frame_is_used p frame then p
        else let p1 = pmm_mark_frame_free p frame in
          if frame < next_search_frame p1 then p1\<lparr>next_search_frame := frame\<rparr> else p1)"

definition pmm_get_free_frame_count :: "pmm \<Rightarrow> u64" where
  "pmm_get_free_frame_count p = free_frame_count p"

section \<open>The bitmap as a set of frames\<close>

definition free_frames :: "pmm \<Rightarrow> u64 set" where
  "free_frames p = {f. \<not> pmm_frame_is_used p f}"

definition pmm_ok :: "pmm \<Rightarrow> bool" where
  "pmm_ok p \<longleftrightarrow> length (frame_bitmap p) = 0x20000 \<and> unat (free_frame_count p) = card (free_frames p) \<and>
     1 \<le> next_search_frame p \<and> next_search_frame p < PMM_MAX_FRAMES"

lemma bit_mask_for_frame: "bit (mask_for_frame f) k \<longleftrightarrow> k = unat (f mod 8)"
  by (simp add: mask_for_frame_def bit_byte_mask)

lemma and_mask_for_frame: "(w AND mask_for_frame f \<noteq> 0) \<longleftrightarrow> bit w (unat (f mod 8))"
  by (simp add: mask_for_frame_def and_byte_mask)

lemma frame_index: "f < 0x100000 \<Longrightarrow> unat (f div 8 :: u64) < 0x20000"
  by (simp add: unat_div word_less_nat_alt)

lemma free_frames_bound: "f \<in> free_frames p \<Longrightarrow> f < 0x100000"
  by (auto simp: free_frames_def pmm_frame_is_used_def split: if_splits)

lemma free_frames_next [simp]: "free_frames (p\<lparr>next_search_frame := x\<rparr>) = free_frames p"
  by (simp add: free_frames_def pmm_frame_is_used_def)

lemma finite_free_frames [simp]: "finite (free_frames p)"
  by simp

lemma card_free_frames: "card (free_frames p) \<le> 0x100000"
proof -
  have "inj_on unat (free_frames p)" by (auto simp: inj_on_def word_unat_eq_iff)
  moreover have "unat ` free_frames p \<subseteq> {..<0x100000}"
    using free_frames_bound by (fastforce simp: word_less_nat_alt)
  ultimately show ?thesis using card_inj_on_le [of unat "free_frames p" "{..<0x100000}"] by simp
qed

lemma mark_used_free_frames:
  assumes "length (frame_bitmap p) = 0x20000"
  shows "free_frames (pmm_mark_frame_used p f) = free_frames p - {f}"
    "length (frame_bitmap (pmm_mark_frame_used p f)) = 0x20000"
    "next_search_frame (pmm_mark_frame_used p f) = next_search_frame p"
proof -
  have "pmm_frame_is_used (pmm_mark_frame_used p f) g \<longleftrightarrow> pmm_frame_is_used p g \<or> g = f" for g
    using frame_index [of f] frame_index [of g] assms
    by (auto simp: pmm_frame_is_used_def pmm_mark_frame_used_def Let_def byte_for_frame_def and_mask_for_frame
        nth_list_update bit_or_iff bit_mask_for_frame dest: byte_and_bit_inj)
  then show "free_frames (pmm_mark_frame_used p f) = free_frames p - {f}" by (auto simp: free_frames_def)
qed (use assms in \<open>auto simp: pmm_mark_frame_used_def Let_def\<close>)

lemma mark_free_free_frames:
  assumes "length (frame_bitmap p) = 0x20000"
  shows "free_frames (pmm_mark_frame_free p f) = free_frames p \<union> ({f} \<inter> {..<0x100000})"
    "length (frame_bitmap (pmm_mark_frame_free p f)) = 0x20000"
    "next_search_frame (pmm_mark_frame_free p f) = next_search_frame p"
proof -
  have "pmm_frame_is_used (pmm_mark_frame_free p f) g \<longleftrightarrow> pmm_frame_is_used p g \<and> (g \<noteq> f \<or> f \<ge> 0x100000)" for g
    using frame_index [of f] frame_index [of g] assms
    by (auto simp: pmm_frame_is_used_def pmm_mark_frame_free_def Let_def byte_for_frame_def and_mask_for_frame
        nth_list_update bit_and_iff bit_not_iff bit_mask_for_frame not_le dest: byte_and_bit_inj)
  then show "free_frames (pmm_mark_frame_free p f) = free_frames p \<union> ({f} \<inter> {..<0x100000})"
    by (auto simp: free_frames_def not_le)
qed (use assms in \<open>auto simp: pmm_mark_frame_free_def Let_def\<close>)

definition counted :: "pmm \<Rightarrow> bool" where
  "counted p \<longleftrightarrow> length (frame_bitmap p) = 0x20000 \<and> unat (free_frame_count p) = card (free_frames p)"

lemma counted_used: "counted p \<Longrightarrow> counted (pmm_mark_frame_used p f)"
proof -
  assume c: "counted p"
  then have len: "length (frame_bitmap p) = 0x20000" by (simp add: counted_def)
  note m = mark_used_free_frames [OF len, of f]
  show ?thesis
  proof (cases "f \<in> free_frames p")
    case True
    then have n: "free_frame_count (pmm_mark_frame_used p f) = free_frame_count p - 1"
      using free_frames_bound [OF True] by (simp add: pmm_mark_frame_used_def free_frames_def Let_def)
    have "card (free_frames p) \<noteq> 0" using True by auto
    then have "free_frame_count p \<noteq> 0" using c by (auto simp: counted_def)
    then have "unat (free_frame_count p - 1) = unat (free_frame_count p) - 1" by (rule unat_minus_one)
    then show ?thesis using c m True n by (simp add: counted_def)
  next
    case False
    then have "pmm_mark_frame_used p f = p" by (auto simp: pmm_mark_frame_used_def free_frames_def)
    then show ?thesis using c by simp
  qed
qed

lemma counted_free: "counted p \<Longrightarrow> counted (pmm_mark_frame_free p f)"
proof -
  assume c: "counted p"
  then have len: "length (frame_bitmap p) = 0x20000" by (simp add: counted_def)
  note m = mark_free_free_frames [OF len, of f]
  show ?thesis
  proof (cases "f < 0x100000 \<and> f \<notin> free_frames p")
    case True
    then have n: "free_frame_count (pmm_mark_frame_free p f) = free_frame_count p + 1"
      by (simp add: pmm_mark_frame_free_def free_frames_def Let_def not_le)
    have "unat (free_frame_count p) \<le> 0x100000" using c card_free_frames [of p] by (simp add: counted_def)
    then have "unat (free_frame_count p + 1) = unat (free_frame_count p) + 1" by (simp add: unat_word_ariths)
    then show ?thesis using c m True n by (simp add: counted_def)
  next
    case False
    then have "pmm_mark_frame_free p f = p" by (auto simp: pmm_mark_frame_free_def free_frames_def)
    then show ?thesis using c by simp
  qed
qed

section \<open>Allocating and freeing\<close>

lemma allocate_between_result:
  assumes ok: "pmm_ok p" and range: "1 \<le> lo" "hi \<le> 0x100000"
  obtains "pmm_allocate_between p lo hi = (p, 0)" "\<forall>f. lo \<le> f \<and> f < hi \<longrightarrow> f \<notin> free_frames p"
  | f p' where "pmm_allocate_between p lo hi = (p', f * 4096)" "f \<in> free_frames p" "lo \<le> f" "f < hi"
      "free_frames p' = free_frames p - {f}" "pmm_ok p'"
proof (cases "List.find (\<lambda>frame. \<not> pmm_frame_is_used p (of_nat frame)) [unat lo..<unat hi]")
  case None
  have "f \<notin> free_frames p" if "lo \<le> f" "f < hi" for f
  proof -
    have "unat f \<in> set [unat lo..<unat hi]" using that by (simp add: word_le_nat_alt word_less_nat_alt)
    then show ?thesis using None by (auto simp: find_None_iff free_frames_def)
  qed
  then show thesis using that(1) None by (simp add: pmm_allocate_between_def)
next
  case (Some k)
  define f :: u64 where "f = of_nat k"
  from Some have k: "unat lo \<le> k" "k < unat hi" "\<not> pmm_frame_is_used p f"
    by (auto simp: find_Some_iff f_def)
  have "k < 2 ^ 64" using k(2) range(2) by (simp add: word_le_nat_alt)
  then have uf: "unat f = k" by (simp add: f_def unat_of_nat)
  have f: "f \<in> free_frames p" "lo \<le> f" "f < hi" "f < 0x100000"
    using k uf range free_frames_bound [of f p] by (auto simp: free_frames_def word_le_nat_alt word_less_nat_alt)
  define p1 where "p1 = pmm_mark_frame_used p f"
  have c: "counted p1" "free_frames p1 = free_frames p - {f}"
    using ok counted_used [of p f] mark_used_free_frames(1) [of p f] by (auto simp: pmm_ok_def counted_def p1_def)
  have f1: "unat (f + 1) = unat f + 1" using f(4) by (simp add: unat_word_ariths word_less_nat_alt)
  define p3 where "p3 = (if f + 1 \<ge> PMM_MAX_FRAMES then p1\<lparr>next_search_frame := 1\<rparr> else p1\<lparr>next_search_frame := f + 1\<rparr>)"
  have fr: "free_frames p3 = free_frames p - {f}"
    using c(2) by (simp add: p3_def)
  have "pmm_ok p3"
    using c(1) fr f1 c(2) by (auto simp: pmm_ok_def counted_def p3_def word_le_nat_alt word_less_nat_alt)
  moreover have "pmm_allocate_between p lo hi = (p3, f * 4096)"
    using Some by (simp add: pmm_allocate_between_def Let_def f_def [symmetric] p1_def p3_def PMM_FRAME_SIZE_def)
  ultimately show thesis using that(2) f fr by blast
qed

lemma frame_address:
  assumes "(f :: u64) < 0x100000" "f \<noteq> 0"
  shows "unat (f * 4096) = unat f * 4096" "f * 4096 \<noteq> 0" "f * 4096 div 4096 = f" "f * 4096 mod 4096 = 0"
proof -
  have "unat f * 4096 < 2 ^ 64" using assms(1) by (simp add: word_less_nat_alt)
  then show u: "unat (f * 4096) = unat f * 4096" by (simp add: unat_word_ariths)
  then show "f * 4096 \<noteq> 0" using assms(2) by (metis mult_is_0 unat_0 unat_eq_zero zero_neq_numeral)
  show "f * 4096 div 4096 = f" "f * 4096 mod 4096 = 0"
    using u by (simp_all add: word_unat_eq_iff unat_div unat_mod)
qed

lemma free_frame_ignored:
  assumes "f < 0x100000" "f \<noteq> 0" "\<not> pmm_frame_is_used p f"
  shows "pmm_free_frame p (f * 4096) = p"
  using frame_address [OF assms(1,2)] assms(3) by (simp add: pmm_free_frame_def Let_def PMM_FRAME_SIZE_def)

lemma free_frame_result:
  assumes ok: "pmm_ok p" and f: "f \<notin> free_frames p" "f < 0x100000" "f \<noteq> 0"
  shows "free_frames (pmm_free_frame p (f * 4096)) = insert f (free_frames p)" "pmm_ok (pmm_free_frame p (f * 4096))"
proof -
  define q where "q = pmm_mark_frame_free p f"
  have len: "length (frame_bitmap p) = 0x20000" "counted p" using ok by (auto simp: pmm_ok_def counted_def)
  have q: "free_frames q = insert f (free_frames p)" "counted q" "next_search_frame q = next_search_frame p"
    using mark_free_free_frames [OF len(1), of f] counted_free [OF len(2), of f] f by (auto simp: q_def)
  have used: "pmm_frame_is_used p f" using f(1) by (simp add: free_frames_def)
  have fr: "pmm_free_frame p (f * 4096) = (if f < next_search_frame q then q\<lparr>next_search_frame := f\<rparr> else q)"
    using frame_address [OF f(2,3)] used f by (simp add: pmm_free_frame_def Let_def PMM_FRAME_SIZE_def q_def not_le)
  show "free_frames (pmm_free_frame p (f * 4096)) = insert f (free_frames p)" using q(1) by (simp add: fr)
  show "pmm_ok (pmm_free_frame p (f * 4096))"
    using q f ok by (auto simp: fr pmm_ok_def counted_def unat_gt_0 word_le_nat_alt Suc_le_eq)
qed

lemma alloc_frame_result:
  assumes ok: "pmm_ok p" and alloc: "pmm_alloc_frame p = (p', a)"
  shows "a = 0 \<and> p' = p \<and> free_frames p \<subseteq> {0} \<or>
    (\<exists>f. f \<in> free_frames p \<and> f \<noteq> 0 \<and> a = f * 4096 \<and> free_frames p' = free_frames p - {f} \<and> pmm_ok p')"
proof -
  have nx: "1 \<le> next_search_frame p" "next_search_frame p < 0x100000" using ok by (auto simp: pmm_ok_def)
  show ?thesis
  proof (rule allocate_between_result [OF ok nx(1) order_refl])
    assume first: "pmm_allocate_between p (next_search_frame p) 0x100000 = (p, 0)"
      "\<forall>f. next_search_frame p \<le> f \<and> f < 0x100000 \<longrightarrow> f \<notin> free_frames p"
    then have a: "pmm_allocate_between p 1 (next_search_frame p) = (p', a)" using alloc by (simp add: pmm_alloc_frame_def)
    show ?thesis
    proof (rule allocate_between_result [OF ok order_refl order.strict_implies_order [OF nx(2)]])
      assume "pmm_allocate_between p 1 (next_search_frame p) = (p, 0)"
        "\<forall>f. 1 \<le> f \<and> f < next_search_frame p \<longrightarrow> f \<notin> free_frames p"
      then have "f = 0" if "f \<in> free_frames p" for f
        using that first(2) free_frames_bound [OF that]
        by (cases "f < next_search_frame p") (auto simp: not_less word_le_nat_alt unat_gt_0 Suc_le_eq)
      then have "free_frames p \<subseteq> {0}" by auto
      then show ?thesis using a \<open>pmm_allocate_between p 1 (next_search_frame p) = (p, 0)\<close> by simp
    qed (use a in \<open>fastforce\<close>)
  next
    fix f q assume f: "pmm_allocate_between p (next_search_frame p) 0x100000 = (q, f * 4096)" "f \<in> free_frames p"
      "next_search_frame p \<le> f" "f < 0x100000" "free_frames q = free_frames p - {f}" "pmm_ok q"
    have "f \<noteq> 0" using nx(1) f(3) by (auto simp: word_le_nat_alt)
    from frame_address(2) [OF f(4) this] have "p' = q" "a = f * 4096" using alloc f(1) by (simp_all add: pmm_alloc_frame_def)
    then show ?thesis using f \<open>f \<noteq> 0\<close> by blast
  qed
qed

text \<open>Freeing any address at all.\<close>

lemma free_frame_exact:
  assumes ok: "pmm_ok p"
  shows "if \<exists>f. f \<noteq> 0 \<and> f < PMM_MAX_FRAMES \<and> f \<notin> free_frames p \<and> unat x = unat f * 4096
    then free_frames (pmm_free_frame p x) = insert (x div PMM_FRAME_SIZE) (free_frames p) \<and> pmm_ok (pmm_free_frame p x) \<and>
      unat (pmm_get_free_frame_count (pmm_free_frame p x)) = unat (pmm_get_free_frame_count p) + 1
    else pmm_free_frame p x = p"
proof (cases "\<exists>f. f \<noteq> 0 \<and> f < PMM_MAX_FRAMES \<and> f \<notin> free_frames p \<and> unat x = unat f * 4096")
  case True
  then obtain f where f: "f \<noteq> 0" "f < 0x100000" "f \<notin> free_frames p" "unat x = unat f * 4096" unfolding PMM_MAX_FRAMES_eq by (elim exE conjE)
  have x: "x = f * 4096" "x div PMM_FRAME_SIZE = f"
    using f(4) frame_address [OF f(2,1)] by (simp_all add: word_unat_eq_iff PMM_FRAME_SIZE_def unat_div)
  note freed = free_frame_result [OF ok f(3,2,1)]
  have "card (insert f (free_frames p)) = Suc (card (free_frames p))" using f(3) by simp
  then have "unat (pmm_get_free_frame_count (pmm_free_frame p x)) = unat (pmm_get_free_frame_count p) + 1"
    using freed ok by (simp add: x(1) pmm_ok_def pmm_get_free_frame_count_def)
  then show ?thesis using True freed unfolding x(2) by (simp only: x(1) if_True simp_thms)
next
  case False
  have "pmm_free_frame p x = p"
  proof (cases "x = 0 \<or> x mod PMM_FRAME_SIZE \<noteq> 0")
    case good: False
    let ?f = "x div PMM_FRAME_SIZE"
    have d: "unat ?f = unat x div 4096" by (simp add: PMM_FRAME_SIZE_def unat_div)
    have "unat (x mod PMM_FRAME_SIZE) = 0" using good by simp
    then have "unat x mod 4096 = 0" by (simp add: PMM_FRAME_SIZE_def unat_mod)
    then have eq: "unat x = unat ?f * 4096" unfolding d using div_mult_mod_eq [of "unat x" 4096] by linarith
    moreover have "?f \<noteq> 0" using good eq by (auto simp: word_unat_eq_iff)
    ultimately have "\<not> (?f < PMM_MAX_FRAMES \<and> ?f \<notin> free_frames p)" using False by blast
    then show ?thesis using good by (auto simp: pmm_free_frame_def Let_def free_frames_def)
  qed (auto simp: pmm_free_frame_def)
  then show ?thesis using False by simp
qed

text \<open>
  C15: the frame allocator hands out every free frame, none twice, and takes back exactly what
  may be taken back. As long as the free counter agrees with the bitmap,
  \<open>pmm_alloc_frame\<close> returns 0 only when no frame but frame 0 is free, and then changes
  nothing; otherwise it returns the page-aligned address of a frame that was free, takes exactly
  that frame out of the free set and keeps the counter exact. Freeing that address puts the
  frame back, wherever the search position is by then, and freeing it again is ignored. Freeing
  an arbitrary address adds exactly its frame to the free set, with the counter raised by one,
  if it is the address of a frame in use other than frame 0; an address that is zero, not
  aligned, beyond the managed memory or of a free frame changes nothing at all.
\<close>

theorem pmm_alloc_free_exact:
  assumes ok: "pmm_ok p" and alloc: "pmm_alloc_frame p = (p', a)"
  shows "(if a = 0 then free_frames p \<subseteq> {0} \<and> p' = p
    else \<exists>f. f \<in> free_frames p \<and> f \<noteq> 0 \<and> unat a = unat f * 4096 \<and> free_frames p' = free_frames p - {f} \<and> pmm_ok p' \<and>
      unat (pmm_get_free_frame_count p') + 1 = unat (pmm_get_free_frame_count p) \<and>
      free_frames (pmm_free_frame p' a) = free_frames p \<and> pmm_ok (pmm_free_frame p' a) \<and>
      pmm_free_frame (pmm_free_frame p' a) a = pmm_free_frame p' a) \<and>
    (\<forall>x. if \<exists>f. f \<noteq> 0 \<and> f < PMM_MAX_FRAMES \<and> f \<notin> free_frames p \<and> unat x = unat f * 4096
      then free_frames (pmm_free_frame p x) = insert (x div PMM_FRAME_SIZE) (free_frames p) \<and> pmm_ok (pmm_free_frame p x) \<and>
        unat (pmm_get_free_frame_count (pmm_free_frame p x)) = unat (pmm_get_free_frame_count p) + 1
      else pmm_free_frame p x = p)"
proof (intro conjI allI free_frame_exact [OF ok])
  show "if a = 0 then free_frames p \<subseteq> {0} \<and> p' = p
    else \<exists>f. f \<in> free_frames p \<and> f \<noteq> 0 \<and> unat a = unat f * 4096 \<and> free_frames p' = free_frames p - {f} \<and> pmm_ok p' \<and>
      unat (pmm_get_free_frame_count p') + 1 = unat (pmm_get_free_frame_count p) \<and>
      free_frames (pmm_free_frame p' a) = free_frames p \<and> pmm_ok (pmm_free_frame p' a) \<and>
      pmm_free_frame (pmm_free_frame p' a) a = pmm_free_frame p' a"
    using alloc_frame_result [OF assms]
  proof (elim disjE exE conjE)
    fix f assume f: "f \<in> free_frames p" "f \<noteq> 0" "a = f * 4096" "free_frames p' = free_frames p - {f}" "pmm_ok p'"
    have lt: "f < 0x100000" using free_frames_bound [OF f(1)] .
    have gone: "f \<notin> free_frames p'" using f(4) by simp
    note freed = free_frame_result [OF f(5) gone lt f(2)]
    have "\<not> pmm_frame_is_used (pmm_free_frame p' a) f" using freed(1) f(3) by (auto simp: free_frames_def)
    then have "pmm_free_frame (pmm_free_frame p' a) a = pmm_free_frame p' a"
      unfolding f(3) by (rule free_frame_ignored [OF lt f(2)])
    moreover have "card (free_frames p') + 1 = card (free_frames p)" using card_Suc_Diff1 [OF finite_free_frames f(1)] f(4) by simp
    moreover have "insert f (free_frames p - {f}) = free_frames p" using f(1) by auto
    ultimately show ?thesis
      using f frame_address [OF lt f(2)] freed ok by (auto simp: pmm_ok_def pmm_get_free_frame_count_def)
  qed simp
qed

section \<open>Initialisation\<close>

definition frame_usable :: "memory_map_entry \<Rightarrow> u64 \<Rightarrow> bool" where
  "frame_usable e f \<longleftrightarrow> mm_type e = MEMORY_MAP_USABLE \<and>
     unat (mm_base e) \<le> unat f * 4096 \<and> unat f * 4096 + 4096 \<le> unat (mm_base e) + unat (mm_length e)"

lemma mark_free_fold:
  assumes "counted p"
  shows "counted (foldl (\<lambda>p k. pmm_mark_frame_free p (of_nat k)) p ks) \<and>
    free_frames (foldl (\<lambda>p k. pmm_mark_frame_free p (of_nat k)) p ks) =
       free_frames p \<union> (of_nat ` set ks \<inter> {..<0x100000}) \<and>
    next_search_frame (foldl (\<lambda>p k. pmm_mark_frame_free p (of_nat k)) p ks) = next_search_frame p"
  using assms
proof (induction ks arbitrary: p)
  case (Cons k ks)
  have c: "counted (pmm_mark_frame_free p (of_nat k))" using Cons.prems by (rule counted_free)
  have len: "length (frame_bitmap p) = 0x20000" using Cons.prems by (simp add: counted_def)
  show ?case using Cons.IH [OF c] mark_free_free_frames(1,3) [OF len, of "of_nat k"] by auto
qed simp

lemma of_nat_upt_frames:
  assumes "b \<le> 0x100000"
  shows "(of_nat ` set [a..<b] :: u64 set) = {f. a \<le> unat f \<and> unat f < b}"
proof (intro set_eqI iffI)
  fix f :: u64 assume "f \<in> of_nat ` set [a..<b]"
  then obtain k where "f = of_nat k" "a \<le> k" "k < b" by auto
  moreover from this have "unat f = k" using assms by (simp add: unat_of_nat)
  ultimately show "f \<in> {f. a \<le> unat f \<and> unat f < b}" by simp
next
  fix f :: u64 assume "f \<in> {f. a \<le> unat f \<and> unat f < b}"
  then show "f \<in> of_nat ` set [a..<b]" by (intro image_eqI [of _ _ "unat f"]) auto
qed

lemma release_region:
  assumes c: "counted p" and u: "mm_type e = MEMORY_MAP_USABLE"
  shows "counted (pmm_release_usable_region p e)"
    "free_frames (pmm_release_usable_region p e) = free_frames p \<union> {f. f < 0x100000 \<and> frame_usable e f}"
    "next_search_frame (pmm_release_usable_region p e) = next_search_frame p"
proof -
  let ?b = "unat (mm_base e)" and ?l = "unat (mm_length e)"
  have "counted (pmm_release_usable_region p e) \<and>
    free_frames (pmm_release_usable_region p e) = free_frames p \<union> {f. f < 0x100000 \<and> frame_usable e f} \<and>
    next_search_frame (pmm_release_usable_region p e) = next_search_frame p"
  proof (cases "mm_base e \<ge> PMM_MAX_PHYSICAL_MEMORY")
    case True
    then have "0x100000000 \<le> ?b" by (simp add: PMM_MAX_PHYSICAL_MEMORY_def word_le_nat_alt)
    then have none: "\<forall>f. \<not> (f < 0x100000 \<and> frame_usable e f)" by (auto simp: frame_usable_def word_less_nat_alt)
    have "pmm_release_usable_region p e = p" using True by (simp add: pmm_release_usable_region_def)
    then show ?thesis using none c by auto
  next
    case False
    then have b: "?b < 0x100000000" by (simp add: PMM_MAX_PHYSICAL_MEMORY_def word_le_nat_alt)
    define re :: u64 where "re = (if mm_length e > PMM_MAX_PHYSICAL_MEMORY - mm_base e then PMM_MAX_PHYSICAL_MEMORY else mm_base e + mm_length e)"
    have "unat (PMM_MAX_PHYSICAL_MEMORY - mm_base e) = 0x100000000 - ?b"
      using False by (simp add: unat_sub PMM_MAX_PHYSICAL_MEMORY_def not_le)
    then have re: "unat re = min 0x100000000 (?b + ?l)"
      using b by (auto simp: re_def PMM_MAX_PHYSICAL_MEMORY_def word_less_nat_alt unat_word_ariths)
    have first: "unat ((mm_base e + PMM_FRAME_SIZE - 1) div PMM_FRAME_SIZE) = (?b + 4095) div 4096"
    proof -
      have "mm_base e + PMM_FRAME_SIZE - 1 = 4095 + mm_base e" by (simp add: PMM_FRAME_SIZE_def)
      moreover have "unat (4095 + mm_base e) = ?b + 4095" using b by (simp add: unat_word_ariths)
      ultimately show ?thesis by (simp add: PMM_FRAME_SIZE_def unat_div)
    qed
    have lastf: "unat (re div PMM_FRAME_SIZE) = unat re div 4096" by (simp add: PMM_FRAME_SIZE_def unat_div)
    have e: "pmm_release_usable_region p e =
        foldl (\<lambda>p k. pmm_mark_frame_free p (of_nat k)) p [(?b + 4095) div 4096..<unat re div 4096]"
      using False by (simp add: pmm_release_usable_region_def Let_def re_def [symmetric] first lastf)
    have "unat re div 4096 \<le> 0x100000" using re by simp
    note set = of_nat_upt_frames [OF this, of "(?b + 4095) div 4096"]
    have "(?b + 4095) div 4096 \<le> unat f \<and> unat f < unat re div 4096 \<longleftrightarrow> f < 0x100000 \<and> frame_usable e f" for f
      using re u by (auto simp: frame_usable_def word_less_nat_alt)
    then have "of_nat ` set [(?b + 4095) div 4096..<unat re div 4096] \<inter> {..<0x100000} = {f :: u64. f < 0x100000 \<and> frame_usable e f}"
      unfolding set by auto
    then show ?thesis unfolding e using mark_free_fold [OF c] by simp
  qed
  then show "counted (pmm_release_usable_region p e)"
    "free_frames (pmm_release_usable_region p e) = free_frames p \<union> {f. f < 0x100000 \<and> frame_usable e f}"
    "next_search_frame (pmm_release_usable_region p e) = next_search_frame p" by auto
qed

lemma reset_facts: "counted pmm_bitmap_reset" "free_frames pmm_bitmap_reset = {}" "next_search_frame pmm_bitmap_reset = 1"
proof -
  have "pmm_frame_is_used pmm_bitmap_reset f" for f
  proof (cases "f < 0x100000")
    case True
    have "(0xFF :: u8) = - 1" by simp
    then have "bit (0xFF :: u8) (unat (f mod 8))" using mod_8_less [of f] by (simp only: bit_minus_1_iff possible_bit_word) simp
    then show ?thesis
      using frame_index [OF True] by (simp add: pmm_frame_is_used_def pmm_bitmap_reset_def byte_for_frame_def and_mask_for_frame)
  qed (simp add: pmm_frame_is_used_def not_less)
  then show "free_frames pmm_bitmap_reset = {}" by (simp add: free_frames_def)
  then show "counted pmm_bitmap_reset" "next_search_frame pmm_bitmap_reset = 1"
    by (simp_all add: counted_def pmm_bitmap_reset_def)
qed

text \<open>The entries of the memory map that are there.\<close>

definition map_entries :: "limine_memmap_response \<Rightarrow> memory_map_entry set" where
  "map_entries response = {e. \<exists>i<memory_map_entry_count response. memory_map_get_entry response i = Some e}"

lemma pmm_init_result:
  "free_frames (pmm_init response) =
     {f. f \<noteq> 0 \<and> f < PMM_MAX_FRAMES \<and> (\<exists>e\<in>map_entries response. frame_usable e f)} \<and> pmm_ok (pmm_init response)"
proof -
  let ?step = "\<lambda>p index. case memory_map_get_entry response index of None \<Rightarrow> p
      | Some entry \<Rightarrow> if mm_type entry = MEMORY_MAP_USABLE then pmm_release_usable_region p entry else p"
  have "counted (foldl ?step pmm_bitmap_reset [0..<n]) \<and> next_search_frame (foldl ?step pmm_bitmap_reset [0..<n]) = 1 \<and>
    free_frames (foldl ?step pmm_bitmap_reset [0..<n]) =
      {f. f < 0x100000 \<and> (\<exists>i<n. \<exists>e. memory_map_get_entry response i = Some e \<and> frame_usable e f)}" for n
  proof (induction n)
    case 0
    then show ?case by (simp add: reset_facts)
  next
    case (Suc n)
    let ?p = "foldl ?step pmm_bitmap_reset [0..<n]"
    have st: "foldl ?step pmm_bitmap_reset [0..<Suc n] = ?step ?p n" by simp
    show ?case
    proof (cases "\<exists>e. memory_map_get_entry response n = Some e \<and> mm_type e = MEMORY_MAP_USABLE")
      case True
      then obtain e where e: "memory_map_get_entry response n = Some e" "mm_type e = MEMORY_MAP_USABLE" by blast
      note r = release_region [OF conjunct1 [OF Suc] e(2)]
      show ?thesis unfolding st using e r Suc by (auto simp: less_Suc_eq)
    next
      case False
      then have "?step ?p n = ?p" by (auto split: option.splits)
      moreover have "\<not> (\<exists>e. memory_map_get_entry response n = Some e \<and> frame_usable e f)" for f
        using False by (auto simp: frame_usable_def)
      ultimately show ?thesis unfolding st using Suc by (auto simp: less_Suc_eq)
    qed
  qed
  note fold = this [of "memory_map_entry_count response"]
  let ?q = "foldl ?step pmm_bitmap_reset [0..<memory_map_entry_count response]"
  have len: "length (frame_bitmap ?q) = 0x20000" using fold by (simp add: counted_def)
  have init: "pmm_init response = pmm_mark_frame_used ?q 0" by (simp add: pmm_init_def)
  show ?thesis
    unfolding init using mark_used_free_frames [OF len, of 0] counted_used [of ?q 0] fold
    by (auto simp: pmm_ok_def counted_def map_entries_def)
qed

text \<open>
  C16: \<open>pmm_init\<close> frees exactly the usable frames. Whatever the memory map says - entries may
  overlap, be missing, reach past the supported 4 GiB or end there - a frame is free after
  initialisation if and only if it is not frame 0, lies below the limit and is covered whole by
  a single usable entry; the counter is exact and the allocator invariant holds.
\<close>

theorem pmm_init_exact:
  "free_frames (pmm_init response) =
     {f. f \<noteq> 0 \<and> f < PMM_MAX_FRAMES \<and> (\<exists>e\<in>map_entries response. frame_usable e f)} \<and> pmm_ok (pmm_init response)"
  by (rule pmm_init_result)

definition sample_map :: limine_memmap_response where
  "sample_map = Some [Some \<lparr>mm_base = 0x1000, mm_length = 0x2800, mm_type = 0\<rparr>, None,
     Some \<lparr>mm_base = 0x2000, mm_length = 0x4000, mm_type = 1\<rparr>]"

lemma sample_map_ok: "pmm_ok (pmm_init sample_map)" "1 \<in> free_frames (pmm_init sample_map)"
proof -
  have "\<lparr>mm_base = 0x1000, mm_length = 0x2800, mm_type = 0\<rparr> \<in> map_entries sample_map"
    unfolding map_entries_def by (auto intro!: exI [of _ 0] simp: memory_map_entry_count_def memory_map_get_entry_def sample_map_def)
  moreover have "frame_usable \<lparr>mm_base = 0x1000, mm_length = 0x2800, mm_type = 0\<rparr> 1"
    by (simp add: frame_usable_def MEMORY_MAP_USABLE_def)
  ultimately have "\<exists>e\<in>map_entries sample_map. frame_usable e 1" by blast
  then show "pmm_ok (pmm_init sample_map)" "1 \<in> free_frames (pmm_init sample_map)"
    using pmm_init_result [of sample_map] by auto
qed

theorem pmm_alloc_free_exact_witness:
  "pmm_ok (pmm_init sample_map) \<and> snd (pmm_alloc_frame (pmm_init sample_map)) \<noteq> 0 \<and>
   snd (pmm_alloc_frame (pmm_init sample_map)) mod 4096 = 0"
proof -
  have "pmm_alloc_frame (pmm_init sample_map) = (fst (pmm_alloc_frame (pmm_init sample_map)), snd (pmm_alloc_frame (pmm_init sample_map)))"
    by simp
  from pmm_alloc_free_exact [OF sample_map_ok(1) this] sample_map_ok show ?thesis
    by (auto split: if_splits simp: word_unat_eq_iff unat_mod)
qed

end
