(* ===== verification/Memory_Layout.thy ===== *)
theory Memory_Layout
  imports Jani_Prelude
begin

text \<open>
  The fixed map of the kernel's address space, \<^verbatim>\<open>kernel/mm/layout.c\<close> and \<^verbatim>\<open>layout.h\<close>: a table of
  named regions to which the boot code appends the direct map of physical memory. The static
  table and its counter are a record.
\<close>

definition MEMORY_LAYOUT_OBJECT_SPACE_BASE :: u64 where "MEMORY_LAYOUT_OBJECT_SPACE_BASE = 0xFFFF900000000000"
definition MEMORY_LAYOUT_OBJECT_SPACE_SIZE :: u64 where "MEMORY_LAYOUT_OBJECT_SPACE_SIZE = 0x0000400000000000"
definition MEMORY_LAYOUT_HEAP_BASE :: u64 where "MEMORY_LAYOUT_HEAP_BASE = 0xFFFFD00000000000"
definition MEMORY_LAYOUT_HEAP_SIZE :: u64 where "MEMORY_LAYOUT_HEAP_SIZE = 0x0000008000000000"
definition MEMORY_LAYOUT_MMIO_BASE :: u64 where "MEMORY_LAYOUT_MMIO_BASE = 0xFFFFD08000000000"
definition MEMORY_LAYOUT_MMIO_SIZE :: u64 where "MEMORY_LAYOUT_MMIO_SIZE = 0x0000008000000000"
definition MEMORY_LAYOUT_KERNEL_IMAGE_BASE :: u64 where "MEMORY_LAYOUT_KERNEL_IMAGE_BASE = 0xFFFFFFFF80000000"
definition MEMORY_LAYOUT_KERNEL_IMAGE_SIZE :: u64 where "MEMORY_LAYOUT_KERNEL_IMAGE_SIZE = 0x0000000080000000"

lemmas layout_constants =
  MEMORY_LAYOUT_OBJECT_SPACE_BASE_def MEMORY_LAYOUT_OBJECT_SPACE_SIZE_def MEMORY_LAYOUT_HEAP_BASE_def
  MEMORY_LAYOUT_HEAP_SIZE_def MEMORY_LAYOUT_MMIO_BASE_def MEMORY_LAYOUT_MMIO_SIZE_def
  MEMORY_LAYOUT_KERNEL_IMAGE_BASE_def MEMORY_LAYOUT_KERNEL_IMAGE_SIZE_def

abbreviation MEMORY_LAYOUT_MAX_REGIONS :: nat where "MEMORY_LAYOUT_MAX_REGIONS \<equiv> 8"

record memory_layout_region =
  region_base :: u64
  region_size :: u64
  region_name :: string

record memory_layout =
  regions :: "memory_layout_region list"
  region_count :: nat

definition initial_layout :: memory_layout where
  "initial_layout = \<lparr>regions =
     [\<lparr>region_base = MEMORY_LAYOUT_OBJECT_SPACE_BASE, region_size = MEMORY_LAYOUT_OBJECT_SPACE_SIZE, region_name = ''object space''\<rparr>,
      \<lparr>region_base = MEMORY_LAYOUT_HEAP_BASE, region_size = MEMORY_LAYOUT_HEAP_SIZE, region_name = ''kernel heap''\<rparr>,
      \<lparr>region_base = MEMORY_LAYOUT_MMIO_BASE, region_size = MEMORY_LAYOUT_MMIO_SIZE, region_name = ''device mmio''\<rparr>,
      \<lparr>region_base = MEMORY_LAYOUT_KERNEL_IMAGE_BASE, region_size = MEMORY_LAYOUT_KERNEL_IMAGE_SIZE, region_name = ''kernel image''\<rparr>] @
     replicate 4 \<lparr>region_base = 0, region_size = 0, region_name = ''''\<rparr>, region_count = 4\<rparr>"

definition memory_layout_register_hhdm :: "memory_layout \<Rightarrow> u64 \<Rightarrow> u64 \<Rightarrow> memory_layout" where
  "memory_layout_register_hhdm l base sz =
     (if region_count l \<ge> MEMORY_LAYOUT_MAX_REGIONS then l
      else l\<lparr>regions := (regions l)[region_count l := \<lparr>region_base = base, region_size = sz, region_name = ''hhdm''\<rparr>],
             region_count := region_count l + 1\<rparr>)"

definition memory_layout_region_name :: "memory_layout \<Rightarrow> u64 \<Rightarrow> string" where
  "memory_layout_region_name l address =
     (case List.find (\<lambda>i. address - region_base (regions l ! i) < region_size (regions l ! i)) [0..<region_count l] of
        Some i \<Rightarrow> region_name (regions l ! i)
      | None \<Rightarrow> ''outside every known region'')"

text \<open>The wrapping comparison of the code is membership in the region, wherever it lies.\<close>

lemma region_member:
  assumes "unat base + unat sz \<le> 2 ^ 64"
  shows "(address - base < (sz :: u64)) \<longleftrightarrow> unat base \<le> unat address \<and> unat address < unat base + unat sz"
proof (cases "base \<le> address")
  case True
  then show ?thesis by (simp add: word_less_nat_alt word_le_nat_alt unat_sub) arith
next
  case False
  then have lt: "unat address < unat base" by (simp add: word_le_nat_alt)
  then have "unat (address - base) = 2 ^ 64 + unat address - unat base"
    using unat64_less [of base] by (simp add: unat_sub_if_size word_size)
  then show ?thesis using lt assms by (auto simp: word_less_nat_alt)
qed

end
