(* ===== verification/Virtual_Memory.thy ===== *)
theory Virtual_Memory
  imports Frame_Allocator Memory_Layout
begin

text \<open>
  The page tables, \<^verbatim>\<open>kernel/mm/vmm.c\<close>, and their two users: \<^verbatim>\<open>kernel/mm/heap_backend.c\<close>, which
  gives pages to the kernel heap, and \<^verbatim>\<open>kernel/mm/mmio.c\<close>, which maps device registers. The
  static variables of \<^verbatim>\<open>vmm.c\<close> are a record, next to the frame allocator and the layout it calls.
  The memory reached through the direct map is a function from addresses to the 64-bit words
  there; a pointer to a page table or to an entry is such an address and 0 is the null pointer.
  \<open>invalidate_page\<close> only discards cached translations and \<open>printk\<close> only prints.
\<close>

record vmm =
  hhdm_offset :: u64
  root_page_table_physical :: u64
  root_page_table :: u64
  vmm_ready :: bool
  direct_map :: "u64 \<Rightarrow> u64"
  frames_of :: pmm
  layout_of :: memory_layout

definition VMM_PAGE_PRESENT :: u64 where "VMM_PAGE_PRESENT = push_bit 0 1"
definition VMM_PAGE_WRITABLE :: u64 where "VMM_PAGE_WRITABLE = push_bit 1 1"
definition VMM_PAGE_USER :: u64 where "VMM_PAGE_USER = push_bit 2 1"
definition VMM_PAGE_WRITE_THROUGH :: u64 where "VMM_PAGE_WRITE_THROUGH = push_bit 3 1"
definition VMM_PAGE_CACHE_DISABLE :: u64 where "VMM_PAGE_CACHE_DISABLE = push_bit 4 1"
definition VMM_PAGE_NO_EXECUTE :: u64 where "VMM_PAGE_NO_EXECUTE = push_bit 63 1"
definition PAGE_TABLE_INDEX_MASK :: u64 where "PAGE_TABLE_INDEX_MASK = 0x1FF"
definition PAGE_ADDRESS_MASK :: u64 where "PAGE_ADDRESS_MASK = 0x000FFFFFFFFFF000"
definition PAGE_OFFSET_MASK :: u64 where "PAGE_OFFSET_MASK = 0xFFF"
definition PAGE_ENTRY_HUGE :: u64 where "PAGE_ENTRY_HUGE = push_bit 7 1"

lemmas vmm_constants =
  VMM_PAGE_PRESENT_def VMM_PAGE_WRITABLE_def VMM_PAGE_USER_def VMM_PAGE_WRITE_THROUGH_def VMM_PAGE_CACHE_DISABLE_def
  VMM_PAGE_NO_EXECUTE_def PAGE_TABLE_INDEX_MASK_def PAGE_ADDRESS_MASK_def PAGE_OFFSET_MASK_def PAGE_ENTRY_HUGE_def

definition pml4_index :: "u64 \<Rightarrow> u64" where "pml4_index address = drop_bit 39 address AND PAGE_TABLE_INDEX_MASK"
definition pdpt_index :: "u64 \<Rightarrow> u64" where "pdpt_index address = drop_bit 30 address AND PAGE_TABLE_INDEX_MASK"
definition pd_index :: "u64 \<Rightarrow> u64" where "pd_index address = drop_bit 21 address AND PAGE_TABLE_INDEX_MASK"
definition pt_index :: "u64 \<Rightarrow> u64" where "pt_index address = drop_bit 12 address AND PAGE_TABLE_INDEX_MASK"

definition address_is_canonical :: "u64 \<Rightarrow> bool" where
  "address_is_canonical address =
     (let upper_bits = drop_bit 48 address; sign_bit = drop_bit 47 address AND 1 in
      if sign_bit \<noteq> 0 then upper_bits = 0xFFFF else upper_bits = 0)"

text \<open>\<open>response\<close> is the offset in the answer of the boot loader, if there is one, and \<open>cr3\<close> the register.\<close>

definition vmm_init :: "u64 option \<Rightarrow> u64 \<Rightarrow> vmm \<Rightarrow> vmm" where
  "vmm_init response cr3 vm =
     (case response of
        None \<Rightarrow> vm
      | Some offset \<Rightarrow>
          let root = cr3 AND PAGE_ADDRESS_MASK in
          vm\<lparr>hhdm_offset := offset, root_page_table_physical := root, root_page_table := offset + root, vmm_ready := True,
             layout_of := memory_layout_register_hhdm (layout_of vm) offset PMM_MAX_PHYSICAL_MEMORY\<rparr>)"

definition vmm_physical_to_virtual :: "vmm \<Rightarrow> u64 \<Rightarrow> u64" where
  "vmm_physical_to_virtual vm physical_address =
     (if \<not> vmm_ready vm then 0 else hhdm_offset vm + physical_address)"

definition store_word :: "vmm \<Rightarrow> u64 \<Rightarrow> u64 \<Rightarrow> vmm" where
  "store_word vm a w = vm\<lparr>direct_map := (direct_map vm)(a := w)\<rparr>"

text \<open>\<open>memset\<close> of a whole page to zero.\<close>

definition clear_page :: "vmm \<Rightarrow> u64 \<Rightarrow> vmm" where
  "clear_page vm p = vm\<lparr>direct_map := (\<lambda>a. if a - p < PMM_FRAME_SIZE then 0 else direct_map vm a)\<rparr>"

definition table_from_entry :: "vmm \<Rightarrow> u64 \<Rightarrow> u64" where
  "table_from_entry vm entry =
     (if entry AND VMM_PAGE_PRESENT = 0 \<or> entry AND PAGE_ENTRY_HUGE \<noteq> 0 then 0
      else vmm_physical_to_virtual vm (entry AND PAGE_ADDRESS_MASK))"

definition get_or_create_table :: "vmm \<Rightarrow> u64 \<Rightarrow> u64 \<Rightarrow> vmm \<times> u64" where
  "get_or_create_table vm entry flags =
     (let table_flags = VMM_PAGE_PRESENT OR VMM_PAGE_WRITABLE OR (if flags AND VMM_PAGE_USER \<noteq> 0 then VMM_PAGE_USER else 0) in
      if direct_map vm entry AND VMM_PAGE_PRESENT \<noteq> 0 then
        (if direct_map vm entry AND PAGE_ENTRY_HUGE \<noteq> 0 then (vm, 0)
         else let vm1 = store_word vm entry (direct_map vm entry OR table_flags) in
           (vm1, table_from_entry vm1 (direct_map vm1 entry)))
      else case pmm_alloc_frame (frames_of vm) of
        (p, physical_address) \<Rightarrow>
          let vm1 = vm\<lparr>frames_of := p\<rparr> in
          if physical_address = 0 then (vm1, 0)
          else let table = vmm_physical_to_virtual vm1 physical_address in
            if table = 0 then (vm1\<lparr>frames_of := pmm_free_frame p physical_address\<rparr>, 0)
            else (store_word (clear_page vm1 table) entry (physical_address OR table_flags), table))"

definition next_table :: "vmm \<Rightarrow> bool \<Rightarrow> u64 \<Rightarrow> u64 \<Rightarrow> vmm \<times> u64" where
  "next_table vm create entry flags =
     (if create then get_or_create_table vm entry flags else (vm, table_from_entry vm (direct_map vm entry)))"

definition entry_address :: "u64 \<Rightarrow> u64 \<Rightarrow> u64" where
  "entry_address table index = table + 8 * index"

definition find_leaf_entry :: "vmm \<Rightarrow> u64 \<Rightarrow> bool \<Rightarrow> u64 \<Rightarrow> vmm \<times> u64" where
  "find_leaf_entry vm virtual_address create flags =
     (if \<not> vmm_ready vm \<or> \<not> address_is_canonical virtual_address then (vm, 0)
      else case next_table vm create (entry_address (root_page_table vm) (pml4_index virtual_address)) flags of
        (vm1, pdpt) \<Rightarrow>
          if pdpt = 0 then (vm1, 0)
          else case next_table vm1 create (entry_address pdpt (pdpt_index virtual_address)) flags of
            (vm2, pd) \<Rightarrow>
              if pd = 0 then (vm2, 0)
              else case next_table vm2 create (entry_address pd (pd_index virtual_address)) flags of
                (vm3, pt) \<Rightarrow>
                  if pt = 0 then (vm3, 0) else (vm3, entry_address pt (pt_index virtual_address)))"

definition leaf_flags :: "u64 \<Rightarrow> u64" where
  "leaf_flags flags = flags AND (VMM_PAGE_WRITABLE OR VMM_PAGE_USER OR VMM_PAGE_WRITE_THROUGH OR
     VMM_PAGE_CACHE_DISABLE OR VMM_PAGE_NO_EXECUTE)"

definition vmm_map_page :: "vmm \<Rightarrow> u64 \<Rightarrow> u64 \<Rightarrow> u64 \<Rightarrow> vmm \<times> bool" where
  "vmm_map_page vm virtual_address physical_address flags =
     (if virtual_address AND PAGE_OFFSET_MASK \<noteq> 0 \<or> physical_address AND PAGE_OFFSET_MASK \<noteq> 0 \<or>
         physical_address AND NOT PAGE_ADDRESS_MASK \<noteq> 0 \<or>
         flags AND VMM_PAGE_WRITABLE \<noteq> 0 \<and> flags AND VMM_PAGE_NO_EXECUTE = 0
      then (vm, False)
      else case find_leaf_entry vm virtual_address True flags of
        (vm1, leaf_entry) \<Rightarrow>
          if leaf_entry = 0 \<or> direct_map vm1 leaf_entry AND VMM_PAGE_PRESENT \<noteq> 0 then (vm1, False)
          else (store_word vm1 leaf_entry (physical_address OR VMM_PAGE_PRESENT OR leaf_flags flags), True))"

definition vmm_virtual_to_physical :: "vmm \<Rightarrow> u64 \<Rightarrow> u64" where
  "vmm_virtual_to_physical vm virtual_address =
     (let leaf_entry = snd (find_leaf_entry vm virtual_address False 0) in
      if leaf_entry = 0 \<or> direct_map vm leaf_entry AND VMM_PAGE_PRESENT = 0 then 0
      else (direct_map vm leaf_entry AND PAGE_ADDRESS_MASK) OR (virtual_address AND PAGE_OFFSET_MASK))"

definition vmm_unmap_page :: "vmm \<Rightarrow> u64 \<Rightarrow> vmm \<times> u64" where
  "vmm_unmap_page vm virtual_address =
     (if virtual_address AND PAGE_OFFSET_MASK \<noteq> 0 then (vm, 0)
      else let leaf_entry = snd (find_leaf_entry vm virtual_address False 0) in
        if leaf_entry = 0 \<or> direct_map vm leaf_entry AND VMM_PAGE_PRESENT = 0 then (vm, 0)
        else (store_word vm leaf_entry 0, direct_map vm leaf_entry AND PAGE_ADDRESS_MASK))"

text \<open>
  The boot-time self test. \<open>test_word\<close> is where the processor's own walk of the tables puts the
  test address, seen through the direct map.
\<close>

definition VMM_TEST_VIRTUAL_ADDRESS :: u64 where "VMM_TEST_VIRTUAL_ADDRESS = MEMORY_LAYOUT_OBJECT_SPACE_BASE"
definition VMM_TEST_VALUE :: u64 where "VMM_TEST_VALUE = 0x4A414E49"

definition test_word :: "vmm \<Rightarrow> u64" where
  "test_word vm = hhdm_offset vm + vmm_virtual_to_physical vm VMM_TEST_VIRTUAL_ADDRESS"

definition release_frame :: "vmm \<Rightarrow> u64 \<Rightarrow> vmm" where
  "release_frame vm a = vm\<lparr>frames_of := pmm_free_frame (frames_of vm) a\<rparr>"

definition release_test_page :: "vmm \<Rightarrow> vmm" where
  "release_test_page vm =
     (case vmm_unmap_page vm VMM_TEST_VIRTUAL_ADDRESS of (vm1, unmapped) \<Rightarrow> if unmapped \<noteq> 0 then release_frame vm1 unmapped else vm1)"

definition vmm_self_test :: "vmm \<Rightarrow> vmm \<times> bool" where
  "vmm_self_test vm =
     (case pmm_alloc_frame (frames_of vm) of
        (p, physical_address) \<Rightarrow>
          let vm1 = vm\<lparr>frames_of := p\<rparr> in
          if physical_address = 0 then (vm1, False)
          else case vmm_map_page vm1 VMM_TEST_VIRTUAL_ADDRESS physical_address VMM_PAGE_WRITABLE of
            (vm2, True) \<Rightarrow> (release_test_page vm2, False)
          | (vm2, False) \<Rightarrow>
              (case vmm_map_page vm2 VMM_TEST_VIRTUAL_ADDRESS physical_address (VMM_PAGE_WRITABLE OR VMM_PAGE_NO_EXECUTE) of
                 (vm3, False) \<Rightarrow> (release_frame vm3 physical_address, False)
               | (vm3, True) \<Rightarrow>
                   let vm4 = store_word vm3 (test_word vm3) VMM_TEST_VALUE in
                   if direct_map vm4 (test_word vm4) \<noteq> VMM_TEST_VALUE \<or>
                      vmm_virtual_to_physical vm4 VMM_TEST_VIRTUAL_ADDRESS \<noteq> physical_address
                   then (release_test_page vm4, False)
                   else case vmm_unmap_page vm4 VMM_TEST_VIRTUAL_ADDRESS of
                     (vm5, unmapped) \<Rightarrow>
                       if unmapped \<noteq> physical_address then (vm5, False) else (release_frame vm5 physical_address, True)))"

section \<open>Users of the page tables\<close>

definition heap_backend_map_page :: "vmm \<Rightarrow> u64 \<Rightarrow> vmm \<times> bool" where
  "heap_backend_map_page vm virtual_address =
     (case pmm_alloc_frame (frames_of vm) of
        (p, frame) \<Rightarrow>
          let vm1 = vm\<lparr>frames_of := p\<rparr> in
          if frame = 0 then (vm1, False)
          else case vmm_map_page vm1 virtual_address frame (VMM_PAGE_WRITABLE OR VMM_PAGE_NO_EXECUTE) of
            (vm2, False) \<Rightarrow> (vm2\<lparr>frames_of := pmm_free_frame (frames_of vm2) frame\<rparr>, False)
          | (vm2, True) \<Rightarrow> (vm2, True))"

definition MMIO_PAGE_SIZE :: u64 where "MMIO_PAGE_SIZE = 4096"

fun mmio_unmap_loop :: "vmm \<Rightarrow> u64 \<Rightarrow> nat \<Rightarrow> vmm" where
  "mmio_unmap_loop vm virtual_base 0 = vm"
| "mmio_unmap_loop vm virtual_base (Suc index) =
     mmio_unmap_loop (fst (vmm_unmap_page vm (virtual_base + of_nat index * MMIO_PAGE_SIZE))) virtual_base index"

text \<open>The loop over the pages from \<open>index\<close> on, \<open>n\<close> of them still to map.\<close>

fun mmio_map_loop :: "vmm \<Rightarrow> u64 \<Rightarrow> u64 \<Rightarrow> nat \<Rightarrow> nat \<Rightarrow> vmm \<times> bool" where
  "mmio_map_loop vm virtual_base first_physical index 0 = (vm, True)"
| "mmio_map_loop vm virtual_base first_physical index (Suc n) =
     (case vmm_map_page vm (virtual_base + of_nat index * MMIO_PAGE_SIZE) (first_physical + of_nat index * MMIO_PAGE_SIZE)
             (VMM_PAGE_WRITABLE OR VMM_PAGE_CACHE_DISABLE OR VMM_PAGE_NO_EXECUTE) of
        (vm1, False) \<Rightarrow> (mmio_unmap_loop vm1 virtual_base index, False)
      | (vm1, True) \<Rightarrow> mmio_map_loop vm1 virtual_base first_physical (index + 1) n)"

text \<open>The static variable \<open>mmio_next_virtual\<close> is passed and returned; a failed call returns 0.\<close>

definition mmio_map :: "vmm \<Rightarrow> u64 \<Rightarrow> u64 \<Rightarrow> u64 \<Rightarrow> vmm \<times> u64 \<times> u64" where
  "mmio_map vm mmio_next_virtual physical_address len =
     (if len = 0 then (vm, mmio_next_virtual, 0)
      else let page_offset = physical_address AND (MMIO_PAGE_SIZE - 1);
               first_physical = physical_address - page_offset in
        if len > UINT64_MAX - page_offset - (MMIO_PAGE_SIZE - 1) then (vm, mmio_next_virtual, 0)
        else let page_count = (page_offset + len + (MMIO_PAGE_SIZE - 1)) div MMIO_PAGE_SIZE;
                 span = page_count * MMIO_PAGE_SIZE in
          if span > MEMORY_LAYOUT_MMIO_SIZE then (vm, mmio_next_virtual, 0)
          else if mmio_next_virtual - MEMORY_LAYOUT_MMIO_BASE > MEMORY_LAYOUT_MMIO_SIZE - span then (vm, mmio_next_virtual, 0)
          else case mmio_map_loop vm mmio_next_virtual first_physical 0 (unat page_count) of
            (vm1, False) \<Rightarrow> (vm1, mmio_next_virtual, 0)
          | (vm1, True) \<Rightarrow> (vm1, mmio_next_virtual + span, mmio_next_virtual + page_offset))"

section \<open>Walking the tables\<close>

text \<open>
  The table reached from table \<open>t\<close> by a list of indices. A path of up to three indices leads from
  the root to a table; four indices name the entry of a page.
\<close>

fun walk :: "vmm \<Rightarrow> u64 \<Rightarrow> u64 list \<Rightarrow> u64 option" where
  "walk vm t [] = Some t"
| "walk vm t (i # is) =
     (let t' = table_from_entry vm (direct_map vm (entry_address t i)) in if t' = 0 then None else walk vm t' is)"

abbreviation table_at :: "vmm \<Rightarrow> u64 list \<Rightarrow> u64 option" where
  "table_at vm p \<equiv> walk vm (root_page_table vm) p"

definition path_ok :: "u64 list \<Rightarrow> bool" where
  "path_ok p \<longleftrightarrow> length p \<le> 3 \<and> (\<forall>i\<in>set p. i < 512)"

definition leaf_entry_at :: "vmm \<Rightarrow> u64 list \<Rightarrow> u64 \<Rightarrow> u64" where
  "leaf_entry_at vm p i = (case table_at vm p of None \<Rightarrow> 0 | Some t \<Rightarrow> direct_map vm (entry_address t i))"

text \<open>
  The page tables are in order: the direct map reaches the memory of the frame allocator, every
  table lies in a frame of its own and none of them is a frame the allocator may hand out.
\<close>

definition vmm_ok :: "vmm \<Rightarrow> bool" where
  "vmm_ok vm \<longleftrightarrow> vmm_ready vm \<and> pmm_ok (frames_of vm) \<and>
     unat (hhdm_offset vm) mod 4096 = 0 \<and> hhdm_offset vm \<noteq> 0 \<and> unat (hhdm_offset vm) + 2 ^ 32 \<le> 2 ^ 64 \<and>
     root_page_table vm \<noteq> 0 \<and> unat (root_page_table vm - hhdm_offset vm) mod 4096 = 0 \<and>
     (\<forall>p t. path_ok p \<longrightarrow> table_at vm p = Some t \<longrightarrow> (t - hhdm_offset vm) div 4096 \<notin> free_frames (frames_of vm)) \<and>
     (\<forall>p q t. path_ok p \<longrightarrow> path_ok q \<longrightarrow> table_at vm p = Some t \<longrightarrow> table_at vm q = Some t \<longrightarrow> p = q)"

lemma path_ok_append [simp]: "path_ok (p @ [i]) \<longleftrightarrow> path_ok p \<and> length p \<le> 2 \<and> i < 512"
  by (auto simp: path_ok_def)

lemma path_ok_Nil [simp]: "path_ok []"
  by (simp add: path_ok_def)

lemma walk_append:
  "walk vm t (p @ q) = (case walk vm t p of None \<Rightarrow> None | Some s \<Rightarrow> walk vm s q)"
  by (induction p arbitrary: t) (auto simp: Let_def)

lemma walk_snoc:
  "walk vm t (p @ [i]) = (case walk vm t p of None \<Rightarrow> None
     | Some s \<Rightarrow> let t' = table_from_entry vm (direct_map vm (entry_address s i)) in if t' = 0 then None else Some t')"
  by (simp add: walk_append Let_def split: option.split)

lemma store_word_fields [simp]:
  "hhdm_offset (store_word vm a w) = hhdm_offset vm" "root_page_table (store_word vm a w) = root_page_table vm"
  "vmm_ready (store_word vm a w) = vmm_ready vm" "frames_of (store_word vm a w) = frames_of vm"
  "direct_map (store_word vm a w) x = (if x = a then w else direct_map vm x)"
  "hhdm_offset (clear_page vm a) = hhdm_offset vm" "root_page_table (clear_page vm a) = root_page_table vm"
  "vmm_ready (clear_page vm a) = vmm_ready vm" "frames_of (clear_page vm a) = frames_of vm"
  "direct_map (clear_page vm a) x = (if x - a < 4096 then 0 else direct_map vm x)"
  by (simp_all add: store_word_def clear_page_def PMM_FRAME_SIZE_def)

lemma table_from_entry_cong:
  "hhdm_offset vm' = hhdm_offset vm \<Longrightarrow> vmm_ready vm' = vmm_ready vm \<Longrightarrow> table_from_entry vm' e = table_from_entry vm e"
  by (simp add: table_from_entry_def vmm_physical_to_virtual_def)

lemma table_from_entry_store [simp]:
  "table_from_entry (store_word vm a w) e = table_from_entry vm e" "table_from_entry (clear_page vm a) e = table_from_entry vm e"
  "table_from_entry (vm\<lparr>frames_of := p\<rparr>) e = table_from_entry vm e"
  by (rule table_from_entry_cong; simp)+

lemma walk_frames [simp]: "walk (vm\<lparr>frames_of := p\<rparr>) t q = walk vm t q"
  by (induction q arbitrary: t) (simp_all add: Let_def)

section \<open>Where tables lie\<close>

lemma masks:
  "PAGE_ADDRESS_MASK = mask 52 AND NOT (mask 12)" "PAGE_OFFSET_MASK = mask 12" "PAGE_TABLE_INDEX_MASK = mask 9"
  by (simp_all add: PAGE_ADDRESS_MASK_def PAGE_OFFSET_MASK_def PAGE_TABLE_INDEX_MASK_def mask_eq_exp_minus_1)

lemma bit_masks:
  "bit PAGE_ADDRESS_MASK n \<longleftrightarrow> 12 \<le> n \<and> n < 52" "bit PAGE_OFFSET_MASK n \<longleftrightarrow> n < 12" "bit PAGE_TABLE_INDEX_MASK n \<longleftrightarrow> n < 9"
  "bit VMM_PAGE_PRESENT n \<longleftrightarrow> n = 0" "bit VMM_PAGE_WRITABLE n \<longleftrightarrow> n = 1" "bit VMM_PAGE_USER n \<longleftrightarrow> n = 2"
  "bit VMM_PAGE_WRITE_THROUGH n \<longleftrightarrow> n = 3" "bit VMM_PAGE_CACHE_DISABLE n \<longleftrightarrow> n = 4" "bit VMM_PAGE_NO_EXECUTE n \<longleftrightarrow> n = 63"
  "bit PAGE_ENTRY_HUGE n \<longleftrightarrow> n = 7"
proof -
  show "bit PAGE_ADDRESS_MASK n \<longleftrightarrow> 12 \<le> n \<and> n < 52" "bit PAGE_OFFSET_MASK n \<longleftrightarrow> n < 12" "bit PAGE_TABLE_INDEX_MASK n \<longleftrightarrow> n < 9"
    unfolding masks by (auto simp: bit_and_iff bit_not_iff bit_mask_iff)
  have one: "bit (push_bit k (1 :: u64)) n \<longleftrightarrow> n = k \<and> k < 64" for k
    by (simp only: bit_push_bit_iff bit_1_iff possible_bit_def) auto
  show "bit VMM_PAGE_PRESENT n \<longleftrightarrow> n = 0" "bit VMM_PAGE_WRITABLE n \<longleftrightarrow> n = 1" "bit VMM_PAGE_USER n \<longleftrightarrow> n = 2"
    "bit VMM_PAGE_WRITE_THROUGH n \<longleftrightarrow> n = 3" "bit VMM_PAGE_CACHE_DISABLE n \<longleftrightarrow> n = 4" "bit VMM_PAGE_NO_EXECUTE n \<longleftrightarrow> n = 63"
    "bit PAGE_ENTRY_HUGE n \<longleftrightarrow> n = 7"
    unfolding vmm_constants one by simp_all
qed

text \<open>A test against a single bit.\<close>

lemma and_bit_eq_0:
  assumes "\<And>n. bit m n \<longleftrightarrow> n = k"
  shows "(e AND m = (0 :: u64)) \<longleftrightarrow> \<not> bit e k"
proof
  assume "e AND m = 0"
  then have "\<not> bit (e AND m) k" by simp
  then show "\<not> bit e k" using assms by (simp add: bit_and_iff)
next
  assume "\<not> bit e k"
  then show "e AND m = 0" using assms by (intro bit_eqI) (auto simp: bit_and_iff)
qed

lemmas flag_tests = bit_masks(4-10) [THEN and_bit_eq_0]

lemma address_mask_aligned: "unat (e AND PAGE_ADDRESS_MASK) mod 4096 = 0"
proof -
  have "e AND PAGE_ADDRESS_MASK = (e AND mask 52) AND NOT (mask 12)" by (simp add: masks and.assoc)
  then show ?thesis using unat_round_down [of 12 "e AND mask 52"] by simp
qed

definition aligned :: "u64 \<Rightarrow> bool" where
  "aligned t \<longleftrightarrow> unat t mod 4096 = 0"

lemma alignedE:
  assumes "aligned t"
  obtains k where "unat t = 4096 * k"
  using assms that [of "unat t div 4096"] by (simp add: aligned_def mod_eq_0_iff_dvd)

lemma aligned_bound:
  assumes "aligned t"
  shows "unat t + 4096 \<le> 2 ^ 64"
proof -
  obtain k where k: "unat t = 4096 * k" by (rule alignedE [OF assms])
  then have "k < 2 ^ 52" using unat64_less [of t] by simp
  then show ?thesis using k by simp
qed

lemma aligned_add: "aligned a \<Longrightarrow> aligned b \<Longrightarrow> aligned (a + b)"
proof -
  assume "aligned a" "aligned b"
  then have "4096 dvd unat a + unat b" by (simp add: aligned_def mod_eq_0_iff_dvd)
  then have "4096 dvd (unat a + unat b) mod 2 ^ 64" by (rule dvd_mod) simp
  then show ?thesis by (simp add: aligned_def unat_word_ariths mod_eq_0_iff_dvd)
qed

lemma aligned_diff: "aligned a \<Longrightarrow> aligned b \<Longrightarrow> aligned (a - b)"
proof -
  assume "aligned a" "aligned b"
  then have d: "4096 dvd unat a" "4096 dvd unat b" by (simp_all add: aligned_def mod_eq_0_iff_dvd)
  have "unat (a - b) = (if unat b \<le> unat a then unat a - unat b else unat a + 2 ^ 64 - unat b)"
    by (simp add: unat_sub_if_size word_size)
  moreover have "4096 dvd unat a - unat b" "4096 dvd (unat a + 2 ^ 64) - unat b" using d by (auto intro!: dvd_diff_nat dvd_add)
  ultimately show ?thesis by (simp add: aligned_def mod_eq_0_iff_dvd)
qed

lemma unat_entry_address:
  assumes "aligned t" "i < 512"
  shows "unat (entry_address t i) = unat t + 8 * unat i"
proof -
  have "unat i < 512" using assms(2) by (simp add: word_less_nat_alt)
  then show ?thesis using aligned_bound [OF assms(1)] by (simp add: entry_address_def unat_word_ariths)
qed

lemma entry_address_inj:
  assumes "aligned t" "aligned s" "i < 512" "j < 512" "entry_address t i = entry_address s j"
  shows "t = s \<and> i = j"
proof -
  have b: "unat i < 512" "unat j < 512" using assms(3,4) by (simp_all add: word_less_nat_alt)
  have e: "unat t + 8 * unat i = unat s + 8 * unat j"
    using unat_entry_address [OF assms(1,3)] unat_entry_address [OF assms(2,4)] assms(5) by simp
  obtain k where k: "unat t = 4096 * k" by (rule alignedE [OF assms(1)])
  obtain l where l: "unat s = 4096 * l" by (rule alignedE [OF assms(2)])
  have "k = l" using e b k l by (cases k l rule: linorder_cases) linarith+
  then have "unat t = unat s" using k l by simp
  then show ?thesis using e by (simp add: word_unat_eq_iff)
qed

lemma entry_in_page:
  assumes "aligned t" "aligned s" "i < 512"
  shows "entry_address t i - s < 4096 \<longleftrightarrow> t = s"
proof -
  have b: "unat i < 512" using assms(3) by (simp add: word_less_nat_alt)
  obtain k where k: "unat t = 4096 * k" by (rule alignedE [OF assms(1)])
  obtain l where l: "unat s = 4096 * l" by (rule alignedE [OF assms(2)])
  have m: "entry_address t i - s < 4096 \<longleftrightarrow> 4096 * l \<le> 4096 * k + 8 * unat i \<and> 4096 * k + 8 * unat i < 4096 * l + 4096"
    using region_member [of s 4096] aligned_bound [OF assms(2)] unat_entry_address [OF assms(1,3)] k l by simp
  have "t = s" if "entry_address t i - s < 4096"
  proof -
    have "k = l" using that [unfolded m] b by (cases k l rule: linorder_cases) linarith+
    then show ?thesis using k l by (simp add: word_unat_eq_iff)
  qed
  moreover have "entry_address t i - s < 4096" if "t = s" unfolding m using that k l b by simp
  ultimately show ?thesis by blast
qed

lemma entry_address_nonnull: "aligned t \<Longrightarrow> t \<noteq> 0 \<Longrightarrow> i < 512 \<Longrightarrow> entry_address t i \<noteq> 0"
  using unat_entry_address [of t i] by (metis add_is_0 unat_0 unat_eq_zero)

lemma vmm_okD:
  assumes "vmm_ok vm"
  shows "vmm_ready vm" "pmm_ok (frames_of vm)" "aligned (hhdm_offset vm)" "hhdm_offset vm \<noteq> 0"
    "unat (hhdm_offset vm) + 2 ^ 32 \<le> 2 ^ 64" "root_page_table vm \<noteq> 0"
    "\<And>p t. path_ok p \<Longrightarrow> table_at vm p = Some t \<Longrightarrow> (t - hhdm_offset vm) div 4096 \<notin> free_frames (frames_of vm)"
    "\<And>p q t. path_ok p \<Longrightarrow> path_ok q \<Longrightarrow> table_at vm p = Some t \<Longrightarrow> table_at vm q = Some t \<Longrightarrow> p = q"
  using assms unfolding vmm_ok_def aligned_def by blast+

lemma table_aligned:
  assumes ok: "vmm_ok vm" and t: "table_at vm p = Some t"
  shows "aligned t" "t \<noteq> 0"
proof -
  have "aligned t \<and> t \<noteq> 0"
  proof (cases p rule: rev_cases)
    case Nil
    have "aligned (root_page_table vm - hhdm_offset vm)" using ok by (simp add: vmm_ok_def aligned_def)
    from aligned_add [OF this vmm_okD(3) [OF ok]] show ?thesis using Nil t vmm_okD(6) [OF ok] by simp
  next
    case (snoc q i)
    then obtain s where s: "t = table_from_entry vm (direct_map vm (entry_address s i))" "t \<noteq> 0"
      using t by (auto simp: walk_snoc Let_def split: option.splits if_splits)
    then have "t = hhdm_offset vm + (direct_map vm (entry_address s i) AND PAGE_ADDRESS_MASK)"
      by (auto simp: table_from_entry_def vmm_physical_to_virtual_def split: if_splits)
    then show ?thesis using aligned_add [OF vmm_okD(3) [OF ok]] address_mask_aligned s(2) by (simp add: aligned_def)
  qed
  then show "aligned t" "t \<noteq> 0" by auto
qed

text \<open>Two different tables share no entry.\<close>

lemma tables_apart:
  assumes ok: "vmm_ok vm" and p: "path_ok p" "table_at vm p = Some t" "i < 512" and q: "path_ok q" "table_at vm q = Some s" "j < 512"
    and ne: "p \<noteq> q \<or> i \<noteq> j"
  shows "entry_address t i \<noteq> entry_address s j"
proof
  assume "entry_address t i = entry_address s j"
  then have "t = s \<and> i = j" by (rule entry_address_inj [OF table_aligned(1) [OF ok p(2)] table_aligned(1) [OF ok q(2)] p(3) q(3)])
  then show False using ne vmm_okD(8) [OF ok p(1) q(1) p(2)] q(2) by metis
qed

section \<open>Adding a table\<close>

text \<open>What any number of new tables leaves as it was.\<close>

definition grown :: "vmm \<Rightarrow> vmm \<Rightarrow> bool" where
  "grown vm vm' \<longleftrightarrow> vmm_ok vm' \<and> hhdm_offset vm' = hhdm_offset vm \<and> root_page_table vm' = root_page_table vm \<and>
     free_frames (frames_of vm') \<subseteq> free_frames (frames_of vm) \<and>
     (\<forall>p t. path_ok p \<longrightarrow> table_at vm' p = Some t \<longrightarrow>
        table_at vm p = Some t \<or> (t - hhdm_offset vm) div 4096 \<in> free_frames (frames_of vm)) \<and>
     (\<forall>p t. path_ok p \<longrightarrow> table_at vm p = Some t \<longrightarrow> table_at vm' p = Some t) \<and>
     (\<forall>p i. path_ok p \<longrightarrow> length p = 3 \<longrightarrow> i < 512 \<longrightarrow> leaf_entry_at vm' p i = leaf_entry_at vm p i)"

lemma grown_refl: "vmm_ok vm \<Longrightarrow> grown vm vm"
  by (simp add: grown_def)

lemma grown_trans:
  assumes a: "grown vm vm'" and b: "grown vm' vm''"
  shows "grown vm vm''"
proof -
  have "table_at vm p = Some t \<or> (t - hhdm_offset vm) div 4096 \<in> free_frames (frames_of vm)"
    if "path_ok p" "table_at vm'' p = Some t" for p t
  proof -
    have "table_at vm' p = Some t \<or> (t - hhdm_offset vm) div 4096 \<in> free_frames (frames_of vm')"
      using b a that by (simp add: grown_def)
    then show ?thesis using a that(1) by (auto simp: grown_def)
  qed
  then show ?thesis using a b by (auto simp: grown_def)
qed

lemma walk_store_same:
  "table_from_entry vm w = table_from_entry vm (direct_map vm a) \<Longrightarrow> walk (store_word vm a w) t q = walk vm t q"
  by (induction q arbitrary: t) (simp_all add: Let_def)

lemma store_flags_grown:
  assumes ok: "vmm_ok vm" and p: "path_ok p" "length p \<le> 2" "table_at vm p = Some t" "i < 512"
    and same: "table_from_entry vm w = table_from_entry vm (direct_map vm (entry_address t i))"
  shows "grown vm (store_word vm (entry_address t i) w)"
proof -
  note w = walk_store_same [OF same]
  have "vmm_ok (store_word vm (entry_address t i) w)" using ok unfolding vmm_ok_def store_word_fields w .
  moreover have "leaf_entry_at (store_word vm (entry_address t i) w) q j = leaf_entry_at vm q j"
    if q: "path_ok q" "length q = 3" "j < 512" for q j
  proof (cases "table_at vm q")
    case (Some s)
    have "p \<noteq> q" using p(2) q(2) by auto
    from tables_apart [OF ok p(1,3,4) q(1) Some q(3)] this Some show ?thesis by (simp add: leaf_entry_at_def w)
  qed (simp add: leaf_entry_at_def w)
  ultimately show ?thesis by (simp add: grown_def w)
qed

lemma walk_agree:
  assumes "hhdm_offset vm' = hhdm_offset vm" "vmm_ready vm' = vmm_ready vm" "root_page_table vm' = root_page_table vm"
    and agree: "\<And>p s i. path_ok p \<Longrightarrow> length p \<le> 2 \<Longrightarrow> table_at vm p = Some s \<Longrightarrow> i < 512 \<Longrightarrow>
      direct_map vm' (entry_address s i) = direct_map vm (entry_address s i)"
  shows "path_ok q \<Longrightarrow> table_at vm' q = table_at vm q"
proof (induction q rule: rev_induct)
  case (snoc j q)
  then show ?case using agree [of q _ j] by (simp add: walk_snoc table_from_entry_cong [OF assms(1,2)] split: option.split)
qed (simp add: assms(3))

lemma walk_store_mono:
  "table_from_entry vm (direct_map vm a) = 0 \<Longrightarrow> walk vm t q = Some s \<Longrightarrow> walk (store_word vm a w) t q = Some s"
  by (induction q arbitrary: t) (auto simp: Let_def split: if_splits)

text \<open>A frame that the allocator has just handed out becomes the table below entry \<open>i\<close> of table \<open>t\<close>.\<close>

lemma fresh_table:
  assumes ok: "vmm_ok vm" and f: "f \<in> free_frames (frames_of vm)" "f \<noteq> 0"
  defines "tb \<equiv> hhdm_offset vm + f * 4096"
  shows "aligned tb" "tb \<noteq> 0" "(tb - hhdm_offset vm) div 4096 = f"
    "\<And>p s. path_ok p \<Longrightarrow> table_at vm p = Some s \<Longrightarrow> s \<noteq> tb"
proof -
  have lt: "f < 0x100000" using free_frames_bound [OF f(1)] .
  note a = frame_address [OF lt f(2)]
  have "unat f < 0x100000" using lt by (simp add: word_less_nat_alt)
  then have u: "unat (f * 4096) < 2 ^ 32" using a(1) by simp
  show "aligned tb" unfolding tb_def using a(1) by (intro aligned_add [OF vmm_okD(3) [OF ok]]) (simp add: aligned_def)
  have "unat tb = unat (hhdm_offset vm) + unat (f * 4096)"
    unfolding tb_def using u vmm_okD(5) [OF ok] by (intro unat_add_no_wrap) simp
  then show "tb \<noteq> 0" using vmm_okD(4) [OF ok] by (metis add_is_0 unat_0 unat_eq_zero)
  show d: "(tb - hhdm_offset vm) div 4096 = f" unfolding tb_def using a(3) by simp
  show "s \<noteq> tb" if "path_ok p" "table_at vm p = Some s" for p s using vmm_okD(7) [OF ok that] d f(1) by auto
qed

lemma new_table_grown:
  assumes ok: "vmm_ok vm" and p: "path_ok p" "length p \<le> 2" "table_at vm p = Some t" "i < 512"
    and absent: "table_from_entry vm (direct_map vm (entry_address t i)) = 0"
    and f: "f \<in> free_frames (frames_of vm)" "f \<noteq> 0" and fr: "pmm_ok fs" "free_frames fs = free_frames (frames_of vm) - {f}"
    and tb: "tb = hhdm_offset vm + f * 4096" and w: "table_from_entry vm w = tb"
  defines "vm' \<equiv> store_word (clear_page (vm\<lparr>frames_of := fs\<rparr>) tb) (entry_address t i) w"
  shows "grown vm vm'" "table_at vm' (p @ [i]) = Some tb"
proof -
  let ?vm2 = "clear_page (vm\<lparr>frames_of := fs\<rparr>) tb" and ?a = "entry_address t i"
  note fresh = fresh_table [OF ok f, folded tb]
  have kept: "direct_map ?vm2 (entry_address s j) = direct_map vm (entry_address s j)"
    if "path_ok q" "table_at vm q = Some s" "j < 512" for q s j
    using entry_in_page [OF table_aligned(1) [OF ok that(2)] fresh(1) that(3)] fresh(4) [OF that(1,2)] by simp
  have w2: "table_at ?vm2 q = table_at vm q" if "path_ok q" for q
    using walk_agree [of ?vm2 vm q] kept that by simp
  have t2: "table_from_entry ?vm2 (direct_map ?vm2 ?a) = 0" using kept [OF p(1,3,4)] absent by simp
  have up: "table_at vm' q = Some s" if "path_ok q" "table_at vm q = Some s" for q s
    using walk_store_mono [OF t2, of "root_page_table vm" q s w] w2 [OF that(1)] that(2) by (simp add: vm'_def)
  have a_t: "?a \<noteq> entry_address tb j" if "j < 512" for j
    using entry_address_inj [OF table_aligned(1) [OF ok p(3)] fresh(1) p(4) that] fresh(4) [OF p(1,3)] by auto
  have below: "direct_map vm' (entry_address tb j) = 0" if "j < 512" for j
    using entry_in_page [OF fresh(1,1) that] a_t [OF that] by (simp add: vm'_def)
  show at: "table_at vm' (p @ [i]) = Some tb"
    using up [OF p(1,3)] w fresh(2) by (simp add: walk_snoc vm'_def Let_def)
  have down: "path_ok q \<Longrightarrow> table_at vm' q = Some s \<Longrightarrow> table_at vm q = Some s \<or> q = p @ [i] \<and> s = tb" for q s
  proof (induction q arbitrary: s rule: rev_induct)
    case (snoc j q)
    then obtain s' where s': "table_at vm' q = Some s'" "s = table_from_entry vm (direct_map vm' (entry_address s' j))" "s \<noteq> 0"
      by (auto simp: walk_snoc Let_def vm'_def split: option.splits if_splits)
    have q: "path_ok q" "length q \<le> 2" "j < 512" using snoc.prems(1) by auto
    from snoc.IH [OF q(1) s'(1)] show ?case
    proof
      assume v: "table_at vm q = Some s'"
      show ?thesis
      proof (cases "entry_address s' j = ?a")
        case True
        then have "q = p \<and> j = i" using tables_apart [OF ok q(1) v q(3) p(1,3,4)] by blast
        then show ?thesis using s'(2) True w by (simp add: vm'_def)
      next
        case False
        then show ?thesis using s'(2,3) kept [OF q(1) v q(3)] v by (simp add: vm'_def walk_snoc Let_def)
      qed
    next
      assume "q = p @ [i] \<and> s' = tb"
      then have "s = table_from_entry vm 0" using s'(2) below [OF q(3)] by simp
      then show ?thesis using s'(3) by (simp add: table_from_entry_def)
    qed
  qed (simp add: vm'_def)
  have leaf: "leaf_entry_at vm' q j = leaf_entry_at vm q j" if q: "path_ok q" "length q = 3" "j < 512" for q j
  proof (cases "table_at vm q")
    case (Some s)
    have "q \<noteq> p" using p(2) q(2) by auto
    from tables_apart [OF ok q(1) Some q(3) p(1,3,4)] this show ?thesis
      using up [OF q(1) Some] kept [OF q(1) Some q(3)] Some by (simp add: leaf_entry_at_def vm'_def)
  next
    case None
    then show ?thesis using down [OF q(1)] below [OF q(3)] by (auto simp: leaf_entry_at_def split: option.splits)
  qed
  have "vmm_ok vm'"
    unfolding vmm_ok_def
  proof (intro conjI allI impI)
    fix q s assume q: "path_ok q" "table_at vm' q = Some s"
    show "(s - hhdm_offset vm') div 4096 \<notin> free_frames (frames_of vm')"
      using down [OF q] vmm_okD(7) [OF ok q(1)] fresh(3) fr(2) by (auto simp: vm'_def)
    fix r assume r: "path_ok r" "table_at vm' r = Some s"
    show "q = r" using down [OF q] down [OF r] vmm_okD(8) [OF ok q(1) r(1)] fresh(4) [OF q(1)] fresh(4) [OF r(1)] by auto
  qed (use ok fr in \<open>simp_all add: vmm_ok_def vm'_def\<close>)
  moreover have "table_at vm q = Some s \<or> (s - hhdm_offset vm) div 4096 \<in> free_frames (frames_of vm)"
    if "path_ok q" "table_at vm' q = Some s" for q s using down [OF that] fresh(3) f(1) by auto
  ultimately show "grown vm vm'" using up leaf fr(2) by (auto simp: grown_def vm'_def)
qed

section \<open>Entries\<close>

text \<open>Flags stay outside the bits of an address.\<close>

definition flag_bits :: "u64 \<Rightarrow> bool" where
  "flag_bits fl \<longleftrightarrow> fl AND PAGE_ADDRESS_MASK = 0"

lemma entry_address_part:
  assumes "pa AND NOT PAGE_ADDRESS_MASK = 0" "flag_bits fl"
  shows "(pa OR fl) AND PAGE_ADDRESS_MASK = pa"
proof -
  have "pa AND PAGE_ADDRESS_MASK = (pa AND PAGE_ADDRESS_MASK) OR (pa AND NOT PAGE_ADDRESS_MASK)" using assms(1) by simp
  also have "\<dots> = pa" by (simp add: bit.conj_disj_distrib [symmetric])
  finally show ?thesis using assms(2) by (simp add: flag_bits_def bit.conj_disj_distrib2)
qed

lemma flag_bits_or: "flag_bits a \<Longrightarrow> flag_bits b \<Longrightarrow> flag_bits (a OR b)"
  by (simp add: flag_bits_def bit.conj_disj_distrib2)

lemma flag_bits_constants [simp]:
  "flag_bits 0" "flag_bits VMM_PAGE_PRESENT" "flag_bits VMM_PAGE_WRITABLE" "flag_bits VMM_PAGE_USER"
  "flag_bits VMM_PAGE_WRITE_THROUGH" "flag_bits VMM_PAGE_CACHE_DISABLE" "flag_bits VMM_PAGE_NO_EXECUTE"
  by (simp_all add: flag_bits_def vmm_constants)

lemma flag_bits_leaf [simp]: "flag_bits (leaf_flags flags)"
proof -
  have "flag_bits (VMM_PAGE_WRITABLE OR VMM_PAGE_USER OR VMM_PAGE_WRITE_THROUGH OR VMM_PAGE_CACHE_DISABLE OR VMM_PAGE_NO_EXECUTE)"
    by (intro flag_bits_or) simp_all
  then show ?thesis unfolding flag_bits_def leaf_flags_def by (simp add: and.assoc)
qed

lemma frame_is_address:
  assumes "f < 0x100000"
  shows "(f * 4096) AND NOT PAGE_ADDRESS_MASK = 0"
proof (rule bit_eqI)
  fix n assume "possible_bit TYPE(u64) n"
  have m: "f * 4096 = push_bit 12 f" by (simp add: push_bit_eq_mult)
  have "f = take_bit 20 f" using assms by (simp add: take_bit_eq_mod word_unat_eq_iff unat_mod word_less_nat_alt)
  then have l: "n < 20" if "bit f n" for n using that by (metis bit_take_bit_iff)
  from l [of "n - 12"] show "bit ((f * 4096) AND NOT PAGE_ADDRESS_MASK) n = bit 0 n"
    unfolding m by (auto simp: bit_and_iff bit_not_iff bit_push_bit_iff bit_masks)
qed

lemma table_flags_entry:
  assumes "flag_bits fl" "\<not> bit fl 7" "bit fl 0"
  shows "e AND VMM_PAGE_PRESENT \<noteq> 0 \<Longrightarrow> table_from_entry vm (e OR fl) = table_from_entry vm e"
    "pa AND NOT PAGE_ADDRESS_MASK = 0 \<Longrightarrow> table_from_entry vm (pa OR fl) = vmm_physical_to_virtual vm pa"
proof -
  have "(e OR fl) AND PAGE_ADDRESS_MASK = e AND PAGE_ADDRESS_MASK"
    using assms(1) by (simp add: flag_bits_def bit.conj_disj_distrib2)
  then show "e AND VMM_PAGE_PRESENT \<noteq> 0 \<Longrightarrow> table_from_entry vm (e OR fl) = table_from_entry vm e"
    using assms(2,3) by (simp add: table_from_entry_def flag_tests bit_or_iff)
  assume pa: "pa AND NOT PAGE_ADDRESS_MASK = 0"
  have "\<not> bit (pa AND NOT PAGE_ADDRESS_MASK) 7" using pa by simp
  then have "\<not> bit pa 7" by (simp add: bit_and_iff bit_not_iff bit_masks)
  then show "table_from_entry vm (pa OR fl) = vmm_physical_to_virtual vm pa"
    using assms(2,3) entry_address_part [OF pa assms(1)] by (simp add: table_from_entry_def flag_tests bit_or_iff)
qed

lemma get_or_create_result:
  assumes ok: "vmm_ok vm" and p: "path_ok p" "length p \<le> 2" "table_at vm p = Some t" "i < 512"
    and gc: "get_or_create_table vm (entry_address t i) flags = (vm', t')"
  shows "grown vm vm' \<and> (t' \<noteq> 0 \<longrightarrow> table_at vm' (p @ [i]) = Some t') \<and>
    (t' = 0 \<longrightarrow> free_frames (frames_of vm') \<subseteq> {0} \<or>
       direct_map vm' (entry_address t i) AND VMM_PAGE_PRESENT \<noteq> 0 \<and> table_from_entry vm' (direct_map vm' (entry_address t i)) = 0)"
proof -
  let ?a = "entry_address t i" and ?tf = "VMM_PAGE_PRESENT OR VMM_PAGE_WRITABLE OR (if flags AND VMM_PAGE_USER \<noteq> 0 then VMM_PAGE_USER else 0)"
  have tf: "flag_bits ?tf" "\<not> bit ?tf 7" "bit ?tf 0"
    by (simp_all add: flag_bits_or bit_or_iff bit_masks)
  show ?thesis
  proof (cases "direct_map vm ?a AND VMM_PAGE_PRESENT = 0")
    case False
    note same = table_flags_entry(1) [OF tf False, of vm]
    note g = store_flags_grown [OF ok p same]
    show ?thesis
    proof (cases "direct_map vm ?a AND PAGE_ENTRY_HUGE = 0")
      case True
      have vm': "vm' = store_word vm ?a (direct_map vm ?a OR ?tf)" and t': "t' = table_from_entry vm (direct_map vm ?a)"
        using gc False True same by (auto simp: get_or_create_table_def Let_def)
      have "table_at vm' (p @ [i]) = (if t' = 0 then None else Some t')"
        unfolding vm' store_word_fields walk_store_same [OF same] by (simp add: walk_snoc p(3) t' Let_def)
      moreover have "direct_map vm' ?a AND VMM_PAGE_PRESENT \<noteq> 0" using tf(3) by (simp add: vm' flag_tests bit_or_iff)
      ultimately show ?thesis using g vm' t' same by simp
    next
      case huge: False
      then have "vm' = vm" "t' = 0" using gc False by (simp_all add: get_or_create_table_def Let_def)
      then show ?thesis using huge False grown_refl [OF ok] by (simp add: table_from_entry_def)
    qed
  next
    case True
    then have absent: "table_from_entry vm (direct_map vm ?a) = 0" by (simp add: table_from_entry_def)
    obtain q x where q: "pmm_alloc_frame (frames_of vm) = (q, x)" by force
    from alloc_frame_result [OF vmm_okD(2) [OF ok] q] show ?thesis
    proof (elim disjE exE conjE)
      assume "x = 0" "q = frames_of vm" "free_frames (frames_of vm) \<subseteq> {0}"
      then have "vm' = vm" "t' = 0" "free_frames (frames_of vm) \<subseteq> {0}" using gc True q by (simp_all add: get_or_create_table_def Let_def)
      then show ?thesis using grown_refl [OF ok] by simp
    next
      fix f assume f: "f \<in> free_frames (frames_of vm)" "f \<noteq> 0" "x = f * 4096" "free_frames q = free_frames (frames_of vm) - {f}" "pmm_ok q"
      have lt: "f < 0x100000" using free_frames_bound [OF f(1)] .
      let ?tb = "hhdm_offset vm + f * 4096"
      have v: "vmm_physical_to_virtual vm (f * 4096) = ?tb" using vmm_okD(1) [OF ok] by (simp add: vmm_physical_to_virtual_def)
      have "vmm_physical_to_virtual (vm\<lparr>frames_of := q\<rparr>) (f * 4096) = ?tb" using vmm_okD(1) [OF ok] by (simp add: vmm_physical_to_virtual_def)
      then have vm': "vm' = store_word (clear_page (vm\<lparr>frames_of := q\<rparr>) ?tb) ?a (f * 4096 OR ?tf)" "t' = ?tb"
        using gc True q f(3) frame_address(2) [OF lt f(2)] fresh_table(2) [OF ok f(1,2)] by (auto simp: get_or_create_table_def Let_def)
      have w: "table_from_entry vm (f * 4096 OR ?tf) = ?tb" using table_flags_entry(2) [OF tf frame_is_address [OF lt]] v by simp
      show ?thesis using new_table_grown [OF ok p absent f(1,2,5,4) refl w] vm' fresh_table(2) [OF ok f(1,2)] by simp
    qed
  qed
qed

section \<open>Addresses and pages\<close>

abbreviation leaf_path :: "u64 \<Rightarrow> u64 list" where
  "leaf_path va \<equiv> [pml4_index va, pdpt_index va, pd_index va]"

definition page_base :: "u64 \<Rightarrow> u64" where
  "page_base va = va AND NOT PAGE_OFFSET_MASK"

lemma index_bound: "pml4_index va < 512" "pdpt_index va < 512" "pd_index va < 512" "pt_index va < 512"
proof -
  have "(x :: u64) AND mask 9 < 512" for x
    using and_mask_less_size [of 9 x] by (simp add: word_size)
  then show "pml4_index va < 512" "pdpt_index va < 512" "pd_index va < 512" "pt_index va < 512"
    by (simp_all add: pml4_index_def pdpt_index_def pd_index_def pt_index_def masks)
qed

lemma leaf_path_ok [simp]: "path_ok (leaf_path va)"
  using index_bound by (simp add: path_ok_def)

lemma canonical_iff: "address_is_canonical va \<longleftrightarrow> (\<forall>n. 48 \<le> n \<longrightarrow> n < 64 \<longrightarrow> bit va n = bit va 47)"
proof -
  have s: "drop_bit 47 va AND 1 \<noteq> 0 \<longleftrightarrow> bit va 47"
    using and_bit_eq_0 [of "1 :: u64" 0 "drop_bit 47 va"] by (auto simp: bit_1_iff bit_drop_bit_eq)
  have f: "(0xFFFF :: u64) = mask 16" by (simp add: mask_eq_exp_minus_1)
  have u: "drop_bit 48 va = 0xFFFF \<longleftrightarrow> (\<forall>n. 48 \<le> n \<longrightarrow> n < 64 \<longrightarrow> bit va n)"
  proof
    assume "drop_bit 48 va = 0xFFFF"
    then have e: "bit (drop_bit 48 va) n = bit (mask 16 :: u64) n" for n unfolding f by simp
    show "\<forall>n. 48 \<le> n \<longrightarrow> n < 64 \<longrightarrow> bit va n"
    proof (intro allI impI)
      fix n :: nat assume "48 \<le> n" "n < 64"
      then have "48 + (n - 48) = n" "n - 48 < 16" by linarith+
      then show "bit va n" using e [of "n - 48"] by (simp add: bit_drop_bit_eq bit_mask_iff)
    qed
  next
    assume a: "\<forall>n. 48 \<le> n \<longrightarrow> n < 64 \<longrightarrow> bit va n"
    have "bit va (48 + n) \<longleftrightarrow> n < 16" for n
    proof (cases "n < 16")
      case False
      then have "\<not> bit va (48 + n)" using bit_imp_le_length [of va "48 + n"] by auto
      then show ?thesis using False by simp
    qed (use a in simp)
    then show "drop_bit 48 va = 0xFFFF" unfolding f by (intro bit_eqI) (simp add: bit_drop_bit_eq bit_mask_iff)
  qed
  have z: "drop_bit 48 va = 0 \<longleftrightarrow> (\<forall>n. 48 \<le> n \<longrightarrow> n < 64 \<longrightarrow> \<not> bit va n)"
  proof
    assume "drop_bit 48 va = 0"
    then have e: "\<not> bit (drop_bit 48 va) n" for n by simp
    show "\<forall>n. 48 \<le> n \<longrightarrow> n < 64 \<longrightarrow> \<not> bit va n"
    proof (intro allI impI)
      fix n :: nat assume "48 \<le> n"
      then show "\<not> bit va n" using e [of "n - 48"] by (simp add: bit_drop_bit_eq)
    qed
  next
    assume a: "\<forall>n. 48 \<le> n \<longrightarrow> n < 64 \<longrightarrow> \<not> bit va n"
    have "\<not> bit va (48 + n)" for n using a bit_imp_le_length [of va "48 + n"] by auto
    then show "drop_bit 48 va = 0" by (intro bit_eqI) (simp add: bit_drop_bit_eq)
  qed
  show ?thesis unfolding address_is_canonical_def Let_def s u z by auto
qed

lemma bit_index:
  "bit (pml4_index va) n \<longleftrightarrow> n < 9 \<and> bit va (39 + n)" "bit (pdpt_index va) n \<longleftrightarrow> n < 9 \<and> bit va (30 + n)"
  "bit (pd_index va) n \<longleftrightarrow> n < 9 \<and> bit va (21 + n)" "bit (pt_index va) n \<longleftrightarrow> n < 9 \<and> bit va (12 + n)"
  by (auto simp: pml4_index_def pdpt_index_def pd_index_def pt_index_def bit_and_iff bit_masks bit_drop_bit_eq)

lemma bit_page_base: "bit (page_base va) n \<longleftrightarrow> 12 \<le> n \<and> bit va n"
  using bit_imp_le_length [of va n] by (auto simp: page_base_def bit_and_iff bit_not_iff bit_masks)

text \<open>The four indices and the sign extension determine the page.\<close>

lemma same_page:
  assumes "address_is_canonical va" "address_is_canonical wa" "leaf_path va = leaf_path wa" "pt_index va = pt_index wa"
  shows "page_base va = page_base wa"
proof -
  have e: "bit va (39 + n) = bit wa (39 + n)" "bit va (30 + n) = bit wa (30 + n)"
    "bit va (21 + n) = bit wa (21 + n)" "bit va (12 + n) = bit wa (12 + n)" if "n < 9" for n
    using assms(3,4) bit_index [of va n] bit_index [of wa n] that by auto
  have low: "bit va n = bit wa n" if "12 \<le> n" "n < 48" for n
  proof -
    consider "n < 21" | "21 \<le> n" "n < 30" | "30 \<le> n" "n < 39" | "39 \<le> n" by linarith
    then show ?thesis using e(1) [of "n - 39"] e(2) [of "n - 30"] e(3) [of "n - 21"] e(4) [of "n - 12"] that by cases simp_all
  qed
  have high: "bit va n = bit wa n" if "48 \<le> n" for n
  proof (cases "n < 64")
    case True
    then show ?thesis using assms(1,2) that low [of 47] by (simp add: canonical_iff)
  next
    case False
    then show ?thesis using bit_imp_le_length [of va n] bit_imp_le_length [of wa n] by auto
  qed
  show ?thesis using low high by (intro bit_eqI) (metis bit_page_base not_le)
qed

lemma page_base_same:
  assumes "page_base va = page_base wa"
  shows "leaf_path va = leaf_path wa" "pt_index va = pt_index wa" "address_is_canonical va = address_is_canonical wa"
proof -
  have b: "bit va n = bit wa n" if "12 \<le> n" for n using assms that bit_page_base [of va n] bit_page_base [of wa n] by simp
  show "leaf_path va = leaf_path wa" "pt_index va = pt_index wa" by (auto intro!: bit_eqI simp: bit_index b)
  show "address_is_canonical va = address_is_canonical wa" using b by (simp add: canonical_iff)
qed

lemma page_base_aligned: "va AND PAGE_OFFSET_MASK = 0 \<Longrightarrow> page_base va = va"
proof -
  assume "va AND PAGE_OFFSET_MASK = 0"
  then have "page_base va = (va AND NOT PAGE_OFFSET_MASK) OR (va AND PAGE_OFFSET_MASK)" by (simp add: page_base_def)
  also have "\<dots> = va" by (simp add: bit.conj_disj_distrib [symmetric])
  finally show ?thesis .
qed

section \<open>The page map\<close>

text \<open>
  What the tables mean: the physical page and the flags of an address. This is the abstract map
  that the operations below are described by.
\<close>

definition page_of :: "vmm \<Rightarrow> u64 \<Rightarrow> (u64 \<times> u64) option" where
  "page_of vm va =
     (let e = leaf_entry_at vm (leaf_path va) (pt_index va) in
      if address_is_canonical va \<and> e AND VMM_PAGE_PRESENT \<noteq> 0 then Some (e AND PAGE_ADDRESS_MASK, leaf_flags e) else None)"

text \<open>An entry on the way to the page is present but leads to no table: a huge page.\<close>

definition blocked :: "vmm \<Rightarrow> u64 \<Rightarrow> bool" where
  "blocked vm va \<longleftrightarrow> (\<exists>k<3. \<exists>t. table_at vm (take k (leaf_path va)) = Some t \<and>
     (let e = direct_map vm (entry_address t (leaf_path va ! k)) in e AND VMM_PAGE_PRESENT \<noteq> 0 \<and> table_from_entry vm e = 0))"

lemma grown_page_of: "grown vm vm' \<Longrightarrow> page_of vm' = page_of vm"
  using index_bound(4) by (auto simp: grown_def page_of_def fun_eq_iff)

lemma find_leaf_lookup:
  assumes ok: "vmm_ok vm" and c: "address_is_canonical va"
  shows "find_leaf_entry vm va False fl =
    (vm, case table_at vm (leaf_path va) of None \<Rightarrow> 0 | Some t \<Rightarrow> entry_address t (pt_index va))"
  using vmm_okD(1) [OF ok] c by (simp add: find_leaf_entry_def next_table_def Let_def)

lemma next_level:
  assumes ok: "vmm_ok vm" and k: "k < 3" and at: "table_at vm (take k (leaf_path va)) = Some t"
    and gc: "get_or_create_table vm (entry_address t (leaf_path va ! k)) flags = (vm', t')"
  shows "grown vm vm'" "t' \<noteq> 0 \<Longrightarrow> table_at vm' (take (Suc k) (leaf_path va)) = Some t'"
    "t' = 0 \<Longrightarrow> free_frames (frames_of vm') \<subseteq> {0} \<or> blocked vm' va" "vmm_ok vm'"
proof -
  let ?p = "take k (leaf_path va)" and ?i = "leaf_path va ! k"
  have p: "path_ok ?p" "length ?p \<le> 2" using k leaf_path_ok [of va] by (auto simp: path_ok_def dest: in_set_takeD)
  have i: "?i < 512" using k leaf_path_ok [of va] unfolding path_ok_def by (metis length_Cons list.size(3) nth_mem numeral_3_eq_3)
  note g = get_or_create_result [OF ok p at i gc]
  have snoc: "take (Suc k) (leaf_path va) = ?p @ [?i]" using k by (intro take_Suc_conv_app_nth) simp
  show gr: "grown vm vm'" using g by blast
  then show "vmm_ok vm'" by (simp add: grown_def)
  show "table_at vm' (take (Suc k) (leaf_path va)) = Some t'" if "t' \<noteq> 0" using g that unfolding snoc by blast
  have "table_at vm' ?p = Some t" using gr p(1) at unfolding grown_def by blast
  then show "free_frames (frames_of vm') \<subseteq> {0} \<or> blocked vm' va" if "t' = 0"
    using g that k unfolding blocked_def Let_def by blast
qed

lemma find_leaf_create:
  assumes ok: "vmm_ok vm" and fl: "find_leaf_entry vm va True flags = (vm', a)"
  shows "grown vm vm' \<and>
    (if a = 0 then \<not> address_is_canonical va \<or> free_frames (frames_of vm') \<subseteq> {0} \<or> blocked vm' va
     else address_is_canonical va \<and> (\<exists>t. table_at vm' (leaf_path va) = Some t \<and> a = entry_address t (pt_index va)))"
proof (cases "address_is_canonical va")
  case False
  then show ?thesis using fl grown_refl [OF ok] by (auto simp: find_leaf_entry_def)
next
  case c: True
  note r = vmm_okD(1) [OF ok]
  obtain vm1 t1 where 1: "get_or_create_table vm (entry_address (root_page_table vm) (pml4_index va)) flags = (vm1, t1)" by force
  have k: "(0::nat) < 3" "Suc 0 < 3" "Suc (Suc 0) < 3" and at0: "table_at vm (take 0 (leaf_path va)) = Some (root_page_table vm)" by simp_all
  have "get_or_create_table vm (entry_address (root_page_table vm) (leaf_path va ! 0)) flags = (vm1, t1)" using 1 by simp
  note g1 = next_level [OF ok k(1) at0 this]
  show ?thesis
  proof (cases "t1 = 0")
    case True
    then have "vm' = vm1" "a = 0" using fl r c 1 by (simp_all add: find_leaf_entry_def next_table_def)
    then show ?thesis using g1 True by auto
  next
    case t1: False
    obtain vm2 t2 where 2: "get_or_create_table vm1 (entry_address t1 (pdpt_index va)) flags = (vm2, t2)" by force
    have "get_or_create_table vm1 (entry_address t1 (leaf_path va ! Suc 0)) flags = (vm2, t2)" using 2 by simp
    note g2 = next_level [OF g1(4) k(2) g1(2) [OF t1] this]
    note gr2 = grown_trans [OF g1(1) g2(1)]
    show ?thesis
    proof (cases "t2 = 0")
      case True
      then have "vm' = vm2" "a = 0" using fl r c 1 2 t1 by (simp_all add: find_leaf_entry_def next_table_def)
      then show ?thesis using g2(3) [OF True] gr2 by auto
    next
      case t2: False
      obtain vm3 t3 where 3: "get_or_create_table vm2 (entry_address t2 (pd_index va)) flags = (vm3, t3)" by force
      have "get_or_create_table vm2 (entry_address t2 (leaf_path va ! Suc (Suc 0))) flags = (vm3, t3)" using 3 by simp
      note g3 = next_level [OF g2(4) k(3) g2(2) [OF t2] this]
      note gr3 = grown_trans [OF gr2 g3(1)]
      have e: "vm' = vm3" "a = (if t3 = 0 then 0 else entry_address t3 (pt_index va))"
        using fl r c 1 2 3 t1 t2 by (simp_all add: find_leaf_entry_def next_table_def split: if_splits)
      have tk: "take (Suc (Suc (Suc 0))) (leaf_path va) = leaf_path va" by simp
      show ?thesis
      proof (cases "t3 = 0")
        case True
        then show ?thesis using gr3 g3(3) e by simp
      next
        case False
        note at = g3(2) [OF False, unfolded tk]
        have "a \<noteq> 0" using e False entry_address_nonnull [OF table_aligned [OF g3(4) at] index_bound(4)] by simp
        then show ?thesis using gr3 c e False at by auto
      qed
    qed
  qed
qed

lemma store_leaf:
  fixes w :: u64
  assumes ok: "vmm_ok vm" and p: "path_ok p" "length p = 3" "table_at vm p = Some t" "i < 512"
  defines "vm' \<equiv> store_word vm (entry_address t i) w"
  shows "vmm_ok vm'" "\<And>q j. path_ok q \<Longrightarrow> length q = 3 \<Longrightarrow> j < 512 \<Longrightarrow>
    leaf_entry_at vm' q j = (if q = p \<and> j = i then w else leaf_entry_at vm q j)"
proof -
  have walk: "table_at vm' q = table_at vm q" if "path_ok q" for q
  proof (rule walk_agree [OF _ _ _ _ that])
    fix q s and j :: u64 assume q: "path_ok q" "length q \<le> 2" "table_at vm q = Some s" "j < 512"
    then have "q \<noteq> p" using p(2) by auto
    with tables_apart [OF ok q(1,3,4) p(1,3,4)] show "direct_map vm' (entry_address s j) = direct_map vm (entry_address s j)"
      by (simp add: vm'_def)
  qed (simp_all add: vm'_def)
  show "vmm_ok vm'" using ok walk unfolding vmm_ok_def by (auto simp: vm'_def)
  fix q and j :: u64 assume q: "path_ok q" "length q = 3" "j < 512"
  show "leaf_entry_at vm' q j = (if q = p \<and> j = i then w else leaf_entry_at vm q j)"
  proof (cases "table_at vm q")
    case (Some s)
    show ?thesis using tables_apart [OF ok q(1) Some q(3) p(1,3,4)] Some p(3) walk [OF q(1)] by (auto simp: leaf_entry_at_def vm'_def)
  next
    case None
    then have "q \<noteq> p" using p(3) by auto
    then show ?thesis using None walk [OF q(1)] by (simp add: leaf_entry_at_def)
  qed
qed

lemma store_leaf_page:
  fixes w :: u64
  assumes ok: "vmm_ok vm" and c: "address_is_canonical va" "page_base va = va" and t: "table_at vm (leaf_path va) = Some t"
  defines "vm' \<equiv> store_word vm (entry_address t (pt_index va)) w"
  shows "vmm_ok vm'" "page_of vm' wa = (if page_base wa = va
    then (if w AND VMM_PAGE_PRESENT \<noteq> 0 then Some (w AND PAGE_ADDRESS_MASK, leaf_flags w) else None) else page_of vm wa)"
proof -
  have len: "length (leaf_path va) = 3" "length (leaf_path wa) = 3" by simp_all
  note s = store_leaf [OF ok leaf_path_ok len(1) t index_bound(4), where w = w]
  show "vmm_ok vm'" unfolding vm'_def by (rule s(1))
  have e: "leaf_entry_at vm' (leaf_path wa) (pt_index wa) =
      (if leaf_path wa = leaf_path va \<and> pt_index wa = pt_index va then w else leaf_entry_at vm (leaf_path wa) (pt_index wa))"
    unfolding vm'_def by (rule s(2) [OF leaf_path_ok len(2) index_bound(4)])
  have iff: "page_base wa = va \<longleftrightarrow> leaf_path wa = leaf_path va \<and> pt_index wa = pt_index va" if "address_is_canonical wa"
    using same_page [OF that c(1)] page_base_same [of wa va] c(2) by metis
  have "address_is_canonical wa" if "page_base wa = va" using page_base_same(3) [of wa va] c that by simp
  then show "page_of vm' wa = (if page_base wa = va
    then (if w AND VMM_PAGE_PRESENT \<noteq> 0 then Some (w AND PAGE_ADDRESS_MASK, leaf_flags w) else None) else page_of vm wa)"
    using e iff by (auto simp: page_of_def Let_def)
qed

lemma page_entry:
  assumes "pa AND NOT PAGE_ADDRESS_MASK = 0"
  shows "(pa OR VMM_PAGE_PRESENT OR leaf_flags flags) AND PAGE_ADDRESS_MASK = pa"
    "leaf_flags (pa OR VMM_PAGE_PRESENT OR leaf_flags flags) = leaf_flags flags"
    "(pa OR VMM_PAGE_PRESENT OR leaf_flags flags) AND VMM_PAGE_PRESENT \<noteq> 0"
proof -
  let ?FM = "VMM_PAGE_WRITABLE OR VMM_PAGE_USER OR VMM_PAGE_WRITE_THROUGH OR VMM_PAGE_CACHE_DISABLE OR VMM_PAGE_NO_EXECUTE"
  show "(pa OR VMM_PAGE_PRESENT OR leaf_flags flags) AND PAGE_ADDRESS_MASK = pa"
    by (rule entry_address_part [OF assms]) (simp add: flag_bits_or)
  have "\<not> bit (pa AND NOT PAGE_ADDRESS_MASK) n" for n using assms by simp
  then have "bit pa n \<Longrightarrow> bit PAGE_ADDRESS_MASK n" for n
    using bit_imp_le_length [of pa n] by (auto simp: bit_and_iff bit_not_iff)
  then have "bit pa n \<Longrightarrow> 12 \<le> n \<and> n < 52" for n by (simp add: bit_masks)
  then have "pa AND ?FM = 0" by (intro bit_eqI) (force simp: bit_and_iff bit_or_iff bit_masks)
  moreover have "VMM_PAGE_PRESENT AND ?FM = 0" by (simp add: vmm_constants)
  moreover have "leaf_flags flags AND ?FM = leaf_flags flags" by (simp add: leaf_flags_def and.assoc)
  ultimately show "leaf_flags (pa OR VMM_PAGE_PRESENT OR leaf_flags flags) = leaf_flags flags"
    unfolding leaf_flags_def [of "pa OR VMM_PAGE_PRESENT OR leaf_flags flags"] bit.conj_disj_distrib2 by simp
  show "(pa OR VMM_PAGE_PRESENT OR leaf_flags flags) AND VMM_PAGE_PRESENT \<noteq> 0" by (simp add: flag_tests bit_or_iff bit_masks)
qed

section \<open>The operations on the page map\<close>

text \<open>Arguments that the code refuses: unaligned or oversized addresses, or a page both writable and executable.\<close>

definition bad_mapping :: "u64 \<Rightarrow> u64 \<Rightarrow> u64 \<Rightarrow> bool" where
  "bad_mapping va pa flags \<longleftrightarrow>
     va AND PAGE_OFFSET_MASK \<noteq> 0 \<or> pa AND PAGE_OFFSET_MASK \<noteq> 0 \<or> pa AND NOT PAGE_ADDRESS_MASK \<noteq> 0 \<or>
     flags AND VMM_PAGE_WRITABLE \<noteq> 0 \<and> flags AND VMM_PAGE_NO_EXECUTE = 0"

lemma map_page_result:
  assumes ok: "vmm_ok vm" and mp: "vmm_map_page vm va pa flags = (vm', b)"
  shows "vmm_ok vm'" "free_frames (frames_of vm') \<subseteq> free_frames (frames_of vm)"
    "b \<Longrightarrow> va AND PAGE_OFFSET_MASK = 0 \<and> pa AND PAGE_OFFSET_MASK = 0 \<and> address_is_canonical va \<and> page_of vm va = None \<and>
       (leaf_flags flags AND VMM_PAGE_WRITABLE \<noteq> 0 \<longrightarrow> leaf_flags flags AND VMM_PAGE_NO_EXECUTE \<noteq> 0) \<and>
       page_of vm' = (\<lambda>wa. if page_base wa = va then Some (pa, leaf_flags flags) else page_of vm wa)"
    "\<not> b \<Longrightarrow> grown vm vm' \<and>
       (bad_mapping va pa flags \<or> \<not> address_is_canonical va \<or> page_of vm va \<noteq> None \<or> free_frames (frames_of vm') \<subseteq> {0} \<or> blocked vm' va)"
proof -
  let ?done = "va AND PAGE_OFFSET_MASK = 0 \<and> pa AND PAGE_OFFSET_MASK = 0 \<and> address_is_canonical va \<and> page_of vm va = None \<and>
       (leaf_flags flags AND VMM_PAGE_WRITABLE \<noteq> 0 \<longrightarrow> leaf_flags flags AND VMM_PAGE_NO_EXECUTE \<noteq> 0) \<and>
       page_of vm' = (\<lambda>wa. if page_base wa = va then Some (pa, leaf_flags flags) else page_of vm wa)"
  let ?why = "bad_mapping va pa flags \<or> \<not> address_is_canonical va \<or> page_of vm va \<noteq> None \<or> free_frames (frames_of vm') \<subseteq> {0} \<or> blocked vm' va"
  have "vmm_ok vm' \<and> free_frames (frames_of vm') \<subseteq> free_frames (frames_of vm) \<and> (if b then ?done else grown vm vm' \<and> ?why)"
  proof (cases "bad_mapping va pa flags")
    case True
    then have "vm' = vm" "\<not> b" using mp by (auto simp: vmm_map_page_def bad_mapping_def)
    then show ?thesis using True ok grown_refl [OF ok] by auto
  next
    case False
    then have good: "\<not> (va AND PAGE_OFFSET_MASK \<noteq> 0 \<or> pa AND PAGE_OFFSET_MASK \<noteq> 0 \<or> pa AND NOT PAGE_ADDRESS_MASK \<noteq> 0 \<or>
      flags AND VMM_PAGE_WRITABLE \<noteq> 0 \<and> flags AND VMM_PAGE_NO_EXECUTE = 0)" by (simp add: bad_mapping_def)
    obtain vm1 a where fl: "find_leaf_entry vm va True flags = (vm1, a)" by force
    note f = find_leaf_create [OF ok fl]
    have g: "grown vm vm1" "vmm_ok vm1" "free_frames (frames_of vm1) \<subseteq> free_frames (frames_of vm)"
      using f unfolding grown_def by blast+
    show ?thesis
    proof (cases "a = 0")
      case True
      then have "vm' = vm1" "\<not> b" using mp good fl by (auto simp: vmm_map_page_def)
      then show ?thesis using True f g by auto
    next
      case False
      then obtain t where c: "address_is_canonical va" and t: "table_at vm1 (leaf_path va) = Some t" "a = entry_address t (pt_index va)"
        using f by auto
      have leaf: "leaf_entry_at vm1 (leaf_path va) (pt_index va) = direct_map vm1 a" using t by (simp only: leaf_entry_at_def) simp
      show ?thesis
      proof (cases "direct_map vm1 a AND VMM_PAGE_PRESENT = 0")
        case True
        have vm': "vm' = store_word vm1 a (pa OR VMM_PAGE_PRESENT OR leaf_flags flags)" "b"
          using mp good fl False True by (auto simp: vmm_map_page_def)
        have base: "page_base va = va" using good by (simp add: page_base_aligned)
        have pa: "pa AND NOT PAGE_ADDRESS_MASK = 0" using good by simp
        note st = store_leaf_page [OF g(2) c base t(1), of "pa OR VMM_PAGE_PRESENT OR leaf_flags flags", folded t(2), folded vm'(1)]
        have "page_of vm va = None"
          unfolding grown_page_of [OF g(1), symmetric] using True leaf by (simp only: page_of_def Let_def) simp
        moreover have "page_of vm' = (\<lambda>wa. if page_base wa = va then Some (pa, leaf_flags flags) else page_of vm wa)"
          using st(2) page_entry [OF pa, of flags] grown_page_of [OF g(1)] by (auto simp: fun_eq_iff)
        moreover have "leaf_flags flags AND VMM_PAGE_WRITABLE \<noteq> 0 \<longrightarrow> leaf_flags flags AND VMM_PAGE_NO_EXECUTE \<noteq> 0"
          using good by (simp add: flag_tests leaf_flags_def bit_and_iff bit_or_iff bit_masks)
        moreover have "frames_of vm' = frames_of vm1" using vm' by simp
        ultimately show ?thesis using st(1) good c vm'(2) g(3) by simp
      next
        case present: False
        have "vm' = vm1" "\<not> b" using mp good fl False present by (auto simp: vmm_map_page_def)
        moreover have "page_of vm va \<noteq> None"
          unfolding grown_page_of [OF g(1), symmetric] using present leaf c by (simp only: page_of_def Let_def) simp
        ultimately show ?thesis using g by auto
      qed
    qed
  qed
  then show "vmm_ok vm'" "free_frames (frames_of vm') \<subseteq> free_frames (frames_of vm)" "b \<Longrightarrow> ?done" "\<not> b \<Longrightarrow> grown vm vm' \<and> ?why"
    by (auto split: if_splits)
qed

lemma leaf_lookup:
  assumes ok: "vmm_ok vm"
  obtains "page_of vm va = None" "snd (find_leaf_entry vm va False 0) = 0 \<or>
      direct_map vm (snd (find_leaf_entry vm va False 0)) AND VMM_PAGE_PRESENT = 0"
  | t where "address_is_canonical va" "table_at vm (leaf_path va) = Some t"
      "snd (find_leaf_entry vm va False 0) = entry_address t (pt_index va)" "entry_address t (pt_index va) \<noteq> 0"
      "direct_map vm (entry_address t (pt_index va)) AND VMM_PAGE_PRESENT \<noteq> 0"
      "page_of vm va = Some (direct_map vm (entry_address t (pt_index va)) AND PAGE_ADDRESS_MASK,
         leaf_flags (direct_map vm (entry_address t (pt_index va))))"
proof (cases "address_is_canonical va")
  case False
  then show thesis using that(1) by (simp add: page_of_def find_leaf_entry_def)
next
  case c: True
  note fl = find_leaf_lookup [OF ok c, of 0]
  show thesis
  proof (cases "table_at vm (leaf_path va)")
    case None
    then have "page_of vm va = None" by (simp only: page_of_def Let_def leaf_entry_at_def) simp
    then show thesis using that(1) fl None by (simp only: snd_conv) simp
  next
    case (Some t)
    have p: "page_of vm va = (let e = direct_map vm (entry_address t (pt_index va)) in
        if e AND VMM_PAGE_PRESENT \<noteq> 0 then Some (e AND PAGE_ADDRESS_MASK, leaf_flags e) else None)"
      using Some c by (simp only: page_of_def Let_def leaf_entry_at_def) simp
    have s: "snd (find_leaf_entry vm va False 0) = entry_address t (pt_index va)" unfolding fl Some by simp
    show thesis
    proof (cases "direct_map vm (entry_address t (pt_index va)) AND VMM_PAGE_PRESENT = 0")
      case True
      then show thesis using that(1) p s by simp
    next
      case False
      then show thesis using that(2) [OF c Some s entry_address_nonnull [OF table_aligned [OF ok Some] index_bound(4)]] p by (simp add: Let_def)
    qed
  qed
qed

lemma translate_result:
  assumes "vmm_ok vm"
  shows "vmm_virtual_to_physical vm va = (case page_of vm va of None \<Rightarrow> 0 | Some (pa, fl) \<Rightarrow> pa OR (va AND PAGE_OFFSET_MASK))"
  by (rule leaf_lookup [OF assms, of va]) (auto simp: vmm_virtual_to_physical_def Let_def)

lemma unmap_page_result:
  assumes ok: "vmm_ok vm" and un: "vmm_unmap_page vm va = (vm', pa)"
  shows "vmm_ok vm' \<and> frames_of vm' = frames_of vm \<and> hhdm_offset vm' = hhdm_offset vm \<and>
    (if va AND PAGE_OFFSET_MASK = 0
     then page_of vm' = (\<lambda>wa. if page_base wa = va then None else page_of vm wa) \<and> pa = (case page_of vm va of None \<Rightarrow> 0 | Some (a, fl) \<Rightarrow> a)
     else page_of vm' = page_of vm \<and> pa = 0)"
proof (cases "va AND PAGE_OFFSET_MASK = 0")
  case False
  then show ?thesis using un ok by (simp add: vmm_unmap_page_def)
next
  case al: True
  note base = page_base_aligned [OF al]
  show ?thesis
  proof (rule leaf_lookup [OF ok, of va])
    assume "page_of vm va = None" "snd (find_leaf_entry vm va False 0) = 0 \<or>
      direct_map vm (snd (find_leaf_entry vm va False 0)) AND VMM_PAGE_PRESENT = 0"
    moreover have "page_of vm wa = None" if "page_base wa = va" for wa
      using \<open>page_of vm va = None\<close> page_base_same [of wa va] that base by (simp add: page_of_def)
    ultimately show ?thesis using un ok al by (auto simp: vmm_unmap_page_def Let_def fun_eq_iff)
  next
    fix t assume t: "address_is_canonical va" "table_at vm (leaf_path va) = Some t"
      "snd (find_leaf_entry vm va False 0) = entry_address t (pt_index va)" "entry_address t (pt_index va) \<noteq> 0"
      "direct_map vm (entry_address t (pt_index va)) AND VMM_PAGE_PRESENT \<noteq> 0"
      "page_of vm va = Some (direct_map vm (entry_address t (pt_index va)) AND PAGE_ADDRESS_MASK,
         leaf_flags (direct_map vm (entry_address t (pt_index va))))"
    then have u: "vm' = store_word vm (entry_address t (pt_index va)) 0" "pa = direct_map vm (entry_address t (pt_index va)) AND PAGE_ADDRESS_MASK"
      using un al by (auto simp: vmm_unmap_page_def Let_def)
    note st = store_leaf_page [OF ok t(1) base t(2), of 0, folded u(1)]
    show ?thesis using st u t(6) al by (auto simp: fun_eq_iff)
  qed
qed

text \<open>
  C34: the four-level page tables implement a partial map from pages to physical pages with flags.
  While the tables are in order - each in its own frame, none in a frame that is free - translating
  an address looks it up in the map. \<open>vmm_map_page\<close> either adds exactly the requested page, which
  had no mapping and is never both writable and executable, or leaves the whole map as it was,
  although it may have added tables; and it refuses only bad arguments, an address that is not
  canonical or already mapped, or when no frame is left for a table or a huge page is in the way.
  \<open>vmm_unmap_page\<close> removes exactly its page and returns where it was mapped. Every operation keeps
  the tables in order.
\<close>

theorem page_tables_refine_map:
  assumes "vmm_ok vm"
  shows "(\<forall>va. vmm_virtual_to_physical vm va =
       (case page_of vm va of None \<Rightarrow> 0 | Some (pa, fl) \<Rightarrow> pa OR (va AND PAGE_OFFSET_MASK))) \<and>
    (case vmm_map_page vm va pa flags of (vm', mapped) \<Rightarrow> vmm_ok vm' \<and>
       (if mapped
        then page_of vm va = None \<and> address_is_canonical va \<and>
          (leaf_flags flags AND VMM_PAGE_WRITABLE \<noteq> 0 \<longrightarrow> leaf_flags flags AND VMM_PAGE_NO_EXECUTE \<noteq> 0) \<and>
          page_of vm' = (\<lambda>wa. if page_base wa = va then Some (pa, leaf_flags flags) else page_of vm wa)
        else page_of vm' = page_of vm \<and>
          (bad_mapping va pa flags \<or> \<not> address_is_canonical va \<or> page_of vm va \<noteq> None \<or>
           free_frames (frames_of vm') \<subseteq> {0} \<or> blocked vm' va))) \<and>
    (case vmm_unmap_page vm va of (vm', old) \<Rightarrow> vmm_ok vm' \<and>
       (if va AND PAGE_OFFSET_MASK = 0
        then page_of vm' = (\<lambda>wa. if page_base wa = va then None else page_of vm wa) \<and>
          old = (case page_of vm va of None \<Rightarrow> 0 | Some (a, fl) \<Rightarrow> a)
        else page_of vm' = page_of vm \<and> old = 0))"
proof -
  obtain vm1 b where m: "vmm_map_page vm va pa flags = (vm1, b)" by force
  obtain vm2 old where u: "vmm_unmap_page vm va = (vm2, old)" by force
  note mr = map_page_result [OF assms m] and ur = unmap_page_result [OF assms u]
  have "page_of vm1 = page_of vm" if "\<not> b" using mr(4) [OF that] grown_page_of by blast
  then show ?thesis unfolding m u using translate_result [OF assms] mr ur by (cases b; simp only: prod.case if_True if_False simp_thms; blast)
qed

definition sample_vmm :: vmm where
  "sample_vmm = \<lparr>hhdm_offset = 0xFFFF800000000000, root_page_table_physical = 0x100000000,
     root_page_table = 0xFFFF800100000000, vmm_ready = True, direct_map = (\<lambda>_. 0), frames_of = pmm_init sample_map,
     layout_of = initial_layout\<rparr>"

lemma sample_vmm_ok: "vmm_ok sample_vmm"
proof -
  have w: "table_at sample_vmm p = (if p = [] then Some 0xFFFF800100000000 else None)" for p
    by (cases p) (simp_all add: sample_vmm_def table_from_entry_def)
  have "0x100000 \<notin> free_frames p" for p using free_frames_bound by force
  then show ?thesis using sample_map_ok(1) unfolding vmm_ok_def w by (simp add: sample_vmm_def)
qed

theorem page_tables_refine_map_witness:
  "vmm_ok sample_vmm \<and>
   (case vmm_map_page sample_vmm 0xFFFFD00000000000 0x5000 (VMM_PAGE_WRITABLE OR VMM_PAGE_NO_EXECUTE) of (vm', mapped) \<Rightarrow>
      vmm_ok vm' \<and> (mapped \<longrightarrow> page_of vm' 0xFFFFD00000000000 \<noteq> None))"
proof -
  have b: "page_base 0xFFFFD00000000000 = 0xFFFFD00000000000" by (simp add: page_base_aligned vmm_constants)
  obtain vm' m where m: "vmm_map_page sample_vmm 0xFFFFD00000000000 0x5000 (VMM_PAGE_WRITABLE OR VMM_PAGE_NO_EXECUTE) = (vm', m)" by force
  from page_tables_refine_map [OF sample_vmm_ok, where va = "0xFFFFD00000000000" and pa = "0x5000"
      and flags = "VMM_PAGE_WRITABLE OR VMM_PAGE_NO_EXECUTE", unfolded m prod.case]
  have "vmm_ok vm'" "m \<longrightarrow> page_of vm' 0xFFFFD00000000000 \<noteq> None" using b by (auto split: if_splits)
  then show ?thesis using sample_vmm_ok unfolding m by simp
qed

section \<open>Pages for the heap\<close>

lemma free_frame_ok:
  assumes ok: "vmm_ok vm" and f: "f < 0x100000" "f \<noteq> 0" "f \<notin> free_frames (frames_of vm)"
    and no: "\<And>p t. path_ok p \<Longrightarrow> table_at vm p = Some t \<Longrightarrow> (t - hhdm_offset vm) div 4096 \<noteq> f"
  shows "vmm_ok (vm\<lparr>frames_of := pmm_free_frame (frames_of vm) (f * 4096)\<rparr>)"
  using ok no free_frame_result [OF vmm_okD(2) [OF ok] f(3,1,2)] by (simp add: vmm_ok_def)

lemma alloc_frame_ok:
  assumes ok: "vmm_ok vm" and p: "pmm_ok p" "free_frames p \<subseteq> free_frames (frames_of vm)"
  shows "vmm_ok (vm\<lparr>frames_of := p\<rparr>)"
  using ok p by (auto simp: vmm_ok_def)

lemma page_of_frames [simp]: "page_of (vm\<lparr>frames_of := p\<rparr>) = page_of vm"
proof -
  have "leaf_entry_at (vm\<lparr>frames_of := p\<rparr>) q i = leaf_entry_at vm q i" for q i
    by (simp add: leaf_entry_at_def split: option.split)
  then show ?thesis by (simp only: page_of_def fun_eq_iff simp_thms)
qed

lemma heap_backend_result:
  assumes ok: "vmm_ok vm" and hb: "heap_backend_map_page vm va = (vm', b)"
  shows "vmm_ok vm'" "free_frames (frames_of vm') \<subseteq> free_frames (frames_of vm)"
    "\<not> b \<Longrightarrow> page_of vm' = page_of vm"
    "b \<Longrightarrow> va AND PAGE_OFFSET_MASK = 0 \<and> page_of vm va = None \<and> (\<exists>f. f \<in> free_frames (frames_of vm) \<and> f \<notin> free_frames (frames_of vm') \<and>
       page_of vm' = (\<lambda>wa. if page_base wa = va then Some (f * 4096, VMM_PAGE_WRITABLE OR VMM_PAGE_NO_EXECUTE) else page_of vm wa))"
proof -
  obtain q x where q: "pmm_alloc_frame (frames_of vm) = (q, x)" by force
  let ?R = "vmm_ok vm' \<and> free_frames (frames_of vm') \<subseteq> free_frames (frames_of vm) \<and> (\<not> b \<longrightarrow> page_of vm' = page_of vm) \<and>
    (b \<longrightarrow> va AND PAGE_OFFSET_MASK = 0 \<and> page_of vm va = None \<and> (\<exists>f. f \<in> free_frames (frames_of vm) \<and> f \<notin> free_frames (frames_of vm') \<and>
       page_of vm' = (\<lambda>wa. if page_base wa = va then Some (f * 4096, VMM_PAGE_WRITABLE OR VMM_PAGE_NO_EXECUTE) else page_of vm wa)))"
  from alloc_frame_result [OF vmm_okD(2) [OF ok] q] have ?R
  proof (elim disjE exE conjE)
    assume "x = 0" "q = frames_of vm"
    then show ?R using hb q ok by (simp add: heap_backend_map_page_def Let_def)
  next
    fix f assume f: "f \<in> free_frames (frames_of vm)" "f \<noteq> 0" "x = f * 4096" "free_frames q = free_frames (frames_of vm) - {f}" "pmm_ok q"
    have lt: "f < 0x100000" using free_frames_bound [OF f(1)] .
    let ?vm1 = "vm\<lparr>frames_of := q\<rparr>" and ?fl = "VMM_PAGE_WRITABLE OR VMM_PAGE_NO_EXECUTE"
    have ok1: "vmm_ok ?vm1" using f(4,5) by (intro alloc_frame_ok [OF ok]) auto
    have fl: "leaf_flags ?fl = ?fl" by (simp add: leaf_flags_def vmm_constants)
    obtain vm2 m where m: "vmm_map_page ?vm1 va (f * 4096) ?fl = (vm2, m)" by force
    note mr = map_page_result [OF ok1 m]
    have sub: "free_frames (frames_of vm2) \<subseteq> free_frames (frames_of vm) - {f}" using mr(2) f(4) by simp
    show ?R
    proof (cases m)
      case True
      then have "vm' = vm2" "b" using hb q f(3) m frame_address(2) [OF lt f(2)] by (simp_all add: heap_backend_map_page_def Let_def)
      moreover have "page_of vm2 = (\<lambda>wa. if page_base wa = va then Some (f * 4096, ?fl) else page_of vm wa)"
        using mr(3) [OF True] fl by (simp only: page_of_frames)
      ultimately show ?R using mr(1) mr(3) [OF True] sub f(1) by auto
    next
      case False
      then have vm': "vm' = vm2\<lparr>frames_of := pmm_free_frame (frames_of vm2) (f * 4096)\<rparr>" "\<not> b"
        using hb q f(3) m frame_address(2) [OF lt f(2)] by (simp_all add: heap_backend_map_page_def Let_def)
      have g: "grown ?vm1 vm2" using mr(4) [OF False] by blast
      have no: "(t - hhdm_offset vm2) div 4096 \<noteq> f" if "path_ok p" "table_at vm2 p = Some t" for p t
        using g that vmm_okD(7) [OF ok that(1)] f(1,4) by (auto simp: grown_def)
      have "f \<notin> free_frames (frames_of vm2)" using sub by auto
      note fr = free_frame_ok [OF mr(1) lt f(2) this no] free_frame_result(1) [OF vmm_okD(2) [OF mr(1)] this lt f(2)]
      then show ?R using vm' sub f(1) grown_page_of [OF g] by auto
    qed
  qed
  then show "vmm_ok vm'" "free_frames (frames_of vm') \<subseteq> free_frames (frames_of vm)"
    "\<not> b \<Longrightarrow> page_of vm' = page_of vm"
    "b \<Longrightarrow> va AND PAGE_OFFSET_MASK = 0 \<and> page_of vm va = None \<and> (\<exists>f. f \<in> free_frames (frames_of vm) \<and> f \<notin> free_frames (frames_of vm') \<and>
       page_of vm' = (\<lambda>wa. if page_base wa = va then Some (f * 4096, VMM_PAGE_WRITABLE OR VMM_PAGE_NO_EXECUTE) else page_of vm wa))"
    by blast+
qed

end
