(* ===== verification/Kernel_Heap.thy ===== *)
theory Kernel_Heap
  imports Jani_Prelude
begin

text \<open>
  The kernel heap, \<^verbatim>\<open>kernel/mm/heap.c\<close> with \<^verbatim>\<open>kernel/mm/free_list.c\<close>. The memory the
  heap lives in is a map from addresses to 64-bit words, addressed at multiples of 8, because
  the code lays two structures over the same two words of a block: an allocated block starts
  with its size and a magic number, a free block with its size and the address of the next free
  block. A pointer is its address and \<open>NULL\<close> is 0. The page source is the argument
  \<open>map_page\<close> of the operations, with a state of its own: the kernel and the hosted tests
  link different ones. A loop that may not end is an option, \<open>None\<close> meaning that it runs on.
\<close>

section \<open>State\<close>

record 'p heap =
  heap_base :: u64
  heap_limit :: u64
  heap_next :: u64
  heap_mapped_end :: u64
  free_list_heads :: "u64 list"
  memory :: "u64 \<Rightarrow> u64"
  page_source :: 'p

type_synonym 'p map_page = "'p \<Rightarrow> u64 \<Rightarrow> 'p \<times> bool"

abbreviation FREE_LIST_CLASS_COUNT :: nat where "FREE_LIST_CLASS_COUNT \<equiv> 9"

definition HEAP_ALLOCATION_MAGIC :: u64 where "HEAP_ALLOCATION_MAGIC = 0x4A414E4948454150"

section \<open>Free lists by size class\<close>

text \<open>The loop of \<open>class_for_size\<close>, with its two variables.\<close>

function class_loop :: "u64 \<Rightarrow> nat \<Rightarrow> u64 \<Rightarrow> nat" where
  "class_loop sz class_index class_limit =
     (if class_index < FREE_LIST_CLASS_COUNT - 1 \<and> sz > class_limit
      then class_loop sz (class_index + 1) (class_limit * 2) else class_index)"
  by pat_completeness auto
termination by (relation "measure (\<lambda>(sz, class_index, class_limit). FREE_LIST_CLASS_COUNT - class_index)") auto

declare class_loop.simps [simp del]

definition class_for_size :: "u64 \<Rightarrow> nat" where
  "class_for_size sz = class_loop sz 0 32"

definition heap_free_list_reset :: "'p heap \<Rightarrow> 'p heap" where
  "heap_free_list_reset h = h\<lparr>free_list_heads := replicate FREE_LIST_CLASS_COUNT 0\<rparr>"

definition heap_free_list_add :: "'p heap \<Rightarrow> u64 \<Rightarrow> u64 \<Rightarrow> 'p heap \<times> bool" where
  "heap_free_list_add h blk sz =
     (if blk = 0 \<or> blk mod 16 \<noteq> 0 \<or> sz < 16 then (h, False)
      else let class_index = class_for_size sz in
        (h\<lparr>memory := (memory h)(blk := sz, blk + 8 := free_list_heads h ! class_index),
           free_list_heads := (free_list_heads h)[class_index := blk]\<rparr>, True))"

text \<open>
  The inner loop of \<open>heap_free_list_take\<close>: the heap and, if the class has a block that is
  large enough, its address and size.
\<close>

partial_function (option) scan_class ::
    "'p heap \<Rightarrow> nat \<Rightarrow> u64 \<Rightarrow> u64 \<Rightarrow> u64 \<Rightarrow> ('p heap \<times> (u64 \<times> u64) option) option" where
  "scan_class h class_index minimum_size previous current =
     (if current = 0 then Some (h, None)
      else if memory h current \<ge> minimum_size then
        Some (if previous = 0
              then h\<lparr>free_list_heads := (free_list_heads h)[class_index := memory h (current + 8)]\<rparr>
              else h\<lparr>memory := (memory h)(previous + 8 := memory h (current + 8))\<rparr>,
              Some (current, memory h current))
      else scan_class h class_index minimum_size current (memory h (current + 8)))"

declare scan_class.simps [code]

function scan_classes :: "'p heap \<Rightarrow> u64 \<Rightarrow> nat \<Rightarrow> ('p heap \<times> (u64 \<times> u64) option) option" where
  "scan_classes h minimum_size class_index =
     (if class_index < FREE_LIST_CLASS_COUNT then
        case scan_class h class_index minimum_size 0 (free_list_heads h ! class_index) of
          None \<Rightarrow> None
        | Some (h1, Some r) \<Rightarrow> Some (h1, Some r)
        | Some (h1, None) \<Rightarrow> scan_classes h1 minimum_size (class_index + 1)
      else Some (h, None))"
  by pat_completeness auto
termination by (relation "measure (\<lambda>(h, minimum_size, class_index). FREE_LIST_CLASS_COUNT - class_index)") auto

declare scan_classes.simps [simp del]

definition heap_free_list_take :: "'p heap \<Rightarrow> u64 \<Rightarrow> ('p heap \<times> (u64 \<times> u64) option) option" where
  "heap_free_list_take h minimum_size =
     (if minimum_size = 0 then Some (h, None) else scan_classes h minimum_size (class_for_size minimum_size))"

section \<open>Allocation\<close>

definition align_up :: "u64 \<Rightarrow> u64 \<Rightarrow> u64" where
  "align_up value alignment = (value + (alignment - 1)) AND NOT (alignment - 1)"

definition calculate_block_size :: "u64 \<Rightarrow> u64 option" where
  "calculate_block_size requested_size =
     (if requested_size > UINT64_MAX - 16 then None
      else let size_with_header = requested_size + 16 in
        if size_with_header > UINT64_MAX - (16 - 1) then None
        else Some (align_up size_with_header 16))"

definition kheap_init :: "'p heap \<Rightarrow> u64 \<Rightarrow> u64 \<Rightarrow> 'p heap" where
  "kheap_init h base sz =
     (let h1 = heap_free_list_reset (h\<lparr>heap_base := 0, heap_limit := 0, heap_next := 0, heap_mapped_end := 0\<rparr>) in
      if base = 0 \<or> sz = 0 \<or> base mod 4096 \<noteq> 0 \<or> sz > UINT64_MAX - base then h1
      else h1\<lparr>heap_base := base, heap_limit := base + sz, heap_next := base, heap_mapped_end := base\<rparr>)"

partial_function (option) map_loop :: "'p map_page \<Rightarrow> 'p heap \<Rightarrow> u64 \<Rightarrow> ('p heap \<times> bool) option" where
  "map_loop map_page h new_next =
     (if heap_mapped_end h < new_next then
        case map_page (page_source h) (heap_mapped_end h) of
          (p, mapped) \<Rightarrow>
            if \<not> mapped then Some (h\<lparr>page_source := p\<rparr>, False)
            else map_loop map_page (h\<lparr>page_source := p, heap_mapped_end := heap_mapped_end h + 4096\<rparr>) new_next
      else Some (h, True))"

declare map_loop.simps [code]

definition write_header :: "'p heap \<Rightarrow> u64 \<Rightarrow> u64 \<Rightarrow> 'p heap" where
  "write_header h header block_size =
     h\<lparr>memory := (memory h)(header := block_size, header + 8 := HEAP_ALLOCATION_MAGIC)\<rparr>"

text \<open>The result is the address after the header, 0 for a \<open>NULL\<close> pointer.\<close>

definition kmalloc :: "'p map_page \<Rightarrow> 'p heap \<Rightarrow> u64 \<Rightarrow> ('p heap \<times> u64) option" where
  "kmalloc map_page h sz =
     (if sz = 0 \<or> heap_base h = 0 then Some (h, 0)
      else case calculate_block_size sz of
        None \<Rightarrow> Some (h, 0)
      | Some block_size \<Rightarrow>
          (case heap_free_list_take h block_size of
             None \<Rightarrow> None
           | Some (h1, Some (header, reused_size)) \<Rightarrow> Some (write_header h1 header reused_size, header + 16)
           | Some (h1, None) \<Rightarrow>
               let block_start = align_up (heap_next h1) 16 in
               if block_start > heap_limit h1 \<or> block_size > heap_limit h1 - block_start then Some (h1, 0)
               else
                 let new_next = block_start + block_size in
                 case map_loop map_page h1 new_next of
                   None \<Rightarrow> None
                 | Some (h2, False) \<Rightarrow> Some (h2, 0)
                 | Some (h2, True) \<Rightarrow>
                     Some ((write_header h2 block_start block_size)\<lparr>heap_next := new_next\<rparr>, block_start + 16)))"

definition kfree :: "'p heap \<Rightarrow> u64 \<Rightarrow> 'p heap" where
  "kfree h p =
     (if p = 0 then h
      else let header = p - 16 in
        if memory h (header + 8) \<noteq> HEAP_ALLOCATION_MAGIC then h
        else let block_size = memory h header in
          fst (heap_free_list_add (h\<lparr>memory := (memory h)(header + 8 := 0)\<rparr>) header block_size))"

text \<open>\<open>memcpy\<close> of a number of bytes that is a multiple of 8, between disjoint regions.\<close>

definition copy_words :: "(u64 \<Rightarrow> u64) \<Rightarrow> u64 \<Rightarrow> u64 \<Rightarrow> u64 \<Rightarrow> u64 \<Rightarrow> u64" where
  "copy_words m dest src sz x =
     (if (x - dest) mod 8 = 0 \<and> x - dest < sz then m (src + (x - dest)) else m x)"

definition krealloc :: "'p map_page \<Rightarrow> 'p heap \<Rightarrow> u64 \<Rightarrow> u64 \<Rightarrow> ('p heap \<times> u64) option" where
  "krealloc map_page h p new_size =
     (if p = 0 then kmalloc map_page h new_size
      else if new_size = 0 then Some (kfree h p, 0)
      else let header = p - 16 in
        if memory h (header + 8) \<noteq> HEAP_ALLOCATION_MAGIC then Some (h, 0)
        else if memory h header < 16 then Some (h, 0)
        else let old_capacity = memory h header - 16 in
          if new_size \<le> old_capacity then Some (h, p)
          else case kmalloc map_page h new_size of
            None \<Rightarrow> None
          | Some (h1, new_memory) \<Rightarrow>
              if new_memory = 0 then Some (h1, 0)
              else Some (kfree (h1\<lparr>memory := copy_words (memory h1) new_memory p old_capacity\<rparr>) p, new_memory))"

definition kheap_used_bytes :: "'p heap \<Rightarrow> u64" where
  "kheap_used_bytes h = heap_next h - heap_base h"

section \<open>Blocks\<close>

definition block :: "u64 \<Rightarrow> u64 \<Rightarrow> nat set" where
  "block a sz = {unat a..<unat a + unat sz}"

text \<open>A chain of free blocks in memory, from \<open>p\<close> to the end of the list.\<close>

primrec chain :: "(u64 \<Rightarrow> u64) \<Rightarrow> u64 \<Rightarrow> u64 list \<Rightarrow> bool" where
  "chain m p [] \<longleftrightarrow> p = 0"
| "chain m p (a # as) \<longleftrightarrow> p = a \<and> a \<noteq> 0 \<and> chain m (m (a + 8)) as"

text \<open>
  The invariant, over the sizes \<open>B\<close> of all blocks, the set \<open>A\<close> of the headers of the
  allocated ones and the free list \<open>F c\<close> of each class.
\<close>

definition blocks_ok :: "'p heap \<Rightarrow> (u64 \<rightharpoonup> u64) \<Rightarrow> bool" where
  "blocks_ok h B \<longleftrightarrow>
     (\<forall>a s. B a = Some s \<longrightarrow> a mod 16 = 0 \<and> s mod 16 = 0 \<and> 32 \<le> s \<and> heap_base h \<le> a \<and>
        unat a + unat s \<le> unat (heap_next h) \<and> memory h a = s) \<and>
     (\<forall>a s b t. B a = Some s \<longrightarrow> B b = Some t \<longrightarrow> a \<noteq> b \<longrightarrow> block a s \<inter> block b t = {})"

text \<open>\<open>D\<close> is the set of the blocks that are on no list.\<close>

definition list_ok :: "'p heap \<Rightarrow> (u64 \<rightharpoonup> u64) \<Rightarrow> u64 set \<Rightarrow> nat \<Rightarrow> u64 list \<Rightarrow> bool" where
  "list_ok h B D c as \<longleftrightarrow> chain (memory h) (free_list_heads h ! c) as \<and> distinct as \<and>
     set as = {a \<in> dom B - D. class_for_size (the (B a)) = c}"

definition lists_ok :: "'p heap \<Rightarrow> (u64 \<rightharpoonup> u64) \<Rightarrow> u64 set \<Rightarrow> (nat \<Rightarrow> u64 list) \<Rightarrow> bool" where
  "lists_ok h B D F \<longleftrightarrow> length (free_list_heads h) = FREE_LIST_CLASS_COUNT \<and> D \<subseteq> dom B \<and>
     (\<forall>c<FREE_LIST_CLASS_COUNT. list_ok h B D c (F c))"

definition magic_ok :: "'p heap \<Rightarrow> u64 set \<Rightarrow> bool" where
  "magic_ok h A \<longleftrightarrow> (\<forall>a\<in>A. memory h (a + 8) = HEAP_ALLOCATION_MAGIC)"

definition bounds_ok :: "'p heap \<Rightarrow> bool" where
  "bounds_ok h \<longleftrightarrow> heap_base h \<noteq> 0 \<and> heap_base h mod 4096 = 0 \<and> heap_base h \<le> heap_next h \<and>
     heap_next h \<le> heap_limit h \<and> heap_next h mod 16 = 0 \<and> heap_next h \<le> heap_mapped_end h \<and>
     heap_mapped_end h mod 4096 = 0 \<and> unat (heap_limit h) + 4096 \<le> 2 ^ 64 \<and>
     unat (heap_mapped_end h) < unat (heap_limit h) + 4096"

definition heap_inv :: "'p heap \<Rightarrow> (u64 \<rightharpoonup> u64) \<Rightarrow> u64 set \<Rightarrow> (nat \<Rightarrow> u64 list) \<Rightarrow> bool" where
  "heap_inv h B A F \<longleftrightarrow> bounds_ok h \<and> blocks_ok h B \<and> lists_ok h B A F \<and> magic_ok h A"

section \<open>Size classes\<close>

lemma class_loop_bound: "class_index < FREE_LIST_CLASS_COUNT \<Longrightarrow> class_loop sz class_index class_limit < FREE_LIST_CLASS_COUNT"
  by (induction sz class_index class_limit rule: class_loop.induct) (subst class_loop.simps, auto)

lemma class_loop_ge: "class_index \<le> class_loop sz class_index class_limit"
proof (induction sz class_index class_limit rule: class_loop.induct)
  case (1 sz i l)
  then show ?case by (subst class_loop.simps) auto
qed

lemma class_loop_mono: "sz \<le> sz' \<Longrightarrow> class_loop sz class_index class_limit \<le> class_loop sz' class_index class_limit"
proof (induction sz class_index class_limit rule: class_loop.induct)
  case (1 sz i l)
  show ?case
  proof (cases "i < FREE_LIST_CLASS_COUNT - 1 \<and> sz > l")
    case True
    then have "sz' > l" using "1.prems" by (meson less_le_trans)
    then show ?thesis using True 1 by (simp add: class_loop.simps [of _ i])
  next
    case False
    then have "class_loop sz i l = i" by (subst class_loop.simps) auto
    then show ?thesis by (simp add: class_loop_ge)
  qed
qed

lemma class_for_size_bound [simp]: "class_for_size sz < FREE_LIST_CLASS_COUNT"
  by (simp add: class_for_size_def class_loop_bound)

lemma class_for_size_mono: "sz \<le> sz' \<Longrightarrow> class_for_size sz \<le> class_for_size sz'"
  by (simp add: class_for_size_def class_loop_mono)

section \<open>Chains\<close>

lemma chain_cong: "(\<And>a. a \<in> set as \<Longrightarrow> m' (a + 8) = m (a + 8)) \<Longrightarrow> chain m' p as = chain m p as"
  by (induction as arbitrary: p) auto

text \<open>What unlinking the block \<open>a\<close> after \<open>previous\<close> does.\<close>

definition unlink :: "'p heap \<Rightarrow> nat \<Rightarrow> u64 \<Rightarrow> u64 \<Rightarrow> 'p heap" where
  "unlink h class_index previous a =
     (if previous = 0
      then h\<lparr>free_list_heads := (free_list_heads h)[class_index := memory h (a + 8)]\<rparr>
      else h\<lparr>memory := (memory h)(previous + 8 := memory h (a + 8))\<rparr>)"

lemma scan_class_result:
  assumes "chain (memory h) current as"
  shows "(\<forall>a\<in>set as. memory h a < minimum) \<and> scan_class h c minimum previous current = Some (h, None) \<or>
    (\<exists>pre a post. as = pre @ a # post \<and> minimum \<le> memory h a \<and>
       scan_class h c minimum previous current =
         Some (unlink h c (if pre = [] then previous else last pre) a, Some (a, memory h a)))"
  using assms
proof (induction as arbitrary: previous current)
  case Nil
  then show ?case by (subst scan_class.simps) simp
next
  case (Cons b bs)
  then have b: "current = b" "b \<noteq> 0" "chain (memory h) (memory h (b + 8)) bs" by auto
  show ?case
  proof (cases "minimum \<le> memory h b")
    case True
    then have "scan_class h c minimum previous current = Some (unlink h c previous b, Some (b, memory h b))"
      using b by (subst scan_class.simps) (simp add: unlink_def)
    then show ?thesis using True by (intro disjI2 exI [of _ "[]"]) auto
  next
    case False
    then have step: "scan_class h c minimum previous current = scan_class h c minimum b (memory h (b + 8))"
      using b by (subst scan_class.simps) simp
    from Cons.IH [OF b(3), of b] show ?thesis
    proof (elim disjE exE conjE)
      assume "\<forall>a\<in>set bs. memory h a < minimum" "scan_class h c minimum b (memory h (b + 8)) = Some (h, None)"
      then show ?thesis using False by (simp add: step)
    next
      fix pre a post
      assume "bs = pre @ a # post" "minimum \<le> memory h a" "scan_class h c minimum b (memory h (b + 8)) =
        Some (unlink h c (if pre = [] then b else last pre) a, Some (a, memory h a))"
      then show ?thesis unfolding step by (intro disjI2 exI [of _ "b # pre"]) auto
    qed
  qed
qed

lemma chain_unlink:
  "chain m p (pre @ a # post) \<Longrightarrow> distinct (pre @ a # post) \<Longrightarrow> pre \<noteq> [] \<Longrightarrow>
     chain (m(last pre + 8 := m (a + 8))) p (pre @ post)"
proof (induction pre arbitrary: p)
  case (Cons b bs)
  show ?case
  proof (cases "bs = []")
    case True
    with Cons.prems have "chain (m(b + 8 := m (a + 8))) (m (a + 8)) post = chain m (m (a + 8)) post"
      by (intro chain_cong) auto
    then show ?thesis using Cons.prems True by (simp add: fun_upd_def)
  next
    case False
    then have "last bs \<in> set bs" by simp
    then have "last bs \<noteq> b" using Cons.prems(2) by auto
    then show ?thesis using Cons False by auto
  qed
qed simp

lemma chain_unlink_first: "chain m p (a # post) \<Longrightarrow> p = a \<and> chain m (m (a + 8)) post"
  by simp

lemma chain_nonzero: "chain m p as \<Longrightarrow> 0 \<notin> set as"
  by (induction as arbitrary: p) auto

section \<open>Addresses of a block\<close>

text \<open>The two words of a block that the allocator uses.\<close>

definition header_words :: "(u64 \<rightharpoonup> u64) \<Rightarrow> u64 set" where
  "header_words B = dom B \<union> (\<lambda>a. a + 8) ` dom B"

lemma blocks_okD:
  assumes "blocks_ok h B" "B a = Some s"
  shows "a mod 16 = 0" "s mod 16 = 0" "32 \<le> s" "heap_base h \<le> a"
    "unat a + unat s \<le> unat (heap_next h)" "memory h a = s"
  using assms unfolding blocks_ok_def by blast+

lemma blocks_disjoint:
  "blocks_ok h B \<Longrightarrow> B a = Some s \<Longrightarrow> B b = Some t \<Longrightarrow> a \<noteq> b \<Longrightarrow> block a s \<inter> block b t = {}"
  unfolding blocks_ok_def by blast

lemma block_addresses:
  assumes "blocks_ok h B" "B a = Some s"
  shows "unat (a + 8) = unat a + 8" "unat (a + 16) = unat a + 16" "unat a mod 16 = 0" "32 \<le> unat s"
proof -
  note d = blocks_okD [OF assms]
  show s: "32 \<le> unat s" using d(3) by (simp add: word_le_unat)
  have "unat a + 32 < 2 ^ 64" using d(5) s unat64_less [of "heap_next h"] by linarith
  then show "unat (a + 8) = unat a + 8" "unat (a + 16) = unat a + 16" by (simp_all add: unat_word_ariths)
  show "unat a mod 16 = 0" using arg_cong [OF d(1), of unat] by (simp add: unat_mod)
qed

lemma header_in_block:
  assumes "blocks_ok h B" "B a = Some s"
  shows "unat a \<in> block a s" "unat (a + 8) \<in> block a s"
  using block_addresses [OF assms] by (auto simp: block_def)

lemma header_separate:
  assumes "blocks_ok h B" "B a = Some s" "B b = Some t"
  shows "a + 8 \<noteq> b"
proof
  assume eq: "a + 8 = b"
  have "(unat a + 8) mod 16 = 0"
    using block_addresses [OF assms(1,2)] block_addresses [OF assms(1,3)] eq by simp
  then show False using block_addresses(3) [OF assms(1,2)] by presburger
qed

text \<open>A word of the payload of a block is not a header word of any block.\<close>

definition block_payload :: "u64 \<Rightarrow> u64 \<Rightarrow> nat set" where
  "block_payload a s = {unat a + 16..<unat a + unat s}"

lemma payload_not_header:
  assumes "blocks_ok h B" "B a = Some s" "unat x \<in> block_payload a s"
  shows "x \<notin> header_words B"
proof
  assume "x \<in> header_words B"
  then obtain b t where b: "B b = Some t" "x = b \<or> x = b + 8" by (auto simp: header_words_def)
  have x: "unat x \<in> block a s" using assms(3) by (auto simp: block_def block_payload_def)
  have "unat x \<in> block b t" using b(2) header_in_block [OF assms(1) b(1)] by auto
  then have "b = a" using blocks_disjoint [OF assms(1,2) b(1)] x by blast
  then show False using b(2) assms(3) block_addresses [OF assms(1,2)] by (auto simp: block_payload_def)
qed

text \<open>Each part of the invariant reads only the words it is about.\<close>

lemma blocks_ok_cong:
  assumes "blocks_ok h B" "heap_base h' = heap_base h" "unat (heap_next h) \<le> unat (heap_next h')"
    "\<And>a. a \<in> dom B \<Longrightarrow> memory h' a = memory h a"
  shows "blocks_ok h' B"
proof -
  have "unat a + unat s \<le> unat (heap_next h')" if "B a = Some s" for a s
    using blocks_okD(5) [OF assms(1) that] assms(3) by linarith
  moreover have "memory h' a = s" if "B a = Some s" for a s
    using that assms(4) [of a] blocks_okD(6) [OF assms(1) that] by auto
  ultimately show ?thesis using assms(1) assms(2) unfolding blocks_ok_def by (metis (no_types))
qed

lemma lists_ok_cong:
  assumes "lists_ok h B D F" "free_list_heads h' = free_list_heads h"
    "\<And>a. a \<in> dom B - D \<Longrightarrow> memory h' (a + 8) = memory h (a + 8)"
  shows "lists_ok h' B D F"
proof -
  have "list_ok h' B D c (F c)" if "c < FREE_LIST_CLASS_COUNT" for c
  proof -
    have l: "list_ok h B D c (F c)" using assms(1) that by (simp add: lists_ok_def)
    then have "chain (memory h') (free_list_heads h ! c) (F c) = chain (memory h) (free_list_heads h ! c) (F c)"
      using assms(3) by (intro chain_cong) (auto simp: list_ok_def)
    then show ?thesis using l assms(2) by (simp add: list_ok_def)
  qed
  then show ?thesis using assms(1,2) by (simp add: lists_ok_def)
qed

lemma magic_ok_cong: "magic_ok h A \<Longrightarrow> (\<And>a. a \<in> A \<Longrightarrow> memory h' (a + 8) = memory h (a + 8)) \<Longrightarrow> magic_ok h' A"
  by (simp add: magic_ok_def)

lemma bounds_ok_cong:
  "bounds_ok h \<Longrightarrow> heap_base h' = heap_base h \<Longrightarrow> heap_limit h' = heap_limit h \<Longrightarrow> heap_next h' = heap_next h \<Longrightarrow>
   heap_mapped_end h' = heap_mapped_end h \<Longrightarrow> bounds_ok h'"
  by (simp add: bounds_ok_def)

lemma heap_invD:
  assumes "heap_inv h B A F"
  shows "bounds_ok h" "blocks_ok h B" "lists_ok h B A F" "magic_ok h A" "A \<subseteq> dom B"
  using assms by (simp_all add: heap_inv_def lists_ok_def)

lemma heap_inv_memory:
  assumes inv: "heap_inv h B A F" and same: "\<And>x. x \<in> header_words B \<Longrightarrow> m x = memory h x"
  shows "heap_inv (h\<lparr>memory := m\<rparr>) B A F"
proof -
  have dom: "m a = memory h a" "m (a + 8) = memory h (a + 8)" if "a \<in> dom B" for a
    using that same by (auto simp: header_words_def)
  note d = heap_invD [OF inv]
  show ?thesis unfolding heap_inv_def
  proof (intro conjI)
    show "bounds_ok (h\<lparr>memory := m\<rparr>)" by (rule bounds_ok_cong [OF d(1)]) simp_all
    show "blocks_ok (h\<lparr>memory := m\<rparr>) B" by (rule blocks_ok_cong [OF d(2)]) (simp_all add: dom(1))
    show "lists_ok (h\<lparr>memory := m\<rparr>) B A F" by (rule lists_ok_cong [OF d(3)]) (simp_all add: dom(2))
    show "magic_ok (h\<lparr>memory := m\<rparr>) A" by (rule magic_ok_cong [OF d(4)]) (use d(5) dom(2) in auto)
  qed
qed

section \<open>Taking and adding a free block\<close>

lemma unlink_simps [simp]:
  "heap_base (unlink h c q a) = heap_base h" "heap_limit (unlink h c q a) = heap_limit h"
  "heap_next (unlink h c q a) = heap_next h" "heap_mapped_end (unlink h c q a) = heap_mapped_end h"
  "memory (unlink h c q a) = (if q = 0 then memory h else (memory h)(q + 8 := memory h (a + 8)))"
  "free_list_heads (unlink h c q a) =
     (if q = 0 then (free_list_heads h)[c := memory h (a + 8)] else free_list_heads h)"
  by (simp_all add: unlink_def)

lemma write_header_simps [simp]:
  "heap_base (write_header h a s) = heap_base h" "heap_limit (write_header h a s) = heap_limit h"
  "heap_next (write_header h a s) = heap_next h" "heap_mapped_end (write_header h a s) = heap_mapped_end h"
  "memory (write_header h a s) = (memory h)(a := s, a + 8 := HEAP_ALLOCATION_MAGIC)"
  "free_list_heads (write_header h a s) = free_list_heads h"
  by (simp_all add: write_header_def)

lemma lists_ok_unlink:
  assumes lists: "lists_ok h B D F" and c: "c < FREE_LIST_CLASS_COUNT" and split: "F c = pre @ a # post"
  shows "lists_ok (unlink h c (if pre = [] then 0 else last pre) a) B (insert a D) (F(c := pre @ post))"
proof -
  define q where "q = (if pre = [] then 0 else last pre)"
  have L: "\<And>d. d < FREE_LIST_CLASS_COUNT \<Longrightarrow> list_ok h B D d (F d)" using lists by (simp add: lists_ok_def)
  have ch: "chain (memory h) (free_list_heads h ! c) (pre @ a # post)" and di: "distinct (pre @ a # post)"
    and set: "set (pre @ a # post) = {a \<in> dom B - D. class_for_size (the (B a)) = c}"
    using L [OF c] split by (simp_all add: list_ok_def)
  have q: "q \<noteq> 0 \<Longrightarrow> q \<in> set pre" "q = 0 \<longleftrightarrow> pre = []"
    using chain_nonzero [OF ch] by (cases pre rule: rev_cases; auto simp: q_def)+
  have len: "length (free_list_heads h) = FREE_LIST_CLASS_COUNT" using lists by (simp add: lists_ok_def)
  have "list_ok (unlink h c q a) B (insert a D) c (pre @ post)"
  proof -
    have "chain (memory (unlink h c q a)) (free_list_heads (unlink h c q a) ! c) (pre @ post)"
      using chain_unlink [OF ch di] ch q(2) c len by (auto simp: q_def)
    moreover have "set (pre @ post) = set (pre @ a # post) - {a}" using di by auto
    ultimately show ?thesis using di unfolding list_ok_def set by auto
  qed
  moreover have "list_ok (unlink h c q a) B (insert a D) d (F d)" if d: "d < FREE_LIST_CLASS_COUNT" "d \<noteq> c" for d
  proof -
    have off: "b \<notin> set (F c)" if "b \<in> set (F d)" for b
      using that d(2) L [OF d(1)] L [OF c] by (auto simp: list_ok_def)
    have "chain (memory (unlink h c q a)) p (F d) = chain (memory h) p (F d)" for p
      using off q(1) split by (intro chain_cong) auto
    moreover have "a \<notin> set (F d)" using off split by auto
    ultimately show ?thesis using L [OF d(1)] d(2) by (auto simp: list_ok_def)
  qed
  ultimately show ?thesis
    using lists set len unfolding q_def [symmetric] by (auto simp: lists_ok_def)
qed

text \<open>A block taken from its free list and turned into an allocated one.\<close>

lemma take_keeps_inv:
  assumes inv: "heap_inv h B A F" and c: "c < FREE_LIST_CLASS_COUNT" and split: "F c = pre @ a # post"
    and Ba: "B a = Some s"
  shows "heap_inv (write_header (unlink h c (if pre = [] then 0 else last pre) a) a s) B (insert a A) (F(c := pre @ post))"
    (is "heap_inv ?h _ _ _")
proof -
  define q where "q = (if pre = [] then 0 else last pre)"
  note d = heap_invD [OF inv]
  have l: "list_ok h B A c (pre @ a # post)" using d(3) c split by (auto simp: lists_ok_def dest: spec [of _ c])
  then have free: "set (pre @ a # post) \<subseteq> dom B - A" unfolding list_ok_def by blast
  have qB: "q \<noteq> 0 \<Longrightarrow> q \<in> dom B - A" using free by (cases pre rule: rev_cases) (auto simp: q_def)
  have sep: "b \<in> dom B \<Longrightarrow> e \<in> dom B \<Longrightarrow> b + 8 \<noteq> e" for b e using header_separate [OF d(2)] by blast
  have a: "a \<in> dom B" "a \<notin> A" "memory h a = s" using free Ba blocks_okD(6) [OF d(2) Ba] by auto
  show ?thesis unfolding heap_inv_def q_def [symmetric]
  proof (intro conjI)
    show "bounds_ok (write_header (unlink h c q a) a s)" by (rule bounds_ok_cong [OF d(1)]) simp_all
    show "blocks_ok (write_header (unlink h c q a) a s) B"
    proof (rule blocks_ok_cong [OF d(2)])
      fix b assume b: "b \<in> dom B"
      show "memory (write_header (unlink h c q a) a s) b = memory h b"
        using sep [OF a(1) b, THEN not_sym] sep [OF _ b, of q, THEN not_sym] qB a(3) by auto
    qed simp_all
    show "lists_ok (write_header (unlink h c q a) a s) B (insert a A) (F(c := pre @ post))"
      using lists_ok_unlink [OF d(3) c split] unfolding q_def [symmetric]
      by (rule lists_ok_cong) (use sep a(1) in auto)
    show "magic_ok (write_header (unlink h c q a) a s) (insert a A)"
      using d(4,5) sep a qB by (auto simp: magic_ok_def)
  qed
qed

text \<open>An allocated block put on the list of its class.\<close>

lemma add_keeps_inv:
  assumes inv: "heap_inv h B A F" and a: "a \<in> A" and Ba: "B a = Some s"
  shows "heap_inv (h\<lparr>memory := (memory h)(a := s, a + 8 := free_list_heads h ! class_for_size s),
            free_list_heads := (free_list_heads h)[class_for_size s := a]\<rparr>) B (A - {a})
          (F(class_for_size s := a # F (class_for_size s)))" (is "heap_inv ?h B _ ?F")
proof -
  note d = heap_invD [OF inv]
  have len: "length (free_list_heads h) = FREE_LIST_CLASS_COUNT" using d(3) by (simp add: lists_ok_def)
  have sep: "b \<in> dom B \<Longrightarrow> e \<in> dom B \<Longrightarrow> b + 8 \<noteq> e" for b e using header_separate [OF d(2)] by blast
  have a': "a \<in> dom B" "memory h a = s" using Ba blocks_okD(6) [OF d(2) Ba] by auto
  have "heap_base h \<noteq> 0" using d(1) by (simp add: bounds_ok_def)
  then have a0: "a \<noteq> 0" using blocks_okD(4) [OF d(2) Ba] by auto
  have "list_ok ?h B (A - {a}) c (?F c)" if c: "c < FREE_LIST_CLASS_COUNT" for c
  proof -
    have l: "list_ok h B A c (F c)" using d(3) c by (simp add: lists_ok_def)
    then have off: "b \<in> dom B \<and> b \<noteq> a" if "b \<in> set (F c)" for b using that a by (auto simp: list_ok_def)
    have "chain (memory ?h) p (F c) = chain (memory h) p (F c)" for p
      using off sep a'(1) by (intro chain_cong) auto
    then show ?thesis using l off a0 a a' Ba len c by (auto simp: list_ok_def nth_list_update')
  qed
  moreover have "blocks_ok ?h B"
    by (rule blocks_ok_cong [OF d(2)]) (use sep [OF a'(1), THEN not_sym] a'(2) in auto)
  moreover have "magic_ok ?h (A - {a})" using d(4,5) sep [OF _ a'(1)] by (auto simp: magic_ok_def)
  moreover have "bounds_ok ?h" by (rule bounds_ok_cong [OF d(1)]) simp_all
  ultimately show ?thesis using len d(5) by (auto simp: heap_inv_def lists_ok_def)
qed

section \<open>Rounding\<close>

lemma align_up_16:
  assumes "unat v + 15 < 2 ^ 64"
  shows "unat (align_up v 16) = (unat v + 15) div 16 * 16"
proof -
  have "unat (v + 15) = unat v + 15" using assms by (simp add: unat_word_ariths)
  then show ?thesis using unat_round_down [of 4 "v + 15"] by (simp add: align_up_def mask_eq_exp_minus_1)
qed

lemma word_mod_16: "v mod 16 = (0 :: u64) \<longleftrightarrow> unat v mod 16 = 0"
  by (simp add: word_unat_eq_iff unat_mod)

lemma align_up_aligned:
  assumes "v mod 16 = 0" "unat v + 15 < 2 ^ 64"
  shows "align_up v 16 = v"
  proof -
  have "unat v mod 16 = 0" using assms(1) by (simp add: word_mod_16)
  then have "(unat v + 15) div 16 * 16 = unat v" by presburger
  then show ?thesis using align_up_16 [OF assms(2)] by (simp add: word_unat_eq_iff)
qed

lemma calculate_block_size_result:
  assumes "0 < sz"
  shows "calculate_block_size sz = None \<and> 2 ^ 64 \<le> unat sz + 31 \<or>
    (\<exists>s. calculate_block_size sz = Some s \<and> s mod 16 = 0 \<and> unat sz + 16 \<le> unat s \<and> unat s < unat sz + 32 \<and> 32 \<le> s)"
proof -
  have "unat sz \<noteq> 0" using assms by (metis unat_0 word_unat_eq_iff less_irrefl)
  then have pos: "0 < unat sz" by simp
  consider "2 ^ 64 \<le> unat sz + 16" | "unat sz + 16 < 2 ^ 64" "2 ^ 64 \<le> unat sz + 31" | "unat sz + 31 < 2 ^ 64"
    by linarith
  then show ?thesis
  proof cases
    case 1
    then show ?thesis by (simp add: calculate_block_size_def word_lt_unat)
  next
    case 2
    then have "unat (sz + 16) = unat sz + 16" by (simp add: unat_word_ariths)
    then show ?thesis using 2 by (simp add: calculate_block_size_def word_lt_unat)
  next
    case 3
    then have u: "unat (sz + 16) = unat sz + 16" by (simp add: unat_word_ariths)
    then have "unat (align_up (sz + 16) 16) = (unat sz + 31) div 16 * 16"
      using 3 align_up_16 [of "sz + 16"] by simp
    moreover have "calculate_block_size sz = Some (align_up (sz + 16) 16)"
      using 3 u by (simp add: calculate_block_size_def word_lt_unat)
    ultimately show ?thesis using pos by (simp add: word_mod_16 word_le_unat) linarith
  qed
qed

section \<open>Mapping pages\<close>

lemma map_step_bounds:
  assumes "bounds_ok h" "new_next \<le> heap_limit h" "heap_mapped_end h < new_next"
  shows "unat (heap_mapped_end h + 4096) = unat (heap_mapped_end h) + 4096"
    "bounds_ok (h\<lparr>heap_mapped_end := heap_mapped_end h + 4096\<rparr>)"
proof -
  show e: "unat (heap_mapped_end h + 4096) = unat (heap_mapped_end h) + 4096"
    using assms by (simp add: bounds_ok_def word_order_unat unat_word_ariths)
  have "unat (heap_mapped_end h + 4096) mod 4096 = 0"
    using assms(1) by (simp add: e bounds_ok_def word_unat_eq_iff unat_mod)
  then show "bounds_ok (h\<lparr>heap_mapped_end := heap_mapped_end h + 4096\<rparr>)"
    using assms e by (auto simp: bounds_ok_def word_order_unat word_unat_eq_iff unat_mod)
qed

lemma map_loop_result:
  assumes "bounds_ok h" "new_next \<le> heap_limit h"
  shows "\<exists>p e ok. map_loop map_page h new_next = Some (h\<lparr>page_source := p, heap_mapped_end := e\<rparr>, ok) \<and>
    (ok \<longrightarrow> new_next \<le> e) \<and> bounds_ok (h\<lparr>heap_mapped_end := e\<rparr>)"
  using assms
proof (induction "unat new_next - unat (heap_mapped_end h)" arbitrary: h rule: less_induct)
  case less
  obtain p ok where mp: "map_page (page_source h) (heap_mapped_end h) = (p, ok)" by force
  show ?case
  proof (cases "heap_mapped_end h < new_next")
    case False
    then have "map_loop map_page h new_next = Some (h, True)" by (subst map_loop.simps) simp
    moreover have "h = h\<lparr>page_source := page_source h, heap_mapped_end := heap_mapped_end h\<rparr>" by simp
    ultimately show ?thesis using False less.prems(1)
      by (intro exI [of _ "page_source h"] exI [of _ "heap_mapped_end h"] exI [of _ True]) (simp add: bounds_ok_def)
  next
    case lt: True
    let ?h = "h\<lparr>page_source := p, heap_mapped_end := heap_mapped_end h + 4096\<rparr>"
    note e = map_step_bounds [OF less.prems lt]
    show ?thesis
    proof (cases ok)
      case False
      then have "map_loop map_page h new_next = Some (h\<lparr>page_source := p\<rparr>, False)"
        using lt mp by (subst map_loop.simps) simp
      then show ?thesis using less.prems(1)
        by (intro exI [of _ p] exI [of _ "heap_mapped_end h"] exI [of _ False]) (simp add: bounds_ok_def)
    next
      case True
      have b: "bounds_ok ?h" using e(2) by (simp add: bounds_ok_def)
      have "map_loop map_page h new_next = map_loop map_page ?h new_next"
        using lt mp True by (subst map_loop.simps) simp
      moreover have "unat new_next - unat (heap_mapped_end ?h) < unat new_next - unat (heap_mapped_end h)"
        using lt by (simp add: e(1) word_lt_unat)
      ultimately show ?thesis using less.hyps [of ?h] b less.prems(2) by (simp add: bounds_ok_def)
    qed
  qed
qed

lemma map_loop_succeeds:
  assumes "bounds_ok h" "new_next \<le> heap_limit h" "\<And>p v. snd (map_page p v)"
  shows "map_loop map_page h new_next = Some (h', ok) \<Longrightarrow> ok"
  using assms(1,2)
proof (induction "unat new_next - unat (heap_mapped_end h)" arbitrary: h rule: less_induct)
  case less
  obtain p where mp: "map_page (page_source h) (heap_mapped_end h) = (p, True)"
    using assms(3) [of "page_source h" "heap_mapped_end h"] by (cases "map_page (page_source h) (heap_mapped_end h)") auto
  show ?case
  proof (cases "heap_mapped_end h < new_next")
    case False
    then show ?thesis using less.prems(1) by (subst (asm) map_loop.simps) simp
  next
    case lt: True
    let ?h = "h\<lparr>page_source := p, heap_mapped_end := heap_mapped_end h + 4096\<rparr>"
    have b: "bounds_ok ?h \<and> unat (heap_mapped_end ?h) = unat (heap_mapped_end h) + 4096"
      using map_step_bounds [OF less.prems(2,3) lt] by (simp add: bounds_ok_def)
    have "map_loop map_page ?h new_next = Some (h', ok)"
      using less.prems(1) lt mp by (subst (asm) map_loop.simps) simp
    moreover have "unat new_next - unat (heap_mapped_end ?h) < unat new_next - unat (heap_mapped_end h)"
      using lt b by (simp add: word_lt_unat)
    ultimately show ?thesis using less.hyps [of ?h] b less.prems(3) by simp
  qed
qed

section \<open>Allocating\<close>

text \<open>A block of at least \<open>minimum\<close> bytes is unlinked from one of the lists.\<close>

definition takes :: "'p heap \<Rightarrow> (u64 \<rightharpoonup> u64) \<Rightarrow> (nat \<Rightarrow> u64 list) \<Rightarrow> u64 \<Rightarrow> ('p heap \<times> (u64 \<times> u64) option) option \<Rightarrow> bool" where
  "takes h B F minimum r \<longleftrightarrow>
    (\<exists>c pre a post s. c < FREE_LIST_CLASS_COUNT \<and> F c = pre @ a # post \<and> B a = Some s \<and> minimum \<le> s \<and>
       r = Some (unlink h c (if pre = [] then 0 else last pre) a, Some (a, s)))"

lemma scan_classes_result:
  assumes inv: "heap_inv h B A F"
  shows "scan_classes h minimum c = Some (h, None) \<and>
      (\<forall>a\<in>dom B - A. c \<le> class_for_size (the (B a)) \<longrightarrow> the (B a) < minimum) \<or>
    takes h B F minimum (scan_classes h minimum c)"
proof (induction "FREE_LIST_CLASS_COUNT - c" arbitrary: c)
  case 0
  then have "\<not> c \<le> class_for_size s" for s using class_for_size_bound [of s] by linarith
  then show ?case using 0 by (simp add: scan_classes.simps)
next
  case (Suc n)
  then have c: "c < FREE_LIST_CLASS_COUNT" by linarith
  note d = heap_invD [OF inv]
  have l: "list_ok h B A c (F c)" using d(3) c by (simp add: lists_ok_def)
  then have ch: "chain (memory h) (free_list_heads h ! c) (F c)"
    and mem: "\<And>a. a \<in> set (F c) \<longleftrightarrow> a \<in> dom B - A \<and> class_for_size (the (B a)) = c"
    by (auto simp: list_ok_def)
  have val: "a \<in> dom B \<Longrightarrow> B a = Some (memory h a)" for a using blocks_okD(6) [OF d(2)] by auto
  from scan_class_result [OF ch, of minimum c 0] show ?case
  proof (elim disjE exE conjE)
    assume a: "\<forall>a\<in>set (F c). memory h a < minimum" "scan_class h c minimum 0 (free_list_heads h ! c) = Some (h, None)"
    then have eq: "scan_classes h minimum c = scan_classes h minimum (c + 1)"
      using c by (simp add: scan_classes.simps [of h minimum c])
    have here: "the (B a) < minimum" if "a \<in> dom B - A" "class_for_size (the (B a)) = c" for a
      using that mem [of a] a(1) val [of a] by auto
    have "n = FREE_LIST_CLASS_COUNT - (c + 1)" using Suc.hyps(2) by simp
    from Suc.hyps(1) [OF this] here show ?thesis unfolding eq
      by (elim disjE conjE) (auto simp: Suc_le_eq le_less dest: bspec)
  next
    fix pre a post
    assume a: "F c = pre @ a # post" "minimum \<le> memory h a" "scan_class h c minimum 0 (free_list_heads h ! c) =
      Some (unlink h c (if pre = [] then 0 else last pre) a, Some (a, memory h a))"
    then have "scan_classes h minimum c = Some (unlink h c (if pre = [] then 0 else last pre) a, Some (a, memory h a))"
      using c by (simp add: scan_classes.simps [of h minimum c])
    moreover have "B a = Some (memory h a)" using mem [of a] a(1) val [of a] by auto
    ultimately show ?thesis using a(1,2) c unfolding takes_def by blast
  qed
qed

lemma free_list_take_result:
  assumes inv: "heap_inv h B A F" and m: "minimum \<noteq> 0"
  shows "heap_free_list_take h minimum = Some (h, None) \<and> (\<forall>a\<in>dom B - A. the (B a) < minimum) \<or>
    takes h B F minimum (heap_free_list_take h minimum)"
proof -
  have "y < minimum" if "class_for_size minimum \<le> class_for_size y \<longrightarrow> y < minimum" for y
    using that class_for_size_mono [of minimum y] by (meson leI)
  then show ?thesis using scan_classes_result [OF inv, of minimum "class_for_size minimum"] m
    by (auto simp: heap_free_list_take_def)
qed

lemma multiple_of_16:
  assumes "n mod 16 = 0" "k + 16 \<le> n" "n < k + (32 :: nat)"
  shows "n = (k + 31) div 16 * 16"
proof -
  obtain q where "n = 16 * q" using assms(1) by (metis mod_0_imp_dvd dvdE)
  then show ?thesis using assms(2,3) by auto
qed

lemma blocks_ok_new:
  assumes ok: "blocks_ok h B"
    and a: "a mod 16 = 0 \<and> s mod 16 = 0 \<and> 32 \<le> s \<and> heap_base h \<le> a \<and> unat a + unat s \<le> unat (heap_next h) \<and> memory h a = s"
    and below: "\<And>b t. B b = Some t \<Longrightarrow> unat b + unat t \<le> unat a"
  shows "blocks_ok h (B(a \<mapsto> s))"
proof -
  have "block a s \<inter> block b t = {}" "block b t \<inter> block a s = {}" if "B b = Some t" for b t
    using below [OF that] by (auto simp: block_def)
  then show ?thesis using ok a unfolding blocks_ok_def by (auto split: if_splits)
qed

text \<open>A new block at the end of the used part.\<close>

lemma bump_keeps_inv:
  fixes p :: "'p"
  assumes inv: "heap_inv h B A F" and s: "s mod 16 = 0" "32 \<le> s" "unat (heap_next h) + unat s \<le> unat (heap_limit h)"
    and e: "bounds_ok (h\<lparr>heap_mapped_end := e\<rparr>)" "heap_next h + s \<le> e"
  defines "a \<equiv> heap_next h"
  defines "h' \<equiv> (write_header (h\<lparr>page_source := p, heap_mapped_end := e\<rparr>) a s)\<lparr>heap_next := a + s\<rparr>"
  shows "heap_inv h' (B(a \<mapsto> s)) (insert a A) F" "a \<notin> dom B"
proof -
  note d = heap_invD [OF inv]
  have n: "unat (a + s) = unat a + unat s"
    using s(3) unat64_less [of "heap_limit h"] by (simp add: a_def unat_word_ariths)
  have below: "unat b + unat t \<le> unat a" if "B b = Some t" for b t
    using blocks_okD(5) [OF d(2) that] by (simp add: a_def)
  have sz: "32 \<le> unat t" if "B b = Some t" for b t using block_addresses(4) [OF d(2) that] .
  show new: "a \<notin> dom B" using below sz by fastforce
  have a16: "a mod 16 = 0" using d(1) by (simp add: bounds_ok_def a_def)
  have "unat (a + s) mod 16 = 0" using a16 s(1) n by (simp add: word_mod_16 mod_add_eq [symmetric])
  then have "(a + s) mod 16 = 0" by (simp add: word_mod_16)
  then have "bounds_ok h'"
    using e d(1) s(3) n by (auto simp: bounds_ok_def h'_def a_def word_le_unat)
  moreover have other: "memory h' b = memory h b" "memory h' (b + 8) = memory h (b + 8)" if b: "b \<in> dom B" for b
  proof -
    obtain t where t: "B b = Some t" using b by auto
    have "unat b < unat a" "unat (b + 8) < unat a" "unat a + 8 = unat (a + 8)"
      using below [OF t] sz [OF t] block_addresses(1) [OF d(2) t] n s(2) unat64_less [of "a + s"]
      by (auto simp: unat_word_ariths word_le_unat)
    then have "b \<noteq> a" "b + 8 \<noteq> a" "b \<noteq> a + 8" "b + 8 \<noteq> a + 8" by auto
    then show "memory h' b = memory h b" "memory h' (b + 8) = memory h (b + 8)" by (auto simp: h'_def)
  qed
  moreover have "blocks_ok h' B"
    by (rule blocks_ok_cong [OF d(2)]) (use other n in \<open>auto simp: h'_def a_def\<close>)
  then have "blocks_ok h' (B(a \<mapsto> s))"
  proof (rule blocks_ok_new)
    have "a \<noteq> a + 8" by simp
    then show "a mod 16 = 0 \<and> s mod 16 = 0 \<and> 32 \<le> s \<and> heap_base h' \<le> a \<and> unat a + unat s \<le> unat (heap_next h') \<and> memory h' a = s"
      using a16 s n d(1) by (simp add: h'_def bounds_ok_def a_def)
  qed (rule below)
  moreover have "lists_ok h' B A F"
    by (rule lists_ok_cong [OF d(3)]) (use other in \<open>auto simp: h'_def\<close>)
  then have "lists_ok h' (B(a \<mapsto> s)) (insert a A) F"
    using new by (auto simp: lists_ok_def list_ok_def)
  moreover have "magic_ok h' A" by (rule magic_ok_cong [OF d(4)]) (use d(5) other in auto)
  then have "magic_ok h' (insert a A)" by (simp add: magic_ok_def h'_def)
  ultimately show "heap_inv h' (B(a \<mapsto> s)) (insert a A) F" by (simp add: heap_inv_def)
qed

text \<open>
  What \<open>kmalloc\<close> does, always returning: either \<open>NULL\<close>, with the blocks as they were, for one of
  three reasons, or a block that was not allocated and is large enough.
\<close>

definition no_room :: "'p heap \<Rightarrow> (u64 \<rightharpoonup> u64) \<Rightarrow> u64 set \<Rightarrow> u64 \<Rightarrow> bool" where
  "no_room h B A s \<longleftrightarrow> (\<forall>a\<in>dom B - A. the (B a) < s) \<and> unat (heap_limit h) < unat (heap_next h) + unat s"

definition refused :: "'p map_page \<Rightarrow> 'p heap \<Rightarrow> (u64 \<rightharpoonup> u64) \<Rightarrow> u64 set \<Rightarrow> u64 \<Rightarrow> bool" where
  "refused map_page h B A sz \<longleftrightarrow> sz = 0 \<or> 2 ^ 64 \<le> unat sz + 31 \<or>
     no_room h B A (of_nat ((unat sz + 31) div 16 * 16)) \<or> \<not> (\<forall>p v. snd (map_page p v))"

definition grants :: "'p heap \<Rightarrow> (u64 \<rightharpoonup> u64) \<Rightarrow> u64 set \<Rightarrow> u64 \<Rightarrow> 'p heap \<Rightarrow> u64 \<Rightarrow> (u64 \<rightharpoonup> u64) \<Rightarrow> u64 \<Rightarrow> u64 \<Rightarrow> bool" where
  "grants h B A sz h' p B' a s \<longleftrightarrow> p = a + 16 \<and> a \<notin> A \<and> unat sz + 16 \<le> unat s \<and> (B' = B \<or> a \<notin> dom B) \<and>
     B' = B(a \<mapsto> s) \<and> (\<forall>x. x \<notin> header_words B' \<longrightarrow> memory h' x = memory h x)"

lemma kmalloc_null: "kmalloc map_page h sz = Some (h, 0)" if "sz = 0 \<or> calculate_block_size sz = None"
  using that by (auto simp: kmalloc_def)

lemma kmalloc_reuse:
  assumes inv: "heap_inv h B A F" and sz: "sz \<noteq> 0" "calculate_block_size sz = Some need" "unat sz + 16 \<le> unat need"
    and t: "takes h B F need (heap_free_list_take h need)"
  shows "\<exists>h' p a s F'. kmalloc map_page h sz = Some (h', p) \<and> heap_inv h' B (insert a A) F' \<and> grants h B A sz h' p B a s"
proof -
  note d = heap_invD [OF inv]
  obtain c pre a post s where r: "c < FREE_LIST_CLASS_COUNT" "F c = pre @ a # post" "B a = Some s" "need \<le> s"
    "heap_free_list_take h need = Some (unlink h c (if pre = [] then 0 else last pre) a, Some (a, s))"
    using t unfolding takes_def by blast
  define q where "q = (if pre = [] then 0 else last pre)"
  have "heap_base h \<noteq> 0" using d(1) by (simp add: bounds_ok_def)
  then have k: "kmalloc map_page h sz = Some (write_header (unlink h c q a) a s, a + 16)"
    using r(5) sz by (simp add: kmalloc_def q_def)
  have l: "list_ok h B A c (pre @ a # post)" using d(3) r(1,2) by (auto simp: lists_ok_def dest: spec [of _ c])
  then have free: "set (pre @ a # post) \<subseteq> dom B - A" unfolding list_ok_def by blast
  have "q = 0 \<or> q \<in> dom B" using free by (cases pre rule: rev_cases) (auto simp: q_def)
  moreover have "a \<in> dom B" "a \<notin> A" using free by auto
  ultimately have "grants h B A sz (write_header (unlink h c q a) a s) (a + 16) B a s"
    using r(3,4) sz(3) by (auto simp: grants_def header_words_def word_le_unat)
  then show ?thesis using k take_keeps_inv [OF inv r(1,2,3)] unfolding q_def by blast
qed

lemma kmalloc_bump:
  assumes inv: "heap_inv h B A F" and sz: "sz \<noteq> 0" "calculate_block_size sz = Some need" "unat sz + 16 \<le> unat need"
      "need mod 16 = 0" "32 \<le> need"
    and t: "heap_free_list_take h need = Some (h, None)"
  shows "(unat (heap_limit h) < unat (heap_next h) + unat need \<or> \<not> (\<forall>p v. snd (map_page p v))) \<and>
      (\<exists>h'. kmalloc map_page h sz = Some (h', 0) \<and> heap_inv h' B A F \<and> memory h' = memory h) \<or>
    (\<exists>h' p a s B'. kmalloc map_page h sz = Some (h', p) \<and> heap_inv h' B' (insert a A) F \<and> grants h B A sz h' p B' a s)"
proof -
  note d = heap_invD [OF inv]
  let ?a = "heap_next h"
  have b: "heap_base h \<noteq> 0" "unat (heap_limit h) + 4096 \<le> 2 ^ 64" "?a \<le> heap_limit h" "?a mod 16 = 0"
    using d(1) by (simp_all add: bounds_ok_def)
  have al: "align_up ?a 16 = ?a" using b by (intro align_up_aligned) (auto simp: word_le_unat)
  have room: "need > heap_limit h - ?a \<longleftrightarrow> unat (heap_limit h) < unat ?a + unat need"
    using b(3) by (auto simp: word_order_unat unat_sub word_le_unat)
  show ?thesis
  proof (cases "unat (heap_limit h) < unat ?a + unat need")
    case True
    then have "kmalloc map_page h sz = Some (h, 0)" using b(1) sz(1,2) t al room b(3) by (simp add: kmalloc_def)
    then show ?thesis using True inv by blast
  next
    case False
    then have n: "unat (?a + need) = unat ?a + unat need"
      using unat64_less [of "heap_limit h"] by (simp add: unat_word_ariths)
    then have nl: "?a + need \<le> heap_limit h" using False by (simp add: word_le_unat)
    obtain p e ok where m: "map_loop map_page h (?a + need) = Some (h\<lparr>page_source := p, heap_mapped_end := e\<rparr>, ok)"
      "ok \<longrightarrow> ?a + need \<le> e" "bounds_ok (h\<lparr>heap_mapped_end := e\<rparr>)"
      using map_loop_result [OF d(1) nl] by blast
    have k: "kmalloc map_page h sz = (if ok then Some ((write_header (h\<lparr>page_source := p, heap_mapped_end := e\<rparr>)
        ?a need)\<lparr>heap_next := ?a + need\<rparr>, ?a + 16) else Some (h\<lparr>page_source := p, heap_mapped_end := e\<rparr>, 0))"
      using b(1) sz(1,2) t al room False b(3) [THEN leD] m(1) by (simp add: kmalloc_def Let_def)
    show ?thesis
    proof (cases ok)
      case True
      have "heap_inv ((write_header (h\<lparr>page_source := p, heap_mapped_end := e\<rparr>) ?a need)\<lparr>heap_next := ?a + need\<rparr>)
          (B(?a \<mapsto> need)) (insert ?a A) F" "?a \<notin> dom B"
        using bump_keeps_inv(1) [OF inv sz(4,5) _ m(3), of p] bump_keeps_inv(2) [OF inv sz(4,5) _ m(3)] False True m(2)
        by auto
      moreover from this have "grants h B A sz ((write_header (h\<lparr>page_source := p, heap_mapped_end := e\<rparr>) ?a need)\<lparr>heap_next := ?a + need\<rparr>)
          (?a + 16) (B(?a \<mapsto> need)) ?a need"
        using d(5) sz(3) by (auto simp: grants_def header_words_def)
      ultimately show ?thesis using k True by auto
    next
      case failed: False
      then have "\<not> (\<forall>p v. snd (map_page p v))" using map_loop_succeeds [OF d(1) nl _ m(1)] by blast
      moreover have "heap_inv (h\<lparr>page_source := p, heap_mapped_end := e\<rparr>) B A F"
        using inv m(3) by (simp add: heap_inv_def bounds_ok_def blocks_ok_def lists_ok_def list_ok_def magic_ok_def)
      ultimately show ?thesis using k failed by auto
    qed
  qed
qed

lemma kmalloc_result:
  assumes inv: "heap_inv h B A F"
  shows "refused map_page h B A sz \<and> (\<exists>h'. kmalloc map_page h sz = Some (h', 0) \<and> heap_inv h' B A F \<and> memory h' = memory h) \<or>
    (\<exists>h' p a s B' F'. kmalloc map_page h sz = Some (h', p) \<and> heap_inv h' B' (insert a A) F' \<and> grants h B A sz h' p B' a s)"
proof (cases "sz = 0")
  case True
  then show ?thesis using kmalloc_null [of sz map_page h] inv by (auto simp: refused_def)
next
  case nz: False
  then have "0 < sz" by (simp add: word_neq_0_conv)
  from calculate_block_size_result [OF this] show ?thesis
  proof (elim disjE exE conjE)
    assume "calculate_block_size sz = None" "2 ^ 64 \<le> unat sz + 31"
    then show ?thesis using kmalloc_null [of sz map_page h] inv by (auto simp: refused_def)
  next
    fix need
    assume n: "calculate_block_size sz = Some need" "need mod 16 = 0" "unat sz + 16 \<le> unat need"
      "unat need < unat sz + 32" "32 \<le> need"
    have "unat need mod 16 = 0" using n(2) by (simp add: word_mod_16)
    then have "unat need = (unat sz + 31) div 16 * 16" using n(3,4) by (rule multiple_of_16)
    then have need: "need = of_nat ((unat sz + 31) div 16 * 16)" by (metis of_nat_unat ucast_id)
    have "need \<noteq> 0" using n(5) by auto
    from free_list_take_result [OF inv this] show ?thesis
    proof (elim disjE conjE)
      assume t: "heap_free_list_take h need = Some (h, None)" and small: "\<forall>a\<in>dom B - A. the (B a) < need"
      from kmalloc_bump [OF inv nz n(1,3,2,5) t, of map_page] show ?thesis
        using small unfolding refused_def no_room_def need [symmetric] by blast
    next
      assume "takes h B F need (heap_free_list_take h need)"
      from kmalloc_reuse [OF inv nz n(1,3) this] show ?thesis by blast
    qed
  qed
qed

section \<open>Initialising, freeing and reallocating\<close>

lemma kheap_init_inv:
  assumes "base \<noteq> 0" "sz \<noteq> 0" "base mod 4096 = 0" "unat base + unat sz + 4096 \<le> 2 ^ 64"
  shows "heap_inv (kheap_init h base sz) Map.empty {} (\<lambda>_. [])"
proof -
  have "\<not> sz > UINT64_MAX - base" using assms(4) by (simp add: word_lt_unat unat_sub word_le_unat)
  then have k: "kheap_init h base sz = (heap_free_list_reset h)\<lparr>heap_base := base, heap_limit := base + sz,
      heap_next := base, heap_mapped_end := base\<rparr>"
    using assms by (simp add: kheap_init_def heap_free_list_reset_def)
  have n: "unat (base + sz) = unat base + unat sz" using assms(4) by (simp add: unat_word_ariths)
  have "unat base mod 4096 = 0" using assms(3) by (simp add: word_unat_eq_iff unat_mod)
  then have "unat base mod 16 = 0" using mod_mod_cancel [of 16 4096 "unat base"] by simp
  then have "base mod 16 = 0" by (simp add: word_mod_16)
  then show ?thesis using assms n
    by (simp add: k heap_inv_def bounds_ok_def blocks_ok_def lists_ok_def list_ok_def magic_ok_def
        heap_free_list_reset_def word_le_unat)
qed

lemma kfree_result:
  assumes inv: "heap_inv h B A F" and a: "a \<in> A" and Ba: "B a = Some s"
  shows "heap_inv (kfree h (a + 16)) B (A - {a}) (F(class_for_size s := a # F (class_for_size s)))"
    and "x \<notin> header_words B \<Longrightarrow> memory (kfree h (a + 16)) x = memory h x"
    and "memory (kfree h (a + 16)) (a + 8) = free_list_heads h ! class_for_size s"
proof -
  note d = heap_invD [OF inv]
  note b = blocks_okD [OF d(2) Ba]
  have "unat (a + 16) \<noteq> 0" using block_addresses(2) [OF d(2) Ba] by simp
  then have p: "a + 16 \<noteq> 0" by (metis unat_0)
  have "heap_base h \<noteq> 0" using d(1) by (simp add: bounds_ok_def)
  then have a0: "a \<noteq> 0" using b(4) by auto
  have m: "memory h (a + 8) = HEAP_ALLOCATION_MAGIC" using d(4) a by (simp add: magic_ok_def)
  have s: "\<not> s < 16" using b(3) by (simp add: word_order_unat)
  have k: "kfree h (a + 16) = h\<lparr>memory := (memory h)(a := s, a + 8 := free_list_heads h ! class_for_size s),
            free_list_heads := (free_list_heads h)[class_for_size s := a]\<rparr>"
    using p a0 m s b(1,6) by (simp add: kfree_def heap_free_list_add_def Let_def fun_upd_twist [of "a + 8" a])
  show "heap_inv (kfree h (a + 16)) B (A - {a}) (F(class_for_size s := a # F (class_for_size s)))"
    unfolding k by (rule add_keeps_inv [OF inv a Ba])
  show "memory (kfree h (a + 16)) x = memory h x" if "x \<notin> header_words B"
    using that Ba by (auto simp: k header_words_def)
  show "memory (kfree h (a + 16)) (a + 8) = free_list_heads h ! class_for_size s" by (simp add: k)
qed

text \<open>The words \<open>krealloc\<close> copies to are in the payload of the new block.\<close>

lemma copy_in_payload:
  assumes ok: "blocks_ok h B" "B a = Some s" and x: "x - (a + 16) < n" and n: "unat n + 16 \<le> unat s"
  shows "unat x \<in> block_payload a s"
proof -
  have x_eq: "x = (a + 16) + (x - (a + 16))" by simp
  have "unat (x - (a + 16)) < unat n" using x by (simp add: word_lt_unat)
  moreover have "unat a + unat s < 2 ^ 64" using blocks_okD(5) [OF ok] unat64_less [of "heap_next h"] by linarith
  ultimately have "unat x = unat a + 16 + unat (x - (a + 16))"
    using n block_addresses(2) [OF ok] by (subst x_eq, subst unat_add_no_wrap) auto
  then show ?thesis using x n by (simp add: block_payload_def word_lt_unat)
qed

lemma krealloc_grow:
  assumes inv: "heap_inv h1 B' (insert a' A) F'" and g: "grants h B A n h1 q B' a' s'"
    and a: "a \<in> A" "B a = Some s" and n: "s - 16 < n"
  defines "h2 \<equiv> kfree (h1\<lparr>memory := copy_words (memory h1) q (a + 16) (s - 16)\<rparr>) (a + 16)"
  shows "\<exists>F''. heap_inv h2 B' (insert a' A - {a}) F''"
    and "x \<notin> header_words B' \<Longrightarrow> \<not> x - q < s - 16 \<Longrightarrow> memory h2 x = memory h x"
    and "i mod 8 = 0 \<Longrightarrow> i < s - 16 \<Longrightarrow> memory h2 (q + i) = memory h (a + 16 + i)"
proof -
  note d = heap_invD [OF inv]
  have q: "q = a' + 16" and new: "a' \<noteq> a" and B': "B' = B(a' \<mapsto> s')" and big: "unat n + 16 \<le> unat s'"
    and same: "\<And>x. x \<notin> header_words B' \<Longrightarrow> memory h1 x = memory h x"
    using g a(1) by (auto simp: grants_def)
  have Ba: "B' a = Some s" "B' a' = Some s'" using a(2) B' new by auto
  have s: "16 \<le> unat s" using block_addresses(4) [OF d(2) Ba(1)] by simp
  have u: "unat (s - 16) = unat s - 16" using s by (simp add: unat_sub word_le_unat)
  then have fit: "unat (s - 16) + 16 \<le> unat s'" using n big by (simp add: word_lt_unat)
  let ?m = "copy_words (memory h1) q (a + 16) (s - 16)"
  have hdr: "?m x = memory h1 x" if "x \<in> header_words B'" for x
    using that copy_in_payload [OF d(2) Ba(2) _ fit, of x] payload_not_header [OF d(2) Ba(2), of x]
    by (auto simp: copy_words_def q)
  have inv': "heap_inv (h1\<lparr>memory := ?m\<rparr>) B' (insert a' A) F'" by (rule heap_inv_memory [OF inv hdr])
  note k = kfree_result [OF inv' _ Ba(1)]
  show "\<exists>F''. heap_inv h2 B' (insert a' A - {a}) F''" using k(1) a(1) unfolding h2_def by blast
  show "memory h2 x = memory h x" if "x \<notin> header_words B'" "\<not> x - q < s - 16"
    using k(2) [OF _ that(1)] a(1) that same [OF that(1)] by (auto simp: h2_def copy_words_def)
  show "memory h2 (q + i) = memory h (a + 16 + i)" if i: "i mod 8 = 0" "i < s - 16"
  proof -
    have "unat (q + i) \<in> block_payload a' s'" using copy_in_payload [OF d(2) Ba(2) _ fit, of "q + i"] i(2) by (simp add: q)
    then have "q + i \<notin> header_words B'" by (rule payload_not_header [OF d(2) Ba(2)])
    moreover have "unat (a + 16 + i) \<in> block_payload a s"
      using copy_in_payload [OF d(2) Ba(1), of "a + 16 + i" "s - 16"] i(2) u s by simp
    then have "a + 16 + i \<notin> header_words B'" by (rule payload_not_header [OF d(2) Ba(1)])
    ultimately show ?thesis using k(2) [of "q + i"] a(1) i same by (simp add: h2_def copy_words_def)
  qed
qed

section \<open>Clients of the heap\<close>

text \<open>
  The heap as its clients drive it: \<open>L\<close> is the set of live pointers, those returned and
  neither freed nor moved since. A client may store any word into the region of a live pointer.
\<close>

definition region :: "'p heap \<Rightarrow> u64 \<Rightarrow> nat set" where
  "region h p = {unat p..<unat p + unat (memory h (p - 16) - 16)}"

inductive heap_reach :: "'p map_page \<Rightarrow> 'p heap \<Rightarrow> u64 set \<Rightarrow> bool" for map_page where
  init: "base \<noteq> 0 \<Longrightarrow> sz \<noteq> 0 \<Longrightarrow> base mod 4096 = 0 \<Longrightarrow> unat base + unat sz + 4096 \<le> 2 ^ 64 \<Longrightarrow>
    heap_reach map_page (kheap_init h base sz) {}"
| alloc: "heap_reach map_page h L \<Longrightarrow> kmalloc map_page h sz = Some (h', p) \<Longrightarrow>
    heap_reach map_page h' (if p = 0 then L else insert p L)"
| free: "heap_reach map_page h L \<Longrightarrow> p \<in> L \<Longrightarrow> heap_reach map_page (kfree h p) (L - {p})"
| resize: "heap_reach map_page h L \<Longrightarrow> p \<in> L \<Longrightarrow> n \<noteq> 0 \<Longrightarrow> krealloc map_page h p n = Some (h', q) \<Longrightarrow>
    heap_reach map_page h' (if q = 0 then L else insert q (L - {p}))"
| store: "heap_reach map_page h L \<Longrightarrow> p \<in> L \<Longrightarrow> unat x \<in> region h p \<Longrightarrow>
    heap_reach map_page (h\<lparr>memory := (memory h)(x := v)\<rparr>) L"

definition heap_live :: "'p heap \<Rightarrow> u64 set \<Rightarrow> bool" where
  "heap_live h L \<longleftrightarrow> (\<exists>B A F. heap_inv h B A F \<and> L = (\<lambda>a. a + 16) ` A)"

lemma heap_liveE:
  assumes "heap_live h L" "p \<in> L"
  obtains B A F a s where "heap_inv h B A F" "L = (\<lambda>a. a + 16) ` A" "p = a + 16" "a \<in> A" "B a = Some s"
    "memory h a = s"
proof -
  obtain B A F a where i: "heap_inv h B A F" "L = (\<lambda>a. a + 16) ` A" "p = a + 16" "a \<in> A"
    using assms by (auto simp: heap_live_def)
  then obtain s where "B a = Some s" using heap_invD(5) [OF i(1)] by auto
  then show ?thesis using that [OF i] blocks_okD(6) [OF heap_invD(2) [OF i(1)]] by blast
qed

lemma region_payload:
  assumes "blocks_ok h B" "B a = Some s"
  shows "region h (a + 16) = block_payload a s"
proof -
  have "unat (s - 16) = unat s - 16"
    using block_addresses(4) [OF assms] by (simp add: unat_sub word_le_unat)
  then show ?thesis
    using block_addresses(2,4) [OF assms] blocks_okD(6) [OF assms] by (auto simp: region_def block_payload_def)
qed

lemma kept_region:
  assumes "blocks_ok h B" "blocks_ok h' B'" "B b = Some t" "B' b = Some t"
    and "\<And>x. x \<notin> header_words B' \<Longrightarrow> unat x \<in> block_payload b t \<Longrightarrow> memory h' x = memory h x"
  shows "region h' (b + 16) = region h (b + 16) \<and> (\<forall>x. unat x \<in> region h (b + 16) \<longrightarrow> memory h' x = memory h x)"
  using region_payload [OF assms(1,3)] region_payload [OF assms(2,4)] payload_not_header [OF assms(2,4)] assms(5)
  by auto

lemma grants_nonnull:
  assumes "heap_inv h' B' A' F'" "grants h B A sz h' p B' a s"
  shows "p \<noteq> 0"
proof -
  have "B' a = Some s" "p = a + 16" using assms(2) by (auto simp: grants_def)
  then have "unat p \<noteq> 0" using block_addresses(2) [OF heap_invD(2) [OF assms(1)], of a s] by simp
  then show ?thesis by (metis unat_0)
qed

text \<open>Allocation and reallocation, over the live pointers.\<close>

lemma live_insert:
  "L = (\<lambda>a. a + 16) ` A \<Longrightarrow> p = a + 16 \<Longrightarrow> q = a' + (16 :: u64) \<Longrightarrow>
   insert q (L - {p}) = (\<lambda>a. a + 16) ` insert a' (A - {a})"
  by auto

lemma copy_outside:
  assumes ok: "blocks_ok h B" "B a = Some s" "B b = Some t" "b \<noteq> a" and x: "unat x \<in> block_payload b t"
    and n: "unat n + 16 \<le> unat s"
  shows "\<not> x - (a + 16) < n"
proof
  assume "x - (a + 16) < n"
  then have "unat x \<in> block_payload a s" by (rule copy_in_payload [OF ok(1,2) _ n])
  then have "unat x \<in> block a s \<inter> block b t" using x by (auto simp: block_payload_def block_def)
  then show False using blocks_disjoint [OF ok(1,2,3)] ok(4) by blast
qed

text \<open>The reasons for which an allocation fails, in terms of the heap's own variables.\<close>

definition refusal :: "'p map_page \<Rightarrow> 'p heap \<Rightarrow> u64 \<Rightarrow> bool" where
  "refusal map_page h sz \<longleftrightarrow> sz = 0 \<or> 2 ^ 64 \<le> unat sz + 31 \<or>
     unat (heap_limit h) < unat (heap_next h) + (unat sz + 31) div 16 * 16 \<or> \<not> (\<forall>p v. snd (map_page p v))"

lemma refused_refusal: "refused map_page h B A sz \<Longrightarrow> refusal map_page h sz"
proof -
  assume r: "refused map_page h B A sz"
  have "unat (of_nat ((unat sz + 31) div 16 * 16) :: u64) = (unat sz + 31) div 16 * 16" if "unat sz + 31 < 2 ^ 64"
    using that by (intro unat_of_nat64) (rule le_less_trans [OF div_times_less_eq_dividend])
  then show ?thesis using r unfolding refused_def refusal_def no_room_def by (auto simp: not_le)
qed

lemma kmalloc_live:
  assumes "heap_live h L"
  shows "\<exists>h' p. kmalloc map_page h sz = Some (h', p) \<and>
    (p = 0 \<longrightarrow> heap_live h' L \<and> memory h' = memory h \<and> refusal map_page h sz) \<and>
    (p \<noteq> 0 \<longrightarrow> heap_live h' (insert p L) \<and> p \<notin> L \<and> unat sz \<le> card (region h' p) \<and>
      (\<forall>q\<in>L. region h' q = region h q \<and> (\<forall>x. unat x \<in> region h q \<longrightarrow> memory h' x = memory h x)))"
proof -
  obtain B A F where inv: "heap_inv h B A F" and L: "L = (\<lambda>a. a + 16) ` A" using assms by (auto simp: heap_live_def)
  from kmalloc_result [OF inv, of map_page sz] show ?thesis
  proof (elim disjE exE conjE)
    fix h'
    assume "refused map_page h B A sz" "kmalloc map_page h sz = Some (h', 0)" "heap_inv h' B A F" "memory h' = memory h"
    then show ?thesis using L refused_refusal by (auto simp: heap_live_def)
  next
    fix h' p a s B' F'
    assume k: "kmalloc map_page h sz = Some (h', p)" and inv': "heap_inv h' B' (insert a A) F'"
      and g: "grants h B A sz h' p B' a s"
    note d = heap_invD [OF inv] and d' = heap_invD [OF inv']
    have p: "p = a + 16" "a \<notin> A" "B' a = Some s" "unat sz + 16 \<le> unat s"
      and same: "\<And>x. x \<notin> header_words B' \<Longrightarrow> memory h' x = memory h x" and B': "B' = B(a \<mapsto> s)"
      using g by (auto simp: grants_def)
    have "p \<notin> L" using p(1,2) L by auto
    moreover have "unat sz \<le> card (region h' p)"
      using p(4) region_payload [OF d'(2) p(3)] by (simp add: p(1) block_payload_def)
    moreover have "heap_live h' (insert p L)" using inv' p(1) L by (auto simp: heap_live_def)
    moreover have "region h' q = region h q \<and> (\<forall>x. unat x \<in> region h q \<longrightarrow> memory h' x = memory h x)" if "q \<in> L" for q
    proof -
      obtain b where b: "q = b + 16" "b \<in> A" using \<open>q \<in> L\<close> L by auto
      then have "b \<noteq> a" "b \<in> dom B" using d(5) p(2) by auto
      then obtain t where "B b = Some t" "B' b = Some t" using B' by auto
      then show ?thesis unfolding b(1) by (rule kept_region [OF d(2) d'(2)]) (rule same)
    qed
    ultimately show ?thesis using k grants_nonnull [OF inv' g] by blast
  qed
qed

lemma kfree_live: "heap_live h L \<Longrightarrow> p \<in> L \<Longrightarrow> heap_live (kfree h p) (L - {p})"
proof (elim heap_liveE)
  fix B A F a s
  assume a: "heap_inv h B A F" "L = (\<lambda>a. a + 16) ` A" "p = a + 16" "a \<in> A" "B a = Some s"
  have "L - {p} = (\<lambda>a. a + 16) ` (A - {a})" using a(2,3) by auto
  then show ?thesis using kfree_result(1) [OF a(1,4,5)] a(3) unfolding heap_live_def by metis
qed

lemma krealloc_live:
  assumes live: "heap_live h L" "p \<in> L" and n: "n \<noteq> 0"
  shows "\<exists>h' q. krealloc map_page h p n = Some (h', q) \<and>
    (q = 0 \<longrightarrow> heap_live h' L \<and> memory h' = memory h) \<and>
    (q \<noteq> 0 \<longrightarrow> heap_live h' (insert q (L - {p})) \<and> q \<notin> L - {p} \<and> unat n \<le> card (region h' q) \<and>
      (\<forall>i. i mod 8 = 0 \<and> i < memory h (p - 16) - 16 \<longrightarrow> memory h' (q + i) = memory h (p + i)) \<and>
      (\<forall>r\<in>L - {p}. region h' r = region h r \<and> (\<forall>x. unat x \<in> region h r \<longrightarrow> memory h' x = memory h x)))"
  using live
proof (rule heap_liveE)
  fix B A F a s
  assume inv: "heap_inv h B A F" and L: "L = (\<lambda>a. a + 16) ` A" and a: "p = a + 16" "a \<in> A" "B a = Some s" "memory h a = s"
  note d = heap_invD [OF inv]
  have p0: "p \<noteq> 0" using block_addresses(2) [OF d(2) a(3)] a(1) by (metis unat_0 add_is_0 zero_neq_numeral)
  have m: "memory h (a + 8) = HEAP_ALLOCATION_MAGIC" using d(4) a(2) by (simp add: magic_ok_def)
  have s: "\<not> s < 16" using blocks_okD(3) [OF d(2) a(3)] by (simp add: word_order_unat)
  have k: "krealloc map_page h p n = (if n \<le> s - 16 then Some (h, p) else case kmalloc map_page h n of
        None \<Rightarrow> None | Some (h1, q) \<Rightarrow> if q = 0 then Some (h1, 0)
        else Some (kfree (h1\<lparr>memory := copy_words (memory h1) q (a + 16) (s - 16)\<rparr>) (a + 16), q))"
    using p0 n m s a by (simp add: krealloc_def Let_def)
  show ?thesis
  proof (cases "n \<le> s - 16")
    case True
    then have "unat n \<le> card (region h p)" using a by (simp add: region_def word_le_unat)
    then show ?thesis using True k live p0 insert_absorb [OF live(2)] by (simp add: insert_Diff)
  next
    case grow: False
    from kmalloc_result [OF inv, of map_page n] show ?thesis
    proof (elim disjE exE conjE)
      fix h1
      assume "kmalloc map_page h n = Some (h1, 0)" "heap_inv h1 B A F" "memory h1 = memory h"
      then show ?thesis using k grow L by (auto simp: heap_live_def)
    next
      fix h1 q a' s' B' F'
      assume km: "kmalloc map_page h n = Some (h1, q)" and inv': "heap_inv h1 B' (insert a' A) F'"
        and g: "grants h B A n h1 q B' a' s'"
      define h2 where "h2 = kfree (h1\<lparr>memory := copy_words (memory h1) q (a + 16) (s - 16)\<rparr>) (a + 16)"
      have lt: "s - 16 < n" using grow by simp
      note r = krealloc_grow [OF inv' g a(2,3) lt, folded h2_def]
      obtain F2 where inv2: "heap_inv h2 B' (insert a' A - {a}) F2" using r(1) by blast
      note d1 = heap_invD [OF inv'] and d2 = heap_invD [OF inv2]
      have q: "q = a' + 16" "a' \<notin> A" and B': "B' = B(a' \<mapsto> s')" and big: "unat n + 16 \<le> unat s'"
        using g by (auto simp: grants_def)
      have "q \<noteq> 0" using grants_nonnull [OF inv' g] .
      then have "krealloc map_page h p n = Some (h2, q)" using k grow km by (simp add: h2_def)
      moreover have "insert a' A - {a} = insert a' (A - {a})" using q(2) a(2) by auto
      then have "heap_live h2 (insert q (L - {p}))"
        using inv2 live_insert [of L A p a q a'] L q(1) a(1) unfolding heap_live_def by metis
      moreover have "q \<notin> L" using q L by auto
      moreover have "unat n \<le> card (region h2 q)"
        using region_payload [OF d2(2), of a' s'] big by (simp add: B' q(1) block_payload_def)
      moreover have "memory h2 (q + i) = memory h (p + i)" if "i mod 8 = 0" "i < memory h (p - 16) - 16" for i
        using r(3) [OF that(1)] that(2) a by simp
      moreover have "region h2 r = region h r \<and> (\<forall>x. unat x \<in> region h r \<longrightarrow> memory h2 x = memory h x)" if r: "r \<in> L - {p}" for r
      proof -
        obtain b where b: "r = b + 16" "b \<in> A" using r L by auto
        then have "b \<noteq> a'" "b \<in> dom B" using d(5) q(2) by auto
        then obtain t where t: "B b = Some t" "B' b = Some t" using B' by auto
        show ?thesis unfolding b(1)
        proof (rule kept_region [OF d(2) d2(2) t])
          fix x assume x: "x \<notin> header_words B'" "unat x \<in> block_payload b t"
          have "\<not> x - q < s - 16"
            using copy_outside [OF d1(2) _ t(2) \<open>b \<noteq> a'\<close> x(2), of s' "s - 16"] lt big B' by (simp add: q(1) word_lt_unat)
          then show "memory h2 x = memory h x" by (rule krealloc_grow(2) [OF inv' g a(2,3) lt x(1), folded h2_def])
        qed
      qed
      ultimately show ?thesis using \<open>q \<noteq> 0\<close> by auto
    qed
  qed
qed

lemma heap_reach_live: "heap_reach map_page h L \<Longrightarrow> heap_live h L"
proof (induction rule: heap_reach.induct)
  case (init base sz h)
  show ?case using kheap_init_inv [OF init.hyps, of h] unfolding heap_live_def
    by (intro exI [of _ Map.empty] exI [of _ "{}"] exI [of _ "\<lambda>_. []"]) simp
next
  case (alloc h L sz h' p)
  then show ?case using kmalloc_live [of h L map_page sz] by auto
next
  case (free h L p)
  then show ?case by (simp add: kfree_live)
next
  case (resize h L p n h' q)
  then show ?case using krealloc_live [of h L p n map_page] by auto
next
  case (store h L p x v)
  from store.IH store.hyps(2) show ?case
  proof (rule heap_liveE)
    fix B A F a s
    assume i: "heap_inv h B A F" "L = (\<lambda>a. a + 16) ` A" "p = a + 16" "a \<in> A" "B a = Some s"
    have "x \<notin> header_words B"
      using payload_not_header [OF heap_invD(2) [OF i(1)] i(5)] region_payload [OF heap_invD(2) [OF i(1)] i(5)]
        store.hyps(3) i(3) by simp
    then have "heap_inv (h\<lparr>memory := (memory h)(x := v)\<rparr>) B A F" by (intro heap_inv_memory [OF i(1)]) auto
    then show ?case using i(2) by (auto simp: heap_live_def)
  qed
qed

lemma live_region_bounds:
  assumes "heap_live h L" "p \<in> L"
  shows "region h p \<subseteq> {unat (heap_base h)..<unat (heap_mapped_end h)}"
  using assms
proof (rule heap_liveE)
  fix B A F a s
  assume i: "heap_inv h B A F" "p = a + 16" "B a = Some s"
  note d = heap_invD [OF i(1)]
  have "unat (heap_next h) \<le> unat (heap_mapped_end h)" using d(1) by (simp add: bounds_ok_def word_le_unat)
  then show ?thesis
    using region_payload [OF d(2) i(3)] blocks_okD(4,5) [OF d(2) i(3)] by (auto simp: i(2) block_payload_def word_le_unat)
qed

text \<open>
  C17: whatever a client does through the interface of the heap, including storing anything into
  the memory it was given, its live pointers are 16-byte aligned, their regions lie inside the
  mapped part of the heap and the regions of two different pointers are disjoint.
\<close>

theorem heap_regions_separate:
  assumes "heap_reach map_page h L" "p \<in> L"
  shows "p mod 16 = 0 \<and> region h p \<subseteq> {unat (heap_base h)..<unat (heap_mapped_end h)} \<and>
    (\<forall>q\<in>L. q \<noteq> p \<longrightarrow> region h p \<inter> region h q = {})"
  using heap_reach_live [OF assms(1)] assms(2)
proof (rule heap_liveE)
  fix B A F a s
  assume i: "heap_inv h B A F" "L = (\<lambda>a. a + 16) ` A" "p = a + 16" "a \<in> A" "B a = Some s"
  note d = heap_invD [OF i(1)]
  note r = region_payload [OF d(2)] and ad = block_addresses [OF d(2) i(5)]
  have "p mod 16 = 0" using ad(2,3) by (simp add: i(3) word_mod_16)
  moreover have "region h p \<subseteq> {unat (heap_base h)..<unat (heap_mapped_end h)}"
    by (rule live_region_bounds [OF heap_reach_live [OF assms(1)] assms(2)])
  moreover have "region h p \<inter> region h q = {}" if q: "q \<in> L" "q \<noteq> p" for q
  proof -
    obtain c where c: "q = c + 16" "c \<in> A" using q(1) i(2) by auto
    then obtain t where t: "B c = Some t" using d(5) by auto
    show ?thesis using blocks_disjoint [OF d(2) i(5) t] r [OF i(5)] r [OF t] q(2) c(1) i(3)
      by (auto simp: block_payload_def block_def)
  qed
  ultimately show ?thesis by blast
qed

text \<open>
  C18: \<open>kmalloc\<close> always returns. A pointer it returns is new and has a region of at least the
  requested size, and the regions of the other live pointers and what they hold stay as they
  were. It returns \<open>NULL\<close> only for a size of 0, a size whose rounding overflows, a failure
  of the page source, or when the part of the heap never used is too small; then the memory is as before.
\<close>

theorem kmalloc_correct:
  assumes "heap_reach map_page h L"
  shows "\<exists>h' p. kmalloc map_page h sz = Some (h', p) \<and>
    (p = 0 \<longrightarrow> memory h' = memory h \<and> refusal map_page h sz) \<and>
    (p \<noteq> 0 \<longrightarrow> p \<notin> L \<and> unat sz \<le> card (region h' p) \<and>
      (\<forall>q\<in>L. region h' q = region h q \<and> (\<forall>x. unat x \<in> region h q \<longrightarrow> memory h' x = memory h x)))"
  using kmalloc_live [OF heap_reach_live [OF assms], of map_page sz] by blast

text \<open>
  C19: \<open>krealloc\<close> of a live pointer to a size other than 0 always returns. When it returns a
  pointer, the region is large enough, every word of the old region is found at the same offset of
  the new one, and the other live regions and their contents are untouched; when it returns
  \<open>NULL\<close>, the old region still holds what it held.
\<close>

theorem krealloc_correct:
  assumes "heap_reach map_page h L" "p \<in> L" "n \<noteq> 0"
  shows "\<exists>h' q. krealloc map_page h p n = Some (h', q) \<and>
    (q = 0 \<longrightarrow> memory h' = memory h) \<and>
    (q \<noteq> 0 \<longrightarrow> q \<notin> L - {p} \<and> unat n \<le> card (region h' q) \<and>
      (\<forall>i. i mod 8 = 0 \<and> i < memory h (p - 16) - 16 \<longrightarrow> memory h' (q + i) = memory h (p + i)) \<and>
      (\<forall>r\<in>L - {p}. region h' r = region h r \<and> (\<forall>x. unat x \<in> region h r \<longrightarrow> memory h' x = memory h x)))"
  using krealloc_live [OF heap_reach_live [OF assms(1)] assms(2,3), of map_page] by blast

lemma list_head:
  assumes "list_ok h B D c as"
  shows "free_list_heads h ! c \<in> insert 0 (dom B)"
  using assms by (cases as) (auto simp: list_ok_def)

text \<open>
  C20: freeing a live pointer a second time changes nothing, as long as the heap does not contain
  the address whose value is the magic number of an allocated block.
\<close>

theorem double_free_ignored:
  assumes "heap_reach map_page h L" "p \<in> L"
    "HEAP_ALLOCATION_MAGIC < heap_base h \<or> heap_limit h \<le> HEAP_ALLOCATION_MAGIC"
  shows "kfree (kfree h p) p = kfree h p"
  using heap_reach_live [OF assms(1)] assms(2)
proof (rule heap_liveE)
  fix B A F a s
  assume i: "heap_inv h B A F" "L = (\<lambda>a. a + 16) ` A" "p = a + 16" "a \<in> A" "B a = Some s"
  note d = heap_invD [OF i(1)]
  let ?n = "free_list_heads h ! class_for_size s"
  have "?n \<in> insert 0 (dom B)" using d(3) by (intro list_head [where D = A and as = "F (class_for_size s)"]) (simp add: lists_ok_def)
  moreover have "b \<noteq> HEAP_ALLOCATION_MAGIC" if "b \<in> dom B" for b
  proof -
    obtain t where t: "B b = Some t" using \<open>b \<in> dom B\<close> by auto
    have "heap_base h \<le> b" "unat b < unat (heap_limit h)"
      using blocks_okD [OF d(2) t] block_addresses(4) [OF d(2) t] d(1) by (auto simp: bounds_ok_def word_le_unat)
    then show ?thesis using assms(3) by (auto simp: word_order_unat)
  qed
  ultimately have "?n \<noteq> HEAP_ALLOCATION_MAGIC" by (auto simp: HEAP_ALLOCATION_MAGIC_def)
  then show ?thesis using kfree_result(3) [OF i(1,4,5)] i(3) by (simp add: kfree_def [of "kfree h (a + 16)" "a + 16"])
qed

section \<open>A concrete heap\<close>

definition sample_pages :: "unit map_page" where
  "sample_pages p v = (p, True)"

definition sample_heap :: "unit heap" where
  "sample_heap = kheap_init \<lparr>heap_base = 0, heap_limit = 0, heap_next = 0, heap_mapped_end = 0,
     free_list_heads = [], memory = (\<lambda>_. 0), page_source = ()\<rparr> 0x200000 0x10000"

lemma sample_heap_reach: "heap_reach sample_pages sample_heap {}"
  unfolding sample_heap_def by (rule heap_reach.init) simp_all

text \<open>Two allocations of 24 bytes on it.\<close>

definition sample_one :: "unit heap" where
  "sample_one = fst (the (kmalloc sample_pages sample_heap 24))"

definition sample_two :: "unit heap" where
  "sample_two = fst (the (kmalloc sample_pages sample_one 24))"

lemma sample_one_alloc: "kmalloc sample_pages sample_heap 24 = Some (sample_one, 0x200010)"
proof -
  have "map_option snd (kmalloc sample_pages sample_heap 24) = Some 0x200010" by code_simp
  then show ?thesis by (auto simp: sample_one_def)
qed

lemma sample_two_alloc: "kmalloc sample_pages sample_one 24 = Some (sample_two, 0x200040)"
proof -
  have "map_option snd (kmalloc sample_pages sample_one 24) = Some 0x200040" by code_simp
  then show ?thesis by (auto simp: sample_two_def)
qed

lemma sample_one_reach: "heap_reach sample_pages sample_one {0x200010}"
  using heap_reach.alloc [OF sample_heap_reach sample_one_alloc] by simp

lemma sample_two_reach: "heap_reach sample_pages sample_two {0x200010, 0x200040}"
  using heap_reach.alloc [OF sample_one_reach sample_two_alloc] by (simp add: insert_commute)

theorem heap_regions_separate_witness:
  "heap_reach sample_pages sample_two {0x200010, 0x200040} \<and>
   region sample_two 0x200010 \<inter> region sample_two 0x200040 = {}"
  using heap_regions_separate [OF sample_two_reach, of "0x200010"] sample_two_reach by simp

theorem kmalloc_correct_witness:
  "heap_reach sample_pages sample_one {0x200010} \<and>
   (\<exists>h' p. kmalloc sample_pages sample_one 24 = Some (h', p) \<and> p \<noteq> 0x200010 \<and> 24 \<le> card (region h' p) \<and>
      region h' 0x200010 = region sample_one 0x200010)"
  using kmalloc_correct [OF sample_one_reach, of 24] sample_one_reach sample_two_alloc by auto

theorem krealloc_correct_witness:
  "heap_reach sample_pages sample_one {0x200010} \<and>
   (\<exists>h' q. krealloc sample_pages sample_one 0x200010 100 = Some (h', q) \<and>
      (q \<noteq> 0 \<longrightarrow> 100 \<le> card (region h' q) \<and> memory h' (q + 8) = memory sample_one 0x200018))"
proof -
  have "(8 :: u64) mod 8 = 0 \<and> 8 < memory sample_one 0x200000 - 16" by code_simp
  then show ?thesis
    using krealloc_correct [OF sample_one_reach, of "0x200010" 100] sample_one_reach by (auto dest: spec [of _ 8])
qed

theorem double_free_ignored_witness:
  "heap_reach sample_pages sample_one {0x200010} \<and>
   kfree (kfree sample_one 0x200010) 0x200010 = kfree sample_one 0x200010"
proof -
  have "heap_limit sample_one \<le> HEAP_ALLOCATION_MAGIC" by code_simp
  then show ?thesis
    using double_free_ignored [OF sample_one_reach, of "0x200010"] sample_one_reach by simp
qed

end
