(* ===== verification/Kernel_Pages.thy ===== *)
theory Kernel_Pages
  imports Virtual_Memory Kernel_Heap
begin

text \<open>
  The kernel heap on its real page source, \<open>heap_backend_map_page\<close>, and the mapping of device
  registers by \<open>mmio_map\<close>: what the two clients of the page tables get.
\<close>

section \<open>The heap\<close>

definition page_flags :: u64 where
  "page_flags = VMM_PAGE_WRITABLE OR VMM_PAGE_NO_EXECUTE"

text \<open>The address lies in a page of its own frame, writable and not executable.\<close>

definition backed :: "vmm \<Rightarrow> u64 \<Rightarrow> bool" where
  "backed vm a \<longleftrightarrow> (\<exists>f. page_of vm a = Some (f * 4096, page_flags) \<and> f \<notin> free_frames (frames_of vm))"

definition pages_backed :: "vmm heap \<Rightarrow> bool" where
  "pages_backed h \<longleftrightarrow> vmm_ok (page_source h) \<and> (\<forall>a. heap_base h \<le> a \<longrightarrow> a < heap_mapped_end h \<longrightarrow> backed (page_source h) a)"

lemma page_base_in:
  assumes "va AND PAGE_OFFSET_MASK = 0" "a - va < 4096"
  shows "page_base a = va"
proof -
  have r: "unat (page_base x) = unat x div 4096 * 4096" for x
    using unat_round_down [of 12 x] by (simp add: page_base_def masks)
  have va: "unat va = unat va div 4096 * 4096" using r [of va] page_base_aligned [OF assms(1)] by simp
  then have "aligned va" unfolding aligned_def by (metis mod_mult_self2_is_0)
  then have "unat va \<le> unat a" "unat a < unat va + 4096"
    using region_member [of va 4096 a] aligned_bound [of va] assms(2) by simp_all
  then have "unat a div 4096 = unat va div 4096" using va by (intro div_nat_eqI) simp_all
  then show ?thesis using r [of a] va by (simp add: word_unat_eq_iff)
qed

lemma backend_page:
  assumes ok: "vmm_ok vm" and hb: "heap_backend_map_page vm e = (vm', b)"
  shows "vmm_ok vm'" "backed vm a \<Longrightarrow> backed vm' a" "b \<Longrightarrow> a - e < 4096 \<Longrightarrow> backed vm' a"
proof -
  note r = heap_backend_result [OF ok hb]
  show "vmm_ok vm'" by (rule r(1))
  show "backed vm' a" if "backed vm a"
  proof (cases b)
    case False
    then show ?thesis using that r(2,3) by (auto simp: backed_def)
  next
    case True
    then show ?thesis using that r(2) r(4) [OF True] unfolding backed_def page_flags_def by (cases "page_base a = e") auto
  qed
  show "backed vm' a" if "b" "a - e < 4096"
    using r(4) [OF that(1)] page_base_in [OF _ that(2)] by (auto simp: backed_def page_flags_def)
qed

lemma page_window:
  fixes a e :: u64
  assumes "\<not> a < e" "a < e + 4096"
  shows "a - e < 4096"
proof -
  have "unat (a - e) = unat a - unat e" using assms(1) by (intro unat_sub) (simp add: not_less)
  moreover have "unat (e + 4096) = (unat e + 4096) mod 2 ^ 64" by (simp add: unat_word_ariths)
  then have "unat (e + 4096) \<le> unat e + 4096" by (metis mod_less_eq_dividend)
  then have "unat a < unat e + 4096" using assms(2) by (meson less_le_trans word_lt_unat)
  moreover have "unat e \<le> unat a" using assms(1) by (simp add: word_lt_unat)
  ultimately have "unat (a - e) < 4096" by linarith
  then show ?thesis by (simp add: word_lt_unat)
qed

lemma map_loop_step:
  assumes "pages_backed h" and m: "heap_backend_map_page (page_source h) (heap_mapped_end h) = (vm', b)"
  shows "pages_backed (h\<lparr>page_source := vm'\<rparr>)"
    "b \<Longrightarrow> pages_backed (h\<lparr>page_source := vm', heap_mapped_end := heap_mapped_end h + 4096\<rparr>)"
proof -
  have ok: "vmm_ok (page_source h)" and old: "\<And>a. heap_base h \<le> a \<Longrightarrow> a < heap_mapped_end h \<Longrightarrow> backed (page_source h) a"
    using assms(1) by (auto simp: pages_backed_def)
  note p = backend_page [OF ok m]
  show "pages_backed (h\<lparr>page_source := vm'\<rparr>)" using p(1,2) old by (simp add: pages_backed_def)
  show "pages_backed (h\<lparr>page_source := vm', heap_mapped_end := heap_mapped_end h + 4096\<rparr>)" if "b"
    using p old that page_window by (fastforce simp: pages_backed_def)
qed

lemma map_loop_backed:
  assumes "map_loop heap_backend_map_page h n = Some r" "pages_backed h"
  shows "pages_backed (fst r)"
proof -
  have "heap_backend_map_page = heap_backend_map_page \<longrightarrow> pages_backed h \<longrightarrow> pages_backed (fst r)"
  proof (rule map_loop.raw_induct [where P = "\<lambda>mp h n r. mp = heap_backend_map_page \<longrightarrow> pages_backed h \<longrightarrow> pages_backed (fst r)",
        OF _ assms(1)], intro impI)
    fix loop mp h n r
    assume IH: "\<And>mp h n r. loop mp h n = Some r \<Longrightarrow> mp = heap_backend_map_page \<longrightarrow> pages_backed h \<longrightarrow> pages_backed (fst r)"
      and body: "(if heap_mapped_end h < n
        then case mp (page_source h) (heap_mapped_end h) of
          (p, mapped) \<Rightarrow> if \<not> mapped then Some (h\<lparr>page_source := p\<rparr>, False)
            else loop mp (h\<lparr>page_source := p, heap_mapped_end := heap_mapped_end h + 4096\<rparr>) n
        else Some (h, True)) = Some r"
      and mp: "mp = heap_backend_map_page" and b: "pages_backed h"
    obtain vm' m where m: "heap_backend_map_page (page_source h) (heap_mapped_end h) = (vm', m)" by force
    show "pages_backed (fst r)"
      using body mp m b map_loop_step [OF b m] IH by (auto split: if_splits)
  qed
  then show ?thesis using assms(2) by blast
qed

section \<open>What the free lists leave alone\<close>

definition same_pages :: "'p heap \<Rightarrow> 'p heap \<Rightarrow> bool" where
  "same_pages h h' \<longleftrightarrow> page_source h' = page_source h \<and> heap_base h' = heap_base h \<and> heap_mapped_end h' = heap_mapped_end h"

lemma same_pages_backed: "same_pages h h' \<Longrightarrow> pages_backed h' = pages_backed h"
  by (simp add: same_pages_def pages_backed_def)

lemma scan_class_pages: "scan_class h c m p q = Some r \<Longrightarrow> same_pages h (fst r)"
  by (erule scan_class.raw_induct [where P = "\<lambda>h c m p q r. same_pages h (fst r)", rotated])
    (auto simp: same_pages_def split: if_splits)

lemma scan_classes_pages: "scan_classes h m c = Some r \<Longrightarrow> same_pages h (fst r)"
proof (induction h m c arbitrary: r rule: scan_classes.induct)
  case (1 h m c)
  show ?case
  proof (cases "scan_class h c m 0 (free_list_heads h ! c)")
    case None
    then show ?thesis using 1(2) by (subst (asm) scan_classes.simps) (auto simp: same_pages_def split: if_splits)
  next
    case (Some x)
    obtain h1 o1 where x: "x = (h1, o1)" by force
    note s = scan_class_pages [OF Some, unfolded x fst_conv]
    show ?thesis
    proof (cases "c < FREE_LIST_CLASS_COUNT \<and> o1 = None")
      case True
      then have "scan_classes h1 m (c + 1) = Some r" using 1(2) Some x by (subst (asm) scan_classes.simps) simp
      then show ?thesis using 1(1) [OF _ Some x [symmetric]] True s by (simp add: same_pages_def)
    next
      case False
      then show ?thesis using 1(2) Some x s by (subst (asm) scan_classes.simps) (auto simp: same_pages_def split: if_splits)
    qed
  qed
qed

lemma take_pages: "heap_free_list_take h m = Some r \<Longrightarrow> same_pages h (fst r)"
  using scan_classes_pages [of h m "class_for_size m" r] by (auto simp: heap_free_list_take_def same_pages_def split: if_splits)

lemma kmalloc_backed:
  assumes k: "kmalloc heap_backend_map_page h sz = Some (h', p)" and b: "pages_backed h"
  shows "pages_backed h'"
proof -
  have w: "same_pages h (write_header h a s)" "same_pages h (h\<lparr>heap_next := n\<rparr>)" for h :: "vmm heap" and a s n
    by (simp_all add: same_pages_def write_header_def)
  have t: "pages_backed h1" if "heap_free_list_take h m = Some (h1, o1)" for m h1 o1
    using take_pages [OF that] b same_pages_backed by fastforce
  have l: "pages_backed h2" if "heap_free_list_take h m = Some (h1, o1)" "map_loop heap_backend_map_page h1 n = Some (h2, ok)" for m h1 o1 n h2 ok
    using map_loop_backed [OF that(2) t [OF that(1)]] by simp
  show ?thesis
    using k b t l same_pages_backed [OF w(1)] same_pages_backed [OF w(2)]
    by (auto simp: kmalloc_def Let_def split: if_splits option.splits prod.splits bool.splits)
qed

lemma kfree_backed: "pages_backed h \<Longrightarrow> pages_backed (kfree h p)"
  by (simp add: kfree_def Let_def heap_free_list_add_def pages_backed_def)

text \<open>
  C35: memory from \<open>kmalloc\<close> is really there. On the page source of the kernel, every allocation
  returns, and afterwards every byte of every live region, the new one included, lies in a mapped
  page that is writable and not executable, in a frame that the frame allocator counts as used, and
  the page tables are in order; a request that cannot be met, because frames or address space have
  run out half-way through the pages of a block, leaves the heap like this too. Freeing keeps it.
\<close>

theorem heap_memory_backed:
  assumes "pages_backed h" "heap_live h L"
  shows "(\<exists>h' p. kmalloc heap_backend_map_page h sz = Some (h', p) \<and> pages_backed h' \<and>
      heap_live h' (if p = 0 then L else insert p L) \<and>
      (\<forall>q\<in>(if p = 0 then L else insert p L). \<forall>x. unat x \<in> region h' q \<longrightarrow>
        (\<exists>f. f \<notin> free_frames (frames_of (page_source h')) \<and>
           page_of (page_source h') x = Some (f * 4096, VMM_PAGE_WRITABLE OR VMM_PAGE_NO_EXECUTE) \<and>
           vmm_virtual_to_physical (page_source h') x = f * 4096 OR (x AND PAGE_OFFSET_MASK)))) \<and>
    (\<forall>q\<in>L. pages_backed (kfree h q) \<and> heap_live (kfree h q) (L - {q}))"
proof -
  from kmalloc_live [OF assms(2), of heap_backend_map_page sz] obtain h' p where
    k: "kmalloc heap_backend_map_page h sz = Some (h', p)" and live: "heap_live h' (if p = 0 then L else insert p L)" by auto
  have b: "pages_backed h'" by (rule kmalloc_backed [OF k assms(1)])
  have "\<exists>f. f \<notin> free_frames (frames_of (page_source h')) \<and> page_of (page_source h') x = Some (f * 4096, VMM_PAGE_WRITABLE OR VMM_PAGE_NO_EXECUTE) \<and>
      vmm_virtual_to_physical (page_source h') x = f * 4096 OR (x AND PAGE_OFFSET_MASK)"
    if "q \<in> (if p = 0 then L else insert p L)" "unat x \<in> region h' q" for q x
  proof -
    have "heap_base h' \<le> x" "x < heap_mapped_end h'"
      using live_region_bounds [OF live that(1)] that(2) by (auto simp: word_le_unat word_lt_unat)
    then obtain f where f: "page_of (page_source h') x = Some (f * 4096, page_flags)" "f \<notin> free_frames (frames_of (page_source h'))"
      using b by (auto simp: pages_backed_def backed_def)
    then show ?thesis using b translate_result [of "page_source h'" x] by (auto simp: pages_backed_def page_flags_def)
  qed
  then show ?thesis using k b live kfree_backed [OF assms(1)] kfree_live [OF assms(2)] by blast
qed

definition sample_kernel_heap :: "vmm heap" where
  "sample_kernel_heap = kheap_init \<lparr>heap_base = 0, heap_limit = 0, heap_next = 0, heap_mapped_end = 0,
     free_list_heads = replicate FREE_LIST_CLASS_COUNT 0, memory = (\<lambda>_. 0), page_source = sample_vmm\<rparr>
     MEMORY_LAYOUT_HEAP_BASE 0x100000"

theorem heap_memory_backed_witness:
  "\<exists>h' p. kmalloc heap_backend_map_page sample_kernel_heap 100 = Some (h', p) \<and>
    (\<forall>x. p \<noteq> 0 \<and> unat x \<in> region h' p \<longrightarrow> page_of (page_source h') x \<noteq> None)"
proof -
  have "heap_reach heap_backend_map_page sample_kernel_heap {}"
    unfolding sample_kernel_heap_def by (rule heap_reach.init) (simp_all add: layout_constants)
  from heap_reach_live [OF this] have live: "heap_live sample_kernel_heap {}" .
  have "heap_mapped_end sample_kernel_heap = heap_base sample_kernel_heap" "page_source sample_kernel_heap = sample_vmm"
    by (simp_all add: sample_kernel_heap_def kheap_init_def heap_free_list_reset_def Let_def)
  then have "pages_backed sample_kernel_heap" using sample_vmm_ok by (auto simp: pages_backed_def)
  from heap_memory_backed [OF this live, of 100] obtain h' p where
    k: "kmalloc heap_backend_map_page sample_kernel_heap 100 = Some (h', p)" and
    r: "\<forall>q\<in>(if p = 0 then {} else insert p {}). \<forall>x. unat x \<in> region h' q \<longrightarrow>
      (\<exists>f. f \<notin> free_frames (frames_of (page_source h')) \<and>
        page_of (page_source h') x = Some (f * 4096, VMM_PAGE_WRITABLE OR VMM_PAGE_NO_EXECUTE) \<and>
        vmm_virtual_to_physical (page_source h') x = f * 4096 OR (x AND PAGE_OFFSET_MASK))" by blast
  show ?thesis using k r by (intro exI [of _ h'] exI [of _ p]) fastforce
qed

section \<open>Device registers\<close>

text \<open>
  \<open>vm\<close> maps what \<open>vm0\<close> maps and, where \<open>vm0\<close> has nothing, the first \<open>i\<close> pages from \<open>vb\<close> on to the
  consecutive physical pages from \<open>fp\<close> on.
\<close>

definition window :: "vmm \<Rightarrow> u64 \<Rightarrow> u64 \<Rightarrow> u64 \<Rightarrow> nat \<Rightarrow> vmm \<Rightarrow> bool" where
  "window vm0 vb fp fl i vm \<longleftrightarrow> vmm_ok vm \<and>
     (\<forall>w. if unat (page_base w - vb) < i * 4096 then page_of vm0 w = None \<and> page_of vm w = Some (fp + (page_base w - vb), fl)
          else page_of vm w = page_of vm0 w)"

lemma window_0: "window vm0 vb fp fl 0 vm \<longleftrightarrow> vmm_ok vm \<and> page_of vm = page_of vm0"
  by (simp add: window_def fun_eq_iff)

lemma page_base_dvd: "aligned (page_base w)"
  using unat_round_down [of 12 w] by (simp add: aligned_def page_base_def masks)

lemma aligned_iff: "va AND PAGE_OFFSET_MASK = 0 \<longleftrightarrow> aligned va"
proof
  assume "va AND PAGE_OFFSET_MASK = 0"
  then show "aligned va" using page_base_aligned page_base_dvd by metis
next
  assume "aligned va"
  moreover have "va AND PAGE_OFFSET_MASK = take_bit 12 va" by (simp add: masks take_bit_eq_mask)
  ultimately show "va AND PAGE_OFFSET_MASK = 0" by (simp add: aligned_def take_bit_eq_mod word_unat_eq_iff unat_mod)
qed

lemma aligned_pages: "i < 2 ^ 52 \<Longrightarrow> aligned (of_nat i * 4096)" "i < 2 ^ 52 \<Longrightarrow> unat (of_nat i * 4096 :: u64) = i * 4096"
proof -
  assume "i < 2 ^ 52"
  then show u: "unat (of_nat i * 4096 :: u64) = i * 4096" by (simp add: unat_word_ariths unat_of_nat)
  then show "aligned (of_nat i * 4096)" by (simp add: aligned_def)
qed

lemma page_next:
  assumes al: "aligned vb" and i: "i < 2 ^ 52"
  shows "unat (page_base w - vb) < Suc i * 4096 \<longleftrightarrow> unat (page_base w - vb) < i * 4096 \<or> page_base w = vb + of_nat i * 4096"
    "page_base w = vb + of_nat i * 4096 \<Longrightarrow> \<not> unat (page_base w - vb) < i * 4096"
proof -
  obtain k where k: "unat (page_base w - vb) = 4096 * k" using aligned_diff [OF page_base_dvd al] by (rule alignedE)
  have eq: "page_base w = vb + of_nat i * 4096 \<longleftrightarrow> k = i"
  proof -
    have "page_base w = vb + of_nat i * 4096 \<longleftrightarrow> page_base w - vb = of_nat i * 4096" by (auto simp: algebra_simps)
    also have "\<dots> \<longleftrightarrow> 4096 * k = i * 4096" using k aligned_pages(2) [OF i] by (simp add: word_unat_eq_iff)
    finally show ?thesis by simp
  qed
  show "unat (page_base w - vb) < Suc i * 4096 \<longleftrightarrow> unat (page_base w - vb) < i * 4096 \<or> page_base w = vb + of_nat i * 4096"
    unfolding eq k by auto
  show "\<not> unat (page_base w - vb) < i * 4096" if "page_base w = vb + of_nat i * 4096" using that unfolding eq k by simp
qed

lemma page_of_base: "page_base w = page_base v \<Longrightarrow> page_of vm w = page_of vm v"
  using page_base_same [of w v] by (simp only: page_of_def)

lemma window_map:
  assumes w: "window vm0 vb fp (leaf_flags flags) i vm" and al: "aligned vb" and i: "i < 2 ^ 52"
    and mp: "vmm_map_page vm (vb + of_nat i * 4096) (fp + of_nat i * 4096) flags = (vm', b)"
  shows "window vm0 vb fp (leaf_flags flags) (if b then Suc i else i) vm'"
proof -
  have ok: "vmm_ok vm" using w by (simp add: window_def)
  note r = map_page_result [OF ok mp]
  show ?thesis
  proof (cases b)
    case False
    then show ?thesis using w r(1) grown_page_of r(4) by (auto simp: window_def)
  next
    case True
    let ?va = "vb + of_nat i * 4096"
    have va: "page_base ?va = ?va" using r(3) [OF True] page_base_aligned by blast
    have "page_of vm0 v = None" if "page_base v = ?va" for v
    proof -
      have "page_of vm ?va = page_of vm0 ?va" using w page_next(2) [OF al i va] by (simp add: window_def split: if_splits)
      then show ?thesis using r(3) [OF True] page_of_base [of v ?va vm0] that va by simp
    qed
    moreover have "fp + (page_base v - vb) = fp + of_nat i * 4096" if "page_base v = ?va" for v using that by simp
    ultimately show ?thesis using w r(1) r(3) [OF True] True page_next [OF al i] by (auto simp: window_def)
  qed
qed

lemma window_unmap:
  assumes w: "window vm0 vb fp fl (Suc i) vm" and al: "aligned vb" and i: "i < 2 ^ 52"
  shows "window vm0 vb fp fl i (fst (vmm_unmap_page vm (vb + of_nat i * 4096)))"
proof -
  have ok: "vmm_ok vm" using w by (simp add: window_def)
  obtain vm' pa where u: "vmm_unmap_page vm (vb + of_nat i * 4096) = (vm', pa)" by force
  have "(vb + of_nat i * 4096) AND PAGE_OFFSET_MASK = 0" unfolding aligned_iff by (rule aligned_add [OF al aligned_pages(1) [OF i]])
  then show ?thesis using unmap_page_result [OF ok u] u w page_next [OF al i] by (auto simp: window_def)
qed

lemma unmap_loop_window:
  assumes "aligned vb"
  shows "i < 2 ^ 52 \<Longrightarrow> window vm0 vb fp fl i vm \<Longrightarrow> window vm0 vb fp fl 0 (mmio_unmap_loop vm vb i)"
proof (induction i arbitrary: vm)
  case (Suc i)
  then show ?case using window_unmap [OF Suc.prems(2) assms] by (simp add: MMIO_PAGE_SIZE_def)
qed simp

abbreviation "mmio_flags \<equiv> VMM_PAGE_WRITABLE OR VMM_PAGE_CACHE_DISABLE OR VMM_PAGE_NO_EXECUTE"

lemma map_loop_window:
  assumes "aligned vb"
  shows "i + n < 2 ^ 52 \<Longrightarrow> window vm0 vb fp (leaf_flags mmio_flags) i vm \<Longrightarrow> mmio_map_loop vm vb fp i n = (vm', b) \<Longrightarrow>
    window vm0 vb fp (leaf_flags mmio_flags) (if b then i + n else 0) vm'"
proof (induction n arbitrary: i vm)
  case (Suc n)
  obtain vm1 m where m: "vmm_map_page vm (vb + of_nat i * 4096) (fp + of_nat i * 4096) mmio_flags = (vm1, m)" by force
  have i: "i < 2 ^ 52" using Suc.prems(1) by simp
  note w = window_map [OF Suc.prems(2) assms i m]
  show ?case
  proof (cases m)
    case True
    then show ?thesis using Suc.IH [of "Suc i" vm1] Suc.prems m w by (cases b) (simp_all add: MMIO_PAGE_SIZE_def)
  next
    case False
    then show ?thesis using unmap_loop_window [OF assms i] Suc.prems(3) m w by (auto simp: MMIO_PAGE_SIZE_def)
  qed
qed simp

lemma or_offset: "aligned y \<Longrightarrow> y OR (x AND PAGE_OFFSET_MASK) = y + (x AND PAGE_OFFSET_MASK)"
proof -
  assume "aligned y"
  then have "y AND PAGE_OFFSET_MASK = 0" by (simp add: aligned_iff)
  then have "y AND (x AND PAGE_OFFSET_MASK) = 0" by (metis and.assoc and.commute bit.conj_zero_right)
  then show ?thesis by (rule disjunctive_add_eq_or [symmetric])
qed

lemma base_plus_offset: "page_base x + (x AND PAGE_OFFSET_MASK) = x"
proof -
  have "page_base x + (x AND PAGE_OFFSET_MASK) = page_base x OR (x AND PAGE_OFFSET_MASK)"
    by (rule or_offset [OF page_base_dvd, symmetric])
  also have "\<dots> = x" by (simp add: page_base_def bit.conj_disj_distrib [symmetric])
  finally show ?thesis .
qed

lemma page_base_shift:
  assumes "aligned z"
  shows "page_base (z + y) = z + page_base y"
proof -
  let ?v = "z + page_base y"
  have al: "?v AND PAGE_OFFSET_MASK = 0" unfolding aligned_iff by (rule aligned_add [OF assms page_base_dvd])
  have "z + y - ?v = y AND PAGE_OFFSET_MASK" using base_plus_offset [of y] by (metis add_diff_cancel_left add_diff_cancel_left')
  moreover have "y AND PAGE_OFFSET_MASK < 4096" using and_mask_less_size [of 12 y] by (simp add: masks word_size)
  ultimately show ?thesis using page_base_in [OF al, of "z + y"] by simp
qed

lemma offset_shift:
  assumes "aligned z"
  shows "(z + y) AND PAGE_OFFSET_MASK = y AND PAGE_OFFSET_MASK"
proof -
  have "z + (page_base y + ((z + y) AND PAGE_OFFSET_MASK)) = z + (page_base y + (y AND PAGE_OFFSET_MASK))"
    using base_plus_offset [of "z + y"] base_plus_offset [of y] unfolding page_base_shift [OF assms] by (simp only: add.assoc)
  then have "page_base y + ((z + y) AND PAGE_OFFSET_MASK) = page_base y + (y AND PAGE_OFFSET_MASK)" by (rule add_left_imp_eq)
  then show ?thesis by (rule add_left_imp_eq)
qed

lemma mmio_span:
  assumes "len \<noteq> 0" "\<not> len > UINT64_MAX - po - (MMIO_PAGE_SIZE - 1)" "po < 4096"
  defines "pc \<equiv> (po + len + (MMIO_PAGE_SIZE - 1)) div MMIO_PAGE_SIZE"
  shows "unat pc < 2 ^ 52" "unat (pc * MMIO_PAGE_SIZE) = unat pc * 4096" "unat po + unat len \<le> unat pc * 4096" "0 < unat pc"
proof -
  have po: "unat po < 4096" using assms(3) by (simp add: word_lt_unat)
  have "unat (UINT64_MAX - po - (MMIO_PAGE_SIZE - 1)) = 2 ^ 64 - 1 - unat po - 4095"
    using po by (simp add: MMIO_PAGE_SIZE_def unat_sub_if_size word_size)
  then have l: "unat po + unat len + 4095 < 2 ^ 64" using assms(2) po by (simp add: word_lt_unat not_less)
  have "unat (po + len) = unat po + unat len" using l by (intro unat_add_no_wrap) simp
  then have "unat (po + len + 4095) = unat po + unat len + 4095" using l by (subst unat_add_no_wrap) simp_all
  then have pc: "unat pc = (unat po + unat len + 4095) div 4096" by (simp add: pc_def MMIO_PAGE_SIZE_def unat_div)
  then show b: "unat pc < 2 ^ 52" using l by (simp add: div_less_iff_less_mult)
  then show "unat (pc * MMIO_PAGE_SIZE) = unat pc * 4096" by (simp add: MMIO_PAGE_SIZE_def unat_word_ariths)
  have len: "0 < unat len" using assms(1) by (simp add: unat_gt_0)
  have "unat po + unat len + 4095 < unat pc * 4096 + 4096" unfolding pc by (metis div_mult_mod_eq mod_less_divisor nat_add_left_cancel_less zero_less_numeral)
  then show "unat po + unat len \<le> unat pc * 4096" by simp
  then show "0 < unat pc" using len by (cases "unat pc") auto
qed

text \<open>The registers of the device appear, byte for byte, where \<open>mmio_map\<close> says.\<close>

lemma mmio_map_result:
  assumes ok: "vmm_ok vm" and nx: "aligned nx" and mm: "mmio_map vm nx pa len = (vm', nx', r)"
  shows "vmm_ok vm'" "nx' = nx \<Longrightarrow> page_of vm' = page_of vm \<and> r = 0"
    "nx' \<noteq> nx \<Longrightarrow> k < unat len \<Longrightarrow> vmm_virtual_to_physical vm' (r + of_nat k) = pa + of_nat k"
    "nx' \<noteq> nx \<Longrightarrow> \<not> page_base w - nx < nx' - nx \<Longrightarrow> page_of vm' w = page_of vm w"
proof -
  define po fp pc where "po = pa AND (MMIO_PAGE_SIZE - 1)" and "fp = pa - po" and "pc = (po + len + (MMIO_PAGE_SIZE - 1)) div MMIO_PAGE_SIZE"
  have m: "MMIO_PAGE_SIZE - 1 = PAGE_OFFSET_MASK" by (simp add: MMIO_PAGE_SIZE_def PAGE_OFFSET_MASK_def)
  have po: "po < 4096" using and_mask_less_size [of 12 pa] unfolding po_def m by (simp add: masks word_size)
  have fp: "fp = page_base pa" using base_plus_offset [of pa] unfolding fp_def po_def m by (metis add_diff_cancel_right')
  consider (none) "vm' = vm" "nx' = nx" "r = 0"
    | (loop) b where "len \<noteq> 0" "\<not> len > UINT64_MAX - po - (MMIO_PAGE_SIZE - 1)" "mmio_map_loop vm nx fp 0 (unat pc) = (vm', b)"
        "nx' = (if b then nx + pc * MMIO_PAGE_SIZE else nx)" "r = (if b then nx + po else 0)"
    using mm unfolding mmio_map_def Let_def po_def [symmetric] fp_def [symmetric] pc_def [symmetric]
    by (auto split: if_splits prod.splits bool.splits)
  then have "vmm_ok vm' \<and> (if nx' = nx then page_of vm' = page_of vm \<and> r = 0 else
    (k < unat len \<longrightarrow> vmm_virtual_to_physical vm' (r + of_nat k) = pa + of_nat k) \<and>
    (\<not> page_base w - nx < nx' - nx \<longrightarrow> page_of vm' w = page_of vm w))"
  proof cases
    case loop
    note sp = mmio_span [OF loop(1,2) po, folded pc_def]
    have "window vm nx fp (leaf_flags mmio_flags) 0 vm" using ok by (simp add: window_0)
    from map_loop_window [OF nx _ this loop(3)] sp(1) have win: "window vm nx fp (leaf_flags mmio_flags) (if b then unat pc else 0) vm'" by (cases b) simp_all
    show ?thesis
    proof (cases b)
      case False
      then show ?thesis using win loop(4,5) by (simp add: window_0)
    next
      case True
      have "pc * MMIO_PAGE_SIZE \<noteq> 0" using sp(2,4) by (metis less_numeral_extra(3) mult_is_0 unat_0 zero_neq_numeral)
      then have ne: "nx' \<noteq> nx" "nx' - nx = pc * MMIO_PAGE_SIZE" using True loop(4) by simp_all
      have okv: "vmm_ok vm'" using win by (simp add: window_def)
      have out: "page_of vm' w = page_of vm w" if "\<not> page_base w - nx < nx' - nx"
        using win True that sp(2) unfolding window_def ne(2) word_lt_unat by (auto split: if_splits)
      have at: "vmm_virtual_to_physical vm' (r + of_nat k) = pa + of_nat k" if k: "k < unat len"
      proof -
        let ?y = "po + of_nat k"
        have "unat (of_nat k :: u64) = k" using k unat64_less [of len] by (intro unat_of_nat64) simp
        then have "unat ?y \<le> unat po + k" by (metis unat_word_ariths(1) mod_less_eq_dividend)
        moreover have "unat (page_base ?y) \<le> unat ?y" using unat_round_down [of 12 ?y] by (simp add: page_base_def masks)
        ultimately have lt: "unat (page_base ?y) < unat pc * 4096" using k sp(3) by linarith
        have x: "r + of_nat k = nx + ?y" using True loop(5) by (simp add: add.assoc)
        have "page_base (nx + ?y) - nx = page_base ?y" by (simp add: page_base_shift [OF nx])
        then have p: "page_of vm' (nx + ?y) = Some (fp + page_base ?y, leaf_flags mmio_flags)"
          using win True lt by (auto simp: window_def split: if_splits dest: spec [of _ "nx + ?y"])
        have "(nx + ?y) AND PAGE_OFFSET_MASK = ?y AND PAGE_OFFSET_MASK" by (rule offset_shift [OF nx])
        then have "vmm_virtual_to_physical vm' (nx + ?y) = fp + page_base ?y + (?y AND PAGE_OFFSET_MASK)"
          using translate_result [OF okv, of "nx + ?y"] p or_offset [OF aligned_add [OF page_base_dvd page_base_dvd], of pa ?y] fp by simp
        also have "\<dots> = pa + of_nat k" using base_plus_offset [of ?y] unfolding fp_def by (metis add.assoc diff_add_cancel)
        finally show ?thesis unfolding x .
      qed
      show ?thesis using ne okv out at by simp
    qed
  qed (use ok in simp)
  then show "vmm_ok vm'" "nx' = nx \<Longrightarrow> page_of vm' = page_of vm \<and> r = 0"
    "nx' \<noteq> nx \<Longrightarrow> k < unat len \<Longrightarrow> vmm_virtual_to_physical vm' (r + of_nat k) = pa + of_nat k"
    "nx' \<noteq> nx \<Longrightarrow> \<not> page_base w - nx < nx' - nx \<Longrightarrow> page_of vm' w = page_of vm w"
    by (auto split: if_splits)
qed

end
