(* ===== verification/Virtqueue.thy ===== *)
theory Virtqueue
  imports Virtual_Memory
begin

text \<open>
  The split virtqueue of the virtio drivers, \<^verbatim>\<open>kernel/drivers/virtqueue.c\<close>, with the operations of
  \<^verbatim>\<open>kernel/drivers/virtio_pci.c\<close> it calls. The device is not trusted: what the driver reads from
  memory that the device writes, the index and the elements of the used ring, is an argument of
  every poll, and so are the registers the device answers with. The descriptor table and the two
  rings are lists of as many entries as the queue has; an access outside of one of them is the
  result \<open>None\<close> of the operation that makes it. The memory barriers order the accesses, which
  the model makes one after the other.
\<close>

section \<open>Device registers\<close>

record virtio_pci_common_cfg =
  device_status :: u8
  queue_select :: u16
  queue_size :: u16
  queue_enable :: u16
  queue_desc :: u64
  queue_driver :: u64
  queue_device :: u64

text \<open>\<open>notified\<close> holds the writes to the notification registers: address and value.\<close>

record virtio_device =
  common :: virtio_pci_common_cfg
  notify_base :: u64
  notify_multiplier :: u32
  notified :: "(u64 \<times> u16) list"

definition VIRTIO_STATUS_FAILED :: u8 where "VIRTIO_STATUS_FAILED = 128"

definition virtio_pci_add_status :: "virtio_device \<Rightarrow> u8 \<Rightarrow> virtio_device" where
  "virtio_pci_add_status d bits = d\<lparr>common := (common d)\<lparr>device_status := device_status (common d) OR bits\<rparr>\<rparr>"

definition virtio_pci_status :: "virtio_device \<Rightarrow> u8" where
  "virtio_pci_status d = device_status (common d)"

definition virtio_pci_notify :: "virtio_device \<Rightarrow> u16 \<Rightarrow> u16 \<Rightarrow> virtio_device" where
  "virtio_pci_notify d notify_offset queue_index =
     d\<lparr>notified := notified d @ [(notify_base d + ucast notify_offset * ucast (notify_multiplier d), queue_index)]\<rparr>"

section \<open>The queue\<close>

record virtq_desc =
  desc_addr :: u64
  desc_len :: u32
  desc_flags :: u16
  desc_next :: u16

record virtq_avail =
  avail_idx :: u16
  avail_ring :: "u16 list"

record virtqueue_buffer =
  physical_address :: u64
  buffer_length :: u32
  device_writable :: bool

datatype virtqueue_poll_result = VIRTQUEUE_POLL_FAILED | VIRTQUEUE_POLL_EMPTY | VIRTQUEUE_POLL_COMPLETE

record virtqueue =
  vq_desc :: "virtq_desc list"
  vq_avail :: virtq_avail
  vq_index :: u16
  vq_size :: u16
  vq_notify_offset :: u16
  vq_last_used :: u16
  vq_writable_capacity :: u32
  vq_in_flight :: bool
  vq_failed :: bool

definition VIRTQ_DESC_F_NEXT :: u16 where "VIRTQ_DESC_F_NEXT = 1"
definition VIRTQ_DESC_F_WRITE :: u16 where "VIRTQ_DESC_F_WRITE = 2"
abbreviation VIRTQUEUE_POLL_LIMIT :: nat where "VIRTQUEUE_POLL_LIMIT \<equiv> 100000000"

text \<open>Access to a table or a ring by index.\<close>

definition ring_load :: "'a list \<Rightarrow> nat \<Rightarrow> 'a option" where
  "ring_load ring index = (if index < length ring then Some (ring ! index) else None)"

definition ring_store :: "'a list \<Rightarrow> nat \<Rightarrow> 'a \<Rightarrow> 'a list option" where
  "ring_store ring index x = (if index < length ring then Some (ring[index := x]) else None)"

definition fail_queue :: "virtio_device \<times> virtqueue \<Rightarrow> virtio_device \<times> virtqueue" where
  "fail_queue dq = (virtio_pci_add_status (fst dq) VIRTIO_STATUS_FAILED, (snd dq)\<lparr>vq_failed := True, vq_in_flight := False\<rparr>)"



text \<open>The first loop of a submission: the capacity of the buffers the device may write.\<close>

fun check_buffers :: "u64 \<Rightarrow> virtqueue_buffer list \<Rightarrow> u64 option" where
  "check_buffers capacity [] = Some capacity"
| "check_buffers capacity (b # bs) =
     (let len = ucast (buffer_length b) :: u64 in
      if len \<noteq> 0 \<and> physical_address b > UINT64_MAX - len then None
      else if device_writable b then
        (if capacity + len > ucast UINT32_MAX then None else check_buffers (capacity + len) bs)
      else check_buffers capacity bs)"

definition make_descriptor :: "u16 \<Rightarrow> u16 \<Rightarrow> virtqueue_buffer \<Rightarrow> virtq_desc" where
  "make_descriptor count index b =
     \<lparr>desc_addr = physical_address b, desc_len = buffer_length b,
      desc_flags = (if device_writable b then VIRTQ_DESC_F_WRITE else 0) OR (if index + 1 < count then VIRTQ_DESC_F_NEXT else 0),
      desc_next = (if index + 1 < count then index + 1 else 0)\<rparr>"

fun write_descriptors :: "virtq_desc list \<Rightarrow> u16 \<Rightarrow> nat \<Rightarrow> virtqueue_buffer list \<Rightarrow> virtq_desc list option" where
  "write_descriptors ds count index [] = Some ds"
| "write_descriptors ds count index (b # bs) =
     (case ring_store ds index (make_descriptor count (of_nat index) b) of
        None \<Rightarrow> None
      | Some ds1 \<Rightarrow> write_descriptors ds1 count (index + 1) bs)"

text \<open>The count argument of the code is the length of the list, which fits 16 bits.\<close>

definition virtqueue_submit_async ::
    "virtio_device \<times> virtqueue \<Rightarrow> virtqueue_buffer list \<Rightarrow> ((virtio_device \<times> virtqueue) \<times> bool) option" where
  "virtqueue_submit_async dq buffers =
     (case dq of (d, q) \<Rightarrow>
        let count = of_nat (length buffers) :: u16 in
        if count = 0 \<or> vq_size q = 0 \<or> count > vq_size q \<or> vq_in_flight q \<or> vq_failed q then Some (dq, False)
        else case check_buffers 0 buffers of
          None \<Rightarrow> Some (dq, False)
        | Some capacity \<Rightarrow>
            (case write_descriptors (vq_desc q) count 0 buffers of
               None \<Rightarrow> None
             | Some descriptors \<Rightarrow>
                 let av = vq_avail q;
                     avail_slot = avail_idx av mod vq_size q in
                 (case ring_store (avail_ring av) (unat avail_slot) 0 of
                    None \<Rightarrow> None
                  | Some ring \<Rightarrow>
                      Some ((virtio_pci_notify d (vq_notify_offset q) (vq_index q),
                             q\<lparr>vq_desc := descriptors,
                               vq_avail := av\<lparr>avail_ring := ring, avail_idx := avail_idx av + 1\<rparr>,
                               vq_writable_capacity := ucast capacity, vq_in_flight := True\<rparr>), True))))"

text \<open>\<open>used_idx\<close> and \<open>used_ring\<close>, an identifier and a length per entry, are what the device has written.\<close>

definition virtqueue_poll_used ::
    "virtio_device \<times> virtqueue \<Rightarrow> u16 \<Rightarrow> (u32 \<times> u32) list \<Rightarrow>
     ((virtio_device \<times> virtqueue) \<times> virtqueue_poll_result \<times> u32 option) option" where
  "virtqueue_poll_used dq used_idx used_ring =
     (case dq of (d, q) \<Rightarrow>
        if vq_failed q \<or> vq_size q = 0 then Some (dq, VIRTQUEUE_POLL_FAILED, None)
        else if \<not> vq_in_flight q then
          Some (if used_idx \<noteq> vq_last_used q then (fail_queue dq, VIRTQUEUE_POLL_FAILED, None) else (dq, VIRTQUEUE_POLL_EMPTY, None))
        else if used_idx = vq_last_used q then Some (dq, VIRTQUEUE_POLL_EMPTY, None)
        else if used_idx - vq_last_used q \<noteq> 1 then Some (fail_queue dq, VIRTQUEUE_POLL_FAILED, None)
        else let used_slot = vq_last_used q mod vq_size q in
          case ring_load used_ring (unat used_slot) of
            None \<Rightarrow> None
          | Some (used_id, used_length) \<Rightarrow>
              Some (if used_id \<noteq> 0 \<or> used_length > vq_writable_capacity q then (fail_queue dq, VIRTQUEUE_POLL_FAILED, None)
                    else ((d, q\<lparr>vq_last_used := used_idx, vq_writable_capacity := 0, vq_in_flight := False\<rparr>),
                          VIRTQUEUE_POLL_COMPLETE, Some used_length)))"

text \<open>\<open>spins\<close> polls are left; the answers of the device to them come from \<open>answer\<close>.\<close>

fun poll_loop ::
    "(nat \<Rightarrow> u16 \<times> (u32 \<times> u32) list) \<Rightarrow> virtio_device \<times> virtqueue \<Rightarrow> nat \<Rightarrow> ((virtio_device \<times> virtqueue) \<times> bool) option" where
  "poll_loop answer dq 0 = Some (fail_queue dq, False)"
| "poll_loop answer dq (Suc spins) =
     (case virtqueue_poll_used dq (fst (answer spins)) (snd (answer spins)) of
        None \<Rightarrow> None
      | Some (dq1, VIRTQUEUE_POLL_COMPLETE, _) \<Rightarrow> Some (dq1, True)
      | Some (dq1, VIRTQUEUE_POLL_FAILED, _) \<Rightarrow> Some (dq1, False)
      | Some (dq1, VIRTQUEUE_POLL_EMPTY, _) \<Rightarrow> poll_loop answer dq1 spins)"

definition virtqueue_submit ::
    "(nat \<Rightarrow> u16 \<times> (u32 \<times> u32) list) \<Rightarrow> virtio_device \<times> virtqueue \<Rightarrow> virtqueue_buffer list \<Rightarrow>
     ((virtio_device \<times> virtqueue) \<times> bool) option" where
  "virtqueue_submit answer dq buffers =
     (case virtqueue_submit_async dq buffers of
        None \<Rightarrow> None
      | Some (dq1, False) \<Rightarrow> Some (dq1, False)
      | Some (dq1, True) \<Rightarrow> poll_loop answer dq1 VIRTQUEUE_POLL_LIMIT)"

section \<open>What the device sees\<close>








section \<open>Any device\<close>


















end
