(* ===== verification/Capability.thy ===== *)
theory Capability
  imports Object_Id
begin

text \<open>
  \<^verbatim>\<open>kernel/cap/capability.{h,c}\<close>: a capability names an object and carries a set of
  rights, one bit each, and a badge. A \<open>const struct capability *\<close> argument, which callers
  do pass as \<open>NULL\<close> (the result of a failed lookup), is an \<open>option\<close>; a derivation
  that returns 0 is \<open>None\<close>.
\<close>

record capability =
  cap_object :: object_id
  rights :: u32
  badge :: u32

definition CAP_RIGHT_READ :: u32 where "CAP_RIGHT_READ = 0x01"
definition CAP_RIGHT_WRITE :: u32 where "CAP_RIGHT_WRITE = 0x02"
definition CAP_RIGHT_SEND :: u32 where "CAP_RIGHT_SEND = 0x04"
definition CAP_RIGHT_GRANT :: u32 where "CAP_RIGHT_GRANT = 0x08"

definition CAP_RIGHT_ALL :: u32 where
  "CAP_RIGHT_ALL = (CAP_RIGHT_READ OR CAP_RIGHT_WRITE OR CAP_RIGHT_SEND OR CAP_RIGHT_GRANT)"

definition zero_capability :: capability where
  "zero_capability = \<lparr>cap_object = zero_id, rights = 0, badge = 0\<rparr>"

definition capability_is_valid :: "capability option \<Rightarrow> bool" where
  "capability_is_valid c =
     (case c of
        None \<Rightarrow> False
      | Some k \<Rightarrow>
          if object_id_is_zero (cap_object k) then False
          else if rights k = 0 then False
          else if rights k AND NOT CAP_RIGHT_ALL \<noteq> 0 then False
          else True)"

definition capability_allows :: "capability option \<Rightarrow> u32 \<Rightarrow> bool" where
  "capability_allows c required =
     (if \<not> capability_is_valid c then False
      else if required = 0 \<or> required AND NOT CAP_RIGHT_ALL \<noteq> 0 then False
      else rights (the c) AND required = required)"

definition capability_derive :: "capability option \<Rightarrow> u32 \<Rightarrow> u32 \<Rightarrow> capability option" where
  "capability_derive parent child_rights child_badge =
     (if \<not> capability_is_valid parent then None
      else if \<not> capability_allows parent CAP_RIGHT_GRANT then None
      else if child_rights = 0 \<or> child_rights AND NOT CAP_RIGHT_ALL \<noteq> 0 then None
      else if child_rights AND rights (the parent) \<noteq> child_rights then None
      else Some \<lparr>cap_object = cap_object (the parent), rights = child_rights, badge = child_badge\<rparr>)"

lemmas cap_right_defs =
  CAP_RIGHT_READ_def CAP_RIGHT_WRITE_def CAP_RIGHT_SEND_def CAP_RIGHT_GRANT_def CAP_RIGHT_ALL_def

lemma capability_is_valid_None [simp]: "\<not> capability_is_valid None"
  by (simp add: capability_is_valid_def)

lemma capability_allows_None [simp]: "\<not> capability_allows None r"
  by (simp add: capability_allows_def)

lemma capability_is_valid_Some:
  "capability_is_valid (Some k) \<longleftrightarrow>
     \<not> object_id_is_zero (cap_object k) \<and> rights k \<noteq> 0 \<and> rights k AND NOT CAP_RIGHT_ALL = 0"
  by (simp add: capability_is_valid_def)

lemma zero_capability_invalid [simp]: "\<not> capability_is_valid (Some zero_capability)"
  by (simp add: capability_is_valid_def zero_capability_def)

lemma capability_derive_Some:
  assumes "capability_derive parent r b = Some child"
  obtains p where "parent = Some p" "capability_is_valid (Some p)"
    "capability_allows (Some p) CAP_RIGHT_GRANT" "capability_is_valid (Some child)"
    "cap_object child = cap_object p" "rights child AND rights p = rights child"
    "rights child = r" "badge child = b"
proof -
  from assms obtain p where p: "parent = Some p" "capability_is_valid (Some p)"
    by (cases parent) (auto simp: capability_derive_def split: if_splits)
  with assms that show thesis
    by (auto simp: capability_derive_def capability_is_valid_Some split: if_splits)
qed

text \<open>The rights a capability allows, as a set of bits: what derivation can only shrink.\<close>

definition right_bits :: "capability \<Rightarrow> nat set" where
  "right_bits k = {n. n < 32 \<and> bit (rights k) n}"

lemma right_bits_subset:
  "rights a AND rights b = rights a \<longleftrightarrow> right_bits a \<subseteq> right_bits b"
  by (auto simp: right_bits_def bit_eq_iff bit_and_iff dest: bit_imp_le_length)

end
