(* ===== verification/Cap_Table.thy ===== *)
theory Cap_Table
  imports Capability
begin

text \<open>
  \<^verbatim>\<open>kernel/cap/cap_table.{h,c}\<close>: the sixteen capability slots of a component. The three
  parallel arrays of the C struct are lists of length sixteen; \<open>parents\<close> holds the slot a
  capability was derived from or \<open>CAP_SLOT_NONE\<close>, and \<open>generations\<close> counts how often
  a slot was claimed. Slot numbers of the interface are \<open>u32\<close> as in the source.
\<close>

abbreviation CAP_TABLE_SLOTS :: nat where "CAP_TABLE_SLOTS \<equiv> 16"

definition CAP_SLOT_NONE :: u32 where "CAP_SLOT_NONE = UINT32_MAX"

record capability_table =
  slots :: "capability list"
  parents :: "u32 list"
  generations :: "u32 list"

section \<open>Operations\<close>

definition capability_table_init :: capability_table where
  "capability_table_init =
     \<lparr>slots = replicate CAP_TABLE_SLOTS zero_capability,
      parents = replicate CAP_TABLE_SLOTS CAP_SLOT_NONE,
      generations = replicate CAP_TABLE_SLOTS 0\<rparr>"

definition capability_table_claim_slot :: "capability_table \<Rightarrow> (capability_table \<times> nat) option" where
  "capability_table_claim_slot t =
     (case List.find (\<lambda>s. object_id_is_zero (cap_object (slots t ! s)) \<and>
                          generations t ! s \<noteq> UINT32_MAX) [0..<CAP_TABLE_SLOTS] of
        None \<Rightarrow> None
      | Some s \<Rightarrow> Some (t\<lparr>generations := (generations t)[s := generations t ! s + 1]\<rparr>, s))"

definition capability_table_insert_root ::
    "capability_table \<Rightarrow> capability option \<Rightarrow> (capability_table \<times> u32) option" where
  "capability_table_insert_root t c =
     (if \<not> capability_is_valid c then None
      else case capability_table_claim_slot t of
        None \<Rightarrow> None
      | Some (t', s) \<Rightarrow>
          Some (t'\<lparr>slots := (slots t')[s := the c], parents := (parents t')[s := CAP_SLOT_NONE]\<rparr>,
                of_nat s))"

definition capability_table_get :: "capability_table \<Rightarrow> u32 \<Rightarrow> capability option" where
  "capability_table_get t slot =
     (if unat slot \<ge> CAP_TABLE_SLOTS then None
      else if \<not> capability_is_valid (Some (slots t ! unat slot)) \<or> generations t ! unat slot = 0
      then None
      else Some (slots t ! unat slot))"

definition capability_table_generation :: "capability_table \<Rightarrow> u32 \<Rightarrow> u32" where
  "capability_table_generation t slot =
     (if capability_table_get t slot = None then 0 else generations t ! unat slot)"

definition capability_table_derive ::
    "capability_table \<Rightarrow> u32 \<Rightarrow> u32 \<Rightarrow> u32 \<Rightarrow> (capability_table \<times> u32) option" where
  "capability_table_derive t parent_slot child_rights child_badge =
     (case capability_derive (capability_table_get t parent_slot) child_rights child_badge of
        None \<Rightarrow> None
      | Some child \<Rightarrow>
          (case capability_table_claim_slot t of
             None \<Rightarrow> None
           | Some (t', s) \<Rightarrow>
               Some (t'\<lparr>slots := (slots t')[s := child], parents := (parents t')[s := parent_slot]\<rparr>,
                     of_nat s)))"

text \<open>
  One pass of the marking loop of \<open>capability_table_revoke\<close>, with its \<open>changed\<close> flag,
  and the \<open>do ... while (changed)\<close> around it. The local array \<open>revoked\<close> has
  \<open>CAP_TABLE_SLOTS\<close> elements, so the pass runs over its length.
\<close>

definition mark_child :: "u32 list \<Rightarrow> bool list \<times> bool \<Rightarrow> nat \<Rightarrow> bool list \<times> bool" where
  "mark_child ps rc child =
     (let revoked = fst rc; parent = ps ! child in
      if \<not> revoked ! child \<and> unat parent < CAP_TABLE_SLOTS \<and> revoked ! unat parent
      then (revoked[child := True], True) else rc)"

definition mark_pass :: "u32 list \<Rightarrow> bool list \<Rightarrow> bool list \<times> bool" where
  "mark_pass ps revoked = foldl (mark_child ps) (revoked, False) [0..<length revoked]"

lemma mark_child_fold:
  assumes "set is \<subseteq> {..<length r}"
  shows "length (fst (foldl (mark_child ps) (r, c) is)) = length r"
    and "\<And>j. r ! j \<Longrightarrow> j < length r \<Longrightarrow> fst (foldl (mark_child ps) (r, c) is) ! j"
    and "\<not> snd (foldl (mark_child ps) (r, c) is) \<Longrightarrow> fst (foldl (mark_child ps) (r, c) is) = r \<and> \<not> c"
    and "snd (foldl (mark_child ps) (r, c) is) \<Longrightarrow> c \<or>
           (\<exists>j<length r. \<not> r ! j \<and> fst (foldl (mark_child ps) (r, c) is) ! j)"
  using assms
proof (atomize (full), induction "is" arbitrary: r c)
  case (Cons i js)
  have i: "i < length r" and js: "set js \<subseteq> {..<length r}" using Cons.prems by auto
  obtain r' c' where m: "mark_child ps (r, c) i = (r', c')" by force
  have r': "(r', c') = (r, c) \<or> (r' = r[i := True] \<and> c' \<and> \<not> r ! i)"
    using m by (auto simp: mark_child_def Let_def split: if_splits)
  then have len: "length r' = length r" by auto
  have "r ! j \<Longrightarrow> j < length r \<Longrightarrow> r' ! j" for j
    using r' i by (auto simp: nth_list_update)
  with Cons.IH [of r' c'] js len m r' i show ?case
    by (auto simp: nth_list_update split: if_splits)
qed simp

lemma mark_pass_changed:
  assumes "snd (mark_pass ps r)"
  shows "length (fst (mark_pass ps r)) = length r"
    and "length (filter Not (fst (mark_pass ps r))) < length (filter Not r)"
proof -
  let ?r = "fst (mark_pass ps r)"
  have *: "set [0..<length r] \<subseteq> {..<length r}" by auto
  show len: "length ?r = length r" using mark_child_fold(1) [OF *] by (simp add: mark_pass_def)
  have mono: "r ! j \<Longrightarrow> j < length r \<Longrightarrow> ?r ! j" for j
    using mark_child_fold(2) [OF *] by (simp add: mark_pass_def)
  obtain j where j: "j < length r" "\<not> r ! j" "?r ! j"
    using mark_child_fold(4) [OF *, of ps False] assms by (auto simp: mark_pass_def)
  have "{i. i < length r \<and> \<not> ?r ! i} \<subset> {i. i < length r \<and> \<not> r ! i}" using mono j by auto
  then have "card {i. i < length r \<and> \<not> ?r ! i} < card {i. i < length r \<and> \<not> r ! i}"
    by (rule psubset_card_mono [rotated]) simp
  then show "length (filter Not ?r) < length (filter Not r)"
    by (simp add: length_filter_conv_card len)
qed

function mark_loop :: "u32 list \<Rightarrow> bool list \<Rightarrow> bool list" where
  "mark_loop ps revoked =
     (case mark_pass ps revoked of
        (revoked', changed) \<Rightarrow> if changed then mark_loop ps revoked' else revoked')"
  by pat_completeness auto
termination
proof (relation "measure (\<lambda>(ps, r). length (filter Not r))")
  fix ps revoked x y
  assume "(x, y) = mark_pass ps revoked" "y"
  then show "((ps, x), ps, revoked) \<in> measure (\<lambda>(ps, r). length (filter Not r))"
    using mark_pass_changed(2) [of ps revoked] by (cases "mark_pass ps revoked") auto
qed simp

declare mark_loop.simps [simp del]

text \<open>The last loop: a marked slot is cleared, its parent link with it.\<close>

definition clear_revoked :: "bool list \<Rightarrow> capability_table \<Rightarrow> nat \<Rightarrow> capability_table" where
  "clear_revoked revoked t current =
     (if revoked ! current
      then t\<lparr>slots := (slots t)[current := zero_capability],
             parents := (parents t)[current := CAP_SLOT_NONE]\<rparr>
      else t)"

definition capability_table_revoke :: "capability_table \<Rightarrow> u32 \<Rightarrow> capability_table option" where
  "capability_table_revoke t slot =
     (if capability_table_get t slot = None then None
      else let revoked = mark_loop (parents t)
                 ((replicate CAP_TABLE_SLOTS False)[unat slot := True])
           in Some (foldl (clear_revoked revoked) t [0..<CAP_TABLE_SLOTS]))"

definition capability_table_find :: "capability_table \<Rightarrow> object_id \<Rightarrow> u32 option" where
  "capability_table_find t object =
     (if object_id_is_zero object then None
      else map_option of_nat
        (List.find (\<lambda>s. case capability_table_get t (of_nat s) of
                           None \<Rightarrow> False
                         | Some c \<Rightarrow> object_id_equal (cap_object c) object) [0..<CAP_TABLE_SLOTS]))"

text \<open>
  The inner loop of \<open>capability_table_is_valid\<close>, with the number of turns it still has.
  It reads \<open>child\<close> without a test; the slot it reads is the outer loop's valid slot or the
  parent it has just found valid, so the case \<open>None\<close> of \<open>child\<close> is not reached.
\<close>

fun chain_loop :: "capability_table \<Rightarrow> u32 \<Rightarrow> nat \<Rightarrow> bool" where
  "chain_loop t current 0 = False"
| "chain_loop t current (Suc turns) =
     (let parent_slot = parents t ! unat current in
      if parent_slot = CAP_SLOT_NONE then True
      else if unat parent_slot \<ge> CAP_TABLE_SLOTS then False
      else let child = capability_table_get t current;
               parent = capability_table_get t parent_slot
        in if \<not> capability_is_valid parent \<or> child = None \<or>
              \<not> object_id_equal (cap_object (the child)) (cap_object (the parent)) \<or>
              \<not> capability_allows parent CAP_RIGHT_GRANT \<or>
              rights (the child) AND rights (the parent) \<noteq> rights (the child)
           then False
           else chain_loop t parent_slot turns)"

definition slot_is_valid :: "capability_table \<Rightarrow> nat \<Rightarrow> bool" where
  "slot_is_valid t s =
     (if object_id_is_zero (cap_object (slots t ! s)) then
        rights (slots t ! s) = 0 \<and> badge (slots t ! s) = 0 \<and> parents t ! s = CAP_SLOT_NONE
      else if \<not> capability_is_valid (Some (slots t ! s)) \<or> generations t ! s = 0 then False
      else chain_loop t (of_nat s) CAP_TABLE_SLOTS)"

definition capability_table_is_valid :: "capability_table \<Rightarrow> bool" where
  "capability_table_is_valid t = list_all (slot_is_valid t) [0..<CAP_TABLE_SLOTS]"

section \<open>The shape of a table\<close>

abbreviation slot_free :: "capability_table \<Rightarrow> nat \<Rightarrow> bool" where
  "slot_free t s \<equiv> object_id_is_zero (cap_object (slots t ! s))"

definition table_shape :: "capability_table \<Rightarrow> bool" where
  "table_shape t \<longleftrightarrow> length (slots t) = CAP_TABLE_SLOTS \<and> length (parents t) = CAP_TABLE_SLOTS \<and>
     length (generations t) = CAP_TABLE_SLOTS"

lemma unat_slot [simp]: "s < CAP_TABLE_SLOTS \<Longrightarrow> unat (of_nat s :: u32) = s"
  by (simp add: unat_of_nat)

lemma of_nat_slot: "unat (x :: u32) = s \<Longrightarrow> of_nat s = x"
  by auto

lemma slot_none_large: "CAP_TABLE_SLOTS \<le> unat CAP_SLOT_NONE"
  by (simp add: CAP_SLOT_NONE_def)

lemma slot_small_not_none: "unat (x :: u32) < CAP_TABLE_SLOTS \<Longrightarrow> x \<noteq> CAP_SLOT_NONE"
  using slot_none_large by auto

lemma get_Some_iff:
  "capability_table_get t slot = Some c \<longleftrightarrow>
     unat slot < CAP_TABLE_SLOTS \<and> c = slots t ! unat slot \<and> capability_is_valid (Some c) \<and>
     generations t ! unat slot \<noteq> 0"
  by (auto simp: capability_table_get_def)

lemma get_None_free: "slot_free t (unat slot) \<Longrightarrow> capability_table_get t slot = None"
  by (simp add: capability_table_get_def capability_is_valid_Some)

lemma claim_slot_Some:
  assumes "capability_table_claim_slot t = Some (t', s)"
  shows "s < CAP_TABLE_SLOTS" "slot_free t s" "generations t ! s \<noteq> UINT32_MAX"
    "t' = t\<lparr>generations := (generations t)[s := generations t ! s + 1]\<rparr>"
    "\<And>j. j < s \<Longrightarrow> \<not> slot_free t j \<or> generations t ! j = UINT32_MAX"
  using assms
  by (auto simp: capability_table_claim_slot_def split: option.splits dest: find_upt_Some(1,2)
      find_upt_Some(3))

text \<open>
  A table is well formed when a free slot is all zero and has no parent, and every other slot
  holds a valid capability whose chain of parents ends: each parent holds the grant right on
  the same object and at least the rights of its child.
\<close>

definition chain_ok :: "capability_table \<Rightarrow> nat \<Rightarrow> bool" where
  "chain_ok t s \<longleftrightarrow> (\<exists>n. chain_loop t (of_nat s) n)"

definition table_wf :: "capability_table \<Rightarrow> bool" where
  "table_wf t \<longleftrightarrow> table_shape t \<and>
     (\<forall>s<CAP_TABLE_SLOTS.
        if slot_free t s then slots t ! s = zero_capability \<and> parents t ! s = CAP_SLOT_NONE
        else capability_is_valid (Some (slots t ! s)) \<and> generations t ! s \<noteq> 0 \<and> chain_ok t s)"

definition parent_link :: "capability_table \<Rightarrow> nat \<Rightarrow> nat \<Rightarrow> bool" where
  "parent_link t p c \<longleftrightarrow> c < CAP_TABLE_SLOTS \<and> p < CAP_TABLE_SLOTS \<and> unat (parents t ! c) = p"

text \<open>What the inner loop checks between a slot and its parent.\<close>

definition link_ok :: "capability_table \<Rightarrow> u32 \<Rightarrow> u32 \<Rightarrow> bool" where
  "link_ok t child parent \<longleftrightarrow>
     (\<exists>c p. capability_table_get t child = Some c \<and> capability_table_get t parent = Some p \<and>
        cap_object c = cap_object p \<and> capability_allows (Some p) CAP_RIGHT_GRANT \<and>
        rights c AND rights p = rights c)"

lemma chain_loop_Suc [simp]:
  "chain_loop t s (Suc n) \<longleftrightarrow> parents t ! unat s = CAP_SLOT_NONE \<or>
     (unat (parents t ! unat s) < CAP_TABLE_SLOTS \<and> link_ok t s (parents t ! unat s) \<and>
      chain_loop t (parents t ! unat s) n)"
proof -
  have "capability_is_valid (capability_table_get t x) \<longleftrightarrow> capability_table_get t x \<noteq> None" for x
    by (simp add: capability_table_get_def)
  then show ?thesis
    by (auto simp: link_ok_def Let_def not_le dest: slot_small_not_none)
qed

declare chain_loop.simps(2) [simp del]

lemma chain_loop_mono: "chain_loop t s n \<Longrightarrow> n \<le> m \<Longrightarrow> chain_loop t s m"
proof (induction n arbitrary: s m)
  case (Suc n)
  then obtain k where "m = Suc k" "n \<le> k" by (cases m) auto
  with Suc show ?case by auto
qed simp

text \<open>
  The bound of the inner loop loses nothing: a chain that ends at all visits each slot at
  most once, so it ends within sixteen turns. The number of turns a slot needs is its rank;
  the ranks of the slots on a chain are consecutive, and there are sixteen slots.
\<close>

definition chain_rank :: "capability_table \<Rightarrow> nat \<Rightarrow> nat" where
  "chain_rank t s = (LEAST n. chain_loop t (of_nat s) n)"

lemma chain_loop_rank: "chain_loop t (of_nat s) n \<Longrightarrow> chain_loop t (of_nat s) (chain_rank t s)"
  unfolding chain_rank_def by (rule LeastI)

lemma chain_rank_le: "chain_loop t (of_nat s) n \<Longrightarrow> chain_rank t s \<le> n"
  unfolding chain_rank_def by (rule Least_le)

lemma chain_ranks_consecutive:
  "s < CAP_TABLE_SLOTS \<Longrightarrow> chain_rank t s = n \<Longrightarrow> chain_loop t (of_nat s) n \<Longrightarrow>
     {1..n} \<subseteq> chain_rank t ` {..<CAP_TABLE_SLOTS}"
proof (induction n arbitrary: s)
  case (Suc n)
  show ?case
  proof (cases "n = 0")
    case True
    with Suc.prems show ?thesis by (auto simp: image_iff intro!: bexI [of _ s])
  next
    case False
    have "\<not> chain_loop t (of_nat s) 1" using chain_rank_le [of t s 1] Suc.prems(2) False by auto
    then have np: "parents t ! s \<noteq> CAP_SLOT_NONE" using Suc.prems(1) by simp
    define p where "p = unat (parents t ! s)"
    have p: "p < CAP_TABLE_SLOTS" "chain_loop t (of_nat p) n"
      using Suc.prems(1,3) np by (auto simp: p_def)
    have "chain_loop t (of_nat s) (Suc k)" if "chain_loop t (of_nat p) k" for k
      using Suc.prems(1,3) np that by (auto simp: p_def)
    from this [OF chain_loop_rank [OF p(2)]] have "chain_rank t s \<le> Suc (chain_rank t p)"
      by (rule chain_rank_le)
    with Suc.prems(2) chain_rank_le [OF p(2)] have "chain_rank t p = n" by simp
    from Suc.IH [OF p(1) this p(2)] have "{1..n} \<subseteq> chain_rank t ` {..<CAP_TABLE_SLOTS}" .
    moreover have "Suc n \<in> chain_rank t ` {..<CAP_TABLE_SLOTS}" using Suc.prems(1,2) by force
    moreover have "{1..Suc n} = insert (Suc n) {1..n}" by auto
    ultimately show ?thesis by simp
  qed
qed simp

lemma chain_ok_bound:
  assumes "s < CAP_TABLE_SLOTS"
  shows "chain_ok t s \<longleftrightarrow> chain_loop t (of_nat s) CAP_TABLE_SLOTS"
proof
  assume "chain_ok t s"
  then have r: "chain_loop t (of_nat s) (chain_rank t s)"
    using chain_loop_rank by (auto simp: chain_ok_def)
  have "card {1..chain_rank t s} \<le> card (chain_rank t ` {..<CAP_TABLE_SLOTS})"
    using chain_ranks_consecutive [OF assms refl r] by (intro card_mono) auto
  also have "\<dots> \<le> CAP_TABLE_SLOTS" using card_image_le [of "{..<CAP_TABLE_SLOTS}"] by force
  finally show "chain_loop t (of_nat s) CAP_TABLE_SLOTS" using r by (auto intro: chain_loop_mono)
qed (auto simp: chain_ok_def)

lemma is_valid_iff_wf:
  assumes "table_shape t"
  shows "capability_table_is_valid t \<longleftrightarrow> table_wf t"
proof -
  have "slot_is_valid t s \<longleftrightarrow>
      (if slot_free t s then slots t ! s = zero_capability \<and> parents t ! s = CAP_SLOT_NONE
       else capability_is_valid (Some (slots t ! s)) \<and> generations t ! s \<noteq> 0 \<and> chain_ok t s)"
    if "s < CAP_TABLE_SLOTS" for s
    using chain_ok_bound [OF that, of t]
    by (cases "slots t ! s") (auto simp: slot_is_valid_def object_id_is_zero_eq zero_capability_def)
  then show ?thesis
    using assms by (auto simp: capability_table_is_valid_def table_wf_def list_all_iff)
qed

section \<open>Every operation keeps the table well formed\<close>

lemma init_wf: "table_wf capability_table_init"
  by (simp add: table_wf_def table_shape_def capability_table_init_def zero_capability_def)

text \<open>A chain survives a change of the table outside a set of slots closed under parents.\<close>

lemma chain_frame:
  assumes "chain_loop t c n" "unat c \<in> S" "S \<subseteq> {..<CAP_TABLE_SLOTS}"
    and same: "\<And>s. s \<in> S \<Longrightarrow> slots t' ! s = slots t ! s \<and> parents t' ! s = parents t ! s \<and>
      generations t' ! s = generations t ! s"
    and closed: "\<And>s. s \<in> S \<Longrightarrow> capability_table_get t (parents t ! s) \<noteq> None \<Longrightarrow>
      unat (parents t ! s) \<in> S"
  shows "chain_loop t' c n"
  using assms(1,2)
proof (induction n arbitrary: c)
  case (Suc n)
  have get: "capability_table_get t' x = capability_table_get t x" if "unat x \<in> S" for x
    using same [OF that] assms(3) that by (auto simp: capability_table_get_def)
  show ?case
  proof (cases "parents t ! unat c = CAP_SLOT_NONE")
    case True
    with same [OF Suc.prems(2)] show ?thesis by simp
  next
    case False
    let ?p = "parents t ! unat c"
    from False Suc.prems(1) have p: "unat ?p < CAP_TABLE_SLOTS" "link_ok t c ?p" "chain_loop t ?p n"
      by auto
    have "unat ?p \<in> S" using closed [OF Suc.prems(2)] p(2) by (auto simp: link_ok_def)
    then show ?thesis
      using Suc.IH [OF p(3)] p same [OF Suc.prems(2)] get Suc.prems(2) by (auto simp: link_ok_def)
  qed
qed simp

lemma install_wf:
  assumes wf: "table_wf t" and claim: "capability_table_claim_slot t = Some (t1, s)"
    and c: "capability_is_valid (Some c)"
    and q: "q = CAP_SLOT_NONE \<or>
      (\<exists>p. capability_table_get t q = Some p \<and> capability_allows (Some p) CAP_RIGHT_GRANT \<and>
         cap_object c = cap_object p \<and> rights c AND rights p = rights c)"
    and t': "t' = t1\<lparr>slots := (slots t1)[s := c], parents := (parents t1)[s := q]\<rparr>"
  shows "table_wf t'"
proof -
  note cl = claim_slot_Some [OF claim]
  have shape: "table_shape t" using wf by (simp add: table_wf_def)
  have t'_at: "slots t' ! s = c" "parents t' ! s = q" "generations t' ! s = generations t ! s + 1"
    using shape cl(1) by (simp_all add: t' cl(4) table_shape_def)
  have t'_other: "slots t' ! j = slots t ! j \<and> parents t' ! j = parents t ! j \<and>
      generations t' ! j = generations t ! j" if "j \<noteq> s" for j
    using that by (simp add: t' cl(4))
  have gen: "generations t ! s + 1 \<noteq> 0"
    using unat_inc32 [OF cl(3)] by (metis One_nat_def Suc_neq_Zero add_Suc_right unat_0)
  let ?S = "{..<CAP_TABLE_SLOTS} - {s}"
  have frame: "chain_loop t' x n" if "chain_loop t x n" "unat x < CAP_TABLE_SLOTS" "unat x \<noteq> s" for x n
  proof (rule chain_frame [OF that(1), of ?S])
    fix k assume "capability_table_get t (parents t ! k) \<noteq> None"
    then have "unat (parents t ! k) < CAP_TABLE_SLOTS" "\<not> slot_free t (unat (parents t ! k))"
      by (auto simp: get_Some_iff capability_is_valid_Some)
    then show "unat (parents t ! k) \<in> ?S" using cl(2) by auto
  qed (use that t'_other in auto)
  have "chain_ok t' s"
  proof (cases "q = CAP_SLOT_NONE")
    case True
    then have "chain_loop t' (of_nat s) (Suc 0)" using cl(1) t'_at(2) by simp
    then show ?thesis unfolding chain_ok_def by blast
  next
    case False
    with q obtain p where p: "capability_table_get t q = Some p"
      "capability_allows (Some p) CAP_RIGHT_GRANT" "cap_object c = cap_object p"
      "rights c AND rights p = rights c" by auto
    have uq: "unat q < CAP_TABLE_SLOTS" "\<not> slot_free t (unat q)"
      using p(1) by (auto simp: get_Some_iff capability_is_valid_Some)
    have ne: "unat q \<noteq> s" using uq(2) cl(2) by auto
    have "chain_ok t (unat q)" using wf uq by (simp add: table_wf_def)
    then obtain n where "chain_loop t' q n" using frame [of q] uq(1) ne by (auto simp: chain_ok_def)
    moreover have "link_ok t' (of_nat s) q"
      using p c cl(1) t'_at gen t'_other [OF ne] by (auto simp: link_ok_def get_Some_iff)
    ultimately have "chain_loop t' (of_nat s) (Suc n)" using cl(1) t'_at(2) uq(1) by simp
    then show ?thesis unfolding chain_ok_def by blast
  qed
  moreover have "chain_ok t' j" if "chain_ok t j" "j < CAP_TABLE_SLOTS" "j \<noteq> s" for j
    using frame [of "of_nat j"] that by (auto simp: chain_ok_def)
  moreover have "\<not> slot_free t' s" using c t'_at(1) by (simp add: capability_is_valid_Some)
  moreover have "table_shape t'" using shape by (simp add: t' cl(4) table_shape_def)
  ultimately show ?thesis
    using wf c t'_at t'_other gen unfolding table_wf_def by metis
qed

lemma insert_root_wf:
  assumes "table_wf t" "capability_table_insert_root t c = Some (t', slot)"
  shows "table_wf t'"
proof -
  from assms(2) obtain k t1 s where "c = Some k" "capability_is_valid (Some k)"
    "capability_table_claim_slot t = Some (t1, s)"
    "t' = t1\<lparr>slots := (slots t1)[s := k], parents := (parents t1)[s := CAP_SLOT_NONE]\<rparr>"
    by (cases c) (auto simp: capability_table_insert_root_def split: if_splits option.splits)
  then show ?thesis using install_wf [OF assms(1)] by blast
qed

lemma derive_Some:
  assumes "capability_table_derive t q r b = Some (t', slot)"
  obtains p child t1 s where "capability_table_get t q = Some p"
    "capability_allows (Some p) CAP_RIGHT_GRANT" "capability_is_valid (Some child)"
    "cap_object child = cap_object p" "rights child AND rights p = rights child"
    "rights child = r" "badge child = b"
    "capability_table_claim_slot t = Some (t1, s)" "slot = of_nat s"
    "t' = t1\<lparr>slots := (slots t1)[s := child], parents := (parents t1)[s := q]\<rparr>"
proof -
  from assms obtain child t1 s where *: "capability_derive (capability_table_get t q) r b = Some child"
    "capability_table_claim_slot t = Some (t1, s)" "slot = of_nat s"
    "t' = t1\<lparr>slots := (slots t1)[s := child], parents := (parents t1)[s := q]\<rparr>"
    by (auto simp: capability_table_derive_def split: option.splits)
  show thesis by (rule capability_derive_Some [OF *(1)]) (rule that, use * in auto)
qed

lemma derive_wf:
  assumes "table_wf t" "capability_table_derive t q r b = Some (t', slot)"
  shows "table_wf t'"
  by (rule derive_Some [OF assms(2)]) (rule install_wf [OF assms(1)], auto)

section \<open>Revocation clears exactly the derivation tree\<close>

definition link_of :: "u32 list \<Rightarrow> nat \<Rightarrow> nat \<Rightarrow> bool" where
  "link_of ps p c \<longleftrightarrow> c < CAP_TABLE_SLOTS \<and> p < CAP_TABLE_SLOTS \<and> unat (ps ! c) = p"

definition marked_slots :: "bool list \<Rightarrow> nat set" where
  "marked_slots r = {i. i < length r \<and> r ! i}"

lemma mark_fold_sound:
  assumes "set is \<subseteq> {..<CAP_TABLE_SLOTS}" "length r = CAP_TABLE_SLOTS"
    "y \<in> marked_slots (fst (foldl (mark_child ps) (r, c) is))"
  shows "\<exists>x\<in>marked_slots r. (link_of ps)\<^sup>*\<^sup>* x y"
  using assms
proof (induction "is" arbitrary: r c)
  case (Cons i js)
  obtain r' c' where m: "mark_child ps (r, c) i = (r', c')" by force
  have r': "r' = r \<or> (r' = r[i := True] \<and> unat (ps ! i) \<in> marked_slots r \<and> link_of ps (unat (ps ! i)) i)"
    using m Cons.prems(1,2)
    by (auto simp: mark_child_def Let_def marked_slots_def link_of_def split: if_splits)
  then have "length r' = CAP_TABLE_SLOTS" using Cons.prems(2) by auto
  with Cons.IH [of r' c'] Cons.prems(1,3) m obtain x where
    x: "x \<in> marked_slots r'" "(link_of ps)\<^sup>*\<^sup>* x y" by auto
  show ?case
  proof (cases "x \<in> marked_slots r")
    case False
    with r' x(1) have "x = i" "unat (ps ! i) \<in> marked_slots r" "link_of ps (unat (ps ! i)) i"
      by (auto simp: marked_slots_def nth_list_update' split: if_splits)
    with x(2) show ?thesis by (blast intro: converse_rtranclp_into_rtranclp)
  qed (use x in blast)
qed auto

lemma mark_fold_closed:
  assumes "set is \<subseteq> {..<CAP_TABLE_SLOTS}" "length r = CAP_TABLE_SLOTS"
    "\<not> snd (foldl (mark_child ps) (r, c) is)" "i \<in> set is" "link_of ps p i" "p \<in> marked_slots r"
  shows "i \<in> marked_slots r"
  using assms
proof (induction "is" arbitrary: c)
  case (Cons j js)
  obtain r' c' where m: "mark_child ps (r, c) j = (r', c')" by force
  have fold: "foldl (mark_child ps) (r, c) (j # js) = foldl (mark_child ps) (r', c') js"
    using m by simp
  have "(r', c') = (r, c) \<or> c'" using m by (auto simp: mark_child_def Let_def split: if_splits)
  moreover have len: "length r' = length r" using m
    by (auto simp: mark_child_def Let_def split: if_splits)
  then have "\<not> c'"
    using mark_child_fold(3) [of js r' ps c'] Cons.prems(1,2,3) fold by simp
  ultimately have eq: "r' = r" "c' = c" by auto
  show ?case
  proof (cases "i = j")
    case True
    with m eq \<open>\<not> c'\<close> Cons.prems show ?thesis
      by (auto simp: mark_child_def Let_def link_of_def marked_slots_def split: if_splits)
  next
    case False
    with Cons.IH [of c] Cons.prems fold eq show ?thesis by simp
  qed
qed simp

interpretation revocation: closure_sweep "mark_pass ps" "mark_loop ps" marked_slots "link_of ps"
  "\<lambda>r. length r = CAP_TABLE_SLOTS" "{..<CAP_TABLE_SLOTS}" for ps
proof unfold_locales
  fix r :: "bool list"
  show "mark_loop ps r = (case mark_pass ps r of (r', ch) \<Rightarrow> if ch then mark_loop ps r' else r')"
    by (rule mark_loop.simps)
  assume len: "length r = CAP_TABLE_SLOTS"
  have *: "set [0..<length r] \<subseteq> {..<length r}" by auto
  note fold = mark_child_fold [OF *, where ps = ps and c = False, folded mark_pass_def]
  show "length (fst (mark_pass ps r)) = CAP_TABLE_SLOTS" using fold(1) len by simp
  show "marked_slots r \<subseteq> {..<CAP_TABLE_SLOTS}" using len by (auto simp: marked_slots_def)
  show "\<exists>x\<in>marked_slots r. (link_of ps)\<^sup>*\<^sup>* x y" if "y \<in> marked_slots (fst (mark_pass ps r))" for y
    by (rule mark_fold_sound [OF _ len that [unfolded mark_pass_def]]) (use len in auto)
  show "marked_slots r \<subset> marked_slots (fst (mark_pass ps r))" if "snd (mark_pass ps r)"
    using fold(1,2) fold(4) [OF that] by (auto simp: marked_slots_def)
  show "fst (mark_pass ps r) = r \<and>
      (\<forall>x\<in>marked_slots r. \<forall>y. link_of ps x y \<longrightarrow> y \<in> marked_slots r)" if "\<not> snd (mark_pass ps r)"
    using fold(3) [OF that] mark_fold_closed [of "[0..<length r]" r ps False] that len
    by (auto simp: mark_pass_def link_of_def atLeast0LessThan)
qed simp

text \<open>The slots derived, directly or not, from a slot; the slot itself is one of them.\<close>

definition derived_from :: "capability_table \<Rightarrow> nat \<Rightarrow> nat set" where
  "derived_from t s = {c. (link_of (parents t))\<^sup>*\<^sup>* s c}"

lemma revoke_marks:
  fixes t :: capability_table and slot :: u32
  assumes "unat slot < CAP_TABLE_SLOTS"
  defines "r \<equiv> mark_loop (parents t) ((replicate CAP_TABLE_SLOTS False)[unat slot := True])"
  shows "length r = CAP_TABLE_SLOTS" "i < CAP_TABLE_SLOTS \<Longrightarrow> r ! i \<longleftrightarrow> i \<in> derived_from t (unat slot)"
proof -
  let ?r = "(replicate CAP_TABLE_SLOTS False)[unat slot := True]"
  have "length ?r = CAP_TABLE_SLOTS" by simp
  moreover have m: "marked_slots ?r = {unat slot}"
    using assms(1) by (auto simp: marked_slots_def nth_list_update split: if_splits)
  ultimately have *: "length r = CAP_TABLE_SLOTS"
    "marked_slots r = {y. (link_of (parents t))\<^sup>*\<^sup>* (unat slot) y}"
    using revocation.loop_result [of ?r "parents t"] by (auto simp: r_def)
  then show "length r = CAP_TABLE_SLOTS"
    "i < CAP_TABLE_SLOTS \<Longrightarrow> r ! i \<longleftrightarrow> i \<in> derived_from t (unat slot)"
    by (auto simp: marked_slots_def derived_from_def)
qed

lemma clear_fold:
  fixes t :: capability_table and r :: "bool list"
  assumes "table_shape t" "n \<le> CAP_TABLE_SLOTS"
  defines "t' \<equiv> foldl (clear_revoked r) t [0..<n]"
  shows "generations t' = generations t \<and> table_shape t' \<and>
    (\<forall>i. slots t' ! i = (if i < n \<and> r ! i then zero_capability else slots t ! i) \<and>
         parents t' ! i = (if i < n \<and> r ! i then CAP_SLOT_NONE else parents t ! i))"
  using assms(2) unfolding t'_def
proof (induction n)
  case 0
  then show ?case using assms(1) by simp
next
  case (Suc n)
  then show ?case
    by (auto simp: clear_revoked_def nth_list_update' table_shape_def less_Suc_eq)
qed

lemma revoke_Some:
  assumes "table_shape t" "capability_table_revoke t slot = Some t'"
  shows "generations t' = generations t" "table_shape t'"
    "i < CAP_TABLE_SLOTS \<Longrightarrow> slots t' ! i =
       (if i \<in> derived_from t (unat slot) then zero_capability else slots t ! i)"
    "i < CAP_TABLE_SLOTS \<Longrightarrow> parents t' ! i =
       (if i \<in> derived_from t (unat slot) then CAP_SLOT_NONE else parents t ! i)"
proof -
  define r where "r = mark_loop (parents t) ((replicate CAP_TABLE_SLOTS False)[unat slot := True])"
  from assms(2) have t': "t' = foldl (clear_revoked r) t [0..<CAP_TABLE_SLOTS]"
    and "capability_table_get t slot \<noteq> None"
    by (auto simp: capability_table_revoke_def Let_def r_def split: if_splits)
  then have "unat slot < CAP_TABLE_SLOTS" by (auto simp: get_Some_iff)
  note marks = revoke_marks(2) [OF this, of _ t, folded r_def]
  show "generations t' = generations t" "table_shape t'"
    "i < CAP_TABLE_SLOTS \<Longrightarrow> slots t' ! i =
       (if i \<in> derived_from t (unat slot) then zero_capability else slots t ! i)"
    "i < CAP_TABLE_SLOTS \<Longrightarrow> parents t' ! i =
       (if i \<in> derived_from t (unat slot) then CAP_SLOT_NONE else parents t ! i)"
    using clear_fold [OF assms(1) order_refl, of r] marks by (auto simp: t')
qed

lemma revoke_wf:
  assumes "table_wf t" "capability_table_revoke t slot = Some t'"
  shows "table_wf t'"
proof -
  have shape: "table_shape t" using assms(1) by (simp add: table_wf_def)
  note rv = revoke_Some [OF shape assms(2)]
  let ?D = "derived_from t (unat slot)"
  let ?S = "{s. s < CAP_TABLE_SLOTS \<and> s \<notin> ?D}"
  have "chain_loop t' (of_nat s) n" if "chain_loop t (of_nat s) n" "s \<in> ?S" for s n
  proof (rule chain_frame [OF that(1), of ?S])
    fix k assume k: "k \<in> ?S" "capability_table_get t (parents t ! k) \<noteq> None"
    then have "unat (parents t ! k) < CAP_TABLE_SLOTS" by (auto simp: get_Some_iff)
    then show "unat (parents t ! k) \<in> ?S"
      using k(1) by (auto simp: derived_from_def link_of_def intro: rtranclp.rtrancl_into_rtrancl)
  qed (use that(2) rv in auto)
  then have "chain_ok t s \<Longrightarrow> s \<in> ?S \<Longrightarrow> chain_ok t' s" for s by (auto simp: chain_ok_def)
  then show ?thesis
    using assms(1) rv unfolding table_wf_def by (auto simp: zero_capability_def)
qed

section \<open>Runs of the table\<close>

text \<open>The successful operations of a component on its table, in any order.\<close>

inductive cap_step :: "capability_table \<Rightarrow> capability_table \<Rightarrow> bool" where
  insert_root: "capability_table_insert_root t c = Some (t', slot) \<Longrightarrow> cap_step t t'"
| derive: "capability_table_derive t q r b = Some (t', slot) \<Longrightarrow> cap_step t t'"
| revoke: "capability_table_revoke t slot = Some t' \<Longrightarrow> cap_step t t'"

inductive_cases cap_stepE: "cap_step t t'"

lemma cap_step_wf: "cap_step t t' \<Longrightarrow> table_wf t \<Longrightarrow> table_wf t'"
  by (auto elim!: cap_stepE intro: insert_root_wf derive_wf revoke_wf)

lemma cap_steps_wf: "cap_step\<^sup>*\<^sup>* t t' \<Longrightarrow> table_wf t \<Longrightarrow> table_wf t'"
  by (induction rule: rtranclp_induct) (auto intro: cap_step_wf)

text \<open>A step that fills a slot raises its generation; no step lowers one.\<close>

lemma cap_step_generation:
  assumes "cap_step t t'" "table_wf t" "i < CAP_TABLE_SLOTS"
  shows "unat (generations t ! i) \<le> unat (generations t' ! i) \<and>
    (capability_table_get t' (of_nat i) \<noteq> None \<longrightarrow>
       capability_table_get t (of_nat i) \<noteq> None \<and> generations t' ! i = generations t ! i \<or>
       unat (generations t ! i) < unat (generations t' ! i))"
proof -
  have shape: "table_shape t" using assms(2) by (simp add: table_wf_def)
  have installed: ?thesis
    if cl: "capability_table_claim_slot t = Some (t1, s)"
      and t': "t' = t1\<lparr>slots := (slots t1)[s := c], parents := (parents t1)[s := q]\<rparr>" for t1 s c q
  proof (cases "i = s")
    case True
    then show ?thesis
      using claim_slot_Some [OF cl] unat_inc32 [of "generations t ! s"] shape assms(3)
      by (simp add: t' table_shape_def)
  next
    case False
    then show ?thesis
      using claim_slot_Some(4) [OF cl] assms(3) by (simp add: t' capability_table_get_def)
  qed
  from assms(1) show ?thesis
  proof (cases rule: cap_step.cases)
    case (insert_root c slot)
    then obtain t1 s where "capability_table_claim_slot t = Some (t1, s)"
      "t' = t1\<lparr>slots := (slots t1)[s := the c], parents := (parents t1)[s := CAP_SLOT_NONE]\<rparr>"
      by (auto simp: capability_table_insert_root_def split: if_splits option.splits)
    then show ?thesis by (rule installed)
  next
    case (derive q r b slot)
    show ?thesis by (rule derive_Some [OF derive]) (rule installed)
  next
    case (revoke slot)
    then show ?thesis
      using revoke_Some(1,3) [OF shape revoke] assms(3) by (auto simp: capability_table_get_def)
  qed
qed

lemma generation_monotone:
  assumes "cap_step\<^sup>*\<^sup>* t t'" "table_wf t" "i < CAP_TABLE_SLOTS"
  shows "unat (generations t ! i) \<le> unat (generations t' ! i)"
  using assms
  by (induction rule: rtranclp_induct)
    (auto dest: cap_step_generation cap_steps_wf intro: order_trans)

lemma dead_reference_step:
  assumes "cap_step t t'" "table_wf t" "unat slot < CAP_TABLE_SLOTS" "g \<noteq> 0"
    "capability_table_generation t slot \<noteq> g" "unat g \<le> unat (generations t ! unat slot)"
  shows "capability_table_generation t' slot \<noteq> g"
  using cap_step_generation [OF assms(1-3)] assms(4-6)
  by (auto simp: capability_table_generation_def split: if_splits)

lemma dead_reference_run:
  assumes "cap_step\<^sup>*\<^sup>* t t'" "table_wf t" "unat slot < CAP_TABLE_SLOTS" "g \<noteq> 0"
    "capability_table_generation t slot \<noteq> g" "unat g \<le> unat (generations t ! unat slot)"
  shows "capability_table_generation t' slot \<noteq> g"
  using assms
proof (induction rule: rtranclp_induct)
  case (step y z)
  have "unat g \<le> unat (generations y ! unat slot)"
    using generation_monotone [OF step.hyps(1) step.prems(1,2)] step.prems(5) by simp
  then show ?case
    by (rule dead_reference_step [OF step.hyps(2) cap_steps_wf [OF step.hyps(1) step.prems(1)]
          step.prems(2,3) step.IH [OF step.prems]])
qed simp

lemma link_attenuates:
  assumes "table_wf t" "link_of (parents t) p c"
  shows "\<exists>kc kp. capability_table_get t (of_nat c) = Some kc \<and> capability_table_get t (of_nat p) = Some kp \<and>
    cap_object kc = cap_object kp \<and> right_bits kc \<subseteq> right_bits kp \<and>
    capability_allows (Some kp) CAP_RIGHT_GRANT"
proof -
  from assms(2) have *: "c < CAP_TABLE_SLOTS" "p < CAP_TABLE_SLOTS" "parents t ! c = of_nat p"
    by (auto simp: link_of_def)
  then have np: "parents t ! c \<noteq> CAP_SLOT_NONE" using slot_small_not_none by auto
  then have "\<not> slot_free t c" "chain_ok t c" using assms(1) * by (auto simp: table_wf_def split: if_splits)
  then obtain n where "chain_loop t (of_nat c) n" by (auto simp: chain_ok_def)
  then have "link_ok t (of_nat c) (of_nat p)" using np * by (cases n) auto
  then show ?thesis by (auto simp: link_ok_def right_bits_subset)
qed

section \<open>Properties\<close>

text \<open>
  C2: whatever a component does with its table, the table passes the validator. Starting
  from a fresh table, after any sequence of successful root insertions, derivations and
  revocations \<open>capability_table_is_valid\<close> returns 1, although its walk up a chain of
  parents is cut off after sixteen steps.
\<close>

theorem reachable_tables_valid:
  assumes "cap_step\<^sup>*\<^sup>* capability_table_init t"
  shows "capability_table_is_valid t"
  using cap_steps_wf [OF assms init_wf] by (simp add: is_valid_iff_wf table_wf_def)

definition sample_capability :: capability where
  "sample_capability = \<lparr>cap_object = Object_Id 2 1, rights = CAP_RIGHT_ALL, badge = 0\<rparr>"

definition sample_table :: capability_table where
  "sample_table =
     \<lparr>slots = sample_capability # replicate 15 zero_capability,
      parents = replicate 16 CAP_SLOT_NONE, generations = 1 # replicate 15 0\<rparr>"

definition sample_child :: capability where
  "sample_child = \<lparr>cap_object = Object_Id 2 1, rights = 3, badge = 5\<rparr>"

definition sample_table2 :: capability_table where
  "sample_table2 =
     \<lparr>slots = sample_capability # sample_child # replicate 14 zero_capability,
      parents = CAP_SLOT_NONE # 0 # replicate 14 CAP_SLOT_NONE, generations = 1 # 1 # replicate 14 0\<rparr>"

lemmas sample_defs = sample_table_def sample_table2_def sample_capability_def sample_child_def
  capability_table_init_def zero_capability_def cap_right_defs object_id_is_zero_def

lemma sample_claim: "capability_table_claim_slot capability_table_init =
    Some (capability_table_init\<lparr>generations := 1 # replicate 15 0\<rparr>, 0)"
proof -
  have "List.find (\<lambda>s. slot_free capability_table_init s \<and>
      generations capability_table_init ! s \<noteq> UINT32_MAX) [0..<CAP_TABLE_SLOTS] = Some 0"
    by (rule find_uptI) (auto simp: sample_defs)
  then show ?thesis
    by (simp add: capability_table_claim_slot_def) (simp add: capability_table_init_def numeral_eq_Suc)
qed

lemma sample_claim2: "capability_table_claim_slot sample_table =
    Some (sample_table\<lparr>generations := 1 # 1 # replicate 14 0\<rparr>, 1)"
proof -
  have "List.find (\<lambda>s. slot_free sample_table s \<and>
      generations sample_table ! s \<noteq> UINT32_MAX) [0..<CAP_TABLE_SLOTS] = Some 1"
    by (rule find_uptI) (auto simp: sample_defs)
  then show ?thesis
    by (simp add: capability_table_claim_slot_def) (simp add: sample_table_def numeral_eq_Suc)
qed

lemma sample_insert: "capability_table_insert_root capability_table_init (Some sample_capability) =
    Some (sample_table, 0)"
proof -
  have "capability_is_valid (Some sample_capability)"
    by (simp add: capability_is_valid_Some sample_defs)
  then show ?thesis
    by (simp add: capability_table_insert_root_def sample_claim)
      (simp add: sample_table_def capability_table_init_def numeral_eq_Suc)
qed

lemma sample_get: "capability_table_get sample_table 0 = Some sample_capability"
  by (simp add: get_Some_iff capability_is_valid_Some) (simp add: sample_defs)

lemma sample_derive: "capability_table_derive sample_table 0 3 5 = Some (sample_table2, 1)"
proof -
  have "capability_derive (Some sample_capability) 3 5 = Some sample_child"
    by (simp add: capability_derive_def capability_allows_def capability_is_valid_Some sample_defs)
  then show ?thesis
    by (simp add: capability_table_derive_def sample_get sample_claim2)
      (simp add: sample_table_def sample_table2_def numeral_eq_Suc)
qed

lemma sample_run: "cap_step\<^sup>*\<^sup>* capability_table_init sample_table" "cap_step\<^sup>*\<^sup>* sample_table sample_table2"
  "table_wf sample_table" "table_wf sample_table2"
proof -
  show *: "cap_step\<^sup>*\<^sup>* capability_table_init sample_table" "cap_step\<^sup>*\<^sup>* sample_table sample_table2"
    by (rule r_into_rtranclp, rule cap_step.insert_root [OF sample_insert])
      (rule r_into_rtranclp, rule cap_step.derive [OF sample_derive])
  show "table_wf sample_table" "table_wf sample_table2"
    using cap_steps_wf [OF *(1) init_wf] cap_steps_wf [OF *(2)] by auto
qed

theorem reachable_tables_valid_witness:
  "cap_step\<^sup>*\<^sup>* capability_table_init sample_table \<and> capability_table_is_valid sample_table"
  using reachable_tables_valid [OF sample_run(1)] sample_run(1) by simp

text \<open>
  C3: authority only shrinks along derivation. In every table that insertions, derivations and
  revocations can make of the empty one, a slot derived directly or through any number of steps
  from another holds a capability on the same object, with no right the ancestor does not have,
  and the ancestor, if it is another slot, holds the grant right.
\<close>

theorem derivation_attenuates:
  assumes "cap_step\<^sup>*\<^sup>* capability_table_init t"
    "capability_table_get t a = Some ka" "unat d \<in> derived_from t (unat a)"
  shows "\<exists>kd. capability_table_get t d = Some kd \<and> cap_object kd = cap_object ka \<and>
    right_bits kd \<subseteq> right_bits ka \<and> (a = d \<or> capability_allows (Some ka) CAP_RIGHT_GRANT)"
proof -
  have wf: "table_wf t" using cap_steps_wf [OF assms(1) init_wf] .
  have "\<exists>kd. capability_table_get t (of_nat n) = Some kd \<and> cap_object kd = cap_object ka \<and>
      right_bits kd \<subseteq> right_bits ka \<and> (unat a = n \<or> capability_allows (Some ka) CAP_RIGHT_GRANT)"
    if "(link_of (parents t))\<^sup>*\<^sup>* (unat a) n" for n
    using that
  proof (induction rule: rtranclp_induct)
    case base
    show ?case using assms(2) by simp
  next
    case (step m n)
    from link_attenuates [OF wf step.hyps(2)] step.IH assms(2) show ?case by fastforce
  qed
  from this [of "unat d"] assms(3) show ?thesis
    by (auto simp: derived_from_def word_unat_eq_iff)
qed

lemma sample2_get: "capability_table_get sample_table2 0 = Some sample_capability"
  "capability_table_get sample_table2 1 = Some sample_child"
  by (simp_all add: get_Some_iff capability_is_valid_Some) (simp_all add: sample_defs)

lemma sample2_derived: "1 \<in> derived_from sample_table2 0"
proof -
  have "link_of (parents sample_table2) 0 1" by (simp add: link_of_def sample_table2_def)
  then show ?thesis by (auto simp: derived_from_def)
qed

theorem derivation_attenuates_witness:
  "cap_step\<^sup>*\<^sup>* capability_table_init sample_table2 \<and>
   capability_table_get sample_table2 0 = Some sample_capability \<and>
   unat (1 :: u32) \<in> derived_from sample_table2 (unat (0 :: u32)) \<and>
   capability_allows (Some sample_capability) CAP_RIGHT_GRANT"
proof -
  have h: "cap_step\<^sup>*\<^sup>* capability_table_init sample_table2"
    "unat (1 :: u32) \<in> derived_from sample_table2 (unat (0 :: u32))"
    using sample_run(1,2) sample2_derived by simp_all
  with derivation_attenuates [OF h(1) sample2_get(1) h(2)] sample2_get(1) show ?thesis by auto
qed

text \<open>
  C4: revocation removes the capability and everything derived from it, and nothing else. On a
  table that passes the validator \<open>capability_table_revoke\<close> fails exactly on a slot that
  holds no capability; otherwise a lookup afterwards finds nothing in the slot and in every slot
  derived from it in any number of steps, and finds what it found before in every other slot.
\<close>

theorem revoke_clears_derivation_tree:
  assumes "table_shape t" "capability_table_is_valid t"
  shows "case capability_table_revoke t slot of
      None \<Rightarrow> capability_table_get t slot = None
    | Some t' \<Rightarrow> capability_table_get t slot \<noteq> None \<and>
        (\<forall>i. capability_table_get t' i =
          (if unat i \<in> derived_from t (unat slot) then None else capability_table_get t i))"
proof (cases "capability_table_revoke t slot")
  case None
  then show ?thesis by (auto simp: capability_table_revoke_def Let_def split: if_splits)
next
  case (Some t')
  note rv = revoke_Some [OF assms(1) Some]
  have "capability_table_get t' i =
      (if unat i \<in> derived_from t (unat slot) then None else capability_table_get t i)" for i
    using rv(1) rv(3) [of "unat i"] by (auto simp: capability_table_get_def)
  moreover have "capability_table_get t slot \<noteq> None"
    using Some by (auto simp: capability_table_revoke_def split: if_splits)
  ultimately show ?thesis using Some by simp
qed

theorem revoke_clears_derivation_tree_witness:
  "table_shape sample_table2 \<and> capability_table_is_valid sample_table2 \<and>
   (\<exists>t'. capability_table_revoke sample_table2 0 = Some t' \<and> capability_table_get t' 1 = None)"
proof -
  have h: "table_shape sample_table2" "capability_table_is_valid sample_table2"
    using sample_run(4) by (simp_all add: table_wf_def is_valid_iff_wf)
  from revoke_clears_derivation_tree [OF h, of 0] sample2_derived sample2_get(1) h show ?thesis
    by (auto split: option.splits)
qed

text \<open>
  C5: a dead reference stays dead. A reference names a slot and the generation under which it
  was handed out. If the slot of a well-formed table no longer resolves under a generation that
  it has already reached, then no sequence of insertions, derivations and revocations makes it
  resolve under that generation again, however often the slot is reused.
\<close>

theorem stale_generation_never_resolves:
  assumes "table_shape t" "capability_table_is_valid t" "cap_step\<^sup>*\<^sup>* t t'"
    "unat slot < CAP_TABLE_SLOTS" "g \<noteq> 0" "g \<le> generations t ! unat slot"
    "capability_table_generation t slot \<noteq> g"
  shows "capability_table_generation t' slot \<noteq> g"
  using dead_reference_run [OF assms(3) _ assms(4,5,7)] assms(1,2,6)
  by (simp add: is_valid_iff_wf word_le_nat_alt)

definition sample_revoked :: capability_table where
  "sample_revoked = the (capability_table_revoke sample_table2 1)"

lemma sample_revoke: "capability_table_revoke sample_table2 1 = Some sample_revoked"
  by (simp add: sample_revoked_def capability_table_revoke_def sample2_get Let_def)

theorem stale_generation_never_resolves_witness:
  "cap_step\<^sup>*\<^sup>* sample_revoked sample_revoked \<and> generations sample_revoked ! 1 = 1 \<and>
   capability_table_generation sample_revoked 1 \<noteq> 1"
proof -
  have wf: "table_wf sample_revoked" by (rule revoke_wf [OF sample_run(4) sample_revoke])
  have shape: "table_shape sample_table2" using sample_run(4) by (simp add: table_wf_def)
  note rv = revoke_Some [OF shape sample_revoke]
  have g: "generations sample_revoked ! 1 = 1" using rv(1) by (simp add: sample_table2_def)
  have "slots sample_revoked ! 1 = zero_capability"
    using rv(3) [of 1] by (simp add: derived_from_def)
  then have "capability_table_get sample_revoked 1 = None"
    by (simp add: capability_table_get_def)
  then have "capability_table_generation sample_revoked 1 \<noteq> 1"
    by (simp add: capability_table_generation_def)
  with stale_generation_never_resolves [of sample_revoked sample_revoked 1 1] g wf show ?thesis
    by (simp add: is_valid_iff_wf table_wf_def)
qed

text \<open>
  C6: what \<open>capability_table_derive\<close> does on each branch. On a well-formed table it fails
  exactly when the parent slot does not license the child (no capability there, no grant right,
  no rights or unknown rights asked, or a right the parent lacks) or when every free slot has
  used up its generations. Otherwise the child appears in a slot that held nothing, under the
  next generation of that slot, and every other slot resolves as before.
\<close>

theorem derive_behaviour:
  assumes "table_shape t"
  shows "case capability_table_derive t q r b of
      None \<Rightarrow> capability_derive (capability_table_get t q) r b = None \<or>
        (\<forall>s<CAP_TABLE_SLOTS. slot_free t s \<longrightarrow> generations t ! s = UINT32_MAX)
    | Some (t', slot) \<Rightarrow>
        capability_table_get t slot = None \<and>
        capability_table_get t' slot = capability_derive (capability_table_get t q) r b \<and>
        capability_table_generation t' slot = generations t ! unat slot + 1 \<and>
        parents t' ! unat slot = q \<and>
        (\<forall>i. i \<noteq> slot \<longrightarrow> capability_table_get t' i = capability_table_get t i \<and>
              capability_table_generation t' i = capability_table_generation t i)"
proof (cases "capability_table_derive t q r b")
  case None
  then show ?thesis
    by (auto simp: capability_table_derive_def capability_table_claim_slot_def find_upt_None
        split: option.splits)
next
  case (Some p)
  obtain t' slot where p: "p = (t', slot)" by force
  have d: "capability_table_derive t q r b = Some (t', slot)" using Some p by simp
  from d obtain c t1 s where der: "capability_derive (capability_table_get t q) r b = Some c"
    and claim: "capability_table_claim_slot t = Some (t1, s)" and s: "slot = of_nat s"
    and t': "t' = t1\<lparr>slots := (slots t1)[s := c], parents := (parents t1)[s := q]\<rparr>"
    by (auto simp: capability_table_derive_def split: option.splits)
  have c: "capability_is_valid (Some c)" by (rule capability_derive_Some [OF der])
  note cl = claim_slot_Some [OF claim]
  have u: "unat slot = s" using cl(1) s by simp
  have other: "unat i \<noteq> s" if "i \<noteq> slot" for i using that u by (auto simp: word_unat_eq_iff)
  have gen: "generations t ! s + 1 \<noteq> 0"
    using unat_inc32 [OF cl(3)] by (metis One_nat_def Suc_neq_Zero add_Suc_right unat_0)
  have "capability_table_get t' slot = Some c"
    using assms cl(1,4) c u gen by (simp add: t' get_Some_iff table_shape_def)
  moreover have g: "capability_table_get t' i = capability_table_get t i" if "i \<noteq> slot" for i
    using other [OF that] by (simp add: t' cl(4) capability_table_get_def)
  moreover have "capability_table_generation t' i = capability_table_generation t i" if "i \<noteq> slot" for i
    using other [OF that] g [OF that] by (simp add: capability_table_generation_def t' cl(4))
  moreover have "generations t' ! s = generations t ! s + 1" "parents t' ! s = q"
    using assms cl(1) by (simp_all add: t' cl(4) table_shape_def)
  ultimately show ?thesis
    using d u cl(2) der get_None_free [of t slot] by (simp add: capability_table_generation_def)
qed

theorem derive_behaviour_witness:
  "table_shape sample_table \<and> capability_table_get sample_table 1 = None \<and>
   capability_table_derive sample_table 0 3 5 = Some (sample_table2, 1) \<and>
   capability_table_generation sample_table2 1 = generations sample_table ! 1 + 1"
  using derive_behaviour [of sample_table 0 3 5] sample_run(3) sample_derive
  by (simp add: table_wf_def)

end
