(* ===== verification/Mailbox.thy ===== *)
theory Mailbox
  imports Cap_Table Object_Store
begin

text \<open>
  A component and its mailbox: the structure \<open>component\<close> of
  \<^verbatim>\<open>kernel/wasm/component.h\<close>, \<open>component_mailbox_push\<close> and
  \<open>component_mailbox_pop\<close> of \<^verbatim>\<open>kernel/wasm/component.c\<close>, the validator
  \<^verbatim>\<open>kernel/wasm/mailbox_validate.zig\<close> and \<open>strip_attachment\<close> of
  \<^verbatim>\<open>kernel/cap/domain.c\<close>. A message is stored as a frame: its length and the slot of
  the capability it carries, four bytes each, then its payload. The pointers into the WebAssembly
  runtime are one handle \<open>wasm_instance\<close> of an arbitrary type, and the store a component belongs to
  is named by a number, because the code only compares the pointers; the pointer back to the
  capability domain is left out, there is one domain.
\<close>

section \<open>State\<close>

record component_metrics =
  invocations :: u64
  cycles :: u64
  allocated :: u64
  messages_sent :: u64

record 'i component =
  root_id :: object_id
  module_id :: object_id
  captable_id :: object_id
  state_id :: object_id
  logical_time :: u64
  timer_deadline :: u64
  timer_armed :: u32
  mailbox_used :: u32
  mailbox :: bytes
  cap_table :: capability_table
  capability_count :: u32
  next_object_sequence :: u64
  capabilities_dirty :: u32
  exited :: u32
  exit_code :: u32
  comp_store :: nat
  wasm_instance :: 'i
  metrics :: component_metrics

abbreviation COMPONENT_MAILBOX_BYTES :: u32 where "COMPONENT_MAILBOX_BYTES \<equiv> 4096"

section \<open>Operations\<close>

text \<open>The signed slot of the interface is its 32-bit pattern, -1 being \<open>UINT32_MAX\<close>.\<close>

definition component_mailbox_push :: "'i component \<Rightarrow> bytes option \<Rightarrow> u32 \<Rightarrow> u32 \<Rightarrow> 'i component option" where
  "component_mailbox_push c bytes len capability_slot =
     (if (len \<noteq> 0 \<and> bytes = None) \<or> mailbox_used c > COMPONENT_MAILBOX_BYTES \<or>
         len > COMPONENT_MAILBOX_BYTES - 8 then None
      else let needed = 8 + len in
        if needed > COMPONENT_MAILBOX_BYTES - mailbox_used c then None
        else let m1 = memcpy_at (mailbox c) (unat (mailbox_used c)) (le_bytes 4 len @ le_bytes 4 capability_slot);
                 m2 = (if len \<noteq> 0 then memcpy_at m1 (unat (mailbox_used c) + 8) (take (unat len) (the bytes)) else m1)
             in Some (c\<lparr>mailbox := m2, mailbox_used := mailbox_used c + needed\<rparr>))"

text \<open>\<open>has_buffer\<close> says that \<open>bytes_out\<close> is not \<open>NULL\<close>; the results are the bytes written to it, the length and the slot.\<close>

definition component_mailbox_pop ::
    "'i component \<Rightarrow> bool \<Rightarrow> u32 \<Rightarrow> ('i component \<times> bytes \<times> u32 \<times> u32) option" where
  "component_mailbox_pop c has_buffer capacity =
     (if mailbox_used c > COMPONENT_MAILBOX_BYTES \<or> mailbox_used c < 8 then None
      else let header0 = le_word (bslice 0 4 (mailbox c)) :: u32; header1 = le_word (bslice 4 4 (mailbox c)) :: u32 in
        if header0 > mailbox_used c - 8 \<or> header0 > capacity \<or> (header0 \<noteq> 0 \<and> \<not> has_buffer) then None
        else let frame = 8 + header0;
                 bytes = bslice 8 (unat header0) (mailbox c);
                 used = mailbox_used c - frame;
                 m = (if used \<noteq> 0 then memmove_within (mailbox c) 0 (unat frame) (unat used) else mailbox c)
             in Some (c\<lparr>mailbox := m, mailbox_used := used\<rparr>, bytes, header0, header1))"

text \<open>The loop of the validator.\<close>

function mailbox_validate_loop :: "bytes \<Rightarrow> nat \<Rightarrow> nat \<Rightarrow> bool" where
  "mailbox_validate_loop bytes len offset =
     (if offset < len then
        if len - offset < 8 then False
        else let sz = read_u32_le bytes offset; slot = read_u32_le bytes (offset + 4) in
          if slot \<noteq> 0xffffffff \<and> slot \<ge> 16 then False
          else if unat sz > len - (offset + 8) then False
          else mailbox_validate_loop bytes len (offset + 8 + unat sz)
      else True)"
  by pat_completeness auto
termination by (relation "measure (\<lambda>(bytes, len, offset). len - offset)") auto

declare mailbox_validate_loop.simps [simp del]

definition component_mailbox_validate :: "bytes \<Rightarrow> nat \<Rightarrow> bool" where
  "component_mailbox_validate bytes len = (if len > 4096 then False else mailbox_validate_loop bytes len 0)"

text \<open>
  The loop of \<open>strip_attachment\<close>, with the mailbox and the flag \<open>changed\<close>. On bytes that
  are not frames the 32-bit sum can stop moving forward, so the loop may run on.
\<close>

partial_function (option) strip_loop :: "bytes \<Rightarrow> u32 \<Rightarrow> u32 \<Rightarrow> u32 \<Rightarrow> bool \<Rightarrow> (bytes \<times> bool) option" where
  "strip_loop m used slot offset changed =
     (if offset < used then
        let header0 = le_word (bslice (unat offset) 4 m) :: u32;
            header1 = le_word (bslice (unat offset + 4) 4 m) :: u32
        in if header1 = slot
           then strip_loop (memcpy_at m (unat offset + 4) (le_bytes 4 UINT32_MAX)) used slot (offset + (8 + header0)) True
           else strip_loop m used slot (offset + (8 + header0)) changed
      else Some (m, changed))"

declare strip_loop.simps [code]

definition strip_attachment :: "'i component \<Rightarrow> u32 \<Rightarrow> ('i component \<times> bool) option" where
  "strip_attachment c slot =
     map_option (\<lambda>(m, changed). (c\<lparr>mailbox := m\<rparr>, changed)) (strip_loop (mailbox c) (mailbox_used c) slot 0 False)"

section \<open>The messages in a mailbox\<close>

type_synonym message = "u32 \<times> bytes"

definition frame_bytes :: "message \<Rightarrow> bytes" where
  "frame_bytes msg = le_bytes 4 (of_nat (length (snd msg)) :: u32) @ le_bytes 4 (fst msg) @ snd msg"

abbreviation frames :: "message list \<Rightarrow> bytes" where
  "frames ms \<equiv> concat (map frame_bytes ms)"

definition mailbox_holds :: "'i component \<Rightarrow> message list \<Rightarrow> bool" where
  "mailbox_holds c ms \<longleftrightarrow> length (mailbox c) = 4096 \<and> length (frames ms) \<le> 4096 \<and>
     unat (mailbox_used c) = length (frames ms) \<and> take (length (frames ms)) (mailbox c) = frames ms"

lemma length_frame [simp]: "length (frame_bytes msg) = 8 + length (snd msg)"
  by (simp add: frame_bytes_def)

lemma frame_nonempty [simp]: "frame_bytes msg \<noteq> []"
proof
  assume "frame_bytes msg = []"
  then have "length (frame_bytes msg) = 0" by (simp only: list.size)
  then show False by simp
qed

lemma take_memcpy_at:
  "offset \<le> length m \<Longrightarrow> take (offset + length bs) (memcpy_at m offset bs) = take offset m @ bs"
  by (simp add: memcpy_at_def)

lemma length_memcpy_at: "offset + length bs \<le> length m \<Longrightarrow> length (memcpy_at m offset bs) = length m"
  by (simp add: memcpy_at_def)

lemma memcpy_at_memcpy_at:
  "offset \<le> length m \<Longrightarrow> memcpy_at (memcpy_at m offset xs) (offset + length xs) ys = memcpy_at m offset (xs @ ys)"
  by (simp add: memcpy_at_def ac_simps)

text \<open>Pushing appends a message when its frame fits and refuses it otherwise.\<close>

lemma push_result:
  assumes holds: "mailbox_holds c ms" and p: "length p < 2 ^ 32"
  shows "component_mailbox_push c (Some p) (of_nat (length p)) slot =
    (if length (frames ms) + 8 + length p \<le> 4096
     then Some (c\<lparr>mailbox := memcpy_at (mailbox c) (length (frames ms)) (frame_bytes (slot, p)),
                  mailbox_used := mailbox_used c + (8 + of_nat (length p))\<rparr>) else None)"
proof -
  let ?l = "of_nat (length p) :: u32"
  have l: "unat ?l = length p" using p by (simp add: unat_of_nat)
  have u: "unat (mailbox_used c) = length (frames ms)" "length (frames ms) \<le> 4096" "length (mailbox c) = 4096"
    using holds by (auto simp: mailbox_holds_def)
  have z: "?l = 0 \<longleftrightarrow> p = []" using l by (auto simp: word_unat_eq_iff)
  have "?l > COMPONENT_MAILBOX_BYTES - 8 \<longleftrightarrow> length p > 4088" by (simp add: word_lt_unat l)
  moreover have "8 + ?l > COMPONENT_MAILBOX_BYTES - mailbox_used c \<longleftrightarrow> length (frames ms) + 8 + length p > 4096"
    if "length p \<le> 4088"
  proof -
    have "unat (8 + ?l) = 8 + length p" using that l by (simp add: unat_word_ariths)
    moreover have "unat (COMPONENT_MAILBOX_BYTES - mailbox_used c) = 4096 - length (frames ms)"
      using u by (simp add: unat_sub word_le_unat)
    ultimately show ?thesis using u(2) by (auto simp: word_lt_unat)
  qed
  moreover have "memcpy_at (memcpy_at (mailbox c) (length (frames ms)) (le_bytes 4 ?l @ le_bytes 4 slot))
      (length (frames ms) + 8) p = memcpy_at (mailbox c) (length (frames ms)) (frame_bytes (slot, p))"
    using memcpy_at_memcpy_at [of "length (frames ms)" "mailbox c" "le_bytes 4 ?l @ le_bytes 4 slot" p] u
    by (simp add: frame_bytes_def)
  moreover have "\<not> mailbox_used c > COMPONENT_MAILBOX_BYTES" using u by (simp add: word_lt_unat)
  moreover have "p = [] \<Longrightarrow> le_bytes 4 ?l @ le_bytes 4 slot = frame_bytes (slot, p)" by (simp add: frame_bytes_def)
  ultimately show ?thesis using u(1) l z
    by (cases "length p \<le> 4088") (simp_all add: component_mailbox_push_def Let_def)
qed

lemma push_holds:
  assumes holds: "mailbox_holds c ms" and fits: "length (frames ms) + 8 + length p \<le> 4096"
  shows "mailbox_holds (c\<lparr>mailbox := memcpy_at (mailbox c) (length (frames ms)) (frame_bytes (slot, p)),
      mailbox_used := mailbox_used c + (8 + of_nat (length p))\<rparr>) (ms @ [(slot, p)])"
proof -
  have "unat (of_nat (length p) :: u32) = length p" using fits by (simp add: unat_of_nat)
  then have "unat (mailbox_used c + (8 + of_nat (length p))) = length (frames ms) + 8 + length p"
    using holds fits by (simp add: mailbox_holds_def unat_word_ariths)
  moreover have "take (length (frames ms) + length (frame_bytes (slot, p)))
      (memcpy_at (mailbox c) (length (frames ms)) (frame_bytes (slot, p))) = frames ms @ frame_bytes (slot, p)"
    using holds fits by (subst take_memcpy_at) (auto simp: mailbox_holds_def)
  ultimately show ?thesis using holds fits
    by (simp add: mailbox_holds_def length_memcpy_at add.assoc)
qed

text \<open>The first frame of a mailbox, as the code reads it back.\<close>

lemma frame_fields:
  assumes "take (length (frame_bytes (slot, p)) + n) (drop offset m) = frame_bytes (slot, p) @ rest" "length p < 2 ^ 32"
  shows "(le_word (bslice offset 4 m) :: u32) = of_nat (length p)" "le_word (bslice (offset + 4) 4 m) = slot"
    "bslice (offset + 8) (length p) m = p"
proof -
  let ?f = "take (length (frame_bytes (slot, p)) + n) (drop offset m)"
  have sl: "bslice (offset + a) b m = bslice a b ?f" if "a + b \<le> length (frame_bytes (slot, p)) + n" for a b
    using that by (simp add: bslice_def drop_take take_take min_def drop_drop add.commute)
  show "(le_word (bslice offset 4 m) :: u32) = of_nat (length p)"
    using sl [of 0 4] unfolding assms(1) by (simp add: frame_bytes_def)
  show "le_word (bslice (offset + 4) 4 m) = slot"
    using sl [of 4 4] unfolding assms(1) by (simp add: frame_bytes_def)
  show "bslice (offset + 8) (length p) m = p"
    using sl [of 8 "length p"] unfolding assms(1) by (simp add: frame_bytes_def bslice_def)
qed

lemma pop_empty: "mailbox_holds c [] \<Longrightarrow> component_mailbox_pop c b capacity = None"
  by (simp add: mailbox_holds_def component_mailbox_pop_def word_lt_unat)

lemma pop_result:
  assumes holds: "mailbox_holds c ((slot, p) # ms)"
  shows "\<exists>c'. component_mailbox_pop c has_buffer capacity =
      (if length p > unat capacity \<or> (p \<noteq> [] \<and> \<not> has_buffer) then None
       else Some (c', p, of_nat (length p), slot)) \<and> mailbox_holds c' ms \<and>
    c' = c\<lparr>mailbox := mailbox c', mailbox_used := mailbox_used c'\<rparr>"
proof -
  let ?l = "of_nat (length p) :: u32" and ?n = "length (frames ms)"
  have u: "unat (mailbox_used c) = 8 + length p + ?n" "8 + length p + ?n \<le> 4096" "length (mailbox c) = 4096"
    and t: "take (length (frame_bytes (slot, p)) + ?n) (drop 0 (mailbox c)) = frame_bytes (slot, p) @ frames ms"
    using holds by (auto simp: mailbox_holds_def add.assoc)
  have p: "length p < 2 ^ 32" using u(2) by simp
  note f = frame_fields [OF t p]
  have l: "unat ?l = length p" using p by (simp add: unat_of_nat)
  have z: "?l = 0 \<longleftrightarrow> p = []" using l by (auto simp: word_unat_eq_iff)
  have s8: "unat (mailbox_used c - 8) = length p + ?n" using u by (simp add: unat_sub word_le_unat)
  have fr: "unat (8 + ?l) = 8 + length p" using u l by (simp add: unat_word_ariths)
  have rem: "unat (mailbox_used c - (8 + ?l)) = ?n" using u fr by (simp add: unat_sub word_le_unat)
  define m where "m = (if mailbox_used c - (8 + ?l) \<noteq> 0
    then memmove_within (mailbox c) 0 (8 + length p) ?n else mailbox c)"
  define c' where "c' = c\<lparr>mailbox := m, mailbox_used := mailbox_used c - (8 + ?l)\<rparr>"
  have "component_mailbox_pop c has_buffer capacity =
      (if length p > unat capacity \<or> (p \<noteq> [] \<and> \<not> has_buffer) then None else Some (c', p, ?l, slot))"
    using u f l z s8 fr rem unfolding c'_def m_def
    by (auto simp: component_mailbox_pop_def Let_def word_lt_unat)
  moreover have "take ?n m = frames ms"
  proof (cases "?n = 0")
    case False
    then have "mailbox_used c - (8 + ?l) \<noteq> 0" using rem by auto
    moreover have "take ?n (drop (8 + length p) (mailbox c)) = frames ms"
      using arg_cong [OF t, of "drop (8 + length p)"] u(3) by (simp add: drop_take)
    ultimately show ?thesis using u by (simp add: m_def memmove_within_def memcpy_at_def)
  next
    case True
    then show ?thesis by (metis length_0_conv take_0)
  qed
  moreover have "length m = 4096" using u by (simp add: m_def memmove_within_def memcpy_at_def)
  ultimately show ?thesis using rem u(2) by (intro exI [of _ c']) (simp add: mailbox_holds_def c'_def)
qed

section \<open>The validator and the stripping of attachments\<close>

definition slot_valid :: "u32 \<Rightarrow> bool" where
  "slot_valid slot \<longleftrightarrow> slot = UINT32_MAX \<or> slot < 16"

lemma bslice_cut: "offset \<le> k \<Longrightarrow> k \<le> len \<Longrightarrow> len \<le> length bs \<Longrightarrow>
    bslice offset (len - offset) bs = bslice offset (k - offset) bs @ bslice k (len - k) bs"
  using bslice_join [of offset "k - offset" bs "len - k"] by simp

lemma frame_of_bytes:
  assumes "offset + 8 + unat (le_word (bslice offset 4 bs) :: u32) \<le> length bs"
  shows "bslice offset (8 + unat (le_word (bslice offset 4 bs) :: u32)) bs =
    frame_bytes (le_word (bslice (offset + 4) 4 bs), bslice (offset + 8) (unat (le_word (bslice offset 4 bs) :: u32)) bs)"
  using assms by (simp add: frame_bytes_def add.commute [of 8])

lemma validate_loop_sound:
  assumes "mailbox_validate_loop bs len offset" "len \<le> length bs" "offset \<le> len"
  shows "\<exists>ms. bslice offset (len - offset) bs = frames ms \<and> (\<forall>msg\<in>set ms. slot_valid (fst msg))"
  using assms
proof (induction "len - offset" arbitrary: offset rule: less_induct)
  case less
  show ?case
  proof (cases "offset < len")
    case False
    then show ?thesis using less.prems(3) by (intro exI [of _ "[]"]) (simp add: bslice_def)
  next
    case True
    let ?s = "le_word (bslice offset 4 bs) :: u32" and ?t = "le_word (bslice (offset + 4) 4 bs) :: u32"
    have 8: "8 \<le> len - offset" using less.prems(1) True by (subst (asm) mailbox_validate_loop.simps) (auto split: if_splits)
    then have r: "read_u32_le bs offset = ?s" "read_u32_le bs (offset + 4) = ?t"
      using less.prems(2) by (simp_all add: read_u32_le_eq)
    have ok: "slot_valid ?t" "offset + 8 + unat ?s \<le> len" "mailbox_validate_loop bs len (offset + 8 + unat ?s)"
      using less.prems(1) True 8 by (subst (asm) mailbox_validate_loop.simps;
        auto simp: r Let_def slot_valid_def not_le split: if_splits)+
    have "len - (offset + 8 + unat ?s) < len - offset" using True by simp
    from less.hyps [OF this ok(3) less.prems(2) ok(2)] obtain ms where
      ms: "bslice (offset + 8 + unat ?s) (len - (offset + 8 + unat ?s)) bs = frames ms" "\<forall>msg\<in>set ms. slot_valid (fst msg)"
      by blast
    have "bslice offset (len - offset) bs = frame_bytes (?t, bslice (offset + 8) (unat ?s) bs) @ frames ms"
      using bslice_cut [of offset "offset + 8 + unat ?s" len bs] frame_of_bytes [of offset bs] ok(2) less.prems(2) ms(1)
      by (simp add: add.assoc)
    then show ?thesis using ms(2) ok(1) by (intro exI [of _ "(?t, bslice (offset + 8) (unat ?s) bs) # ms"]) auto
  qed
qed

lemma validate_loop_complete:
  assumes "bslice offset (length (frames ms)) bs = frames ms" "offset + length (frames ms) \<le> length bs"
    "\<forall>msg\<in>set ms. slot_valid (fst msg)" "length (frames ms) < 2 ^ 32"
  shows "mailbox_validate_loop bs (offset + length (frames ms)) offset"
  using assms
proof (induction ms arbitrary: offset)
  case Nil
  then show ?case by (subst mailbox_validate_loop.simps) simp
next
  case (Cons msg ms)
  obtain slot p where msg: "msg = (slot, p)" by force
  let ?len = "offset + length (frames (msg # ms))"
  have p: "length p < 2 ^ 32" using Cons.prems(4) msg by simp
  have t: "take (length (frame_bytes (slot, p)) + length (frames ms)) (drop offset bs) = frame_bytes (slot, p) @ frames ms"
    using Cons.prems(1) by (simp add: bslice_def msg)
  note f = frame_fields [OF t p]
  have l: "unat (of_nat (length p) :: u32) = length p" using p by (simp add: unat_of_nat)
  have "bslice (offset + (8 + length p)) (length (frames ms)) bs = frames ms"
    using arg_cong [OF t, of "drop (8 + length p)"] by (simp add: bslice_def drop_take drop_drop add.commute)
  from Cons.IH [OF this] Cons.prems(2,3,4) have ih: "mailbox_validate_loop bs ?len (offset + 8 + length p)"
    by (simp add: msg add.assoc)
  have r: "read_u32_le bs offset = of_nat (length p)" "read_u32_le bs (offset + 4) = slot"
    using f Cons.prems(2) msg by (simp_all add: read_u32_le_eq)
  have "slot_valid slot" using Cons.prems(3) msg by simp
  then show ?case using ih l msg
    by (subst mailbox_validate_loop.simps) (auto simp: r Let_def slot_valid_def not_le)
qed

lemma mailbox_validate_iff:
  assumes "len \<le> length bs"
  shows "component_mailbox_validate bs len \<longleftrightarrow>
    len \<le> 4096 \<and> (\<exists>ms. take len bs = frames ms \<and> (\<forall>msg\<in>set ms. slot_valid (fst msg)))"
proof
  assume "component_mailbox_validate bs len"
  then show "len \<le> 4096 \<and> (\<exists>ms. take len bs = frames ms \<and> (\<forall>msg\<in>set ms. slot_valid (fst msg)))"
    using validate_loop_sound [of bs len 0] assms
    by (auto simp: component_mailbox_validate_def bslice_def split: if_splits)
next
  assume r: "len \<le> 4096 \<and> (\<exists>ms. take len bs = frames ms \<and> (\<forall>msg\<in>set ms. slot_valid (fst msg)))"
  then obtain ms where ms: "take len bs = frames ms" "\<forall>msg\<in>set ms. slot_valid (fst msg)" by blast
  have len: "len = length (frames ms)" using arg_cong [OF ms(1), of length] assms by simp
  moreover have "len \<le> 4096" using r by blast
  ultimately have "length (frames ms) < 2 ^ 32" by simp
  then show "component_mailbox_validate bs len"
    using validate_loop_complete [of 0 ms bs] ms r assms len
    by (simp add: component_mailbox_validate_def bslice_def del: length_concat)
qed

definition strip_slot :: "u32 \<Rightarrow> message \<Rightarrow> message" where
  "strip_slot slot msg = (if fst msg = slot then UINT32_MAX else fst msg, snd msg)"

lemma length_strip [simp]: "length (frames (map (strip_slot slot) ms)) = length (frames ms)"
  by (simp add: length_concat comp_def strip_slot_def)

lemma memcpy_at_middle:
  "length xs = offset \<Longrightarrow> length ys = length bs \<Longrightarrow> memcpy_at (xs @ ys @ zs) offset bs = xs @ bs @ zs"
  by (simp add: memcpy_at_def)

text \<open>Stripping visits every frame once; \<open>pre\<close> is what it has already passed.\<close>

lemma strip_loop_result:
  assumes "unat offset = length pre" "unat used = length pre + length (frames ms)"
  shows "strip_loop (pre @ frames ms @ rest) used slot offset changed =
    Some (pre @ frames (map (strip_slot slot) ms) @ rest, changed \<or> slot \<in> fst ` set ms)"
  using assms
proof (induction ms arbitrary: pre offset changed)
  case Nil
  then show ?case by (subst strip_loop.simps) (simp add: word_lt_unat)
next
  case (Cons msg ms)
  obtain s p where msg: "msg = (s, p)" by force
  let ?l = "of_nat (length p) :: u32"
  have used: "unat used = length pre + 8 + length p + length (frames ms)" using Cons.prems(2) msg by simp
  have u32: "unat used < 2 ^ 32" using unsigned_less [of used] by simp
  then have l: "unat ?l = length p" using used by (simp add: unat_of_nat)
  have lt: "offset < used" using Cons.prems(1) used by (simp add: word_lt_unat)
  have o8: "unat (offset + (8 + ?l)) = length pre + 8 + length p"
    using Cons.prems(1) used u32 l by (simp add: unat_word_ariths)
  let ?m = "pre @ frames (msg # ms) @ rest"
  have t: "take (length (frame_bytes (s, p)) + 0) (drop (length pre) ?m) = frame_bytes (s, p) @ []"
    by (simp add: msg)
  have "length p < 2 ^ 32" using used u32 by simp
  note f = frame_fields [OF t this]
  have upd: "memcpy_at ?m (length pre + 4) (le_bytes 4 UINT32_MAX) = (pre @ frame_bytes (UINT32_MAX, p)) @ frames ms @ rest"
    using memcpy_at_middle [of "pre @ le_bytes 4 ?l" "length pre + 4" "le_bytes 4 s" "le_bytes 4 UINT32_MAX" "p @ frames ms @ rest"]
    by (simp add: msg frame_bytes_def)
  show ?case
  proof (cases "s = slot")
    case True
    then have "strip_loop ?m used slot offset changed =
        strip_loop ((pre @ frame_bytes (UINT32_MAX, p)) @ frames ms @ rest) used slot (offset + (8 + ?l)) True"
      using lt f Cons.prems(1) upd by (subst strip_loop.simps) (simp add: Let_def)
    also have "\<dots> = Some ((pre @ frame_bytes (UINT32_MAX, p)) @ frames (map (strip_slot slot) ms) @ rest, True)"
      using Cons.IH [of "offset + (8 + ?l)" "pre @ frame_bytes (UINT32_MAX, p)" True] o8 used by simp
    finally show ?thesis using True strip_slot_def [of slot "(s, p)"] by (simp add: msg)
  next
    case False
    then have "strip_loop ?m used slot offset changed =
        strip_loop ((pre @ frame_bytes (s, p)) @ frames ms @ rest) used slot (offset + (8 + ?l)) changed"
      using lt f Cons.prems(1) by (subst strip_loop.simps) (simp add: Let_def msg)
    also have "\<dots> = Some ((pre @ frame_bytes (s, p)) @ frames (map (strip_slot slot) ms) @ rest, changed \<or> slot \<in> fst ` set ms)"
      using Cons.IH [of "offset + (8 + ?l)" "pre @ frame_bytes (s, p)" changed] o8 used by simp
    finally show ?thesis using False strip_slot_def [of slot "(s, p)"] by (auto simp: msg)
  qed
qed

lemma strip_result:
  assumes holds: "mailbox_holds c ms"
  shows "\<exists>m. strip_attachment c slot = Some (c\<lparr>mailbox := m\<rparr>, slot \<in> fst ` set ms) \<and>
    mailbox_holds (c\<lparr>mailbox := m\<rparr>) (map (strip_slot slot) ms)"
proof -
  let ?n = "length (frames ms)"
  have h: "length (mailbox c) = 4096" "?n \<le> 4096" "unat (mailbox_used c) = ?n" "take ?n (mailbox c) = frames ms"
    using holds by (auto simp: mailbox_holds_def)
  have "mailbox c = [] @ frames ms @ drop ?n (mailbox c)" using h(4) append_take_drop_id [of ?n "mailbox c"] by simp
  then have "strip_loop (mailbox c) (mailbox_used c) slot 0 False =
      Some (frames (map (strip_slot slot) ms) @ drop ?n (mailbox c), slot \<in> fst ` set ms)"
    using strip_loop_result [of 0 "[]" "mailbox_used c" ms "drop ?n (mailbox c)" slot False] h(3) by simp
  then show ?thesis using h length_strip [of slot ms]
    by (intro exI [of _ "frames (map (strip_slot slot) ms) @ drop ?n (mailbox c)"])
      (simp add: strip_attachment_def mailbox_holds_def del: length_strip)
qed

lemma frame_split:
  assumes eq: "frame_bytes (s, p) @ xs = frame_bytes (t, q) @ ys" and l: "length p < 2 ^ 32" "length q < 2 ^ 32"
  shows "s = t \<and> p = q \<and> xs = ys"
proof -
  have "le_bytes 4 (of_nat (length p) :: u32) = le_bytes 4 (of_nat (length q) :: u32)"
    using eq by (simp add: frame_bytes_def)
  from arg_cong [OF this, of "le_word :: bytes \<Rightarrow> u32"] have "(of_nat (length p) :: u32) = of_nat (length q)" by simp
  from arg_cong [OF this, of unat] have "length p = length q" using l by (simp add: unat_of_nat)
  then have "le_bytes 4 s = le_bytes 4 t \<and> p = q \<and> xs = ys" using eq by (auto simp: frame_bytes_def)
  moreover have "s = t" if "le_bytes 4 s = le_bytes 4 t"
    using arg_cong [OF that, of "le_word :: bytes \<Rightarrow> u32"] by simp
  ultimately show ?thesis by simp
qed

lemma frames_inj:
  "frames ms = frames ms' \<Longrightarrow> length (frames ms) < 2 ^ 32 \<Longrightarrow> ms = ms'"
proof (induction ms arbitrary: ms')
  case Nil
  then show ?case by (cases ms') auto
next
  case (Cons msg ms)
  obtain t q ns where ms': "ms' = (t, q) # ns" using Cons.prems(1) by (cases ms') auto
  have "length (frames ms') < 2 ^ 32" using Cons.prems by metis
  then have "length (snd msg) < 2 ^ 32" "length q < 2 ^ 32" using Cons.prems(2) ms' by auto
  then have "fst msg = t \<and> snd msg = q \<and> frames ms = frames ns"
    using frame_split [of "fst msg" "snd msg" "frames ms" t q "frames ns"] Cons.prems(1) ms' by simp
  then show ?case using Cons.IH [of ns] Cons.prems(2) ms' by (simp add: prod_eq_iff)
qed

section \<open>The mailbox as a bounded queue\<close>

text \<open>The calls on a mailbox and what they return, first on the component and then on a list of messages.\<close>

datatype mail_call = Push bytes u32 | Pop bool u32
datatype mail_answer = Pushed bool | Popped "(bytes \<times> u32) option"

definition mail_call :: "'i component \<Rightarrow> mail_call \<Rightarrow> 'i component \<times> mail_answer" where
  "mail_call c call =
     (case call of
        Push p slot \<Rightarrow> (case component_mailbox_push c (Some p) (of_nat (length p)) slot of
                          None \<Rightarrow> (c, Pushed False) | Some c' \<Rightarrow> (c', Pushed True))
      | Pop b capacity \<Rightarrow> (case component_mailbox_pop c b capacity of
                          None \<Rightarrow> (c, Popped None) | Some (c', p, l, slot) \<Rightarrow> (c', Popped (Some (take (unat l) p, slot)))))"

definition queue_call :: "message list \<Rightarrow> mail_call \<Rightarrow> message list \<times> mail_answer" where
  "queue_call ms call =
     (case call of
        Push p slot \<Rightarrow> if sum_list (map (\<lambda>msg. 8 + length (snd msg)) ms) + 8 + length p \<le> 4096
                       then (ms @ [(slot, p)], Pushed True) else (ms, Pushed False)
      | Pop b capacity \<Rightarrow>
          (case ms of
             [] \<Rightarrow> (ms, Popped None)
           | (slot, p) # rest \<Rightarrow>
               if length p > unat capacity \<or> (p \<noteq> [] \<and> \<not> b) then (ms, Popped None) else (rest, Popped (Some (p, slot)))))"

fun run_calls :: "('s \<Rightarrow> 'c \<Rightarrow> 's \<times> 'a) \<Rightarrow> 's \<Rightarrow> 'c list \<Rightarrow> 's \<times> 'a list" where
  "run_calls step s [] = (s, [])"
| "run_calls step s (x # xs) = (case step s x of (s', a) \<Rightarrow> case run_calls step s' xs of (s'', as) \<Rightarrow> (s'', a # as))"

definition call_ok :: "mail_call \<Rightarrow> bool" where
  "call_ok call = (case call of Push p slot \<Rightarrow> length p < 2 ^ 32 | Pop b capacity \<Rightarrow> True)"

lemma length_frames: "length (frames ms) = sum_list (map (\<lambda>msg. 8 + length (snd msg)) ms)"
  by (simp add: length_concat comp_def)

lemma mail_call_refines:
  assumes "mailbox_holds c ms" "call_ok call"
  shows "mailbox_holds (fst (mail_call c call)) (fst (queue_call ms call)) \<and> snd (mail_call c call) = snd (queue_call ms call)"
proof (cases call)
  case (Push p slot)
  then have "length p < 2 ^ 32" using assms(2) by (simp add: call_ok_def)
  then show ?thesis using push_result [OF assms(1), of p slot] push_holds [OF assms(1), of p slot] assms(1)
    by (simp add: mail_call_def queue_call_def Push length_frames del: length_concat)
next
  case (Pop b capacity)
  show ?thesis
  proof (cases ms)
    case Nil
    then show ?thesis using assms(1) pop_empty [of c b capacity] by (simp add: mail_call_def queue_call_def Pop)
  next
    case (Cons msg rest)
    obtain slot p where msg: "msg = (slot, p)" by force
    have "length p < 2 ^ 32" using assms(1) by (auto simp: mailbox_holds_def Cons msg)
    then have l: "unat (of_nat (length p) :: u32) = length p" by (simp add: unat_of_nat)
    from pop_result [of c slot p rest b capacity] assms(1) obtain c' where
      "component_mailbox_pop c b capacity = (if length p > unat capacity \<or> (p \<noteq> [] \<and> \<not> b) then None
         else Some (c', p, of_nat (length p), slot))" "mailbox_holds c' rest"
      by (auto simp: Cons msg)
    then show ?thesis using assms(1) l by (auto simp: mail_call_def queue_call_def Pop Cons msg)
  qed
qed

text \<open>
  C21: the byte array of a mailbox is a bounded queue. Any sequence of pushes and pops returns what a
  list of messages returns on which a push appends, unless the frames would pass 4096 bytes, and a
  pop removes the first message, unless it is larger than the caller's buffer; afterwards the array
  holds the frames of that list.
\<close>

theorem mailbox_refines_queue:
  assumes "mailbox_holds c ms" "list_all call_ok calls"
  shows "mailbox_holds (fst (run_calls mail_call c calls)) (fst (run_calls queue_call ms calls)) \<and>
    snd (run_calls mail_call c calls) = snd (run_calls queue_call ms calls)"
  using assms
proof (induction calls arbitrary: c ms)
  case (Cons call calls)
  obtain c' a where c: "mail_call c call = (c', a)" by force
  obtain ms' b where q: "queue_call ms call = (ms', b)" by force
  have "mailbox_holds c' ms'" "a = b" using mail_call_refines [of c ms call] Cons.prems c q by auto
  then show ?case using Cons.IH [of c' ms'] Cons.prems(2) c q by (simp add: split_beta)
qed simp

text \<open>
  C22: on any bytes at all, the validator accepts exactly the strings of at most 4096 bytes that
  are a sequence of complete frames whose slots exist or are absent; a frame that is cut off, a
  length that reaches beyond the end and a slot out of range are all refused. If a mailbox passes
  the validator it holds such messages, in one way only, and stripping a slot ends, takes the slot
  out of every message that carries it, changes nothing else, reports whether there was one, and
  leaves a mailbox that passes the validator again.
\<close>

theorem mailbox_validator_and_strip:
  assumes "len \<le> length bytes"
  shows "(component_mailbox_validate bytes len \<longleftrightarrow>
      len \<le> 4096 \<and> (\<exists>ms. take len bytes = frames ms \<and> (\<forall>msg\<in>set ms. slot_valid (fst msg)))) \<and>
    (mailbox c = bytes \<and> unat (mailbox_used c) = len \<and> length bytes = 4096 \<and> component_mailbox_validate bytes len \<longrightarrow>
      (\<exists>!ms. mailbox_holds c ms) \<and>
      (\<forall>ms. mailbox_holds c ms \<longrightarrow> (\<exists>m. strip_attachment c slot = Some (c\<lparr>mailbox := m\<rparr>, slot \<in> fst ` set ms) \<and>
        mailbox_holds (c\<lparr>mailbox := m\<rparr>) (map (strip_slot slot) ms) \<and> component_mailbox_validate m len)))"
proof (intro conjI impI allI)
  show iff: "component_mailbox_validate bytes len \<longleftrightarrow>
      len \<le> 4096 \<and> (\<exists>ms. take len bytes = frames ms \<and> (\<forall>msg\<in>set ms. slot_valid (fst msg)))"
    using mailbox_validate_iff [OF assms] .
  assume c: "mailbox c = bytes \<and> unat (mailbox_used c) = len \<and> length bytes = 4096 \<and> component_mailbox_validate bytes len"
  then obtain ms where ms: "take len bytes = frames ms" "\<forall>msg\<in>set ms. slot_valid (fst msg)" "len \<le> 4096"
    using iff by blast
  then have len: "length (frames ms) = len" using assms by (metis length_take min.absorb2)
  have h: "mailbox_holds c ms" using c ms len by (auto simp: mailbox_holds_def)
  have uniq: "ms' = ms" if "mailbox_holds c ms'" for ms'
    using frames_inj [of ms' ms] that h by (auto simp: mailbox_holds_def)
  show "\<exists>!ms. mailbox_holds c ms" using h uniq by blast
  fix ms' assume "mailbox_holds c ms'"
  then have eq: "ms' = ms" by (rule uniq)
  obtain m where m: "strip_attachment c slot = Some (c\<lparr>mailbox := m\<rparr>, slot \<in> fst ` set ms)"
    "mailbox_holds (c\<lparr>mailbox := m\<rparr>) (map (strip_slot slot) ms)" using strip_result [OF h] by blast
  have "take len m = frames (map (strip_slot slot) ms)" "length m = 4096"
    using m(2) length_strip [of slot ms] unfolding mailbox_holds_def len [symmetric] by simp_all
  moreover have "\<forall>msg\<in>set (map (strip_slot slot) ms). slot_valid (fst msg)"
    using ms(2) by (auto simp: strip_slot_def slot_valid_def)
  ultimately have "component_mailbox_validate m len"
    using mailbox_validate_iff [of len m] ms(3) by (metis order.trans order.refl)
  then show "\<exists>m. strip_attachment c slot = Some (c\<lparr>mailbox := m\<rparr>, slot \<in> fst ` set ms') \<and>
      mailbox_holds (c\<lparr>mailbox := m\<rparr>) (map (strip_slot slot) ms') \<and> component_mailbox_validate m len"
    using m eq by blast
qed

definition sample_component :: "unit component" where
  "sample_component = \<lparr>root_id = Object_Id 2 1, module_id = Object_Id 2 2, captable_id = Object_Id 2 3, state_id = Object_Id 2 4,
     logical_time = 0, timer_deadline = 0, timer_armed = 0, mailbox_used = 0, mailbox = replicate 4096 0,
     cap_table = capability_table_init, capability_count = 0, next_object_sequence = 0, capabilities_dirty = 0,
     exited = 0, exit_code = 0, comp_store = 0, wasm_instance = (),
     metrics = \<lparr>invocations = 0, cycles = 0, allocated = 0, messages_sent = 0\<rparr>\<rparr>"

lemma sample_mailbox: "mailbox_holds sample_component []"
  by (simp add: mailbox_holds_def sample_component_def)

text \<open>Two messages are sent and the first is received into a buffer that is large enough.\<close>

abbreviation sample_calls :: "mail_call list" where
  "sample_calls \<equiv> [Push [1, 2] UINT32_MAX, Push [3] 5, Pop True 1, Pop True 16]"

theorem mailbox_refines_queue_witness:
  "mailbox_holds sample_component [] \<and>
   snd (run_calls mail_call sample_component sample_calls) =
     [Pushed True, Pushed True, Popped None, Popped (Some ([1, 2], UINT32_MAX))]"
  using mailbox_refines_queue [OF sample_mailbox, of sample_calls] sample_mailbox
  by (simp add: queue_call_def call_ok_def)

theorem mailbox_validator_and_strip_witness:
  "\<exists>c :: unit component. component_mailbox_validate (mailbox c) 9 \<and>
     (\<exists>m. strip_attachment c 5 = Some (c\<lparr>mailbox := m\<rparr>, True) \<and> mailbox_holds (c\<lparr>mailbox := m\<rparr>) [(UINT32_MAX, [3 :: u8])]) \<and>
     \<not> component_mailbox_validate (mailbox c) 7"
proof -
  let ?c = "sample_component\<lparr>mailbox := memcpy_at (mailbox sample_component) 0 (frame_bytes (5, [3])), mailbox_used := 9\<rparr>"
  have h: "mailbox_holds ?c [(5, [3])]" using push_holds [OF sample_mailbox, of "[3]" 5] by (simp add: sample_component_def)
  then have b: "length (mailbox ?c) = 4096" "take 9 (mailbox ?c) = frames [(5, [3])]" by (auto simp: mailbox_holds_def)
  have l: "9 \<le> length (mailbox ?c)" "7 \<le> length (mailbox ?c)" using b(1) by simp_all
  note p = mailbox_validator_and_strip [OF l(1), of ?c 5]
  have v: "component_mailbox_validate (mailbox ?c) 9"
    using p b(2) by (auto simp: slot_valid_def intro: exI [of _ "[(5, [3])]"])
  have "\<not> component_mailbox_validate (mailbox ?c) 7"
  proof
    assume "component_mailbox_validate (mailbox ?c) 7"
    then obtain ms where "take 7 (mailbox ?c) = frames ms"
      using mailbox_validator_and_strip [OF l(2), of ?c 5] by blast
    from arg_cong [OF this, of length] have "length (frames ms) = 7" using b(1) by simp
    then show False by (cases ms) auto
  qed
  moreover obtain m where "strip_attachment ?c 5 = Some (?c\<lparr>mailbox := m\<rparr>, True)"
    "mailbox_holds (?c\<lparr>mailbox := m\<rparr>) [(UINT32_MAX, [3])]"
  proof -
    have "unat (mailbox_used ?c) = 9" by simp
    then have "\<exists>m. strip_attachment ?c 5 = Some (?c\<lparr>mailbox := m\<rparr>, 5 \<in> fst ` set [(5 :: u32, [3 :: u8])]) \<and>
        mailbox_holds (?c\<lparr>mailbox := m\<rparr>) (map (strip_slot 5) [(5, [3])])"
      using p v h b(1) by blast
    then show thesis using that by (auto simp: strip_slot_def)
  qed
  ultimately show ?thesis using v by blast
qed

end
