(* ===== verification/Component_Records.thy ===== *)
theory Component_Records
  imports Mailbox
begin

text \<open>
  The records of a component in the object store, \<^verbatim>\<open>kernel/wasm/component.c\<close>: its
  capability table, the registry of installed components and the root record that names the
  other three, each with a header, a magic number and a checksum, and the operations on a
  component's own capabilities.
\<close>

abbreviation COMPONENT_MAX :: nat where "COMPONENT_MAX \<equiv> 4"

definition component_make_id :: "u64 \<Rightarrow> u64 \<Rightarrow> object_id" where
  "component_make_id h l = Object_Id h l"

definition component_sequence_id :: "u64 \<Rightarrow> object_id" where
  "component_sequence_id sequence = component_make_id 2 sequence"

section \<open>Capabilities of a component\<close>

definition component_capability_find :: "'i component \<Rightarrow> object_id \<Rightarrow> u32 option" where
  "component_capability_find c object = capability_table_find (cap_table c) object"

definition component_capability_insert ::
    "'i component \<Rightarrow> object_id \<Rightarrow> u32 \<Rightarrow> u32 \<Rightarrow> ('i component \<times> u32) option" where
  "component_capability_insert c object rts bdg =
     (if \<not> capability_table_is_valid (cap_table c) then None
      else case capability_table_find (cap_table c) object of
        Some slot \<Rightarrow>
          let previous = slots (cap_table c) ! unat slot;
              capability = previous\<lparr>rights := rights previous OR rts\<rparr>;
              table = (cap_table c)\<lparr>slots := (slots (cap_table c))[unat slot := capability]\<rparr>
          in if \<not> capability_is_valid (Some capability) then None
             else if \<not> capability_table_is_valid table then None
             else Some (c\<lparr>cap_table := table, capabilities_dirty := 1\<rparr>, slot)
      | None \<Rightarrow>
          (case capability_table_insert_root (cap_table c)
                  (Some \<lparr>cap_object = object, rights = rts, badge = bdg\<rparr>) of
             None \<Rightarrow> None
           | Some (table, slot) \<Rightarrow>
               Some (c\<lparr>cap_table := table,
                       capability_count := (if slot \<ge> capability_count c then slot + 1 else capability_count c),
                       capabilities_dirty := 1\<rparr>, slot)))"

definition component_capability_derive ::
    "'i component \<Rightarrow> u32 \<Rightarrow> u32 \<Rightarrow> u32 \<Rightarrow> ('i component \<times> u32) option" where
  "component_capability_derive c parent_slot child_rights child_badge =
     (if \<not> capability_table_is_valid (cap_table c) \<or> parent_slot \<ge> capability_count c then None
      else case capability_table_derive (cap_table c) parent_slot child_rights child_badge of
        None \<Rightarrow> None
      | Some (table, child_slot) \<Rightarrow>
          Some (c\<lparr>cap_table := table,
                  capability_count := (if child_slot \<ge> capability_count c then child_slot + 1 else capability_count c),
                  capabilities_dirty := 1\<rparr>, child_slot))"

text \<open>The loop that lowers \<open>capability_count\<close> past the free slots at the end.\<close>

fun trim_count :: "capability_table \<Rightarrow> nat \<Rightarrow> nat" where
  "trim_count t 0 = 0"
| "trim_count t (Suc last_slot) =
     (if capability_table_get t (of_nat last_slot) \<noteq> None then Suc last_slot else trim_count t last_slot)"

definition component_capability_revoke :: "'i component \<Rightarrow> u32 \<Rightarrow> 'i component option" where
  "component_capability_revoke c slot =
     (if \<not> capability_table_is_valid (cap_table c) \<or> slot \<ge> capability_count c then None
      else case capability_table_revoke (cap_table c) slot of
        None \<Rightarrow> None
      | Some table \<Rightarrow>
          Some (c\<lparr>cap_table := table, capability_count := of_nat (trim_count table (unat (capability_count c))),
                  capabilities_dirty := 1\<rparr>))"

section \<open>The capability table in the store\<close>

record captable_header =
  ch_magic :: u64
  ch_format_version :: u32
  ch_slot_count :: u32
  ch_next_object_sequence :: u64
  ch_payload_crc32c :: u32
  ch_reserved :: u32

definition COMPONENT_CAPTABLE_MAGIC :: u64 where "COMPONENT_CAPTABLE_MAGIC = 0x4A414E495F434150"

abbreviation COMPONENT_CAPTABLE_HEADER_SIZE :: nat where "COMPONENT_CAPTABLE_HEADER_SIZE \<equiv> 32"
abbreviation CAPTABLE_CAPABILITIES_BYTES :: nat where "CAPTABLE_CAPABILITIES_BYTES \<equiv> 384"
abbreviation CAPTABLE_PARENTS_BYTES :: nat where "CAPTABLE_PARENTS_BYTES \<equiv> 64"
abbreviation CAPTABLE_GENERATIONS_BYTES :: nat where "CAPTABLE_GENERATIONS_BYTES \<equiv> 64"
abbreviation CAPTABLE_V1_PAYLOAD_BYTES :: nat where "CAPTABLE_V1_PAYLOAD_BYTES \<equiv> 416"
abbreviation CAPTABLE_V2_PAYLOAD_BYTES :: nat where "CAPTABLE_V2_PAYLOAD_BYTES \<equiv> 480"
abbreviation CAPTABLE_PAYLOAD_BYTES :: nat where "CAPTABLE_PAYLOAD_BYTES \<equiv> 544"

definition encode_captable_header :: "captable_header \<Rightarrow> bytes" where
  "encode_captable_header h = le_bytes 8 (ch_magic h) @ le_bytes 4 (ch_format_version h) @ le_bytes 4 (ch_slot_count h) @
     le_bytes 8 (ch_next_object_sequence h) @ le_bytes 4 (ch_payload_crc32c h) @ le_bytes 4 (ch_reserved h)"

definition decode_captable_header :: "bytes \<Rightarrow> captable_header" where
  "decode_captable_header bs =
     \<lparr>ch_magic = le_word (bslice 0 8 bs), ch_format_version = le_word (bslice 8 4 bs),
      ch_slot_count = le_word (bslice 12 4 bs), ch_next_object_sequence = le_word (bslice 16 8 bs),
      ch_payload_crc32c = le_word (bslice 24 4 bs), ch_reserved = le_word (bslice 28 4 bs)\<rparr>"

definition encode_capability :: "capability \<Rightarrow> bytes" where
  "encode_capability c = encode_id (cap_object c) @ le_bytes 4 (rights c) @ le_bytes 4 (badge c)"

definition decode_capability :: "bytes \<Rightarrow> capability" where
  "decode_capability bs =
     \<lparr>cap_object = decode_id (bslice 0 16 bs), rights = le_word (bslice 16 4 bs), badge = le_word (bslice 20 4 bs)\<rparr>"

definition encode_u32s :: "u32 list \<Rightarrow> bytes" where
  "encode_u32s xs = encode_array (le_bytes 4) xs"

definition decode_u32s :: "nat \<Rightarrow> bytes \<Rightarrow> u32 list" where
  "decode_u32s n bs = decode_array le_word 4 n bs"

definition component_capability_generations_import :: "capability_table \<Rightarrow> capability_table" where
  "component_capability_generations_import t =
     t\<lparr>generations := map (\<lambda>slot. if object_id_is_zero (cap_object (slots t ! slot)) then 0 else 1) [0..<CAP_TABLE_SLOTS]\<rparr>"

definition component_capability_table_valid :: "capability_table \<Rightarrow> u32 \<Rightarrow> bool" where
  "component_capability_table_valid t slot_count =
     (if \<not> capability_table_is_valid t then False
      else list_all (\<lambda>slot. capability_table_get t (of_nat slot) = None) [unat slot_count..<CAP_TABLE_SLOTS])"

text \<open>The parent written for a slot: a free slot has none.\<close>

definition stored_parent :: "capability_table \<Rightarrow> nat \<Rightarrow> u32" where
  "stored_parent t slot = (if object_id_is_zero (cap_object (slots t ! slot)) then CAP_SLOT_NONE else parents t ! slot)"

definition component_captable_encode :: "'i component \<Rightarrow> bytes option" where
  "component_captable_encode c =
     (if unat (capability_count c) > CAP_TABLE_SLOTS \<or>
         \<not> component_capability_table_valid (cap_table c) (capability_count c) then None
      else
        let body = encode_array encode_capability (slots (cap_table c)) @
                   encode_u32s (map (stored_parent (cap_table c)) [0..<CAP_TABLE_SLOTS]) @
                   encode_u32s (generations (cap_table c));
            captable = \<lparr>ch_magic = COMPONENT_CAPTABLE_MAGIC, ch_format_version = 3, ch_slot_count = capability_count c,
                        ch_next_object_sequence = next_object_sequence c,
                        ch_payload_crc32c = object_crc32c (Some body)
                          (CAPTABLE_CAPABILITIES_BYTES + CAPTABLE_PARENTS_BYTES + CAPTABLE_GENERATIONS_BYTES),
                        ch_reserved = 0\<rparr>
        in Some (encode_captable_header captable @ body))"

text \<open>\<open>component_captable_read\<close> after the object is found: the table, its slot count and the sequence.\<close>

definition component_captable_decode :: "bytes \<Rightarrow> nat \<Rightarrow> (capability_table \<times> u32 \<times> u64) option" where
  "component_captable_decode payload payload_size =
     (if payload_size < COMPONENT_CAPTABLE_HEADER_SIZE then None
      else let captable = decode_captable_header (take COMPONENT_CAPTABLE_HEADER_SIZE payload) in
        if ch_magic captable \<noteq> COMPONENT_CAPTABLE_MAGIC \<or> ch_reserved captable \<noteq> 0 \<or>
           unat (ch_slot_count captable) > CAP_TABLE_SLOTS then None
        else case (if ch_format_version captable = 1 then
                     if payload_size \<noteq> CAPTABLE_V1_PAYLOAD_BYTES then None else Some CAPTABLE_CAPABILITIES_BYTES
                   else if ch_format_version captable = 2 then
                     if payload_size \<noteq> CAPTABLE_V2_PAYLOAD_BYTES then None
                     else Some (CAPTABLE_CAPABILITIES_BYTES + CAPTABLE_PARENTS_BYTES)
                   else if ch_format_version captable = 3 then
                     if payload_size \<noteq> CAPTABLE_PAYLOAD_BYTES then None
                     else Some (CAPTABLE_CAPABILITIES_BYTES + CAPTABLE_PARENTS_BYTES + CAPTABLE_GENERATIONS_BYTES)
                   else None) of
          None \<Rightarrow> None
        | Some table_bytes \<Rightarrow>
            if object_crc32c (Some (drop COMPONENT_CAPTABLE_HEADER_SIZE payload)) table_bytes \<noteq> ch_payload_crc32c captable
            then None
            else
              let t0 = capability_table_init\<lparr>slots :=
                         decode_array decode_capability 24 CAP_TABLE_SLOTS
                           (bslice COMPONENT_CAPTABLE_HEADER_SIZE CAPTABLE_CAPABILITIES_BYTES payload)\<rparr>;
                  t1 = (if ch_format_version captable \<noteq> 1
                        then t0\<lparr>parents := decode_u32s CAP_TABLE_SLOTS
                                  (bslice CAPTABLE_V1_PAYLOAD_BYTES CAPTABLE_PARENTS_BYTES payload)\<rparr> else t0);
                  t2 = (if ch_format_version captable = 3
                        then t1\<lparr>generations := decode_u32s CAP_TABLE_SLOTS
                                  (bslice CAPTABLE_V2_PAYLOAD_BYTES CAPTABLE_GENERATIONS_BYTES payload)\<rparr>
                        else component_capability_generations_import t1)
              in if \<not> component_capability_table_valid t2 (ch_slot_count captable) then None
                 else Some (t2, ch_slot_count captable, ch_next_object_sequence captable))"

definition component_captable_write ::
    "'d object_store \<Rightarrow> 'i component \<Rightarrow> ('d object_store \<times> 'i component \<times> bool) option" where
  "component_captable_write store c =
     (case component_captable_encode c of
        None \<Rightarrow> Some (store, c, False)
      | Some buffer \<Rightarrow>
          (case object_store_put store (captable_id c) (component_make_id 0 4) (root_id c) (root_id c) (logical_time c)
                  (Some buffer) CAPTABLE_PAYLOAD_BYTES of
             None \<Rightarrow> None
           | Some (store1, False) \<Rightarrow> Some (store1, c, False)
           | Some (store1, True) \<Rightarrow> Some (store1, c\<lparr>capabilities_dirty := 0\<rparr>, True)))"

definition component_captable_read ::
    "'d object_store \<Rightarrow> 'i component \<Rightarrow> ('d object_store \<times> 'i component \<times> bool) option" where
  "component_captable_read store c =
     (case object_store_get store (captable_id c) of
        None \<Rightarrow> None
      | Some (store1, None) \<Rightarrow> Some (store1, c, False)
      | Some (store1, Some (header, payload, payload_size)) \<Rightarrow>
          (case component_captable_decode payload payload_size of
             None \<Rightarrow> Some (store1, c, False)
           | Some (table, count, sequence) \<Rightarrow>
               Some (store1, c\<lparr>cap_table := table, capability_count := count, next_object_sequence := sequence,
                               capabilities_dirty := 0\<rparr>, True)))"

section \<open>The registry\<close>

record registry_header =
  rh_magic :: u64
  rh_format_version :: u32
  rh_component_count :: u32
  rh_next_sequence :: u64
  rh_payload_crc32c :: u32
  rh_reserved :: u32

definition COMPONENT_REGISTRY_MAGIC :: u64 where "COMPONENT_REGISTRY_MAGIC = 0x4A414E495F524547"

abbreviation COMPONENT_REGISTRY_HEADER_SIZE :: nat where "COMPONENT_REGISTRY_HEADER_SIZE \<equiv> 32"

definition encode_registry_header :: "registry_header \<Rightarrow> bytes" where
  "encode_registry_header h = le_bytes 8 (rh_magic h) @ le_bytes 4 (rh_format_version h) @ le_bytes 4 (rh_component_count h) @
     le_bytes 8 (rh_next_sequence h) @ le_bytes 4 (rh_payload_crc32c h) @ le_bytes 4 (rh_reserved h)"

definition decode_registry_header :: "bytes \<Rightarrow> registry_header" where
  "decode_registry_header bs =
     \<lparr>rh_magic = le_word (bslice 0 8 bs), rh_format_version = le_word (bslice 8 4 bs),
      rh_component_count = le_word (bslice 12 4 bs), rh_next_sequence = le_word (bslice 16 8 bs),
      rh_payload_crc32c = le_word (bslice 24 4 bs), rh_reserved = le_word (bslice 28 4 bs)\<rparr>"

definition registry_decode :: "bytes \<Rightarrow> nat \<Rightarrow> nat \<Rightarrow> (object_id list \<times> u64) option" where
  "registry_decode payload payload_size capacity =
     (if payload_size < COMPONENT_REGISTRY_HEADER_SIZE then None
      else let registry = decode_registry_header (take COMPONENT_REGISTRY_HEADER_SIZE payload) in
        if rh_magic registry \<noteq> COMPONENT_REGISTRY_MAGIC \<or> rh_format_version registry \<noteq> 1 \<or>
           rh_reserved registry \<noteq> 0 \<or> unat (rh_component_count registry) > COMPONENT_MAX then None
        else if payload_size \<noteq> COMPONENT_REGISTRY_HEADER_SIZE + unat (rh_component_count registry) * 16 then None
        else if object_crc32c (Some (drop COMPONENT_REGISTRY_HEADER_SIZE payload))
                  (payload_size - COMPONENT_REGISTRY_HEADER_SIZE) \<noteq> rh_payload_crc32c registry then None
        else if unat (rh_component_count registry) > capacity then None
        else Some (decode_array decode_id 16 (unat (rh_component_count registry))
                     (drop COMPONENT_REGISTRY_HEADER_SIZE payload), rh_next_sequence registry))"

definition component_registry_load ::
    "'d object_store \<Rightarrow> nat \<Rightarrow> ('d object_store \<times> (object_id list \<times> u64) option) option" where
  "component_registry_load store capacity =
     (case object_store_get store (component_make_id 1 0) of
        None \<Rightarrow> None
      | Some (store1, None) \<Rightarrow> Some (store1, None)
      | Some (store1, Some (header, payload, payload_size)) \<Rightarrow>
          Some (store1, registry_decode payload payload_size capacity))"

definition registry_encode :: "object_id list \<Rightarrow> u64 \<Rightarrow> bytes" where
  "registry_encode roots next_sequence =
     (let body = encode_array encode_id roots in
      encode_registry_header
        \<lparr>rh_magic = COMPONENT_REGISTRY_MAGIC, rh_format_version = 1, rh_component_count = of_nat (length roots),
         rh_next_sequence = next_sequence, rh_payload_crc32c = object_crc32c (Some body) (length roots * 16), rh_reserved = 0\<rparr>
      @ body)"

definition component_registry_store ::
    "'d object_store \<Rightarrow> object_id list \<Rightarrow> u64 \<Rightarrow> ('d object_store \<times> bool) option" where
  "component_registry_store store roots next_sequence =
     (if length roots > COMPONENT_MAX then Some (store, False)
      else object_store_put store (component_make_id 1 0) (component_make_id 0 1) (component_make_id 0 0)
             (component_make_id 0 0) 0 (Some (registry_encode roots next_sequence))
             (COMPONENT_REGISTRY_HEADER_SIZE + length roots * 16))"

section \<open>The root record\<close>

record component_root_record =
  rr_magic :: u64
  rr_format_version :: u32
  rr_reserved :: u32
  rr_module_id :: object_id
  rr_captable_id :: object_id
  rr_state_id :: object_id
  rr_payload_crc32c :: u32
  rr_padding :: u32

definition COMPONENT_ROOT_MAGIC :: u64 where "COMPONENT_ROOT_MAGIC = 0x4A414E495F524F54"

abbreviation COMPONENT_ROOT_SIZE :: nat where "COMPONENT_ROOT_SIZE \<equiv> 72"

definition encode_root_record :: "component_root_record \<Rightarrow> bytes" where
  "encode_root_record r = le_bytes 8 (rr_magic r) @ le_bytes 4 (rr_format_version r) @ le_bytes 4 (rr_reserved r) @
     encode_id (rr_module_id r) @ encode_id (rr_captable_id r) @ encode_id (rr_state_id r) @
     le_bytes 4 (rr_payload_crc32c r) @ le_bytes 4 (rr_padding r)"

definition decode_root_record :: "bytes \<Rightarrow> component_root_record" where
  "decode_root_record bs =
     \<lparr>rr_magic = le_word (bslice 0 8 bs), rr_format_version = le_word (bslice 8 4 bs), rr_reserved = le_word (bslice 12 4 bs),
      rr_module_id = decode_id (bslice 16 16 bs), rr_captable_id = decode_id (bslice 32 16 bs),
      rr_state_id = decode_id (bslice 48 16 bs), rr_payload_crc32c = le_word (bslice 64 4 bs),
      rr_padding = le_word (bslice 68 4 bs)\<rparr>"

definition root_encode :: "'i component \<Rightarrow> bytes" where
  "root_encode c =
     encode_root_record
       \<lparr>rr_magic = COMPONENT_ROOT_MAGIC, rr_format_version = 1, rr_reserved = 0, rr_module_id = module_id c,
        rr_captable_id = captable_id c, rr_state_id = state_id c,
        rr_payload_crc32c = object_crc32c (Some (encode_id (module_id c) @ encode_id (captable_id c) @ encode_id (state_id c))) 48,
        rr_padding = 0\<rparr>"

definition component_root_write :: "'d object_store \<Rightarrow> 'i component \<Rightarrow> ('d object_store \<times> bool) option" where
  "component_root_write store c =
     object_store_put store (root_id c) (component_make_id 0 2) (component_make_id 0 0) (component_make_id 0 0) 0
       (Some (root_encode c)) COMPONENT_ROOT_SIZE"

definition root_decode :: "bytes \<Rightarrow> nat \<Rightarrow> object_id \<Rightarrow> 'i component \<Rightarrow> 'i component option" where
  "root_decode payload payload_size root c =
     (if payload_size \<noteq> COMPONENT_ROOT_SIZE then None
      else let r = decode_root_record (take COMPONENT_ROOT_SIZE payload) in
        if rr_magic r \<noteq> COMPONENT_ROOT_MAGIC \<or> rr_format_version r \<noteq> 1 \<or> rr_reserved r \<noteq> 0 \<or> rr_padding r \<noteq> 0 then None
        else if object_crc32c (Some (encode_id (rr_module_id r) @ encode_id (rr_captable_id r) @ encode_id (rr_state_id r))) 48
                  \<noteq> rr_payload_crc32c r then None
        else Some (c\<lparr>root_id := root, module_id := rr_module_id r, captable_id := rr_captable_id r,
                     state_id := rr_state_id r\<rparr>))"

definition component_root_read ::
    "'d object_store \<Rightarrow> object_id \<Rightarrow> 'i component \<Rightarrow> ('d object_store \<times> 'i component option) option" where
  "component_root_read store root c =
     (case object_store_get store root of
        None \<Rightarrow> None
      | Some (store1, None) \<Rightarrow> Some (store1, None)
      | Some (store1, Some (header, payload, payload_size)) \<Rightarrow> Some (store1, root_decode payload payload_size root c))"

text \<open>A component that migrated away is fenced off by an object of its own.\<close>

definition component_is_fenced :: "'d object_store \<Rightarrow> object_id \<Rightarrow> bool" where
  "component_is_fenced store root =
     (if object_store_requires_recovery store then True
      else high root = 2 \<and> object_table_find (st_table store) (Object_Id 0x4a414e49464e4345 (low root)) \<noteq> None)"

section \<open>Layouts\<close>

interpretation captable_header_codec: codec encode_captable_header decode_captable_header 32 "\<lambda>_. True"
  by unfold_locales (auto simp: encode_captable_header_def decode_captable_header_def)

interpretation capability_codec: codec encode_capability decode_capability 24 "\<lambda>_. True"
  by unfold_locales (auto simp: encode_capability_def decode_capability_def)

interpretation u32_codec: codec "le_bytes 4 :: u32 \<Rightarrow> bytes" "le_word :: bytes \<Rightarrow> u32" 4 "\<lambda>_. True"
  by unfold_locales auto

interpretation registry_header_codec: codec encode_registry_header decode_registry_header 32 "\<lambda>_. True"
  by unfold_locales (auto simp: encode_registry_header_def decode_registry_header_def)

interpretation root_record_codec: codec encode_root_record decode_root_record 72 "\<lambda>_. True"
  by unfold_locales (auto simp: encode_root_record_def decode_root_record_def)

lemma record_arrays [simp]:
  "length (encode_array encode_capability cs) = 24 * length cs"
  "length (encode_u32s xs) = 4 * length xs"
  "length (encode_array encode_id is) = 16 * length is"
  "decode_array decode_capability 24 (length cs) (encode_array encode_capability cs) = cs"
  "decode_u32s (length xs) (encode_u32s xs) = xs"
  "decode_array decode_id 16 (length is) (encode_array encode_id is) = is"
  using capability_codec.array_length [of cs] u32_codec.array_length [of xs] id_codec.array_length [of "is"]
    capability_codec.array_dec_enc [of cs] u32_codec.array_dec_enc [of xs] id_codec.array_dec_enc [of "is"]
  by (simp_all add: encode_u32s_def decode_u32s_def list_all_iff)

section \<open>Well-formed capabilities of a component\<close>

text \<open>The table is valid and every slot from \<open>capability_count\<close> on is free.\<close>

definition caps_ok :: "'i component \<Rightarrow> bool" where
  "caps_ok c \<longleftrightarrow> table_wf (cap_table c) \<and> unat (capability_count c) \<le> CAP_TABLE_SLOTS \<and>
     (\<forall>s<CAP_TABLE_SLOTS. unat (capability_count c) \<le> s \<longrightarrow> slot_free (cap_table c) s)"

lemma trim_count_le: "trim_count t n \<le> n"
  by (induction n) auto

lemma trim_count_free: "trim_count t n \<le> s \<Longrightarrow> s < n \<Longrightarrow> capability_table_get t (of_nat s) = None"
  by (induction n) (auto split: if_splits simp: less_Suc_eq)

lemma wf_get_None: "table_wf t \<Longrightarrow> s < CAP_TABLE_SLOTS \<Longrightarrow> capability_table_get t (of_nat s) = None \<longleftrightarrow> slot_free t s"
  by (auto simp: table_wf_def capability_table_get_def get_None_free split: if_splits)

lemma table_valid_iff:
  assumes "table_wf t"
  shows "component_capability_table_valid t n \<longleftrightarrow> (\<forall>s<CAP_TABLE_SLOTS. unat n \<le> s \<longrightarrow> slot_free t s)"
proof -
  have "table_shape t" using assms by (simp add: table_wf_def)
  then have "capability_table_is_valid t" using is_valid_iff_wf [of t] assms by simp
  then show ?thesis using wf_get_None [OF assms] by (auto simp: component_capability_table_valid_def list_all_iff)
qed

lemma raised_count:
  assumes "unat n \<le> CAP_TABLE_SLOTS" "s < CAP_TABLE_SLOTS"
  defines "n' \<equiv> (if of_nat s \<ge> (n :: u32) then of_nat s + 1 else n)"
  shows "unat n' = max (unat n) (s + 1)"
proof -
  have u: "unat (of_nat s :: u32) = s" using assms(2) by simp
  then have "unat (of_nat s + 1 :: u32) = s + 1" using assms(2) by (simp add: unat_word_ariths)
  then show ?thesis using u by (auto simp: n'_def word_le_unat max_def)
qed

text \<open>Filling a free slot keeps the count an upper bound of the used slots.\<close>

lemma caps_ok_install:
  assumes ok: "caps_ok c" and cl: "capability_table_claim_slot (cap_table c) = Some (t1, s)"
    and t': "t' = t1\<lparr>slots := (slots t1)[s := k], parents := (parents t1)[s := q]\<rparr>" and wf: "table_wf t'"
  shows "caps_ok (c\<lparr>cap_table := t',
      capability_count := (if of_nat s \<ge> capability_count c then of_nat s + 1 else capability_count c),
      capabilities_dirty := 1\<rparr>)"
proof -
  note s = claim_slot_Some [OF cl]
  have n: "unat (if of_nat s \<ge> capability_count c then of_nat s + 1 else capability_count c) =
      max (unat (capability_count c)) (s + 1)"
    using ok s(1) by (intro raised_count) (auto simp: caps_ok_def)
  have "slot_free t' i" if "i < CAP_TABLE_SLOTS" "max (unat (capability_count c)) (s + 1) \<le> i" for i
    using that ok s(1,4) by (auto simp: caps_ok_def t')
  then show ?thesis using wf ok s(1) n by (simp add: caps_ok_def)
qed

lemma insert_caps_ok:
  assumes ok: "caps_ok c" and i: "component_capability_insert c object r b = Some (c', slot)"
  shows "caps_ok c'"
proof (cases "capability_table_find (cap_table c) object")
  case (Some k)
  let ?t = "(cap_table c)\<lparr>slots := (slots (cap_table c))[unat k := (slots (cap_table c) ! unat k)
              \<lparr>rights := rights (slots (cap_table c) ! unat k) OR r\<rparr>]\<rparr>"
  have c': "c' = c\<lparr>cap_table := ?t, capabilities_dirty := 1\<rparr>" "capability_table_is_valid ?t"
    using i Some by (auto simp: component_capability_insert_def Let_def split: if_splits)
  have "table_shape ?t" using ok by (simp add: caps_ok_def table_wf_def table_shape_def)
  then have "table_wf ?t" using c'(2) is_valid_iff_wf by blast
  moreover have "slot_free ?t j = slot_free (cap_table c) j" for j
    by (auto simp: nth_list_update')
  ultimately show ?thesis using ok by (simp add: c'(1) caps_ok_def)
next
  case None
  then obtain t where t: "capability_table_insert_root (cap_table c)
      (Some \<lparr>cap_object = object, rights = r, badge = b\<rparr>) = Some (t, slot)"
    "c' = c\<lparr>cap_table := t, capability_count := (if slot \<ge> capability_count c then slot + 1 else capability_count c),
       capabilities_dirty := 1\<rparr>"
    using i by (auto simp: component_capability_insert_def split: option.splits if_splits)
  then obtain t1 s where "capability_table_claim_slot (cap_table c) = Some (t1, s)" "slot = of_nat s"
    "t = t1\<lparr>slots := (slots t1)[s := \<lparr>cap_object = object, rights = r, badge = b\<rparr>], parents := (parents t1)[s := CAP_SLOT_NONE]\<rparr>"
    by (auto simp: capability_table_insert_root_def split: option.splits if_splits)
  moreover have "table_wf t" using ok insert_root_wf [OF _ t(1)] by (simp add: caps_ok_def)
  ultimately show ?thesis using caps_ok_install [OF ok] unfolding t(2) by blast
qed

lemma derive_caps_ok:
  assumes ok: "caps_ok c" and d: "component_capability_derive c p r b = Some (c', slot)"
  shows "caps_ok c'"
proof -
  obtain t where t: "capability_table_derive (cap_table c) p r b = Some (t, slot)"
    "c' = c\<lparr>cap_table := t, capability_count := (if slot \<ge> capability_count c then slot + 1 else capability_count c),
       capabilities_dirty := 1\<rparr>"
    using d by (auto simp: component_capability_derive_def split: option.splits if_splits)
  have wf: "table_wf t" using ok derive_wf [OF _ t(1)] by (simp add: caps_ok_def)
  show ?thesis by (rule derive_Some [OF t(1)]) (use caps_ok_install [OF ok _ _ wf] t(2) in blast)
qed

lemma revoke_caps_ok:
  assumes ok: "caps_ok c" and d: "component_capability_revoke c slot = Some c'"
  shows "caps_ok c'"
proof -
  let ?n = "unat (capability_count c)"
  obtain t where t: "capability_table_revoke (cap_table c) slot = Some t"
    "c' = c\<lparr>cap_table := t, capability_count := of_nat (trim_count t ?n), capabilities_dirty := 1\<rparr>"
    using d by (auto simp: component_capability_revoke_def split: option.splits if_splits)
  have wf: "table_wf t" "table_shape (cap_table c)" "?n \<le> CAP_TABLE_SLOTS"
    using ok revoke_wf [OF _ t(1)] by (auto simp: caps_ok_def table_wf_def)
  have "trim_count t ?n \<le> CAP_TABLE_SLOTS" using trim_count_le [of t ?n] wf(3) by linarith
  then have n: "unat (of_nat (trim_count t ?n) :: u32) = trim_count t ?n" by (simp add: unat_of_nat)
  have "slot_free t s" if "s < CAP_TABLE_SLOTS" "trim_count t ?n \<le> s" for s
  proof (cases "s < ?n")
    case True
    then show ?thesis using trim_count_free [OF that(2)] wf_get_None [OF wf(1) that(1)] by simp
  next
    case False
    then have "slot_free (cap_table c) s" using ok that(1) by (simp add: caps_ok_def)
    then show ?thesis using revoke_Some(3) [OF wf(2) t(1) that(1)] by (simp add: zero_capability_def)
  qed
  then show ?thesis using wf(1) n \<open>trim_count t ?n \<le> CAP_TABLE_SLOTS\<close> by (simp add: caps_ok_def t(2))
qed

section \<open>Round trips\<close>

lemma stored_parents:
  assumes "table_wf t"
  shows "map (stored_parent t) [0..<CAP_TABLE_SLOTS] = parents t"
  using assms by (intro nth_equalityI) (auto simp: table_wf_def table_shape_def stored_parent_def)

lemma captable_round_trip:
  assumes ok: "caps_ok c"
  shows "\<exists>bs. component_captable_encode c = Some bs \<and> length bs = CAPTABLE_PAYLOAD_BYTES \<and>
    component_captable_decode bs CAPTABLE_PAYLOAD_BYTES = Some (cap_table c, capability_count c, next_object_sequence c)"
proof -
  let ?t = "cap_table c"
  have wf: "table_wf ?t" and n: "unat (capability_count c) \<le> CAP_TABLE_SLOTS"
    and v: "component_capability_table_valid ?t (capability_count c)"
    using ok table_valid_iff [of ?t] by (auto simp: caps_ok_def)
  have len: "length (slots ?t) = 16" "length (parents ?t) = 16" "length (generations ?t) = 16"
    using wf by (auto simp: table_wf_def table_shape_def)
  define body where "body = encode_array encode_capability (slots ?t) @ encode_u32s (parents ?t) @ encode_u32s (generations ?t)"
  define h where "h = \<lparr>ch_magic = COMPONENT_CAPTABLE_MAGIC, ch_format_version = 3, ch_slot_count = capability_count c,
     ch_next_object_sequence = next_object_sequence c, ch_payload_crc32c = object_crc32c (Some body) 512, ch_reserved = 0\<rparr>"
  let ?bs = "encode_captable_header h @ body"
  have e: "component_captable_encode c = Some ?bs"
    using n v stored_parents [OF wf] by (simp add: component_captable_encode_def Let_def h_def body_def)
  have lh: "length (encode_captable_header h) = 32" using captable_header_codec.enc_length by simp
  have lb: "length body = 512" using len by (simp add: body_def)
  have dh: "decode_captable_header (take 32 ?bs) = h" using captable_header_codec.dec_enc [of h] lh by simp
  have s: "bslice 32 384 ?bs = encode_array encode_capability (slots ?t)" "bslice 416 64 ?bs = encode_u32s (parents ?t)"
    "bslice 480 64 ?bs = encode_u32s (generations ?t)"
    using lh len by (simp_all add: body_def)
  have "decode_array decode_capability 24 16 (encode_array encode_capability (slots ?t)) = slots ?t"
    "decode_u32s 16 (encode_u32s (parents ?t)) = parents ?t" "decode_u32s 16 (encode_u32s (generations ?t)) = generations ?t"
    using record_arrays(4) [of "slots ?t"] record_arrays(5) [of "parents ?t"] record_arrays(5) [of "generations ?t"] len by simp_all
  moreover have init: "capability_table_init\<lparr>slots := slots ?t, parents := parents ?t, generations := generations ?t\<rparr> = ?t"
    by (simp add: capability_table_init_def)
  ultimately have "component_captable_decode ?bs 544 = Some (?t, capability_count c, next_object_sequence c)"
    using n v lh unfolding component_captable_decode_def dh s Let_def by (simp add: h_def init)
  then show ?thesis using e lh lb by simp
qed

text \<open>The component's own operations on its capabilities, in any order.\<close>

inductive caps_step :: "'i component \<Rightarrow> 'i component \<Rightarrow> bool" where
  insert: "component_capability_insert c object r b = Some (c', slot) \<Longrightarrow> caps_step c c'"
| derive: "component_capability_derive c p r b = Some (c', slot) \<Longrightarrow> caps_step c c'"
| revoke: "component_capability_revoke c slot = Some c' \<Longrightarrow> caps_step c c'"

lemma caps_steps_ok: "caps_step\<^sup>*\<^sup>* c c' \<Longrightarrow> caps_ok c \<Longrightarrow> caps_ok c'"
proof (induction rule: rtranclp_induct)
  case (step y z)
  from step.hyps(2) show ?case
    by cases (use step insert_caps_ok derive_caps_ok revoke_caps_ok in blast)+
qed

text \<open>
  C23: after any sequence of insertions, derivations and revocations on a component whose table
  is empty, the capability table passes the checks of \<open>component_captable_encode\<close>, and what
  is written is read back by \<open>component_captable_read\<close>'s decoder: the same table, the same slot
  count and the same object sequence.
\<close>

theorem captable_survives_store:
  assumes "cap_table c = capability_table_init" "capability_count c = 0" "caps_step\<^sup>*\<^sup>* c c'"
  shows "\<exists>bs. component_captable_encode c' = Some bs \<and> length bs = CAPTABLE_PAYLOAD_BYTES \<and>
    component_captable_decode bs CAPTABLE_PAYLOAD_BYTES = Some (cap_table c', capability_count c', next_object_sequence c')"
proof (rule captable_round_trip)
  have "caps_ok c" using assms(1,2) init_wf by (simp add: caps_ok_def capability_table_init_def zero_capability_def)
  then show "caps_ok c'" using caps_steps_ok [OF assms(3)] by blast
qed

lemma registry_round_trip:
  assumes "length roots \<le> COMPONENT_MAX" "length roots \<le> capacity"
  shows "registry_decode (registry_encode roots sequence) (COMPONENT_REGISTRY_HEADER_SIZE + length roots * 16) capacity =
    Some (roots, sequence)"
proof -
  define body where "body = encode_array encode_id roots"
  define h where "h = \<lparr>rh_magic = COMPONENT_REGISTRY_MAGIC, rh_format_version = 1, rh_component_count = of_nat (length roots),
     rh_next_sequence = sequence, rh_payload_crc32c = object_crc32c (Some body) (length roots * 16), rh_reserved = 0\<rparr>"
  have e: "registry_encode roots sequence = encode_registry_header h @ body"
    by (simp add: registry_encode_def h_def body_def Let_def)
  have lh: "length (encode_registry_header h) = 32" using registry_header_codec.enc_length by simp
  have dh: "decode_registry_header (take 32 (encode_registry_header h @ body)) = h"
    using registry_header_codec.dec_enc [of h] lh by simp
  have n: "unat (of_nat (length roots) :: u32) = length roots" using assms(1) by (simp add: unat_of_nat)
  show ?thesis using assms n lh unfolding registry_decode_def e dh Let_def by (simp add: h_def body_def)
qed

lemma root_round_trip:
  "root_decode (root_encode c) COMPONENT_ROOT_SIZE (root_id c) c' =
     Some (c'\<lparr>root_id := root_id c, module_id := module_id c, captable_id := captable_id c, state_id := state_id c\<rparr>)"
proof -
  define h where "h = \<lparr>rr_magic = COMPONENT_ROOT_MAGIC, rr_format_version = 1, rr_reserved = 0, rr_module_id = module_id c,
        rr_captable_id = captable_id c, rr_state_id = state_id c,
        rr_payload_crc32c = object_crc32c (Some (encode_id (module_id c) @ encode_id (captable_id c) @ encode_id (state_id c))) 48,
        rr_padding = 0\<rparr>"
  have "decode_root_record (take 72 (encode_root_record h)) = h"
    using root_record_codec.dec_enc [of h] root_record_codec.enc_length [of h] by simp
  then show ?thesis unfolding root_decode_def root_encode_def h_def [symmetric] Let_def by (simp add: h_def)
qed

text \<open>
  C24: the registry of components and the root record of a component are read back as they were written.
\<close>

theorem component_records_round_trip:
  "(length roots \<le> COMPONENT_MAX \<longrightarrow>
      registry_decode (registry_encode roots sequence) (COMPONENT_REGISTRY_HEADER_SIZE + length roots * 16) COMPONENT_MAX =
        Some (roots, sequence)) \<and>
   root_decode (root_encode c) COMPONENT_ROOT_SIZE (root_id c) c' =
     Some (c'\<lparr>root_id := root_id c, module_id := module_id c, captable_id := captable_id c, state_id := state_id c\<rparr>)"
  by (simp add: registry_round_trip root_round_trip)

section \<open>Witnesses\<close>

lemma sample_inserted:
  "\<exists>c. component_capability_insert sample_component (Object_Id 9 9) 15 0 = Some (c, 0) \<and>
     capability_table_get (cap_table c) 0 = Some \<lparr>cap_object = Object_Id 9 9, rights = 15, badge = 0\<rparr>"
proof -
  have "capability_table_is_valid capability_table_init \<and> capability_table_find capability_table_init (Object_Id 9 9) = None \<and>
      (case capability_table_insert_root capability_table_init (Some \<lparr>cap_object = Object_Id 9 9, rights = 15, badge = 0\<rparr>) of
         None \<Rightarrow> False
       | Some (t, slot) \<Rightarrow> slot = 0 \<and> capability_table_get t 0 = Some \<lparr>cap_object = Object_Id 9 9, rights = 15, badge = 0\<rparr>)"
    by code_simp
  then show ?thesis
    by (auto simp: component_capability_insert_def sample_component_def split: option.splits)
qed

theorem captable_survives_store_witness:
  "\<exists>c' bs. caps_step\<^sup>*\<^sup>* sample_component c' \<and>
     capability_table_get (cap_table c') 0 = Some \<lparr>cap_object = Object_Id 9 9, rights = 15, badge = 0\<rparr> \<and>
     component_captable_encode c' = Some bs \<and>
     component_captable_decode bs CAPTABLE_PAYLOAD_BYTES = Some (cap_table c', capability_count c', next_object_sequence c')"
proof -
  obtain c where c: "component_capability_insert sample_component (Object_Id 9 9) 15 0 = Some (c, 0)"
    "capability_table_get (cap_table c) 0 = Some \<lparr>cap_object = Object_Id 9 9, rights = 15, badge = 0\<rparr>"
    using sample_inserted by blast
  have s: "caps_step\<^sup>*\<^sup>* sample_component c" using caps_step.insert [OF c(1)] by blast
  have "cap_table sample_component = capability_table_init" "capability_count sample_component = 0"
    by (simp_all add: sample_component_def)
  from captable_survives_store [OF this s] show ?thesis using c(2) s by blast
qed

theorem component_records_round_trip_witness:
  "length [Object_Id 2 4] \<le> COMPONENT_MAX \<and>
   registry_decode (registry_encode [Object_Id 2 4] 5) 48 COMPONENT_MAX = Some ([Object_Id 2 4], 5)"
  using component_records_round_trip [of "[Object_Id 2 4]" 5 sample_component sample_component] by simp

end
