(* ===== verification/Instance_State.thy ===== *)
theory Instance_State
  imports Component_Records
begin

text \<open>
  The saved state of a running component, \<^verbatim>\<open>kernel/wasm/instance_state.c\<close> with the
  validator of \<^verbatim>\<open>kernel/wasm/mailbox_validate.zig\<close>: a header of 64 bytes, the used
  part of the mailbox and the linear memory of the instance. Sizes of type \<open>size_t\<close> are
  naturals below \<open>2 ^ 64\<close>.
\<close>

section \<open>Operations\<close>

record instance_state_header =
  is_magic :: u64
  is_format_version :: u32
  is_header_size :: u32
  is_logical_time :: u64
  is_timer_deadline :: u64
  is_timer_armed :: u32
  is_mailbox_used :: u32
  is_memory_size :: u64
  is_payload_crc32c :: u32
  is_reserved :: u32
  is_padding :: u64

definition INSTANCE_STATE_MAGIC :: u64 where "INSTANCE_STATE_MAGIC = 0x4A414E495F535441"

abbreviation INSTANCE_STATE_HEADER_SIZE :: nat where "INSTANCE_STATE_HEADER_SIZE \<equiv> 64"
abbreviation SIZE_MAX :: nat where "SIZE_MAX \<equiv> 2 ^ 64 - 1"

definition encode_instance_header :: "instance_state_header \<Rightarrow> bytes" where
  "encode_instance_header h = le_bytes 8 (is_magic h) @ le_bytes 4 (is_format_version h) @ le_bytes 4 (is_header_size h) @
     le_bytes 8 (is_logical_time h) @ le_bytes 8 (is_timer_deadline h) @ le_bytes 4 (is_timer_armed h) @
     le_bytes 4 (is_mailbox_used h) @ le_bytes 8 (is_memory_size h) @ le_bytes 4 (is_payload_crc32c h) @
     le_bytes 4 (is_reserved h) @ le_bytes 8 (is_padding h)"

definition decode_instance_header :: "bytes \<Rightarrow> instance_state_header" where
  "decode_instance_header bs =
     \<lparr>is_magic = le_word (bslice 0 8 bs), is_format_version = le_word (bslice 8 4 bs),
      is_header_size = le_word (bslice 12 4 bs), is_logical_time = le_word (bslice 16 8 bs),
      is_timer_deadline = le_word (bslice 24 8 bs), is_timer_armed = le_word (bslice 32 4 bs),
      is_mailbox_used = le_word (bslice 36 4 bs), is_memory_size = le_word (bslice 40 8 bs),
      is_payload_crc32c = le_word (bslice 48 4 bs), is_reserved = le_word (bslice 52 4 bs),
      is_padding = le_word (bslice 56 8 bs)\<rparr>"

definition instance_state_bytes_validate :: "bytes option \<Rightarrow> nat \<Rightarrow> bool" where
  "instance_state_bytes_validate raw len =
     (case raw of
        None \<Rightarrow> False
      | Some b \<Rightarrow>
          if len < 64 then False
          else if read_u64_le b 0 \<noteq> 0x4A414E495F535441 \<or> read_u32_le b 8 \<noteq> 1 \<or> read_u32_le b 12 \<noteq> 64 \<or>
                  read_u32_le b 32 > 1 \<or> read_u32_le b 52 \<noteq> 0 \<or> read_u64_le b 56 \<noteq> 0 then False
          else let used = unat (read_u32_le b 36) in
            if used > 4096 \<or> used > len - 64 \<or> unat (read_u64_le b 40) \<noteq> len - 64 - used then False
            else component_mailbox_validate (drop 64 b) used \<and>
                 object_crc32c (Some (drop 64 b)) (len - 64) = read_u32_le b 48)"

definition instance_state_size :: "nat \<Rightarrow> u32 \<Rightarrow> nat" where
  "instance_state_size memory_size used =
     (if used > COMPONENT_MAILBOX_BYTES \<or> memory_size > SIZE_MAX - INSTANCE_STATE_HEADER_SIZE - unat used then 0
      else INSTANCE_STATE_HEADER_SIZE + unat used + memory_size)"

text \<open>The offset and the size of the memory inside the saved bytes.\<close>

definition instance_state_header_validate :: "bytes option \<Rightarrow> nat \<Rightarrow> (nat \<times> nat) option" where
  "instance_state_header_validate bytes byte_count =
     (if \<not> instance_state_bytes_validate bytes byte_count then None
      else let header = decode_instance_header (take INSTANCE_STATE_HEADER_SIZE (the bytes)) in
        Some (INSTANCE_STATE_HEADER_SIZE + unat (is_mailbox_used header), unat (is_memory_size header)))"

text \<open>The bytes written to \<open>out\<close>, \<open>*written_out\<close> of them.\<close>

definition instance_state_serialize :: "'i component \<Rightarrow> bytes option \<Rightarrow> nat \<Rightarrow> nat \<Rightarrow> bytes option" where
  "instance_state_serialize c memory memory_size capacity =
     (if memory_size \<noteq> 0 \<and> memory = None then None
      else if mailbox_used c > COMPONENT_MAILBOX_BYTES then None
      else let total = instance_state_size memory_size (mailbox_used c) in
        if total = 0 \<or> total > capacity then None
        else let body = take (unat (mailbox_used c)) (mailbox c) @
                        (if memory_size \<noteq> 0 then take memory_size (the memory) else [])
          in Some (encode_instance_header
                \<lparr>is_magic = INSTANCE_STATE_MAGIC, is_format_version = 1, is_header_size = 64,
                 is_logical_time = logical_time c, is_timer_deadline = timer_deadline c,
                 is_timer_armed = (if timer_armed c \<noteq> 0 then 1 else 0), is_mailbox_used = mailbox_used c,
                 is_memory_size = of_nat memory_size,
                 is_payload_crc32c = object_crc32c (Some body) (total - INSTANCE_STATE_HEADER_SIZE),
                 is_reserved = 0, is_padding = 0\<rparr> @ body))"

text \<open>The component and the memory of the instance after the state is restored.\<close>

definition instance_state_deserialize ::
    "'i component \<Rightarrow> bytes option \<Rightarrow> nat \<Rightarrow> bytes option \<Rightarrow> nat \<Rightarrow> ('i component \<times> bytes) option" where
  "instance_state_deserialize c memory memory_size bytes byte_count =
     (case instance_state_header_validate bytes byte_count of
        None \<Rightarrow> None
      | Some (memory_offset, saved_memory_size) \<Rightarrow>
          if memory_size \<noteq> 0 \<and> memory = None then None
          else if saved_memory_size > memory_size then None
          else let header = decode_instance_header (take INSTANCE_STATE_HEADER_SIZE (the bytes));
                   used = unat (is_mailbox_used header)
            in Some (c\<lparr>mailbox := bslice INSTANCE_STATE_HEADER_SIZE used (the bytes) @ replicate (4096 - used) 0,
                       mailbox_used := is_mailbox_used header, logical_time := is_logical_time header,
                       timer_deadline := is_timer_deadline header, timer_armed := is_timer_armed header\<rparr>,
                     bslice memory_offset saved_memory_size (the bytes) @ replicate (memory_size - saved_memory_size) 0))"

section \<open>Round trip\<close>

interpretation instance_header_codec: codec encode_instance_header decode_instance_header 64 "\<lambda>_. True"
  by unfold_locales (auto simp: encode_instance_header_def decode_instance_header_def)

lemma instance_fields:
  assumes "length hb = 64"
  shows "read_u64_le (hb @ xs) 0 = is_magic (decode_instance_header hb)"
    "read_u32_le (hb @ xs) 8 = is_format_version (decode_instance_header hb)"
    "read_u32_le (hb @ xs) 12 = is_header_size (decode_instance_header hb)"
    "read_u32_le (hb @ xs) 32 = is_timer_armed (decode_instance_header hb)"
    "read_u32_le (hb @ xs) 36 = is_mailbox_used (decode_instance_header hb)"
    "read_u64_le (hb @ xs) 40 = is_memory_size (decode_instance_header hb)"
    "read_u32_le (hb @ xs) 48 = is_payload_crc32c (decode_instance_header hb)"
    "read_u32_le (hb @ xs) 52 = is_reserved (decode_instance_header hb)"
    "read_u64_le (hb @ xs) 56 = is_padding (decode_instance_header hb)"
  using assms by (simp_all add: read_u32_le_eq read_u64_le_eq decode_instance_header_def bslice_def)

text \<open>A serialised state passes the validator when the mailbox holds well-formed messages.\<close>

lemma serialize_result:
  assumes holds: "mailbox_holds c ms" and slots: "\<forall>msg\<in>set ms. slot_valid (fst msg)"
    and mem: "length mem + 4160 < 2 ^ 64" and cap: "64 + unat (mailbox_used c) + length mem \<le> capacity"
  defines "h \<equiv> \<lparr>is_magic = INSTANCE_STATE_MAGIC, is_format_version = 1, is_header_size = 64,
                 is_logical_time = logical_time c, is_timer_deadline = timer_deadline c,
                 is_timer_armed = (if timer_armed c \<noteq> 0 then 1 else 0), is_mailbox_used = mailbox_used c,
                 is_memory_size = of_nat (length mem),
                 is_payload_crc32c = object_crc32c (Some (frames ms @ mem)) (unat (mailbox_used c) + length mem),
                 is_reserved = 0, is_padding = 0\<rparr>"
  shows "instance_state_serialize c (Some mem) (length mem) capacity = Some (encode_instance_header h @ frames ms @ mem)"
    and "instance_state_bytes_validate (Some (encode_instance_header h @ frames ms @ mem))
      (64 + length (frames ms) + length mem)"
proof -
  have u: "unat (mailbox_used c) = length (frames ms)" "length (frames ms) \<le> 4096"
    "take (length (frames ms)) (mailbox c) = frames ms"
    using holds by (auto simp: mailbox_holds_def)
  have ok: "\<not> mailbox_used c > COMPONENT_MAILBOX_BYTES" using u by (simp add: word_lt_unat)
  have m0: "(if length mem \<noteq> 0 then take (length mem) mem else []) = mem" by simp
  have total: "instance_state_size (length mem) (mailbox_used c) = 64 + length (frames ms) + length mem"
    using ok u mem by (simp add: instance_state_size_def)
  show "instance_state_serialize c (Some mem) (length mem) capacity = Some (encode_instance_header h @ frames ms @ mem)"
    using ok cap unfolding instance_state_serialize_def total u(1) m0 u(3) Let_def h_def
    by (simp add: u(1) del: length_concat)
  have len: "length (encode_instance_header h) = 64" by (simp add: instance_header_codec.enc_length)
  have dec: "decode_instance_header (encode_instance_header h) = h" by (simp add: instance_header_codec.dec_enc)
  have ms: "unat (of_nat (length mem) :: u64) = length mem" using mem by (simp add: unat_of_nat)
  have hf: "is_magic h = 0x4A414E495F535441" "is_format_version h = 1" "is_header_size h = 64" "\<not> is_timer_armed h > 1"
    "is_mailbox_used h = mailbox_used c" "is_memory_size h = of_nat (length mem)" "is_reserved h = 0" "is_padding h = 0"
    "is_payload_crc32c h = object_crc32c (Some (frames ms @ mem)) (length (frames ms) + length mem)"
    by (simp_all add: h_def INSTANCE_STATE_MAGIC_def u(1) del: length_concat)
  have "component_mailbox_validate (frames ms @ mem) (length (frames ms))"
    using mailbox_validate_iff [of "length (frames ms)" "frames ms @ mem"] u(2) slots
    by (auto simp del: length_concat)
  then show "instance_state_bytes_validate (Some (encode_instance_header h @ frames ms @ mem))
      (64 + length (frames ms) + length mem)"
    using len u ms unfolding instance_state_bytes_validate_def
    by (simp add: instance_fields [OF len, unfolded dec] hf Let_def del: length_concat)
qed

text \<open>The serialised state, read back into any component.\<close>

lemma deserialize_result:
  fixes c :: "'i component"
  assumes "mailbox_holds c ms" "\<forall>msg\<in>set ms. slot_valid (fst msg)"
    "length mem + 4160 < 2 ^ 64" "64 + unat (mailbox_used c) + length mem \<le> capacity"
  obtains bs where "instance_state_serialize c (Some mem) (length mem) capacity = Some bs"
    "instance_state_header_validate (Some bs) (length bs) = Some (64 + length (frames ms), length mem)"
    "length bs = 64 + length (frames ms) + length mem"
    "\<And>(c2 :: 'i component) mem2. instance_state_deserialize c2 (Some mem2) (length mem2) (Some bs) (length bs) =
      (if length mem > length mem2 then None
       else Some (c2\<lparr>mailbox := frames ms @ replicate (4096 - length (frames ms)) 0, mailbox_used := mailbox_used c,
                     logical_time := logical_time c, timer_deadline := timer_deadline c,
                     timer_armed := (if timer_armed c \<noteq> 0 then 1 else 0)\<rparr>,
                  mem @ replicate (length mem2 - length mem) 0))"
proof -
  have u: "unat (mailbox_used c) = length (frames ms)" "length (frames ms) \<le> 4096"
    using assms(1) by (auto simp: mailbox_holds_def)
  define h where "h = \<lparr>is_magic = INSTANCE_STATE_MAGIC, is_format_version = 1, is_header_size = 64,
                 is_logical_time = logical_time c, is_timer_deadline = timer_deadline c,
                 is_timer_armed = (if timer_armed c \<noteq> 0 then 1 else 0), is_mailbox_used = mailbox_used c,
                 is_memory_size = of_nat (length mem),
                 is_payload_crc32c = object_crc32c (Some (frames ms @ mem)) (unat (mailbox_used c) + length mem),
                 is_reserved = 0, is_padding = 0\<rparr>"
  note r = serialize_result [OF assms, folded h_def]
  let ?bs = "encode_instance_header h @ frames ms @ mem"
  have len: "length (encode_instance_header h) = 64" by (simp add: instance_header_codec.enc_length)
  have dec: "decode_instance_header (take 64 ?bs) = h" using len by (simp add: instance_header_codec.dec_enc)
  have hf: "is_mailbox_used h = mailbox_used c" "unat (is_memory_size h) = length mem" "is_logical_time h = logical_time c"
    "is_timer_deadline h = timer_deadline c" "is_timer_armed h = (if timer_armed c \<noteq> 0 then 1 else 0)"
    using assms(3) by (simp_all add: h_def unat_of_nat)
  have v: "instance_state_header_validate (Some ?bs) (length ?bs) = Some (64 + length (frames ms), length mem)"
    using r(2) len unfolding instance_state_header_validate_def Let_def option.sel dec hf u(1)
    by (simp add: add.assoc del: length_concat)
  have sl: "bslice 64 (length (frames ms)) ?bs = frames ms" "bslice (64 + length (frames ms)) (length mem) ?bs = mem"
    using len by (simp_all add: bslice_def del: length_concat)
  have d: "instance_state_deserialize c2 (Some mem2) (length mem2) (Some ?bs) (length ?bs) =
      (if length mem > length mem2 then None
       else Some (c2\<lparr>mailbox := frames ms @ replicate (4096 - length (frames ms)) 0, mailbox_used := mailbox_used c,
                     logical_time := logical_time c, timer_deadline := timer_deadline c,
                     timer_armed := (if timer_armed c \<noteq> 0 then 1 else 0)\<rparr>,
                  mem @ replicate (length mem2 - length mem) 0))" for c2 :: "'i component" and mem2
    unfolding instance_state_deserialize_def v option.case prod.case Let_def option.sel dec hf u(1) sl by simp
  show thesis by (rule that [OF r(1) v _ d]) (simp add: len del: length_concat)
qed

text \<open>
  C25: serialising the state of a component and restoring it gives back the messages of the
  mailbox, the logical clock, the timer, with its flag as 0 or 1, and the linear memory, followed by zeros when the new
  memory is larger; a memory that is smaller than the saved one is refused.
\<close>

theorem instance_state_round_trip:
  fixes c :: "'i component"
  assumes "mailbox_holds c ms" "\<forall>msg\<in>set ms. slot_valid (fst msg)"
    "length mem + 4160 < 2 ^ 64" "64 + unat (mailbox_used c) + length mem \<le> capacity"
  shows "\<exists>bs. instance_state_serialize c (Some mem) (length mem) capacity = Some bs \<and>
    (\<forall>(c2 :: 'i component) mem2. instance_state_deserialize c2 (Some mem2) (length mem2) (Some bs) (length bs) =
      (if length mem > length mem2 then None
       else Some (c2\<lparr>mailbox := frames ms @ replicate (4096 - length (frames ms)) 0, mailbox_used := mailbox_used c,
                     logical_time := logical_time c, timer_deadline := timer_deadline c,
                     timer_armed := (if timer_armed c \<noteq> 0 then 1 else 0)\<rparr>,
                  mem @ replicate (length mem2 - length mem) 0))) \<and>
    (\<forall>(c2 :: 'i component) c3 mem2 mem3. instance_state_deserialize c2 (Some mem2) (length mem2) (Some bs) (length bs) = Some (c3, mem3) \<longrightarrow>
      mailbox_holds c3 ms)"
proof -
  have u: "unat (mailbox_used c) = length (frames ms)" "length (frames ms) \<le> 4096"
    using assms(1) by (auto simp: mailbox_holds_def)
  obtain bs where bs: "instance_state_serialize c (Some mem) (length mem) capacity = Some bs"
    and d: "\<And>(c2 :: 'i component) mem2. instance_state_deserialize c2 (Some mem2) (length mem2) (Some bs) (length bs) =
      (if length mem > length mem2 then None
       else Some (c2\<lparr>mailbox := frames ms @ replicate (4096 - length (frames ms)) 0, mailbox_used := mailbox_used c,
                     logical_time := logical_time c, timer_deadline := timer_deadline c,
                     timer_armed := (if timer_armed c \<noteq> 0 then 1 else 0)\<rparr>,
                  mem @ replicate (length mem2 - length mem) 0))"
    by (rule deserialize_result [OF assms], rule that)
  show ?thesis
  proof (intro exI [of _ bs] conjI allI impI)
    show "instance_state_serialize c (Some mem) (length mem) capacity = Some bs" by (rule bs)
  next
    fix c2 c3 :: "'i component" and mem2 mem3
    assume "instance_state_deserialize c2 (Some mem2) (length mem2) (Some bs) (length bs) = Some (c3, mem3)"
    then show "mailbox_holds c3 ms" using u unfolding d
      by (auto simp: mailbox_holds_def simp del: length_concat split: if_splits)
  qed (rule d)
qed

theorem instance_state_round_trip_witness:
  "\<exists>bs. instance_state_serialize sample_component (Some [7, 8]) 2 100 = Some bs \<and>
     map_option snd (instance_state_deserialize sample_component (Some [0, 0, 9]) 3 (Some bs) (length bs)) = Some [7, 8, 0] \<and>
     instance_state_deserialize sample_component (Some [0]) 1 (Some bs) (length bs) = None"
proof -
  have "64 + unat (mailbox_used sample_component) + length [7, 8 :: u8] \<le> 100" by (simp add: sample_component_def)
  from instance_state_round_trip [OF sample_mailbox _ _ this] obtain bs where
    bs: "instance_state_serialize sample_component (Some [7, 8]) (length [7, 8 :: u8]) 100 = Some bs"
    and d: "\<forall>(c2 :: unit component) mem2. instance_state_deserialize c2 (Some mem2) (length mem2) (Some bs) (length bs) =
      (if length [7, 8 :: u8] > length mem2 then None
       else Some (c2\<lparr>mailbox := frames [] @ replicate (4096 - length (frames [])) 0, mailbox_used := mailbox_used sample_component,
                     logical_time := logical_time sample_component, timer_deadline := timer_deadline sample_component,
                     timer_armed := (if timer_armed sample_component \<noteq> 0 then 1 else 0)\<rparr>,
                  [7, 8] @ replicate (length mem2 - length [7, 8 :: u8]) 0))"
    by auto
  show ?thesis
    using bs d [rule_format, of sample_component "[0, 0, 9]"] d [rule_format, of sample_component "[0]"]
    by (auto simp: numeral_eq_Suc)
qed

end
