(* ===== verification/Provenance.thy ===== *)
theory Provenance
  imports Object_Id
begin

text \<open>
  The provenance ledger, \<^verbatim>\<open>kernel/cap/provenance.{h,c}\<close>: for each of up to 32 objects
  the last eight operations on it, in a ring. A result of type \<open>int32_t\<close> is its 32-bit pattern.
\<close>

section \<open>State and operations\<close>

abbreviation PROVENANCE_OBJECTS :: nat where "PROVENANCE_OBJECTS \<equiv> 32"
abbreviation PROVENANCE_EVENTS :: nat where "PROVENANCE_EVENTS \<equiv> 8"

definition PROVENANCE_READ :: u32 where "PROVENANCE_READ = 1"
definition PROVENANCE_CREATE :: u32 where "PROVENANCE_CREATE = 6"

record provenance_event =
  ev_component :: object_id
  ev_logical_time :: u64
  ev_operation :: u32
  ev_result :: u32

record provenance_bucket =
  bk_object :: object_id
  bk_count :: u32
  bk_next :: u32
  bk_events :: "provenance_event list"

record provenance_ledger =
  ledger_objects :: "provenance_bucket list"

definition zero_event :: provenance_event where
  "zero_event = \<lparr>ev_component = zero_id, ev_logical_time = 0, ev_operation = 0, ev_result = 0\<rparr>"

definition zero_bucket :: provenance_bucket where
  "zero_bucket = \<lparr>bk_object = zero_id, bk_count = 0, bk_next = 0, bk_events = replicate PROVENANCE_EVENTS zero_event\<rparr>"

definition zero_ledger :: provenance_ledger where
  "zero_ledger = \<lparr>ledger_objects = replicate PROVENANCE_OBJECTS zero_bucket\<rparr>"

text \<open>
  The search of \<open>provenance_append\<close> from index \<open>i\<close> on; \<open>bucket\<close> is the first free bucket
  passed so far. It stops at the bucket of the object.
\<close>

fun bucket_loop :: "provenance_bucket list \<Rightarrow> object_id \<Rightarrow> nat \<Rightarrow> nat option \<Rightarrow> nat option" where
  "bucket_loop [] object i bucket = bucket"
| "bucket_loop (b # bs) object i bucket =
     (if object_id_equal (bk_object b) object then Some i
      else bucket_loop bs object (i + 1)
             (if bucket = None \<and> object_id_is_zero (bk_object b) then Some i else bucket))"

definition provenance_append ::
    "provenance_ledger \<Rightarrow> object_id \<Rightarrow> object_id \<Rightarrow> u64 \<Rightarrow> u32 \<Rightarrow> u32 \<Rightarrow> provenance_ledger option" where
  "provenance_append ledger object component time operation result =
     (if object_id_is_zero object \<or> object_id_is_zero component \<or>
         operation < PROVENANCE_READ \<or> operation > PROVENANCE_CREATE then None
      else case bucket_loop (ledger_objects ledger) object 0 None of
        None \<Rightarrow> None
      | Some i \<Rightarrow>
          let bucket = ledger_objects ledger ! i in
          if unat (bk_count bucket) > PROVENANCE_EVENTS \<or> unat (bk_next bucket) \<ge> PROVENANCE_EVENTS then None
          else Some (ledger\<lparr>ledger_objects := (ledger_objects ledger)
                 [i := \<lparr>bk_object = object,
                        bk_count = (if unat (bk_count bucket) < PROVENANCE_EVENTS then bk_count bucket + 1 else bk_count bucket),
                        bk_next = (bk_next bucket + 1) mod 8,
                        bk_events = (bk_events bucket)[unat (bk_next bucket) :=
                          \<lparr>ev_component = component, ev_logical_time = time, ev_operation = operation, ev_result = result\<rparr>]\<rparr>]\<rparr>))"

definition provenance_query :: "provenance_ledger \<Rightarrow> object_id \<Rightarrow> u32 \<Rightarrow> provenance_event option" where
  "provenance_query ledger object age =
     (if unat age \<ge> PROVENANCE_EVENTS then None
      else case List.find (\<lambda>b. object_id_equal (bk_object b) object) (ledger_objects ledger) of
        None \<Rightarrow> None
      | Some b \<Rightarrow>
          if unat (bk_count b) > PROVENANCE_EVENTS \<or> age \<ge> bk_count b \<or> unat (bk_next b) \<ge> PROVENANCE_EVENTS then None
          else Some (bk_events b ! unat ((bk_next b + 8 - age - 1) mod 8)))"

section \<open>The ring of a bucket\<close>

definition bucket_ok :: "provenance_bucket \<Rightarrow> bool" where
  "bucket_ok b \<longleftrightarrow> length (bk_events b) = PROVENANCE_EVENTS \<and> unat (bk_count b) \<le> PROVENANCE_EVENTS \<and>
     unat (bk_next b) < PROVENANCE_EVENTS \<and> (unat (bk_count b) < PROVENANCE_EVENTS \<longrightarrow> bk_next b = bk_count b)"

text \<open>The events of a bucket, the latest first.\<close>

definition bucket_history :: "provenance_bucket \<Rightarrow> provenance_event list" where
  "bucket_history b = map (\<lambda>k. bk_events b ! ((unat (bk_next b) + 7 - k) mod 8)) [0..<unat (bk_count b)]"

lemma length_history [simp]: "length (bucket_history b) = unat (bk_count b)"
  by (simp add: bucket_history_def)

lemma nth_history:
  "k < unat (bk_count b) \<Longrightarrow> bucket_history b ! k = bk_events b ! ((unat (bk_next b) + 7 - k) mod 8)"
  by (simp add: bucket_history_def)

definition push_event :: "object_id \<Rightarrow> provenance_event \<Rightarrow> provenance_bucket \<Rightarrow> provenance_bucket" where
  "push_event object e b =
     \<lparr>bk_object = object, bk_count = (if unat (bk_count b) < PROVENANCE_EVENTS then bk_count b + 1 else bk_count b),
      bk_next = (bk_next b + 1) mod 8, bk_events = (bk_events b)[unat (bk_next b) := e]\<rparr>"

lemma push_event_fields:
  assumes "bucket_ok b"
  shows "unat (bk_count (push_event o' e b)) = min 8 (unat (bk_count b) + 1)"
    "unat (bk_next (push_event o' e b)) = (unat (bk_next b) + 1) mod 8"
proof -
  have b: "unat (bk_count b) \<le> 8" "unat (bk_next b) < 8" using assms by (auto simp: bucket_ok_def)
  have "unat (bk_next b + 1) = unat (bk_next b) + 1" using b(2) by (simp add: unat_word_ariths)
  then show "unat (bk_next (push_event o' e b)) = (unat (bk_next b) + 1) mod 8"
    by (simp add: push_event_def unat_mod)
  have "unat (bk_count b + 1) = unat (bk_count b) + 1" using b(1) by (simp add: unat_word_ariths)
  then show "unat (bk_count (push_event o' e b)) = min 8 (unat (bk_count b) + 1)"
    using b(1) by (auto simp: push_event_def)
qed

lemma push_event_ok:
  assumes ok: "bucket_ok b"
  shows "bucket_ok (push_event o' e b)"
proof -
  note f = push_event_fields [OF ok, of o' e]
  have b: "unat (bk_count b) \<le> 8" "unat (bk_next b) < 8" "unat (bk_count b) < 8 \<longrightarrow> bk_next b = bk_count b"
    using ok by (auto simp: bucket_ok_def)
  have "bk_next (push_event o' e b) = bk_count (push_event o' e b)" if "unat (bk_count (push_event o' e b)) < 8"
  proof -
    have "unat (bk_count b) < 7" using that f(1) by linarith
    then show ?thesis using b f by (intro word_unat_eq_iff [THEN iffD2]) auto
  qed
  moreover have "length (bk_events (push_event o' e b)) = 8" using ok by (simp add: push_event_def bucket_ok_def)
  ultimately show ?thesis using f by (auto simp: bucket_ok_def)
qed

lemma ring_index:
  assumes "n < (8 :: nat)" "j < 7"
  shows "((n + 1) mod 8 + 7 - Suc j) mod 8 = (n + 7 - j) mod 8" "(n + 7 - j) mod 8 \<noteq> n"
proof -
  have d: "n + 7 - j = n + (7 - j)" "0 < 7 - j" "7 - j < 8" using assms by auto
  show "(n + 7 - j) mod 8 \<noteq> n"
    using assms(1) d(2,3) unfolding d(1) by (cases "n + (7 - j) < 8") (auto simp: mod_if)
  show "((n + 1) mod 8 + 7 - Suc j) mod 8 = (n + 7 - j) mod 8"
  proof (cases "n = 7")
    case True
    have "(n + 7 - j) mod 8 = (8 + (6 - j)) mod 8" using True assms(2) by simp
    also have "\<dots> = (6 - j) mod 8" by (rule mod_add_self1)
    finally show ?thesis using True by simp
  next
    case False
    then have "(n + 1) mod 8 = n + 1" using assms(1) by simp
    then show ?thesis by (simp add: add.commute)
  qed
qed

lemma push_event_history:
  assumes ok: "bucket_ok b"
  shows "bucket_history (push_event o' e b) = take PROVENANCE_EVENTS (e # bucket_history b)"
proof (rule nth_equalityI)
  note f = push_event_fields [OF ok, of o' e]
  let ?n = "unat (bk_next b)" and ?c = "unat (bk_count b)"
  have b: "?c \<le> 8" "?n < 8" "length (bk_events b) = 8" using ok by (auto simp: bucket_ok_def)
  show len: "length (bucket_history (push_event o' e b)) = length (take PROVENANCE_EVENTS (e # bucket_history b))"
    using f(1) by simp
  fix k assume k: "k < length (bucket_history (push_event o' e b))"
  then have kc: "k < min 8 (?c + 1)" using f(1) by simp
  have ev: "bk_events (push_event o' e b) = (bk_events b)[?n := e]" by (simp add: push_event_def)
  have h: "bucket_history (push_event o' e b) ! k = (bk_events b)[?n := e] ! (((?n + 1) mod 8 + 7 - k) mod 8)"
    using k nth_history [of k "push_event o' e b"] by (simp add: ev f(2))
  show "bucket_history (push_event o' e b) ! k = take PROVENANCE_EVENTS (e # bucket_history b) ! k"
  proof (cases k)
    case 0
    have "((?n + 1) mod 8 + 7) mod 8 = ?n" using b(2) by presburger
    then show ?thesis using h b 0 by simp
  next
    case (Suc j)
    have j: "j < ?c" "j < 7" using kc Suc by auto
    note r = ring_index [OF b(2) j(2)]
    have "bucket_history (push_event o' e b) ! k = (bk_events b)[?n := e] ! ((?n + 7 - j) mod 8)"
      using h unfolding Suc r(1) .
    then show ?thesis using r(2) j Suc by (simp add: nth_history nth_list_update')
  qed
qed

section \<open>The ledger\<close>

text \<open>Well-formed rings, at most one bucket per object, and free buckets empty.\<close>

definition ledger_ok :: "provenance_ledger \<Rightarrow> bool" where
  "ledger_ok l \<longleftrightarrow> length (ledger_objects l) = PROVENANCE_OBJECTS \<and> (\<forall>b\<in>set (ledger_objects l). bucket_ok b) \<and>
     (\<forall>i<PROVENANCE_OBJECTS. \<forall>j<PROVENANCE_OBJECTS. bk_object (ledger_objects l ! i) = bk_object (ledger_objects l ! j) \<longrightarrow>
        bk_object (ledger_objects l ! i) \<noteq> zero_id \<longrightarrow> i = j) \<and>
     (\<forall>b\<in>set (ledger_objects l). bk_object b = zero_id \<longrightarrow> bk_count b = 0)"

definition history :: "provenance_ledger \<Rightarrow> object_id \<Rightarrow> provenance_event list" where
  "history l object = (case List.find (\<lambda>b. bk_object b = object) (ledger_objects l) of None \<Rightarrow> [] | Some b \<Rightarrow> bucket_history b)"

text \<open>An object has a bucket, or there is a free one for it.\<close>

definition has_room :: "provenance_ledger \<Rightarrow> object_id \<Rightarrow> bool" where
  "has_room l object \<longleftrightarrow> object \<in> bk_object ` set (ledger_objects l) \<or> zero_id \<in> bk_object ` set (ledger_objects l)"

lemma bucket_loop_Some:
  "bucket_loop bs object i bucket = Some k \<Longrightarrow>
     (\<exists>j<length bs. k = i + j \<and> bk_object (bs ! j) = object) \<or>
     object \<notin> bk_object ` set bs \<and> (bucket = Some k \<or> (\<exists>j<length bs. k = i + j \<and> bk_object (bs ! j) = zero_id))"
proof (induction bs arbitrary: i bucket)
  case (Cons b bs)
  show ?case
  proof (cases "bk_object b = object")
    case True
    then show ?thesis using Cons.prems by auto
  next
    case False
    let ?bucket = "if bucket = None \<and> bk_object b = zero_id then Some i else bucket"
    have shift: "\<exists>j<length (b # bs). k = i + j \<and> bk_object ((b # bs) ! j) = x"
      if "\<exists>j<length bs. k = i + 1 + j \<and> bk_object (bs ! j) = x" for x
      using that by (auto intro: exI [of _ "Suc _"])
    have "bucket_loop bs object (i + 1) ?bucket = Some k" using Cons.prems False by (simp add: object_id_is_zero_eq)
    from Cons.IH [OF this] shift [of object] shift [of zero_id] False show ?thesis
      by (auto split: if_splits)
  qed
qed simp

lemma bucket_loop_None:
  "bucket_loop bs object i bucket = None \<longleftrightarrow>
     bucket = None \<and> object \<notin> bk_object ` set bs \<and> zero_id \<notin> bk_object ` set bs"
  by (induction bs arbitrary: i bucket) (auto simp: object_id_is_zero_eq)

lemma ledger_unique:
  "ledger_ok l \<Longrightarrow> i < PROVENANCE_OBJECTS \<Longrightarrow> j < PROVENANCE_OBJECTS \<Longrightarrow>
   bk_object (ledger_objects l ! i) = bk_object (ledger_objects l ! j) \<Longrightarrow> bk_object (ledger_objects l ! i) \<noteq> zero_id \<Longrightarrow> i = j"
  unfolding ledger_ok_def by blast

lemma find_nth_history:
  assumes ok: "ledger_ok l" and i: "i < PROVENANCE_OBJECTS" "bk_object (ledger_objects l ! i) = object" "object \<noteq> zero_id"
  shows "history l object = bucket_history (ledger_objects l ! i)"
proof -
  have len: "length (ledger_objects l) = 32" using ok by (simp add: ledger_ok_def)
  have "ledger_objects l ! i \<in> set (ledger_objects l)" using i(1) len by simp
  then have "List.find (\<lambda>b. bk_object b = object) (ledger_objects l) \<noteq> None" using i(2) by (auto simp: find_None_iff)
  then obtain b where "List.find (\<lambda>b. bk_object b = object) (ledger_objects l) = Some b" by blast
  then obtain j where j: "j < 32" "bk_object (ledger_objects l ! j) = object"
    "List.find (\<lambda>b. bk_object b = object) (ledger_objects l) = Some (ledger_objects l ! j)"
    using len by (auto simp: find_Some_iff)
  then have "j = i" using ledger_unique [OF ok j(1) i(1)] i(2,3) by simp
  then show ?thesis using j(3) by (simp add: history_def)
qed

lemma history_none:
  "object \<notin> bk_object ` set (ledger_objects l) \<Longrightarrow> history l object = []"
  by (auto simp: history_def find_None_iff split: option.splits dest!: find_Some_iff [THEN iffD1])

definition event_valid :: "object_id \<Rightarrow> provenance_event \<Rightarrow> bool" where
  "event_valid object e \<longleftrightarrow> object \<noteq> zero_id \<and> ev_component e \<noteq> zero_id \<and>
     PROVENANCE_READ \<le> ev_operation e \<and> ev_operation e \<le> PROVENANCE_CREATE"

abbreviation append_event :: "provenance_ledger \<Rightarrow> object_id \<Rightarrow> provenance_event \<Rightarrow> provenance_ledger option" where
  "append_event l object e \<equiv>
     provenance_append l object (ev_component e) (ev_logical_time e) (ev_operation e) (ev_result e)"

lemma event_eta: "\<lparr>ev_component = ev_component e, ev_logical_time = ev_logical_time e, ev_operation = ev_operation e,
    ev_result = ev_result e\<rparr> = e"
  by simp

lemma ledger_update_ok:
  assumes ok: "ledger_ok l" and i: "i < PROVENANCE_OBJECTS" "object \<noteq> zero_id"
    and fresh: "\<And>j. j < PROVENANCE_OBJECTS \<Longrightarrow> bk_object (ledger_objects l ! j) = object \<Longrightarrow> j = i"
    and b: "bucket_ok b" "bk_object b = object"
  shows "ledger_ok (l\<lparr>ledger_objects := (ledger_objects l)[i := b]\<rparr>)"
proof -
  have len: "length (ledger_objects l) = 32" using ok by (simp add: ledger_ok_def)
  have "\<forall>x\<in>set ((ledger_objects l)[i := b]). bucket_ok x \<and> (bk_object x = zero_id \<longrightarrow> bk_count x = 0)"
    using ok b i(2) set_update_subset_insert [of "ledger_objects l" i b] by (auto simp: ledger_ok_def)
  moreover have "j = k" if "j < 32" "k < 32" "bk_object ((ledger_objects l)[i := b] ! j) = bk_object ((ledger_objects l)[i := b] ! k)"
      "bk_object ((ledger_objects l)[i := b] ! j) \<noteq> zero_id" for j k
    using that fresh [of j] fresh [of k] ledger_unique [OF ok that(1,2)] b(2) len i(1)
    by (auto simp: nth_list_update split: if_splits)
  ultimately show ?thesis using len by (simp add: ledger_ok_def)
qed

text \<open>What an accepted event does to the histories.\<close>

lemma append_result:
  assumes ok: "ledger_ok l" and v: "event_valid object e"
  shows "if has_room l object
    then \<exists>l'. append_event l object e = Some l' \<and> ledger_ok l' \<and>
      history l' object = take PROVENANCE_EVENTS (e # history l object) \<and>
      bk_object ` set (ledger_objects l') \<subseteq> insert object (bk_object ` set (ledger_objects l)) \<and>
      (\<forall>other. other \<noteq> object \<longrightarrow> other \<noteq> zero_id \<longrightarrow> history l' other = history l other)
    else append_event l object e = None"
proof -
  let ?bs = "ledger_objects l"
  have len: "length ?bs = 32" using ok by (simp add: ledger_ok_def)
  have nz: "object \<noteq> zero_id" using v by (simp add: event_valid_def)
  have guard: "\<not> (object_id_is_zero object \<or> object_id_is_zero (ev_component e) \<or> ev_operation e < PROVENANCE_READ \<or>
      ev_operation e > PROVENANCE_CREATE)"
    using v by (auto simp: event_valid_def object_id_is_zero_eq not_less)
  show ?thesis
  proof (cases "bucket_loop ?bs object 0 None")
    case None
    then have "\<not> has_room l object" by (simp add: bucket_loop_None has_room_def)
    then show ?thesis using None guard by (simp add: provenance_append_def)
  next
    case (Some i)
    then have room: "has_room l object" using bucket_loop_None [of ?bs object 0 None] by (auto simp: has_room_def)
    from bucket_loop_Some [OF Some] have i: "i < 32" and
      at: "bk_object (?bs ! i) = object \<or> object \<notin> bk_object ` set ?bs \<and> bk_object (?bs ! i) = zero_id"
      using len by auto
    let ?b = "?bs ! i"
    have inset: "?b \<in> set ?bs" using i len by simp
    then have b: "bucket_ok ?b" using ok by (simp add: ledger_ok_def)
    define l' where "l' = l\<lparr>ledger_objects := ?bs[i := push_event object e ?b]\<rparr>"
    have app: "append_event l object e = Some l'"
      using guard Some b by (simp add: provenance_append_def l'_def push_event_def Let_def bucket_ok_def event_eta)
    have fresh: "j = i" if j: "j < 32" "bk_object (?bs ! j) = object" for j
      using at ledger_unique [OF ok j(1) i] j nz len nth_mem [of j ?bs] by (metis imageI)
    have ok': "ledger_ok l'" unfolding l'_def
      by (rule ledger_update_ok [OF ok i nz fresh push_event_ok [OF b]]) (simp_all add: push_event_def)
    have hist: "history l object = bucket_history ?b"
    proof (cases "bk_object ?b = object")
      case True
      then show ?thesis using find_nth_history [OF ok i] nz by simp
    next
      case False
      then have "bk_count ?b = 0" "object \<notin> bk_object ` set ?bs" using at ok inset by (auto simp: ledger_ok_def)
      then show ?thesis using history_none by (simp add: bucket_history_def)
    qed
    have "history l' object = bucket_history (push_event object e ?b)"
      using find_nth_history [OF ok' i, of object] nz len i by (simp add: l'_def push_event_def)
    then have "history l' object = take PROVENANCE_EVENTS (e # history l object)"
      using push_event_history [OF b] hist by simp
    moreover have "history l' other = history l other" if other: "other \<noteq> object" "other \<noteq> zero_id" for other
    proof (cases "other \<in> bk_object ` set ?bs")
      case True
      then obtain j where j: "j < 32" "bk_object (?bs ! j) = other" using len by (auto simp: in_set_conv_nth)
      then have "j \<noteq> i" using at other by auto
      then show ?thesis using find_nth_history [OF ok j] find_nth_history [OF ok' j(1)] j other(2) by (simp add: l'_def)
    next
      case False
      then have "other \<notin> bk_object ` set (ledger_objects l')"
        using other(1) set_update_subset_insert [of ?bs i "push_event object e ?b"] by (auto simp: l'_def push_event_def)
      then show ?thesis using False by (simp add: history_none)
    qed
    moreover have "bk_object ` set (ledger_objects l') \<subseteq> insert object (bk_object ` set ?bs)"
      using set_update_subset_insert [of ?bs i "push_event object e ?b"] by (auto simp: l'_def push_event_def)
    ultimately show ?thesis using room app ok' by auto
  qed
qed

lemma query_result:
  assumes ok: "ledger_ok l" and nz: "object \<noteq> zero_id"
  shows "provenance_query l object age =
    (if unat age < length (history l object) then Some (history l object ! unat age) else None)"
proof (cases "List.find (\<lambda>b. bk_object b = object) (ledger_objects l)")
  case None
  then show ?thesis by (simp add: provenance_query_def history_def)
next
  case (Some b)
  then have "b \<in> set (ledger_objects l)" by (auto simp: find_Some_iff)
  then have b: "unat (bk_count b) \<le> 8" "unat (bk_next b) < 8" using ok by (auto simp: ledger_ok_def bucket_ok_def)
  have "unat ((bk_next b + 8 - age - 1) mod 8) = (unat (bk_next b) + 7 - unat age) mod 8" if a: "unat age < 8"
  proof -
    have "unat (bk_next b + 8) = unat (bk_next b) + 8" using b(2) by (simp add: unat_word_ariths)
    then have x: "unat (bk_next b + 8 - age) = unat (bk_next b) + 8 - unat age" using a by (simp add: unat_sub word_le_unat)
    have "unat (y - 1) = unat y - 1" if "0 < unat y" for y :: u32
      using that by (simp add: unat_sub word_le_unat)
    from this [of "bk_next b + 8 - age"] have "unat (bk_next b + 8 - age - 1) = unat (bk_next b) + 7 - unat age"
      using a unfolding x by linarith
    then show ?thesis by (simp add: unat_mod)
  qed
  then show ?thesis using Some b by (auto simp: provenance_query_def history_def nth_history word_le_unat)
qed

section \<open>Recording a sequence of events\<close>

abbreviation record_events :: "(object_id \<times> provenance_event) list \<Rightarrow> provenance_ledger option" where
  "record_events es \<equiv> fold_opt (\<lambda>l oe. append_event l (fst oe) (snd oe)) zero_ledger es"

definition events_of :: "object_id \<Rightarrow> (object_id \<times> provenance_event) list \<Rightarrow> provenance_event list" where
  "events_of object es = map snd (filter (\<lambda>oe. fst oe = object) (rev es))"

lemma no_room_full:
  assumes ok: "ledger_ok l" and "\<not> has_room l object"
  shows "card (bk_object ` set (ledger_objects l)) = PROVENANCE_OBJECTS" "object \<notin> bk_object ` set (ledger_objects l)"
proof -
  have len: "length (ledger_objects l) = 32" using ok by (simp add: ledger_ok_def)
  have nz: "bk_object (ledger_objects l ! i) \<noteq> zero_id" if "i < 32" for i
  proof -
    have "bk_object (ledger_objects l ! i) \<in> bk_object ` set (ledger_objects l)" using that len by simp
    then show ?thesis using assms(2) by (auto simp: has_room_def)
  qed
  have "inj_on (\<lambda>i. bk_object (ledger_objects l ! i)) {..<32}"
    using ledger_unique [OF ok] nz by (auto intro!: inj_onI)
  moreover have "bk_object ` set (ledger_objects l) = (\<lambda>i. bk_object (ledger_objects l ! i)) ` {..<32}"
    using len by (auto simp: set_conv_nth)
  ultimately show "card (bk_object ` set (ledger_objects l)) = PROVENANCE_OBJECTS" by (simp add: card_image)
  show "object \<notin> bk_object ` set (ledger_objects l)" using assms(2) by (simp add: has_room_def)
qed

lemma record_events_result:
  assumes "\<forall>oe\<in>set es. event_valid (fst oe) (snd oe)" "card (fst ` set es) \<le> PROVENANCE_OBJECTS"
  shows "\<exists>l. record_events es = Some l \<and> ledger_ok l \<and>
    bk_object ` set (ledger_objects l) \<subseteq> insert zero_id (fst ` set es) \<and>
    (\<forall>object. object \<noteq> zero_id \<longrightarrow> history l object = take PROVENANCE_EVENTS (events_of object es))"
  using assms
proof (induction es rule: rev_induct)
  case Nil
  have "ledger_ok zero_ledger" by (simp add: ledger_ok_def zero_ledger_def zero_bucket_def bucket_ok_def)
  moreover have "history zero_ledger object = []" if "object \<noteq> zero_id" for object
    using that by (intro history_none) (auto simp: zero_ledger_def zero_bucket_def)
  ultimately show ?case by (auto simp: events_of_def zero_ledger_def zero_bucket_def)
next
  case (snoc oe es)
  obtain object e where oe: "oe = (object, e)" by force
  have c: "card (fst ` set es) \<le> 32"
    using snoc.prems(2) card_mono [of "insert (fst oe) (fst ` set es)" "fst ` set es"] by (auto intro: le_trans)
  from snoc.IH [OF _ c] snoc.prems(1) obtain l where l: "record_events es = Some l" "ledger_ok l"
    "bk_object ` set (ledger_objects l) \<subseteq> insert zero_id (fst ` set es)"
    "\<forall>x. x \<noteq> zero_id \<longrightarrow> history l x = take PROVENANCE_EVENTS (events_of x es)"
    by auto
  have v: "event_valid object e" using snoc.prems(1) oe by simp
  have "has_room l object"
  proof (rule ccontr)
    assume n: "\<not> has_room l object"
    note full = no_room_full [OF l(2) n]
    have "zero_id \<notin> bk_object ` set (ledger_objects l)" using n by (simp add: has_room_def)
    from iffD1 [OF subset_insert [OF this] l(3)] have "bk_object ` set (ledger_objects l) \<subseteq> fst ` set es" .
    then have "insert object (bk_object ` set (ledger_objects l)) \<subseteq> fst ` set (es @ [oe])" using oe by auto
    then have "card (insert object (bk_object ` set (ledger_objects l))) \<le> 32"
      using snoc.prems(2) card_mono [of "fst ` set (es @ [oe])"] by (meson List.finite_set finite_imageI le_trans)
    then show False using full by simp
  qed
  with append_result [OF l(2) v] obtain l' where l': "append_event l object e = Some l'" "ledger_ok l'"
    "history l' object = take PROVENANCE_EVENTS (e # history l object)"
    "bk_object ` set (ledger_objects l') \<subseteq> insert object (bk_object ` set (ledger_objects l))"
    "\<forall>x. x \<noteq> object \<longrightarrow> x \<noteq> zero_id \<longrightarrow> history l' x = history l x"
    by auto
  have "record_events (es @ [oe]) = Some l'" using l(1) l'(1) oe by (simp add: fold_opt_append)
  moreover have "history l' x = take PROVENANCE_EVENTS (events_of x (es @ [oe]))" if "x \<noteq> zero_id" for x
    using that l(4) l'(3,5) v oe by (cases "x = object") (auto simp: events_of_def take_Cons' event_valid_def)
  ultimately show ?case using l'(2,4) l(3) oe by auto
qed

text \<open>
  C26: recording any sequence of valid operations on at most 32 objects succeeds, and a query of
  an object at age \<open>k\<close> returns the \<open>k\<close>-th latest operation recorded for that object, for the
  last eight of them, and nothing beyond.
\<close>

theorem provenance_query_latest:
  assumes "\<forall>oe\<in>set es. event_valid (fst oe) (snd oe)" "card (fst ` set es) \<le> PROVENANCE_OBJECTS" "object \<noteq> zero_id"
  shows "\<exists>l. record_events es = Some l \<and>
    provenance_query l object age =
      (if unat age < PROVENANCE_EVENTS \<and> unat age < length (events_of object es) then Some (events_of object es ! unat age)
       else None)"
proof -
  obtain l where l: "record_events es = Some l" "ledger_ok l" "history l object = take PROVENANCE_EVENTS (events_of object es)"
    using record_events_result [OF assms(1,2)] assms(3) by blast
  show ?thesis using l query_result [OF l(2) assms(3), of age] by auto
qed

abbreviation sample_event :: "u64 \<Rightarrow> provenance_event" where
  "sample_event t \<equiv> \<lparr>ev_component = Object_Id 2 4, ev_logical_time = t, ev_operation = 2, ev_result = 0\<rparr>"

theorem provenance_query_latest_witness:
  "\<exists>l. record_events (map (\<lambda>t. (Object_Id 3 1, sample_event t)) [1, 2, 3, 4, 5, 6, 7, 8, 9, 10]) = Some l \<and>
     provenance_query l (Object_Id 3 1) 7 = Some (sample_event 3)"
  using provenance_query_latest [of "map (\<lambda>t. (Object_Id 3 1, sample_event t)) [1, 2, 3, 4, 5, 6, 7, 8, 9, 10]" "Object_Id 3 1" 7]
  by (simp add: event_valid_def events_of_def PROVENANCE_READ_def PROVENANCE_CREATE_def)

end
