(* ===== verification/Derivation.thy ===== *)
theory Derivation
  imports Cap_Table
begin

text \<open>
  \<^verbatim>\<open>kernel/cap/derivation.{h,c}\<close>: the global graph of derivations between capability
  slots of all components. A reference names a slot by its owner, its index and its
  generation; the table is an array of sixty-four parent-child records of which the first
  \<open>d_count\<close> are in use. The counter is a \<open>nat\<close>: the code compares it with the length of
  the array before it uses it and never lets it pass that length.
\<close>

abbreviation CAP_DERIVATION_MAX :: nat where "CAP_DERIVATION_MAX \<equiv> 64"

record capability_ref =
  component_id :: object_id
  ref_slot :: u32
  ref_generation :: u32

record capability_derivation =
  d_parent :: capability_ref
  d_child :: capability_ref

record capability_derivation_table =
  records :: "capability_derivation list"
  d_count :: nat

section \<open>Operations\<close>

definition capability_ref_is_zero :: "capability_ref \<Rightarrow> bool" where
  "capability_ref_is_zero r \<longleftrightarrow>
     object_id_is_zero (component_id r) \<and> ref_slot r = 0 \<and> ref_generation r = 0"

definition derivation_is_zero :: "capability_derivation \<Rightarrow> bool" where
  "derivation_is_zero d \<longleftrightarrow>
     capability_ref_is_zero (d_parent d) \<and> capability_ref_is_zero (d_child d)"

definition capability_ref_make :: "object_id \<Rightarrow> u32 \<Rightarrow> u32 \<Rightarrow> capability_ref" where
  "capability_ref_make i s g = \<lparr>component_id = i, ref_slot = s, ref_generation = g\<rparr>"

definition capability_ref_is_valid :: "capability_ref \<Rightarrow> bool" where
  "capability_ref_is_valid r \<longleftrightarrow>
     \<not> object_id_is_zero (component_id r) \<and> unat (ref_slot r) < CAP_TABLE_SLOTS \<and>
     ref_generation r \<noteq> 0"

definition capability_ref_equal :: "capability_ref \<Rightarrow> capability_ref \<Rightarrow> bool" where
  "capability_ref_equal l r \<longleftrightarrow>
     object_id_equal (component_id l) (component_id r) \<and> ref_slot l = ref_slot r \<and>
     ref_generation l = ref_generation r"

definition zero_ref :: capability_ref where
  "zero_ref = \<lparr>component_id = zero_id, ref_slot = 0, ref_generation = 0\<rparr>"

definition zero_derivation :: capability_derivation where
  "zero_derivation = \<lparr>d_parent = zero_ref, d_child = zero_ref\<rparr>"

definition capability_derivation_table_init :: capability_derivation_table where
  "capability_derivation_table_init =
     \<lparr>records = replicate CAP_DERIVATION_MAX zero_derivation, d_count = 0\<rparr>"

definition find_child_record :: "capability_derivation_table \<Rightarrow> capability_ref \<Rightarrow> nat option" where
  "find_child_record t child =
     List.find (\<lambda>i. capability_ref_equal (d_child (records t ! i)) child) [0..<d_count t]"

text \<open>
  The walk from the parent of a record towards its root, with the turns left. It fails when it
  meets the record's own child or when the turns run out.
\<close>

fun ancestor_loop ::
    "capability_derivation_table \<Rightarrow> capability_ref \<Rightarrow> capability_ref \<Rightarrow> nat \<Rightarrow> bool" where
  "ancestor_loop t child current 0 = False"
| "ancestor_loop t child current (Suc turns) =
     (if capability_ref_equal current child then False
      else case find_child_record t current of
        None \<Rightarrow> True
      | Some i \<Rightarrow> ancestor_loop t child (d_parent (records t ! i)) turns)"

definition record_is_valid :: "capability_derivation_table \<Rightarrow> nat \<Rightarrow> bool" where
  "record_is_valid t index =
     (let r = records t ! index in
      capability_ref_is_valid (d_parent r) \<and> capability_ref_is_valid (d_child r) \<and>
      \<not> capability_ref_equal (d_parent r) (d_child r) \<and>
      list_all (\<lambda>other. \<not> capability_ref_equal (d_child (records t ! other)) (d_child r)) [0..<index] \<and>
      ancestor_loop t (d_child r) (d_parent r) (d_count t))"

definition capability_derivation_table_is_valid :: "capability_derivation_table \<Rightarrow> bool" where
  "capability_derivation_table_is_valid t =
     (if d_count t > CAP_DERIVATION_MAX then False
      else list_all (\<lambda>i. derivation_is_zero (records t ! i)) [d_count t..<CAP_DERIVATION_MAX] \<and>
           list_all (record_is_valid t) [0..<d_count t])"

text \<open>The result and the table after the call: a refused link is taken back.\<close>

definition capability_derivation_add ::
    "capability_derivation_table \<Rightarrow> capability_ref \<Rightarrow> capability_ref \<Rightarrow>
     bool \<times> capability_derivation_table" where
  "capability_derivation_add t parent child =
     (if \<not> capability_derivation_table_is_valid t \<or> \<not> capability_ref_is_valid parent \<or>
         \<not> capability_ref_is_valid child \<or> capability_ref_equal parent child \<or>
         d_count t = CAP_DERIVATION_MAX \<or> find_child_record t child \<noteq> None
      then (False, t)
      else let t1 = t\<lparr>records := (records t)[d_count t := \<lparr>d_parent = parent, d_child = child\<rparr>],
                      d_count := d_count t + 1\<rparr>
        in if \<not> capability_derivation_table_is_valid t1
           then (False, t1\<lparr>d_count := d_count t1 - 1,
                           records := (records t1)[d_count t1 - 1 := zero_derivation]\<rparr>)
           else (True, t1))"

definition capability_derivation_parent ::
    "capability_derivation_table \<Rightarrow> capability_ref \<Rightarrow> capability_ref option" where
  "capability_derivation_parent t child =
     (if \<not> capability_ref_is_valid child \<or> \<not> capability_derivation_table_is_valid t then None
      else map_option (\<lambda>i. d_parent (records t ! i)) (find_child_record t child))"

definition ref_in_list :: "capability_ref list \<Rightarrow> capability_ref \<Rightarrow> bool" where
  "ref_in_list refs target = list_ex (\<lambda>r. capability_ref_equal r target) refs"

text \<open>
  One pass of the collecting loop of \<open>capability_derivation_remove_subtree\<close> over the
  records, with its \<open>changed\<close> flag, and the \<open>do ... while (changed)\<close> around it. The
  array \<open>descendants\<close> and its counter are a list.
\<close>

definition collect_record ::
    "capability_derivation_table \<Rightarrow> capability_ref \<Rightarrow> capability_ref list \<times> bool \<Rightarrow> nat \<Rightarrow>
     capability_ref list \<times> bool" where
  "collect_record t root dc i =
     (let ds = fst dc; r = records t ! i in
      if ref_in_list ds (d_child r) then dc
      else if capability_ref_equal (d_parent r) root \<or> ref_in_list ds (d_parent r)
      then (ds @ [d_child r], True) else dc)"

definition collect_pass ::
    "capability_derivation_table \<Rightarrow> capability_ref \<Rightarrow> capability_ref list \<Rightarrow>
     capability_ref list \<times> bool" where
  "collect_pass t root ds = foldl (collect_record t root) (ds, False) [0..<d_count t]"

lemma capability_ref_equal_eq [simp]: "capability_ref_equal a b \<longleftrightarrow> a = b"
  by (auto simp: capability_ref_equal_def intro: capability_ref.equality)

lemma ref_in_list_set [simp]: "ref_in_list ds r \<longleftrightarrow> r \<in> set ds"
  by (auto simp: ref_in_list_def list_ex_iff)

lemma collect_fold:
  fixes t :: capability_derivation_table and root :: capability_ref
  defines "f js ds c \<equiv> foldl (collect_record t root) (ds, c) js"
  shows "set ds \<subseteq> set (fst (f js ds c))"
    and "\<not> snd (f js ds c) \<Longrightarrow> fst (f js ds c) = ds \<and> \<not> c"
    and "snd (f js ds c) \<Longrightarrow> c \<or> (\<exists>i\<in>set js. d_child (records t ! i) \<in> set (fst (f js ds c)) - set ds)"
  unfolding f_def
proof (atomize (full), induction js arbitrary: ds c)
  case (Cons i js)
  obtain ds' c' where m: "collect_record t root (ds, c) i = (ds', c')" by force
  have "(ds', c') = (ds, c) \<or> (ds' = ds @ [d_child (records t ! i)] \<and> c' \<and> d_child (records t ! i) \<notin> set ds)"
    using m by (auto simp: collect_record_def Let_def split: if_splits)
  with Cons.IH [of ds' c'] m show ?case by auto
qed simp

definition uncollected :: "capability_derivation_table \<Rightarrow> capability_ref list \<Rightarrow> nat set" where
  "uncollected t ds = {i. i < d_count t \<and> d_child (records t ! i) \<notin> set ds}"

lemma collect_pass_changed:
  assumes "snd (collect_pass t root ds)"
  shows "card (uncollected t (fst (collect_pass t root ds))) < card (uncollected t ds)"
proof (rule psubset_card_mono)
  show "finite (uncollected t ds)" by (simp add: uncollected_def)
  show "uncollected t (fst (collect_pass t root ds)) \<subset> uncollected t ds"
    using collect_fold(1,3) [where ds = ds and t = t and root = root and c = False
        and js = "[0..<d_count t]"] assms
    by (auto simp: collect_pass_def uncollected_def)
qed

function collect_loop ::
    "capability_derivation_table \<Rightarrow> capability_ref \<Rightarrow> capability_ref list \<Rightarrow> capability_ref list" where
  "collect_loop t root ds =
     (case collect_pass t root ds of
        (ds', changed) \<Rightarrow> if changed then collect_loop t root ds' else ds')"
  by pat_completeness auto
termination
proof (relation "measure (\<lambda>(t, root, ds). card (uncollected t ds))")
  fix t root ds x y
  assume "(x, y) = collect_pass t root ds" "y"
  then show "((t, root, x), t, root, ds) \<in> measure (\<lambda>(t, root, ds). card (uncollected t ds))"
    using collect_pass_changed [of t root ds] by (cases "collect_pass t root ds") auto
qed simp

declare collect_loop.simps [simp del]

text \<open>The compaction loop: the records that stay move to the front of the array.\<close>

definition keep_record ::
    "capability_ref list \<Rightarrow> capability_derivation list \<times> nat \<Rightarrow> nat \<Rightarrow> capability_derivation list \<times> nat" where
  "keep_record ds rw read_index =
     (let recs = fst rw; write_index = snd rw in
      if ref_in_list ds (d_child (recs ! read_index)) then rw
      else ((if write_index \<noteq> read_index then recs[write_index := recs ! read_index] else recs),
            write_index + 1))"

text \<open>
  The result is the table, the descendants written out and their number; \<open>None\<close> leaves the
  table as it was. The last assignment clears the records from the write index to the old count.
\<close>

definition capability_derivation_remove_subtree ::
    "capability_derivation_table \<Rightarrow> capability_ref \<Rightarrow> nat \<Rightarrow>
     (capability_derivation_table \<times> capability_ref list) option" where
  "capability_derivation_remove_subtree t root capacity =
     (if \<not> capability_derivation_table_is_valid t \<or> \<not> capability_ref_is_valid root then None
      else let ds = collect_loop t root [] in
        if length ds > capacity then None
        else let (recs, write_index) = foldl (keep_record ds) (records t, 0) [0..<d_count t] in
          Some (t\<lparr>records := take write_index recs @ replicate (d_count t - write_index) zero_derivation @
                             drop (d_count t) recs,
                  d_count := write_index\<rparr>, ds))"

section \<open>The graph of a table\<close>

definition live_records :: "capability_derivation_table \<Rightarrow> capability_derivation list" where
  "live_records t = take (d_count t) (records t)"

definition graph_edge :: "capability_derivation list \<Rightarrow> capability_ref \<Rightarrow> capability_ref \<Rightarrow> bool" where
  "graph_edge rs p c \<longleftrightarrow> \<lparr>d_parent = p, d_child = c\<rparr> \<in> set rs"

abbreviation lineage_edge :: "capability_derivation_table \<Rightarrow> capability_ref \<Rightarrow> capability_ref \<Rightarrow> bool" where
  "lineage_edge t \<equiv> graph_edge (live_records t)"

text \<open>A forest of valid references: no child twice, no cycle.\<close>

definition graph_forest :: "capability_derivation list \<Rightarrow> bool" where
  "graph_forest rs \<longleftrightarrow>
     (\<forall>r\<in>set rs. capability_ref_is_valid (d_parent r) \<and> capability_ref_is_valid (d_child r)) \<and>
     distinct (map d_child rs) \<and> (\<forall>x. \<not> (graph_edge rs)\<^sup>+\<^sup>+ x x)"

definition derivation_shape :: "capability_derivation_table \<Rightarrow> bool" where
  "derivation_shape t \<longleftrightarrow> length (records t) = CAP_DERIVATION_MAX"

definition derivation_wf :: "capability_derivation_table \<Rightarrow> bool" where
  "derivation_wf t \<longleftrightarrow> derivation_shape t \<and> d_count t \<le> CAP_DERIVATION_MAX \<and>
     drop (d_count t) (records t) = replicate (CAP_DERIVATION_MAX - d_count t) zero_derivation \<and>
     graph_forest (live_records t)"

lemma derivation_is_zero_eq: "derivation_is_zero d \<longleftrightarrow> d = zero_derivation"
  by (cases d; cases "d_parent d"; cases "d_child d")
    (auto simp: derivation_is_zero_def capability_ref_is_zero_def zero_derivation_def zero_ref_def
      object_id_is_zero_eq)

lemma graph_edge_record: "r \<in> set rs \<Longrightarrow> graph_edge rs (d_parent r) (d_child r)"
  by (cases r) (simp add: graph_edge_def)

lemma graph_edge_iff: "graph_edge rs p c \<longleftrightarrow> (\<exists>r\<in>set rs. d_parent r = p \<and> d_child r = c)"
  by (auto simp: graph_edge_def intro: bexI [rotated]) (metis capability_derivation.surjective unit.exhaust)

lemma parent_unique:
  assumes "distinct (map d_child rs)" "graph_edge rs p c" "graph_edge rs q c"
  shows "p = q"
  using assms by (auto simp: graph_edge_iff distinct_map inj_on_def)

lemma find_child_Some:
  assumes "find_child_record t c = Some i" "d_count t \<le> length (records t)"
  shows "i < d_count t" "d_child (records t ! i) = c" "lineage_edge t (d_parent (records t ! i)) c"
proof -
  show *: "i < d_count t" "d_child (records t ! i) = c"
    using assms(1) by (auto simp: find_child_record_def dest: find_upt_Some)
  then have "records t ! i \<in> set (live_records t)"
    using assms(2) by (auto simp: live_records_def in_set_conv_nth intro!: exI [of _ i])
  from graph_edge_record [OF this] * show "lineage_edge t (d_parent (records t ! i)) c" by simp
qed

lemma find_child_None:
  assumes "find_child_record t c = None" "d_count t \<le> length (records t)"
  shows "\<not> lineage_edge t p c"
  using assms
  by (force simp: find_child_record_def find_upt_None live_records_def graph_edge_iff in_set_conv_nth)

lemma find_child_edge:
  assumes "distinct (map d_child (live_records t))" "d_count t \<le> length (records t)" "lineage_edge t p c"
  obtains i where "find_child_record t c = Some i" "d_parent (records t ! i) = p"
  using assms by (metis find_child_None find_child_Some(3) not_None_eq parent_unique)

text \<open>If the walk from a reference succeeds, the child is not among its ancestors.\<close>

lemma ancestor_loop_sound:
  assumes "distinct (map d_child (live_records t))" "d_count t \<le> length (records t)"
  shows "ancestor_loop t c x n \<Longrightarrow> \<not> (lineage_edge t)\<^sup>*\<^sup>* c x"
proof (induction n arbitrary: x)
  case (Suc n)
  have ne: "x \<noteq> c" using Suc.prems by auto
  show ?case
  proof
    assume "(lineage_edge t)\<^sup>*\<^sup>* c x"
    with ne obtain p where p: "(lineage_edge t)\<^sup>*\<^sup>* c p" "lineage_edge t p x"
      by (metis rtranclp.cases)
    obtain i where i: "find_child_record t x = Some i" "d_parent (records t ! i) = p"
      using find_child_edge [OF assms p(2)] .
    with Suc.prems ne have "ancestor_loop t c p n" by simp
    with Suc.IH p(1) show False by blast
  qed
qed simp

text \<open>
  Conversely the walk has turns enough: in a forest every step up drops one of the recorded
  children from the ancestors that are left.
\<close>

definition ancestors :: "capability_derivation_table \<Rightarrow> capability_ref \<Rightarrow> capability_ref set" where
  "ancestors t x = {y \<in> d_child ` set (live_records t). (lineage_edge t)\<^sup>*\<^sup>* y x}"

lemma ancestor_loop_complete:
  assumes forest: "graph_forest (live_records t)" and len: "d_count t \<le> length (records t)"
  shows "(lineage_edge t)\<^sup>+\<^sup>+ x c \<Longrightarrow> card (ancestors t x) < n \<Longrightarrow> ancestor_loop t c x n"
proof (induction n arbitrary: x)
  case (Suc n)
  have d: "distinct (map d_child (live_records t))" and acyc: "\<And>y. \<not> (lineage_edge t)\<^sup>+\<^sup>+ y y"
    using forest by (auto simp: graph_forest_def)
  have ne: "x \<noteq> c" using Suc.prems(1) acyc by auto
  show ?case
  proof (cases "find_child_record t x")
    case None
    with ne show ?thesis by simp
  next
    case (Some i)
    let ?p = "d_parent (records t ! i)"
    note e = find_child_Some(3) [OF Some len]
    have "x \<in> ancestors t x"
      using find_child_Some(1,2) [OF Some len] len
      by (force simp: ancestors_def live_records_def in_set_conv_nth image_iff)
    moreover have "x \<notin> ancestors t ?p"
      using acyc e by (auto simp: ancestors_def dest: rtranclp_into_tranclp1)
    moreover have "ancestors t ?p \<subseteq> ancestors t x"
      using e by (auto simp: ancestors_def intro: rtranclp.rtrancl_into_rtrancl)
    ultimately have "ancestors t ?p \<subset> ancestors t x" by blast
    then have "card (ancestors t ?p) < card (ancestors t x)"
      by (rule psubset_card_mono [rotated]) (simp add: ancestors_def)
    moreover have "(lineage_edge t)\<^sup>+\<^sup>+ ?p c" using e Suc.prems(1) by (rule tranclp_into_tranclp2)
    ultimately show ?thesis using Suc.IH [of ?p] Suc.prems(2) Some ne by simp
  qed
qed simp

lemma is_valid_iff_derivation_wf:
  assumes shape: "derivation_shape t"
  shows "capability_derivation_table_is_valid t \<longleftrightarrow> derivation_wf t"
proof (cases "d_count t \<le> CAP_DERIVATION_MAX")
  case False
  then show ?thesis by (simp add: capability_derivation_table_is_valid_def derivation_wf_def)
next
  case True
  let ?rs = "live_records t"
  have len: "d_count t \<le> length (records t)" "length ?rs = d_count t"
    using True shape by (auto simp: derivation_shape_def live_records_def)
  have nth: "i < d_count t \<Longrightarrow> ?rs ! i = records t ! i" for i by (simp add: live_records_def)
  have zero: "list_all (\<lambda>i. derivation_is_zero (records t ! i)) [d_count t..<CAP_DERIVATION_MAX] \<longleftrightarrow>
    drop (d_count t) (records t) = replicate (CAP_DERIVATION_MAX - d_count t) zero_derivation"
    using True shape
    by (auto simp: list_all_iff derivation_is_zero_eq list_eq_iff_nth_eq derivation_shape_def)
      (metis add_diff_inverse_nat diff_less_mono not_less)
  have "list_all (record_is_valid t) [0..<d_count t] \<longleftrightarrow> graph_forest ?rs"
  proof
    assume v: "list_all (record_is_valid t) [0..<d_count t]"
    have "d_child (records t ! i) \<noteq> d_child (records t ! j)" if "i < j" "j < d_count t" for i j
      using v that by (auto simp: list_all_iff record_is_valid_def Let_def)
    then have d: "distinct (map d_child ?rs)"
      using len nth by (auto simp: distinct_conv_nth) (metis nat_neq_iff)
    have refs: "\<forall>r\<in>set ?rs. capability_ref_is_valid (d_parent r) \<and> capability_ref_is_valid (d_child r)"
      using v len nth by (auto simp: in_set_conv_nth list_all_iff record_is_valid_def Let_def)
    have "\<not> (lineage_edge t)\<^sup>+\<^sup>+ x x" for x
    proof
      assume "(lineage_edge t)\<^sup>+\<^sup>+ x x"
      then obtain p where p: "(lineage_edge t)\<^sup>*\<^sup>* x p" "lineage_edge t p x"
        by (metis rtranclp.simps tranclp.cases tranclp_into_rtranclp)
      then obtain i where i: "find_child_record t x = Some i" "d_parent (records t ! i) = p"
        using find_child_edge [OF d len(1)] by metis
      with find_child_Some [OF i(1) len(1)] v have "ancestor_loop t x p (d_count t)"
        by (auto simp: list_all_iff record_is_valid_def Let_def)
      with ancestor_loop_sound [OF d len(1)] p(1) show False by blast
    qed
    with d refs show "graph_forest ?rs" by (simp add: graph_forest_def)
  next
    assume f: "graph_forest ?rs"
    have "record_is_valid t i" if i: "i < d_count t" for i
    proof -
      let ?r = "records t ! i"
      have r: "?r \<in> set ?rs" using i len nth by (metis nth_mem)
      have e: "lineage_edge t (d_parent ?r) (d_child ?r)" using graph_edge_record [OF r] .
      have "d_child ?r \<notin> ancestors t (d_parent ?r)"
        using f e by (auto simp: ancestors_def graph_forest_def dest: rtranclp_into_tranclp1)
      then have "ancestors t (d_parent ?r) \<subset> d_child ` set ?rs" using r by (auto simp: ancestors_def)
      then have "card (ancestors t (d_parent ?r)) < card (d_child ` set ?rs)"
        by (rule psubset_card_mono [rotated]) simp
      also have "\<dots> \<le> d_count t" using card_length [of "map d_child ?rs"] len by simp
      finally have "ancestor_loop t (d_child ?r) (d_parent ?r) (d_count t)"
        using ancestor_loop_complete [OF f len(1)] e by blast
      moreover have "d_child (records t ! j) \<noteq> d_child ?r" if "j < i" for j
        using f that i len nth by (auto simp: graph_forest_def distinct_conv_nth)
      moreover have "d_parent ?r \<noteq> d_child ?r" using f e by (auto simp: graph_forest_def dest: tranclp.r_into_trancl)
      ultimately show ?thesis
        using f r by (auto simp: record_is_valid_def Let_def list_all_iff graph_forest_def)
    qed
    then show "list_all (record_is_valid t) [0..<d_count t]" by (simp add: list_all_iff)
  qed
  with zero True shape show ?thesis
    by (simp add: capability_derivation_table_is_valid_def derivation_wf_def)
qed

section \<open>Adding a link\<close>

lemma forest_snoc:
  "graph_forest (rs @ [\<lparr>d_parent = p, d_child = c\<rparr>]) \<longleftrightarrow>
     graph_forest rs \<and> capability_ref_is_valid p \<and> capability_ref_is_valid c \<and>
     c \<notin> d_child ` set rs \<and> \<not> (graph_edge rs)\<^sup>*\<^sup>* c p"
proof -
  let ?e = "graph_edge rs" and ?e' = "graph_edge (rs @ [\<lparr>d_parent = p, d_child = c\<rparr>])"
  have e': "?e' x y \<longleftrightarrow> ?e x y \<or> (x = p \<and> y = c)" for x y by (auto simp: graph_edge_def)
  have "?e'\<^sup>+\<^sup>+ x y \<longleftrightarrow> ?e\<^sup>+\<^sup>+ x y \<or> (?e\<^sup>*\<^sup>* x p \<and> ?e\<^sup>*\<^sup>* c y)" for x y
  proof -
    define E where "E = {(x, y). ?e x y}"
    have e: "?e = (\<lambda>x y. (x, y) \<in> E)" and ee: "?e' = (\<lambda>x y. (x, y) \<in> insert (p, c) E)"
      by (auto simp: e' E_def fun_eq_iff)
    show ?thesis
      unfolding ee unfolding e tranclp_trancl_eq rtranclp_rtrancl_eq
      using trancl_insert [of p c E] by auto
  qed
  then have "(\<forall>x. \<not> ?e'\<^sup>+\<^sup>+ x x) \<longleftrightarrow> (\<forall>x. \<not> ?e\<^sup>+\<^sup>+ x x) \<and> \<not> ?e\<^sup>*\<^sup>* c p"
    by (auto intro: rtranclp_trans)
  then show ?thesis by (auto simp: graph_forest_def)
qed

lemma add_result:
  assumes shape: "derivation_shape t" and wf: "derivation_wf t"
  shows "capability_derivation_add t p c =
    (if capability_ref_is_valid p \<and> capability_ref_is_valid c \<and> d_count t < CAP_DERIVATION_MAX \<and>
        c \<notin> d_child ` set (live_records t) \<and> \<not> (lineage_edge t)\<^sup>*\<^sup>* c p
     then (True, t\<lparr>records := (records t)[d_count t := \<lparr>d_parent = p, d_child = c\<rparr>],
                    d_count := d_count t + 1\<rparr>)
     else (False, t))"
proof -
  let ?r = "\<lparr>d_parent = p, d_child = c\<rparr>"
  define t1 where "t1 = t\<lparr>records := (records t)[d_count t := ?r], d_count := d_count t + 1\<rparr>"
  have len: "length (records t) = CAP_DERIVATION_MAX" "d_count t \<le> CAP_DERIVATION_MAX"
    using wf by (auto simp: derivation_wf_def derivation_shape_def)
  have found: "find_child_record t c = None \<longleftrightarrow> c \<notin> d_child ` set (live_records t)"
    using len by (auto simp: find_child_record_def find_upt_None live_records_def set_take_nth)
  have valid1: "capability_derivation_table_is_valid t1 \<longleftrightarrow> graph_forest (live_records t @ [?r])"
    if full: "d_count t < CAP_DERIVATION_MAX"
  proof -
    have "live_records t1 = live_records t @ [?r]"
      using full len by (simp add: t1_def live_records_def take_Suc_conv_app_nth)
    moreover have "drop (d_count t1) (records t1) =
        replicate (CAP_DERIVATION_MAX - d_count t1) zero_derivation"
    proof -
      have "drop (d_count t + 1) (records t) = drop 1 (drop (d_count t) (records t))" by simp
      also have "\<dots> = drop 1 (replicate (CAP_DERIVATION_MAX - d_count t) zero_derivation)"
        using wf by (simp only: derivation_wf_def)
      finally show ?thesis by (simp add: t1_def)
    qed
    ultimately show ?thesis
      using shape full is_valid_iff_derivation_wf [of t1] len
      by (simp add: t1_def derivation_shape_def derivation_wf_def)
  qed
  have undo: "t1\<lparr>d_count := d_count t1 - 1, records := (records t1)[d_count t1 - 1 := zero_derivation]\<rparr> = t"
    if full: "d_count t < CAP_DERIVATION_MAX"
  proof -
    have "drop (d_count t) (records t) ! 0 = zero_derivation"
      using wf full by (simp add: derivation_wf_def)
    then have "zero_derivation = records t ! d_count t" using len full by simp
    then have "(records t)[d_count t := zero_derivation] = records t" by (metis list_update_id)
    then show ?thesis by (simp add: t1_def)
  qed
  have v: "capability_derivation_table_is_valid t" using wf shape by (simp add: is_valid_iff_derivation_wf)
  have pc: "p = c \<Longrightarrow> (lineage_edge t)\<^sup>*\<^sup>* c p" by simp
  show ?thesis
  proof (cases "capability_ref_is_valid p \<and> capability_ref_is_valid c \<and> p \<noteq> c \<and>
      d_count t < CAP_DERIVATION_MAX \<and> find_child_record t c = None")
    case True
    then have "capability_derivation_add t p c =
        (if capability_derivation_table_is_valid t1 then (True, t1) else (False, t))"
      using v undo unfolding capability_derivation_add_def Let_def t1_def [symmetric] by auto
    with True valid1 found wf show ?thesis
      by (simp add: forest_snoc derivation_wf_def) (simp add: t1_def)
  next
    case False
    with v found pc len(2) show ?thesis
      by (auto simp: capability_derivation_add_def)
  qed
qed

section \<open>Removing a subtree\<close>

lemma collect_fold_sound:
  assumes "d_count t \<le> length (records t)" "set js \<subseteq> {..<d_count t}"
    "y \<in> set (fst (foldl (collect_record t root) (ds, c) js))"
  shows "\<exists>x\<in>insert root (set ds). (lineage_edge t)\<^sup>*\<^sup>* x y"
  using assms(2,3)
proof (induction js arbitrary: ds c)
  case (Cons i js)
  let ?r = "records t ! i"
  obtain ds' c' where m: "collect_record t root (ds, c) i = (ds', c')" by force
  have ds': "ds' = ds \<or> (ds' = ds @ [d_child ?r] \<and> d_parent ?r \<in> insert root (set ds))"
    using m by (auto simp: collect_record_def Let_def split: if_splits)
  have "?r \<in> set (live_records t)"
    using Cons.prems(1) assms(1) by (auto simp: live_records_def set_take_nth)
  note e = graph_edge_record [OF this]
  from Cons.IH [of ds' c'] Cons.prems m obtain x where
    x: "x \<in> insert root (set ds')" "(lineage_edge t)\<^sup>*\<^sup>* x y" by auto
  show ?case
  proof (cases "x \<in> insert root (set ds)")
    case False
    with ds' x(1) have "d_parent ?r \<in> insert root (set ds)" "x = d_child ?r" by auto
    with e x(2) show ?thesis by (blast intro: converse_rtranclp_into_rtranclp)
  qed (use x in blast)
qed auto

lemma collect_fold_closed:
  assumes "\<not> snd (foldl (collect_record t root) (ds, c) js)" "i \<in> set js"
    "d_parent (records t ! i) \<in> insert root (set ds)"
  shows "d_child (records t ! i) \<in> set ds"
  using assms
proof (induction js arbitrary: c)
  case (Cons j js)
  obtain ds' c' where m: "collect_record t root (ds, c) j = (ds', c')" by force
  have "(ds', c') = (ds, c) \<or> c'" using m by (auto simp: collect_record_def Let_def split: if_splits)
  moreover have nc: "\<not> c'"
    using collect_fold(2) [where ds = ds' and t = t and root = root and c = c' and js = js]
      Cons.prems(1) m by simp
  ultimately have eq: "ds' = ds" "c' = c" by auto
  show ?case
  proof (cases "i = j")
    case True
    with m eq nc Cons.prems(3) show ?thesis
      by (auto simp: collect_record_def Let_def split: if_splits)
  next
    case False
    with Cons.IH [of c] Cons.prems m eq show ?thesis by simp
  qed
qed simp

definition collected :: "capability_derivation_table \<Rightarrow> capability_ref \<Rightarrow> capability_ref list \<Rightarrow> bool" where
  "collected t root ds \<longleftrightarrow> d_count t \<le> length (records t) \<and> graph_forest (live_records t) \<and>
     distinct ds \<and> set ds \<subseteq> d_child ` set (live_records t) \<and> (\<forall>d\<in>set ds. (lineage_edge t)\<^sup>+\<^sup>+ root d)"

lemma collect_fold_collected:
  assumes "set js \<subseteq> {..<d_count t}" "collected t root ds"
  shows "collected t root (fst (foldl (collect_record t root) (ds, c) js))"
  using assms
proof (induction js arbitrary: ds c)
  case (Cons i js)
  let ?r = "records t ! i"
  obtain ds' c' where m: "collect_record t root (ds, c) i = (ds', c')" by force
  have ds': "ds' = ds \<or> (ds' = ds @ [d_child ?r] \<and> d_child ?r \<notin> set ds \<and>
      d_parent ?r \<in> insert root (set ds))"
    using m by (auto simp: collect_record_def Let_def split: if_splits)
  have r: "?r \<in> set (live_records t)"
    using Cons.prems by (auto simp: live_records_def set_take_nth collected_def)
  have "(lineage_edge t)\<^sup>+\<^sup>+ root (d_child ?r)" if "d_parent ?r \<in> insert root (set ds)"
    using that graph_edge_record [OF r] Cons.prems(2)
    by (auto simp: collected_def intro: tranclp.trancl_into_trancl)
  with ds' Cons.prems(2) r have "collected t root ds'" by (auto simp: collected_def)
  with Cons.IH [of ds' c'] Cons.prems(1) m show ?case by simp
qed simp

interpretation subtree: closure_sweep "collect_pass t root" "collect_loop t root"
  "\<lambda>ds. insert root (set ds)" "lineage_edge t" "collected t root"
  "insert root (d_child ` set (live_records t))" for t root
proof unfold_locales
  fix ds :: "capability_ref list"
  show "collect_loop t root ds =
      (case collect_pass t root ds of (ds', ch) \<Rightarrow> if ch then collect_loop t root ds' else ds')"
    by (rule collect_loop.simps)
  assume g: "collected t root ds"
  then have len: "d_count t \<le> length (records t)" by (simp add: collected_def)
  have sub: "set [0..<d_count t] \<subseteq> {..<d_count t}" by auto
  note fold = collect_fold [where ds = ds and t = t and root = root and c = False
      and js = "[0..<d_count t]", folded collect_pass_def]
  show g': "collected t root (fst (collect_pass t root ds))"
    using collect_fold_collected [OF sub g] by (simp add: collect_pass_def)
  show "insert root (set ds) \<subseteq> insert root (d_child ` set (live_records t))"
    using g by (auto simp: collected_def)
  show "\<exists>x\<in>insert root (set ds). (lineage_edge t)\<^sup>*\<^sup>* x y"
    if "y \<in> insert root (set (fst (collect_pass t root ds)))" for y
    using that collect_fold_sound [OF len sub, of y root ds False] by (auto simp: collect_pass_def)
  show "fst (collect_pass t root ds) = ds \<and>
      (\<forall>x\<in>insert root (set ds). \<forall>y. lineage_edge t x y \<longrightarrow> y \<in> insert root (set ds))"
    if nc: "\<not> snd (collect_pass t root ds)"
  proof (intro conjI ballI allI impI)
    show "fst (collect_pass t root ds) = ds" using fold(2) [OF nc] by simp
    fix x y assume x: "x \<in> insert root (set ds)" "lineage_edge t x y"
    then obtain i where i: "i < d_count t" "d_parent (records t ! i) = x" "d_child (records t ! i) = y"
      using len by (auto simp: graph_edge_iff live_records_def set_take_nth)
    with collect_fold_closed [OF nc [unfolded collect_pass_def], of i] x show "y \<in> insert root (set ds)"
      by auto
  qed
  show "insert root (set ds) \<subset> insert root (set (fst (collect_pass t root ds)))"
    if "snd (collect_pass t root ds)"
    using fold(1) fold(3) [OF that] g' by (auto simp: collected_def graph_forest_def)
qed simp

lemma collect_result:
  fixes t :: capability_derivation_table and root :: capability_ref
  assumes "derivation_wf t"
  defines "ds \<equiv> collect_loop t root []"
  shows "set ds = {c. (lineage_edge t)\<^sup>+\<^sup>+ root c}" "distinct ds" "length ds \<le> d_count t"
proof -
  have len: "d_count t \<le> length (records t)" and f: "graph_forest (live_records t)"
    using assms(1) by (auto simp: derivation_wf_def derivation_shape_def)
  then have "collected t root []" by (simp add: collected_def)
  from subtree.loop_result [OF this] have *: "collected t root ds"
    "insert root (set ds) = {y. (lineage_edge t)\<^sup>*\<^sup>* root y}" by (auto simp: ds_def)
  have "root \<notin> set ds" using *(1) by (auto simp: collected_def graph_forest_def)
  moreover have "\<not> (lineage_edge t)\<^sup>+\<^sup>+ root root" using f by (simp add: graph_forest_def)
  ultimately show "set ds = {c. (lineage_edge t)\<^sup>+\<^sup>+ root c}"
    using *(2) by (auto simp: set_eq_iff dest!: rtranclpD) (metis tranclp_into_rtranclp)
  show "distinct ds" using *(1) by (simp add: collected_def)
  then have "length ds = card (set ds)" by (simp add: distinct_card)
  also have "\<dots> \<le> card (d_child ` set (live_records t))"
    using *(1) by (intro card_mono) (auto simp: collected_def)
  also have "\<dots> \<le> length (live_records t)"
    using card_length [of "map d_child (live_records t)"] by simp
  finally show "length ds \<le> d_count t" using len by (simp add: live_records_def)
qed

text \<open>The compaction loop filters the live part of the array in place.\<close>

lemma keep_fold:
  assumes "n \<le> length rs"
  shows "\<exists>recs w. foldl (keep_record ds) (rs, 0) [0..<n] = (recs, w) \<and> w \<le> n \<and>
    length recs = length rs \<and> drop n recs = drop n rs \<and>
    take w recs = filter (\<lambda>r. d_child r \<notin> set ds) (take n rs)"
  using assms
proof (induction n)
  case (Suc n)
  then obtain recs w where IH: "foldl (keep_record ds) (rs, 0) [0..<n] = (recs, w)" "w \<le> n"
    "length recs = length rs" "drop n recs = drop n rs"
    "take w recs = filter (\<lambda>r. d_child r \<notin> set ds) (take n rs)" by auto
  have at: "recs ! n = rs ! n"
    using IH(3,4) Suc.prems by (metis Suc_le_lessD append_Nil2 drop_eq_Nil hd_drop_conv_nth not_less_eq_eq)
  have dr: "drop (Suc n) recs = drop (Suc n) rs" using IH(4) by (metis drop_Suc drop_tl)
  have step: "foldl (keep_record ds) (rs, 0) [0..<Suc n] = keep_record ds (recs, w) n"
    using IH(1) by simp
  have tk: "take (Suc n) rs = take n rs @ [rs ! n]" using Suc.prems by (simp add: take_Suc_conv_app_nth)
  show ?case
  proof (cases "d_child (rs ! n) \<in> set ds")
    case True
    then have "keep_record ds (recs, w) n = (recs, w)" using at by (simp add: keep_record_def)
    then show ?thesis using IH dr tk True step by simp
  next
    case False
    let ?recs = "if w \<noteq> n then recs[w := recs ! n] else recs"
    have "foldl (keep_record ds) (rs, 0) [0..<Suc n] = (?recs, Suc w)"
      using step at False by (simp add: keep_record_def)
    moreover have "take (Suc w) ?recs = take w recs @ [rs ! n]"
      using IH(2,3) at Suc.prems by (auto simp: take_Suc_conv_app_nth)
    moreover have "drop (Suc n) ?recs = drop (Suc n) rs" using IH(2) dr by auto
    ultimately show ?thesis using IH tk False by auto
  qed
qed simp

lemma forest_filter: "graph_forest rs \<Longrightarrow> graph_forest (filter P rs)"
proof -
  assume f: "graph_forest rs"
  have e: "graph_edge (filter P rs) x y \<Longrightarrow> graph_edge rs x y" for x y by (simp add: graph_edge_def)
  have "(graph_edge (filter P rs))\<^sup>+\<^sup>+ x y \<Longrightarrow> (graph_edge rs)\<^sup>+\<^sup>+ x y" for x y
    by (induction rule: tranclp_induct) (use e in \<open>blast intro: tranclp.intros\<close>)+
  with f show ?thesis by (auto simp: graph_forest_def distinct_map_filter)
qed

lemma remove_subtree_Some:
  assumes wf: "derivation_wf t"
    and rm: "capability_derivation_remove_subtree t root capacity = Some (t', ds)"
  shows "live_records t' = filter (\<lambda>r. \<not> (lineage_edge t)\<^sup>+\<^sup>+ root (d_child r)) (live_records t)"
    "derivation_wf t'" "set ds = {c. (lineage_edge t)\<^sup>+\<^sup>+ root c}" "distinct ds"
proof -
  have len: "d_count t \<le> length (records t)" "length (records t) = CAP_DERIVATION_MAX"
    "d_count t \<le> CAP_DERIVATION_MAX" and f: "graph_forest (live_records t)"
    using wf by (auto simp: derivation_wf_def derivation_shape_def)
  from rm have ds: "ds = collect_loop t root []"
    by (auto simp: capability_derivation_remove_subtree_def Let_def split: if_splits prod.splits)
  show set_ds: "set ds = {c. (lineage_edge t)\<^sup>+\<^sup>+ root c}" and "distinct ds"
    unfolding ds using collect_result [OF wf] by blast+
  obtain recs w where k: "foldl (keep_record ds) (records t, 0) [0..<d_count t] = (recs, w)"
    "w \<le> d_count t" "length recs = length (records t)" "drop (d_count t) recs = drop (d_count t) (records t)"
    "take w recs = filter (\<lambda>r. d_child r \<notin> set ds) (live_records t)"
    using keep_fold [OF len(1), of ds] by (auto simp: live_records_def)
  have t': "t' = t\<lparr>records := take w recs @ replicate (d_count t - w) zero_derivation @
      drop (d_count t) recs, d_count := w\<rparr>"
    using rm k(1) by (auto simp: capability_derivation_remove_subtree_def Let_def ds split: if_splits)
  have "length (take w recs) = w" using k(2,3) len by simp
  then have l: "live_records t' = take w recs" by (simp add: t' live_records_def)
  with k(5) set_ds show live: "live_records t' =
      filter (\<lambda>r. \<not> (lineage_edge t)\<^sup>+\<^sup>+ root (d_child r)) (live_records t)" by simp
  have "drop w (records t') = replicate (d_count t - w) zero_derivation @
      replicate (CAP_DERIVATION_MAX - d_count t) zero_derivation"
    using wf k(4) \<open>length (take w recs) = w\<close> by (simp add: t' derivation_wf_def)
  also have "\<dots> = replicate (CAP_DERIVATION_MAX - w) zero_derivation"
    using k(2) len(3) by (simp flip: replicate_add)
  finally show "derivation_wf t'"
    using k(2,3) len forest_filter [OF f] live
    by (simp add: derivation_wf_def derivation_shape_def) (simp add: t')
qed

section \<open>Properties\<close>

text \<open>
  C7: the validator of the derivation graph accepts exactly the forests. For a table of the
  right length \<open>capability_derivation_table_is_valid\<close> returns 1 if and only if the count
  is in range, the unused records are zero, every reference is well formed, no capability has
  two parents and no capability is its own ancestor, although it detects a cycle only by
  counting the steps of a walk.
\<close>

theorem derivation_validator_exact:
  assumes "length (records t) = CAP_DERIVATION_MAX"
  shows "capability_derivation_table_is_valid t \<longleftrightarrow>
    d_count t \<le> CAP_DERIVATION_MAX \<and>
    (\<forall>i. d_count t \<le> i \<and> i < CAP_DERIVATION_MAX \<longrightarrow> records t ! i = zero_derivation) \<and>
    (\<forall>r\<in>set (live_records t). capability_ref_is_valid (d_parent r) \<and> capability_ref_is_valid (d_child r)) \<and>
    distinct (map d_child (live_records t)) \<and> (\<forall>x. \<not> (lineage_edge t)\<^sup>+\<^sup>+ x x)"
proof -
  have "drop (d_count t) (records t) = replicate (CAP_DERIVATION_MAX - d_count t) zero_derivation \<longleftrightarrow>
      (\<forall>i. d_count t \<le> i \<and> i < CAP_DERIVATION_MAX \<longrightarrow> records t ! i = zero_derivation)"
    if "d_count t \<le> CAP_DERIVATION_MAX"
    using that assms by (auto simp: list_eq_iff_nth_eq) (metis diff_less_mono le_add_diff_inverse)
  then show ?thesis
    using is_valid_iff_derivation_wf [of t] assms
    by (auto simp: derivation_wf_def derivation_shape_def graph_forest_def)
qed

definition sample_ref :: "u32 \<Rightarrow> capability_ref" where
  "sample_ref s = capability_ref_make (Object_Id 2 1) s 1"

definition sample_graph :: capability_derivation_table where
  "sample_graph = snd (capability_derivation_add capability_derivation_table_init (sample_ref 0) (sample_ref 1))"

lemma init_derivation_wf: "derivation_wf capability_derivation_table_init"
  by (simp add: derivation_wf_def derivation_shape_def capability_derivation_table_init_def
      live_records_def graph_forest_def)
    (metis graph_edge_def empty_iff list.set(1) tranclp.cases)

lemma sample_ref_valid: "s < 16 \<Longrightarrow> capability_ref_is_valid (sample_ref s)"
  by (simp add: sample_ref_def capability_ref_make_def capability_ref_is_valid_def
      object_id_is_zero_def word_less_nat_alt)

lemma sample_add: "capability_derivation_add capability_derivation_table_init (sample_ref 0) (sample_ref 1) =
    (True, sample_graph)" "live_records sample_graph = [\<lparr>d_parent = sample_ref 0, d_child = sample_ref 1\<rparr>]"
    "length (records sample_graph) = CAP_DERIVATION_MAX"
    "capability_derivation_table_is_valid sample_graph"
proof -
  have "\<not> (graph_edge [])\<^sup>*\<^sup>* (sample_ref 1) (sample_ref 0)"
    by (auto simp: sample_ref_def capability_ref_make_def graph_edge_def elim: rtranclp.cases)
  then have *: "capability_derivation_add capability_derivation_table_init (sample_ref 0) (sample_ref 1) =
    (True, capability_derivation_table_init\<lparr>records := (records capability_derivation_table_init)
      [0 := \<lparr>d_parent = sample_ref 0, d_child = sample_ref 1\<rparr>], d_count := 1\<rparr>)"
    using add_result [OF _ init_derivation_wf] sample_ref_valid [of 0] sample_ref_valid [of 1]
    by (simp add: capability_derivation_table_init_def derivation_shape_def live_records_def)
  then show add: "capability_derivation_add capability_derivation_table_init (sample_ref 0) (sample_ref 1) =
    (True, sample_graph)" by (simp add: sample_graph_def)
  from * show "length (records sample_graph) = CAP_DERIVATION_MAX"
    by (simp add: sample_graph_def capability_derivation_table_init_def)
  from add show "capability_derivation_table_is_valid sample_graph"
    by (auto simp: capability_derivation_add_def Let_def split: if_splits)
  show "live_records sample_graph = [\<lparr>d_parent = sample_ref 0, d_child = sample_ref 1\<rparr>]"
  proof -
    have "replicate CAP_DERIVATION_MAX zero_derivation = zero_derivation # replicate 63 zero_derivation"
      by (simp flip: replicate_Suc)
    then show ?thesis
      unfolding sample_graph_def * by (simp add: capability_derivation_table_init_def live_records_def)
  qed
qed

theorem derivation_validator_exact_witness:
  "length (records capability_derivation_table_init) = CAP_DERIVATION_MAX \<and>
   capability_derivation_table_is_valid capability_derivation_table_init"
proof -
  have h: "length (records capability_derivation_table_init) = CAP_DERIVATION_MAX"
    by (simp add: capability_derivation_table_init_def)
  have "\<not> (graph_edge [])\<^sup>+\<^sup>+ x x" for x by (auto simp: graph_edge_def elim: tranclp.cases)
  with derivation_validator_exact [OF h] h show ?thesis
    by (simp add: capability_derivation_table_init_def live_records_def)
qed

text \<open>
  C8: a link is accepted exactly when it keeps the graph a forest. On a valid table
  \<open>capability_derivation_add\<close> succeeds if and only if both references are well formed,
  there is room, the child has no parent yet and the child is not an ancestor of the parent
  (nor the parent itself); then the table is valid again and has exactly one more edge. In
  every other case the table is returned as it was, the link that was tried included.
\<close>

theorem derivation_add_keeps_forest:
  assumes "length (records t) = CAP_DERIVATION_MAX" "capability_derivation_table_is_valid t"
  shows "case capability_derivation_add t p c of (ok, t') \<Rightarrow>
    (ok \<longleftrightarrow> capability_ref_is_valid p \<and> capability_ref_is_valid c \<and> d_count t < CAP_DERIVATION_MAX \<and>
       (\<forall>q. \<not> lineage_edge t q c) \<and> \<not> (lineage_edge t)\<^sup>*\<^sup>* c p) \<and>
    (if ok then capability_derivation_table_is_valid t' \<and>
       (\<forall>x y. lineage_edge t' x y \<longleftrightarrow> lineage_edge t x y \<or> (x = p \<and> y = c)) else t' = t)"
proof -
  have shape: "derivation_shape t" using assms(1) by (simp add: derivation_shape_def)
  have wf: "derivation_wf t" using assms(2) shape by (simp add: is_valid_iff_derivation_wf)
  have nc: "c \<notin> d_child ` set (live_records t) \<longleftrightarrow> (\<forall>q. \<not> lineage_edge t q c)"
    by (auto simp: graph_edge_iff)
  let ?ok = "capability_ref_is_valid p \<and> capability_ref_is_valid c \<and> d_count t < CAP_DERIVATION_MAX \<and>
       c \<notin> d_child ` set (live_records t) \<and> \<not> (lineage_edge t)\<^sup>*\<^sup>* c p"
  define t1 where "t1 = t\<lparr>records := (records t)[d_count t := \<lparr>d_parent = p, d_child = c\<rparr>],
                    d_count := d_count t + 1\<rparr>"
  note add = add_result [OF shape wf, of p c, folded t1_def]
  have "capability_derivation_table_is_valid t1 \<and>
      (\<forall>x y. lineage_edge t1 x y \<longleftrightarrow> lineage_edge t x y \<or> (x = p \<and> y = c))" if ok: ?ok
  proof -
    have "capability_derivation_table_is_valid t1"
      using add ok unfolding capability_derivation_add_def Let_def t1_def [symmetric]
      by (auto split: if_splits)
    moreover have "live_records t1 = live_records t @ [\<lparr>d_parent = p, d_child = c\<rparr>]"
      using ok assms(1) by (simp add: t1_def live_records_def take_Suc_conv_app_nth)
    ultimately show ?thesis by (auto simp: graph_edge_def)
  qed
  then show ?thesis using add nc by (auto split: if_splits)
qed

theorem derivation_add_keeps_forest_witness:
  "length (records sample_graph) = CAP_DERIVATION_MAX \<and> capability_derivation_table_is_valid sample_graph \<and>
   \<not> fst (capability_derivation_add sample_graph (sample_ref 1) (sample_ref 0))"
proof -
  have "lineage_edge sample_graph (sample_ref 0) (sample_ref 1)"
    by (simp add: sample_add(2) graph_edge_def)
  with derivation_add_keeps_forest [OF sample_add(3,4), of "sample_ref 1" "sample_ref 0"] sample_add(3,4) show ?thesis
    by (auto split: prod.splits)
qed

text \<open>
  C9: revoking a capability's lineage reports and removes exactly its descendants. On a valid
  table \<open>capability_derivation_remove_subtree\<close> fails, leaving the table untouched, only
  on a malformed root or when the caller's array is too small for the descendants; otherwise
  it writes each proper descendant of the root once, removes exactly the records that lead to
  one of them, keeps the others in their order and leaves a valid table. The local array of
  sixty-four references never overflows.
\<close>

theorem remove_subtree_exact:
  assumes "length (records t) = CAP_DERIVATION_MAX" "capability_derivation_table_is_valid t"
    "capability_ref_is_valid root"
  shows "length (collect_loop t root []) \<le> CAP_DERIVATION_MAX \<and>
    (case capability_derivation_remove_subtree t root capacity of
       None \<Rightarrow> card {c. (lineage_edge t)\<^sup>+\<^sup>+ root c} > capacity
     | Some (t', ds) \<Rightarrow>
         distinct ds \<and> set ds = {c. (lineage_edge t)\<^sup>+\<^sup>+ root c} \<and> length ds \<le> capacity \<and>
         live_records t' = filter (\<lambda>r. \<not> (lineage_edge t)\<^sup>+\<^sup>+ root (d_child r)) (live_records t) \<and>
         capability_derivation_table_is_valid t')"
proof -
  have wf: "derivation_wf t" using assms(1,2)
    by (simp add: is_valid_iff_derivation_wf derivation_shape_def)
  note col = collect_result [OF wf, of root]
  have bound: "length (collect_loop t root []) \<le> CAP_DERIVATION_MAX"
    using col(3) wf by (simp add: derivation_wf_def)
  show ?thesis
  proof (cases "capability_derivation_remove_subtree t root capacity")
    case None
    then have "length (collect_loop t root []) > capacity"
      using assms(2,3)
      by (auto simp: capability_derivation_remove_subtree_def Let_def split: if_splits prod.splits)
    with None bound col(1,2) distinct_card [OF col(2)] show ?thesis by simp
  next
    case (Some r)
    obtain t' ds where r: "r = (t', ds)" by force
    note rm = remove_subtree_Some [OF wf Some [unfolded r]]
    have "length ds \<le> capacity"
      using Some r by (auto simp: capability_derivation_remove_subtree_def Let_def split: if_splits prod.splits)
    moreover have "capability_derivation_table_is_valid t'"
      using rm(2) is_valid_iff_derivation_wf [of t'] by (simp add: derivation_wf_def)
    ultimately show ?thesis using bound Some r rm by simp
  qed
qed

theorem remove_subtree_exact_witness:
  "capability_ref_is_valid (sample_ref 0) \<and> length (records sample_graph) = CAP_DERIVATION_MAX \<and>
   capability_derivation_table_is_valid sample_graph \<and>
   capability_derivation_remove_subtree sample_graph (sample_ref 0) 0 = None"
proof -
  have "lineage_edge sample_graph (sample_ref 0) (sample_ref 1)"
    by (simp add: sample_add(2) graph_edge_def)
  then have "(lineage_edge sample_graph)\<^sup>+\<^sup>+ (sample_ref 0) (sample_ref 1)" by blast
  with remove_subtree_exact [OF sample_add(3,4) sample_ref_valid [of 0], of 0] sample_add(3,4) sample_ref_valid [of 0] show ?thesis
    by (auto split: option.splits)
qed

end
