(* ===== verification/Capability_Domain.thy ===== *)
theory Capability_Domain
  imports Instance_State Provenance Derivation Kernel_Heap
begin

text \<open>
  \<^verbatim>\<open>kernel/wasm/component_set.c\<close> and \<^verbatim>\<open>kernel/cap/domain.{h,c}\<close>: the
  components of a kernel, the graph of derivations between their capabilities, and the
  transactions on both. The set holds the components themselves, so a pointer to a registered component is its index. The
  buffers the domain allocates are values; the allocator is called where the code calls it, on
  the heap of the domain's state, and decides which calls fail. An operation that calls code with
  a loop that may run on returns an option. Error results are the negative numbers of
  \<^verbatim>\<open>component.h\<close>.
\<close>

definition JANI_EINVAL :: int where "JANI_EINVAL = -1"
definition JANI_EPERM :: int where "JANI_EPERM = -2"
definition JANI_ENOSPC :: int where "JANI_ENOSPC = -3"
definition JANI_ENOENT :: int where "JANI_ENOENT = -6"

section \<open>The set of components\<close>

record 'i component_set =
  items :: "'i component option list"
  set_count :: u32

definition component_set_init :: "'i component_set" where
  "component_set_init = \<lparr>items = replicate COMPONENT_MAX None, set_count = 0\<rparr>"

definition component_set_find :: "'i component_set \<Rightarrow> object_id \<Rightarrow> nat option" where
  "component_set_find s root =
     (if object_id_is_zero root then None
      else List.find (\<lambda>i. case items s ! i of None \<Rightarrow> False | Some c \<Rightarrow> object_id_equal (root_id c) root) [0..<COMPONENT_MAX])"

definition component_set_add :: "'i component_set \<Rightarrow> 'i component \<Rightarrow> 'i component_set option" where
  "component_set_add s c =
     (if object_id_is_zero (root_id c) then None
      else if component_set_find s (root_id c) \<noteq> None then None
      else case List.find (\<lambda>i. items s ! i = None) [0..<COMPONENT_MAX] of
        None \<Rightarrow> None
      | Some i \<Rightarrow> Some (s\<lparr>items := (items s)[i := Some c], set_count := set_count s + 1\<rparr>))"

definition component_set_remove :: "'i component_set \<Rightarrow> object_id \<Rightarrow> 'i component_set option" where
  "component_set_remove s root =
     (case component_set_find s root of
        None \<Rightarrow> None
      | Some i \<Rightarrow> Some (s\<lparr>items := (items s)[i := None], set_count := set_count s - 1\<rparr>))"

section \<open>The domain\<close>

text \<open>
  A staged write is the request with the address of the copy of its payload; \<open>write_count\<close> is the
  length of the list. \<open>saved\<close> holds what the array of saved components holds.
\<close>

record ('d, 'i, 'p) capability_domain =
  dm_store :: "'d object_store"
  dm_store_id :: nat
  dm_heap :: "'p heap"
  components :: "'i component_set"
  lineage :: capability_derivation_table
  saved_lineage :: capability_derivation_table
  saved :: "'i component option list"
  saved_address :: u64
  tables_dirty :: u32
  states_dirty :: u32
  lineage_dirty :: u32
  active :: u32
  halted :: u32
  provenance :: provenance_ledger
  saved_provenance :: provenance_ledger
  provenance_dirty :: u32
  writes :: "(object_store_put_request \<times> u64) list"

definition member :: "('d, 'i, 'p) capability_domain \<Rightarrow> nat \<Rightarrow> nat option" where
  "member dm c = (if c < COMPONENT_MAX \<and> items (components dm) ! c \<noteq> None then Some c else None)"

abbreviation item :: "('d, 'i, 'p) capability_domain \<Rightarrow> nat \<Rightarrow> 'i component" where
  "item dm i \<equiv> the (items (components dm) ! i)"

definition set_item :: "('d, 'i, 'p) capability_domain \<Rightarrow> nat \<Rightarrow> 'i component \<Rightarrow> ('d, 'i, 'p) capability_domain" where
  "set_item dm i c = dm\<lparr>components := (components dm)\<lparr>items := (items (components dm))[i := Some c]\<rparr>\<rparr>"

definition reference :: "'i component \<Rightarrow> u32 \<Rightarrow> capability_ref" where
  "reference c slot = capability_ref_make (root_id c) slot (capability_table_generation (cap_table c) slot)"

definition capability_domain_resolve :: "('d, 'i, 'p) capability_domain \<Rightarrow> capability_ref \<Rightarrow> capability option" where
  "capability_domain_resolve dm ref =
     (if \<not> capability_ref_is_valid ref then None
      else case component_set_find (components dm) (component_id ref) of
        None \<Rightarrow> None
      | Some i \<Rightarrow>
          let c = item dm i in
          if component_is_fenced (dm_store dm) (root_id c) \<or>
             capability_table_generation (cap_table c) (ref_slot ref) \<noteq> ref_generation ref then None
          else capability_table_get (cap_table c) (ref_slot ref))"

text \<open>The two loops of \<open>graph_matches\<close>.\<close>

definition edge_matches :: "('d, 'i, 'p) capability_domain \<Rightarrow> capability_derivation \<Rightarrow> bool" where
  "edge_matches dm edge =
     (let p = capability_domain_resolve dm (d_parent edge); c = capability_domain_resolve dm (d_child edge) in
      if p = None \<or> c = None \<or> \<not> capability_allows p CAP_RIGHT_GRANT \<or>
         \<not> object_id_equal (cap_object (the p)) (cap_object (the c)) \<or>
         rights (the p) AND rights (the c) \<noteq> rights (the c) then False else True)"

definition slot_matches :: "('d, 'i, 'p) capability_domain \<Rightarrow> 'i component \<Rightarrow> nat \<Rightarrow> bool" where
  "slot_matches dm c s =
     (let p = parents (cap_table c) ! s;
          parent = capability_derivation_parent (lineage dm) (reference c (of_nat s))
      in if p \<noteq> CAP_SLOT_NONE \<and> (parent = None \<or> \<not> capability_ref_equal (the parent) (reference c p)) then False
         else if parent \<noteq> None \<and> object_id_equal (component_id (the parent)) (root_id c) \<and> p \<noteq> ref_slot (the parent) then False
         else True)"

definition component_matches :: "('d, 'i, 'p) capability_domain \<Rightarrow> nat \<Rightarrow> bool" where
  "component_matches dm i =
     (case items (components dm) ! i of
        None \<Rightarrow> True
      | Some c \<Rightarrow>
          if comp_store c \<noteq> dm_store_id dm \<or> \<not> capability_table_is_valid (cap_table c) then False
          else list_all (slot_matches dm c) [0..<CAP_TABLE_SLOTS])"

definition graph_matches :: "('d, 'i, 'p) capability_domain \<Rightarrow> bool" where
  "graph_matches dm \<longleftrightarrow> list_all (\<lambda>i. edge_matches dm (records (lineage dm) ! i)) [0..<d_count (lineage dm)] \<and>
     list_all (component_matches dm) [0..<COMPONENT_MAX]"

section \<open>Transactions\<close>

definition SIZEOF_COMPONENT :: u64 where "SIZEOF_COMPONENT = 4808"

definition capability_domain_begin ::
    "'p map_page \<Rightarrow> ('d, 'i, 'p) capability_domain \<Rightarrow> (('d, 'i, 'p) capability_domain \<times> bool) option" where
  "capability_domain_begin map_page dm =
     (if active dm \<noteq> 0 \<or> halted dm \<noteq> 0 \<or> object_store_requires_recovery (dm_store dm) then Some (dm, False)
      else case kmalloc map_page (dm_heap dm) (SIZEOF_COMPONENT * of_nat COMPONENT_MAX) of
        None \<Rightarrow> None
      | Some (h, address) \<Rightarrow>
          if address = 0 then Some (dm\<lparr>dm_heap := h\<rparr>, False)
          else Some (dm\<lparr>dm_heap := h, saved_address := address, saved := items (components dm),
                        saved_lineage := lineage dm, saved_provenance := provenance dm, provenance_dirty := 0,
                        tables_dirty := 0, states_dirty := 0, lineage_dirty := 0, writes := [], active := 1\<rparr>, True))"

definition finish :: "('d, 'i, 'p) capability_domain \<Rightarrow> ('d, 'i, 'p) capability_domain" where
  "finish dm =
     dm\<lparr>dm_heap := kfree (foldl (\<lambda>h w. kfree h (snd w)) (dm_heap dm) (writes dm)) (saved_address dm),
        writes := [], saved := [], saved_address := 0, active := 0\<rparr>"

definition capability_domain_abort :: "('d, 'i, 'p) capability_domain \<Rightarrow> ('d, 'i, 'p) capability_domain" where
  "capability_domain_abort dm =
     (if active dm = 0 then dm
      else finish (dm\<lparr>components := (components dm)\<lparr>items :=
                       map (\<lambda>i. if items (components dm) ! i \<noteq> None then saved dm ! i else None) [0..<COMPONENT_MAX]\<rparr>,
                     lineage := saved_lineage dm, provenance := saved_provenance dm\<rparr>))"

definition capability_domain_state_changed ::
    "('d, 'i, 'p) capability_domain \<Rightarrow> nat \<Rightarrow> ('d, 'i, 'p) capability_domain" where
  "capability_domain_state_changed dm c =
     (case member dm c of
        Some i \<Rightarrow> if active dm \<noteq> 0 then dm\<lparr>states_dirty := states_dirty dm OR push_bit i 1\<rparr> else dm
      | None \<Rightarrow> dm)"

definition capability_domain_write ::
    "'p map_page \<Rightarrow> ('d, 'i, 'p) capability_domain \<Rightarrow> object_store_put_request \<Rightarrow>
     (('d, 'i, 'p) capability_domain \<times> bool) option" where
  "capability_domain_write map_page dm request =
     (if active dm = 0 \<or> rq_payload request = None \<or> rq_payload_size request = 0 then Some (dm, False)
      else let i = (case List.find (\<lambda>i. object_id_equal (rq_id (fst (writes dm ! i))) (rq_id request)) [0..<length (writes dm)] of
                      Some i \<Rightarrow> i | None \<Rightarrow> length (writes dm))
        in if i = OBJECT_STORE_PUT_BATCH_MAX then Some (dm, False)
           else case kmalloc map_page (dm_heap dm) (of_nat (rq_payload_size request)) of
             None \<Rightarrow> None
           | Some (h, copy) \<Rightarrow>
               if copy = 0 then Some (dm\<lparr>dm_heap := h\<rparr>, False)
               else let staged = (request\<lparr>rq_payload := Some (take (rq_payload_size request) (the (rq_payload request)))\<rparr>, copy)
                 in Some (if i < length (writes dm)
                          then dm\<lparr>dm_heap := kfree h (snd (writes dm ! i)), writes := (writes dm)[i := staged]\<rparr>
                          else dm\<lparr>dm_heap := h, writes := writes dm @ [staged]\<rparr>, True))"

text \<open>A staged write answers with a header that is zero but for the identifiers.\<close>

definition staged_header :: "object_store_put_request \<Rightarrow> object_header" where
  "staged_header r = (decode_header (replicate OBJECT_HEADER_SIZE 0))
     \<lparr>h_id := rq_id r, h_type_id := rq_type_id r, h_creator_id := rq_creator_id r\<rparr>"

definition capability_domain_read ::
    "('d, 'i, 'p) capability_domain \<Rightarrow> object_id \<Rightarrow>
     (('d, 'i, 'p) capability_domain \<times> (object_header \<times> bytes \<times> nat) option) option" where
  "capability_domain_read dm i =
     (if halted dm \<noteq> 0 then Some (dm, None)
      else case (if active dm \<noteq> 0 then List.find (\<lambda>w. object_id_equal (rq_id (fst w)) i) (writes dm) else None) of
        Some w \<Rightarrow> Some (dm, Some (staged_header (fst w), the (rq_payload (fst w)), rq_payload_size (fst w)))
      | None \<Rightarrow> map_option (\<lambda>(s, r). (dm\<lparr>dm_store := s\<rparr>, r)) (object_store_get (dm_store dm) i))"

section \<open>Operations on capabilities\<close>

definition raise_count :: "u32 \<Rightarrow> u32 \<Rightarrow> u32" where
  "raise_count child count = (if child \<ge> count then child + 1 else count)"

definition capability_domain_derive ::
    "('d, 'i, 'p) capability_domain \<Rightarrow> nat \<Rightarrow> u32 \<Rightarrow> u32 \<Rightarrow> u32 \<Rightarrow> ('d, 'i, 'p) capability_domain \<times> int" where
  "capability_domain_derive dm owner slot rts bdg =
     (case member dm owner of
        None \<Rightarrow> (dm, JANI_EINVAL)
      | Some i \<Rightarrow>
          if active dm = 0 then (dm, JANI_EINVAL)
          else let c = item dm i in
            case capability_table_derive (cap_table c) slot rts bdg of
              None \<Rightarrow> (dm, JANI_EPERM)
            | Some (staged, child) \<Rightarrow>
                let child_ref = capability_ref_make (root_id c) child (generations staged ! unat child) in
                (case capability_derivation_add (lineage dm) (reference c slot) child_ref of
                   (False, graph) \<Rightarrow> (dm, JANI_ENOSPC)
                 | (True, graph) \<Rightarrow>
                     ((set_item dm i (c\<lparr>cap_table := staged, capability_count := raise_count child (capability_count c)\<rparr>))
                        \<lparr>lineage := graph, lineage_dirty := 1, tables_dirty := tables_dirty dm OR push_bit i 1\<rparr>,
                      int (unat child))))"

definition capability_domain_use ::
    "('d, 'i, 'p) capability_domain \<Rightarrow> nat \<Rightarrow> u32 \<Rightarrow> u32 \<Rightarrow> u32 \<Rightarrow> ('d, 'i, 'p) capability_domain \<times> int" where
  "capability_domain_use dm owner slot rts operation =
     (if member dm owner = None \<or> active dm = 0 then (dm, JANI_EINVAL)
      else let c = item dm owner;
               capability = capability_table_get (cap_table c) slot;
               result = (if capability = None then JANI_EINVAL
                         else if capability_allows capability rts then 0 else JANI_EPERM)
        in case provenance_append (provenance dm)
                  (if capability = None then root_id c else cap_object (the capability))
                  (root_id c) (logical_time c) operation (of_int result) of
             None \<Rightarrow> (dm, JANI_ENOSPC)
           | Some ledger \<Rightarrow> (dm\<lparr>provenance := ledger, provenance_dirty := 1\<rparr>, result))"

text \<open>
  The grant inside a message: the staged table of the receiver, the graph and the slot of the new
  capability, or an error. \<open>source\<close> is the slot of the sender.
\<close>

definition stage_grant ::
    "('d, 'i, 'p) capability_domain \<Rightarrow> nat \<Rightarrow> nat \<Rightarrow> u32 \<Rightarrow> u32 \<Rightarrow> u32 \<Rightarrow>
     (('d, 'i, 'p) capability_domain \<times> (int + capability_table \<times> capability_derivation_table \<times> u32)) option" where
  "stage_grant dm sender receiver source rts bdg =
     (let parent = capability_table_get (cap_table (item dm sender)) source in
      case capability_derive parent rts bdg of
        None \<Rightarrow> Some (dm, Inl JANI_EPERM)
      | Some capability \<Rightarrow>
          (case capability_domain_read dm (cap_object (the parent)) of
             None \<Rightarrow> None
           | Some (dm1, None) \<Rightarrow> Some (dm1, Inl JANI_ENOENT)
           | Some (dm1, Some r) \<Rightarrow>
               (case capability_table_insert_root (cap_table (item dm receiver)) (Some capability) of
                  None \<Rightarrow> Some (dm1, Inl JANI_ENOSPC)
                | Some (staged0, child) \<Rightarrow>
                    let staged = (if sender = receiver then staged0\<lparr>parents := (parents staged0)[unat child := source]\<rparr> else staged0);
                        child_ref = capability_ref_make (root_id (item dm receiver)) child (generations staged ! unat child)
                    in case capability_derivation_add (lineage dm) (reference (item dm sender) source) child_ref of
                         (False, graph) \<Rightarrow> Some (dm1, Inl JANI_ENOSPC)
                       | (True, graph) \<Rightarrow> Some (dm1, Inr (staged, graph, child)))))"

text \<open>The delivery: the message, the new capability and the dirty marks.\<close>

definition deliver ::
    "('d, 'i, 'p) capability_domain \<Rightarrow> nat \<Rightarrow> bytes option \<Rightarrow> u32 \<Rightarrow> (capability_table \<times> capability_derivation_table \<times> u32) option \<Rightarrow>
     ('d, 'i, 'p) capability_domain \<times> int" where
  "deliver dm receiver payload len grant =
     (let c = item dm receiver in
      case component_mailbox_push c payload len (case grant of None \<Rightarrow> UINT32_MAX | Some (staged, graph, child) \<Rightarrow> child) of
        None \<Rightarrow> (dm, JANI_ENOSPC)
      | Some c1 \<Rightarrow>
          (case grant of
             None \<Rightarrow> (capability_domain_state_changed (set_item dm receiver c1) receiver, 0)
           | Some (staged, graph, child) \<Rightarrow>
               (capability_domain_state_changed
                  ((set_item dm receiver (c1\<lparr>cap_table := staged, capability_count := raise_count child (capability_count c1)\<rparr>))
                     \<lparr>tables_dirty := tables_dirty dm OR push_bit receiver 1, lineage := graph, lineage_dirty := 1\<rparr>) receiver, 0)))"

definition capability_domain_send ::
    "('d, 'i, 'p) capability_domain \<Rightarrow> nat \<Rightarrow> u32 \<Rightarrow> bytes option \<Rightarrow> u32 \<Rightarrow> int \<Rightarrow> u32 \<Rightarrow> u32 \<Rightarrow>
     (('d, 'i, 'p) capability_domain \<times> int) option" where
  "capability_domain_send dm sender target payload len source rts bdg =
     (if member dm sender = None \<or> active dm = 0 \<or> unat len > 4096 \<or> (len \<noteq> 0 \<and> payload = None) \<or> source < -1
      then Some (dm, JANI_EINVAL)
      else let destination = capability_table_get (cap_table (item dm sender)) target in
        if \<not> capability_allows destination CAP_RIGHT_SEND then Some (dm, JANI_EPERM)
        else case component_set_find (components dm) (cap_object (the destination)) of
          None \<Rightarrow> Some (dm, JANI_ENOENT)
        | Some receiver \<Rightarrow>
            if exited (item dm receiver) \<noteq> 0 then Some (dm, JANI_ENOENT)
            else if source = -1 then
              if rts \<noteq> 0 \<or> bdg \<noteq> 0 then Some (dm, JANI_EINVAL) else Some (deliver dm receiver payload len None)
            else case stage_grant dm sender receiver (of_int source) rts bdg of
              None \<Rightarrow> None
            | Some (dm1, Inl err) \<Rightarrow> Some (dm1, err)
            | Some (dm1, Inr grant) \<Rightarrow> Some (deliver dm1 receiver payload len (Some grant)))"

text \<open>The removal of the edge into the revoked capability.\<close>

definition remove_incoming :: "capability_derivation_table \<Rightarrow> capability_ref \<Rightarrow> capability_derivation_table" where
  "remove_incoming graph root =
     (case find_child_record graph root of
        None \<Rightarrow> graph
      | Some i \<Rightarrow> graph\<lparr>records := take i (records graph) @ take (d_count graph - i - 1) (drop (i + 1) (records graph)) @
                                   zero_derivation # drop (d_count graph) (records graph),
                        d_count := d_count graph - 1\<rparr>)"

definition may_revoke :: "('d, 'i, 'p) capability_domain \<Rightarrow> capability_ref \<Rightarrow> bool" where
  "may_revoke dm ref =
     (if capability_domain_resolve dm ref = None then False
      else case component_set_find (components dm) (component_id ref) of
        None \<Rightarrow> False
      | Some i \<Rightarrow> component_mailbox_validate (mailbox (item dm i)) (unat (mailbox_used (item dm i))))"

text \<open>The second loop: the attachment and the slot of one reference are cleared.\<close>

definition revoke_one ::
    "('d, 'i, 'p) capability_domain \<Rightarrow> capability_ref \<Rightarrow> ('d, 'i, 'p) capability_domain option" where
  "revoke_one dm ref =
     (case component_set_find (components dm) (component_id ref) of
        None \<Rightarrow> None
      | Some i \<Rightarrow>
          (case strip_attachment (item dm i) (ref_slot ref) of
             None \<Rightarrow> None
           | Some (c, changed) \<Rightarrow>
               let dm1 = set_item dm i c;
                   dm2 = (if changed then capability_domain_state_changed dm1 i else dm1);
                   table = (cap_table c)\<lparr>slots := (slots (cap_table c))[unat (ref_slot ref) := zero_capability],
                                         parents := (parents (cap_table c))[unat (ref_slot ref) := CAP_SLOT_NONE]\<rparr>
               in Some ((set_item dm2 i (c\<lparr>cap_table := table,
                                           capability_count := of_nat (trim_count table (unat (capability_count c)))\<rparr>))
                          \<lparr>tables_dirty := tables_dirty dm2 OR push_bit i 1\<rparr>)))"

definition capability_domain_revoke ::
    "('d, 'i, 'p) capability_domain \<Rightarrow> nat \<Rightarrow> u32 \<Rightarrow> (('d, 'i, 'p) capability_domain \<times> int) option" where
  "capability_domain_revoke dm owner slot =
     (if member dm owner = None \<or> active dm = 0 \<or> capability_table_get (cap_table (item dm owner)) slot = None
      then Some (dm, JANI_EINVAL)
      else let root = reference (item dm owner) slot in
        case capability_derivation_remove_subtree (lineage dm) root CAP_DERIVATION_MAX of
          None \<Rightarrow> Some (dm, JANI_EINVAL)
        | Some (graph0, descendants) \<Rightarrow>
            let graph = remove_incoming graph0 root; removed = root # descendants in
            if \<not> list_all (may_revoke dm) removed then Some (dm, JANI_EINVAL)
            else case fold_opt revoke_one dm removed of
              None \<Rightarrow> None
            | Some dm1 \<Rightarrow> Some (dm1\<lparr>lineage := graph, lineage_dirty := 1\<rparr>, 0))"

end
