(* ===== verification/Domain_Graph.thy ===== *)
theory Domain_Graph
  imports Capability_Domain
begin

text \<open>
  What the operations of \<^verbatim>\<open>kernel/cap/domain.c\<close> do to the graph of derivations. The
  capabilities of all components together are one partial map from references to capabilities,
  \<open>capability_domain_resolve\<close>; derivation and sending add one entry below an existing one,
  revocation removes one entry with everything below it.
\<close>

section \<open>The set of components\<close>

definition set_ok :: "'i component_set \<Rightarrow> bool" where
  "set_ok s \<longleftrightarrow> length (items s) = COMPONENT_MAX \<and>
     (\<forall>i<COMPONENT_MAX. \<forall>c. items s ! i = Some c \<longrightarrow> \<not> object_id_is_zero (root_id c)) \<and>
     (\<forall>i<COMPONENT_MAX. \<forall>j<COMPONENT_MAX. \<forall>c d. items s ! i = Some c \<longrightarrow> items s ! j = Some d \<longrightarrow>
        root_id c = root_id d \<longrightarrow> i = j)"

lemma set_ok_unique:
  "set_ok s \<Longrightarrow> i < COMPONENT_MAX \<Longrightarrow> j < COMPONENT_MAX \<Longrightarrow> items s ! i = Some c \<Longrightarrow> items s ! j = Some d \<Longrightarrow>
     root_id c = root_id d \<Longrightarrow> i = j"
  by (auto simp: set_ok_def)

lemma find_Some_item:
  assumes "component_set_find s r = Some i"
  obtains c where "i < COMPONENT_MAX" "items s ! i = Some c" "root_id c = r"
proof -
  let ?P = "\<lambda>i. case items s ! i of None \<Rightarrow> False | Some c \<Rightarrow> object_id_equal (root_id c) r"
  have f: "List.find ?P [0..<COMPONENT_MAX] = Some i" using assms by (simp add: component_set_find_def split: if_splits)
  obtain c where "items s ! i = Some c" "root_id c = r"
    using find_upt_Some(2) [OF f] by (auto split: option.splits)
  with find_upt_Some(1) [OF f] show thesis by (rule that)
qed

lemma find_item:
  assumes "set_ok s" "i < COMPONENT_MAX" "items s ! i = Some c"
  shows "component_set_find s (root_id c) = Some i"
proof -
  have "\<not> object_id_is_zero (root_id c)" using assms by (auto simp: set_ok_def)
  moreover have "List.find (\<lambda>i. case items s ! i of None \<Rightarrow> False | Some d \<Rightarrow> object_id_equal (root_id d) (root_id c))
      [0..<COMPONENT_MAX] = Some i"
  proof (rule find_uptI)
    fix j assume j: "j < i"
    then have "root_id d \<noteq> root_id c" if "items s ! j = Some d" for d
      using set_ok_unique [OF assms(1) _ assms(2) that assms(3)] assms(2) by linarith
    then show "\<not> (case items s ! j of None \<Rightarrow> False | Some d \<Rightarrow> object_id_equal (root_id d) (root_id c))"
      by (cases "items s ! j") auto
  qed (use assms in auto)
  ultimately show ?thesis by (simp add: component_set_find_def)
qed

text \<open>Replacing a component by one with the same root.\<close>

lemma set_ok_update:
  assumes "set_ok s" "i < COMPONENT_MAX" "items s ! i = Some c" "root_id c' = root_id c"
  shows "set_ok (s\<lparr>items := (items s)[i := Some c']\<rparr>)"
proof -
  have root: "map_option root_id ((items s)[i := Some c'] ! j) = map_option root_id (items s ! j)" for j
    using assms by (auto simp: nth_list_update' set_ok_def)
  have "\<exists>e. items s ! j = Some e \<and> root_id e = root_id d" if "(items s)[i := Some c'] ! j = Some d" for j d
    using root [of j] that by (cases "items s ! j") auto
  then show ?thesis using assms(1) unfolding set_ok_def by (simp) metis
qed

section \<open>Tables\<close>

text \<open>What a slot holds under a generation.\<close>

definition table_resolve :: "capability_table \<Rightarrow> u32 \<Rightarrow> u32 \<Rightarrow> capability option" where
  "table_resolve t slot g = (if capability_table_generation t slot \<noteq> g then None else capability_table_get t slot)"

lemma table_resolve_Some:
  "table_resolve t slot g = Some k \<longleftrightarrow> capability_table_get t slot = Some k \<and> generations t ! unat slot = g"
  by (auto simp: table_resolve_def capability_table_generation_def split: if_splits)

text \<open>A table after some of its slots were cleared.\<close>

definition table_cleared :: "capability_table \<Rightarrow> (nat \<Rightarrow> bool) \<Rightarrow> capability_table \<Rightarrow> bool" where
  "table_cleared t P t' \<longleftrightarrow> table_shape t' \<and> generations t' = generations t \<and>
     (\<forall>s<CAP_TABLE_SLOTS. slots t' ! s = (if P s then zero_capability else slots t ! s) \<and>
        parents t' ! s = (if P s then CAP_SLOT_NONE else parents t ! s))"

lemma table_cleared_none: "table_shape t \<Longrightarrow> table_cleared t (\<lambda>_. False) t"
  by (simp add: table_cleared_def)

lemma table_cleared_step:
  assumes "table_cleared t P t'" "s < CAP_TABLE_SLOTS"
  shows "table_cleared t (\<lambda>i. P i \<or> i = s)
    (t'\<lparr>slots := (slots t')[s := zero_capability], parents := (parents t')[s := CAP_SLOT_NONE]\<rparr>)"
  using assms by (auto simp: table_cleared_def table_shape_def nth_list_update')

lemma cleared_get:
  assumes "table_cleared t P t'"
  shows "capability_table_get t' slot = (if P (unat slot) then None else capability_table_get t slot)"
  using assms by (auto simp: table_cleared_def capability_table_get_def)

lemma cleared_generation:
  assumes "table_cleared t P t'"
  shows "capability_table_generation t' slot = (if P (unat slot) then 0 else capability_table_generation t slot)"
  using cleared_get [OF assms, of slot] assms by (auto simp: capability_table_generation_def table_cleared_def)

text \<open>A cleared table stays well formed when no slot that stays was derived from a cleared one.\<close>

lemma cleared_wf:
  assumes cl: "table_cleared t P t'" and wf: "table_wf t"
    and closed: "\<And>s. s < CAP_TABLE_SLOTS \<Longrightarrow> \<not> P s \<Longrightarrow> unat (parents t ! s) < CAP_TABLE_SLOTS \<Longrightarrow> \<not> P (unat (parents t ! s))"
  shows "table_wf t'"
proof -
  let ?S = "{s. s < CAP_TABLE_SLOTS \<and> \<not> P s}"
  have "chain_loop t' (of_nat s) n" if "chain_loop t (of_nat s) n" "s \<in> ?S" for s n
  proof (rule chain_frame [OF that(1), of ?S])
    fix k assume k: "k \<in> ?S" "capability_table_get t (parents t ! k) \<noteq> None"
    then show "unat (parents t ! k) \<in> ?S" using closed [of k] by (auto simp: get_Some_iff)
  qed (use that(2) cl in \<open>auto simp: table_cleared_def\<close>)
  then have "chain_ok t s \<Longrightarrow> s \<in> ?S \<Longrightarrow> chain_ok t' s" for s by (auto simp: chain_ok_def)
  then show ?thesis using cl wf unfolding table_wf_def table_cleared_def by (auto simp: zero_capability_def)
qed

text \<open>A table after a capability was put into a claimed slot.\<close>

definition table_filled :: "capability_table \<Rightarrow> nat \<Rightarrow> capability \<Rightarrow> u32 \<Rightarrow> capability_table \<Rightarrow> bool" where
  "table_filled t s k q t' \<longleftrightarrow> (\<exists>t1. capability_table_claim_slot t = Some (t1, s) \<and>
     t' = t1\<lparr>slots := (slots t1)[s := k], parents := (parents t1)[s := q]\<rparr>)"

lemma filled_facts:
  assumes f: "table_filled t s k q t'" and shape: "table_shape t"
  shows "s < CAP_TABLE_SLOTS" "slot_free t s" "table_shape t'" "slots t' ! s = k" "parents t' ! s = q"
    "generations t' ! s = generations t ! s + 1" "generations t' ! s \<noteq> 0"
    "\<And>j. j \<noteq> s \<Longrightarrow> slots t' ! j = slots t ! j" "\<And>j. j \<noteq> s \<Longrightarrow> parents t' ! j = parents t ! j"
    "\<And>j. j \<noteq> s \<Longrightarrow> generations t' ! j = generations t ! j"
proof -
  obtain t1 where cl: "capability_table_claim_slot t = Some (t1, s)"
    and t': "t' = t1\<lparr>slots := (slots t1)[s := k], parents := (parents t1)[s := q]\<rparr>"
    using f by (auto simp: table_filled_def)
  note c = claim_slot_Some [OF cl]
  show "s < CAP_TABLE_SLOTS" "slot_free t s" by (fact c)+
  show "table_shape t'" "slots t' ! s = k" "parents t' ! s = q" and g: "generations t' ! s = generations t ! s + 1"
    "\<And>j. j \<noteq> s \<Longrightarrow> slots t' ! j = slots t ! j" "\<And>j. j \<noteq> s \<Longrightarrow> parents t' ! j = parents t ! j"
    "\<And>j. j \<noteq> s \<Longrightarrow> generations t' ! j = generations t ! j"
    using shape c(1,4) by (simp_all add: t' table_shape_def)
  have "unat (generations t ! s + 1) \<noteq> 0" using unat_inc32 [OF c(3)] by simp
  then show "generations t' ! s \<noteq> 0" using g by auto
qed

lemma filled_get:
  assumes f: "table_filled t s k q t'" and shape: "table_shape t" and k: "capability_is_valid (Some k)"
  shows "capability_table_get t' slot = (if unat slot = s then Some k else capability_table_get t slot)"
  using filled_facts [OF f shape] k by (auto simp: capability_table_get_def)

lemma filled_generation:
  assumes f: "table_filled t s k q t'" and shape: "table_shape t" and k: "capability_is_valid (Some k)"
  shows "capability_table_generation t' slot =
    (if unat slot = s then generations t ! s + 1 else capability_table_generation t slot)"
  using filled_get [OF assms, of slot] filled_facts [OF f shape] by (auto simp: capability_table_generation_def)

lemma filled_wf:
  assumes "table_filled t s k q t'" "table_wf t" "capability_is_valid (Some k)"
    "q = CAP_SLOT_NONE \<or> (\<exists>p. capability_table_get t q = Some p \<and> capability_allows (Some p) CAP_RIGHT_GRANT \<and>
       cap_object k = cap_object p \<and> rights k AND rights p = rights k)"
  shows "table_wf t'"
  using assms(1) install_wf [OF assms(2) _ assms(3,4)] by (auto simp: table_filled_def)

section \<open>Resolving references\<close>

lemma resolve_item:
  assumes "set_ok (components dm)" "i < COMPONENT_MAX" "items (components dm) ! i = Some c"
    "\<not> component_is_fenced (dm_store dm) (root_id c)" "component_id r = root_id c"
  shows "capability_domain_resolve dm r = table_resolve (cap_table c) (ref_slot r) (ref_generation r)"
proof -
  have f: "component_set_find (components dm) (component_id r) = Some i"
    using find_item [OF assms(1-3)] assms(5) by simp
  have z: "\<not> object_id_is_zero (component_id r)" using assms by (auto simp: set_ok_def)
  have "table_resolve (cap_table c) (ref_slot r) (ref_generation r) = None"
    if "ref_generation r = 0 \<or> CAP_TABLE_SLOTS \<le> unat (ref_slot r)"
    using that by (auto simp: table_resolve_def capability_table_generation_def capability_table_get_def split: if_splits)
  then show ?thesis
    using f z assms(3,4) by (auto simp: capability_domain_resolve_def capability_ref_is_valid_def Let_def table_resolve_def)
qed

lemma resolve_Some:
  assumes "capability_domain_resolve dm r = Some k"
  obtains i c where "i < COMPONENT_MAX" "items (components dm) ! i = Some c" "root_id c = component_id r"
    "\<not> component_is_fenced (dm_store dm) (root_id c)" "capability_table_get (cap_table c) (ref_slot r) = Some k"
    "r = reference c (ref_slot r)" "capability_ref_is_valid r"
proof -
  from assms obtain i where f: "component_set_find (components dm) (component_id r) = Some i" and v: "capability_ref_is_valid r"
    by (auto simp: capability_domain_resolve_def split: if_splits option.splits)
  obtain c where c: "i < COMPONENT_MAX" "items (components dm) ! i = Some c" "root_id c = component_id r"
    by (rule find_Some_item [OF f])
  with assms f v have g: "\<not> component_is_fenced (dm_store dm) (root_id c)"
    "capability_table_generation (cap_table c) (ref_slot r) = ref_generation r"
    "capability_table_get (cap_table c) (ref_slot r) = Some k"
    by (auto simp: capability_domain_resolve_def Let_def split: if_splits)
  have "r = reference c (ref_slot r)" using c(3) g(2) by (simp add: reference_def capability_ref_make_def)
  from that [OF c g(1,3) this v] show thesis .
qed

lemma reference_simps [simp]:
  "component_id (reference c s) = root_id c" "ref_slot (reference c s) = s"
  "ref_generation (reference c s) = capability_table_generation (cap_table c) s"
  by (simp_all add: reference_def capability_ref_make_def)

lemma reference_valid:
  "capability_ref_is_valid (reference c s) \<Longrightarrow> capability_table_get (cap_table c) s \<noteq> None"
  by (auto simp: capability_ref_is_valid_def capability_table_generation_def split: if_splits)

section \<open>A consistent domain\<close>

text \<open>An edge of the graph: what the first loop of \<open>graph_matches\<close> checks.\<close>

definition edge_grants :: "capability option \<Rightarrow> capability option \<Rightarrow> bool" where
  "edge_grants p k \<longleftrightarrow> p \<noteq> None \<and> k \<noteq> None \<and> capability_allows p CAP_RIGHT_GRANT \<and>
     cap_object (the p) = cap_object (the k) \<and> rights (the p) AND rights (the k) = rights (the k)"

text \<open>The parent links of a component and the edges between its own capabilities.\<close>

definition links_ok :: "capability_derivation_table \<Rightarrow> 'i component \<Rightarrow> bool" where
  "links_ok l c \<longleftrightarrow> (\<forall>s<CAP_TABLE_SLOTS.
     (parents (cap_table c) ! s \<noteq> CAP_SLOT_NONE \<longrightarrow>
        lineage_edge l (reference c (parents (cap_table c) ! s)) (reference c (of_nat s))) \<and>
     (\<forall>q. lineage_edge l q (reference c (of_nat s)) \<longrightarrow> component_id q = root_id c \<longrightarrow>
        ref_slot q = parents (cap_table c) ! s))"

lemma derivation_parent_iff:
  assumes "derivation_wf l"
  shows "capability_derivation_parent l r = Some q \<longleftrightarrow> lineage_edge l q r"
proof -
  have wf: "capability_derivation_table_is_valid l" "d_count l \<le> length (records l)"
    "distinct (map d_child (live_records l))" "graph_forest (live_records l)"
    using assms is_valid_iff_derivation_wf [of l] by (auto simp: derivation_wf_def derivation_shape_def graph_forest_def)
  have v: "capability_ref_is_valid r" if "lineage_edge l q r"
    using that wf(4) by (auto simp: graph_forest_def graph_edge_iff)
  show ?thesis
  proof
    assume "capability_derivation_parent l r = Some q"
    then show "lineage_edge l q r"
      using find_child_Some(3) [OF _ wf(2)] by (auto simp: capability_derivation_parent_def split: if_splits)
  next
    assume e: "lineage_edge l q r"
    obtain i where "find_child_record l r = Some i" "d_parent (records l ! i) = q"
      by (rule find_child_edge [OF wf(3,2) e])
    then show "capability_derivation_parent l r = Some q" using v [OF e] wf(1) by (simp add: capability_derivation_parent_def)
  qed
qed

lemma slot_matches_iff:
  assumes "derivation_wf (lineage dm)"
  shows "slot_matches dm c s \<longleftrightarrow>
    (parents (cap_table c) ! s \<noteq> CAP_SLOT_NONE \<longrightarrow>
       lineage_edge (lineage dm) (reference c (parents (cap_table c) ! s)) (reference c (of_nat s))) \<and>
    (\<forall>q. lineage_edge (lineage dm) q (reference c (of_nat s)) \<longrightarrow> component_id q = root_id c \<longrightarrow>
       ref_slot q = parents (cap_table c) ! s)"
  by (cases "capability_derivation_parent (lineage dm) (reference c (of_nat s))")
    (auto simp: slot_matches_def Let_def derivation_parent_iff [OF assms, symmetric])

lemma graph_matches_iff:
  assumes "derivation_wf (lineage dm)"
  shows "graph_matches dm \<longleftrightarrow>
    (\<forall>p c. lineage_edge (lineage dm) p c \<longrightarrow> edge_grants (capability_domain_resolve dm p) (capability_domain_resolve dm c)) \<and>
    (\<forall>i<COMPONENT_MAX. \<forall>c. items (components dm) ! i = Some c \<longrightarrow>
       comp_store c = dm_store_id dm \<and> capability_table_is_valid (cap_table c) \<and> links_ok (lineage dm) c)"
proof -
  have len: "d_count (lineage dm) \<le> length (records (lineage dm))"
    using assms by (simp add: derivation_wf_def derivation_shape_def)
  have "list_all (\<lambda>i. edge_matches dm (records (lineage dm) ! i)) [0..<d_count (lineage dm)] \<longleftrightarrow>
      (\<forall>r\<in>set (live_records (lineage dm)). edge_matches dm r)"
    unfolding live_records_def set_take_nth [OF len] by (auto simp: list_all_iff)
  also have "\<dots> \<longleftrightarrow> (\<forall>p c. lineage_edge (lineage dm) p c \<longrightarrow>
      edge_grants (capability_domain_resolve dm p) (capability_domain_resolve dm c))"
    by (auto simp: graph_edge_iff edge_matches_def edge_grants_def Let_def)
  finally show ?thesis
    by (auto simp: graph_matches_def list_all_iff component_matches_def links_ok_def slot_matches_iff [OF assms] split: option.splits)
qed

text \<open>Every slot that a message in the mailbox carries holds a capability.\<close>

definition mail_ok :: "'i component \<Rightarrow> bool" where
  "mail_ok c \<longleftrightarrow> (\<exists>ms. mailbox_holds c ms \<and>
     (\<forall>m\<in>set ms. fst m = UINT32_MAX \<or> capability_table_get (cap_table c) (fst m) \<noteq> None))"

definition domain_ok :: "('d, 'i, 'p) capability_domain \<Rightarrow> bool" where
  "domain_ok dm \<longleftrightarrow> set_ok (components dm) \<and> derivation_wf (lineage dm) \<and> graph_matches dm \<and>
     (\<forall>i<COMPONENT_MAX. \<forall>c. items (components dm) ! i = Some c \<longrightarrow>
        caps_ok c \<and> mail_ok c \<and> \<not> component_is_fenced (dm_store dm) (root_id c))"

lemma domain_okD:
  assumes "domain_ok dm"
  shows "set_ok (components dm)" "derivation_wf (lineage dm)"
    "lineage_edge (lineage dm) p r \<Longrightarrow> edge_grants (capability_domain_resolve dm p) (capability_domain_resolve dm r)"
    "i < COMPONENT_MAX \<Longrightarrow> items (components dm) ! i = Some c \<Longrightarrow> caps_ok c"
    "i < COMPONENT_MAX \<Longrightarrow> items (components dm) ! i = Some c \<Longrightarrow> mail_ok c"
    "i < COMPONENT_MAX \<Longrightarrow> items (components dm) ! i = Some c \<Longrightarrow> \<not> component_is_fenced (dm_store dm) (root_id c)"
    "i < COMPONENT_MAX \<Longrightarrow> items (components dm) ! i = Some c \<Longrightarrow> comp_store c = dm_store_id dm"
    "i < COMPONENT_MAX \<Longrightarrow> items (components dm) ! i = Some c \<Longrightarrow> links_ok (lineage dm) c"
  using assms graph_matches_iff [of dm] by (auto simp: domain_ok_def)

lemma domain_okI:
  fixes dm :: "('d, 'i, 'p) capability_domain"
  assumes "set_ok (components dm)" "derivation_wf (lineage dm)"
    "\<And>p r. lineage_edge (lineage dm) p r \<Longrightarrow> edge_grants (capability_domain_resolve dm p) (capability_domain_resolve dm r)"
    "\<And>i c. i < COMPONENT_MAX \<Longrightarrow> items (components dm) ! i = Some c \<Longrightarrow> caps_ok c \<and> mail_ok c \<and>
       \<not> component_is_fenced (dm_store dm) (root_id c) \<and> comp_store c = dm_store_id dm \<and> links_ok (lineage dm) c"
  shows "domain_ok dm"
proof -
  have "capability_table_is_valid (cap_table c)" if "caps_ok c" for c :: "'i component"
    using that is_valid_iff_wf [of "cap_table c"] by (simp add: caps_ok_def table_wf_def)
  then have "graph_matches dm" unfolding graph_matches_iff [OF assms(2)] using assms(3,4) by blast
  then show ?thesis using assms by (simp add: domain_ok_def)
qed

section \<open>A new capability below an existing one\<close>

lemma add_True:
  assumes wf: "derivation_wf l" and add: "capability_derivation_add l p r = (True, l')"
  shows "derivation_wf l'" "lineage_edge l' x y \<longleftrightarrow> lineage_edge l x y \<or> (x = p \<and> y = r)"
    "capability_ref_is_valid p" "capability_ref_is_valid r" "\<not> lineage_edge l q r"
proof -
  have shape: "derivation_shape l" using wf by (simp add: derivation_wf_def)
  note a = add_result [OF shape wf, of p r] add
  from a have v: "capability_ref_is_valid p \<and> capability_ref_is_valid r \<and> d_count l < CAP_DERIVATION_MAX \<and>
      r \<notin> d_child ` set (live_records l) \<and> \<not> (lineage_edge l)\<^sup>*\<^sup>* r p"
    and l': "l' = l\<lparr>records := (records l)[d_count l := \<lparr>d_parent = p, d_child = r\<rparr>], d_count := d_count l + 1\<rparr>"
    by (auto split: if_splits)
  from v show "capability_ref_is_valid p" "capability_ref_is_valid r" "\<not> lineage_edge l q r"
    by (auto simp: graph_edge_iff)
  have "capability_derivation_table_is_valid l'" using add
    by (auto simp: capability_derivation_add_def Let_def split: if_splits)
  moreover have "derivation_shape l'" using shape by (simp add: l' derivation_shape_def)
  ultimately show "derivation_wf l'" using is_valid_iff_derivation_wf by blast
  have "live_records l' = live_records l @ [\<lparr>d_parent = p, d_child = r\<rparr>]"
    using v shape by (simp add: l' live_records_def derivation_shape_def take_Suc_conv_app_nth)
  then show "lineage_edge l' x y \<longleftrightarrow> lineage_edge l x y \<or> (x = p \<and> y = r)" by (auto simp: graph_edge_def)
qed

text \<open>
  The step that derivation and sending share: the component at index \<open>i\<close> receives the
  capability \<open>k\<close> in the slot \<open>s\<close>, derived from what \<open>p\<close> refers to.
\<close>

definition graft ::
    "('d, 'i, 'p) capability_domain \<Rightarrow> ('d, 'i, 'p) capability_domain \<Rightarrow> nat \<Rightarrow> 'i component \<Rightarrow> 'i component \<Rightarrow>
     capability_ref \<Rightarrow> capability \<Rightarrow> capability_ref \<Rightarrow> capability \<Rightarrow> nat \<Rightarrow> bool" where
  "graft dm dm' i c c' p kp child k s \<longleftrightarrow>
     domain_ok dm \<and> i < COMPONENT_MAX \<and> items (components dm) ! i = Some c \<and>
     capability_domain_resolve dm p = Some kp \<and> capability_is_valid (Some k) \<and> edge_grants (Some kp) (Some k) \<and>
     table_filled (cap_table c) s k (if component_id p = root_id c then ref_slot p else CAP_SLOT_NONE) (cap_table c') \<and>
     child = reference c' (of_nat s) \<and> capability_derivation_add (lineage dm) p child = (True, lineage dm') \<and>
     root_id c' = root_id c \<and> comp_store c' = comp_store c \<and> caps_ok c' \<and> mail_ok c' \<and>
     components dm' = (components dm)\<lparr>items := (items (components dm))[i := Some c']\<rparr> \<and>
     dm_store_id dm' = dm_store_id dm \<and>
     (\<forall>r. component_is_fenced (dm_store dm') r = component_is_fenced (dm_store dm) r)"

lemma graftD:
  assumes "graft dm dm' i c c' p kp child k s"
  shows graft_old: "domain_ok dm" "i < COMPONENT_MAX" "items (components dm) ! i = Some c"
    and graft_parent: "capability_domain_resolve dm p = Some kp"
    and graft_new: "capability_is_valid (Some k)" "edge_grants (Some kp) (Some k)"
    and graft_filled: "table_filled (cap_table c) s k (if component_id p = root_id c then ref_slot p else CAP_SLOT_NONE) (cap_table c')"
    and graft_child: "child = reference c' (of_nat s)"
    and graft_add: "capability_derivation_add (lineage dm) p child = (True, lineage dm')"
    and graft_item: "root_id c' = root_id c" "comp_store c' = comp_store c" "caps_ok c'" "mail_ok c'"
    and graft_domain: "components dm' = (components dm)\<lparr>items := (items (components dm))[i := Some c']\<rparr>"
      "dm_store_id dm' = dm_store_id dm"
      "\<And>r. component_is_fenced (dm_store dm') r = component_is_fenced (dm_store dm) r"
  using assms unfolding graft_def by blast+


lemma graft_table:
  assumes g: "graft dm dm' i c c' p kp child k s"
  shows "table_shape (cap_table c)" "set_ok (components dm')" "s < CAP_TABLE_SLOTS" "slot_free (cap_table c) s"
    "unat (of_nat s :: u32) = s" "\<not> component_is_fenced (dm_store dm) (root_id c)"
    "j < COMPONENT_MAX \<Longrightarrow> items (components dm') ! j = (if j = i then Some c' else items (components dm) ! j)"
proof -
  note ok = graft_old(1) [OF g] and i = graft_old(2) [OF g] and c = graft_old(3) [OF g]
  show shape: "table_shape (cap_table c)" using domain_okD(4) [OF ok i c] by (simp add: caps_ok_def table_wf_def)
  show "set_ok (components dm')"
    unfolding graft_domain [OF g] by (rule set_ok_update [OF domain_okD(1) [OF ok] i c graft_item(1) [OF g]])
  show "s < CAP_TABLE_SLOTS" "slot_free (cap_table c) s" "unat (of_nat s :: u32) = s"
    using filled_facts(1,2) [OF graft_filled [OF g] shape] by auto
  show "\<not> component_is_fenced (dm_store dm) (root_id c)" by (rule domain_okD(6) [OF ok i c])
  show "j < COMPONENT_MAX \<Longrightarrow> items (components dm') ! j = (if j = i then Some c' else items (components dm) ! j)"
    using i domain_okD(1) [OF ok] by (auto simp: graft_domain [OF g] nth_list_update' set_ok_def)
qed

lemma graft_old_child:
  assumes g: "graft dm dm' i c c' p kp child k s"
  shows "capability_domain_resolve dm child = None"
proof -
  have "capability_table_get (cap_table c) (of_nat s) = None" using graft_table [OF g] by (simp add: get_None_free)
  then show ?thesis
    using resolve_item [OF domain_okD(1) [OF graft_old(1) [OF g]] graft_old(2,3) [OF g] graft_table(6) [OF g], of child]
    by (simp add: graft_child [OF g] graft_item [OF g] table_resolve_def)
qed

lemma find_same_roots:
  assumes "\<And>j. j < COMPONENT_MAX \<Longrightarrow> map_option root_id (items s ! j) = map_option root_id (items s' ! j)"
  shows "component_set_find s r = component_set_find s' r"
proof -
  have "(case items s ! j of None \<Rightarrow> False | Some d \<Rightarrow> object_id_equal (root_id d) r) =
      (case items s' ! j of None \<Rightarrow> False | Some d \<Rightarrow> object_id_equal (root_id d) r)" if "j < COMPONENT_MAX" for j
    using assms [OF that] by (cases "items s ! j"; cases "items s' ! j") auto
  then show ?thesis unfolding component_set_find_def by (auto intro!: find_cong)
qed

text \<open>The new reference resolves to the new capability and every other one to what it did.\<close>

lemma graft_resolve:
  assumes g: "graft dm dm' i c c' p kp child k s"
  shows "capability_domain_resolve dm' = (capability_domain_resolve dm)(child \<mapsto> k)"
proof
  fix r
  note ok = graft_old(1) [OF g] and i = graft_old(2) [OF g] and c = graft_old(3) [OF g] and sok = domain_okD(1) [OF graft_old(1) [OF g]]
    and shape = graft_table(1) [OF g] and u = graft_table(5) [OF g] and filled = graft_filled [OF g] and k = graft_new(1) [OF g]
  have gen: "capability_table_generation (cap_table c') (of_nat s) = generations (cap_table c) ! s + 1"
    using filled_generation [OF filled shape k] u by simp
  show "capability_domain_resolve dm' r = ((capability_domain_resolve dm)(child \<mapsto> k)) r"
  proof (cases "component_id r = root_id c")
    case True
    have "capability_domain_resolve dm' r = table_resolve (cap_table c') (ref_slot r) (ref_generation r)"
      using True graft_table(6) [OF g] graft_table(7) [OF g i] graft_domain(3) [OF g] graft_item(1) [OF g]
      by (intro resolve_item [OF graft_table(2) [OF g] i]) auto
    moreover have "capability_domain_resolve dm r = table_resolve (cap_table c) (ref_slot r) (ref_generation r)"
      by (rule resolve_item [OF sok i c graft_table(6) [OF g] True])
    moreover have "r = child \<longleftrightarrow> unat (ref_slot r) = s \<and> ref_generation r = generations (cap_table c) ! s + 1"
      using True u gen by (auto simp: graft_child [OF g] graft_item [OF g] reference_def capability_ref_make_def)
    moreover have "capability_table_get (cap_table c) (ref_slot r) = None" if "unat (ref_slot r) = s"
      using that graft_table(4) [OF g] by (simp add: get_None_free)
    ultimately show ?thesis
      using filled_get [OF filled shape k, of "ref_slot r"] filled_generation [OF filled shape k, of "ref_slot r"]
      by (auto simp: table_resolve_def)
  next
    case False
    have find: "component_set_find (components dm') (component_id r) = component_set_find (components dm) (component_id r)"
      using c graft_item(1) [OF g] graft_table(7) [OF g] by (intro find_same_roots) auto
    have "j \<noteq> i \<and> j < COMPONENT_MAX" if "component_set_find (components dm) (component_id r) = Some j" for j
      by (rule find_Some_item [OF that]) (use False c in auto)
    moreover have "r \<noteq> child" using False graft_item(1) [OF g] graft_child [OF g] by auto
    ultimately show ?thesis
      using find graft_domain(3) [OF g] graft_table(7) [OF g]
      by (auto simp: capability_domain_resolve_def Let_def split: option.splits)
  qed
qed

lemma graft_parent_local:
  assumes g: "graft dm dm' i c c' p kp child k s" and a: "component_id p = root_id c"
  shows "p = reference c (ref_slot p) \<and> unat (ref_slot p) \<noteq> s"
proof -
  note ok = graft_old(1) [OF g] and i = graft_old(2) [OF g] and c = graft_old(3) [OF g]
  obtain j d where d: "j < COMPONENT_MAX" "items (components dm) ! j = Some d" "root_id d = component_id p"
    "capability_table_get (cap_table d) (ref_slot p) = Some kp" "p = reference d (ref_slot p)"
    by (rule resolve_Some [OF graft_parent [OF g]])
  have "j = i" using set_ok_unique [OF domain_okD(1) [OF ok] d(1) i d(2) c] a d(3) by simp
  then have "d = c" using c d(2) by simp
  moreover have "unat (ref_slot p) \<noteq> s"
    using d(4) graft_table(4) [OF g] \<open>d = c\<close> get_None_free [of "cap_table c" "ref_slot p"] by auto
  ultimately show ?thesis using d(5) by simp
qed

lemma graft_reference:
  assumes g: "graft dm dm' i c c' p kp child k s" and "unat x \<noteq> s"
  shows "reference c' x = reference c x"
  using filled_generation [OF graft_filled [OF g] graft_table(1) [OF g] graft_new(1) [OF g], of x] assms(2)
  by (simp add: reference_def graft_item [OF g])

lemma edge_refs_valid:
  assumes "derivation_wf l" "lineage_edge l p r"
  shows "capability_ref_is_valid p" "capability_ref_is_valid r"
  using assms by (auto simp: derivation_wf_def graph_forest_def graph_edge_iff)

lemma graft_links:
  assumes g: "graft dm dm' i c c' p kp child k s"
  shows "links_ok (lineage dm') c'"
  unfolding links_ok_def
proof (intro allI impI)
  fix j assume j: "j < CAP_TABLE_SLOTS"
  note ok = graft_old(1) [OF g] and i = graft_old(2) [OF g] and c = graft_old(3) [OF g]
    and edge = add_True(2) [OF domain_okD(2) [OF graft_old(1) [OF g]] graft_add [OF g]] and old = domain_okD(8) [OF graft_old(1) [OF g] graft_old(2,3) [OF g]]
    and filled = filled_facts [OF graft_filled [OF g] graft_table(1) [OF g]]
  have u: "unat (of_nat j :: u32) = j" using j by simp
  show "(parents (cap_table c') ! j \<noteq> CAP_SLOT_NONE \<longrightarrow>
      lineage_edge (lineage dm') (reference c' (parents (cap_table c') ! j)) (reference c' (of_nat j))) \<and>
    (\<forall>q. lineage_edge (lineage dm') q (reference c' (of_nat j)) \<longrightarrow> component_id q = root_id c' \<longrightarrow>
      ref_slot q = parents (cap_table c') ! j)"
  proof (cases "j = s")
    case True
    have n: "\<not> lineage_edge (lineage dm) q child" for q
      by (rule add_True(5) [OF domain_okD(2) [OF ok] graft_add [OF g]])
    have "reference c' (ref_slot p) = p" if "component_id p = root_id c"
      using graft_parent_local [OF g that] graft_reference [OF g] by metis
    then show ?thesis using True n edge filled(5) graft_child [OF g] graft_item(1) [OF g] by auto
  next
    case False
    have ne: "reference c' (of_nat j) \<noteq> child"
      using False u graft_table(5) [OF g] graft_child [OF g] by (metis reference_simps(2))
    have r: "reference c' (of_nat j) = reference c (of_nat j)" using graft_reference [OF g] False u by simp
    have ps: "parents (cap_table c') ! j = parents (cap_table c) ! j" using filled(9) False by simp
    have "reference c' (parents (cap_table c) ! j) = reference c (parents (cap_table c) ! j)"
      if e: "lineage_edge (lineage dm) (reference c (parents (cap_table c) ! j)) (reference c (of_nat j))"
    proof (rule graft_reference [OF g], rule notI)
      assume "unat (parents (cap_table c) ! j) = s"
      then have "capability_table_get (cap_table c) (parents (cap_table c) ! j) = None"
        using graft_table(4) [OF g] by (simp add: get_None_free)
      then show False using reference_valid edge_refs_valid(1) [OF domain_okD(2) [OF ok] e] by blast
    qed
    then show ?thesis using old j r ps edge ne graft_item(1) [OF g] unfolding links_ok_def by metis
  qed
qed

lemma graft_links_other:
  assumes g: "graft dm dm' i c c' p kp child k s" and d: "j < COMPONENT_MAX" "j \<noteq> i" "items (components dm) ! j = Some d"
  shows "links_ok (lineage dm') d"
proof -
  note ok = graft_old(1) [OF g] and i = graft_old(2) [OF g] and c = graft_old(3) [OF g]
  have "root_id d \<noteq> root_id c" using set_ok_unique [OF domain_okD(1) [OF ok] d(1) i d(3) c] d(2) by blast
  then have "reference d x \<noteq> child" for x using graft_child [OF g] graft_item(1) [OF g] by (metis reference_simps(1))
  then show ?thesis
    using domain_okD(8) [OF ok d(1,3)] add_True(2) [OF domain_okD(2) [OF ok] graft_add [OF g]] by (simp add: links_ok_def)
qed

lemma graft_ok:
  assumes g: "graft dm dm' i c c' p kp child k s"
  shows "domain_ok dm'"
proof (rule domain_okI [OF graft_table(2) [OF g]])
  note ok = graft_old(1) [OF g] and i = graft_old(2) [OF g] and c = graft_old(3) [OF g] and wf = domain_okD(2) [OF graft_old(1) [OF g]]
  show "derivation_wf (lineage dm')" by (rule add_True(1) [OF wf graft_add [OF g]])
  fix a b assume "lineage_edge (lineage dm') a b"
  then consider "lineage_edge (lineage dm) a b" | "a = p" "b = child" using add_True(2) [OF wf graft_add [OF g]] by blast
  then show "edge_grants (capability_domain_resolve dm' a) (capability_domain_resolve dm' b)"
  proof cases
    case 1
    note e = domain_okD(3) [OF ok 1]
    then have "a \<noteq> child" "b \<noteq> child" using graft_old_child [OF g] by (auto simp: edge_grants_def)
    then show ?thesis using e by (simp add: graft_resolve [OF g])
  next
    case 2
    have "p \<noteq> child" using graft_parent [OF g] graft_old_child [OF g] by auto
    then show ?thesis using 2 graft_parent [OF g] graft_new [OF g] by (simp add: graft_resolve [OF g])
  qed
next
  note ok = graft_old(1) [OF g] and i = graft_old(2) [OF g] and c = graft_old(3) [OF g]
  fix j d assume j: "j < COMPONENT_MAX" and d: "items (components dm') ! j = Some d"
  show "caps_ok d \<and> mail_ok d \<and> \<not> component_is_fenced (dm_store dm') (root_id d) \<and> comp_store d = dm_store_id dm' \<and>
      links_ok (lineage dm') d"
  proof (cases "j = i")
    case True
    then have "d = c'" using d j graft_table(7) [OF g] by simp
    then show ?thesis using graft_item [OF g] graft_links [OF g] domain_okD(6,7) [OF ok i c] graft_domain(2,3) [OF g] by simp
  next
    case False
    then have "items (components dm) ! j = Some d" using d j graft_table(7) [OF g] by simp
    then show ?thesis using domain_okD(4-7) [OF ok j] graft_links_other [OF g j False] graft_domain(2,3) [OF g] by simp
  qed
qed

section \<open>Derivation and use\<close>

lemma caps_ok_fill:
  assumes ok: "caps_ok c" and f: "table_filled (cap_table c) s k q t'" and wf: "table_wf t'"
    and c': "cap_table c' = t'" "capability_count c' = raise_count (of_nat s) (capability_count c)"
  shows "caps_ok c'"
proof -
  obtain t1 where "capability_table_claim_slot (cap_table c) = Some (t1, s)"
    "t' = t1\<lparr>slots := (slots t1)[s := k], parents := (parents t1)[s := q]\<rparr>"
    using f by (auto simp: table_filled_def)
  from caps_ok_install [OF ok this wf] show ?thesis by (simp add: caps_ok_def c' raise_count_def)
qed

lemma mail_ok_mono:
  assumes "mail_ok c" "mailbox c' = mailbox c" "mailbox_used c' = mailbox_used c"
    "\<And>x. capability_table_get (cap_table c) x \<noteq> None \<Longrightarrow> capability_table_get (cap_table c') x \<noteq> None"
  shows "mail_ok c'"
  using assms unfolding mail_ok_def mailbox_holds_def by metis

lemma filled_get_mono:
  assumes "table_filled t s k q t'" "table_shape t" "capability_is_valid (Some k)" "capability_table_get t x \<noteq> None"
  shows "capability_table_get t' x \<noteq> None"
  using filled_get [OF assms(1-3), of x] assms(4) by simp

lemma filled_reference:
  assumes "table_filled t s k q (cap_table c')" "table_shape t" "capability_is_valid (Some k)"
  shows "capability_ref_make (root_id c') (of_nat s) (generations (cap_table c') ! s) = reference c' (of_nat s)"
  using filled_facts(1) [OF assms(1,2)] filled_get [OF assms, of "of_nat s"]
  by (simp add: reference_def capability_table_generation_def)

lemma member_Some:
  assumes "member dm i = Some j"
  obtains c where "j = i" "i < COMPONENT_MAX" "items (components dm) ! i = Some c"
  using assms by (auto simp: member_def split: if_splits)

lemma get_resolves:
  assumes "domain_ok dm" "i < COMPONENT_MAX" "items (components dm) ! i = Some c"
  shows "capability_domain_resolve dm (reference c slot) = capability_table_get (cap_table c) slot"
  using resolve_item [OF domain_okD(1) [OF assms(1)] assms(2,3) domain_okD(6) [OF assms], of "reference c slot"]
  by (simp add: table_resolve_def)

text \<open>A successful derivation is a graft below the slot it names; a failed one changes nothing.\<close>

lemma derive_graft:
  assumes ok: "domain_ok dm" and d: "capability_domain_derive dm owner slot r b = (dm', n)"
  obtains "n < 0" "dm' = dm"
  | c c' kp k s where "graft dm dm' owner c c' (reference c slot) kp (reference c' (of_nat s)) k s"
      "n = int s" "rights k = r" "badge k = b"
proof (cases "n < 0 \<and> dm' = dm")
  case True
  then show thesis using that(1) by blast
next
  case False
  then obtain i where m: "member dm owner = Some i"
    using d by (auto simp: capability_domain_derive_def JANI_EINVAL_def split: option.splits)
  obtain c where c: "i = owner" "owner < COMPONENT_MAX" "items (components dm) ! owner = Some c"
    by (rule member_Some [OF m])
  define t where "t = cap_table c"
  from False d m c obtain staged child where dv: "capability_table_derive t slot r b = Some (staged, child)"
    by (auto simp: capability_domain_derive_def JANI_EINVAL_def JANI_EPERM_def Let_def t_def split: option.splits if_splits)
  obtain kp k t1 s where k: "capability_table_get t slot = Some kp" "capability_allows (Some kp) CAP_RIGHT_GRANT"
    "capability_is_valid (Some k)" "cap_object k = cap_object kp" "rights k AND rights kp = rights k" "rights k = r" "badge k = b"
    and cl: "capability_table_claim_slot t = Some (t1, s)" and child: "child = of_nat s"
    and staged: "staged = t1\<lparr>slots := (slots t1)[s := k], parents := (parents t1)[s := slot]\<rparr>"
    by (rule derive_Some [OF dv])
  have caps: "caps_ok c" "mail_ok c" using domain_okD(4,5) [OF ok c(2,3)] by auto
  then have wf: "table_wf t" "table_shape t" by (auto simp: caps_ok_def table_wf_def t_def)
  have filled: "table_filled t s k slot staged" using cl staged by (auto simp: table_filled_def)
  define c' where "c' = c\<lparr>cap_table := staged, capability_count := raise_count child (capability_count c)\<rparr>"
  have s: "unat child = s" using filled_facts(1) [OF filled wf(2)] child by simp
  have cref: "capability_ref_make (root_id c) child (generations staged ! unat child) = reference c' (of_nat s)"
    using filled_reference [of t s k slot c'] filled wf(2) k(3) s child by (simp add: c'_def)
  from False d m c dv cref have
    add: "capability_derivation_add (lineage dm) (reference c slot) (reference c' (of_nat s)) = (True, lineage dm')"
    and dm': "dm' = (set_item dm owner c')\<lparr>lineage := lineage dm', lineage_dirty := 1, tables_dirty := tables_dirty dm OR push_bit owner 1\<rparr>"
    and n: "n = int s"
    by (auto simp: capability_domain_derive_def JANI_EINVAL_def JANI_EPERM_def JANI_ENOSPC_def Let_def c'_def s t_def
        split: option.splits if_splits prod.splits bool.splits)
  have "graft dm dm' owner c c' (reference c slot) kp (reference c' (of_nat s)) k s"
    unfolding graft_def
  proof (intro conjI)
    show "capability_domain_resolve dm (reference c slot) = Some kp" using get_resolves [OF ok c(2,3)] k(1) by (simp add: t_def)
    show "edge_grants (Some kp) (Some k)" using k by (simp add: edge_grants_def and.commute)
    show "caps_ok c'"
      by (rule caps_ok_fill [OF caps(1) _ derive_wf [OF wf(1) dv], of s k slot]) (use filled child in \<open>simp_all add: c'_def t_def\<close>)
    show "mail_ok c'" using mail_ok_mono [OF caps(2), of c'] filled_get_mono [OF filled wf(2) k(3)] by (simp add: c'_def t_def)
    show "table_filled (cap_table c) s k (if component_id (reference c slot) = root_id c then ref_slot (reference c slot)
        else CAP_SLOT_NONE) (cap_table c')" using filled by (simp add: c'_def t_def)
    show "components dm' = (components dm)\<lparr>items := (items (components dm))[owner := Some c']\<rparr>"
      "dm_store_id dm' = dm_store_id dm" "\<forall>r. component_is_fenced (dm_store dm') r = component_is_fenced (dm_store dm) r"
      by (subst dm'; simp add: set_item_def)+
  qed (use ok c k add in \<open>auto simp: c'_def\<close>)
  then show thesis using that(2) n k by blast
qed

lemma derive_ok: "domain_ok dm \<Longrightarrow> capability_domain_derive dm owner slot r b = (dm', n) \<Longrightarrow> domain_ok dm'"
  by (rule derive_graft) (auto dest: graft_ok)

section \<open>Reading, writing and sending\<close>

text \<open>Reading an object may move the cache, but keeps the table of objects.\<close>

lemma cache_remove_slot_table [frame_simps]:
  "st_table (cache_remove_slot s k) = st_table s" "st_recovery_required (cache_remove_slot s k) = st_recovery_required s"
  by (simp_all add: cache_remove_slot_def Let_def)

lemma cache_evict_table [frame_simps]:
  "st_table (cache_evict_lru s) = st_table s" "st_recovery_required (cache_evict_lru s) = st_recovery_required s"
  "st_table (cache_remove_id s i) = st_table s" "st_recovery_required (cache_remove_id s i) = st_recovery_required s"
  by (auto simp: cache_evict_lru_def cache_remove_id_def frame_simps split: option.splits)

lemma evict_slots_table [frame_simps]:
  "st_table (evict_slots s) = st_table s" "st_recovery_required (evict_slots s) = st_recovery_required s"
  by (induction s rule: evict_slots.induct) (subst evict_slots.simps; simp add: frame_simps)+

lemma evict_room_table:
  assumes "evict_room span s = Some s'"
  shows "st_table s' = st_table s \<and> st_recovery_required s' = st_recovery_required s"
proof (rule evict_room.raw_induct [OF _ assms])
  fix evict span and s s' :: "'a object_store"
  assume "\<And>span (s :: 'a object_store) s'. evict span s = Some s' \<Longrightarrow>
      st_table s' = st_table s \<and> st_recovery_required s' = st_recovery_required s"
    and "(if st_arena_used s + span > st_arena_capacity s then evict span (cache_evict_lru s) else Some s) = Some s'"
  then show "st_table s' = st_table s \<and> st_recovery_required s' = st_recovery_required s"
    by (fastforce simp: frame_simps split: if_splits)
qed

lemma read_object_table:
  "read_object s f i n = (s', r) \<Longrightarrow> st_table s' = st_table s \<and> st_recovery_required s' = st_recovery_required s"
proof (induction n arbitrary: s i)
  case (Suc n)
  then show ?case by (fastforce simp: store_read_def split: prod.splits option.splits)
qed simp

lemma get_table:
  assumes "object_store_get s i = Some (s', r)"
  shows "st_table s' = st_table s" "st_recovery_required s' = st_recovery_required s"
proof -
  have ins: "st_table u = st_table v \<and> st_recovery_required u = st_recovery_required v"
    if "cache_insert v j w bs l = Some (u, q)" for u v :: "'a object_store" and j w bs l q
    using that by (auto simp: cache_insert_def Let_def frame_simps split: if_splits option.splits dest!: evict_room_table)
  show "st_table s' = st_table s" "st_recovery_required s' = st_recovery_required s"
    using assms by (auto simp: object_store_get_def Let_def split: if_splits option.splits prod.splits bool.splits
        dest!: read_object_table ins)
qed

lemma fenced_cong:
  "st_table s' = st_table s \<Longrightarrow> st_recovery_required s' = st_recovery_required s \<Longrightarrow>
     component_is_fenced s' r = component_is_fenced s r"
  by (simp add: component_is_fenced_def object_store_requires_recovery_def)

lemma read_domain:
  assumes "capability_domain_read dm i = Some (dm', r)"
  shows "dm' = dm\<lparr>dm_store := dm_store dm'\<rparr>" "component_is_fenced (dm_store dm') x = component_is_fenced (dm_store dm) x"
  using assms get_table [of "dm_store dm" i]
  by (auto simp: capability_domain_read_def intro!: fenced_cong split: if_splits option.splits)

text \<open>A change that leaves the capabilities alone.\<close>

definition capability_view :: "'i component \<Rightarrow> object_id \<times> nat \<times> capability_table \<times> u32" where
  "capability_view c = (root_id c, comp_store c, cap_table c, capability_count c)"

definition same_caps :: "('d, 'i, 'p) capability_domain \<Rightarrow> ('d, 'i, 'p) capability_domain \<Rightarrow> bool" where
  "same_caps dm dm' \<longleftrightarrow> length (items (components dm')) = COMPONENT_MAX \<and> lineage dm' = lineage dm \<and>
     dm_store_id dm' = dm_store_id dm \<and>
     (\<forall>r. component_is_fenced (dm_store dm') r = component_is_fenced (dm_store dm) r) \<and>
     (\<forall>j<COMPONENT_MAX. map_option capability_view (items (components dm') ! j) =
        map_option capability_view (items (components dm) ! j))"

lemma same_caps_item:
  assumes "same_caps dm dm'" "j < COMPONENT_MAX" "items (components dm') ! j = Some c'"
  obtains c where "items (components dm) ! j = Some c" "root_id c = root_id c'" "comp_store c = comp_store c'"
    "cap_table c = cap_table c'" "capability_count c = capability_count c'"
proof -
  have "map_option capability_view (items (components dm') ! j) = map_option capability_view (items (components dm) ! j)"
    using assms(1,2) by (simp add: same_caps_def)
  then have "map_option capability_view (items (components dm) ! j) = Some (capability_view c')"
    by (simp only: assms(3) option.map)
  then obtain c where "items (components dm) ! j = Some c" "capability_view c = capability_view c'" by auto
  with that show thesis by (simp add: capability_view_def)
qed

lemma same_caps_resolve:
  assumes "same_caps dm dm'"
  shows "capability_domain_resolve dm' = capability_domain_resolve dm"
proof
  fix r :: capability_ref
  have roots: "map_option root_id (items (components dm') ! j) = map_option root_id (items (components dm) ! j)"
    if "j < COMPONENT_MAX" for j
  proof -
    have "map_option fst (map_option capability_view (items (components dm') ! j)) =
        map_option fst (map_option capability_view (items (components dm) ! j))"
      using assms that by (simp add: same_caps_def)
    moreover have "fst \<circ> capability_view = (root_id :: 'b component \<Rightarrow> object_id)" by (auto simp: capability_view_def)
    ultimately show ?thesis by (simp add: option.map_comp)
  qed
  have f: "component_set_find (components dm') (component_id r) = component_set_find (components dm) (component_id r)"
    by (rule find_same_roots [OF roots])
  have "root_id (item dm' i) = root_id (item dm i) \<and> cap_table (item dm' i) = cap_table (item dm i)"
    if i: "component_set_find (components dm') (component_id r) = Some i" for i
  proof -
    obtain c where c: "i < COMPONENT_MAX" "items (components dm') ! i = Some c" by (rule find_Some_item [OF i])
    show ?thesis by (rule same_caps_item [OF assms c]) (use c in simp)
  qed
  then show "capability_domain_resolve dm' r = capability_domain_resolve dm r"
    using f assms by (auto simp: capability_domain_resolve_def same_caps_def Let_def split: option.splits)
qed

lemma links_ok_cong: "root_id c' = root_id c \<Longrightarrow> cap_table c' = cap_table c \<Longrightarrow> links_ok l c' = links_ok l c"
  by (simp add: links_ok_def reference_def)

lemma same_caps_ok:
  assumes ok: "domain_ok dm" and same: "same_caps dm dm'"
    and mail: "\<And>j c. j < COMPONENT_MAX \<Longrightarrow> items (components dm') ! j = Some c \<Longrightarrow> mail_ok c"
  shows "domain_ok dm'"
proof (rule domain_okI)
  show "set_ok (components dm')"
    unfolding set_ok_def
  proof (intro conjI allI impI)
    show "length (items (components dm')) = COMPONENT_MAX" using same by (simp add: same_caps_def)
  next
    fix i c assume i: "i < COMPONENT_MAX" "items (components dm') ! i = Some c"
    show "\<not> object_id_is_zero (root_id c)"
      by (rule same_caps_item [OF same i]) (use domain_okD(1) [OF ok] i in \<open>auto simp: set_ok_def\<close>)
  next
    fix i j c d assume i: "i < COMPONENT_MAX" "items (components dm') ! i = Some c"
      and j: "j < COMPONENT_MAX" "items (components dm') ! j = Some d" and eq: "root_id c = root_id d"
    obtain c0 where c0: "items (components dm) ! i = Some c0" "root_id c0 = root_id c" by (rule same_caps_item [OF same i])
    obtain d0 where d0: "items (components dm) ! j = Some d0" "root_id d0 = root_id d" by (rule same_caps_item [OF same j])
    show "i = j" by (rule set_ok_unique [OF domain_okD(1) [OF ok] i(1) j(1) c0(1) d0(1)]) (simp add: c0 d0 eq)
  qed
  show "derivation_wf (lineage dm')" using domain_okD(2) [OF ok] same by (simp add: same_caps_def)
  show "edge_grants (capability_domain_resolve dm' p) (capability_domain_resolve dm' r)"
    if "lineage_edge (lineage dm') p r" for p r
    using that domain_okD(3) [OF ok, of p r] same same_caps_resolve [OF same] by (simp add: same_caps_def)
  fix j c assume j: "j < COMPONENT_MAX" "items (components dm') ! j = Some c"
  obtain d where d: "items (components dm) ! j = Some d" "root_id d = root_id c" "comp_store d = comp_store c"
    "cap_table d = cap_table c" "capability_count d = capability_count c" by (rule same_caps_item [OF same j])
  show "caps_ok c \<and> mail_ok c \<and> \<not> component_is_fenced (dm_store dm') (root_id c) \<and> comp_store c = dm_store_id dm' \<and>
      links_ok (lineage dm') c"
    using domain_okD(4,6,7,8) [OF ok j(1) d(1)] mail [OF j] d same links_ok_cong [of c d "lineage dm"]
    by (simp add: same_caps_def caps_ok_def)
qed

lemma read_ok: "domain_ok dm \<Longrightarrow> capability_domain_read dm i = Some (dm', r) \<Longrightarrow> domain_ok dm'"
  and read_same: "domain_ok dm \<Longrightarrow> capability_domain_read dm i = Some (dm', r) \<Longrightarrow> same_caps dm dm'"
proof -
  assume ok: "domain_ok dm" and r: "capability_domain_read dm i = Some (dm', r)"
  note d = read_domain [OF r]
  have f: "components dm' = components dm" "lineage dm' = lineage dm" "dm_store_id dm' = dm_store_id dm"
    by (subst d(1); simp)+
  show same: "same_caps dm dm'" using f d(2) domain_okD(1) [OF ok] by (simp add: same_caps_def set_ok_def)
  show "domain_ok dm'" by (rule same_caps_ok [OF ok same]) (simp add: f domain_okD(5) [OF ok])
qed

text \<open>A payload holds at least the bytes that its length announces.\<close>

definition payload_ok :: "bytes option \<Rightarrow> u32 \<Rightarrow> bool" where
  "payload_ok payload len \<longleftrightarrow> len = 0 \<or> (\<exists>p. payload = Some p \<and> unat len \<le> length p)"

lemma push_Some:
  assumes h: "mailbox_holds c ms" and p: "payload_ok payload len" and push: "component_mailbox_push c payload len slot = Some c'"
  shows "mailbox_holds c' (ms @ [(slot, take (unat len) (the payload))])"
    "c' = c\<lparr>mailbox := mailbox c', mailbox_used := mailbox_used c'\<rparr>"
proof -
  define q where "q = take (unat len) (the payload)"
  have lq: "length q = unat len" using p by (auto simp: q_def payload_ok_def)
  have "unat len < 2 ^ 32" using unsigned_less [of len] by simp
  then have l: "length q < 2 ^ 32" "of_nat (length q) = len" using lq by auto
  have "component_mailbox_push c payload len slot = component_mailbox_push c (Some q) (of_nat (length q)) slot"
    using p lq by (auto simp: component_mailbox_push_def payload_ok_def q_def Let_def)
  from this [symmetric] push have "component_mailbox_push c (Some q) (of_nat (length q)) slot = Some c'" by simp
  with push_result [OF h l(1), of slot] push_holds [OF h, of q slot] show
    "mailbox_holds c' (ms @ [(slot, take (unat len) (the payload))])" "c' = c\<lparr>mailbox := mailbox c', mailbox_used := mailbox_used c'\<rparr>"
    unfolding q_def [symmetric] by (auto split: if_splits)
qed

lemma state_changed_fields [simp]:
  "components (capability_domain_state_changed dm i) = components dm"
  "lineage (capability_domain_state_changed dm i) = lineage dm"
  "dm_store (capability_domain_state_changed dm i) = dm_store dm"
  "dm_store_id (capability_domain_state_changed dm i) = dm_store_id dm"
  "tables_dirty (capability_domain_state_changed dm i) = tables_dirty dm"
  "active (capability_domain_state_changed dm i) = active dm"
  by (auto simp: capability_domain_state_changed_def split: option.splits)

text \<open>The grant of a message: the table of the receiver is filled and the graph has the edge.\<close>

lemma stage_grant_result:
  assumes ok: "domain_ok dm" and snd: "sender < COMPONENT_MAX" "items (components dm) ! sender = Some sc"
    and rcv: "receiver < COMPONENT_MAX" "items (components dm) ! receiver = Some rc"
    and st: "stage_grant dm sender receiver source r b = Some (dm1, res)"
  shows "dm1 = dm\<lparr>dm_store := dm_store dm1\<rparr>" "same_caps dm dm1" "domain_ok dm1" "res = Inl n \<Longrightarrow> n < 0"
    "res = Inr (staged, graph, child) \<Longrightarrow>
       \<exists>kp k s. capability_table_get (cap_table sc) source = Some kp \<and> capability_is_valid (Some k) \<and>
         edge_grants (Some kp) (Some k) \<and> rights k = r \<and> badge k = b \<and> child = of_nat s \<and>
         table_filled (cap_table rc) s k (if root_id sc = root_id rc then source else CAP_SLOT_NONE) staged \<and>
         capability_derivation_add (lineage dm) (reference sc source)
           (capability_ref_make (root_id rc) child (generations staged ! unat child)) = (True, graph)"
proof -
  note codes = JANI_EPERM_def JANI_ENOENT_def JANI_ENOSPC_def
  have "dm1 = dm \<or> (\<exists>i x. capability_domain_read dm i = Some (dm1, x))" and neg: "res = Inl n \<Longrightarrow> n < 0" for n
    using st by (auto simp: stage_grant_def Let_def codes split: option.splits prod.splits if_splits bool.splits)
  then show "dm1 = dm\<lparr>dm_store := dm_store dm1\<rparr>" "same_caps dm dm1" "domain_ok dm1" "res = Inl n \<Longrightarrow> n < 0"
    using read_domain(1) [of dm] read_same [OF ok] read_ok [OF ok] ok domain_okD(1) [OF ok]
    by (auto simp: same_caps_def set_ok_def)
  have same: "sender = receiver \<longleftrightarrow> root_id sc = root_id rc"
    using set_ok_unique [OF domain_okD(1) [OF ok] snd(1) rcv(1) snd(2) rcv(2)] snd(2) rcv(2) by auto
  assume "res = Inr (staged, graph, child)"
  then obtain k staged0 where k: "capability_derive (capability_table_get (cap_table sc) source) r b = Some k"
    and ins: "capability_table_insert_root (cap_table rc) (Some k) = Some (staged0, child)"
    and staged: "staged = (if sender = receiver then staged0\<lparr>parents := (parents staged0)[unat child := source]\<rparr> else staged0)"
    and add: "capability_derivation_add (lineage dm) (reference sc source)
           (capability_ref_make (root_id rc) child (generations staged ! unat child)) = (True, graph)"
    using st snd(2) rcv(2)
    by (auto simp: stage_grant_def Let_def split: option.splits prod.splits bool.splits if_splits)
  obtain kp where kp: "capability_table_get (cap_table sc) source = Some kp" "capability_allows (Some kp) CAP_RIGHT_GRANT"
    "capability_is_valid (Some k)" "cap_object k = cap_object kp" "rights k AND rights kp = rights k" "rights k = r" "badge k = b"
    by (rule capability_derive_Some [OF k])
  obtain t1 s where cl: "capability_table_claim_slot (cap_table rc) = Some (t1, s)" "child = of_nat s"
    "staged0 = t1\<lparr>slots := (slots t1)[s := k], parents := (parents t1)[s := CAP_SLOT_NONE]\<rparr>"
    using ins by (auto simp: capability_table_insert_root_def split: option.splits if_splits)
  have "unat child = s" using cl(2) claim_slot_Some(1) [OF cl(1)] by simp
  then have "table_filled (cap_table rc) s k (if root_id sc = root_id rc then source else CAP_SLOT_NONE) staged"
    using cl same by (simp add: table_filled_def staged)
  then show "\<exists>kp k s. capability_table_get (cap_table sc) source = Some kp \<and> capability_is_valid (Some k) \<and>
         edge_grants (Some kp) (Some k) \<and> rights k = r \<and> badge k = b \<and> child = of_nat s \<and>
         table_filled (cap_table rc) s k (if root_id sc = root_id rc then source else CAP_SLOT_NONE) staged \<and>
         capability_derivation_add (lineage dm) (reference sc source)
           (capability_ref_make (root_id rc) child (generations staged ! unat child)) = (True, graph)"
    using kp cl(2) add by (intro exI [of _ kp] exI [of _ k] exI [of _ s]) (auto simp: edge_grants_def and.commute)
qed

lemma deliver_plain:
  assumes ok: "domain_ok dm" and rcv: "receiver < COMPONENT_MAX" "items (components dm) ! receiver = Some rc"
    and p: "payload_ok payload len" and d: "deliver dm receiver payload len None = (dm', n)"
  shows "same_caps dm dm'" "domain_ok dm'" "n < 0 \<and> dm' = dm \<or> n = 0"
proof -
  have len: "length (items (components dm)) = COMPONENT_MAX" using domain_okD(1) [OF ok] by (simp add: set_ok_def)
  have "same_caps dm dm' \<and> domain_ok dm' \<and> (n < 0 \<and> dm' = dm \<or> n = 0)"
  proof (cases "component_mailbox_push rc payload len UINT32_MAX")
    case None
    then show ?thesis using d rcv ok len by (simp add: deliver_def Let_def same_caps_def JANI_ENOSPC_def)
  next
    case (Some c1)
    have n: "n = 0" and it: "components dm' = (components dm)\<lparr>items := (items (components dm))[receiver := Some c1]\<rparr>"
      and fr: "lineage dm' = lineage dm" "dm_store dm' = dm_store dm" "dm_store_id dm' = dm_store_id dm"
      using d rcv Some by (auto simp: deliver_def Let_def set_item_def)
    obtain ms where ms: "mailbox_holds rc ms" "\<forall>m\<in>set ms. fst m = UINT32_MAX \<or> capability_table_get (cap_table rc) (fst m) \<noteq> None"
      using domain_okD(5) [OF ok rcv] by (auto simp: mail_ok_def)
    note ps = push_Some [OF ms(1) p Some]
    have view: "capability_view c1 = capability_view rc" by (subst ps(2)) (simp add: capability_view_def)
    then have "cap_table c1 = cap_table rc" by (simp add: capability_view_def)
    then have "mail_ok c1" unfolding mail_ok_def using ps(1) ms(2)
      by (intro exI [of _ "ms @ [(UINT32_MAX, take (unat len) (the payload))]"]) auto
    moreover have "same_caps dm dm'" using view rcv it fr len by (simp add: same_caps_def nth_list_update')
    ultimately show ?thesis
      using n it len domain_okD(5) [OF ok] by (auto simp: nth_list_update' split: if_splits intro!: same_caps_ok [OF ok])
  qed
  then show "same_caps dm dm'" "domain_ok dm'" "n < 0 \<and> dm' = dm \<or> n = 0" by auto
qed

lemma deliver_grant:
  assumes ok: "domain_ok dm" and snd: "sender < COMPONENT_MAX" "items (components dm) ! sender = Some sc"
    and rcv: "receiver < COMPONENT_MAX" "items (components dm) ! receiver = Some rc"
    and kp: "capability_table_get (cap_table sc) source = Some kp" and k: "capability_is_valid (Some k)" "edge_grants (Some kp) (Some k)"
    and filled: "table_filled (cap_table rc) s k (if root_id sc = root_id rc then source else CAP_SLOT_NONE) staged"
    and add: "capability_derivation_add (lineage dm) (reference sc source)
           (capability_ref_make (root_id rc) (of_nat s) (generations staged ! s)) = (True, graph)"
    and p: "payload_ok payload len" and d: "deliver dm receiver payload len (Some (staged, graph, of_nat s)) = (dm', n)"
  shows "n < 0 \<and> dm' = dm \<or>
    n = 0 \<and> (\<exists>c'. graft dm dm' receiver rc c' (reference sc source) kp (reference c' (of_nat s)) k s)"
proof (cases "component_mailbox_push rc payload len (of_nat s)")
  case None
  then show ?thesis using d rcv by (simp add: deliver_def Let_def JANI_ENOSPC_def)
next
  case (Some c1)
  have caps: "caps_ok rc" "table_wf (cap_table rc)" "table_shape (cap_table rc)"
    using domain_okD(4) [OF ok rcv] by (auto simp: caps_ok_def table_wf_def)
  obtain ms where ms: "mailbox_holds rc ms" "\<forall>m\<in>set ms. fst m = UINT32_MAX \<or> capability_table_get (cap_table rc) (fst m) \<noteq> None"
    using domain_okD(5) [OF ok rcv] by (auto simp: mail_ok_def)
  note ps = push_Some [OF ms(1) p Some]
  define c' where "c' = c1\<lparr>cap_table := staged, capability_count := raise_count (of_nat s) (capability_count c1)\<rparr>"
  have c1: "root_id c1 = root_id rc" "comp_store c1 = comp_store rc" "capability_count c1 = capability_count rc"
    by (subst ps(2); simp)+
  have n: "n = 0" and it: "components dm' = (components dm)\<lparr>items := (items (components dm))[receiver := Some c']\<rparr>"
    and fr: "lineage dm' = graph" "dm_store dm' = dm_store dm" "dm_store_id dm' = dm_store_id dm"
    using d rcv Some by (auto simp: deliver_def Let_def set_item_def c'_def)
  have s: "s < CAP_TABLE_SLOTS" using filled_facts(1) [OF filled caps(3)] .
  have g: "graft dm dm' receiver rc c' (reference sc source) kp (reference c' (of_nat s)) k s"
    unfolding graft_def
  proof (intro conjI)
    show "capability_domain_resolve dm (reference sc source) = Some kp" using get_resolves [OF ok snd] kp by simp
    show "table_filled (cap_table rc) s k (if component_id (reference sc source) = root_id rc then ref_slot (reference sc source)
        else CAP_SLOT_NONE) (cap_table c')" using filled by (auto simp: c'_def split: if_splits)
    have "capability_ref_make (root_id c') (of_nat s) (generations (cap_table c') ! s) = reference c' (of_nat s)"
      by (rule filled_reference [OF _ caps(3) k(1)]) (use filled in \<open>simp add: c'_def\<close>)
    then have "capability_ref_make (root_id rc) (of_nat s) (generations staged ! s) = reference c' (of_nat s)"
      using c1(1) by (simp add: c'_def)
    then show "capability_derivation_add (lineage dm) (reference sc source) (reference c' (of_nat s)) = (True, lineage dm')"
      using add fr by simp
    have "table_wf staged"
    proof (rule filled_wf [OF filled caps(2) k(1)])
      have "sc = rc" if "root_id sc = root_id rc"
        using set_ok_unique [OF domain_okD(1) [OF ok] snd(1) rcv(1) snd(2) rcv(2) that] snd(2) rcv(2) by simp
      then show "(if root_id sc = root_id rc then source else CAP_SLOT_NONE) = CAP_SLOT_NONE \<or>
        (\<exists>p. capability_table_get (cap_table rc) (if root_id sc = root_id rc then source else CAP_SLOT_NONE) = Some p \<and>
          capability_allows (Some p) CAP_RIGHT_GRANT \<and> cap_object k = cap_object p \<and> rights k AND rights p = rights k)"
        using kp k(2) by (auto simp: edge_grants_def and.commute)
    qed
    then show "caps_ok c'"
      by (rule caps_ok_fill [OF caps(1) filled]) (simp_all add: c'_def c1)
    have "mailbox_holds c' (ms @ [(of_nat s, take (unat len) (the payload))])"
      using ps(1) by (simp add: c'_def mailbox_holds_def)
    moreover have get: "capability_table_get staged x \<noteq> None" if "x = of_nat s \<or> capability_table_get (cap_table rc) x \<noteq> None" for x
      using that filled_get [OF filled caps(3) k(1), of x] s by auto
    moreover have "fst m = UINT32_MAX \<or> capability_table_get staged (fst m) \<noteq> None" if "m \<in> set ms" for m
      using ms(2) that get [of "fst m"] by blast
    ultimately show "mail_ok c'" unfolding mail_ok_def
      by (intro exI [of _ "ms @ [(of_nat s, take (unat len) (the payload))]"]) (simp add: c'_def)
  qed (use ok rcv k c1 it fr in \<open>auto simp: c'_def\<close>)
  then show ?thesis using n by blast
qed

text \<open>
  A message that is delivered without a grant leaves the capabilities alone; one that carries a
  grant is a graft into the table of the receiver, below the slot of the sender.
\<close>

lemma send_result:
  assumes ok: "domain_ok dm" and p: "payload_ok payload len"
    and snd: "capability_domain_send dm sender target payload len source r b = Some (dm', n)"
  obtains "n \<le> 0" "same_caps dm dm'" "domain_ok dm'" "n < 0 \<or> source = -1"
  | dm1 sc rc c' kp k s where "n = 0" "domain_ok dm1" "same_caps dm dm1" "components dm1 = components dm"
      "items (components dm) ! sender = Some sc" "graft dm1 dm' (the (component_set_find (components dm) (root_id rc))) rc c'
        (reference sc (of_int source)) kp (reference c' (of_nat s)) k s" "rights k = r" "badge k = b"
proof -
  have refl: "same_caps dm dm" using domain_okD(1) [OF ok] by (simp add: same_caps_def set_ok_def)
  let ?d = "capability_table_get (cap_table (item dm sender)) target"
  consider (err) "dm' = dm" "n < 0" | (go) rcv where "member dm sender \<noteq> None"
      "component_set_find (components dm) (cap_object (the ?d)) = Some rcv"
      "(source = -1 \<and> deliver dm rcv payload len None = (dm', n)) \<or>
       (\<exists>dm1 res. stage_grant dm sender rcv (of_int source) r b = Some (dm1, res) \<and>
          (case res of Inl e \<Rightarrow> dm' = dm1 \<and> n = e | Inr g \<Rightarrow> deliver dm1 rcv payload len (Some g) = (dm', n)))"
    using snd by (auto simp: capability_domain_send_def Let_def JANI_EINVAL_def JANI_EPERM_def JANI_ENOENT_def
        split: if_splits option.splits prod.splits sum.splits)
  then show thesis
  proof cases
    case err
    then show thesis using that(1) refl ok by simp
  next
    case go
    obtain sc where sc: "sender < COMPONENT_MAX" "items (components dm) ! sender = Some sc"
      using go(1) by (auto simp: member_def split: if_splits)
    obtain rc where rc: "rcv < COMPONENT_MAX" "items (components dm) ! rcv = Some rc" by (rule find_Some_item [OF go(2)])
    from go(3) consider (plain) "source = -1" "deliver dm rcv payload len None = (dm', n)"
      | (grant) dm1 res where "stage_grant dm sender rcv (of_int source) r b = Some (dm1, res)"
          "case res of Inl e \<Rightarrow> dm' = dm1 \<and> n = e | Inr g \<Rightarrow> deliver dm1 rcv payload len (Some g) = (dm', n)" by blast
    then show thesis
    proof cases
      case plain
      show thesis using deliver_plain [OF ok rc p plain(2)] plain(1) by (intro that(1)) auto
    next
      case grant
      note st = stage_grant_result [OF ok sc rc grant(1)]
      have comps: "components dm1 = components dm" "lineage dm1 = lineage dm" by (subst st(1); simp)+
      show thesis
      proof (cases res)
        case (Inl e)
        then show thesis using st(2,3) st(4) [OF Inl] grant(2) by (intro that(1)) auto
      next
        case (Inr g)
        obtain staged graph child where g: "g = (staged, graph, child)" by (cases g) auto
        obtain kp k s where k: "capability_table_get (cap_table sc) (of_int source) = Some kp" "capability_is_valid (Some k)"
          "edge_grants (Some kp) (Some k)" "rights k = r" "badge k = b" "child = of_nat s"
          "table_filled (cap_table rc) s k (if root_id sc = root_id rc then of_int source else CAP_SLOT_NONE) staged"
          "capability_derivation_add (lineage dm) (reference sc (of_int source))
             (capability_ref_make (root_id rc) child (generations staged ! unat child)) = (True, graph)"
          using st(5) [OF Inr [unfolded g]] by blast
        have "table_shape (cap_table rc)" using domain_okD(4) [OF ok rc] by (simp add: caps_ok_def table_wf_def)
        then have s: "unat child = s" using filled_facts(1) [OF k(7)] k(6) by simp
        have "n < 0 \<and> dm' = dm1 \<or> n = 0 \<and> (\<exists>c'. graft dm1 dm' rcv rc c' (reference sc (of_int source)) kp
            (reference c' (of_nat s)) k s)"
          using k(8) s grant(2) Inr g k(6) comps sc rc
          by (intro deliver_grant [OF st(3) sc(1) _ rc(1) _ k(1-3,7) _ p]) auto
        moreover have "the (component_set_find (components dm) (root_id rc)) = rcv"
          using find_item [OF domain_okD(1) [OF ok] rc] by simp
        ultimately show thesis
          using that(1) [of] that(2) [OF _ st(3,2) comps(1) sc(2)] st(2,3) k(4,5) by fastforce
      qed
    qed
  qed
qed

lemma send_ok:
  assumes "domain_ok dm" "payload_ok payload len"
    "capability_domain_send dm sender target payload len source r b = Some (dm', n)"
  shows "domain_ok dm'"
  by (rule send_result [OF assms]) (auto dest: graft_ok)

end
