(* ===== verification/Domain_Revocation.thy ===== *)
theory Domain_Revocation
  imports Domain_Graph
begin

text \<open>
  \<open>capability_domain_revoke\<close> of \<^verbatim>\<open>kernel/cap/domain.c\<close>: on a consistent domain it
  always succeeds, takes out exactly the capabilities below the revoked one in the graph of all
  components, and strips them from the messages that still carry them.
\<close>

section \<open>Revocation\<close>

text \<open>Taking out the edge that leads into the revoked capability.\<close>

lemma filter_drop_nth:
  assumes "distinct (map f xs)" "i < length xs"
  shows "filter (\<lambda>x. f x \<noteq> f (xs ! i)) xs = take i xs @ drop (Suc i) xs"
proof -
  have xs: "xs = take i xs @ xs ! i # drop (Suc i) xs" by (rule id_take_nth_drop [OF assms(2)])
  have d: "distinct (map f (take i xs @ xs ! i # drop (Suc i) xs))" using assms(1) xs by simp
  then have "filter (\<lambda>x. f x \<noteq> f (xs ! i)) (take i xs) = take i xs"
    "filter (\<lambda>x. f x \<noteq> f (xs ! i)) (drop (Suc i) xs) = drop (Suc i) xs"
    by (auto simp: filter_id_conv image_iff)
  then show ?thesis by (subst xs) simp
qed

lemma remove_incoming_result:
  assumes wf: "derivation_wf g"
  shows "live_records (remove_incoming g root) = filter (\<lambda>r. d_child r \<noteq> root) (live_records g)"
    "derivation_wf (remove_incoming g root)"
proof -
  let ?n = "d_count g" and ?rs = "records g"
  have len: "length ?rs = CAP_DERIVATION_MAX" "?n \<le> CAP_DERIVATION_MAX"
    and z: "drop ?n ?rs = replicate (CAP_DERIVATION_MAX - ?n) zero_derivation"
    and f: "graph_forest (live_records g)" "distinct (map d_child (live_records g))"
    using wf by (auto simp: derivation_wf_def derivation_shape_def graph_forest_def)
  have "live_records (remove_incoming g root) = filter (\<lambda>r. d_child r \<noteq> root) (live_records g) \<and>
    derivation_wf (remove_incoming g root)"
  proof (cases "find_child_record g root")
    case None
    have "\<not> lineage_edge g q root" for q using find_child_None [OF None] len by simp
    then have "filter (\<lambda>r. d_child r \<noteq> root) (live_records g) = live_records g"
      by (auto simp: filter_id_conv graph_edge_iff)
    then show ?thesis using None wf by (simp add: remove_incoming_def)
  next
    case (Some i)
    have i: "i < ?n" "d_child (?rs ! i) = root" using find_child_Some(1,2) [OF Some] len by auto
    have li: "live_records g ! i = ?rs ! i" "i < length (live_records g)" using i len by (auto simp: live_records_def)
    have "records (remove_incoming g root) =
        (take i (live_records g) @ drop (Suc i) (live_records g)) @ zero_derivation # drop ?n ?rs"
      "d_count (remove_incoming g root) = ?n - 1"
      using Some i len by (auto simp: remove_incoming_def live_records_def drop_take min_def)
    moreover have "length (take i (live_records g) @ drop (Suc i) (live_records g)) = ?n - 1"
      using i len by (auto simp: live_records_def)
    ultimately have live: "live_records (remove_incoming g root) = take i (live_records g) @ drop (Suc i) (live_records g)"
      and rest: "drop (?n - 1) (records (remove_incoming g root)) = zero_derivation # drop ?n ?rs"
      and shape: "length (records (remove_incoming g root)) = CAP_DERIVATION_MAX" "d_count (remove_incoming g root) = ?n - 1"
      using i len by (auto simp: live_records_def)
    have eq: "live_records (remove_incoming g root) = filter (\<lambda>r. d_child r \<noteq> root) (live_records g)"
      using filter_drop_nth [OF f(2) li(2)] live li i(2) by simp
    have "zero_derivation # drop ?n ?rs = replicate (CAP_DERIVATION_MAX - (?n - 1)) zero_derivation"
      using i(1) len(2) by (simp add: z Suc_diff_le flip: replicate_Suc)
    then show ?thesis
      using eq rest shape len forest_filter [OF f(1), of "\<lambda>r. d_child r \<noteq> root"]
      by (simp add: derivation_wf_def derivation_shape_def)
  qed
  then show "live_records (remove_incoming g root) = filter (\<lambda>r. d_child r \<noteq> root) (live_records g)"
    "derivation_wf (remove_incoming g root)" by auto
qed

text \<open>A component after some of its slots were revoked.\<close>

definition strip_all :: "(nat \<Rightarrow> bool) \<Rightarrow> message \<Rightarrow> message" where
  "strip_all P m = (if P (unat (fst m)) then UINT32_MAX else fst m, snd m)"

definition stripped :: "'i component \<Rightarrow> (nat \<Rightarrow> bool) \<Rightarrow> 'i component \<Rightarrow> bool" where
  "stripped c P c' \<longleftrightarrow> root_id c' = root_id c \<and> comp_store c' = comp_store c \<and>
     table_cleared (cap_table c) P (cap_table c') \<and> unat (capability_count c') \<le> unat (capability_count c) \<and>
     (\<forall>s<CAP_TABLE_SLOTS. unat (capability_count c') \<le> s \<longrightarrow>
        unat (capability_count c) \<le> s \<or> capability_table_get (cap_table c') (of_nat s) = None) \<and>
     (\<forall>ms. mailbox_holds c ms \<longrightarrow> mailbox_holds c' (map (strip_all P) ms))"

lemma stripped_refl: "table_shape (cap_table c) \<Longrightarrow> stripped c (\<lambda>_. False) c"
  by (simp add: stripped_def table_cleared_none strip_all_def [abs_def])

lemma strip_all_step:
  assumes "unat slot < CAP_TABLE_SLOTS"
  shows "strip_slot slot (strip_all P m) = strip_all (\<lambda>i. P i \<or> i = unat slot) m"
proof -
  have "slot \<noteq> UINT32_MAX" using assms by auto
  then show ?thesis by (auto simp: strip_slot_def strip_all_def word_unat_eq_iff)
qed

lemma stripped_step:
  assumes st: "stripped c P c1" and slot: "unat slot < CAP_TABLE_SLOTS" and m: "mailbox_holds c ms"
  shows "\<exists>c2 changed. strip_attachment c1 slot = Some (c2, changed) \<and>
    (let t = (cap_table c2)\<lparr>slots := (slots (cap_table c2))[unat slot := zero_capability],
                            parents := (parents (cap_table c2))[unat slot := CAP_SLOT_NONE]\<rparr>
     in stripped c (\<lambda>i. P i \<or> i = unat slot)
          (c2\<lparr>cap_table := t, capability_count := of_nat (trim_count t (unat (capability_count c2)))\<rparr>))"
proof -
  have m1: "mailbox_holds c1 (map (strip_all P) ms)" using st m by (simp add: stripped_def)
  obtain mb where sa: "strip_attachment c1 slot = Some (c1\<lparr>mailbox := mb\<rparr>, slot \<in> fst ` set (map (strip_all P) ms))"
    "mailbox_holds (c1\<lparr>mailbox := mb\<rparr>) (map (strip_slot slot) (map (strip_all P) ms))"
    using strip_result [OF m1, of slot] by blast
  define t where "t = (cap_table c1)\<lparr>slots := (slots (cap_table c1))[unat slot := zero_capability],
                            parents := (parents (cap_table c1))[unat slot := CAP_SLOT_NONE]\<rparr>"
  define n where "n = trim_count t (unat (capability_count c1))"
  have nle: "n \<le> unat (capability_count c1)" by (simp add: n_def trim_count_le)
  have "unat (capability_count c1) < 2 ^ 32" using unsigned_less [of "capability_count c1"] by simp
  then have un: "unat (of_nat n :: u32) = n" using nle by (simp add: unat_of_nat)
  let ?Q = "\<lambda>i. P i \<or> i = unat slot"
  have cl: "table_cleared (cap_table c) ?Q t"
    unfolding t_def by (rule table_cleared_step) (use st slot in \<open>simp_all add: stripped_def\<close>)
  have get: "capability_table_get t x = None" if "capability_table_get (cap_table c1) x = None" for x
    using that cleared_get [OF cl, of x] cleared_get [of "cap_table c" P "cap_table c1" x] st by (auto simp: stripped_def split: if_splits)
  have free: "unat (capability_count c) \<le> s \<or> capability_table_get t (of_nat s) = None" if s: "s < CAP_TABLE_SLOTS" "n \<le> s" for s
  proof (cases "s < unat (capability_count c1)")
    case True
    then show ?thesis using trim_count_free [of t "unat (capability_count c1)" s] s(2) by (simp add: n_def)
  next
    case False
    then show ?thesis using st s(1) get by (auto simp: stripped_def)
  qed
  have mail: "mailbox_holds (c1\<lparr>mailbox := mb, cap_table := t, capability_count := of_nat n\<rparr>) (map (strip_all ?Q) ms')"
    if "mailbox_holds c ms'" for ms'
  proof -
    have "mailbox_holds c1 (map (strip_all P) ms')" using st that by (simp add: stripped_def)
    then have "frames (map (strip_all P) ms') = frames (map (strip_all P) ms)" using m1 by (simp add: mailbox_holds_def)
    moreover have "length (frames (map (strip_all P) ms')) < 2 ^ 32"
      using \<open>mailbox_holds c1 (map (strip_all P) ms')\<close> by (auto simp: mailbox_holds_def simp del: length_concat)
    ultimately have eq: "map (strip_all P) ms' = map (strip_all P) ms" by (rule frames_inj)
    have "map (strip_all ?Q) ms' = map (strip_slot slot) (map (strip_all P) ms')"
      by (simp add: strip_all_step [OF slot])
    then have "map (strip_all ?Q) ms' = map (strip_slot slot) (map (strip_all P) ms)" by (simp only: eq)
    then show ?thesis using sa(2) by (simp add: mailbox_holds_def)
  qed
  have "stripped c ?Q (c1\<lparr>mailbox := mb, cap_table := t, capability_count := of_nat n\<rparr>)"
    using st cl un nle free mail by (simp add: stripped_def)
  then show ?thesis using sa(1) unfolding n_def t_def
    by (intro exI [of _ "c1\<lparr>mailbox := mb\<rparr>"] exI [of _ "slot \<in> fst ` set (map (strip_all P) ms)"]) (simp add: Let_def)
qed

text \<open>The domain after the references of a list were revoked one by one.\<close>

definition names_slot :: "capability_ref set \<Rightarrow> 'i component \<Rightarrow> nat \<Rightarrow> bool" where
  "names_slot rs c s \<longleftrightarrow> (\<exists>r\<in>rs. component_id r = root_id c \<and> unat (ref_slot r) = s)"

definition revoked_domain ::
    "('d, 'i, 'p) capability_domain \<Rightarrow> capability_ref set \<Rightarrow> ('d, 'i, 'p) capability_domain \<Rightarrow> bool" where
  "revoked_domain dm rs dm' \<longleftrightarrow> lineage dm' = lineage dm \<and> dm_store dm' = dm_store dm \<and> dm_store_id dm' = dm_store_id dm \<and>
     length (items (components dm')) = COMPONENT_MAX \<and>
     (\<forall>i<COMPONENT_MAX. rel_option (\<lambda>c c'. stripped c (names_slot rs c) c') (items (components dm) ! i) (items (components dm') ! i))"

lemma revoked_start:
  assumes "domain_ok dm"
  shows "revoked_domain dm {} dm"
proof -
  have "rel_option (\<lambda>c c'. stripped c (names_slot {} c) c') (items (components dm) ! i) (items (components dm) ! i)"
    if "i < COMPONENT_MAX" for i
    using domain_okD(4) [OF assms that] stripped_refl
    by (cases "items (components dm) ! i") (auto simp: names_slot_def [abs_def] caps_ok_def table_wf_def)
  then show ?thesis using domain_okD(1) [OF assms] by (simp add: revoked_domain_def set_ok_def)
qed

lemma revoked_item:
  assumes "revoked_domain dm rs dm'" "i < COMPONENT_MAX"
  shows "items (components dm) ! i = Some c \<Longrightarrow> \<exists>c'. items (components dm') ! i = Some c' \<and> stripped c (names_slot rs c) c'"
    "items (components dm') ! i = Some c' \<Longrightarrow> \<exists>c. items (components dm) ! i = Some c \<and> stripped c (names_slot rs c) c'"
proof -
  have r: "rel_option (\<lambda>c c'. stripped c (names_slot rs c) c') (items (components dm) ! i) (items (components dm') ! i)"
    using assms by (simp add: revoked_domain_def)
  show "items (components dm) ! i = Some c \<Longrightarrow> \<exists>c'. items (components dm') ! i = Some c' \<and> stripped c (names_slot rs c) c'"
    "items (components dm') ! i = Some c' \<Longrightarrow> \<exists>c. items (components dm) ! i = Some c \<and> stripped c (names_slot rs c) c'"
    using r by (auto simp: option_rel_Some1 option_rel_Some2)
qed

lemma revoked_roots:
  assumes "revoked_domain dm rs dm'" "j < COMPONENT_MAX"
  shows "map_option root_id (items (components dm') ! j) = map_option root_id (items (components dm) ! j)"
  using assms by (auto simp: revoked_domain_def stripped_def option.rel_sel elim!: allE [of _ j] split: option.splits)

lemma revoke_one_step:
  assumes ok: "domain_ok dm" and rv: "revoked_domain dm rs dm1" and r: "capability_domain_resolve dm r \<noteq> None"
  shows "\<exists>dm2. revoke_one dm1 r = Some dm2 \<and> revoked_domain dm (insert r rs) dm2"
proof -
  obtain k where k: "capability_domain_resolve dm r = Some k" using r by blast
  obtain i c where c: "i < COMPONENT_MAX" "items (components dm) ! i = Some c" "root_id c = component_id r"
    and v: "capability_ref_is_valid r" by (rule resolve_Some [OF k])
  have slot: "unat (ref_slot r) < CAP_TABLE_SLOTS" using v by (simp add: capability_ref_is_valid_def)
  obtain c1 where c1: "items (components dm1) ! i = Some c1" "stripped c (names_slot rs c) c1"
    using revoked_item(1) [OF rv c(1,2)] by blast
  have find: "component_set_find (components dm1) (component_id r) = Some i"
    using find_same_roots [OF revoked_roots [OF rv]] find_item [OF domain_okD(1) [OF ok] c(1,2)] c(3) by simp
  obtain ms where ms: "mailbox_holds c ms" using domain_okD(5) [OF ok c(1,2)] by (auto simp: mail_ok_def)
  obtain c2 changed where sa: "strip_attachment c1 (ref_slot r) = Some (c2, changed)"
    and st: "let t = (cap_table c2)\<lparr>slots := (slots (cap_table c2))[unat (ref_slot r) := zero_capability],
                            parents := (parents (cap_table c2))[unat (ref_slot r) := CAP_SLOT_NONE]\<rparr>
     in stripped c (\<lambda>i. names_slot rs c i \<or> i = unat (ref_slot r))
          (c2\<lparr>cap_table := t, capability_count := of_nat (trim_count t (unat (capability_count c2)))\<rparr>)"
    using stripped_step [OF c1(2) slot ms] by blast
  have names: "names_slot (insert r rs) c = (\<lambda>i. names_slot rs c i \<or> i = unat (ref_slot r))"
    using c(3) by (auto simp: names_slot_def fun_eq_iff)
  obtain dm2 c3 where dm2: "revoke_one dm1 r = Some dm2" and st3: "stripped c (names_slot (insert r rs) c) c3"
    and f: "items (components dm2) = (items (components dm1))[i := Some c3]" "lineage dm2 = lineage dm1"
      "dm_store dm2 = dm_store dm1" "dm_store_id dm2 = dm_store_id dm1"
    using st find c1(1) sa by (auto simp: revoke_one_def Let_def names set_item_def)
  have other: "names_slot (insert r rs) d = names_slot rs d" if "j \<noteq> i" "j < COMPONENT_MAX" "items (components dm) ! j = Some d" for j d
  proof -
    have "root_id d \<noteq> component_id r"
      using set_ok_unique [OF domain_okD(1) [OF ok] that(2) c(1) that(3) c(2)] that(1) c(3) by auto
    then show ?thesis by (auto simp: names_slot_def fun_eq_iff)
  qed
  have "rel_option (\<lambda>c c'. stripped c (names_slot (insert r rs) c) c') (items (components dm) ! j) (items (components dm2) ! j)"
    if j: "j < COMPONENT_MAX" for j
  proof (cases "j = i")
    case True
    then show ?thesis using c(1,2) rv st3 by (simp add: f revoked_domain_def nth_list_update')
  next
    case False
    have "rel_option (\<lambda>c c'. stripped c (names_slot rs c) c') (items (components dm) ! j) (items (components dm1) ! j)"
      using rv j by (simp add: revoked_domain_def)
    then show ?thesis using other [OF False j] False
      by (cases "items (components dm) ! j"; cases "items (components dm1) ! j") (simp_all add: f)
  qed
  then show ?thesis using dm2 rv f by (auto simp: revoked_domain_def)
qed

lemma revoke_fold:
  assumes ok: "domain_ok dm" and rv: "revoked_domain dm pre dm1" and r: "\<And>r. r \<in> set rs \<Longrightarrow> capability_domain_resolve dm r \<noteq> None"
  shows "\<exists>dm2. fold_opt revoke_one dm1 rs = Some dm2 \<and> revoked_domain dm (pre \<union> set rs) dm2"
  using rv r
proof (induction rs arbitrary: pre dm1)
  case (Cons x rs)
  obtain dm2 where dm2: "revoke_one dm1 x = Some dm2" "revoked_domain dm (insert x pre) dm2"
    using revoke_one_step [OF ok Cons.prems(1), of x] Cons.prems(2) by auto
  from Cons.IH [OF dm2(2)] Cons.prems(2) dm2(1) show ?case by simp
qed simp

text \<open>
  The whole revocation: \<open>rs\<close> is closed under derivation and all its references resolve. The
  graph keeps the edges to the references outside.
\<close>

definition revocation_of ::
    "('d, 'i, 'p) capability_domain \<Rightarrow> capability_ref set \<Rightarrow> ('d, 'i, 'p) capability_domain \<Rightarrow> bool" where
  "revocation_of dm rs dm' \<longleftrightarrow>
     (\<exists>dm1. revoked_domain dm rs dm1 \<and> components dm' = components dm1 \<and> dm_store dm' = dm_store dm1 \<and>
        dm_store_id dm' = dm_store_id dm1) \<and>
     derivation_wf (lineage dm') \<and> (\<forall>p r. lineage_edge (lineage dm') p r \<longleftrightarrow> lineage_edge (lineage dm) p r \<and> r \<notin> rs) \<and>
     (\<forall>r\<in>rs. capability_domain_resolve dm r \<noteq> None) \<and>
     (\<forall>p r. lineage_edge (lineage dm) p r \<longrightarrow> p \<in> rs \<longrightarrow> r \<in> rs)"

lemma revocation_item:
  assumes "revocation_of dm rs dm'" "i < COMPONENT_MAX"
  shows "items (components dm) ! i = Some c \<Longrightarrow> \<exists>c'. items (components dm') ! i = Some c' \<and> stripped c (names_slot rs c) c'"
    "items (components dm') ! i = Some c' \<Longrightarrow> \<exists>c. items (components dm) ! i = Some c \<and> stripped c (names_slot rs c) c'"
    "map_option root_id (items (components dm') ! i) = map_option root_id (items (components dm) ! i)"
    "dm_store dm' = dm_store dm" "dm_store_id dm' = dm_store_id dm" "length (items (components dm')) = COMPONENT_MAX"
proof -
  obtain dm1 where d: "revoked_domain dm rs dm1" "components dm' = components dm1" "dm_store dm' = dm_store dm1"
    "dm_store_id dm' = dm_store_id dm1" using assms(1) by (auto simp: revocation_of_def)
  show "items (components dm) ! i = Some c \<Longrightarrow> \<exists>c'. items (components dm') ! i = Some c' \<and> stripped c (names_slot rs c) c'"
    "items (components dm') ! i = Some c' \<Longrightarrow> \<exists>c. items (components dm) ! i = Some c \<and> stripped c (names_slot rs c) c'"
    unfolding d(2) by (erule revoked_item [OF d(1) assms(2)])+
  show "map_option root_id (items (components dm') ! i) = map_option root_id (items (components dm) ! i)"
    unfolding d(2) by (rule revoked_roots [OF d(1) assms(2)])
  show "dm_store dm' = dm_store dm" "dm_store_id dm' = dm_store_id dm" "length (items (components dm')) = COMPONENT_MAX"
    using d by (auto simp: revoked_domain_def)
qed

text \<open>The slots that are named are exactly those whose reference is revoked.\<close>

lemma names_slot_iff:
  assumes ok: "domain_ok dm" and rv: "revocation_of dm rs dm'" and c: "i < COMPONENT_MAX" "items (components dm) ! i = Some c"
    and s: "unat s < CAP_TABLE_SLOTS"
  shows "names_slot rs c (unat s) \<longleftrightarrow> reference c s \<in> rs"
proof
  assume "names_slot rs c (unat s)"
  then obtain r where r: "r \<in> rs" "component_id r = root_id c" "ref_slot r = s"
    by (auto simp: names_slot_def word_unat_eq_iff)
  then obtain k where "capability_domain_resolve dm r = Some k" using rv by (auto simp: revocation_of_def)
  then obtain j d where d: "j < COMPONENT_MAX" "items (components dm) ! j = Some d" "root_id d = component_id r"
    "r = reference d (ref_slot r)" by (rule resolve_Some)
  have "j = i" using set_ok_unique [OF domain_okD(1) [OF ok] d(1) c(1) d(2) c(2)] d(3) r(2) by simp
  then show "reference c s \<in> rs" using d c r by simp
next
  assume "reference c s \<in> rs"
  then show "names_slot rs c (unat s)" unfolding names_slot_def by (rule bexI [rotated]) simp
qed

lemma revocation_set_ok:
  assumes ok: "domain_ok dm" and rv: "revocation_of dm rs dm'"
  shows "set_ok (components dm')"
  unfolding set_ok_def
proof (intro conjI allI impI)
  show "length (items (components dm')) = COMPONENT_MAX" using revocation_item(6) [OF rv, of 0] by simp
next
  fix i c assume i: "i < COMPONENT_MAX" "items (components dm') ! i = Some c"
  then obtain d where "items (components dm) ! i = Some d" "root_id d = root_id c"
    using revocation_item(2) [OF rv i(1)] by (auto simp: stripped_def)
  then show "\<not> object_id_is_zero (root_id c)" using domain_okD(1) [OF ok] i(1) by (auto simp: set_ok_def)
next
  fix i j c d assume i: "i < COMPONENT_MAX" "items (components dm') ! i = Some c"
    and j: "j < COMPONENT_MAX" "items (components dm') ! j = Some d" and eq: "root_id c = root_id d"
  obtain c0 where c0: "items (components dm) ! i = Some c0" "root_id c0 = root_id c"
    using revocation_item(2) [OF rv i] by (auto simp: stripped_def)
  obtain d0 where d0: "items (components dm) ! j = Some d0" "root_id d0 = root_id d"
    using revocation_item(2) [OF rv j] by (auto simp: stripped_def)
  show "i = j" by (rule set_ok_unique [OF domain_okD(1) [OF ok] i(1) j(1) c0(1) d0(1)]) (simp add: c0 d0 eq)
qed

lemma revocation_resolve:
  assumes ok: "domain_ok dm" and rv: "revocation_of dm rs dm'"
  shows "capability_domain_resolve dm' r = (if r \<in> rs then None else capability_domain_resolve dm r)"
proof -
  have find: "component_set_find (components dm') (component_id r) = component_set_find (components dm) (component_id r)"
    by (rule find_same_roots) (rule revocation_item(3) [OF rv])
  show ?thesis
  proof (cases "component_set_find (components dm) (component_id r)")
    case None
    then show ?thesis using find by (simp add: capability_domain_resolve_def)
  next
    case (Some i)
    obtain c where c: "i < COMPONENT_MAX" "items (components dm) ! i = Some c" "root_id c = component_id r"
      by (rule find_Some_item [OF Some])
    obtain c' where c': "items (components dm') ! i = Some c'" "stripped c (names_slot rs c) c'"
      using revocation_item(1) [OF rv c(1,2)] by blast
    have root: "root_id c' = component_id r" and cl: "table_cleared (cap_table c) (names_slot rs c) (cap_table c')"
      using c' c(3) by (auto simp: stripped_def)
    note nf = domain_okD(6) [OF ok c(1,2)]
    have r1: "capability_domain_resolve dm r = table_resolve (cap_table c) (ref_slot r) (ref_generation r)"
      by (rule resolve_item [OF domain_okD(1) [OF ok] c(1,2) nf]) (simp add: c(3))
    have r2: "capability_domain_resolve dm' r = table_resolve (cap_table c') (ref_slot r) (ref_generation r)"
      using nf c(3) root revocation_item(4) [OF rv c(1)]
      by (intro resolve_item [OF revocation_set_ok [OF ok rv] c(1) c'(1)]) auto
    have "r = reference c (ref_slot r)" if "capability_domain_resolve dm r \<noteq> None"
      using that r1 c(3) by (auto simp: table_resolve_def reference_def capability_ref_make_def split: if_splits)
    moreover have "unat (ref_slot r) < CAP_TABLE_SLOTS" if "capability_domain_resolve dm r \<noteq> None"
      using that r1 by (auto simp: table_resolve_def get_Some_iff split: if_splits)
    ultimately have iff: "names_slot rs c (unat (ref_slot r)) \<longleftrightarrow> r \<in> rs" if "capability_domain_resolve dm r \<noteq> None"
      using that names_slot_iff [OF ok rv c(1,2), of "ref_slot r"] by simp
    have "r \<in> rs \<Longrightarrow> capability_domain_resolve dm r \<noteq> None" using rv by (simp add: revocation_of_def)
    then show ?thesis
      using iff r1 r2 cleared_get [OF cl, of "ref_slot r"] cleared_generation [OF cl, of "ref_slot r"]
      by (cases "capability_table_get (cap_table c) (ref_slot r)") (auto simp: table_resolve_def split: if_splits)
  qed
qed

lemma revocation_closed:
  assumes ok: "domain_ok dm" and rv: "revocation_of dm rs dm'" and c: "i < COMPONENT_MAX" "items (components dm) ! i = Some c"
    and s: "s < CAP_TABLE_SLOTS" and n: "\<not> names_slot rs c s" and p: "unat (parents (cap_table c) ! s) < CAP_TABLE_SLOTS"
  shows "\<not> names_slot rs c (unat (parents (cap_table c) ! s))"
proof
  assume "names_slot rs c (unat (parents (cap_table c) ! s))"
  then have "reference c (parents (cap_table c) ! s) \<in> rs" using names_slot_iff [OF ok rv c p] by simp
  moreover have "lineage_edge (lineage dm) (reference c (parents (cap_table c) ! s)) (reference c (of_nat s))"
    using domain_okD(8) [OF ok c] s slot_small_not_none [OF p] by (simp add: links_ok_def)
  ultimately have "reference c (of_nat s) \<in> rs" using rv by (auto simp: revocation_of_def)
  then show False using names_slot_iff [OF ok rv c, of "of_nat s"] n s by simp
qed

lemma revocation_component:
  assumes ok: "domain_ok dm" and rv: "revocation_of dm rs dm'" and c: "i < COMPONENT_MAX" "items (components dm) ! i = Some c"
    and c': "stripped c (names_slot rs c) c'"
  shows "caps_ok c'" "mail_ok c'" "links_ok (lineage dm') c'"
proof -
  have st: "root_id c' = root_id c" "table_cleared (cap_table c) (names_slot rs c) (cap_table c')"
    "unat (capability_count c') \<le> unat (capability_count c)" using c' by (auto simp: stripped_def)
  have caps: "table_wf (cap_table c)" "unat (capability_count c) \<le> CAP_TABLE_SLOTS"
    "\<And>s. s < CAP_TABLE_SLOTS \<Longrightarrow> unat (capability_count c) \<le> s \<Longrightarrow> slot_free (cap_table c) s"
    using domain_okD(4) [OF ok c] by (auto simp: caps_ok_def)
  have wf: "table_wf (cap_table c')"
    by (rule cleared_wf [OF st(2) caps(1)]) (rule revocation_closed [OF ok rv c])
  have "slot_free (cap_table c') s" if s: "s < CAP_TABLE_SLOTS" "unat (capability_count c') \<le> s" for s
  proof (cases "unat (capability_count c) \<le> s")
    case True
    then show ?thesis using caps(3) [OF s(1)] st(2) s(1) by (simp add: table_cleared_def zero_capability_def)
  next
    case False
    then show ?thesis using c' s wf_get_None [OF wf s(1)] by (auto simp: stripped_def)
  qed
  then show "caps_ok c'" using wf st(3) caps(2) by (simp add: caps_ok_def)
  obtain ms where ms: "mailbox_holds c ms" "\<forall>m\<in>set ms. fst m = UINT32_MAX \<or> capability_table_get (cap_table c) (fst m) \<noteq> None"
    using domain_okD(5) [OF ok c] by (auto simp: mail_ok_def)
  have "\<forall>m\<in>set (map (strip_all (names_slot rs c)) ms). fst m = UINT32_MAX \<or> capability_table_get (cap_table c') (fst m) \<noteq> None"
    using ms(2) cleared_get [OF st(2)] by (auto simp: strip_all_def)
  then show "mail_ok c'" using c' ms(1) unfolding mail_ok_def stripped_def by blast
  have ref: "reference c' x = reference c x" if "\<not> names_slot rs c (unat x)" for x
    using cleared_generation [OF st(2), of x] that st(1) by (simp add: reference_def)
  note edge = rv [unfolded revocation_of_def, THEN conjunct2, THEN conjunct2, THEN conjunct1, rule_format]
  have wf': "derivation_wf (lineage dm')" using rv by (simp add: revocation_of_def)
  show "links_ok (lineage dm') c'"
    unfolding links_ok_def
  proof (intro allI impI)
    fix s assume s: "s < CAP_TABLE_SLOTS"
    let ?p = "parents (cap_table c) ! s"
    show "(parents (cap_table c') ! s \<noteq> CAP_SLOT_NONE \<longrightarrow>
        lineage_edge (lineage dm') (reference c' (parents (cap_table c') ! s)) (reference c' (of_nat s))) \<and>
      (\<forall>q. lineage_edge (lineage dm') q (reference c' (of_nat s)) \<longrightarrow> component_id q = root_id c' \<longrightarrow>
        ref_slot q = parents (cap_table c') ! s)"
    proof (cases "names_slot rs c s")
      case True
      then have "capability_table_get (cap_table c') (of_nat s) = None" "parents (cap_table c') ! s = CAP_SLOT_NONE"
        using cleared_get [OF st(2), of "of_nat s"] st(2) s by (auto simp: table_cleared_def)
      moreover have "\<not> lineage_edge (lineage dm') q (reference c' (of_nat s))" for q
        using edge_refs_valid(2) [OF wf'] reference_valid calculation(1) by blast
      ultimately show ?thesis by simp
    next
      case False
      have r: "reference c' (of_nat s) = reference c (of_nat s)" using ref [of "of_nat s"] False s by simp
      have ps: "parents (cap_table c') ! s = ?p" using st(2) s False by (simp add: table_cleared_def)
      have out: "reference c (of_nat s) \<notin> rs" using names_slot_iff [OF ok rv c, of "of_nat s"] False s by simp
      note old = domain_okD(8) [OF ok c, unfolded links_ok_def, rule_format, OF s]
      have "reference c' ?p = reference c ?p" if ne: "?p \<noteq> CAP_SLOT_NONE"
      proof (rule ref, rule revocation_closed [OF ok rv c s False])
        have "capability_ref_is_valid (reference c ?p)" using edge_refs_valid(1) [OF domain_okD(2) [OF ok]] old ne by blast
        then show "unat ?p < CAP_TABLE_SLOTS" by (simp add: capability_ref_is_valid_def)
      qed
      then show ?thesis using old edge r ps out st(1) by metis
    qed
  qed
qed

lemma revocation_ok:
  assumes ok: "domain_ok dm" and rv: "revocation_of dm rs dm'"
  shows "domain_ok dm'"
proof (rule domain_okI [OF revocation_set_ok [OF ok rv]])
  show "derivation_wf (lineage dm')" using rv by (simp add: revocation_of_def)
  show "edge_grants (capability_domain_resolve dm' p) (capability_domain_resolve dm' r)"
    if "lineage_edge (lineage dm') p r" for p r
  proof -
    have "lineage_edge (lineage dm) p r" "r \<notin> rs" using that rv by (auto simp: revocation_of_def)
    moreover from this have "p \<notin> rs" using rv by (auto simp: revocation_of_def)
    ultimately show ?thesis using domain_okD(3) [OF ok] by (simp add: revocation_resolve [OF ok rv])
  qed
  fix i c' assume i: "i < COMPONENT_MAX" "items (components dm') ! i = Some c'"
  obtain c where c: "items (components dm) ! i = Some c" "stripped c (names_slot rs c) c'"
    using revocation_item(2) [OF rv i] by blast
  show "caps_ok c' \<and> mail_ok c' \<and> \<not> component_is_fenced (dm_store dm') (root_id c') \<and> comp_store c' = dm_store_id dm' \<and>
      links_ok (lineage dm') c'"
    using revocation_component [OF ok rv i(1) c] domain_okD(6,7) [OF ok i(1) c(1)] c(2) revocation_item(4,5) [OF rv i(1)]
    by (simp add: stripped_def)
qed

lemma mail_ok_validates:
  assumes "mail_ok c"
  shows "component_mailbox_validate (mailbox c) (unat (mailbox_used c))"
proof -
  obtain ms where ms: "mailbox_holds c ms" "\<forall>m\<in>set ms. fst m = UINT32_MAX \<or> capability_table_get (cap_table c) (fst m) \<noteq> None"
    using assms by (auto simp: mail_ok_def)
  have "slot_valid (fst m)" if "m \<in> set ms" for m
    using ms(2) that by (auto simp: slot_valid_def get_Some_iff word_lt_unat)
  then show ?thesis
    using mailbox_validate_iff [of "unat (mailbox_used c)" "mailbox c"] ms(1) by (auto simp: mailbox_holds_def simp del: length_concat)
qed

text \<open>What lies below a reference in the graph, itself included.\<close>

definition subtree :: "('d, 'i, 'p) capability_domain \<Rightarrow> capability_ref \<Rightarrow> capability_ref set" where
  "subtree dm root = {r. (lineage_edge (lineage dm))\<^sup>*\<^sup>* root r}"

lemma subtree_iff: "r \<in> subtree dm root \<longleftrightarrow> r = root \<or> (lineage_edge (lineage dm))\<^sup>+\<^sup>+ root r"
  by (auto simp: subtree_def dest: rtranclpD intro: tranclp_into_rtranclp)

lemma subtree_resolves:
  assumes ok: "domain_ok dm" and root: "capability_domain_resolve dm root \<noteq> None" and r: "r \<in> subtree dm root"
  shows "capability_domain_resolve dm r \<noteq> None"
proof -
  have "(lineage_edge (lineage dm))\<^sup>*\<^sup>* root r" using r by (simp add: subtree_def)
  then show ?thesis
    by (induction rule: rtranclp_induct) (use root domain_okD(3) [OF ok] in \<open>auto simp: edge_grants_def\<close>)
qed

lemma resolves_may_revoke:
  assumes ok: "domain_ok dm" and r: "capability_domain_resolve dm r \<noteq> None"
  shows "may_revoke dm r"
proof -
  obtain k where "capability_domain_resolve dm r = Some k" using r by blast
  then obtain i c where c: "i < COMPONENT_MAX" "items (components dm) ! i = Some c" "root_id c = component_id r"
    by (rule resolve_Some)
  then show ?thesis
    using find_item [OF domain_okD(1) [OF ok] c(1,2)] mail_ok_validates [OF domain_okD(5) [OF ok c(1,2)]] r
    by (simp add: may_revoke_def)
qed

text \<open>On a consistent domain a revocation always succeeds.\<close>

lemma revoke_result:
  assumes ok: "domain_ok dm" and c: "owner < COMPONENT_MAX" "items (components dm) ! owner = Some c" and act: "active dm \<noteq> 0"
    and k: "capability_table_get (cap_table c) slot = Some k"
  shows "\<exists>dm'. capability_domain_revoke dm owner slot = Some (dm', 0) \<and> revocation_of dm (subtree dm (reference c slot)) dm'"
proof -
  let ?root = "reference c slot" and ?l = "lineage dm"
  let ?R = "subtree dm ?root"
  note wf = domain_okD(2) [OF ok]
  have valid: "capability_derivation_table_is_valid ?l" using wf is_valid_iff_derivation_wf [of ?l] by (simp add: derivation_wf_def)
  have root: "capability_domain_resolve dm ?root = Some k" using get_resolves [OF ok c] k by simp
  then have rv: "capability_ref_is_valid ?root" by (auto elim: resolve_Some)
  have "length (collect_loop ?l ?root []) \<le> CAP_DERIVATION_MAX"
    using collect_result(3) [OF wf, of ?root] wf by (simp add: derivation_wf_def)
  then have "capability_derivation_remove_subtree ?l ?root CAP_DERIVATION_MAX \<noteq> None"
    using valid rv by (simp add: capability_derivation_remove_subtree_def Let_def split_beta)
  then obtain g0 ds where rm: "capability_derivation_remove_subtree ?l ?root CAP_DERIVATION_MAX = Some (g0, ds)" by auto
  note sub = remove_subtree_Some [OF wf rm]
  have R: "set (?root # ds) = ?R" unfolding list.set(2) sub(3) by (rule set_eqI) (simp only: subtree_iff insert_iff mem_Collect_eq)
  have res: "capability_domain_resolve dm r \<noteq> None" if "r \<in> set (?root # ds)" for r
    using that root R subtree_resolves [OF ok, of ?root r] by auto
  then have all: "list_all (may_revoke dm) (?root # ds)" using resolves_may_revoke [OF ok] by (auto simp: list_all_iff)
  obtain dm1 where dm1: "fold_opt revoke_one dm (?root # ds) = Some dm1" "revoked_domain dm ({} \<union> set (?root # ds)) dm1"
    using revoke_fold [OF ok revoked_start [OF ok], of "?root # ds"] res by blast
  define dm' where "dm' = dm1\<lparr>lineage := remove_incoming g0 ?root, lineage_dirty := 1\<rparr>"
  note inc = remove_incoming_result [OF sub(2), of ?root]
  have "live_records (lineage dm') = filter (\<lambda>r. d_child r \<notin> ?R) (live_records ?l)"
    using inc(1) sub(1) by (simp add: dm'_def subtree_iff conj_commute)
  then have "lineage_edge (lineage dm') p r \<longleftrightarrow> lineage_edge ?l p r \<and> r \<notin> ?R" for p r by (auto simp: graph_edge_def)
  moreover have "r \<in> ?R" if "lineage_edge ?l p r" "p \<in> ?R" for p r
    using that by (auto simp: subtree_def)
  moreover have "revoked_domain dm ?R dm1" using dm1(2) R by simp
  ultimately have "revocation_of dm ?R dm'"
    using inc(2) subtree_resolves [OF ok, of ?root] root unfolding revocation_of_def dm'_def
    by (intro conjI exI [of _ dm1]) auto
  moreover have "capability_domain_revoke dm owner slot = Some (dm', 0)"
    using c act k rm all dm1(1) by (simp add: capability_domain_revoke_def member_def Let_def dm'_def)
  ultimately show ?thesis by blast
qed

lemma revoke_cases:
  assumes ok: "domain_ok dm"
  obtains "capability_domain_revoke dm owner slot = Some (dm, JANI_EINVAL)"
      "member dm owner = None \<or> active dm = 0 \<or> capability_table_get (cap_table (item dm owner)) slot = None"
  | c k dm' where "owner < COMPONENT_MAX" "items (components dm) ! owner = Some c" "active dm \<noteq> 0"
      "capability_table_get (cap_table c) slot = Some k" "capability_domain_revoke dm owner slot = Some (dm', 0)"
      "revocation_of dm (subtree dm (reference c slot)) dm'"
proof (cases "member dm owner = None \<or> active dm = 0 \<or> capability_table_get (cap_table (item dm owner)) slot = None")
  case True
  then show thesis by (intro that(1)) (simp_all add: capability_domain_revoke_def)
next
  case False
  then obtain c k where c: "owner < COMPONENT_MAX" "items (components dm) ! owner = Some c" "active dm \<noteq> 0"
    "capability_table_get (cap_table c) slot = Some k" by (auto simp: member_def split: if_splits)
  from revoke_result [OF ok c] show thesis using that(2) [OF c] by blast
qed

lemma revoke_ok: "domain_ok dm \<Longrightarrow> capability_domain_revoke dm owner slot = Some (dm', n) \<Longrightarrow> domain_ok dm'"
  by (rule revoke_cases [of dm owner slot]) (auto dest: revocation_ok)

end
