(* ===== verification/Domain_Transactions.thy ===== *)
theory Domain_Transactions
  imports Domain_Revocation
begin

text \<open>
  Transactions on the capability domain, \<^verbatim>\<open>kernel/cap/domain.c\<close>: the runs of begin, the
  operations inside and abort, the invariant they keep and what abort restores.
\<close>

section \<open>Transactions\<close>

text \<open>What an operation inside a transaction keeps: the saved state and which components there are.\<close>

definition txn_frame :: "('d, 'i, 'p) capability_domain \<Rightarrow> ('d, 'i, 'p) capability_domain \<Rightarrow> bool" where
  "txn_frame dm dm' \<longleftrightarrow> saved dm' = saved dm \<and> saved_lineage dm' = saved_lineage dm \<and>
     saved_provenance dm' = saved_provenance dm \<and> saved_address dm' = saved_address dm \<and> active dm' = active dm \<and>
     set_count (components dm') = set_count (components dm) \<and> dm_store_id dm' = dm_store_id dm \<and>
     map (\<lambda>x. x = None) (items (components dm')) = map (\<lambda>x. x = None) (items (components dm))"

lemma txn_frame_refl [intro, simp]: "txn_frame dm dm"
  by (simp add: txn_frame_def)

lemma txn_frame_trans [trans]: "txn_frame dm dm' \<Longrightarrow> txn_frame dm' dm'' \<Longrightarrow> txn_frame dm dm''"
  by (simp add: txn_frame_def)

lemma map_none_update:
  "xs ! i \<noteq> None \<Longrightarrow> map (\<lambda>x. x = None) (xs[i := Some c]) = map (\<lambda>x. x = None) xs"
  by (rule nth_equalityI) (auto simp: nth_list_update')

lemma txn_frame_set_item: "items (components dm) ! i \<noteq> None \<Longrightarrow> txn_frame dm (set_item dm i c)"
  using map_none_update [of "items (components dm)" i c] by (simp add: txn_frame_def set_item_def)

lemma txn_frame_updates [simp]:
  "txn_frame dm (dm'\<lparr>lineage := l\<rparr>) = txn_frame dm dm'" "txn_frame dm (dm'\<lparr>lineage_dirty := x\<rparr>) = txn_frame dm dm'"
  "txn_frame dm (dm'\<lparr>tables_dirty := x\<rparr>) = txn_frame dm dm'" "txn_frame dm (dm'\<lparr>states_dirty := x\<rparr>) = txn_frame dm dm'"
  "txn_frame dm (dm'\<lparr>provenance := pv\<rparr>) = txn_frame dm dm'" "txn_frame dm (dm'\<lparr>provenance_dirty := x\<rparr>) = txn_frame dm dm'"
  "txn_frame dm (dm'\<lparr>dm_heap := h\<rparr>) = txn_frame dm dm'" "txn_frame dm (dm'\<lparr>writes := w\<rparr>) = txn_frame dm dm'"
  "txn_frame dm (dm'\<lparr>dm_store := s\<rparr>) = txn_frame dm dm'"
  by (simp_all add: txn_frame_def)

lemma txn_frame_state_changed [simp]: "txn_frame dm (capability_domain_state_changed dm' i) = txn_frame dm dm'"
  by (auto simp: capability_domain_state_changed_def split: option.splits)

lemma derive_frame: "capability_domain_derive dm owner slot r b = (dm', n) \<Longrightarrow> txn_frame dm dm'"
  by (auto simp: capability_domain_derive_def member_def Let_def intro!: txn_frame_set_item split: option.splits if_splits prod.splits bool.splits)

lemma use_frame: "capability_domain_use dm owner slot r op = (dm', n) \<Longrightarrow> txn_frame dm dm'"
  by (auto simp: capability_domain_use_def Let_def split: option.splits if_splits)

lemma read_frame:
  assumes "capability_domain_read dm i = Some (dm', r)"
  shows "txn_frame dm dm'"
  by (subst read_domain(1) [OF assms]) simp

lemma write_frame: "capability_domain_write mp dm request = Some (dm', r) \<Longrightarrow> txn_frame dm dm'"
  by (auto simp: capability_domain_write_def Let_def split: option.splits if_splits)

lemma deliver_frame:
  assumes "items (components dm) ! i \<noteq> None" "deliver dm i payload len g = (dm', n)"
  shows "txn_frame dm dm'"
  using assms by (auto simp: deliver_def Let_def intro!: txn_frame_set_item split: option.splits prod.splits)

lemma stage_grant_frame: "stage_grant dm sender rcv src r b = Some (dm', x) \<Longrightarrow> txn_frame dm dm' \<and> components dm' = components dm"
proof -
  assume s: "stage_grant dm sender rcv src r b = Some (dm', x)"
  then have "dm' = dm \<or> (\<exists>i y. capability_domain_read dm i = Some (dm', y))"
    by (auto simp: stage_grant_def Let_def split: option.splits prod.splits if_splits bool.splits)
  moreover have "components dm' = components dm" if "capability_domain_read dm i = Some (dm', y)" for i y
    by (subst read_domain(1) [OF that]) simp
  ultimately show ?thesis using read_frame by auto
qed

lemma send_frame:
  assumes snd: "capability_domain_send dm sender target payload len src r b = Some (dm', n)"
  shows "txn_frame dm dm'"
proof -
  have it: "items (components dm) ! i \<noteq> None" if "component_set_find (components dm) x = Some i" for i x
    by (rule find_Some_item [OF that]) simp
  from snd consider "dm' = dm"
    | i x g where "component_set_find (components dm) x = Some i" "deliver dm i payload len g = (dm', n)"
    | i x y where "stage_grant dm sender i (of_int src) r b = Some (dm', y)"
    | i x y d g where "component_set_find (components dm) x = Some i" "stage_grant dm sender i (of_int src) r b = Some (d, y)"
        "deliver d i payload len g = (dm', n)"
    unfolding capability_domain_send_def Let_def by (auto split: if_splits option.splits sum.splits prod.splits)
  then show ?thesis
  proof cases
    case 2
    then show ?thesis using deliver_frame it by blast
  next
    case 4
    then show ?thesis using stage_grant_frame [OF 4(2)] deliver_frame [OF _ 4(3)] it [OF 4(1)] by (auto intro: txn_frame_trans)
  qed (auto dest: stage_grant_frame)
qed

lemma revoke_one_frame:
  assumes "revoke_one dm r = Some dm'"
  shows "txn_frame dm dm'"
proof -
  from assms obtain i c changed c2 x where i: "component_set_find (components dm) (component_id r) = Some i"
    and dm': "dm' = (set_item (if changed then capability_domain_state_changed (set_item dm i c) i else set_item dm i c) i c2)\<lparr>tables_dirty := x\<rparr>"
    by (auto simp: revoke_one_def Let_def split: option.splits)
  have it: "items (components dm) ! i \<noteq> None" by (rule find_Some_item [OF i]) simp
  let ?dm2 = "if changed then capability_domain_state_changed (set_item dm i c) i else set_item dm i c"
  have "txn_frame dm ?dm2" using txn_frame_set_item [OF it, of c] by simp
  moreover have "items (components ?dm2) ! i \<noteq> None"
    using it by (cases "i < length (items (components dm))") (auto simp: set_item_def nth_list_update')
  then have "txn_frame ?dm2 (set_item ?dm2 i c2)" by (rule txn_frame_set_item)
  ultimately show ?thesis unfolding dm' by (simp only: txn_frame_updates) (rule txn_frame_trans)
qed

lemma revoke_frame:
  assumes "capability_domain_revoke dm owner slot = Some (dm', n)"
  shows "txn_frame dm dm'"
proof -
  have fold: "txn_frame dm d" if "fold_opt revoke_one dm rs = Some d" for rs d
    by (rule fold_opt_invariant [OF that]) (auto intro: txn_frame_trans revoke_one_frame)
  consider "dm' = dm" | d rs l where "fold_opt revoke_one dm rs = Some d" "dm' = d\<lparr>lineage := l, lineage_dirty := 1\<rparr>"
    using assms unfolding capability_domain_revoke_def Let_def by (auto split: if_splits option.splits simp del: fold_opt.simps)
  then show ?thesis using fold by cases auto
qed

text \<open>The operations inside a transaction, in any order and with any outcome.\<close>

inductive txn_step :: "('d, 'i, 'p) capability_domain \<Rightarrow> ('d, 'i, 'p) capability_domain \<Rightarrow> bool" where
  derive: "capability_domain_derive dm owner slot r b = (dm', n) \<Longrightarrow> txn_step dm dm'"
| use_cap: "capability_domain_use dm owner slot r op = (dm', n) \<Longrightarrow> txn_step dm dm'"
| send: "capability_domain_send dm sender target payload len src r b = Some (dm', n) \<Longrightarrow> payload_ok payload len \<Longrightarrow> txn_step dm dm'"
| revoke: "capability_domain_revoke dm owner slot = Some (dm', n) \<Longrightarrow> txn_step dm dm'"
| write_object: "capability_domain_write mp dm request = Some (dm', ok) \<Longrightarrow> txn_step dm dm'"
| read_object: "capability_domain_read dm i = Some (dm', answer) \<Longrightarrow> txn_step dm dm'"
| state_changed: "txn_step dm (capability_domain_state_changed dm i)"

inductive_cases txn_stepE: "txn_step dm dm'"

lemma txn_step_frame: "txn_step dm dm' \<Longrightarrow> txn_frame dm dm'"
  by (erule txn_stepE)
    (auto dest: derive_frame use_frame send_frame revoke_frame write_frame read_frame)

lemma txn_steps_frame: "txn_step\<^sup>*\<^sup>* dm dm' \<Longrightarrow> txn_frame dm dm'"
  by (induction rule: rtranclp_induct) (auto dest: txn_step_frame intro: txn_frame_trans)

lemma domain_ok_cong:
  fixes dm dm' :: "('d, 'i, 'p) capability_domain"
  assumes "components dm' = components dm" "lineage dm' = lineage dm" "dm_store dm' = dm_store dm" "dm_store_id dm' = dm_store_id dm"
  shows "domain_ok dm' = domain_ok dm"
proof -
  have ok: "domain_ok d'" if "domain_ok d" "components d' = components d" "lineage d' = lineage d"
    "dm_store d' = dm_store d" "dm_store_id d' = dm_store_id d" for d d' :: "('d, 'i, 'p) capability_domain"
    by (rule same_caps_ok [OF that(1)]) (use that domain_okD(1,5) [OF that(1)] in \<open>auto simp: same_caps_def set_ok_def\<close>)
  show ?thesis using ok [of dm dm'] ok [of dm' dm] assms by auto
qed

lemma use_fields:
  assumes "capability_domain_use dm owner slot r op = (dm', n)"
  shows "components dm' = components dm" "lineage dm' = lineage dm" "dm_store dm' = dm_store dm" "dm_store_id dm' = dm_store_id dm"
  using assms by (auto simp: capability_domain_use_def Let_def split: option.splits if_splits)

lemma write_fields:
  assumes "capability_domain_write mp dm request = Some (dm', r)"
  shows "components dm' = components dm" "lineage dm' = lineage dm" "dm_store dm' = dm_store dm" "dm_store_id dm' = dm_store_id dm"
  using assms by (auto simp: capability_domain_write_def Let_def split: option.splits if_splits)

lemma txn_step_ok:
  assumes "txn_step dm dm'" "domain_ok dm"
  shows "domain_ok dm'"
  using assms(1)
proof cases
  case (state_changed i)
  then show ?thesis using domain_ok_cong [of dm' dm] assms(2) by simp
next
  case use_cap
  then show ?thesis using domain_ok_cong [OF use_fields [OF use_cap]] assms(2) by simp
next
  case write_object
  then show ?thesis using domain_ok_cong [OF write_fields [OF write_object]] assms(2) by simp
qed (use assms(2) in \<open>auto intro: derive_ok send_ok revoke_ok read_ok\<close>)

text \<open>No operation of the domain changes which components are fenced.\<close>

lemma txn_step_fenced:
  assumes "txn_step dm dm'" "domain_ok dm"
  shows "component_is_fenced (dm_store dm') x = component_is_fenced (dm_store dm) x"
  using assms(1)
proof cases
  case (derive owner slot r b n)
  show ?thesis by (rule derive_graft [OF assms(2) derive]) (auto dest: graft_domain(3))
next
  case (use_cap owner slot r op n)
  then show ?thesis using use_fields(3) by metis
next
  case (send sender target payload len src r b n)
  show ?thesis
    by (rule send_result [OF assms(2) send(2,1)]) (auto simp: same_caps_def dest: graft_domain(3))
next
  case (revoke owner slot n)
  show ?thesis
  proof (rule revoke_cases [OF assms(2), of owner slot])
    assume "capability_domain_revoke dm owner slot = Some (dm, JANI_EINVAL)"
    then have "dm' = dm" using revoke by simp
    then show ?thesis by simp
  next
    fix c k dm1
    assume "capability_domain_revoke dm owner slot = Some (dm1, 0)" and r: "revocation_of dm (subtree dm (reference c slot)) dm1"
    then have "dm' = dm1" using revoke by simp
    then show ?thesis using revocation_item(4) [OF r, of 0] by simp
  qed
next
  case (write_object mp request ok)
  then show ?thesis using write_fields(3) by metis
next
  case (read_object i answer)
  then show ?thesis using read_domain(2) by blast
qed simp

section \<open>Abort\<close>

text \<open>The state that abort goes back to.\<close>

definition restored :: "('d, 'i, 'p) capability_domain \<Rightarrow> ('d, 'i, 'p) capability_domain" where
  "restored dm = dm\<lparr>components := (components dm)\<lparr>items :=
       map (\<lambda>i. if items (components dm) ! i \<noteq> None then saved dm ! i else None) [0..<COMPONENT_MAX]\<rparr>,
     lineage := saved_lineage dm, provenance := saved_provenance dm\<rparr>"

lemma finish_fields [simp]:
  "components (finish dm) = components dm" "lineage (finish dm) = lineage dm" "provenance (finish dm) = provenance dm"
  "dm_store (finish dm) = dm_store dm" "dm_store_id (finish dm) = dm_store_id dm" "active (finish dm) = 0"
  by (simp_all add: finish_def)

lemma abort_restored: "capability_domain_abort dm = (if active dm = 0 then dm else finish (restored dm))"
  by (simp add: capability_domain_abort_def restored_def)

lemma restored_items: "items (components (restored dm)) =
    map (\<lambda>i. if items (components dm) ! i \<noteq> None then saved dm ! i else None) [0..<COMPONENT_MAX]"
  by (simp add: restored_def)

lemma restored_frame:
  assumes fr: "txn_frame dm dm'" and len: "length (items (components dm)) = COMPONENT_MAX"
  shows "components (restored dm') = components (restored dm)" "lineage (restored dm') = lineage (restored dm)"
    "provenance (restored dm') = provenance (restored dm)"
proof -
  have "length (items (components dm')) = COMPONENT_MAX" using fr len by (metis txn_frame_def length_map)
  then have "items (components dm') ! i = None \<longleftrightarrow> items (components dm) ! i = None" if "i < COMPONENT_MAX" for i
    using that len arg_cong [of _ _ "\<lambda>xs. xs ! i", OF fr [unfolded txn_frame_def, THEN conjunct2, THEN conjunct2,
      THEN conjunct2, THEN conjunct2, THEN conjunct2, THEN conjunct2, THEN conjunct2]] by simp
  then have "map (\<lambda>i. if items (components dm') ! i \<noteq> None then saved dm ! i else None) [0..<COMPONENT_MAX] =
      map (\<lambda>i. if items (components dm) ! i \<noteq> None then saved dm ! i else None) [0..<COMPONENT_MAX]"
    by (intro map_cong) (simp_all only: atLeastLessThan_iff set_upt refl if_True if_False)
  then have "items (components (restored dm')) = items (components (restored dm))"
    unfolding restored_items using fr by (simp only: txn_frame_def)
  then show "components (restored dm') = components (restored dm)"
    using fr by (intro component_set.equality) (auto simp: restored_def txn_frame_def)
  show "lineage (restored dm') = lineage (restored dm)" "provenance (restored dm') = provenance (restored dm)"
    using fr by (simp_all add: restored_def txn_frame_def)
qed

lemma begin_fields:
  assumes "capability_domain_begin mp dm = Some (dm', ok)"
  shows "components dm' = components dm" "lineage dm' = lineage dm" "provenance dm' = provenance dm"
    "dm_store dm' = dm_store dm" "dm_store_id dm' = dm_store_id dm"
    "ok \<Longrightarrow> active dm' = 1 \<and> active dm = 0 \<and> saved dm' = items (components dm) \<and> saved_lineage dm' = lineage dm \<and>
       saved_provenance dm' = provenance dm"
    "\<not> ok \<Longrightarrow> \<exists>h. dm' = dm\<lparr>dm_heap := h\<rparr>"
  using assms by (auto simp: capability_domain_begin_def split: if_splits option.splits intro: exI [of _ "dm_heap dm"])

lemma begin_restored:
  assumes "capability_domain_begin mp dm = Some (dm', True)" "length (items (components dm)) = COMPONENT_MAX"
  shows "components (restored dm') = components dm" "lineage (restored dm') = lineage dm" "provenance (restored dm') = provenance dm"
proof -
  note b = begin_fields [OF assms(1)]
  have "map (\<lambda>i. if items (components dm) ! i \<noteq> None then items (components dm) ! i else None) [0..<COMPONENT_MAX] = items (components dm)"
    using assms(2) by (intro nth_equalityI) auto
  then have "items (components (restored dm')) = items (components dm)"
    unfolding restored_items using b(1) b(6) [OF TrueI] by (simp only:)
  moreover have "set_count (components (restored dm')) = set_count (components dm)" using b(1) by (simp add: restored_def)
  ultimately show "components (restored dm') = components dm" by simp
  show "lineage (restored dm') = lineage dm" "provenance (restored dm') = provenance dm"
    using b(6) [OF TrueI] by (simp_all add: restored_def)
qed

section \<open>Runs\<close>

inductive domain_step :: "('d, 'i, 'p) capability_domain \<Rightarrow> ('d, 'i, 'p) capability_domain \<Rightarrow> bool" where
  begin_txn: "capability_domain_begin mp dm = Some (dm', ok) \<Longrightarrow> domain_step dm dm'"
| inside: "txn_step dm dm' \<Longrightarrow> domain_step dm dm'"
| abort: "domain_step dm (capability_domain_abort dm)"

definition domain_inv :: "('d, 'i, 'p) capability_domain \<Rightarrow> bool" where
  "domain_inv dm \<longleftrightarrow> domain_ok dm \<and> (active dm \<noteq> 0 \<longrightarrow> domain_ok (restored dm))"

lemma restored_ok:
  assumes "domain_ok (restored dm)" "txn_frame dm dm'" "length (items (components dm)) = COMPONENT_MAX"
    "\<And>x. component_is_fenced (dm_store dm') x = component_is_fenced (dm_store dm) x"
  shows "domain_ok (restored dm')"
proof (rule same_caps_ok [OF assms(1)])
  note r = restored_frame [OF assms(2,3)]
  show "same_caps (restored dm) (restored dm')"
    using r assms(2,4) by (simp add: same_caps_def) (simp add: restored_def txn_frame_def)
  show "mail_ok c" if "j < COMPONENT_MAX" "items (components (restored dm')) ! j = Some c" for j c
    using domain_okD(5) [OF assms(1)] that r by simp
qed

lemma domain_step_inv:
  assumes "domain_step dm dm'" "domain_inv dm"
  shows "domain_inv dm'"
  using assms(1)
proof cases
  case (begin_txn mp r)
  note b = begin_fields [OF begin_txn]
  have ok: "domain_ok dm" and len: "length (items (components dm)) = COMPONENT_MAX"
    using assms(2) domain_okD(1) [of dm] by (auto simp: domain_inv_def set_ok_def)
  show ?thesis
  proof (cases r)
    case True
    then have bt: "capability_domain_begin mp dm = Some (dm', True)" using begin_txn by simp
    have "domain_ok (restored dm')"
      using domain_ok_cong [of "restored dm'" dm] begin_restored [OF bt len] b(4,5) ok
      by (simp add: restored_def)
    then show ?thesis using domain_ok_cong [of dm' dm] b ok by (simp add: domain_inv_def)
  next
    case False
    then obtain h where h: "dm' = dm\<lparr>dm_heap := h\<rparr>" using b(7) by blast
    have eq: "active dm' = active dm" "components (restored dm') = components (restored dm)"
      "lineage (restored dm') = lineage (restored dm)" "dm_store (restored dm') = dm_store (restored dm)"
      "dm_store_id (restored dm') = dm_store_id (restored dm)"
      unfolding h by (simp_all add: restored_def)
    then show ?thesis using domain_ok_cong [of dm' dm] domain_ok_cong [of "restored dm'" "restored dm"] b assms(2) by (simp add: domain_inv_def)
  qed
next
  case inside
  have len: "length (items (components dm)) = COMPONENT_MAX"
    using assms(2) domain_okD(1) [of dm] by (auto simp: domain_inv_def set_ok_def)
  have "active dm' = active dm" using txn_step_frame [OF inside] by (simp add: txn_frame_def)
  then show ?thesis
    using txn_step_ok [OF inside] restored_ok [OF _ txn_step_frame [OF inside] len txn_step_fenced [OF inside]] assms(2)
    by (simp add: domain_inv_def)
next
  case abort
  then show ?thesis using assms(2) domain_ok_cong [of "finish (restored dm)" "restored dm"]
    by (simp add: domain_inv_def abort_restored)
qed

lemma domain_steps_inv: "domain_step\<^sup>*\<^sup>* dm dm' \<Longrightarrow> domain_inv dm \<Longrightarrow> domain_inv dm'"
  by (induction rule: rtranclp_induct) (auto intro: domain_step_inv)

section \<open>Authority\<close>

text \<open>Every capability of a domain names the object of one of another domain and has no right that it lacks.\<close>

definition confined :: "('d, 'i, 'p) capability_domain \<Rightarrow> ('d, 'i, 'p) capability_domain \<Rightarrow> bool" where
  "confined dm dm' \<longleftrightarrow> (\<forall>r k. capability_domain_resolve dm' r = Some k \<longrightarrow>
     (\<exists>r0 k0. capability_domain_resolve dm r0 = Some k0 \<and> cap_object k = cap_object k0 \<and> right_bits k \<subseteq> right_bits k0))"

lemma confined_refl [simp]: "confined dm dm"
  by (auto simp: confined_def)

lemma confined_trans [trans]:
  assumes "confined dm dm'" "confined dm' dm''"
  shows "confined dm dm''"
  unfolding confined_def
proof (intro allI impI)
  fix r k assume 2: "capability_domain_resolve dm'' r = Some k"
  obtain r1 k1 where 1: "capability_domain_resolve dm' r1 = Some k1" "cap_object k = cap_object k1" "right_bits k \<subseteq> right_bits k1"
    using assms(2) [unfolded confined_def, rule_format, OF 2] by blast
  obtain r0 k0 where "capability_domain_resolve dm r0 = Some k0" "cap_object k1 = cap_object k0" "right_bits k1 \<subseteq> right_bits k0"
    using assms(1) [unfolded confined_def, rule_format, OF 1(1)] by blast
  then show "\<exists>r0 k0. capability_domain_resolve dm r0 = Some k0 \<and> cap_object k = cap_object k0 \<and> right_bits k \<subseteq> right_bits k0"
    using 1 by (intro exI [of _ r0] exI [of _ k0]) auto
qed

lemma confined_cong: "capability_domain_resolve dm' = capability_domain_resolve dm \<Longrightarrow> confined dm dm'"
  by (auto simp: confined_def)

lemma resolve_cong:
  assumes "components dm' = components dm" "\<And>x. component_is_fenced (dm_store dm') x = component_is_fenced (dm_store dm) x"
  shows "capability_domain_resolve dm' = capability_domain_resolve dm"
  using assms by (intro ext) (simp add: capability_domain_resolve_def cong: option.case_cong if_cong)

lemma graft_confined:
  assumes g: "graft dm dm' i c c' p kp child k s"
  shows "confined dm dm'"
proof -
  have "cap_object k = cap_object kp" "right_bits k \<subseteq> right_bits kp"
    using graft_new(2) [OF g] right_bits_subset [of k kp] by (auto simp: edge_grants_def and.commute)
  then show ?thesis
    unfolding confined_def graft_resolve [OF g] using graft_parent [OF g] by (auto split: if_splits)
qed

lemma txn_step_confined:
  assumes "txn_step dm dm'" "domain_ok dm"
  shows "confined dm dm'"
  using assms(1)
proof cases
  case (derive owner slot r b n)
  show ?thesis by (rule derive_graft [OF assms(2) derive]) (auto dest: graft_confined)
next
  case (use_cap owner slot r op n)
  show ?thesis using use_fields(1,3) [OF use_cap] by (intro confined_cong resolve_cong) auto
next
  case (send sender target payload len src r b n)
  show ?thesis
  proof (rule send_result [OF assms(2) send(2,1)])
    assume "same_caps dm dm'"
    then show ?thesis by (intro confined_cong same_caps_resolve)
  next
    fix dm1 sc rc c' kp k s i
    assume "same_caps dm dm1" "graft dm1 dm' (the (component_set_find (components dm) (root_id rc))) rc c' (reference sc (of_int src)) kp
        (reference c' (of_nat s)) k s"
    then show ?thesis by (blast intro: confined_trans confined_cong same_caps_resolve graft_confined)
  qed
next
  case (revoke owner slot n)
  show ?thesis
  proof (rule revoke_cases [OF assms(2), of owner slot])
    assume "capability_domain_revoke dm owner slot = Some (dm, JANI_EINVAL)"
    then have "dm' = dm" using revoke by simp
    then show ?thesis by simp
  next
    fix c k dm1
    assume "capability_domain_revoke dm owner slot = Some (dm1, 0)" and r: "revocation_of dm (subtree dm (reference c slot)) dm1"
    then have "dm' = dm1" using revoke by simp
    then show ?thesis using revocation_resolve [OF assms(2) r] by (auto simp: confined_def split: if_splits)
  qed
next
  case (write_object mp request ok)
  show ?thesis using write_fields(1,3) [OF write_object] by (intro confined_cong resolve_cong) auto
next
  case (read_object i answer)
  then show ?thesis using read_same [OF assms(2)] by (intro confined_cong same_caps_resolve)
next
  case (state_changed i)
  then show ?thesis by (intro confined_cong resolve_cong) auto
qed

definition confined_inv :: "('d, 'i, 'p) capability_domain \<Rightarrow> ('d, 'i, 'p) capability_domain \<Rightarrow> bool" where
  "confined_inv dm dm' \<longleftrightarrow> domain_inv dm' \<and> confined dm dm' \<and> (active dm' \<noteq> 0 \<longrightarrow> confined dm (restored dm'))"

lemma domain_step_confined:
  assumes "domain_step dm1 dm2" "confined_inv dm dm1"
  shows "confined_inv dm dm2"
proof -
  have inv: "domain_inv dm1" "domain_inv dm2" "domain_ok dm1" "confined dm dm1"
    using assms domain_step_inv by (auto simp: confined_inv_def domain_inv_def)
  have len: "length (items (components dm1)) = COMPONENT_MAX" using domain_okD(1) [OF inv(3)] by (simp add: set_ok_def)
  from assms(1) show ?thesis
  proof cases
    case (begin_txn mp r)
    note b = begin_fields [OF begin_txn]
    have same: "confined dm dm2" using inv(4) confined_cong [OF resolve_cong [of dm2 dm1]] b by (auto intro: confined_trans)
    have "confined dm (restored dm2)" if a: "active dm2 \<noteq> 0"
    proof (cases r)
      case True
      then have bt: "capability_domain_begin mp dm1 = Some (dm2, True)" using begin_txn by simp
      have "dm_store (restored dm2) = dm_store dm1" using b(4) by (simp add: restored_def)
      then show ?thesis using inv(4) begin_restored(1) [OF bt len] confined_cong [OF resolve_cong [of "restored dm2" dm1]]
        by (auto intro: confined_trans)
    next
      case False
      then obtain h where h: "dm2 = dm1\<lparr>dm_heap := h\<rparr>" using b(7) by blast
      then have "confined (restored dm1) (restored dm2)" by (intro confined_cong resolve_cong) (auto simp: restored_def)
      then show ?thesis using a assms(2) h by (auto simp: confined_inv_def intro: confined_trans)
    qed
    then show ?thesis using same inv(2) by (simp add: confined_inv_def)
  next
    case inside
    have "active dm2 = active dm1" using txn_step_frame [OF inside] by (simp add: txn_frame_def)
    moreover have "dm_store (restored dm1) = dm_store dm1" "dm_store (restored dm2) = dm_store dm2" by (simp_all add: restored_def)
    then have "confined (restored dm1) (restored dm2)"
      using restored_frame(1) [OF txn_step_frame [OF inside] len] txn_step_fenced [OF inside inv(3)]
      by (intro confined_cong resolve_cong) auto
    moreover have "confined dm dm2" using txn_step_confined [OF inside inv(3)] inv(4) by (blast intro: confined_trans)
    ultimately show ?thesis using inv(2) assms(2) by (auto simp: confined_inv_def intro: confined_trans)
  next
    case abort
    have "confined (restored dm1) (finish (restored dm1))" by (intro confined_cong resolve_cong) auto
    then show ?thesis using assms(2) inv(2) abort
      by (auto simp: confined_inv_def abort_restored intro: confined_trans)
  qed
qed

lemma domain_steps_confined:
  assumes "domain_step\<^sup>*\<^sup>* dm dm'" "domain_ok dm" "active dm = 0"
  shows "confined_inv dm dm'"
  using assms(1)
proof (induction rule: rtranclp_induct)
  case base
  show ?case using assms(2,3) by (simp add: confined_inv_def domain_inv_def)
qed (auto intro: domain_step_confined)

section \<open>Properties\<close>

definition sample_member :: "unit component" where
  "sample_member = sample_component\<lparr>cap_table := sample_table2, capability_count := 2\<rparr>"

text \<open>One component whose second capability was derived from its first, no transaction open.\<close>

definition sample_domain :: "(unit, unit, unit) capability_domain" where
  "sample_domain = \<lparr>dm_store = sample_bitmap_store, dm_store_id = 0, dm_heap = sample_heap,
     components = \<lparr>items = [Some sample_member, None, None, None], set_count = 1\<rparr>,
     lineage = sample_graph, saved_lineage = capability_derivation_table_init, saved = [], saved_address = 0,
     tables_dirty = 0, states_dirty = 0, lineage_dirty = 0, active = 0, halted = 0,
     provenance = zero_ledger, saved_provenance = zero_ledger, provenance_dirty = 0, writes = []\<rparr>"

lemma nth_four: "j < COMPONENT_MAX \<Longrightarrow> [a, b, c, d] ! j = (if j = 0 then a else if j = 1 then b else if j = 2 then c else d)"
  by (auto simp: less_Suc_eq numeral_eq_Suc)

lemma sample_item:
  "j < COMPONENT_MAX \<Longrightarrow> items (components sample_domain) ! j = (if j = 0 then Some sample_member else None)"
  by (simp add: sample_domain_def nth_four)

lemma sample_fenced: "\<not> component_is_fenced (dm_store sample_domain) x"
  by (simp add: sample_domain_def component_is_fenced_def object_store_requires_recovery_def sample_bitmap_store_def
      object_table_init_def object_table_find_def find_loop.simps)

lemma sample_reference:
  "reference sample_member 0 = sample_ref 0" "reference sample_member 1 = sample_ref 1"
proof -
  have "capability_table_generation sample_table2 0 = 1" "capability_table_generation sample_table2 1 = 1"
    by (simp_all add: capability_table_generation_def sample2_get) (simp_all add: sample_table2_def)
  then show "reference sample_member 0 = sample_ref 0" "reference sample_member 1 = sample_ref 1"
    by (simp_all add: reference_def sample_ref_def sample_member_def sample_component_def)
qed

lemma sample_set_ok: "set_ok (components sample_domain)"
  using sample_item
  by (auto simp: set_ok_def sample_member_def sample_component_def object_id_is_zero_def split: if_splits)
    (simp add: sample_domain_def)

lemma sample_domain_ok: "domain_ok sample_domain"
proof (rule domain_okI [OF sample_set_ok])
  have edges: "lineage_edge (lineage sample_domain) p r \<longleftrightarrow> p = sample_ref 0 \<and> r = sample_ref 1" for p r
    by (auto simp: sample_domain_def sample_add(2) graph_edge_def)
  show "derivation_wf (lineage sample_domain)"
    using sample_add(3,4) is_valid_iff_derivation_wf [of sample_graph] by (simp add: sample_domain_def derivation_shape_def)
  have res: "capability_domain_resolve sample_domain (reference sample_member x) = capability_table_get sample_table2 x" for x
    using resolve_item [OF sample_set_ok, of 0 sample_member "reference sample_member x"] sample_item [of 0] sample_fenced
    by (simp add: table_resolve_def) (simp add: sample_member_def)
  show "edge_grants (capability_domain_resolve sample_domain p) (capability_domain_resolve sample_domain r)"
    if "lineage_edge (lineage sample_domain) p r" for p r
    using that res [of 0] res [of 1] by (simp add: edges sample_reference sample2_get edge_grants_def)
      (simp add: capability_allows_def capability_is_valid_Some sample_defs)
  fix i c assume i: "i < COMPONENT_MAX" "items (components sample_domain) ! i = Some c"
  then have c: "c = sample_member" by (auto simp: sample_item split: if_splits)
  have nth: "parents sample_table2 ! s = (if s = 1 then 0 else CAP_SLOT_NONE)" if "s < CAP_TABLE_SLOTS" for s
    using that by (cases s) (auto simp: sample_table2_def nth_Cons split: nat.splits)
  have "links_ok (lineage sample_domain) sample_member"
    unfolding links_ok_def edges
  proof (intro allI impI conjI)
    fix s assume s: "s < CAP_TABLE_SLOTS" and "parents (cap_table sample_member) ! s \<noteq> CAP_SLOT_NONE"
    then have "s = 1" using nth [OF s] by (auto simp: sample_member_def split: if_splits)
    then show "reference sample_member (parents (cap_table sample_member) ! s) = sample_ref 0"
      "reference sample_member (of_nat s) = sample_ref 1"
      using nth [OF s] sample_reference by (simp_all add: sample_member_def)
  next
    fix s q assume s: "s < CAP_TABLE_SLOTS" and "q = sample_ref 0 \<and> reference sample_member (of_nat s) = sample_ref 1"
    then have "unat (of_nat s :: u32) = unat (1 :: u32)" "q = sample_ref 0"
      by (auto simp: reference_def sample_ref_def capability_ref_make_def)
    then have "s = 1" "q = sample_ref 0" using s by auto
    then show "ref_slot q = parents (cap_table sample_member) ! s"
      using s nth [of 1] by (simp add: sample_member_def sample_ref_def capability_ref_make_def)
  qed
  moreover have "caps_ok sample_member"
    using sample_run(4) by (auto simp: caps_ok_def sample_member_def sample_table2_def nth_Cons zero_capability_def split: nat.splits)
  moreover have "mail_ok sample_member"
    unfolding mail_ok_def using sample_mailbox by (intro exI [of _ "[]"]) (simp add: sample_member_def mailbox_holds_def)
  ultimately show "caps_ok c \<and> mail_ok c \<and> \<not> component_is_fenced (dm_store sample_domain) (root_id c) \<and>
      comp_store c = dm_store_id sample_domain \<and> links_ok (lineage sample_domain) c"
    using sample_fenced by (simp add: c) (simp add: sample_member_def sample_component_def sample_domain_def)
qed

text \<open>
  C27: the capabilities of all components and the graph of their derivations never fall apart.
  Starting from a consistent domain without an open transaction, after any sequence of begins,
  derivations, uses, messages, revocations, object reads and writes and aborts, whatever each of
  them returns, \<open>graph_matches\<close> holds, so that no commit is refused because of the graph; every
  table can be encoded for the store, every mailbox passes its validator, and a slot that a
  waiting message carries holds a capability.
\<close>

theorem domain_stays_consistent:
  assumes "domain_ok dm" "active dm = 0" "domain_step\<^sup>*\<^sup>* dm dm'"
  shows "graph_matches dm' \<and>
    (\<forall>i<COMPONENT_MAX. \<forall>c. items (components dm') ! i = Some c \<longrightarrow>
       component_captable_encode c \<noteq> None \<and> component_mailbox_validate (mailbox c) (unat (mailbox_used c)) \<and>
       (\<exists>ms. mailbox_holds c ms \<and> (\<forall>m\<in>set ms. fst m = UINT32_MAX \<or> capability_table_get (cap_table c) (fst m) \<noteq> None)))"
proof -
  have ok: "domain_ok dm'"
    using domain_steps_inv [OF assms(3)] assms(1,2) by (simp add: domain_inv_def)
  have "component_captable_encode c \<noteq> None" "mail_ok c"
    if "i < COMPONENT_MAX" "items (components dm') ! i = Some c" for i c
    using captable_round_trip [OF domain_okD(4) [OF ok that]] domain_okD(5) [OF ok that] by auto
  then show ?thesis using ok mail_ok_validates unfolding domain_ok_def mail_ok_def by blast
qed

definition sample_open :: "(unit, unit, unit) capability_domain" where
  "sample_open = fst (the (capability_domain_begin sample_pages sample_domain))"

lemma sample_begin: "capability_domain_begin sample_pages sample_domain = Some (sample_open, True)"
proof -
  have "map_option snd (kmalloc sample_pages sample_heap (SIZEOF_COMPONENT * of_nat COMPONENT_MAX)) = Some 0x200010"
    by code_simp
  then obtain h where "kmalloc sample_pages sample_heap (SIZEOF_COMPONENT * of_nat COMPONENT_MAX) = Some (h, 0x200010)" by auto
  then have "\<exists>d. capability_domain_begin sample_pages sample_domain = Some (d, True)"
    by (simp add: capability_domain_begin_def sample_domain_def object_store_requires_recovery_def sample_bitmap_store_def)
  then show ?thesis by (auto simp: sample_open_def)
qed

lemma sample_open_fields:
  "components sample_open = components sample_domain" "lineage sample_open = sample_graph" "active sample_open = 1"
  "domain_ok sample_open"
  using begin_fields [OF sample_begin] domain_ok_cong [of sample_open sample_domain] sample_domain_ok
  by (simp_all add: sample_domain_def)

theorem domain_stays_consistent_witness:
  "domain_ok sample_domain \<and> active sample_domain = 0 \<and> domain_step\<^sup>*\<^sup>* sample_domain sample_open \<and> graph_matches sample_open"
proof -
  have s: "domain_step\<^sup>*\<^sup>* sample_domain sample_open" by (rule r_into_rtranclp) (rule domain_step.begin_txn [OF sample_begin])
  have a: "active sample_domain = 0" by (simp add: sample_domain_def)
  show ?thesis using domain_stays_consistent [OF sample_domain_ok a s] sample_domain_ok a s by simp
qed

text \<open>
  C28: revocation across components is exact and complete. On a consistent domain
  \<open>capability_domain_revoke\<close> always returns; it refuses, leaving the domain untouched, only without a
  transaction or on a slot that holds nothing. Otherwise afterwards no reference to the capability
  or to anything derived from it in any number of steps, in any component, resolves; every other
  reference resolves as before; the graph keeps exactly the edges to what is left; the slots taken
  away are stripped from every message that carries them and nothing else in the mailboxes changes.
\<close>

theorem domain_revoke_exact:
  assumes "domain_ok dm"
  shows "\<exists>dm' n. capability_domain_revoke dm owner slot = Some (dm', n) \<and>
    (if member dm owner = None \<or> active dm = 0 \<or> capability_table_get (cap_table (item dm owner)) slot = None
     then n = JANI_EINVAL \<and> dm' = dm
     else n = 0 \<and> domain_ok dm' \<and>
       (let gone = {r. (lineage_edge (lineage dm))\<^sup>*\<^sup>* (reference (item dm owner) slot) r} in
        (\<forall>r. capability_domain_resolve dm' r = (if r \<in> gone then None else capability_domain_resolve dm r)) \<and>
        (\<forall>p r. lineage_edge (lineage dm') p r \<longleftrightarrow> lineage_edge (lineage dm) p r \<and> r \<notin> gone) \<and>
        (\<forall>i<COMPONENT_MAX. \<forall>c ms. items (components dm) ! i = Some c \<longrightarrow> mailbox_holds c ms \<longrightarrow>
           (\<exists>c'. items (components dm') ! i = Some c' \<and>
              mailbox_holds c' (map (\<lambda>m. (if reference c (fst m) \<in> gone then UINT32_MAX else fst m, snd m)) ms)))))"
proof (rule revoke_cases [OF assms, of owner slot])
  assume "capability_domain_revoke dm owner slot = Some (dm, JANI_EINVAL)"
    "member dm owner = None \<or> active dm = 0 \<or> capability_table_get (cap_table (item dm owner)) slot = None"
  then show ?thesis by auto
next
  fix c k dm' assume c: "owner < COMPONENT_MAX" "items (components dm) ! owner = Some c" "active dm \<noteq> 0"
    "capability_table_get (cap_table c) slot = Some k" "capability_domain_revoke dm owner slot = Some (dm', 0)"
    and rv: "revocation_of dm (subtree dm (reference c slot)) dm'"
  let ?R = "subtree dm (reference c slot)"
  have mail: "\<exists>d'. items (components dm') ! i = Some d' \<and>
      mailbox_holds d' (map (\<lambda>m. (if reference d (fst m) \<in> ?R then UINT32_MAX else fst m, snd m)) ms)"
    if d: "i < COMPONENT_MAX" "items (components dm) ! i = Some d" and ms: "mailbox_holds d ms" for i d ms
  proof -
    obtain d' where d': "items (components dm') ! i = Some d'" "stripped d (names_slot ?R d) d'"
      using revocation_item(1) [OF rv d] by blast
    have "names_slot ?R d (unat x) \<longleftrightarrow> reference d x \<in> ?R" for x
    proof (cases "unat x < CAP_TABLE_SLOTS")
      case False
      have "capability_domain_resolve dm r \<noteq> None" if "r \<in> ?R" for r using rv that by (simp add: revocation_of_def)
      then have "unat (ref_slot r) < CAP_TABLE_SLOTS" if "r \<in> ?R" for r
        using that by (fastforce elim: resolve_Some simp: capability_ref_is_valid_def)
      then show ?thesis using False by (fastforce simp: names_slot_def)
    qed (rule names_slot_iff [OF assms rv d])
    then have eq: "map (strip_all (names_slot ?R d)) ms = map (\<lambda>m. (if reference d (fst m) \<in> ?R then UINT32_MAX else fst m, snd m)) ms"
      by (simp add: strip_all_def)
    have "mailbox_holds d' (map (strip_all (names_slot ?R d)) ms)" using d'(2) ms by (simp add: stripped_def)
    then show ?thesis using d'(1) unfolding eq by blast
  qed
  show ?thesis
    using c mail revocation_ok [OF assms rv] revocation_resolve [OF assms rv] rv
    by (intro exI [of _ dm'] exI [of _ 0]) (simp add: member_def Let_def revocation_of_def subtree_def)
qed

theorem domain_revoke_exact_witness:
  "domain_ok sample_open \<and>
   (\<exists>dm'. capability_domain_revoke sample_open 0 0 = Some (dm', 0) \<and> capability_domain_resolve dm' (sample_ref 1) = None)"
proof -
  have it: "items (components sample_open) ! 0 = Some sample_member" using sample_item [of 0] sample_open_fields by simp
  have e: "(lineage_edge sample_graph)\<^sup>*\<^sup>* (sample_ref 0) (sample_ref 1)"
    by (rule r_into_rtranclp) (simp add: sample_add(2) graph_edge_def)
  have g: "capability_table_get (cap_table sample_member) 0 = Some sample_capability" by (simp add: sample_member_def sample2_get)
  show ?thesis
    using domain_revoke_exact [OF sample_open_fields(4), of 0 0] it g e sample_open_fields sample_reference(1)
    by (auto simp: member_def Let_def)
qed

text \<open>
  C29: no sequence of operations creates authority. Whatever the components do from a consistent
  domain without an open transaction, every capability that some reference resolves to afterwards
  is on an object on which a capability existed at the start, and its rights are among the rights
  of one of those.
\<close>

theorem domain_confines_authority:
  assumes "domain_ok dm" "active dm = 0" "domain_step\<^sup>*\<^sup>* dm dm'" "capability_domain_resolve dm' r = Some k"
  shows "\<exists>r0 k0. capability_domain_resolve dm r0 = Some k0 \<and> cap_object k = cap_object k0 \<and> right_bits k \<subseteq> right_bits k0"
  using domain_steps_confined [OF assms(3,1,2)] assms(4) unfolding confined_inv_def confined_def by blast

theorem domain_confines_authority_witness:
  "domain_step\<^sup>*\<^sup>* sample_domain sample_open \<and> capability_domain_resolve sample_open (sample_ref 1) = Some sample_child \<and>
   (\<exists>r0 k0. capability_domain_resolve sample_domain r0 = Some k0 \<and> right_bits sample_child \<subseteq> right_bits k0)"
proof -
  have s: "domain_step\<^sup>*\<^sup>* sample_domain sample_open" by (rule r_into_rtranclp) (rule domain_step.begin_txn [OF sample_begin])
  have a: "active sample_domain = 0" by (simp add: sample_domain_def)
  have it: "items (components sample_open) ! 0 = Some sample_member" using sample_item [of 0] sample_open_fields by simp
  have r: "capability_domain_resolve sample_open (sample_ref 1) = Some sample_child"
    using get_resolves [OF sample_open_fields(4) _ it, of 1] sample_reference(2) sample2_get by (simp add: sample_member_def)
  show ?thesis using domain_confines_authority [OF sample_domain_ok a s r] s r by blast
qed

text \<open>
  C30: an aborted transaction leaves no trace in the capability system. After a successful begin
  and any sequence of operations, abort brings back every component as it was, capabilities,
  mailbox and all other fields, and the graph and the ledger, and closes the transaction.
\<close>

theorem abort_undoes_transaction:
  assumes "length (items (components dm)) = COMPONENT_MAX" "capability_domain_begin map_page dm = Some (dm0, True)"
    "txn_step\<^sup>*\<^sup>* dm0 dm1"
  shows "components (capability_domain_abort dm1) = components dm \<and> lineage (capability_domain_abort dm1) = lineage dm \<and>
    provenance (capability_domain_abort dm1) = provenance dm \<and> active (capability_domain_abort dm1) = 0"
proof -
  note b = begin_fields [OF assms(2)]
  have len: "length (items (components dm0)) = COMPONENT_MAX" using assms(1) b(1) by simp
  have "active dm1 = 1" using txn_steps_frame [OF assms(3)] b(6) [OF TrueI] by (simp add: txn_frame_def)
  then show ?thesis
    using restored_frame [OF txn_steps_frame [OF assms(3)] len] begin_restored [OF assms(2,1)] by (simp add: abort_restored)
qed

theorem abort_undoes_transaction_witness:
  "capability_domain_begin sample_pages sample_domain = Some (sample_open, True) \<and>
   components (capability_domain_abort (fst (capability_domain_derive sample_open 0 0 1 9))) = components sample_domain"
proof -
  have l: "length (items (components sample_domain)) = COMPONENT_MAX" by (simp add: sample_domain_def)
  have s: "txn_step\<^sup>*\<^sup>* sample_open (fst (capability_domain_derive sample_open 0 0 1 9))"
    by (rule r_into_rtranclp, rule txn_step.derive) (rule surjective_pairing)
  show ?thesis using abort_undoes_transaction [OF l sample_begin s] sample_begin by simp
qed

end
