(* ===== verification/Lineage_Records.thy ===== *)
theory Lineage_Records
  imports Capability_Domain
begin

text \<open>
  The graph of derivations and the provenance ledger in the object store:
  \<^verbatim>\<open>kernel/cap/lineage.{h,c}\<close>, the end of \<^verbatim>\<open>kernel/cap/provenance.c\<close> and
  the validators \<^verbatim>\<open>lineage_validate.zig\<close> and \<^verbatim>\<open>provenance_validate.zig\<close>,
  which work on the bytes of a record.
\<close>

section \<open>The graph of derivations as bytes\<close>

record lineage_header =
  lh_magic :: u64
  lh_version :: u32
  lh_count :: u32
  lh_crc :: u32
  lh_reserved :: u32

definition CAP_LINEAGE_MAGIC :: u64 where "CAP_LINEAGE_MAGIC = 0x4A414E494C494E31"

abbreviation CAP_LINEAGE_BYTES :: nat where "CAP_LINEAGE_BYTES \<equiv> 3096"

definition encode_lineage_header :: "lineage_header \<Rightarrow> bytes" where
  "encode_lineage_header h = le_bytes 8 (lh_magic h) @ le_bytes 4 (lh_version h) @ le_bytes 4 (lh_count h) @
     le_bytes 4 (lh_crc h) @ le_bytes 4 (lh_reserved h)"

definition decode_lineage_header :: "bytes \<Rightarrow> lineage_header" where
  "decode_lineage_header bs =
     \<lparr>lh_magic = le_word (bslice 0 8 bs), lh_version = le_word (bslice 8 4 bs), lh_count = le_word (bslice 12 4 bs),
      lh_crc = le_word (bslice 16 4 bs), lh_reserved = le_word (bslice 20 4 bs)\<rparr>"

definition encode_ref :: "capability_ref \<Rightarrow> bytes" where
  "encode_ref r = encode_id (component_id r) @ le_bytes 4 (ref_slot r) @ le_bytes 4 (ref_generation r)"

definition decode_ref :: "bytes \<Rightarrow> capability_ref" where
  "decode_ref bs = \<lparr>component_id = decode_id (bslice 0 16 bs), ref_slot = le_word (bslice 16 4 bs), ref_generation = le_word (bslice 20 4 bs)\<rparr>"

definition encode_derivation :: "capability_derivation \<Rightarrow> bytes" where
  "encode_derivation d = encode_ref (d_parent d) @ encode_ref (d_child d)"

definition decode_derivation :: "bytes \<Rightarrow> capability_derivation" where
  "decode_derivation bs = \<lparr>d_parent = decode_ref (bslice 0 24 bs), d_child = decode_ref (bslice 24 24 bs)\<rparr>"

definition capability_lineage_encode :: "capability_derivation_table \<Rightarrow> nat \<Rightarrow> bytes option" where
  "capability_lineage_encode table capacity =
     (if capacity < CAP_LINEAGE_BYTES \<or> \<not> capability_derivation_table_is_valid table then None
      else let body = encode_array encode_derivation (records table) in
        Some (encode_lineage_header
          \<lparr>lh_magic = CAP_LINEAGE_MAGIC, lh_version = 1, lh_count = of_nat (d_count table),
           lh_crc = object_crc32c (Some body) (CAP_DERIVATION_MAX * 48), lh_reserved = 0\<rparr> @ body))"

definition validRef :: "bytes \<Rightarrow> bool" where
  "validRef b \<longleftrightarrow> (read_u64_le b 0 \<noteq> 0 \<or> read_u64_le b 8 \<noteq> 0) \<and> read_u32_le b 16 < 16 \<and> read_u32_le b 20 \<noteq> 0"

definition parent_bytes :: "bytes \<Rightarrow> nat \<Rightarrow> bytes" where
  "parent_bytes b index = bslice (24 + index * 48) 24 b"

definition child_bytes :: "bytes \<Rightarrow> nat \<Rightarrow> bytes" where
  "child_bytes b index = bslice (24 + index * 48 + 24) 24 b"

text \<open>The loop over \<open>depth\<close>, with the turns left; it ends with \<open>depth < count\<close> when it finds no parent.\<close>

fun depth_loop :: "bytes \<Rightarrow> nat \<Rightarrow> bytes \<Rightarrow> bytes \<Rightarrow> nat \<Rightarrow> bool" where
  "depth_loop b count c current 0 = False"
| "depth_loop b count c current (Suc turns) =
     (if current = c then False
      else case List.find (\<lambda>other. current = child_bytes b other) [0..<count] of
        None \<Rightarrow> True
      | Some other \<Rightarrow> depth_loop b count c (parent_bytes b other) turns)"

definition validate_record :: "bytes \<Rightarrow> nat \<Rightarrow> nat \<Rightarrow> bool" where
  "validate_record b count index =
     (let p = parent_bytes b index; c = child_bytes b index in
      if \<not> validRef p \<or> \<not> validRef c \<or> p = c then False
      else if list_ex (\<lambda>other. c = child_bytes b other) [0..<index] then False
      else depth_loop b count c p count)"

definition capability_lineage_validate :: "bytes option \<Rightarrow> nat \<Rightarrow> bool" where
  "capability_lineage_validate raw len =
     (case raw of
        None \<Rightarrow> False
      | Some b \<Rightarrow>
          if len \<noteq> CAP_LINEAGE_BYTES then False
          else if read_u64_le b 0 \<noteq> 0x4A414E494C494E31 \<or> read_u32_le b 8 \<noteq> 1 \<or> read_u32_le b 20 \<noteq> 0 then False
          else let count = unat (read_u32_le b 12) in
            if count > 64 then False
            else if object_crc32c (Some (drop 24 b)) (CAP_LINEAGE_BYTES - 24) \<noteq> read_u32_le b 16 then False
            else if \<not> list_all (\<lambda>byte. byte = 0) (drop (24 + count * 48) (take CAP_LINEAGE_BYTES b)) then False
            else list_all (validate_record b count) [0..<count])"

definition capability_lineage_decode :: "bytes option \<Rightarrow> nat \<Rightarrow> capability_derivation_table option" where
  "capability_lineage_decode bytes len =
     (if \<not> capability_lineage_validate bytes len then None
      else Some \<lparr>records = decode_array decode_derivation 48 CAP_DERIVATION_MAX (bslice 24 3072 (the bytes)),
                 d_count = unat (lh_count (decode_lineage_header (take 24 (the bytes))))\<rparr>)"

definition capability_lineage_load ::
    "'d object_store \<Rightarrow> ('d object_store \<times> capability_derivation_table option) option" where
  "capability_lineage_load store =
     (case object_store_get store (Object_Id 4 0) of
        None \<Rightarrow> None
      | Some (store1, None) \<Rightarrow> Some (store1, None)
      | Some (store1, Some (header, bytes, len)) \<Rightarrow>
          if \<not> object_id_equal (h_type_id header) (Object_Id 0 7) then Some (store1, None)
          else Some (store1, capability_lineage_decode (Some bytes) len))"

definition capability_lineage_request :: "bytes \<Rightarrow> object_store_put_request" where
  "capability_lineage_request bytes =
     \<lparr>rq_id = Object_Id 4 0, rq_type_id = Object_Id 0 7, rq_creator_id = zero_id, rq_modifier_id = zero_id,
      rq_logical_timestamp = 0, rq_payload = Some bytes, rq_payload_size = CAP_LINEAGE_BYTES\<rparr>"

section \<open>The ledger as bytes\<close>

abbreviation PROVENANCE_BYTES :: nat where "PROVENANCE_BYTES \<equiv> 8984"

definition encode_event :: "provenance_event \<Rightarrow> bytes" where
  "encode_event e = encode_id (ev_component e) @ le_bytes 8 (ev_logical_time e) @ le_bytes 4 (ev_operation e) @ le_bytes 4 (ev_result e)"

definition decode_event :: "bytes \<Rightarrow> provenance_event" where
  "decode_event bs = \<lparr>ev_component = decode_id (bslice 0 16 bs), ev_logical_time = le_word (bslice 16 8 bs),
     ev_operation = le_word (bslice 24 4 bs), ev_result = le_word (bslice 28 4 bs)\<rparr>"

definition encode_bucket :: "provenance_bucket \<Rightarrow> bytes" where
  "encode_bucket b = encode_id (bk_object b) @ le_bytes 4 (bk_count b) @ le_bytes 4 (bk_next b) @ encode_array encode_event (bk_events b)"

definition decode_bucket :: "bytes \<Rightarrow> provenance_bucket" where
  "decode_bucket bs = \<lparr>bk_object = decode_id (bslice 0 16 bs), bk_count = le_word (bslice 16 4 bs), bk_next = le_word (bslice 20 4 bs),
     bk_events = decode_array decode_event 32 PROVENANCE_EVENTS (bslice 24 256 bs)\<rparr>"

definition zero_bytes :: "bytes \<Rightarrow> bool" where
  "zero_bytes b = list_all (\<lambda>v. v = 0) b"

definition validate_event :: "bytes \<Rightarrow> nat \<Rightarrow> nat \<Rightarrow> bool" where
  "validate_event b count j =
     (let event = bslice (24 + j * 32) 32 b in
      if j \<ge> count then zero_bytes event
      else \<not> (zero_bytes (bslice 0 16 event) \<or> read_u32_le event 24 < 1 \<or> read_u32_le event 24 > 6))"

definition validate_bucket :: "bytes \<Rightarrow> nat \<Rightarrow> bool" where
  "validate_bucket bytes i =
     (let b = bslice (24 + i * 280) 280 bytes in
      if zero_bytes (bslice 0 16 b) then zero_bytes b
      else let count = unat (read_u32_le b 16); next_slot = unat (read_u32_le b 20) in
        if count = 0 \<or> count > 8 \<or> next_slot \<ge> 8 \<or> (count < 8 \<and> next_slot \<noteq> count) then False
        else if list_ex (\<lambda>j. bslice 0 16 b = bslice (24 + j * 280) 16 bytes) [0..<i] then False
        else list_all (validate_event b count) [0..<8])"

definition provenance_validate :: "bytes option \<Rightarrow> nat \<Rightarrow> bool" where
  "provenance_validate raw len =
     (case raw of
        None \<Rightarrow> False
      | Some b \<Rightarrow>
          if len \<noteq> PROVENANCE_BYTES then False
          else if read_u64_le b 0 \<noteq> 0x4A414E4950525631 \<or> read_u32_le b 8 \<noteq> 1 \<or> read_u32_le b 12 \<noteq> 0 \<or>
                  read_u32_le b 20 \<noteq> 0 \<or> object_crc32c (Some (drop 24 b)) (len - 24) \<noteq> read_u32_le b 16 then False
          else list_all (validate_bucket b) [0..<32])"

definition provenance_encode :: "provenance_ledger \<Rightarrow> nat \<Rightarrow> bytes \<times> bool" where
  "provenance_encode ledger capacity =
     (if capacity < PROVENANCE_BYTES then ([], False)
      else let body = encode_array encode_bucket (ledger_objects ledger);
               crc = object_crc32c (Some body) 8960;
               bytes = le_bytes 8 (0x4A414E4950525631 :: u64) @ le_bytes 4 (1 :: u32) @ replicate 4 0 @ le_bytes 4 crc @
                       replicate 4 0 @ body
        in (bytes, provenance_validate (Some bytes) PROVENANCE_BYTES))"

definition provenance_load ::
    "'d object_store \<Rightarrow> ('d object_store \<times> provenance_ledger option) option" where
  "provenance_load store =
     (case object_store_get store (Object_Id 5 0) of
        None \<Rightarrow> None
      | Some (store1, None) \<Rightarrow> Some (store1, None)
      | Some (store1, Some (header, bytes, sz)) \<Rightarrow>
          if \<not> object_id_equal (h_type_id header) (Object_Id 0 8) \<or> \<not> provenance_validate (Some bytes) sz
          then Some (store1, None)
          else Some (store1, Some \<lparr>ledger_objects = decode_array decode_bucket 280 PROVENANCE_OBJECTS (bslice 24 8960 bytes)\<rparr>))"

definition provenance_request :: "bytes \<Rightarrow> object_store_put_request" where
  "provenance_request bytes =
     \<lparr>rq_id = Object_Id 5 0, rq_type_id = Object_Id 0 8, rq_creator_id = zero_id, rq_modifier_id = zero_id,
      rq_logical_timestamp = 0, rq_payload = Some bytes, rq_payload_size = PROVENANCE_BYTES\<rparr>"

section \<open>Layouts\<close>

interpretation lineage_header_codec: codec encode_lineage_header decode_lineage_header 24 "\<lambda>_. True"
  by unfold_locales (auto simp: encode_lineage_header_def decode_lineage_header_def)

interpretation ref_codec: codec encode_ref decode_ref 24 "\<lambda>_. True"
  by unfold_locales (auto simp: encode_ref_def decode_ref_def)

lemma length_encode_ref [simp]: "length (encode_ref r) = 24"
  and decode_encode_ref [simp]: "decode_ref (encode_ref r) = r"
  and encode_decode_ref [simp]: "length bs = 24 \<Longrightarrow> encode_ref (decode_ref bs) = bs"
  by (simp_all add: ref_codec.enc_length ref_codec.dec_enc ref_codec.enc_dec)

lemma encode_ref_inj [simp]: "encode_ref a = encode_ref b \<longleftrightarrow> a = b"
  using ref_codec.enc_inj [of a b] by auto

interpretation derivation_codec: codec encode_derivation decode_derivation 48 "\<lambda>_. True"
  by unfold_locales (auto simp: encode_derivation_def decode_derivation_def)

interpretation event_codec: codec encode_event decode_event 32 "\<lambda>_. True"
  by unfold_locales (auto simp: encode_event_def decode_event_def)

lemma decode_array_nth: "i < n \<Longrightarrow> decode_array dec w n bs ! i = dec (bslice (i * w) w bs)"
proof (induction n arbitrary: bs i)
  case (Suc n)
  then show ?case by (cases i) (auto simp: bslice_def drop_drop add.commute)
qed simp

lemma encode_array_slice:
  assumes "\<And>x. x \<in> set xs \<Longrightarrow> length (enc x) = w" "i < length xs"
  shows "bslice (i * w) w (encode_array enc xs) = enc (xs ! i)"
  using assms
proof (induction xs arbitrary: i)
  case (Cons x xs)
  show ?case
  proof (cases i)
    case 0
    then show ?thesis using Cons.prems by (simp add: encode_array_def bslice_def)
  next
    case (Suc j)
    have "bslice (Suc j * w) w (enc x @ encode_array enc xs) = bslice (j * w) w (encode_array enc xs)"
      using Cons.prems(1) [of x] by (simp add: bslice_def)
    then show ?thesis using Cons.IH [of j] Cons.prems Suc by (simp add: encode_array_def)
  qed
qed simp

section \<open>The byte validator agrees with the validator of the graph\<close>

definition lineage_table :: "bytes \<Rightarrow> capability_derivation_table" where
  "lineage_table b = \<lparr>records = decode_array decode_derivation 48 CAP_DERIVATION_MAX (bslice 24 3072 b),
     d_count = unat (lh_count (decode_lineage_header (take 24 b)))\<rparr>"

lemma lineage_shape:
  assumes "length b = CAP_LINEAGE_BYTES"
  shows "length (records (lineage_table b)) = CAP_DERIVATION_MAX"
  using derivation_codec.array_enc_dec [of "bslice 24 3072 b" CAP_DERIVATION_MAX] assms by (simp add: lineage_table_def)

lemma lineage_record:
  assumes "length b = CAP_LINEAGE_BYTES" "i < CAP_DERIVATION_MAX"
  shows "records (lineage_table b) ! i = decode_derivation (bslice (24 + i * 48) 48 b)"
    "parent_bytes b i = encode_ref (d_parent (records (lineage_table b) ! i))"
    "child_bytes b i = encode_ref (d_child (records (lineage_table b) ! i))"
proof -
  have "bslice (i * 48) 48 (bslice 24 3072 b) = bslice (24 + i * 48) 48 b" using assms(2) by (subst bslice_slice) auto
  then show r: "records (lineage_table b) ! i = decode_derivation (bslice (24 + i * 48) 48 b)"
    using assms(2) by (simp add: lineage_table_def decode_array_nth)
  have "bslice 0 24 (bslice (24 + i * 48) 48 b) = parent_bytes b i" "bslice 24 24 (bslice (24 + i * 48) 48 b) = child_bytes b i"
    by (simp_all add: parent_bytes_def child_bytes_def bslice_slice ac_simps)
  moreover have "length (parent_bytes b i) = 24" "length (child_bytes b i) = 24"
    using assms by (simp_all add: parent_bytes_def child_bytes_def)
  ultimately show "parent_bytes b i = encode_ref (d_parent (records (lineage_table b) ! i))"
    "child_bytes b i = encode_ref (d_child (records (lineage_table b) ! i))"
    by (simp_all add: r decode_derivation_def)
qed

lemma validRef_encode: "validRef (encode_ref r) \<longleftrightarrow> capability_ref_is_valid r"
proof -
  have "(le_word (bslice 0 8 (encode_ref r)) :: u64) = high (component_id r)" "(le_word (bslice 8 8 (encode_ref r)) :: u64) = low (component_id r)"
    "(le_word (bslice 16 4 (encode_ref r)) :: u32) = ref_slot r" "(le_word (bslice 20 4 (encode_ref r)) :: u32) = ref_generation r"
    by (simp_all add: encode_ref_def encode_id_def)
  then show ?thesis
    by (auto simp: validRef_def read_u64_le_eq read_u32_le_eq capability_ref_is_valid_def object_id_is_zero_def word_less_nat_alt)
qed

lemma depth_loop_iff:
  assumes len: "length b = CAP_LINEAGE_BYTES" and count: "d_count (lineage_table b) \<le> CAP_DERIVATION_MAX"
  shows "depth_loop b (d_count (lineage_table b)) (encode_ref c) (encode_ref current) turns \<longleftrightarrow>
    ancestor_loop (lineage_table b) c current turns"
proof (induction turns arbitrary: current)
  case (Suc turns)
  let ?t = "lineage_table b"
  have "List.find (\<lambda>other. encode_ref current = child_bytes b other) [0..<d_count ?t] = find_child_record ?t current"
    unfolding find_child_record_def using lineage_record(3) [OF len] count by (intro find_cong) auto
  moreover have "parent_bytes b i = encode_ref (d_parent (records ?t ! i))" if "find_child_record ?t current = Some i" for i
  proof -
    have "i < d_count ?t" using that unfolding find_child_record_def by (rule find_upt_Some(1))
    then show ?thesis using lineage_record(2) [OF len] count by simp
  qed
  ultimately show ?case using Suc.IH by (auto split: option.splits)
qed simp

lemma zero_derivation_bytes:
  assumes "length bs = 48"
  shows "decode_derivation bs = zero_derivation \<longleftrightarrow> (\<forall>j<48. bs ! j = 0)"
proof -
  have z: "encode_derivation zero_derivation = replicate 48 0"
    by (simp add: encode_derivation_def encode_ref_def encode_id_def zero_derivation_def zero_ref_def) (simp add: numeral_eq_Suc)
  have "decode_derivation bs = zero_derivation \<longleftrightarrow> bs = replicate 48 0"
    using z derivation_codec.enc_dec [OF assms] derivation_codec.dec_enc [of zero_derivation] by metis
  also have "\<dots> \<longleftrightarrow> (\<forall>j<48. bs ! j = 0)" using assms by (auto simp: list_eq_iff_nth_eq)
  finally show ?thesis .
qed

lemma zero_tail_iff:
  assumes len: "length b = CAP_LINEAGE_BYTES" and n: "n \<le> CAP_DERIVATION_MAX"
  shows "list_all (\<lambda>x. x = 0) (drop (24 + n * 48) b) \<longleftrightarrow>
    list_all (\<lambda>i. derivation_is_zero (records (lineage_table b) ! i)) [n..<CAP_DERIVATION_MAX]"
proof -
  have rec: "derivation_is_zero (records (lineage_table b) ! i) \<longleftrightarrow> (\<forall>j<48. b ! (24 + i * 48 + j) = 0)" if "i < CAP_DERIVATION_MAX" for i
  proof -
    have l: "length (bslice (24 + i * 48) 48 b) = 48" using that len by simp
    have "bslice (24 + i * 48) 48 b ! j = b ! (24 + i * 48 + j)" if "j < 48" for j
      using that \<open>i < CAP_DERIVATION_MAX\<close> len by (simp add: bslice_def)
    then show ?thesis using zero_derivation_bytes [OF l] lineage_record(1) [OF len that] by (simp add: derivation_is_zero_eq)
  qed
  have "list_all (\<lambda>x. x = 0) (drop (24 + n * 48) b) \<longleftrightarrow> (\<forall>k<CAP_LINEAGE_BYTES. 24 + n * 48 \<le> k \<longrightarrow> b ! k = 0)"
  proof
    assume "list_all (\<lambda>x. x = 0) (drop (24 + n * 48) b)"
    then have z: "b ! (24 + n * 48 + j) = 0" if "24 + n * 48 + j < CAP_LINEAGE_BYTES" for j
      using that len by (simp add: list_all_length)
    show "\<forall>k<CAP_LINEAGE_BYTES. 24 + n * 48 \<le> k \<longrightarrow> b ! k = 0"
    proof (intro allI impI)
      fix k assume "k < CAP_LINEAGE_BYTES" "24 + n * 48 \<le> k"
      then show "b ! k = 0" using z [of "k - (24 + n * 48)"] by simp
    qed
  next
    assume "\<forall>k<CAP_LINEAGE_BYTES. 24 + n * 48 \<le> k \<longrightarrow> b ! k = 0"
    then show "list_all (\<lambda>x. x = 0) (drop (24 + n * 48) b)" using len by (simp add: list_all_length)
  qed
  also have "\<dots> \<longleftrightarrow> (\<forall>i. n \<le> i \<and> i < CAP_DERIVATION_MAX \<longrightarrow> (\<forall>j<48. b ! (24 + i * 48 + j) = 0))"
  proof
    assume *: "\<forall>i. n \<le> i \<and> i < CAP_DERIVATION_MAX \<longrightarrow> (\<forall>j<48. b ! (24 + i * 48 + j) = 0)"
    show "\<forall>k<CAP_LINEAGE_BYTES. 24 + n * 48 \<le> k \<longrightarrow> b ! k = 0"
    proof (intro allI impI)
      fix k assume k: "k < CAP_LINEAGE_BYTES" "24 + n * 48 \<le> k"
      then have "n \<le> (k - 24) div 48" "(k - 24) div 48 < CAP_DERIVATION_MAX" by auto
      then have "b ! (24 + (k - 24) div 48 * 48 + (k - 24) mod 48) = 0"
        using *[rule_format, of "(k - 24) div 48" "(k - 24) mod 48"] by linarith
      moreover have "24 + (k - 24) div 48 * 48 + (k - 24) mod 48 = k" using k(2) by simp
      ultimately show "b ! k = 0" by (simp only:)
    qed
  qed auto
  finally show ?thesis using rec by (auto simp: list_all_iff)
qed

lemma lineage_fields:
  assumes "length b = CAP_LINEAGE_BYTES"
  shows "read_u64_le b 0 = lh_magic (decode_lineage_header (take 24 b))" "read_u32_le b 8 = lh_version (decode_lineage_header (take 24 b))"
    "read_u32_le b 12 = lh_count (decode_lineage_header (take 24 b))" "read_u32_le b 16 = lh_crc (decode_lineage_header (take 24 b))"
    "read_u32_le b 20 = lh_reserved (decode_lineage_header (take 24 b))"
proof -
  have s: "bslice a n (take 24 b) = bslice a n b" if "a + n \<le> 24" for a n
    using that bslice_slice [of a n 24 0 b] by (simp add: bslice_def)
  show "read_u64_le b 0 = lh_magic (decode_lineage_header (take 24 b))" "read_u32_le b 8 = lh_version (decode_lineage_header (take 24 b))"
    "read_u32_le b 12 = lh_count (decode_lineage_header (take 24 b))" "read_u32_le b 16 = lh_crc (decode_lineage_header (take 24 b))"
    "read_u32_le b 20 = lh_reserved (decode_lineage_header (take 24 b))"
    using assms by (simp_all add: decode_lineage_header_def read_u64_le_eq read_u32_le_eq s)
qed

text \<open>Header fields and checksum are right.\<close>

definition lineage_header_ok :: "bytes \<Rightarrow> bool" where
  "lineage_header_ok b \<longleftrightarrow> (let h = decode_lineage_header (take 24 b) in
     lh_magic h = CAP_LINEAGE_MAGIC \<and> lh_version h = 1 \<and> lh_reserved h = 0 \<and>
     lh_crc h = object_crc32c (Some (drop 24 b)) 3072)"

lemma record_valid_iff:
  assumes len: "length b = CAP_LINEAGE_BYTES" and count: "d_count (lineage_table b) \<le> CAP_DERIVATION_MAX"
    and i: "i < d_count (lineage_table b)"
  shows "validate_record b (d_count (lineage_table b)) i \<longleftrightarrow> record_is_valid (lineage_table b) i"
proof -
  note r = lineage_record(2,3) [OF len]
  have i64: "i < CAP_DERIVATION_MAX" using i count by simp
  have "list_ex (\<lambda>other. child_bytes b i = child_bytes b other) [0..<i] \<longleftrightarrow>
      \<not> list_all (\<lambda>other. \<not> capability_ref_equal (d_child (records (lineage_table b) ! other)) (d_child (records (lineage_table b) ! i))) [0..<i]"
    using r i64 by (auto simp: list_ex_iff list_all_iff intro: bexI [rotated])
  then show ?thesis
    using r [OF i64] depth_loop_iff [OF len count] by (auto simp: validate_record_def record_is_valid_def Let_def validRef_encode)
qed

lemma lineage_validate_iff:
  assumes len: "length b = CAP_LINEAGE_BYTES"
  shows "capability_lineage_validate (Some b) CAP_LINEAGE_BYTES \<longleftrightarrow>
    lineage_header_ok b \<and> capability_derivation_table_is_valid (lineage_table b)"
proof -
  let ?n = "unat (lh_count (decode_lineage_header (take 24 b)))"
  have n: "d_count (lineage_table b) = ?n" by (simp add: lineage_table_def)
  show ?thesis
  proof (cases "?n \<le> CAP_DERIVATION_MAX")
    case True
    have "list_all (validate_record b ?n) [0..<?n] \<longleftrightarrow> list_all (record_is_valid (lineage_table b)) [0..<?n]"
      using record_valid_iff [OF len] True n by (auto simp: list_all_iff)
    then show ?thesis
      using True n len zero_tail_iff [OF len True]
      by (auto simp: capability_lineage_validate_def lineage_header_ok_def capability_derivation_table_is_valid_def Let_def
          lineage_fields CAP_LINEAGE_MAGIC_def)
  next
    case False
    then show ?thesis
      using n len by (auto simp: capability_lineage_validate_def capability_derivation_table_is_valid_def Let_def lineage_fields)
  qed
qed

lemma lineage_encode_table:
  assumes shape: "derivation_shape t" and v: "capability_derivation_table_is_valid t"
  shows "\<exists>b. capability_lineage_encode t CAP_LINEAGE_BYTES = Some b \<and> length b = CAP_LINEAGE_BYTES \<and>
    lineage_header_ok b \<and> lineage_table b = t"
proof -
  let ?body = "encode_array encode_derivation (records t)"
  define h where "h = \<lparr>lh_magic = CAP_LINEAGE_MAGIC, lh_version = 1, lh_count = of_nat (d_count t),
    lh_crc = object_crc32c (Some ?body) 3072, lh_reserved = 0\<rparr>"
  let ?b = "encode_lineage_header h @ ?body"
  have lb: "length ?body = 3072" "length (encode_lineage_header h) = 24"
    using derivation_codec.array_length [of "records t"] shape lineage_header_codec.enc_length [of h]
    by (simp_all add: derivation_shape_def list_all_iff)
  have e: "capability_lineage_encode t CAP_LINEAGE_BYTES = Some ?b" using v by (simp add: capability_lineage_encode_def Let_def h_def)
  have dh: "decode_lineage_header (take 24 ?b) = h" using lineage_header_codec.dec_enc [of h] lb by simp
  have c: "d_count t \<le> CAP_DERIVATION_MAX" using v by (auto simp: capability_derivation_table_is_valid_def split: if_splits)
  have "decode_array decode_derivation 48 CAP_DERIVATION_MAX ?body = records t"
    using derivation_codec.array_dec_enc [of "records t"] shape by (simp add: derivation_shape_def list_all_iff)
  moreover have "bslice 24 3072 ?b = ?body" using lb by simp
  moreover have "unat (lh_count h) = d_count t" using c by (simp add: h_def unat_of_nat)
  ultimately have t: "lineage_table ?b = t" unfolding lineage_table_def dh by simp
  have "drop 24 ?b = ?body" using lb by simp
  then have "lineage_header_ok ?b" unfolding lineage_header_ok_def dh by (simp add: h_def)
  then show ?thesis using e t lb by (intro exI [of _ ?b]) simp
qed

text \<open>
  C31: the graph of derivations survives the store, and nothing but a graph is accepted from it. A
  valid graph is encoded, and its encoding is decoded to the same graph; and whatever bytes are
  read, the decoder accepts them only if they have the right length, header and checksum and the
  decoded table passes the validator of the graph, although the byte validator compares raw
  slices, in another language, and never builds the table.
\<close>

theorem lineage_records_exact:
  "(derivation_shape t \<and> capability_derivation_table_is_valid t \<longrightarrow>
      (\<exists>b. capability_lineage_encode t CAP_LINEAGE_BYTES = Some b \<and> capability_lineage_decode (Some b) (length b) = Some t)) \<and>
   (capability_lineage_decode (Some bs) (length bs) =
      (if length bs = CAP_LINEAGE_BYTES \<and> lineage_header_ok bs \<and> capability_derivation_table_is_valid (lineage_table bs)
       then Some (lineage_table bs) else None))"
proof -
  have dec: "capability_lineage_decode (Some b) (length b) =
      (if length b = CAP_LINEAGE_BYTES \<and> lineage_header_ok b \<and> capability_derivation_table_is_valid (lineage_table b)
       then Some (lineage_table b) else None)" for b
  proof (cases "length b = CAP_LINEAGE_BYTES")
    case True
    then show ?thesis using lineage_validate_iff [OF True] by (simp add: capability_lineage_decode_def lineage_table_def)
  qed (simp add: capability_lineage_decode_def capability_lineage_validate_def)
  then show ?thesis using lineage_encode_table [of t] by auto
qed

theorem lineage_records_exact_witness:
  "\<exists>b. capability_lineage_encode sample_graph CAP_LINEAGE_BYTES = Some b \<and> capability_lineage_decode (Some b) (length b) = Some sample_graph"
proof -
  have "derivation_shape sample_graph \<and> capability_derivation_table_is_valid sample_graph"
    using sample_add(3,4) by (simp add: derivation_shape_def)
  then show ?thesis using lineage_records_exact [of sample_graph "[]"] by blast
qed

section \<open>The ledger survives the store\<close>

text \<open>A bucket as the byte validator wants it: all zero, or in use and filled from the front.\<close>

definition bucket_stored :: "provenance_bucket \<Rightarrow> bool" where
  "bucket_stored b \<longleftrightarrow> b = zero_bucket \<or>
     (bk_object b \<noteq> zero_id \<and> bucket_ok b \<and> bk_count b \<noteq> 0 \<and>
      (\<forall>j<PROVENANCE_EVENTS. if j < unat (bk_count b)
         then ev_component (bk_events b ! j) \<noteq> zero_id \<and> 1 \<le> ev_operation (bk_events b ! j) \<and> ev_operation (bk_events b ! j) \<le> 6
         else bk_events b ! j = zero_event))"

definition ledger_stored :: "provenance_ledger \<Rightarrow> bool" where
  "ledger_stored l \<longleftrightarrow> ledger_ok l \<and> (\<forall>b\<in>set (ledger_objects l). bucket_stored b)"

lemma push_bucket_stored:
  assumes b: "bucket_stored b" and v: "event_valid object e"
  shows "bucket_stored (push_event object e b)"
proof -
  have ok: "bucket_ok b" using b by (auto simp: bucket_stored_def zero_bucket_def bucket_ok_def)
  note ok' = push_event_ok [OF ok, of object e]
  have len: "length (bk_events b) = 8" "unat (bk_next b) < 8" "unat (bk_count b) \<le> 8"
    "unat (bk_count b) < 8 \<Longrightarrow> bk_next b = bk_count b"
    using ok by (auto simp: bucket_ok_def)
  have cnt: "unat (bk_count (push_event object e b)) = min 8 (unat (bk_count b) + 1)"
    using len(3) by (auto simp: push_event_def unat_word_ariths min_def)
  have old: "if j < unat (bk_count b)
      then ev_component (bk_events b ! j) \<noteq> zero_id \<and> 1 \<le> ev_operation (bk_events b ! j) \<and> ev_operation (bk_events b ! j) \<le> 6
      else bk_events b ! j = zero_event" if "j < 8" for j
    using b that by (auto simp: bucket_stored_def zero_bucket_def)
  have ev: "ev_component e \<noteq> zero_id" "1 \<le> ev_operation e" "ev_operation e \<le> 6" "object \<noteq> zero_id"
    using v by (auto simp: event_valid_def PROVENANCE_READ_def PROVENANCE_CREATE_def)
  have "if j < min 8 (unat (bk_count b) + 1)
      then ev_component (bk_events (push_event object e b) ! j) \<noteq> zero_id \<and> 1 \<le> ev_operation (bk_events (push_event object e b) ! j) \<and>
        ev_operation (bk_events (push_event object e b) ! j) \<le> 6
      else bk_events (push_event object e b) ! j = zero_event" if j: "j < 8" for j
  proof (cases "j = unat (bk_next b)")
    case True
    then show ?thesis using ev len j by (cases "unat (bk_count b) < 8") (auto simp: push_event_def)
  next
    case False
    then have "bk_events (push_event object e b) ! j = bk_events b ! j" by (simp add: push_event_def)
    moreover have "j < min 8 (unat (bk_count b) + 1) \<longleftrightarrow> j < unat (bk_count b)"
      using False len(3,4) j by (cases "unat (bk_count b) < 8") auto
    ultimately show ?thesis using old [OF j] by simp
  qed
  moreover have "bk_count (push_event object e b) \<noteq> 0" using cnt by (auto simp: unat_eq_0 [symmetric])
  moreover have "bk_object (push_event object e b) \<noteq> zero_id" using ev(4) by (simp add: push_event_def)
  ultimately show ?thesis using ok' unfolding bucket_stored_def cnt by blast
qed

lemma append_stored:
  assumes l: "ledger_stored l" and a: "append_event l object e = Some l'"
  shows "ledger_stored l'"
proof -
  have ok: "ledger_ok l" using l by (simp add: ledger_stored_def)
  have v: "event_valid object e"
    using a by (auto simp: provenance_append_def event_valid_def object_id_is_zero_eq not_less split: if_splits)
  have ok': "ledger_ok l'" using append_result [OF ok v] a by (auto split: if_splits)
  obtain i where i: "bucket_loop (ledger_objects l) object 0 None = Some i"
    "l' = l\<lparr>ledger_objects := (ledger_objects l)[i := push_event object e (ledger_objects l ! i)]\<rparr>"
    using a by (auto simp: provenance_append_def push_event_def Let_def event_eta split: if_splits option.splits)
  have "i < length (ledger_objects l)" using bucket_loop_Some [OF i(1)] by auto
  then have "bucket_stored (push_event object e (ledger_objects l ! i))"
    using l push_bucket_stored [OF _ v] by (simp add: ledger_stored_def)
  then show ?thesis using ok' l set_update_subset_insert [of "ledger_objects l" i "push_event object e (ledger_objects l ! i)"]
    by (auto simp: ledger_stored_def i(2))
qed

lemma record_events_stored:
  assumes "record_events es = Some l"
  shows "ledger_stored l"
proof (rule fold_opt_invariant [OF assms])
  show "ledger_stored zero_ledger"
    by (auto simp: ledger_stored_def ledger_ok_def zero_ledger_def bucket_stored_def zero_bucket_def bucket_ok_def)
qed (auto intro: append_stored)

text \<open>The bytes of a bucket.\<close>

lemma length_encode_event [simp]: "length (encode_event e) = 32"
  by (simp add: event_codec.enc_length)

lemma length_encode_bucket: "length (bk_events b) = PROVENANCE_EVENTS \<Longrightarrow> length (encode_bucket b) = 280"
  using event_codec.array_length [of "bk_events b"] by (simp add: encode_bucket_def list_all_iff)

interpretation bucket_codec: codec encode_bucket decode_bucket 280 "\<lambda>b. length (bk_events b) = PROVENANCE_EVENTS"
proof unfold_locales
  fix b :: provenance_bucket assume l: "length (bk_events b) = PROVENANCE_EVENTS"
  show "length (encode_bucket b) = 280" by (rule length_encode_bucket [OF l])
  show "decode_bucket (encode_bucket b) = b"
    using event_codec.array_dec_enc [of "bk_events b"] event_codec.array_length [of "bk_events b"] l
    by (simp add: encode_bucket_def decode_bucket_def list_all_iff)
next
  fix bs :: bytes assume l: "length bs = 280"
  show "encode_bucket (decode_bucket bs) = bs"
    using event_codec.array_enc_dec [of "bslice 24 256 bs" PROVENANCE_EVENTS] l by (simp add: encode_bucket_def decode_bucket_def)
  show "length (bk_events (decode_bucket bs)) = PROVENANCE_EVENTS"
    using event_codec.array_enc_dec [of "bslice 24 256 bs" PROVENANCE_EVENTS] l by (simp add: decode_bucket_def)
qed

lemma zero_id_bytes: "zero_bytes (encode_id i) \<longleftrightarrow> i = zero_id"
proof -
  have z: "encode_id zero_id = replicate 16 0" by (simp add: encode_id_def) (simp add: numeral_eq_Suc)
  have "zero_bytes (encode_id i) \<longleftrightarrow> encode_id i = replicate 16 0"
    by (auto simp: zero_bytes_def list_all_length list_eq_iff_nth_eq)
  also have "\<dots> \<longleftrightarrow> i = zero_id" unfolding z [symmetric] using id_codec.enc_inj by auto
  finally show ?thesis .
qed

lemma le_bytes_zero: "le_bytes n (0 :: 'a::len word) = replicate n 0"
  by (induction n) simp_all

lemma zero_event_bytes: "zero_bytes (encode_event zero_event)"
  by (simp add: zero_bytes_def encode_event_def zero_event_def encode_id_def le_bytes_zero list_all_iff)

lemma zero_bucket_bytes: "zero_bytes (encode_bucket zero_bucket)"
  using zero_event_bytes
  by (auto simp: zero_bytes_def encode_bucket_def zero_bucket_def encode_id_def encode_array_def le_bytes_zero list_all_iff)

lemma bucket_fields:
  assumes "length (bk_events b) = PROVENANCE_EVENTS"
  shows "bslice 0 16 (encode_bucket b) = encode_id (bk_object b)" "read_u32_le (encode_bucket b) 16 = bk_count b"
    "read_u32_le (encode_bucket b) 20 = bk_next b"
    "j < PROVENANCE_EVENTS \<Longrightarrow> bslice (24 + j * 32) 32 (encode_bucket b) = encode_event (bk_events b ! j)"
proof -
  note l = length_encode_bucket [OF assms]
  show "bslice 0 16 (encode_bucket b) = encode_id (bk_object b)" by (simp add: encode_bucket_def)
  show "read_u32_le (encode_bucket b) 16 = bk_count b" using l by (simp add: read_u32_le_eq) (simp add: encode_bucket_def)
  show "read_u32_le (encode_bucket b) 20 = bk_next b" using l by (simp add: read_u32_le_eq) (simp add: encode_bucket_def)
  show "bslice (24 + j * 32) 32 (encode_bucket b) = encode_event (bk_events b ! j)" if "j < PROVENANCE_EVENTS"
    using encode_array_slice [of "bk_events b" encode_event 32 j] that assms by (simp add: encode_bucket_def)
qed

lemma event_fields: "bslice 0 16 (encode_event e) = encode_id (ev_component e)" "read_u32_le (encode_event e) 24 = ev_operation e"
  by (simp_all add: read_u32_le_eq) (simp_all add: encode_event_def)

lemma bucket_validates:
  assumes l: "ledger_stored l" and i: "i < PROVENANCE_OBJECTS" and h: "length header = 24"
  shows "validate_bucket (header @ encode_array encode_bucket (ledger_objects l)) i"
proof -
  let ?bs = "ledger_objects l" and ?bytes = "header @ encode_array encode_bucket (ledger_objects l)"
  have len: "length ?bs = 32" and ok: "ledger_ok l" using l by (auto simp: ledger_stored_def ledger_ok_def)
  have ev: "length (bk_events b) = 8" if "b \<in> set ?bs" for b using ok that by (auto simp: ledger_ok_def bucket_ok_def)
  have sl: "bslice (24 + j * 280) 280 ?bytes = encode_bucket (?bs ! j)" if "j < 32" for j
    using encode_array_slice [of ?bs encode_bucket 280 j] length_encode_bucket ev h that len by simp
  have sl16: "bslice (24 + j * 280) 16 ?bytes = encode_id (bk_object (?bs ! j))" if "j < 32" for j
    using bslice_slice [of 0 16 280 "24 + j * 280" ?bytes] sl [OF that] bucket_fields(1) [of "?bs ! j"] ev that len by simp
  let ?b = "?bs ! i"
  have b: "bucket_stored ?b" "length (bk_events ?b) = 8" using l i len ev by (auto simp: ledger_stored_def)
  note f = bucket_fields [OF b(2)]
  show ?thesis
  proof (cases "?b = zero_bucket")
    case True
    then show ?thesis using sl [OF i] f(1) zero_bucket_bytes
      by (simp add: validate_bucket_def Let_def zero_id_bytes zero_bucket_def)
  next
    case False
    then have st: "bk_object ?b \<noteq> zero_id" "bucket_ok ?b" "bk_count ?b \<noteq> 0"
      "\<And>j. j < 8 \<Longrightarrow> if j < unat (bk_count ?b)
         then ev_component (bk_events ?b ! j) \<noteq> zero_id \<and> 1 \<le> ev_operation (bk_events ?b ! j) \<and> ev_operation (bk_events ?b ! j) \<le> 6
         else bk_events ?b ! j = zero_event"
      using b(1) by (auto simp: bucket_stored_def)
    have "validate_event (encode_bucket ?b) (unat (bk_count ?b)) j" if "j < 8" for j
      using st(4) [OF that] f(4) [OF that] zero_event_bytes
      by (auto simp: validate_event_def Let_def event_fields zero_id_bytes not_less split: if_splits)
    moreover have "\<not> list_ex (\<lambda>j. encode_id (bk_object ?b) = bslice (24 + j * 280) 16 ?bytes) [0..<i]"
    proof -
      have "encode_id (bk_object ?b) \<noteq> bslice (24 + j * 280) 16 ?bytes" if "j < i" for j
      proof
        assume "encode_id (bk_object ?b) = bslice (24 + j * 280) 16 ?bytes"
        then have "bk_object ?b = bk_object (?bs ! j)" using sl16 [of j] that i id_codec.enc_inj by auto
        then show False using ledger_unique [OF ok i, of j] st(1) that i by auto
      qed
      then show ?thesis by (auto simp: list_ex_iff)
    qed
    moreover have "unat (bk_count ?b) \<noteq> 0 \<and> unat (bk_count ?b) \<le> 8 \<and> unat (bk_next ?b) < 8 \<and>
        (unat (bk_count ?b) < 8 \<longrightarrow> unat (bk_next ?b) = unat (bk_count ?b))"
      using st(2,3) by (auto simp: bucket_ok_def unat_eq_0)
    ultimately show ?thesis using sl [OF i] f(1-3) st(1)
      by (auto simp: validate_bucket_def Let_def zero_id_bytes list_all_iff not_le)
  qed
qed

lemma ledger_round_trip:
  assumes l: "ledger_stored l"
  shows "\<exists>b. provenance_encode l PROVENANCE_BYTES = (b, True) \<and> length b = PROVENANCE_BYTES \<and>
    \<lparr>ledger_objects = decode_array decode_bucket 280 PROVENANCE_OBJECTS (bslice 24 8960 b)\<rparr> = l"
proof -
  let ?bs = "ledger_objects l"
  let ?body = "encode_array encode_bucket ?bs"
  have len: "length ?bs = 32" and ev: "list_all (\<lambda>b. length (bk_events b) = PROVENANCE_EVENTS) ?bs"
    using l by (auto simp: ledger_stored_def ledger_ok_def bucket_ok_def list_all_iff)
  have lb: "length ?body = 8960" using bucket_codec.array_length [OF ev] len by simp
  define hd where "hd = le_bytes 8 (0x4A414E4950525631 :: u64) @ le_bytes 4 (1 :: u32) @ replicate 4 0 @
    le_bytes 4 (object_crc32c (Some ?body) 8960) @ replicate 4 0"
  let ?b = "hd @ ?body"
  have lh: "length hd = 24" by (simp add: hd_def)
  have z: "(le_word (replicate 4 0) :: u32) = 0" by (simp add: numeral_eq_Suc)
  have "read_u64_le ?b 0 = 0x4A414E4950525631" "read_u32_le ?b 8 = 1" "read_u32_le ?b 12 = 0"
    "read_u32_le ?b 16 = object_crc32c (Some ?body) 8960" "read_u32_le ?b 20 = 0"
    using lh lb by (simp_all add: read_u64_le_eq read_u32_le_eq) (simp_all add: hd_def z)
  moreover have "drop 24 ?b = ?body" using lh by simp
  moreover have "list_all (validate_bucket ?b) [0..<32]" using bucket_validates [OF l _ lh] by (auto simp: list_all_iff)
  ultimately have "provenance_validate (Some ?b) PROVENANCE_BYTES" by (simp add: provenance_validate_def)
  then have e: "provenance_encode l PROVENANCE_BYTES = (?b, True)" by (simp add: provenance_encode_def Let_def hd_def)
  have "decode_array decode_bucket 280 PROVENANCE_OBJECTS (bslice 24 8960 ?b) = ?bs"
    using bucket_codec.array_dec_enc [OF ev] len lh lb by simp
  then show ?thesis using e lh lb by (intro exI [of _ ?b]) simp
qed

text \<open>
  C32: the provenance ledger survives the store. Whatever operations were recorded, the encoder
  accepts the ledger, its own call of the byte validator included, and the bytes are read back
  to the same ledger.
\<close>

theorem provenance_survives_store:
  assumes "record_events es = Some l"
  shows "\<exists>b. provenance_encode l PROVENANCE_BYTES = (b, True) \<and> provenance_validate (Some b) (length b) \<and>
    \<lparr>ledger_objects = decode_array decode_bucket 280 PROVENANCE_OBJECTS (bslice 24 8960 b)\<rparr> = l"
proof -
  obtain b where b: "provenance_encode l PROVENANCE_BYTES = (b, True)" "length b = PROVENANCE_BYTES"
    "\<lparr>ledger_objects = decode_array decode_bucket 280 PROVENANCE_OBJECTS (bslice 24 8960 b)\<rparr> = l"
    using ledger_round_trip [OF record_events_stored [OF assms]] by blast
  moreover have "provenance_validate (Some b) (length b)" using b(1,2) by (auto simp: provenance_encode_def Let_def)
  ultimately show ?thesis by blast
qed

theorem provenance_survives_store_witness:
  "\<exists>l b. record_events [(Object_Id 3 1, sample_event 7), (Object_Id 3 2, sample_event 8)] = Some l \<and>
     provenance_encode l PROVENANCE_BYTES = (b, True)"
proof -
  let ?es = "[(Object_Id 3 1, sample_event 7), (Object_Id 3 2, sample_event 8)]"
  obtain l where l: "record_events ?es = Some l"
    using record_events_result [of ?es] by (auto simp: event_valid_def PROVENANCE_READ_def PROVENANCE_CREATE_def)
  show ?thesis using provenance_survives_store [OF l] l by blast
qed

end
