(* ===== verification/Domain_Commit.thy ===== *)
theory Domain_Commit
  imports Domain_Transactions Lineage_Records Store_Crash
begin

text \<open>
  The ends of a transaction and of a component: \<open>capability_domain_commit\<close>,
  \<open>capability_domain_open\<close> and \<open>capability_domain_uninstall\<close> of
  \<^verbatim>\<open>kernel/cap/domain.c\<close>, \<open>component_uninstall\<close> of
  \<^verbatim>\<open>kernel/wasm/component.c\<close> and the view of an instance's memory of
  \<^verbatim>\<open>kernel/wasm/runtime.c\<close>. The WebAssembly runtime is not part of the repository; what
  the code asks of it is an argument: \<open>get_memory\<close> gives the base address, if any, the number of
  pages and the size of a page of the first memory of an instance, and \<open>destroy\<close> is the effect of
  destroying an instance on the kernel heap.
\<close>

type_synonym 'i get_memory = "'i \<Rightarrow> (bytes option \<times> u64 \<times> u64) option"

definition jani_wasm_instance_memory :: "'i get_memory \<Rightarrow> 'i \<Rightarrow> (bytes \<times> nat) option" where
  "jani_wasm_instance_memory get_memory inst =
     (case get_memory inst of
        None \<Rightarrow> None
      | Some (base, page_count, bytes_per_page) \<Rightarrow>
          (case base of None \<Rightarrow> None | Some bytes \<Rightarrow> Some (bytes, unat (page_count * bytes_per_page))))"

section \<open>Collecting the batch\<close>

text \<open>
  The heap, the requests so far and the buffers to free; the second component of a result is
  \<open>False\<close> where the code jumps to \<open>done\<close>.
\<close>

type_synonym 'p commit_state = "'p heap \<times> object_store_put_request list \<times> u64 list"

definition commit_table ::
    "'p map_page \<Rightarrow> ('d, 'i, 'p) capability_domain \<Rightarrow> nat \<Rightarrow> 'i component \<Rightarrow> 'p commit_state \<Rightarrow> ('p commit_state \<times> bool) option" where
  "commit_table map_page dm i c st =
     (case st of (h, requests, buffers) \<Rightarrow>
        if capabilities_dirty c \<noteq> 0 \<or> tables_dirty dm AND push_bit i 1 \<noteq> 0 then
         (if length requests = OBJECT_STORE_PUT_BATCH_MAX then Some (st, False)
          else case kmalloc map_page h (of_nat CAPTABLE_PAYLOAD_BYTES) of
            None \<Rightarrow> None
          | Some (h1, buffer) \<Rightarrow>
              if buffer = 0 then Some ((h1, requests, buffers), False)
              else case component_captable_encode c of
                None \<Rightarrow> Some ((h1, requests, buffers @ [buffer]), False)
              | Some bytes \<Rightarrow>
                  Some ((h1, requests @ [\<lparr>rq_id = captable_id c, rq_type_id = Object_Id 0 4, rq_creator_id = root_id c,
                           rq_modifier_id = root_id c, rq_logical_timestamp = logical_time c, rq_payload = Some bytes,
                           rq_payload_size = CAPTABLE_PAYLOAD_BYTES\<rparr>], buffers @ [buffer]), True))
        else Some (st, True))"

definition commit_instance ::
    "'i get_memory \<Rightarrow> 'p map_page \<Rightarrow> ('d, 'i, 'p) capability_domain \<Rightarrow> nat \<Rightarrow> 'i component \<Rightarrow> 'p commit_state \<Rightarrow>
     ('p commit_state \<times> bool) option" where
  "commit_instance get_memory map_page dm i c st =
     (case st of (h, requests, buffers) \<Rightarrow>
        if states_dirty dm AND push_bit i 1 \<noteq> 0 then
         (if length requests = OBJECT_STORE_PUT_BATCH_MAX then Some (st, False)
          else case jani_wasm_instance_memory get_memory (wasm_instance c) of
            None \<Rightarrow> Some (st, False)
          | Some (mem, sz) \<Rightarrow>
              let needed = instance_state_size sz (mailbox_used c) in
              (case kmalloc map_page h (of_nat needed) of
                 None \<Rightarrow> None
               | Some (h1, buffer) \<Rightarrow>
                   if buffer = 0 then Some ((h1, requests, buffers), False)
                   else case instance_state_serialize c (Some mem) sz needed of
                     None \<Rightarrow> Some ((h1, requests, buffers @ [buffer]), False)
                   | Some bytes \<Rightarrow>
                       Some ((h1, requests @ [\<lparr>rq_id = state_id c, rq_type_id = Object_Id 0 5, rq_creator_id = root_id c,
                                rq_modifier_id = root_id c, rq_logical_timestamp = logical_time c, rq_payload = Some bytes,
                                rq_payload_size = length bytes\<rparr>], buffers @ [buffer]), True)))
        else Some (st, True))"

fun commit_loop ::
    "'i get_memory \<Rightarrow> 'p map_page \<Rightarrow> ('d, 'i, 'p) capability_domain \<Rightarrow> nat list \<Rightarrow> 'p commit_state \<Rightarrow> ('p commit_state \<times> bool) option" where
  "commit_loop get_memory map_page dm [] st = Some (st, True)"
| "commit_loop get_memory map_page dm (i # is) st =
     (case items (components dm) ! i of
        None \<Rightarrow> commit_loop get_memory map_page dm is st
      | Some c \<Rightarrow>
          (case commit_table map_page dm i c st of
             None \<Rightarrow> None
           | Some (st1, False) \<Rightarrow> Some (st1, False)
           | Some (st1, True) \<Rightarrow>
               (case commit_instance get_memory map_page dm i c st1 of
                  None \<Rightarrow> None
                | Some (st2, False) \<Rightarrow> Some (st2, False)
                | Some (st2, True) \<Rightarrow> commit_loop get_memory map_page dm is st2)))"

definition commit_lineage :: "('d, 'i, 'p) capability_domain \<Rightarrow> 'p commit_state \<Rightarrow> 'p commit_state \<times> bool" where
  "commit_lineage dm st =
     (case st of (h, requests, buffers) \<Rightarrow>
        if lineage_dirty dm \<noteq> 0 then
         (if length requests = OBJECT_STORE_PUT_BATCH_MAX then (st, False)
          else case capability_lineage_encode (lineage dm) CAP_LINEAGE_BYTES of
            None \<Rightarrow> (st, False)
          | Some bytes \<Rightarrow> ((h, requests @ [capability_lineage_request bytes], buffers), True))
        else (st, True))"

text \<open>The ledger's buffer is freed before the others.\<close>

definition commit_provenance ::
    "'p map_page \<Rightarrow> ('d, 'i, 'p) capability_domain \<Rightarrow> 'p commit_state \<Rightarrow> ('p commit_state \<times> bool) option" where
  "commit_provenance map_page dm st =
     (case st of (h, requests, buffers) \<Rightarrow>
        if provenance_dirty dm \<noteq> 0 then
         (if length requests = OBJECT_STORE_PUT_BATCH_MAX then Some (st, False)
          else case kmalloc map_page h (of_nat PROVENANCE_BYTES) of
            None \<Rightarrow> None
          | Some (h1, ledger) \<Rightarrow>
              if ledger = 0 then Some ((h1, requests, buffers), False)
              else (case provenance_encode (provenance dm) PROVENANCE_BYTES of
                  (bytes, False) \<Rightarrow> Some ((h1, requests, ledger # buffers), False)
                | (bytes, True) \<Rightarrow> Some ((h1, requests @ [provenance_request bytes], ledger # buffers), True)))
        else Some (st, True))"

text \<open>Everything before the call of \<open>object_store_put_many\<close>.\<close>

definition commit_batch ::
    "'i get_memory \<Rightarrow> 'p map_page \<Rightarrow> ('d, 'i, 'p) capability_domain \<Rightarrow> ('p commit_state \<times> bool) option" where
  "commit_batch get_memory map_page dm =
     (let st = (dm_heap dm, map fst (writes dm), []) in
      if \<not> graph_matches dm then Some (st, False)
      else case commit_loop get_memory map_page dm [0..<COMPONENT_MAX] st of
        None \<Rightarrow> None
      | Some (st1, False) \<Rightarrow> Some (st1, False)
      | Some (st1, True) \<Rightarrow>
          (case commit_lineage dm st1 of
             (st2, False) \<Rightarrow> Some (st2, False)
           | (st2, True) \<Rightarrow> commit_provenance map_page dm st2))"

definition clean_component :: "'i component \<Rightarrow> 'i component" where
  "clean_component c = c\<lparr>capabilities_dirty := 0\<rparr>"

text \<open>From \<open>done\<close> on. Freeing a null pointer does nothing, so the list holds the buffers only.\<close>

definition commit_done ::
    "('d, 'i, 'p) capability_domain \<Rightarrow> u64 list \<Rightarrow> object_store_batch_result \<Rightarrow>
     ('d, 'i, 'p) capability_domain \<times> object_store_batch_result" where
  "commit_done dm buffers result =
     (let dm1 = dm\<lparr>dm_heap := foldl kfree (dm_heap dm) buffers\<rparr> in
      if result = OBJECT_STORE_BATCH_COMMITTED
      then (finish (dm1\<lparr>components := (components dm1)\<lparr>items := map (map_option clean_component) (items (components dm1))\<rparr>\<rparr>), result)
      else let dm2 = capability_domain_abort dm1 in
        (if result = OBJECT_STORE_BATCH_RECOVERY_REQUIRED then dm2\<lparr>halted := 1\<rparr> else dm2, result))"

definition capability_domain_commit ::
    "'i get_memory \<Rightarrow> 'p map_page \<Rightarrow> ('d, 'i, 'p) capability_domain \<Rightarrow>
     (('d, 'i, 'p) capability_domain \<times> object_store_batch_result) option" where
  "capability_domain_commit get_memory map_page dm =
     (if active dm = 0 then Some (dm, OBJECT_STORE_BATCH_REJECTED)
      else case commit_batch get_memory map_page dm of
        None \<Rightarrow> None
      | Some ((h, requests, buffers), False) \<Rightarrow>
          Some (commit_done (dm\<lparr>dm_heap := h\<rparr>) buffers OBJECT_STORE_BATCH_REJECTED)
      | Some ((h, requests, buffers), True) \<Rightarrow>
          if requests = [] then Some (commit_done (dm\<lparr>dm_heap := h\<rparr>) buffers OBJECT_STORE_BATCH_COMMITTED)
          else (case object_store_put_many (dm_store dm) requests of
                  None \<Rightarrow> None
                | Some (store, result) \<Rightarrow> Some (commit_done (dm\<lparr>dm_heap := h, dm_store := store\<rparr>) buffers result)))"

section \<open>Opening a domain\<close>

text \<open>The two inner loops of the migration: the parent links of one component become edges.\<close>

definition migrate_slot :: "'i component \<Rightarrow> capability_derivation_table \<Rightarrow> nat \<Rightarrow> capability_derivation_table option" where
  "migrate_slot c l s =
     (let p = parents (cap_table c) ! s in
      if p \<noteq> CAP_SLOT_NONE then
        (case capability_derivation_add l (reference c p) (reference c (of_nat s)) of (False, l1) \<Rightarrow> None | (True, l1) \<Rightarrow> Some l1)
      else Some l)"

definition migrate_component :: "capability_derivation_table \<Rightarrow> 'i component option \<Rightarrow> capability_derivation_table option" where
  "migrate_component l entry =
     (case entry of
        None \<Rightarrow> Some l
      | Some c \<Rightarrow>
          if \<not> capability_table_is_valid (cap_table c) then None
          else fold_opt (migrate_slot c) l [0..<CAP_TABLE_SLOTS])"

definition zero_domain :: "'d object_store \<Rightarrow> nat \<Rightarrow> 'p heap \<Rightarrow> 'i component_set \<Rightarrow> ('d, 'i, 'p) capability_domain" where
  "zero_domain store store_id h comps =
     \<lparr>dm_store = store, dm_store_id = store_id, dm_heap = h, components = comps,
      lineage = capability_derivation_table_init, saved_lineage = capability_derivation_table_init, saved = [], saved_address = 0,
      tables_dirty = 0, states_dirty = 0, lineage_dirty = 0, active = 0, halted = 0,
      provenance = zero_ledger, saved_provenance = zero_ledger, provenance_dirty = 0, writes = []\<rparr>"

text \<open>The graph: loaded, or made from the tables and stored once. The store is returned on every path.\<close>

definition open_lineage ::
    "'d object_store \<Rightarrow> 'i component_set \<Rightarrow> ('d object_store \<times> capability_derivation_table option) option" where
  "open_lineage store comps =
     (if object_table_find (st_table store) (Object_Id 4 0) \<noteq> None then capability_lineage_load store
      else case fold_opt migrate_component capability_derivation_table_init (items comps) of
        None \<Rightarrow> Some (store, None)
      | Some l \<Rightarrow>
          (case capability_lineage_encode l CAP_LINEAGE_BYTES of
             None \<Rightarrow> Some (store, None)
           | Some bytes \<Rightarrow>
               (case object_store_put_many store [capability_lineage_request bytes] of
                  None \<Rightarrow> None
                | Some (store1, result) \<Rightarrow>
                    Some (store1, if result = OBJECT_STORE_BATCH_COMMITTED then Some l else None))))"

definition capability_domain_open ::
    "'d object_store \<Rightarrow> nat \<Rightarrow> 'p heap \<Rightarrow> 'i component_set \<Rightarrow>
     ('d object_store \<times> ('d, 'i, 'p) capability_domain option) option" where
  "capability_domain_open store store_id h comps =
     (if object_store_requires_recovery store then Some (store, None)
      else case open_lineage store comps of
        None \<Rightarrow> None
      | Some (store1, None) \<Rightarrow> Some (store1, None)
      | Some (store1, Some l) \<Rightarrow>
          let dm = (zero_domain store1 store_id h comps)\<lparr>lineage := l\<rparr> in
          if \<not> graph_matches dm then Some (store1, None)
          else if object_table_find (st_table store1) (Object_Id 5 0) \<noteq> None then
            (case provenance_load store1 of
               None \<Rightarrow> None
             | Some (store2, None) \<Rightarrow> Some (store2, None)
             | Some (store2, Some ledger) \<Rightarrow> Some (store2, Some (dm\<lparr>dm_store := store2, provenance := ledger\<rparr>)))
          else Some (store1, Some dm))"

section \<open>Removing a component\<close>

definition component_uninstall :: "'i component \<Rightarrow> 'd object_store \<Rightarrow> object_id \<Rightarrow> ('d object_store \<times> bool) option" where
  "component_uninstall zero_component store root =
     (if object_id_is_zero root then Some (store, False)
      else case component_registry_load store COMPONENT_MAX of
        None \<Rightarrow> None
      | Some (store1, None) \<Rightarrow> Some (store1, False)
      | Some (store1, Some (roots, sequence)) \<Rightarrow>
          (case List.find (\<lambda>i. object_id_equal (roots ! i) root) [0..<length roots] of
             None \<Rightarrow> Some (store1, False)
           | Some i \<Rightarrow>
               (case component_root_read store1 root zero_component of
                  None \<Rightarrow> None
                | Some (store2, None) \<Rightarrow> Some (store2, False)
                | Some (store2, Some c) \<Rightarrow>
                    (case component_registry_store store2 (take i roots @ drop (i + 1) roots) sequence of
                       None \<Rightarrow> None
                     | Some (store3, False) \<Rightarrow> Some (store3, False)
                     | Some (store3, True) \<Rightarrow> Some (object_store_delete store3 (module_id c))))))"

text \<open>The loop that revokes every capability of the component; \<open>False\<close> after an abort.\<close>

fun revoke_loop ::
    "('d, 'i, 'p) capability_domain \<Rightarrow> nat \<Rightarrow> nat list \<Rightarrow> (('d, 'i, 'p) capability_domain \<times> bool) option" where
  "revoke_loop dm owner [] = Some (dm, True)"
| "revoke_loop dm owner (slot # rest) =
     (if capability_table_get (cap_table (item dm owner)) (of_nat slot) \<noteq> None then
        (case capability_domain_revoke dm owner (of_nat slot) of
           None \<Rightarrow> None
         | Some (dm1, result) \<Rightarrow>
             if result \<noteq> 0 then Some (capability_domain_abort dm1, False) else revoke_loop dm1 owner rest)
      else revoke_loop dm owner rest)"

text \<open>
  \<open>destroy\<close> is what destroying the instance of the removed component does to the heap; the
  component itself is gone from the set.
\<close>

definition capability_domain_uninstall ::
    "'i get_memory \<Rightarrow> 'p map_page \<Rightarrow> ('i \<Rightarrow> 'p heap \<Rightarrow> 'p heap) \<Rightarrow> 'i component \<Rightarrow> ('d, 'i, 'p) capability_domain \<Rightarrow> object_id \<Rightarrow>
     (('d, 'i, 'p) capability_domain \<times> bool) option" where
  "capability_domain_uninstall get_memory map_page destroy zero_component dm root =
     (if active dm \<noteq> 0 then Some (dm, False)
      else case component_set_find (components dm) root of
        None \<Rightarrow> Some (dm, False)
      | Some owner \<Rightarrow>
          (case capability_domain_begin map_page dm of
             None \<Rightarrow> None
           | Some (dm1, False) \<Rightarrow> Some (dm1, False)
           | Some (dm1, True) \<Rightarrow>
               (case revoke_loop dm1 owner [0..<CAP_TABLE_SLOTS] of
                  None \<Rightarrow> None
                | Some (dm2, False) \<Rightarrow> Some (dm2, False)
                | Some (dm2, True) \<Rightarrow>
                    (case capability_domain_commit get_memory map_page dm2 of
                       None \<Rightarrow> None
                     | Some (dm3, result) \<Rightarrow>
                         if result \<noteq> OBJECT_STORE_BATCH_COMMITTED then Some (dm3, False)
                         else (case component_uninstall zero_component (dm_store dm3) root of
                           None \<Rightarrow> None
                         | Some (store, False) \<Rightarrow> Some (dm3\<lparr>dm_store := store\<rparr>, False)
                         | Some (store, True) \<Rightarrow>
                             Some (dm3\<lparr>dm_store := store,
                                       components := (case component_set_remove (components dm3) root of Some s \<Rightarrow> s | None \<Rightarrow> components dm3),
                                       dm_heap := destroy (wasm_instance (item dm3 owner)) (dm_heap dm3)\<rparr>, True))))))"

section \<open>What a batch holds\<close>

definition table_request :: "'i component \<Rightarrow> object_store_put_request \<Rightarrow> bool" where
  "table_request c rq \<longleftrightarrow> rq_id rq = captable_id c \<and> rq_payload rq = component_captable_encode c \<and> rq_payload rq \<noteq> None \<and>
     rq_payload_size rq = CAPTABLE_PAYLOAD_BYTES"

definition state_request :: "'i get_memory \<Rightarrow> 'i component \<Rightarrow> object_store_put_request \<Rightarrow> bool" where
  "state_request get_memory c rq \<longleftrightarrow> rq_id rq = state_id c \<and>
     (\<exists>mem sz bytes. jani_wasm_instance_memory get_memory (wasm_instance c) = Some (mem, sz) \<and>
        instance_state_serialize c (Some mem) sz (instance_state_size sz (mailbox_used c)) = Some bytes \<and>
        rq_payload rq = Some bytes \<and> rq_payload_size rq = length bytes)"

text \<open>The requests that one component adds.\<close>

definition component_requests ::
    "'i get_memory \<Rightarrow> ('d, 'i, 'p) capability_domain \<Rightarrow> nat \<Rightarrow> 'i component \<Rightarrow> object_store_put_request list \<Rightarrow> bool" where
  "component_requests get_memory dm i c rs \<longleftrightarrow>
     (capabilities_dirty c \<noteq> 0 \<or> tables_dirty dm AND push_bit i 1 \<noteq> 0 \<longrightarrow> (\<exists>rq\<in>set rs. table_request c rq)) \<and>
     (states_dirty dm AND push_bit i 1 \<noteq> 0 \<longrightarrow> (\<exists>rq\<in>set rs. state_request get_memory c rq))"

lemma component_requests_mono:
  "component_requests gm dm i c rs \<Longrightarrow> set rs \<subseteq> set rs' \<Longrightarrow> component_requests gm dm i c rs'"
  unfolding component_requests_def by blast

lemma commit_table_result:
  assumes "commit_table mp dm i c (h, rs, bs) = Some ((h', rs', bs'), True)"
  shows "\<exists>new. rs' = rs @ new \<and> (\<forall>rq\<in>set new. table_request c rq) \<and>
    (capabilities_dirty c \<noteq> 0 \<or> tables_dirty dm AND push_bit i 1 \<noteq> 0 \<longrightarrow> new \<noteq> [])"
  using assms by (auto simp: commit_table_def table_request_def split: if_splits option.splits)

lemma commit_instance_result:
  assumes "commit_instance gm mp dm i c (h, rs, bs) = Some ((h', rs', bs'), True)"
  shows "\<exists>new. rs' = rs @ new \<and> (\<forall>rq\<in>set new. state_request gm c rq) \<and>
    (states_dirty dm AND push_bit i 1 \<noteq> 0 \<longrightarrow> new \<noteq> [])"
  using assms by (auto simp: commit_instance_def state_request_def Let_def split: if_splits option.splits prod.splits)

lemma commit_loop_result:
  assumes "commit_loop gm mp dm is (h, rs, bs) = Some ((h', rs', bs'), True)"
  shows "\<exists>new. rs' = rs @ new \<and> (\<forall>i\<in>set is. \<forall>c. items (components dm) ! i = Some c \<longrightarrow> component_requests gm dm i c new) \<and>
    (\<forall>rq\<in>set new. \<exists>i\<in>set is. \<exists>c. items (components dm) ! i = Some c \<and> (table_request c rq \<or> state_request gm c rq))"
  using assms
proof (induction "is" arbitrary: h rs bs)
  case (Cons i js)
  show ?case
  proof (cases "items (components dm) ! i")
    case None
    then show ?thesis using Cons.IH [of h rs bs] Cons.prems by auto
  next
    case (Some c)
    then obtain h1 rs1 bs1 h2 rs2 bs2 where
      1: "commit_table mp dm i c (h, rs, bs) = Some ((h1, rs1, bs1), True)" and
      2: "commit_instance gm mp dm i c (h1, rs1, bs1) = Some ((h2, rs2, bs2), True)" and
      3: "commit_loop gm mp dm js (h2, rs2, bs2) = Some ((h', rs', bs'), True)"
      using Cons.prems by (auto split: option.splits prod.splits bool.splits)
    obtain n1 where n1: "rs1 = rs @ n1" "\<forall>rq\<in>set n1. table_request c rq"
      "capabilities_dirty c \<noteq> 0 \<or> tables_dirty dm AND push_bit i 1 \<noteq> 0 \<longrightarrow> n1 \<noteq> []"
      using commit_table_result [OF 1] by blast
    obtain n2 where n2: "rs2 = rs1 @ n2" "\<forall>rq\<in>set n2. state_request gm c rq" "states_dirty dm AND push_bit i 1 \<noteq> 0 \<longrightarrow> n2 \<noteq> []"
      using commit_instance_result [OF 2] by blast
    obtain n3 where n3: "rs' = rs2 @ n3" "\<forall>i\<in>set js. \<forall>c. items (components dm) ! i = Some c \<longrightarrow> component_requests gm dm i c n3"
      "\<forall>rq\<in>set n3. \<exists>i\<in>set js. \<exists>c. items (components dm) ! i = Some c \<and> (table_request c rq \<or> state_request gm c rq)"
      using Cons.IH [OF 3] by blast
    let ?new = "n1 @ n2 @ n3"
    have "component_requests gm dm i c ?new"
      unfolding component_requests_def using n1(2,3) n2(2,3) by (metis UnCI last_in_set set_append)
    moreover have "component_requests gm dm j d ?new" if "j \<in> set js" "items (components dm) ! j = Some d" for j d
      using n3(2) that by (intro component_requests_mono [of gm dm j d n3 ?new]) auto
    ultimately show ?thesis
      using n1(1,2) n2(1,2) n3(1,3) Some by (intro exI [of _ ?new]) (auto; metis)
  qed
qed simp

definition covers :: "'i get_memory \<Rightarrow> ('d, 'i, 'p) capability_domain \<Rightarrow> object_store_put_request list \<Rightarrow> bool" where
  "covers get_memory dm rs \<longleftrightarrow> set (map fst (writes dm)) \<subseteq> set rs \<and>
     (\<forall>i<COMPONENT_MAX. \<forall>c. items (components dm) ! i = Some c \<longrightarrow> component_requests get_memory dm i c rs) \<and>
     (lineage_dirty dm \<noteq> 0 \<longrightarrow> (\<exists>b. capability_lineage_encode (lineage dm) CAP_LINEAGE_BYTES = Some b \<and> capability_lineage_request b \<in> set rs)) \<and>
     (provenance_dirty dm \<noteq> 0 \<longrightarrow> (\<exists>b. provenance_encode (provenance dm) PROVENANCE_BYTES = (b, True) \<and> provenance_request b \<in> set rs))"

lemma commit_lineage_result:
  assumes "commit_lineage dm (h, rs, bs) = ((h', rs', bs'), True)"
  shows "\<exists>new. rs' = rs @ new \<and> (\<forall>rq\<in>set new. \<exists>b. capability_lineage_encode (lineage dm) CAP_LINEAGE_BYTES = Some b \<and> rq = capability_lineage_request b) \<and>
    (lineage_dirty dm \<noteq> 0 \<longrightarrow> new \<noteq> [])"
  using assms by (auto simp: commit_lineage_def split: if_splits option.splits)

lemma commit_provenance_result:
  assumes "commit_provenance mp dm (h, rs, bs) = Some ((h', rs', bs'), True)"
  shows "\<exists>new. rs' = rs @ new \<and> (\<forall>rq\<in>set new. \<exists>b. provenance_encode (provenance dm) PROVENANCE_BYTES = (b, True) \<and> rq = provenance_request b) \<and>
    (provenance_dirty dm \<noteq> 0 \<longrightarrow> new \<noteq> [])"
  using assms by (auto simp: commit_provenance_def split: if_splits option.splits prod.splits bool.splits)

text \<open>A batch that is complete holds everything that changed, and only requests for it.\<close>

lemma commit_batch_result:
  assumes "commit_batch gm mp dm = Some ((h, rs, bs), True)"
  shows "covers gm dm rs" "graph_matches dm"
    "rq \<in> set rs \<Longrightarrow> rq \<in> set (map fst (writes dm)) \<or>
       (\<exists>i<COMPONENT_MAX. \<exists>c. items (components dm) ! i = Some c \<and> (table_request c rq \<or> state_request gm c rq)) \<or>
       (\<exists>b. capability_lineage_encode (lineage dm) CAP_LINEAGE_BYTES = Some b \<and> rq = capability_lineage_request b) \<or>
       (\<exists>b. provenance_encode (provenance dm) PROVENANCE_BYTES = (b, True) \<and> rq = provenance_request b)"
proof -
  obtain h1 rs1 bs1 h2 rs2 bs2 where
    1: "commit_loop gm mp dm [0..<COMPONENT_MAX] (dm_heap dm, map fst (writes dm), []) = Some ((h1, rs1, bs1), True)" and
    2: "commit_lineage dm (h1, rs1, bs1) = ((h2, rs2, bs2), True)" and
    3: "commit_provenance mp dm (h2, rs2, bs2) = Some ((h, rs, bs), True)" and g: "graph_matches dm"
    using assms by (auto simp: commit_batch_def Let_def split: if_splits option.splits prod.splits bool.splits)
  obtain n1 where n1: "rs1 = map fst (writes dm) @ n1"
    "\<forall>i<COMPONENT_MAX. \<forall>c. items (components dm) ! i = Some c \<longrightarrow> component_requests gm dm i c n1"
    "\<forall>rq\<in>set n1. \<exists>i<COMPONENT_MAX. \<exists>c. items (components dm) ! i = Some c \<and> (table_request c rq \<or> state_request gm c rq)"
    using commit_loop_result [OF 1] by (simp add: atLeast0LessThan Bex_def Ball_def) blast
  obtain n2 where n2: "rs2 = rs1 @ n2"
    "\<forall>rq\<in>set n2. \<exists>b. capability_lineage_encode (lineage dm) CAP_LINEAGE_BYTES = Some b \<and> rq = capability_lineage_request b"
    "lineage_dirty dm \<noteq> 0 \<longrightarrow> n2 \<noteq> []"
    using commit_lineage_result [OF 2] by blast
  obtain n3 where n3: "rs = rs2 @ n3"
    "\<forall>rq\<in>set n3. \<exists>b. provenance_encode (provenance dm) PROVENANCE_BYTES = (b, True) \<and> rq = provenance_request b"
    "provenance_dirty dm \<noteq> 0 \<longrightarrow> n3 \<noteq> []"
    using commit_provenance_result [OF 3] by blast
  have rs: "rs = map fst (writes dm) @ n1 @ n2 @ n3" using n1 n2 n3 by simp
  have "lineage_dirty dm \<noteq> 0 \<longrightarrow> (\<exists>b. capability_lineage_encode (lineage dm) CAP_LINEAGE_BYTES = Some b \<and> capability_lineage_request b \<in> set rs)"
    using n2(2,3) rs by (cases n2) auto
  moreover have "provenance_dirty dm \<noteq> 0 \<longrightarrow> (\<exists>b. provenance_encode (provenance dm) PROVENANCE_BYTES = (b, True) \<and> provenance_request b \<in> set rs)"
    using n3(2,3) rs by (cases n3) auto
  moreover have "component_requests gm dm i c rs" if "i < COMPONENT_MAX" "items (components dm) ! i = Some c" for i c
    using n1(2) that rs by (intro component_requests_mono [of gm dm i c n1 rs]) auto
  ultimately show "covers gm dm rs" using rs by (auto simp: covers_def)
  show "graph_matches dm" by (rule g)
  show "rq \<in> set (map fst (writes dm)) \<or>
       (\<exists>i<COMPONENT_MAX. \<exists>c. items (components dm) ! i = Some c \<and> (table_request c rq \<or> state_request gm c rq)) \<or>
       (\<exists>b. capability_lineage_encode (lineage dm) CAP_LINEAGE_BYTES = Some b \<and> rq = capability_lineage_request b) \<or>
       (\<exists>b. provenance_encode (provenance dm) PROVENANCE_BYTES = (b, True) \<and> rq = provenance_request b)" if "rq \<in> set rs"
    using that rs n1(3) n2(2) n3(2) by auto
qed

section \<open>The commit returns\<close>

lemma kmalloc_returns:
  assumes "heap_live h L"
  obtains h' p L' where "kmalloc mp h sz = Some (h', p)" "heap_live h' L'"
  using kmalloc_live [OF assms, of mp sz] by (metis)

definition state_live :: "'p commit_state \<Rightarrow> bool" where
  "state_live st \<longleftrightarrow> (\<exists>L. heap_live (fst st) L)"

lemma commit_table_returns: "state_live st \<Longrightarrow> \<exists>st' b. commit_table mp dm i c st = Some (st', b) \<and> state_live st'"
proof -
  assume s: "state_live st"
  obtain h rs bs where st: "st = (h, rs, bs)" by (cases st) auto
  then obtain L where "heap_live h L" using s by (auto simp: state_live_def)
  then obtain h' p L' where "kmalloc mp h (of_nat CAPTABLE_PAYLOAD_BYTES) = Some (h', p)" "heap_live h' L'" by (rule kmalloc_returns)
  then show ?thesis using s unfolding st by (auto simp: commit_table_def state_live_def split: option.splits)
qed

lemma commit_instance_returns: "state_live st \<Longrightarrow> \<exists>st' b. commit_instance gm mp dm i c st = Some (st', b) \<and> state_live st'"
proof -
  assume s: "state_live st"
  obtain h rs bs where st: "st = (h, rs, bs)" by (cases st) auto
  then obtain L where L: "heap_live h L" using s by (auto simp: state_live_def)
  show ?thesis
  proof (cases "jani_wasm_instance_memory gm (wasm_instance c)")
    case None
    then show ?thesis using s unfolding st by (auto simp: commit_instance_def state_live_def)
  next
    case (Some m)
    obtain mem sz where m: "m = (mem, sz)" by force
    obtain h' p L' where "kmalloc mp h (of_nat (instance_state_size sz (mailbox_used c))) = Some (h', p)" "heap_live h' L'"
      by (rule kmalloc_returns [OF L])
    then show ?thesis using s Some m unfolding st by (auto simp: commit_instance_def state_live_def Let_def split: option.splits)
  qed
qed

lemma commit_loop_returns: "state_live st \<Longrightarrow> \<exists>st' b. commit_loop gm mp dm is st = Some (st', b) \<and> state_live st'"
proof (induction "is" arbitrary: st)
  case (Cons i js)
  show ?case
  proof (cases "items (components dm) ! i")
    case (Some c)
    obtain st1 b1 where 1: "commit_table mp dm i c st = Some (st1, b1)" "state_live st1"
      using commit_table_returns [OF Cons.prems] by blast
    obtain st2 b2 where 2: "commit_instance gm mp dm i c st1 = Some (st2, b2)" "state_live st2"
      using commit_instance_returns [OF 1(2)] by blast
    obtain st3 b3 where 3: "commit_loop gm mp dm js st2 = Some (st3, b3)" "state_live st3" using Cons.IH [OF 2(2)] by blast
    show ?thesis using Some 1 2 3 by (cases b1; cases b2) auto
  qed (use Cons in simp)
qed (auto intro: exI [of _ True])

lemma commit_batch_returns:
  assumes "heap_live (dm_heap dm) L"
  shows "\<exists>st b. commit_batch gm mp dm = Some (st, b) \<and> state_live st"
proof -
  have s: "state_live (dm_heap dm, map fst (writes dm), [])" using assms by (auto simp: state_live_def)
  obtain st1 b1 where 1: "commit_loop gm mp dm [0..<COMPONENT_MAX] (dm_heap dm, map fst (writes dm), []) = Some (st1, b1)" "state_live st1"
    using commit_loop_returns [OF s] by blast
  obtain st2 b2 where 2: "commit_lineage dm st1 = (st2, b2)" by (cases "commit_lineage dm st1")
  have l2: "state_live st2" using 1(2) 2 by (auto simp: commit_lineage_def state_live_def split: prod.splits if_splits option.splits)
  obtain h rs bs where st2: "st2 = (h, rs, bs)" by (cases st2) auto
  then obtain L2 where "heap_live h L2" using l2 by (auto simp: state_live_def)
  then obtain h3 p L3 where "kmalloc mp h (of_nat PROVENANCE_BYTES) = Some (h3, p)" "heap_live h3 L3" by (rule kmalloc_returns)
  then have "\<exists>st3 b3. commit_provenance mp dm st2 = Some (st3, b3) \<and> state_live st3"
    using l2 unfolding st2 by (auto simp: commit_provenance_def state_live_def split: prod.splits bool.splits)
  then show ?thesis using s 1 2 l2 by (cases b1; cases b2; cases st1; cases st2) (auto simp: commit_batch_def Let_def ex_bool_eq)
qed

section \<open>Payload lengths\<close>

lemma length_captable:
  assumes "caps_ok c" "component_captable_encode c = Some b"
  shows "length b = CAPTABLE_PAYLOAD_BYTES"
  using captable_round_trip [OF assms(1)] assms(2) by auto

lemma length_lineage_encode:
  assumes "derivation_wf l" "capability_lineage_encode l CAP_LINEAGE_BYTES = Some b"
  shows "length b = CAP_LINEAGE_BYTES"
  using lineage_encode_table [of l] assms is_valid_iff_derivation_wf [of l] by (auto simp: derivation_wf_def)

lemma length_provenance_encode:
  assumes "ledger_ok l" "provenance_encode l PROVENANCE_BYTES = (b, True)"
  shows "length b = PROVENANCE_BYTES"
proof -
  have "list_all (\<lambda>b. length (bk_events b) = PROVENANCE_EVENTS) (ledger_objects l)" "length (ledger_objects l) = 32"
    using assms(1) by (auto simp: ledger_ok_def bucket_ok_def list_all_iff)
  then show ?thesis using bucket_codec.array_length [of "ledger_objects l"] assms(2) by (auto simp: provenance_encode_def Let_def)
qed

lemma batch_backed:
  assumes ok: "domain_ok dm" and l: "ledger_ok (provenance dm)" and w: "\<forall>w\<in>set (writes dm). request_backed (fst w)"
    and b: "commit_batch gm mp dm = Some ((h, rs, bs), True)" and rq: "rq \<in> set rs"
  shows "request_backed rq"
proof -
  have t: "request_backed rq" if "i < COMPONENT_MAX" "items (components dm) ! i = Some c" "table_request c rq" for i c
    using that(3) length_captable [OF domain_okD(4) [OF ok that(1,2)]]
    by (cases "component_captable_encode c") (auto simp: table_request_def request_backed_def)
  have s: "request_backed rq" if "state_request gm c rq" for c
    using that by (auto simp: state_request_def request_backed_def)
  show ?thesis
    using commit_batch_result(3) [OF b rq] t s w length_lineage_encode [OF domain_okD(2) [OF ok]] length_provenance_encode [OF l]
    by (auto simp: capability_lineage_request_def provenance_request_def request_backed_def)
qed

section \<open>Outcomes\<close>

definition committed_items :: "('d, 'i, 'p) capability_domain \<Rightarrow> 'i component option list" where
  "committed_items dm = map (map_option clean_component) (items (components dm))"

text \<open>What the caller finds after a commit that returned \<open>r\<close>.\<close>

definition commit_outcome ::
    "('d, 'i, 'p) capability_domain \<Rightarrow> ('d, 'i, 'p) capability_domain \<Rightarrow> object_store_batch_result \<Rightarrow> bool" where
  "commit_outcome dm dm' r \<longleftrightarrow> active dm' = 0 \<and>
     (if r = OBJECT_STORE_BATCH_COMMITTED
      then items (components dm') = committed_items dm \<and> lineage dm' = lineage dm \<and> provenance dm' = provenance dm \<and> halted dm' = halted dm
      else components dm' = components (restored dm) \<and> lineage dm' = saved_lineage dm \<and> provenance dm' = saved_provenance dm \<and>
        halted dm' = (if r = OBJECT_STORE_BATCH_RECOVERY_REQUIRED then 1 else halted dm))"

lemma restored_heap [simp]:
  "components (restored (dm\<lparr>dm_heap := h\<rparr>)) = components (restored dm)"
  "components (restored (dm\<lparr>dm_store := s\<rparr>)) = components (restored dm)"
  by (simp_all add: restored_def)

lemma commit_done_outcome:
  assumes "active dm \<noteq> 0" "commit_done (dm\<lparr>dm_heap := h, dm_store := s\<rparr>) bs r = (dm', r')"
  shows "commit_outcome dm dm' r" "r' = r" "dm_store dm' = s"
proof -
  have f: "halted (finish d) = halted d" "lineage (restored d) = saved_lineage d" "provenance (restored d) = saved_provenance d"
    "halted (restored d) = halted d" "dm_store (restored d) = dm_store d" for d :: "('a, 'b, 'c) capability_domain"
    by (simp_all add: finish_def restored_def)
  have "components (restored (dm\<lparr>dm_store := s, dm_heap := h'\<rparr>)) = components (restored dm)" for h' by (simp add: restored_def)
  then show "commit_outcome dm dm' r" "r' = r" "dm_store dm' = s"
    using assms by (auto simp: commit_done_def Let_def commit_outcome_def committed_items_def abort_restored f split: if_splits)
qed

text \<open>The two ways a commit can go: without touching the store, or through one batch.\<close>

lemma commit_cases:
  assumes act: "active dm \<noteq> 0" and heap: "heap_live (dm_heap dm) L"
    and ret: "\<And>h rs bs. commit_batch gm mp dm = Some ((h, rs, bs), True) \<Longrightarrow> object_store_put_many (dm_store dm) rs \<noteq> None"
  obtains dm' r where "capability_domain_commit gm mp dm = Some (dm', r)" "commit_outcome dm dm' r" "dm_store dm' = dm_store dm"
      "r = OBJECT_STORE_BATCH_REJECTED \<or> r = OBJECT_STORE_BATCH_COMMITTED \<and> covers gm dm []"
  | dm' r rs h bs where "capability_domain_commit gm mp dm = Some (dm', r)" "commit_outcome dm dm' r"
      "commit_batch gm mp dm = Some ((h, rs, bs), True)" "rs \<noteq> []" "object_store_put_many (dm_store dm) rs = Some (dm_store dm', r)"
proof -
  obtain h rs bs b where cb: "commit_batch gm mp dm = Some ((h, rs, bs), b)" using commit_batch_returns [OF heap, of gm mp] by (metis prod.exhaust)
  have same: "dm\<lparr>dm_heap := h, dm_store := dm_store dm\<rparr> = dm\<lparr>dm_heap := h\<rparr>" by simp
  note fin = commit_done_outcome [OF act]
  note unchanged = fin [where h = h and s = "dm_store dm", unfolded same]
  consider (rej) "\<not> b" | (none) "b" "rs = []" | (put) s r where "b" "rs \<noteq> []" "object_store_put_many (dm_store dm) rs = Some (s, r)"
    using ret cb by (cases b; cases "object_store_put_many (dm_store dm) rs") auto
  then show thesis
  proof cases
    case rej
    obtain dm' r where d: "commit_done (dm\<lparr>dm_heap := h\<rparr>) bs OBJECT_STORE_BATCH_REJECTED = (dm', r)" by force
    have c: "capability_domain_commit gm mp dm = Some (dm', r)" using act cb rej d by (simp add: capability_domain_commit_def)
    show thesis using unchanged [OF d] c by (intro that(1) [of dm' r]) auto
  next
    case none
    obtain dm' r where d: "commit_done (dm\<lparr>dm_heap := h\<rparr>) bs OBJECT_STORE_BATCH_COMMITTED = (dm', r)" by force
    have c: "capability_domain_commit gm mp dm = Some (dm', r)" using act cb none d by (simp add: capability_domain_commit_def)
    have "covers gm dm []" using commit_batch_result(1) [of gm mp dm h "[]" bs] cb none by simp
    then show thesis using unchanged [OF d] c by (intro that(1) [of dm' r]) auto
  next
    case put
    obtain dm' r' where d: "commit_done (dm\<lparr>dm_heap := h, dm_store := s\<rparr>) bs r = (dm', r')" by force
    have c: "capability_domain_commit gm mp dm = Some (dm', r')" using act cb put d by (simp add: capability_domain_commit_def)
    show thesis using fin [OF d] c cb put by (intro that(2) [of dm' r' h rs bs]) auto
  qed
qed

text \<open>
  C33: the commit of a transaction is atomic, in memory and on the disk. On any device that keeps
  the block device contract, for a consistent domain with an open transaction whose staged writes
  have their bytes, \<open>capability_domain_commit\<close> always returns and closes the transaction. Unless
  it answers \<open>COMMITTED\<close>, the components, the derivation graph and the ledger are back to what they
  were when the transaction began, and the domain is halted exactly if the store now asks for
  recovery. If it answers \<open>COMMITTED\<close>, there is one batch with the staged writes, the table and the
  instance state of every component that changed, the graph and the ledger if they changed.
  Whatever the answer, every disk image that a power loss may leave at that moment recovers to the
  store before the commit or to the store with the whole batch: never to a table without its graph,
  or to a message sent without the capability it carries.
\<close>

theorem domain_commit_atomic:
  assumes "block_device read_s write_s flush_s ok visible survivors"
    and "wired read_s write_s flush_s (dm_store dm)" "ok (device (dm_store dm))"
    and "store_ok (survivors (device (dm_store dm))) U (dm_store dm)"
    and "cache_ok (dm_store dm)" "st_cache_capacity (dm_store dm) + 7 < 2 ^ 64"
    and "unat (st_superblock_sequence (dm_store dm)) + 2 < 2 ^ 64"
    and "domain_ok dm" "ledger_ok (provenance dm)" "\<forall>w\<in>set (writes dm). request_backed (fst w)"
    and "active dm \<noteq> 0" "heap_live (dm_heap dm) L"
  shows "\<exists>dm' r. capability_domain_commit get_memory map_page dm = Some (dm', r) \<and> active dm' = 0 \<and>
    (if r = OBJECT_STORE_BATCH_COMMITTED
     then items (components dm') = map (map_option clean_component) (items (components dm)) \<and> lineage dm' = lineage dm \<and>
       provenance dm' = provenance dm \<and> halted dm' = halted dm
     else components dm' = components (restored dm) \<and> lineage dm' = saved_lineage dm \<and> provenance dm' = saved_provenance dm \<and>
       halted dm' = (if r = OBJECT_STORE_BATCH_RECOVERY_REQUIRED then 1 else halted dm)) \<and>
    (\<forall>img. image_of img (survivors (device (dm_store dm'))) \<longrightarrow>
       (\<exists>es. recover_image img (sector_count (dm_store dm)) (st_table_capacity (dm_store dm)) = Some es \<and>
         (r \<noteq> OBJECT_STORE_BATCH_COMMITTED \<and> holds_before img (survivors (device (dm_store dm))) (dm_store dm) es \<or>
          r \<noteq> OBJECT_STORE_BATCH_REJECTED \<and> (\<exists>rs. covers get_memory dm rs \<and>
            (if rs = [] then holds_before img (survivors (device (dm_store dm))) (dm_store dm) es
             else holds_after img (survivors (device (dm_store dm))) (dm_store dm) rs es)))))"
proof -
  let ?s = "dm_store dm" and ?S = "survivors (device (dm_store dm))"
  note bd = assms(1) and ok = assms(4)
  have put: "\<exists>s' r. object_store_put_many ?s rs = Some (s', r) \<and>
      block_device.put_outcome read_s write_s flush_s ok survivors U ?s rs s' r"
    if "commit_batch get_memory map_page dm = Some ((h, rs, bs), True)" for h rs bs
    using batch_backed [OF assms(8-10) that]
    by (intro block_device.put_many_outcome [OF bd ok assms(2,3,5,6) _ assms(7)]) blast
  have before: "\<exists>es. recover_image img (sector_count ?s) (st_table_capacity ?s) = Some es \<and> holds_before img ?S ?s es"
    if "image_of img ?S" for img
    using block_device.outcome_images [OF bd ok _ that, of "[]" OBJECT_STORE_BATCH_REJECTED] ok assms(2,3,5)
    by (simp add: block_device.put_outcome_def [OF bd])
  let ?holds = "\<lambda>r img es. r \<noteq> OBJECT_STORE_BATCH_COMMITTED \<and> holds_before img ?S ?s es \<or>
    r \<noteq> OBJECT_STORE_BATCH_REJECTED \<and> (\<exists>rs. covers get_memory dm rs \<and>
      (if rs = [] then holds_before img ?S ?s es else holds_after img ?S ?s rs es))"
  have fin: ?thesis if "capability_domain_commit get_memory map_page dm = Some (dm', r)" "commit_outcome dm dm' r"
    "\<And>img. image_of img (survivors (device (dm_store dm'))) \<Longrightarrow>
       \<exists>es. recover_image img (sector_count ?s) (st_table_capacity ?s) = Some es \<and> ?holds r img es" for dm' r
    using that unfolding commit_outcome_def committed_items_def by blast
  show ?thesis
  proof (rule commit_cases [OF assms(11,12), of get_memory map_page])
    show "object_store_put_many ?s rs \<noteq> None" if "commit_batch get_memory map_page dm = Some ((h, rs, bs), True)" for h rs bs
      using put [OF that] by auto
  next
    fix dm' r assume c: "capability_domain_commit get_memory map_page dm = Some (dm', r)" "commit_outcome dm dm' r"
      "dm_store dm' = ?s" "r = OBJECT_STORE_BATCH_REJECTED \<or> r = OBJECT_STORE_BATCH_COMMITTED \<and> covers get_memory dm []"
    have "?holds r img es" if "holds_before img ?S ?s es" for img es using that c(4) by (auto intro!: exI [of _ "[]"])
    then show ?thesis using before by (intro fin [OF c(1,2), unfolded c(3)]) blast
  next
    fix dm' r rs h bs assume c: "capability_domain_commit get_memory map_page dm = Some (dm', r)" "commit_outcome dm dm' r"
      "commit_batch get_memory map_page dm = Some ((h, rs, bs), True)" "rs \<noteq> []" "object_store_put_many ?s rs = Some (dm_store dm', r)"
    have "block_device.put_outcome read_s write_s flush_s ok survivors U ?s rs (dm_store dm') r" using put [OF c(3)] c(5) by simp
    note images = block_device.outcome_images [OF bd ok this]
    have "?holds r img es"
      if "case r of OBJECT_STORE_BATCH_REJECTED \<Rightarrow> holds_before img ?S ?s es
        | OBJECT_STORE_BATCH_COMMITTED \<Rightarrow> holds_after img ?S ?s rs es
        | OBJECT_STORE_BATCH_RECOVERY_REQUIRED \<Rightarrow> holds_before img ?S ?s es \<or> holds_after img ?S ?s rs es" for img es
      using that commit_batch_result(1) [OF c(3)] c(4) by (cases r) auto
    then show ?thesis using images by (intro fin [OF c(1,2)]) blast
  qed
qed

definition sample_commit :: "(barrier_disk, unit, unit) capability_domain" where
  "sample_commit = (zero_domain sample_store 0 sample_heap component_set_init)\<lparr>
     active := 1, writes := [(sample_request (Object_Id 0 7) [1, 2, 3], 0)]\<rparr>"

lemma sample_commit_ok: "domain_ok sample_commit"
proof (rule domain_okI)
  show "set_ok (components sample_commit)" by (simp add: sample_commit_def zero_domain_def component_set_init_def set_ok_def)
  show "derivation_wf (lineage sample_commit)" by (simp add: sample_commit_def zero_domain_def init_derivation_wf)
qed (simp_all add: sample_commit_def zero_domain_def component_set_init_def graph_edge_def live_records_def capability_derivation_table_init_def)

theorem domain_commit_atomic_witness:
  "\<exists>dm' r. capability_domain_commit (\<lambda>_. None) sample_pages sample_commit = Some (dm', r) \<and> active dm' = 0 \<and>
    (\<forall>img. image_of img (barrier_survivors (device (dm_store dm'))) \<longrightarrow> recover_image img 128 4 \<noteq> None)"
proof -
  have f: "dm_store sample_commit = sample_store" "active sample_commit \<noteq> 0" "dm_heap sample_commit = sample_heap"
    "\<forall>w\<in>set (writes sample_commit). request_backed (fst w)" "ledger_ok (provenance sample_commit)"
    by (simp_all add: sample_commit_def zero_domain_def request_backed_def sample_request_def ledger_ok_def zero_ledger_def
        zero_bucket_def bucket_ok_def)
  have live: "heap_live (dm_heap sample_commit) {}" using heap_reach_live [OF sample_heap_reach] f(3) by simp
  have "st_cache_capacity sample_store + 7 < 2 ^ 64" "unat (st_superblock_sequence sample_store) + 2 < 2 ^ 64"
    by (simp_all add: sample_store_facts)
  note hyps = this
  note main = domain_commit_atomic [OF barrier.block_device_axioms, of sample_commit "{0, 1, 2}", unfolded f(1),
      OF sample_store_facts(1-4) hyps(1,2) sample_commit_ok f(5,4,2) live, of "\<lambda>_. None" sample_pages]
  show ?thesis using main unfolding sample_store_facts(9,11) by (elim exE conjE) (intro exI conjI, assumption+, fastforce)
qed

end
