(* ===== verification/Scheduler_Trace.thy ===== *)
theory Scheduler_Trace
  imports Domain_Commit
begin

text \<open>
  The state of the scheduler, \<^verbatim>\<open>kernel/sched/scheduler.h\<close>, and its trace: the ring of the
  last events of \<^verbatim>\<open>kernel/sched/scheduler.c\<close> with its record in the object store and the
  validator \<^verbatim>\<open>trace_validate.zig\<close>. The domain and the clock, which the structure of the code
  points to, are arguments of the operations.
\<close>

abbreviation SCHED_TRACE_MAX :: nat where "SCHED_TRACE_MAX \<equiv> 64"
abbreviation SCHED_TRACE_BYTES :: nat where "SCHED_TRACE_BYTES \<equiv> 2584"

definition TRACE_RUN :: u32 where "TRACE_RUN = 1"
definition TRACE_WAIT :: u32 where "TRACE_WAIT = 2"
definition TRACE_ALLOCATE :: u32 where "TRACE_ALLOCATE = 3"
definition TRACE_FAIL :: u32 where "TRACE_FAIL = 4"
definition TRACE_SWAP :: u32 where "TRACE_SWAP = 5"

record trace_event =
  tr_component :: object_id
  tr_time :: u64
  tr_value :: u64
  tr_kind :: u32
  tr_reserved :: u32

record scheduler_policy =
  interactive :: u32
  priority :: u32
  budget_cycles :: u64

record scheduler =
  sc_policies :: "scheduler_policy list"
  sc_last_run :: "u64 list"
  sc_used :: "u64 list"
  sc_frame_start :: u64
  sc_frame_ticks :: u64
  sc_frame_cycles :: u64
  sc_consumed :: u64
  sc_cursor :: u32
  sc_running :: u32
  sc_waiting :: "u32 list"
  sc_trace_count :: u32
  sc_trace_next :: u32
  sc_trace :: "trace_event list"

section \<open>The ring\<close>

definition emit_trace :: "scheduler \<Rightarrow> 'i component \<Rightarrow> u32 \<Rightarrow> u64 \<Rightarrow> u64 \<Rightarrow> scheduler" where
  "emit_trace s c kind time v =
     (if kind < TRACE_RUN \<or> kind > TRACE_SWAP then s
      else s\<lparr>sc_trace := (sc_trace s)[unat (sc_trace_next s) :=
               \<lparr>tr_component = root_id c, tr_time = time, tr_value = v, tr_kind = kind, tr_reserved = 0\<rparr>],
             sc_trace_next := (sc_trace_next s + 1) mod 64,
             sc_trace_count := (if sc_trace_count s < 64 then sc_trace_count s + 1 else sc_trace_count s)\<rparr>)"

definition scheduler_trace :: "scheduler option \<Rightarrow> 'i component option \<Rightarrow> u32 \<Rightarrow> u64 \<Rightarrow> scheduler option" where
  "scheduler_trace s c kind v =
     (case (s, c) of (Some s, Some c) \<Rightarrow> Some (emit_trace s c kind (logical_time c) v) | _ \<Rightarrow> s)"

text \<open>The loop over the events, newest first.\<close>

fun query_loop :: "scheduler \<Rightarrow> object_id \<Rightarrow> u32 \<Rightarrow> nat list \<Rightarrow> trace_event option" where
  "query_loop s owner age [] = None"
| "query_loop s owner age (i # is) =
     (let event = sc_trace s ! unat ((sc_trace_next s + 64 - of_nat i - 1) mod 64) in
      if \<not> object_id_equal owner (tr_component event) then query_loop s owner age is
      else if age = 0 then Some event else query_loop s owner (age - 1) is)"

definition scheduler_trace_query :: "scheduler option \<Rightarrow> object_id \<Rightarrow> u32 \<Rightarrow> trace_event option" where
  "scheduler_trace_query s owner age =
     (case s of
        None \<Rightarrow> None
      | Some s \<Rightarrow> if unat age \<ge> SCHED_TRACE_MAX then None else query_loop s owner age [0..<unat (sc_trace_count s)])"

section \<open>The trace in the store\<close>

definition encode_trace_event :: "trace_event \<Rightarrow> bytes" where
  "encode_trace_event e = encode_id (tr_component e) @ le_bytes 8 (tr_time e) @ le_bytes 8 (tr_value e) @ le_bytes 4 (tr_kind e) @
     le_bytes 4 (tr_reserved e)"

definition decode_trace_event :: "bytes \<Rightarrow> trace_event" where
  "decode_trace_event bs = \<lparr>tr_component = decode_id (bslice 0 16 bs), tr_time = le_word (bslice 16 8 bs),
     tr_value = le_word (bslice 24 8 bs), tr_kind = le_word (bslice 32 4 bs), tr_reserved = le_word (bslice 36 4 bs)\<rparr>"

definition trace_bytes :: "scheduler \<Rightarrow> bytes" where
  "trace_bytes s =
     (let events = encode_array encode_trace_event (sc_trace s) in
      le_bytes 8 (0x4A414E4954524331 :: u64) @ le_bytes 4 (sc_trace_count s) @ le_bytes 4 (sc_trace_next s) @
      le_bytes 4 (object_crc32c (Some events) (SCHED_TRACE_MAX * 40)) @ replicate 4 0 @ events)"

definition trace_stage ::
    "'p map_page \<Rightarrow> ('d, 'i, 'p) capability_domain \<Rightarrow> scheduler \<Rightarrow> (('d, 'i, 'p) capability_domain \<times> bool) option" where
  "trace_stage map_page dm s =
     capability_domain_write map_page dm
       \<lparr>rq_id = Object_Id 6 0, rq_type_id = Object_Id 0 9, rq_creator_id = Object_Id 0 0, rq_modifier_id = Object_Id 0 0,
        rq_logical_timestamp = sc_frame_start s, rq_payload = Some (trace_bytes s), rq_payload_size = SCHED_TRACE_BYTES\<rparr>"

definition validate_trace_event :: "bytes \<Rightarrow> nat \<Rightarrow> nat \<Rightarrow> bool" where
  "validate_trace_event b count i =
     (let event = bslice (24 + i * 40) 40 b in
      if i \<ge> count then zero_bytes event
      else \<not> (zero_bytes (bslice 0 16 event) \<or> read_u32_le event 32 < 1 \<or> read_u32_le event 32 > 5 \<or> read_u32_le event 36 \<noteq> 0))"

definition scheduler_trace_validate :: "bytes option \<Rightarrow> nat \<Rightarrow> bool" where
  "scheduler_trace_validate raw len =
     (case raw of
        None \<Rightarrow> False
      | Some b \<Rightarrow>
          if len \<noteq> 24 + 64 * 40 then False
          else if read_u64_le b 0 \<noteq> 0x4A414E4954524331 \<or> read_u32_le b 20 \<noteq> 0 then False
          else let count = unat (read_u32_le b 8); next_event = unat (read_u32_le b 12) in
            if count > 64 \<or> next_event \<ge> 64 \<or> (count < 64 \<and> next_event \<noteq> count) \<or>
               object_crc32c (Some (drop 24 b)) (len - 24) \<noteq> read_u32_le b 16 then False
            else list_all (validate_trace_event b count) [0..<64])"

end
