(* ===== verification/Replay_Log.thy ===== *)
theory Replay_Log
  imports Lineage_Records
begin

text \<open>
  The log with which a run of a component is recorded and replayed: \<^verbatim>\<open>kernel/replay/record.c\<close>
  up to \<open>replay_handler\<close>, and the validator \<^verbatim>\<open>record_validate.zig\<close>. A session in record
  mode appends one record for every call that the guest makes; in play mode the same calls are
  answered from the log. The arguments and the places for the results are arrays of the caller; the
  input pointer, which may be \<open>NULL\<close>, is an option, and the output of \<open>replay_before\<close> is a
  result, since its callers pass a buffer whenever they expect output. The owner of a session is the address of a
  component. The two states that a session owns are their bytes, with the address of the buffer that
  holds them. Signed results are their bit patterns.
\<close>

section \<open>Sessions\<close>

abbreviation REPLAY_BYTES :: nat where "REPLAY_BYTES \<equiv> 65536"
abbreviation REPLAY_ARGUMENTS :: nat where "REPLAY_ARGUMENTS \<equiv> 8"
abbreviation REPLAY_IO_MAX :: nat where "REPLAY_IO_MAX \<equiv> 8192"
abbreviation REPLAY_RECORD_SIZE :: nat where "REPLAY_RECORD_SIZE \<equiv> 96"

datatype replay_mode = REPLAY_OFF | REPLAY_RECORD | REPLAY_PLAY

record replay_record =
  rr_kind :: u32
  rr_reserved :: u32
  rr_sequence :: u64
  rr_arguments :: "u64 list"
  rr_result :: u64
  rr_input_size :: u32
  rr_output_size :: u32

definition encode_replay_record :: "replay_record \<Rightarrow> bytes" where
  "encode_replay_record r = le_bytes 4 (rr_kind r) @ le_bytes 4 (rr_reserved r) @ le_bytes 8 (rr_sequence r) @
     encode_array (le_bytes 8) (rr_arguments r) @ le_bytes 8 (rr_result r) @ le_bytes 4 (rr_input_size r) @
     le_bytes 4 (rr_output_size r)"

definition decode_replay_record :: "bytes \<Rightarrow> replay_record" where
  "decode_replay_record bs =
     \<lparr>rr_kind = le_word (bslice 0 4 bs), rr_reserved = le_word (bslice 4 4 bs), rr_sequence = le_word (bslice 8 8 bs),
      rr_arguments = decode_array le_word 8 REPLAY_ARGUMENTS (bslice 16 64 bs), rr_result = le_word (bslice 80 8 bs),
      rr_input_size = le_word (bslice 88 4 bs), rr_output_size = le_word (bslice 92 4 bs)\<rparr>"

record replay_session =
  rs_mode :: replay_mode
  rs_owner :: "nat option"
  rs_bytes :: bytes
  rs_used :: nat
  rs_cursor :: nat
  rs_sequence :: u64
  rs_failed :: bool
  rs_initial :: "bytes option"
  rs_initial_size :: nat
  rs_module_id :: object_id
  rs_expected :: "bytes option"
  rs_expected_size :: nat
  rs_initial_address :: u64
  rs_expected_address :: u64

text \<open>The decision is 1 to make the live call, 0 with the output and the result of the log, or -1.\<close>

definition replay_before ::
    "replay_session \<Rightarrow> u32 \<Rightarrow> u64 list \<Rightarrow> bytes option \<Rightarrow> nat \<Rightarrow> nat \<Rightarrow> replay_session \<times> int \<times> (bytes \<times> u64) option" where
  "replay_before s kind args input in_size out_size =
     (if rs_mode s = REPLAY_OFF then (s, 1, None)
      else if rs_failed s \<or> rs_used s > REPLAY_BYTES \<or> kind > 32 \<or> in_size > REPLAY_IO_MAX \<or> out_size > REPLAY_IO_MAX \<or>
              (in_size \<noteq> 0 \<and> input = None) then (s\<lparr>rs_failed := True\<rparr>, -1, None)
      else let needed = REPLAY_RECORD_SIZE + in_size + out_size in
        if rs_mode s = REPLAY_RECORD then
          (if needed > REPLAY_BYTES - rs_used s \<or> rs_sequence s = UINT64_MAX then (s\<lparr>rs_failed := True\<rparr>, -1, None) else (s, 1, None))
        else if rs_cursor s > rs_used s \<or> rs_used s - rs_cursor s < REPLAY_RECORD_SIZE then (s\<lparr>rs_failed := True\<rparr>, -1, None)
        else let r = decode_replay_record (bslice (rs_cursor s) REPLAY_RECORD_SIZE (rs_bytes s)) in
          if needed > rs_used s - rs_cursor s \<or> rr_kind r \<noteq> kind \<or> rr_sequence r \<noteq> rs_sequence s \<or>
             unat (rr_input_size r) \<noteq> in_size \<or> unat (rr_output_size r) \<noteq> out_size \<or> rr_reserved r \<noteq> 0
          then (s\<lparr>rs_failed := True\<rparr>, -1, None)
          else if list_ex (\<lambda>i. args ! i \<noteq> rr_arguments r ! i) [0..<REPLAY_ARGUMENTS] then (s\<lparr>rs_failed := True\<rparr>, -1, None)
          else let saved_input = rs_cursor s + REPLAY_RECORD_SIZE in
            if list_ex (\<lambda>i. the input ! i \<noteq> rs_bytes s ! (saved_input + i)) [0..<in_size] then (s\<lparr>rs_failed := True\<rparr>, -1, None)
            else (s\<lparr>rs_cursor := rs_cursor s + needed, rs_sequence := rs_sequence s + 1\<rparr>, 0,
                  Some (bslice (saved_input + in_size) out_size (rs_bytes s), rr_result r)))"

definition replay_after ::
    "replay_session \<Rightarrow> u32 \<Rightarrow> u64 list \<Rightarrow> bytes option \<Rightarrow> nat \<Rightarrow> bytes option \<Rightarrow> nat \<Rightarrow> u64 \<Rightarrow> replay_session \<times> bool" where
  "replay_after s kind args input in_size output out_size result =
     (if rs_mode s \<noteq> REPLAY_RECORD then (s, True)
      else if rs_failed s \<or> rs_used s > REPLAY_BYTES \<or> rs_sequence s = UINT64_MAX \<or> kind > 32 \<or>
              (in_size \<noteq> 0 \<and> input = None) \<or> (out_size \<noteq> 0 \<and> output = None) \<or> in_size > REPLAY_IO_MAX \<or> out_size > REPLAY_IO_MAX \<or>
              in_size + out_size + REPLAY_RECORD_SIZE > REPLAY_BYTES - rs_used s then (s\<lparr>rs_failed := True\<rparr>, False)
      else let r = \<lparr>rr_kind = kind, rr_reserved = 0, rr_sequence = rs_sequence s, rr_arguments = take REPLAY_ARGUMENTS args,
                    rr_result = result, rr_input_size = of_nat in_size, rr_output_size = of_nat out_size\<rparr>;
               used1 = rs_used s + REPLAY_RECORD_SIZE;
               bytes1 = memcpy_at (rs_bytes s) (rs_used s) (encode_replay_record r);
               bytes2 = (if in_size \<noteq> 0 then memcpy_at bytes1 used1 (take in_size (the input)) else bytes1);
               bytes3 = (if out_size \<noteq> 0 then memcpy_at bytes2 (used1 + in_size) (take out_size (the output)) else bytes2)
           in (s\<lparr>rs_bytes := bytes3, rs_used := used1 + in_size + out_size, rs_sequence := rs_sequence s + 1\<rparr>, True))"

text \<open>\<open>current_session\<close> is the current session, if there is one.\<close>

definition replay_handler :: "replay_session option \<Rightarrow> nat \<Rightarrow> u64 \<Rightarrow> u32 \<Rightarrow> replay_session option \<times> bool" where
  "replay_handler current_session owner now timer =
     (let args = [now, ucast timer, 0, 0, 0, 0, 0, 0] in
      case current_session of
        None \<Rightarrow> (current_session, True)
      | Some s \<Rightarrow>
          if rs_owner s \<noteq> Some owner then (current_session, True)
          else case replay_before s 0 args None 0 0 of
            (s1, state, _) \<Rightarrow>
              if state < 0 then (Some s1, False)
              else if state = 0 then (Some s1, True)
              else case replay_after s1 0 args None 0 None 0 0 of (s2, ok) \<Rightarrow> (Some s2, ok))"

text \<open>The loop of the validator.\<close>

function log_loop :: "bytes \<Rightarrow> nat \<Rightarrow> nat \<Rightarrow> u64 \<Rightarrow> bool" where
  "log_loop b len offset sequence =
     (if offset \<ge> len then True
      else if len - offset < 96 then False
      else let r = bslice offset 96 b in
        if read_u32_le r 0 > 32 \<or> read_u32_le r 4 \<noteq> 0 \<or> read_u64_le r 8 \<noteq> sequence then False
        else if sequence = 0 \<and> read_u32_le r 0 \<noteq> 0 then False
        else let input = unat (read_u32_le r 88); output = unat (read_u32_le r 92) in
          if input > 8192 \<or> output > 8192 then False
          else if read_u32_le r 0 = 0 \<and> (input \<noteq> 0 \<or> output \<noteq> 0 \<or> read_u64_le r 24 > 1) then False
          else if read_u32_le r 0 = 0 \<and> \<not> zero_bytes (bslice 32 56 r) then False
          else if input + output > len - (offset + 96) then False
          else log_loop b len (offset + 96 + (input + output)) (sequence + 1))"
  by pat_completeness auto
termination
  by (relation "measure (\<lambda>(b, len, offset, sequence). len - offset)") auto

declare log_loop.simps [simp del]

definition replay_log_validate :: "bytes option \<Rightarrow> nat \<Rightarrow> bool" where
  "replay_log_validate raw len =
     (case raw of
        None \<Rightarrow> False
      | Some b \<Rightarrow> if len = 0 \<or> len > 65536 then False else log_loop b len 0 0)"

section \<open>Calls and logs\<close>

text \<open>What one record of the log says: a call of the guest with what it read and what it was given.\<close>

record replay_call =
  call_kind :: u32
  call_args :: "u64 list"
  call_input :: bytes
  call_output :: bytes
  call_result :: u64

definition replay_call_ok :: "replay_call \<Rightarrow> bool" where
  "replay_call_ok e \<longleftrightarrow> call_kind e \<le> 32 \<and> length (call_args e) = REPLAY_ARGUMENTS \<and> length (call_input e) \<le> REPLAY_IO_MAX \<and>
     length (call_output e) \<le> REPLAY_IO_MAX"

definition call_record :: "nat \<Rightarrow> replay_call \<Rightarrow> replay_record" where
  "call_record n e = \<lparr>rr_kind = call_kind e, rr_reserved = 0, rr_sequence = of_nat n, rr_arguments = call_args e,
     rr_result = call_result e, rr_input_size = of_nat (length (call_input e)), rr_output_size = of_nat (length (call_output e))\<rparr>"

definition call_bytes :: "nat \<Rightarrow> replay_call \<Rightarrow> bytes" where
  "call_bytes n e = encode_replay_record (call_record n e) @ call_input e @ call_output e"

fun log_from :: "nat \<Rightarrow> replay_call list \<Rightarrow> bytes" where
  "log_from n [] = []"
| "log_from n (e # es) = call_bytes n e @ log_from (Suc n) es"

text \<open>The calls that the guest has no part in: the start of a handler, at a time and for a timer or a message.\<close>

definition handler_call :: "u64 \<Rightarrow> u64 \<Rightarrow> replay_call" where
  "handler_call now timer = \<lparr>call_kind = 0, call_args = [now, timer, 0, 0, 0, 0, 0, 0], call_input = [], call_output = [], call_result = 0\<rparr>"

definition log_holds :: "replay_session \<Rightarrow> replay_call list \<Rightarrow> bool" where
  "log_holds s es \<longleftrightarrow> length (rs_bytes s) = REPLAY_BYTES \<and> rs_used s = length (log_from 0 es) \<and> rs_used s \<le> REPLAY_BYTES \<and>
     take (rs_used s) (rs_bytes s) = log_from 0 es \<and> list_all replay_call_ok es"

definition recording :: "replay_session \<Rightarrow> replay_call list \<Rightarrow> bool" where
  "recording s es \<longleftrightarrow> rs_mode s = REPLAY_RECORD \<and> \<not> rs_failed s \<and> log_holds s es \<and> rs_sequence s = of_nat (length es)"

definition playing :: "replay_session \<Rightarrow> replay_call list \<Rightarrow> nat \<Rightarrow> bool" where
  "playing s es k \<longleftrightarrow> rs_mode s = REPLAY_PLAY \<and> \<not> rs_failed s \<and> log_holds s es \<and> k \<le> length es \<and>
     rs_cursor s = length (log_from 0 (take k es)) \<and> rs_sequence s = of_nat k"


section \<open>The log as bytes\<close>

interpretation u64_codec: codec "le_bytes 8 :: u64 \<Rightarrow> bytes" "le_word :: bytes \<Rightarrow> u64" 8 "\<lambda>_. True"
  by unfold_locales auto

lemma argument_arrays [simp]:
  "length (encode_array (le_bytes 8) (xs :: u64 list)) = 8 * length xs"
  "decode_array le_word 8 (length xs) (encode_array (le_bytes 8) (xs :: u64 list)) = xs"
  "length bs = 64 \<Longrightarrow> encode_array (le_bytes 8) (decode_array le_word 8 8 bs :: u64 list) = bs"
  "length bs = 64 \<Longrightarrow> length (decode_array le_word 8 8 bs :: u64 list) = 8"
  using u64_codec.array_length [of xs] u64_codec.array_dec_enc [of xs] u64_codec.array_enc_dec [of bs 8]
  by (simp_all add: list_all_iff)

interpretation replay_record_codec: codec encode_replay_record decode_replay_record 96 "\<lambda>r. length (rr_arguments r) = 8"
proof unfold_locales
  fix r :: replay_record
  assume *: "length (rr_arguments r) = 8"
  then show "length (encode_replay_record r) = 96" by (simp add: encode_replay_record_def)
  have "decode_array le_word 8 8 (encode_array (le_bytes 8) (rr_arguments r)) = rr_arguments r"
    using argument_arrays(2) [of "rr_arguments r"] * by (simp del: argument_arrays)
  then show "decode_replay_record (encode_replay_record r) = r"
    using * by (simp add: encode_replay_record_def decode_replay_record_def)
qed (auto simp: encode_replay_record_def decode_replay_record_def)

lemma replay_fields:
  assumes "length r = 96"
  shows "read_u32_le r 0 = rr_kind (decode_replay_record r)" "read_u32_le r 4 = rr_reserved (decode_replay_record r)"
    "read_u64_le r 8 = rr_sequence (decode_replay_record r)" "read_u32_le r 88 = rr_input_size (decode_replay_record r)"
    "read_u32_le r 92 = rr_output_size (decode_replay_record r)"
  using assms by (simp_all add: read_u32_le_eq read_u64_le_eq decode_replay_record_def)

lemma record_of_call [simp]:
  assumes "replay_call_ok e"
  shows "length (encode_replay_record (call_record n e)) = 96"
    "decode_replay_record (encode_replay_record (call_record n e)) = call_record n e"
    "unat (rr_input_size (call_record n e)) = length (call_input e)"
    "unat (rr_output_size (call_record n e)) = length (call_output e)"
  using assms replay_record_codec.enc_length [of "call_record n e"] replay_record_codec.dec_enc [of "call_record n e"]
  by (auto simp: replay_call_ok_def call_record_def unat_of_nat)

lemma length_call_bytes [simp]: "replay_call_ok e \<Longrightarrow> length (call_bytes n e) = 96 + length (call_input e) + length (call_output e)"
  by (simp add: call_bytes_def)

lemma log_from_append: "log_from n (xs @ ys) = log_from n xs @ log_from (n + length xs) ys"
  by (induction xs arbitrary: n) auto

lemma length_log_ge: "list_all replay_call_ok es \<Longrightarrow> 96 * length es \<le> length (log_from n es)"
proof (induction es arbitrary: n)
  case (Cons e es)
  have "96 * length es \<le> length (log_from (Suc n) es)" using Cons.prems by (intro Cons.IH) simp
  then show ?case using Cons.prems by simp
qed simp

lemma log_split:
  assumes "k < length es"
  shows "log_from 0 es = log_from 0 (take k es) @ call_bytes k (es ! k) @ log_from (Suc k) (drop (Suc k) es)"
proof -
  have "log_from 0 (take k es @ es ! k # drop (Suc k) es) =
      log_from 0 (take k es) @ call_bytes k (es ! k) @ log_from (Suc k) (drop (Suc k) es)"
    using assms by (simp add: log_from_append)
  then show ?thesis by (simp add: assms id_take_nth_drop [symmetric])
qed

lemma log_take_Suc: "k < length es \<Longrightarrow> log_from 0 (take (Suc k) es) = log_from 0 (take k es) @ call_bytes k (es ! k)"
  by (simp add: take_Suc_conv_app_nth log_from_append)

text \<open>What is read at the start of the \<open>k\<close>-th record.\<close>

lemma log_at:
  assumes h: "log_holds s es" and k: "k < length es"
  defines "c \<equiv> length (log_from 0 (take k es))"
  shows "decode_replay_record (bslice c 96 (rs_bytes s)) = call_record k (es ! k)"
    and "bslice (c + 96) (length (call_input (es ! k))) (rs_bytes s) = call_input (es ! k)"
    and "bslice (c + 96 + length (call_input (es ! k))) (length (call_output (es ! k))) (rs_bytes s) = call_output (es ! k)"
    and "c + 96 + length (call_input (es ! k)) + length (call_output (es ! k)) \<le> rs_used s"
proof -
  have ok: "replay_call_ok (es ! k)" using h k by (auto simp: log_holds_def list_all_iff)
  obtain rest where b: "rs_bytes s = log_from 0 (take k es) @ encode_replay_record (call_record k (es ! k)) @
      call_input (es ! k) @ call_output (es ! k) @ rest"
  proof
    have "rs_bytes s = log_from 0 es @ drop (rs_used s) (rs_bytes s)"
      using h append_take_drop_id [of "rs_used s" "rs_bytes s"] unfolding log_holds_def by metis
    then show "rs_bytes s = log_from 0 (take k es) @ encode_replay_record (call_record k (es ! k)) @
      call_input (es ! k) @ call_output (es ! k) @ log_from (Suc k) (drop (Suc k) es) @ drop (rs_used s) (rs_bytes s)"
      unfolding log_split [OF k] call_bytes_def by simp
  qed
  show "decode_replay_record (bslice c 96 (rs_bytes s)) = call_record k (es ! k)"
    "bslice (c + 96) (length (call_input (es ! k))) (rs_bytes s) = call_input (es ! k)"
    "bslice (c + 96 + length (call_input (es ! k))) (length (call_output (es ! k))) (rs_bytes s) = call_output (es ! k)"
    unfolding b c_def using ok by simp_all
  show "c + 96 + length (call_input (es ! k)) + length (call_output (es ! k)) \<le> rs_used s"
    using h log_split [OF k] ok by (simp add: log_holds_def c_def)
qed


section \<open>Recording and playing\<close>

text \<open>A call fits the log when its record and its data find room.\<close>

definition call_fits :: "replay_session \<Rightarrow> replay_call \<Rightarrow> bool" where
  "call_fits s e \<longleftrightarrow> replay_call_ok e \<and> 96 + length (call_input e) + length (call_output e) \<le> REPLAY_BYTES - rs_used s"

lemma recording_count:
  assumes "recording s es"
  shows "length es \<le> 682" "rs_sequence s \<noteq> UINT64_MAX"
proof -
  have "96 * length es \<le> REPLAY_BYTES" using assms length_log_ge [of es 0] by (auto simp: recording_def log_holds_def)
  then show *: "length es \<le> 682" by simp
  have "unat (of_nat (length es) :: u64) = length es" using * by (simp add: unat_of_nat)
  then show "rs_sequence s \<noteq> UINT64_MAX" using assms * by (auto simp: recording_def)
qed

lemma before_recording:
  assumes "recording s es" "length (call_args e) = 8"
  shows "replay_before s (call_kind e) (call_args e) (Some (call_input e)) (length (call_input e)) (length (call_output e)) =
    (if call_fits s e then (s, 1, None) else (s\<lparr>rs_failed := True\<rparr>, -1, None))"
  using assms recording_count [OF assms(1)]
  by (auto simp: replay_before_def recording_def log_holds_def call_fits_def replay_call_ok_def Let_def not_less)

lemma replay_log_bytes:
  assumes "recording s es" "call_fits s e"
  shows "memcpy_at (rs_bytes s) (rs_used s) (call_bytes (length es) e) =
    log_from 0 (es @ [e]) @ drop (rs_used s + length (call_bytes (length es) e)) (rs_bytes s)"
proof -
  have "take (rs_used s) (rs_bytes s) = log_from 0 es" using assms(1) unfolding recording_def log_holds_def by blast
  then show ?thesis by (simp only: memcpy_at_def log_from_append) simp
qed

text \<open>The whole effect of a call that is recorded; \<open>input\<close> and \<open>output\<close> are arrays that may be longer than the data.\<close>

definition append_call :: "replay_session \<Rightarrow> nat \<Rightarrow> replay_call \<Rightarrow> replay_session" where
  "append_call s n e = s\<lparr>rs_bytes := memcpy_at (rs_bytes s) (rs_used s) (call_bytes n e),
     rs_used := rs_used s + length (call_bytes n e), rs_sequence := rs_sequence s + 1\<rparr>"

lemma after_recording:
  assumes r: "recording s es" and fit: "call_fits s e"
    and i: "call_input e \<noteq> [] \<Longrightarrow> input = Some ib" "call_input e = take (length (call_input e)) ib"
    and o: "call_output e \<noteq> [] \<Longrightarrow> output = Some ob" "call_output e = take (length (call_output e)) ob"
  shows "replay_after s (call_kind e) (call_args e) input (length (call_input e)) output (length (call_output e)) (call_result e) =
    (append_call s (length es) e, True)"
proof -
  let ?r = "encode_replay_record (call_record (length es) e)"
  have ok: "replay_call_ok e" using fit by (simp add: call_fits_def)
  have rec: "\<lparr>rr_kind = call_kind e, rr_reserved = 0, rr_sequence = rs_sequence s, rr_arguments = take 8 (call_args e),
      rr_result = call_result e, rr_input_size = of_nat (length (call_input e)), rr_output_size = of_nat (length (call_output e))\<rparr> =
      call_record (length es) e"
    using r ok by (simp add: call_record_def recording_def replay_call_ok_def)
  have u: "rs_used s + length (call_bytes (length es) e) \<le> length (rs_bytes s)"
    using r fit ok by (simp add: recording_def log_holds_def call_fits_def)
  have l: "length ?r = 96" using ok by simp
  have "(if length (call_input e) \<noteq> 0 then memcpy_at (memcpy_at (rs_bytes s) (rs_used s) ?r) (rs_used s + 96)
        (take (length (call_input e)) (the input)) else memcpy_at (rs_bytes s) (rs_used s) ?r) =
      memcpy_at (rs_bytes s) (rs_used s) (?r @ call_input e)"
    using memcpy_at_memcpy_at [of "rs_used s" "rs_bytes s" ?r "call_input e"] u l i by auto
  moreover have "(if length (call_output e) \<noteq> 0
        then memcpy_at (memcpy_at (rs_bytes s) (rs_used s) (?r @ call_input e)) (rs_used s + 96 + length (call_input e))
          (take (length (call_output e)) (the output)) else memcpy_at (rs_bytes s) (rs_used s) (?r @ call_input e)) =
      memcpy_at (rs_bytes s) (rs_used s) (call_bytes (length es) e)"
    using memcpy_at_memcpy_at [of "rs_used s" "rs_bytes s" "?r @ call_input e" "call_output e"] u l o
    by (auto simp: call_bytes_def add.assoc)
  ultimately show ?thesis
    using r fit ok i(1) o(1) recording_count [OF r]
    unfolding replay_after_def Let_def rec
    by (auto simp: append_call_def recording_def log_holds_def call_fits_def replay_call_ok_def call_bytes_def l not_less)
qed

lemma recording_append:
  assumes "recording s es" "call_fits s e"
  shows "recording (append_call s (length es) e) (es @ [e])"
proof -
  have ok: "replay_call_ok e" using assms by (simp add: call_fits_def)
  have u: "rs_used s + length (call_bytes (length es) e) \<le> 65536"
    using assms ok by (simp add: recording_def log_holds_def call_fits_def)
  have len: "rs_used s + length (call_bytes (length es) e) = length (log_from 0 (es @ [e]))"
    using assms by (simp add: recording_def log_holds_def log_from_append)
  have "length (memcpy_at (rs_bytes s) (rs_used s) (call_bytes (length es) e)) = 65536"
    using assms(1) u by (subst length_memcpy_at) (auto simp: recording_def log_holds_def)
  moreover have "take (rs_used s + length (call_bytes (length es) e)) (memcpy_at (rs_bytes s) (rs_used s) (call_bytes (length es) e)) =
      log_from 0 (es @ [e])"
    unfolding replay_log_bytes [OF assms] len by simp
  moreover have "list_all replay_call_ok (es @ [e])" "rs_sequence s + 1 = of_nat (length (es @ [e]))"
    using assms ok by (auto simp: recording_def log_holds_def)
  ultimately have "log_holds (append_call s (length es) e) (es @ [e])"
    using u unfolding log_holds_def append_call_def len by simp
  then show ?thesis
    using assms(1) \<open>rs_sequence s + 1 = of_nat (length (es @ [e]))\<close> unfolding recording_def by (simp add: append_call_def)
qed


text \<open>The call that a request of the guest must agree with to be answered from the log.\<close>

definition call_matches :: "replay_call \<Rightarrow> u32 \<Rightarrow> u64 list \<Rightarrow> bytes \<Rightarrow> nat \<Rightarrow> bool" where
  "call_matches e kind args input out_size \<longleftrightarrow> kind = call_kind e \<and> args = call_args e \<and> input = call_input e \<and>
     out_size = length (call_output e)"

definition advance :: "replay_session \<Rightarrow> replay_call \<Rightarrow> replay_session" where
  "advance s e = s\<lparr>rs_cursor := rs_cursor s + (96 + length (call_input e) + length (call_output e)), rs_sequence := rs_sequence s + 1\<rparr>"

lemma list_ex_upt_nth: "length xs = n \<Longrightarrow> length ys = n \<Longrightarrow> list_ex (\<lambda>i. xs ! i \<noteq> ys ! i) [0..<n] \<longleftrightarrow> xs \<noteq> ys"
  by (simp add: list_ex_iff Bex_def) (metis nth_equalityI)

lemma bslice_nth: "i < n \<Longrightarrow> a + n \<le> length bs \<Longrightarrow> bslice a n bs ! i = bs ! (a + i)"
  by (simp add: bslice_def)

lemma before_playing:
  assumes p: "playing s es k" and a: "length args = 8" and i: "input \<noteq> [] \<Longrightarrow> buffer = Some ib" "input = take (length input) ib"
  shows "replay_before s kind args buffer (length input) out_size =
    (if k < length es \<and> call_matches (es ! k) kind args input out_size
     then (advance s (es ! k), 0, Some (call_output (es ! k), call_result (es ! k)))
     else (s\<lparr>rs_failed := True\<rparr>, -1, None))"
proof (cases "k < length es")
  case False
  then have "k = length es" using p by (simp add: playing_def)
  then have "rs_used s = rs_cursor s" using p by (simp add: playing_def log_holds_def)
  then show ?thesis using False p by (auto simp: replay_before_def playing_def)
next
  case True
  let ?e = "es ! k"
  have h: "log_holds s es" and c: "rs_cursor s = length (log_from 0 (take k es))" using p by (auto simp: playing_def)
  have ok: "replay_call_ok ?e" using h True by (auto simp: log_holds_def list_all_iff)
  note at = log_at [OF h True, folded c]
  have len: "length (rs_bytes s) = 65536" "rs_used s \<le> 65536" using h by (simp_all add: log_holds_def)
  have r: "rr_kind (call_record k ?e) = call_kind ?e" "rr_sequence (call_record k ?e) = rs_sequence s"
    "rr_reserved (call_record k ?e) = 0" "rr_arguments (call_record k ?e) = call_args ?e" "rr_result (call_record k ?e) = call_result ?e"
    using p by (simp_all add: call_record_def playing_def)
  have args: "list_ex (\<lambda>j. args ! j \<noteq> call_args ?e ! j) [0..<8] \<longleftrightarrow> args \<noteq> call_args ?e"
    using a ok by (intro list_ex_upt_nth) (auto simp: replay_call_ok_def)
  have inp: "list_ex (\<lambda>j. the buffer ! j \<noteq> rs_bytes s ! (rs_cursor s + 96 + j)) [0..<length input] \<longleftrightarrow> input \<noteq> call_input ?e"
    if "length (call_input ?e) = length input"
  proof -
    have "the buffer ! j = input ! j \<and> rs_bytes s ! (rs_cursor s + 96 + j) = call_input ?e ! j" if "j < length input" for j
    proof -
      have "the buffer = ib" using i(1) that by fastforce
      moreover have "input ! j = ib ! j" using i(2) that by (metis nth_take)
      moreover have "call_input ?e ! j = rs_bytes s ! (rs_cursor s + 96 + j)"
        using bslice_nth [of j "length input" "rs_cursor s + 96" "rs_bytes s"] at(2) at(4) len that \<open>length (call_input ?e) = length input\<close>
        by simp
      ultimately show ?thesis by simp
    qed
    then have "list_ex (\<lambda>j. the buffer ! j \<noteq> rs_bytes s ! (rs_cursor s + 96 + j)) [0..<length input] \<longleftrightarrow>
        list_ex (\<lambda>j. input ! j \<noteq> call_input ?e ! j) [0..<length input]"
      unfolding list_ex_iff by (intro bex_cong) auto
    then show ?thesis using list_ex_upt_nth [of input "length input" "call_input ?e"] that by simp
  qed
  show ?thesis
  proof (cases "kind = call_kind ?e \<and> length input = length (call_input ?e) \<and> out_size = length (call_output ?e)")
    case sizes: True
    have b: "length (call_input ?e) = 0 \<or> buffer \<noteq> None" using i(1) sizes by fastforce
    have g: "\<not> (rs_failed s \<or> rs_used s > 65536 \<or> kind > 32 \<or> length input > 8192 \<or> out_size > 8192 \<or> (length input \<noteq> 0 \<and> buffer = None))"
      "rs_mode s \<noteq> REPLAY_OFF" "rs_mode s \<noteq> REPLAY_RECORD"
      "\<not> (rs_cursor s > rs_used s \<or> rs_used s - rs_cursor s < 96)"
      "\<not> 96 + length input + out_size > rs_used s - rs_cursor s"
      using p sizes ok at(4) len b by (auto simp: playing_def replay_call_ok_def not_less)
    show ?thesis
      unfolding replay_before_def Let_def at(1) r using g sizes ok args inp True at(3) b
      by (cases "args = call_args ?e") (auto simp: call_matches_def advance_def list_ex_iff)
  next
    case False
    have "\<not> call_matches ?e kind args input out_size" using False by (auto simp: call_matches_def)
    moreover have "replay_before s kind args buffer (length input) out_size = (s\<lparr>rs_failed := True\<rparr>, -1, None)"
      unfolding replay_before_def Let_def at(1) r using False p ok by (auto simp: playing_def)
    ultimately show ?thesis by simp
  qed
qed

lemma playing_advance:
  assumes "playing s es k" "k < length es"
  shows "playing (advance s (es ! k)) es (Suc k)"
  using assms by (auto simp: playing_def advance_def log_take_Suc log_holds_def list_all_iff)


section \<open>The validator\<close>

text \<open>The logs that a session can hold: they begin with a handler, and every handler is a timer or a message.\<close>

definition call_wf :: "replay_call \<Rightarrow> bool" where
  "call_wf e \<longleftrightarrow> replay_call_ok e \<and> (call_kind e = 0 \<longrightarrow> (\<exists>now timer. timer \<le> 1 \<and> e = handler_call now timer))"

definition log_wf :: "replay_call list \<Rightarrow> bool" where
  "log_wf es \<longleftrightarrow> list_all call_wf es \<and> es \<noteq> [] \<and> call_kind (hd es) = 0"

lemma le_word_zero_iff: "length bs = 8 \<Longrightarrow> (le_word bs :: u64) = 0 \<longleftrightarrow> zero_bytes bs"
proof
  assume "length bs = 8" "(le_word bs :: u64) = 0"
  then have "bs = le_bytes 8 (0 :: u64)" using le_bytes_le_word' [of bs 8] by (metis u64_codec.enc_dec)
  then show "zero_bytes bs" by (simp add: le_bytes_zero zero_bytes_def list_all_iff)
next
  assume l: "length bs = 8" "zero_bytes bs"
  then have "bs = le_bytes 8 (0 :: u64)" unfolding le_bytes_zero by (simp add: zero_bytes_def list_all_iff replicate_eqI)
  then show "(le_word bs :: u64) = 0" using le_word_le_bytes [of 8 "0 :: u64"] by simp
qed

lemma zero_bytes_bslice:
  "zero_bytes (bslice a (m + n) bs) \<longleftrightarrow> zero_bytes (bslice a m bs) \<and> zero_bytes (bslice (a + m) n bs)"
  unfolding zero_bytes_def bslice_join [of a m bs n, symmetric] list_all_append ..

lemma eight_arguments:
  assumes "length (xs :: u64 list) = 8"
  shows "xs = [xs ! 0, xs ! 1, 0, 0, 0, 0, 0, 0] \<longleftrightarrow>
    xs ! 2 = 0 \<and> xs ! 3 = 0 \<and> xs ! 4 = 0 \<and> xs ! 5 = 0 \<and> xs ! 6 = 0 \<and> xs ! 7 = 0"
proof -
  have "length xs = Suc (Suc (Suc (Suc (Suc (Suc (Suc (Suc 0)))))))" using assms by simp
  then obtain a b c d e f g h where "xs = [a, b, c, d, e, f, g, h]" unfolding length_Suc_conv length_0_conv by blast
  then show ?thesis by simp
qed

text \<open>The tests on a handler, as bytes and as the call of the record.\<close>

lemma handler_record:
  assumes r: "length r = 96"
  defines "args \<equiv> rr_arguments (decode_replay_record r)" and "res \<equiv> rr_result (decode_replay_record r)"
  shows "read_u64_le r 24 = args ! 1"
    and "zero_bytes (bslice 32 56 r) \<longleftrightarrow> args = [args ! 0, args ! 1, 0, 0, 0, 0, 0, 0] \<and> res = 0"
proof -
  have a: "args ! i = le_word (bslice (16 + i * 8) 8 r)" if "i < 8" for i
    using that by (simp add: args_def decode_replay_record_def decode_array_nth bslice_slice)
  have l: "length args = 8" using r by (simp add: args_def decode_replay_record_def)
  show "read_u64_le r 24 = args ! 1" using r by (simp add: a read_u64_le_eq)
  have z: "zero_bytes (bslice k 8 r) \<longleftrightarrow> (le_word (bslice k 8 r) :: u64) = 0" if "k + 8 \<le> 96" for k
    using le_word_zero_iff [of "bslice k 8 r"] that r by simp
  have "zero_bytes (bslice 32 56 r) \<longleftrightarrow> zero_bytes (bslice 32 8 r) \<and> zero_bytes (bslice 40 8 r) \<and> zero_bytes (bslice 48 8 r) \<and>
      zero_bytes (bslice 56 8 r) \<and> zero_bytes (bslice 64 8 r) \<and> zero_bytes (bslice 72 8 r) \<and> zero_bytes (bslice 80 8 r)"
    using zero_bytes_bslice [of 32 8 48 r] zero_bytes_bslice [of 40 8 40 r] zero_bytes_bslice [of 48 8 32 r]
      zero_bytes_bslice [of 56 8 24 r] zero_bytes_bslice [of 64 8 16 r] zero_bytes_bslice [of 72 8 8 r] by simp
  moreover have "args = [args ! 0, args ! 1, 0, 0, 0, 0, 0, 0] \<longleftrightarrow>
      args ! 2 = 0 \<and> args ! 3 = 0 \<and> args ! 4 = 0 \<and> args ! 5 = 0 \<and> args ! 6 = 0 \<and> args ! 7 = 0"
    using l by (rule eight_arguments)
  ultimately show "zero_bytes (bslice 32 56 r) \<longleftrightarrow> args = [args ! 0, args ! 1, 0, 0, 0, 0, 0, 0] \<and> res = 0"
    by (simp add: z a) (simp add: res_def decode_replay_record_def)
qed


text \<open>The call that a record with its data stands for.\<close>

definition call_at :: "bytes \<Rightarrow> nat \<Rightarrow> replay_call" where
  "call_at b offset =
     (let r = decode_replay_record (bslice offset 96 b) in
      \<lparr>call_kind = rr_kind r, call_args = rr_arguments r, call_input = bslice (offset + 96) (unat (rr_input_size r)) b,
       call_output = bslice (offset + 96 + unat (rr_input_size r)) (unat (rr_output_size r)) b, call_result = rr_result r\<rparr>)"

definition handler_arguments :: "u64 list \<Rightarrow> bool" where
  "handler_arguments xs \<longleftrightarrow> xs = [xs ! 0, xs ! 1, 0, 0, 0, 0, 0, 0]"

definition record_wf :: "nat \<Rightarrow> replay_record \<Rightarrow> bool" where
  "record_wf n r \<longleftrightarrow> rr_kind r \<le> 32 \<and> rr_reserved r = 0 \<and> rr_sequence r = of_nat n \<and> (n = 0 \<longrightarrow> rr_kind r = 0) \<and>
     unat (rr_input_size r) \<le> 8192 \<and> unat (rr_output_size r) \<le> 8192 \<and>
     (rr_kind r = 0 \<longrightarrow> unat (rr_input_size r) = 0 \<and> unat (rr_output_size r) = 0 \<and> rr_arguments r ! 1 \<le> 1 \<and>
        handler_arguments (rr_arguments r) \<and> rr_result r = 0)"

lemma log_loop_step:
  assumes "offset + 96 \<le> len" "len \<le> length b" "n < 2 ^ 64"
  defines "r \<equiv> decode_replay_record (bslice offset 96 b)"
  shows "log_loop b len offset (of_nat n) \<longleftrightarrow> record_wf n r \<and>
    offset + 96 + (unat (rr_input_size r) + unat (rr_output_size r)) \<le> len \<and>
    log_loop b len (offset + 96 + (unat (rr_input_size r) + unat (rr_output_size r))) (of_nat (Suc n))"
proof -
  have l: "length (bslice offset 96 b) = 96" using assms by simp
  have n0: "of_nat n = (0 :: u64) \<longleftrightarrow> n = 0" using assms(3) by (simp add: word_unat_eq_iff unat_of_nat64)
  have s: "of_nat (Suc n) = (of_nat n + 1 :: u64)" by simp
  show ?thesis
    unfolding log_loop.simps [of b len offset "of_nat n"] Let_def replay_fields [OF l] handler_record [OF l] r_def [symmetric] n0 s
      handler_arguments_def [symmetric]
    using assms(1) by (auto simp: record_wf_def not_less not_le)
qed

lemma call_at_bytes:
  assumes "record_wf n (decode_replay_record (bslice offset 96 b))"
    and "offset + 96 + (unat (rr_input_size (decode_replay_record (bslice offset 96 b))) +
      unat (rr_output_size (decode_replay_record (bslice offset 96 b)))) \<le> length b"
  defines "r \<equiv> decode_replay_record (bslice offset 96 b)"
  shows "call_wf (call_at b offset)" "n = 0 \<Longrightarrow> call_kind (call_at b offset) = 0"
    and "call_bytes n (call_at b offset) = bslice offset (96 + (unat (rr_input_size r) + unat (rr_output_size r))) b"
proof -
  let ?i = "unat (rr_input_size r)" and ?o = "unat (rr_output_size r)"
  have l: "length (bslice offset 96 b) = 96" using assms(2) by simp
  have a: "length (rr_arguments r) = 8" using l by (simp add: r_def decode_replay_record_def)
  have w: "record_wf n r" using assms(1) by (simp add: r_def)
  have c: "call_at b offset = \<lparr>call_kind = rr_kind r, call_args = rr_arguments r, call_input = bslice (offset + 96) ?i b,
       call_output = bslice (offset + 96 + ?i) ?o b, call_result = rr_result r\<rparr>"
    by (simp add: call_at_def r_def Let_def)
  have len: "length (bslice (offset + 96) ?i b) = ?i" "length (bslice (offset + 96 + ?i) ?o b) = ?o"
    using assms(2) by (simp_all add: r_def)
  show "n = 0 \<Longrightarrow> call_kind (call_at b offset) = 0" using w by (simp add: c record_wf_def)
  have ok: "replay_call_ok (call_at b offset)" using w a len by (simp add: c record_wf_def replay_call_ok_def)
  have "rr_arguments r ! 1 \<le> 1 \<and> call_at b offset = handler_call (rr_arguments r ! 0) (rr_arguments r ! 1)" if "rr_kind r = 0"
  proof -
    have h: "handler_arguments (rr_arguments r)" "?i = 0" "?o = 0" "rr_result r = 0" "rr_arguments r ! 1 \<le> 1"
      using w that by (simp_all add: record_wf_def)
    have "bslice k 0 b = []" for k by (simp add: bslice_def)
    then show ?thesis using h that unfolding c handler_call_def handler_arguments_def by (metis (no_types))
  qed
  moreover have "call_kind (call_at b offset) = rr_kind r" by (simp add: c)
  ultimately show "call_wf (call_at b offset)" using ok unfolding call_wf_def by metis
  have "call_record n (call_at b offset) = r"
    using w len by (simp add: c call_record_def record_wf_def)
  then have "encode_replay_record (call_record n (call_at b offset)) = bslice offset 96 b"
    using replay_record_codec.enc_dec [OF l] by (simp add: r_def)
  then show "call_bytes n (call_at b offset) = bslice offset (96 + (?i + ?o)) b"
    unfolding call_bytes_def c by (simp add: add.assoc)
qed


lemma call_record_wf:
  assumes "call_wf e" "n = 0 \<Longrightarrow> call_kind e = 0"
  shows "record_wf n (call_record n e)"
proof -
  have ok: "replay_call_ok e" using assms(1) by (simp add: call_wf_def)
  have "rr_arguments (call_record n e) ! 1 \<le> 1 \<and> handler_arguments (rr_arguments (call_record n e)) \<and>
      unat (rr_input_size (call_record n e)) = 0 \<and> unat (rr_output_size (call_record n e)) = 0 \<and> rr_result (call_record n e) = 0"
    if "call_kind e = 0"
    using assms(1) that by (auto simp: call_wf_def call_record_def handler_call_def handler_arguments_def)
  then show ?thesis using assms(2) ok by (auto simp: record_wf_def) (auto simp: call_record_def replay_call_ok_def)
qed

lemma log_loop_iff:
  assumes "offset \<le> len" "len \<le> length b" "96 * n \<le> offset" "len \<le> 65536"
  shows "log_loop b len offset (of_nat n) \<longleftrightarrow>
    (\<exists>es. list_all call_wf es \<and> (n = 0 \<and> es \<noteq> [] \<longrightarrow> call_kind (hd es) = 0) \<and> bslice offset (len - offset) b = log_from n es)"
  using assms
proof (induction "len - offset" arbitrary: offset n rule: less_induct)
  case less
  let ?r = "decode_replay_record (bslice offset 96 b)"
  let ?next = "offset + 96 + (unat (rr_input_size ?r) + unat (rr_output_size ?r))"
  have n: "n < 2 ^ 64" using less.prems by simp
  have split: "bslice offset (len - offset) b = bslice offset (k - offset) b @ bslice k (len - k) b" if "offset \<le> k" "k \<le> len" for k
    using bslice_join [of offset "k - offset" b "len - k"] that by simp
  show ?case
  proof (cases "offset = len")
    case True
    then have "log_loop b len offset (of_nat n)" by (subst log_loop.simps) simp
    moreover have "bslice offset (len - offset) b = log_from n []" using True by (simp add: bslice_def)
    ultimately show ?thesis by (metis list.pred_inject(1))
  next
    case False
    show ?thesis (is "?L \<longleftrightarrow> (\<exists>es. ?P es)")
    proof
      assume L: ?L
      have o96: "offset + 96 \<le> len"
        using L False less.prems(1) unfolding log_loop.simps [of b len offset] by (auto split: if_splits)
      note st = log_loop_step [OF o96 less.prems(2) n, THEN iffD1, OF L]
      then have w: "record_wf n ?r" "?next \<le> len" "log_loop b len ?next (of_nat (Suc n))" by auto
      have "len - ?next < len - offset" "96 * Suc n \<le> ?next" using w(2) less.prems by auto
      from less.hyps [OF this(1) w(2) less.prems(2) this(2) less.prems(4)] w(3) obtain es where
        es: "list_all call_wf es" "bslice ?next (len - ?next) b = log_from (Suc n) es" by auto
      have "?next \<le> length b" using w(2) less.prems(2) by simp
      note c = call_at_bytes [OF w(1) this]
      have "bslice offset (len - offset) b = call_bytes n (call_at b offset) @ log_from (Suc n) es"
      proof -
        have "?next - offset = 96 + (unat (rr_input_size ?r) + unat (rr_output_size ?r))" by simp
        moreover have "bslice offset (len - offset) b = bslice offset (?next - offset) b @ bslice ?next (len - ?next) b"
          using w(2) by (intro split) simp_all
        ultimately show ?thesis unfolding es(2) c(3) by metis
      qed
      then have "?P (call_at b offset # es)" using c(1,2) es(1) by simp
      then show "\<exists>es. ?P es" ..
    next
      assume "\<exists>es. ?P es"
      then obtain es where es: "?P es" ..
      have "bslice offset (len - offset) b \<noteq> []" using False less.prems by (simp add: bslice_def)
      then obtain e es' where e: "es = e # es'" using es by (cases es) auto
      have we: "call_wf e" "list_all call_wf es'" "n = 0 \<Longrightarrow> call_kind e = 0" using es e by auto
      have ok: "replay_call_ok e" using we(1) by (simp add: call_wf_def)
      have bytes: "bslice offset (len - offset) b = encode_replay_record (call_record n e) @ call_input e @ call_output e @ log_from (Suc n) es'"
        using es e by (simp add: call_bytes_def)
      have total: "len - offset = 96 + length (call_input e) + length (call_output e) + length (log_from (Suc n) es')"
        using arg_cong [OF bytes, of length] less.prems ok by simp
      then have o96: "offset + 96 \<le> len" by simp
      have "bslice offset 96 b = take 96 (bslice offset (len - offset) b)" using total by (simp add: bslice_def min_def)
      then have r: "?r = call_record n e" unfolding bytes using ok by simp
      have nx: "?next = offset + 96 + (length (call_input e) + length (call_output e))" unfolding r using ok by simp
      have bound: "?next \<le> len" "len - ?next < len - offset" "96 * Suc n \<le> ?next" using total nx less.prems by auto
      have "bslice ?next (len - ?next) b = drop (?next - offset) (bslice offset (len - offset) b)"
        using bound(1) by (simp add: bslice_def drop_take ac_simps)
      also have "\<dots> = log_from (Suc n) es'" unfolding bytes nx using ok by simp
      finally have "log_loop b len ?next (of_nat (Suc n))"
        using less.hyps [OF bound(2,1) less.prems(2) bound(3) less.prems(4)] we(2) by auto
      moreover have "record_wf n ?r" unfolding r using call_record_wf [OF we(1,3)] .
      ultimately show ?L using log_loop_step [OF o96 less.prems(2) n] bound(1) by blast
    qed
  qed
qed

lemma validate_log_iff:
  assumes "len \<le> length b"
  shows "replay_log_validate (Some b) len \<longleftrightarrow> len \<le> 65536 \<and> (\<exists>es. log_wf es \<and> take len b = log_from 0 es)"
proof (cases "len = 0 \<or> len > 65536")
  case True
  have "log_from 0 es \<noteq> []" if "log_wf es" for es
  proof -
    have "list_all replay_call_ok es" "es \<noteq> []" using that by (auto simp: log_wf_def call_wf_def list_all_iff)
    then show ?thesis using length_log_ge [of es 0] by auto
  qed
  then have "\<not> (\<exists>es. log_wf es \<and> take len b = log_from 0 es)" if "len = 0" using that by (metis take0)
  then show ?thesis using True by (auto simp: replay_log_validate_def)
next
  case False
  then have "take len b \<noteq> []" using assms by auto
  moreover have "log_loop b len 0 0 \<longleftrightarrow> (\<exists>es. list_all call_wf es \<and> (es \<noteq> [] \<longrightarrow> call_kind (hd es) = 0) \<and> take len b = log_from 0 es)"
    using log_loop_iff [of 0 len b 0] assms False by (simp add: bslice_def)
  ultimately show ?thesis using False by (auto simp: replay_log_validate_def log_wf_def)
qed


section \<open>The validator on a recording\<close>

lemma log_from_inj:
  "list_all replay_call_ok xs \<Longrightarrow> list_all replay_call_ok ys \<Longrightarrow> log_from n xs = log_from n ys \<Longrightarrow> xs = ys"
proof (induction xs arbitrary: n ys)
  case Nil
  then show ?case using length_log_ge [of ys n] by auto
next
  case (Cons x xs)
  have "ys \<noteq> []" using Cons.prems length_log_ge [of "x # xs" n] by auto
  then obtain y zs where y: "ys = y # zs" by (cases ys) auto
  have ok: "replay_call_ok x" "replay_call_ok y" "list_all replay_call_ok xs" "list_all replay_call_ok zs" using Cons.prems y by auto
  have e: "encode_replay_record (call_record n x) @ call_input x @ call_output x @ log_from (Suc n) xs =
      encode_replay_record (call_record n y) @ call_input y @ call_output y @ log_from (Suc n) zs"
    using Cons.prems(3) y by (simp add: call_bytes_def)
  then have "encode_replay_record (call_record n x) = encode_replay_record (call_record n y)"
    using ok by (simp add: append_eq_append_conv)
  then have r: "call_record n x = call_record n y" using record_of_call(2) ok by metis
  then have l: "length (call_input x) = length (call_input y)" "length (call_output x) = length (call_output y)"
    using record_of_call(3,4) ok by metis+
  then have "call_input x = call_input y" "call_output x = call_output y" "log_from (Suc n) xs = log_from (Suc n) zs"
    using e ok by (auto simp: append_eq_append_conv)
  moreover have "x = y" using calculation r by (simp add: call_record_def)
  ultimately show ?case using Cons.IH [OF ok(3,4)] y by simp
qed

lemma validate_recording:
  assumes "log_holds s es"
  shows "replay_log_validate (Some (rs_bytes s)) (rs_used s) \<longleftrightarrow> log_wf es"
proof -
  have h: "rs_used s \<le> length (rs_bytes s)" "rs_used s \<le> 65536" "take (rs_used s) (rs_bytes s) = log_from 0 es" "list_all replay_call_ok es"
    using assms unfolding log_holds_def by auto
  have "es' = es" if "log_wf es'" "log_from 0 es = log_from 0 es'" for es'
    using log_from_inj [OF _ h(4), of es' 0] that by (auto simp: log_wf_def call_wf_def list_all_iff)
  then show ?thesis unfolding validate_log_iff [OF h(1)] h(3) using h(2) by auto
qed

end
