(* ===== verification/Syscalls.thy ===== *)
theory Syscalls
  imports Scheduler_Trace Replay_Log
begin

text \<open>
  The system calls of \<^verbatim>\<open>kernel/wasm/syscalls.c\<close>, with the argument checks of
  \<^verbatim>\<open>syscall_args.zig\<close>. The linear memory of the calling instance is a list of bytes, which a
  call returns changed. Whether the runtime lets the kernel touch a span of it is asked of the
  WebAssembly runtime, which is not part of the repository: \<open>valid_addr size offset length\<close> stands for
  \<open>wasm_runtime_validate_app_addr\<close>. Signed arguments are their bit patterns, results are integers, and
  a raised exception is the last component of a result.

  A component is registered in the domain, or it runs alone while it is set up, when its \<open>domain\<close>
  pointer is \<open>NULL\<close>. The set of running components, the store and the heap are those of the domain.
  The calls of device drivers are not modelled.
\<close>

section \<open>Arguments\<close>

definition span_fits :: "u64 \<Rightarrow> u32 \<Rightarrow> u32 \<Rightarrow> bool" where
  "span_fits limit start len = (let e = ucast start + ucast len :: u64 in if ucast start > limit then False else e \<le> limit)"

definition jani_syscall_check_span :: "u64 \<Rightarrow> u32 \<Rightarrow> u32 \<Rightarrow> bool" where
  "jani_syscall_check_span limit start len = span_fits limit start len"

definition jani_syscall_check_slot :: "u32 \<Rightarrow> u32 \<Rightarrow> bool" where
  "jani_syscall_check_slot slot_count slot = (if sint slot < 0 then False else slot < slot_count)"

definition jani_syscall_check_optional_slot :: "u32 \<Rightarrow> u32 \<Rightarrow> bool" where
  "jani_syscall_check_optional_slot slot_count slot = (if sint slot = -1 then True else jani_syscall_check_slot slot_count slot)"

definition jani_syscall_clamp_read :: "u64 \<Rightarrow> u32 \<Rightarrow> u32 \<Rightarrow> u32 option" where
  "jani_syscall_clamp_read object_size offset len =
     (if ucast offset > object_size then None
      else let remaining = object_size - ucast offset;
               clamped = (if ucast len < remaining then ucast len else remaining)
        in Some (ucast clamped))"

definition jani_syscall_deadline :: "u64 \<Rightarrow> u64 \<Rightarrow> u64 option" where
  "jani_syscall_deadline logical delay_ticks =
     (if unat logical + unat delay_ticks \<ge> 2 ^ 64 then None else Some (logical + delay_ticks))"

definition jani_syscall_check_transfer :: "u64 \<Rightarrow> u32 \<Rightarrow> u64 \<Rightarrow> u32 \<Rightarrow> u32 \<Rightarrow> bool" where
  "jani_syscall_check_transfer memory_size pointer object_size offset len =
     (if \<not> span_fits memory_size pointer len then False else span_fits object_size offset len)"

section \<open>The calling component\<close>

abbreviation SYSCALL_TRANSFER_MAX :: nat where "SYSCALL_TRANSFER_MAX \<equiv> 4096"

definition JANI_EAGAIN :: int where "JANI_EAGAIN = -4"
definition JANI_ERANGE :: int where "JANI_ERANGE = -5"

definition PROVENANCE_WRITE :: u32 where "PROVENANCE_WRITE = 2"
definition PROVENANCE_SEND :: u32 where "PROVENANCE_SEND = 3"
definition PROVENANCE_DERIVE :: u32 where "PROVENANCE_DERIVE = 4"
definition PROVENANCE_REVOKE :: u32 where "PROVENANCE_REVOKE = 5"

datatype 'i running = Registered nat | Alone "'i component"

text \<open>\<open>kn_console\<close> holds the characters that were printed.\<close>

record ('d, 'i, 'p) kernel =
  kn_domain :: "('d, 'i, 'p) capability_domain"
  kn_current :: "'i running option"
  kn_scheduler :: "scheduler option"
  kn_session :: "replay_session option"
  kn_console :: bytes

definition current_component :: "('d, 'i, 'p) kernel \<Rightarrow> 'i component option" where
  "current_component k =
     (case kn_current k of
        None \<Rightarrow> None
      | Some (Registered i) \<Rightarrow> items (components (kn_domain k)) ! i
      | Some (Alone c) \<Rightarrow> Some c)"

abbreviation this :: "('d, 'i, 'p) kernel \<Rightarrow> 'i component" where
  "this k \<equiv> the (current_component k)"

definition set_current_component :: "('d, 'i, 'p) kernel \<Rightarrow> 'i component \<Rightarrow> ('d, 'i, 'p) kernel" where
  "set_current_component k c =
     (case kn_current k of
        None \<Rightarrow> k
      | Some (Registered i) \<Rightarrow> k\<lparr>kn_domain := set_item (kn_domain k) i c\<rparr>
      | Some (Alone _) \<Rightarrow> k\<lparr>kn_current := Some (Alone c)\<rparr>)"

text \<open>The address of a registered component is its index; that of the component outside is \<open>COMPONENT_MAX\<close>.\<close>

definition current_address :: "('d, 'i, 'p) kernel \<Rightarrow> nat option" where
  "current_address k = (case kn_current k of None \<Rightarrow> None | Some (Registered i) \<Rightarrow> Some i | Some (Alone c) \<Rightarrow> Some COMPONENT_MAX)"

definition current_read ::
    "('d, 'i, 'p) kernel \<Rightarrow> object_id \<Rightarrow> (('d, 'i, 'p) kernel \<times> (object_header \<times> bytes \<times> nat) option) option" where
  "current_read k i =
     (case kn_current k of
        Some (Registered _) \<Rightarrow> map_option (\<lambda>(dm, r). (k\<lparr>kn_domain := dm\<rparr>, r)) (capability_domain_read (kn_domain k) i)
      | _ \<Rightarrow> map_option (\<lambda>(s, r). (k\<lparr>kn_domain := (kn_domain k)\<lparr>dm_store := s\<rparr>\<rparr>, r)) (object_store_get (dm_store (kn_domain k)) i))"

definition current_write ::
    "'p map_page \<Rightarrow> ('d, 'i, 'p) kernel \<Rightarrow> object_id \<Rightarrow> object_id \<Rightarrow> object_id \<Rightarrow> bytes \<Rightarrow> nat \<Rightarrow> (('d, 'i, 'p) kernel \<times> bool) option" where
  "current_write map_page k i type_id creator bytes len =
     (let request = \<lparr>rq_id = i, rq_type_id = type_id, rq_creator_id = creator, rq_modifier_id = root_id (this k),
                     rq_logical_timestamp = logical_time (this k), rq_payload = Some bytes, rq_payload_size = len\<rparr> in
      case kn_current k of
        Some (Registered _) \<Rightarrow> map_option (\<lambda>(dm, ok). (k\<lparr>kn_domain := dm\<rparr>, ok)) (capability_domain_write map_page (kn_domain k) request)
      | _ \<Rightarrow> map_option (\<lambda>(s, r). (k\<lparr>kn_domain := (kn_domain k)\<lparr>dm_store := s\<rparr>\<rparr>, r = OBJECT_STORE_BATCH_COMMITTED))
              (object_store_put_many (dm_store (kn_domain k)) [request]))"

text \<open>The offset into the linear memory that the returned pointer stands for.\<close>

type_synonym valid_addr = "nat \<Rightarrow> u64 \<Rightarrow> u64 \<Rightarrow> bool"

definition linear_memory :: "valid_addr \<Rightarrow> bytes \<Rightarrow> u32 \<Rightarrow> u32 \<Rightarrow> nat option" where
  "linear_memory valid_addr mem offset len =
     (if \<not> valid_addr (length mem) (ucast offset) (ucast len) then None else Some (unat offset))"

definition slot_object :: "('d, 'i, 'p) kernel \<Rightarrow> u32 \<Rightarrow> object_id option" where
  "slot_object k slot =
     (case current_component k of
        None \<Rightarrow> None
      | Some c \<Rightarrow>
          if \<not> jani_syscall_check_slot (capability_count c) slot then None
          else map_option cap_object (capability_table_get (cap_table c) slot))"

definition slot_allows :: "('d, 'i, 'p) kernel \<Rightarrow> u32 \<Rightarrow> u32 \<Rightarrow> ('d, 'i, 'p) kernel \<times> bool" where
  "slot_allows k slot rts =
     (case kn_current k of
        Some (Registered i) \<Rightarrow>
          let operation = (if rts = CAP_RIGHT_WRITE then PROVENANCE_WRITE else if rts = CAP_RIGHT_SEND then PROVENANCE_SEND else PROVENANCE_READ)
          in (case capability_domain_use (kn_domain k) i slot rts operation of (dm, result) \<Rightarrow> (k\<lparr>kn_domain := dm\<rparr>, result = 0))
      | _ \<Rightarrow> (k, capability_allows (capability_table_get (cap_table (this k)) slot) rts))"


section \<open>The calls\<close>

text \<open>The kernel, the linear memory, the result and whether an exception was raised. \<open>None\<close> is a call that does not return.\<close>

type_synonym ('d, 'i, 'p) outcome = "(('d, 'i, 'p) kernel \<times> bytes \<times> int \<times> bool) option"

abbreviation refuse :: "('d, 'i, 'p) kernel \<Rightarrow> bytes \<Rightarrow> int \<Rightarrow> ('d, 'i, 'p) outcome" where
  "refuse k mem err \<equiv> Some (k, mem, err, False)"

definition jani_log_live :: "valid_addr \<Rightarrow> u32 \<Rightarrow> u32 \<Rightarrow> ('d, 'i, 'p) kernel \<Rightarrow> bytes \<Rightarrow> ('d, 'i, 'p) outcome" where
  "jani_log_live va offset len k mem =
     (if unat len > SYSCALL_TRANSFER_MAX then refuse k mem JANI_EINVAL
      else case linear_memory va mem offset len of
        None \<Rightarrow> refuse k mem JANI_ERANGE
      | Some text \<Rightarrow> Some (k\<lparr>kn_console := kn_console k @ bslice text (unat len) mem\<rparr>, mem, int (unat len), False))"

definition jani_object_create_live ::
    "'p map_page \<Rightarrow> u64 \<Rightarrow> u64 \<Rightarrow> u32 \<Rightarrow> ('d, 'i, 'p) kernel \<Rightarrow> bytes \<Rightarrow> ('d, 'i, 'p) outcome" where
  "jani_object_create_live map_page type_high type_low len k mem =
     (case current_component k of
        None \<Rightarrow> refuse k mem JANI_EINVAL
      | Some c \<Rightarrow>
          if unat len > SYSCALL_TRANSFER_MAX \<or> low (root_id c) > ucast UINT32_MAX \<or> next_object_sequence c = 0 \<or>
             next_object_sequence c > ucast UINT32_MAX then refuse k mem JANI_EINVAL
          else let i = component_make_id 3 (push_bit 32 (low (root_id c)) OR next_object_sequence c) in
            case component_capability_insert c i (CAP_RIGHT_READ OR CAP_RIGHT_WRITE OR CAP_RIGHT_GRANT) 0 of
              None \<Rightarrow> refuse k mem JANI_ENOSPC
            | Some (c1, slot) \<Rightarrow>
                let k1 = set_current_component k c1;
                    undo = (\<lambda>k. set_current_component k ((this k)\<lparr>cap_table := cap_table c, capability_count := capability_count c,
                                                                 capabilities_dirty := capabilities_dirty c\<rparr>))
                in case kmalloc map_page (dm_heap (kn_domain k1)) (ucast len + 1) of
                     None \<Rightarrow> None
                   | Some (h, zeros) \<Rightarrow>
                       let k2 = k1\<lparr>kn_domain := (kn_domain k1)\<lparr>dm_heap := h\<rparr>\<rparr> in
                       if zeros = 0 then refuse (undo k2) mem JANI_ENOSPC
                       else case current_write map_page k2 i (component_make_id type_high type_low) (root_id (this k2))
                                   (replicate (unat len + 1) 0) (unat len + (if len = 0 then 1 else 0)) of
                         None \<Rightarrow> None
                       | Some (k3, stored) \<Rightarrow>
                           let k4 = k3\<lparr>kn_domain := (kn_domain k3)\<lparr>dm_heap := kfree (dm_heap (kn_domain k3)) zeros\<rparr>\<rparr> in
                           if \<not> stored then refuse (undo k4) mem JANI_ENOSPC
                           else Some (set_current_component k4 ((this k4)\<lparr>next_object_sequence := next_object_sequence (this k4) + 1\<rparr>),
                                      mem, int (unat slot), False))"

definition jani_object_read_live ::
    "valid_addr \<Rightarrow> u32 \<Rightarrow> u32 \<Rightarrow> u32 \<Rightarrow> u32 \<Rightarrow> ('d, 'i, 'p) kernel \<Rightarrow> bytes \<Rightarrow> ('d, 'i, 'p) outcome" where
  "jani_object_read_live va slot offset pointer len k mem =
     (if unat len > SYSCALL_TRANSFER_MAX then refuse k mem JANI_EINVAL
      else case slot_object k slot of
        None \<Rightarrow> refuse k mem JANI_EINVAL
      | Some i \<Rightarrow>
          (case slot_allows k slot CAP_RIGHT_READ of
             (k1, False) \<Rightarrow> refuse k1 mem JANI_EPERM
           | (k1, True) \<Rightarrow>
               (case current_read k1 i of
                  None \<Rightarrow> None
                | Some (k2, None) \<Rightarrow> refuse k2 mem JANI_ENOENT
                | Some (k2, Some (header, payload, payload_size)) \<Rightarrow>
                    (case jani_syscall_clamp_read (of_nat payload_size) offset len of
                       None \<Rightarrow> refuse k2 mem JANI_ERANGE
                     | Some clamped \<Rightarrow>
                         (case linear_memory va mem pointer clamped of
                            None \<Rightarrow> refuse k2 mem JANI_ERANGE
                          | Some destination \<Rightarrow>
                              Some (k2, if clamped \<noteq> 0 then memcpy_at mem destination (bslice (unat offset) (unat clamped) payload) else mem,
                                    int (unat clamped), False))))))"

definition jani_object_write_live ::
    "valid_addr \<Rightarrow> 'p map_page \<Rightarrow> u32 \<Rightarrow> u32 \<Rightarrow> u32 \<Rightarrow> u32 \<Rightarrow> ('d, 'i, 'p) kernel \<Rightarrow> bytes \<Rightarrow> ('d, 'i, 'p) outcome" where
  "jani_object_write_live va map_page slot offset pointer len k mem =
     (case slot_object k slot of
        None \<Rightarrow> refuse k mem JANI_EINVAL
      | Some i \<Rightarrow>
          (case slot_allows k slot CAP_RIGHT_WRITE of
             (k1, False) \<Rightarrow> refuse k1 mem JANI_EPERM
           | (k1, True) \<Rightarrow>
               if unat len > SYSCALL_TRANSFER_MAX then refuse k1 mem JANI_EINVAL
               else case current_read k1 i of
                  None \<Rightarrow> None
                | Some (k2, None) \<Rightarrow> refuse k2 mem JANI_ENOENT
                | Some (k2, Some (header, payload, payload_size)) \<Rightarrow>
                    if \<not> jani_syscall_check_span (of_nat payload_size) offset len then refuse k2 mem JANI_ERANGE
                    else case linear_memory va mem pointer len of
                      None \<Rightarrow> refuse k2 mem JANI_ERANGE
                    | Some source \<Rightarrow>
                        (case kmalloc map_page (dm_heap (kn_domain k2)) (of_nat payload_size) of
                           None \<Rightarrow> None
                         | Some (h, updated) \<Rightarrow>
                             let k3 = k2\<lparr>kn_domain := (kn_domain k2)\<lparr>dm_heap := h\<rparr>\<rparr> in
                             if updated = 0 then refuse k3 mem JANI_ENOSPC
                             else let bytes = take payload_size payload;
                                      bytes' = (if len \<noteq> 0 then memcpy_at bytes (unat offset) (bslice source (unat len) mem) else bytes)
                               in case current_write map_page k3 i (h_type_id header) (h_creator_id header) bytes' payload_size of
                                    None \<Rightarrow> None
                                  | Some (k4, stored) \<Rightarrow>
                                      let k5 = k4\<lparr>kn_domain := (kn_domain k4)\<lparr>dm_heap := kfree (dm_heap (kn_domain k4)) updated\<rparr>\<rparr> in
                                      if \<not> stored then refuse k5 mem JANI_ENOSPC else Some (k5, mem, int (unat len), False))))"

definition jani_object_size_live :: "u32 \<Rightarrow> ('d, 'i, 'p) kernel \<Rightarrow> bytes \<Rightarrow> ('d, 'i, 'p) outcome" where
  "jani_object_size_live slot k mem =
     (case slot_object k slot of
        None \<Rightarrow> refuse k mem JANI_EINVAL
      | Some i \<Rightarrow>
          (case slot_allows k slot CAP_RIGHT_READ of
             (k1, False) \<Rightarrow> refuse k1 mem JANI_EPERM
           | (k1, True) \<Rightarrow>
               (case current_read k1 i of
                  None \<Rightarrow> None
                | Some (k2, None) \<Rightarrow> refuse k2 mem JANI_ENOENT
                | Some (k2, Some (header, payload, payload_size)) \<Rightarrow> Some (k2, mem, int payload_size, False))))"

definition jani_cap_drop_live :: "u32 \<Rightarrow> ('d, 'i, 'p) kernel \<Rightarrow> bytes \<Rightarrow> ('d, 'i, 'p) outcome" where
  "jani_cap_drop_live slot k mem =
     (case slot_object k slot of
        None \<Rightarrow> refuse k mem JANI_EINVAL
      | Some i \<Rightarrow>
          (case kn_current k of
             Some (Registered c) \<Rightarrow>
               map_option (\<lambda>(dm, result). (k\<lparr>kn_domain := dm\<rparr>, mem, result, False)) (capability_domain_revoke (kn_domain k) c slot)
           | _ \<Rightarrow>
               (case component_capability_revoke (this k) slot of
                  None \<Rightarrow> refuse k mem JANI_EINVAL
                | Some c \<Rightarrow> Some (set_current_component k c, mem, 0, False))))"

definition jani_cap_derive_live :: "u32 \<Rightarrow> u32 \<Rightarrow> u32 \<Rightarrow> ('d, 'i, 'p) kernel \<Rightarrow> bytes \<Rightarrow> ('d, 'i, 'p) outcome" where
  "jani_cap_derive_live parent_slot child_rights child_badge k mem =
     (if current_component k = None \<or> \<not> jani_syscall_check_slot (capability_count (this k)) parent_slot then refuse k mem JANI_EINVAL
      else case capability_table_get (cap_table (this k)) parent_slot of
        None \<Rightarrow> refuse k mem JANI_EINVAL
      | Some parent \<Rightarrow>
          if \<not> capability_allows (Some parent) CAP_RIGHT_GRANT \<or> child_rights = 0 \<or> child_rights AND NOT CAP_RIGHT_ALL \<noteq> 0 \<or>
             child_rights AND rights parent \<noteq> child_rights then refuse k mem JANI_EPERM
          else case kn_current k of
            Some (Registered i) \<Rightarrow>
              (case capability_domain_use (kn_domain k) i parent_slot CAP_RIGHT_GRANT PROVENANCE_DERIVE of
                 (dm, result) \<Rightarrow>
                   if result \<noteq> 0 then refuse (k\<lparr>kn_domain := dm\<rparr>) mem JANI_EPERM
                   else case capability_domain_derive dm i parent_slot child_rights child_badge of
                     (dm1, result) \<Rightarrow> Some (k\<lparr>kn_domain := dm1\<rparr>, mem, result, False))
          | _ \<Rightarrow>
              (case component_capability_derive (this k) parent_slot child_rights child_badge of
                 None \<Rightarrow> refuse k mem JANI_ENOSPC
               | Some (c, child_slot) \<Rightarrow> Some (set_current_component k c, mem, int (unat child_slot), False)))"

definition jani_cap_revoke_live :: "u32 \<Rightarrow> ('d, 'i, 'p) kernel \<Rightarrow> bytes \<Rightarrow> ('d, 'i, 'p) outcome" where
  "jani_cap_revoke_live slot k mem =
     (if current_component k = None \<or> \<not> jani_syscall_check_slot (capability_count (this k)) slot then refuse k mem JANI_EINVAL
      else case capability_table_get (cap_table (this k)) slot of
        None \<Rightarrow> refuse k mem JANI_EINVAL
      | Some capability \<Rightarrow>
          if \<not> capability_allows (Some capability) CAP_RIGHT_GRANT then refuse k mem JANI_EPERM
          else case kn_current k of
            Some (Registered i) \<Rightarrow>
              (case capability_domain_use (kn_domain k) i slot CAP_RIGHT_GRANT PROVENANCE_REVOKE of
                 (dm, result) \<Rightarrow>
                   if result \<noteq> 0 then refuse (k\<lparr>kn_domain := dm\<rparr>) mem JANI_EPERM
                   else map_option (\<lambda>(dm1, result). (k\<lparr>kn_domain := dm1\<rparr>, mem, result, False)) (capability_domain_revoke dm i slot))
          | _ \<Rightarrow>
              (case component_capability_revoke (this k) slot of
                 None \<Rightarrow> refuse k mem JANI_EINVAL
               | Some c \<Rightarrow> Some (set_current_component k c, mem, 0, False)))"


text \<open>The count of sent messages stops at its greatest value.\<close>

definition count_message :: "('d, 'i, 'p) kernel \<Rightarrow> ('d, 'i, 'p) kernel" where
  "count_message k =
     (let c = this k in
      if messages_sent (metrics c) \<noteq> UINT64_MAX
      then set_current_component k (c\<lparr>metrics := (metrics c)\<lparr>messages_sent := messages_sent (metrics c) + 1\<rparr>\<rparr>) else k)"

text \<open>A component that runs alone sends to itself or to a running component, without a capability.\<close>

definition send_alone :: "valid_addr \<Rightarrow> object_id \<Rightarrow> u32 \<Rightarrow> u32 \<Rightarrow> u32 \<Rightarrow> ('d, 'i, 'p) kernel \<Rightarrow> bytes \<Rightarrow> ('d, 'i, 'p) outcome" where
  "send_alone va i pointer len capability k mem =
     (if \<not> jani_syscall_check_optional_slot (capability_count (this k)) capability then refuse k mem JANI_EINVAL
      else if sint capability \<ge> 0 \<and> capability_table_get (cap_table (this k)) capability = None then refuse k mem JANI_EINVAL
      else if object_id_equal i (root_id (this k)) then
        (case linear_memory va mem pointer len of
           None \<Rightarrow> refuse k mem JANI_ERANGE
         | Some source \<Rightarrow>
             (case component_mailbox_push (this k) (Some (drop source mem)) len capability of
                None \<Rightarrow> refuse k mem JANI_ENOSPC
              | Some c \<Rightarrow> Some (set_current_component k c, mem, 0, False)))
      else case component_set_find (components (kn_domain k)) i of
        None \<Rightarrow> refuse k mem JANI_ENOENT
      | Some recipient \<Rightarrow>
          if sint capability \<ge> 0 then refuse k mem JANI_EPERM
          else case linear_memory va mem pointer len of
            None \<Rightarrow> refuse k mem JANI_ERANGE
          | Some source \<Rightarrow>
              (case component_mailbox_push (item (kn_domain k) recipient) (Some (drop source mem)) len capability of
                 None \<Rightarrow> refuse k mem JANI_ENOSPC
               | Some c \<Rightarrow> Some (k\<lparr>kn_domain := set_item (kn_domain k) recipient c\<rparr>, mem, 0, False)))"

definition jani_message_send_live ::
    "valid_addr \<Rightarrow> u32 \<Rightarrow> u32 \<Rightarrow> u32 \<Rightarrow> u32 \<Rightarrow> u32 \<Rightarrow> u32 \<Rightarrow> ('d, 'i, 'p) kernel \<Rightarrow> bytes \<Rightarrow> ('d, 'i, 'p) outcome" where
  "jani_message_send_live va target pointer len capability rts bdg k mem =
     (case slot_object k target of
        None \<Rightarrow> refuse k mem JANI_EINVAL
      | Some i \<Rightarrow>
          (case slot_allows k target CAP_RIGHT_SEND of
             (k1, False) \<Rightarrow> refuse k1 mem JANI_EPERM
           | (k1, True) \<Rightarrow>
               if unat len > SYSCALL_TRANSFER_MAX then refuse k1 mem JANI_EINVAL
               else case linear_memory va mem pointer len of
                 None \<Rightarrow> refuse k1 mem JANI_ERANGE
               | Some source \<Rightarrow>
                   (case kn_current k1 of
                      Some (Registered c) \<Rightarrow>
                        (case capability_domain_send (kn_domain k1) c target (Some (drop source mem)) len (sint capability) rts bdg of
                           None \<Rightarrow> None
                         | Some (dm, result) \<Rightarrow>
                             let k2 = k1\<lparr>kn_domain := dm\<rparr> in
                             Some (if result = 0 then count_message k2 else k2, mem, result, False))
                    | _ \<Rightarrow>
                        if sint capability \<noteq> -1 \<or> rts \<noteq> 0 \<or> bdg \<noteq> 0 then refuse k1 mem JANI_EPERM
                        else send_alone va i pointer len capability k1 mem)))"

definition jani_message_recv_live :: "valid_addr \<Rightarrow> u32 \<Rightarrow> u32 \<Rightarrow> u32 \<Rightarrow> ('d, 'i, 'p) kernel \<Rightarrow> bytes \<Rightarrow> ('d, 'i, 'p) outcome" where
  "jani_message_recv_live va pointer len capability_out k mem =
     (if current_component k = None \<or> unat len > SYSCALL_TRANSFER_MAX then refuse k mem JANI_EINVAL
      else case linear_memory va mem pointer len of
        None \<Rightarrow> refuse k mem JANI_ERANGE
      | Some destination \<Rightarrow>
          let capability_slot = (if capability_out \<noteq> 0 then linear_memory va mem capability_out 4 else None) in
          if capability_out \<noteq> 0 \<and> capability_slot = None then refuse k mem JANI_ERANGE
          else case component_mailbox_pop (this k) True len of
            None \<Rightarrow> refuse k mem JANI_EAGAIN
          | Some (c, staging, received, capability) \<Rightarrow>
              let mem1 = (if received \<noteq> 0 then memcpy_at mem destination (take (unat received) staging) else mem);
                  mem2 = (case capability_slot of None \<Rightarrow> mem1 | Some p \<Rightarrow> memcpy_at mem1 p (le_bytes 4 capability))
              in Some (set_current_component k c, mem2, int (unat received), False))"

definition jani_timer_set_live :: "u64 \<Rightarrow> ('d, 'i, 'p) kernel \<Rightarrow> bytes \<Rightarrow> ('d, 'i, 'p) outcome" where
  "jani_timer_set_live delay_ticks k mem =
     (case current_component k of
        None \<Rightarrow> refuse k mem JANI_EINVAL
      | Some c \<Rightarrow>
          (case jani_syscall_deadline (logical_time c) delay_ticks of
             None \<Rightarrow> refuse k mem JANI_EINVAL
           | Some deadline \<Rightarrow> Some (set_current_component k (c\<lparr>timer_deadline := deadline, timer_armed := 1\<rparr>), mem, 0, False)))"

definition jani_provenance_live :: "valid_addr \<Rightarrow> u32 \<Rightarrow> u32 \<Rightarrow> u32 \<Rightarrow> u32 \<Rightarrow> ('d, 'i, 'p) kernel \<Rightarrow> bytes \<Rightarrow> ('d, 'i, 'p) outcome" where
  "jani_provenance_live va slot age pointer len k mem =
     (case kn_current k of
        Some (Registered c) \<Rightarrow>
          (if len \<noteq> 32 then refuse k mem JANI_EINVAL
           else case slot_object k slot of
             None \<Rightarrow> refuse k mem JANI_EINVAL
           | Some object \<Rightarrow>
               if \<not> capability_allows (capability_table_get (cap_table (this k)) slot) CAP_RIGHT_READ then refuse k mem JANI_EPERM
               else case linear_memory va mem pointer len of
                 None \<Rightarrow> refuse k mem JANI_ERANGE
               | Some destination \<Rightarrow>
                   (case provenance_query (provenance (kn_domain k)) object age of
                      None \<Rightarrow> refuse k mem JANI_ENOENT
                    | Some event \<Rightarrow> Some (k, memcpy_at mem destination (encode_event event), 32, False)))
      | _ \<Rightarrow> refuse k mem JANI_EINVAL)"

definition encode_metrics :: "component_metrics \<Rightarrow> bytes" where
  "encode_metrics m = le_bytes 8 (invocations m) @ le_bytes 8 (cycles m) @ le_bytes 8 (component_metrics.allocated m) @ le_bytes 8 (messages_sent m)"

definition jani_stats_live :: "valid_addr \<Rightarrow> u32 \<Rightarrow> u32 \<Rightarrow> ('d, 'i, 'p) kernel \<Rightarrow> bytes \<Rightarrow> ('d, 'i, 'p) outcome" where
  "jani_stats_live va pointer len k mem =
     (if current_component k = None \<or> len \<noteq> 32 then refuse k mem JANI_EINVAL
      else case linear_memory va mem pointer len of
        None \<Rightarrow> refuse k mem JANI_ERANGE
      | Some destination \<Rightarrow> Some (k, memcpy_at mem destination (encode_metrics (metrics (this k))), int (unat len), False))"

definition jani_trace_live :: "valid_addr \<Rightarrow> u32 \<Rightarrow> u32 \<Rightarrow> u32 \<Rightarrow> ('d, 'i, 'p) kernel \<Rightarrow> bytes \<Rightarrow> ('d, 'i, 'p) outcome" where
  "jani_trace_live va age pointer len k mem =
     (if current_component k = None \<or> len \<noteq> 40 then refuse k mem JANI_EINVAL
      else case linear_memory va mem pointer len of
        None \<Rightarrow> refuse k mem JANI_ERANGE
      | Some destination \<Rightarrow>
          (case scheduler_trace_query (kn_scheduler k) (root_id (this k)) age of
             None \<Rightarrow> refuse k mem JANI_ENOENT
           | Some event \<Rightarrow> Some (k, memcpy_at mem destination (encode_trace_event event), int (unat len), False)))"

definition jani_time_logical_live :: "('d, 'i, 'p) kernel \<Rightarrow> bytes \<Rightarrow> ('d, 'i, 'p) outcome" where
  "jani_time_logical_live k mem =
     (case current_component k of
        None \<Rightarrow> refuse k mem JANI_EINVAL
      | Some c \<Rightarrow> Some (k, mem, sint (logical_time c), False))"

definition jani_self_live :: "('d, 'i, 'p) kernel \<Rightarrow> bytes \<Rightarrow> ('d, 'i, 'p) outcome" where
  "jani_self_live k mem =
     (case current_component k of
        None \<Rightarrow> refuse k mem JANI_EINVAL
      | Some c \<Rightarrow>
          (case component_capability_find c (root_id c) of
             None \<Rightarrow> refuse k mem JANI_ENOENT
           | Some slot \<Rightarrow> Some (k, mem, int (unat slot), False)))"

definition jani_exit_live :: "u32 \<Rightarrow> ('d, 'i, 'p) kernel \<Rightarrow> bytes \<Rightarrow> ('d, 'i, 'p) outcome" where
  "jani_exit_live code k mem =
     (case current_component k of
        None \<Rightarrow> Some (k, mem, 0, False)
      | Some c \<Rightarrow> Some (set_current_component k (c\<lparr>exited := 1, exit_code := code, timer_armed := 0\<rparr>), mem, 0, True))"

section \<open>Recording and replaying calls\<close>

text \<open>
  \<open>cp_session\<close> says that the call is recorded or replayed. The arrays of the structure hold the bytes
  that are used of them; pointers into the linear memory are offsets.
\<close>

record syscall_capture =
  cp_session :: bool
  cp_input :: bytes
  cp_destination :: nat
  cp_auxiliary :: "nat option"
  cp_data_size :: nat
  cp_arguments :: "u64 list"
  cp_result :: u64
  cp_kind :: u32

definition cp_output_size :: "syscall_capture \<Rightarrow> nat" where
  "cp_output_size cp = cp_data_size cp + (if cp_auxiliary cp \<noteq> None then 4 else 0)"

text \<open>The spans of the linear memory that the structure captures.\<close>

definition capture_spans :: "valid_addr \<Rightarrow> bytes \<Rightarrow> u32 \<Rightarrow> u64 list \<Rightarrow> u32 \<Rightarrow> u32 \<Rightarrow> u32 \<Rightarrow> u32 \<Rightarrow> u32 \<Rightarrow> syscall_capture" where
  "capture_spans va mem kind args input input_length output output_length auxiliary =
     \<lparr>cp_session = True,
      cp_input = (if input_length \<noteq> 0 \<and> unat input_length \<le> SYSCALL_TRANSFER_MAX
                  then (case linear_memory va mem input input_length of None \<Rightarrow> [] | Some source \<Rightarrow> bslice source (unat input_length) mem)
                  else []),
      cp_destination = unat output,
      cp_auxiliary = (if auxiliary \<noteq> 0 then linear_memory va mem auxiliary 4 else None),
      cp_data_size = (if output_length \<noteq> 0 \<and> unat output_length \<le> SYSCALL_TRANSFER_MAX \<and> unat output \<le> length mem
                      then min (unat output_length) (length mem - unat output) else 0),
      cp_arguments = args, cp_result = 0, cp_kind = kind\<rparr>"

definition no_capture :: syscall_capture where
  "no_capture = \<lparr>cp_session = False, cp_input = [], cp_destination = 0, cp_auxiliary = None, cp_data_size = 0, cp_arguments = [],
     cp_result = 0, cp_kind = 0\<rparr>"

text \<open>The bytes of the two output spans, and their replacement.\<close>

definition captured :: "syscall_capture \<Rightarrow> bytes \<Rightarrow> bytes" where
  "captured cp mem = bslice (cp_destination cp) (cp_data_size cp) mem @
     (case cp_auxiliary cp of None \<Rightarrow> [] | Some p \<Rightarrow> bslice p 4 mem)"

definition release :: "syscall_capture \<Rightarrow> bytes \<Rightarrow> bytes \<Rightarrow> bytes" where
  "release cp output mem =
     (let mem1 = (if cp_data_size cp \<noteq> 0 then memcpy_at mem (cp_destination cp) (take (cp_data_size cp) output) else mem) in
      case cp_auxiliary cp of None \<Rightarrow> mem1 | Some p \<Rightarrow> memcpy_at mem1 p (bslice (cp_data_size cp) 4 output))"

definition capture_before ::
    "valid_addr \<Rightarrow> ('d, 'i, 'p) kernel \<Rightarrow> bytes \<Rightarrow> u32 \<Rightarrow> u64 list \<Rightarrow> u32 \<Rightarrow> u32 \<Rightarrow> u32 \<Rightarrow> u32 \<Rightarrow> u32 \<Rightarrow>
     syscall_capture \<times> ('d, 'i, 'p) kernel \<times> bytes \<times> int \<times> bool" where
  "capture_before va k mem kind args input input_length output output_length auxiliary =
     (case kn_session k of
        None \<Rightarrow> (no_capture, k, mem, 1, False)
      | Some s \<Rightarrow>
          if rs_owner s \<noteq> current_address k then (no_capture, k, mem, 1, False)
          else let cp = capture_spans va mem kind args input input_length output output_length auxiliary in
            case replay_before s kind args (Some (cp_input cp)) (length (cp_input cp)) (cp_output_size cp) of
              (s1, decision, answer) \<Rightarrow>
                let k1 = k\<lparr>kn_session := Some s1\<rparr> in
                if decision = 0 then (cp\<lparr>cp_result := snd (the answer)\<rparr>, k1, release cp (fst (the answer)) mem, 0, False)
                else if decision < 0 then (cp\<lparr>cp_result := of_int JANI_EINVAL\<rparr>, k1, mem, decision, True)
                else (cp, k1, mem, decision, False))"

definition capture_after :: "('d, 'i, 'p) kernel \<Rightarrow> bytes \<Rightarrow> syscall_capture \<Rightarrow> ('d, 'i, 'p) kernel \<times> bool" where
  "capture_after k mem cp =
     (if \<not> cp_session cp then (k, False)
      else case kn_session k of
        None \<Rightarrow> (k, False)
      | Some s \<Rightarrow>
          (case replay_after s (cp_kind cp) (cp_arguments cp) (Some (cp_input cp)) (length (cp_input cp))
                  (Some (captured cp mem)) (cp_output_size cp) (cp_result cp) of
             (s1, ok) \<Rightarrow> (k\<lparr>kn_session := Some s1\<rparr>, \<not> ok)))"

text \<open>The body that the calls share: the result is the bit pattern of the captured result.\<close>

definition with_capture ::
    "valid_addr \<Rightarrow> u32 \<Rightarrow> u64 list \<Rightarrow> u32 \<Rightarrow> u32 \<Rightarrow> u32 \<Rightarrow> u32 \<Rightarrow> u32 \<Rightarrow>
     (('d, 'i, 'p) kernel \<Rightarrow> bytes \<Rightarrow> ('d, 'i, 'p) outcome) \<Rightarrow> ('d, 'i, 'p) kernel \<Rightarrow> bytes \<Rightarrow>
     (('d, 'i, 'p) kernel \<times> bytes \<times> u64 \<times> bool) option" where
  "with_capture va kind args input input_length output output_length auxiliary call k mem =
     (case capture_before va k mem kind args input input_length output output_length auxiliary of
        (cp, k1, mem1, decision, trap) \<Rightarrow>
          if decision = 1 then
            (case call k1 mem1 of
               None \<Rightarrow> None
             | Some (k2, mem2, result, trap2) \<Rightarrow>
                 let cp1 = cp\<lparr>cp_result := of_int result\<rparr> in
                 (case capture_after k2 mem2 cp1 of (k3, trap3) \<Rightarrow> Some (k3, mem2, cp_result cp1, trap \<or> trap2 \<or> trap3)))
          else Some (k1, mem1, cp_result cp, trap))"


definition as_int32 :: "u64 \<Rightarrow> int" where "as_int32 r = sint (ucast r :: u32)"
definition as_int64 :: "u64 \<Rightarrow> int" where "as_int64 r = sint r"

definition result32 :: "(('d, 'i, 'p) kernel \<times> bytes \<times> u64 \<times> bool) option \<Rightarrow> ('d, 'i, 'p) outcome" where
  "result32 r = map_option (\<lambda>(k, mem, result, trap). (k, mem, as_int32 result, trap)) r"

definition result64 :: "(('d, 'i, 'p) kernel \<times> bytes \<times> u64 \<times> bool) option \<Rightarrow> ('d, 'i, 'p) outcome" where
  "result64 r = map_option (\<lambda>(k, mem, result, trap). (k, mem, as_int64 result, trap)) r"

definition jani_log_impl :: "valid_addr \<Rightarrow> u32 \<Rightarrow> u32 \<Rightarrow> ('d, 'i, 'p) kernel \<Rightarrow> bytes \<Rightarrow> ('d, 'i, 'p) outcome" where
  "jani_log_impl va offset len k mem =
     result32 (with_capture va 1 [ucast offset, ucast len, 0, 0, 0, 0, 0, 0] offset len 0 0 0 (jani_log_live va offset len) k mem)"

definition jani_object_create_impl ::
    "valid_addr \<Rightarrow> 'p map_page \<Rightarrow> u64 \<Rightarrow> u64 \<Rightarrow> u32 \<Rightarrow> ('d, 'i, 'p) kernel \<Rightarrow> bytes \<Rightarrow> ('d, 'i, 'p) outcome" where
  "jani_object_create_impl va map_page type_high type_low len k mem =
     result32 (with_capture va 2 [type_high, type_low, ucast len, 0, 0, 0, 0, 0] 0 0 0 0 0
       (jani_object_create_live map_page type_high type_low len) k mem)"

definition jani_object_read_impl ::
    "valid_addr \<Rightarrow> u32 \<Rightarrow> u32 \<Rightarrow> u32 \<Rightarrow> u32 \<Rightarrow> ('d, 'i, 'p) kernel \<Rightarrow> bytes \<Rightarrow> ('d, 'i, 'p) outcome" where
  "jani_object_read_impl va slot offset pointer len k mem =
     result32 (with_capture va 3 [scast slot, ucast offset, ucast pointer, ucast len, 0, 0, 0, 0] 0 0 pointer len 0
       (jani_object_read_live va slot offset pointer len) k mem)"

definition jani_object_write_impl ::
    "valid_addr \<Rightarrow> 'p map_page \<Rightarrow> u32 \<Rightarrow> u32 \<Rightarrow> u32 \<Rightarrow> u32 \<Rightarrow> ('d, 'i, 'p) kernel \<Rightarrow> bytes \<Rightarrow> ('d, 'i, 'p) outcome" where
  "jani_object_write_impl va map_page slot offset pointer len k mem =
     result32 (with_capture va 4 [scast slot, ucast offset, ucast pointer, ucast len, 0, 0, 0, 0] pointer len 0 0 0
       (jani_object_write_live va map_page slot offset pointer len) k mem)"

definition jani_object_size_impl :: "valid_addr \<Rightarrow> u32 \<Rightarrow> ('d, 'i, 'p) kernel \<Rightarrow> bytes \<Rightarrow> ('d, 'i, 'p) outcome" where
  "jani_object_size_impl va slot k mem =
     result64 (with_capture va 5 [scast slot, 0, 0, 0, 0, 0, 0, 0] 0 0 0 0 0 (jani_object_size_live slot) k mem)"

definition jani_cap_drop_impl :: "valid_addr \<Rightarrow> u32 \<Rightarrow> ('d, 'i, 'p) kernel \<Rightarrow> bytes \<Rightarrow> ('d, 'i, 'p) outcome" where
  "jani_cap_drop_impl va slot k mem =
     result32 (with_capture va 6 [scast slot, 0, 0, 0, 0, 0, 0, 0] 0 0 0 0 0 (jani_cap_drop_live slot) k mem)"

definition jani_cap_derive_impl :: "valid_addr \<Rightarrow> u32 \<Rightarrow> u32 \<Rightarrow> u32 \<Rightarrow> ('d, 'i, 'p) kernel \<Rightarrow> bytes \<Rightarrow> ('d, 'i, 'p) outcome" where
  "jani_cap_derive_impl va parent_slot child_rights child_badge k mem =
     result32 (with_capture va 7 [scast parent_slot, ucast child_rights, ucast child_badge, 0, 0, 0, 0, 0] 0 0 0 0 0
       (jani_cap_derive_live parent_slot child_rights child_badge) k mem)"

definition jani_cap_revoke_impl :: "valid_addr \<Rightarrow> u32 \<Rightarrow> ('d, 'i, 'p) kernel \<Rightarrow> bytes \<Rightarrow> ('d, 'i, 'p) outcome" where
  "jani_cap_revoke_impl va slot k mem =
     result32 (with_capture va 8 [scast slot, 0, 0, 0, 0, 0, 0, 0] 0 0 0 0 0 (jani_cap_revoke_live slot) k mem)"

definition jani_message_send_cap_impl ::
    "valid_addr \<Rightarrow> u32 \<Rightarrow> u32 \<Rightarrow> u32 \<Rightarrow> u32 \<Rightarrow> u32 \<Rightarrow> u32 \<Rightarrow> ('d, 'i, 'p) kernel \<Rightarrow> bytes \<Rightarrow> ('d, 'i, 'p) outcome" where
  "jani_message_send_cap_impl va target pointer len capability rts bdg k mem =
     result32 (with_capture va 9 [scast target, ucast pointer, ucast len, scast capability, ucast rts, ucast bdg, 0, 0] pointer len 0 0 0
       (jani_message_send_live va target pointer len capability rts bdg) k mem)"

definition jani_message_send_impl ::
    "valid_addr \<Rightarrow> u32 \<Rightarrow> u32 \<Rightarrow> u32 \<Rightarrow> u32 \<Rightarrow> ('d, 'i, 'p) kernel \<Rightarrow> bytes \<Rightarrow> ('d, 'i, 'p) outcome" where
  "jani_message_send_impl va target pointer len capability k mem = jani_message_send_cap_impl va target pointer len capability 0 0 k mem"

definition jani_message_recv_impl :: "valid_addr \<Rightarrow> u32 \<Rightarrow> u32 \<Rightarrow> u32 \<Rightarrow> ('d, 'i, 'p) kernel \<Rightarrow> bytes \<Rightarrow> ('d, 'i, 'p) outcome" where
  "jani_message_recv_impl va pointer len capability_out k mem =
     result32 (with_capture va 10 [ucast pointer, ucast len, ucast capability_out, 0, 0, 0, 0, 0] 0 0 pointer len capability_out
       (jani_message_recv_live va pointer len capability_out) k mem)"

definition jani_timer_set_impl :: "valid_addr \<Rightarrow> u64 \<Rightarrow> ('d, 'i, 'p) kernel \<Rightarrow> bytes \<Rightarrow> ('d, 'i, 'p) outcome" where
  "jani_timer_set_impl va delay_ticks k mem =
     result32 (with_capture va 11 [delay_ticks, 0, 0, 0, 0, 0, 0, 0] 0 0 0 0 0 (jani_timer_set_live delay_ticks) k mem)"

definition jani_time_logical_impl :: "valid_addr \<Rightarrow> ('d, 'i, 'p) kernel \<Rightarrow> bytes \<Rightarrow> ('d, 'i, 'p) outcome" where
  "jani_time_logical_impl va k mem = result64 (with_capture va 12 [0, 0, 0, 0, 0, 0, 0, 0] 0 0 0 0 0 jani_time_logical_live k mem)"

definition jani_self_impl :: "valid_addr \<Rightarrow> ('d, 'i, 'p) kernel \<Rightarrow> bytes \<Rightarrow> ('d, 'i, 'p) outcome" where
  "jani_self_impl va k mem = result32 (with_capture va 13 [0, 0, 0, 0, 0, 0, 0, 0] 0 0 0 0 0 jani_self_live k mem)"

definition jani_exit_impl :: "valid_addr \<Rightarrow> u32 \<Rightarrow> ('d, 'i, 'p) kernel \<Rightarrow> bytes \<Rightarrow> ('d, 'i, 'p) outcome" where
  "jani_exit_impl va code k mem =
     map_option (\<lambda>(k, mem, result, trap). (k, mem, 0, trap))
       (with_capture va 14 [scast code, 0, 0, 0, 0, 0, 0, 0] 0 0 0 0 0 (jani_exit_live code) k mem)"

definition jani_provenance_impl :: "valid_addr \<Rightarrow> u32 \<Rightarrow> u32 \<Rightarrow> u32 \<Rightarrow> u32 \<Rightarrow> ('d, 'i, 'p) kernel \<Rightarrow> bytes \<Rightarrow> ('d, 'i, 'p) outcome" where
  "jani_provenance_impl va slot age pointer len k mem =
     result32 (with_capture va 15 [scast slot, ucast age, ucast pointer, ucast len, 0, 0, 0, 0] 0 0 pointer len 0
       (jani_provenance_live va slot age pointer len) k mem)"

definition jani_stats_impl :: "valid_addr \<Rightarrow> u32 \<Rightarrow> u32 \<Rightarrow> ('d, 'i, 'p) kernel \<Rightarrow> bytes \<Rightarrow> ('d, 'i, 'p) outcome" where
  "jani_stats_impl va pointer len k mem =
     result32 (with_capture va 16 [ucast pointer, ucast len, 0, 0, 0, 0, 0, 0] 0 0 pointer len 0 (jani_stats_live va pointer len) k mem)"

definition jani_trace_impl :: "valid_addr \<Rightarrow> u32 \<Rightarrow> u32 \<Rightarrow> u32 \<Rightarrow> ('d, 'i, 'p) kernel \<Rightarrow> bytes \<Rightarrow> ('d, 'i, 'p) outcome" where
  "jani_trace_impl va age pointer len k mem =
     result32 (with_capture va 17 [ucast age, ucast pointer, ucast len, 0, 0, 0, 0, 0] 0 0 pointer len 0
       (jani_trace_live va age pointer len) k mem)"

section \<open>The table of calls\<close>

datatype syscall =
    Jani_Log u32 u32
  | Jani_Object_Create u64 u64 u32
  | Jani_Object_Read u32 u32 u32 u32
  | Jani_Object_Write u32 u32 u32 u32
  | Jani_Object_Size u32
  | Jani_Cap_Drop u32
  | Jani_Cap_Derive u32 u32 u32
  | Jani_Cap_Revoke u32
  | Jani_Message_Send u32 u32 u32 u32
  | Jani_Message_Send_Cap u32 u32 u32 u32 u32 u32
  | Jani_Provenance u32 u32 u32 u32
  | Jani_Stats u32 u32
  | Jani_Trace u32 u32 u32
  | Jani_Message_Recv u32 u32 u32
  | Jani_Timer_Set u64
  | Jani_Time_Logical
  | Jani_Self
  | Jani_Exit u32

fun jani_symbols :: "valid_addr \<Rightarrow> 'p map_page \<Rightarrow> syscall \<Rightarrow> ('d, 'i, 'p) kernel \<Rightarrow> bytes \<Rightarrow> ('d, 'i, 'p) outcome" where
  "jani_symbols va mp (Jani_Log offset len) = jani_log_impl va offset len"
| "jani_symbols va mp (Jani_Object_Create type_high type_low len) = jani_object_create_impl va mp type_high type_low len"
| "jani_symbols va mp (Jani_Object_Read slot offset pointer len) = jani_object_read_impl va slot offset pointer len"
| "jani_symbols va mp (Jani_Object_Write slot offset pointer len) = jani_object_write_impl va mp slot offset pointer len"
| "jani_symbols va mp (Jani_Object_Size slot) = jani_object_size_impl va slot"
| "jani_symbols va mp (Jani_Cap_Drop slot) = jani_cap_drop_impl va slot"
| "jani_symbols va mp (Jani_Cap_Derive slot rts bdg) = jani_cap_derive_impl va slot rts bdg"
| "jani_symbols va mp (Jani_Cap_Revoke slot) = jani_cap_revoke_impl va slot"
| "jani_symbols va mp (Jani_Message_Send target pointer len capability) = jani_message_send_impl va target pointer len capability"
| "jani_symbols va mp (Jani_Message_Send_Cap target pointer len capability rts bdg) =
     jani_message_send_cap_impl va target pointer len capability rts bdg"
| "jani_symbols va mp (Jani_Provenance slot age pointer len) = jani_provenance_impl va slot age pointer len"
| "jani_symbols va mp (Jani_Stats pointer len) = jani_stats_impl va pointer len"
| "jani_symbols va mp (Jani_Trace age pointer len) = jani_trace_impl va age pointer len"
| "jani_symbols va mp (Jani_Message_Recv pointer len capability_out) = jani_message_recv_impl va pointer len capability_out"
| "jani_symbols va mp (Jani_Timer_Set delay_ticks) = jani_timer_set_impl va delay_ticks"
| "jani_symbols va mp Jani_Time_Logical = jani_time_logical_impl va"
| "jani_symbols va mp Jani_Self = jani_self_impl va"
| "jani_symbols va mp (Jani_Exit code) = jani_exit_impl va code"

end
