(* ===== verification/Syscall_Safety.thy ===== *)
theory Syscall_Safety
  imports Syscalls
begin

text \<open>
  What every system call promises: the linear memory of the guest keeps its size and changes only in
  the spans the guest named for results, a result is an error code or lies in the range of the call,
  and a call that succeeds was allowed by a capability of the caller.
\<close>

section \<open>What a call may touch, answer and require\<close>

fun result_spans :: "syscall \<Rightarrow> (u32 \<times> nat) list" where
  "result_spans (Jani_Object_Read slot offset pointer len) = [(pointer, unat len)]"
| "result_spans (Jani_Provenance slot age pointer len) = [(pointer, unat len)]"
| "result_spans (Jani_Stats pointer len) = [(pointer, unat len)]"
| "result_spans (Jani_Trace age pointer len) = [(pointer, unat len)]"
| "result_spans (Jani_Message_Recv pointer len capability_out) =
     (pointer, unat len) # (if capability_out \<noteq> 0 then [(capability_out, 4)] else [])"
| "result_spans _ = []"

text \<open>The greatest result of a call; the size of an object has no bound.\<close>

fun result_bound :: "syscall \<Rightarrow> int option" where
  "result_bound (Jani_Log offset len) = Some (min 4096 (int (unat len)))"
| "result_bound (Jani_Object_Create type_high type_low len) = Some 15"
| "result_bound (Jani_Object_Read slot offset pointer len) = Some (min 4096 (int (unat len)))"
| "result_bound (Jani_Object_Write slot offset pointer len) = Some (min 4096 (int (unat len)))"
| "result_bound (Jani_Object_Size slot) = None"
| "result_bound (Jani_Cap_Derive slot rts bdg) = Some 15"
| "result_bound (Jani_Provenance slot age pointer len) = Some 32"
| "result_bound (Jani_Stats pointer len) = Some 32"
| "result_bound (Jani_Trace age pointer len) = Some 40"
| "result_bound (Jani_Message_Recv pointer len capability_out) = Some (min 4096 (int (unat len)))"
| "result_bound Jani_Time_Logical = None"
| "result_bound Jani_Self = Some 15"
| "result_bound _ = Some 0"

fun required_right :: "syscall \<Rightarrow> (u32 \<times> u32) option" where
  "required_right (Jani_Object_Read slot offset pointer len) = Some (slot, CAP_RIGHT_READ)"
| "required_right (Jani_Object_Write slot offset pointer len) = Some (slot, CAP_RIGHT_WRITE)"
| "required_right (Jani_Object_Size slot) = Some (slot, CAP_RIGHT_READ)"
| "required_right (Jani_Cap_Derive slot rts bdg) = Some (slot, CAP_RIGHT_GRANT)"
| "required_right (Jani_Cap_Revoke slot) = Some (slot, CAP_RIGHT_GRANT)"
| "required_right (Jani_Message_Send target pointer len capability) = Some (target, CAP_RIGHT_SEND)"
| "required_right (Jani_Message_Send_Cap target pointer len capability rts bdg) = Some (target, CAP_RIGHT_SEND)"
| "required_right (Jani_Provenance slot age pointer len) = Some (slot, CAP_RIGHT_READ)"
| "required_right _ = None"

definition memory_kept :: "(u32 \<times> nat) list \<Rightarrow> bytes \<Rightarrow> bytes \<Rightarrow> bool" where
  "memory_kept spans mem mem' \<longleftrightarrow> length mem' = length mem \<and>
     (\<forall>j<length mem. list_all (\<lambda>(p, n). j < unat p \<or> unat p + n \<le> j) spans \<longrightarrow> mem' ! j = mem ! j)"

definition in_range :: "int option \<Rightarrow> int \<Rightarrow> bool" where
  "in_range bound r \<longleftrightarrow> -6 \<le> r \<and> (case bound of None \<Rightarrow> True | Some b \<Rightarrow> r \<le> b)"

definition allowed :: "('d, 'i, 'p) kernel \<Rightarrow> u32 \<Rightarrow> u32 \<Rightarrow> bool" where
  "allowed k slot right = capability_allows (capability_table_get (cap_table (this k)) slot) right"

definition mediated :: "('d, 'i, 'p) kernel \<Rightarrow> syscall \<Rightarrow> int \<Rightarrow> bool" where
  "mediated k sc r \<longleftrightarrow> (case required_right sc of None \<Rightarrow> True | Some (slot, right) \<Rightarrow> 0 \<le> r \<longrightarrow> allowed k slot right)"

lemmas error_codes = JANI_EINVAL_def JANI_EPERM_def JANI_ENOSPC_def JANI_ENOENT_def JANI_ERANGE_def JANI_EAGAIN_def

lemma memory_kept_refl [simp]: "memory_kept spans mem mem"
  by (simp add: memory_kept_def)

lemma memory_kept_trans: "memory_kept spans m1 m2 \<Longrightarrow> memory_kept spans m2 m3 \<Longrightarrow> memory_kept spans m1 m3"
  by (auto simp: memory_kept_def)

lemma memcpy_kept:
  assumes "(p, n) \<in> set spans" "length bs \<le> n" "unat p + length bs \<le> length mem"
  shows "memory_kept spans mem (memcpy_at mem (unat p) bs)"
  using assms by (auto simp: memory_kept_def memcpy_at_def nth_append list_all_iff)

text \<open>What the runtime documents of the check of an address.\<close>

definition addr_checked :: "valid_addr \<Rightarrow> bool" where
  "addr_checked va \<longleftrightarrow> (\<forall>n p l. va n p l \<longrightarrow> unat p + unat l \<le> n)"

lemma unat_ucast_u32: "unat (ucast (x :: u32) :: u64) = unat x"
proof -
  have "unat x < 2 ^ 32" using unsigned_less [of x, where 'a = nat] by simp
  then have "unat x < 2 ^ 64" by simp
  then show ?thesis by (simp add: unsigned_ucast_eq take_bit_nat_eq_self)
qed

lemma linear_memory_Some:
  assumes "addr_checked va" "linear_memory va mem p l = Some q"
  shows "q = unat p \<and> unat p + unat l \<le> length mem"
proof -
  have v: "va (length mem) (ucast p) (ucast l)" and q: "q = unat p" using assms(2) by (auto simp: linear_memory_def split: if_splits)
  have "unat (ucast p :: u64) = unat p" "unat (ucast l :: u64) = unat l" by (rule unat_ucast_u32)+
  then show ?thesis using assms(1) v q unfolding addr_checked_def by metis
qed

lemma slot_allows_True:
  assumes "slot_allows k slot r = (k1, True)"
  shows "allowed k slot r"
  using assms
  by (auto simp: slot_allows_def allowed_def current_component_def capability_domain_use_def error_codes Let_def
      split: option.splits running.splits if_splits prod.splits)

lemma table_slot_less:
  "capability_table_find t i = Some s \<Longrightarrow> uint s \<le> 15"
  "capability_table_insert_root t c = Some (t', s) \<Longrightarrow> uint s \<le> 15"
  "capability_table_derive t p r b = Some (t', s) \<Longrightarrow> uint s \<le> 15"
proof -
  have u: "uint (of_nat n :: u32) \<le> 15" if "n < 16" for n
    using that by (simp add: uint_nat unat_of_nat del: unat_eq_nat_uint)
  show "capability_table_find t i = Some s \<Longrightarrow> uint s \<le> 15"
    by (auto simp: capability_table_find_def split: if_splits dest!: find_upt_Some(1) intro: u)
  show "capability_table_insert_root t c = Some (t', s) \<Longrightarrow> uint s \<le> 15"
    by (auto simp: capability_table_insert_root_def split: if_splits option.splits dest!: claim_slot_Some(1) intro: u)
  show "capability_table_derive t p r b = Some (t', s) \<Longrightarrow> uint s \<le> 15"
    by (auto simp: capability_table_derive_def split: option.splits dest!: claim_slot_Some(1) intro: u)
qed


section \<open>One lemma for every call\<close>

text \<open>What a call leaves alone: the session, the scheduler and who is running.\<close>

definition kernel_frame :: "('d, 'i, 'p) kernel \<Rightarrow> replay_session option \<times> scheduler option \<times> nat option" where
  "kernel_frame k = (kn_session k, kn_scheduler k, current_address k)"

lemma kernel_frame_simps [simp]:
  "kernel_frame (k\<lparr>kn_domain := dm\<rparr>) = kernel_frame k"
  "kernel_frame (k\<lparr>kn_console := out\<rparr>) = kernel_frame k"
  "kernel_frame (set_current_component k c) = kernel_frame k"
  by (auto simp: kernel_frame_def current_address_def set_current_component_def split: option.splits running.splits)

definition call_safe :: "('d, 'i, 'p) kernel \<Rightarrow> bytes \<Rightarrow> syscall \<Rightarrow> ('d, 'i, 'p) outcome \<Rightarrow> bool" where
  "call_safe k mem sc out \<longleftrightarrow>
     (\<forall>k' mem' r trap. out = Some (k', mem', r, trap) \<longrightarrow>
        memory_kept (result_spans sc) mem mem' \<and> (sc \<noteq> Jani_Time_Logical \<longrightarrow> in_range (result_bound sc) r) \<and> mediated k sc r \<and>
        kernel_frame k' = kernel_frame k)"

definition error_code :: "int \<Rightarrow> bool" where
  "error_code e \<longleftrightarrow> -6 \<le> e \<and> e < 0"

lemma error_code_simps [simp]:
  "error_code JANI_EINVAL" "error_code JANI_EPERM" "error_code JANI_ENOSPC" "error_code JANI_ENOENT" "error_code JANI_ERANGE" "error_code JANI_EAGAIN"
  by (simp_all add: error_code_def error_codes)

lemma result_bound_nonneg: "result_bound sc = Some b \<Longrightarrow> 0 \<le> b"
  by (cases sc) auto

text \<open>A call is safe when every leaf of its case analysis is.\<close>

lemma safe_cases:
  "call_safe k mem sc None"
  "(P \<Longrightarrow> call_safe k mem sc a) \<Longrightarrow> (\<not> P \<Longrightarrow> call_safe k mem sc b) \<Longrightarrow> call_safe k mem sc (if P then a else b)"
  "(x = None \<Longrightarrow> call_safe k mem sc a) \<Longrightarrow> (\<And>y. x = Some y \<Longrightarrow> call_safe k mem sc (f y)) \<Longrightarrow>
     call_safe k mem sc (case x of None \<Rightarrow> a | Some y \<Rightarrow> f y)"
  "(\<And>y z. p = (y, z) \<Longrightarrow> call_safe k mem sc (g y z)) \<Longrightarrow> call_safe k mem sc (case p of (y, z) \<Rightarrow> g y z)"
  "(B \<Longrightarrow> call_safe k mem sc a) \<Longrightarrow> (\<not> B \<Longrightarrow> call_safe k mem sc b) \<Longrightarrow> call_safe k mem sc (case B of True \<Rightarrow> a | False \<Rightarrow> b)"
  "(\<And>i. w = Registered i \<Longrightarrow> call_safe k mem sc (h i)) \<Longrightarrow> (\<And>c. w = Alone c \<Longrightarrow> call_safe k mem sc (l c)) \<Longrightarrow>
     call_safe k mem sc (case w of Registered i \<Rightarrow> h i | Alone c \<Rightarrow> l c)"
  "(\<And>y z. p = (y, z) \<Longrightarrow> call_safe k mem sc (Some (u y z))) \<Longrightarrow> call_safe k mem sc (Some (case p of (y, z) \<Rightarrow> u y z))"
  by (auto simp: call_safe_def split: option.split prod.split bool.split running.split)

lemma safe_result:
  assumes "memory_kept (result_spans sc) mem mem'" "kernel_frame k' = kernel_frame k"
    "error_code r \<or> sc = Jani_Time_Logical \<or> 0 \<le> r \<and> (\<forall>b. result_bound sc = Some b \<longrightarrow> r \<le> b) \<and>
       (\<forall>slot right. required_right sc = Some (slot, right) \<longrightarrow> allowed k slot right)"
  shows "call_safe k mem sc (Some (k', mem', r, t))"
  using assms
  by (auto simp: call_safe_def in_range_def mediated_def error_code_def split: option.split dest: result_bound_nonneg)

lemma slot_allows_session:
  "slot_allows k slot r = (k1, b) \<Longrightarrow> kernel_frame k1 = kernel_frame k \<and> kn_current k1 = kn_current k \<and> (b \<longrightarrow> allowed k slot r)"
  using slot_allows_True [of k slot r k1]
  by (cases b) (simp_all add: slot_allows_def Let_def split: option.splits running.splits prod.splits, (clarsimp+)?)

lemma current_read_session: "current_read k i = Some (k1, x) \<Longrightarrow> kernel_frame k1 = kernel_frame k \<and> kn_current k1 = kn_current k"
  by (auto simp: current_read_def split: option.splits running.splits)

lemma current_write_session: "current_write mp k i t c b n = Some (k1, x) \<Longrightarrow> kernel_frame k1 = kernel_frame k \<and> kn_current k1 = kn_current k"
  by (auto simp: current_write_def Let_def split: option.splits running.splits)

lemmas kernel_frames = slot_allows_session current_read_session current_write_session

lemma uint_transfer [simp]: "uint (x :: u32) \<le> 4096 \<longleftrightarrow> unat x \<le> 4096"
  unfolding uint_nat by presburger

lemmas safe_rules = safe_cases safe_result

lemma log_safe: "call_safe k mem (Jani_Log offset len) (jani_log_live va offset len k mem)"
  unfolding jani_log_live_def by (intro safe_rules; simp)

lemma create_safe: "call_safe k mem (Jani_Object_Create type_high type_low len) (jani_object_create_live mp type_high type_low len k mem)"
proof -
  have sl: "uint s \<le> 15" if "component_capability_insert c i r b = Some (c1, s)" for c c1 :: "'b component" and i r b s
    using that by (auto simp: component_capability_insert_def Let_def split: if_splits option.splits dest!: table_slot_less(1,2))
  show ?thesis
    unfolding jani_object_create_live_def Let_def by (intro safe_rules) (auto dest!: kernel_frames sl)
qed

lemma clamp_le:
  assumes "jani_syscall_clamp_read n offset len = Some clamped"
  shows "unat clamped \<le> unat len \<and> uint clamped \<le> uint len"
proof -
  obtain c :: u64 where c: "clamped = ucast c" "c \<le> ucast len"
    using assms by (auto simp: jani_syscall_clamp_read_def Let_def split: if_splits)
  have "unat clamped \<le> unat c" unfolding c(1) by (simp add: unsigned_ucast_eq)
  also have "\<dots> \<le> unat len" using c(2) by (simp add: word_le_unat unat_ucast_u32)
  finally have *: "unat clamped \<le> unat len" .
  then have "uint clamped \<le> uint len" unfolding word_le_unat [symmetric] word_le_def .
  then show ?thesis using * by simp
qed

lemma read_safe:
  assumes va: "addr_checked va"
  shows "call_safe k mem (Jani_Object_Read slot offset pointer len) (jani_object_read_live va slot offset pointer len k mem)"
  unfolding jani_object_read_live_def
  by (intro safe_rules)
    (auto intro!: memcpy_kept simp: bslice_def dest!: linear_memory_Some [OF va] clamp_le dest!: kernel_frames)

lemma write_safe: "call_safe k mem (Jani_Object_Write slot offset pointer len) (jani_object_write_live va mp slot offset pointer len k mem)"
  unfolding jani_object_write_live_def Let_def
  by (intro safe_rules) (auto dest!: kernel_frames)

lemma size_safe: "call_safe k mem (Jani_Object_Size slot) (jani_object_size_live slot k mem)"
  unfolding jani_object_size_live_def by (intro safe_rules) (auto dest!: kernel_frames)

lemma revoke_code: "capability_domain_revoke dm i slot = Some (dm', r) \<Longrightarrow> r = 0 \<or> error_code r"
  by (auto simp: capability_domain_revoke_def Let_def split: if_splits option.splits)

lemma derive_code: "capability_domain_derive dm i slot r b = (dm', n) \<Longrightarrow> error_code n \<or> 0 \<le> n \<and> n \<le> 15"
  by (auto simp: capability_domain_derive_def Let_def split: if_splits option.splits bool.splits prod.splits dest!: table_slot_less(3))

lemma deliver_code: "deliver dm c p len g = (dm', n) \<Longrightarrow> n = 0 \<or> error_code n"
  by (auto simp: deliver_def Let_def split: option.splits)

lemma send_code: "capability_domain_send dm i target p len src r b = Some (dm', n) \<Longrightarrow> n = 0 \<or> error_code n"
  by (auto simp: capability_domain_send_def stage_grant_def Let_def
      split: if_splits option.splits sum.splits bool.splits prod.splits dest: deliver_code)

lemma drop_safe: "call_safe k mem (Jani_Cap_Drop slot) (jani_cap_drop_live slot k mem)"
  unfolding jani_cap_drop_live_def map_option_case
  by (intro safe_rules) (auto dest: revoke_code)

lemma derive_safe: "call_safe k mem (Jani_Cap_Derive slot rts bdg) (jani_cap_derive_live slot rts bdg k mem)"
  unfolding jani_cap_derive_live_def
  by (intro safe_rules) (auto simp: allowed_def component_capability_derive_def dest: derive_code table_slot_less(3) split: if_splits option.splits)

lemma revoke_safe: "call_safe k mem (Jani_Cap_Revoke slot) (jani_cap_revoke_live slot k mem)"
  unfolding jani_cap_revoke_live_def map_option_case
  by (intro safe_rules) (auto simp: allowed_def dest: revoke_code)

lemma timer_safe: "call_safe k mem (Jani_Timer_Set delay_ticks) (jani_timer_set_live delay_ticks k mem)"
  unfolding jani_timer_set_live_def by (intro safe_rules) auto

lemma time_safe: "call_safe k mem Jani_Time_Logical (jani_time_logical_live k mem)"
  unfolding jani_time_logical_live_def by (intro safe_rules) auto

lemma self_safe: "call_safe k mem Jani_Self (jani_self_live k mem)"
  unfolding jani_self_live_def by (intro safe_rules) (auto simp: component_capability_find_def dest: table_slot_less(1))

lemma exit_safe: "call_safe k mem (Jani_Exit code) (jani_exit_live code k mem)"
  unfolding jani_exit_live_def by (intro safe_rules) auto


lemma count_message_frame [simp]: "kernel_frame (count_message k) = kernel_frame k"
  by (simp add: count_message_def Let_def)

lemma send_alone_safe:
  assumes "allowed k0 target CAP_RIGHT_SEND" "kernel_frame k = kernel_frame k0"
    "result_spans sc = []" "result_bound sc = Some 0" "required_right sc = Some (target, CAP_RIGHT_SEND)"
  shows "call_safe k0 mem sc (send_alone va i pointer len capability k mem)"
  unfolding send_alone_def by (intro safe_rules) (auto simp: assms)

lemma send_safe:
  assumes "result_spans sc = []" "result_bound sc = Some 0" "required_right sc = Some (target, CAP_RIGHT_SEND)"
  shows "call_safe k mem sc (jani_message_send_live va target pointer len capability rts bdg k mem)"
  unfolding jani_message_send_live_def Let_def
  by (intro safe_rules send_alone_safe [where target = target]) (auto simp: assms dest!: kernel_frames dest: send_code)

lemma recv_safe:
  assumes va: "addr_checked va"
  shows "call_safe k mem (Jani_Message_Recv pointer len capability_out) (jani_message_recv_live va pointer len capability_out k mem)"
proof -
  let ?spans = "[(pointer, unat len), (capability_out, 4)]"
  have pop: "unat received \<le> unat len \<and> uint received \<le> uint len"
    if "component_mailbox_pop c True len = Some (c', staging, received, capability)" for c c' :: "'b component" and staging received capability
  proof -
    have "\<not> received > len" using that by (auto simp: component_mailbox_pop_def Let_def split: if_splits)
    then show ?thesis by (simp add: not_less word_le_def) (simp add: word_le_unat [symmetric] word_le_def)
  qed
  have first: "memory_kept ((pointer, unat len) # spans) mem (memcpy_at mem (unat pointer) (take (unat received) staging))"
    if "unat received \<le> unat len" "unat pointer + unat len \<le> length mem" for received :: u32 and staging spans
    using that by (intro memcpy_kept [of pointer "unat len"]) auto
  have second: "memory_kept ?spans mem (memcpy_at m (unat capability_out) (le_bytes 4 capability))"
    if "memory_kept ?spans mem m" "unat capability_out + 4 \<le> length mem" for m and capability :: u32
    using that by (intro memory_kept_trans [OF that(1)] memcpy_kept [of capability_out 4]) (auto simp: memory_kept_def)
  show ?thesis
    unfolding jani_message_recv_live_def Let_def
    by (intro safe_rules)
      (auto dest!: linear_memory_Some [OF va] pop intro!: first second split: option.split)
qed

lemma provenance_safe:
  assumes va: "addr_checked va"
  shows "call_safe k mem (Jani_Provenance slot age pointer len) (jani_provenance_live va slot age pointer len k mem)"
proof -
  have "length (encode_event e) = 32" for e by (simp add: event_codec.enc_length)
  then show ?thesis
    unfolding jani_provenance_live_def
    by - (intro safe_rules; auto simp: allowed_def dest!: linear_memory_Some [OF va] intro!: memcpy_kept)
qed

lemma stats_safe:
  assumes va: "addr_checked va"
  shows "call_safe k mem (Jani_Stats pointer len) (jani_stats_live va pointer len k mem)"
  unfolding jani_stats_live_def
  by (intro safe_rules) (auto simp: encode_metrics_def dest!: linear_memory_Some [OF va] intro!: memcpy_kept)

lemma trace_safe:
  assumes va: "addr_checked va"
  shows "call_safe k mem (Jani_Trace age pointer len) (jani_trace_live va age pointer len k mem)"
proof -
  have "length (encode_trace_event e) = 40" for e by (simp add: encode_trace_event_def id_codec.enc_length)
  then show ?thesis
    unfolding jani_trace_live_def
    by - (intro safe_rules; auto dest!: linear_memory_Some [OF va] intro!: memcpy_kept)
qed


section \<open>Calls that are recorded or replayed\<close>

definition not_playing :: "('d, 'i, 'p) kernel \<Rightarrow> bool" where
  "not_playing k \<longleftrightarrow> (\<forall>s. kn_session k = Some s \<longrightarrow> rs_mode s \<noteq> REPLAY_PLAY)"

lemma replay_before_cases:
  assumes "replay_before s kind args input n m = (s', d, a)"
  obtains (live) "d = 1" "s' = s" "a = None" "rs_mode s \<noteq> REPLAY_PLAY"
  | (log) b r where "d = 0" "rs_mode s = REPLAY_PLAY" "a = Some (b, r)" "length b \<le> m"
  | (fail) "d = -1" "a = None" "s' = s\<lparr>rs_failed := True\<rparr>"
  using assms by (cases "rs_mode s") (auto simp: replay_before_def Let_def bslice_def split: if_splits)

lemma release_kept:
  assumes va: "addr_checked va" and spans: "output_length \<noteq> 0 \<Longrightarrow> (output, unat output_length) \<in> set spans" "auxiliary \<noteq> 0 \<Longrightarrow> (auxiliary, 4) \<in> set spans"
  shows "memory_kept spans mem (release (capture_spans va mem kind args input input_length output output_length auxiliary) bs mem)"
proof -
  let ?cp = "capture_spans va mem kind args input input_length output output_length auxiliary"
  define m1 where "m1 = (if cp_data_size ?cp \<noteq> 0 then memcpy_at mem (cp_destination ?cp) (take (cp_data_size ?cp) bs) else mem)"
  have 1: "memory_kept spans mem m1"
  proof (cases "cp_data_size ?cp = 0")
    case False
    then have d: "output_length \<noteq> 0" "cp_destination ?cp = unat output" "cp_data_size ?cp \<le> unat output_length"
      "unat output + cp_data_size ?cp \<le> length mem"
      by (auto simp: capture_spans_def split: if_splits)
    then show ?thesis using False spans(1) by (auto simp: m1_def intro!: memcpy_kept)
  qed (simp add: m1_def)
  show ?thesis
  proof (cases "cp_auxiliary ?cp")
    case None
    then show ?thesis using 1 by (simp add: release_def m1_def)
  next
    case (Some p)
    then have aux: "auxiliary \<noteq> 0" "linear_memory va mem auxiliary 4 = Some p" by (auto simp: capture_spans_def split: if_splits)
    note p = linear_memory_Some [OF va aux(2)]
    have len: "length m1 = length mem" using 1 by (simp add: memory_kept_def)
    have "memory_kept spans m1 (memcpy_at m1 (unat auxiliary) (bslice (cp_data_size ?cp) 4 bs))"
      using spans(2) [OF aux(1)] p len by (intro memcpy_kept) (auto simp: bslice_def)
    then have "memory_kept spans mem (memcpy_at m1 p (bslice (cp_data_size ?cp) 4 bs))" using p memory_kept_trans [OF 1] by simp
    moreover have "release ?cp bs mem = memcpy_at m1 p (bslice (cp_data_size ?cp) 4 bs)" by (simp add: release_def m1_def Some Let_def)
    ultimately show ?thesis by simp
  qed
qed

text \<open>The result of a call that is not answered from a log is that of the live call, or \<open>JANI_EINVAL\<close>.\<close>

lemma capture_safe:
  assumes va: "addr_checked va" and call: "\<And>k mem. call_safe k mem sc (call k mem)"
    and spans: "output_length \<noteq> 0 \<Longrightarrow> (output, unat output_length) \<in> set (result_spans sc)" "auxiliary \<noteq> 0 \<Longrightarrow> (auxiliary, 4) \<in> set (result_spans sc)"
    and out: "with_capture va kind args input input_length output output_length auxiliary call k mem = Some (k', mem', w, trap)"
  shows "memory_kept (result_spans sc) mem mem'"
    and "not_playing k \<Longrightarrow> \<exists>r. w = of_int r \<and> (sc \<noteq> Jani_Time_Logical \<longrightarrow> in_range (result_bound sc) r) \<and> mediated k sc r"
proof -
  let ?cp = "capture_spans va mem kind args input input_length output output_length auxiliary"
  have direct: "memory_kept (result_spans sc) mem mem' \<and> (\<exists>r. w = of_int r \<and> (sc \<noteq> Jani_Time_Logical \<longrightarrow> in_range (result_bound sc) r) \<and> mediated k sc r)"
    if "call k mem = Some (k2, mem', result, t)" "w = of_int result" for k2 result t
    using call [of k mem] that by (auto simp: call_safe_def)
  have "memory_kept (result_spans sc) mem mem' \<and> (not_playing k \<longrightarrow> (\<exists>r. w = of_int r \<and> (sc \<noteq> Jani_Time_Logical \<longrightarrow> in_range (result_bound sc) r) \<and> mediated k sc r))"
  proof (cases "kn_session k = None \<or> rs_owner (the (kn_session k)) \<noteq> current_address k")
    case True
    then have "capture_before va k mem kind args input input_length output output_length auxiliary = (no_capture, k, mem, 1, False)"
      by (cases "kn_session k") (auto simp: capture_before_def)
    then show ?thesis using out direct
      by (auto simp: with_capture_def capture_after_def no_capture_def Let_def split: option.splits prod.splits)
  next
    case False
    then obtain s where s: "kn_session k = Some s" "rs_owner s = current_address k" by auto
    obtain s1 d a where b: "replay_before s kind args (Some (cp_input ?cp)) (length (cp_input ?cp)) (cp_output_size ?cp) = (s1, d, a)"
      by (cases "replay_before s kind args (Some (cp_input ?cp)) (length (cp_input ?cp)) (cp_output_size ?cp)") auto
    from b show ?thesis
    proof (cases rule: replay_before_cases)
      case live
      then have "k\<lparr>kn_session := Some s1\<rparr> = k" using s by (cases k) auto
      then have "capture_before va k mem kind args input input_length output output_length auxiliary = (?cp, k, mem, 1, False)"
        using s b live by (simp add: capture_before_def Let_def)
      then show ?thesis using out direct
        by (auto simp: with_capture_def Let_def split: option.splits prod.splits)
    next
      case (log bs r)
      then have "capture_before va k mem kind args input input_length output output_length auxiliary =
          (?cp\<lparr>cp_result := r\<rparr>, k\<lparr>kn_session := Some s1\<rparr>, release ?cp bs mem, 0, False)"
        using s b by (simp add: capture_before_def Let_def)
      then have "mem' = release ?cp bs mem" using out by (simp add: with_capture_def)
      then show ?thesis using release_kept [OF va spans] s(1) log(2) by (auto simp: not_playing_def)
    next
      case fail
      then have "capture_before va k mem kind args input input_length output output_length auxiliary =
          (?cp\<lparr>cp_result := of_int JANI_EINVAL\<rparr>, k\<lparr>kn_session := Some s1\<rparr>, mem, -1, True)"
        using s b by (simp add: capture_before_def Let_def)
      then have "mem' = mem" "w = of_int JANI_EINVAL" using out by (auto simp: with_capture_def)
      moreover have "in_range (result_bound sc) JANI_EINVAL" "mediated k sc JANI_EINVAL"
        using result_bound_nonneg by (auto simp: in_range_def mediated_def JANI_EINVAL_def split: option.split) fastforce
      ultimately show ?thesis by auto
    qed
  qed
  then show "memory_kept (result_spans sc) mem mem'"
    "not_playing k \<Longrightarrow> \<exists>r. w = of_int r \<and> (sc \<noteq> Jani_Time_Logical \<longrightarrow> in_range (result_bound sc) r) \<and> mediated k sc r" by auto
qed


lemma as_int_of_int:
  "-6 \<le> r \<Longrightarrow> r < 2 ^ 31 \<Longrightarrow> as_int32 (of_int r) = r"
  "-6 \<le> r \<Longrightarrow> r < 2 ^ 63 \<Longrightarrow> as_int64 (of_int r) = r"
proof -
  assume "-6 \<le> r" "r < 2 ^ 31"
  moreover have "ucast (of_int r :: u64) = (of_int r :: u32)" by (rule bit_word_eqI) (simp add: bit_simps)
  ultimately show "as_int32 (of_int r) = r" by (simp add: as_int32_def signed_of_int signed_take_bit_int_eq_self)
next
  assume "-6 \<le> r" "r < 2 ^ 63"
  then show "as_int64 (of_int r) = r" by (simp add: as_int64_def signed_of_int signed_take_bit_int_eq_self)
qed

lemma result_bound_le: "result_bound sc = Some b \<Longrightarrow> b \<le> 4096"
  by (cases sc) (auto split: if_splits)


definition symbol_safe :: "('d, 'i, 'p) kernel \<Rightarrow> bytes \<Rightarrow> syscall \<Rightarrow> ('d, 'i, 'p) outcome \<Rightarrow> bool" where
  "symbol_safe k mem sc out \<longleftrightarrow>
     (\<forall>k' mem' r trap. out = Some (k', mem', r, trap) \<longrightarrow>
        memory_kept (result_spans sc) mem mem' \<and>
        (not_playing k \<longrightarrow> (\<forall>b. result_bound sc = Some b \<longrightarrow> -6 \<le> r \<and> r \<le> b) \<and> mediated k sc r))"

lemma symbol32:
  assumes "addr_checked va" "\<And>k mem. call_safe k mem sc (call k mem)" "result_bound sc = Some b" "sc \<noteq> Jani_Time_Logical"
    "output_length \<noteq> 0 \<Longrightarrow> (output, unat output_length) \<in> set (result_spans sc)" "auxiliary \<noteq> 0 \<Longrightarrow> (auxiliary, 4) \<in> set (result_spans sc)"
  shows "symbol_safe k mem sc (result32 (with_capture va kind args input input_length output output_length auxiliary call k mem))"
  unfolding symbol_safe_def
proof (intro allI impI)
  fix k' mem' r trap
  assume "result32 (with_capture va kind args input input_length output output_length auxiliary call k mem) = Some (k', mem', r, trap)"
  then obtain w where w: "with_capture va kind args input input_length output output_length auxiliary call k mem = Some (k', mem', w, trap)"
    "r = as_int32 w" by (auto simp: result32_def)
  have c: "memory_kept (result_spans sc) mem mem'"
    "not_playing k \<Longrightarrow> \<exists>r. w = of_int r \<and> (sc \<noteq> Jani_Time_Logical \<longrightarrow> in_range (result_bound sc) r) \<and> mediated k sc r"
    using capture_safe [OF assms(1,2) _ _ w(1)] assms(5,6) by auto
  have "(\<forall>b. result_bound sc = Some b \<longrightarrow> -6 \<le> r \<and> r \<le> b) \<and> mediated k sc r" if np: "not_playing k"
  proof -
    obtain r' where r': "w = of_int r'" "-6 \<le> r'" "r' \<le> b" "mediated k sc r'"
      using c(2) [OF np] assms(3,4) by (auto simp: in_range_def)
    then have "r = r'" using as_int_of_int(1) [of r'] result_bound_le [OF assms(3)] w(2) by simp
    then show ?thesis using r' assms(3) by simp
  qed
  then show "memory_kept (result_spans sc) mem mem' \<and>
      (not_playing k \<longrightarrow> (\<forall>b. result_bound sc = Some b \<longrightarrow> -6 \<le> r \<and> r \<le> b) \<and> mediated k sc r)"
    using c(1) by blast
qed

lemma symbol64:
  assumes "addr_checked va" "\<And>k mem. call_safe k mem sc (call k mem)" "result_bound sc = None" "sc = Jani_Time_Logical \<or> result_spans sc = []"
  shows "symbol_safe k mem sc (result64 (with_capture va kind args 0 0 0 0 0 call k mem))"
  unfolding symbol_safe_def
proof (intro allI impI)
  fix k' mem' r trap
  assume "result64 (with_capture va kind args 0 0 0 0 0 call k mem) = Some (k', mem', r, trap)"
  then obtain w where w: "with_capture va kind args 0 0 0 0 0 call k mem = Some (k', mem', w, trap)"
    "r = as_int64 w" by (auto simp: result64_def)
  have "memory_kept (result_spans sc) mem mem'"
    and p: "not_playing k \<Longrightarrow> \<exists>r. w = of_int r \<and> (sc \<noteq> Jani_Time_Logical \<longrightarrow> in_range (result_bound sc) r) \<and> mediated k sc r"
    using capture_safe [OF assms(1,2) _ _ w(1)] by auto
  moreover have "mediated k sc r" if np: "not_playing k"
  proof -
    obtain r' where r': "w = of_int r'" "sc \<noteq> Jani_Time_Logical \<longrightarrow> -6 \<le> r'" "mediated k sc r'"
      using p [OF np] by (auto simp: in_range_def)
    show ?thesis
    proof (cases "sc = Jani_Time_Logical \<or> 0 \<le> r'")
      case True
      then show ?thesis using r'(3) by (auto simp: mediated_def split: option.splits)
    next
      case False
      then have "r = r'" using as_int_of_int(2) [of r'] r' w(2) by simp
      then show ?thesis using r'(3) by simp
    qed
  qed
  ultimately show "memory_kept (result_spans sc) mem mem' \<and>
      (not_playing k \<longrightarrow> (\<forall>b. result_bound sc = Some b \<longrightarrow> -6 \<le> r \<and> r \<le> b) \<and> mediated k sc r)"
    using assms(3) by simp
qed

lemma symbol_exit:
  assumes "addr_checked va"
  shows "symbol_safe k mem (Jani_Exit code) (jani_exit_impl va code k mem)"
  unfolding symbol_safe_def
proof (intro allI impI)
  fix k' mem' r trap
  assume "jani_exit_impl va code k mem = Some (k', mem', r, trap)"
  then obtain w where w: "with_capture va 14 [scast code, 0, 0, 0, 0, 0, 0, 0] 0 0 0 0 0 (jani_exit_live code) k mem = Some (k', mem', w, trap)"
    "r = 0" by (auto simp: jani_exit_impl_def)
  have "memory_kept (result_spans (Jani_Exit code)) mem mem'" by (rule capture_safe(1) [OF assms exit_safe _ _ w(1)]) auto
  then show "memory_kept (result_spans (Jani_Exit code)) mem mem' \<and>
      (not_playing k \<longrightarrow> (\<forall>b. result_bound (Jani_Exit code) = Some b \<longrightarrow> -6 \<le> r \<and> r \<le> b) \<and> mediated k (Jani_Exit code) r)"
    using w(2) by (simp add: mediated_def)
qed

lemma jani_symbols_safe:
  assumes va: "addr_checked va"
  shows "symbol_safe k mem sc (jani_symbols va mp sc k mem)"
proof (cases sc)
  case (Jani_Object_Create th tl' len)
  show ?thesis unfolding Jani_Object_Create jani_symbols.simps jani_object_create_impl_def
    by (rule symbol32 [OF va create_safe]) auto
next
  case (Jani_Log offset len)
  show ?thesis unfolding Jani_Log jani_symbols.simps jani_log_impl_def by (rule symbol32 [OF va log_safe]) auto
next
  case (Jani_Object_Read slot offset pointer len)
  show ?thesis unfolding Jani_Object_Read jani_symbols.simps jani_object_read_impl_def by (rule symbol32 [OF va read_safe [OF va]]) auto
next
  case (Jani_Object_Write slot offset pointer len)
  show ?thesis unfolding Jani_Object_Write jani_symbols.simps jani_object_write_impl_def by (rule symbol32 [OF va write_safe]) auto
next
  case (Jani_Object_Size slot)
  show ?thesis unfolding Jani_Object_Size jani_symbols.simps jani_object_size_impl_def by (rule symbol64 [OF va size_safe]) auto
next
  case (Jani_Cap_Drop slot)
  show ?thesis unfolding Jani_Cap_Drop jani_symbols.simps jani_cap_drop_impl_def by (rule symbol32 [OF va drop_safe]) auto
next
  case (Jani_Cap_Derive slot rts bdg)
  show ?thesis unfolding Jani_Cap_Derive jani_symbols.simps jani_cap_derive_impl_def by (rule symbol32 [OF va derive_safe]) auto
next
  case (Jani_Cap_Revoke slot)
  show ?thesis unfolding Jani_Cap_Revoke jani_symbols.simps jani_cap_revoke_impl_def by (rule symbol32 [OF va revoke_safe]) auto
next
  case (Jani_Message_Send target pointer len capability)
  show ?thesis unfolding Jani_Message_Send jani_symbols.simps jani_message_send_impl_def jani_message_send_cap_impl_def
    by (rule symbol32 [OF va send_safe [where target = target]]) auto
next
  case (Jani_Message_Send_Cap target pointer len capability rts bdg)
  show ?thesis unfolding Jani_Message_Send_Cap jani_symbols.simps jani_message_send_cap_impl_def
    by (rule symbol32 [OF va send_safe [where target = target]]) auto
next
  case (Jani_Provenance slot age pointer len)
  show ?thesis unfolding Jani_Provenance jani_symbols.simps jani_provenance_impl_def by (rule symbol32 [OF va provenance_safe [OF va]]) auto
next
  case (Jani_Stats pointer len)
  show ?thesis unfolding Jani_Stats jani_symbols.simps jani_stats_impl_def by (rule symbol32 [OF va stats_safe [OF va]]) auto
next
  case (Jani_Trace age pointer len)
  show ?thesis unfolding Jani_Trace jani_symbols.simps jani_trace_impl_def by (rule symbol32 [OF va trace_safe [OF va]]) auto
next
  case (Jani_Message_Recv pointer len capability_out)
  show ?thesis unfolding Jani_Message_Recv jani_symbols.simps jani_message_recv_impl_def by (rule symbol32 [OF va recv_safe [OF va]]) auto
next
  case (Jani_Timer_Set delay_ticks)
  show ?thesis unfolding Jani_Timer_Set jani_symbols.simps jani_timer_set_impl_def by (rule symbol32 [OF va timer_safe]) auto
next
  case Jani_Time_Logical
  show ?thesis unfolding Jani_Time_Logical jani_symbols.simps jani_time_logical_impl_def by (rule symbol64 [OF va time_safe]) auto
next
  case Jani_Self
  show ?thesis unfolding Jani_Self jani_symbols.simps jani_self_impl_def by (rule symbol32 [OF va self_safe]) auto
next
  case (Jani_Exit code)
  show ?thesis unfolding Jani_Exit jani_symbols.simps by (rule symbol_exit [OF va])
qed


section \<open>The property\<close>

text \<open>
  C38: every system call is safe for the guest's memory, typed and mediated, when the runtime checks
  addresses against the size of the memory. The linear memory keeps its size, and no byte outside the
  spans the guest named for results changes, also when the call is answered from a log. Unless a log
  is played, a call with a 32-bit result returns an error code or a value within the bound of the call:
  a length the guest asked for, at most 4096, the size of a structure, or a slot below 16. And a call
  on an object, a capability or a message that does not fail is allowed by a capability in the slot the
  guest named, with the right the call needs.
\<close>

theorem system_call_safe:
  assumes "\<forall>n p l. va n p l \<longrightarrow> unat p + unat l \<le> n" "jani_symbols va mp sc k mem = Some (k', mem', r, trap)"
  shows "length mem' = length mem \<and>
    (\<forall>j<length mem. (\<forall>(p, n)\<in>set (result_spans sc). j < unat p \<or> unat p + n \<le> j) \<longrightarrow> mem' ! j = mem ! j) \<and>
    ((\<forall>s. kn_session k = Some s \<longrightarrow> rs_mode s \<noteq> REPLAY_PLAY) \<longrightarrow>
       (\<forall>b. result_bound sc = Some b \<longrightarrow> -6 \<le> r \<and> r \<le> b \<and> b \<le> 4096) \<and>
       (\<forall>slot right. required_right sc = Some (slot, right) \<longrightarrow> 0 \<le> r \<longrightarrow>
          capability_allows (capability_table_get (cap_table (the (current_component k))) slot) right))"
proof -
  have "addr_checked va" using assms(1) by (simp add: addr_checked_def)
  from jani_symbols_safe [OF this, of k mem sc mp] assms(2)
  have "memory_kept (result_spans sc) mem mem'"
    "not_playing k \<Longrightarrow> (\<forall>b. result_bound sc = Some b \<longrightarrow> -6 \<le> r \<and> r \<le> b) \<and> mediated k sc r"
    by (auto simp: symbol_safe_def)
  then show ?thesis
    using result_bound_le [of sc] unfolding memory_kept_def list_all_iff not_playing_def mediated_def allowed_def by auto
qed

definition sample_kernel :: "(unit, unit, unit) kernel" where
  "sample_kernel = \<lparr>kn_domain = sample_domain, kn_current = Some (Registered 0), kn_scheduler = None, kn_session = None, kn_console = []\<rparr>"

abbreviation sample_addr :: valid_addr where
  "sample_addr \<equiv> \<lambda>n p l. unat p + unat l \<le> n"

text \<open>A component asks for its metrics at offset 4 of a memory of 40 bytes.\<close>

theorem system_call_safe_witness:
  "\<exists>k' mem'. jani_symbols sample_addr sample_pages (Jani_Stats 4 32) sample_kernel (replicate 40 7) = Some (k', mem', 32, False) \<and>
     length mem' = 40 \<and> mem' ! 3 = 7 \<and> mem' ! 36 = 7"
proof -
  let ?mem = "replicate 40 7 :: bytes"
  have c: "current_component sample_kernel = Some sample_member"
    by (simp add: current_component_def sample_kernel_def sample_domain_def)
  define mem' where "mem' = memcpy_at ?mem 4 (encode_metrics (metrics sample_member))"
  define k' where "k' = sample_kernel"
  have live: "jani_stats_live sample_addr 4 32 sample_kernel ?mem = Some (k', mem', 32, False)"
    by (simp add: jani_stats_live_def c linear_memory_def mem'_def k'_def)
  have n: "kn_session sample_kernel = None" by (simp add: sample_kernel_def)
  have i: "as_int32 32 = 32" using as_int_of_int(1) [of 32] by simp
  have "with_capture sample_addr 16 args 0 0 4 32 0 (jani_stats_live sample_addr 4 32) sample_kernel ?mem = Some (k', mem', 32, False)" for args
    unfolding with_capture_def capture_before_def n option.case prod.case live Let_def
    by (simp add: capture_after_def no_capture_def)
  then have out: "jani_symbols sample_addr sample_pages (Jani_Stats 4 32) sample_kernel ?mem = Some (k', mem', 32, False)"
    by (simp add: jani_stats_impl_def result32_def i)
  have "length mem' = length ?mem" "\<forall>j<length ?mem. (\<forall>(p, n)\<in>set (result_spans (Jani_Stats 4 32)). j < unat p \<or> unat p + n \<le> j) \<longrightarrow> mem' ! j = ?mem ! j"
    using system_call_safe [OF _ out] by auto
  then show ?thesis using out by (intro exI [of _ k'] exI [of _ mem']) simp
qed

end
