(* ===== verification/Wasm_Runtime.thy ===== *)
theory Wasm_Runtime
  imports Syscall_Safety
begin

text \<open>
  Instances of components: \<^verbatim>\<open>kernel/wasm/runtime.c\<close> and the validator of modules,
  \<^verbatim>\<open>module_validate.zig\<close>. The WebAssembly interpreter is not part of the repository. What
  the kernel asks of it is a record of functions, and a call of an exported function is a tree: the
  interpreter ends with a state of the instance, or it makes a system call and goes on with the
  memory and the result it gets back. A tree is finite since the kernel limits the number of
  instructions, and it is the same for the same instance, which is the determinism the kernel
  relies on. The memory that the interpreter allocates for itself is not followed.
\<close>

section \<open>The module validator\<close>

text \<open>\<open>turns\<close> is \<open>leb128_max_bytes - consumed\<close>; the result is the value and the next index.\<close>

fun leb128_loop :: "bytes \<Rightarrow> u64 \<Rightarrow> nat \<Rightarrow> nat \<Rightarrow> nat \<Rightarrow> (u32 \<times> nat) option" where
  "leb128_loop b v shift index 0 = None"
| "leb128_loop b v shift index (Suc turns) =
     (if index \<ge> length b then None
      else let byte = b ! index; v1 = v OR push_bit shift (ucast (byte AND 0x7F)) in
        if byte AND 0x80 = 0 then
          (if v1 > 0xFFFFFFFF then None
           else if 5 - turns > 1 \<and> byte = 0 then None
           else Some (ucast v1, index + 1))
        else leb128_loop b v1 (shift + 7) (index + 1) turns)"

definition read_leb128_u32 :: "bytes \<Rightarrow> nat \<Rightarrow> (u32 \<times> nat) option" where
  "read_leb128_u32 b offset = leb128_loop b 0 0 offset 5"

lemma leb128_next: "leb128_loop b v shift index turns = Some (len, n) \<Longrightarrow> index < n \<and> n \<le> length b"
proof (induction turns arbitrary: v shift index)
  case (Suc turns)
  show ?case using Suc.prems Suc.IH by (auto simp: Let_def split: if_splits dest!: Suc.IH)
qed simp

text \<open>The loop over the sections: the identifiers seen and the greatest of them; the result is the number of sections.\<close>

function section_loop :: "bytes \<Rightarrow> bool list \<Rightarrow> u8 \<Rightarrow> u32 \<Rightarrow> nat \<Rightarrow> u32 option" where
  "section_loop b seen highest sections cursor =
     (if cursor \<ge> length b then (if cursor \<noteq> length b then None else Some sections)
      else let i = b ! cursor in
        if i > 12 then None
        else if i \<noteq> 0 \<and> (seen ! unat i \<or> i < highest) then None
        else let seen1 = (if i \<noteq> 0 then seen[unat i := True] else seen); highest1 = (if i \<noteq> 0 then i else highest) in
          case read_leb128_u32 b (cursor + 1) of
            None \<Rightarrow> None
          | Some (len, cursor1) \<Rightarrow>
              if unat len > length b - cursor1 then None
              else section_loop b seen1 highest1 (sections + 1) (cursor1 + unat len))"
  by pat_completeness auto
termination
proof (relation "measure (\<lambda>(b, seen, highest, sections, cursor). length b - cursor)", goal_cases)
  case (2 b seen highest sections cursor i seen1 highest1 x len cursor1)
  then have "cursor + 1 < cursor1" "cursor1 \<le> length b" using leb128_next by (fastforce simp: read_leb128_u32_def)+
  then show ?case using 2 by simp
qed simp

declare section_loop.simps [simp del]

definition jani_wasm_module_validate :: "bytes option \<Rightarrow> nat \<Rightarrow> u32 option" where
  "jani_wasm_module_validate bytes byte_count =
     (case bytes of
        None \<Rightarrow> None
      | Some b \<Rightarrow>
          if byte_count < 8 then None
          else let m = take byte_count b in
            if take 4 m \<noteq> [0x00, 0x61, 0x73, 0x6d] then None
            else if read_u32_le m 4 \<noteq> 1 then None
            else section_loop m (replicate 13 False) 0 0 8)"

section \<open>Instances\<close>

datatype 'w guest = Return 'w bool | Native syscall 'w "'w \<times> int \<Rightarrow> 'w guest"

record ('m, 'w) wasm_runtime =
  wr_load :: "bytes \<Rightarrow> 'm option"
  wr_instantiate :: "'m \<Rightarrow> 'w option"
  wr_exec_env :: "'w \<Rightarrow> bool"
  wr_memory :: "'w \<Rightarrow> (bytes option \<times> u64 \<times> u64) option"
  wr_set_memory :: "'w \<Rightarrow> bytes \<Rightarrow> 'w"
  wr_enlarge :: "'w \<Rightarrow> u64 \<Rightarrow> 'w option"
  wr_lookup :: "'w \<Rightarrow> string \<Rightarrow> (u32 \<times> u32) option"
  wr_call :: "'w \<Rightarrow> string \<Rightarrow> 'w guest"
  wr_valid_addr :: valid_addr

text \<open>The instance and the address of the copy of its module.\<close>

definition jani_wasm_instance_create ::
    "('m, 'w) wasm_runtime \<Rightarrow> 'p map_page \<Rightarrow> 'p heap \<Rightarrow> bytes option \<Rightarrow> nat \<Rightarrow> ('p heap \<times> ('w \<times> u64) option) option" where
  "jani_wasm_instance_create rt map_page h bytes len =
     (if bytes = None then Some (h, None)
      else if len = 0 \<or> len > unat UINT32_MAX \<or> jani_wasm_module_validate bytes len = None then Some (h, None)
      else case kmalloc map_page h (of_nat len) of
        None \<Rightarrow> None
      | Some (h1, owned) \<Rightarrow>
          if owned = 0 then Some (h1, None)
          else case wr_load rt (take len (the bytes)) of
            None \<Rightarrow> Some (kfree h1 owned, None)
          | Some m \<Rightarrow>
              (case wr_instantiate rt m of
                 None \<Rightarrow> Some (kfree h1 owned, None)
               | Some w \<Rightarrow> if \<not> wr_exec_env rt w then Some (kfree h1 owned, None) else Some (h1, Some (w, owned))))"

definition jani_wasm_instance_destroy :: "'p heap \<Rightarrow> u64 \<Rightarrow> 'p heap" where
  "jani_wasm_instance_destroy h owned_bytes = (if owned_bytes \<noteq> 0 then kfree h owned_bytes else h)"

definition jani_wasm_instance_memory_grow :: "('m, 'w) wasm_runtime \<Rightarrow> 'w \<Rightarrow> nat \<Rightarrow> 'w option" where
  "jani_wasm_instance_memory_grow rt w required_bytes =
     (case wr_memory rt w of
        None \<Rightarrow> None
      | Some (base, page_count, bytes_per_page) \<Rightarrow>
          if bytes_per_page = 0 then None
          else let current_bytes = page_count * bytes_per_page in
            if of_nat required_bytes \<le> current_bytes then Some w
            else let missing = of_nat required_bytes - current_bytes;
                     pages = (missing + bytes_per_page - 1) div bytes_per_page
              in wr_enlarge rt w pages)"

definition jani_wasm_instance_has_handler :: "('m, 'w) wasm_runtime \<Rightarrow> 'w \<Rightarrow> string \<Rightarrow> bool" where
  "jani_wasm_instance_has_handler rt w name = (case wr_lookup rt w name of None \<Rightarrow> False | Some (params, results) \<Rightarrow> params = 0 \<and> results = 0)"

text \<open>The linear memory that a system call works on.\<close>

definition guest_memory :: "('m, 'w) wasm_runtime \<Rightarrow> 'w \<Rightarrow> bytes" where
  "guest_memory rt w = (case jani_wasm_instance_memory (wr_memory rt) w of None \<Rightarrow> [] | Some (bytes, n) \<Rightarrow> take n bytes)"

primrec run_guest ::
    "('m, 'w) wasm_runtime \<Rightarrow> 'p map_page \<Rightarrow> 'w guest \<Rightarrow> ('d, 'i, 'p) kernel \<Rightarrow> (('d, 'i, 'p) kernel \<times> 'w \<times> bool) option" where
  "run_guest rt mp (Return w ok) = (\<lambda>k. Some (k, w, ok))"
| "run_guest rt mp (Native sc w continue) =
     (\<lambda>k. case jani_symbols (wr_valid_addr rt) mp sc k (guest_memory rt w) of
            None \<Rightarrow> None
          | Some (k1, mem, r, trap) \<Rightarrow>
              let w1 = wr_set_memory rt w mem in
              if trap then Some (k1, w1, False) else run_guest rt mp (continue (w1, r)) k1)"

definition jani_wasm_instance_call ::
    "('m, 'w) wasm_runtime \<Rightarrow> 'p map_page \<Rightarrow> 'w \<Rightarrow> string \<Rightarrow> ('d, 'i, 'p) kernel \<Rightarrow> (('d, 'i, 'p) kernel \<times> 'w \<times> bool) option" where
  "jani_wasm_instance_call rt mp w name k =
     (if \<not> jani_wasm_instance_has_handler rt w name then Some (k, w, False) else run_guest rt mp (wr_call rt w name) k)"

definition jani_wasm_set_current_component :: "'i running option \<Rightarrow> ('d, 'i, 'p) kernel \<Rightarrow> ('d, 'i, 'p) kernel" where
  "jani_wasm_set_current_component c k = k\<lparr>kn_current := c\<rparr>"


section \<open>What a run leaves alone\<close>

text \<open>A call changes the session, if at all, but neither the scheduler nor who is running.\<close>

definition run_frame :: "('d, 'i, 'p) kernel \<Rightarrow> scheduler option \<times> nat option" where
  "run_frame k = (kn_scheduler k, current_address k)"

lemma run_frame_session [simp]: "run_frame (k\<lparr>kn_session := s\<rparr>) = run_frame k"
  by (simp add: run_frame_def current_address_def)

lemma run_frame_kernel: "kernel_frame k' = kernel_frame k \<Longrightarrow> run_frame k' = run_frame k"
  by (simp add: kernel_frame_def run_frame_def)

lemma capture_before_frame:
  "capture_before va k mem kind args i il o' ol aux = (cp, k1, mem1, d, t) \<Longrightarrow> run_frame k1 = run_frame k"
  by (auto simp: capture_before_def Let_def split: option.splits if_splits prod.splits)

lemma capture_after_frame: "capture_after k mem cp = (k1, t) \<Longrightarrow> run_frame k1 = run_frame k"
  by (auto simp: capture_after_def split: if_splits option.splits prod.splits)

lemma with_capture_frame:
  assumes "\<And>k mem. call_safe k mem sc (call k mem)" "with_capture va kind args i il o' ol aux call k mem = Some (k', mem', w, t)"
  shows "run_frame k' = run_frame k"
proof -
  obtain cp k1 mem1 d t1 where b: "capture_before va k mem kind args i il o' ol aux = (cp, k1, mem1, d, t1)"
    by (cases "capture_before va k mem kind args i il o' ol aux") auto
  have f: "kernel_frame k2 = kernel_frame k1" if "call k1 mem1 = Some (k2, mem2, r, t2)" for k2 mem2 r t2
    using assms(1) [of k1 mem1] that by (auto simp: call_safe_def)
  show ?thesis
    using assms(2) capture_before_frame [OF b] unfolding with_capture_def b
    by (auto simp: Let_def split: if_splits option.splits prod.splits dest!: capture_after_frame f run_frame_kernel)
qed

text \<open>Every call is the shared body around its live call: its number and arguments, the spans it reads and fills, and its result type.\<close>

fun live_call :: "valid_addr \<Rightarrow> 'p map_page \<Rightarrow> syscall \<Rightarrow> ('d, 'i, 'p) kernel \<Rightarrow> bytes \<Rightarrow> ('d, 'i, 'p) outcome" where
  "live_call va mp (Jani_Log offset len) = jani_log_live va offset len"
| "live_call va mp (Jani_Object_Create type_high type_low len) = jani_object_create_live mp type_high type_low len"
| "live_call va mp (Jani_Object_Read slot offset pointer len) = jani_object_read_live va slot offset pointer len"
| "live_call va mp (Jani_Object_Write slot offset pointer len) = jani_object_write_live va mp slot offset pointer len"
| "live_call va mp (Jani_Object_Size slot) = jani_object_size_live slot"
| "live_call va mp (Jani_Cap_Drop slot) = jani_cap_drop_live slot"
| "live_call va mp (Jani_Cap_Derive slot rts bdg) = jani_cap_derive_live slot rts bdg"
| "live_call va mp (Jani_Cap_Revoke slot) = jani_cap_revoke_live slot"
| "live_call va mp (Jani_Message_Send target pointer len capability) = jani_message_send_live va target pointer len capability 0 0"
| "live_call va mp (Jani_Message_Send_Cap target pointer len capability rts bdg) =
     jani_message_send_live va target pointer len capability rts bdg"
| "live_call va mp (Jani_Provenance slot age pointer len) = jani_provenance_live va slot age pointer len"
| "live_call va mp (Jani_Stats pointer len) = jani_stats_live va pointer len"
| "live_call va mp (Jani_Trace age pointer len) = jani_trace_live va age pointer len"
| "live_call va mp (Jani_Message_Recv pointer len capability_out) = jani_message_recv_live va pointer len capability_out"
| "live_call va mp (Jani_Timer_Set delay_ticks) = jani_timer_set_live delay_ticks"
| "live_call va mp Jani_Time_Logical = jani_time_logical_live"
| "live_call va mp Jani_Self = jani_self_live"
| "live_call va mp (Jani_Exit code) = jani_exit_live code"

fun call_number :: "syscall \<Rightarrow> u32 \<times> u64 list" where
  "call_number (Jani_Log offset len) = (1, [ucast offset, ucast len, 0, 0, 0, 0, 0, 0])"
| "call_number (Jani_Object_Create type_high type_low len) = (2, [type_high, type_low, ucast len, 0, 0, 0, 0, 0])"
| "call_number (Jani_Object_Read slot offset pointer len) = (3, [scast slot, ucast offset, ucast pointer, ucast len, 0, 0, 0, 0])"
| "call_number (Jani_Object_Write slot offset pointer len) = (4, [scast slot, ucast offset, ucast pointer, ucast len, 0, 0, 0, 0])"
| "call_number (Jani_Object_Size slot) = (5, [scast slot, 0, 0, 0, 0, 0, 0, 0])"
| "call_number (Jani_Cap_Drop slot) = (6, [scast slot, 0, 0, 0, 0, 0, 0, 0])"
| "call_number (Jani_Cap_Derive slot rts bdg) = (7, [scast slot, ucast rts, ucast bdg, 0, 0, 0, 0, 0])"
| "call_number (Jani_Cap_Revoke slot) = (8, [scast slot, 0, 0, 0, 0, 0, 0, 0])"
| "call_number (Jani_Message_Send target pointer len capability) =
     (9, [scast target, ucast pointer, ucast len, scast capability, 0, 0, 0, 0])"
| "call_number (Jani_Message_Send_Cap target pointer len capability rts bdg) =
     (9, [scast target, ucast pointer, ucast len, scast capability, ucast rts, ucast bdg, 0, 0])"
| "call_number (Jani_Provenance slot age pointer len) = (15, [scast slot, ucast age, ucast pointer, ucast len, 0, 0, 0, 0])"
| "call_number (Jani_Stats pointer len) = (16, [ucast pointer, ucast len, 0, 0, 0, 0, 0, 0])"
| "call_number (Jani_Trace age pointer len) = (17, [ucast age, ucast pointer, ucast len, 0, 0, 0, 0, 0])"
| "call_number (Jani_Message_Recv pointer len capability_out) = (10, [ucast pointer, ucast len, ucast capability_out, 0, 0, 0, 0, 0])"
| "call_number (Jani_Timer_Set delay_ticks) = (11, [delay_ticks, 0, 0, 0, 0, 0, 0, 0])"
| "call_number Jani_Time_Logical = (12, [0, 0, 0, 0, 0, 0, 0, 0])"
| "call_number Jani_Self = (13, [0, 0, 0, 0, 0, 0, 0, 0])"
| "call_number (Jani_Exit code) = (14, [scast code, 0, 0, 0, 0, 0, 0, 0])"

fun input_span :: "syscall \<Rightarrow> u32 \<times> u32" where
  "input_span (Jani_Log offset len) = (offset, len)"
| "input_span (Jani_Object_Write slot offset pointer len) = (pointer, len)"
| "input_span (Jani_Message_Send target pointer len capability) = (pointer, len)"
| "input_span (Jani_Message_Send_Cap target pointer len capability rts bdg) = (pointer, len)"
| "input_span _ = (0, 0)"

fun output_span :: "syscall \<Rightarrow> u32 \<times> u32 \<times> u32" where
  "output_span (Jani_Object_Read slot offset pointer len) = (pointer, len, 0)"
| "output_span (Jani_Provenance slot age pointer len) = (pointer, len, 0)"
| "output_span (Jani_Stats pointer len) = (pointer, len, 0)"
| "output_span (Jani_Trace age pointer len) = (pointer, len, 0)"
| "output_span (Jani_Message_Recv pointer len capability_out) = (pointer, len, capability_out)"
| "output_span _ = (0, 0, 0)"

fun call_result_of :: "syscall \<Rightarrow> u64 \<Rightarrow> int" where
  "call_result_of (Jani_Object_Size slot) w = as_int64 w"
| "call_result_of Jani_Time_Logical w = as_int64 w"
| "call_result_of (Jani_Exit code) w = 0"
| "call_result_of _ w = as_int32 w"

definition captured_call ::
    "valid_addr \<Rightarrow> 'p map_page \<Rightarrow> syscall \<Rightarrow> ('d, 'i, 'p) kernel \<Rightarrow> bytes \<Rightarrow> (('d, 'i, 'p) kernel \<times> bytes \<times> u64 \<times> bool) option" where
  "captured_call va mp sc k mem =
     (case (call_number sc, input_span sc, output_span sc) of
        ((kind, args), (input, input_length), (output, output_length, auxiliary)) \<Rightarrow>
          with_capture va kind args input input_length output output_length auxiliary (live_call va mp sc) k mem)"

lemma jani_symbols_captured:
  "jani_symbols va mp sc k mem = map_option (\<lambda>(k, mem, w, t). (k, mem, call_result_of sc w, t)) (captured_call va mp sc k mem)"
  by (cases sc) (simp_all add: captured_call_def jani_log_impl_def jani_object_create_impl_def jani_object_read_impl_def
      jani_object_write_impl_def jani_object_size_impl_def jani_cap_drop_impl_def jani_cap_derive_impl_def jani_cap_revoke_impl_def
      jani_message_send_cap_impl_def jani_message_send_impl_def jani_message_recv_impl_def jani_timer_set_impl_def jani_time_logical_impl_def
      jani_self_impl_def jani_exit_impl_def jani_provenance_impl_def jani_stats_impl_def jani_trace_impl_def result32_def result64_def)

lemma live_call_safe: "addr_checked va \<Longrightarrow> call_safe k mem sc (live_call va mp sc k mem)"
  by (cases sc) (simp_all add: log_safe create_safe read_safe write_safe size_safe drop_safe derive_safe revoke_safe provenance_safe stats_safe
      trace_safe recv_safe timer_safe time_safe self_safe exit_safe send_safe)

lemma jani_symbols_frame:
  assumes "addr_checked va" "jani_symbols va mp sc k mem = Some (k', mem', r, t)"
  shows "run_frame k' = run_frame k"
  using assms(2) with_capture_frame [OF live_call_safe [OF assms(1)]]
  by (auto simp: jani_symbols_captured captured_call_def split: prod.splits)

lemma run_guest_frame:
  assumes va: "addr_checked (wr_valid_addr rt)"
  shows "run_guest rt mp g k = Some (k', w, ok) \<Longrightarrow> run_frame k' = run_frame k"
proof (induction g arbitrary: k)
  case (Native sc w1 continue)
  obtain k1 mem r t where j: "jani_symbols (wr_valid_addr rt) mp sc k (guest_memory rt w1) = Some (k1, mem, r, t)"
    using Native.prems by (auto simp: Let_def split: option.splits)
  have f: "run_frame k1 = run_frame k" by (rule jani_symbols_frame [OF va j])
  show ?case
  proof (cases t)
    case True
    then show ?thesis using Native.prems f j by (simp add: Let_def)
  next
    case False
    then have "run_guest rt mp (continue (wr_set_memory rt w1 mem, r)) k1 = Some (k', w, ok)" using Native.prems j by (simp add: Let_def)
    then show ?thesis using Native.IH [OF rangeI] f by simp
  qed
qed simp

end
