(* ===== verification/Scheduler.thy ===== *)
theory Scheduler
  imports Wasm_Runtime
begin

text \<open>
  The scheduler of components, \<^verbatim>\<open>kernel/sched/scheduler.c\<close>. A step chooses a component, runs
  its handler inside a transaction of the domain and commits or aborts it. The scheduler that steps is
  the current one of the kernel. The instances live in a \<open>world\<close>, which maps the handle in a component
  to the state of its instance, and the two readings of the clock are arguments.
\<close>

section \<open>Set up\<close>

abbreviation zero_trace_event :: trace_event where
  "zero_trace_event \<equiv> \<lparr>tr_component = Object_Id 0 0, tr_time = 0, tr_value = 0, tr_kind = 0, tr_reserved = 0\<rparr>"

definition fresh_scheduler :: "u64 \<Rightarrow> u64 \<Rightarrow> scheduler" where
  "fresh_scheduler frame_ticks frame_cycles =
     \<lparr>sc_policies = replicate COMPONENT_MAX \<lparr>interactive = 0, priority = 0, budget_cycles = frame_cycles div 4\<rparr>,
      sc_last_run = replicate COMPONENT_MAX 0, sc_used = replicate COMPONENT_MAX 0, sc_frame_start = 0, sc_frame_ticks = frame_ticks,
      sc_frame_cycles = frame_cycles, sc_consumed = 0, sc_cursor = 0, sc_running = 0, sc_waiting = replicate COMPONENT_MAX 0,
      sc_trace_count = 0, sc_trace_next = 0, sc_trace = replicate SCHED_TRACE_MAX zero_trace_event\<rparr>"

text \<open>The domain, whose store caches what is read, and the scheduler unless the call fails.\<close>

definition scheduler_init ::
    "('d, 'i, 'p) capability_domain \<Rightarrow> u64 \<Rightarrow> u64 \<Rightarrow> (('d, 'i, 'p) capability_domain \<times> scheduler option) option" where
  "scheduler_init dm frame_ticks frame_cycles =
     (if frame_ticks = 0 \<or> frame_cycles = 0 then Some (dm, None)
      else let s = fresh_scheduler frame_ticks frame_cycles in
        if object_table_find (st_table (dm_store dm)) (Object_Id 6 0) = None then Some (dm, Some s)
        else case object_store_get (dm_store dm) (Object_Id 6 0) of
          None \<Rightarrow> None
        | Some (store, None) \<Rightarrow> Some (dm\<lparr>dm_store := store\<rparr>, None)
        | Some (store, Some (header, bytes, len)) \<Rightarrow>
            if \<not> object_id_equal (h_type_id header) (Object_Id 0 9) \<or> \<not> scheduler_trace_validate (Some bytes) len
            then Some (dm\<lparr>dm_store := store\<rparr>, None)
            else Some (dm\<lparr>dm_store := store\<rparr>,
                       Some (s\<lparr>sc_trace_count := le_word (bslice 8 4 bytes), sc_trace_next := le_word (bslice 12 4 bytes),
                               sc_trace := decode_array decode_trace_event 40 SCHED_TRACE_MAX (bslice 24 2560 bytes)\<rparr>)))"

text \<open>The loop that adds up the reservations of the interactive components.\<close>

definition reserve_one :: "u64 \<Rightarrow> u64 \<Rightarrow> scheduler_policy \<Rightarrow> u64 option" where
  "reserve_one frame_cycles reserved candidate =
     (if interactive candidate \<noteq> 0 then
        (if budget_cycles candidate > frame_cycles - reserved then None else Some (reserved + budget_cycles candidate))
      else Some reserved)"

definition scheduler_configure :: "scheduler \<Rightarrow> u32 \<Rightarrow> scheduler_policy \<Rightarrow> scheduler option" where
  "scheduler_configure s index p =
     (if sc_running s \<noteq> 0 \<or> unat index \<ge> COMPONENT_MAX \<or> interactive p > 1 \<or> priority p > 7 \<or> budget_cycles p = 0 \<or>
         budget_cycles p > sc_frame_cycles s then None
      else case fold_opt (reserve_one (sc_frame_cycles s)) 0
                  (map (\<lambda>i. if i = unat index then p else sc_policies s ! i) [0..<COMPONENT_MAX]) of
        None \<Rightarrow> None
      | Some _ \<Rightarrow> Some (s\<lparr>sc_policies := (sc_policies s)[unat index := p]\<rparr>))"

section \<open>Choosing a component\<close>

definition runnable :: "'d object_store \<Rightarrow> 'i component option \<Rightarrow> u64 \<Rightarrow> bool" where
  "runnable store c now =
     (case c of
        None \<Rightarrow> False
      | Some c \<Rightarrow> exited c = 0 \<and> \<not> component_is_fenced store (root_id c) \<and>
          (mailbox_used c \<noteq> 0 \<or> (timer_armed c \<noteq> 0 \<and> timer_deadline c \<le> now)))"

definition add_saturated :: "u64 \<Rightarrow> u64 \<Rightarrow> u64" where
  "add_saturated a b = (if b > UINT64_MAX - a then UINT64_MAX else a + b)"

definition start_frame :: "scheduler \<Rightarrow> u64 \<Rightarrow> scheduler" where
  "start_frame s now =
     (if now - sc_frame_start s \<ge> sc_frame_ticks s
      then s\<lparr>sc_frame_start := now, sc_consumed := 0, sc_used := replicate COMPONENT_MAX 0\<rparr> else s)"

definition reserved_cycles :: "scheduler \<Rightarrow> u64" where
  "reserved_cycles s =
     foldl (\<lambda>r i. if interactive (sc_policies s ! i) \<noteq> 0 \<and> sc_used s ! i < budget_cycles (sc_policies s ! i)
                  then r + (budget_cycles (sc_policies s ! i) - sc_used s ! i) else r) 0 [0..<COMPONENT_MAX]"

text \<open>The two tests of the loop that pass a component over.\<close>

definition eligible :: "scheduler \<Rightarrow> ('d, 'i, 'p) capability_domain \<Rightarrow> u64 \<Rightarrow> u64 \<Rightarrow> nat \<Rightarrow> bool" where
  "eligible s dm now reserved i =
     (let p = sc_policies s ! i in
      if \<not> runnable (dm_store dm) (items (components dm) ! i) now \<or> sc_used s ! i \<ge> budget_cycles p \<or> sc_consumed s \<ge> sc_frame_cycles s
      then False
      else if interactive p = 0 \<and> (reserved \<ge> sc_frame_cycles s - sc_consumed s \<or>
              budget_cycles p - sc_used s ! i > sc_frame_cycles s - sc_consumed s - reserved) then False
      else True)"

definition candidate_score :: "scheduler \<Rightarrow> u64 \<Rightarrow> nat \<Rightarrow> u64" where
  "candidate_score s now i =
     (let p = sc_policies s ! i; age = (if now \<ge> sc_last_run s ! i then now - sc_last_run s ! i else 0) in
      (if interactive p \<noteq> 0 then push_bit 63 1 else 0) + ucast (priority p * 8) + (if age > 64 then 64 else age))"

fun select_loop ::
    "scheduler \<Rightarrow> ('d, 'i, 'p) capability_domain \<Rightarrow> u64 \<Rightarrow> u64 \<Rightarrow> (nat \<times> u64) option \<Rightarrow> nat list \<Rightarrow> nat option" where
  "select_loop s dm now reserved best [] = map_option fst best"
| "select_loop s dm now reserved best (offset # offsets) =
     (let i = unat ((sc_cursor s + of_nat offset) mod 4) in
      if \<not> eligible s dm now reserved i then select_loop s dm now reserved best offsets
      else let candidate = candidate_score s now i in
        if best = None \<or> candidate > snd (the best) then select_loop s dm now reserved (Some (i, candidate)) offsets
        else select_loop s dm now reserved best offsets)"

definition select_component :: "scheduler \<Rightarrow> ('d, 'i, 'p) capability_domain \<Rightarrow> u64 \<Rightarrow> nat option" where
  "select_component s dm now = select_loop s dm now (reserved_cycles s) None [0..<COMPONENT_MAX]"

text \<open>Why a component waits: 0 when it runs, 1 for a message, 2 for its timer, 3 for its turn.\<close>

definition wait_reason :: "('d, 'i, 'p) capability_domain \<Rightarrow> u64 \<Rightarrow> nat option \<Rightarrow> nat \<Rightarrow> 'i component \<Rightarrow> u32" where
  "wait_reason dm now selected i c =
     (if selected = Some i then 0
      else if \<not> runnable (dm_store dm) (Some c) now then (if timer_armed c \<noteq> 0 then 2 else 1) else 3)"

definition trace_wait :: "('d, 'i, 'p) capability_domain \<Rightarrow> u64 \<Rightarrow> nat option \<Rightarrow> scheduler \<Rightarrow> nat \<Rightarrow> scheduler" where
  "trace_wait dm now selected s i =
     (case items (components dm) ! i of
        None \<Rightarrow> s
      | Some c \<Rightarrow>
          if exited c \<noteq> 0 then s
          else let reason = wait_reason dm now selected i c;
                   s1 = (if reason \<noteq> 0 \<and> reason \<noteq> sc_waiting s ! i then emit_trace s c TRACE_WAIT now (ucast reason) else s)
            in s1\<lparr>sc_waiting := (sc_waiting s1)[i := reason]\<rparr>)"

section \<open>A step\<close>

type_synonym ('i, 'w) world = "'i \<Rightarrow> 'w"

abbreviation world_memory :: "('m, 'w) wasm_runtime \<Rightarrow> ('i, 'w) world \<Rightarrow> 'i get_memory" where
  "world_memory rt world \<equiv> \<lambda>h. wr_memory rt (world h)"

text \<open>The component before its handler runs: the time, and the timer when there is no message.\<close>

definition prepare :: "u64 \<Rightarrow> 'i component \<Rightarrow> 'i component" where
  "prepare now c = (c\<lparr>logical_time := now, timer_armed := (if mailbox_used c = 0 then 0 else timer_armed c)\<rparr>)"

definition handler_name :: "u32 \<Rightarrow> string" where
  "handler_name timer = (if timer \<noteq> 0 then ''jani_on_timer'' else ''jani_on_message'')"

text \<open>The session belongs to the component and has failed.\<close>

definition session_failed :: "('d, 'i, 'p) kernel \<Rightarrow> nat \<Rightarrow> bool" where
  "session_failed k i = (case kn_session k of None \<Rightarrow> False | Some s \<Rightarrow> rs_owner s = Some i \<and> rs_failed s)"

definition run_handler ::
    "('m, 'w) wasm_runtime \<Rightarrow> 'p map_page \<Rightarrow> nat \<Rightarrow> u64 \<Rightarrow> u32 \<Rightarrow> 'w \<Rightarrow> ('d, 'i, 'p) kernel \<Rightarrow> (('d, 'i, 'p) kernel \<times> 'w \<times> bool) option" where
  "run_handler rt mp i now timer w k =
     (case replay_handler (kn_session k) i now timer of
        (session, recorded) \<Rightarrow>
          let k1 = k\<lparr>kn_session := session\<rparr> in
          if \<not> recorded then Some (k1, w, False)
          else case jani_wasm_instance_call rt mp w (handler_name timer) k1 of
            None \<Rightarrow> None
          | Some (k2, w2, ok) \<Rightarrow> Some (k2, w2, ok \<and> \<not> session_failed k2 i))"

definition account :: "nat \<Rightarrow> u64 \<Rightarrow> u64 \<Rightarrow> scheduler \<Rightarrow> scheduler" where
  "account i now elapsed s =
     s\<lparr>sc_used := (sc_used s)[i := add_saturated (sc_used s ! i) elapsed], sc_consumed := add_saturated (sc_consumed s) elapsed,
       sc_last_run := (sc_last_run s)[i := now], sc_cursor := (of_nat i + 1) mod 4\<rparr>"

definition count_invocation :: "u64 \<Rightarrow> 'i component \<Rightarrow> 'i component" where
  "count_invocation elapsed c =
     c\<lparr>metrics := (metrics c)\<lparr>invocations := add_saturated (invocations (metrics c)) 1, cycles := add_saturated (cycles (metrics c)) elapsed\<rparr>\<rparr>"

definition with_domain :: "('d, 'i, 'p) kernel \<Rightarrow> ('d, 'i, 'p) capability_domain \<Rightarrow> ('d, 'i, 'p) kernel" where
  "with_domain k dm = k\<lparr>kn_domain := dm\<rparr>"

text \<open>The end of a handler that succeeded: its state and the trace are committed.\<close>

definition commit_step ::
    "('m, 'w) wasm_runtime \<Rightarrow> 'p map_page \<Rightarrow> ('i, 'w) world \<Rightarrow> nat \<Rightarrow> ('d, 'i, 'p) kernel \<Rightarrow> (('d, 'i, 'p) kernel \<times> bool) option" where
  "commit_step rt mp world i k =
     (let dm = capability_domain_state_changed (kn_domain k) i in
      case trace_stage mp dm (the (kn_scheduler k)) of
        None \<Rightarrow> None
      | Some (dm1, False) \<Rightarrow> Some (with_domain k dm1, False)
      | Some (dm1, True) \<Rightarrow>
          (case capability_domain_commit (world_memory rt world) mp dm1 of
             None \<Rightarrow> None
           | Some (dm2, result) \<Rightarrow> Some (with_domain k dm2, result = OBJECT_STORE_BATCH_COMMITTED)))"

definition fail_session :: "nat \<Rightarrow> ('d, 'i, 'p) kernel \<Rightarrow> ('d, 'i, 'p) kernel" where
  "fail_session i k =
     (case kn_session k of
        None \<Rightarrow> k
      | Some s \<Rightarrow> if rs_owner s = Some i then k\<lparr>kn_session := Some (s\<lparr>rs_failed := True\<rparr>)\<rparr> else k)"

definition restore_memory :: "('m, 'w) wasm_runtime \<Rightarrow> bytes \<Rightarrow> 'w \<Rightarrow> 'w" where
  "restore_memory rt saved_memory w =
     (case jani_wasm_instance_memory (wr_memory rt) w of
        None \<Rightarrow> w
      | Some (bytes, current_size) \<Rightarrow>
          if current_size \<ge> length saved_memory
          then wr_set_memory rt w (saved_memory @ replicate (current_size - length saved_memory) 0) else w)"

text \<open>The end of a handler that failed: everything is undone and the component does not run again.\<close>

definition abort_step ::
    "('m, 'w) wasm_runtime \<Rightarrow> nat \<Rightarrow> bytes \<Rightarrow> component_metrics \<Rightarrow> u64 \<Rightarrow> ('d, 'i, 'p) kernel \<times> ('i, 'w) world \<Rightarrow>
     ('d, 'i, 'p) kernel \<times> ('i, 'w) world" where
  "abort_step rt i saved_memory observed elapsed kw =
     (case kw of (k, world) \<Rightarrow>
        let k1 = fail_session i k;
            dm = capability_domain_abort (kn_domain k1);
            c = (item dm i)\<lparr>metrics := observed, exited := 1, exit_code := of_int JANI_EINVAL\<rparr>
        in (with_domain (k1\<lparr>kn_scheduler := scheduler_trace (kn_scheduler k1) (Some c) TRACE_FAIL elapsed\<rparr>) (set_item dm i c),
            world(wasm_instance c := restore_memory rt saved_memory (world (wasm_instance c)))))"

definition end_step :: "u64 \<Rightarrow> ('d, 'i, 'p) kernel \<Rightarrow> ('d, 'i, 'p) kernel" where
  "end_step saved_copy k =
     k\<lparr>kn_domain := (kn_domain k)\<lparr>dm_heap := kfree (dm_heap (kn_domain k)) saved_copy\<rparr>,
       kn_scheduler := map_option (\<lambda>s. s\<lparr>sc_running := 0\<rparr>) (kn_scheduler k), kn_current := None\<rparr>"

text \<open>What follows the choice of component \<open>i\<close>.\<close>

definition step_component ::
    "('m, 'w) wasm_runtime \<Rightarrow> 'p map_page \<Rightarrow> u64 \<Rightarrow> u64 \<Rightarrow> u64 \<Rightarrow> nat \<Rightarrow> ('d, 'i, 'p) kernel \<times> ('i, 'w) world \<Rightarrow>
     ((('d, 'i, 'p) kernel \<times> ('i, 'w) world) \<times> int) option" where
  "step_component rt mp clock_start clock_end now i kw =
     (case kw of (k, world) \<Rightarrow>
        let c = item (kn_domain k) i; h = wasm_instance c in
        case jani_wasm_instance_memory (wr_memory rt) (world h) of
          None \<Rightarrow> Some (kw, -1)
        | Some (bytes, n) \<Rightarrow>
            (case kmalloc mp (dm_heap (kn_domain k)) (if n = 0 then 1 else of_nat n) of
               None \<Rightarrow> None
             | Some (heap, saved_copy) \<Rightarrow>
                 let k1 = with_domain k ((kn_domain k)\<lparr>dm_heap := heap\<rparr>) in
                 if saved_copy = 0 then Some ((k1, world), -1)
                 else case capability_domain_begin mp (kn_domain k1) of
                   None \<Rightarrow> None
                 | Some (dm, False) \<Rightarrow> Some ((with_domain k1 (dm\<lparr>dm_heap := kfree (dm_heap dm) saved_copy\<rparr>), world), -1)
                 | Some (dm, True) \<Rightarrow>
                     let saved_memory = take n bytes;
                         timer = (if mailbox_used c = 0 then 1 else 0 :: u32);
                         c1 = prepare now c;
                         k2 = (with_domain k1 (set_item dm i c1))
                                \<lparr>kn_scheduler := scheduler_trace (map_option (\<lambda>s. s\<lparr>sc_running := 1\<rparr>) (kn_scheduler k1)) (Some c1) TRACE_RUN
                                                   (if timer \<noteq> 0 then 1 else 2),
                                 kn_current := Some (Registered i)\<rparr>
                     in case run_handler rt mp i now timer (world h) k2 of
                          None \<Rightarrow> None
                        | Some (k3, w, ok) \<Rightarrow>
                            let elapsed = clock_end - clock_start;
                                world1 = world(h := w);
                                c3 = count_invocation elapsed (item (kn_domain k3) i);
                                k4 = (with_domain k3 (set_item (kn_domain k3) i c3))\<lparr>kn_scheduler := map_option (account i now elapsed) (kn_scheduler k3)\<rparr>
                            in (case (if ok \<and> exited c3 = 0 then commit_step rt mp world1 i k4 else Some (k4, False)) of
                                  None \<Rightarrow> None
                                | Some (k5, True) \<Rightarrow> Some ((end_step saved_copy k5, world1), 1)
                                | Some (k5, False) \<Rightarrow>
                                    (case abort_step rt i saved_memory (metrics c3) elapsed (k5, world1) of
                                       (k6, world2) \<Rightarrow> Some ((end_step saved_copy k6, world2), -1)))))"

definition scheduler_step ::
    "('m, 'w) wasm_runtime \<Rightarrow> 'p map_page \<Rightarrow> u64 \<Rightarrow> u64 \<Rightarrow> u64 \<Rightarrow> ('d, 'i, 'p) kernel \<times> ('i, 'w) world \<Rightarrow>
     ((('d, 'i, 'p) kernel \<times> ('i, 'w) world) \<times> int) option" where
  "scheduler_step rt mp clock_start clock_end now kw =
     (case kw of (k, world) \<Rightarrow>
        case kn_scheduler k of
          None \<Rightarrow> Some (kw, -1)
        | Some s \<Rightarrow>
            if sc_running s \<noteq> 0 \<or> halted (kn_domain k) \<noteq> 0 \<or> now < sc_frame_start s then Some (kw, -1)
            else let s1 = start_frame s now;
                     selected = select_component s1 (kn_domain k) now;
                     s2 = foldl (trace_wait (kn_domain k) now selected) s1 [0..<COMPONENT_MAX];
                     k1 = k\<lparr>kn_scheduler := Some s2\<rparr>
              in case selected of
                   None \<Rightarrow> Some ((k1, world), 0)
                 | Some i \<Rightarrow> step_component rt mp clock_start clock_end now i (k1, world))"

end
