(* ===== verification/Scheduler_Progress.thy ===== *)
theory Scheduler_Progress
  imports Scheduler
begin

text \<open>
  The choice of the scheduler is the eligible component of the greatest score, the age of a waiting
  component outweighs every priority but not interactivity, and what a step does to the ages bounds how
  often components of the same kind are chosen before one that waits.
\<close>

section \<open>The choice\<close>

definition index_at :: "scheduler \<Rightarrow> nat \<Rightarrow> nat" where
  "index_at s offset = unat ((sc_cursor s + of_nat offset) mod 4 :: u32)"

lemma index_at_less: "index_at s offset < 4"
  by (simp add: index_at_def unat_mod)

lemma index_at_onto:
  assumes "i < 4"
  shows "\<exists>offset<4. index_at s offset = i"
proof -
  let ?c = "unat (sc_cursor s)"
  have d: "index_at s n = (?c + n) mod 4" if "n < 4" for n
  proof -
    have "unat (of_nat n :: u32) = n" using that by (simp add: unat_of_nat)
    then have "unat (sc_cursor s + of_nat n) = (?c + n) mod 2 ^ 32" by (simp add: unat_word_ariths)
    then have "index_at s n = (?c + n) mod 2 ^ 32 mod 4" by (simp add: index_at_def unat_mod)
    also have "\<dots> = (?c + n) mod 4" by (rule mod_mod_cancel) simp
    finally show ?thesis .
  qed
  define n where "n = (i + 4 - ?c mod 4) mod 4"
  have "?c mod 4 \<in> {0, 1, 2, 3}" "i \<in> {0, 1, 2, 3}" using assms by auto
  then have "(?c mod 4 + n) mod 4 = i" by (auto simp: n_def)
  then have "(?c + n) mod 4 = i" by (simp add: mod_add_left_eq)
  moreover have "n < 4" by (simp add: n_def)
  ultimately show ?thesis using d by blast
qed

definition pool :: "scheduler \<Rightarrow> ('d, 'i, 'p) capability_domain \<Rightarrow> u64 \<Rightarrow> u64 \<Rightarrow> (nat \<times> u64) option \<Rightarrow> nat list \<Rightarrow> nat set" where
  "pool s dm now r best offsets = {i. \<exists>offset\<in>set offsets. i = index_at s offset \<and> eligible s dm now r i} \<union> fst ` set_option best"

lemma pool_simps:
  "pool s dm now r best [] = fst ` set_option best"
  "pool s dm now r best (offset # offsets) =
     (if eligible s dm now r (index_at s offset) then {index_at s offset} else {}) \<union> pool s dm now r best offsets"
  "pool s dm now r (Some b) offsets = {fst b} \<union> pool s dm now r None offsets"
  by (auto simp: pool_def)

definition best_of :: "scheduler \<Rightarrow> u64 \<Rightarrow> nat set \<Rightarrow> nat option \<Rightarrow> bool" where
  "best_of s now P found =
     (case found of None \<Rightarrow> P = {} | Some i \<Rightarrow> i \<in> P \<and> (\<forall>j\<in>P. candidate_score s now j \<le> candidate_score s now i))"

lemma best_of_insert:
  "best_of s now P found \<Longrightarrow> i \<in> P \<Longrightarrow> candidate_score s now j \<le> candidate_score s now i \<Longrightarrow> best_of s now ({j} \<union> P) found"
  by (auto simp: best_of_def split: option.splits)

lemma select_loop_result:
  assumes "\<And>b c. best = Some (b, c) \<Longrightarrow> c = candidate_score s now b"
  shows "best_of s now (pool s dm now r best offsets) (select_loop s dm now r best offsets)"
  using assms
proof (induction offsets arbitrary: best)
  case Nil
  then show ?case by (cases best) (auto simp: best_of_def pool_simps(1))
next
  case (Cons offset offsets)
  let ?i = "index_at s offset"
  let ?new = "(?i, candidate_score s now ?i)"
  have loop: "select_loop s dm now r best (offset # offsets) =
      (if \<not> eligible s dm now r ?i then select_loop s dm now r best offsets
       else if best = None \<or> candidate_score s now ?i > snd (the best) then select_loop s dm now r (Some ?new) offsets
       else select_loop s dm now r best offsets)"
    by (simp add: index_at_def Let_def)
  have kept: "best_of s now (pool s dm now r best offsets) (select_loop s dm now r best offsets)"
    by (rule Cons.IH) (rule Cons.prems)
  have new: "best_of s now (pool s dm now r (Some ?new) offsets) (select_loop s dm now r (Some ?new) offsets)"
    by (rule Cons.IH) simp
  consider "\<not> eligible s dm now r ?i" | "eligible s dm now r ?i" "best = None"
    | b c where "eligible s dm now r ?i" "best = Some (b, c)" by (cases best) auto
  then show ?case
  proof cases
    case 1
    then show ?thesis using kept unfolding loop by (simp add: pool_simps(2))
  next
    case 2
    then show ?thesis using new unfolding loop by (simp add: pool_simps(2, 3))
  next
    case 3
    have c: "c = candidate_score s now b" using Cons.prems 3 by simp
    show ?thesis
    proof (cases "candidate_score s now ?i > c")
      case True
      have "best_of s now ({b} \<union> pool s dm now r (Some ?new) offsets) (select_loop s dm now r (Some ?new) offsets)"
        using True c by (intro best_of_insert [OF new]) (auto simp: pool_simps(3))
      moreover have "{b} \<union> pool s dm now r (Some ?new) offsets = {?i} \<union> pool s dm now r best offsets"
        using 3 by (auto simp: pool_simps(3))
      ultimately show ?thesis using True 3 unfolding loop by (simp add: pool_simps(2))
    next
      case False
      have "best_of s now ({?i} \<union> pool s dm now r best offsets) (select_loop s dm now r best offsets)"
        using False c 3 by (intro best_of_insert [OF kept]) (auto simp: pool_simps(3))
      then show ?thesis using False 3 unfolding loop by (simp add: pool_simps(2))
    qed
  qed
qed

text \<open>Work is never left: a component is chosen exactly when one is eligible, and it has the greatest score of them.\<close>

lemma select_component_result:
  "case select_component s dm now of
     None \<Rightarrow> \<forall>i<4. \<not> eligible s dm now (reserved_cycles s) i
   | Some i \<Rightarrow> i < 4 \<and> eligible s dm now (reserved_cycles s) i \<and>
       (\<forall>j<4. eligible s dm now (reserved_cycles s) j \<longrightarrow> candidate_score s now j \<le> candidate_score s now i)"
proof -
  let ?e = "eligible s dm now (reserved_cycles s)"
  have "pool s dm now (reserved_cycles s) None [0..<4] = {i. i < 4 \<and> ?e i}"
    using index_at_onto [of _ s] index_at_less [of s] unfolding pool_def by force
  moreover have "best_of s now (pool s dm now (reserved_cycles s) None [0..<4]) (select_component s dm now)"
    unfolding select_component_def by (rule select_loop_result [where best = None, simplified])
  ultimately show ?thesis by (auto simp: best_of_def split: option.splits)
qed

section \<open>What a step does to the ages\<close>

type_synonym standing = "scheduler_policy list \<times> u64 list"

definition standing_of :: "scheduler \<Rightarrow> standing" where
  "standing_of s = (sc_policies s, sc_last_run s)"

definition standing :: "('d, 'i, 'p) kernel \<Rightarrow> standing option" where
  "standing k = map_option standing_of (kn_scheduler k)"

lemma standing_emit [simp]: "standing_of (emit_trace s c kind time v) = standing_of s"
  by (simp add: standing_of_def emit_trace_def)

lemma standing_trace [simp]: "map_option standing_of (scheduler_trace s c kind v) = map_option standing_of s"
  by (auto simp: scheduler_trace_def split: option.splits)

lemma standing_frame [simp]: "standing_of (start_frame s now) = standing_of s"
  by (simp add: standing_of_def start_frame_def)

lemma standing_wait [simp]: "standing_of (foldl (trace_wait dm now selected) s js) = standing_of s"
proof (induction js arbitrary: s)
  case (Cons i js)
  have "standing_of (trace_wait dm now selected s i) = standing_of s"
    by (simp add: trace_wait_def Let_def standing_of_def emit_trace_def split: option.splits)
  then show ?case using Cons by simp
qed simp

lemma standing_simps [simp]:
  "standing (with_domain k dm) = standing k"
  "standing (k\<lparr>kn_domain := dm\<rparr>) = standing k"
  "standing (k\<lparr>kn_session := session\<rparr>) = standing k"
  "standing (k\<lparr>kn_current := c\<rparr>) = standing k"
  "standing (k\<lparr>kn_scheduler := s\<rparr>) = map_option standing_of s"
  "standing (fail_session i k) = standing k"
  "standing (end_step copy k) = standing k"
  by (cases "kn_scheduler k"; auto simp: standing_def with_domain_def fail_session_def end_step_def standing_of_def split: option.splits)+

lemma standing_abort: "abort_step rt i old m e (k, world) = (k', world') \<Longrightarrow> standing k' = standing k"
  by (auto simp: abort_step_def Let_def) (simp add: standing_def fail_session_def split: option.splits)

lemma standing_commit: "commit_step rt mp world i k = Some (k', ok) \<Longrightarrow> standing k' = standing k"
  by (auto simp: commit_step_def Let_def split: option.splits bool.splits prod.splits)

lemma standing_handler:
  assumes "addr_checked (wr_valid_addr rt)" "run_handler rt mp i now timer w k = Some (k', w', ok)"
  shows "standing k' = standing k"
proof -
  have "run_frame k' = run_frame k"
    using assms by (auto simp: run_handler_def jani_wasm_instance_call_def Let_def split: prod.splits if_splits option.splits
        dest: run_guest_frame)
  then show ?thesis by (simp add: run_frame_def standing_def)
qed

definition ran :: "nat \<Rightarrow> u64 \<Rightarrow> standing \<Rightarrow> standing" where
  "ran i now st = (fst st, (snd st)[i := now])"

lemma standing_ran: "map_option standing_of (map_option (account i now elapsed) s) = map_option (ran i now) (map_option standing_of s)"
  by (cases s) (simp_all add: account_def ran_def standing_of_def)

lemma finish_standing:
  assumes "(case (if ok then commit_step rt mp world i k else Some (k, False)) of
              None \<Rightarrow> None
            | Some (k5, True) \<Rightarrow> Some ((end_step copy k5, world), 1)
            | Some (k5, False) \<Rightarrow>
                (case abort_step rt i old m e (k5, world) of (k6, world2) \<Rightarrow> Some ((end_step copy k6, world2), -1))) = Some ((k', world'), r)"
  shows "standing k' = standing k"
proof -
  obtain k5 committed where c: "(if ok then commit_step rt mp world i k else Some (k, False)) = Some (k5, committed)"
    using assms by (auto split: option.splits)
  then have "standing k5 = standing k" by (auto split: if_splits dest: standing_commit)
  then show ?thesis using assms unfolding c
    by (auto split: bool.splits prod.splits dest: standing_abort)
qed

lemma step_component_started:
  assumes va: "addr_checked (wr_valid_addr rt)"
    and step: "step_component rt mp t0 t1 now i (k, world) = Some ((k', world'), r)"
    and m: "jani_wasm_instance_memory (wr_memory rt) (world (wasm_instance (item (kn_domain k) i))) = Some (b, n)"
    and a: "kmalloc mp (dm_heap (kn_domain k)) (if n = 0 then 1 else of_nat n) = Some (heap, copy)" "copy \<noteq> 0"
    and g: "capability_domain_begin mp ((kn_domain k)\<lparr>dm_heap := heap\<rparr>) = Some (dm, True)"
  shows "standing k' = map_option (ran i now) (standing k)"
proof -
  define c where "c = item (kn_domain k) i"
  define timer :: u32 where "timer = (if mailbox_used c = 0 then 1 else 0)"
  define k1 where "k1 = with_domain k ((kn_domain k)\<lparr>dm_heap := heap\<rparr>)"
  define k2 where "k2 = (with_domain k1 (set_item dm i (prepare now c)))
      \<lparr>kn_scheduler := scheduler_trace (map_option (\<lambda>s. s\<lparr>sc_running := 1\<rparr>) (kn_scheduler k1)) (Some (prepare now c)) TRACE_RUN
           (if timer \<noteq> 0 then 1 else 2), kn_current := Some (Registered i)\<rparr>"
  have "map_option standing_of (map_option (\<lambda>s. s\<lparr>sc_running := 1\<rparr>) (kn_scheduler k1)) = standing k1"
    by (cases "kn_scheduler k1") (simp_all add: standing_def standing_of_def)
  then have k2: "standing k2 = standing k" by (simp add: k2_def k1_def)
  have g1: "capability_domain_begin mp (kn_domain k1) = Some (dm, True)" using g by (simp add: k1_def with_domain_def)
  note s = step [unfolded step_component_def prod.case Let_def m a option.case, folded k1_def c_def, folded timer_def,
      unfolded g1, simplified a(2) if_False option.case prod.case bool.case, folded k2_def]
  obtain k3 w' ok' where h: "run_handler rt mp i now timer (world (wasm_instance c)) k2 = Some (k3, w', ok')"
    using s by (auto split: option.splits)
  have "standing k3 = standing k" using standing_handler [OF va h] k2 by simp
  then show ?thesis
    using finish_standing [OF s [unfolded h option.case prod.case]] by (simp add: standing_ran standing_def)
qed

lemma step_component_standing:
  assumes va: "addr_checked (wr_valid_addr rt)"
    and step: "step_component rt mp t0 t1 now i (k, world) = Some ((k', world'), r)"
  shows "standing k' = standing k \<and> r = -1 \<or> standing k' = map_option (ran i now) (standing k)"
proof (cases "jani_wasm_instance_memory (wr_memory rt) (world (wasm_instance (item (kn_domain k) i)))")
  case None
  then show ?thesis using step by (simp add: step_component_def)
next
  case (Some m)
  obtain b n where m: "jani_wasm_instance_memory (wr_memory rt) (world (wasm_instance (item (kn_domain k) i))) = Some (b, n)"
    using Some by (cases m) simp
  note s = step [unfolded step_component_def prod.case Let_def m option.case]
  obtain heap copy where a: "kmalloc mp (dm_heap (kn_domain k)) (if n = 0 then 1 else of_nat n) = Some (heap, copy)"
    using s by (auto split: option.splits)
  note s = s [unfolded a option.case prod.case]
  show ?thesis
  proof (cases "copy = 0")
    case True
    then show ?thesis using s by auto
  next
    case False
    then obtain dm ok where g: "capability_domain_begin mp ((kn_domain k)\<lparr>dm_heap := heap\<rparr>) = Some (dm, ok)"
      using s by (auto simp: with_domain_def split: option.splits)
    then show ?thesis
      using s False step_component_started [OF va step m a False] by (cases ok) (auto simp: with_domain_def)
  qed
qed

section \<open>Bounded waiting\<close>

text \<open>The component that a step chooses, and the components it may choose.\<close>

definition chosen :: "('d, 'i, 'p) kernel \<Rightarrow> u64 \<Rightarrow> nat option" where
  "chosen k now = (case kn_scheduler k of None \<Rightarrow> None | Some s \<Rightarrow> select_component (start_frame s now) (kn_domain k) now)"

definition ready :: "('d, 'i, 'p) kernel \<Rightarrow> u64 \<Rightarrow> nat \<Rightarrow> bool" where
  "ready k now i =
     (case kn_scheduler k of
        None \<Rightarrow> False
      | Some s \<Rightarrow> let s1 = start_frame s now in eligible s1 (kn_domain k) now (reserved_cycles s1) i)"

definition score :: "standing \<Rightarrow> u64 \<Rightarrow> nat \<Rightarrow> nat" where
  "score st now i =
     (if interactive (fst st ! i) \<noteq> 0 then 2 ^ 63 else 0) + unat (priority (fst st ! i)) * 8 + min 64 (unat now - unat (snd st ! i))"

lemma candidate_score_unat:
  assumes "priority (sc_policies s ! i) \<le> 7"
  shows "unat (candidate_score s now i) = score (standing_of s) now i"
proof -
  let ?p = "sc_policies s ! i"
  define age where "age = (if now \<ge> sc_last_run s ! i then now - sc_last_run s ! i else 0)"
  have p: "unat (priority ?p) \<le> 7" using assms by (simp add: word_le_nat_alt)
  then have e: "unat (ucast (priority ?p * 8) :: u64) = unat (priority ?p) * 8"
    by (simp add: unsigned_ucast_eq unat_word_ariths take_bit_nat_eq_self)
  have "unat age = unat now - unat (sc_last_run s ! i)"
    by (auto simp: age_def unat_sub word_le_nat_alt)
  then have a: "unat (if age > 64 then 64 else age) = min 64 (unat now - unat (sc_last_run s ! i))"
    by (auto simp: word_less_nat_alt)
  define I :: u64 where "I = (if interactive ?p \<noteq> 0 then push_bit 63 1 else 0)"
  have i: "unat I = (if interactive ?p \<noteq> 0 then 2 ^ 63 else 0)" by (simp add: I_def)
  have "unat (I + ucast (priority ?p * 8) + (if age > 64 then 64 else age)) =
      unat I + unat (priority ?p) * 8 + min 64 (unat now - unat (sc_last_run s ! i))"
    using p by (simp only: unat_word_ariths e a i) (auto simp: i)
  moreover have "candidate_score s now i = I + ucast (priority ?p * 8) + (if age > 64 then 64 else age)"
    unfolding candidate_score_def Let_def age_def I_def ..
  ultimately show ?thesis by (simp only: score_def standing_of_def i fst_conv snd_conv)
qed

lemma chosen_result:
  assumes st: "standing k = Some st" and "\<forall>j<4. priority (fst st ! j) \<le> 7" and i: "i < 4" "ready k now i"
  shows "\<exists>j<4. chosen k now = Some j \<and> ready k now j \<and> score st now i \<le> score st now j"
proof -
  obtain s where s: "kn_scheduler k = Some s" "standing_of s = st" using st by (auto simp: standing_def)
  let ?s = "start_frame s now"
  have p: "priority (sc_policies ?s ! j) \<le> 7" if "j < 4" for j
    using assms(2) s(2) standing_frame [of s now] that by (auto simp: standing_of_def)
  have e: "ready k now j = eligible ?s (kn_domain k) now (reserved_cycles ?s) j" for j by (simp add: ready_def s(1) Let_def)
  have "eligible ?s (kn_domain k) now (reserved_cycles ?s) i" using i(2) e by simp
  then obtain j where j: "select_component ?s (kn_domain k) now = Some j" "j < 4" "eligible ?s (kn_domain k) now (reserved_cycles ?s) j"
      "candidate_score ?s now i \<le> candidate_score ?s now j"
    using select_component_result [of ?s "kn_domain k" now] i(1) by (auto split: option.splits)
  have "score st now i \<le> score st now j"
    using j(2, 4) i(1) p by (simp add: word_le_nat_alt candidate_score_unat s(2))
  then show ?thesis using j e by (auto simp: chosen_def s(1))
qed

text \<open>
  What a step needs to reach the handler of component \<open>i\<close>: the scheduler is idle, the domain is not halted, the
  instance has a memory, there is room for the copy of it and a transaction begins.
\<close>

definition can_start :: "('m, 'w) wasm_runtime \<Rightarrow> 'p map_page \<Rightarrow> ('i, 'w) world \<Rightarrow> u64 \<Rightarrow> ('d, 'i, 'p) kernel \<Rightarrow> nat \<Rightarrow> bool" where
  "can_start rt mp world now k i =
     (case kn_scheduler k of
        None \<Rightarrow> False
      | Some s \<Rightarrow>
          sc_running s = 0 \<and> halted (kn_domain k) = 0 \<and> sc_frame_start s \<le> now \<and>
          (case jani_wasm_instance_memory (wr_memory rt) (world (wasm_instance (item (kn_domain k) i))) of
             None \<Rightarrow> False
           | Some (bytes, n) \<Rightarrow>
               (case kmalloc mp (dm_heap (kn_domain k)) (if n = 0 then 1 else of_nat n) of
                  None \<Rightarrow> False
                | Some (heap, copy) \<Rightarrow>
                    copy \<noteq> 0 \<and>
                    (case capability_domain_begin mp ((kn_domain k)\<lparr>dm_heap := heap\<rparr>) of None \<Rightarrow> False | Some (dm, ok) \<Rightarrow> ok))))"

lemma scheduler_step_standing:
  assumes va: "addr_checked (wr_valid_addr rt)" and step: "scheduler_step rt mp t0 t1 now (k, world) = Some ((k', world'), r)"
    and r: "r = 1 \<or> can_start rt mp world now k j" and j: "chosen k now = Some j"
  shows "standing k' = map_option (ran j now) (standing k)"
proof -
  obtain s where s: "kn_scheduler k = Some s" using j by (auto simp: chosen_def split: option.splits)
  let ?k = "k\<lparr>kn_scheduler := Some (foldl (trace_wait (kn_domain k) now (Some j)) (start_frame s now) [0..<COMPONENT_MAX])\<rparr>"
  have f: "standing ?k = standing k" by (simp add: s standing_def)
  have d: "if sc_running s \<noteq> 0 \<or> halted (kn_domain k) \<noteq> 0 \<or> now < sc_frame_start s then r = -1
      else step_component rt mp t0 t1 now j (?k, world) = Some ((k', world'), r)"
    using step j s by (auto simp: scheduler_step_def chosen_def Let_def)
  show ?thesis
  proof (cases "r = 1")
    case True
    then have "step_component rt mp t0 t1 now j (?k, world) = Some ((k', world'), 1)" using d by (auto split: if_splits)
    from step_component_standing [OF va this] show ?thesis unfolding f by simp
  next
    case False
    then have c: "can_start rt mp world now k j" using r by simp
    then have st: "step_component rt mp t0 t1 now j (?k, world) = Some ((k', world'), r)"
      using d s by (auto simp: can_start_def not_less split: if_splits)
    obtain b n where m: "jani_wasm_instance_memory (wr_memory rt) (world (wasm_instance (item (kn_domain ?k) j))) = Some (b, n)"
      using c s by (auto simp: can_start_def split: option.splits)
    note c = c [unfolded can_start_def s option.case prod.case]
    obtain heap copy where a: "kmalloc mp (dm_heap (kn_domain ?k)) (if n = 0 then 1 else of_nat n) = Some (heap, copy)"
      using c m by (auto split: option.splits)
    then obtain dm where "copy \<noteq> 0" "capability_domain_begin mp ((kn_domain ?k)\<lparr>dm_heap := heap\<rparr>) = Some (dm, True)"
      using c m by (simp split: option.splits prod.splits)
    from step_component_started [OF va st m a this] show ?thesis unfolding f .
  qed
qed

text \<open>A component that ran within the last eight ticks scores less than one of its kind that waits for 64.\<close>

lemma recent_scores_less:
  assumes "priority (fst st ! j) \<le> 7" "unat now - unat (snd st ! j) < 8" "64 \<le> unat now - unat (snd st ! i)"
    and "interactive (fst st ! j) \<noteq> 0 \<longrightarrow> interactive (fst st ! i) \<noteq> 0"
  shows "score st now j < score st now i"
proof -
  have "unat (priority (fst st ! j)) \<le> 7" using assms(1) by (simp add: word_le_nat_alt)
  then show ?thesis using assms(2-4) by (auto simp: score_def)
qed

text \<open>Who ran at one of the first \<open>n\<close> steps, and when: with every step the component \<open>c n\<close> runs at time \<open>now n\<close>.\<close>

fun after_steps :: "(nat \<Rightarrow> nat) \<Rightarrow> (nat \<Rightarrow> u64) \<Rightarrow> standing \<Rightarrow> nat \<Rightarrow> standing" where
  "after_steps c now st 0 = st"
| "after_steps c now st (Suc n) = ran (c n) (now n) (after_steps c now st n)"

lemma after_steps_simps:
  "fst (after_steps c now st n) = fst st"
  "length (snd (after_steps c now st n)) = length (snd st)"
  "(\<And>m. m < n \<Longrightarrow> c m \<noteq> i) \<Longrightarrow> snd (after_steps c now st n) ! i = snd st ! i"
  by (induction n) (auto simp: ran_def)

lemma after_steps_recent:
  assumes "m < n" "c m < length (snd st)" "\<And>m. m < n \<Longrightarrow> now 0 \<le> now m"
  shows "now 0 \<le> snd (after_steps c now st n) ! c m"
  using assms
proof (induction n)
  case (Suc n)
  have "now 0 \<le> snd (after_steps c now st n) ! c m" if "c m \<noteq> c n"
    using that Suc by (metis less_antisym less_Suc_eq)
  then show ?case using Suc.prems by (cases "c m = c n") (auto simp: ran_def after_steps_simps(2))
qed simp

text \<open>Four steps cannot choose three others without a repetition.\<close>

lemma repetition:
  fixes c :: "nat \<Rightarrow> nat"
  assumes "\<And>n. n < 4 \<Longrightarrow> c n < 4 \<and> c n \<noteq> i" "i < 4"
  shows "\<exists>m n. m < n \<and> n < 4 \<and> c m = c n"
proof (rule ccontr)
  assume "\<not> ?thesis"
  then have "inj_on c {..<4}" by (auto simp: inj_on_def) (metis nat_neq_iff)
  moreover have "c ` {..<4} \<subseteq> {..<4} - {i}" using assms(1) by auto
  ultimately have "card {..<4 :: nat} \<le> card ({..<4 :: nat} - {i})" by (intro card_inj_on_le) auto
  then show False using assms(2) by simp
qed

lemma some_step_chooses:
  assumes i: "i < 4" and st: "length (snd st) = 4" "\<forall>j<4. priority (fst st ! j) \<le> 7"
    and times: "\<forall>n<4. now 0 \<le> now n \<and> unat (now n) < unat (now 0) + 8" and old: "unat (snd st ! i) + 64 \<le> unat (now 0)"
    and c: "\<And>n. n < 4 \<Longrightarrow> c n < 4 \<and> (interactive (fst st ! c n) \<noteq> 0 \<longrightarrow> interactive (fst st ! i) \<noteq> 0) \<and>
      score (after_steps c now st n) (now n) i \<le> score (after_steps c now st n) (now n) (c n)"
  shows "\<exists>n<4. c n = i"
proof (rule ccontr)
  assume "\<not> ?thesis"
  then have no: "\<And>n. n < 4 \<Longrightarrow> c n \<noteq> i" by auto
  with c i obtain m n where mn: "m < n" "n < 4" "c m = c n" using repetition [of c i] by auto
  let ?st = "after_steps c now st n"
  have "now 0 \<le> snd ?st ! c n"
    using after_steps_recent [of m n c st now] mn c [of m] st(1) times by auto
  then have "unat (now n) - unat (snd ?st ! c n) < 8" using times mn(2) by (auto simp: word_le_nat_alt)
  moreover have "snd ?st ! i = snd st ! i" using no mn(2) by (intro after_steps_simps(3)) auto
  moreover have "unat (now 0) \<le> unat (now n)" using times mn(2) by (auto simp: word_le_nat_alt)
  ultimately have "score ?st (now n) (c n) < score ?st (now n) i"
    using old st(2) c [OF mn(2)] by (intro recent_scores_less) (auto simp: after_steps_simps(1))
  then show False using c [OF mn(2)] by simp
qed

text \<open>
  C39: no component is starved by priorities, when the runtime checks addresses. A component that has not run
  for 64 ticks is chosen by one of the next four steps, when these fall within eight ticks, whatever the
  priorities of the others, under these conditions: until its turn it stays ready, that is it has a message or
  a timer that is due and cycles are left for it; no interactive component is ready meanwhile unless it is
  interactive itself, since interactivity outranks every age; and the steps before its turn reach the handler
  of the component that they choose, with memory for the copy and a transaction that begins. That handler may
  fail and its effects may be undone, the step has still moved its component back. What happens between the
  steps leaves the policies and the times of the last runs alone. The step that chooses the component,
  when it reaches the handler or reports success, records the component as run at this time, whether the
  handler succeeds or not.
\<close>

theorem waiting_component_runs:
  assumes va: "\<forall>n p l. wr_valid_addr rt n p l \<longrightarrow> unat p + unat l \<le> n"
    and s: "kn_scheduler (K 0) = Some s" "length (sc_last_run s) = 4" "\<forall>j<4. priority (sc_policies s ! j) \<le> 7"
    and i: "i < 4" "unat (sc_last_run s ! i) + 64 \<le> unat (now 0)"
    and times: "\<forall>n<4. now 0 \<le> now n \<and> unat (now n) < unat (now 0) + 8"
    and waiting: "\<forall>n<4. (\<forall>m<n. chosen (K m) (now m) \<noteq> Some i) \<longrightarrow> ready (K n) (now n) i \<and>
      (\<forall>j<4. ready (K n) (now n) j \<longrightarrow> interactive (sc_policies s ! j) \<noteq> 0 \<longrightarrow> interactive (sc_policies s ! i) \<noteq> 0)"
    and steps: "\<forall>n<3. \<forall>j. (\<forall>m\<le>n. chosen (K m) (now m) \<noteq> Some i) \<longrightarrow> chosen (K n) (now n) = Some j \<longrightarrow>
      can_start rt mp (world n) (now n) (K n) j \<and>
      scheduler_step rt mp (t0 n) (t1 n) (now n) (K n, world n) = Some ((K' n, world' n), r n) \<and> standing (K (Suc n)) = standing (K' n)"
  shows "\<exists>n<4. chosen (K n) (now n) = Some i \<and>
    (\<forall>mp t0 t1 world k' world' r. scheduler_step rt mp t0 t1 (now n) (K n, world) = Some ((k', world'), r) \<and>
       (r = 1 \<or> can_start rt mp world (now n) (K n) i) \<longrightarrow> sc_last_run (the (kn_scheduler k')) ! i = now n)"
proof -
  have va': "addr_checked (wr_valid_addr rt)" using va by (simp add: addr_checked_def)
  let ?c = "\<lambda>n. the (chosen (K n) (now n))"
  define st where "st = standing_of s"
  have st: "length (snd st) = 4" "\<forall>j<4. priority (fst st ! j) \<le> 7" "unat (snd st ! i) + 64 \<le> unat (now 0)"
    using s i by (simp_all add: st_def standing_of_def)
  have run: "standing (K n) = Some (after_steps ?c now st n) \<and>
      (\<exists>j<4. chosen (K n) (now n) = Some j \<and> ready (K n) (now n) j \<and>
         score (after_steps ?c now st n) (now n) i \<le> score (after_steps ?c now st n) (now n) j)"
    if "n < 4" "\<forall>m<n. chosen (K m) (now m) \<noteq> Some i" for n
    using that
  proof (induction n)
    case 0
    have "standing (K 0) = Some st" by (simp add: standing_def s(1) st_def)
    then show ?case using chosen_result [of "K 0" st i "now 0"] st(2) i(1) waiting 0 by auto
  next
    case (Suc n)
    then obtain j where j: "chosen (K n) (now n) = Some j" "standing (K n) = Some (after_steps ?c now st n)" by auto
    have n: "n < 3" "\<forall>m\<le>n. chosen (K m) (now m) \<noteq> Some i" using Suc.prems by auto
    then have "standing (K' n) = map_option (ran j (now n)) (standing (K n))" "standing (K (Suc n)) = standing (K' n)"
      using steps j(1) scheduler_step_standing [OF va', of mp "t0 n" "t1 n" "now n" "K n" "world n" "K' n" "world' n" "r n" j] by blast+
    then have k: "standing (K (Suc n)) = Some (after_steps ?c now st (Suc n))" using j by simp
    have "ready (K (Suc n)) (now (Suc n)) i" using waiting Suc.prems by blast
    moreover have "\<forall>j<4. priority (fst (after_steps ?c now st (Suc n)) ! j) \<le> 7" unfolding after_steps_simps(1) by (rule st(2))
    ultimately show ?case using chosen_result [OF k _ i(1)] k by blast
  qed
  have "\<exists>n<4. chosen (K n) (now n) = Some i"
  proof (rule ccontr)
    assume "\<not> ?thesis"
    then have no: "\<And>n. n < 4 \<Longrightarrow> chosen (K n) (now n) \<noteq> Some i" by blast
    have "\<exists>n<4. ?c n = i"
    proof (rule some_step_chooses [OF i(1) st(1,2) times st(3)])
      fix n :: nat assume n: "n < 4"
      from run [OF n] no n obtain j where "j < 4" "chosen (K n) (now n) = Some j" "ready (K n) (now n) j"
        "score (after_steps ?c now st n) (now n) i \<le> score (after_steps ?c now st n) (now n) j" by auto
      then show "?c n < 4 \<and> (interactive (fst st ! ?c n) \<noteq> 0 \<longrightarrow> interactive (fst st ! i) \<noteq> 0) \<and>
          score (after_steps ?c now st n) (now n) i \<le> score (after_steps ?c now st n) (now n) (?c n)"
        using waiting n no by (auto simp: st_def standing_of_def)
    qed
    then obtain n where n: "n < 4" "?c n = i" by blast
    with run [OF n(1)] no show False by auto
  qed
  then obtain n where n: "n < 4" "chosen (K n) (now n) = Some i" "\<forall>m<n. chosen (K m) (now m) \<noteq> Some i"
    using exists_least_iff [of "\<lambda>n. n < 4 \<and> chosen (K n) (now n) = Some i"] by auto
  have "sc_last_run (the (kn_scheduler k')) ! i = now n"
    if "scheduler_step rt mp t0 t1 (now n) (K n, world) = Some ((k', world'), r) \<and> (r = 1 \<or> can_start rt mp world (now n) (K n) i)"
    for mp t0 t1 world k' world' r
  proof -
    have "standing k' = Some (ran i (now n) (after_steps ?c now st n))"
      using scheduler_step_standing [OF va' conjunct1 [OF that] conjunct2 [OF that] n(2)] run [OF n(1,3)] by simp
    then show ?thesis using i(1) st(1) by (auto simp: standing_def standing_of_def ran_def after_steps_simps(2))
  qed
  then show ?thesis using n(1,2) by blast
qed

text \<open>
  Two components have a message. Component 1 has the priority 7 and is chosen first, its handler
  is missing and it fails; then component 0 is chosen.
\<close>

definition sample_runtime :: "(unit, unit) wasm_runtime" where
  "sample_runtime = \<lparr>wr_load = (\<lambda>_. None), wr_instantiate = (\<lambda>_. None), wr_exec_env = (\<lambda>_. True),
     wr_memory = (\<lambda>_. Some (Some (replicate 24 0), 1, 24)), wr_set_memory = (\<lambda>w _. w), wr_enlarge = (\<lambda>_ _. None),
     wr_lookup = (\<lambda>_ _. None), wr_call = (\<lambda>w _. Return w True), wr_valid_addr = sample_addr\<rparr>"

definition sample_scheduler :: scheduler where
  "sample_scheduler = (fresh_scheduler 10 1000)\<lparr>sc_frame_start := 100, sc_frame_ticks := 1000,
     sc_policies := [\<lparr>interactive = 0, priority = 0, budget_cycles = 250\<rparr>, \<lparr>interactive = 0, priority = 7, budget_cycles = 250\<rparr>,
       \<lparr>interactive = 0, priority = 0, budget_cycles = 250\<rparr>, \<lparr>interactive = 0, priority = 0, budget_cycles = 250\<rparr>]\<rparr>"

definition sample_waiting :: "unit component" where
  "sample_waiting = sample_member\<lparr>mailbox_used := 1, exited := 0\<rparr>"

definition sample_pair :: "scheduler \<Rightarrow> (unit, unit, unit) kernel" where
  "sample_pair s = sample_kernel\<lparr>kn_scheduler := Some s,
     kn_domain := sample_domain\<lparr>components := \<lparr>items = [Some sample_waiting, Some sample_waiting, None, None], set_count = 2\<rparr>\<rparr>\<rparr>"

lemma sample_runnable:
  "i < 4 \<Longrightarrow> runnable (dm_store sample_domain) ([Some sample_waiting, Some sample_waiting, None, None] ! i) now \<longleftrightarrow> i < 2"
  using sample_fenced by (auto simp: runnable_def sample_waiting_def nth_Cons split: nat.splits)

lemma sample_ready:
  assumes "sc_policies s = sc_policies sample_scheduler" "sc_used s = replicate 4 0" "sc_consumed s = 0" "sc_frame_cycles s = 1000"
    "start_frame s now = s" "i < 4"
  shows "ready (sample_pair s) now i \<longleftrightarrow> i < 2" "reserved_cycles s = 0"
proof -
  show r: "reserved_cycles s = 0" using assms(1,2) by (simp add: reserved_cycles_def sample_scheduler_def upt_rec)
  have "eligible s (kn_domain (sample_pair s)) now 0 i \<longleftrightarrow> i < 2"
    using assms sample_runnable [of i now] by (auto simp: eligible_def Let_def sample_pair_def sample_scheduler_def nth_Cons split: nat.splits)
  then show "ready (sample_pair s) now i \<longleftrightarrow> i < 2" using r assms(5) by (simp add: ready_def sample_pair_def)
qed

lemma sample_choice:
  assumes "s = sample_scheduler\<lparr>sc_last_run := l\<rparr>" "length l = 4" "i < 2" "j < 2" "i \<noteq> j"
    "score (sc_policies sample_scheduler, l) 100 j < score (sc_policies sample_scheduler, l) 100 i"
  shows "chosen (sample_pair s) 100 = Some i"
proof -
  have st: "standing (sample_pair s) = Some (sc_policies sample_scheduler, l)"
    by (simp add: standing_def sample_pair_def standing_of_def assms(1))
  have r: "ready (sample_pair s) 100 m \<longleftrightarrow> m < 2" if "m < 4" for m
    using that assms(1) by (intro sample_ready(1)) (simp_all add: start_frame_def sample_scheduler_def fresh_scheduler_def)
  have "\<forall>m<4. priority (fst (sc_policies sample_scheduler, l) ! m) \<le> 7"
    by (auto simp: sample_scheduler_def nth_Cons split: nat.splits)
  from chosen_result [OF st this, of i 100] r assms(3)
  obtain m where m: "m < 2" "chosen (sample_pair s) 100 = Some m"
      "score (sc_policies sample_scheduler, l) 100 i \<le> score (sc_policies sample_scheduler, l) 100 m" by auto
  then have "m = i \<or> m = j" using assms(3-5) by arith
  then have "m = i" using m(3) assms(6) by auto
  then show ?thesis using m by simp
qed

lemma sample_choices:
  "chosen (sample_pair sample_scheduler) 100 = Some 1"
  "chosen (sample_pair (sample_scheduler\<lparr>sc_last_run := [0, 100, 0, 0]\<rparr>)) 100 = Some 0"
proof -
  have l: "sc_last_run sample_scheduler = [0, 0, 0, 0]"
    by (simp add: sample_scheduler_def fresh_scheduler_def numeral_eq_Suc)
  have "sample_scheduler = sample_scheduler\<lparr>sc_last_run := [0, 0, 0, 0]\<rparr>" using l by simp
  then show "chosen (sample_pair sample_scheduler) 100 = Some 1"
    by (rule sample_choice [where j = 0]) (simp_all add: score_def sample_scheduler_def)
  show "chosen (sample_pair (sample_scheduler\<lparr>sc_last_run := [0, 100, 0, 0]\<rparr>)) 100 = Some 0"
    by (rule sample_choice [where j = 1, OF refl]) (simp_all add: score_def sample_scheduler_def)
qed

lemma failing_handler_returns:
  fixes k :: "('d, 'i, 'p) kernel"
  assumes m: "jani_wasm_instance_memory (wr_memory rt) (world (wasm_instance (item (kn_domain k) i))) = Some (b, n)"
    and a: "kmalloc mp (dm_heap (kn_domain k)) (if n = 0 then 1 else of_nat n) = Some (heap, copy)" "copy \<noteq> 0"
    and g: "capability_domain_begin mp ((kn_domain k)\<lparr>dm_heap := heap\<rparr>) = Some (dm, True)"
    and r: "\<And>t (q :: ('d, 'i, 'p) kernel). kn_session q = None \<Longrightarrow>
      run_handler rt mp i now t (world (wasm_instance (item (kn_domain k) i))) q = Some (q, w, False)"
    and k: "kn_session k = None"
  shows "\<exists>k' world' r. step_component rt mp t0 t1 now i (k, world) = Some ((k', world'), r)"
proof -
  have g1: "capability_domain_begin mp (kn_domain (with_domain k ((kn_domain k)\<lparr>dm_heap := heap\<rparr>))) = Some (dm, True)"
    using g by (simp add: with_domain_def)
  have "kn_session (with_domain (with_domain k d) e) = None" for d e using k by (simp add: with_domain_def)
  then show ?thesis unfolding step_component_def prod.case Let_def m a option.case g1
    using a(2) by (simp add: r split: prod.splits)
qed

lemma sample_step:
  "\<exists>k' world' r. scheduler_step sample_runtime sample_pages 0 5 100 (sample_pair sample_scheduler, \<lambda>_. ()) = Some ((k', world'), r) \<and>
     can_start sample_runtime sample_pages (\<lambda>_. ()) 100 (sample_pair sample_scheduler) 1 \<and>
     standing k' = Some (ran 1 100 (standing_of sample_scheduler))"
proof -
  let ?k = "(sample_pair sample_scheduler)\<lparr>kn_scheduler :=
      Some (foldl (trace_wait (kn_domain (sample_pair sample_scheduler)) 100 (Some 1)) sample_scheduler [0..<COMPONENT_MAX])\<rparr>"
  let ?w = "\<lambda>_ :: unit. ()"
  have f: "start_frame sample_scheduler 100 = sample_scheduler" by (simp add: start_frame_def sample_scheduler_def)
  have h: "kn_scheduler (sample_pair sample_scheduler) = Some sample_scheduler" by (simp add: sample_pair_def)
  have sel: "select_component sample_scheduler (kn_domain (sample_pair sample_scheduler)) 100 = Some 1"
    using sample_choices(1) by (simp add: chosen_def h f)
  have g: "\<not> (sc_running sample_scheduler \<noteq> 0 \<or> halted (kn_domain (sample_pair sample_scheduler)) \<noteq> 0 \<or> 100 < sc_frame_start sample_scheduler)"
    by (simp add: sample_scheduler_def fresh_scheduler_def sample_pair_def sample_domain_def)
  have step: "scheduler_step sample_runtime sample_pages 0 5 100 (sample_pair sample_scheduler, ?w) =
      step_component sample_runtime sample_pages 0 5 100 1 (?k, ?w)"
    using g unfolding scheduler_step_def prod.case h option.case f sel Let_def by (simp only: if_False option.case)
  have m: "jani_wasm_instance_memory (wr_memory sample_runtime) () = Some (replicate 24 0, 24)"
    by (simp add: jani_wasm_instance_memory_def sample_runtime_def)
  have a: "kmalloc sample_pages (dm_heap (kn_domain ?k)) (if (24 :: nat) = 0 then 1 else of_nat 24) = Some (sample_one, 0x200010)"
    using sample_one_alloc by (simp add: sample_pair_def sample_domain_def)
  have "map_option snd (kmalloc sample_pages sample_one (SIZEOF_COMPONENT * of_nat COMPONENT_MAX)) = Some 0x200040"
    by code_simp
  then obtain h2 where "kmalloc sample_pages sample_one (SIZEOF_COMPONENT * of_nat COMPONENT_MAX) = Some (h2, 0x200040)" by auto
  then obtain dm where b: "capability_domain_begin sample_pages ((kn_domain ?k)\<lparr>dm_heap := sample_one\<rparr>) = Some (dm, True)"
    by (simp add: capability_domain_begin_def sample_pair_def sample_domain_def object_store_requires_recovery_def sample_bitmap_store_def)
  have r: "run_handler sample_runtime sample_pages 1 100 t () k = Some (k, (), False)" if "kn_session k = None"
    for t and k :: "(unit, unit, unit) kernel"
    using that by (simp add: run_handler_def replay_handler_def jani_wasm_instance_call_def jani_wasm_instance_has_handler_def
        sample_runtime_def Let_def)
  have n: "kn_session ?k = None" by (simp add: sample_pair_def sample_kernel_def)
  have z: "(0x200010 :: u64) \<noteq> 0" by simp
  have "\<exists>k' world' r. step_component sample_runtime sample_pages 0 5 100 1 (?k, ?w) = Some ((k', world'), r)"
    by (rule failing_handler_returns [OF m a z b r n])
  then obtain k' world' r where out: "step_component sample_runtime sample_pages 0 5 100 1 (?k, ?w) = Some ((k', world'), r)" by blast
  moreover have "standing k' = Some (ran 1 100 (standing_of sample_scheduler))"
    using step_component_started [OF _ out m a _ b] by (simp add: addr_checked_def standing_def) (simp add: sample_runtime_def)
  moreover have "can_start sample_runtime sample_pages ?w 100 (sample_pair sample_scheduler) 1"
    using g m a b by (simp add: can_start_def h not_less)
  ultimately show ?thesis unfolding step by blast
qed

definition sample_turns :: "nat \<Rightarrow> (unit, unit, unit) kernel" where
  "sample_turns n = sample_pair (if n = 0 then sample_scheduler else sample_scheduler\<lparr>sc_last_run := [0, 100, 0, 0]\<rparr>)"

theorem waiting_component_runs_witness:
  "chosen (sample_turns 0) 100 = Some 1 \<and> (\<exists>n<4. chosen (sample_turns n) 100 = Some 0)"
proof -
  have c: "chosen (sample_turns 0) 100 = Some 1" "n \<noteq> 0 \<Longrightarrow> chosen (sample_turns n) 100 = Some 0" for n
    using sample_choices by (simp_all add: sample_turns_def)
  obtain k' world' r where step: "scheduler_step sample_runtime sample_pages 0 5 100 (sample_turns 0, \<lambda>_. ()) = Some ((k', world'), r)"
      "can_start sample_runtime sample_pages (\<lambda>_. ()) 100 (sample_turns 0) 1" "standing k' = Some (ran 1 100 (standing_of sample_scheduler))"
    using sample_step by (auto simp: sample_turns_def)
  have l: "sc_last_run sample_scheduler = [0, 0, 0, 0]"
    by (simp add: sample_scheduler_def fresh_scheduler_def numeral_eq_Suc)
  have last: "standing (sample_turns (Suc 0)) = standing k'"
    using step(3) l by (auto simp: standing_def standing_of_def ran_def sample_turns_def sample_pair_def)
  have f: "start_frame s 100 = s" if "sc_frame_start s = 100" "sc_frame_ticks s = 1000" for s
    using that by (simp add: start_frame_def)
  have "ready (sample_turns n) 100 0" for n
    unfolding sample_turns_def
    by (rule sample_ready(1) [THEN iffD2]) (simp_all add: f, simp_all add: sample_scheduler_def fresh_scheduler_def f)
  then have "\<exists>n<4. chosen (sample_turns n) 100 = Some 0 \<and> (\<forall>mp t0 t1 world k' world' r.
      scheduler_step sample_runtime mp t0 t1 100 (sample_turns n, world) = Some ((k', world'), r) \<and>
      (r = 1 \<or> can_start sample_runtime mp world 100 (sample_turns n) 0) \<longrightarrow> sc_last_run (the (kn_scheduler k')) ! 0 = 100)"
    using step(1,2) last c l
    by (intro waiting_component_runs [where K = sample_turns and s = sample_scheduler and now = "\<lambda>_. 100" and K' = "\<lambda>_. k'"
          and world = "\<lambda>_ _. ()" and world' = "\<lambda>_. world'" and r = "\<lambda>_. r" and ?t0.0 = "\<lambda>_. 0" and ?t1.0 = "\<lambda>_. 5" and mp = sample_pages])
      (auto simp: sample_runtime_def sample_turns_def sample_pair_def sample_scheduler_def nth_Cons split: nat.splits)
  then show ?thesis using c by auto
qed

end
