(* ===== verification/Replay_Run.thy ===== *)
theory Replay_Run
  imports Scheduler
begin

text \<open>
  Sessions of recording and replay, \<^verbatim>\<open>kernel/replay/record.c\<close>: starting and stopping a
  recording, verifying it by a second run of the component that is answered from the log, and keeping
  it in the object store. The session is the current one of the kernel and its owner is a registered
  component. The copy of the component that \<open>replay_verify\<close> runs is outside of the domain, so it runs
  \<open>Alone\<close>, at the address \<open>COMPONENT_MAX\<close>. A state that a session owns is its bytes with the address
  of the buffer.
\<close>

section \<open>Starting and stopping\<close>

definition COMPONENT_SEQUENCE_ID_HIGH :: u64 where "COMPONENT_SEQUENCE_ID_HIGH = 2"
definition COMPONENT_TYPE_MODULE :: u64 where "COMPONENT_TYPE_MODULE = 3"

definition with_heap :: "('d, 'i, 'p) kernel \<Rightarrow> 'p heap \<Rightarrow> ('d, 'i, 'p) kernel" where
  "with_heap k h = k\<lparr>kn_domain := (kn_domain k)\<lparr>dm_heap := h\<rparr>\<rparr>"

definition with_store :: "('d, 'i, 'p) kernel \<Rightarrow> 'd object_store \<Rightarrow> ('d, 'i, 'p) kernel" where
  "with_store k store = k\<lparr>kn_domain := (kn_domain k)\<lparr>dm_store := store\<rparr>\<rparr>"

definition zero_session :: replay_session where
  "zero_session = \<lparr>rs_mode = REPLAY_OFF, rs_owner = None, rs_bytes = replicate REPLAY_BYTES 0, rs_used = 0, rs_cursor = 0, rs_sequence = 0,
     rs_failed = False, rs_initial = None, rs_initial_size = 0, rs_module_id = Object_Id 0 0, rs_expected = None, rs_expected_size = 0,
     rs_initial_address = 0, rs_expected_address = 0\<rparr>"

definition replay_start ::
    "('m, 'w) wasm_runtime \<Rightarrow> 'p map_page \<Rightarrow> ('i, 'w) world \<Rightarrow> nat \<Rightarrow> ('d, 'i, 'p) kernel \<Rightarrow> (('d, 'i, 'p) kernel \<times> bool) option" where
  "replay_start rt mp world i k =
     (case items (components (kn_domain k)) ! i of
        None \<Rightarrow> Some (k, False)
      | Some owner \<Rightarrow>
          if high (root_id owner) \<noteq> COMPONENT_SEQUENCE_ID_HIGH \<or> kn_session k \<noteq> None \<or> active (kn_domain k) \<noteq> 0 then Some (k, False)
          else case jani_wasm_instance_memory (wr_memory rt) (world (wasm_instance owner)) of
            None \<Rightarrow> Some (k, False)
          | Some (bytes, n) \<Rightarrow>
              let initial_size = instance_state_size n (mailbox_used owner) in
              (case kmalloc mp (dm_heap (kn_domain k)) (of_nat initial_size) of
                 None \<Rightarrow> None
               | Some (h, initial) \<Rightarrow>
                   if initial = 0 then Some (with_heap k h, False)
                   else case instance_state_serialize owner (Some bytes) n initial_size of
                     None \<Rightarrow> Some (with_heap k (kfree h initial), False)
                   | Some state \<Rightarrow>
                       Some ((with_heap k h)\<lparr>kn_session := Some (zero_session\<lparr>rs_mode := REPLAY_RECORD, rs_owner := Some i,
                               rs_initial := Some state, rs_initial_size := initial_size, rs_initial_address := initial,
                               rs_module_id := module_id owner\<rparr>)\<rparr>, True)))"

definition replay_stop :: "('d, 'i, 'p) kernel \<Rightarrow> ('d, 'i, 'p) kernel" where
  "replay_stop k =
     (case kn_session k of
        None \<Rightarrow> k
      | Some s \<Rightarrow> (with_heap k (kfree (kfree (dm_heap (kn_domain k)) (rs_initial_address s)) (rs_expected_address s)))\<lparr>kn_session := None\<rparr>)"

section \<open>Verifying a recording\<close>

text \<open>The copy of the component and its instance with the recorded state.\<close>

definition replay_restore :: "('m, 'w) wasm_runtime \<Rightarrow> replay_session \<Rightarrow> 'i component \<Rightarrow> 'w \<Rightarrow> ('i component \<times> 'w) option" where
  "replay_restore rt s copy w =
     (case instance_state_header_validate (rs_initial s) (rs_initial_size s) of
        None \<Rightarrow> None
      | Some (memory_offset, needed) \<Rightarrow>
          (case jani_wasm_instance_memory_grow rt w needed of
             None \<Rightarrow> None
           | Some w1 \<Rightarrow>
               (case jani_wasm_instance_memory (wr_memory rt) w1 of
                  None \<Rightarrow> None
                | Some (bytes, n) \<Rightarrow>
                    (case instance_state_deserialize copy (Some bytes) n (rs_initial s) (rs_initial_size s) of
                       None \<Rightarrow> None
                     | Some (copy1, mem) \<Rightarrow> Some (copy1, wr_set_memory rt w1 mem)))))"

text \<open>The loop over the handlers of the log.\<close>

partial_function (option) verify_loop ::
    "('m, 'w) wasm_runtime \<Rightarrow> 'p map_page \<Rightarrow> 'i component \<Rightarrow> 'w \<Rightarrow> ('d, 'i, 'p) kernel \<Rightarrow> (('d, 'i, 'p) kernel \<times> 'w) option" where
  "verify_loop rt mp copy w k =
     (case kn_session k of
        None \<Rightarrow> Some (k, w)
      | Some s \<Rightarrow>
          if rs_cursor s \<ge> rs_used s then Some (k, w)
          else let r = decode_replay_record (bslice (rs_cursor s) REPLAY_RECORD_SIZE (rs_bytes s));
                   now = rr_arguments r ! 0; timer = rr_arguments r ! 1
            in if rr_kind r \<noteq> 0 \<or> timer > 1 then Some (k\<lparr>kn_session := Some (s\<lparr>rs_failed := True\<rparr>)\<rparr>, w)
               else case replay_handler (Some s) COMPONENT_MAX now (ucast timer) of
                 (session, recorded) \<Rightarrow>
                   if \<not> recorded then Some (k\<lparr>kn_session := session\<rparr>, w)
                   else let k1 = jani_wasm_set_current_component (Some (Alone (copy\<lparr>logical_time := now\<rparr>))) (k\<lparr>kn_session := session\<rparr>) in
                     case jani_wasm_instance_call rt mp w (handler_name (ucast timer)) k1 of
                       None \<Rightarrow> None
                     | Some (k2, w1, ok) \<Rightarrow>
                         if \<not> ok then Some (k2\<lparr>kn_session := map_option (\<lambda>s. s\<lparr>rs_failed := True\<rparr>) (kn_session k2)\<rparr>, w1)
                         else verify_loop rt mp (this k2) w1 k2)"

text \<open>The memory that the copy must end with: that of the saved final state, or that of the running component.\<close>

definition replay_expected :: "('m, 'w) wasm_runtime \<Rightarrow> replay_session \<Rightarrow> 'w \<Rightarrow> (bytes \<times> nat) option" where
  "replay_expected rt s running_instance =
     (case rs_expected s of
        Some e \<Rightarrow>
          (case instance_state_header_validate (Some e) (rs_expected_size s) of
             None \<Rightarrow> None
           | Some (offset, expected_size) \<Rightarrow> Some (drop offset e, expected_size))
      | None \<Rightarrow> jani_wasm_instance_memory (wr_memory rt) running_instance)"

definition replay_agrees :: "('m, 'w) wasm_runtime \<Rightarrow> replay_session \<Rightarrow> 'w \<Rightarrow> 'w \<Rightarrow> bool" where
  "replay_agrees rt s running_instance w =
     (case replay_expected rt s running_instance of
        None \<Rightarrow> False
      | Some (expected, expected_size) \<Rightarrow>
          if rs_failed s \<or> rs_cursor s \<noteq> rs_used s then False
          else case jani_wasm_instance_memory (wr_memory rt) w of
            None \<Rightarrow> False
          | Some (bytes, n) \<Rightarrow> n = expected_size \<and> list_all (\<lambda>i. bytes ! i = expected ! i) [0..<n])"

definition verify_done :: "u64 \<Rightarrow> ('d, 'i, 'p) kernel \<Rightarrow> ('d, 'i, 'p) kernel" where
  "verify_done owned_bytes k = jani_wasm_set_current_component None (with_heap k (jani_wasm_instance_destroy (dm_heap (kn_domain k)) owned_bytes))"

text \<open>What follows the creation of the second instance.\<close>

definition verify_instance ::
    "('m, 'w) wasm_runtime \<Rightarrow> 'p map_page \<Rightarrow> ('i, 'w) world \<Rightarrow> replay_session \<Rightarrow> nat \<Rightarrow> 'w \<Rightarrow> u64 \<Rightarrow> ('d, 'i, 'p) kernel \<Rightarrow>
     (('d, 'i, 'p) kernel \<times> bool) option" where
  "verify_instance rt mp world s i w owned_bytes k =
     (case replay_restore rt s (item (kn_domain k) i) w of
        None \<Rightarrow> Some (verify_done owned_bytes k, False)
      | Some (copy, w1) \<Rightarrow>
          let s1 = s\<lparr>rs_owner := Some COMPONENT_MAX, rs_mode := REPLAY_PLAY, rs_cursor := 0, rs_sequence := 0\<rparr> in
          case verify_loop rt mp copy w1 (k\<lparr>kn_session := Some s1\<rparr>) of
            None \<Rightarrow> None
          | Some (k2, w2) \<Rightarrow>
              let s2 = (the (kn_session k2))\<lparr>rs_owner := Some i\<rparr> in
              Some (verify_done owned_bytes (k2\<lparr>kn_session := Some (s2\<lparr>rs_mode := REPLAY_RECORD\<rparr>)\<rparr>),
                    replay_agrees rt s2 (world (wasm_instance (item (kn_domain k2) i))) w2))"

definition replay_verify ::
    "('m, 'w) wasm_runtime \<Rightarrow> 'p map_page \<Rightarrow> ('i, 'w) world \<Rightarrow> ('d, 'i, 'p) kernel \<Rightarrow> (('d, 'i, 'p) kernel \<times> bool) option" where
  "replay_verify rt mp world k =
     (case kn_session k of
        None \<Rightarrow> Some (k, False)
      | Some s \<Rightarrow>
          if rs_owner s = None \<or> rs_initial s = None \<or> rs_mode s \<noteq> REPLAY_RECORD \<or> rs_failed s \<or> rs_used s = 0 \<or>
             \<not> replay_log_validate (Some (rs_bytes s)) (rs_used s) then Some (k, False)
          else case object_store_get (dm_store (kn_domain k)) (rs_module_id s) of
            None \<Rightarrow> None
          | Some (store, None) \<Rightarrow> Some (with_store k store, False)
          | Some (store, Some (header, module, module_size)) \<Rightarrow>
              let k1 = with_store k store in
              if \<not> object_id_equal (h_type_id header) (Object_Id 0 COMPONENT_TYPE_MODULE) then Some (k1, False)
              else case jani_wasm_instance_create rt mp (dm_heap (kn_domain k1)) (Some module) module_size of
                None \<Rightarrow> None
              | Some (h, None) \<Rightarrow> Some (with_heap k1 h, False)
              | Some (h, Some (w, owned_bytes)) \<Rightarrow> verify_instance rt mp world s (the (rs_owner s)) w owned_bytes (with_heap k1 h))"

section \<open>The recording in the object store\<close>

definition replay_requests :: "replay_session \<Rightarrow> object_id \<Rightarrow> bytes \<Rightarrow> nat \<Rightarrow> bytes \<Rightarrow> object_store_put_request list" where
  "replay_requests s root module module_size final =
     (let request = (\<lambda>n type_low payload len. \<lparr>rq_id = Object_Id 7 n, rq_type_id = Object_Id 0 type_low, rq_creator_id = root,
                        rq_modifier_id = root, rq_logical_timestamp = 0, rq_payload = Some payload, rq_payload_size = len\<rparr>)
      in [request 0 10 (the (rs_initial s)) (rs_initial_size s), request 1 11 (rs_bytes s) (rs_used s),
          request 2 COMPONENT_TYPE_MODULE module module_size, request 3 10 final (length final)])"

definition replay_save ::
    "('m, 'w) wasm_runtime \<Rightarrow> 'p map_page \<Rightarrow> ('i, 'w) world \<Rightarrow> ('d, 'i, 'p) kernel \<Rightarrow> (('d, 'i, 'p) kernel \<times> bool) option" where
  "replay_save rt mp world k =
     (case kn_session k of
        None \<Rightarrow> Some (k, False)
      | Some s \<Rightarrow>
          let owner = item (kn_domain k) (the (rs_owner s)) in
          if rs_owner s = None \<or> rs_failed s \<or> rs_initial s = None \<or> rs_expected s \<noteq> None \<or>
             \<not> object_id_equal (rs_module_id s) (module_id owner) \<or> active (kn_domain k) \<noteq> 0 \<or>
             \<not> replay_log_validate (Some (rs_bytes s)) (rs_used s) then Some (k, False)
          else case jani_wasm_instance_memory (wr_memory rt) (world (wasm_instance owner)) of
            None \<Rightarrow> Some (k, False)
          | Some (bytes, n) \<Rightarrow>
              (case object_store_get (dm_store (kn_domain k)) (rs_module_id s) of
                 None \<Rightarrow> None
               | Some (store, None) \<Rightarrow> Some (with_store k store, False)
               | Some (store, Some (header, module, module_size)) \<Rightarrow>
                   let k1 = with_store k store; needed = instance_state_size n (mailbox_used owner) in
                   case kmalloc mp (dm_heap (kn_domain k1)) (of_nat needed) of
                     None \<Rightarrow> None
                   | Some (h1, final) \<Rightarrow>
                       (case kmalloc mp h1 (of_nat module_size) of
                          None \<Rightarrow> None
                        | Some (h2, module_copy) \<Rightarrow>
                            let released = (\<lambda>k. with_heap k (kfree (kfree (dm_heap (kn_domain k)) final) module_copy)); k2 = with_heap k1 h2 in
                            if final = 0 \<or> module_copy = 0 then Some (released k2, False)
                            else case instance_state_serialize owner (Some bytes) n needed of
                              None \<Rightarrow> Some (released k2, False)
                            | Some state \<Rightarrow>
                                (case object_store_put_many (dm_store (kn_domain k2))
                                        (replay_requests s (root_id owner) (take module_size module) module_size state) of
                                   None \<Rightarrow> None
                                 | Some (store1, result) \<Rightarrow>
                                     let k3 = with_store k2 store1;
                                         k4 = (if result = OBJECT_STORE_BATCH_RECOVERY_REQUIRED
                                               then k3\<lparr>kn_domain := (kn_domain k3)\<lparr>halted := 1\<rparr>\<rparr> else k3)
                                     in Some (released k4, result = OBJECT_STORE_BATCH_COMMITTED)))))"

text \<open>Object \<open>i\<close> of the recording, and the session with it; the flag is \<open>False\<close> where the code jumps to \<open>fail\<close>.\<close>

definition load_object ::
    "'p map_page \<Rightarrow> object_id \<Rightarrow> ('d, 'i, 'p) kernel \<times> replay_session \<Rightarrow> nat \<Rightarrow> ((('d, 'i, 'p) kernel \<times> replay_session) \<times> bool) option" where
  "load_object mp root ks i =
     (case ks of (k, s) \<Rightarrow>
        case object_store_get (dm_store (kn_domain k)) (Object_Id 7 (of_nat i)) of
          None \<Rightarrow> None
        | Some (store, None) \<Rightarrow> Some ((with_store k store, s), False)
        | Some (store, Some (header, bytes, n)) \<Rightarrow>
            let k1 = with_store k store; type_low = (if i = 1 then 11 else if i = 2 then COMPONENT_TYPE_MODULE else 10) in
            if \<not> object_id_equal (h_type_id header) (Object_Id 0 type_low) \<or> \<not> object_id_equal (h_creator_id header) root
            then Some ((k1, s), False)
            else if i = 2 then Some ((k1, s), True)
            else if i = 1 then
              (if \<not> replay_log_validate (Some bytes) n then Some ((k1, s), False)
               else Some ((k1, s\<lparr>rs_bytes := memcpy_at (rs_bytes s) 0 (take n bytes), rs_used := n\<rparr>), True))
            else if instance_state_header_validate (Some bytes) n = None then Some ((k1, s), False)
            else case kmalloc mp (dm_heap (kn_domain k1)) (of_nat n) of
              None \<Rightarrow> None
            | Some (h, copy) \<Rightarrow>
                let k2 = with_heap k1 h in
                if copy = 0 then Some ((k2, s), False)
                else Some ((k2, if i = 0 then s\<lparr>rs_initial := Some (take n bytes), rs_initial_size := n, rs_initial_address := copy\<rparr>
                                else s\<lparr>rs_expected := Some (take n bytes), rs_expected_size := n, rs_expected_address := copy\<rparr>), True))"

fun load_loop ::
    "'p map_page \<Rightarrow> object_id \<Rightarrow> ('d, 'i, 'p) kernel \<times> replay_session \<Rightarrow> nat list \<Rightarrow> ((('d, 'i, 'p) kernel \<times> replay_session) \<times> bool) option" where
  "load_loop mp root ks [] = Some (ks, True)"
| "load_loop mp root ks (i # is) =
     (case load_object mp root ks i of
        None \<Rightarrow> None
      | Some (ks1, False) \<Rightarrow> Some (ks1, False)
      | Some (ks1, True) \<Rightarrow> load_loop mp root ks1 is)"

definition replay_load :: "'p map_page \<Rightarrow> nat \<Rightarrow> ('d, 'i, 'p) kernel \<Rightarrow> (('d, 'i, 'p) kernel \<times> bool) option" where
  "replay_load mp i k =
     (case items (components (kn_domain k)) ! i of
        None \<Rightarrow> Some (k, False)
      | Some owner \<Rightarrow>
          if kn_session k \<noteq> None then Some (k, False)
          else case load_loop mp (root_id owner) (k, zero_session) [0..<4] of
            None \<Rightarrow> None
          | Some ((k1, s), False) \<Rightarrow> Some (replay_stop (k1\<lparr>kn_session := Some s\<rparr>), False)
          | Some ((k1, s), True) \<Rightarrow>
              Some (k1\<lparr>kn_session := Some (s\<lparr>rs_owner := Some i, rs_module_id := Object_Id 7 2, rs_mode := REPLAY_RECORD\<rparr>)\<rparr>, True))"

section \<open>A call and its replay\<close>

text \<open>What a call writes is what is captured of it.\<close>

definition writes_captured :: "valid_addr \<Rightarrow> syscall \<Rightarrow> bytes \<Rightarrow> bytes \<Rightarrow> bool" where
  "writes_captured va sc mem mem' \<longleftrightarrow> mem' = mem \<or>
     (case output_span sc of (output, len, auxiliary) \<Rightarrow>
        unat len \<le> SYSCALL_TRANSFER_MAX \<and> (auxiliary \<noteq> 0 \<longrightarrow> linear_memory va mem auxiliary 4 \<noteq> None))"

lemma live_call_captured:
  assumes va: "addr_checked va" and out: "live_call va mp sc k mem = Some (k', mem', r, t)"
  shows "writes_captured va sc mem mem'"
proof -
  have kept: "memory_kept (result_spans sc) mem mem'"
    using live_call_safe [OF va, of k mem sc mp] out by (auto simp: call_safe_def)
  have quiet: "mem' = mem" if "result_spans sc = []"
    using kept that by (auto simp: memory_kept_def intro: nth_equalityI)
  show ?thesis
  proof (cases sc)
    case (Jani_Object_Read slot offset pointer len)
    then show ?thesis using out by (auto simp: jani_object_read_live_def writes_captured_def Let_def split: if_splits option.splits prod.splits bool.splits)
  next
    case (Jani_Provenance slot age pointer len)
    then show ?thesis using out by (auto simp: jani_provenance_live_def writes_captured_def split: if_splits option.splits running.splits)
  next
    case (Jani_Stats pointer len)
    then show ?thesis using out by (auto simp: jani_stats_live_def writes_captured_def split: if_splits option.splits)
  next
    case (Jani_Trace age pointer len)
    then show ?thesis using out by (auto simp: jani_trace_live_def writes_captured_def split: if_splits option.splits)
  next
    case (Jani_Message_Recv pointer len capability_out)
    then show ?thesis using out by (auto simp: jani_message_recv_live_def writes_captured_def Let_def split: if_splits option.splits)
  qed (use quiet in \<open>simp_all add: writes_captured_def\<close>)
qed

lemma result_spans_output:
  "output_span sc = (output, len, auxiliary) \<Longrightarrow>
   set (result_spans sc) \<subseteq> {(output, unat len)} \<union> (if auxiliary \<noteq> 0 then {(auxiliary, 4)} else {})"
  by (cases sc) auto

lemma nth_memcpy_same:
  assumes "length mem' = length mem" "p + n \<le> length mem" "j < length mem"
  shows "memcpy_at mem p (bslice p n mem') ! j = (if p \<le> j \<and> j < p + n then mem' ! j else mem ! j)"
  using assms by (auto simp: memcpy_at_def bslice_def nth_append)

lemma length_memcpy_same: "length mem' = length mem \<Longrightarrow> p + n \<le> length mem \<Longrightarrow> length (memcpy_at mem p (bslice p n mem')) = length mem"
  by (simp add: memcpy_at_def bslice_def)

text \<open>The captured bytes, put back into the memory before the call, give the memory after it.\<close>

lemma release_captured:
  assumes va: "addr_checked va" and o: "output_span sc = (output, len, auxiliary)"
    and kept: "memory_kept (result_spans sc) mem mem'" and w: "writes_captured va sc mem mem'"
    and cp_def: "cp = capture_spans va mem kind args input input_length output len auxiliary"
  shows "release cp (captured cp mem') mem = mem'" "length (captured cp mem') = cp_output_size cp"
proof -
  have len: "length mem' = length mem" using kept by (simp add: memory_kept_def)
  have d: "cp_destination cp = unat output" by (simp add: cp_def capture_spans_def)
  have n: "cp_data_size cp = 0 \<or> unat output + cp_data_size cp \<le> length mem"
    by (auto simp: cp_def capture_spans_def)
  have p: "p + 4 \<le> length mem \<and> p = unat auxiliary \<and> auxiliary \<noteq> 0" if "cp_auxiliary cp = Some p" for p
    using that linear_memory_Some [OF va, of mem auxiliary 4 p] by (auto simp: cp_def capture_spans_def split: if_splits)
  have b: "length (bslice (unat output) (cp_data_size cp) mem') = cp_data_size cp" using n len by (auto simp: bslice_def)
  show "length (captured cp mem') = cp_output_size cp"
    using b p len by (auto simp: captured_def cp_output_size_def d split: option.splits)
  define m1 where "m1 = (if cp_data_size cp \<noteq> 0 then memcpy_at mem (unat output) (bslice (unat output) (cp_data_size cp) mem') else mem)"
  have m1: "length m1 = length mem"
    "m1 ! j = (if unat output \<le> j \<and> j < unat output + cp_data_size cp then mem' ! j else mem ! j)" if "j < length mem" for j
    using n nth_memcpy_same [OF len _ that, of "unat output" "cp_data_size cp"] length_memcpy_same [OF len, of "unat output" "cp_data_size cp"]
    by (auto simp: m1_def)
  have m1l: "length m1 = length mem" using n length_memcpy_same [OF len] by (auto simp: m1_def)
  define m2 where "m2 = (case cp_auxiliary cp of None \<Rightarrow> m1 | Some p \<Rightarrow> memcpy_at m1 p (bslice p 4 mem'))"
  have "release cp (captured cp mem') mem = m2"
    using b by (auto simp: release_def captured_def d m1_def m2_def Let_def bslice_def split: option.splits)
  moreover have "m2 = mem'"
  proof (rule nth_equalityI)
    show "length m2 = length mem'"
      using m1l p len by (auto simp: m2_def length_memcpy_same split: option.splits)
    fix j assume "j < length m2"
    then have j: "j < length mem" using \<open>length m2 = length mem'\<close> len by simp
    have m2: "m2 ! j = (if \<exists>p. cp_auxiliary cp = Some p \<and> p \<le> j \<and> j < p + 4 then mem' ! j else m1 ! j)"
      using p nth_memcpy_same [of mem' m1 _ 4 j] m1l len j by (auto simp: m2_def split: option.splits)
    show "m2 ! j = mem' ! j"
    proof (cases "mem' = mem")
      case True
      then show ?thesis using m2 m1(2) [OF j] by auto
    next
      case False
      then have s: "unat len \<le> 4096" "auxiliary \<noteq> 0 \<Longrightarrow> linear_memory va mem auxiliary 4 \<noteq> None"
        using w o by (auto simp: writes_captured_def)
      have data: "unat output \<le> j \<and> j < unat output + unat len \<Longrightarrow> j < unat output + cp_data_size cp"
        using s(1) j by (cases "len = 0") (auto simp: cp_def capture_spans_def)
      have aux: "cp_auxiliary cp = Some (unat auxiliary)" if "auxiliary \<noteq> 0"
        using s(2) [OF that] that linear_memory_Some [OF va] by (auto simp: cp_def capture_spans_def)
      have same: "mem' ! j = mem ! j" if "\<not> (unat output \<le> j \<and> j < unat output + unat len)" "auxiliary \<noteq> 0 \<longrightarrow> \<not> (unat auxiliary \<le> j \<and> j < unat auxiliary + 4)"
        using kept j that result_spans_output [OF o] by (fastforce simp: memory_kept_def list_all_iff split: if_splits)
      show ?thesis
      proof (cases "mem' ! j = mem ! j")
        case True
        then show ?thesis using m2 m1(2) [OF j] by auto
      next
        case False
        then have "unat output \<le> j \<and> j < unat output + cp_data_size cp \<or> cp_auxiliary cp = Some (unat auxiliary) \<and> unat auxiliary \<le> j \<and> j < unat auxiliary + 4"
          using same data aux by blast
        then show ?thesis using m2 m1(2) [OF j] by auto
      qed
    qed
  qed
  ultimately show "release cp (captured cp mem') mem = mem'" by simp
qed

lemma call_number_args: "length (snd (call_number sc)) = 8"
  by (cases sc) auto

text \<open>The spans of a call, and the record of a call that turned the memory \<open>mem\<close> into \<open>mem'\<close> with the result \<open>r\<close>.\<close>

definition call_spans :: "valid_addr \<Rightarrow> syscall \<Rightarrow> bytes \<Rightarrow> syscall_capture" where
  "call_spans va sc mem =
     (case (call_number sc, input_span sc, output_span sc) of
        ((kind, args), (input, input_length), (output, output_length, auxiliary)) \<Rightarrow>
          capture_spans va mem kind args input input_length output output_length auxiliary)"

definition call_of :: "valid_addr \<Rightarrow> syscall \<Rightarrow> bytes \<Rightarrow> bytes \<Rightarrow> u64 \<Rightarrow> replay_call" where
  "call_of va sc mem mem' r =
     \<lparr>call_kind = fst (call_number sc), call_args = snd (call_number sc), call_input = cp_input (call_spans va sc mem),
      call_output = captured (call_spans va sc mem) mem', call_result = r\<rparr>"

definition effect_recorded :: "valid_addr \<Rightarrow> syscall \<Rightarrow> bytes \<Rightarrow> bytes \<Rightarrow> bool" where
  "effect_recorded va sc mem mem' \<longleftrightarrow> release (call_spans va sc mem) (captured (call_spans va sc mem) mem') mem = mem' \<and>
     length (captured (call_spans va sc mem) mem') = cp_output_size (call_spans va sc mem)"

lemma effect_recorded_live:
  assumes va: "addr_checked va" and out: "live_call va mp sc k mem = Some (k', mem', r, t)"
  shows "effect_recorded va sc mem mem'"
proof -
  obtain kind args i il p len aux where n: "call_number sc = (kind, args)" "input_span sc = (i, il)" "output_span sc = (p, len, aux)"
    by (metis prod.exhaust)
  have "memory_kept (result_spans sc) mem mem'"
    using live_call_safe [OF va, of k mem sc mp] out by (auto simp: call_safe_def)
  from release_captured [OF va n(3) this live_call_captured [OF va out] refl]
  show ?thesis by (simp add: effect_recorded_def call_spans_def n)
qed

text \<open>The shared body of a call, seen through its spans.\<close>

lemma captured_call_attached:
  assumes s: "kn_session k = Some s" "rs_owner s = current_address k"
  shows "captured_call va mp sc k mem =
    (let cp = call_spans va sc mem in
     case replay_before s (fst (call_number sc)) (snd (call_number sc)) (Some (cp_input cp)) (length (cp_input cp)) (cp_output_size cp) of
       (s1, decision, answer) \<Rightarrow>
         let k1 = k\<lparr>kn_session := Some s1\<rparr> in
         if decision = 0 then Some (k1, release cp (fst (the answer)) mem, snd (the answer), False)
         else if decision < 0 then Some (k1, mem, of_int JANI_EINVAL, True)
         else if decision \<noteq> 1 then Some (k1, mem, cp_result cp, False)
         else case live_call va mp sc k1 mem of
           None \<Rightarrow> None
         | Some (k2, mem2, result, trap) \<Rightarrow>
             (case capture_after k2 mem2 (cp\<lparr>cp_result := of_int result\<rparr>) of
                (k3, trap3) \<Rightarrow> Some (k3, mem2, of_int result, trap \<or> trap3)))"
  using s
  by (simp add: captured_call_def with_capture_def capture_before_def call_spans_def Let_def split: prod.splits option.splits)

lemma record_call:
  assumes va: "addr_checked va" and s: "kn_session k = Some s" "rs_owner s = current_address k" "recording s es"
    and out: "captured_call va mp sc k mem = Some (k', mem', w, False)"
  defines "e \<equiv> call_of va sc mem mem' w"
  shows "kn_session k' = Some (append_call s (length es) e)" "call_fits s e" "effect_recorded va sc mem mem'"
proof -
  let ?cp = "call_spans va sc mem"
  define e0 where "e0 = e\<lparr>call_output := replicate (cp_output_size ?cp) 0\<rparr>"
  have e0: "call_kind e0 = fst (call_number sc)" "call_args e0 = snd (call_number sc)" "call_input e0 = cp_input ?cp"
    "length (call_output e0) = cp_output_size ?cp" "length (call_args e0) = 8"
    using call_number_args [of sc] by (simp_all add: e0_def e_def call_of_def)
  note before = before_recording [OF s(3) e0(5), unfolded e0(1-4)]
  note o = out [unfolded captured_call_attached [OF s(1,2)] Let_def before]
  have fits: "call_fits s e0" using o by (auto split: if_splits)
  have k: "k\<lparr>kn_session := Some s\<rparr> = k" using s(1) by simp
  obtain k2 r t where live: "live_call va mp sc k mem = Some (k2, mem', r, t)" "w = of_int r"
    and after: "capture_after k2 mem' (?cp\<lparr>cp_result := of_int r\<rparr>) = (k', False)"
    using o fits by (auto simp: k split: option.splits prod.splits)
  show er: "effect_recorded va sc mem mem'" by (rule effect_recorded_live [OF va live(1)])
  have out_len: "length (call_output e) = cp_output_size ?cp" using er by (simp add: effect_recorded_def e_def call_of_def)
  show fe: "call_fits s e" using fits out_len by (simp add: call_fits_def replay_call_ok_def e0_def)
  have k2: "kn_session k2 = Some s"
    using live_call_safe [OF va, of k mem sc mp] live(1) s(1) by (auto simp: call_safe_def kernel_frame_def)
  have cp: "cp_session ?cp" "cp_kind ?cp = call_kind e" "cp_arguments ?cp = call_args e" "cp_input ?cp = call_input e"
    "captured (?cp\<lparr>cp_result := x\<rparr>) mem' = call_output e" "cp_output_size (?cp\<lparr>cp_result := x\<rparr>) = length (call_output e)" for x
    using out_len by (simp_all add: call_spans_def capture_spans_def e_def call_of_def captured_def cp_output_size_def split: prod.splits)
  have "replay_after s (call_kind e) (call_args e) (Some (call_input e)) (length (call_input e)) (Some (call_output e))
      (length (call_output e)) (call_result e) = (append_call s (length es) e, True)"
    by (rule after_recording [OF s(3) fe, where ib = "call_input e" and ob = "call_output e"]) simp_all
  moreover have "call_result e = of_int r" by (simp add: e_def call_of_def live(2))
  ultimately show "kn_session k' = Some (append_call s (length es) e)"
    using after k2 by (auto simp: capture_after_def cp)
qed

lemma replay_call:
  assumes s: "kn_session k = Some s" "rs_owner s = current_address k" "playing s log n" "n < length log"
    and e: "log ! n = call_of va sc mem mem' w" "effect_recorded va sc mem mem'"
  shows "captured_call va mp sc k mem = Some (k\<lparr>kn_session := Some (advance s (log ! n))\<rparr>, mem', w, False)"
proof -
  let ?cp = "call_spans va sc mem"
  have m: "call_matches (log ! n) (fst (call_number sc)) (snd (call_number sc)) (cp_input ?cp) (cp_output_size ?cp)"
    using e by (simp add: call_matches_def call_of_def effect_recorded_def)
  have b: "replay_before s (fst (call_number sc)) (snd (call_number sc)) (Some (cp_input ?cp)) (length (cp_input ?cp)) (cp_output_size ?cp) =
      (advance s (log ! n), 0, Some (call_output (log ! n), call_result (log ! n)))"
    using before_playing [OF s(3) call_number_args, of "cp_input ?cp" "Some (cp_input ?cp)" "cp_input ?cp"] m s(4) by simp
  show ?thesis
    unfolding captured_call_attached [OF s(1,2)] Let_def b using e by (simp add: effect_recorded_def call_of_def)
qed

section \<open>A run and its replay\<close>

text \<open>The records of a call of an exported function that succeeds, and the instance it leaves.\<close>

inductive guest_log :: "('m, 'w) wasm_runtime \<Rightarrow> 'w guest \<Rightarrow> replay_call list \<Rightarrow> 'w \<Rightarrow> bool" for rt where
  guest_return: "guest_log rt (Return w True) [] w"
| guest_native: "effect_recorded (wr_valid_addr rt) sc (guest_memory rt w) mem' \<Longrightarrow>
    guest_log rt (continue (wr_set_memory rt w mem', call_result_of sc r)) cs w' \<Longrightarrow>
    guest_log rt (Native sc w continue) (call_of (wr_valid_addr rt) sc (guest_memory rt w) mem' r # cs) w'"

lemma call_kind_of: "call_kind (call_of va sc mem mem' r) \<noteq> 0"
  by (cases sc) (auto simp: call_of_def)

lemma guest_log_kinds: "guest_log rt g cs w \<Longrightarrow> list_all (\<lambda>e. call_kind e \<noteq> 0) cs"
  by (induction rule: guest_log.induct) (auto simp: call_kind_of)

text \<open>What recording and playing leave alone in a session.\<close>

definition session_frame :: "replay_session \<Rightarrow> nat option \<times> bytes option \<times> nat \<times> object_id \<times> bytes option \<times> nat \<times> u64 \<times> u64" where
  "session_frame s = (rs_owner s, rs_initial s, rs_initial_size s, rs_module_id s, rs_expected s, rs_expected_size s,
     rs_initial_address s, rs_expected_address s)"

lemma session_frame_simps [simp]:
  "session_frame (append_call s n e) = session_frame s" "rs_owner (append_call s n e) = rs_owner s"
  "session_frame (advance s e) = session_frame s" "rs_owner (advance s e) = rs_owner s"
  by (simp_all add: session_frame_def append_call_def advance_def)

lemma session_frame_owner: "session_frame s' = session_frame s \<Longrightarrow> rs_owner s' = rs_owner s"
  by (simp add: session_frame_def)

lemma record_guest:
  assumes va: "addr_checked (wr_valid_addr rt)"
  shows "run_guest rt mp g k = Some (k', w, True) \<Longrightarrow> kn_session k = Some s \<Longrightarrow> rs_owner s = current_address k \<Longrightarrow> recording s es \<Longrightarrow>
    \<exists>cs s'. kn_session k' = Some s' \<and> recording s' (es @ cs) \<and> session_frame s' = session_frame s \<and> guest_log rt g cs w"
proof (induction g arbitrary: k s es)
  case (Return w1 ok)
  then show ?case by (intro exI [of _ "[]"]) (auto intro: guest_return)
next
  case (Native sc w1 continue)
  let ?va = "wr_valid_addr rt" and ?mem = "guest_memory rt w1"
  obtain k1 mem' r where c: "captured_call ?va mp sc k ?mem = Some (k1, mem', r, False)"
    and run: "run_guest rt mp (continue (wr_set_memory rt w1 mem', call_result_of sc r)) k1 = Some (k', w, True)"
    using Native.prems(1) by (auto simp: jani_symbols_captured Let_def split: option.splits if_splits)
  let ?e = "call_of ?va sc ?mem mem' r"
  note rc = record_call [OF va Native.prems(2,3,4) c]
  have "jani_symbols ?va mp sc k ?mem = Some (k1, mem', call_result_of sc r, False)" using c by (simp add: jani_symbols_captured)
  from jani_symbols_frame [OF va this] have "current_address k1 = current_address k" by (simp add: run_frame_def)
  then obtain cs s' where "kn_session k' = Some s'" "recording s' ((es @ [?e]) @ cs)" "session_frame s' = session_frame s"
      "guest_log rt (continue (wr_set_memory rt w1 mem', call_result_of sc r)) cs w"
    using Native.IH [OF rangeI run rc(1) _ recording_append [OF Native.prems(4) rc(2)]] Native.prems(3) by auto
  then show ?case using guest_native [OF rc(3)] by (intro exI [of _ "?e # cs"] exI [of _ s']) simp
qed

lemma take_drop_Cons:
  assumes "take (length (e # cs)) (drop n xs) = e # cs"
  shows "n < length xs" "xs ! n = e" "take (length cs) (drop (Suc n) xs) = cs"
proof -
  show n: "n < length xs" using assms by (cases "n < length xs") auto
  then have "drop n xs = xs ! n # drop (Suc n) xs" by (simp add: Cons_nth_drop_Suc)
  then show "xs ! n = e" "take (length cs) (drop (Suc n) xs) = cs" using assms by auto
qed

lemma replay_guest:
  "guest_log rt g cs w \<Longrightarrow> kn_session k = Some s \<Longrightarrow> rs_owner s = current_address k \<Longrightarrow> playing s log n \<Longrightarrow>
   take (length cs) (drop n log) = cs \<Longrightarrow>
   \<exists>s'. run_guest rt mp g k = Some (k\<lparr>kn_session := Some s'\<rparr>, w, True) \<and> playing s' log (n + length cs) \<and> session_frame s' = session_frame s"
proof (induction arbitrary: k s n rule: guest_log.induct)
  case (guest_return w)
  then show ?case by (intro exI [of _ s]) simp
next
  case (guest_native sc w mem' continue r cs w')
  let ?e = "call_of (wr_valid_addr rt) sc (guest_memory rt w) mem' r"
  note n = take_drop_Cons [OF guest_native.prems(4)]
  let ?s = "advance s (log ! n)"
  have c: "captured_call (wr_valid_addr rt) mp sc k (guest_memory rt w) = Some (k\<lparr>kn_session := Some ?s\<rparr>, mem', r, False)"
    by (rule replay_call [OF guest_native.prems(1-3) n(1,2) guest_native.hyps(1)])
  have "rs_owner ?s = current_address (k\<lparr>kn_session := Some ?s\<rparr>)"
    using guest_native.prems(2) by (simp add: current_address_def)
  from guest_native.IH [OF _ this playing_advance [OF guest_native.prems(3) n(1)] n(3)]
  obtain s' where "run_guest rt mp (continue (wr_set_memory rt w mem', call_result_of sc r)) (k\<lparr>kn_session := Some ?s\<rparr>) =
      Some (k\<lparr>kn_session := Some s'\<rparr>, w', True)" "playing s' log (Suc n + length cs)" "session_frame s' = session_frame s"
    by auto
  then show ?case using c by (intro exI [of _ s']) (simp add: jani_symbols_captured Let_def)
qed

text \<open>The records of a sequence of handlers that succeed.\<close>

inductive instance_log :: "('m, 'w) wasm_runtime \<Rightarrow> 'w \<Rightarrow> replay_call list \<Rightarrow> 'w \<Rightarrow> bool" for rt where
  no_handler: "instance_log rt w [] w"
| one_handler: "jani_wasm_instance_has_handler rt w (handler_name timer) \<Longrightarrow> timer \<le> 1 \<Longrightarrow>
    guest_log rt (wr_call rt w (handler_name timer)) cs w1 \<Longrightarrow> instance_log rt w1 es w' \<Longrightarrow>
    instance_log rt w (handler_call now (ucast timer) # cs @ es) w'"

lemma instance_log_trans: "instance_log rt w es w1 \<Longrightarrow> instance_log rt w1 es' w' \<Longrightarrow> instance_log rt w (es @ es') w'"
proof (induction rule: instance_log.induct)
  case (one_handler w timer cs w1 es w' now)
  then show ?case using instance_log.one_handler [OF one_handler.hyps(1-3)] by (metis append_Cons append_assoc)
qed simp

lemma ucast_timer: "timer \<le> 1 \<Longrightarrow> (ucast (timer :: u32) :: u64) \<le> 1"
  by (simp add: word_le_nat_alt unat_ucast_u32)

lemma instance_log_wf:
  assumes "instance_log rt w es w'" "list_all replay_call_ok es"
  shows "list_all call_wf es \<and> (es \<noteq> [] \<longrightarrow> call_kind (hd es) = 0)"
  using assms
proof (induction rule: instance_log.induct)
  case (one_handler w timer cs w1 es w' now)
  have "call_wf (handler_call now (ucast timer))"
    using one_handler.prems ucast_timer [OF one_handler.hyps(2)] unfolding call_wf_def by auto
  moreover have "list_all call_wf cs"
    using guest_log_kinds [OF one_handler.hyps(3)] one_handler.prems by (auto simp: call_wf_def list_all_iff)
  ultimately show ?case using one_handler by (simp add: handler_call_def)
qed simp

lemma handler_call_ok: "length (call_args (handler_call now timer)) = 8"
  by (simp add: handler_call_def)

lemma replay_handler_recording:
  assumes s: "recording s es" "rs_owner s = Some i"
  shows "replay_handler (Some s) i now timer =
    (if call_fits s (handler_call now (ucast timer)) then (Some (append_call s (length es) (handler_call now (ucast timer))), True)
     else (Some (s\<lparr>rs_failed := True\<rparr>), False))"
proof -
  let ?e = "handler_call now (ucast timer)"
  have "replay_before s 0 [now, ucast timer, 0, 0, 0, 0, 0, 0] None 0 0 = replay_before s 0 [now, ucast timer, 0, 0, 0, 0, 0, 0] (Some []) 0 0"
    by (simp add: replay_before_def Let_def)
  moreover have "replay_after s 0 [now, ucast timer, 0, 0, 0, 0, 0, 0] None 0 None 0 0 = (append_call s (length es) ?e, True)" if "call_fits s ?e"
    using after_recording [OF s(1) that, of None "[]" None "[]"] by (simp add: handler_call_def)
  ultimately show ?thesis
    using before_recording [OF s(1) handler_call_ok, of now "ucast timer"] s(2)
    by (simp add: replay_handler_def Let_def handler_call_def)
qed

text \<open>A handler that runs while its component is recorded.\<close>

lemma record_handler:
  assumes va: "addr_checked (wr_valid_addr rt)" and s: "kn_session k = Some s" "rs_owner s = Some i" "current_address k = Some i" "recording s es"
    and t: "timer \<le> 1" and run: "run_handler rt mp i now timer w k = Some (k', w', True)"
  shows "\<exists>cs s'. kn_session k' = Some s' \<and> recording s' (es @ cs) \<and> session_frame s' = session_frame s \<and> instance_log rt w cs w'"
proof -
  let ?e = "handler_call now (ucast timer)"
  note h = replay_handler_recording [OF s(4,2), of now timer]
  have fits: "call_fits s ?e" using run by (auto simp: run_handler_def s(1) h Let_def split: if_splits)
  let ?s = "append_call s (length es) ?e"
  let ?k = "k\<lparr>kn_session := Some ?s\<rparr>"
  have g: "jani_wasm_instance_has_handler rt w (handler_name timer)" "run_guest rt mp (wr_call rt w (handler_name timer)) ?k = Some (k', w', True)"
    using run by (auto simp: run_handler_def s(1) h fits Let_def jani_wasm_instance_call_def split: if_splits option.splits)
  have "rs_owner ?s = current_address ?k" using s by (simp add: current_address_def)
  from record_guest [OF va g(2) _ this recording_append [OF s(4) fits]] obtain cs s'
    where cs: "kn_session k' = Some s'" "recording s' ((es @ [?e]) @ cs)" "session_frame s' = session_frame s" "guest_log rt (wr_call rt w (handler_name timer)) cs w'"
    using s(2) by auto
  have "instance_log rt w (?e # cs @ []) w'" by (rule one_handler [OF g(1) t cs(4) no_handler])
  then show ?thesis using cs by (intro exI [of _ "?e # cs"] exI [of _ s']) simp
qed

text \<open>
  The handlers that component \<open>i\<close> runs while it is recorded: between them anything may happen to the
  kernel but to the session.
\<close>

inductive recorded_run ::
    "('m, 'w) wasm_runtime \<Rightarrow> 'p map_page \<Rightarrow> nat \<Rightarrow> 'w \<times> ('d, 'i, 'p) kernel \<Rightarrow> 'w \<times> ('d, 'i, 'p) kernel \<Rightarrow> bool" for rt mp i where
  run_start: "recorded_run rt mp i x x"
| run_next: "recorded_run rt mp i x (w, k) \<Longrightarrow> kn_session k1 = kn_session k \<Longrightarrow> current_address k1 = Some i \<Longrightarrow> timer \<le> 1 \<Longrightarrow>
    run_handler rt mp i now timer w k1 = Some (k2, w', True) \<Longrightarrow> recorded_run rt mp i x (w', k2)"

lemma recorded_run_log:
  assumes va: "addr_checked (wr_valid_addr rt)"
  shows "recorded_run rt mp i x y \<Longrightarrow> kn_session (snd x) = Some s \<Longrightarrow> rs_owner s = Some i \<Longrightarrow> recording s es \<Longrightarrow>
    \<exists>cs s'. kn_session (snd y) = Some s' \<and> recording s' (es @ cs) \<and> session_frame s' = session_frame s \<and> instance_log rt (fst x) cs (fst y)"
proof (induction rule: recorded_run.induct)
  case (run_start x)
  then show ?case by (intro exI [of _ "[]"]) (auto intro: no_handler)
next
  case (run_next x w k k1 timer now k2 w')
  from run_next.IH run_next.prems obtain cs s1
    where 1: "kn_session k = Some s1" "recording s1 (es @ cs)" "session_frame s1 = session_frame s" "instance_log rt (fst x) cs w" by auto
  have owner: "rs_owner s1 = Some i" using session_frame_owner [OF 1(3)] run_next.prems by simp
  have "kn_session k1 = Some s1" using run_next.hyps(2) 1(1) by simp
  from record_handler [OF va this owner run_next.hyps(3) 1(2) run_next.hyps(4,5)] obtain ds s2
    where 2: "kn_session k2 = Some s2" "recording s2 ((es @ cs) @ ds)" "session_frame s2 = session_frame s1" "instance_log rt w ds w'" by auto
  then show ?case using instance_log_trans [OF 1(4) 2(4)] 1(3) by (intro exI [of _ "cs @ ds"] exI [of _ s2]) simp
qed

text \<open>The same handlers answered from the log: no live call is made and nothing of the kernel changes but the session.\<close>

lemma replay_instance:
  "instance_log rt w es w' \<Longrightarrow> kn_session k = Some s \<Longrightarrow> rs_owner s = Some COMPONENT_MAX \<Longrightarrow> playing s log n \<Longrightarrow> drop n log = es \<Longrightarrow>
   \<exists>s' c. verify_loop rt mp copy w k = Some (k\<lparr>kn_session := Some s', kn_current := c\<rparr>, w') \<and> playing s' log (length log) \<and> session_frame s' = session_frame s"
proof (induction arbitrary: k s n copy rule: instance_log.induct)
  case (no_handler w)
  then have "n = length log" by (auto simp: playing_def)
  moreover from this no_handler have "rs_cursor s = rs_used s" by (auto simp: playing_def log_holds_def)
  ultimately show ?case
    using no_handler by (subst verify_loop.simps) (auto intro!: exI [of _ s] exI [of _ "kn_current k"])
next
  case (one_handler w timer cs w1 es w' now)
  let ?e = "handler_call now (ucast timer)"
  have "take (length (?e # cs)) (drop n log) = ?e # cs" using one_handler.prems(4) by simp
  note n = take_drop_Cons [OF this]
  have h: "log_holds s log" and c: "rs_cursor s = length (log_from 0 (take n log))" using one_handler.prems(3) by (auto simp: playing_def)
  note at = log_at [OF h n(1), folded c, unfolded n(2)]
  have run: "rs_cursor s < rs_used s" using at(4) by (auto simp: handler_call_def)
  have r: "rr_kind (call_record n ?e) = 0" "rr_arguments (call_record n ?e) = [now, ucast timer, 0, 0, 0, 0, 0, 0]"
    by (simp_all add: call_record_def handler_call_def)
  have t: "\<not> (ucast timer :: u64) > 1" using ucast_timer [OF one_handler.hyps(2)] by (simp add: not_less)
  have tt: "(ucast (ucast timer :: u64) :: u32) = timer" by (rule bit_word_eqI) (simp add: bit_simps)
  let ?s = "advance s ?e"
  have hd: "replay_handler (Some s) COMPONENT_MAX now timer = (Some ?s, True)"
  proof -
    have "call_matches (log ! n) 0 [now, ucast timer, 0, 0, 0, 0, 0, 0] [] 0" by (simp add: n(2) call_matches_def handler_call_def)
    then have "replay_before s 0 [now, ucast timer, 0, 0, 0, 0, 0, 0] None 0 0 = (?s, 0, Some (call_output ?e, call_result ?e))"
      using before_playing [OF one_handler.prems(3), of "[now, ucast timer, 0, 0, 0, 0, 0, 0]" "[]" None "[]" 0 0] n(1,2) by simp
    then show ?thesis using one_handler.prems(2) by (simp add: replay_handler_def Let_def)
  qed
  let ?k = "jani_wasm_set_current_component (Some (Alone (copy\<lparr>logical_time := now\<rparr>))) (k\<lparr>kn_session := Some ?s\<rparr>)"
  have k: "kn_session ?k = Some ?s" "rs_owner ?s = current_address ?k"
    using one_handler.prems(2) by (simp_all add: jani_wasm_set_current_component_def current_address_def)
  have p: "playing ?s log (Suc n)" using playing_advance [OF one_handler.prems(3) n(1)] n(2) by simp
  from replay_guest [OF one_handler.hyps(3) k p n(3)] obtain s1
    where g: "run_guest rt mp (wr_call rt w (handler_name timer)) ?k = Some (?k\<lparr>kn_session := Some s1\<rparr>, w1, True)"
      "playing s1 log (Suc n + length cs)" "session_frame s1 = session_frame s"
    by auto
  have owner: "rs_owner s1 = Some COMPONENT_MAX" using session_frame_owner [OF g(3)] one_handler.prems(2) by simp
  let ?k2 = "?k\<lparr>kn_session := Some s1\<rparr>"
  have "drop (Suc n + length cs) log = es"
    using one_handler.prems(4) n(1) by (simp flip: drop_drop add: drop_Suc) (metis append_eq_conv_conj drop_drop drop_Suc list.sel(3) tl_drop add.commute)
  from one_handler.IH [OF _ owner g(2) this, of ?k2 "this ?k2"] obtain s' c
    where "verify_loop rt mp (this ?k2) w1 ?k2 = Some (?k2\<lparr>kn_session := Some s', kn_current := c\<rparr>, w')" "playing s' log (length log)" "session_frame s' = session_frame s1"
    by auto
  moreover have "verify_loop rt mp copy w k = verify_loop rt mp (this ?k2) w1 ?k2"
    using one_handler.prems(1) one_handler.hyps(1) run t g(1)
    by (subst verify_loop.simps) (simp add: at(1) r tt hd jani_wasm_instance_call_def Let_def not_le)
  ultimately show ?case using g(3) by (auto simp: jani_wasm_set_current_component_def)
qed

section \<open>Verification decides\<close>

definition same_memory :: "('m, 'w) wasm_runtime \<Rightarrow> 'w \<Rightarrow> 'w \<Rightarrow> bool" where
  "same_memory rt w w' \<longleftrightarrow>
     (\<exists>bytes bytes' n. jani_wasm_instance_memory (wr_memory rt) w = Some (bytes, n) \<and>
        jani_wasm_instance_memory (wr_memory rt) w' = Some (bytes', n) \<and> (\<forall>j<n. bytes ! j = bytes' ! j))"

lemma replay_agrees_iff:
  assumes "rs_expected s = None" "\<not> rs_failed s" "rs_cursor s = rs_used s"
  shows "replay_agrees rt s wr w \<longleftrightarrow> same_memory rt w wr"
  using assms by (auto simp: replay_agrees_def replay_expected_def same_memory_def list_all_iff split: option.splits prod.splits)

lemma kernel_parts [simp]:
  "kn_session (with_heap k h) = kn_session k" "kn_session (with_store k st) = kn_session k"
  "components (kn_domain (with_heap k h)) = components (kn_domain k)" "components (kn_domain (with_store k st)) = components (kn_domain k)"
  "dm_heap (kn_domain (with_store k st)) = dm_heap (kn_domain k)"
  "lineage (kn_domain (with_heap k h)) = lineage (kn_domain k)" "lineage (kn_domain (with_store k st)) = lineage (kn_domain k)"
  "provenance (kn_domain (with_heap k h)) = provenance (kn_domain k)" "provenance (kn_domain (with_store k st)) = provenance (kn_domain k)"
  by (simp_all add: with_heap_def with_store_def)

lemma log_holds_cong: "rs_bytes s' = rs_bytes s \<Longrightarrow> rs_used s' = rs_used s \<Longrightarrow> log_holds s' es = log_holds s es"
  by (simp add: log_holds_def)

lemma verify_instance_decides:
  assumes log: "instance_log rt w0 es w1" "recording s es" "rs_expected s = None"
    and restore: "replay_restore rt s (item (kn_domain k) i) w = Some (copy, w0)"
  shows "\<exists>k' s'. verify_instance rt mp world s i w owned k =
      Some (k', same_memory rt w1 (world (wasm_instance (item (kn_domain k) i)))) \<and>
    kn_session k' = Some s' \<and> recording s' es \<and> components (kn_domain k') = components (kn_domain k) \<and>
    lineage (kn_domain k') = lineage (kn_domain k) \<and> provenance (kn_domain k') = provenance (kn_domain k)"
proof -
  let ?s = "s\<lparr>rs_owner := Some COMPONENT_MAX, rs_mode := REPLAY_PLAY, rs_cursor := 0, rs_sequence := 0\<rparr>"
  let ?k = "k\<lparr>kn_session := Some ?s\<rparr>"
  have "log_holds ?s es" using log(2) log_holds_cong [of ?s s es] by (simp add: recording_def)
  then have p: "playing ?s es 0" using log(2) by (simp add: recording_def playing_def)
  obtain s1 c where run: "verify_loop rt mp copy w0 ?k = Some (?k\<lparr>kn_session := Some s1, kn_current := c\<rparr>, w1)" "playing s1 es (length es)" "session_frame s1 = session_frame ?s"
    using replay_instance [OF log(1) _ _ p, of ?k mp copy] by auto
  let ?s2 = "s1\<lparr>rs_owner := Some i, rs_mode := REPLAY_RECORD\<rparr>"
  have fin: "\<not> rs_failed s1" "rs_cursor s1 = rs_used s1" using run(2) by (auto simp: playing_def log_holds_def)
  have x: "rs_expected s1 = None" using run(3) log(3) by (simp add: session_frame_def)
  have "log_holds ?s2 es" using run(2) log_holds_cong [of ?s2 s1 es] by (simp add: playing_def)
  then have "recording ?s2 es" using run(2) by (simp add: recording_def playing_def)
  moreover have "replay_agrees rt (s1\<lparr>rs_owner := Some i\<rparr>) (world (wasm_instance (item (kn_domain k) i))) w1 =
      same_memory rt w1 (world (wasm_instance (item (kn_domain k) i)))"
    using fin x by (intro replay_agrees_iff) auto
  ultimately show ?thesis
    using restore run(1) by (simp add: verify_instance_def verify_done_def jani_wasm_set_current_component_def Let_def)
qed

section \<open>The saved state restores the instance\<close>

text \<open>
  What the runtime documents of an instance: it is its linear memory with the rest of its state, the
  globals and the tables, which \<open>rest\<close> gives; its memory has the bytes of its pages, at most 4 GiB;
  writing the memory and enlarging it by pages keep the rest.
\<close>

definition instance_contract :: "('m, 'w) wasm_runtime \<Rightarrow> ('w \<Rightarrow> 'r) \<Rightarrow> bool" where
  "instance_contract rt rest \<longleftrightarrow>
     (\<forall>w w'. rest w = rest w' \<and> wr_memory rt w = wr_memory rt w' \<longrightarrow> w = w') \<and>
     (\<forall>w b p q. wr_memory rt w = Some (Some b, p, q) \<longrightarrow> length b = unat p * unat q \<and> unat p * unat q \<le> 2 ^ 32) \<and>
     (\<forall>w b p q m. wr_memory rt w = Some (Some b, p, q) \<and> length m = length b \<longrightarrow>
        wr_memory rt (wr_set_memory rt w m) = Some (Some m, p, q) \<and> rest (wr_set_memory rt w m) = rest w) \<and>
     (\<forall>w b p q d w'. wr_memory rt w = Some (Some b, p, q) \<and> wr_enlarge rt w d = Some w' \<longrightarrow>
        rest w' = rest w \<and> (\<exists>b'. wr_memory rt w' = Some (Some b', p + d, q)))"

lemma instance_contractD:
  assumes "instance_contract rt rest"
  shows "rest w = rest w' \<Longrightarrow> wr_memory rt w = wr_memory rt w' \<Longrightarrow> w = w'"
    and "wr_memory rt w = Some (Some b, p, q) \<Longrightarrow> length b = unat p * unat q \<and> unat p * unat q \<le> 2 ^ 32"
    and "wr_memory rt w = Some (Some b, p, q) \<Longrightarrow> length m = length b \<Longrightarrow>
      wr_memory rt (wr_set_memory rt w m) = Some (Some m, p, q) \<and> rest (wr_set_memory rt w m) = rest w"
    and "wr_memory rt w = Some (Some b, p, q) \<Longrightarrow> wr_enlarge rt w d = Some w' \<Longrightarrow>
      rest w' = rest w \<and> (\<exists>b'. wr_memory rt w' = Some (Some b', p + d, q))"
  using assms unfolding instance_contract_def by (blast, blast, blast, blast)

lemma contract_memory:
  assumes "instance_contract rt rest" "wr_memory rt w = Some (Some b, p, q)"
  shows "unat (p * q) = length b" "jani_wasm_instance_memory (wr_memory rt) w = Some (b, length b)" "length b = unat p * unat q"
    "length b \<le> 2 ^ 32"
proof -
  have c: "length b = unat p * unat q" "unat p * unat q \<le> 2 ^ 32" using instance_contractD(2) [OF assms] by simp_all
  have "unat p * unat q < 2 ^ 64" using c(2) by simp
  then have "unat (p * q) = unat p * unat q" by (simp add: unat_word_ariths)
  then show m: "unat (p * q) = length b" using c by simp
  show "jani_wasm_instance_memory (wr_memory rt) w = Some (b, length b)"
    using assms(2) m by (simp add: jani_wasm_instance_memory_def)
  show "length b = unat p * unat q" "length b \<le> 2 ^ 32" using c by simp_all
qed

text \<open>Growing an instance to the size of another one with the same pages gives it the missing pages.\<close>

lemma pages_missing:
  fixes p p0 q :: u64
  assumes "p < p0" "q \<noteq> 0" "unat p0 * unat q \<le> 2 ^ 32"
  shows "(p0 * q - p * q + q - 1) div q = p0 - p" "p * q < p0 * q"
proof -
  let ?d = "unat p0 - unat p" and ?q = "unat q"
  have lt: "unat p < unat p0" using assms(1) by (simp add: word_less_nat_alt)
  have q: "0 < ?q" using assms(2) by (simp add: unat_gt_0)
  have d: "unat (p0 - p) = ?d" using assms(1) by (simp add: unat_sub order_less_imp_le)
  have dq: "?d * ?q \<le> 2 ^ 32" using mult_le_mono1 [of ?d "unat p0" ?q] assms(3) by linarith
  have q32: "?q \<le> 2 ^ 32" using mult_le_mono1 [of 1 "unat p0" ?q] lt assms(3) by linarith
  have m: "p0 * q - p * q + q - 1 = (p0 - p) * q + (q - 1)" by (simp add: algebra_simps)
  have u1: "unat (q - 1) = ?q - 1" using q by (simp add: unat_sub word_le_nat_alt)
  have "unat ((p0 - p) * q) = ?d * ?q" using dq d by (simp add: unat_word_ariths)
  then have "unat ((p0 - p) * q + (q - 1)) = ?d * ?q + (?q - 1)" using dq q32 u1 by (simp add: unat_word_ariths)
  moreover have "(?d * ?q + (?q - 1)) div ?q = ?d" using q by (intro div_nat_eqI) (simp_all add: algebra_simps)
  ultimately have "unat ((p0 * q - p * q + q - 1) div q) = unat (p0 - p)" by (simp add: unat_div m d)
  then show "(p0 * q - p * q + q - 1) div q = p0 - p" by (rule unsigned_word_eqI)
  have "unat p * ?q < unat p0 * ?q" using lt q by simp
  then show "p * q < p0 * q" using assms(3) by (auto intro: le_less_trans [OF mod_less_eq_dividend] simp add: word_less_nat_alt unat_word_ariths)
qed

lemma grow_to:
  assumes c: "instance_contract rt rest" and w: "wr_memory rt w = Some (Some b, p, q)" and w0: "wr_memory rt w0 = Some (Some b0, p0, q)"
    and room: "q \<noteq> 0" "p \<le> p0" "p < p0 \<longrightarrow> wr_enlarge rt w (p0 - p) \<noteq> None"
  obtains wg bg where "jani_wasm_instance_memory_grow rt w (length b0) = Some wg" "wr_memory rt wg = Some (Some bg, p0, q)" "rest wg = rest w"
proof -
  have n: "of_nat (length b0) = p0 * q" unfolding contract_memory(1) [OF c w0, symmetric] by simp
  show ?thesis
  proof (cases "p < p0")
    case True
    then obtain wg where wg: "wr_enlarge rt w (p0 - p) = Some wg" using room(3) by auto
    have "unat p0 * unat q \<le> 2 ^ 32" using contract_memory(3,4) [OF c w0] by simp
    note pm = pages_missing [OF True room(1) this]
    have "jani_wasm_instance_memory_grow rt w (length b0) = Some wg"
      using w room(1) pm wg by (simp add: jani_wasm_instance_memory_grow_def n Let_def not_le [symmetric])
    moreover obtain bg where "wr_memory rt wg = Some (Some bg, p + (p0 - p), q)" "rest wg = rest w"
      using instance_contractD(4) [OF c w wg] by auto
    ultimately show ?thesis using that by simp
  next
    case False
    then have "p = p0" using room(2) by simp
    then show ?thesis using that [of w b] w room(1) by (simp add: jani_wasm_instance_memory_grow_def n Let_def)
  qed
qed

lemma mail_ok_slots:
  assumes "mail_ok c"
  obtains ms where "mailbox_holds c ms" "\<forall>msg\<in>set ms. slot_valid (fst msg)"
  using assms by (fastforce simp: mail_ok_def slot_valid_def get_Some_iff word_lt_unat)

text \<open>
  The state that \<open>replay_start\<close> saves, restored into a new instance that differs from the owner's in its memory only,
  gives the owner's instance at that moment.
\<close>

lemma restore_saved:
  fixes owner c0 :: "'i component"
  assumes c: "instance_contract rt rest" and w: "wr_memory rt w = Some (Some b, p, q)" and w0: "wr_memory rt w0 = Some (Some b0, p0, q)"
    and room: "q \<noteq> 0" "p \<le> p0" "p < p0 \<longrightarrow> wr_enlarge rt w (p0 - p) \<noteq> None" and same: "rest w = rest w0"
    and owner: "mailbox_holds owner ms" "\<forall>msg\<in>set ms. slot_valid (fst msg)"
    and s: "instance_state_serialize owner (Some b0) (length b0) (rs_initial_size s) = rs_initial s" "rs_initial s \<noteq> None"
      "rs_initial_size s = instance_state_size (length b0) (mailbox_used owner)"
  obtains copy where "replay_restore rt s c0 w = Some (copy, w0)"
proof -
  obtain wg bg where g: "jani_wasm_instance_memory_grow rt w (length b0) = Some wg" "wr_memory rt wg = Some (Some bg, p0, q)" "rest wg = rest w"
    using grow_to [OF c w w0 room] by metis
  note m0 = contract_memory [OF c w0] and mg = contract_memory [OF c g(2)]
  have len: "length bg = length b0" using m0(3) mg(3) by simp
  have set: "wr_set_memory rt wg b0 = w0"
    using instance_contractD(3) [OF c g(2), of b0] len g(3) same w0 by (intro instance_contractD(1) [OF c]) simp_all
  have u: "unat (mailbox_used owner) = length (frames ms)" "length (frames ms) \<le> 4096"
    using owner(1) by (auto simp: mailbox_holds_def)
  have small: "length b0 + 4160 < 2 ^ 64" using m0(4) by simp
  have sz: "rs_initial_size s = 64 + unat (mailbox_used owner) + length b0"
    using u small by (simp add: s(3) instance_state_size_def word_lt_unat del: length_concat)
  have cap: "64 + unat (mailbox_used owner) + length b0 \<le> rs_initial_size s" by (simp add: sz)
  show ?thesis
  proof (rule deserialize_result [OF owner small cap])
    fix bs
    assume bs: "instance_state_serialize owner (Some b0) (length b0) (rs_initial_size s) = Some bs"
      "instance_state_header_validate (Some bs) (length bs) = Some (64 + length (frames ms), length b0)"
      "length bs = 64 + length (frames ms) + length b0"
    assume d: "\<And>(c2 :: 'i component) mem2. instance_state_deserialize c2 (Some mem2) (length mem2) (Some bs) (length bs) =
      (if length b0 > length mem2 then None
       else Some (c2\<lparr>mailbox := frames ms @ replicate (4096 - length (frames ms)) 0, mailbox_used := mailbox_used owner,
                     logical_time := logical_time owner, timer_deadline := timer_deadline owner,
                     timer_armed := (if timer_armed owner \<noteq> 0 then 1 else 0)\<rparr>,
                  b0 @ replicate (length mem2 - length b0) 0))"
    have i: "rs_initial s = Some bs" "rs_initial_size s = length bs" using s(1) bs(1,3) sz u(1) by simp_all
    show thesis
      using that d [of c0 bg] bs(2) unfolding replay_restore_def i by (simp add: g(1) mg(2) len set)
  qed
qed

lemma replay_start_session:
  assumes "replay_start rt mp world0 i k = Some (k0, True)"
    "jani_wasm_instance_memory (wr_memory rt) (world0 (wasm_instance (item (kn_domain k) i))) = Some (b0, n0)"
  shows "\<exists>s0. kn_session k0 = Some s0 \<and> rs_owner s0 = Some i \<and> recording s0 [] \<and> rs_initial s0 \<noteq> None \<and> rs_expected s0 = None \<and>
    instance_state_serialize (item (kn_domain k) i) (Some b0) n0 (rs_initial_size s0) = rs_initial s0 \<and>
    rs_initial_size s0 = instance_state_size n0 (mailbox_used (item (kn_domain k) i))"
  using assms by (auto simp: replay_start_def Let_def zero_session_def recording_def log_holds_def split: option.splits if_splits)

text \<open>
  C40: replay is exact. A recording is started, the component runs handlers that succeed, and anything
  happens in between that leaves the session alone. The module is in the store and a new instance of it
  is created; outside of its linear memory, in its globals and tables, that instance is what the owner's
  instance was when the recording started, and it can be given as many pages. Then the saved state
  restores the instance the recording began with, \<open>replay_verify\<close> returns, and it answers whether the
  instance that runs now has the memory that the recorded handlers produced: true after a faithful run,
  false for any difference. The second run makes no live call: the components, the derivation graph and
  the ledger of the domain stay as they are, and the recording may go on. The runtime has to check
  addresses, to run the same instance in the same way and to treat the memory of an instance as documented.
\<close>

theorem replay_verify_decides:
  fixes k k2 :: "('d, 'i, 'p) kernel"
  assumes va: "\<forall>n p l. wr_valid_addr rt n p l \<longrightarrow> unat p + unat l \<le> n" and contract: "instance_contract rt rest"
    and start: "replay_start rt mp world0 i k = Some (k0, True)" "mail_ok (item (kn_domain k) i)"
      "w0 = world0 (wasm_instance (item (kn_domain k) i))"
    and run: "recorded_run rt mp i (w0, k0) (w1, k1)" "kn_session k2 = kn_session k1" "kn_session k1 = Some s" "rs_used s \<noteq> 0"
    and get: "object_store_get (dm_store (kn_domain k2)) (rs_module_id s) = Some (store, Some (header, module, n))"
      "object_id_equal (h_type_id header) (Object_Id 0 COMPONENT_TYPE_MODULE)"
    and create: "jani_wasm_instance_create rt mp (dm_heap (kn_domain k2)) (Some module) n = Some (h, Some (w, owned))"
      "rest w = rest w0" "wr_memory rt w = Some (Some b, p, q)" "wr_memory rt w0 = Some (Some b0, p0, q)" "q \<noteq> 0" "p \<le> p0"
      "p < p0 \<longrightarrow> wr_enlarge rt w (p0 - p) \<noteq> None"
  shows "\<exists>k3. replay_verify rt mp world k2 = Some (k3, same_memory rt w1 (world (wasm_instance (item (kn_domain k2) i)))) \<and>
    components (kn_domain k3) = components (kn_domain k2) \<and> lineage (kn_domain k3) = lineage (kn_domain k2) \<and>
    provenance (kn_domain k3) = provenance (kn_domain k2) \<and>
    (\<exists>es s'. recording s es \<and> kn_session k3 = Some s' \<and> recording s' es)"
proof -
  have va': "addr_checked (wr_valid_addr rt)" using va by (simp add: addr_checked_def)
  note m0 = contract_memory [OF contract create(4)]
  let ?owner = "item (kn_domain k) i"
  obtain s0 where s0: "kn_session k0 = Some s0" "rs_owner s0 = Some i" "recording s0 []" "rs_initial s0 \<noteq> None" "rs_expected s0 = None"
      "instance_state_serialize ?owner (Some b0) (length b0) (rs_initial_size s0) = rs_initial s0"
      "rs_initial_size s0 = instance_state_size (length b0) (mailbox_used ?owner)"
    using replay_start_session [OF start(1) m0(2) [unfolded start(3)]] by auto
  from recorded_run_log [OF va' run(1) _ s0(2,3)] s0(1) run(3) obtain es
    where es: "recording s es" "session_frame s = session_frame s0" "instance_log rt w0 es w1" by auto
  have f: "rs_owner s = Some i" "rs_initial s = rs_initial s0" "rs_expected s = None" "rs_initial_size s = rs_initial_size s0"
    using es(2) s0 by (auto simp: session_frame_def)
  have h1: "log_holds s es" using es(1) by (simp add: recording_def)
  then have "es \<noteq> []" using run(4) by (auto simp: log_holds_def)
  then have "log_wf es" using instance_log_wf [OF es(3)] h1 by (auto simp: log_wf_def log_holds_def)
  then have v: "replay_log_validate (Some (rs_bytes s)) (rs_used s)" using validate_recording [OF h1] by simp
  let ?k = "with_heap (with_store k2 store) h"
  have "replay_verify rt mp world k2 = verify_instance rt mp world s i w owned ?k"
    using run f s0(4) v get create(1) es(1) unfolding replay_verify_def by (auto simp: recording_def Let_def)
  moreover obtain ms where "mailbox_holds ?owner ms" "\<forall>msg\<in>set ms. slot_valid (fst msg)"
    using start(2) by (rule mail_ok_slots)
  then obtain copy where "replay_restore rt s (item (kn_domain ?k) i) w = Some (copy, w0)"
    by (rule restore_saved [OF contract create(3,4,5,6,7,2), of ?owner ms s "item (kn_domain ?k) i"]) (use s0(4,6,7) f in simp_all)
  ultimately show ?thesis
    using verify_instance_decides [OF es(3,1) f(3), of ?k i w copy mp world owned] es(1) by auto
qed

text \<open>
  A component with a memory of eight bytes, whose handler writes 7 to the first of them, is recorded
  for one handler. Its module is in the cache of the store. The memory of an instance is its whole state.
\<close>

definition byte_runtime :: "(unit, bytes) wasm_runtime" where
  "byte_runtime = \<lparr>wr_load = (\<lambda>_. Some ()), wr_instantiate = (\<lambda>_. Some (replicate 8 0)), wr_exec_env = (\<lambda>_. True),
     wr_memory = (\<lambda>w. if length w = 8 then Some (Some w, 1, 8) else None), wr_set_memory = (\<lambda>_ mem. mem), wr_enlarge = (\<lambda>_ _. None),
     wr_lookup = (\<lambda>_ _. Some (0, 0)), wr_call = (\<lambda>w _. Return (w[0 := 7]) True), wr_valid_addr = sample_addr\<rparr>"

definition sample_module :: bytes where
  "sample_module = [0x00, 0x61, 0x73, 0x6d, 1, 0, 0, 0]"

definition sample_header :: object_header where
  "sample_header = (decode_header (replicate OBJECT_HEADER_SIZE 0))\<lparr>h_type_id := Object_Id 0 3, h_payload_size := 8\<rparr>"

definition module_store :: "unit object_store" where
  "module_store = sample_bitmap_store
     \<lparr>st_table := \<lparr>entries = [\<lparr>e_id = Object_Id 2 2, e_version = 1, e_first_sector = 0, e_sector_count = 1\<rparr>], t_count = 1, t_capacity = 1\<rparr>,
      st_arena_buffer := encode_header sample_header @ sample_module, st_cache_slot_count := 1,
      st_cache_slots := [\<lparr>cs_id = Object_Id 2 2, cs_version = 1, cs_offset = 0, cs_length = 512, cs_last_access = 0\<rparr>]\<rparr>"

definition replay_kernel :: "(unit, unit, unit) kernel" where
  "replay_kernel = sample_kernel\<lparr>kn_domain := sample_domain\<lparr>dm_store := module_store\<rparr>\<rparr>"

lemma module_store_get:
  "\<exists>store. object_store_get module_store (Object_Id 2 2) = Some (store, Some (sample_header, sample_module, 8))"
proof -
  let ?e = "\<lparr>e_id = Object_Id 2 2, e_version = 1, e_first_sector = 0, e_sector_count = 1\<rparr>"
  have "object_table_find \<lparr>entries = [?e], t_count = 1, t_capacity = 1\<rparr> (Object_Id 2 2) = Some ?e" by code_simp
  then have f: "object_table_find (st_table module_store) (Object_Id 2 2) = Some ?e" by (simp add: module_store_def)
  have c: "cache_find module_store (Object_Id 2 2) 1 = Some 0" by (simp add: module_store_def cache_find_def upt_rec object_id_equal_def)
  have d: "decode_header (encode_header sample_header) = sample_header" "length (encode_header sample_header) = OBJECT_HEADER_SIZE"
    by (simp_all add: header_codec.dec_enc header_codec.enc_length)
  have "object_result (encode_header sample_header @ sample_module) = (sample_header, sample_module, 8)"
    using d by (simp add: object_result_def Let_def) (simp add: sample_header_def sample_module_def)
  then show ?thesis
    by (simp add: object_store_get_def f c) (simp add: module_store_def object_store_requires_recovery_def sample_bitmap_store_def object_id_is_zero_def)
qed

text \<open>Instances of another length have no memory and are all state of the other kind.\<close>

definition byte_rest :: "bytes \<Rightarrow> bytes" where
  "byte_rest w = (if length w = 8 then [] else w)"

lemma byte_contract: "instance_contract byte_runtime byte_rest"
  by (auto simp: instance_contract_def byte_runtime_def byte_rest_def split: if_splits)

lemma sample_allocations:
  obtains h1 h2 a where "kmalloc sample_pages sample_heap 72 = Some (h1, 0x200010)" "kmalloc sample_pages h1 8 = Some (h2, a)" "a \<noteq> 0"
proof -
  have 1: "map_option snd (kmalloc sample_pages sample_heap 72) = Some 0x200010" by code_simp
  then obtain h1 where h1: "kmalloc sample_pages sample_heap 72 = Some (h1, 0x200010)" by auto
  have "map_option snd (kmalloc sample_pages (fst (the (kmalloc sample_pages sample_heap 72))) 8) = Some 0x200070" by code_simp
  then obtain h2 where "kmalloc sample_pages h1 8 = Some (h2, 0x200070)" using h1 by auto
  then show ?thesis using that h1 by auto
qed

definition started_session :: "bytes \<Rightarrow> replay_session" where
  "started_session bs = zero_session\<lparr>rs_mode := REPLAY_RECORD, rs_owner := Some 0, rs_initial := Some bs, rs_initial_size := 72,
     rs_initial_address := 0x200010, rs_module_id := Object_Id 2 2\<rparr>"

lemma started_session_recording: "recording (started_session bs) []" "rs_owner (started_session bs) = Some 0"
  by (simp_all add: started_session_def zero_session_def recording_def log_holds_def)

lemma sample_started:
  obtains h1 h2 a bs where "kmalloc sample_pages h1 8 = Some (h2, a)" "a \<noteq> 0"
    "replay_start byte_runtime sample_pages (\<lambda>_. replicate 8 0) 0 replay_kernel =
       Some ((with_heap replay_kernel h1)\<lparr>kn_session := Some (started_session bs)\<rparr>, True)"
proof -
  let ?rt = byte_runtime and ?w0 = "replicate 8 0 :: bytes"
  have mem: "jani_wasm_instance_memory (wr_memory ?rt) ?w0 = Some (?w0, 8)"
    by (simp add: jani_wasm_instance_memory_def byte_runtime_def)
  obtain bs where bs: "instance_state_serialize sample_member (Some ?w0) 8 72 = Some bs"
    by (simp add: instance_state_serialize_def instance_state_size_def sample_member_def sample_component_def Let_def)
  obtain h1 h2 a where h: "kmalloc sample_pages sample_heap 72 = Some (h1, 0x200010)" "kmalloc sample_pages h1 8 = Some (h2, a)" "a \<noteq> 0"
    by (rule sample_allocations)
  have items: "items (components sample_domain) = [Some sample_member, None, None, None]" "dm_heap sample_domain = sample_heap" "active sample_domain = 0"
    by (simp_all add: sample_domain_def)
  have member: "mailbox_used sample_member = 0" "high (root_id sample_member) = 2" "module_id sample_member = Object_Id 2 2"
    by (simp_all add: sample_member_def sample_component_def)
  have "replay_start ?rt sample_pages (\<lambda>_. ?w0) 0 replay_kernel = Some ((with_heap replay_kernel h1)\<lparr>kn_session := Some (started_session bs)\<rparr>, True)"
    using bs h(1) items member
    by (simp add: replay_start_def replay_kernel_def mem instance_state_size_def COMPONENT_SEQUENCE_ID_HIGH_def sample_kernel_def started_session_def)
  then show ?thesis using that h by blast
qed

theorem replay_verify_decides_witness:
  "\<exists>k2 :: (unit, unit, unit) kernel. (\<exists>k3. replay_verify byte_runtime sample_pages (\<lambda>_. 7 # replicate 7 0) k2 = Some (k3, True)) \<and>
     (\<exists>k3. replay_verify byte_runtime sample_pages (\<lambda>_. replicate 8 0) k2 = Some (k3, False))"
proof -
  let ?rt = byte_runtime and ?w0 = "replicate 8 0 :: bytes" and ?w1 = "7 # replicate 7 0 :: bytes"
  have mem: "jani_wasm_instance_memory (wr_memory ?rt) w = Some (w, 8)" if "length w = 8" for w
    using that by (simp add: jani_wasm_instance_memory_def byte_runtime_def)
  have items: "items (components sample_domain) = [Some sample_member, None, None, None]" "dm_heap sample_domain = sample_heap" "active sample_domain = 0"
    by (simp_all add: sample_domain_def)
  have "mailbox_holds sample_member []" using sample_mailbox by (simp add: mailbox_holds_def sample_member_def)
  then have mail: "mail_ok sample_member" by (auto simp: mail_ok_def intro!: exI [of _ "[]"])
  obtain h1 h2 a bs where h: "kmalloc sample_pages h1 8 = Some (h2, a)" "a \<noteq> 0"
    and start0: "replay_start ?rt sample_pages (\<lambda>_. ?w0) 0 replay_kernel = Some ((with_heap replay_kernel h1)\<lparr>kn_session := Some (started_session bs)\<rparr>, True)"
    by (rule sample_started)
  define s0 where "s0 = started_session bs"
  define k0 where "k0 = (with_heap replay_kernel h1)\<lparr>kn_session := Some s0\<rparr>"
  have start: "replay_start ?rt sample_pages (\<lambda>_. ?w0) 0 replay_kernel = Some (k0, True)"
    using start0 by (simp add: k0_def s0_def)
  have rec: "recording s0 []" "rs_owner s0 = Some 0" by (simp_all add: s0_def started_session_recording)
  define e where "e = handler_call 5 0"
  define s1 where "s1 = append_call s0 0 e"
  have fits: "call_fits s0 e" by (simp add: call_fits_def e_def handler_call_def replay_call_ok_def s0_def started_session_def zero_session_def)
  have rh: "replay_handler (Some s0) 0 5 0 = (Some s1, True)"
    using replay_handler_recording [OF rec, of 5 0] fits by (simp add: s1_def e_def)
  have rec1: "recording s1 [e]" using recording_append [OF rec(1) fits] by (simp add: s1_def)
  define kr where "kr = k0\<lparr>kn_current := Some (Registered 0)\<rparr>"
  have run: "run_handler ?rt sample_pages 0 5 0 ?w0 kr = Some (kr\<lparr>kn_session := Some s1\<rparr>, ?w1, True)"
    using rh rec1
    by (simp add: run_handler_def kr_def k0_def Let_def jani_wasm_instance_call_def jani_wasm_instance_has_handler_def
        recording_def) (simp add: byte_runtime_def session_failed_def numeral_eq_Suc)
  define k2 where "k2 = kr\<lparr>kn_session := Some s1\<rparr>"
  have rr: "recorded_run ?rt sample_pages 0 (?w0, k0) (?w1, k2)"
    using run unfolding k2_def by (intro run_next [OF run_start]) (simp_all add: kr_def current_address_def)
  have used: "rs_used s1 \<noteq> 0" by (simp add: s1_def append_call_def e_def call_bytes_def handler_call_def encode_replay_record_def call_record_def)
  have frame: "rs_module_id s1 = Object_Id 2 2"
    by (simp_all add: s1_def append_call_def s0_def started_session_def)
  have dom: "dm_store (kn_domain k2) = module_store" "dm_heap (kn_domain k2) = h1" "item (kn_domain k2) 0 = sample_member"
    using items by (simp_all add: k2_def kr_def k0_def with_heap_def replay_kernel_def)
  obtain store where get: "object_store_get (dm_store (kn_domain k2)) (rs_module_id s1) = Some (store, Some (sample_header, sample_module, 8))"
    using module_store_get by (auto simp: dom frame)
  have ty: "object_id_equal (h_type_id sample_header) (Object_Id 0 COMPONENT_TYPE_MODULE)"
    by (simp add: sample_header_def COMPONENT_TYPE_MODULE_def object_id_equal_def)
  have v: "jani_wasm_module_validate (Some sample_module) 8 \<noteq> None" by code_simp
  have create: "jani_wasm_instance_create ?rt sample_pages (dm_heap (kn_domain k2)) (Some sample_module) 8 = Some (h2, Some (?w0, a))"
    using h v by (simp add: jani_wasm_instance_create_def dom) (simp add: byte_runtime_def)
  have va: "\<forall>n p l. wr_valid_addr ?rt n p l \<longrightarrow> unat p + unat l \<le> n" by (simp add: byte_runtime_def)
  have fresh: "wr_memory ?rt ?w0 = Some (Some ?w0, 1, 8)" by (simp add: byte_runtime_def)
  have sess: "kn_session k2 = Some s1" by (simp add: k2_def)
  have result: "\<exists>k3. replay_verify ?rt sample_pages world k2 = Some (k3, same_memory ?rt ?w1 (world ()))" for world :: "unit \<Rightarrow> bytes"
    using replay_verify_decides [OF va byte_contract start _ _ rr refl sess used get ty create refl fresh fresh _ order.refl, of world] mail items
    by (auto simp: replay_kernel_def dom)
  have "same_memory ?rt ?w1 ?w1" "\<not> same_memory ?rt ?w1 ?w0"
    by (auto simp: same_memory_def mem intro!: exI [of _ 0])
  then show ?thesis using result [of "\<lambda>_. ?w1"] result [of "\<lambda>_. ?w0"] by (intro exI [of _ k2]) simp
qed

end
