(* ===== verification/Replay_Trace.thy ===== *)
theory Replay_Trace
  imports Replay_Run
begin

text \<open>
  What a recording is worth to the guest: the log of a session seen as the sequence of the entries into
  the kernel that it records, \<open>replay_handler\<close> of \<^verbatim>\<open>kernel/replay/record.c\<close> for the start of
  a handler and the native calls of \<^verbatim>\<open>kernel/wasm/syscalls.c\<close>, whose bodies capture and replay.
\<close>

section \<open>Entries into the kernel\<close>

text \<open>
  A handler starts at a time, for a timer or a message; the guest makes a call with its linear memory. The answer
  is whether the handler may run, or the memory after the call, its result and whether the call raised an exception.
\<close>

datatype guest_entry = Handler u64 u32 | Syscall syscall bytes

datatype guest_answer = Started bool | Returned bytes int bool

fun enter_kernel :: "valid_addr \<Rightarrow> 'p map_page \<Rightarrow> nat \<Rightarrow> guest_entry \<Rightarrow> ('d, 'i, 'p) kernel \<Rightarrow> (('d, 'i, 'p) kernel \<times> guest_answer) option" where
  "enter_kernel va mp i (Handler now timer) k =
     (case replay_handler (kn_session k) i now timer of (session, ok) \<Rightarrow> Some (k\<lparr>kn_session := session\<rparr>, Started ok))"
| "enter_kernel va mp i (Syscall sc mem) k =
     (case jani_symbols va mp sc k mem of
        None \<Rightarrow> None
      | Some (k', mem', r, trap) \<Rightarrow> Some (k', Returned mem' r trap))"

text \<open>The entries that succeed.\<close>

fun entry_ok :: "guest_entry \<Rightarrow> guest_answer \<Rightarrow> bool" where
  "entry_ok (Handler now timer) (Started ok) \<longleftrightarrow> ok \<and> timer \<le> 1"
| "entry_ok (Syscall sc mem) (Returned mem' r trap) \<longleftrightarrow> \<not> trap"
| "entry_ok _ _ \<longleftrightarrow> False"

text \<open>
  The entries that component \<open>i\<close> makes while it runs, all of them successful, with their answers, in order:
  between two of them anything may happen to the kernel but to the session.
\<close>

inductive recorded_trace ::
    "valid_addr \<Rightarrow> 'p map_page \<Rightarrow> nat \<Rightarrow> ('d, 'i, 'p) kernel \<Rightarrow> (guest_entry \<times> guest_answer) list \<Rightarrow> ('d, 'i, 'p) kernel \<Rightarrow> bool"
  for va mp i where
  trace_start: "recorded_trace va mp i k [] k"
| trace_next: "recorded_trace va mp i k tr k1 \<Longrightarrow> kn_session k2 = kn_session k1 \<Longrightarrow> current_address k2 = Some i \<Longrightarrow>
    enter_kernel va mp i x k2 = Some (k3, a) \<Longrightarrow> entry_ok x a \<Longrightarrow> recorded_trace va mp i k (tr @ [(x, a)]) k3"

text \<open>Any sequence of entries, made one after the other by the guest at \<open>j\<close>.\<close>

fun enter_all :: "valid_addr \<Rightarrow> 'p map_page \<Rightarrow> nat \<Rightarrow> guest_entry list \<Rightarrow> ('d, 'i, 'p) kernel \<Rightarrow> (('d, 'i, 'p) kernel \<times> guest_answer list) option" where
  "enter_all va mp j [] k = Some (k, [])"
| "enter_all va mp j (x # xs) k =
     (case enter_kernel va mp j x k of
        None \<Rightarrow> None
      | Some (k1, a) \<Rightarrow> (case enter_all va mp j xs k1 of None \<Rightarrow> None | Some (k2, as) \<Rightarrow> Some (k2, a # as)))"

section \<open>Answers from the log\<close>

text \<open>What the log is compared with: the number and the arguments of the call, the bytes it reads and the size of what it may write.\<close>

fun asks :: "valid_addr \<Rightarrow> guest_entry \<Rightarrow> u32 \<times> u64 list \<times> bytes \<times> nat" where
  "asks va (Handler now timer) = (0, [now, ucast timer, 0, 0, 0, 0, 0, 0], [], 0)"
| "asks va (Syscall sc mem) =
     (let cp = call_spans va sc mem in (fst (call_number sc), snd (call_number sc), cp_input cp, cp_output_size cp))"

text \<open>
  The answer of the log to an entry that agrees with a recorded one: the result and the bytes that the recorded call
  wrote, at the places where the call now may write.
\<close>

fun answered :: "valid_addr \<Rightarrow> guest_entry \<times> guest_answer \<Rightarrow> guest_entry \<Rightarrow> guest_answer" where
  "answered va (Syscall sc0 mem0, Returned mem0' r t) (Syscall sc mem) =
     Returned (release (call_spans va sc mem) (captured (call_spans va sc0 mem0) mem0') mem) r False"
| "answered va _ _ = Started True"

fun refused :: "guest_entry \<Rightarrow> guest_answer" where
  "refused (Handler now timer) = Started False"
| "refused (Syscall sc mem) = Returned mem (call_result_of sc (of_int JANI_EINVAL)) True"

text \<open>The log answers as long as the entries agree with it, and refuses everything from the first that does not.\<close>

fun replayed :: "valid_addr \<Rightarrow> (guest_entry \<times> guest_answer) list \<Rightarrow> guest_entry list \<Rightarrow> guest_answer list" where
  "replayed va tr [] = []"
| "replayed va [] (x # xs) = map refused (x # xs)"
| "replayed va (ta # tr) (x # xs) =
     (if asks va (fst ta) = asks va x then answered va ta x # replayed va tr xs else map refused (x # xs))"

section \<open>Recording\<close>

text \<open>The record of an entry: the result in it is the bit pattern before it is cut to the width of the call.\<close>

fun entry_record :: "valid_addr \<Rightarrow> guest_entry \<times> guest_answer \<Rightarrow> replay_call \<Rightarrow> bool" where
  "entry_record va (Handler now timer, Started ok) e \<longleftrightarrow> ok \<and> timer \<le> 1 \<and> e = handler_call now (ucast timer)"
| "entry_record va (Syscall sc mem, Returned mem' r t) e \<longleftrightarrow>
     \<not> t \<and> effect_recorded va sc mem mem' \<and> (\<exists>w. e = call_of va sc mem mem' w \<and> r = call_result_of sc w)"
| "entry_record va _ e \<longleftrightarrow> False"

lemma entry_record_asks: "entry_record va (x, a) e \<Longrightarrow> asks va x = (call_kind e, call_args e, call_input e, length (call_output e))"
  by (cases x; cases a) (auto simp: handler_call_def call_of_def effect_recorded_def Let_def)

lemma entry_record_wf: "entry_record va (x, a) e \<Longrightarrow> replay_call_ok e \<Longrightarrow> call_wf e \<and> (call_kind e = 0 \<longleftrightarrow> (\<exists>now timer. x = Handler now timer))"
  using call_kind_of by (cases x; cases a) (auto simp: call_wf_def handler_call_def dest: ucast_timer)

lemma record_entry:
  assumes va: "addr_checked va" and s: "kn_session k = Some s" "rs_owner s = Some i" "current_address k = Some i" "recording s es"
    and x: "enter_kernel va mp i x k = Some (k', a)" "entry_ok x a"
  shows "\<exists>e. entry_record va (x, a) e \<and> kn_session k' = Some (append_call s (length es) e) \<and> call_fits s e"
proof (cases x)
  case (Handler now timer)
  then show ?thesis
    using x s replay_handler_recording [OF s(4,2), of now timer] by (auto split: if_splits)
next
  case (Syscall sc mem)
  then obtain mem' r t where a: "jani_symbols va mp sc k mem = Some (k', mem', r, t)" "a = Returned mem' r t"
    using x(1) by (auto split: option.splits)
  then have t: "\<not> t" using x(2) Syscall by simp
  obtain w where w: "captured_call va mp sc k mem = Some (k', mem', w, False)" "r = call_result_of sc w"
    using a(1) t by (auto simp: jani_symbols_captured)
  have "rs_owner s = current_address k" using s by simp
  from record_call [OF va s(1) this s(4) w(1)] show ?thesis
    using Syscall a(2) w(2) t by (intro exI [of _ "call_of va sc mem mem' w"]) auto
qed

lemma recorded_trace_log:
  assumes va: "addr_checked va"
  shows "recorded_trace va mp i k tr k' \<Longrightarrow> kn_session k = Some s \<Longrightarrow> rs_owner s = Some i \<Longrightarrow> recording s [] \<Longrightarrow>
    \<exists>es s'. kn_session k' = Some s' \<and> recording s' es \<and> rs_owner s' = Some i \<and> list_all2 (entry_record va) tr es"
proof (induction rule: recorded_trace.induct)
  case (trace_next k tr k1 k2 x k3 a)
  then obtain es s1 where 1: "kn_session k1 = Some s1" "recording s1 es" "rs_owner s1 = Some i" "list_all2 (entry_record va) tr es" by auto
  then have "kn_session k2 = Some s1" using trace_next.hyps(2) by simp
  from record_entry [OF va this 1(3) trace_next.hyps(3) 1(2) trace_next.hyps(4,5)] obtain e
    where e: "entry_record va (x, a) e" "kn_session k3 = Some (append_call s1 (length es) e)" "call_fits s1 e" by blast
  then show ?case
    using 1 recording_append [OF 1(2) e(3)] by (intro exI [of _ "es @ [e]"] exI) (auto intro: list_all2_appendI)
qed auto

lemma recorded_log_wf:
  assumes "list_all2 (entry_record va) tr es" "list_all replay_call_ok es"
  shows "log_wf es \<longleftrightarrow> (\<exists>now timer. tr \<noteq> [] \<and> fst (hd tr) = Handler now timer)"
proof -
  have "list_all call_wf es"
    using assms by (induction rule: list_all2_induct) (auto dest: entry_record_wf)
  moreover have "(es \<noteq> [] \<and> call_kind (hd es) = 0) \<longleftrightarrow> (\<exists>now timer. tr \<noteq> [] \<and> fst (hd tr) = Handler now timer)"
    using assms by (cases tr; cases es) (auto dest: entry_record_wf)
  ultimately show ?thesis by (auto simp: log_wf_def)
qed

section \<open>Replaying\<close>

lemma same_result: "fst (call_number sc) = fst (call_number sc') \<Longrightarrow> call_result_of sc w = call_result_of sc' w"
proof -
  have "call_result_of sc w = (if fst (call_number sc) \<in> {5, 12} then as_int64 w else if fst (call_number sc) = 14 then 0 else as_int32 w)" for sc
    by (cases sc) simp_all
  then show "fst (call_number sc) = fst (call_number sc') \<Longrightarrow> ?thesis" by simp
qed

lemma asks_args: "length (fst (snd (asks va x))) = 8"
  by (cases x) (simp_all add: Let_def call_number_args)

text \<open>An entry while a log is played, at the place \<open>n\<close> of the log.\<close>

lemma replay_entry:
  assumes s: "kn_session k = Some s" "rs_owner s = Some j" "current_address k = Some j" "playing s es n"
  shows "enter_kernel va mp j x k =
    (if n < length es \<and> asks va x = (call_kind (es ! n), call_args (es ! n), call_input (es ! n), length (call_output (es ! n)))
     then Some (k\<lparr>kn_session := Some (advance s (es ! n))\<rparr>,
            case x of Handler now timer \<Rightarrow> Started True
            | Syscall sc mem \<Rightarrow> Returned (release (call_spans va sc mem) (call_output (es ! n)) mem) (call_result_of sc (call_result (es ! n))) False)
     else Some (k\<lparr>kn_session := Some (s\<lparr>rs_failed := True\<rparr>)\<rparr>, refused x))"
proof (cases x)
  case (Handler now timer)
  have "replay_before s 0 [now, ucast timer, 0, 0, 0, 0, 0, 0] None 0 0 =
      (if n < length es \<and> call_matches (es ! n) 0 [now, ucast timer, 0, 0, 0, 0, 0, 0] [] 0
       then (advance s (es ! n), 0, Some (call_output (es ! n), call_result (es ! n))) else (s\<lparr>rs_failed := True\<rparr>, -1, None))"
    using before_playing [OF s(4), of "[now, ucast timer, 0, 0, 0, 0, 0, 0]" "[]" None "[]" 0 0] by simp
  then show ?thesis using s Handler by (auto simp: replay_handler_def call_matches_def Let_def)
next
  case (Syscall sc mem)
  let ?cp = "call_spans va sc mem"
  have o: "rs_owner s = current_address k" using s by simp
  have "replay_before s (fst (call_number sc)) (snd (call_number sc)) (Some (cp_input ?cp)) (length (cp_input ?cp)) (cp_output_size ?cp) =
      (if n < length es \<and> call_matches (es ! n) (fst (call_number sc)) (snd (call_number sc)) (cp_input ?cp) (cp_output_size ?cp)
       then (advance s (es ! n), 0, Some (call_output (es ! n), call_result (es ! n))) else (s\<lparr>rs_failed := True\<rparr>, -1, None))"
    using before_playing [OF s(4) call_number_args, of "cp_input ?cp" "Some (cp_input ?cp)" "cp_input ?cp"] by simp
  then show ?thesis
    using Syscall by (auto simp: jani_symbols_captured captured_call_attached [OF s(1) o] call_matches_def Let_def)
qed

text \<open>A session that has failed refuses every entry.\<close>

lemma failed_entries:
  assumes "kn_session k = Some s" "rs_owner s = Some j" "current_address k = Some j" "rs_failed s" "rs_mode s \<noteq> REPLAY_OFF"
  shows "enter_all va mp j xs k = Some (k, map refused xs)"
proof -
  have b: "replay_before s kind args input in_size out_size = (s, -1, None)" for kind args input in_size out_size
    using assms(4,5) by (simp add: replay_before_def)
  have k: "k\<lparr>kn_session := Some s\<rparr> = k" using assms(1) by simp
  have o: "rs_owner s = current_address k" using assms by simp
  have "enter_kernel va mp j x k = Some (k, refused x)" for x
    using assms(1,2) by (cases x) (simp_all add: replay_handler_def b k jani_symbols_captured captured_call_attached [OF assms(1) o] Let_def)
  then show ?thesis by (induction xs) simp_all
qed

lemma current_address_session [simp]: "current_address (k\<lparr>kn_session := x\<rparr>) = current_address k"
  by (simp add: current_address_def)

lemma answered_record:
  assumes "entry_record va (x0, a0) e" "asks va x0 = asks va x"
  shows "(case x of Handler now timer \<Rightarrow> Started True
          | Syscall sc mem \<Rightarrow> Returned (release (call_spans va sc mem) (call_output e) mem) (call_result_of sc (call_result e)) False) =
    answered va (x0, a0) x"
proof (cases x)
  case (Handler now timer)
  then show ?thesis by (cases x0; cases a0) simp_all
next
  case (Syscall sc mem)
  have n: "fst (asks va x0) = fst (call_number sc)" using assms(2) Syscall by (simp add: Let_def)
  have "fst (call_number sc) \<noteq> 0" by (cases sc) simp_all
  then obtain sc0 mem0 mem0' r where x0: "x0 = Syscall sc0 mem0" "a0 = Returned mem0' r False"
    using n assms(1) by (cases x0; cases a0) auto
  then have "fst (call_number sc0) = fst (call_number sc)" using n by (simp add: Let_def)
  then show ?thesis using assms(1) Syscall x0 same_result [of sc0 sc] by (auto simp: call_of_def)
qed

lemma replay_entries:
  "kn_session k = Some s \<Longrightarrow> rs_owner s = Some j \<Longrightarrow> current_address k = Some j \<Longrightarrow> playing s es n \<Longrightarrow> list_all2 (entry_record va) tr (drop n es) \<Longrightarrow>
   \<exists>s'. enter_all va mp j xs k = Some (k\<lparr>kn_session := Some s'\<rparr>, replayed va tr xs) \<and>
     (if map (asks va) xs = take (length xs) (map (asks va \<circ> fst) tr) then playing s' es (n + length xs) else rs_failed s')"
proof (induction xs arbitrary: k s n tr)
  case Nil
  then show ?case by (intro exI [of _ s]) simp
next
  case (Cons x xs)
  have refuse: "\<exists>s'. enter_all va mp j (x # xs) k = Some (k\<lparr>kn_session := Some s'\<rparr>, map refused (x # xs)) \<and> rs_failed s'"
    if "enter_kernel va mp j x k = Some (k\<lparr>kn_session := Some (s\<lparr>rs_failed := True\<rparr>)\<rparr>, refused x)"
  proof -
    let ?s = "s\<lparr>rs_failed := True\<rparr>"
    have "enter_all va mp j xs (k\<lparr>kn_session := Some ?s\<rparr>) = Some (k\<lparr>kn_session := Some ?s\<rparr>, map refused xs)"
      using Cons.prems by (intro failed_entries [of _ ?s]) (auto simp: playing_def)
    then show ?thesis using that by (intro exI [of _ ?s]) simp
  qed
  note entry = replay_entry [OF Cons.prems(1-4), of va mp x]
  show ?case
  proof (cases tr)
    case Nil
    then have "\<not> n < length es" using Cons.prems(5) by simp
    then show ?thesis using refuse entry Nil by simp
  next
    case (Cons ta tr1)
    obtain x0 a0 where ta: "ta = (x0, a0)" by (cases ta)
    have n: "n < length es" using \<open>list_all2 _ tr _\<close> Cons by (cases "n < length es") auto
    then have d: "drop n es = es ! n # drop (Suc n) es" by (simp add: Cons_nth_drop_Suc)
    have r: "entry_record va (x0, a0) (es ! n)" "list_all2 (entry_record va) tr1 (drop (Suc n) es)"
      using Cons.prems(5) Cons ta d by auto
    show ?thesis
    proof (cases "asks va x0 = asks va x")
      case True
      let ?s = "advance s (es ! n)"
      have e: "enter_kernel va mp j x k = Some (k\<lparr>kn_session := Some ?s\<rparr>, answered va ta x)"
        using entry n True entry_record_asks [OF r(1)] answered_record [OF r(1) True] ta by simp
      have "\<exists>s'. enter_all va mp j xs (k\<lparr>kn_session := Some ?s\<rparr>) = Some (k\<lparr>kn_session := Some ?s, kn_session := Some s'\<rparr>, replayed va tr1 xs) \<and>
          (if map (asks va) xs = take (length xs) (map (asks va \<circ> fst) tr1) then playing s' es (Suc n + length xs) else rs_failed s')"
        using Cons.prems playing_advance [OF Cons.prems(4) n] r(2) by (intro Cons.IH) simp_all
      then obtain s' where "enter_all va mp j xs (k\<lparr>kn_session := Some ?s\<rparr>) = Some (k\<lparr>kn_session := Some s'\<rparr>, replayed va tr1 xs)"
          "if map (asks va) xs = take (length xs) (map (asks va \<circ> fst) tr1) then playing s' es (Suc n + length xs) else rs_failed s'"
        by auto
      then show ?thesis using e True Cons ta by (intro exI [of _ s']) (auto simp: comp_def split: if_splits)
    next
      case False
      then show ?thesis using refuse entry n entry_record_asks [OF r(1)] Cons ta by auto
    qed
  qed
qed

lemma replayed_same:
  "list_all2 (entry_record va) tr es \<Longrightarrow> replayed va tr (map fst tr) = map snd tr"
proof (induction rule: list_all2_induct)
  case (Cons ta tr e es)
  have "answered va ta (fst ta) = snd ta"
    using Cons.hyps(1) by (cases ta; cases "fst ta"; cases "snd ta") (auto simp: effect_recorded_def)
  then show ?case using Cons.IH by (cases ta) simp
qed simp

text \<open>
  C37: a run that is recorded can be played back. A recording is started and the component makes any number
  of entries into the kernel that succeed: handlers, and system calls that raise no exception. The log
  passes the validator exactly when the first entry is a handler. Played from its start, for whatever guest and
  from whatever kernel, the log answers any sequence of entries without a live call, so that nothing of the kernel
  changes but the session: as long as number, arguments, input bytes and output size agree with the
  recorded entry the guest gets the recorded result and the recorded bytes, and from the first that does not agree
  on every entry is refused with its memory unchanged; the session has failed exactly when there was such an entry. The entries that
  were recorded get the answers they got, memory included, and use the log up exactly.
\<close>

theorem replay_reproduces_recording:
  fixes k0 k1 :: "('d, 'i, 'p) kernel"
  assumes va: "\<forall>n p l. va n p l \<longrightarrow> unat p + unat l \<le> n" and start: "replay_start rt mp world i k = Some (k0, True)"
    and trace: "recorded_trace va mp i k0 tr k1" "kn_session k1 = Some s"
  shows "(replay_log_validate (Some (rs_bytes s)) (rs_used s) \<longleftrightarrow> (\<exists>now timer. tr \<noteq> [] \<and> fst (hd tr) = Handler now timer)) \<and>
    (\<forall>j (kp :: ('d, 'i, 'p) kernel) xs.
       kn_session kp = Some (s\<lparr>rs_owner := Some j, rs_mode := REPLAY_PLAY, rs_cursor := 0, rs_sequence := 0\<rparr>) \<and> current_address kp = Some j \<longrightarrow>
       (\<exists>s'. enter_all va mp j xs kp = Some (kp\<lparr>kn_session := Some s'\<rparr>, replayed va tr xs) \<and>
          (rs_failed s' \<longleftrightarrow> map (asks va) xs \<noteq> take (length xs) (map (asks va \<circ> fst) tr)) \<and>
          (xs = map fst tr \<longrightarrow> replayed va tr xs = map snd tr \<and> rs_cursor s' = rs_used s')))"
proof -
  have va': "addr_checked va" using va by (simp add: addr_checked_def)
  obtain s0 where s0: "kn_session k0 = Some s0" "rs_owner s0 = Some i" "recording s0 []"
    using start by (auto simp: replay_start_def Let_def zero_session_def recording_def log_holds_def split: option.splits if_splits)
  from recorded_trace_log [OF va' trace(1) s0] trace(2) obtain es
    where es: "recording s es" "list_all2 (entry_record va) tr es" by auto
  have h: "log_holds s es" "list_all replay_call_ok es" using es(1) by (auto simp: recording_def log_holds_def)
  have "\<exists>s'. enter_all va mp j xs kp = Some (kp\<lparr>kn_session := Some s'\<rparr>, replayed va tr xs) \<and>
          (rs_failed s' \<longleftrightarrow> map (asks va) xs \<noteq> take (length xs) (map (asks va \<circ> fst) tr)) \<and>
          (xs = map fst tr \<longrightarrow> replayed va tr xs = map snd tr \<and> rs_cursor s' = rs_used s')"
    if k: "kn_session kp = Some (s\<lparr>rs_owner := Some j, rs_mode := REPLAY_PLAY, rs_cursor := 0, rs_sequence := 0\<rparr>)" "current_address kp = Some j"
    for j and kp :: "('d, 'i, 'p) kernel" and xs
  proof -
    let ?s = "s\<lparr>rs_owner := Some j, rs_mode := REPLAY_PLAY, rs_cursor := 0, rs_sequence := 0\<rparr>"
    have p: "playing ?s es 0" using es(1) log_holds_cong [of ?s s es] by (simp add: recording_def playing_def)
    have "\<exists>s'. enter_all va mp j xs kp = Some (kp\<lparr>kn_session := Some s'\<rparr>, replayed va tr xs) \<and>
        (if map (asks va) xs = take (length xs) (map (asks va \<circ> fst) tr) then playing s' es (length xs) else rs_failed s')"
      using replay_entries [OF k(1) _ k(2) p, of va tr mp xs, unfolded add_0 drop_0] es(2) by simp
    then obtain s' where
      r: "enter_all va mp j xs kp = Some (kp\<lparr>kn_session := Some s'\<rparr>, replayed va tr xs)"
        "if map (asks va) xs = take (length xs) (map (asks va \<circ> fst) tr) then playing s' es (length xs) else rs_failed s'" by blast
    have "rs_cursor s' = rs_used s'" if "xs = map fst tr"
      using r(2) that list_all2_lengthD [OF es(2)] by (simp add: playing_def log_holds_def)
    then show ?thesis using r replayed_same [OF es(2)] by (intro exI [of _ s']) (auto simp: playing_def split: if_splits)
  qed
  moreover have "replay_log_validate (Some (rs_bytes s)) (rs_used s) \<longleftrightarrow> (\<exists>now timer. tr \<noteq> [] \<and> fst (hd tr) = Handler now timer)"
    using validate_recording [OF h(1)] recorded_log_wf [OF es(2) h(2)] by simp
  ultimately show ?thesis by blast
qed

text \<open>A call that fits the log and raises no exception is recorded.\<close>

lemma call_recorded:
  assumes va: "addr_checked va" and s: "kn_session k = Some s" "rs_owner s = current_address k" "recording s es"
    and live: "live_call va mp sc k mem = Some (k', mem', r, False)" and fits: "call_fits s (call_of va sc mem mem' (of_int r))"
  shows "\<exists>k''. captured_call va mp sc k mem = Some (k'', mem', of_int r, False)"
proof -
  let ?cp = "call_spans va sc mem" and ?e = "call_of va sc mem mem' (of_int r)"
  have er: "effect_recorded va sc mem mem'" by (rule effect_recorded_live [OF va live])
  have e: "call_kind ?e = fst (call_number sc)" "call_args ?e = snd (call_number sc)" "call_input ?e = cp_input ?cp"
    "length (call_output ?e) = cp_output_size ?cp" "length (call_args ?e) = 8"
    using er call_number_args [of sc] by (simp_all add: effect_recorded_def call_of_def)
  have b: "replay_before s (fst (call_number sc)) (snd (call_number sc)) (Some (cp_input ?cp)) (length (cp_input ?cp)) (cp_output_size ?cp) = (s, 1, None)"
    using before_recording [OF s(3) e(5)] fits unfolding e by simp
  have k: "k\<lparr>kn_session := Some s\<rparr> = k" using s(1) by simp
  have k': "kn_session k' = Some s"
    using live_call_safe [OF va, of k mem sc mp] live s(1) by (auto simp: call_safe_def kernel_frame_def)
  have cp: "cp_session ?cp" "cp_kind ?cp = call_kind ?e" "cp_arguments ?cp = call_args ?e" "cp_input ?cp = call_input ?e"
    "captured (?cp\<lparr>cp_result := x\<rparr>) mem' = call_output ?e" "cp_output_size (?cp\<lparr>cp_result := x\<rparr>) = length (call_output ?e)" for x
    using e(4) by (simp_all add: call_spans_def capture_spans_def call_of_def captured_def cp_output_size_def split: prod.splits)
  have "replay_after s (call_kind ?e) (call_args ?e) (Some (call_input ?e)) (length (call_input ?e)) (Some (call_output ?e))
      (length (call_output ?e)) (call_result ?e) = (append_call s (length es) ?e, True)"
    by (rule after_recording [OF s(3) fits, where ib = "call_input ?e" and ob = "call_output ?e"]) simp_all
  moreover have "call_result ?e = of_int r" by (simp add: call_of_def)
  ultimately have "snd (capture_after k' mem' (?cp\<lparr>cp_result := of_int r\<rparr>)) = False" using k' by (simp add: capture_after_def cp)
  then show ?thesis
    unfolding captured_call_attached [OF s(1,2)] Let_def b by (cases "capture_after k' mem' (?cp\<lparr>cp_result := of_int r\<rparr>)") (simp add: k live)
qed

text \<open>A handler that asks for the metrics of its component; played with a span of another size, the call is refused.\<close>

theorem replay_reproduces_recording_witness:
  "\<exists>s mem'. length mem' = 40 \<and> replay_log_validate (Some (rs_bytes s)) (rs_used s) \<and>
     (\<exists>kp. enter_all sample_addr sample_pages 0 [Handler 5 0, Syscall (Jani_Stats 4 32) (replicate 40 7)] (sample_kernel\<lparr>kn_session := Some s\<rparr>) =
        Some (kp, [Started True, Returned mem' 32 False])) \<and>
     (\<exists>kp. enter_all sample_addr sample_pages 0 [Handler 5 0, Syscall (Jani_Stats 4 16) (replicate 40 7), Handler 6 0] (sample_kernel\<lparr>kn_session := Some s\<rparr>) =
        Some (kp, [Started True, Returned (replicate 40 7) (-1) True, Started False]))"
proof -
  let ?va = sample_addr and ?mem = "replicate 40 7 :: bytes" and ?sc = "Jani_Stats 4 32"
  have va: "\<forall>n p l. ?va n p l \<longrightarrow> unat p + unat l \<le> n" "addr_checked ?va" by (simp_all add: addr_checked_def)
  obtain h1 bs where start: "replay_start byte_runtime sample_pages (\<lambda>_. replicate 8 0) 0 replay_kernel =
      Some ((with_heap replay_kernel h1)\<lparr>kn_session := Some (started_session bs)\<rparr>, True)"
    by (rule sample_started)
  define s0 where "s0 = started_session bs"
  define k0 where "k0 = (with_heap replay_kernel h1)\<lparr>kn_session := Some s0\<rparr>"
  have rec: "recording s0 []" "rs_owner s0 = Some 0" by (simp_all add: s0_def started_session_recording)
  define e where "e = handler_call 5 0"
  define s1 where "s1 = append_call s0 0 e"
  have used: "rs_used s0 = 0" using rec(1) by (simp add: recording_def log_holds_def)
  have fits: "call_fits s0 e" by (simp add: call_fits_def e_def handler_call_def replay_call_ok_def used)
  have rh: "replay_handler (Some s0) 0 5 0 = (Some s1, True)"
    using replay_handler_recording [OF rec, of 5 0] fits by (simp add: s1_def e_def)
  have rec1: "recording s1 [e]" "rs_owner s1 = Some 0" using recording_append [OF rec(1) fits] rec(2) by (simp_all add: s1_def)
  define k1 where "k1 = k0\<lparr>kn_session := Some s1\<rparr>"
  have cur: "current_address k0 = Some 0" "current_address k1 = Some 0" "current_component k1 = Some sample_member"
    by (simp_all add: k1_def k0_def with_heap_def replay_kernel_def sample_kernel_def current_address_def current_component_def sample_domain_def)
  have t1: "recorded_trace ?va sample_pages 0 k0 ([] @ [(Handler 5 0, Started True)]) k1"
    using rh cur(1) by (intro trace_next [OF trace_start refl]) (simp_all add: k0_def k1_def)
  define mem' where "mem' = memcpy_at ?mem 4 (encode_metrics (metrics sample_member))"
  have live: "live_call ?va sample_pages ?sc k1 ?mem = Some (k1, mem', 32, False)"
    by (simp add: jani_stats_live_def cur(3) linear_memory_def mem'_def)
  have len: "length mem' = 40" using live_call_safe [OF va(2), of k1 ?mem ?sc sample_pages] live by (auto simp: call_safe_def memory_kept_def)
  have "rs_used s1 = 96" by (simp add: s1_def append_call_def used e_def call_bytes_def handler_call_def encode_replay_record_def call_record_def)
  then have "call_fits s1 (call_of ?va ?sc ?mem mem' 32)"
    by (simp add: call_fits_def replay_call_ok_def call_of_def call_spans_def capture_spans_def captured_def bslice_def len)
  with call_recorded [OF va(2) _ _ rec1(1) live] rec1(2) cur(2) obtain k2
    where "captured_call ?va sample_pages ?sc k1 ?mem = Some (k2, mem', 32, False)" by (auto simp: k1_def)
  moreover have "as_int32 32 = 32" using as_int_of_int(1) [of 32] by simp
  ultimately have call: "jani_symbols ?va sample_pages ?sc k1 ?mem = Some (k2, mem', 32, False)" by (subst jani_symbols_captured) simp
  let ?tr = "[(Handler 5 0, Started True), (Syscall ?sc ?mem, Returned mem' 32 False)]"
  have t2: "recorded_trace ?va sample_pages 0 k0 ?tr k2"
    using trace_next [OF t1 refl cur(2), of "Syscall ?sc ?mem" k2 "Returned mem' 32 False"] call by simp
  obtain s where s: "kn_session k2 = Some s" using recorded_trace_log [OF va(2) t2 _ rec(2,1)] by (auto simp: k0_def)
  let ?s = "s\<lparr>rs_owner := Some 0, rs_mode := REPLAY_PLAY, rs_cursor := 0, rs_sequence := 0\<rparr>"
  have c: "current_address (sample_kernel\<lparr>kn_session := Some ?s\<rparr>) = Some 0" by (simp add: sample_kernel_def current_address_def)
  have sess: "kn_session (sample_kernel\<lparr>kn_session := Some ?s\<rparr>) = Some ?s" by simp
  note main = replay_reproduces_recording [OF va(1) start [folded s0_def, folded k0_def] t2 s]
  have play: "\<exists>kp. enter_all ?va sample_pages 0 xs (sample_kernel\<lparr>kn_session := Some ?s\<rparr>) = Some (kp, replayed ?va ?tr xs)" for xs
    using main [THEN conjunct2, rule_format, OF conjI [OF sess c], of xs] by (elim exE conjE) (rule exI)
  have "replayed ?va ?tr (map fst ?tr) = map snd ?tr"
    using main [THEN conjunct2, rule_format, OF conjI [OF sess c], of "map fst ?tr"] by (elim exE conjE) blast
  moreover have "replayed ?va ?tr [Handler 5 0, Syscall (Jani_Stats 4 16) ?mem, Handler 6 0] =
      [Started True, Returned ?mem (as_int32 (of_int JANI_EINVAL)) True, Started False]"
    by (simp add: Let_def)
  moreover have "as_int32 (of_int JANI_EINVAL) = -1" using as_int_of_int(1) [of "-1"] by (simp add: JANI_EINVAL_def)
  moreover have "replay_log_validate (Some (rs_bytes ?s)) (rs_used ?s)" using main by simp
  ultimately show ?thesis
    using play [of "map fst ?tr"] play [of "[Handler 5 0, Syscall (Jani_Stats 4 16) ?mem, Handler 6 0]"] len
    by (intro exI [of _ ?s] exI [of _ mem']) (simp del: enter_all.simps replayed.simps)
qed

end
