(* ===== verification/Spec2Isabelle.thy ===== *)
theory Spec2Isabelle
  imports Store_Mount Kernel_Pages Virtqueue Scheduler_Progress Replay_Trace
begin

text \<open>
  Verification of the Jani kernel, \<^verbatim>\<open>src/kernel\<close>.

  Jani is an operating system kernel whose programs are WebAssembly components. A component holds
  capabilities to objects in a crash-safe object store, it has a mailbox and a timer, and everything it
  does goes through system calls. The scheduler runs one handler of a component at a time inside a
  transaction of the capability domain: what the handler changed is committed to the store in one batch or
  undone. A run of a component can be recorded and replayed. Below that are the memory management of the
  kernel and the queues of its virtio devices.

  The theories, from the bottom up, with the files they model:

  \<^item> \<open>Jani_Prelude\<close>: machine types, shared lemmas, the locale \<open>closure_sweep\<close> of a loop that marks until
    nothing changes.
  \<^item> \<open>Object_Id\<close>, \<open>Object_Table\<close> (\<^verbatim>\<open>obj/object_id.c, object_table.c\<close>): identifiers as a linear order and the
    sorted table of objects, a versioned map (locale \<open>versioned_map\<close>).
  \<^item> \<open>Capability\<close>, \<open>Cap_Table\<close>, \<open>Derivation\<close> (\<^verbatim>\<open>cap/capability.c, cap_table.c, derivation.c\<close>): rights, the slots
    of a component and the graph of derivations. Derived rights never grow, revocation takes exactly the
    descendants, stale references never resolve.
  \<^item> \<open>Disk_Format\<close>, \<open>Block_Device\<close>, \<open>Store_Bitmap\<close>, \<open>Store_Cache\<close>, \<open>Object_Store\<close>
    (\<^verbatim>\<open>obj/object_store.c, wal.h, object_header.h\<close>, the Zig validators): the structures on disk (locale \<open>codec\<close>),
    the device with its write cache (locales \<open>block_device\<close>, \<open>reliable_device\<close>, \<open>bounded_device\<close>, from the model in
    \<^verbatim>\<open>tools/hosted/test_write_ordering.c\<close>), the allocator, the object cache and every operation of the store.
  \<^item> \<open>Store_Image\<close>, \<open>Store_Device\<close>, \<open>Store_Invariant\<close>, \<open>Store_Format\<close>, \<open>Store_Staging\<close>, \<open>Store_Writing\<close>,
    \<open>Store_Publish\<close>, \<open>Store_Commit\<close>, \<open>Store_Crash\<close>, \<open>Store_Mount\<close>: what a disk image means (\<open>recover_image\<close>), the
    invariant of a store and its disk, the proof that a batch of puts always returns and that a power loss at any
    moment leaves the objects before it or after it, and the proof that \<open>object_store_mount\<close> brings
    back exactly what \<open>recover_image\<close> says of the disk.
  \<^item> \<open>Memory_Layout\<close>, \<open>Frame_Allocator\<close>, \<open>Kernel_Heap\<close>, \<open>Virtual_Memory\<close>, \<open>Kernel_Pages\<close>
    (\<^verbatim>\<open>mm/layout.c, memory_map.c, pmm.c, heap.c, free_list.c, vmm.c, heap_backend.c, mmio.c\<close>): frames, page
    tables as a partial map, the heap over a word-addressed memory, and the heap on its real page source.
  \<^item> \<open>Virtqueue\<close> (\<^verbatim>\<open>drivers/virtqueue.c, virtio_pci.c\<close>): a split queue with a device that may answer anything. The
    descriptor table and the rings have as many entries as the queue, and an access outside of them has no result.
  \<^item> \<open>Mailbox\<close>, \<open>Component_Records\<close>, \<open>Instance_State\<close> (\<^verbatim>\<open>wasm/component.c, component.h, instance_state.c\<close>): the
    messages, the records and the saved state of a component.
  \<^item> \<open>Provenance\<close>, \<open>Lineage_Records\<close> (\<^verbatim>\<open>cap/provenance.c, lineage.c\<close> and their validators).
  \<^item> \<open>Capability_Domain\<close>, \<open>Domain_Graph\<close>, \<open>Domain_Revocation\<close>, \<open>Domain_Transactions\<close>, \<open>Domain_Commit\<close>
    (\<^verbatim>\<open>cap/domain.c, wasm/component_set.c\<close>): the tables of all components and their common graph under
    transactions. The domain stays consistent, revocation is exact across components, authority is confined,
    abort undoes, commit is atomic in memory and on disk.
  \<^item> \<open>Replay_Log\<close>, \<open>Scheduler_Trace\<close>, \<open>Syscalls\<close>, \<open>Syscall_Safety\<close>
    (\<^verbatim>\<open>replay/record.c, sched/scheduler.c, wasm/syscalls.c, syscall_args.zig\<close>): the log of calls, the trace, and the
    system calls with their recording. A call keeps to the spans the guest names, its result is typed and its
    effect is mediated by a capability.
  \<^item> \<open>Wasm_Runtime\<close>, \<open>Scheduler\<close>, \<open>Scheduler_Progress\<close>, \<open>Replay_Run\<close>, \<open>Replay_Trace\<close>
    (\<^verbatim>\<open>wasm/runtime.c, module_validate.zig, sched/scheduler.c, replay/record.c\<close>): instances, the step of the
    scheduler, bounded waiting among components of equal interactivity, the proof that the saved state restores the
    instance a recording began with and that verification decides whether the run was faithful, and the answers
    that a log gives to any sequence of handlers and system calls.
\<close>

text \<open>
  How the code is translated.

  \<^item> A pointer to a structure that a function changes is state: the function takes the record and returns it.
    An output parameter is part of the result. A pointer that may be \<open>NULL\<close> is an option. Pointers to components
    are indices into the set; the address of a component outside the domain is \<open>COMPONENT_MAX\<close>.
  \<^item> Integers keep their width as words, so that they wrap as in C; a \<open>size_t\<close> that counts elements of an array is
    a natural number, with the bound the code checks. Structures that are copied to bytes have encoders and
    decoders with the layout of the compiler.
  \<^item> \<open>None\<close> as the result of a function that allocates or loops means that the code does not return. Loops that
    are not structurally bounded are \<open>partial_function (option)\<close> or have a termination proof, and it is proved that
    they return where a property says so. There is no fuel.
  \<^item> The heap is an explicit memory of words where its own structure matters. Elsewhere a buffer is its bytes,
    with its address where the code frees it.
  \<^item> What is not in the repository is a parameter. The WebAssembly interpreter is a record of functions, and a call of
    a guest function is a tree of system calls, which says that the same instance runs the same way; the laws
    used are that it checks addresses against the size of the memory and, for restoring an instance, that an instance
    is its linear memory with its globals and tables, of which only the memory is written and enlarged
    (\<open>instance_contract\<close>). A device is a parameter with the laws
    of \<open>block_device\<close>, or an arbitrary answer for a virtqueue. The readings of the clock are arguments.

  What is not modelled. The boot sequence and the main loop of \<^verbatim>\<open>boot/main.c\<close>, the processor tables, ports and
  interrupts, and the drivers of the interrupt controller, the timer, the serial port, the keyboard and the bus are
  register accesses without state of their own. The block and network drivers send requests through the queues that
  are modelled, and the system calls of driver components forward to them. Installing, resuming and invoking a component
  outside the scheduler (\<^verbatim>\<open>wasm/component.c\<close>) combine the operations modelled here with console output. The network part
  rests on a third-party cryptographic library. The interface compiler, the C library shim for the interpreter, the
  SDK and the tests are tools. \<open>printk\<close> has no effect but on the console.
\<close>

end
